(* ===== verification/Prelude.thy ===== *)
theory Prelude
  imports Main "HOL-Library.Word"
begin

unbundle bit_operations_syntax

text \<open>
  Shared vocabulary of the development: the machine integers of the Rust sources, the
  \<open>Result\<close> type with the early-return operator \<open>?\<close>, iteration with early return, and
  little-endian byte strings (\<open>to_le_bytes\<close> / \<open>from_le_bytes\<close>), with the lemmas every
  component uses about them.
\<close>

section \<open>Hint collections\<close>

named_theorems codec_intros \<open>introduction rules that build a codec fact piece by piece\<close>
named_theorems word_bits \<open>which bits the layout constants of a boxed value have\<close>

section \<open>Machine integers\<close>

type_synonym u8 = "8 word"
type_synonym u16 = "16 word"
type_synonym u32 = "32 word"
type_synonym u64 = "64 word"

text \<open>
  Lengths and offsets (\<open>usize\<close>) are natural numbers; the supported targets are 64 bit, so
  \<open>checked_add\<close> on \<open>usize\<close> fails from \<open>2 ^ 64\<close> on.
\<close>

definition usize_checked_add :: "nat \<Rightarrow> nat \<Rightarrow> nat option" where
  "usize_checked_add a b = (if a + b < 2 ^ 64 then Some (a + b) else None)"

definition usize_checked_mul :: "nat \<Rightarrow> nat \<Rightarrow> nat option" where
  "usize_checked_mul a b = (if a * b < 2 ^ 64 then Some (a * b) else None)"

lemma usize_checked_add_Some [simp]:
  "a + b < 2 ^ 64 \<Longrightarrow> usize_checked_add a b = Some (a + b)"
  by (simp add: usize_checked_add_def)

lemma usize_checked_mul_Some [simp]:
  "a * b < 2 ^ 64 \<Longrightarrow> usize_checked_mul a b = Some (a * b)"
  by (simp add: usize_checked_mul_def)

lemma unat_of_nat_small:
  "n < 2 ^ LENGTH('a::len) \<Longrightarrow> unat (of_nat n :: 'a word) = n"
  by (simp add: unat_of_nat take_bit_nat_eq_self)

lemma unat_u8_of_nat: "n < 256 \<Longrightarrow> unat (of_nat n :: u8) = n"
  by (simp add: unat_of_nat_small)

lemma unat_u16_of_nat: "n < 65536 \<Longrightarrow> unat (of_nat n :: u16) = n"
  by (simp add: unat_of_nat_small)

lemma unat_u32_of_nat: "n < 2 ^ 32 \<Longrightarrow> unat (of_nat n :: u32) = n"
  by (simp add: unat_of_nat_small)

lemma unat_u64_of_nat: "n < 2 ^ 64 \<Longrightarrow> unat (of_nat n :: u64) = n"
  by (simp add: unat_of_nat_small)

lemma unat_u8_lt: "unat (b :: u8) < 256"
  using unsigned_less [of b] by simp

lemma unat_u16_lt: "unat (b :: u16) < 65536"
  using unsigned_less [of b] by simp

lemma unat_u32_lt: "unat (b :: u32) < 2 ^ 32"
  using unsigned_less [of b] by simp

lemma unat_u64_lt: "unat (b :: u64) < 2 ^ 64"
  using unsigned_less [of b] by simp

section \<open>Results and early return\<close>

text \<open>
  \<open>Result<T, E>\<close> is \<open>'e + 't\<close>. \<open>bindr r f\<close> is \<open>f(r?)\<close>; \<open>ensure b e\<close> is
  \<open>if !b { return Err(e) }\<close>; \<open>ok_or\<close> is the method of that name; \<open>for_each_res\<close> is a
  \<open>for\<close> loop whose body may return early, \<open>fold_res\<close> the same with a loop-carried state.
\<close>

fun bindr :: "'e + 'a \<Rightarrow> ('a \<Rightarrow> 'e + 'b) \<Rightarrow> 'e + 'b" where
  "bindr (Inl e) f = Inl e"
| "bindr (Inr x) f = f x"

definition ensure :: "bool \<Rightarrow> 'e \<Rightarrow> 'e + unit" where
  "ensure b e = (if b then Inr () else Inl e)"

fun ok_or :: "'a option \<Rightarrow> 'e \<Rightarrow> 'e + 'a" where
  "ok_or None e = Inl e"
| "ok_or (Some x) e = Inr x"

fun for_each_res :: "('a \<Rightarrow> 'e + unit) \<Rightarrow> 'a list \<Rightarrow> 'e + unit" where
  "for_each_res f [] = Inr ()"
| "for_each_res f (x # xs) = bindr (f x) (\<lambda>_. for_each_res f xs)"

fun fold_res :: "('s \<Rightarrow> 'a \<Rightarrow> 'e + 's) \<Rightarrow> 's \<Rightarrow> 'a list \<Rightarrow> 'e + 's" where
  "fold_res f s [] = Inr s"
| "fold_res f s (x # xs) = bindr (f s x) (\<lambda>s'. fold_res f s' xs)"

lemma bindr_Inr_iff [simp]: "bindr r f = Inr y \<longleftrightarrow> (\<exists>x. r = Inr x \<and> f x = Inr y)"
  by (cases r) auto

lemma bindr_assoc [simp]: "bindr (bindr r f) g = bindr r (\<lambda>x. bindr (f x) g)"
  by (cases r) auto

lemma ensure_Inr_iff [simp]: "ensure b e = Inr u \<longleftrightarrow> b"
  by (simp add: ensure_def)

lemma ensure_simps [simp]: "ensure True e = Inr ()" "ensure False e = Inl e"
  by (simp_all add: ensure_def)

lemma ok_or_Inr_iff [simp]: "ok_or x e = Inr y \<longleftrightarrow> x = Some y"
  by (cases x) auto

lemma for_each_res_Inr_iff [simp]:
  "for_each_res f xs = Inr u \<longleftrightarrow> (\<forall>x\<in>set xs. f x = Inr ())"
  by (induction xs) auto

lemma for_each_res_Inl:
  "for_each_res f xs = Inl e \<Longrightarrow> \<exists>x\<in>set xs. f x = Inl e"
proof (induction xs)
  case (Cons x xs)
  then show ?case by (cases "f x") auto
qed simp

lemma for_each_res_append [simp]:
  "for_each_res f (xs @ ys) = bindr (for_each_res f xs) (\<lambda>_. for_each_res f ys)"
  by (induction xs) auto

lemma fold_res_append [simp]:
  "fold_res f s (xs @ ys) = bindr (fold_res f s xs) (\<lambda>s'. fold_res f s' ys)"
  by (induction xs arbitrary: s) auto

section \<open>Little-endian byte strings\<close>

fun le_bytes :: "nat \<Rightarrow> nat \<Rightarrow> u8 list" where
  "le_bytes 0 x = []"
| "le_bytes (Suc n) x = of_nat (x mod 256) # le_bytes n (x div 256)"

fun from_le :: "u8 list \<Rightarrow> nat" where
  "from_le [] = 0"
| "from_le (b # bs) = unat b + 256 * from_le bs"

lemma length_le_bytes [simp]: "length (le_bytes n x) = n"
  by (induction n arbitrary: x) auto

lemma from_le_le_bytes: "x < 256 ^ n \<Longrightarrow> from_le (le_bytes n x) = x"
proof (induction n arbitrary: x)
  case (Suc n)
  then have "x div 256 < 256 ^ n"
    by (simp add: less_mult_imp_div_less mult.commute)
  with Suc.IH show ?case by (simp add: unat_u8_of_nat)
qed simp

lemma from_le_less: "from_le bs < 256 ^ length bs"
proof (induction bs)
  case (Cons b bs)
  have "unat b + 256 * from_le bs < 256 + 256 * from_le bs"
    using unat_u8_lt [of b] by simp
  also have "\<dots> = 256 * (from_le bs + 1)" by simp
  also have "\<dots> \<le> 256 * 256 ^ length bs"
    using Cons.IH by (intro mult_le_mono2) simp
  finally show ?case by simp
qed simp

lemma le_bytes_from_le: "length bs = n \<Longrightarrow> le_bytes n (from_le bs) = bs"
proof (induction bs arbitrary: n)
  case (Cons b bs)
  have "(unat b + 256 * from_le bs) mod 256 = unat b"
    and "(unat b + 256 * from_le bs) div 256 = from_le bs"
    using unat_u8_lt [of b] by auto
  with Cons show ?case by auto
qed simp

definition u16_le :: "u16 \<Rightarrow> u8 list" where "u16_le w = le_bytes 2 (unat w)"
definition u32_le :: "u32 \<Rightarrow> u8 list" where "u32_le w = le_bytes 4 (unat w)"
definition u64_le :: "u64 \<Rightarrow> u8 list" where "u64_le w = le_bytes 8 (unat w)"

definition u16_of_le :: "u8 list \<Rightarrow> u16" where "u16_of_le bs = of_nat (from_le bs)"
definition u32_of_le :: "u8 list \<Rightarrow> u32" where "u32_of_le bs = of_nat (from_le bs)"
definition u64_of_le :: "u8 list \<Rightarrow> u64" where "u64_of_le bs = of_nat (from_le bs)"

lemma length_u16_le [simp]: "length (u16_le w) = 2" by (simp add: u16_le_def)
lemma length_u32_le [simp]: "length (u32_le w) = 4" by (simp add: u32_le_def)
lemma length_u64_le [simp]: "length (u64_le w) = 8" by (simp add: u64_le_def)

lemma u16_of_le_u16_le [simp]: "u16_of_le (u16_le w) = w"
  using unat_u16_lt [of w] by (simp add: u16_of_le_def u16_le_def from_le_le_bytes)

lemma u32_of_le_u32_le [simp]: "u32_of_le (u32_le w) = w"
  using unat_u32_lt [of w] by (simp add: u32_of_le_def u32_le_def from_le_le_bytes)

lemma u64_of_le_u64_le [simp]: "u64_of_le (u64_le w) = w"
  using unat_u64_lt [of w] by (simp add: u64_of_le_def u64_le_def from_le_le_bytes)

lemma u16_le_u16_of_le: "length bs = 2 \<Longrightarrow> u16_le (u16_of_le bs) = bs"
  using from_le_less [of bs]
  by (simp add: u16_of_le_def u16_le_def unat_of_nat_small le_bytes_from_le)

lemma u32_le_u32_of_le: "length bs = 4 \<Longrightarrow> u32_le (u32_of_le bs) = bs"
  using from_le_less [of bs]
  by (simp add: u32_of_le_def u32_le_def unat_of_nat_small le_bytes_from_le)

lemma u64_le_u64_of_le: "length bs = 8 \<Longrightarrow> u64_le (u64_of_le bs) = bs"
  using from_le_less [of bs]
  by (simp add: u64_of_le_def u64_le_def unat_of_nat_small le_bytes_from_le)

section \<open>Lists\<close>

lemma drop_prefix_take:
  "drop n xs = bs @ ys \<Longrightarrow> take (length bs) (drop n xs) = bs"
  by simp

lemma drop_prefix_drop:
  "drop n xs = bs @ ys \<Longrightarrow> drop (n + length bs) xs = ys"
  by (metis add.commute append_eq_conv_conj drop_drop)

lemma drop_prefix_length:
  "drop n xs = bs @ ys \<Longrightarrow> n \<le> length xs \<Longrightarrow> n + length bs \<le> length xs"
  by (metis add_le_cancel_left drop_eq_Nil2 le_add1 le_add_diff_inverse length_append length_drop)

definition get_range :: "'a list \<Rightarrow> nat \<Rightarrow> nat \<Rightarrow> 'a list option" where
  \<comment> \<open>\<open>slice.get(start..end)\<close>\<close>
  "get_range xs s e = (if s \<le> e \<and> e \<le> length xs then Some (take (e - s) (drop s xs)) else None)"

definition get_at :: "'a list \<Rightarrow> nat \<Rightarrow> 'a option" where
  \<comment> \<open>\<open>slice.get(index)\<close>\<close>
  "get_at xs i = (if i < length xs then Some (xs ! i) else None)"

lemma get_at_Some_iff: "get_at xs i = Some x \<longleftrightarrow> i < length xs \<and> xs ! i = x"
  by (auto simp: get_at_def)

lemma get_at_None_iff: "get_at xs i = None \<longleftrightarrow> length xs \<le> i"
  by (auto simp: get_at_def)

lemma get_at_map [simp]: "get_at (map f xs) i = map_option f (get_at xs i)"
  by (simp add: get_at_def)

lemma get_range_SomeD:
  "get_range xs s e = Some ys \<Longrightarrow> length ys = e - s \<and> s \<le> e \<and> e \<le> length xs \<and> ys = take (e - s) (drop s xs)"
  by (auto simp: get_range_def split: if_splits)

end
