(* ===== verification/Rust_Str.thy ===== *)
theory Rust_Str
  imports Prelude
begin

text \<open>
  Rust strings. A \<open>char\<close> is a Unicode scalar value, a \<open>str\<close> a sequence of them;
  \<open>as_bytes\<close> is its UTF-8 encoding, \<open>str::from_utf8\<close> the validating decoder of the standard
  library, and \<open>encode_utf16\<close> / \<open>String::from_utf16\<close> the UTF-16 pair. The sources use
  these to measure, compare, encode and decode names.
\<close>

type_synonym rstr = "nat list"

definition is_scalar :: "nat \<Rightarrow> bool" where
  "is_scalar c \<longleftrightarrow> c < 0xD800 \<or> (0xE000 \<le> c \<and> c < 0x110000)"

definition valid_str :: "rstr \<Rightarrow> bool" where
  "valid_str s \<longleftrightarrow> list_all is_scalar s"

definition lit :: "string \<Rightarrow> rstr" where
  \<comment> \<open>a string literal of the sources\<close>
  "lit s = map of_char s"

lemma valid_str_simps [simp]:
  "valid_str []" "valid_str (c # s) \<longleftrightarrow> is_scalar c \<and> valid_str s"
  "valid_str (s @ t) \<longleftrightarrow> valid_str s \<and> valid_str t"
  by (auto simp: valid_str_def)

section \<open>UTF-8\<close>

definition utf8_char :: "nat \<Rightarrow> u8 list" where
  "utf8_char c =
     (if c < 0x80 then [of_nat c]
      else if c < 0x800 then [of_nat (0xC0 + c div 64), of_nat (0x80 + c mod 64)]
      else if c < 0x10000 then
        [of_nat (0xE0 + c div 4096), of_nat (0x80 + c div 64 mod 64), of_nat (0x80 + c mod 64)]
      else
        [of_nat (0xF0 + c div 262144), of_nat (0x80 + c div 4096 mod 64),
         of_nat (0x80 + c div 64 mod 64), of_nat (0x80 + c mod 64)])"

definition as_bytes :: "rstr \<Rightarrow> u8 list" where
  "as_bytes s = concat (map utf8_char s)"

lemma as_bytes_ascii: "as_bytes [] = []" "c < 128 \<Longrightarrow> as_bytes (c # s) = of_nat c # as_bytes s"
  by (simp_all add: as_bytes_def utf8_char_def)

definition in_range :: "nat \<Rightarrow> nat \<Rightarrow> u8 \<Rightarrow> bool" where
  "in_range lo hi b \<longleftrightarrow> lo \<le> unat b \<and> unat b \<le> hi"

text \<open>
  The validation table of \<open>core::str::from_utf8\<close>: the first byte gives the width and the range
  of the second byte (which rules out overlong forms, surrogates and values above U+10FFFF);
  every later byte is a continuation byte.
\<close>

definition second_range :: "nat \<Rightarrow> nat \<times> nat" where
  "second_range x =
     (if x = 0xE0 then (0xA0, 0xBF) else if x = 0xED then (0x80, 0x9F)
      else if x = 0xF0 then (0x90, 0xBF) else if x = 0xF4 then (0x80, 0x8F)
      else (0x80, 0xBF))"

definition utf8_width :: "nat \<Rightarrow> nat" where
  "utf8_width x =
     (if x < 0x80 then 1 else if 0xC2 \<le> x \<and> x \<le> 0xDF then 2
      else if 0xE0 \<le> x \<and> x \<le> 0xEF then 3 else if 0xF0 \<le> x \<and> x \<le> 0xF4 then 4 else 0)"

definition second_ok :: "u8 \<Rightarrow> u8 \<Rightarrow> bool" where
  "second_ok b0 b1 = in_range (fst (second_range (unat b0))) (snd (second_range (unat b0))) b1"

definition cont_ok :: "u8 \<Rightarrow> bool" where
  "cont_ok b = in_range 0x80 0xBF b"

definition low6 :: "u8 \<Rightarrow> nat" where
  "low6 b = unat b mod 64"

fun from_utf8 :: "u8 list \<Rightarrow> rstr option" where
  "from_utf8 [] = Some []"
| "from_utf8 (b0 # bs) =
     (if utf8_width (unat b0) = 1 then map_option ((#) (unat b0)) (from_utf8 bs)
      else if utf8_width (unat b0) = 2 then
        (case bs of b1 # r \<Rightarrow>
           (if second_ok b0 b1
            then map_option ((#) (unat b0 mod 32 * 64 + low6 b1)) (from_utf8 r) else None)
         | _ \<Rightarrow> None)
      else if utf8_width (unat b0) = 3 then
        (case bs of b1 # b2 # r \<Rightarrow>
           (if second_ok b0 b1 \<and> cont_ok b2
            then map_option ((#) (unat b0 mod 16 * 4096 + low6 b1 * 64 + low6 b2)) (from_utf8 r)
            else None)
         | _ \<Rightarrow> None)
      else if utf8_width (unat b0) = 4 then
        (case bs of b1 # b2 # b3 # r \<Rightarrow>
           (if second_ok b0 b1 \<and> cont_ok b2 \<and> cont_ok b3
            then map_option ((#) (unat b0 mod 8 * 262144 + low6 b1 * 4096 + low6 b2 * 64 + low6 b3))
                   (from_utf8 r)
            else None)
         | _ \<Rightarrow> None)
      else None)"

text \<open>The base-64 digits of a scalar value, and the bytes that carry them.\<close>

lemma digits2: "c = c div 64 * 64 + c mod (64::nat)"
  by simp

lemma digits3: "c = c div 4096 * 4096 + c div 64 mod 64 * 64 + c mod (64::nat)"
proof -
  have "c div 64 = c div 64 div 64 * 64 + c div 64 mod 64" by simp
  then have "c div 64 = c div 4096 * 64 + c div 64 mod 64" by (simp add: div_mult2_eq [symmetric])
  then show ?thesis using digits2 [of c] by linarith
qed

lemma digits4:
  "c = c div 262144 * 262144 + c div 4096 mod 64 * 4096 + c div 64 mod 64 * 64 + c mod (64::nat)"
proof -
  have "c div 4096 = c div 4096 div 64 * 64 + c div 4096 mod 64" by simp
  then have "c div 4096 = c div 262144 * 64 + c div 4096 mod 64"
    by (simp add: div_mult2_eq [symmetric])
  then show ?thesis using digits3 [of c] by linarith
qed

lemma low6_of: "unat y = 0x80 + d \<Longrightarrow> d < 64 \<Longrightarrow> low6 y = d"
  using mod_add_left_eq [of 128 64 d] by (simp add: low6_def)

lemma from_utf8_2:
  assumes "unat x = 0xC0 + a" "unat y = 0x80 + b" and "2 \<le> a" "a < 32" "b < 64"
  shows "from_utf8 (x # y # bs) = map_option ((#) (a * 64 + b)) (from_utf8 bs)"
proof -
  have "(0xC0 + a) mod 32 = a" using assms mod_add_left_eq [of 192 32 a] by simp
  moreover have "second_ok x y" "utf8_width (unat x) = 2"
    using assms by (simp_all add: second_ok_def in_range_def second_range_def utf8_width_def)
  ultimately show ?thesis using low6_of [OF assms(2,5)] assms(1) by simp
qed

lemma from_utf8_3:
  assumes "unat x = 0xE0 + a" "unat y = 0x80 + b" "unat z = 0x80 + d"
    and "a < 16" "b < 64" "d < 64" and "a = 0 \<Longrightarrow> 32 \<le> b" and "a = 13 \<Longrightarrow> b < 32"
  shows "from_utf8 (x # y # z # bs) = map_option ((#) (a * 4096 + b * 64 + d)) (from_utf8 bs)"
proof -
  have "(0xE0 + a) mod 16 = a" using assms mod_add_left_eq [of 224 16 a] by simp
  moreover have "second_ok x y" "cont_ok z" "utf8_width (unat x) = 3"
    using assms by (auto simp: second_ok_def cont_ok_def in_range_def second_range_def utf8_width_def)
  ultimately show ?thesis using low6_of [OF assms(2,5)] low6_of [OF assms(3,6)] assms(1) by simp
qed

lemma from_utf8_4:
  assumes "unat x = 0xF0 + a" "unat y = 0x80 + b" "unat z = 0x80 + d" "unat w = 0x80 + e"
    and "a < 5" "b < 64" "d < 64" "e < 64" and "a = 0 \<Longrightarrow> 16 \<le> b" and "a = 4 \<Longrightarrow> b < 16"
  shows "from_utf8 (x # y # z # w # bs) =
    map_option ((#) (a * 262144 + b * 4096 + d * 64 + e)) (from_utf8 bs)"
proof -
  have "(0xF0 + a) mod 8 = a" using assms mod_add_left_eq [of 240 8 a] by simp
  moreover have "second_ok x y" "cont_ok z" "cont_ok w" "utf8_width (unat x) = 4"
    using assms by (auto simp: second_ok_def cont_ok_def in_range_def second_range_def utf8_width_def)
  ultimately show ?thesis
    using low6_of [OF assms(2,6)] low6_of [OF assms(3,7)] low6_of [OF assms(4,8)] assms(1) by simp
qed

lemma from_utf8_char:
  assumes "is_scalar c"
  shows "from_utf8 (utf8_char c @ bs) = map_option ((#) c) (from_utf8 bs)"
proof -
  have lt: "c < 0x110000" and sur: "c < 0xD800 \<or> 0xE000 \<le> c"
    using assms by (auto simp: is_scalar_def)
  consider "c < 0x80" | "0x80 \<le> c" "c < 0x800" | "0x800 \<le> c" "c < 0x10000" | "0x10000 \<le> c"
    by linarith
  then show ?thesis
  proof cases
    case 1
    then show ?thesis by (simp add: utf8_char_def unat_u8_of_nat utf8_width_def)
  next
    case 2
    then have "2 \<le> c div 64" "c div 64 < 32" by auto
    with 2 show ?thesis
      using from_utf8_2 [of "of_nat (0xC0 + c div 64)" "c div 64" "of_nat (0x80 + c mod 64)" "c mod 64" bs]
      by (simp add: utf8_char_def unat_u8_of_nat del: of_nat_add)
  next
    case 3
    have a: "c div 4096 < 16" using 3 by auto
    have b: "c div 4096 = 0 \<Longrightarrow> 32 \<le> c div 64 mod 64" using 3 digits3 [of c] by auto
    have d: "c div 4096 = 13 \<Longrightarrow> c div 64 mod 64 < 32" using 3 digits3 [of c] sur by auto
    show ?thesis
      using from_utf8_3 [of "of_nat (0xE0 + c div 4096)" "c div 4096"
          "of_nat (0x80 + c div 64 mod 64)" "c div 64 mod 64" "of_nat (0x80 + c mod 64)" "c mod 64" bs]
        a b d 3 digits3 [of c]
      by (simp add: utf8_char_def unat_u8_of_nat del: of_nat_add)
  next
    case 4
    have a: "c div 262144 < 5" using lt by auto
    have b: "c div 262144 = 0 \<Longrightarrow> 16 \<le> c div 4096 mod 64" using 4 digits4 [of c] by auto
    have d: "c div 262144 = 4 \<Longrightarrow> c div 4096 mod 64 < 16" using lt digits4 [of c] by auto
    show ?thesis
      using from_utf8_4 [of "of_nat (0xF0 + c div 262144)" "c div 262144"
          "of_nat (0x80 + c div 4096 mod 64)" "c div 4096 mod 64"
          "of_nat (0x80 + c div 64 mod 64)" "c div 64 mod 64" "of_nat (0x80 + c mod 64)" "c mod 64" bs]
        a b d 4 digits4 [of c]
      by (simp add: utf8_char_def unat_u8_of_nat del: of_nat_add)
  qed
qed

lemma from_utf8_as_bytes: "valid_str s \<Longrightarrow> from_utf8 (as_bytes s) = Some s"
  by (induction s) (simp_all add: as_bytes_def from_utf8_char)

lemma as_bytes_inj: "valid_str s \<Longrightarrow> valid_str t \<Longrightarrow> as_bytes s = as_bytes t \<Longrightarrow> s = t"
  by (metis from_utf8_as_bytes option.inject)

text \<open>What the decoder accepts is the encoding of its result.\<close>

lemma low_bits:
  "in_range 0x80 0xBF y \<Longrightarrow> \<exists>d. unat y = 0x80 + d \<and> d < 64 \<and> low6 y = d"
proof -
  assume "in_range 0x80 0xBF y"
  then have "unat y = 0x80 + (unat y - 0x80)" "unat y - 0x80 < 64" by (auto simp: in_range_def)
  then show ?thesis using low6_of by blast
qed

lemma second_continues: "second_ok x y \<Longrightarrow> in_range 0x80 0xBF y"
  by (auto simp: second_ok_def second_range_def in_range_def split: if_splits)

lemma byte_of: "unat (y :: u8) = n \<Longrightarrow> of_nat n = y"
  by auto

lemma digit: "q < 64 \<Longrightarrow> (p * 64 + q) div 64 = p \<and> (p * 64 + q) mod 64 = (q :: nat)"
  by simp

lemma utf8_char_2:
  assumes "unat x = 0xC0 + a" "unat y = 0x80 + b" "2 \<le> a" "a < 32" "b < 64"
  shows "utf8_char (a * 64 + b) = [x, y]" "is_scalar (a * 64 + b)"
proof -
  have "(a * 64 + b) div 64 = a" "(a * 64 + b) mod 64 = b" using assms by simp_all
  then show "utf8_char (a * 64 + b) = [x, y]"
    using assms byte_of [OF assms(1)] byte_of [OF assms(2)] by (simp add: utf8_char_def)
  show "is_scalar (a * 64 + b)" using assms by (simp add: is_scalar_def)
qed

lemma utf8_char_3:
  assumes "unat x = 0xE0 + a" "unat y = 0x80 + b" "unat z = 0x80 + d"
    and "a < 16" "b < 64" "d < 64" and "a = 0 \<Longrightarrow> 32 \<le> b" and "a = 13 \<Longrightarrow> b < 32"
  shows "utf8_char (a * 4096 + b * 64 + d) = [x, y, z]" "is_scalar (a * 4096 + b * 64 + d)"
proof -
  let ?c = "a * 4096 + b * 64 + d"
  have c: "?c = (a * 64 + b) * 64 + d" by simp
  have 1: "?c div 64 = a * 64 + b" "?c mod 64 = d" unfolding c using digit [OF assms(6)] by blast+
  moreover have 2: "(a * 64 + b) mod 64 = b" "(a * 64 + b) div 64 = a" using digit [OF assms(5)] by blast+
  moreover have "?c div 4096 = a" using 1(1) 2(2) div_mult2_eq [of ?c 64 64] by simp
  moreover have "\<not> ?c < 0x800" using assms(7) by (cases "a = 0") auto
  moreover have "?c < 0x10000" using assms by simp
  ultimately show "utf8_char ?c = [x, y, z]"
    using byte_of [OF assms(1)] byte_of [OF assms(2)] byte_of [OF assms(3)] by (simp add: utf8_char_def)
  have "?c < 0xD800 \<or> 0xE000 \<le> ?c"
  proof (cases "a \<le> 13")
    case True
    then show ?thesis using assms(8) \<open>d < 64\<close> \<open>b < 64\<close> by (cases "a = 13") auto
  qed auto
  then show "is_scalar ?c" using \<open>?c < 0x10000\<close> by (auto simp: is_scalar_def)
qed

lemma utf8_char_4:
  assumes "unat x = 0xF0 + a" "unat y = 0x80 + b" "unat z = 0x80 + d" "unat w = 0x80 + e"
    and "a < 5" "b < 64" "d < 64" "e < 64" and "a = 0 \<Longrightarrow> 16 \<le> b" and "a = 4 \<Longrightarrow> b < 16"
  shows "utf8_char (a * 262144 + b * 4096 + d * 64 + e) = [x, y, z, w]" "is_scalar (a * 262144 + b * 4096 + d * 64 + e)"
proof -
  let ?c = "a * 262144 + b * 4096 + d * 64 + e"
  have c: "?c = (a * 4096 + b * 64 + d) * 64 + e" "a * 4096 + b * 64 + d = (a * 64 + b) * 64 + d" by simp_all
  have 1: "?c div 64 = a * 4096 + b * 64 + d" "?c mod 64 = e" unfolding c(1) using digit [OF assms(8)] by blast+
  moreover have 2: "(a * 4096 + b * 64 + d) mod 64 = d" "(a * 4096 + b * 64 + d) div 64 = a * 64 + b"
    unfolding c(2) using digit [OF assms(7)] by blast+
  moreover have 3: "(a * 64 + b) mod 64 = b" "(a * 64 + b) div 64 = a" using digit [OF assms(6)] by blast+
  moreover have 4: "?c div 4096 = a * 64 + b" using 1(1) 2(2) div_mult2_eq [of ?c 64 64] by simp
  moreover have "?c div 262144 = a" using 4 3(2) div_mult2_eq [of ?c 4096 64] by simp
  moreover have big: "\<not> ?c < 0x10000" using assms(9) by (cases "a = 0") auto
  ultimately show "utf8_char ?c = [x, y, z, w]"
    using byte_of [OF assms(1)] byte_of [OF assms(2)] byte_of [OF assms(3)] byte_of [OF assms(4)] by (simp add: utf8_char_def)
  have "?c < 0x110000" using assms(5-10) by (cases "a = 4") auto
  then show "is_scalar ?c" using big by (simp add: is_scalar_def)
qed

lemma from_utf8_first:
  assumes "from_utf8 (b0 # bs) = Some s"
  shows "\<exists>c cs r. s = c # cs \<and> is_scalar c \<and> b0 # bs = utf8_char c @ r \<and> from_utf8 r = Some cs"
proof -
  let ?x = "unat b0"
  consider "utf8_width ?x = 1" | "utf8_width ?x = 2" | "utf8_width ?x = 3" | "utf8_width ?x = 4"
    using assms by (auto simp: utf8_width_def split: if_splits)
  then show ?thesis
  proof cases
    case 1
    then have "?x < 0x80" by (auto simp: utf8_width_def split: if_splits)
    then have "utf8_char ?x = [b0]" "is_scalar ?x" by (simp_all add: utf8_char_def is_scalar_def)
    moreover obtain cs where "s = ?x # cs" "from_utf8 bs = Some cs" using assms 1 by auto
    ultimately show ?thesis by fastforce
  next
    case 2
    then obtain b1 r where bs: "bs = b1 # r" "second_ok b0 b1" using assms by (auto split: list.splits if_splits)
    define a where "a = ?x - 0xC0"
    obtain b where b: "unat b1 = 0x80 + b" "b < 64" "low6 b1 = b" using low_bits [OF second_continues [OF bs(2)]] by blast
    have x: "?x = 0xC0 + a" "2 \<le> a" "a < 32" using 2 by (auto simp: a_def utf8_width_def split: if_splits)
    have "?x mod 32 = a" using x mod_add_left_eq [of 192 32 a] by simp
    then obtain cs where "s = (a * 64 + b) # cs" "from_utf8 r = Some cs" using assms 2 bs b(3) by auto
    then show ?thesis using utf8_char_2 [OF x(1) b(1) x(2,3) b(2)] bs(1) by auto
  next
    case 3
    then obtain b1 b2 r where bs: "bs = b1 # b2 # r" "second_ok b0 b1" "cont_ok b2" using assms by (auto split: list.splits if_splits)
    define a where "a = ?x - 0xE0"
    obtain b where b: "unat b1 = 0x80 + b" "b < 64" "low6 b1 = b" using low_bits [OF second_continues [OF bs(2)]] by blast
    obtain d where d: "unat b2 = 0x80 + d" "d < 64" "low6 b2 = d" using low_bits bs(3) unfolding cont_ok_def by blast
    have x: "?x = 0xE0 + a" "a < 16" using 3 by (auto simp: a_def utf8_width_def split: if_splits)
    have "a = 0 \<Longrightarrow> 32 \<le> b" "a = 13 \<Longrightarrow> b < 32" using bs(2) x(1) b(1) by (auto simp: second_ok_def second_range_def in_range_def)
    note c = utf8_char_3 [OF x(1) b(1) d(1) x(2) b(2) d(2) this]
    have "?x mod 16 = a" using x mod_add_left_eq [of 224 16 a] by simp
    then obtain cs where "s = (a * 4096 + b * 64 + d) # cs" "from_utf8 r = Some cs" using assms 3 bs b(3) d(3) by auto
    then show ?thesis using c bs(1) by auto
  next
    case 4
    then obtain b1 b2 b3 r where bs: "bs = b1 # b2 # b3 # r" "second_ok b0 b1" "cont_ok b2" "cont_ok b3"
      using assms by (auto split: list.splits if_splits)
    define a where "a = ?x - 0xF0"
    obtain b where b: "unat b1 = 0x80 + b" "b < 64" "low6 b1 = b" using low_bits [OF second_continues [OF bs(2)]] by blast
    obtain d where d: "unat b2 = 0x80 + d" "d < 64" "low6 b2 = d" using low_bits bs(3) unfolding cont_ok_def by blast
    obtain e where e: "unat b3 = 0x80 + e" "e < 64" "low6 b3 = e" using low_bits bs(4) unfolding cont_ok_def by blast
    have x: "?x = 0xF0 + a" "a < 5" using 4 by (auto simp: a_def utf8_width_def split: if_splits)
    have "a = 0 \<Longrightarrow> 16 \<le> b" "a = 4 \<Longrightarrow> b < 16" using bs(2) x(1) b(1) by (auto simp: second_ok_def second_range_def in_range_def)
    note c = utf8_char_4 [OF x(1) b(1) d(1) e(1) x(2) b(2) d(2) e(2) this]
    have "?x mod 8 = a" using x mod_add_left_eq [of 240 8 a] by simp
    then obtain cs where "s = (a * 262144 + b * 4096 + d * 64 + e) # cs" "from_utf8 r = Some cs" using assms 4 bs b(3) d(3) e(3) by auto
    then show ?thesis using c bs(1) by auto
  qed
qed

lemma from_utf8_Some: "from_utf8 bs = Some s \<Longrightarrow> as_bytes s = bs \<and> valid_str s"
proof (induction "length bs" arbitrary: bs s rule: less_induct)
  case less
  show ?case
  proof (cases bs)
    case Nil
    then show ?thesis using less.prems by (simp add: as_bytes_def)
  next
    case (Cons b0 r0)
    then obtain c cs r where c: "s = c # cs" "is_scalar c" "bs = utf8_char c @ r" "from_utf8 r = Some cs"
      using from_utf8_first less.prems by blast
    have "utf8_char c \<noteq> []" by (simp add: utf8_char_def)
    then have "length r < length bs" using c(3) by simp
    from less.hyps [OF this c(4)] show ?thesis using c by (simp add: as_bytes_def)
  qed
qed

section \<open>UTF-16\<close>

definition utf16_char :: "nat \<Rightarrow> u16 list" where
  "utf16_char c =
     (if c < 0x10000 then [of_nat c]
      else [of_nat (0xD800 + (c - 0x10000) div 1024), of_nat (0xDC00 + (c - 0x10000) mod 1024)])"

definition encode_utf16 :: "rstr \<Rightarrow> u16 list" where
  "encode_utf16 s = concat (map utf16_char s)"

fun from_utf16 :: "u16 list \<Rightarrow> rstr option" where
  "from_utf16 [] = Some []"
| "from_utf16 (u # us) =
     (let x = unat u in
      if x < 0xD800 \<or> 0xDFFF < x then map_option ((#) x) (from_utf16 us)
      else if 0xDC00 \<le> x then None
      else (case us of [] \<Rightarrow> None
            | v # r \<Rightarrow>
               (if 0xDC00 \<le> unat v \<and> unat v \<le> 0xDFFF
                then map_option ((#) (0x10000 + (x - 0xD800) * 1024 + (unat v - 0xDC00))) (from_utf16 r)
                else None)))"

lemma from_utf16_char:
  assumes "is_scalar c"
  shows "from_utf16 (utf16_char c @ us) = map_option ((#) c) (from_utf16 us)"
proof (cases "c < 0x10000")
  case True
  with assms show ?thesis
    by (auto simp: utf16_char_def unat_u16_of_nat is_scalar_def Let_def)
next
  case False
  define x y where "x = 0xD800 + (c - 0x10000) div 1024" and "y = 0xDC00 + (c - 0x10000) mod 1024"
  have b: "0xD800 \<le> x" "x < 0xDC00" "0xDC00 \<le> y" "y \<le> 0xDFFF"
    using False assms by (auto simp: x_def y_def is_scalar_def)
  have v: "0x10000 + (x - 0xD800) * 1024 + (y - 0xDC00) = c"
    using False unfolding x_def y_def by simp
  have u: "utf16_char c = [of_nat x, of_nat y]"
    using False by (simp add: utf16_char_def x_def y_def)
  show ?thesis unfolding u using b v
    by (simp add: unat_u16_of_nat Let_def)
qed

lemma from_utf16_encode_utf16: "valid_str s \<Longrightarrow> from_utf16 (encode_utf16 s) = Some s"
  by (induction s) (simp_all add: encode_utf16_def from_utf16_char)

section \<open>Comparison and search\<close>

definition starts_with :: "rstr \<Rightarrow> rstr \<Rightarrow> bool" where
  "starts_with s p \<longleftrightarrow> take (length p) s = p"

end
