(* ===== verification/Values.thy ===== *)
theory Values
  imports Prelude Rust_Str
begin

text \<open>
  JavaScript values as 64-bit words (\<open>wjsm-ir/src/value.rs\<close>): NaN boxing, tagged handles,
  strings stored in the word itself (ASCII and Latin-1), object-template keys and the garbage
  collector's colour bits. The \<open>i64\<close> of the sources is a \<open>u64\<close> here; the casts between the two
  keep the bits. A \<open>f64\<close> is its bit pattern.

  The proofs read a word through its bit fields: \<open>field k w x\<close> are the \<open>w\<close> bits of \<open>x\<close> from
  bit \<open>k\<close> on, and every predicate of the sources is a statement about a few fields.
\<close>

section \<open>Layout\<close>

definition MASK_SIGN :: u64 where "MASK_SIGN = 0x8000000000000000"
definition MASK_EXPONENT :: u64 where "MASK_EXPONENT = 0x7FF0000000000000"
definition MASK_QUIET_NAN :: u64 where "MASK_QUIET_NAN = 0x0008000000000000"
definition MASK_PAYLOAD :: u64 where "MASK_PAYLOAD = 0x0007FFFFFFFFFFFF"
definition BOX_BASE :: u64 where "BOX_BASE = MASK_SIGN OR MASK_EXPONENT OR MASK_QUIET_NAN"

definition TAG_NATIVE_CALLABLE :: u64 where "TAG_NATIVE_CALLABLE = 0x0"
definition TAG_STRING :: u64 where "TAG_STRING = 0x1"
definition TAG_UNDEFINED :: u64 where "TAG_UNDEFINED = 0x2"
definition TAG_NULL :: u64 where "TAG_NULL = 0x3"
definition TAG_BOOL :: u64 where "TAG_BOOL = 0x4"
definition TAG_EXCEPTION :: u64 where "TAG_EXCEPTION = 0x5"
definition TAG_ITERATOR :: u64 where "TAG_ITERATOR = 0x6"
definition TAG_ENUMERATOR :: u64 where "TAG_ENUMERATOR = 0x7"
definition TAG_OBJECT :: u64 where "TAG_OBJECT = 0x8"
definition TAG_FUNCTION :: u64 where "TAG_FUNCTION = 0x9"
definition TAG_CLOSURE :: u64 where "TAG_CLOSURE = 0xA"
definition TAG_ARRAY :: u64 where "TAG_ARRAY = 0xB"
definition TAG_BOUND :: u64 where "TAG_BOUND = 0xC"
definition TAG_BIGINT :: u64 where "TAG_BIGINT = 0xD"
definition TAG_SYMBOL :: u64 where "TAG_SYMBOL = 0xE"
definition TAG_REGEXP :: u64 where "TAG_REGEXP = 0xF"
definition TAG_PROXY :: u64 where "TAG_PROXY = 0x10"
definition TAG_SCOPE_RECORD :: u64 where "TAG_SCOPE_RECORD = 0x11"
definition TAG_ARRAY_HOLE :: u64 where "TAG_ARRAY_HOLE = 0x12"
definition TAG_UNINITIALIZED :: u64 where "TAG_UNINITIALIZED = 0x13"
definition TAG_MASK :: u64 where "TAG_MASK = 0x1F"
definition STRING_RUNTIME_HANDLE_FLAG :: u64 where "STRING_RUNTIME_HANDLE_FLAG = 0x20"

lemmas tag_defs = TAG_NATIVE_CALLABLE_def TAG_STRING_def TAG_UNDEFINED_def TAG_NULL_def
  TAG_BOOL_def TAG_EXCEPTION_def TAG_ITERATOR_def TAG_ENUMERATOR_def TAG_OBJECT_def
  TAG_FUNCTION_def TAG_CLOSURE_def TAG_ARRAY_def TAG_BOUND_def TAG_BIGINT_def TAG_SYMBOL_def
  TAG_REGEXP_def TAG_PROXY_def TAG_SCOPE_RECORD_def TAG_ARRAY_HOLE_def TAG_UNINITIALIZED_def

definition INLINE_STRING_MAX_LEN :: nat where "INLINE_STRING_MAX_LEN = 6"
definition INLINE_STRING_MARKER_SHIFT :: nat where "INLINE_STRING_MARKER_SHIFT = 48"
definition INLINE_STRING_MARKER :: u64 where "INLINE_STRING_MARKER = 5"
definition INLINE_STRING_LATIN1_MARKER :: u64 where "INLINE_STRING_LATIN1_MARKER = 6"
definition INLINE_STRING_MARKER_MASK :: u64 where
  "INLINE_STRING_MARKER_MASK = push_bit INLINE_STRING_MARKER_SHIFT 7"
definition INLINE_STRING_LENGTH_SHIFT :: nat where "INLINE_STRING_LENGTH_SHIFT = 45"
definition INLINE_STRING_LENGTH_MASK :: u64 where
  "INLINE_STRING_LENGTH_MASK = push_bit INLINE_STRING_LENGTH_SHIFT 7"
definition INLINE_STRING_LATIN1_MAX_LEN :: nat where "INLINE_STRING_LATIN1_MAX_LEN = 5"
definition INLINE_STRING_PAYLOAD_MASK :: u64 where "INLINE_STRING_PAYLOAD_MASK = push_bit 42 1 - 1"
definition INLINE_STRING_RESERVED_MASK :: u64 where "INLINE_STRING_RESERVED_MASK = push_bit 42 7"

definition inline_latin1_payload :: "u64 \<Rightarrow> u64" where
  "inline_latin1_payload bits = bits AND NOT BOX_BASE"

definition inline_latin1_wide_payload :: "u64 \<Rightarrow> u64" where
  "inline_latin1_wide_payload bits = inline_latin1_payload bits AND INLINE_STRING_PAYLOAD_MASK"

definition inline_length :: "u64 \<Rightarrow> u64" where
  \<comment> \<open>\<open>(bits & INLINE_STRING_LENGTH_MASK) >> INLINE_STRING_LENGTH_SHIFT\<close>\<close>
  "inline_length bits = drop_bit INLINE_STRING_LENGTH_SHIFT (bits AND INLINE_STRING_LENGTH_MASK)"

section \<open>Strings in the word\<close>

definition is_inline_ascii :: "u64 \<Rightarrow> bool" where
  "is_inline_ascii bits =
     (let len = inline_length bits;
          used_payload = if len = 0 then 0 else push_bit (unat len * 7) 1 - 1
      in bits AND BOX_BASE = BOX_BASE \<and>
         bits AND INLINE_STRING_MARKER_MASK = push_bit INLINE_STRING_MARKER_SHIFT INLINE_STRING_MARKER \<and>
         len \<le> of_nat INLINE_STRING_MAX_LEN \<and>
         bits AND INLINE_STRING_RESERVED_MASK = 0 \<and>
         (bits AND INLINE_STRING_PAYLOAD_MASK) AND NOT used_payload = 0)"

definition is_inline_latin1 :: "u64 \<Rightarrow> bool" where
  "is_inline_latin1 bits =
     (let len = inline_length bits
      in if bits AND BOX_BASE \<noteq> BOX_BASE \<or>
            bits AND INLINE_STRING_MARKER_MASK \<noteq>
              push_bit INLINE_STRING_MARKER_SHIFT INLINE_STRING_LATIN1_MARKER \<or>
            len > of_nat INLINE_STRING_LATIN1_MAX_LEN
         then False
         else
           (let wide = inline_latin1_wide_payload bits;
                used_wide = if len = 0 then 0 else push_bit (unat len * 8) 1 - 1
            in wide AND NOT used_wide = 0 \<and>
               inline_latin1_payload bits AND INLINE_STRING_RESERVED_MASK = 0))"

definition is_inline_string :: "u64 \<Rightarrow> bool" where
  "is_inline_string v \<longleftrightarrow> is_inline_ascii v \<or> is_inline_latin1 v"

definition pack_units :: "nat \<Rightarrow> u8 list \<Rightarrow> u64 \<Rightarrow> u64" where
  \<comment> \<open>\<open>for (index, byte) in bytes.enumerate() { acc |= byte << (index * w) }\<close>\<close>
  "pack_units w bytes acc =
     foldl (\<lambda>acc (i, b). acc OR push_bit (i * w) (ucast b)) acc (enumerate 0 bytes)"

definition encode_inline_ascii :: "u8 list \<Rightarrow> u64 option" where
  "encode_inline_ascii bytes =
     (if length bytes > INLINE_STRING_MAX_LEN \<or> \<not> list_all (\<lambda>b. b < 128) bytes then None
      else
        (let payload = push_bit INLINE_STRING_MARKER_SHIFT INLINE_STRING_MARKER OR
               push_bit INLINE_STRING_LENGTH_SHIFT (of_nat (length bytes))
         in Some (BOX_BASE OR pack_units 7 bytes payload)))"

definition encode_inline_latin1_wide :: "nat \<Rightarrow> u64 \<Rightarrow> u64" where
  "encode_inline_latin1_wide len wide =
     BOX_BASE OR (push_bit INLINE_STRING_MARKER_SHIFT INLINE_STRING_LATIN1_MARKER OR
       push_bit INLINE_STRING_LENGTH_SHIFT (of_nat len) OR (wide AND INLINE_STRING_PAYLOAD_MASK))"

definition encode_inline_latin1 :: "u8 list \<Rightarrow> u64 option" where
  "encode_inline_latin1 bytes =
     (if length bytes > INLINE_STRING_LATIN1_MAX_LEN then None
      else
        (let wide = pack_units 8 bytes 0;
             used_wide = if bytes = [] then 0 else push_bit (length bytes * 8) 1 - 1
         in if wide AND NOT used_wide \<noteq> 0 then None
            else Some (encode_inline_latin1_wide (length bytes) wide)))"

definition decode_inline_ascii :: "u64 \<Rightarrow> u8 list option" where
  "decode_inline_ascii bits =
     (if \<not> is_inline_ascii bits then None
      else Some (map (\<lambda>i. ucast (drop_bit (i * 7) bits AND 0x7F)) [0..<unat (inline_length bits)]))"

definition decode_inline_latin1 :: "u64 \<Rightarrow> u8 list option" where
  "decode_inline_latin1 bits =
     (if \<not> is_inline_latin1 bits then None
      else
        (let wide = inline_latin1_wide_payload bits
         in Some (map (\<lambda>i. ucast (drop_bit (i * 8) wide AND 0xFF)) [0..<unat (inline_length bits)])))"

definition decode_inline_string :: "u64 \<Rightarrow> u8 list option" where
  "decode_inline_string v = (if is_inline_ascii v then decode_inline_ascii v else decode_inline_latin1 v)"

definition inline_string_len :: "u64 \<Rightarrow> u8 option" where
  "inline_string_len v = (if is_inline_string v then Some (ucast (inline_length v)) else None)"

section \<open>Object-template keys\<close>

definition inline_property_key_raw :: "u64 \<Rightarrow> u64 option" where
  "inline_property_key_raw encoded =
     (if \<not> is_inline_string encoded then None
      else Some (push_bit 62 1 OR (encoded AND (push_bit (INLINE_STRING_MARKER_SHIFT + 3) 1 - 1))))"

definition TEMPLATE_NAME_REF_NAMESPACE :: u64 where "TEMPLATE_NAME_REF_NAMESPACE = push_bit 61 1"

definition template_name_ref_key :: "u32 \<Rightarrow> u64" where
  "template_name_ref_key constant_idx = TEMPLATE_NAME_REF_NAMESPACE OR ucast constant_idx"

definition template_key_name_ref :: "u64 \<Rightarrow> u32 option" where
  "template_key_name_ref raw =
     (if raw AND TEMPLATE_NAME_REF_NAMESPACE \<noteq> TEMPLATE_NAME_REF_NAMESPACE then None
      else if raw AND push_bit 62 1 \<noteq> 0 \<or> raw AND push_bit 63 1 \<noteq> 0 then None
      else Some (ucast (raw AND 0x00007FFFFFFFFFFF)))"

section \<open>Tagged values\<close>

definition is_tagged :: "u64 \<Rightarrow> u64 \<Rightarrow> bool" where
  "is_tagged bits tag =
     (let marker = drop_bit INLINE_STRING_MARKER_SHIFT (bits AND INLINE_STRING_MARKER_MASK)
      in bits AND BOX_BASE = BOX_BASE \<and> marker \<noteq> INLINE_STRING_MARKER \<and>
         marker \<noteq> INLINE_STRING_LATIN1_MARKER \<and> drop_bit 32 bits AND TAG_MASK = tag)"

definition encode_handle :: "u64 \<Rightarrow> u32 \<Rightarrow> u64" where
  "encode_handle tag handle = BOX_BASE OR (push_bit 32 tag OR ucast handle)"

definition decode_handle :: "u64 \<Rightarrow> u32" where
  "decode_handle v = ucast (v AND 0xFFFFFFFF)"

text \<open>One predicate per kind.\<close>

definition is_proxy :: "u64 \<Rightarrow> bool" where "is_proxy v = is_tagged v TAG_PROXY"
definition is_scope_record :: "u64 \<Rightarrow> bool" where "is_scope_record v = is_tagged v TAG_SCOPE_RECORD"
definition is_regexp :: "u64 \<Rightarrow> bool" where "is_regexp v = is_tagged v TAG_REGEXP"
definition is_bigint :: "u64 \<Rightarrow> bool" where "is_bigint v = is_tagged v TAG_BIGINT"
definition is_symbol :: "u64 \<Rightarrow> bool" where "is_symbol v = is_tagged v TAG_SYMBOL"
definition is_object :: "u64 \<Rightarrow> bool" where "is_object v = is_tagged v TAG_OBJECT"
definition is_function :: "u64 \<Rightarrow> bool" where "is_function v = is_tagged v TAG_FUNCTION"
definition is_closure :: "u64 \<Rightarrow> bool" where "is_closure v = is_tagged v TAG_CLOSURE"
definition is_bound :: "u64 \<Rightarrow> bool" where "is_bound v = is_tagged v TAG_BOUND"
definition is_native_callable :: "u64 \<Rightarrow> bool" where "is_native_callable v = is_tagged v TAG_NATIVE_CALLABLE"
definition is_array :: "u64 \<Rightarrow> bool" where "is_array v = is_tagged v TAG_ARRAY"
definition is_exception :: "u64 \<Rightarrow> bool" where "is_exception v = is_tagged v TAG_EXCEPTION"
definition is_iterator :: "u64 \<Rightarrow> bool" where "is_iterator v = is_tagged v TAG_ITERATOR"
definition is_enumerator :: "u64 \<Rightarrow> bool" where "is_enumerator v = is_tagged v TAG_ENUMERATOR"
definition is_undefined :: "u64 \<Rightarrow> bool" where "is_undefined v = is_tagged v TAG_UNDEFINED"
definition is_null :: "u64 \<Rightarrow> bool" where "is_null v = is_tagged v TAG_NULL"
definition is_bool :: "u64 \<Rightarrow> bool" where "is_bool v = is_tagged v TAG_BOOL"
definition is_array_hole :: "u64 \<Rightarrow> bool" where "is_array_hole v = is_tagged v TAG_ARRAY_HOLE"
definition is_uninitialized :: "u64 \<Rightarrow> bool" where "is_uninitialized v = is_tagged v TAG_UNINITIALIZED"

lemmas is_kind_defs = is_proxy_def is_scope_record_def is_regexp_def is_bigint_def
  is_symbol_def is_object_def is_function_def is_closure_def is_bound_def
  is_native_callable_def is_array_def is_exception_def is_iterator_def is_enumerator_def
  is_undefined_def is_null_def is_bool_def is_array_hole_def is_uninitialized_def

text \<open>The encoders and decoders of handles.\<close>

definition encode_proxy_handle :: "u32 \<Rightarrow> u64" where
  "encode_proxy_handle h = encode_handle TAG_PROXY h"
definition decode_proxy_handle :: "u64 \<Rightarrow> u32" where
  "decode_proxy_handle v = ucast (v AND 0xFFFFFFFF)"
definition encode_scope_record_handle :: "u32 \<Rightarrow> u64" where
  "encode_scope_record_handle h = encode_handle TAG_SCOPE_RECORD h"
definition decode_scope_record_handle :: "u64 \<Rightarrow> u32" where
  "decode_scope_record_handle v = ucast (v AND 0xFFFFFFFF)"
definition encode_regexp_handle :: "u32 \<Rightarrow> u64" where
  "encode_regexp_handle h = encode_handle TAG_REGEXP h"
definition decode_regexp_handle :: "u64 \<Rightarrow> u32" where
  "decode_regexp_handle v = ucast (v AND 0xFFFFFFFF)"
definition encode_bigint_handle :: "u32 \<Rightarrow> u64" where
  "encode_bigint_handle h = encode_handle TAG_BIGINT h"
definition decode_bigint_handle :: "u64 \<Rightarrow> u32" where
  "decode_bigint_handle v = ucast (v AND 0xFFFFFFFF)"
definition encode_symbol_handle :: "u32 \<Rightarrow> u64" where
  "encode_symbol_handle h = encode_handle TAG_SYMBOL h"
definition decode_symbol_handle :: "u64 \<Rightarrow> u32" where
  "decode_symbol_handle v = ucast (v AND 0xFFFFFFFF)"
definition encode_object_handle :: "u32 \<Rightarrow> u64" where
  "encode_object_handle h = BOX_BASE OR (push_bit 32 TAG_OBJECT OR ucast h)"
definition decode_object_handle :: "u64 \<Rightarrow> u32" where
  "decode_object_handle v = ucast (v AND 0xFFFFFFFF)"
definition encode_function_idx :: "u32 \<Rightarrow> u64" where
  "encode_function_idx h = BOX_BASE OR (push_bit 32 TAG_FUNCTION OR ucast h)"
definition decode_function_idx :: "u64 \<Rightarrow> u32" where
  "decode_function_idx v = ucast (v AND 0xFFFFFFFF)"
definition encode_closure_idx :: "u32 \<Rightarrow> u64" where
  "encode_closure_idx h = BOX_BASE OR (push_bit 32 TAG_CLOSURE OR ucast h)"
definition decode_closure_idx :: "u64 \<Rightarrow> u32" where
  "decode_closure_idx v = ucast (v AND 0xFFFFFFFF)"
definition encode_bound_idx :: "u32 \<Rightarrow> u64" where
  "encode_bound_idx h = BOX_BASE OR (push_bit 32 TAG_BOUND OR ucast h)"
definition decode_bound_idx :: "u64 \<Rightarrow> u32" where
  "decode_bound_idx v = ucast (v AND 0xFFFFFFFF)"
definition encode_native_callable_idx :: "u32 \<Rightarrow> u64" where
  "encode_native_callable_idx h = encode_handle TAG_NATIVE_CALLABLE h"
definition decode_native_callable_idx :: "u64 \<Rightarrow> u32" where
  "decode_native_callable_idx v = ucast (v AND 0xFFFFFFFF)"
definition decode_array_handle :: "u64 \<Rightarrow> u32" where
  "decode_array_handle v = ucast (v AND 0xFFFFFFFF)"
definition encode_exception :: "u32 \<Rightarrow> u64" where
  "encode_exception h = encode_handle TAG_EXCEPTION h"

definition encode_array_hole :: u64 where "encode_array_hole = BOX_BASE OR push_bit 32 TAG_ARRAY_HOLE"
definition encode_uninitialized :: u64 where "encode_uninitialized = BOX_BASE OR push_bit 32 TAG_UNINITIALIZED"
definition encode_undefined :: u64 where "encode_undefined = BOX_BASE OR push_bit 32 TAG_UNDEFINED"
definition encode_null :: u64 where "encode_null = BOX_BASE OR push_bit 32 TAG_NULL"

definition encode_bool :: "bool \<Rightarrow> u64" where
  "encode_bool b = BOX_BASE OR (push_bit 32 TAG_BOOL OR (if b then 1 else 0))"

definition decode_bool :: "u64 \<Rightarrow> bool" where
  "decode_bool v \<longleftrightarrow> v AND 1 = 1"

definition encode_string_ptr :: "u32 \<Rightarrow> u64" where
  "encode_string_ptr ptr = BOX_BASE OR (push_bit 32 TAG_STRING OR ucast ptr)"

definition decode_string_ptr :: "u64 \<Rightarrow> u32" where
  "decode_string_ptr v = ucast (v AND 0xFFFFFFFF)"

definition encode_runtime_string_handle :: "u32 \<Rightarrow> u64" where
  "encode_runtime_string_handle h =
     BOX_BASE OR (push_bit 32 STRING_RUNTIME_HANDLE_FLAG OR push_bit 32 TAG_STRING OR ucast h)"

definition decode_runtime_string_handle :: "u64 \<Rightarrow> u32" where
  "decode_runtime_string_handle v = decode_string_ptr v"

definition is_string :: "u64 \<Rightarrow> bool" where
  "is_string v \<longleftrightarrow> is_inline_string v \<or> is_tagged v TAG_STRING"

definition is_runtime_string_handle :: "u64 \<Rightarrow> bool" where
  "is_runtime_string_handle v \<longleftrightarrow>
     is_tagged v TAG_STRING \<and> drop_bit 32 v AND STRING_RUNTIME_HANDLE_FLAG \<noteq> 0"

text \<open>The strings \<open>typeof\<close> gives, at fixed offsets of the data segment.\<close>

definition encode_typeof_undefined :: u64 where "encode_typeof_undefined = encode_string_ptr 0"
definition encode_typeof_object :: u64 where "encode_typeof_object = encode_string_ptr 10"
definition encode_typeof_boolean :: u64 where "encode_typeof_boolean = encode_string_ptr 17"
definition encode_typeof_string :: u64 where "encode_typeof_string = encode_string_ptr 25"
definition encode_typeof_function :: u64 where "encode_typeof_function = encode_string_ptr 32"
definition encode_typeof_number :: u64 where "encode_typeof_number = encode_string_ptr 41"
definition encode_typeof_symbol :: u64 where "encode_typeof_symbol = encode_string_ptr 48"
definition encode_typeof_bigint :: u64 where "encode_typeof_bigint = encode_string_ptr 55"

section \<open>Numbers\<close>

definition f64_is_nan :: "u64 \<Rightarrow> bool" where
  \<comment> \<open>\<open>f64::is_nan\<close>: exponent all ones, mantissa not zero\<close>
  "f64_is_nan x \<longleftrightarrow> x AND MASK_EXPONENT = MASK_EXPONENT \<and> x AND 0x000FFFFFFFFFFFFF \<noteq> 0"

definition f64_is_zero :: "u64 \<Rightarrow> bool" where
  \<comment> \<open>\<open>f == 0.0\<close>: plus or minus zero\<close>
  "f64_is_zero x \<longleftrightarrow> x AND NOT MASK_SIGN = 0"

definition NAN_BITS :: u64 where "NAN_BITS = 0x7FF8000000000000"

definition encode_f64 :: "u64 \<Rightarrow> u64" where
  "encode_f64 x = (if f64_is_nan x then NAN_BITS else x)"

definition decode_f64 :: "u64 \<Rightarrow> u64" where
  "decode_f64 v = v"

definition is_f64 :: "u64 \<Rightarrow> bool" where
  "is_f64 v \<longleftrightarrow> v AND BOX_BASE \<noteq> BOX_BASE"

section \<open>Classification\<close>

definition is_nullish :: "u64 \<Rightarrow> bool" where
  "is_nullish v \<longleftrightarrow> is_null v \<or> is_undefined v"

definition is_falsy :: "u64 \<Rightarrow> bool" where
  "is_falsy v =
     (if is_undefined v \<or> is_null v then True
      else if is_bool v then \<not> decode_bool v
      else if is_f64 v then f64_is_zero v \<or> f64_is_nan v
      else if is_inline_string v then inline_string_len v = Some 0
      else if is_string v then False
      else False)"

definition is_truthy :: "u64 \<Rightarrow> bool" where
  "is_truthy v \<longleftrightarrow> \<not> is_falsy v"

definition is_callable :: "u64 \<Rightarrow> bool" where
  "is_callable v \<longleftrightarrow> is_function v \<or> is_closure v \<or> is_bound v \<or> is_native_callable v"

definition is_js_object :: "u64 \<Rightarrow> bool" where
  "is_js_object v \<longleftrightarrow> is_object v \<or> is_array v \<or> is_function v \<or> is_closure v \<or> is_bound v \<or>
     is_proxy v \<or> is_native_callable v"

definition tag_needs_root :: "u64 \<Rightarrow> bool" where
  "tag_needs_root v \<longleftrightarrow> is_object v \<or> is_array v \<or> is_function v \<or> is_closure v \<or> is_bound v \<or>
     is_bigint v \<or> is_symbol v \<or> is_regexp v \<or> is_proxy v \<or> is_scope_record v \<or>
     is_native_callable v \<or> is_runtime_string_handle v \<or> is_iterator v \<or> is_enumerator v \<or>
     is_exception v"

definition is_handle_backed_reference :: "u64 \<Rightarrow> bool" where
  "is_handle_backed_reference v = tag_needs_root v"

definition is_heap_reference :: "u64 \<Rightarrow> bool" where
  "is_heap_reference v \<longleftrightarrow> is_object v \<or> is_array v \<or> is_runtime_string_handle v \<or> is_bigint v"

section \<open>Collector colours\<close>

definition GC_COLOR_SHIFT :: nat where "GC_COLOR_SHIFT = 38"
definition GC_COLOR_BITS :: nat where "GC_COLOR_BITS = 6"
definition GC_COLOR_MASK :: u64 where "GC_COLOR_MASK = push_bit GC_COLOR_SHIFT (push_bit GC_COLOR_BITS 1 - 1)"
definition YOUNG_MARK_COLOR_SHIFT :: nat where "YOUNG_MARK_COLOR_SHIFT = GC_COLOR_SHIFT"
definition YOUNG_MARK_COLOR_BITS :: nat where "YOUNG_MARK_COLOR_BITS = 2"
definition YOUNG_MARK_COLOR_MASK :: u64 where
  "YOUNG_MARK_COLOR_MASK = push_bit YOUNG_MARK_COLOR_SHIFT (push_bit YOUNG_MARK_COLOR_BITS 1 - 1)"
definition OLD_MARK_COLOR_SHIFT :: nat where "OLD_MARK_COLOR_SHIFT = GC_COLOR_SHIFT + 2"
definition OLD_MARK_COLOR_BITS :: nat where "OLD_MARK_COLOR_BITS = 2"
definition OLD_MARK_COLOR_MASK :: u64 where
  "OLD_MARK_COLOR_MASK = push_bit OLD_MARK_COLOR_SHIFT (push_bit OLD_MARK_COLOR_BITS 1 - 1)"
definition REMEMBERED_COLOR_SHIFT :: nat where "REMEMBERED_COLOR_SHIFT = GC_COLOR_SHIFT + 4"
definition REMEMBERED_COLOR_BITS :: nat where "REMEMBERED_COLOR_BITS = 2"
definition REMEMBERED_COLOR_MASK :: u64 where
  "REMEMBERED_COLOR_MASK = push_bit REMEMBERED_COLOR_SHIFT (push_bit REMEMBERED_COLOR_BITS 1 - 1)"

record GcColorMask =
  young_mark :: u8
  old_mark :: u8
  remembered :: u8

definition gc_color_mask_empty :: GcColorMask where
  "gc_color_mask_empty = \<lparr>young_mark = 0, old_mark = 0, remembered = 0\<rparr>"

definition gc_pack :: "GcColorMask \<Rightarrow> u64" where
  "gc_pack m =
     push_bit YOUNG_MARK_COLOR_SHIFT (ucast (young_mark m) AND 3) OR
     push_bit OLD_MARK_COLOR_SHIFT (ucast (old_mark m) AND 3) OR
     push_bit REMEMBERED_COLOR_SHIFT (ucast (remembered m) AND 3)"

definition strip_gc_color :: "u64 \<Rightarrow> u64" where
  "strip_gc_color v = (if is_handle_backed_reference v then v AND NOT GC_COLOR_MASK else v)"

definition apply_gc_color :: "u64 \<Rightarrow> GcColorMask \<Rightarrow> u64" where
  \<comment> \<open>the \<open>debug_assert_eq!\<close> of the second branch is not compiled into a release build\<close>
  "apply_gc_color v m =
     (if is_inline_string v then v
      else if \<not> is_handle_backed_reference v then v
      else strip_gc_color v OR gc_pack m)"

definition gc_color_bits :: "u64 \<Rightarrow> u64" where
  "gc_color_bits v = (if \<not> is_handle_backed_reference v then 0 else v AND GC_COLOR_MASK)"

definition has_young_mark_color :: "u64 \<Rightarrow> u8 \<Rightarrow> bool" where
  "has_young_mark_color v c =
     (if \<not> is_handle_backed_reference v then False
      else (let bits = ucast (drop_bit YOUNG_MARK_COLOR_SHIFT (v AND YOUNG_MARK_COLOR_MASK)) :: u8
            in bits = c AND 3 \<and> bits \<noteq> 0))"

definition has_old_mark_color :: "u64 \<Rightarrow> u8 \<Rightarrow> bool" where
  "has_old_mark_color v c =
     (if \<not> is_handle_backed_reference v then False
      else (let bits = ucast (drop_bit OLD_MARK_COLOR_SHIFT (v AND OLD_MARK_COLOR_MASK)) :: u8
            in bits = c AND 3 \<and> bits \<noteq> 0))"

definition has_remembered_color :: "u64 \<Rightarrow> u8 \<Rightarrow> bool" where
  "has_remembered_color v c =
     (if \<not> is_handle_backed_reference v then False
      else (let bits = ucast (drop_bit REMEMBERED_COLOR_SHIFT (v AND REMEMBERED_COLOR_MASK)) :: u8
            in bits = c AND 3 \<and> bits \<noteq> 0))"

section \<open>Bit fields\<close>

definition field :: "nat \<Rightarrow> nat \<Rightarrow> u64 \<Rightarrow> u64" where
  "field k w x = take_bit w (drop_bit k x)"

lemma bit_field: "bit (field k w x) n \<longleftrightarrow> n < w \<and> bit x (k + n)"
  by (simp add: field_def bit_take_bit_iff bit_drop_bit_eq)

lemma bit_below: "take_bit u c = c \<Longrightarrow> bit c n \<Longrightarrow> n < u" for c :: u64
  by (metis bit_take_bit_iff)

lemma and_mask_field: "x AND push_bit k (mask w) = push_bit k (field k w x)"
  by (rule bit_word_eqI) (auto simp: bit_simps bit_field)

lemma drop_push_field: "k + w \<le> 64 \<Longrightarrow> drop_bit k (push_bit k (field k w x)) = field k w x"
  by (rule bit_word_eqI) (auto simp: bit_simps bit_field)

lemma field_push_above: "k + w \<le> j \<Longrightarrow> field k w (push_bit j c) = 0"
  by (rule bit_word_eqI) (auto simp: bit_simps bit_field)

lemma field_push_below: "take_bit u c = c \<Longrightarrow> j + u \<le> k \<Longrightarrow> field k w (push_bit j c) = 0"
  by (rule bit_word_eqI) (auto simp: bit_simps bit_field dest: bit_below)

lemma field_push_at: "take_bit w c = c \<Longrightarrow> k + w \<le> 64 \<Longrightarrow> field k w (push_bit k c) = c"
  by (rule bit_word_eqI) (auto simp: bit_simps bit_field dest: bit_below)

lemma field_low: "take_bit u c = c \<Longrightarrow> u \<le> k \<Longrightarrow> field k w c = 0"
  using field_push_below [of u c 0 k w] by simp

lemma field_low_at: "take_bit w c = c \<Longrightarrow> w \<le> 64 \<Longrightarrow> field 0 w c = c"
  using field_push_at [of w c 0] by simp

lemma push_field_eq_iff:
  "k + w \<le> 64 \<Longrightarrow> take_bit w c = c \<Longrightarrow> push_bit k (field k w x) = push_bit k c \<longleftrightarrow> field k w x = c"
  by (metis drop_push_field field_push_at)

lemma field_or: "field k w (x OR y) = field k w x OR field k w y"
  by (rule bit_word_eqI) (auto simp: bit_simps bit_field)

lemma field_0 [simp]: "field k w 0 = 0"
  by (simp add: field_def)

lemma take_bit_field: "take_bit w (field k w x) = field k w x"
  by (simp add: field_def)

text \<open>The masks of the sources as fields.\<close>

lemma BOX_BASE_mask: "BOX_BASE = push_bit 51 (mask 13)"
  by (simp add: BOX_BASE_def MASK_SIGN_def MASK_EXPONENT_def MASK_QUIET_NAN_def
      mask_eq_exp_minus_1 push_bit_eq_mult)

lemma boxed_iff: "bits AND BOX_BASE = BOX_BASE \<longleftrightarrow> field 51 13 bits = mask 13"
  unfolding BOX_BASE_mask and_mask_field by (rule push_field_eq_iff) simp_all

lemma three_bits: "(7 :: u64) = mask 3"
  by (simp add: mask_eq_exp_minus_1)

lemma marker_eq: "bits AND INLINE_STRING_MARKER_MASK = push_bit 48 (field 48 3 bits)"
  by (simp only: INLINE_STRING_MARKER_MASK_def INLINE_STRING_MARKER_SHIFT_def three_bits
      and_mask_field)

lemma marker_drop: "drop_bit INLINE_STRING_MARKER_SHIFT (bits AND INLINE_STRING_MARKER_MASK) = field 48 3 bits"
  unfolding marker_eq INLINE_STRING_MARKER_SHIFT_def by (rule drop_push_field) simp

lemma marker_is:
  "bits AND INLINE_STRING_MARKER_MASK = push_bit INLINE_STRING_MARKER_SHIFT INLINE_STRING_MARKER \<longleftrightarrow>
     field 48 3 bits = 5"
  "bits AND INLINE_STRING_MARKER_MASK =
     push_bit INLINE_STRING_MARKER_SHIFT INLINE_STRING_LATIN1_MARKER \<longleftrightarrow> field 48 3 bits = 6"
  unfolding marker_eq INLINE_STRING_MARKER_SHIFT_def INLINE_STRING_MARKER_def
    INLINE_STRING_LATIN1_MARKER_def
  by (rule push_field_eq_iff; simp)+

lemma inline_length_field: "inline_length bits = field 45 3 bits"
  unfolding inline_length_def INLINE_STRING_LENGTH_SHIFT_def INLINE_STRING_LENGTH_MASK_def
    three_bits and_mask_field by (rule drop_push_field) simp

lemma reserved_eq: "bits AND INLINE_STRING_RESERVED_MASK = push_bit 42 (field 42 3 bits)"
  by (simp only: INLINE_STRING_RESERVED_MASK_def three_bits and_mask_field)

lemma reserved_zero: "bits AND INLINE_STRING_RESERVED_MASK = 0 \<longleftrightarrow> field 42 3 bits = 0"
  using push_field_eq_iff [of 42 3 0 bits] by (simp add: reserved_eq)

lemma exp_mask: "push_bit n 1 - 1 = (mask n :: u64)"
  by (simp add: mask_eq_exp_minus_1 push_bit_eq_mult)

lemma payload_field: "bits AND INLINE_STRING_PAYLOAD_MASK = field 0 42 bits"
  by (simp only: INLINE_STRING_PAYLOAD_MASK_def exp_mask field_def drop_bit_0 take_bit_eq_mask id_apply)

lemma take_bit_ucast32: "take_bit 32 (ucast (h :: u32) :: u64) = ucast h"
  by (rule bit_word_eqI) (auto simp: bit_simps dest: bit_imp_le_length)

lemma take_bit_ucast8: "take_bit 8 (ucast (h :: u8) :: u64) = ucast h"
  by (rule bit_word_eqI) (auto simp: bit_simps dest: bit_imp_le_length)

text \<open>The predicates of the sources, read off the fields.\<close>

lemma is_f64_field: "is_f64 v \<longleftrightarrow> field 51 13 v \<noteq> mask 13"
  by (simp add: is_f64_def boxed_iff)

lemma tag_field: "drop_bit 32 v AND TAG_MASK = field 32 5 v"
proof -
  have "TAG_MASK = mask 5" by (simp add: TAG_MASK_def mask_eq_exp_minus_1)
  then show ?thesis by (simp add: field_def take_bit_eq_mask)
qed

lemma is_tagged_fields:
  "is_tagged v t \<longleftrightarrow> field 51 13 v = mask 13 \<and> field 48 3 v \<noteq> 5 \<and> field 48 3 v \<noteq> 6 \<and> field 32 5 v = t"
  unfolding is_tagged_def Let_def marker_drop boxed_iff tag_field INLINE_STRING_MARKER_def
    INLINE_STRING_LATIN1_MARKER_def ..

lemma unused_zero:
  "(x AND NOT (if len = 0 then 0 else push_bit (unat len * k) 1 - 1) = 0) \<longleftrightarrow>
     take_bit (unat len * k) x = x" for x len :: u64
proof (cases "len = 0")
  case False
  have "x AND NOT (mask w) = 0 \<longleftrightarrow> take_bit w x = x" for w
    by (auto simp: bit_eq_iff bit_simps)
  with False show ?thesis by (simp only: exp_mask if_False)
qed auto

lemma is_inline_ascii_fields:
  "is_inline_ascii v \<longleftrightarrow> field 51 13 v = mask 13 \<and> field 48 3 v = 5 \<and> field 45 3 v \<le> 6 \<and>
     field 42 3 v = 0 \<and> take_bit (unat (field 45 3 v) * 7) (field 0 42 v) = field 0 42 v"
  unfolding is_inline_ascii_def Let_def inline_length_field boxed_iff marker_is reserved_zero
    payload_field unused_zero INLINE_STRING_MAX_LEN_def
  by (simp only: of_nat_numeral)

lemma inline_latin1_payload_bit: "bit (inline_latin1_payload v) n \<longleftrightarrow> n < 51 \<and> bit v n"
  by (auto simp: inline_latin1_payload_def BOX_BASE_mask bit_simps dest: bit_imp_le_length)

lemma field_latin1_payload: "k + w \<le> 51 \<Longrightarrow> field k w (inline_latin1_payload v) = field k w v"
  by (rule bit_word_eqI) (auto simp: bit_field inline_latin1_payload_bit)

lemma inline_latin1_wide_field: "inline_latin1_wide_payload v = field 0 42 v"
  by (simp add: inline_latin1_wide_payload_def payload_field field_latin1_payload)

lemma is_inline_latin1_fields:
  "is_inline_latin1 v \<longleftrightarrow> field 51 13 v = mask 13 \<and> field 48 3 v = 6 \<and> field 45 3 v \<le> 5 \<and>
     field 42 3 v = 0 \<and> take_bit (unat (field 45 3 v) * 8) (field 0 42 v) = field 0 42 v"
  unfolding is_inline_latin1_def Let_def inline_length_field boxed_iff marker_is reserved_zero
    inline_latin1_wide_field unused_zero INLINE_STRING_LATIN1_MAX_LEN_def
  by (auto simp: field_latin1_payload linorder_not_less)

section \<open>Handles\<close>

lemma field_push_take: "k + w \<le> 64 \<Longrightarrow> field k w (push_bit k c) = take_bit w c"
  by (rule bit_word_eqI) (auto simp: bit_simps bit_field)

lemma field_BOX_BASE: "k + w \<le> 51 \<Longrightarrow> field k w BOX_BASE = 0"
  by (simp add: BOX_BASE_mask field_push_above)

lemma field_boxed: "take_bit 51 x = x \<Longrightarrow> field 51 13 (BOX_BASE OR x) = mask 13"
  by (simp add: field_or BOX_BASE_mask field_push_take field_low)

lemma mask_32: "(0xFFFFFFFF :: u64) = mask 32"
  by (simp add: mask_eq_exp_minus_1)

lemma low32_ucast: "ucast ((v :: u64) AND 0xFFFFFFFF) = (ucast v :: u32)"
  by (rule bit_word_eqI) (simp add: mask_32 bit_simps)

lemma low32_boxed: "ucast ((BOX_BASE OR (push_bit 32 c OR ucast h)) AND 0xFFFFFFFF) = (h :: u32)"
  unfolding low32_ucast by (rule bit_word_eqI) (auto simp: BOX_BASE_mask bit_simps)

text \<open>A word of the shape all handle encoders build: box prefix, a tag part below bit 42 and a handle.\<close>

lemma take_bit_mono: "take_bit u c = c \<Longrightarrow> u \<le> w \<Longrightarrow> take_bit w c = c" for c :: u64
  by (metis min.absorb2 take_bit_take_bit)

lemma handle_fields:
  fixes c :: u64 and h :: u32
  assumes "take_bit 6 c = c"
  defines "v \<equiv> BOX_BASE OR (push_bit 32 c OR ucast h)"
  shows "field 51 13 v = mask 13" "field 48 3 v = 0" "field 45 3 v = 0" "field 42 3 v = 0"
    "field 38 6 v = 0" "field 32 5 v = take_bit 5 c" "field 32 6 v = c"
proof -
  have h: "take_bit 51 (ucast h :: u64) = ucast h" by (rule take_bit_mono [OF take_bit_ucast32]) simp
  have c: "take_bit 51 (push_bit 32 c) = push_bit 32 c"
    using take_bit_mono [OF assms(1), of 19] by (simp add: take_bit_push_bit)
  show "field 51 13 v = mask 13"
    unfolding v_def using h c by (intro field_boxed) (simp only: take_bit_or)
  show "field 48 3 v = 0" "field 45 3 v = 0" "field 42 3 v = 0" "field 38 6 v = 0"
    by (simp_all add: v_def field_or field_BOX_BASE field_push_below [OF assms(1)] field_low [OF take_bit_ucast32])
  show "field 32 5 v = take_bit 5 c" "field 32 6 v = c"
    using assms(1)
    by (simp_all add: v_def field_or field_BOX_BASE field_push_take field_low [OF take_bit_ucast32])
qed

lemma is_tagged_boxed:
  "take_bit 6 c = c \<Longrightarrow>
     is_tagged (BOX_BASE OR (push_bit 32 c OR ucast (h :: u32))) t \<longleftrightarrow> t = take_bit 5 c"
  by (auto simp: is_tagged_fields handle_fields)

lemma is_tagged_handle:
  "take_bit 5 c = c \<Longrightarrow> is_tagged (encode_handle c h) t \<longleftrightarrow> t = c"
  by (simp add: encode_handle_def is_tagged_boxed take_bit_mono)

lemma not_inline_tagged: "is_tagged v t \<Longrightarrow> \<not> is_inline_string v \<and> \<not> is_f64 v"
  by (simp add: is_tagged_fields is_inline_string_def is_inline_ascii_fields is_inline_latin1_fields
      is_f64_field)

lemma is_tagged_unique: "is_tagged v s \<Longrightarrow> is_tagged v t \<Longrightarrow> s = t"
  by (simp add: is_tagged_fields)

lemma inline_not_f64: "is_inline_string v \<Longrightarrow> \<not> is_f64 v"
  by (auto simp: is_inline_string_def is_inline_ascii_fields is_inline_latin1_fields is_f64_field)

lemma inline_exclusive: "is_inline_ascii v \<Longrightarrow> \<not> is_inline_latin1 v"
  by (auto simp: is_inline_ascii_fields is_inline_latin1_fields)

section \<open>Strings in the word: round trips\<close>

lemma pack_units_snoc:
  "pack_units w (bs @ [b]) acc = pack_units w bs acc OR push_bit (length bs * w) (ucast b)"
  by (simp add: pack_units_def enumerate_append_eq)

lemma bit_pack_units:
  assumes "\<forall>b\<in>set bs. take_bit w b = b" and "0 < w" and "w \<le> 8" and "length bs * w \<le> 64"
  shows "bit (pack_units w bs acc) n \<longleftrightarrow>
    bit acc n \<or> n < length bs * w \<and> bit (bs ! (n div w)) (n mod w)"
  using assms(1,4)
proof (induction bs rule: rev_induct)
  case Nil
  then show ?case by (simp add: pack_units_def)
next
  case (snoc b bs)
  have low: "bit b m \<Longrightarrow> m < w" for m using snoc.prems(1) by (simp, metis bit_take_bit_iff)
  have ih: "bit (pack_units w bs acc) n \<longleftrightarrow>
      bit acc n \<or> n < length bs * w \<and> bit (bs ! (n div w)) (n mod w)"
    using snoc.prems by (intro snoc.IH) auto
  consider "n < length bs * w" | "length bs * w \<le> n" "n < (length bs + 1) * w" | "(length bs + 1) * w \<le> n"
    by linarith
  then show ?case
  proof cases
    case 1
    then have "n div w < length bs" by (simp add: less_mult_imp_div_less)
    with 1 ih show ?thesis by (simp add: pack_units_snoc bit_or_iff nth_append bit_push_bit_iff)
  next
    case 2
    then have q: "n div w = length bs"
      using assms(2) by (metis Suc_eq_plus1 div_nat_eqI mult.commute)
    then have "n - length bs * w = n mod w" by (metis minus_div_mult_eq_mod)
    moreover have "n < 64" using 2 snoc.prems(2) by simp
    moreover have "n mod w < 8" using assms(2,3) by (meson less_le_trans mod_less_divisor)
    ultimately show ?thesis using 2 ih q
      by (auto simp: pack_units_snoc bit_or_iff nth_append bit_push_bit_iff bit_ucast_iff)
  next
    case 3
    then have "\<not> bit b (n - length bs * w)" using low [of "n - length bs * w"] by auto
    with 3 ih show ?thesis
      by (auto simp: pack_units_snoc bit_or_iff bit_push_bit_iff bit_ucast_iff)
  qed
qed

lemma take_bit_7_iff: "take_bit 7 b = b \<longleftrightarrow> b < 128" for b :: u8
  by (simp add: word_unat_eq_iff unsigned_take_bit_eq take_bit_nat_eq_self_iff word_less_nat_alt)

lemma word_of_len: "n \<le> 7 \<Longrightarrow> take_bit 3 (of_nat n :: u64) = of_nat n"
  by (simp add: take_bit_of_nat take_bit_nat_eq_self)

lemma pack_units_acc: "pack_units w bs acc = acc OR pack_units w bs 0"
proof (induction bs rule: rev_induct)
  case Nil
  show ?case by (simp add: pack_units_def)
next
  case (snoc b bs)
  then show ?case by (simp add: pack_units_snoc or.assoc)
qed

definition inline_word :: "u64 \<Rightarrow> nat \<Rightarrow> u64 \<Rightarrow> u64" where
  "inline_word marker len wide = BOX_BASE OR ((push_bit 48 marker OR push_bit 45 (of_nat len)) OR wide)"

lemma inline_word_fields:
  assumes "take_bit 3 marker = marker" and "len \<le> 7" and "take_bit 42 wide = wide"
  shows "field 51 13 (inline_word marker len wide) = mask 13"
    and "field 48 3 (inline_word marker len wide) = marker"
    and "field 45 3 (inline_word marker len wide) = of_nat len"
    and "field 42 3 (inline_word marker len wide) = 0"
    and "field 0 42 (inline_word marker len wide) = wide"
proof -
  note l = word_of_len [OF assms(2)]
  have "take_bit 51 (push_bit 48 marker) = push_bit 48 marker"
    and "take_bit 51 (push_bit 45 (of_nat len :: u64)) = push_bit 45 (of_nat len)"
    using assms(1) take_bit_mono [OF l, of 6] by (simp_all add: take_bit_push_bit del: take_bit_of_nat)
  moreover have "take_bit 51 wide = wide" by (rule take_bit_mono [OF assms(3)]) simp
  ultimately show "field 51 13 (inline_word marker len wide) = mask 13"
    unfolding inline_word_def by (intro field_boxed) (simp only: take_bit_or)
  show "field 48 3 (inline_word marker len wide) = marker"
    "field 45 3 (inline_word marker len wide) = of_nat len"
    "field 42 3 (inline_word marker len wide) = 0"
    "field 0 42 (inline_word marker len wide) = wide"
    using assms(1) l
    by (simp_all add: inline_word_def field_or field_BOX_BASE field_push_take field_push_above
        field_push_below [OF l] field_low [OF assms(3)] field_low_at [OF assms(3)])
qed

lemma take_bit_pack_units:
  assumes "\<forall>b\<in>set bs. take_bit w b = b" and "0 < w" "w \<le> 8" and "length bs * w \<le> 42"
  shows "take_bit (length bs * w) (pack_units w bs 0) = pack_units w bs 0"
    and "take_bit 42 (pack_units w bs 0) = pack_units w bs 0"
proof -
  have "length bs * w \<le> 64" using assms(4) by simp
  from bit_pack_units [OF assms(1-3) this, of 0]
  show "take_bit (length bs * w) (pack_units w bs 0) = pack_units w bs 0"
    by (intro bit_word_eqI) (auto simp: bit_simps)
  then show "take_bit 42 (pack_units w bs 0) = pack_units w bs 0"
    by (rule take_bit_mono) (rule assms(4))
qed

lemma encode_inline_ascii_word:
  "length bs \<le> 6 \<Longrightarrow> list_all (\<lambda>b. b < 128) bs \<Longrightarrow>
    encode_inline_ascii bs = Some (inline_word 5 (length bs) (pack_units 7 bs 0))"
  using pack_units_acc [of 7 bs "push_bit 48 5 OR push_bit 45 (of_nat (length bs))"]
  by (simp add: encode_inline_ascii_def inline_word_def INLINE_STRING_MAX_LEN_def
      INLINE_STRING_MARKER_SHIFT_def INLINE_STRING_MARKER_def INLINE_STRING_LENGTH_SHIFT_def)

lemma take_bit_8_all: "\<forall>b\<in>set (bs :: u8 list). take_bit 8 b = b"
  by (simp add: take_bit_word_eq_self)

lemma encode_inline_latin1_word:
  assumes "length bs \<le> 5"
  shows "encode_inline_latin1 bs = Some (inline_word 6 (length bs) (pack_units 8 bs 0))"
proof -
  have l: "length bs * 8 \<le> 42" using assms by simp
  note t = take_bit_pack_units [OF take_bit_8_all _ _ l, simplified]
  have used: "pack_units 8 bs 0 AND NOT (if bs = [] then 0 else push_bit (length bs * 8) 1 - 1) = 0"
  proof (cases "bs = []")
    case False
    have "pack_units 8 bs 0 AND NOT (mask (length bs * 8)) = 0"
      by (subst t(1) [symmetric]) (auto simp: bit_eq_iff bit_simps)
    with False show ?thesis by (simp only: exp_mask if_False)
  qed (simp add: pack_units_def)
  have "field 0 42 (pack_units 8 bs 0) = pack_units 8 bs 0" by (simp add: field_def t)
  then have "encode_inline_latin1_wide (length bs) (pack_units 8 bs 0) =
      inline_word 6 (length bs) (pack_units 8 bs 0)"
    unfolding encode_inline_latin1_wide_def inline_word_def payload_field
    by (simp only: INLINE_STRING_MARKER_SHIFT_def INLINE_STRING_LATIN1_MARKER_def
        INLINE_STRING_LENGTH_SHIFT_def or.assoc)
  then show ?thesis
    using assms by (simp only: encode_inline_latin1_def INLINE_STRING_LATIN1_MAX_LEN_def Let_def used
        not_less [symmetric] if_False simp_thms)
qed

text \<open>A slot of the payload is read by a shift and a mask.\<close>

lemma slot_of_pack:
  assumes "\<forall>b\<in>set bs. take_bit w b = b" and "0 < w" "w \<le> 8" and "length bs * w \<le> 64" and "i < length bs"
  shows "ucast (drop_bit (i * w) (pack_units w bs 0) AND mask w) = bs ! i"
proof (rule bit_word_eqI)
  fix n assume "n < LENGTH(8)"
  have low: "bit (bs ! i) n \<Longrightarrow> n < w" using assms(1,5) by (metis bit_take_bit_iff nth_mem)
  have "bit (pack_units w bs 0) (i * w + n) \<longleftrightarrow> bit (bs ! i) n" if "n < w"
  proof -
    have "i * w + n < (i + 1) * w" using that by simp
    also have "\<dots> \<le> length bs * w" using assms(5) by (intro mult_le_mono1) simp
    finally show ?thesis
      using that by (simp add: bit_pack_units [OF assms(1-4)] add.commute [of "i * w"])
  qed
  then show "bit (ucast (drop_bit (i * w) (pack_units w bs 0) AND mask w) :: u8) n \<longleftrightarrow> bit (bs ! i) n"
    using low \<open>n < LENGTH(8)\<close> by (auto simp: bit_simps)
qed

lemma slot_of_field:
  "i * 7 + 7 \<le> 42 \<Longrightarrow> drop_bit (i * 7) v AND mask 7 = drop_bit (i * 7) (field 0 42 v) AND mask 7"
  by (rule bit_word_eqI) (auto simp: bit_simps bit_field)

lemma decode_inline_ascii_word:
  assumes "length bs \<le> 6" and "list_all (\<lambda>b. b < 128) bs"
  defines "v \<equiv> inline_word 5 (length bs) (pack_units 7 bs 0)"
  shows "is_inline_ascii v" and "decode_inline_ascii v = Some bs"
proof -
  have b: "\<forall>b\<in>set bs. take_bit 7 b = b" using assms(2) by (auto simp: list_all_iff take_bit_7_iff)
  have l: "length bs * 7 \<le> 42" "length bs * 7 \<le> 64" "length bs \<le> 7" using assms(1) by auto
  note t = take_bit_pack_units [OF b _ _ l(1), simplified]
  have m: "take_bit 3 (5 :: u64) = 5" by simp
  note f = inline_word_fields [OF m l(3) t(2), folded v_def]
  have u: "unat (of_nat (length bs) :: u64) = length bs" using assms(1) by (intro unat_u64_of_nat) simp
  have "(of_nat (length bs) :: u64) \<le> 6" using assms(1) u by (simp add: word_le_nat_alt)
  then show i: "is_inline_ascii v"
    unfolding is_inline_ascii_fields f using t(1) u by simp
  have "map (\<lambda>i. ucast (drop_bit (i * 7) v AND 0x7F)) [0..<length bs] = bs"
  proof (rule nth_equalityI)
    fix i assume i: "i < length (map (\<lambda>i. ucast (drop_bit (i * 7) v AND 0x7F) :: u8) [0..<length bs])"
    have "(0x7F :: u64) = mask 7" by (simp add: mask_eq_exp_minus_1)
    with i show "map (\<lambda>i. ucast (drop_bit (i * 7) v AND 0x7F)) [0..<length bs] ! i = bs ! i"
      using slot_of_field [of i v] slot_of_pack [OF b _ _ l(2), of i] f(5) assms(1) by simp
  qed simp
  then show "decode_inline_ascii v = Some bs"
    using i by (simp add: decode_inline_ascii_def inline_length_field f u)
qed

lemma decode_inline_latin1_word:
  assumes "length bs \<le> 5"
  defines "v \<equiv> inline_word 6 (length bs) (pack_units 8 bs 0)"
  shows "is_inline_latin1 v" and "decode_inline_latin1 v = Some bs"
proof -
  have l: "length bs * 8 \<le> 42" "length bs * 8 \<le> 64" "length bs \<le> 7" using assms(1) by auto
  note t = take_bit_pack_units [OF take_bit_8_all _ _ l(1), simplified]
  have m: "take_bit 3 (6 :: u64) = 6" by simp
  note f = inline_word_fields [OF m l(3) t(2), folded v_def]
  have u: "unat (of_nat (length bs) :: u64) = length bs" using assms(1) by (intro unat_u64_of_nat) simp
  have "(of_nat (length bs) :: u64) \<le> 5" using assms(1) u by (simp add: word_le_nat_alt)
  then show i: "is_inline_latin1 v"
    unfolding is_inline_latin1_fields f using t(1) u by simp
  have "map (\<lambda>i. ucast (drop_bit (i * 8) (pack_units 8 bs 0) AND 0xFF)) [0..<length bs] = bs"
  proof (rule nth_equalityI)
    fix i assume i: "i < length (map (\<lambda>i. ucast (drop_bit (i * 8) (pack_units 8 bs 0) AND 0xFF) :: u8) [0..<length bs])"
    have "(0xFF :: u64) = mask 8" by (simp add: mask_eq_exp_minus_1)
    with i show "map (\<lambda>i. ucast (drop_bit (i * 8) (pack_units 8 bs 0) AND 0xFF)) [0..<length bs] ! i = bs ! i"
      using slot_of_pack [OF take_bit_8_all _ _ l(2), of i] by simp
  qed simp
  then show "decode_inline_latin1 v = Some bs"
    using i by (simp add: decode_inline_latin1_def inline_length_field inline_latin1_wide_field f u Let_def)
qed

text \<open>Conversely the fields determine an inline word, so the encoding is canonical.\<close>

lemma boxed_bit: "field 51 13 v = mask 13 \<Longrightarrow> 51 \<le> n \<Longrightarrow> n < 64 \<Longrightarrow> bit v n"
proof -
  assume a: "field 51 13 v = mask 13" "51 \<le> n" "n < 64"
  then have "n - 51 < 13" "n - 51 < 64" by auto
  with a(1) have "bit (field 51 13 v) (n - 51)" by (simp add: bit_mask_iff)
  then have "bit v (51 + (n - 51))" by (simp only: bit_field)
  with a(2) show "bit v n" by simp
qed

lemma inline_word_of_fields:
  assumes "field 51 13 v = mask 13" and "field 42 3 v = 0" and "len = unat (field 45 3 v)"
  shows "v = inline_word (field 48 3 v) len (field 0 42 v)"
proof (rule bit_word_eqI)
  fix n assume n: "n < LENGTH(64)"
  have r: "\<not> bit v n" if "42 \<le> n" "n < 45" for n
    using arg_cong [OF assms(2), of "\<lambda>x. bit x (n - 42)"] that by (simp add: bit_field)
  have w: "bit (inline_word (field 48 3 v) len (field 0 42 v)) n \<longleftrightarrow>
      51 \<le> n \<or> 48 \<le> n \<and> n < 51 \<and> bit v n \<or> 45 \<le> n \<and> n < 48 \<and> bit v n \<or> n < 42 \<and> bit v n"
    using n by (auto simp: inline_word_def assms(3) BOX_BASE_mask bit_simps bit_field)
  show "bit v n \<longleftrightarrow> bit (inline_word (field 48 3 v) len (field 0 42 v)) n"
    unfolding w using n boxed_bit [OF assms(1), of n] r [of n] by force
qed

lemma bit_slot:
  fixes x :: u64
  assumes "n < 8" and "w \<le> 8"
  shows "bit (ucast (drop_bit (i * w) x AND mask w) :: u8) n \<longleftrightarrow> n < w \<and> bit x (i * w + n)"
  using assms by (auto simp: bit_simps)

lemma pack_of_slots:
  fixes x :: u64
  assumes "take_bit (k * w) x = x" and "0 < w" "w \<le> 8" and "k * w \<le> 64"
  shows "pack_units w (map (\<lambda>i. ucast (drop_bit (i * w) x AND mask w)) [0..<k]) 0 = x"
    (is "pack_units w ?bs 0 = x")
proof (rule bit_word_eqI)
  fix n assume "n < LENGTH(64)"
  have b: "\<forall>b\<in>set ?bs. take_bit w b = b"
    using assms(3) by (auto intro!: bit_word_eqI simp: bit_simps)
  have l: "length ?bs * w \<le> 64" using assms(4) by simp
  have lt: "bit x n \<Longrightarrow> n < k * w" using assms(1) by (rule bit_below)
  have "bit (?bs ! (n div w)) (n mod w) \<longleftrightarrow> bit x n" if "n < k * w"
  proof -
    have q: "n div w < k" using that by (simp add: less_mult_imp_div_less)
    have m: "n mod w < w" using assms(2) by simp
    have "n div w * w + n mod w = n" by simp
    with q m show ?thesis using bit_slot [of "n mod w" w "n div w" x] assms(3) by simp
  qed
  then show "bit (pack_units w ?bs 0) n \<longleftrightarrow> bit x n"
    using lt by (auto simp: bit_pack_units [OF b assms(2,3) l])
qed

lemma inline_ascii_canonical:
  assumes "is_inline_ascii v"
  shows "\<exists>bs. decode_inline_ascii v = Some bs \<and> encode_inline_ascii bs = Some v"
proof -
  let ?k = "unat (field 45 3 v)"
  from assms have f: "field 51 13 v = mask 13" "field 48 3 v = 5" "field 45 3 v \<le> 6"
     "field 42 3 v = 0" "take_bit (?k * 7) (field 0 42 v) = field 0 42 v"
    by (simp_all add: is_inline_ascii_fields)
  have k: "?k \<le> 6" using f(3) by (simp add: word_le_nat_alt)
  let ?bs = "map (\<lambda>i. ucast (drop_bit (i * 7) (field 0 42 v) AND mask 7)) [0..<?k] :: u8 list"
  have m7: "(0x7F :: u64) = mask 7" by (simp add: mask_eq_exp_minus_1)
  have "decode_inline_ascii v = Some ?bs"
    using assms k slot_of_field [of _ v]
    by (simp add: decode_inline_ascii_def inline_length_field m7)
  moreover have "list_all (\<lambda>b. b < 128) ?bs"
    by (auto simp: list_all_iff take_bit_7_iff [symmetric] intro!: bit_word_eqI)
      (auto simp: bit_simps)
  moreover have "pack_units 7 ?bs 0 = field 0 42 v"
    using k by (intro pack_of_slots f(5)) simp_all
  ultimately show ?thesis
    using k inline_word_of_fields [OF f(1,4) refl] f(2) encode_inline_ascii_word [of ?bs] by auto
qed

lemma inline_latin1_canonical:
  assumes "is_inline_latin1 v"
  shows "\<exists>bs. decode_inline_latin1 v = Some bs \<and> encode_inline_latin1 bs = Some v"
proof -
  let ?k = "unat (field 45 3 v)"
  from assms have f: "field 51 13 v = mask 13" "field 48 3 v = 6" "field 45 3 v \<le> 5"
     "field 42 3 v = 0" "take_bit (?k * 8) (field 0 42 v) = field 0 42 v"
    by (simp_all add: is_inline_latin1_fields)
  have k: "?k \<le> 5" using f(3) by (simp add: word_le_nat_alt)
  let ?bs = "map (\<lambda>i. ucast (drop_bit (i * 8) (field 0 42 v) AND mask 8)) [0..<?k] :: u8 list"
  have m8: "(0xFF :: u64) = mask 8" by (simp add: mask_eq_exp_minus_1)
  have "decode_inline_latin1 v = Some ?bs"
    using assms by (simp add: decode_inline_latin1_def inline_length_field m8 inline_latin1_wide_field Let_def)
  moreover have "pack_units 8 ?bs 0 = field 0 42 v"
    using k by (intro pack_of_slots f(5)) simp_all
  ultimately show ?thesis
    using k inline_word_of_fields [OF f(1,4) refl] f(2) encode_inline_latin1_word [of ?bs] by auto
qed

section \<open>Colours\<close>

lemma gc_mask: "GC_COLOR_MASK = push_bit 38 (mask 6)"
  by (simp only: GC_COLOR_MASK_def GC_COLOR_SHIFT_def GC_COLOR_BITS_def exp_mask)

lemma three: "(3 :: 'a::len word) = mask 2"
  by (simp add: mask_eq_exp_minus_1)

lemma bit_colour:
  "k + 2 \<le> 64 \<Longrightarrow> bit (push_bit k (ucast (c :: u8) AND 3) :: u64) n \<longleftrightarrow> k \<le> n \<and> n < k + 2 \<and> bit c (n - k)"
  by (cases "k \<le> n") (auto simp: three bit_simps dest: bit_imp_le_length)

lemma bit_gc_pack:
  "bit (gc_pack m) n \<longleftrightarrow>
     38 \<le> n \<and> n < 40 \<and> bit (young_mark m) (n - 38) \<or>
     40 \<le> n \<and> n < 42 \<and> bit (old_mark m) (n - 40) \<or>
     42 \<le> n \<and> n < 44 \<and> bit (remembered m) (n - 42)"
proof -
  have s: "YOUNG_MARK_COLOR_SHIFT = 38" "OLD_MARK_COLOR_SHIFT = 40" "REMEMBERED_COLOR_SHIFT = 42"
    by (simp_all add: YOUNG_MARK_COLOR_SHIFT_def OLD_MARK_COLOR_SHIFT_def
        REMEMBERED_COLOR_SHIFT_def GC_COLOR_SHIFT_def)
  show ?thesis
    unfolding gc_pack_def s bit_or_iff
    using bit_colour [of 38 "young_mark m" n] bit_colour [of 40 "old_mark m" n]
      bit_colour [of 42 "remembered m" n]
    by simp
qed

lemma bit_gc_pack_range: "bit (gc_pack m) n \<Longrightarrow> 38 \<le> n \<and> n < 44"
  unfolding bit_gc_pack by linarith

lemma bit_gc_mask: "bit GC_COLOR_MASK n \<longleftrightarrow> 38 \<le> n \<and> n < 44"
  by (auto simp: gc_mask bit_push_bit_iff bit_mask_iff)

lemma bit_recolour:
  assumes "n < 38 \<or> 44 \<le> n"
  shows "bit ((v AND NOT GC_COLOR_MASK) OR gc_pack m) n = bit v n"
    and "bit (v AND NOT GC_COLOR_MASK) n = bit v n"
proof -
  have "\<not> bit (gc_pack m) n" "\<not> bit GC_COLOR_MASK n"
    using assms bit_gc_pack_range [of m n] by (auto simp: bit_gc_mask)
  moreover have "bit v n \<Longrightarrow> n < 64" using bit_imp_le_length [of v n] by simp
  ultimately show "bit ((v AND NOT GC_COLOR_MASK) OR gc_pack m) n = bit v n"
    and "bit (v AND NOT GC_COLOR_MASK) n = bit v n"
    by (auto simp: bit_or_iff bit_and_iff bit_not_iff)
qed

lemma field_recolour:
  assumes "k + w \<le> 38 \<or> 44 \<le> k"
  shows "field k w ((v AND NOT GC_COLOR_MASK) OR gc_pack m) = field k w v"
    and "field k w (v AND NOT GC_COLOR_MASK) = field k w v"
proof -
  have "n < w \<Longrightarrow> k + n < 38 \<or> 44 \<le> k + n" for n using assms by linarith
  then show "field k w ((v AND NOT GC_COLOR_MASK) OR gc_pack m) = field k w v"
    and "field k w (v AND NOT GC_COLOR_MASK) = field k w v"
    by (auto intro!: bit_eqI simp: bit_field bit_recolour)
qed

lemma is_tagged_recolour:
  "is_tagged ((v AND NOT GC_COLOR_MASK) OR gc_pack m) t = is_tagged v t"
  "is_tagged (v AND NOT GC_COLOR_MASK) t = is_tagged v t"
  by (simp_all add: is_tagged_fields field_recolour)

lemma runtime_flag: "drop_bit 32 v AND STRING_RUNTIME_HANDLE_FLAG \<noteq> 0 \<longleftrightarrow> field 37 1 v \<noteq> 0"
proof -
  have f: "STRING_RUNTIME_HANDLE_FLAG = push_bit 5 (mask 1)"
    by (simp add: STRING_RUNTIME_HANDLE_FLAG_def mask_eq_exp_minus_1)
  have "push_bit 5 (field 5 1 (drop_bit 32 v)) = 0 \<longleftrightarrow> field 5 1 (drop_bit 32 v) = 0"
    using push_field_eq_iff [of 5 1 0 "drop_bit 32 v"] by simp
  moreover have "field 5 1 (drop_bit 32 v) = field 37 1 v" by (simp add: field_def drop_bit_drop_bit)
  ultimately show ?thesis unfolding f and_mask_field by simp
qed

lemma reference_recolour:
  "is_handle_backed_reference ((v AND NOT GC_COLOR_MASK) OR gc_pack m) = is_handle_backed_reference v"
  "is_handle_backed_reference (v AND NOT GC_COLOR_MASK) = is_handle_backed_reference v"
  by (simp_all only: is_handle_backed_reference_def tag_needs_root_def is_kind_defs
      is_runtime_string_handle_def runtime_flag is_tagged_recolour) (simp_all add: field_recolour)

lemma reference_not_inline: "is_handle_backed_reference v \<Longrightarrow> \<not> is_inline_string v \<and> \<not> is_f64 v"
  using not_inline_tagged
  by (auto simp: is_handle_backed_reference_def tag_needs_root_def is_kind_defs
      is_runtime_string_handle_def)

lemma apply_gc_color_reference:
  "is_handle_backed_reference v \<Longrightarrow> apply_gc_color v m = (v AND NOT GC_COLOR_MASK) OR gc_pack m"
  by (simp add: apply_gc_color_def strip_gc_color_def reference_not_inline)

lemma young_field: "drop_bit YOUNG_MARK_COLOR_SHIFT (v AND YOUNG_MARK_COLOR_MASK) = field 38 2 v"
  unfolding YOUNG_MARK_COLOR_SHIFT_def YOUNG_MARK_COLOR_MASK_def YOUNG_MARK_COLOR_BITS_def
    GC_COLOR_SHIFT_def exp_mask and_mask_field by (rule drop_push_field) simp

lemma old_field: "drop_bit OLD_MARK_COLOR_SHIFT (v AND OLD_MARK_COLOR_MASK) = field 40 2 v"
proof -
  have "OLD_MARK_COLOR_SHIFT = 40" by (simp add: OLD_MARK_COLOR_SHIFT_def GC_COLOR_SHIFT_def)
  then show ?thesis
    unfolding OLD_MARK_COLOR_MASK_def OLD_MARK_COLOR_BITS_def exp_mask and_mask_field
    by (simp only:) (rule drop_push_field, simp)
qed

lemma remembered_field: "drop_bit REMEMBERED_COLOR_SHIFT (v AND REMEMBERED_COLOR_MASK) = field 42 2 v"
proof -
  have "REMEMBERED_COLOR_SHIFT = 42" by (simp add: REMEMBERED_COLOR_SHIFT_def GC_COLOR_SHIFT_def)
  then show ?thesis
    unfolding REMEMBERED_COLOR_MASK_def REMEMBERED_COLOR_BITS_def exp_mask and_mask_field
    by (simp only:) (rule drop_push_field, simp)
qed

lemma has_colour_fields:
  "has_young_mark_color v c \<longleftrightarrow> is_handle_backed_reference v \<and>
     (ucast (field 38 2 v) :: u8) = c AND 3 \<and> c AND 3 \<noteq> 0"
  "has_old_mark_color v c \<longleftrightarrow> is_handle_backed_reference v \<and>
     (ucast (field 40 2 v) :: u8) = c AND 3 \<and> c AND 3 \<noteq> 0"
  "has_remembered_color v c \<longleftrightarrow> is_handle_backed_reference v \<and>
     (ucast (field 42 2 v) :: u8) = c AND 3 \<and> c AND 3 \<noteq> 0"
  unfolding has_young_mark_color_def has_old_mark_color_def has_remembered_color_def Let_def
    young_field old_field remembered_field by auto

lemma recoloured_fields:
  "ucast (field 38 2 ((v AND NOT GC_COLOR_MASK) OR gc_pack m)) = young_mark m AND 3"
  "ucast (field 40 2 ((v AND NOT GC_COLOR_MASK) OR gc_pack m)) = old_mark m AND 3"
  "ucast (field 42 2 ((v AND NOT GC_COLOR_MASK) OR gc_pack m)) = remembered m AND 3"
  by (rule bit_word_eqI; auto simp: bit_field gc_mask bit_simps bit_gc_pack three)+

text \<open>All handle encoders build the same shape, so their facts are those of the shape.\<close>

lemmas handle_codec_defs = encode_object_handle_def encode_function_idx_def encode_closure_idx_def
  encode_bound_idx_def encode_native_callable_idx_def encode_bigint_handle_def
  encode_symbol_handle_def encode_regexp_handle_def encode_proxy_handle_def
  encode_scope_record_handle_def encode_exception_def encode_string_ptr_def encode_handle_def
  encode_runtime_string_handle_def decode_object_handle_def decode_function_idx_def
  decode_closure_idx_def decode_bound_idx_def decode_native_callable_idx_def
  decode_bigint_handle_def decode_symbol_handle_def decode_regexp_handle_def
  decode_proxy_handle_def decode_scope_record_handle_def decode_handle_def decode_array_handle_def
  decode_runtime_string_handle_def decode_string_ptr_def

definition rooted_part :: "u64 \<Rightarrow> bool" where
  \<comment> \<open>the tag parts (tag and runtime flag) of the rooted kinds\<close>
  "rooted_part c \<longleftrightarrow> take_bit 5 c \<in> {0, 5, 6, 7, 8, 9, 10, 11, 12, 13, 14, 15, 16, 17} \<or>
     take_bit 5 c = 1 \<and> drop_bit 5 c \<noteq> 0"

definition boxed :: "u64 \<Rightarrow> u32 \<Rightarrow> u64" where
  "boxed c h = BOX_BASE OR (push_bit 32 c OR ucast h)"

lemma boxed_handle_facts:
  assumes "take_bit 6 c = c"
  shows "is_tagged (boxed c h) t \<longleftrightarrow> t = take_bit 5 c" and "\<not> is_f64 (boxed c h)"
    and "\<not> is_inline_string (boxed c h)" and "tag_needs_root (boxed c h) \<longleftrightarrow> rooted_part c"
    and "gc_color_bits (boxed c h) = 0"
proof -
  note f = handle_fields [OF assms(1), of h, folded boxed_def]
  show t: "is_tagged (boxed c h) t \<longleftrightarrow> t = take_bit 5 c" for t
    unfolding boxed_def by (rule is_tagged_boxed [OF assms(1)])
  then show "\<not> is_f64 (boxed c h)" "\<not> is_inline_string (boxed c h)" using not_inline_tagged by blast+
  have "field 37 1 (boxed c h) = drop_bit 5 (field 32 6 (boxed c h))"
    by (rule bit_word_eqI) (auto simp: bit_field bit_drop_bit_eq)
  then have "field 37 1 (boxed c h) = drop_bit 5 c" using f(7) by simp
  then show "tag_needs_root (boxed c h) \<longleftrightarrow> rooted_part c"
    unfolding tag_needs_root_def is_kind_defs is_runtime_string_handle_def runtime_flag t tag_defs
      rooted_part_def by auto
  have "boxed c h AND GC_COLOR_MASK = push_bit 38 (field 38 6 (boxed c h))"
    by (simp only: gc_mask and_mask_field)
  then show "gc_color_bits (boxed c h) = 0" by (simp add: gc_color_bits_def f(5))
qed

lemma low32_of_boxed: "ucast (boxed c h AND 0xFFFFFFFF) = h"
  unfolding boxed_def by (rule low32_boxed)

lemma runtime_part:
  "BOX_BASE OR (push_bit 32 STRING_RUNTIME_HANDLE_FLAG OR push_bit 32 TAG_STRING OR ucast h) =
     BOX_BASE OR (push_bit 32 0x21 OR ucast (h :: u32))"
  by (simp add: STRING_RUNTIME_HANDLE_FLAG_def TAG_STRING_def or.assoc [symmetric])

lemma inline_falsy:
  assumes "is_inline_string v" and "decode_inline_string v = Some bs"
  shows "is_falsy v \<longleftrightarrow> bs = []"
proof -
  have len: "length bs = unat (field 45 3 v)"
    using assms(2) by (auto simp: decode_inline_string_def decode_inline_ascii_def Let_def
        decode_inline_latin1_def inline_length_field split: if_splits)
  have small: "field 45 3 v \<le> 6"
    using assms(1) by (auto simp: is_inline_string_def is_inline_ascii_fields is_inline_latin1_fields
        intro: order_trans)
  have "unat (ucast (field 45 3 v) :: u8) = unat (field 45 3 v)"
    using small by (simp add: unsigned_ucast_eq unsigned_take_bit_eq take_bit_nat_eq_self word_le_nat_alt)
  then have "(ucast (field 45 3 v) :: u8) = 0 \<longleftrightarrow> field 45 3 v = 0"
    by (simp add: unat_eq_0 [symmetric])
  moreover have "\<not> is_tagged v t" for t using not_inline_tagged assms(1) by blast
  ultimately show ?thesis
    using assms(1) len inline_not_f64 [OF assms(1)]
    by (simp add: is_falsy_def is_kind_defs inline_string_len_def inline_length_field unat_eq_0
        flip: length_0_conv)
qed

lemma number_is_f64:
  assumes "\<not> f64_is_nan x"
  shows "is_f64 x"
proof (rule ccontr)
  assume "\<not> is_f64 x"
  then have b: "field 51 13 x = mask 13" by (simp add: is_f64_field)
  have e: "MASK_EXPONENT = push_bit 52 (mask 11)"
    by (simp add: MASK_EXPONENT_def mask_eq_exp_minus_1)
  have "x AND MASK_EXPONENT = MASK_EXPONENT"
    unfolding e using boxed_bit [OF b] by (intro bit_word_eqI) (auto simp: bit_simps)
  moreover have m: "(0x000FFFFFFFFFFFFF :: u64) = mask 52" by (simp add: mask_eq_exp_minus_1)
  have "bit (x AND 0x000FFFFFFFFFFFFF) 51"
    unfolding m using boxed_bit [OF b, of 51] by (simp add: bit_and_iff bit_mask_iff)
  then have "x AND 0x000FFFFFFFFFFFFF \<noteq> 0" by auto
  ultimately show False using assms by (simp add: f64_is_nan_def)
qed

section \<open>Template keys\<close>

lemma key_mask: "push_bit (INLINE_STRING_MARKER_SHIFT + 3) 1 - 1 = (mask 51 :: u64)"
  unfolding INLINE_STRING_MARKER_SHIFT_def exp_mask by simp

lemma bit_one_at: "bit (push_bit k 1 :: u64) n \<longleftrightarrow> n = k \<and> k < 64"
  by (auto simp: push_bit_eq_mult bit_exp_iff)

lemma bit_property_key:
  assumes "inline_property_key_raw v = Some k"
  shows "bit k n \<longleftrightarrow> n = 62 \<or> n < 51 \<and> bit v n"
proof -
  have k: "k = push_bit 62 1 OR (v AND mask 51)"
    using assms unfolding inline_property_key_raw_def key_mask by (simp split: if_splits)
  have "bit (v AND mask 51) n \<longleftrightarrow> n < 51 \<and> bit v n"
    by (auto simp: bit_and_iff bit_mask_iff dest: bit_imp_le_length)
  then show ?thesis unfolding k bit_or_iff bit_one_at by simp
qed

lemma single_bit: "(x :: u64) AND push_bit n 1 \<noteq> 0 \<longleftrightarrow> bit x n"
  by (simp add: push_bit_eq_mult and_exp_eq_0_iff_not_bit)

lemma single_bit_eq: "n < 64 \<Longrightarrow> (x :: u64) AND push_bit n 1 = push_bit n 1 \<longleftrightarrow> bit x n"
proof
  assume "n < 64" "x AND push_bit n 1 = push_bit n 1"
  then have "bit (x AND push_bit n 1) n" by (simp only: bit_one_at)
  then show "bit x n" by (simp only: bit_and_iff)
next
  assume "n < 64" "bit x n"
  then show "x AND push_bit n 1 = push_bit n 1"
    by (intro bit_word_eqI) (simp only: bit_and_iff bit_one_at, blast)
qed

lemma template_key_name_ref_bits:
  "template_key_name_ref raw =
     (if bit raw 61 \<and> \<not> bit raw 62 \<and> \<not> bit raw 63 then Some (ucast raw) else None)"
proof -
  have m: "(0x00007FFFFFFFFFFF :: u64) = mask 47" by (simp add: mask_eq_exp_minus_1)
  have u: "ucast (raw AND mask 47) = (ucast raw :: u32)"
    by (rule bit_word_eqI) (simp add: bit_ucast_iff bit_and_iff bit_mask_iff)
  have e: "raw AND push_bit 61 1 \<noteq> push_bit 61 1 \<longleftrightarrow> \<not> bit raw 61"
    by (simp only: single_bit_eq)
  show ?thesis
    unfolding template_key_name_ref_def TEMPLATE_NAME_REF_NAMESPACE_def single_bit m u e by simp
qed

lemma bit_template_key: "bit (template_name_ref_key i) n \<longleftrightarrow> n = 61 \<or> bit i n"
  unfolding template_name_ref_key_def TEMPLATE_NAME_REF_NAMESPACE_def bit_or_iff bit_one_at
  by (auto simp: bit_ucast_iff dest: bit_imp_le_length)

lemma template_key_round: "template_key_name_ref (template_name_ref_key i) = Some i"
proof -
  have "\<not> bit i n" if "32 \<le> n" for n using that bit_imp_le_length [of i n] by auto
  moreover have "ucast (template_name_ref_key i) = i"
    by (rule bit_word_eqI) (auto simp: bit_simps bit_template_key)
  ultimately show ?thesis by (simp add: template_key_name_ref_bits bit_template_key)
qed

section \<open>Properties\<close>

text \<open>
  The kinds of a word are exclusive. A word with a tag has no other tag, is not a number
  and not an inline string; an inline string is not a number, and is ASCII or Latin-1 but not
  both.
\<close>

theorem value_kinds_exclusive:
  "(is_tagged v s \<longrightarrow> (\<forall>t. is_tagged v t \<longleftrightarrow> t = s) \<and> \<not> is_f64 v \<and> \<not> is_inline_string v) \<and>
   (is_inline_string v \<longrightarrow> \<not> is_f64 v \<and> (is_inline_ascii v \<longleftrightarrow> \<not> is_inline_latin1 v))"
proof -
  have "is_tagged v s \<Longrightarrow> (\<forall>t. is_tagged v t \<longleftrightarrow> t = s) \<and> \<not> is_f64 v \<and> \<not> is_inline_string v"
    using not_inline_tagged is_tagged_unique by blast
  moreover have "is_inline_string v \<Longrightarrow> \<not> is_f64 v \<and> (is_inline_ascii v \<longleftrightarrow> \<not> is_inline_latin1 v)"
    using inline_not_f64 inline_exclusive by (auto simp: is_inline_string_def)
  ultimately show ?thesis by blast
qed

theorem value_kinds_exclusive_witness:
  "is_tagged encode_null TAG_NULL \<and> \<not> is_f64 encode_null \<and> \<not> is_inline_string encode_null \<and>
   \<not> is_tagged encode_null TAG_UNDEFINED"
proof -
  have "is_tagged encode_null TAG_NULL" by code_simp
  with value_kinds_exclusive [of encode_null TAG_NULL] show ?thesis by (simp add: tag_defs)
qed

text \<open>
  Every handle encoder gives a word of its own tag and of no other, from which its decoder
  reads the handle back; the word is no number and no inline string, it carries no collector
  colour, and it needs a root exactly when the encoder is that of a collected kind: only a
  static string is a scalar.
\<close>

theorem handle_encoders:
  "list_all (\<lambda>(tag, rooted, enc, dec).
       \<forall>h t. (is_tagged (enc h) t \<longleftrightarrow> t = tag) \<and> dec (enc h) = h \<and> \<not> is_f64 (enc h) \<and>
         \<not> is_inline_string (enc h) \<and> gc_color_bits (enc h) = 0 \<and> (tag_needs_root (enc h) \<longleftrightarrow> rooted))
     [(TAG_OBJECT, True, encode_object_handle, decode_object_handle),
      (TAG_ARRAY, True, encode_handle TAG_ARRAY, decode_array_handle),
      (TAG_FUNCTION, True, encode_function_idx, decode_function_idx),
      (TAG_CLOSURE, True, encode_closure_idx, decode_closure_idx),
      (TAG_BOUND, True, encode_bound_idx, decode_bound_idx),
      (TAG_NATIVE_CALLABLE, True, encode_native_callable_idx, decode_native_callable_idx),
      (TAG_BIGINT, True, encode_bigint_handle, decode_bigint_handle),
      (TAG_SYMBOL, True, encode_symbol_handle, decode_symbol_handle),
      (TAG_REGEXP, True, encode_regexp_handle, decode_regexp_handle),
      (TAG_PROXY, True, encode_proxy_handle, decode_proxy_handle),
      (TAG_SCOPE_RECORD, True, encode_scope_record_handle, decode_scope_record_handle),
      (TAG_EXCEPTION, True, encode_exception, decode_handle),
      (TAG_ITERATOR, True, encode_handle TAG_ITERATOR, decode_handle),
      (TAG_ENUMERATOR, True, encode_handle TAG_ENUMERATOR, decode_handle),
      (TAG_STRING, True, encode_runtime_string_handle, decode_runtime_string_handle),
      (TAG_STRING, False, encode_string_ptr, decode_string_ptr)]"
proof -
  show ?thesis
    unfolding list.pred_inject prod.case handle_codec_defs runtime_part
    unfolding tag_defs boxed_def [symmetric]
    by (simp add: boxed_handle_facts low32_of_boxed rooted_part_def)
qed

text \<open>
  Numbers. An encoded number is never taken for a boxed value, whatever its bits were; it
  decodes to the number itself, a NaN to a NaN.
\<close>

theorem number_round_trip:
  "is_f64 (encode_f64 x) \<and>
   (if f64_is_nan x then f64_is_nan (decode_f64 (encode_f64 x)) else decode_f64 (encode_f64 x) = x)"
proof (cases "f64_is_nan x")
  case True
  have "is_f64 NAN_BITS \<and> f64_is_nan NAN_BITS" by code_simp
  with True show ?thesis by (simp add: encode_f64_def decode_f64_def)
next
  case False
  with number_is_f64 show ?thesis by (simp add: encode_f64_def decode_f64_def)
qed

text \<open>
  ASCII strings in the word. Encoding succeeds exactly for at most six ASCII bytes; and a
  word is the encoding of a byte string exactly when it is a well-formed inline ASCII word that
  decodes to it. So equal strings are equal words, and no other word passes the check.
\<close>

theorem inline_ascii_codec:
  "(encode_inline_ascii bs \<noteq> None \<longleftrightarrow> length bs \<le> 6 \<and> list_all (\<lambda>b. b < 128) bs) \<and>
   (encode_inline_ascii bs = Some v \<longleftrightarrow> is_inline_ascii v \<and> decode_inline_ascii v = Some bs)"
proof
  show "encode_inline_ascii bs \<noteq> None \<longleftrightarrow> length bs \<le> 6 \<and> list_all (\<lambda>b. b < 128) bs"
    by (auto simp: encode_inline_ascii_def INLINE_STRING_MAX_LEN_def Let_def)
  have "is_inline_ascii v \<and> decode_inline_ascii v = Some bs" if "encode_inline_ascii bs = Some v"
  proof -
    from that have b: "length bs \<le> 6" "list_all (\<lambda>b. b < 128) bs"
      by (auto simp: encode_inline_ascii_def INLINE_STRING_MAX_LEN_def split: if_splits)
    with that show ?thesis
      using encode_inline_ascii_word [OF b] decode_inline_ascii_word [OF b] by simp
  qed
  moreover have "encode_inline_ascii bs = Some v" if "is_inline_ascii v" "decode_inline_ascii v = Some bs"
    using inline_ascii_canonical [OF that(1)] that(2) by auto
  ultimately show "encode_inline_ascii bs = Some v \<longleftrightarrow> is_inline_ascii v \<and> decode_inline_ascii v = Some bs"
    by blast
qed

text \<open>
  Latin-1 strings in the word: the same for at most five arbitrary bytes. The check in the
  encoder that no bits are left over never fires.
\<close>

theorem inline_latin1_codec:
  "(encode_inline_latin1 bs \<noteq> None \<longleftrightarrow> length bs \<le> 5) \<and>
   (encode_inline_latin1 bs = Some v \<longleftrightarrow> is_inline_latin1 v \<and> decode_inline_latin1 v = Some bs)"
proof
  show e: "encode_inline_latin1 bs \<noteq> None \<longleftrightarrow> length bs \<le> 5"
    using encode_inline_latin1_word [of bs]
    by (cases "length bs \<le> 5") (auto simp: encode_inline_latin1_def INLINE_STRING_LATIN1_MAX_LEN_def)
  have "is_inline_latin1 v \<and> decode_inline_latin1 v = Some bs" if "encode_inline_latin1 bs = Some v"
  proof -
    from that e have b: "length bs \<le> 5" by auto
    with that show ?thesis
      using encode_inline_latin1_word [OF b] decode_inline_latin1_word [OF b] by simp
  qed
  moreover have "encode_inline_latin1 bs = Some v" if "is_inline_latin1 v" "decode_inline_latin1 v = Some bs"
    using inline_latin1_canonical [OF that(1)] that(2) by auto
  ultimately show "encode_inline_latin1 bs = Some v \<longleftrightarrow> is_inline_latin1 v \<and> decode_inline_latin1 v = Some bs"
    by blast
qed

text \<open>
  Keys of object templates. The key of an inline string determines the string; the
  reference to a constant determines the constant; and no key is both.
\<close>

theorem template_keys:
  "template_key_name_ref (template_name_ref_key i) = Some i \<and>
   (inline_property_key_raw v = Some k \<longrightarrow>
      (inline_property_key_raw w = Some k \<longleftrightarrow> w = v) \<and> template_key_name_ref k = None)"
proof -
  have "w = v" if k: "inline_property_key_raw v = Some k" "inline_property_key_raw w = Some k"
  proof (rule bit_word_eqI)
    fix n assume n: "n < LENGTH(64)"
    have "field 51 13 v = mask 13" "field 51 13 w = mask 13"
      using k by (auto simp: inline_property_key_raw_def is_inline_string_def is_inline_ascii_fields
          is_inline_latin1_fields split: if_splits)
    then show "bit w n \<longleftrightarrow> bit v n"
      using bit_property_key [OF k(1), of n] bit_property_key [OF k(2), of n] n
        boxed_bit [of v n] boxed_bit [of w n]
      by (cases "n < 51") auto
  qed
  moreover have "template_key_name_ref k = None" if "inline_property_key_raw v = Some k"
    using bit_property_key [OF that, of 62] by (simp add: template_key_name_ref_bits)
  ultimately show ?thesis using template_key_round by blast
qed

theorem template_keys_witness:
  "\<exists>v k. encode_inline_ascii [120] = Some v \<and> inline_property_key_raw v = Some k \<and>
     template_key_name_ref k = None \<and> template_key_name_ref (template_name_ref_key 7) = Some 7"
proof -
  let ?v = "inline_word 5 1 (pack_units 7 [120] 0)"
  have "encode_inline_ascii [120] = Some ?v" "is_inline_string ?v"
    using encode_inline_ascii_word [of "[120]"] decode_inline_ascii_word(1) [of "[120]"]
    by (simp_all add: is_inline_string_def)
  moreover then obtain k where "inline_property_key_raw ?v = Some k"
    by (simp add: inline_property_key_raw_def)
  ultimately show ?thesis using template_keys [of 7 ?v k] by blast
qed

text \<open>
  Collector colours. Colouring touches references only: it changes neither tag nor handle
  nor the classification, it replaces the previous colour, stripping undoes it, and the colour
  predicates answer for the colour last applied (0 is "no colour").
\<close>

theorem gc_colours:
  "if is_handle_backed_reference v then
     (\<forall>t. is_tagged (apply_gc_color v m) t = is_tagged v t) \<and>
     decode_handle (apply_gc_color v m) = decode_handle v \<and>
     is_handle_backed_reference (apply_gc_color v m) \<and>
     strip_gc_color (apply_gc_color v m) = strip_gc_color v \<and>
     gc_color_bits (apply_gc_color v m) = gc_pack m \<and>
     apply_gc_color (apply_gc_color v m) m' = apply_gc_color v m' \<and>
     (has_young_mark_color (apply_gc_color v m) c \<longleftrightarrow> young_mark m AND 3 = c AND 3 \<and> c AND 3 \<noteq> 0) \<and>
     (has_old_mark_color (apply_gc_color v m) c \<longleftrightarrow> old_mark m AND 3 = c AND 3 \<and> c AND 3 \<noteq> 0) \<and>
     (has_remembered_color (apply_gc_color v m) c \<longleftrightarrow> remembered m AND 3 = c AND 3 \<and> c AND 3 \<noteq> 0)
   else apply_gc_color v m = v \<and> strip_gc_color v = v \<and> gc_color_bits v = 0"
proof (cases "is_handle_backed_reference v")
  case True
  let ?v = "(v AND NOT GC_COLOR_MASK) OR gc_pack m"
  note a = apply_gc_color_reference [OF True, of m]
  have r: "is_handle_backed_reference ?v" using True by (simp add: reference_recolour)
  have s: "?v AND NOT GC_COLOR_MASK = v AND NOT GC_COLOR_MASK" and b: "?v AND GC_COLOR_MASK = gc_pack m"
    using bit_gc_pack_range [of m]
    by (auto intro!: bit_word_eqI simp: bit_or_iff bit_and_iff bit_not_iff bit_gc_mask)
  have d: "decode_handle ?v = decode_handle v"
    unfolding decode_handle_def low32_ucast
    by (rule bit_word_eqI) (simp add: bit_ucast_iff bit_recolour)
  show ?thesis
    using True r s b d
    by (auto simp: a apply_gc_color_reference is_tagged_recolour strip_gc_color_def gc_color_bits_def
        has_colour_fields recoloured_fields)
next
  case False
  then show ?thesis by (simp add: apply_gc_color_def strip_gc_color_def gc_color_bits_def)
qed

text \<open>
  Falsiness, value by value: \<open>undefined\<close>, \<open>null\<close>, \<open>false\<close>, the two zeros, NaN and the
  empty inline string are falsy; \<open>true\<close>, every other number, every non-empty inline string and
  every handle, that of a string included, are truthy.
\<close>

theorem falsy_values:
  "is_falsy encode_undefined \<and> is_falsy encode_null \<and> (is_falsy (encode_bool b) \<longleftrightarrow> \<not> b) \<and>
   (is_falsy (encode_f64 x) \<longleftrightarrow> f64_is_zero x \<or> f64_is_nan x) \<and>
   pred_option (\<lambda>v. is_falsy v \<longleftrightarrow> bs = []) (encode_inline_ascii bs) \<and>
   pred_option (\<lambda>v. is_falsy v \<longleftrightarrow> bs = []) (encode_inline_latin1 bs) \<and>
   is_truthy (encode_object_handle h) \<and> is_truthy (encode_runtime_string_handle h) \<and>
   is_truthy (encode_string_ptr h) \<and> is_truthy (encode_bigint_handle h)"
proof -
  have f64: "is_falsy v \<longleftrightarrow> f64_is_zero v \<or> f64_is_nan v" if "is_f64 v" for v
    using that not_inline_tagged [of v] by (auto simp: is_falsy_def is_kind_defs)
  have "is_f64 NAN_BITS \<and> f64_is_nan NAN_BITS" by code_simp
  then have "is_falsy (encode_f64 x) \<longleftrightarrow> f64_is_zero x \<or> f64_is_nan x"
    using f64 [of NAN_BITS] f64 [of x] number_is_f64 [of x] by (auto simp: encode_f64_def)
  moreover have "is_falsy encode_undefined" "is_falsy encode_null" by code_simp+
  moreover have "is_falsy (encode_bool b) \<longleftrightarrow> \<not> b" by (cases b) (simp only:, code_simp)+
  moreover have "pred_option (\<lambda>v. is_falsy v \<longleftrightarrow> bs = []) (encode_inline_ascii bs)"
  proof (cases "length bs \<le> 6 \<and> list_all (\<lambda>b. b < 128) bs")
    case True
    then show ?thesis
      using decode_inline_ascii_word [of bs] inline_falsy [of _ bs]
      by (simp add: encode_inline_ascii_word is_inline_string_def decode_inline_string_def)
  qed (auto simp: encode_inline_ascii_def INLINE_STRING_MAX_LEN_def)
  moreover have "pred_option (\<lambda>v. is_falsy v \<longleftrightarrow> bs = []) (encode_inline_latin1 bs)"
  proof (cases "length bs \<le> 5")
    case True
    let ?v = "inline_word 6 (length bs) (pack_units 8 bs 0)"
    note d = decode_inline_latin1_word [OF True]
    have "\<not> is_inline_ascii ?v" using inline_exclusive d(1) by blast
    with d have "is_falsy ?v \<longleftrightarrow> bs = []"
      by (intro inline_falsy) (simp_all add: is_inline_string_def decode_inline_string_def)
    with True show ?thesis by (simp add: encode_inline_latin1_word)
  qed (auto simp: encode_inline_latin1_def INLINE_STRING_LATIN1_MAX_LEN_def)
  moreover have "is_truthy (boxed c h)" if "take_bit 6 c = c" "take_bit 5 c \<notin> {2, 3, 4}" for c
    using that by (simp add: is_truthy_def is_falsy_def is_kind_defs tag_defs boxed_handle_facts)
  then have "is_truthy (boxed 8 h)" "is_truthy (boxed 0x21 h)" "is_truthy (boxed 1 h)"
    "is_truthy (boxed 13 h)" by simp_all
  then have "is_truthy (encode_object_handle h)" "is_truthy (encode_runtime_string_handle h)"
    "is_truthy (encode_string_ptr h)" "is_truthy (encode_bigint_handle h)"
    unfolding handle_codec_defs runtime_part unfolding tag_defs boxed_def [symmetric] .
  ultimately show ?thesis by blast
qed

end
