(* ===== verification/String_Hash.thy ===== *)
theory String_Hash
  imports Prelude Rust_Str
begin

text \<open>
  The content hash of strings (\<open>wjsm-ir/src/string_hash.rs\<close>) and the metadata baked for
  string constants (\<open>StringConstantMeta\<close> in \<open>wjsm-ir/src/lib.rs\<close>): hash, choice of
  representation and flat payload. The hash must not depend on the representation, must
  never be the "uncomputed" sentinel, and the payload must determine the string.
\<close>

section \<open>The hash\<close>

definition STRING_HASH_SEED :: u32 where "STRING_HASH_SEED = 0x9e3779b9"
definition HASH_UNCOMPUTED :: u32 where "HASH_UNCOMPUTED = 0"
definition HASH_K1 :: u64 where "HASH_K1 = 0xff51afd7ed558ccd"
definition HASH_K2 :: u64 where "HASH_K2 = 0xc4ceb9fe1a85ec53"

definition pack4 :: "(nat \<Rightarrow> u16) \<Rightarrow> nat \<Rightarrow> u64" where
  "pack4 read_unit base =
     fold (\<lambda>j acc. acc OR push_bit (j * 16) (ucast (read_unit (base + j)))) [0..<4] 0"

definition hash_chunk :: "(nat \<Rightarrow> u16) \<Rightarrow> nat \<Rightarrow> u64 \<times> u64 \<Rightarrow> u64 \<times> u64" where
  "hash_chunk read_unit chunk = (\<lambda>(left, right).
     let base = chunk * 8; low = pack4 read_unit base; high = pack4 read_unit (base + 4)
     in (word_rotl 31 ((left XOR low) * HASH_K1), word_rotl 29 ((right XOR high) * HASH_K2)))"

definition hash_tail_step :: "(nat \<Rightarrow> u16) \<Rightarrow> nat \<Rightarrow> u64 \<times> u64 \<Rightarrow> u64 \<times> u64" where
  "hash_tail_step read_unit index = (\<lambda>(left, tail).
     let tail = tail OR push_bit (index mod 4 * 16) (ucast (read_unit index))
     in if index mod 4 = 3 then (word_rotl 31 ((left XOR tail) * HASH_K1), 0) else (left, tail))"

definition hash_finish :: "u64 \<Rightarrow> u64 \<Rightarrow> u32" where
  "hash_finish left right =
     (let mixed = left XOR (right * HASH_K1);
          mixed = mixed XOR drop_bit 33 mixed;
          mixed = mixed * HASH_K2;
          mixed = mixed XOR drop_bit 29 mixed;
          hash = (ucast mixed :: u32) XOR ucast (drop_bit 32 mixed)
      in if hash = HASH_UNCOMPUTED then 1 else hash)"

definition compute_hash_by_len :: "nat \<Rightarrow> (nat \<Rightarrow> u16) \<Rightarrow> u32" where
  "compute_hash_by_len len read_unit =
     (let left = ucast STRING_HASH_SEED XOR (of_nat len * HASH_K1);
          full_chunks = len div 8;
          (left, right) = fold (hash_chunk read_unit) [0..<full_chunks] (left, HASH_K2);
          (left, tail) = fold (hash_tail_step read_unit) [full_chunks * 8..<len] (left, 0);
          right = right XOR tail
      in hash_finish left right)"

definition content_hash_units :: "u16 list \<Rightarrow> u32" where
  "content_hash_units units = compute_hash_by_len (length units) (\<lambda>i. units ! i)"

definition content_hash_latin1 :: "u8 list \<Rightarrow> u32" where
  "content_hash_latin1 bytes = compute_hash_by_len (length bytes) (\<lambda>i. ucast (bytes ! i))"

text \<open>The hash reads exactly the units below its length: that is what makes it a function of
  the content alone.\<close>

lemma pack4_cong:
  assumes "\<And>j. j < 4 \<Longrightarrow> f (base + j) = g (base + j)"
  shows "pack4 f base = pack4 g base"
  unfolding pack4_def by (rule fold_cong) (auto simp: assms)

lemma hash_chunk_cong:
  assumes "\<And>i. i < len \<Longrightarrow> f i = g i" and "chunk < len div 8"
  shows "hash_chunk f chunk = hash_chunk g chunk"
proof -
  have "chunk * 8 + 8 \<le> len" using assms(2) by auto
  then have "pack4 f (chunk * 8) = pack4 g (chunk * 8)"
    and "pack4 f (chunk * 8 + 4) = pack4 g (chunk * 8 + 4)"
    by (auto intro!: pack4_cong assms(1))
  then show ?thesis by (simp add: hash_chunk_def)
qed

lemma compute_hash_by_len_cong:
  assumes "\<And>i. i < len \<Longrightarrow> f i = g i"
  shows "compute_hash_by_len len f = compute_hash_by_len len g"
proof -
  have "fold (hash_chunk f) [0..<len div 8] s = fold (hash_chunk g) [0..<len div 8] s" for s
    by (rule fold_cong) (auto intro: hash_chunk_cong assms)
  moreover have "fold (hash_tail_step f) [len div 8 * 8..<len] s =
      fold (hash_tail_step g) [len div 8 * 8..<len] s" for s
    by (rule fold_cong) (auto simp: hash_tail_step_def assms)
  ultimately show ?thesis by (simp add: compute_hash_by_len_def)
qed

lemma hash_finish_nonzero: "hash_finish l r \<noteq> HASH_UNCOMPUTED"
  by (simp add: hash_finish_def HASH_UNCOMPUTED_def Let_def)

lemma compute_hash_computed: "compute_hash_by_len len f \<noteq> HASH_UNCOMPUTED"
  by (simp add: compute_hash_by_len_def Let_def split_beta hash_finish_nonzero)

lemma content_hash_latin1_units: "content_hash_latin1 bytes = content_hash_units (map ucast bytes)"
  unfolding content_hash_latin1_def content_hash_units_def length_map
  by (rule compute_hash_by_len_cong) simp

section \<open>Baked metadata of string constants\<close>

record StringConstantMeta =
  meta_hash :: u32
  meta_latin1 :: bool
  meta_payload :: "u8 list"

definition meta_from_units :: "u16 list \<Rightarrow> StringConstantMeta" where
  "meta_from_units units =
     (let latin1 = list_all (\<lambda>u. u \<le> 255) units;
          payload = (if latin1 then map ucast units else concat (map u16_le units))
      in \<lparr>meta_hash = content_hash_units units, meta_latin1 = latin1, meta_payload = payload\<rparr>)"

definition meta_from_text :: "rstr \<Rightarrow> StringConstantMeta" where
  "meta_from_text text = meta_from_units (encode_utf16 text)"

definition meta_unit_len :: "StringConstantMeta \<Rightarrow> u32" where
  "meta_unit_len m =
     (let n = length (meta_payload m);
          bytes = (if n < 2 ^ 32 then of_nat n else 0xFFFFFFFF)
      in if meta_latin1 m then bytes else bytes div 2)"

text \<open>Reading a payload back into UTF-16 units (the expansion done by the decoder).\<close>

fun units_of_chunks :: "u8 list \<Rightarrow> u16 list" where
  "units_of_chunks (a # b # r) = u16_of_le [a, b] # units_of_chunks r"
| "units_of_chunks _ = []"

definition meta_units :: "StringConstantMeta \<Rightarrow> u16 list" where
  "meta_units m = (if meta_latin1 m then map ucast (meta_payload m) else units_of_chunks (meta_payload m))"

lemma u16_le_split: "u16_le u = [of_nat (unat u mod 256), of_nat (unat u div 256 mod 256)]"
  by (simp add: u16_le_def numeral_2_eq_2)

lemma units_of_chunks_u16_le: "units_of_chunks (u16_le u @ r) = u # units_of_chunks r"
proof -
  have "u16_of_le [of_nat (unat u mod 256), of_nat (unat u div 256 mod 256)] = u"
    using u16_of_le_u16_le [of u] by (simp only: u16_le_split)
  then show ?thesis by (simp add: u16_le_split)
qed

lemma units_of_chunks_concat: "units_of_chunks (concat (map u16_le units)) = units"
  by (induction units) (simp_all add: units_of_chunks_u16_le)

lemma length_concat_u16_le: "length (concat (map u16_le units)) = 2 * length units"
  by (induction units) simp_all

lemma ucast_latin1: "(u :: u16) \<le> 255 \<Longrightarrow> ucast (ucast u :: u8) = u"
proof -
  assume "u \<le> 255"
  then have "unat u \<le> 255" by (simp add: word_le_nat_alt)
  then show ?thesis
    by (simp add: word_unat_eq_iff unsigned_ucast_eq unsigned_take_bit_eq take_bit_nat_eq_self)
qed

lemma meta_units_from_units: "meta_units (meta_from_units units) = units"
proof (cases "list_all (\<lambda>u. u \<le> 255) units")
  case True
  then have "map (ucast \<circ> (ucast :: u16 \<Rightarrow> u8)) units = units"
    by (intro map_idI) (auto simp: list_all_iff ucast_latin1)
  with True show ?thesis by (simp add: meta_units_def meta_from_units_def)
next
  case False
  then show ?thesis by (simp add: meta_units_def meta_from_units_def units_of_chunks_concat)
qed

lemma meta_payload_len:
  "length (meta_payload (meta_from_units units)) =
     (if meta_latin1 (meta_from_units units) then length units else 2 * length units)"
  by (simp add: meta_from_units_def length_concat_u16_le Let_def)

lemma meta_unit_len_from_units:
  assumes "2 * length units < 2 ^ 32"
  shows "unat (meta_unit_len (meta_from_units units)) = length units"
proof (cases "meta_latin1 (meta_from_units units)")
  case True
  then have "length (meta_payload (meta_from_units units)) = length units"
    by (simp add: meta_payload_len)
  with True assms show ?thesis
    by (simp add: meta_unit_len_def unat_u32_of_nat Let_def)
next
  case False
  then have l: "length (meta_payload (meta_from_units units)) = 2 * length units"
    by (simp add: meta_payload_len)
  have "unat ((of_nat (2 * length units) :: u32) div 2) = length units"
    using unat_u32_of_nat [OF assms] by (simp add: unat_div del: of_nat_mult)
  with False assms show ?thesis
    unfolding meta_unit_len_def l by (simp add: Let_def del: of_nat_mult)
qed

end
