(* ===== verification/IR.thy ===== *)
theory IR
  imports Prelude Rust_Str String_Hash "HOL-Library.AList"
begin

text \<open>
  The semantic IR (\<open>wjsm-ir/src/types.rs\<close> and \<open>wjsm-ir/src/lib.rs\<close>): identifiers, operators,
  terminators, instructions, functions, constants and modules, with the accessors and the
  rewriting operations the passes use (\<open>dest\<close>, \<open>uses\<close>, \<open>remap_values\<close>, \<open>remap_blocks\<close>), and
  the split of a hydrated program into its builtin and user segments.

  A \<open>f64\<close> is its bit pattern. The 508 contiguous \<open>repr(u16)\<close> variants of \<open>Builtin\<close> are
  their discriminants. A \<open>HashMap\<close> is an association list with distinct keys, in some
  iteration order. Operand lists keep the order of the source's struct fields.
\<close>

section \<open>Identifiers and operators\<close>

datatype ConstantId = ConstantId (cid: u32)
datatype FunctionId = FunctionId (fid: u32)
datatype BasicBlockId = BasicBlockId (bid: u32)
datatype ValueId = ValueId (vid: u32)
datatype ModuleId = ModuleId (mid: u32)

definition cix :: "ConstantId \<Rightarrow> nat" where "cix c = unat (cid c)"
definition fnix :: "FunctionId \<Rightarrow> nat" where "fnix f = unat (fid f)"
definition bix :: "BasicBlockId \<Rightarrow> nat" where "bix b = unat (bid b)"

datatype f64 = F64 (f64_bits: u64)

datatype Builtin = Builtin (wire_id: u16)

definition last_wire_id :: u16 where "last_wire_id = 507"

definition builtin_from_wire_id :: "u16 \<Rightarrow> Builtin option" where
  "builtin_from_wire_id w = (if w > last_wire_id then None else Some (Builtin w))"

datatype BinaryOp =
  Add | Sub | Mul | Div | Mod | Exp | BitAnd | BitOr | BitXor | Shl | Shr | UShr

datatype UnaryOp = NotOp | Neg | Pos | BitNot | Void | IsNullish | Delete

datatype CompareOp = StrictEq | StrictNotEq | Lt | Gt | LtEq | GtEq

definition is_relational :: "CompareOp \<Rightarrow> bool" where
  "is_relational op \<longleftrightarrow> op \<in> {Lt, Gt, LtEq, GtEq}"

section \<open>Terminators\<close>

record SwitchCaseTarget =
  case_constant :: ConstantId
  case_target :: BasicBlockId

record PhiSource =
  phi_predecessor :: BasicBlockId
  phi_value :: ValueId

record DeoptFrame =
  frame_function :: FunctionId
  frame_block :: BasicBlockId
  frame_instruction_index :: u32
  frame_lives :: "ValueId list"

record SourceSpan =
  span_line :: u32
  span_col :: u32

datatype Terminator =
    Return "ValueId option"
  | Jump BasicBlockId
  | Branch ValueId BasicBlockId BasicBlockId
  | Switch ValueId "SwitchCaseTarget list" BasicBlockId BasicBlockId
  | Throw ValueId
  | Unreachable
  | Deopt "DeoptFrame list"

section \<open>Instructions\<close>

datatype (plugins only: code) Instruction =
    Const ValueId ConstantId
  | Binary ValueId BinaryOp ValueId ValueId
  | Unary ValueId UnaryOp ValueId
  | Compare ValueId CompareOp ValueId ValueId
  | Phi ValueId "PhiSource list"
  | CallBuiltin "ValueId option" Builtin "ValueId list"
  | StringConcatVa ValueId "ValueId list"
  | LoadVar ValueId rstr
  | StoreVar rstr ValueId
  | Call "ValueId option" ValueId ValueId "ValueId list" "rstr option"
  | SuperCall "ValueId option" ValueId ValueId "ValueId list" bool
  | ConstructCall "ValueId option" ValueId ValueId "ValueId list" "rstr option"
  | NewObject ValueId u32
  | GetProp ValueId ValueId ValueId "ValueId option" "ConstantId option"
  | SetProp ValueId ValueId ValueId ValueId bool
  | CreateDataProperty ValueId ValueId ValueId ValueId
  | DeleteProp ValueId ValueId ValueId bool
  | SetProto ValueId ValueId
  | NewArray ValueId u32
  | CloneArrayTemplate ValueId ConstantId
  | InitObjectLiteral ValueId ConstantId "ValueId list"
  | GetElem ValueId ValueId ValueId "ValueId option"
  | SetElem ValueId ValueId ValueId ValueId bool
  | ObjectSpread ValueId ValueId ValueId
  | GetSuperBase ValueId
  | GetSuperConstructor ValueId
  | NewPromise ValueId
  | PromiseResolve ValueId ValueId
  | PromiseReject ValueId ValueId
  | Suspend ValueId u32
  | GeneratorSuspend ValueId u32
  | CollectRestArgs ValueId u32
  | IsException ValueId ValueId
  | GuardSameFunction ValueId ValueId FunctionId
  | EncodeException ValueId ValueId
  | ExceptionToObject ValueId ValueId
  | DebugCheck u32 u32
  | GuardTag ValueId ValueId u8
  | GuardShape ValueId ValueId u32
  | GuardElementsKind ValueId ValueId u32 "ConstantId option"
  | GuardCallTarget ValueId ValueId FunctionId
  | LoadSlot ValueId ValueId u32
  | StoreSlot "ValueId option" ValueId u32 ValueId "u32 option"
  | LoadEnvSlot ValueId ValueId u32 ValueId
  | StoreEnvSlot "ValueId option" ValueId u32 ValueId ValueId bool


text \<open>\<open>Instruction::dest\<close>: the value an instruction defines.\<close>

definition dest :: "Instruction \<Rightarrow> ValueId option" where
  "dest i = (case i of
     Const d _ \<Rightarrow> Some d | Binary d _ _ _ \<Rightarrow> Some d | Unary d _ _ \<Rightarrow> Some d
   | Compare d _ _ _ \<Rightarrow> Some d | Phi d _ \<Rightarrow> Some d | StringConcatVa d _ \<Rightarrow> Some d
   | LoadVar d _ \<Rightarrow> Some d | NewObject d _ \<Rightarrow> Some d | GetProp d _ _ _ _ \<Rightarrow> Some d
   | SetProp d _ _ _ _ \<Rightarrow> Some d | DeleteProp d _ _ _ \<Rightarrow> Some d | NewArray d _ \<Rightarrow> Some d
   | CloneArrayTemplate d _ \<Rightarrow> Some d | InitObjectLiteral d _ _ \<Rightarrow> Some d
   | GetElem d _ _ _ \<Rightarrow> Some d | SetElem d _ _ _ _ \<Rightarrow> Some d | GetSuperBase d \<Rightarrow> Some d
   | GetSuperConstructor d \<Rightarrow> Some d | NewPromise d \<Rightarrow> Some d | CollectRestArgs d _ \<Rightarrow> Some d
   | IsException d _ \<Rightarrow> Some d | GuardSameFunction d _ _ \<Rightarrow> Some d | EncodeException d _ \<Rightarrow> Some d
   | ExceptionToObject d _ \<Rightarrow> Some d | CreateDataProperty d _ _ _ \<Rightarrow> Some d
   | ObjectSpread d _ _ \<Rightarrow> Some d | GuardTag d _ _ \<Rightarrow> Some d | GuardShape d _ _ \<Rightarrow> Some d
   | GuardElementsKind d _ _ _ \<Rightarrow> Some d | GuardCallTarget d _ _ \<Rightarrow> Some d
   | LoadSlot d _ _ \<Rightarrow> Some d | LoadEnvSlot d _ _ _ \<Rightarrow> Some d
   | CallBuiltin d _ _ \<Rightarrow> d | Call d _ _ _ _ \<Rightarrow> d | SuperCall d _ _ _ _ \<Rightarrow> d
   | ConstructCall d _ _ _ _ \<Rightarrow> d | StoreSlot d _ _ _ _ \<Rightarrow> d | StoreEnvSlot d _ _ _ _ _ \<Rightarrow> d
   | StoreVar _ _ \<Rightarrow> None | SetProto _ _ \<Rightarrow> None | PromiseResolve _ _ \<Rightarrow> None
   | PromiseReject _ _ \<Rightarrow> None | Suspend _ _ \<Rightarrow> None | GeneratorSuspend _ _ \<Rightarrow> None
   | DebugCheck _ _ \<Rightarrow> None)"

fun opt_list :: "'a option \<Rightarrow> 'a list" where
  "opt_list None = []"
| "opt_list (Some x) = [x]"

text \<open>\<open>Instruction::uses\<close>: the operands of an instruction, in the source's order.\<close>

definition uses :: "Instruction \<Rightarrow> ValueId list" where
  "uses i = (case i of
     Binary _ _ lhs rhs \<Rightarrow> [lhs, rhs] | Compare _ _ lhs rhs \<Rightarrow> [lhs, rhs]
   | Unary _ _ v \<Rightarrow> [v] | Phi _ sources \<Rightarrow> map phi_value sources
   | CallBuiltin _ _ args \<Rightarrow> args | StringConcatVa _ parts \<Rightarrow> parts | StoreVar _ v \<Rightarrow> [v]
   | Call _ callee this args _ \<Rightarrow> callee # this # args
   | SuperCall _ callee this args _ \<Rightarrow> callee # this # args
   | ConstructCall _ callee this args _ \<Rightarrow> callee # this # args
   | GetProp _ obj key latch _ \<Rightarrow> [obj, key] @ opt_list latch
   | GetElem _ obj index latch \<Rightarrow> [obj, index] @ opt_list latch
   | DeleteProp _ obj key _ \<Rightarrow> [obj, key]
   | SetProp _ obj key v _ \<Rightarrow> [obj, key, v] | CreateDataProperty _ obj key v \<Rightarrow> [obj, key, v]
   | SetProto obj v \<Rightarrow> [obj, v] | SetElem _ obj index v _ \<Rightarrow> [obj, index, v]
   | GuardElementsKind _ array _ _ \<Rightarrow> [array] | InitObjectLiteral _ _ values \<Rightarrow> values
   | ObjectSpread _ obj source \<Rightarrow> [obj, source]
   | PromiseResolve promise v \<Rightarrow> [promise, v] | PromiseReject promise reason \<Rightarrow> [promise, reason]
   | Suspend promise _ \<Rightarrow> [promise] | GeneratorSuspend result _ \<Rightarrow> [result]
   | IsException _ v \<Rightarrow> [v] | EncodeException _ v \<Rightarrow> [v] | ExceptionToObject _ v \<Rightarrow> [v]
   | GuardSameFunction _ callee _ \<Rightarrow> [callee] | GuardCallTarget _ callee _ \<Rightarrow> [callee]
   | GuardTag _ v _ \<Rightarrow> [v] | GuardShape _ obj _ \<Rightarrow> [obj] | LoadSlot _ obj _ \<Rightarrow> [obj]
   | StoreSlot _ obj _ v _ \<Rightarrow> [obj, v] | StoreEnvSlot _ env _ v key _ \<Rightarrow> [env, v, key]
   | LoadEnvSlot _ env _ key \<Rightarrow> [env, key]
   | Const _ _ \<Rightarrow> [] | LoadVar _ _ \<Rightarrow> [] | NewObject _ _ \<Rightarrow> [] | NewArray _ _ \<Rightarrow> []
   | CloneArrayTemplate _ _ \<Rightarrow> [] | GetSuperBase _ \<Rightarrow> [] | GetSuperConstructor _ \<Rightarrow> []
   | NewPromise _ \<Rightarrow> [] | CollectRestArgs _ _ \<Rightarrow> [] | DebugCheck _ _ \<Rightarrow> [])"

text \<open>
  \<open>Instruction::remap_values\<close>. The \<open>FnMut\<close> renaming of the source is a function here: the
  callers pass an offset or a table lookup.
\<close>

definition remap_values :: "(ValueId \<Rightarrow> ValueId) \<Rightarrow> Instruction \<Rightarrow> Instruction" where
  "remap_values f i = (case i of
     Const d c \<Rightarrow> Const (f d) c
   | Binary d op lhs rhs \<Rightarrow> Binary (f d) op (f lhs) (f rhs)
   | Unary d op v \<Rightarrow> Unary (f d) op (f v)
   | Compare d op lhs rhs \<Rightarrow> Compare (f d) op (f lhs) (f rhs)
   | Phi d sources \<Rightarrow> Phi (f d) (map (\<lambda>s. s\<lparr>phi_value := f (phi_value s)\<rparr>) sources)
   | CallBuiltin d b args \<Rightarrow> CallBuiltin (map_option f d) b (map f args)
   | StringConcatVa d parts \<Rightarrow> StringConcatVa (f d) (map f parts)
   | LoadVar d n \<Rightarrow> LoadVar (f d) n
   | StoreVar n v \<Rightarrow> StoreVar n (f v)
   | Call d callee this args cs \<Rightarrow> Call (map_option f d) (f callee) (f this) (map f args) cs
   | SuperCall d callee this args fwd \<Rightarrow> SuperCall (map_option f d) (f callee) (f this) (map f args) fwd
   | ConstructCall d callee this args cs \<Rightarrow>
       ConstructCall (map_option f d) (f callee) (f this) (map f args) cs
   | NewObject d c \<Rightarrow> NewObject (f d) c
   | NewArray d c \<Rightarrow> NewArray (f d) c
   | CloneArrayTemplate d t \<Rightarrow> CloneArrayTemplate (f d) t
   | InitObjectLiteral d t values \<Rightarrow> InitObjectLiteral (f d) t (map f values)
   | GetProp d obj key latch t \<Rightarrow> GetProp (f d) (f obj) (f key) (map_option f latch) t
   | SetProp d obj key v st \<Rightarrow> SetProp (f d) (f obj) (f key) (f v) st
   | CreateDataProperty d obj key v \<Rightarrow> CreateDataProperty (f d) (f obj) (f key) (f v)
   | DeleteProp d obj key st \<Rightarrow> DeleteProp (f d) (f obj) (f key) st
   | SetProto obj v \<Rightarrow> SetProto (f obj) (f v)
   | GetElem d obj index latch \<Rightarrow> GetElem (f d) (f obj) (f index) (map_option f latch)
   | SetElem d obj index v st \<Rightarrow> SetElem (f d) (f obj) (f index) (f v) st
   | ObjectSpread d obj source \<Rightarrow> ObjectSpread (f d) (f obj) (f source)
   | GetSuperBase d \<Rightarrow> GetSuperBase (f d)
   | GetSuperConstructor d \<Rightarrow> GetSuperConstructor (f d)
   | NewPromise d \<Rightarrow> NewPromise (f d)
   | PromiseResolve promise v \<Rightarrow> PromiseResolve (f promise) (f v)
   | PromiseReject promise reason \<Rightarrow> PromiseReject (f promise) (f reason)
   | Suspend promise st \<Rightarrow> Suspend (f promise) st
   | GeneratorSuspend result st \<Rightarrow> GeneratorSuspend (f result) st
   | CollectRestArgs d skip \<Rightarrow> CollectRestArgs (f d) skip
   | IsException d v \<Rightarrow> IsException (f d) (f v)
   | GuardSameFunction d callee fn \<Rightarrow> GuardSameFunction (f d) (f callee) fn
   | EncodeException d v \<Rightarrow> EncodeException (f d) (f v)
   | ExceptionToObject d v \<Rightarrow> ExceptionToObject (f d) (f v)
   | DebugCheck line col \<Rightarrow> DebugCheck line col
   | GuardTag d v tag \<Rightarrow> GuardTag (f d) (f v) tag
   | GuardShape d obj shape \<Rightarrow> GuardShape (f d) (f obj) shape
   | LoadSlot d obj index \<Rightarrow> LoadSlot (f d) (f obj) index
   | GuardElementsKind d array kind t \<Rightarrow> GuardElementsKind (f d) (f array) kind t
   | GuardCallTarget d callee fn \<Rightarrow> GuardCallTarget (f d) (f callee) fn
   | StoreSlot d obj index v tr \<Rightarrow> StoreSlot (map_option f d) (f obj) index (f v) tr
   | LoadEnvSlot d env slot key \<Rightarrow> LoadEnvSlot (f d) (f env) slot (f key)
   | StoreEnvSlot d env slot v key st \<Rightarrow> StoreEnvSlot (map_option f d) (f env) slot (f v) (f key) st)"

definition remap_blocks :: "(BasicBlockId \<Rightarrow> BasicBlockId) \<Rightarrow> Instruction \<Rightarrow> Instruction" where
  "remap_blocks f i = (case i of
     Phi d sources \<Rightarrow> Phi d (map (\<lambda>s. s\<lparr>phi_predecessor := f (phi_predecessor s)\<rparr>) sources)
   | _ \<Rightarrow> i)"

fun term_remap_values :: "(ValueId \<Rightarrow> ValueId) \<Rightarrow> Terminator \<Rightarrow> Terminator" where
  "term_remap_values f (Return v) = Return (map_option f v)"
| "term_remap_values f (Branch c t e) = Branch (f c) t e"
| "term_remap_values f (Switch v cases d e) = Switch (f v) cases d e"
| "term_remap_values f (Throw v) = Throw (f v)"
| "term_remap_values f (Deopt frames) =
     Deopt (map (\<lambda>fr. fr\<lparr>frame_lives := map f (frame_lives fr)\<rparr>) frames)"
| "term_remap_values f (Jump t) = Jump t"
| "term_remap_values f Unreachable = Unreachable"

fun term_remap_blocks :: "(BasicBlockId \<Rightarrow> BasicBlockId) \<Rightarrow> Terminator \<Rightarrow> Terminator" where
  "term_remap_blocks f (Jump t) = Jump (f t)"
| "term_remap_blocks f (Branch c t e) = Branch c (f t) (f e)"
| "term_remap_blocks f (Switch v cases d e) =
     Switch v (map (\<lambda>c. c\<lparr>case_target := f (case_target c)\<rparr>) cases) (f d) (f e)"
| "term_remap_blocks f (Deopt frames) =
     Deopt (map (\<lambda>fr. fr\<lparr>frame_block := f (frame_block fr)\<rparr>) frames)"
| "term_remap_blocks f (Return v) = Return v"
| "term_remap_blocks f (Throw v) = Throw v"
| "term_remap_blocks f Unreachable = Unreachable"

section \<open>Blocks and functions\<close>

record BasicBlock =
  blk_id :: BasicBlockId
  blk_instructions :: "Instruction list"
  blk_terminator :: Terminator

definition block_new :: "BasicBlockId \<Rightarrow> BasicBlock" where
  "block_new b = \<lparr>blk_id = b, blk_instructions = [], blk_terminator = Unreachable\<rparr>"

datatype HomeObject = Prototype FunctionId | Constructor FunctionId

record Function =
  fn_name :: rstr
  fn_params :: "rstr list"
  fn_entry :: BasicBlockId
  fn_blocks :: "BasicBlock list"
  fn_has_eval :: bool
  fn_captured_names :: "rstr list"
  fn_env_layout_keys :: "rstr list"
  fn_known_callee_vars :: "(rstr \<times> FunctionId) list"
  fn_home_object :: "HomeObject option"
  fn_needs_prototype :: bool
  fn_source_span :: "SourceSpan option"
  fn_direct_callable :: bool
  fn_class_ctor_name :: "rstr option"
  fn_js_name :: "rstr option"
  fn_js_length :: "u32 option"
  fn_source_text :: "rstr option"

definition function_new :: "rstr \<Rightarrow> BasicBlockId \<Rightarrow> Function" where
  "function_new n entry =
     \<lparr>fn_name = n, fn_params = [], fn_entry = entry, fn_blocks = [], fn_has_eval = False,
      fn_captured_names = [], fn_env_layout_keys = [], fn_known_callee_vars = [],
      fn_home_object = None, fn_needs_prototype = False, fn_source_span = None,
      fn_direct_callable = False, fn_class_ctor_name = None, fn_js_name = None,
      fn_js_length = None, fn_source_text = None\<rparr>"

definition record_known_callee :: "rstr \<Rightarrow> FunctionId \<Rightarrow> Function \<Rightarrow> Function" where
  "record_known_callee n f fn = fn\<lparr>fn_known_callee_vars := AList.update n f (fn_known_callee_vars fn)\<rparr>"

definition block_by_id :: "Function \<Rightarrow> BasicBlockId \<Rightarrow> BasicBlock option" where
  "block_by_id fn b = get_at (fn_blocks fn) (bix b)"

definition fn_instructions :: "Function \<Rightarrow> Instruction list" where
  \<comment> \<open>the instructions of all blocks in order, as the nested \<open>for\<close> loops visit them\<close>
  "fn_instructions fn = concat (map blk_instructions (fn_blocks fn))"

section \<open>Constants and modules\<close>

datatype Constant =
    Number f64
  | String rstr
  | ArrayTemplate "ConstantId list"
  | ObjectTemplate "u64 list"
  | Bool bool
  | Null
  | Undefined
  | Uninitialized
  | FunctionRef FunctionId
  | NativeCallableEval
  | BigInt rstr
  | RegExp rstr rstr
  | ModuleIdC ModuleId
  | Utf16String "u16 list"

record Module =
  mod_constants :: "Constant list"
  mod_string_constant_metas :: "StringConstantMeta option list"
  mod_functions :: "Function list"
  mod_script_mode :: bool
  mod_source_file :: "rstr option"

definition module_new :: Module where
  "module_new = \<lparr>mod_constants = [], mod_string_constant_metas = [], mod_functions = [], mod_script_mode = False,
                 mod_source_file = None\<rparr>"

definition add_constant_with_meta ::
  "Constant \<Rightarrow> StringConstantMeta option \<Rightarrow> Module \<Rightarrow> Module \<times> ConstantId" where
  "add_constant_with_meta c meta m =
     (m\<lparr>mod_constants := mod_constants m @ [c], mod_string_constant_metas := mod_string_constant_metas m @ [meta]\<rparr>,
      ConstantId (of_nat (length (mod_constants m))))"

fun meta_of_constant :: "Constant \<Rightarrow> StringConstantMeta option" where
  "meta_of_constant (String text) = Some (meta_from_text text)"
| "meta_of_constant (Utf16String units) = Some (meta_from_units units)"
| "meta_of_constant _ = None"

definition add_constant :: "Constant \<Rightarrow> Module \<Rightarrow> Module \<times> ConstantId" where
  "add_constant c m = add_constant_with_meta c (meta_of_constant c) m"

definition push_function :: "Function \<Rightarrow> Module \<Rightarrow> Module \<times> FunctionId" where
  "push_function fn m =
     (m\<lparr>mod_functions := mod_functions m @ [fn]\<rparr>, FunctionId (of_nat (length (mod_functions m))))"

definition string_constant_meta :: "Module \<Rightarrow> ConstantId \<Rightarrow> StringConstantMeta option" where
  "string_constant_meta m c = Option.bind (get_at (mod_string_constant_metas m) (cix c)) (\<lambda>x. x)"

definition append_builtin :: "Module \<Rightarrow> Module \<Rightarrow> Module" where
  "append_builtin other m =
     m\<lparr>mod_constants := mod_constants m @ mod_constants other,
       mod_string_constant_metas := mod_string_constant_metas m @ mod_string_constant_metas other,
       mod_functions := mod_functions m @ mod_functions other\<rparr>"


section \<open>Facts about rewriting\<close>

lemma opt_list_map_option [simp]: "opt_list (map_option f x) = map f (opt_list x)"
  by (cases x) auto

text \<open>Renaming values renames exactly the definition and the uses, in order.\<close>

lemma dest_remap_values: "dest (remap_values f i) = map_option f (dest i)"
  by (cases i) (simp_all add: dest_def remap_values_def)

lemma uses_remap_values: "uses (remap_values f i) = map f (uses i)"
  by (cases i) (simp_all add: uses_def remap_values_def)

lemma remap_values_comp: "remap_values f (remap_values g i) = remap_values (f \<circ> g) i"
  by (cases i) (simp_all add: remap_values_def option.map_comp)

lemma remap_values_id: "remap_values (\<lambda>v. v) i = i"
  by (cases i) (simp_all add: remap_values_def option.map_ident)

lemma dest_remap_blocks: "dest (remap_blocks f i) = dest i"
  by (cases i) (simp_all add: dest_def remap_blocks_def)

lemma uses_remap_blocks: "uses (remap_blocks f i) = uses i"
  by (cases i) (simp_all add: uses_def remap_blocks_def)

lemma remap_values_blocks:
  "remap_values f (remap_blocks g i) = remap_blocks g (remap_values f i)"
  by (cases i) (simp_all add: remap_values_def remap_blocks_def)

end
