(* ===== verification/Errors.thy ===== *)
theory Errors
  imports IR
begin

text \<open>
  The error values of the IR verifier (\<open>wjsm-ir/src/verify.rs\<close>), of the manifest checks
  (\<open>wjsm-artifact-format/src/verify.rs\<close>) and of the artifact format
  (\<open>ArtifactFormatError\<close> in \<open>wjsm-artifact-format/src/lib.rs\<close>). The sources carry formatted
  messages in \<open>IrVerificationError\<close> and \<open>InvalidManifest\<close>; here every message is a
  constructor that holds the values the message interpolates.
\<close>

datatype ValueUseSite =
    InstructionSite BasicBlockId nat
  | TerminatorSite BasicBlockId
  | PhiSourceSite BasicBlockId BasicBlockId

datatype IrVerificationError =
    ConstantMissingFunction nat FunctionId
  | TemplateNameRefNotString nat
  | EntryBlockMissing rstr BasicBlockId
  | InvalidHomeObject rstr FunctionId
  | BlockIdMismatch rstr nat BasicBlockId
  | UnterminatedBlock rstr BasicBlockId
  | MissingConstant rstr BasicBlockId ConstantId
  | MissingSuccessor rstr BasicBlockId BasicBlockId
  | DefinedTwice rstr BasicBlockId ValueId BasicBlockId
  | PhiWithoutSources rstr BasicBlockId
  | PhiInEntryBlock rstr BasicBlockId
  | PhiDuplicatePredecessor rstr BasicBlockId BasicBlockId
  | PhiNotAPredecessor rstr BasicBlockId BasicBlockId
  | PhiMissingPredecessor rstr BasicBlockId BasicBlockId
  | SuperCallForwardsArgs rstr
  | UndefinedValue rstr ValueId ValueUseSite
  | UsedBeforeDefinition rstr ValueId ValueUseSite nat BasicBlockId
  | DefinitionDoesNotDominate rstr ValueId BasicBlockId ValueUseSite

datatype UrlError =
    UrlEmpty
  | UrlBackslash
  | UrlEmptyComponent
  | UrlTruncatedPercent
  | UrlNonCanonicalPercent
  | UrlEncodesUnreserved
  | UrlTraversal
  | UrlEncodesSeparator
  | UrlEncodesNul

datatype ManifestError =
    ManifestEmpty
  | DuplicateModuleId ModuleId
  | InvalidLogicalUrl rstr UrlError
  | DuplicateLogicalUrl rstr
  | MissingModule string ModuleId

datatype ArtifactFormatError =
    Truncated
  | InvalidMagic
  | UnsupportedVersion u16
  | InvalidHeaderLength u16
  | SemanticAbiMismatch
  | TotalLengthMismatch u64 u64
  | ContentHashMismatch
  | SectionHashMismatch u16
  | DuplicateSection u16
  | UnknownRequiredSection u16
  | MissingRequiredSection u16
  | NonCanonical string
  | LimitExceeded string u64 u64
  | LengthOverflow
  | UnknownTag string u64
  | InvalidBoolean u8
  | InvalidUtf8
  | InvalidStringPayload string
  | TrailingBytes nat
  | InvalidIr IrVerificationError
  | InvalidManifest ManifestError
  | MissingSourceText
  | RequiredBuiltinsMismatch

end
