(* ===== verification/Wire_Codec.thy ===== *)
theory Wire_Codec
  imports Errors
begin

text \<open>
  The primitive layer of the portable artifact (\<open>Encoder\<close> and \<open>Decoder\<close> in
  \<open>wjsm-artifact-format/src/wire_v1.rs\<close>) and the contract every codec of the format has: what
  the encoder appends, the decoder reads back, consuming exactly that. The contract is the
  locale \<open>wire_codec\<close>; the count-prefixed lists and the optional values of the format are
  codecs whenever their elements are.
\<close>

section \<open>Limits\<close>

record ArtifactLimits =
  max_total_bytes :: u64
  max_section_bytes :: u64
  max_sections :: u32
  max_modules :: u32
  max_module_edges :: u32
  max_constants :: u32
  max_functions :: u32
  max_blocks_per_function :: u32
  max_instructions_per_block :: u32
  max_phi_sources :: u32
  max_switch_cases :: u32
  max_values_per_list :: u32
  max_strings :: u32
  max_string_bytes :: u32
  max_required_builtins :: u32

definition default_limits :: ArtifactLimits where
  "default_limits =
     \<lparr>max_total_bytes = 256 * 1024 * 1024, max_section_bytes = 192 * 1024 * 1024,
      max_sections = 16, max_modules = 1000000, max_module_edges = 4000000,
      max_constants = 16000000, max_functions = 4000000, max_blocks_per_function = 1000000,
      max_instructions_per_block = 4000000, max_phi_sources = 1000000,
      max_switch_cases = 1000000, max_values_per_list = 1000000, max_strings = 4000000,
      max_string_bytes = 64 * 1024 * 1024, max_required_builtins = 65536\<rparr>"

section \<open>Encoder\<close>

text \<open>
  The encoder's state is the byte vector written so far; a method that can fail returns
  \<open>Result\<close>. Every method is an action on that state, and a statement sequence with \<open>?\<close> is
  \<open>run\<close> of the list of its actions.
\<close>

type_synonym enc = "u8 list \<Rightarrow> ArtifactFormatError + u8 list"

fun run :: "enc list \<Rightarrow> enc" where
  "run [] e = Inr e"
| "run (a # as) e = bindr (a e) (run as)"

declare run.simps [simp del]

definition enc_bytes :: "u8 list \<Rightarrow> enc" where
  "enc_bytes bs e = Inr (e @ bs)"

definition enc_u8 :: "u8 \<Rightarrow> enc" where
  "enc_u8 v e = Inr (e @ [v])"

definition enc_u16 :: "u16 \<Rightarrow> enc" where
  "enc_u16 v e = Inr (e @ u16_le v)"

definition enc_u32 :: "u32 \<Rightarrow> enc" where
  "enc_u32 v e = Inr (e @ u32_le v)"

definition enc_u64 :: "u64 \<Rightarrow> enc" where
  "enc_u64 v e = Inr (e @ u64_le v)"

definition enc_bool :: "bool \<Rightarrow> enc" where
  "enc_bool b e = Inr (e @ [if b then 1 else 0])"

definition enc_len :: "nat \<Rightarrow> enc" where
  "enc_len n e = (if n < 2 ^ 32 then enc_u32 (of_nat n) e else Inl LengthOverflow)"

definition enc_string :: "rstr \<Rightarrow> enc" where
  "enc_string s = run [enc_len (length (as_bytes s)), enc_bytes (as_bytes s)]"

fun enc_optional_string :: "rstr option \<Rightarrow> enc" where
  "enc_optional_string (Some s) = run [enc_bool True, enc_string s]"
| "enc_optional_string None = enc_bool False"

definition enc_list :: "('a \<Rightarrow> enc) \<Rightarrow> 'a list \<Rightarrow> enc" where
  \<comment> \<open>\<open>encoder.len(xs.len())?; for x in xs { encode(x)? }\<close>\<close>
  "enc_list f xs = run (enc_len (length xs) # map f xs)"

definition enc_strings :: "rstr list \<Rightarrow> enc" where
  "enc_strings = enc_list enc_string"

section \<open>Decoder\<close>

record decoder =
  dec_bytes :: "u8 list"
  cursor :: nat
  limits :: ArtifactLimits

type_synonym 'a dec = "decoder \<Rightarrow> ArtifactFormatError + 'a \<times> decoder"

definition ret :: "'a \<Rightarrow> 'a dec" where
  "ret x d = Inr (x, d)"

definition fail :: "ArtifactFormatError \<Rightarrow> 'a dec" where
  "fail e d = Inl e"

definition bnd :: "'a dec \<Rightarrow> ('a \<Rightarrow> 'b dec) \<Rightarrow> 'b dec" where
  "bnd m f d = (case m d of Inl e \<Rightarrow> Inl e | Inr (x, d') \<Rightarrow> f x d')"

definition with_limits :: "(ArtifactLimits \<Rightarrow> 'a dec) \<Rightarrow> 'a dec" where
  "with_limits f d = f (limits d) d"

definition decoder_new :: "u8 list \<Rightarrow> ArtifactLimits \<Rightarrow> decoder" where
  "decoder_new bs L = \<lparr>dec_bytes = bs, cursor = 0, limits = L\<rparr>"

definition finish :: "unit dec" where
  "finish d = (if cursor d = length (dec_bytes d) then Inr ((), d)
               else Inl (TrailingBytes (length (dec_bytes d) - cursor d)))"

definition dec_take :: "nat \<Rightarrow> u8 list dec" where
  "dec_take len d =
     (case usize_checked_add (cursor d) len of
        None \<Rightarrow> Inl LengthOverflow
      | Some e \<Rightarrow>
          (case get_range (dec_bytes d) (cursor d) e of
             None \<Rightarrow> Inl Truncated
           | Some chunk \<Rightarrow> Inr (chunk, d\<lparr>cursor := e\<rparr>)))"

definition dec_u8 :: "u8 dec" where
  "dec_u8 = bnd (dec_take 1) (\<lambda>bs. ret (hd bs))"

definition dec_u16 :: "u16 dec" where
  "dec_u16 = bnd (dec_take 2) (\<lambda>bs. ret (u16_of_le bs))"

definition dec_u32 :: "u32 dec" where
  "dec_u32 = bnd (dec_take 4) (\<lambda>bs. ret (u32_of_le bs))"

definition dec_u64 :: "u64 dec" where
  "dec_u64 = bnd (dec_take 8) (\<lambda>bs. ret (u64_of_le bs))"

definition dec_bool :: "bool dec" where
  "dec_bool = bnd (dec_take 1) (\<lambda>bs.
     if hd bs = 0 then ret False else if hd bs = 1 then ret True else fail (InvalidBoolean (hd bs)))"

definition dec_count :: "u32 \<Rightarrow> nat dec" where
  "dec_count maximum = bnd dec_u32 (\<lambda>v.
     if v > maximum then fail (LimitExceeded ''count'' (ucast v) (ucast maximum)) else ret (unat v))"

definition dec_string :: "rstr dec" where
  "dec_string = with_limits (\<lambda>L. bnd (dec_count (max_string_bytes L)) (\<lambda>len. bnd (dec_take len) (\<lambda>bs.
     case from_utf8 bs of None \<Rightarrow> fail InvalidUtf8 | Some s \<Rightarrow> ret s)))"

definition dec_optional_string :: "rstr option dec" where
  "dec_optional_string = bnd dec_bool (\<lambda>b. if b then bnd dec_string (\<lambda>s. ret (Some s)) else ret None)"

fun dec_times :: "nat \<Rightarrow> 'a dec \<Rightarrow> 'a list dec" where
  \<comment> \<open>\<open>for _ in 0..count { values.push(decode()?) }\<close>\<close>
  "dec_times 0 m = ret []"
| "dec_times (Suc n) m = bnd m (\<lambda>x. bnd (dec_times n m) (\<lambda>xs. ret (x # xs)))"

fun dec_fold :: "nat \<Rightarrow> ('s \<Rightarrow> 's dec) \<Rightarrow> 's \<Rightarrow> 's dec" where
  \<comment> \<open>\<open>for _ in 0..count { state = step(state)? }\<close>\<close>
  "dec_fold 0 f s = ret s"
| "dec_fold (Suc n) f s = bnd (f s) (dec_fold n f)"

definition dec_list :: "u32 \<Rightarrow> 'a dec \<Rightarrow> 'a list dec" where
  "dec_list maximum m = bnd (dec_count maximum) (\<lambda>n. dec_times n m)"

definition dec_strings :: "u32 \<Rightarrow> rstr list dec" where
  "dec_strings maximum = dec_list maximum dec_string"

section \<open>What an action writes and what it reads\<close>

definition writes :: "enc \<Rightarrow> u8 list \<Rightarrow> bool" where
  "writes a bs \<longleftrightarrow> (\<forall>e. a e = Inr (e @ bs))"

definition reads :: "ArtifactLimits \<Rightarrow> 'a dec \<Rightarrow> u8 list \<Rightarrow> 'a \<Rightarrow> bool" where
  "reads L m bs x \<longleftrightarrow>
     (\<forall>d post. limits d = L \<longrightarrow> cursor d \<le> length (dec_bytes d) \<longrightarrow> length (dec_bytes d) < 2 ^ 64 \<longrightarrow>
        drop (cursor d) (dec_bytes d) = bs @ post \<longrightarrow> m d = Inr (x, d\<lparr>cursor := cursor d + length bs\<rparr>))"

text \<open>\<open>codes L a m x\<close>: what \<open>a\<close> appends, \<open>m\<close> reads back as \<open>x\<close> under the limits \<open>L\<close>.\<close>

definition codes :: "ArtifactLimits \<Rightarrow> enc \<Rightarrow> 'a dec \<Rightarrow> 'a \<Rightarrow> bool" where
  "codes L a m x \<longleftrightarrow> (\<exists>bs. writes a bs \<and> reads L m bs x)"

lemma run_single [simp]: "run [a] = a"
proof
  fix e
  show "run [a] e = a e" by (cases "a e") (simp_all add: run.simps)
qed

lemma writes_run_Nil: "writes (run []) []"
  by (simp add: writes_def run.simps)

lemma writes_run_Cons: "writes a bs \<Longrightarrow> writes (run as) cs \<Longrightarrow> writes (run (a # as)) (bs @ cs)"
  by (simp add: writes_def run.simps)

lemma reads_ret: "reads L (ret x) [] x"
  by (simp add: reads_def ret_def)

lemma reads_bnd:
  assumes "reads L m bs x" and "reads L (f x) cs y"
  shows "reads L (bnd m f) (bs @ cs) y"
  unfolding reads_def
proof (intro allI impI)
  fix d :: decoder and post
  assume d: "limits d = L" "cursor d \<le> length (dec_bytes d)" "length (dec_bytes d) < 2 ^ 64"
    and rest: "drop (cursor d) (dec_bytes d) = (bs @ cs) @ post"
  let ?d = "d\<lparr>cursor := cursor d + length bs\<rparr>"
  have rest': "drop (cursor d) (dec_bytes d) = bs @ (cs @ post)" using rest by simp
  with assms(1) d have m: "m d = Inr (x, ?d)" unfolding reads_def by blast
  have "drop (cursor ?d) (dec_bytes ?d) = cs @ post"
    using drop_prefix_drop [OF rest'] by simp
  moreover have "cursor ?d \<le> length (dec_bytes ?d)"
    using drop_prefix_length [OF rest' d(2)] by simp
  ultimately have "f x ?d = Inr (y, ?d\<lparr>cursor := cursor ?d + length cs\<rparr>)"
    using assms(2) [unfolded reads_def, rule_format, of ?d post] d by simp
  then show "bnd m f d = Inr (y, d\<lparr>cursor := cursor d + length (bs @ cs)\<rparr>)"
    by (simp add: bnd_def m add.assoc)
qed


lemma reads_fun:
  assumes "reads L m bs x" and "limits d = L" "cursor d \<le> length (dec_bytes d)"
    "length (dec_bytes d) < 2 ^ 64" "drop (cursor d) (dec_bytes d) = bs @ post"
  shows "m d = Inr (x, d\<lparr>cursor := cursor d + length bs\<rparr>)"
  using assms unfolding reads_def by blast

lemma reads_with_limits: "reads L (f L) bs x \<Longrightarrow> reads L (with_limits f) bs x"
  by (simp add: reads_def with_limits_def)

lemma reads_take: "reads L (dec_take (length bs)) bs bs"
  unfolding reads_def
proof (intro allI impI)
  fix d :: decoder and post
  assume d: "cursor d \<le> length (dec_bytes d)" "length (dec_bytes d) < 2 ^ 64"
    and rest: "drop (cursor d) (dec_bytes d) = bs @ post"
  from drop_prefix_length [OF rest d(1)] have le: "cursor d + length bs \<le> length (dec_bytes d)" .
  then show "dec_take (length bs) d = Inr (bs, d\<lparr>cursor := cursor d + length bs\<rparr>)"
    using d(2) rest by (simp add: dec_take_def get_range_def)
qed

lemma reads_bnd_ret: "reads L m bs x \<Longrightarrow> reads L (bnd m (\<lambda>x. ret (f x))) bs (f x)"
  using reads_bnd [of L m bs x "\<lambda>x. ret (f x)" "[]" "f x"] by (simp add: reads_ret)

section \<open>Codec facts\<close>

lemma codesI: "writes a bs \<Longrightarrow> reads L m bs x \<Longrightarrow> codes L a m x"
  unfolding codes_def by blast

lemma codes_ret [codec_intros]: "codes L (run []) (ret x) x"
  by (rule codesI [OF writes_run_Nil reads_ret])

text \<open>One statement of the encoder against one statement of the decoder.\<close>

lemma codes_step:
  assumes "codes L a m x" and "codes L (run as) (f x) y"
  shows "codes L (run (a # as)) (bnd m f) y"
  using assms unfolding codes_def by (blast intro: writes_run_Cons reads_bnd)

text \<open>The last statement of the encoder, when the decoder only builds its result from it.\<close>

lemma codes_end: "codes L a m x \<Longrightarrow> f x = ret y \<Longrightarrow> codes L a (bnd m f) y"
  using codes_step [of L a m x "[]" f y] by (simp add: codes_ret)

lemma run_append: "run (as @ bs) e = bindr (run as e) (run bs)"
proof (induction as arbitrary: e)
  case (Cons a as)
  then show ?case by (cases "a e") (simp_all add: run.simps)
qed (simp add: run.simps)

lemma codes_with_limits: "codes L a (f L) x \<Longrightarrow> codes L a (with_limits f) x"
  unfolding codes_def by (blast intro: reads_with_limits)

lemma codes_map: "codes L a m x \<Longrightarrow> codes L a (bnd m (\<lambda>x. ret (f x))) (f x)"
  unfolding codes_def by (blast intro: reads_bnd_ret)

lemma codes_bytes: "codes L (enc_bytes bs) (dec_take (length bs)) bs"
  by (rule codesI [OF _ reads_take]) (simp add: writes_def enc_bytes_def)

lemma codes_u8 [codec_intros]: "codes L (enc_u8 v) dec_u8 v"
proof -
  have "reads L dec_u8 [v] v"
    unfolding dec_u8_def using reads_bnd_ret [OF reads_take, of L "[v]" hd] by simp
  then show ?thesis by (rule codesI [rotated]) (simp add: writes_def enc_u8_def)
qed

lemma codes_u16 [codec_intros]: "codes L (enc_u16 v) dec_u16 v"
proof -
  have "reads L dec_u16 (u16_le v) v"
    unfolding dec_u16_def using reads_bnd_ret [OF reads_take, of L "u16_le v" u16_of_le] by simp
  then show ?thesis by (rule codesI [rotated]) (simp add: writes_def enc_u16_def)
qed

lemma codes_u32 [codec_intros]: "codes L (enc_u32 v) dec_u32 v"
proof -
  have "reads L dec_u32 (u32_le v) v"
    unfolding dec_u32_def using reads_bnd_ret [OF reads_take, of L "u32_le v" u32_of_le] by simp
  then show ?thesis by (rule codesI [rotated]) (simp add: writes_def enc_u32_def)
qed

lemma codes_u64 [codec_intros]: "codes L (enc_u64 v) dec_u64 v"
proof -
  have "reads L dec_u64 (u64_le v) v"
    unfolding dec_u64_def using reads_bnd_ret [OF reads_take, of L "u64_le v" u64_of_le] by simp
  then show ?thesis by (rule codesI [rotated]) (simp add: writes_def enc_u64_def)
qed

lemma codes_bool [codec_intros]: "codes L (enc_bool b) dec_bool b"
proof -
  let ?v = "if b then 1 else 0 :: u8"
  let ?f = "\<lambda>bs. if hd bs = 0 then ret False else if hd bs = (1::u8) then ret True
    else fail (InvalidBoolean (hd bs))"
  have "reads L (?f [?v]) [] b" by (simp add: reads_ret)
  from reads_bnd [OF reads_take [of L "[?v]"], of ?f "[]" b, OF this]
  have "reads L dec_bool [?v] b" by (simp add: dec_bool_def)
  then show ?thesis by (rule codesI [rotated]) (simp add: writes_def enc_bool_def)
qed

lemma codes_count:
  assumes "n \<le> unat maximum"
  shows "codes L (enc_len n) (dec_count maximum) n"
proof -
  have n: "n < 2 ^ 32" using assms unat_u32_lt [of maximum] by linarith
  then have w: "unat (of_nat n :: u32) = n" by (rule unat_u32_of_nat)
  have "codes L (enc_u32 (of_nat n)) dec_u32 (of_nat n)" by (rule codes_u32)
  then obtain bs where bs: "writes (enc_u32 (of_nat n)) bs" "reads L dec_u32 bs (of_nat n)"
    unfolding codes_def by blast
  have "writes (enc_len n) bs" using bs(1) n by (simp add: writes_def enc_len_def)
  moreover have "\<not> of_nat n > maximum" using assms w by (simp add: word_less_nat_alt)
  then have "reads L (dec_count maximum) bs n"
    unfolding dec_count_def using reads_bnd [OF bs(2), of _ "[]" n] w by (simp add: reads_ret)
  ultimately show ?thesis by (rule codesI)
qed

text \<open>A string within the limits is written as its UTF-8 bytes and read back.\<close>

definition str_ok :: "ArtifactLimits \<Rightarrow> rstr \<Rightarrow> bool" where
  "str_ok L s \<longleftrightarrow> valid_str s \<and> length (as_bytes s) \<le> unat (max_string_bytes L)"

lemma codes_string [codec_intros]:
  assumes "str_ok L s"
  shows "codes L (enc_string s) dec_string s"
proof -
  have "codes L (enc_bytes (as_bytes s))
      (bnd (dec_take (length (as_bytes s))) (\<lambda>bs.
         case from_utf8 bs of None \<Rightarrow> fail InvalidUtf8 | Some s \<Rightarrow> ret s)) s"
    using assms by (intro codes_end [OF codes_bytes]) (simp add: from_utf8_as_bytes str_ok_def)
  then show ?thesis
    unfolding enc_string_def dec_string_def
    using assms by (intro codes_with_limits codes_step [OF codes_count]) (simp_all add: str_ok_def)
qed

lemma codes_optional_string [codec_intros]:
  assumes "pred_option (str_ok L) s"
  shows "codes L (enc_optional_string s) dec_optional_string s"
proof (cases s)
  case None
  have "codes L (run [enc_bool False]) dec_optional_string None"
    unfolding dec_optional_string_def by (rule codes_step [OF codes_bool]) (simp add: codes_ret)
  then show ?thesis using None by simp
next
  case (Some t)
  have "codes L (enc_string t) (bnd dec_string (\<lambda>s. ret (Some s))) (Some t)"
    using assms Some by (intro codes_map codes_string) simp
  then show ?thesis unfolding Some dec_optional_string_def enc_optional_string.simps
    by (intro codes_step [OF codes_bool]) simp
qed


lemma codes_times:
  assumes "\<forall>x\<in>set xs. codes L (f x) m (g x)"
  shows "codes L (run (map f xs)) (dec_times (length xs) m) (map g xs)"
  using assms
proof (induction xs)
  case Nil
  show ?case by (simp only: list.map list.size dec_times.simps codes_ret)
next
  case (Cons x xs)
  then have "codes L (run (map f xs))
      (bnd (dec_times (length xs) m) (\<lambda>xs. ret (g x # xs))) (g x # map g xs)"
    by (intro codes_map) simp
  moreover have "codes L (f x) m (g x)" using Cons.prems by simp
  ultimately show ?case by (simp add: codes_step [where as = "map f xs"])
qed

lemma codes_list_map:
  assumes "\<forall>x\<in>set xs. codes L (f x) m (g x)" and "length xs \<le> unat maximum"
  shows "codes L (enc_list f xs) (dec_list maximum m) (map g xs)"
  unfolding enc_list_def dec_list_def
  by (intro codes_step [OF codes_count [OF assms(2)]] codes_times [OF assms(1)])

lemma codes_list:
  assumes "\<forall>x\<in>set xs. codes L (f x) m x" and "length xs \<le> unat maximum"
  shows "codes L (enc_list f xs) (dec_list maximum m) xs"
  using codes_list_map [of xs L f m "\<lambda>x. x"] assms by simp

text \<open>An optional value behind a boolean.\<close>

fun enc_opt :: "('a \<Rightarrow> enc) \<Rightarrow> 'a option \<Rightarrow> enc" where
  "enc_opt f None = enc_bool False"
| "enc_opt f (Some x) = run [enc_bool True, f x]"

definition dec_opt :: "'a dec \<Rightarrow> 'a option dec" where
  "dec_opt m = bnd dec_bool (\<lambda>b. if b then bnd m (\<lambda>x. ret (Some x)) else ret None)"

lemma codes_opt:
  assumes "\<And>y. x = Some y \<Longrightarrow> codes L (f y) m y"
  shows "codes L (enc_opt f x) (dec_opt m) x"
proof (cases x)
  case None
  have "codes L (enc_bool False) (dec_opt m) None"
    unfolding dec_opt_def by (rule codes_end [OF codes_bool]) simp
  then show ?thesis using None by simp
next
  case (Some y)
  have "codes L (f y) (bnd m (\<lambda>x. ret (Some x))) (Some y)"
    using assms [OF Some] by (rule codes_map)
  then show ?thesis unfolding Some dec_opt_def enc_opt.simps
    by (intro codes_step [OF codes_bool]) simp
qed

lemma codes_fold:
  assumes "\<And>s x. x \<in> set xs \<Longrightarrow> codes L (f x) (step s) (g s x)"
  shows "codes L (run (map f xs)) (dec_fold (length xs) step s) (foldl g s xs)"
  using assms
proof (induction xs arbitrary: s)
  case Nil
  show ?case by (simp only: list.map list.size dec_fold.simps foldl.simps codes_ret)
next
  case (Cons x xs)
  then have "codes L (run (map f xs)) (dec_fold (length xs) step (g s x)) (foldl g (g s x) xs)"
    by simp
  moreover have "codes L (f x) (step s) (g s x)" using Cons.prems by simp
  ultimately show ?case by (simp add: codes_step [where as = "map f xs"])
qed

lemma codes_strings [codec_intros]:
  "\<forall>s\<in>set ss. str_ok L s \<Longrightarrow> length ss \<le> unat maximum \<Longrightarrow>
    codes L (enc_strings ss) (dec_strings maximum) ss"
  unfolding enc_strings_def dec_strings_def by (intro codes_list) (auto intro: codes_string)

section \<open>Whole byte strings\<close>

text \<open>Decoding a whole section: decode, then \<open>finish\<close> (no trailing bytes).\<close>

definition decode_all :: "'a dec \<Rightarrow> u8 list \<Rightarrow> ArtifactLimits \<Rightarrow> ArtifactFormatError + 'a" where
  "decode_all m bs L =
     bindr (m (decoder_new bs L)) (\<lambda>(x, d). bindr (finish d) (\<lambda>_. Inr x))"

lemma writes_fun: "writes a bs \<Longrightarrow> a e = Inr (e @ bs)"
  by (simp add: writes_def)

lemma reads_decode_all:
  assumes "reads L m bs x" and "length bs < 2 ^ 64"
  shows "decode_all m bs L = Inr x"
proof -
  have "m (decoder_new bs L) = Inr (x, (decoder_new bs L)\<lparr>cursor := length bs\<rparr>)"
    using assms reads_fun [OF assms(1), of "decoder_new bs L" "[]"] by (simp add: decoder_new_def)
  then show ?thesis by (simp add: decode_all_def finish_def decoder_new_def)
qed

lemma codes_decode_all:
  assumes "codes L a m x" and "a [] = Inr bs" and "length bs < 2 ^ 64"
  shows "decode_all m bs L = Inr x"
proof -
  obtain cs where cs: "writes a cs" "reads L m cs x" using assms(1) unfolding codes_def by blast
  with assms(2) have "cs = bs" by (simp add: writes_fun)
  with cs assms(3) show ?thesis by (simp add: reads_decode_all)
qed

lemma codes_prefix_free:
  assumes "codes L a m x" "codes L b m y" and "a [] = Inr bs" "b [] = Inr (bs @ cs)"
    and "length (bs @ cs) < 2 ^ 64"
  shows "x = y \<and> cs = []"
proof -
  obtain as' bs' where w: "writes a as'" "reads L m as' x" "writes b bs'" "reads L m bs' y"
    using assms(1,2) unfolding codes_def by blast
  then have eq: "as' = bs" "bs' = bs @ cs" using assms(3,4) by (simp_all add: writes_fun)
  let ?d = "decoder_new (bs @ cs) L"
  have "m ?d = Inr (x, ?d\<lparr>cursor := length bs\<rparr>)"
    using reads_fun [OF w(2), of ?d cs] eq assms(5) by (simp add: decoder_new_def)
  moreover have "m ?d = Inr (y, ?d\<lparr>cursor := length (bs @ cs)\<rparr>)"
    using reads_fun [OF w(4), of ?d "[]"] eq assms(5) by (simp add: decoder_new_def)
  ultimately have "x = y" and "?d\<lparr>cursor := length bs\<rparr> = ?d\<lparr>cursor := length (bs @ cs)\<rparr>"
    by simp_all
  then have "x = y" "cursor (?d\<lparr>cursor := length bs\<rparr>) = cursor (?d\<lparr>cursor := length (bs @ cs)\<rparr>)"
    by simp_all
  then show ?thesis by simp
qed

section \<open>The codec contract\<close>

text \<open>
  An encoder, a decoder, the values the format can carry under given limits, and the canonical
  form of a value (the sources sort and deduplicate some collections before they write them).
  The laws are the round trip and that only the canonical form is written; what the clients of
  a codec use (whole-section decoding, prefix freedom, when two encodings agree, lists) follows
  once and for all.
\<close>

locale wire_codec =
  fixes encode :: "'a \<Rightarrow> enc"
    and decode :: "'a dec"
    and canon :: "'a \<Rightarrow> 'a"
    and ok :: "ArtifactLimits \<Rightarrow> 'a \<Rightarrow> bool"
  assumes round_trip: "ok L x \<Longrightarrow> codes L (encode x) decode (canon x)"
    and encode_canon: "ok L x \<Longrightarrow> encode (canon x) = encode x"
begin

lemma encode_total: "ok L x \<Longrightarrow> \<exists>bs. encode x e = Inr (e @ bs)"
  using round_trip unfolding codes_def writes_def by blast

lemma stream:
  assumes "ok L x"
  shows "\<exists>bs. encode x e = Inr (e @ bs) \<and>
    (\<forall>rest. length (bs @ rest) < 2 ^ 64 \<longrightarrow>
       decode (decoder_new (bs @ rest) L) =
         Inr (canon x, (decoder_new (bs @ rest) L)\<lparr>cursor := length bs\<rparr>))"
proof -
  from round_trip [OF assms] obtain bs where w: "writes (encode x) bs" "reads L decode bs (canon x)"
    unfolding codes_def by blast
  have "decode (decoder_new (bs @ rest) L) =
      Inr (canon x, (decoder_new (bs @ rest) L)\<lparr>cursor := length bs\<rparr>)"
    if "length (bs @ rest) < 2 ^ 64" for rest
    using reads_fun [OF w(2), of "decoder_new (bs @ rest) L" rest] that
    by (simp add: decoder_new_def)
  with w(1) show ?thesis by (auto simp: writes_fun)
qed

lemma decode_encoded:
  "ok L x \<Longrightarrow> encode x [] = Inr bs \<Longrightarrow> length bs < 2 ^ 64 \<Longrightarrow>
    decode_all decode bs L = Inr (canon x)"
  using round_trip by (rule codes_decode_all)

lemma prefix_free:
  "ok L x \<Longrightarrow> ok L y \<Longrightarrow> encode x [] = Inr bs \<Longrightarrow> encode y [] = Inr (bs @ cs) \<Longrightarrow>
    length (bs @ cs) < 2 ^ 64 \<Longrightarrow> canon x = canon y \<and> cs = []"
  using round_trip [of L x] round_trip [of L y] by (rule codes_prefix_free)

lemma encode_eq_iff:
  assumes "ok L x" "ok L y" and "encode x [] = Inr bs" "length bs < 2 ^ 64"
  shows "encode y [] = Inr bs \<longleftrightarrow> canon x = canon y"
proof
  assume "encode y [] = Inr bs"
  then show "canon x = canon y" using prefix_free [of L x y bs "[]"] assms by simp
next
  assume "canon x = canon y"
  then have "encode y = encode x" using encode_canon assms(1,2) by metis
  with assms(3) show "encode y [] = Inr bs" by simp
qed

lemma round_trip_list:
  "\<forall>x\<in>set xs. ok L x \<Longrightarrow> length xs \<le> unat maximum \<Longrightarrow>
    codes L (enc_list encode xs) (dec_list maximum decode) (map canon xs)"
  by (intro codes_list_map) (auto intro: round_trip)

end

interpretation string_codec: wire_codec enc_string dec_string "\<lambda>s. s" str_ok
  by unfold_locales (simp_all add: codes_string)

interpretation optional_string_codec:
  wire_codec enc_optional_string dec_optional_string "\<lambda>s. s" "\<lambda>L. pred_option (str_ok L)"
  by unfold_locales (simp_all add: codes_optional_string)

section \<open>What decoding cannot do\<close>

text \<open>
  Decoders only move forward inside the buffer, and leave buffer and limits alone. This is a
  property of every decoder built from the primitives.
\<close>

definition forward :: "'a dec \<Rightarrow> bool" where
  "forward m \<longleftrightarrow> (\<forall>d x d'. m d = Inr (x, d') \<longrightarrow> cursor d \<le> length (dec_bytes d) \<longrightarrow>
     dec_bytes d' = dec_bytes d \<and> limits d' = limits d \<and> cursor d \<le> cursor d' \<and>
     cursor d' \<le> length (dec_bytes d))"

lemma bnd_InrE:
  assumes "bnd m f d = Inr (y, d'')"
  obtains x d' where "m d = Inr (x, d')" "f x d' = Inr (y, d'')"
  using assms by (auto simp: bnd_def split: sum.splits)

lemma forward_ret: "forward (ret x)"
  by (simp add: forward_def ret_def)

lemma forward_fail: "forward (fail e)"
  by (simp add: forward_def fail_def)

lemma forward_bnd:
  assumes "forward m" and "\<And>x. forward (f x)"
  shows "forward (bnd m f)"
  unfolding forward_def
proof (intro allI impI)
  fix d y d''
  assume "bnd m f d = Inr (y, d'')" and le: "cursor d \<le> length (dec_bytes d)"
  then obtain x d' where m: "m d = Inr (x, d')" and f: "f x d' = Inr (y, d'')"
    by (elim bnd_InrE)
  from assms(1) m le have 1: "dec_bytes d' = dec_bytes d \<and> limits d' = limits d \<and>
      cursor d \<le> cursor d' \<and> cursor d' \<le> length (dec_bytes d)"
    unfolding forward_def by blast
  with assms(2) [of x] f have "dec_bytes d'' = dec_bytes d' \<and> limits d'' = limits d' \<and>
      cursor d' \<le> cursor d'' \<and> cursor d'' \<le> length (dec_bytes d')"
    using 1 unfolding forward_def by metis
  with 1 show "dec_bytes d'' = dec_bytes d \<and> limits d'' = limits d \<and> cursor d \<le> cursor d'' \<and>
      cursor d'' \<le> length (dec_bytes d)"
    by auto
qed

lemma forward_with_limits: "(\<And>L. forward (f L)) \<Longrightarrow> forward (with_limits f)"
  unfolding forward_def with_limits_def by blast

lemma forward_take: "forward (dec_take n)"
  by (auto simp: forward_def dec_take_def split: option.splits dest!: get_range_SomeD)

lemma forward_times: "forward m \<Longrightarrow> forward (dec_times n m)"
  by (induction n) (auto intro!: forward_bnd forward_ret)

lemma forward_fold: "(\<And>s. forward (f s)) \<Longrightarrow> forward (dec_fold n f s)"
  by (induction n arbitrary: s) (auto intro!: forward_bnd forward_ret)

lemmas forward_intros = forward_ret forward_fail forward_bnd forward_with_limits forward_take
  forward_times forward_fold

end
