(* ===== verification/Wire_Program.thy ===== *)
theory Wire_Program
  imports Wire_Codec "HOL-Library.List_Lexorder"
begin

text \<open>
  Encoding and decoding of IR programs (\<open>wjsm-artifact-format/src/wire_v1.rs\<close>): operators,
  instructions, terminators, blocks, functions, constants and whole programs. Every encoder is
  \<open>run\<close> of the statements of the source, every decoder the source's sequence of reads. For each
  of them a predicate says which values the format can carry under given limits, and the
  codec contract is proved for them.
\<close>

section \<open>Operators\<close>

fun binary_tag :: "BinaryOp \<Rightarrow> u16" where
  "binary_tag Add = 0" | "binary_tag Sub = 1" | "binary_tag Mul = 2" | "binary_tag Div = 3"
| "binary_tag Mod = 4" | "binary_tag Exp = 5" | "binary_tag BitAnd = 6" | "binary_tag BitOr = 7"
| "binary_tag BitXor = 8" | "binary_tag Shl = 9" | "binary_tag Shr = 10" | "binary_tag UShr = 11"

definition decode_binary :: "u16 \<Rightarrow> ArtifactFormatError + BinaryOp" where
  "decode_binary tag =
     (if tag = 0 then Inr Add else if tag = 1 then Inr Sub else if tag = 2 then Inr Mul
      else if tag = 3 then Inr Div else if tag = 4 then Inr Mod else if tag = 5 then Inr Exp
      else if tag = 6 then Inr BitAnd else if tag = 7 then Inr BitOr else if tag = 8 then Inr BitXor
      else if tag = 9 then Inr Shl else if tag = 10 then Inr Shr else if tag = 11 then Inr UShr
      else Inl (UnknownTag ''binary op'' (ucast tag)))"

fun unary_tag :: "UnaryOp \<Rightarrow> u16" where
  "unary_tag NotOp = 0" | "unary_tag Neg = 1" | "unary_tag Pos = 2" | "unary_tag BitNot = 3"
| "unary_tag Void = 4" | "unary_tag IsNullish = 5" | "unary_tag Delete = 6"

definition decode_unary :: "u16 \<Rightarrow> ArtifactFormatError + UnaryOp" where
  "decode_unary tag =
     (if tag = 0 then Inr NotOp else if tag = 1 then Inr Neg else if tag = 2 then Inr Pos
      else if tag = 3 then Inr BitNot else if tag = 4 then Inr Void
      else if tag = 5 then Inr IsNullish else if tag = 6 then Inr Delete
      else Inl (UnknownTag ''unary op'' (ucast tag)))"

fun compare_tag :: "CompareOp \<Rightarrow> u16" where
  "compare_tag StrictEq = 0" | "compare_tag StrictNotEq = 1" | "compare_tag Lt = 2"
| "compare_tag Gt = 3" | "compare_tag LtEq = 4" | "compare_tag GtEq = 5"

definition decode_compare :: "u16 \<Rightarrow> ArtifactFormatError + CompareOp" where
  "decode_compare tag =
     (if tag = 0 then Inr StrictEq else if tag = 1 then Inr StrictNotEq
      else if tag = 2 then Inr Lt else if tag = 3 then Inr Gt
      else if tag = 4 then Inr LtEq else if tag = 5 then Inr GtEq
      else Inl (UnknownTag ''compare op'' (ucast tag)))"

lemma decode_binary_tag: "decode_binary (binary_tag op) = Inr op"
  by (cases op) (simp_all add: decode_binary_def)

lemma decode_unary_tag: "decode_unary (unary_tag op) = Inr op"
  by (cases op) (simp_all add: decode_unary_def)

lemma decode_compare_tag: "decode_compare (compare_tag op) = Inr op"
  by (cases op) (simp_all add: decode_compare_def)

fun lift :: "ArtifactFormatError + 'a \<Rightarrow> 'a dec" where
  "lift (Inl e) = fail e"
| "lift (Inr x) = ret x"

section \<open>Values\<close>

definition value_id :: "ValueId \<Rightarrow> enc" where
  "value_id v = enc_u32 (vid v)"

fun optional_value_id :: "ValueId option \<Rightarrow> enc" where
  "optional_value_id (Some v) = run [enc_bool True, value_id v]"
| "optional_value_id None = enc_bool False"

definition value_ids :: "ValueId list \<Rightarrow> enc" where
  "value_ids = enc_list value_id"

definition two_values :: "ValueId \<Rightarrow> ValueId \<Rightarrow> enc" where
  "two_values a b = run [value_id a, value_id b]"

definition three_values :: "ValueId \<Rightarrow> ValueId \<Rightarrow> ValueId \<Rightarrow> enc" where
  "three_values a b c = run [value_id a, value_id b, value_id c]"

definition next_value :: "ValueId dec" where
  "next_value = bnd dec_u32 (\<lambda>w. ret (ValueId w))"

definition dec_constant_id :: "ConstantId dec" where
  "dec_constant_id = bnd dec_u32 (\<lambda>w. ret (ConstantId w))"

definition dec_function_id :: "FunctionId dec" where
  "dec_function_id = bnd dec_u32 (\<lambda>w. ret (FunctionId w))"

definition dec_block_id :: "BasicBlockId dec" where
  "dec_block_id = bnd dec_u32 (\<lambda>w. ret (BasicBlockId w))"

definition decode_optional_value :: "ValueId option dec" where
  "decode_optional_value =
     bnd dec_bool (\<lambda>b. if b then bnd next_value (\<lambda>v. ret (Some v)) else ret None)"

definition decode_value_ids :: "ValueId list dec" where
  "decode_value_ids = with_limits (\<lambda>L. dec_list (max_values_per_list L) next_value)"

definition decode_two :: "(ValueId \<times> ValueId) dec" where
  "decode_two = bnd next_value (\<lambda>a. bnd next_value (\<lambda>b. ret (a, b)))"

definition decode_three :: "(ValueId \<times> ValueId \<times> ValueId) dec" where
  "decode_three = bnd next_value (\<lambda>a. bnd next_value (\<lambda>b. bnd next_value (\<lambda>c. ret (a, b, c))))"

definition encode_call :: "ValueId option \<Rightarrow> ValueId \<Rightarrow> ValueId \<Rightarrow> ValueId list \<Rightarrow> enc" where
  "encode_call d callee this args =
     run [optional_value_id d, value_id callee, value_id this, value_ids args]"

definition decode_call :: "(ValueId option \<times> ValueId \<times> ValueId \<times> ValueId list) dec" where
  "decode_call =
     bnd decode_optional_value (\<lambda>d. bnd next_value (\<lambda>callee. bnd next_value (\<lambda>this.
     bnd decode_value_ids (\<lambda>args. ret (d, callee, this, args)))))"

text \<open>\<open>unwrap_or(u32::MAX)\<close> and \<open>(raw != u32::MAX).then_some(raw)\<close>.\<close>

definition u32_or_max :: "u32 option \<Rightarrow> u32" where
  "u32_or_max x = (case x of None \<Rightarrow> 0xFFFFFFFF | Some w \<Rightarrow> w)"

definition not_max :: "u32 \<Rightarrow> u32 option" where
  "not_max w = (if w \<noteq> 0xFFFFFFFF then Some w else None)"

definition dec_flag16 :: "bool dec" where
  \<comment> \<open>\<open>decoder.u16()? != 0\<close>\<close>
  "dec_flag16 = bnd dec_u16 (\<lambda>w. ret (w \<noteq> 0))"

definition enc_flag16 :: "bool \<Rightarrow> enc" where
  \<comment> \<open>\<open>encoder.u16(u16::from(flag))\<close>\<close>
  "enc_flag16 b = enc_u16 (if b then 1 else 0)"

definition OBJECT_TEMPLATE_MAX_PROPS :: u32 where "OBJECT_TEMPLATE_MAX_PROPS = 16"

section \<open>Instructions\<close>

definition encode_phi_source :: "PhiSource \<Rightarrow> enc" where
  "encode_phi_source s = run [enc_u32 (bid (phi_predecessor s)), value_id (phi_value s)]"

definition decode_phi_source :: "PhiSource dec" where
  "decode_phi_source = bnd dec_block_id (\<lambda>p. bnd next_value (\<lambda>v.
     ret \<lparr>phi_predecessor = p, phi_value = v\<rparr>))"

definition encode_instruction :: "Instruction \<Rightarrow> enc" where
  "encode_instruction i = (case i of
     Const d c \<Rightarrow> run [enc_u16 0, value_id d, enc_u32 (cid c)]
   | Binary d op lhs rhs \<Rightarrow>
       run [enc_u16 1, value_id d, enc_u16 (binary_tag op), value_id lhs, value_id rhs]
   | Unary d op v \<Rightarrow> run [enc_u16 2, value_id d, enc_u16 (unary_tag op), value_id v]
   | Compare d op lhs rhs \<Rightarrow>
       run [enc_u16 3, value_id d, enc_u16 (compare_tag op), value_id lhs, value_id rhs]
   | Phi d sources \<Rightarrow> run [enc_u16 4, value_id d, enc_list encode_phi_source sources]
   | CallBuiltin d b args \<Rightarrow>
       run [enc_u16 5, optional_value_id d, enc_u16 (wire_id b), value_ids args]
   | StringConcatVa d parts \<Rightarrow> run [enc_u16 6, value_id d, value_ids parts]
   | LoadVar d n \<Rightarrow> run [enc_u16 7, value_id d, enc_string n]
   | StoreVar n v \<Rightarrow> run [enc_u16 8, enc_string n, value_id v]
   | Call d callee this args cs \<Rightarrow>
       run [enc_u16 9, encode_call d callee this args, enc_optional_string cs]
   | SuperCall d callee this args fwd \<Rightarrow>
       run [enc_u16 10, encode_call d callee this args, enc_bool fwd]
   | ConstructCall d callee this args cs \<Rightarrow>
       run [enc_u16 11, encode_call d callee this args, enc_optional_string cs]
   | NewObject d c \<Rightarrow> run [enc_u16 12, value_id d, enc_u32 c]
   | GetProp d obj key latch t \<Rightarrow>
       run [enc_u16 13, three_values d obj key, optional_value_id latch,
            enc_u32 (u32_or_max (map_option cid t))]
   | SetProp d obj key v st \<Rightarrow>
       run [enc_u16 14, value_id d, value_id obj, value_id key, value_id v, enc_flag16 st]
   | DeleteProp d obj key st \<Rightarrow> run [enc_u16 15, three_values d obj key, enc_flag16 st]
   | SetProto obj v \<Rightarrow> run [enc_u16 16, two_values obj v]
   | NewArray d c \<Rightarrow> run [enc_u16 17, value_id d, enc_u32 c]
   | CloneArrayTemplate d t \<Rightarrow> run [enc_u16 38, value_id d, enc_u32 (cid t)]
   | GetElem d obj index latch \<Rightarrow>
       run [enc_u16 18, three_values d obj index, optional_value_id latch]
   | SetElem d obj index v st \<Rightarrow>
       run [enc_u16 19, value_id d, value_id obj, value_id index, value_id v, enc_flag16 st]
   | ObjectSpread d obj source \<Rightarrow> run [enc_u16 23, three_values d obj source]
   | GetSuperBase d \<Rightarrow> run [enc_u16 24, value_id d]
   | GetSuperConstructor d \<Rightarrow> run [enc_u16 25, value_id d]
   | NewPromise d \<Rightarrow> run [enc_u16 26, value_id d]
   | PromiseResolve promise v \<Rightarrow> run [enc_u16 27, two_values promise v]
   | PromiseReject promise reason \<Rightarrow> run [enc_u16 28, two_values promise reason]
   | Suspend promise st \<Rightarrow> run [enc_u16 29, value_id promise, enc_u32 st]
   | GeneratorSuspend result st \<Rightarrow> run [enc_u16 30, value_id result, enc_u32 st]
   | CollectRestArgs d skip \<Rightarrow> run [enc_u16 31, value_id d, enc_u32 skip]
   | IsException d v \<Rightarrow> run [enc_u16 32, two_values d v]
   | GuardSameFunction d callee fn \<Rightarrow> run [enc_u16 33, two_values d callee, enc_u32 (fid fn)]
   | EncodeException d v \<Rightarrow> run [enc_u16 34, two_values d v]
   | ExceptionToObject d v \<Rightarrow> run [enc_u16 35, two_values d v]
   | DebugCheck line col \<Rightarrow> run [enc_u16 36, enc_u32 line, enc_u32 col]
   | CreateDataProperty d obj key v \<Rightarrow>
       run [enc_u16 37, value_id d, value_id obj, value_id key, value_id v]
   | InitObjectLiteral d t values \<Rightarrow>
       run [enc_u16 39, value_id d, enc_u32 (cid t), value_ids values]
   | GuardTag d v tag \<Rightarrow> run [enc_u16 43, two_values d v, enc_u8 tag]
   | GuardShape d obj shape \<Rightarrow> run [enc_u16 44, two_values d obj, enc_u32 shape]
   | GuardElementsKind d array kind t \<Rightarrow>
       run [enc_u16 45, two_values d array, enc_u32 kind, enc_u32 (u32_or_max (map_option cid t))]
   | GuardCallTarget d callee fn \<Rightarrow> run [enc_u16 46, two_values d callee, enc_u32 (fid fn)]
   | LoadSlot d obj index \<Rightarrow> run [enc_u16 47, two_values d obj, enc_u32 index]
   | StoreSlot d obj index v tr \<Rightarrow>
       run [enc_u16 48, optional_value_id d, two_values obj v, enc_u32 index, enc_u32 (u32_or_max tr)]
   | LoadEnvSlot d env slot key \<Rightarrow>
       run [enc_u16 49, two_values d env, enc_u32 slot, value_id key]
   | StoreEnvSlot d env slot v key st \<Rightarrow>
       run [enc_u16 50, optional_value_id d, two_values env v, enc_u32 slot, value_id key,
            enc_bool st])"

definition decode_instruction :: "Instruction dec" where
  "decode_instruction = bnd dec_u16 (\<lambda>tag.
     if tag = 0 then bnd next_value (\<lambda>d. bnd dec_constant_id (\<lambda>c. ret (Const d c)))
     else if tag = 1 then
       bnd next_value (\<lambda>d. bnd (bnd dec_u16 (\<lambda>t. lift (decode_binary t))) (\<lambda>op.
       bnd next_value (\<lambda>lhs. bnd next_value (\<lambda>rhs. ret (Binary d op lhs rhs)))))
     else if tag = 2 then
       bnd next_value (\<lambda>d. bnd (bnd dec_u16 (\<lambda>t. lift (decode_unary t))) (\<lambda>op.
       bnd next_value (\<lambda>v. ret (Unary d op v))))
     else if tag = 3 then
       bnd next_value (\<lambda>d. bnd (bnd dec_u16 (\<lambda>t. lift (decode_compare t))) (\<lambda>op.
       bnd next_value (\<lambda>lhs. bnd next_value (\<lambda>rhs. ret (Compare d op lhs rhs)))))
     else if tag = 4 then
       bnd next_value (\<lambda>d.
       bnd (with_limits (\<lambda>L. dec_list (max_phi_sources L) decode_phi_source)) (\<lambda>sources.
       ret (Phi d sources)))
     else if tag = 5 then
       bnd decode_optional_value (\<lambda>d.
       bnd (bnd dec_u16 (\<lambda>w. lift (ok_or (builtin_from_wire_id w) (UnknownTag ''builtin'' (ucast w))))) (\<lambda>b.
       bnd decode_value_ids (\<lambda>args. ret (CallBuiltin d b args))))
     else if tag = 6 then
       bnd next_value (\<lambda>d. bnd decode_value_ids (\<lambda>parts. ret (StringConcatVa d parts)))
     else if tag = 7 then bnd next_value (\<lambda>d. bnd dec_string (\<lambda>n. ret (LoadVar d n)))
     else if tag = 8 then bnd dec_string (\<lambda>n. bnd next_value (\<lambda>v. ret (StoreVar n v)))
     else if tag = 9 then
       bnd decode_call (\<lambda>(d, callee, this, args). bnd dec_optional_string (\<lambda>cs.
       ret (Call d callee this args cs)))
     else if tag = 10 then
       bnd decode_call (\<lambda>(d, callee, this, args). bnd dec_bool (\<lambda>fwd.
       ret (SuperCall d callee this args fwd)))
     else if tag = 11 then
       bnd decode_call (\<lambda>(d, callee, this, args). bnd dec_optional_string (\<lambda>cs.
       ret (ConstructCall d callee this args cs)))
     else if tag = 12 then bnd next_value (\<lambda>d. bnd dec_u32 (\<lambda>c. ret (NewObject d c)))
     else if tag = 13 then
       bnd decode_three (\<lambda>(d, obj, key). bnd decode_optional_value (\<lambda>latch. bnd dec_u32 (\<lambda>t.
       ret (GetProp d obj key latch (map_option ConstantId (not_max t))))))
     else if tag = 14 then
       bnd next_value (\<lambda>d. bnd next_value (\<lambda>obj. bnd next_value (\<lambda>key. bnd next_value (\<lambda>v.
       bnd dec_flag16 (\<lambda>st. ret (SetProp d obj key v st))))))
     else if tag = 15 then
       bnd decode_three (\<lambda>(d, obj, key). bnd dec_flag16 (\<lambda>st. ret (DeleteProp d obj key st)))
     else if tag = 16 then bnd decode_two (\<lambda>(obj, v). ret (SetProto obj v))
     else if tag = 17 then bnd next_value (\<lambda>d. bnd dec_u32 (\<lambda>c. ret (NewArray d c)))
     else if tag = 18 then
       bnd decode_three (\<lambda>(d, obj, index). bnd decode_optional_value (\<lambda>latch.
       ret (GetElem d obj index latch)))
     else if tag = 19 then
       bnd next_value (\<lambda>d. bnd next_value (\<lambda>obj. bnd next_value (\<lambda>index. bnd next_value (\<lambda>v.
       bnd dec_flag16 (\<lambda>st. ret (SetElem d obj index v st))))))
     else if tag = 23 then bnd decode_three (\<lambda>(d, obj, source). ret (ObjectSpread d obj source))
     else if tag = 24 then bnd next_value (\<lambda>d. ret (GetSuperBase d))
     else if tag = 25 then bnd next_value (\<lambda>d. ret (GetSuperConstructor d))
     else if tag = 26 then bnd next_value (\<lambda>d. ret (NewPromise d))
     else if tag = 27 then bnd decode_two (\<lambda>(promise, v). ret (PromiseResolve promise v))
     else if tag = 28 then bnd decode_two (\<lambda>(promise, reason). ret (PromiseReject promise reason))
     else if tag = 29 then bnd next_value (\<lambda>promise. bnd dec_u32 (\<lambda>st. ret (Suspend promise st)))
     else if tag = 30 then
       bnd next_value (\<lambda>result. bnd dec_u32 (\<lambda>st. ret (GeneratorSuspend result st)))
     else if tag = 31 then bnd next_value (\<lambda>d. bnd dec_u32 (\<lambda>skip. ret (CollectRestArgs d skip)))
     else if tag = 32 then bnd decode_two (\<lambda>(d, v). ret (IsException d v))
     else if tag = 33 then
       bnd decode_two (\<lambda>(d, callee). bnd dec_function_id (\<lambda>fn. ret (GuardSameFunction d callee fn)))
     else if tag = 34 then bnd decode_two (\<lambda>(d, v). ret (EncodeException d v))
     else if tag = 35 then bnd decode_two (\<lambda>(d, v). ret (ExceptionToObject d v))
     else if tag = 36 then bnd dec_u32 (\<lambda>line. bnd dec_u32 (\<lambda>col. ret (DebugCheck line col)))
     else if tag = 37 then
       bnd next_value (\<lambda>d. bnd next_value (\<lambda>obj. bnd next_value (\<lambda>key. bnd next_value (\<lambda>v.
       ret (CreateDataProperty d obj key v)))))
     else if tag = 38 then
       bnd next_value (\<lambda>d. bnd dec_constant_id (\<lambda>t. ret (CloneArrayTemplate d t)))
     else if tag = 39 then
       bnd next_value (\<lambda>d. bnd dec_constant_id (\<lambda>t.
       bnd (dec_list OBJECT_TEMPLATE_MAX_PROPS next_value) (\<lambda>values.
       ret (InitObjectLiteral d t values))))
     else if tag = 43 then bnd decode_two (\<lambda>(d, v). bnd dec_u8 (\<lambda>t. ret (GuardTag d v t)))
     else if tag = 44 then
       bnd decode_two (\<lambda>(d, obj). bnd dec_u32 (\<lambda>shape. ret (GuardShape d obj shape)))
     else if tag = 45 then
       bnd decode_two (\<lambda>(d, array). bnd dec_u32 (\<lambda>kind. bnd dec_u32 (\<lambda>t.
       ret (GuardElementsKind d array kind (map_option ConstantId (not_max t))))))
     else if tag = 46 then
       bnd decode_two (\<lambda>(d, callee). bnd dec_function_id (\<lambda>fn. ret (GuardCallTarget d callee fn)))
     else if tag = 47 then
       bnd decode_two (\<lambda>(d, obj). bnd dec_u32 (\<lambda>index. ret (LoadSlot d obj index)))
     else if tag = 48 then
       bnd decode_optional_value (\<lambda>d. bnd decode_two (\<lambda>(obj, v). bnd dec_u32 (\<lambda>index.
       bnd dec_u32 (\<lambda>tr. ret (StoreSlot d obj index v (not_max tr))))))
     else if tag = 49 then
       bnd decode_two (\<lambda>(d, env). bnd dec_u32 (\<lambda>slot. bnd next_value (\<lambda>key.
       ret (LoadEnvSlot d env slot key))))
     else if tag = 50 then
       bnd decode_optional_value (\<lambda>d. bnd decode_two (\<lambda>(env, v). bnd dec_u32 (\<lambda>slot.
       bnd next_value (\<lambda>key. bnd dec_bool (\<lambda>st. ret (StoreEnvSlot d env slot v key st))))))
     else fail (UnknownTag ''instruction'' (ucast tag)))"

text \<open>The instructions the format can carry.\<close>

definition values_ok :: "ArtifactLimits \<Rightarrow> ValueId list \<Rightarrow> bool" where
  "values_ok L vs \<longleftrightarrow> length vs \<le> unat (max_values_per_list L)"

definition instruction_ok :: "ArtifactLimits \<Rightarrow> Instruction \<Rightarrow> bool" where
  "instruction_ok L i = (case i of
     Phi _ sources \<Rightarrow> length sources \<le> unat (max_phi_sources L)
   | CallBuiltin _ b args \<Rightarrow> wire_id b \<le> last_wire_id \<and> values_ok L args
   | StringConcatVa _ parts \<Rightarrow> values_ok L parts
   | LoadVar _ n \<Rightarrow> str_ok L n
   | StoreVar n _ \<Rightarrow> str_ok L n
   | Call _ _ _ args cs \<Rightarrow> values_ok L args \<and> pred_option (str_ok L) cs
   | SuperCall _ _ _ args _ \<Rightarrow> values_ok L args
   | ConstructCall _ _ _ args cs \<Rightarrow> values_ok L args \<and> pred_option (str_ok L) cs
   | GetProp _ _ _ _ t \<Rightarrow> t \<noteq> Some (ConstantId 0xFFFFFFFF)
   | InitObjectLiteral _ _ values \<Rightarrow> length values \<le> unat OBJECT_TEMPLATE_MAX_PROPS
   | GuardElementsKind _ _ _ t \<Rightarrow> t \<noteq> Some (ConstantId 0xFFFFFFFF)
   | StoreSlot _ _ _ _ tr \<Rightarrow> tr \<noteq> Some 0xFFFFFFFF
   | _ \<Rightarrow> True)"


section \<open>Codec facts of the parts\<close>

lemma codes_id:
  "codes L (enc_u32 (vid v)) next_value v"
  "codes L (enc_u32 (cid c)) dec_constant_id c"
  "codes L (enc_u32 (fid f)) dec_function_id f"
  "codes L (enc_u32 (bid b)) dec_block_id b"
  unfolding next_value_def dec_constant_id_def dec_function_id_def dec_block_id_def
  by (rule codes_end [OF codes_u32], simp)+

lemma codes_value [codec_intros]: "codes L (value_id v) next_value v"
  unfolding value_id_def by (rule codes_id)

lemmas [codec_intros] = codes_id(2-4)

lemma codes_optional_value [codec_intros]:
  "codes L (optional_value_id v) decode_optional_value v"
proof (cases v)
  case None
  have "codes L (enc_bool False) decode_optional_value None"
    unfolding decode_optional_value_def by (rule codes_end [OF codes_bool]) simp
  then show ?thesis using None by simp
next
  case (Some w)
  have "codes L (value_id w) (bnd next_value (\<lambda>v. ret (Some v))) (Some w)"
    by (rule codes_map [OF codes_value])
  then show ?thesis unfolding Some decode_optional_value_def optional_value_id.simps
    by (intro codes_step [OF codes_bool]) simp
qed

lemma codes_two [codec_intros]: "codes L (two_values a b) decode_two (a, b)"
  unfolding two_values_def decode_two_def
  by (intro codes_step [OF codes_value] codes_ret)

lemma codes_three [codec_intros]: "codes L (three_values a b c) decode_three (a, b, c)"
  unfolding three_values_def decode_three_def
  by (intro codes_step [OF codes_value] codes_ret)

lemma codes_value_ids [codec_intros]:
  "values_ok L vs \<Longrightarrow> codes L (value_ids vs) decode_value_ids vs"
  unfolding value_ids_def decode_value_ids_def values_ok_def
  by (intro codes_with_limits codes_list) (auto intro: codes_value)

lemma codes_call [codec_intros]:
  "values_ok L args \<Longrightarrow> codes L (encode_call d callee this args) decode_call (d, callee, this, args)"
  unfolding encode_call_def decode_call_def
  by (intro codes_step [OF codes_optional_value] codes_step [OF codes_value]
      codes_step [OF codes_value_ids] codes_ret)

lemma codes_flag16 [codec_intros]: "codes L (enc_flag16 b) dec_flag16 b"
  unfolding enc_flag16_def dec_flag16_def by (rule codes_end [OF codes_u16]) simp

lemma codes_binary [codec_intros]:
  "codes L (enc_u16 (binary_tag op)) (bnd dec_u16 (\<lambda>t. lift (decode_binary t))) op"
  by (rule codes_end [OF codes_u16]) (simp add: decode_binary_tag)

lemma codes_unary [codec_intros]:
  "codes L (enc_u16 (unary_tag op)) (bnd dec_u16 (\<lambda>t. lift (decode_unary t))) op"
  by (rule codes_end [OF codes_u16]) (simp add: decode_unary_tag)

lemma codes_compare [codec_intros]:
  "codes L (enc_u16 (compare_tag op)) (bnd dec_u16 (\<lambda>t. lift (decode_compare t))) op"
  by (rule codes_end [OF codes_u16]) (simp add: decode_compare_tag)

lemma codes_builtin [codec_intros]:
  "wire_id b \<le> last_wire_id \<Longrightarrow>
    codes L (enc_u16 (wire_id b))
      (bnd dec_u16 (\<lambda>w. lift (ok_or (builtin_from_wire_id w) (UnknownTag ''builtin'' (ucast w))))) b"
  by (rule codes_end [OF codes_u16]) (simp add: builtin_from_wire_id_def linorder_not_less [symmetric])

lemma codes_done: "x = y \<Longrightarrow> codes L (run []) (ret x) y"
  by (simp add: codes_ret)

lemma codes_phi_source: "codes L (encode_phi_source s) decode_phi_source s"
  unfolding encode_phi_source_def decode_phi_source_def
  by (intro codes_step [OF codes_id(4)] codes_step [OF codes_value] codes_done) (cases s, simp)

lemma codes_phi_sources [codec_intros]:
  "length sources \<le> unat (max_phi_sources L) \<Longrightarrow>
    codes L (enc_list encode_phi_source sources)
      (with_limits (\<lambda>L. dec_list (max_phi_sources L) decode_phi_source)) sources"
  by (intro codes_with_limits codes_list) (auto intro: codes_phi_source)

lemma codes_template_values [codec_intros]:
  "length vs \<le> unat OBJECT_TEMPLATE_MAX_PROPS \<Longrightarrow>
    codes L (value_ids vs) (dec_list OBJECT_TEMPLATE_MAX_PROPS next_value) vs"
  unfolding value_ids_def by (intro codes_list) (auto intro: codes_value)

lemma not_max_u32_or_max: "x \<noteq> Some 0xFFFFFFFF \<Longrightarrow> not_max (u32_or_max x) = x"
  by (cases x) (simp_all add: not_max_def u32_or_max_def)

lemma not_max_template:
  "t \<noteq> Some (ConstantId 0xFFFFFFFF) \<Longrightarrow>
    map_option ConstantId (not_max (u32_or_max (map_option cid t))) = t"
  by (cases t; cases "the t") (auto simp: not_max_def u32_or_max_def)

lemmas template_simps = not_max_template not_max_u32_or_max

text \<open>The tag of every instruction selects the branch of the decoder that reads its operands.\<close>

text \<open>The tag of every instruction selects the branch of the decoder that reads its operands.\<close>

lemma codes_instruction:
  "instruction_ok L i \<Longrightarrow> codes L (encode_instruction i) decode_instruction i"
  by (cases i; simp only: encode_instruction_def decode_instruction_def instruction_ok_def
        Instruction.case; rule codes_step [OF codes_u16]; simp del: run_single)
     (((rule codes_step, rule codec_intros, (simp; fail)?, (simp only: prod.case)?)+,
       rule codes_done, simp add: template_simps; fail)+)

interpretation instruction_codec: wire_codec encode_instruction decode_instruction "\<lambda>i. i" instruction_ok
  by unfold_locales (simp_all add: codes_instruction)

section \<open>Terminators and blocks\<close>

definition encode_switch_case :: "SwitchCaseTarget \<Rightarrow> enc" where
  "encode_switch_case c = run [enc_u32 (cid (case_constant c)), enc_u32 (bid (case_target c))]"

definition decode_switch_case :: "SwitchCaseTarget dec" where
  "decode_switch_case = bnd dec_constant_id (\<lambda>c. bnd dec_block_id (\<lambda>t.
     ret \<lparr>case_constant = c, case_target = t\<rparr>))"

definition encode_frame :: "DeoptFrame \<Rightarrow> enc" where
  "encode_frame f =
     run [enc_u32 (fid (frame_function f)), enc_u32 (bid (frame_block f)),
          enc_u32 (frame_instruction_index f), enc_list value_id (frame_lives f)]"

definition decode_frame :: "DeoptFrame dec" where
  "decode_frame = bnd dec_function_id (\<lambda>fn. bnd dec_block_id (\<lambda>b. bnd dec_u32 (\<lambda>i.
     bnd (with_limits (\<lambda>L. dec_list (max_values_per_list L) next_value)) (\<lambda>lives.
     ret \<lparr>frame_function = fn, frame_block = b, frame_instruction_index = i, frame_lives = lives\<rparr>))))"

definition encode_terminator :: "Terminator \<Rightarrow> enc" where
  "encode_terminator t = (case t of
     Return v \<Rightarrow> run [enc_u16 0, optional_value_id v]
   | Jump target \<Rightarrow> run [enc_u16 1, enc_u32 (bid target)]
   | Branch c tb fb \<Rightarrow> run [enc_u16 2, value_id c, enc_u32 (bid tb), enc_u32 (bid fb)]
   | Switch v cases d e \<Rightarrow>
       run [enc_u16 3, value_id v, enc_list encode_switch_case cases, enc_u32 (bid d), enc_u32 (bid e)]
   | Throw v \<Rightarrow> run [enc_u16 4, value_id v]
   | Unreachable \<Rightarrow> enc_u16 5
   | Deopt frames \<Rightarrow> run [enc_u16 6, enc_list encode_frame frames])"

definition decode_terminator :: "Terminator dec" where
  "decode_terminator = bnd dec_u16 (\<lambda>tag.
     if tag = 0 then bnd decode_optional_value (\<lambda>v. ret (Return v))
     else if tag = 1 then bnd dec_block_id (\<lambda>t. ret (Jump t))
     else if tag = 2 then
       bnd next_value (\<lambda>c. bnd dec_block_id (\<lambda>tb. bnd dec_block_id (\<lambda>fb. ret (Branch c tb fb))))
     else if tag = 3 then
       bnd next_value (\<lambda>v.
       bnd (with_limits (\<lambda>L. dec_list (max_switch_cases L) decode_switch_case)) (\<lambda>cases.
       bnd dec_block_id (\<lambda>d. bnd dec_block_id (\<lambda>e. ret (Switch v cases d e)))))
     else if tag = 4 then bnd next_value (\<lambda>v. ret (Throw v))
     else if tag = 5 then ret Unreachable
     else if tag = 6 then
       bnd (with_limits (\<lambda>L. dec_list (max_blocks_per_function L) decode_frame)) (\<lambda>frames.
       ret (Deopt frames))
     else fail (UnknownTag ''terminator'' (ucast tag)))"

definition terminator_ok :: "ArtifactLimits \<Rightarrow> Terminator \<Rightarrow> bool" where
  "terminator_ok L t = (case t of
     Switch _ cases _ _ \<Rightarrow> length cases \<le> unat (max_switch_cases L)
   | Deopt frames \<Rightarrow> length frames \<le> unat (max_blocks_per_function L) \<and>
       (\<forall>f\<in>set frames. length (frame_lives f) \<le> unat (max_values_per_list L))
   | _ \<Rightarrow> True)"

lemma codes_switch_case: "codes L (encode_switch_case c) decode_switch_case c"
  unfolding encode_switch_case_def decode_switch_case_def
  by (intro codes_step [OF codes_id(2)] codes_step [OF codes_id(4)] codes_done) (cases c, simp)

lemma codes_switch_cases [codec_intros]:
  "length cases \<le> unat (max_switch_cases L) \<Longrightarrow>
    codes L (enc_list encode_switch_case cases)
      (with_limits (\<lambda>L. dec_list (max_switch_cases L) decode_switch_case)) cases"
  by (intro codes_with_limits codes_list) (auto intro: codes_switch_case)

lemma codes_lives [codec_intros]:
  "length vs \<le> unat (max_values_per_list L) \<Longrightarrow>
    codes L (enc_list value_id vs) (with_limits (\<lambda>L. dec_list (max_values_per_list L) next_value)) vs"
  by (intro codes_with_limits codes_list) (auto intro: codes_value)

lemma codes_frame:
  assumes "length (frame_lives f) \<le> unat (max_values_per_list L)"
  shows "codes L (encode_frame f) decode_frame f"
  unfolding encode_frame_def decode_frame_def
  by (intro codes_step [OF codes_id(3)] codes_step [OF codes_id(4)] codes_step [OF codes_u32]
      codes_step [OF codes_lives [OF assms]] codes_done) (cases f, simp)

lemma codes_frames [codec_intros]:
  "length frames \<le> unat (max_blocks_per_function L) \<Longrightarrow>
    \<forall>f\<in>set frames. length (frame_lives f) \<le> unat (max_values_per_list L) \<Longrightarrow>
    codes L (enc_list encode_frame frames)
      (with_limits (\<lambda>L. dec_list (max_blocks_per_function L) decode_frame)) frames"
  by (intro codes_with_limits codes_list) (auto intro: codes_frame)

lemma codes_unreachable: "codes L (enc_u16 5) decode_terminator Unreachable"
  unfolding decode_terminator_def by (rule codes_end [OF codes_u16]) simp

lemma codes_terminator_read:
  "terminator_ok L t \<Longrightarrow> t \<noteq> Unreachable \<Longrightarrow> codes L (encode_terminator t) decode_terminator t"
  by (cases t; simp only: encode_terminator_def decode_terminator_def terminator_ok_def
        Terminator.case simp_thms; rule codes_step [OF codes_u16]; simp del: run_single)
     (((rule codes_step, rule codec_intros, (simp; fail)?, (simp; fail)?)+, rule codes_done,
       simp; fail)+)

lemma codes_terminator [codec_intros]:
  "terminator_ok L t \<Longrightarrow> codes L (encode_terminator t) decode_terminator t"
  by (cases "t = Unreachable")
     (simp add: encode_terminator_def codes_unreachable, rule codes_terminator_read)

interpretation terminator_codec: wire_codec encode_terminator decode_terminator "\<lambda>t. t" terminator_ok
  by unfold_locales (simp_all add: codes_terminator)

definition encode_block :: "BasicBlock \<Rightarrow> enc" where
  "encode_block b =
     run [enc_u32 (bid (blk_id b)), enc_list encode_instruction (blk_instructions b),
          encode_terminator (blk_terminator b)]"

definition decode_block :: "BasicBlock dec" where
  "decode_block = bnd dec_block_id (\<lambda>b.
     bnd (with_limits (\<lambda>L. dec_list (max_instructions_per_block L) decode_instruction)) (\<lambda>is.
     bnd decode_terminator (\<lambda>t.
     ret \<lparr>blk_id = b, blk_instructions = is, blk_terminator = t\<rparr>)))"

definition block_ok :: "ArtifactLimits \<Rightarrow> BasicBlock \<Rightarrow> bool" where
  "block_ok L b \<longleftrightarrow> length (blk_instructions b) \<le> unat (max_instructions_per_block L) \<and>
     list_all (instruction_ok L) (blk_instructions b) \<and> terminator_ok L (blk_terminator b)"

lemma codes_instructions [codec_intros]:
  "length is \<le> unat (max_instructions_per_block L) \<Longrightarrow> list_all (instruction_ok L) is \<Longrightarrow>
    codes L (enc_list encode_instruction is)
      (with_limits (\<lambda>L. dec_list (max_instructions_per_block L) decode_instruction)) is"
  by (intro codes_with_limits codes_list) (auto simp: list_all_iff intro: codes_instruction)

lemma codes_block:
  assumes "block_ok L b"
  shows "codes L (encode_block b) decode_block b"
  using assms unfolding encode_block_def decode_block_def block_ok_def
  by (intro codes_step [OF codes_id(4)] codes_step [OF codes_instructions]
      codes_step [OF codes_terminator] codes_done) (auto intro: BasicBlock.equality)

interpretation block_codec: wire_codec encode_block decode_block "\<lambda>b. b" block_ok
  by unfold_locales (simp_all add: codes_block)

end
