(* ===== verification/Wire_Module.thy ===== *)
theory Wire_Module
  imports Wire_Program "HOL-Library.Multiset"
begin

text \<open>
  Encoding and decoding of functions, constants and whole programs
  (\<open>encode_function\<close> .. \<open>decode_program\<close> in \<open>wjsm-artifact-format/src/wire_v1.rs\<close>). The hash
  map of known callees is written in the byte order of its keys, so that the bytes do not
  depend on the map's iteration order: a function is read back in its canonical form.
\<close>

section \<open>Functions\<close>

definition sort_callees :: "(rstr \<times> FunctionId) list \<Rightarrow> (rstr \<times> FunctionId) list" where
  "sort_callees kcs = sort_key (\<lambda>kc. as_bytes (fst kc)) kcs"

definition encode_callee :: "rstr \<times> FunctionId \<Rightarrow> enc" where
  "encode_callee kc = run [enc_string (fst kc), enc_u32 (fid (snd kc))]"

fun encode_home_object :: "HomeObject option \<Rightarrow> enc" where
  "encode_home_object None = enc_u16 0"
| "encode_home_object (Some (Prototype f)) = run [enc_u16 1, enc_u32 (fid f)]"
| "encode_home_object (Some (Constructor f)) = run [enc_u16 2, enc_u32 (fid f)]"

definition encode_span :: "SourceSpan \<Rightarrow> enc" where
  "encode_span s = run [enc_u32 (span_line s), enc_u32 (span_col s)]"

definition encode_function :: "Function \<Rightarrow> enc" where
  "encode_function fn =
     run [enc_string (fn_name fn), enc_strings (fn_params fn), enc_u32 (bid (fn_entry fn)),
          enc_bool (fn_has_eval fn), enc_strings (fn_captured_names fn),
          enc_strings (fn_env_layout_keys fn),
          enc_list encode_callee (sort_callees (fn_known_callee_vars fn)),
          encode_home_object (fn_home_object fn), enc_bool (fn_needs_prototype fn),
          enc_opt encode_span (fn_source_span fn), enc_bool (fn_direct_callable fn),
          enc_opt enc_string (fn_class_ctor_name fn), enc_opt enc_string (fn_js_name fn),
          enc_opt enc_u32 (fn_js_length fn), enc_opt enc_string (fn_source_text fn),
          enc_list encode_block (fn_blocks fn)]"

definition decode_home_object :: "HomeObject option dec" where
  "decode_home_object = bnd dec_u16 (\<lambda>tag.
     if tag = 0 then ret None
     else if tag = 1 then bnd dec_function_id (\<lambda>f. ret (Some (Prototype f)))
     else if tag = 2 then bnd dec_function_id (\<lambda>f. ret (Some (Constructor f)))
     else fail (UnknownTag ''home object'' (ucast tag)))"

definition decode_span :: "SourceSpan dec" where
  "decode_span = bnd dec_u32 (\<lambda>l. bnd dec_u32 (\<lambda>c. ret \<lparr>span_line = l, span_col = c\<rparr>))"

definition decode_callee :: "(rstr \<times> FunctionId) list \<Rightarrow> (rstr \<times> FunctionId) list dec" where
  \<comment> \<open>one \<open>record_known_callee\<close> of the loop, on the map it inserts into\<close>
  "decode_callee known = bnd dec_string (\<lambda>n. bnd dec_function_id (\<lambda>f. ret (AList.update n f known)))"

definition decode_function :: "Function dec" where
  "decode_function = with_limits (\<lambda>L.
     bnd dec_string (\<lambda>name. bnd (dec_strings (max_strings L)) (\<lambda>params.
     bnd dec_block_id (\<lambda>entry. bnd dec_bool (\<lambda>has_eval.
     bnd (dec_strings (max_strings L)) (\<lambda>captured. bnd (dec_strings (max_strings L)) (\<lambda>keys.
     bnd (bnd (dec_count (max_strings L)) (\<lambda>n. dec_fold n decode_callee [])) (\<lambda>known.
     bnd decode_home_object (\<lambda>home. bnd dec_bool (\<lambda>needs_prototype.
     bnd (dec_opt decode_span) (\<lambda>span. bnd dec_bool (\<lambda>direct_callable.
     bnd (dec_opt dec_string) (\<lambda>class_ctor. bnd (dec_opt dec_string) (\<lambda>js_name.
     bnd (dec_opt dec_u32) (\<lambda>js_length. bnd (dec_opt dec_string) (\<lambda>text.
     bnd (dec_list (max_blocks_per_function L) decode_block) (\<lambda>blocks.
     ret \<lparr>fn_name = name, fn_params = params, fn_entry = entry, fn_blocks = blocks,
          fn_has_eval = has_eval, fn_captured_names = captured, fn_env_layout_keys = keys,
          fn_known_callee_vars = known, fn_home_object = home,
          fn_needs_prototype = needs_prototype, fn_source_span = span,
          fn_direct_callable = direct_callable, fn_class_ctor_name = class_ctor,
          fn_js_name = js_name, fn_js_length = js_length, fn_source_text = text\<rparr>)))))))))))))))))"

definition strings_ok :: "ArtifactLimits \<Rightarrow> rstr list \<Rightarrow> bool" where
  "strings_ok L ss \<longleftrightarrow> list_all (str_ok L) ss \<and> length ss \<le> unat (max_strings L)"

definition function_ok :: "ArtifactLimits \<Rightarrow> Function \<Rightarrow> bool" where
  "function_ok L fn \<longleftrightarrow>
     str_ok L (fn_name fn) \<and> strings_ok L (fn_params fn) \<and> strings_ok L (fn_captured_names fn) \<and>
     strings_ok L (fn_env_layout_keys fn) \<and>
     distinct (map fst (fn_known_callee_vars fn)) \<and> strings_ok L (map fst (fn_known_callee_vars fn)) \<and>
     pred_option (str_ok L) (fn_class_ctor_name fn) \<and> pred_option (str_ok L) (fn_js_name fn) \<and>
     pred_option (str_ok L) (fn_source_text fn) \<and>
     length (fn_blocks fn) \<le> unat (max_blocks_per_function L) \<and> list_all (block_ok L) (fn_blocks fn)"

definition canon_function :: "Function \<Rightarrow> Function" where
  "canon_function fn = fn\<lparr>fn_known_callee_vars := sort_callees (fn_known_callee_vars fn)\<rparr>"

lemma codes_home_object [codec_intros]: "codes L (encode_home_object h) decode_home_object h"
proof (cases h)
  case None
  show ?thesis unfolding None encode_home_object.simps decode_home_object_def
    by (rule codes_end [OF codes_u16]) simp
next
  case (Some ho)
  show ?thesis unfolding Some decode_home_object_def
    by (cases ho; simp only: encode_home_object.simps; rule codes_step [OF codes_u16];
        simp; rule codes_end [OF codes_id(3)]; simp)
qed

lemma codes_span: "codes L (encode_span s) decode_span s"
  unfolding encode_span_def decode_span_def
  by (intro codes_step [OF codes_u32] codes_done) (cases s, simp)

text \<open>Inserting distinct keys one after the other appends them.\<close>

lemma foldl_update_append:
  "distinct (map fst (known @ kcs)) \<Longrightarrow>
    foldl (\<lambda>m kc. AList.update (fst kc) (snd kc) m) known kcs = known @ kcs"
proof (induction kcs arbitrary: known)
  case (Cons kc kcs)
  then have "fst kc \<notin> set (map fst known)" by auto
  then have "AList.update (fst kc) (snd kc) known = known @ [kc]"
    by (induction known) auto
  with Cons show ?case by simp
qed simp

lemma codes_callee: "str_ok L (fst kc) \<Longrightarrow>
    codes L (encode_callee kc) (decode_callee known) (AList.update (fst kc) (snd kc) known)"
  unfolding encode_callee_def decode_callee_def
  by (intro codes_step [OF codes_string] codes_step [OF codes_id(3)] codes_done) simp_all

lemma codes_callees:
  assumes "distinct (map fst kcs)" "\<forall>k\<in>set (map fst kcs). str_ok L k" "length kcs \<le> unat maximum"
  shows "codes L (enc_list encode_callee kcs)
    (bnd (dec_count maximum) (\<lambda>n. dec_fold n decode_callee [])) kcs"
proof -
  have "codes L (run (map encode_callee kcs)) (dec_fold (length kcs) decode_callee [])
      (foldl (\<lambda>m kc. AList.update (fst kc) (snd kc) m) [] kcs)"
    using assms(2) by (intro codes_fold codes_callee) simp
  then show ?thesis unfolding enc_list_def
    using assms by (intro codes_step [OF codes_count]) (simp_all add: foldl_update_append)
qed

lemma set_sort_callees [simp]: "set (sort_callees kcs) = set kcs"
  by (simp add: sort_callees_def)

lemma length_sort_callees [simp]: "length (sort_callees kcs) = length kcs"
  by (simp add: sort_callees_def)

lemma distinct_sort_callees: "distinct (map fst (sort_callees kcs)) \<longleftrightarrow> distinct (map fst kcs)"
  by (rule mset_eq_imp_distinct_iff) (simp add: sort_callees_def)

lemma sort_callees_idem: "sort_callees (sort_callees kcs) = sort_callees kcs"
  by (simp add: sort_callees_def sort_key_id_if_sorted)

text \<open>The canonical form is the same map: only the iteration order is fixed.\<close>

lemma map_of_sort_callees:
  "distinct (map fst kcs) \<Longrightarrow> map_of (sort_callees kcs) = map_of kcs"
  by (rule map_of_eqI) (auto simp: distinct_sort_callees map_of_inject_set)

lemma codes_function:
  assumes "function_ok L fn"
  shows "codes L (encode_function fn) decode_function (canon_function fn)"
  unfolding encode_function_def decode_function_def
  using assms
  by (intro codes_with_limits codes_step [OF codes_string] codes_step [OF codes_strings]
      codes_step [OF codes_id(4)] codes_step [OF codes_bool] codes_step [OF codes_callees]
      codes_step [OF codes_home_object] codes_step [OF codes_opt] codes_step [OF codes_list]
      codes_span codes_string codes_u32 codes_block codes_done)
     (auto simp: function_ok_def strings_ok_def list_all_iff distinct_sort_callees
        canon_function_def codes_block)

lemma encode_canon_function: "encode_function (canon_function fn) = encode_function fn"
  by (simp add: encode_function_def canon_function_def sort_callees_idem)

interpretation function_codec: wire_codec encode_function decode_function canon_function function_ok
  by unfold_locales (simp_all add: codes_function encode_canon_function)


section \<open>Constants\<close>

definition saturating_double :: "u32 \<Rightarrow> u32" where
  "saturating_double w = (if 2 * unat w < 2 ^ 32 then of_nat (2 * unat w) else 0xFFFFFFFF)"

definition encode_string_meta :: "StringConstantMeta \<Rightarrow> enc" where
  "encode_string_meta m =
     run [enc_u8 (if meta_latin1 m then 1 else 2), enc_u32 (meta_hash m),
          enc_len (unat (meta_unit_len m)), enc_len (length (meta_payload m)),
          enc_bytes (meta_payload m)]"

definition string_meta_layout :: "u8 \<Rightarrow> nat \<Rightarrow> ArtifactFormatError + bool \<times> nat" where
  \<comment> \<open>the match on the representation byte: Latin-1 flag and expected payload length\<close>
  "string_meta_layout repr unit_len =
     (if repr = 1 then Inr (True, unit_len)
      else if repr = 2 then
        bindr (ok_or (usize_checked_mul unit_len 2) LengthOverflow) (\<lambda>n. Inr (False, n))
      else Inl (InvalidStringPayload ''repr''))"

definition decode_string_meta :: "(u16 list \<times> StringConstantMeta) dec" where
  "decode_string_meta = with_limits (\<lambda>L.
     bnd dec_u8 (\<lambda>repr. bnd dec_u32 (\<lambda>hash. bnd (dec_count (max_string_bytes L)) (\<lambda>unit_len.
     bnd (dec_count (saturating_double (max_string_bytes L))) (\<lambda>payload_len.
     bnd (dec_take payload_len) (\<lambda>payload.
     bnd (lift (string_meta_layout repr unit_len)) (\<lambda>(latin1, expected_len).
     if length payload \<noteq> expected_len then fail (InvalidStringPayload ''length'')
     else
       let m = \<lparr>meta_hash = hash, meta_latin1 = latin1, meta_payload = payload\<rparr>
       in ret (meta_units m, m))))))))"

definition encode_constant :: "Constant \<times> StringConstantMeta option \<Rightarrow> enc" where
  "encode_constant = (\<lambda>(constant, meta). case constant of
     Number v \<Rightarrow> run [enc_u16 0, enc_u64 (f64_bits v)]
   | String v \<Rightarrow> run [enc_u16 1,
       encode_string_meta (case meta of Some m \<Rightarrow> m | None \<Rightarrow> meta_from_text v)]
   | Bool b \<Rightarrow> run [enc_u16 2, enc_bool b]
   | Null \<Rightarrow> enc_u16 3
   | Undefined \<Rightarrow> enc_u16 4
   | FunctionRef f \<Rightarrow> run [enc_u16 5, enc_u32 (fid f)]
   | NativeCallableEval \<Rightarrow> enc_u16 6
   | BigInt v \<Rightarrow> run [enc_u16 7, enc_string v]
   | RegExp pat flags \<Rightarrow> run [enc_u16 8, enc_string pat, enc_string flags]
   | ModuleIdC m \<Rightarrow> run [enc_u16 9, enc_u32 (mid m)]
   | ArrayTemplate elements \<Rightarrow> run [enc_u16 10, enc_list (\<lambda>e. enc_u32 (cid e)) elements]
   | ObjectTemplate keys \<Rightarrow> run [enc_u16 11, enc_list enc_u64 keys]
   | Uninitialized \<Rightarrow> enc_u16 12
   | Utf16String units \<Rightarrow> run [enc_u16 13,
       encode_string_meta (case meta of Some m \<Rightarrow> m | None \<Rightarrow> meta_from_units units)])"

definition decode_constant :: "(Constant \<times> StringConstantMeta option) dec" where
  "decode_constant = bnd dec_u16 (\<lambda>tag.
     if tag = 0 then bnd dec_u64 (\<lambda>w. ret (Number (F64 w), None))
     else if tag = 1 then
       bnd decode_string_meta (\<lambda>(units, meta).
       bnd (lift (ok_or (from_utf16 units) (InvalidStringPayload ''utf16''))) (\<lambda>text.
       ret (String text, Some meta)))
     else if tag = 2 then bnd dec_bool (\<lambda>b. ret (Bool b, None))
     else if tag = 3 then ret (Null, None)
     else if tag = 4 then ret (Undefined, None)
     else if tag = 5 then bnd dec_function_id (\<lambda>f. ret (FunctionRef f, None))
     else if tag = 6 then ret (NativeCallableEval, None)
     else if tag = 7 then bnd dec_string (\<lambda>s. ret (BigInt s, None))
     else if tag = 8 then bnd dec_string (\<lambda>pat. bnd dec_string (\<lambda>flags. ret (RegExp pat flags, None)))
     else if tag = 9 then bnd dec_u32 (\<lambda>w. ret (ModuleIdC (ModuleId w), None))
     else if tag = 10 then
       bnd (with_limits (\<lambda>L. dec_list (max_constants L) dec_constant_id)) (\<lambda>elements.
       ret (ArrayTemplate elements, None))
     else if tag = 11 then
       bnd (with_limits (\<lambda>L. dec_list (max_constants L) dec_u64)) (\<lambda>keys.
       ret (ObjectTemplate keys, None))
     else if tag = 12 then ret (Uninitialized, None)
     else if tag = 13 then
       bnd decode_string_meta (\<lambda>(units, meta). ret (Utf16String units, Some meta))
     else fail (UnknownTag ''constant'' (ucast tag)))"

text \<open>
  A constant carries its metadata exactly when it is a string; missing metadata is recomputed.
\<close>

fun canon_constant :: "Constant \<times> StringConstantMeta option \<Rightarrow> Constant \<times> StringConstantMeta option" where
  "canon_constant (String v, None) = (String v, Some (meta_from_text v))"
| "canon_constant (String v, Some m) = (String v, Some m)"
| "canon_constant (Utf16String us, None) = (Utf16String us, Some (meta_from_units us))"
| "canon_constant (Utf16String us, Some m) = (Utf16String us, Some m)"
| "canon_constant (c, m) = (c, None)"

definition meta_ok :: "ArtifactLimits \<Rightarrow> u16 list \<Rightarrow> StringConstantMeta \<Rightarrow> bool" where
  \<comment> \<open>metadata baked from these units, within the limits\<close>
  "meta_ok L units m \<longleftrightarrow> m = meta_from_units units \<and>
     length units \<le> unat (max_string_bytes L) \<and> 2 * unat (max_string_bytes L) < 2 ^ 32"

fun constant_ok :: "ArtifactLimits \<Rightarrow> Constant \<times> StringConstantMeta option \<Rightarrow> bool" where
  "constant_ok L (String v, m) \<longleftrightarrow> valid_str v \<and>
     meta_ok L (encode_utf16 v) (case m of Some m \<Rightarrow> m | None \<Rightarrow> meta_from_text v)"
| "constant_ok L (Utf16String us, m) \<longleftrightarrow>
     meta_ok L us (case m of Some m \<Rightarrow> m | None \<Rightarrow> meta_from_units us)"
| "constant_ok L (BigInt v, m) \<longleftrightarrow> str_ok L v"
| "constant_ok L (RegExp p f, m) \<longleftrightarrow> str_ok L p \<and> str_ok L f"
| "constant_ok L (ArrayTemplate es, m) \<longleftrightarrow> length es \<le> unat (max_constants L)"
| "constant_ok L (ObjectTemplate ks, m) \<longleftrightarrow> length ks \<le> unat (max_constants L)"
| "constant_ok L (c, m) \<longleftrightarrow> True"

lemma codes_lift: "codes L (run as) (f x) y \<Longrightarrow> codes L (run as) (bnd (lift (Inr x)) f) y"
proof -
  have "bnd (lift (Inr x)) f = f x"
    by (rule ext) (simp add: bnd_def ret_def)
  then show "codes L (run as) (f x) y \<Longrightarrow> codes L (run as) (bnd (lift (Inr x)) f) y" by simp
qed

lemma unat_saturating_double:
  "2 * unat w < 2 ^ 32 \<Longrightarrow> unat (saturating_double w) = 2 * unat w"
  unfolding saturating_double_def using unat_u32_of_nat [of "2 * unat w"] by (simp del: of_nat_mult)

lemma string_meta_layout_from_units:
  assumes "2 * length units < 2 ^ 32"
  shows "string_meta_layout (if meta_latin1 (meta_from_units units) then 1 else 2) (length units) =
    Inr (meta_latin1 (meta_from_units units), length (meta_payload (meta_from_units units)))"
  using assms by (simp add: string_meta_layout_def meta_payload_len mult.commute)

lemma codes_string_meta:
  assumes "meta_ok L units m"
  shows "codes L (encode_string_meta m) decode_string_meta (units, m)"
proof -
  have m: "m = meta_from_units units" and le: "length units \<le> unat (max_string_bytes L)"
    and lim: "2 * unat (max_string_bytes L) < 2 ^ 32"
    using assms by (simp_all add: meta_ok_def)
  from le lim have len: "2 * length units < 2 ^ 32" by linarith
  have ul: "unat (meta_unit_len m) = length units"
    unfolding m by (rule meta_unit_len_from_units [OF len])
  have pl: "length (meta_payload m) \<le> unat (saturating_double (max_string_bytes L))"
    using le by (simp add: m meta_payload_len unat_saturating_double [OF lim])
  have lay: "string_meta_layout (if meta_latin1 m then 1 else 2) (length units) =
      Inr (meta_latin1 m, length (meta_payload m))"
    unfolding m by (rule string_meta_layout_from_units [OF len])
  have mu: "meta_units m = units" unfolding m by (rule meta_units_from_units)
  have rec: "\<lparr>meta_hash = meta_hash m, meta_latin1 = meta_latin1 m, meta_payload = meta_payload m\<rparr> = m"
    by simp
  show ?thesis
    unfolding encode_string_meta_def decode_string_meta_def ul
    by (intro codes_with_limits codes_step [OF codes_u8] codes_step [OF codes_u32]
          codes_step [OF codes_count [OF le]] codes_step [OF codes_count [OF pl]]
          codes_step [OF codes_bytes])
       (simp only: lay, intro codes_lift, simp add: mu rec Let_def codes_ret)
qed

lemma codes_constant:
  assumes "constant_ok L cm"
  shows "codes L (encode_constant cm) decode_constant (canon_constant cm)"
proof -
  obtain c m where cm: "cm = (c, m)" by (cases cm)
  note defs = encode_constant_def decode_constant_def prod.case Constant.case
  show ?thesis
  proof (cases c)
    case (String v)
    let ?m = "case m of Some m \<Rightarrow> m | None \<Rightarrow> meta_from_text v"
    have "codes L (encode_string_meta ?m) (bnd decode_string_meta (\<lambda>(units, meta).
        bnd (lift (ok_or (from_utf16 units) (InvalidStringPayload ''utf16''))) (\<lambda>text.
        ret (String text, Some meta)))) (String v, Some ?m)"
      using assms codes_string_meta [of L "encode_utf16 v" ?m]
      by (intro codes_end [OF codes_string_meta])
         (auto simp: cm String from_utf16_encode_utf16 bnd_def ret_def fun_eq_iff)
    then show ?thesis unfolding cm String defs
      by (intro codes_step [OF codes_u16]) (cases m; simp)
  next
    case (Utf16String us)
    let ?m = "case m of Some m \<Rightarrow> m | None \<Rightarrow> meta_from_units us"
    have "codes L (encode_string_meta ?m)
        (bnd decode_string_meta (\<lambda>(units, meta). ret (Utf16String units, Some meta)))
        (Utf16String us, Some ?m)"
      using assms by (intro codes_end [OF codes_string_meta]) (auto simp: cm Utf16String)
    then show ?thesis unfolding cm Utf16String defs
      by (intro codes_step [OF codes_u16]) (cases m; simp)
  next
    case (ArrayTemplate es)
    then have "codes L (enc_list (\<lambda>e. enc_u32 (cid e)) es)
        (with_limits (\<lambda>L. dec_list (max_constants L) dec_constant_id)) es"
      using assms by (intro codes_with_limits codes_list) (auto simp: cm intro: codes_id)
    then show ?thesis unfolding cm ArrayTemplate defs
      by (intro codes_step [OF codes_u16]) (simp, rule codes_end, assumption, simp)
  next
    case (ObjectTemplate ks)
    then have "codes L (enc_list enc_u64 ks) (with_limits (\<lambda>L. dec_list (max_constants L) dec_u64)) ks"
      using assms by (intro codes_with_limits codes_list) (auto simp: cm intro: codes_u64)
    then show ?thesis unfolding cm ObjectTemplate defs
      by (intro codes_step [OF codes_u16]) (simp, rule codes_end, assumption, simp)
  next
    case (RegExp p f)
    with assms show ?thesis unfolding cm RegExp defs
      by (intro codes_step [OF codes_u16])
         (simp, intro codes_step [OF codes_string] codes_done, simp_all)
  next
    case (BigInt v)
    with assms show ?thesis unfolding cm BigInt defs
      by (intro codes_step [OF codes_u16]) (simp, rule codes_end [OF codes_string], simp_all)
  next
    case (ModuleIdC mi)
    show ?thesis unfolding cm ModuleIdC defs
      by (rule codes_step [OF codes_u16]) (simp, rule codes_end [OF codes_u32], simp)
  next
    case (FunctionRef fr)
    show ?thesis unfolding cm FunctionRef defs
      by (rule codes_step [OF codes_u16]) (simp, rule codes_end [OF codes_id(3)], simp)
  next
    case (Number v)
    show ?thesis unfolding cm Number defs
      by (rule codes_step [OF codes_u16]) (simp, rule codes_end [OF codes_u64], simp)
  next
    case (Bool b)
    show ?thesis unfolding cm Bool defs
      by (rule codes_step [OF codes_u16]) (simp, rule codes_end [OF codes_bool], simp)
  qed (unfold cm, simp_all only: defs, (rule codes_end [OF codes_u16], simp)+)
qed

lemma encode_canon_constant: "encode_constant (canon_constant cm) = encode_constant cm"
  by (cases cm rule: canon_constant.cases) (simp_all add: encode_constant_def)

interpretation constant_codec: wire_codec encode_constant decode_constant canon_constant constant_ok
  by unfold_locales (simp_all add: codes_constant encode_canon_constant)

section \<open>Programs\<close>

definition constants_with_meta :: "Module \<Rightarrow> (Constant \<times> StringConstantMeta option) list" where
  "constants_with_meta p =
     map (\<lambda>i. (mod_constants p ! i, string_constant_meta p (ConstantId (of_nat i))))
       [0..<length (mod_constants p)]"

definition encode_program :: "Module \<Rightarrow> enc" where
  "encode_program p =
     run [enc_bool (mod_script_mode p), enc_optional_string (mod_source_file p),
          enc_list encode_constant (constants_with_meta p),
          enc_list encode_function (mod_functions p)]"

definition decode_program_body :: "Module dec" where
  "decode_program_body = with_limits (\<lambda>L.
     bnd dec_bool (\<lambda>script. bnd dec_optional_string (\<lambda>file.
     bnd (dec_list (max_constants L) decode_constant) (\<lambda>cs.
     bnd (dec_list (max_functions L) decode_function) (\<lambda>fns.
     ret \<lparr>mod_constants = map fst cs, mod_string_constant_metas = map snd cs,
          mod_functions = fns, mod_script_mode = script, mod_source_file = file\<rparr>)))))"

definition decode_program :: "u8 list \<Rightarrow> ArtifactLimits \<Rightarrow> ArtifactFormatError + Module" where
  "decode_program = decode_all decode_program_body"

definition canon_program :: "Module \<Rightarrow> Module" where
  "canon_program p =
     p\<lparr>mod_string_constant_metas := map (snd \<circ> canon_constant) (constants_with_meta p),
       mod_functions := map canon_function (mod_functions p)\<rparr>"

definition program_ok :: "ArtifactLimits \<Rightarrow> Module \<Rightarrow> bool" where
  "program_ok L p \<longleftrightarrow>
     pred_option (str_ok L) (mod_source_file p) \<and>
     length (mod_constants p) \<le> unat (max_constants L) \<and>
     list_all (constant_ok L) (constants_with_meta p) \<and>
     length (mod_functions p) \<le> unat (max_functions L) \<and>
     list_all (function_ok L) (mod_functions p)"

lemma fst_canon_constant [simp]: "fst (canon_constant cm) = fst cm"
  by (cases cm rule: canon_constant.cases) simp_all

lemma length_constants_with_meta [simp]:
  "length (constants_with_meta p) = length (mod_constants p)"
  by (simp add: constants_with_meta_def)

lemma map_fst_constants_with_meta: "map fst (constants_with_meta p) = mod_constants p"
  by (simp add: constants_with_meta_def comp_def map_nth)

lemma codes_program:
  assumes "program_ok L p"
  shows "codes L (encode_program p) decode_program_body (canon_program p)"
  unfolding encode_program_def decode_program_body_def
  using assms
  by (intro codes_with_limits codes_step [OF codes_bool] codes_step [OF codes_optional_string]
        codes_step [OF constant_codec.round_trip_list] codes_step [OF function_codec.round_trip_list]
        codes_done)
     (auto simp: program_ok_def list_all_iff canon_program_def comp_def
        map_fst_constants_with_meta [unfolded comp_def])

lemma constants_with_meta_canon:
  assumes "length (mod_constants p) < 2 ^ 32"
  shows "constants_with_meta (canon_program p) = map canon_constant (constants_with_meta p)"
proof (rule nth_equalityI)
  fix i assume "i < length (constants_with_meta (canon_program p))"
  then have i: "i < length (mod_constants p)" by (simp add: canon_program_def)
  then have "unat (of_nat i :: u32) = i" using assms by (intro unat_u32_of_nat) simp
  with i have "string_constant_meta (canon_program p) (ConstantId (of_nat i)) =
      snd (canon_constant (constants_with_meta p ! i))"
    by (simp add: string_constant_meta_def canon_program_def cix_def get_at_def)
  moreover have "mod_constants p ! i = fst (constants_with_meta p ! i)"
    using i by (simp add: constants_with_meta_def)
  ultimately show "constants_with_meta (canon_program p) ! i = map canon_constant (constants_with_meta p) ! i"
    using i by (simp add: constants_with_meta_def [of "canon_program p"])
      (simp add: canon_program_def prod_eq_iff)
qed (simp add: canon_program_def)

lemma encode_list_map: "enc_list f (map g xs) = enc_list (\<lambda>x. f (g x)) xs"
  by (simp add: enc_list_def comp_def)

lemma encode_canon_program:
  assumes "program_ok L p"
  shows "encode_program (canon_program p) = encode_program p"
proof -
  have "length (mod_constants p) < 2 ^ 32"
    using assms unat_u32_lt [of "max_constants L"] by (simp add: program_ok_def)
  then show ?thesis
    by (simp add: encode_program_def constants_with_meta_canon encode_list_map
        encode_canon_constant)
       (simp add: canon_program_def encode_list_map encode_canon_function)
qed

interpretation program_codec: wire_codec encode_program decode_program_body canon_program program_ok
  by unfold_locales (simp_all add: codes_program encode_canon_program)

end
