(* ===== verification/Wire_Manifest.thy ===== *)
theory Wire_Manifest
  imports Wire_Module "HOL-Library.Product_Lexorder"
begin

text \<open>
  Module manifests (\<open>wjsm-artifact-format/src/manifest.rs\<close>), their wire form
  (\<open>encode_manifest\<close> / \<open>decode_manifest\<close>) and the section of required builtins
  (\<open>encode_required_builtins\<close> / \<open>decode_required_builtins\<close>). The encoder sorts modules and
  dependencies and removes duplicates, so a manifest is read back in canonical form.
\<close>

section \<open>Manifests\<close>

datatype ModuleKind = Script | EsModule | CommonJs | BuiltinKind

fun kind_tag :: "ModuleKind \<Rightarrow> u16" where
  "kind_tag Script = 0" | "kind_tag EsModule = 1" | "kind_tag CommonJs = 2" | "kind_tag BuiltinKind = 3"

definition kind_from_wire :: "u16 \<Rightarrow> ModuleKind option" where
  "kind_from_wire tag =
     (if tag = 0 then Some Script else if tag = 1 then Some EsModule
      else if tag = 2 then Some CommonJs else if tag = 3 then Some BuiltinKind else None)"

record ManifestModule =
  mm_id :: ModuleId
  mm_logical_url :: rstr
  mm_kind :: ModuleKind
  mm_static_dependencies :: "ModuleId list"
  mm_dynamic_dependencies :: "(rstr \<times> ModuleId) list"

record ModuleManifest =
  mf_entry :: ModuleId
  mf_modules :: "ManifestModule list"
  mf_resolution_conditions :: "rstr list"

definition manifest_single :: "rstr \<Rightarrow> bool \<Rightarrow> ModuleManifest" where
  "manifest_single url script =
     \<lparr>mf_entry = ModuleId 0,
      mf_modules = [\<lparr>mm_id = ModuleId 0, mm_logical_url = url,
                     mm_kind = (if script then Script else EsModule),
                     mm_static_dependencies = [], mm_dynamic_dependencies = []\<rparr>],
      mf_resolution_conditions = []\<rparr>"

section \<open>Sorting before writing\<close>

text \<open>\<open>sort_by_key\<close> followed by \<open>dedup\<close>.\<close>

definition sort_dedup :: "('a \<Rightarrow> 'k::linorder) \<Rightarrow> 'a list \<Rightarrow> 'a list" where
  "sort_dedup k xs = remdups_adj (sort_key k xs)"

lemma set_sort_dedup [simp]: "set (sort_dedup k xs) = set xs"
  by (simp add: sort_dedup_def)

lemma sorted_remdups_adj_map: "sorted (map k xs) \<Longrightarrow> sorted (map k (remdups_adj xs))"
  by (induction xs rule: remdups_adj.induct) auto

lemma remdups_adj_idem: "remdups_adj (remdups_adj xs) = remdups_adj xs"
  by (rule distinct_adj_altdef [THEN iffD1]) (rule distinct_adj_remdups_adj)

lemma sort_dedup_idem: "sort_dedup k (sort_dedup k xs) = sort_dedup k xs"
  by (simp add: sort_dedup_def sort_key_id_if_sorted sorted_remdups_adj_map remdups_adj_idem)

lemma length_sort_dedup: "length (sort_dedup k xs) \<le> length xs"
  by (simp add: sort_dedup_def) (metis length_sort remdups_adj_length)

text \<open>With an injective key the result is duplicate free: a set written in order.\<close>

lemma distinct_remdups_adj_sorted:
  "sorted (map k xs) \<Longrightarrow> inj_on k (set xs) \<Longrightarrow> distinct (remdups_adj xs)"
proof (induction xs rule: remdups_adj.induct)
  case (3 x y xs)
  show ?case
  proof (cases "x = y")
    case True
    with 3 show ?thesis by (auto simp: inj_on_def)
  next
    case False
    have "x \<notin> set (y # xs)"
    proof
      assume "x \<in> set (y # xs)"
      with False have x: "x \<in> set xs" by simp
      with "3.prems"(1) have "k x \<le> k y" "k y \<le> k x" by auto
      with "3.prems"(2) False show False by (auto simp: inj_on_def)
    qed
    with False 3 show ?thesis by (auto simp: inj_on_def)
  qed
qed auto

lemma distinct_sort_dedup: "inj_on k (set xs) \<Longrightarrow> distinct (sort_dedup k xs)"
  unfolding sort_dedup_def by (rule distinct_remdups_adj_sorted [where k = k]) simp_all

definition sort_static :: "ModuleId list \<Rightarrow> ModuleId list" where
  "sort_static = sort_dedup mid"

definition sort_dynamic :: "(rstr \<times> ModuleId) list \<Rightarrow> (rstr \<times> ModuleId) list" where
  "sort_dynamic = sort_dedup (\<lambda>(s, m). (as_bytes s, mid m))"

definition sort_conditions :: "rstr list \<Rightarrow> rstr list" where
  "sort_conditions = sort_dedup as_bytes"

definition sort_modules :: "ManifestModule list \<Rightarrow> ManifestModule list" where
  "sort_modules = sort_key (\<lambda>m. mid (mm_id m))"

section \<open>Wire form\<close>

definition encode_dynamic :: "rstr \<times> ModuleId \<Rightarrow> enc" where
  "encode_dynamic sm = run [enc_string (fst sm), enc_u32 (mid (snd sm))]"

definition encode_manifest_module :: "ManifestModule \<Rightarrow> enc" where
  "encode_manifest_module m =
     run [enc_u32 (mid (mm_id m)), enc_string (mm_logical_url m), enc_u16 (kind_tag (mm_kind m)),
          enc_list (\<lambda>d. enc_u32 (mid d)) (sort_static (mm_static_dependencies m)),
          enc_list encode_dynamic (sort_dynamic (mm_dynamic_dependencies m))]"

definition encode_manifest :: "ModuleManifest \<Rightarrow> enc" where
  "encode_manifest mf =
     run [enc_u32 (mid (mf_entry mf)), enc_list encode_manifest_module (sort_modules (mf_modules mf)),
          enc_strings (sort_conditions (mf_resolution_conditions mf))]"

definition dec_module_id :: "ModuleId dec" where
  "dec_module_id = bnd dec_u32 (\<lambda>w. ret (ModuleId w))"

definition decode_dynamic :: "(rstr \<times> ModuleId) dec" where
  "decode_dynamic = bnd dec_string (\<lambda>s. bnd dec_module_id (\<lambda>m. ret (s, m)))"

definition decode_manifest_module :: "ManifestModule dec" where
  "decode_manifest_module = with_limits (\<lambda>L.
     bnd dec_module_id (\<lambda>i. bnd dec_string (\<lambda>url.
     bnd (bnd dec_u16 (\<lambda>t. lift (ok_or (kind_from_wire t) (UnknownTag ''module kind'' (ucast t))))) (\<lambda>kind.
     bnd (dec_list (max_module_edges L) dec_module_id) (\<lambda>statics.
     bnd (dec_list (max_module_edges L) decode_dynamic) (\<lambda>dynamics.
     ret \<lparr>mm_id = i, mm_logical_url = url, mm_kind = kind, mm_static_dependencies = statics,
          mm_dynamic_dependencies = dynamics\<rparr>))))))"

definition decode_manifest_body :: "ModuleManifest dec" where
  "decode_manifest_body = with_limits (\<lambda>L.
     bnd dec_module_id (\<lambda>entry.
     bnd (dec_list (max_modules L) decode_manifest_module) (\<lambda>modules.
     bnd (dec_strings (max_strings L)) (\<lambda>conditions.
     ret \<lparr>mf_entry = entry, mf_modules = modules, mf_resolution_conditions = conditions\<rparr>))))"

definition decode_manifest :: "u8 list \<Rightarrow> ArtifactLimits \<Rightarrow> ArtifactFormatError + ModuleManifest" where
  "decode_manifest = decode_all decode_manifest_body"

definition canon_module :: "ManifestModule \<Rightarrow> ManifestModule" where
  "canon_module m =
     m\<lparr>mm_static_dependencies := sort_static (mm_static_dependencies m),
       mm_dynamic_dependencies := sort_dynamic (mm_dynamic_dependencies m)\<rparr>"

definition canon_manifest :: "ModuleManifest \<Rightarrow> ModuleManifest" where
  "canon_manifest mf =
     mf\<lparr>mf_modules := map canon_module (sort_modules (mf_modules mf)),
        mf_resolution_conditions := sort_conditions (mf_resolution_conditions mf)\<rparr>"

definition manifest_module_ok :: "ArtifactLimits \<Rightarrow> ManifestModule \<Rightarrow> bool" where
  "manifest_module_ok L m \<longleftrightarrow> str_ok L (mm_logical_url m) \<and>
     length (mm_static_dependencies m) \<le> unat (max_module_edges L) \<and>
     length (mm_dynamic_dependencies m) \<le> unat (max_module_edges L) \<and>
     list_all (\<lambda>d. str_ok L (fst d)) (mm_dynamic_dependencies m)"

definition manifest_ok :: "ArtifactLimits \<Rightarrow> ModuleManifest \<Rightarrow> bool" where
  "manifest_ok L mf \<longleftrightarrow> length (mf_modules mf) \<le> unat (max_modules L) \<and>
     list_all (manifest_module_ok L) (mf_modules mf) \<and>
     length (mf_resolution_conditions mf) \<le> unat (max_strings L) \<and>
     list_all (str_ok L) (mf_resolution_conditions mf)"

lemma codes_module_id: "codes L (enc_u32 (mid m)) dec_module_id m"
  unfolding dec_module_id_def by (rule codes_end [OF codes_u32]) simp

lemma codes_dynamic: "str_ok L (fst d) \<Longrightarrow> codes L (encode_dynamic d) decode_dynamic d"
  unfolding encode_dynamic_def decode_dynamic_def
  by (intro codes_step [OF codes_string] codes_step [OF codes_module_id] codes_done) simp_all

lemma codes_kind:
  "codes L (enc_u16 (kind_tag k))
     (bnd dec_u16 (\<lambda>t. lift (ok_or (kind_from_wire t) (UnknownTag ''module kind'' (ucast t))))) k"
  by (rule codes_end [OF codes_u16]) (cases k; simp add: kind_from_wire_def)

lemma length_sorts:
  "length (sort_static ds) \<le> length ds" "length (sort_dynamic dds) \<le> length dds"
  "length (sort_conditions cs) \<le> length cs"
  by (simp_all add: sort_static_def sort_dynamic_def sort_conditions_def length_sort_dedup)

lemma set_sorts [simp]:
  "set (sort_static ds) = set ds" "set (sort_dynamic dds) = set dds"
  "set (sort_conditions cs) = set cs" "set (sort_modules ms) = set ms"
  by (simp_all add: sort_static_def sort_dynamic_def sort_conditions_def sort_modules_def)

lemma sorts_idem:
  "sort_static (sort_static ds) = sort_static ds" "sort_dynamic (sort_dynamic dds) = sort_dynamic dds"
  "sort_conditions (sort_conditions cs) = sort_conditions cs"
  by (simp_all add: sort_static_def sort_dynamic_def sort_conditions_def sort_dedup_idem)

lemma codes_manifest_module:
  assumes "manifest_module_ok L m"
  shows "codes L (encode_manifest_module m) decode_manifest_module (canon_module m)"
proof -
  have le: "length (sort_static (mm_static_dependencies m)) \<le> unat (max_module_edges L)"
    "length (sort_dynamic (mm_dynamic_dependencies m)) \<le> unat (max_module_edges L)"
    using assms length_sorts order_trans unfolding manifest_module_ok_def by blast+
  show ?thesis
    unfolding encode_manifest_module_def decode_manifest_module_def
    using assms
    by (intro codes_with_limits codes_step [OF codes_module_id] codes_step [OF codes_string]
          codes_step [OF codes_kind] codes_step [OF codes_list] codes_done)
       (auto simp: manifest_module_ok_def canon_module_def list_all_iff le
          intro: codes_module_id codes_dynamic)
qed

lemma codes_manifest:
  assumes "manifest_ok L mf"
  shows "codes L (encode_manifest mf) decode_manifest_body (canon_manifest mf)"
proof -
  have "length (sort_conditions (mf_resolution_conditions mf)) \<le> unat (max_strings L)"
    using assms length_sorts order_trans unfolding manifest_ok_def by blast
  then show ?thesis
    unfolding encode_manifest_def decode_manifest_body_def
    using assms
    by (intro codes_with_limits codes_step [OF codes_module_id] codes_step [OF codes_list_map]
          codes_step [OF codes_strings] codes_done)
       (auto simp: manifest_ok_def canon_manifest_def list_all_iff sort_modules_def
          intro: codes_manifest_module)
qed

lemma encode_canon_module: "encode_manifest_module (canon_module m) = encode_manifest_module m"
  by (simp add: encode_manifest_module_def canon_module_def sorts_idem)

lemma mm_id_canon_module [simp]: "mm_id (canon_module m) = mm_id m"
  by (simp add: canon_module_def)

lemma sort_modules_canon:
  "sort_modules (map canon_module (sort_modules ms)) = map canon_module (sort_modules ms)"
  by (simp add: sort_modules_def sort_key_id_if_sorted comp_def)

lemma encode_canon_manifest: "encode_manifest (canon_manifest mf) = encode_manifest mf"
  by (simp add: encode_manifest_def canon_manifest_def sort_modules_canon sorts_idem
      encode_list_map encode_canon_module)

interpretation manifest_codec:
  wire_codec encode_manifest decode_manifest_body canon_manifest manifest_ok
  by unfold_locales (simp_all add: codes_manifest encode_canon_manifest)

section \<open>Required builtins\<close>

definition called_builtins :: "Module \<Rightarrow> u16 list" where
  \<comment> \<open>the wire ids the triple loop inserts, in visiting order\<close>
  "called_builtins p =
     concat (map (\<lambda>fn. concat (map (\<lambda>i. case i of CallBuiltin _ b _ \<Rightarrow> [wire_id b] | _ \<Rightarrow> [])
       (fn_instructions fn))) (mod_functions p))"

definition required_builtin_ids :: "Module \<Rightarrow> u16 list" where
  \<comment> \<open>the \<open>BTreeSet\<close>, in its iteration order\<close>
  "required_builtin_ids p = sort (remdups (called_builtins p))"

definition encode_required_builtins :: "Module \<Rightarrow> u8 list" where
  "encode_required_builtins p =
     u32_le (of_nat (length (required_builtin_ids p))) @ concat (map u16_le (required_builtin_ids p))"

definition decode_required_id :: "u16 option \<times> u16 list \<Rightarrow> (u16 option \<times> u16 list) dec" where
  "decode_required_id = (\<lambda>(previous, ids).
     bnd dec_u16 (\<lambda>w.
     if builtin_from_wire_id w = None then fail (UnknownTag ''builtin'' (ucast w))
     else if (case previous of None \<Rightarrow> False | Some q \<Rightarrow> q \<ge> w)
     then fail (NonCanonical ''required builtin IDs are not strictly increasing'')
     else ret (Some w, ids @ [w])))"

definition decode_required_body :: "u16 list dec" where
  "decode_required_body = with_limits (\<lambda>L.
     bnd (bnd (dec_count (max_required_builtins L)) (\<lambda>n. dec_fold n decode_required_id (None, [])))
       (\<lambda>(previous, ids). ret ids))"

definition decode_required_builtins ::
  "u8 list \<Rightarrow> ArtifactLimits \<Rightarrow> ArtifactFormatError + u16 list" where
  "decode_required_builtins = decode_all decode_required_body"

definition builtins_ok :: "Module \<Rightarrow> bool" where
  "builtins_ok p \<longleftrightarrow> (\<forall>w\<in>set (called_builtins p). w \<le> last_wire_id)"

lemma required_builtin_ids_sorted: "sorted_wrt (<) (required_builtin_ids p)"
  by (simp add: required_builtin_ids_def strict_sorted_iff)

lemma set_required_builtin_ids [simp]: "set (required_builtin_ids p) = set (called_builtins p)"
  by (simp add: required_builtin_ids_def)

definition prev_of :: "u16 list \<Rightarrow> u16 option" where
  "prev_of ids = (if ids = [] then None else Some (last ids))"

lemma prev_of_simps [simp]: "prev_of [] = None" "prev_of (ids @ [w]) = Some w"
  by (simp_all add: prev_of_def)

lemma prev_of_less: "sorted_wrt (<) (ids @ w # ws) \<Longrightarrow> prev_of ids = Some q \<Longrightarrow> q < w"
  by (auto simp: prev_of_def sorted_wrt_append split: if_splits)

lemma codes_required_ids:
  assumes "sorted_wrt (<) (ids @ ws)" "\<forall>w\<in>set ws. w \<le> last_wire_id"
  shows "codes L (run (map enc_u16 ws)) (dec_fold (length ws) decode_required_id (prev_of ids, ids))
    (prev_of (ids @ ws), ids @ ws)"
  using assms
proof (induction ws arbitrary: ids)
  case Nil
  show ?case by (simp only: list.map list.size dec_fold.simps append_Nil2 codes_ret)
next
  case (Cons w ws)
  have lt: "\<not> (case prev_of ids of None \<Rightarrow> False | Some q \<Rightarrow> q \<ge> w)"
    using prev_of_less [OF Cons.prems(1)] by (auto split: option.split simp: linorder_not_le)
  have "codes L (enc_u16 w) (decode_required_id (prev_of ids, ids)) (Some w, ids @ [w])"
    unfolding decode_required_id_def prod.case
    by (rule codes_end [OF codes_u16])
       (use lt Cons.prems(2) in \<open>simp add: builtin_from_wire_id_def linorder_not_less [symmetric]\<close>)
  moreover have "codes L (run (map enc_u16 ws))
      (dec_fold (length ws) decode_required_id (Some w, ids @ [w])) (prev_of (ids @ w # ws), ids @ w # ws)"
    using Cons.IH [of "ids @ [w]"] Cons.prems by simp
  ultimately show ?case by (simp add: codes_step [where as = "map enc_u16 ws"])
qed

lemma run_enc_u16: "run (map enc_u16 ws) e = Inr (e @ concat (map u16_le ws))"
  by (induction ws arbitrary: e) (simp_all add: run.simps enc_u16_def)

lemma length_required_builtin_ids:
  assumes "builtins_ok p"
  shows "length (required_builtin_ids p) \<le> 508"
proof -
  have "set (required_builtin_ids p) \<subseteq> word_of_nat ` {..507}"
  proof
    fix w assume "w \<in> set (required_builtin_ids p)"
    with assms have "unat w \<le> 507"
      by (simp add: builtins_ok_def last_wire_id_def word_le_nat_alt)
    then show "w \<in> word_of_nat ` {..507}" by (intro image_eqI [of _ _ "unat w"]) simp_all
  qed
  then have "card (set (required_builtin_ids p)) \<le> 508"
    by (rule order_trans [OF card_mono [rotated]]) (auto intro: order_trans [OF card_image_le])
  then show ?thesis
    by (simp add: required_builtin_ids_def distinct_card [symmetric])
qed

lemma decode_required_encode:
  assumes "builtins_ok p" and "508 \<le> unat (max_required_builtins L)"
  shows "decode_required_builtins (encode_required_builtins p) L = Inr (required_builtin_ids p)"
proof -
  let ?ids = "required_builtin_ids p"
  have le: "length ?ids \<le> unat (max_required_builtins L)"
    using length_required_builtin_ids [OF assms(1)] assms(2) by simp
  have "codes L (run (map enc_u16 ?ids)) (dec_fold (length ?ids) decode_required_id (None, []))
      (prev_of ?ids, ?ids)"
    using codes_required_ids [of "[]" ?ids L] assms(1) required_builtin_ids_sorted [of p]
    by (simp add: builtins_ok_def)
  then have "codes L (run (enc_len (length ?ids) # map enc_u16 ?ids)) decode_required_body ?ids"
    unfolding decode_required_body_def
    by (intro codes_with_limits codes_end [where x = "(prev_of ?ids, ?ids)"]
        codes_step [OF codes_count [OF le]]) simp_all
  moreover have "run (enc_len (length ?ids) # map enc_u16 ?ids) [] = Inr (encode_required_builtins p)"
    using length_required_builtin_ids [OF assms(1)]
    by (simp add: run.simps run_enc_u16 enc_len_def enc_u32_def encode_required_builtins_def)
  moreover have "length (encode_required_builtins p) < 2 ^ 64"
    using length_required_builtin_ids [OF assms(1)]
    by (simp add: encode_required_builtins_def length_concat_u16_le)
  ultimately show ?thesis
    unfolding decode_required_builtins_def by (rule codes_decode_all)
qed

end
