(* ===== verification/Container.thy ===== *)
theory Container
  imports Wire_Manifest
begin

text \<open>
  The artifact container (\<open>encode_container\<close>, \<open>decode_container\<close> and their helpers in
  \<open>wjsm-artifact-format/src/lib.rs\<close>): a fixed header, a section directory and the payloads.
  SHA-256 comes from the \<open>sha2\<close> crate and is the parameter \<open>sha\<close>; the semantic ABI hash is a
  digest over included source files and is the parameter \<open>abi\<close>. The only law relied on is that
  a digest has 32 bytes.
\<close>

section \<open>Layout\<close>

definition MAGIC :: "u8 list" where "MAGIC = as_bytes (lit ''WJSMART'') @ [0]"
definition FORMAT_VERSION :: u16 where "FORMAT_VERSION = 17"
definition HEADER_LEN :: nat where "HEADER_LEN = 92"
definition DIRECTORY_ENTRY_LEN :: nat where "DIRECTORY_ENTRY_LEN = 52"
definition CONTENT_HASH_OFFSET :: nat where "CONTENT_HASH_OFFSET = 60"
definition CONTENT_HASH_END :: nat where "CONTENT_HASH_END = CONTENT_HASH_OFFSET + 32"
definition SECTION_MANIFEST :: u16 where "SECTION_MANIFEST = 1"
definition SECTION_PROGRAM :: u16 where "SECTION_PROGRAM = 2"
definition SECTION_SOURCE_MAP :: u16 where "SECTION_SOURCE_MAP = 3"
definition SECTION_SOURCE_TEXT :: u16 where "SECTION_SOURCE_TEXT = 4"
definition SECTION_REQUIRED_BUILTINS :: u16 where "SECTION_REQUIRED_BUILTINS = 5"
definition SECTION_REQUIRED :: u16 where "SECTION_REQUIRED = 1"

lemmas layout_defs = HEADER_LEN_def DIRECTORY_ENTRY_LEN_def CONTENT_HASH_OFFSET_def
  CONTENT_HASH_END_def
lemmas section_defs = SECTION_MANIFEST_def SECTION_PROGRAM_def SECTION_SOURCE_MAP_def
  SECTION_SOURCE_TEXT_def SECTION_REQUIRED_BUILTINS_def SECTION_REQUIRED_def

record EncodedSection =
  sec_id :: u16
  sec_flags :: u16
  sec_bytes :: "u8 list"

definition section_required :: "u16 \<Rightarrow> u8 list \<Rightarrow> EncodedSection" where
  "section_required i bs = \<lparr>sec_id = i, sec_flags = SECTION_REQUIRED, sec_bytes = bs\<rparr>"

definition section_optional :: "u16 \<Rightarrow> u8 list \<Rightarrow> EncodedSection" where
  "section_optional i bs = \<lparr>sec_id = i, sec_flags = 0, sec_bytes = bs\<rparr>"

record SectionMetadata =
  sm_id :: u16
  sm_offset :: u64
  sm_len :: u64
  sm_sha256 :: "u8 list"

section \<open>Encoding\<close>

definition write_digest :: "u8 list \<Rightarrow> u8 list \<Rightarrow> u8 list" where
  \<comment> \<open>\<open>bytes[CONTENT_HASH_OFFSET..CONTENT_HASH_END].copy_from_slice(digest)\<close>\<close>
  "write_digest bytes digest =
     take CONTENT_HASH_OFFSET bytes @ digest @ drop CONTENT_HASH_END bytes"

definition container_header :: "u8 list \<Rightarrow> u32 \<Rightarrow> nat \<Rightarrow> u8 list" where
  "container_header abi section_count total_len =
     MAGIC @ u16_le FORMAT_VERSION @ u16_le (of_nat HEADER_LEN) @ abi @ u32_le 0 @
     u32_le section_count @ u64_le (of_nat total_len) @ replicate 32 0"

definition directory_entry :: "(u8 list \<Rightarrow> u8 list) \<Rightarrow> nat \<Rightarrow> EncodedSection \<Rightarrow> u8 list" where
  "directory_entry sha offset s =
     u16_le (sec_id s) @ u16_le (sec_flags s) @ u64_le (of_nat offset) @
     u64_le (of_nat (length (sec_bytes s))) @ sha (sec_bytes s)"

fun encode_directory ::
  "(u8 list \<Rightarrow> u8 list) \<Rightarrow> nat \<Rightarrow> EncodedSection list \<Rightarrow> ArtifactFormatError + u8 list" where
  "encode_directory sha offset [] = Inr []"
| "encode_directory sha offset (s # ss) =
     bindr (ok_or (usize_checked_add offset (length (sec_bytes s))) LengthOverflow) (\<lambda>offset'.
     bindr (encode_directory sha offset' ss) (\<lambda>rest. Inr (directory_entry sha offset s @ rest)))"

definition sum_lengths :: "EncodedSection list \<Rightarrow> ArtifactFormatError + nat" where
  "sum_lengths = fold_res (\<lambda>total s.
     ok_or (usize_checked_add total (length (sec_bytes s))) LengthOverflow) 0"

definition encode_container ::
  "(u8 list \<Rightarrow> u8 list) \<Rightarrow> u8 list \<Rightarrow> EncodedSection list \<Rightarrow> ArtifactFormatError + u8 list" where
  "encode_container sha abi sections =
     bindr (ensure (length sections < 2 ^ 32) LengthOverflow) (\<lambda>_.
     bindr (ok_or (usize_checked_mul DIRECTORY_ENTRY_LEN (length sections)) LengthOverflow) (\<lambda>directory_len.
     bindr (ok_or (usize_checked_add HEADER_LEN directory_len) LengthOverflow) (\<lambda>payload_start.
     bindr (sum_lengths sections) (\<lambda>payload_len.
     bindr (ok_or (usize_checked_add payload_start payload_len) LengthOverflow) (\<lambda>total_len.
     bindr (encode_directory sha payload_start sections) (\<lambda>directory.
     let bytes = container_header abi (of_nat (length sections)) total_len @ directory @
                 concat (map sec_bytes sections)
     in Inr (write_digest bytes (sha bytes))))))))"

section \<open>Decoding\<close>

definition read_u16 :: "u8 list \<Rightarrow> nat \<Rightarrow> ArtifactFormatError + u16" where
  "read_u16 bytes offset =
     bindr (ok_or (usize_checked_add offset 2) LengthOverflow) (\<lambda>e.
     bindr (ok_or (get_range bytes offset e) Truncated) (\<lambda>v. Inr (u16_of_le v)))"

definition read_u32 :: "u8 list \<Rightarrow> nat \<Rightarrow> ArtifactFormatError + u32" where
  "read_u32 bytes offset =
     bindr (ok_or (usize_checked_add offset 4) LengthOverflow) (\<lambda>e.
     bindr (ok_or (get_range bytes offset e) Truncated) (\<lambda>v. Inr (u32_of_le v)))"

definition read_u64 :: "u8 list \<Rightarrow> nat \<Rightarrow> ArtifactFormatError + u64" where
  "read_u64 bytes offset =
     bindr (ok_or (usize_checked_add offset 8) LengthOverflow) (\<lambda>e.
     bindr (ok_or (get_range bytes offset e) Truncated) (\<lambda>v. Inr (u64_of_le v)))"

definition u64_checked_add :: "u64 \<Rightarrow> u64 \<Rightarrow> u64 option" where
  "u64_checked_add a b = (if unat a + unat b < 2 ^ 64 then Some (a + b) else None)"

record DirectoryState =
  ds_sections :: "u16 \<rightharpoonup> SectionMetadata"
  ds_metadata :: "SectionMetadata list"
  ds_expected_id :: "u16 option"
  ds_expected_offset :: u64

definition known_section :: "u16 \<Rightarrow> bool" where
  "known_section i \<longleftrightarrow>
     i \<in> {SECTION_MANIFEST, SECTION_PROGRAM, SECTION_SOURCE_MAP, SECTION_SOURCE_TEXT,
          SECTION_REQUIRED_BUILTINS}"

definition decode_entry ::
  "(u8 list \<Rightarrow> u8 list) \<Rightarrow> u8 list \<Rightarrow> ArtifactLimits \<Rightarrow> u64 \<Rightarrow> DirectoryState \<Rightarrow> u8 list \<Rightarrow>
   ArtifactFormatError + DirectoryState" where
  "decode_entry sha bytes L total_len st entry =
     bindr (read_u16 entry 0) (\<lambda>i.
     bindr (read_u16 entry 2) (\<lambda>flags.
     bindr (ensure (case ds_expected_id st of None \<Rightarrow> True | Some previous \<Rightarrow> previous < i)
              (NonCanonical ''section IDs are not strictly increasing'')) (\<lambda>_.
     bindr (ensure (known_section i \<or> flags AND SECTION_REQUIRED = 0) (UnknownRequiredSection i)) (\<lambda>_.
     bindr (read_u64 entry 4) (\<lambda>offset.
     bindr (read_u64 entry 12) (\<lambda>len.
     bindr (ensure (len \<le> max_section_bytes L)
              (LimitExceeded ''section bytes'' len (max_section_bytes L))) (\<lambda>_.
     bindr (ensure (offset = ds_expected_offset st)
              (NonCanonical ''section payloads contain a gap or overlap'')) (\<lambda>_.
     bindr (ok_or (u64_checked_add offset len) LengthOverflow) (\<lambda>e.
     bindr (ensure (e \<le> total_len) Truncated) (\<lambda>_.
     bindr (ok_or (get_range bytes (unat offset) (unat e)) Truncated) (\<lambda>payload.
     let section_hash = take 32 (drop 20 entry)
     in bindr (ensure (sha payload = section_hash) (SectionHashMismatch i)) (\<lambda>_.
        let m = \<lparr>sm_id = i, sm_offset = offset, sm_len = len, sm_sha256 = section_hash\<rparr>
        in bindr (ensure (ds_sections st i = None) (DuplicateSection i)) (\<lambda>_.
           Inr \<lparr>ds_sections = (ds_sections st)(i \<mapsto> m), ds_metadata = ds_metadata st @ [m],
                ds_expected_id = Some i, ds_expected_offset = e\<rparr>)))))))))))))"

definition chunks_exact :: "nat \<Rightarrow> 'a list \<Rightarrow> 'a list list" where
  \<comment> \<open>\<open>as_chunks::<N>().0\<close>: the full chunks\<close>
  "chunks_exact n xs = map (\<lambda>i. take n (drop (n * i) xs)) [0..<length xs div n]"

record DecodedContainer =
  dc_bytes :: "u8 list"
  dc_sections :: "u16 \<rightharpoonup> SectionMetadata"
  dc_metadata :: "SectionMetadata list"
  dc_flags :: u32
  dc_digest :: "u8 list"

definition decode_header ::
  "(u8 list \<Rightarrow> u8 list) \<Rightarrow> u8 list \<Rightarrow> u8 list \<Rightarrow> ArtifactLimits \<Rightarrow>
   ArtifactFormatError + u32 \<times> u32 \<times> u64 \<times> u8 list" where
  \<comment> \<open>flags, section count, total length and content digest\<close>
  "decode_header sha abi bytes L =
     bindr (ensure (length bytes \<le> unat (max_total_bytes L))
              (LimitExceeded ''total bytes'' (of_nat (length bytes)) (max_total_bytes L))) (\<lambda>_.
     bindr (ok_or (get_range bytes 0 HEADER_LEN) Truncated) (\<lambda>header.
     bindr (ensure (take 8 header = MAGIC) InvalidMagic) (\<lambda>_.
     bindr (read_u16 header 8) (\<lambda>version.
     bindr (ensure (version = FORMAT_VERSION) (UnsupportedVersion version)) (\<lambda>_.
     bindr (read_u16 header 10) (\<lambda>header_len.
     bindr (ensure (unat header_len = HEADER_LEN) (InvalidHeaderLength header_len)) (\<lambda>_.
     bindr (ensure (take 32 (drop 12 header) = abi) SemanticAbiMismatch) (\<lambda>_.
     bindr (read_u32 header 44) (\<lambda>flags.
     bindr (read_u32 header 48) (\<lambda>section_count.
     bindr (ensure (section_count \<le> max_sections L)
              (LimitExceeded ''sections'' (ucast section_count) (ucast (max_sections L)))) (\<lambda>_.
     bindr (read_u64 header 52) (\<lambda>total_len.
     bindr (ensure (unat total_len = length bytes)
              (TotalLengthMismatch total_len (of_nat (length bytes)))) (\<lambda>_.
     let digest = take 32 (drop CONTENT_HASH_OFFSET header)
     in bindr (ensure (sha (write_digest bytes (replicate 32 0)) = digest) ContentHashMismatch) (\<lambda>_.
        Inr (flags, section_count, total_len, digest)))))))))))))))"

definition decode_container ::
  "(u8 list \<Rightarrow> u8 list) \<Rightarrow> u8 list \<Rightarrow> u8 list \<Rightarrow> ArtifactLimits \<Rightarrow>
   ArtifactFormatError + DecodedContainer" where
  "decode_container sha abi bytes L =
     bindr (decode_header sha abi bytes L) (\<lambda>(flags, section_count, total_len, digest).
     bindr (ok_or (usize_checked_mul DIRECTORY_ENTRY_LEN (unat section_count)) LengthOverflow) (\<lambda>directory_len.
     bindr (ok_or (usize_checked_add HEADER_LEN directory_len) LengthOverflow) (\<lambda>directory_end.
     bindr (ok_or (get_range bytes HEADER_LEN directory_end) Truncated) (\<lambda>directory.
     bindr (fold_res (decode_entry sha bytes L total_len)
              \<lparr>ds_sections = Map.empty, ds_metadata = [], ds_expected_id = None,
               ds_expected_offset = of_nat directory_end\<rparr>
              (chunks_exact DIRECTORY_ENTRY_LEN directory)) (\<lambda>st.
     bindr (ensure (ds_expected_offset st = total_len)
              (NonCanonical ''trailing bytes after final section'')) (\<lambda>_.
     bindr (for_each_res (\<lambda>i. ensure (ds_sections st i \<noteq> None) (MissingRequiredSection i))
              [SECTION_MANIFEST, SECTION_PROGRAM, SECTION_REQUIRED_BUILTINS]) (\<lambda>_.
     Inr \<lparr>dc_bytes = bytes, dc_sections = ds_sections st, dc_metadata = ds_metadata st,
          dc_flags = flags, dc_digest = digest\<rparr>)))))))"

definition dc_required :: "DecodedContainer \<Rightarrow> u16 \<Rightarrow> ArtifactFormatError + u8 list" where
  "dc_required dc i =
     bindr (ok_or (dc_sections dc i) (MissingRequiredSection i)) (\<lambda>m.
     bindr (ok_or (usize_checked_add (unat (sm_offset m)) (unat (sm_len m))) LengthOverflow) (\<lambda>e.
     ok_or (get_range (dc_bytes dc) (unat (sm_offset m)) e) Truncated))"

definition dc_optional :: "DecodedContainer \<Rightarrow> u16 \<Rightarrow> ArtifactFormatError + u8 list option" where
  "dc_optional dc i =
     (if dc_sections dc i \<noteq> None then bindr (dc_required dc i) (\<lambda>bs. Inr (Some bs)) else Inr None)"

section \<open>Fields of a byte string\<close>

lemma read_u16_at:
  "length a = n \<Longrightarrow> n + 2 < 2 ^ 64 \<Longrightarrow> read_u16 (a @ u16_le v @ b) n = Inr v"
  by (simp add: read_u16_def get_range_def)

lemma read_u32_at:
  "length a = n \<Longrightarrow> n + 4 < 2 ^ 64 \<Longrightarrow> read_u32 (a @ u32_le v @ b) n = Inr v"
  by (simp add: read_u32_def get_range_def)

lemma read_u64_at:
  "length a = n \<Longrightarrow> n + 8 < 2 ^ 64 \<Longrightarrow> read_u64 (a @ u64_le v @ b) n = Inr v"
  by (simp add: read_u64_def get_range_def)

lemma get_range_at:
  "length a = n \<Longrightarrow> m = n + length v \<Longrightarrow> get_range (a @ v @ b) n m = Some v"
  by (simp add: get_range_def)

lemma chunks_exact_concat:
  assumes "\<forall>x\<in>set xs. length x = n" and "0 < n"
  shows "chunks_exact n (concat xs) = xs"
proof -
  have len: "length (concat xs) = n * length xs" if "\<forall>x\<in>set xs. length x = n" for xs :: "'a list list"
    using that by (induction xs) simp_all
  have nth: "take n (drop (n * i) (concat xs)) = xs ! i" if "i < length xs" for i
    using that assms(1)
  proof (induction xs arbitrary: i)
    case (Cons x xs)
    show ?case
    proof (cases i)
      case 0
      with Cons.prems show ?thesis by simp
    next
      case (Suc j)
      have "drop (n * Suc j) (x @ concat xs) = drop (n * j) (concat xs)"
        using Cons.prems(2) by simp
      with Cons.IH [of j] Cons.prems Suc show ?thesis by simp
    qed
  qed simp
  show ?thesis
    unfolding chunks_exact_def using len [OF assms(1)] assms(2) nth
    by (intro nth_equalityI) simp_all
qed

lemma u64_of_nat_add:
  "a + b < 2 ^ 64 \<Longrightarrow> u64_checked_add (of_nat a) (of_nat b) = Some (of_nat (a + b))"
  by (simp add: u64_checked_add_def unat_u64_of_nat)

section \<open>What the encoder lays out\<close>

definition payload_bytes :: "EncodedSection list \<Rightarrow> u8 list" where
  "payload_bytes ss = concat (map sec_bytes ss)"

lemma payload_bytes_simps [simp]:
  "payload_bytes [] = []" "payload_bytes (s # ss) = sec_bytes s @ payload_bytes ss"
  by (simp_all add: payload_bytes_def)

fun directory_entries :: "(u8 list \<Rightarrow> u8 list) \<Rightarrow> nat \<Rightarrow> EncodedSection list \<Rightarrow> u8 list list" where
  "directory_entries sha offset [] = []"
| "directory_entries sha offset (s # ss) =
     directory_entry sha offset s # directory_entries sha (offset + length (sec_bytes s)) ss"

lemma length_directory_entries [simp]: "length (directory_entries sha offset ss) = length ss"
  by (induction ss arbitrary: offset) simp_all

lemma length_directory_entry:
  "length (sha (sec_bytes s)) = 32 \<Longrightarrow> length (directory_entry sha offset s) = DIRECTORY_ENTRY_LEN"
  by (simp add: directory_entry_def DIRECTORY_ENTRY_LEN_def)

lemma directory_entries_len:
  "\<forall>bs. length (sha bs) = 32 \<Longrightarrow>
    \<forall>e\<in>set (directory_entries sha offset ss). length e = DIRECTORY_ENTRY_LEN"
  by (induction ss arbitrary: offset) (simp_all add: length_directory_entry)

lemma length_concat_entries:
  "\<forall>bs. length (sha bs) = 32 \<Longrightarrow>
    length (concat (directory_entries sha offset ss)) = DIRECTORY_ENTRY_LEN * length ss"
  by (induction ss arbitrary: offset) (simp_all add: length_directory_entry)

lemma encode_directory_eq:
  "offset + length (payload_bytes ss) < 2 ^ 64 \<Longrightarrow>
    encode_directory sha offset ss = Inr (concat (directory_entries sha offset ss))"
  by (induction ss arbitrary: offset) (simp_all add: add.assoc)

lemma sum_lengths_from:
  "n + length (payload_bytes ss) < 2 ^ 64 \<Longrightarrow>
    fold_res (\<lambda>total s. ok_or (usize_checked_add total (length (sec_bytes s))) LengthOverflow) n ss =
      Inr (n + length (payload_bytes ss))"
  by (induction ss arbitrary: n) (simp_all add: add.assoc)

lemma sum_lengths_eq:
  "length (payload_bytes ss) < 2 ^ 64 \<Longrightarrow> sum_lengths ss = Inr (length (payload_bytes ss))"
  using sum_lengths_from [of 0 ss] by (simp add: sum_lengths_def)

text \<open>The first 60 bytes of a container; the digest and the directory follow.\<close>

definition header_prefix :: "u8 list \<Rightarrow> nat \<Rightarrow> nat \<Rightarrow> u8 list" where
  "header_prefix abi section_count total_len =
     MAGIC @ u16_le FORMAT_VERSION @ u16_le (of_nat HEADER_LEN) @ abi @ u32_le 0 @
     u32_le (of_nat section_count) @ u64_le (of_nat total_len)"

lemma length_MAGIC [simp]: "length MAGIC = 8"
  by (simp add: MAGIC_def as_bytes_def lit_def utf8_char_def)

lemma length_header_prefix:
  "length abi = 32 \<Longrightarrow> length (header_prefix abi n t) = CONTENT_HASH_OFFSET"
  by (simp add: header_prefix_def layout_defs)

lemma container_header_eq:
  "container_header abi (of_nat n) t = header_prefix abi n t @ replicate 32 0"
  by (simp add: container_header_def header_prefix_def)

lemma write_digest_at:
  "length p = CONTENT_HASH_OFFSET \<Longrightarrow> length old = 32 \<Longrightarrow> write_digest (p @ old @ r) d = p @ d @ r"
  by (simp add: write_digest_def layout_defs)

definition container_len :: "EncodedSection list \<Rightarrow> nat" where
  "container_len ss =
     HEADER_LEN + DIRECTORY_ENTRY_LEN * length ss + length (payload_bytes ss)"

definition container_rest :: "(u8 list \<Rightarrow> u8 list) \<Rightarrow> EncodedSection list \<Rightarrow> u8 list" where
  "container_rest sha ss =
     concat (directory_entries sha (HEADER_LEN + DIRECTORY_ENTRY_LEN * length ss) ss) @ payload_bytes ss"

definition container_digest ::
  "(u8 list \<Rightarrow> u8 list) \<Rightarrow> u8 list \<Rightarrow> EncodedSection list \<Rightarrow> u8 list" where
  "container_digest sha abi ss =
     sha (header_prefix abi (length ss) (container_len ss) @ replicate 32 0 @ container_rest sha ss)"

lemma encode_container_eq:
  assumes "length abi = 32" and "length ss < 2 ^ 32" and "container_len ss < 2 ^ 64"
  shows "encode_container sha abi ss =
    Inr (header_prefix abi (length ss) (container_len ss) @ container_digest sha abi ss @
         container_rest sha ss)"
proof -
  have len: "HEADER_LEN + DIRECTORY_ENTRY_LEN * length ss + length (payload_bytes ss) < 2 ^ 64"
    using assms(3) by (simp add: container_len_def)
  then have dir: "encode_directory sha (HEADER_LEN + DIRECTORY_ENTRY_LEN * length ss) ss =
      Inr (concat (directory_entries sha (HEADER_LEN + DIRECTORY_ENTRY_LEN * length ss) ss))"
    by (rule encode_directory_eq)
  have sum: "sum_lengths ss = Inr (length (payload_bytes ss))"
    using len by (intro sum_lengths_eq) simp
  have mul: "usize_checked_mul DIRECTORY_ENTRY_LEN (length ss) = Some (DIRECTORY_ENTRY_LEN * length ss)"
    using len by (intro usize_checked_mul_Some) simp
  have add: "usize_checked_add HEADER_LEN (DIRECTORY_ENTRY_LEN * length ss) =
      Some (HEADER_LEN + DIRECTORY_ENTRY_LEN * length ss)"
    using len by (intro usize_checked_add_Some) simp
  have add': "usize_checked_add (HEADER_LEN + DIRECTORY_ENTRY_LEN * length ss) (length (payload_bytes ss)) =
      Some (container_len ss)"
    using len by (simp add: container_len_def)
  show ?thesis
    unfolding encode_container_def
    using assms(2)
    by (simp add: mul add sum add' dir container_header_eq Let_def container_digest_def
        write_digest_at [OF length_header_prefix [OF assms(1)]] container_rest_def
        payload_bytes_def [symmetric])
qed

section \<open>Reading the layout back\<close>

definition sections_ok :: "ArtifactLimits \<Rightarrow> EncodedSection list \<Rightarrow> bool" where
  "sections_ok L ss \<longleftrightarrow>
     sorted_wrt (<) (map sec_id ss) \<and>
     list_all (\<lambda>s. (known_section (sec_id s) \<or> sec_flags s AND SECTION_REQUIRED = 0) \<and>
       length (sec_bytes s) \<le> unat (max_section_bytes L)) ss \<and>
     length ss \<le> unat (max_sections L) \<and>
     container_len ss \<le> unat (max_total_bytes L) \<and>
     {SECTION_MANIFEST, SECTION_PROGRAM, SECTION_REQUIRED_BUILTINS} \<subseteq> sec_id ` set ss"

text \<open>
  The state after the entries before \<open>ss\<close> is \<open>ready\<close> for \<open>ss\<close>: its expected offset is where
  the first payload of \<open>ss\<close> starts, and its ids are below those of \<open>ss\<close>.
\<close>

definition ready :: "DirectoryState \<Rightarrow> nat \<Rightarrow> EncodedSection list \<Rightarrow> bool" where
  "ready st offset ss \<longleftrightarrow>
     ds_expected_offset st = of_nat offset \<and>
     (\<forall>s\<in>set ss. ds_sections st (sec_id s) = None) \<and>
     (\<forall>s\<in>set ss. case ds_expected_id st of None \<Rightarrow> True | Some q \<Rightarrow> q < sec_id s)"

definition entry_metadata :: "(u8 list \<Rightarrow> u8 list) \<Rightarrow> nat \<Rightarrow> EncodedSection \<Rightarrow> SectionMetadata" where
  "entry_metadata sha offset s =
     \<lparr>sm_id = sec_id s, sm_offset = of_nat offset, sm_len = of_nat (length (sec_bytes s)),
      sm_sha256 = sha (sec_bytes s)\<rparr>"

definition after_entry ::
  "(u8 list \<Rightarrow> u8 list) \<Rightarrow> nat \<Rightarrow> DirectoryState \<Rightarrow> EncodedSection \<Rightarrow> DirectoryState" where
  "after_entry sha offset st s =
     \<lparr>ds_sections = (ds_sections st)(sec_id s \<mapsto> entry_metadata sha offset s),
      ds_metadata = ds_metadata st @ [entry_metadata sha offset s],
      ds_expected_id = Some (sec_id s),
      ds_expected_offset = of_nat (offset + length (sec_bytes s))\<rparr>"

lemma entry_fields:
  assumes "length (sha (sec_bytes s)) = 32"
  shows "read_u16 (directory_entry sha offset s) 0 = Inr (sec_id s)"
    and "read_u16 (directory_entry sha offset s) 2 = Inr (sec_flags s)"
    and "read_u64 (directory_entry sha offset s) 4 = Inr (of_nat offset)"
    and "read_u64 (directory_entry sha offset s) 12 = Inr (of_nat (length (sec_bytes s)))"
    and "take 32 (drop 20 (directory_entry sha offset s)) = sha (sec_bytes s)"
  using assms read_u16_at [of "[]" 0] read_u16_at [of "u16_le (sec_id s)" 2]
    read_u64_at [of "u16_le (sec_id s) @ u16_le (sec_flags s)" 4]
    read_u64_at [of "u16_le (sec_id s) @ u16_le (sec_flags s) @ u64_le (of_nat offset)" 12]
  by (simp_all add: directory_entry_def)

lemma decode_entry_directory_entry:
  assumes "length (sha (sec_bytes s)) = 32" and "ready st offset (s # ss)"
    and bytes: "bytes = pre @ sec_bytes s @ post" "length pre = offset" "length bytes = unat total_len"
    and "known_section (sec_id s) \<or> sec_flags s AND SECTION_REQUIRED = 0"
    and "length (sec_bytes s) \<le> unat (max_section_bytes L)"
  shows "decode_entry sha bytes L total_len st (directory_entry sha offset s) =
    Inr (after_entry sha offset st s)"
proof -
  have lt: "offset + length (sec_bytes s) < 2 ^ 64"
    using bytes unat_u64_lt [of total_len] by simp
  then have u: "unat (of_nat (length (sec_bytes s)) :: u64) = length (sec_bytes s)"
    "unat (of_nat offset :: u64) = offset"
    "unat (of_nat (offset + length (sec_bytes s)) :: u64) = offset + length (sec_bytes s)"
    by (intro unat_u64_of_nat; simp)+
  have len: "(of_nat (length (sec_bytes s)) :: u64) \<le> max_section_bytes L"
    using assms(7) u by (simp add: word_le_nat_alt)
  have e: "(of_nat (offset + length (sec_bytes s)) :: u64) \<le> total_len"
    using bytes u by (simp add: word_le_nat_alt del: of_nat_add)
  have pay: "get_range bytes offset (offset + length (sec_bytes s)) = Some (sec_bytes s)"
    using bytes by (simp add: get_range_at)
  have prev: "case ds_expected_id st of None \<Rightarrow> True | Some q \<Rightarrow> q < sec_id s"
    and off: "ds_expected_offset st = of_nat offset" and fresh: "ds_sections st (sec_id s) = None"
    using assms(2) by (simp_all add: ready_def)
  show ?thesis
    unfolding decode_entry_def
    using prev assms(6)
    by (simp add: entry_fields [of sha s, OF assms(1)] len e u64_of_nat_add [OF lt] off fresh u pay Let_def
        after_entry_def entry_metadata_def del: of_nat_add)
qed

lemma ready_after_entry:
  assumes "ready st offset (s # ss)" and "sorted_wrt (<) (map sec_id (s # ss))"
  shows "ready (after_entry sha offset st s) (offset + length (sec_bytes s)) ss"
  using assms by (force simp: ready_def after_entry_def)

definition all_entries ::
  "(u8 list \<Rightarrow> u8 list) \<Rightarrow> nat \<Rightarrow> DirectoryState \<Rightarrow> EncodedSection list \<Rightarrow> DirectoryState" where
  "all_entries sha offset st ss =
     fst (foldl (\<lambda>(st, off) s. (after_entry sha off st s, off + length (sec_bytes s))) (st, offset) ss)"

lemma all_entries_simps [simp]:
  "all_entries sha offset st [] = st"
  "all_entries sha offset st (s # ss) =
     all_entries sha (offset + length (sec_bytes s)) (after_entry sha offset st s) ss"
  by (simp_all add: all_entries_def)

lemma decode_entries:
  assumes "\<forall>bs. length (sha bs) = 32" and "length bytes = unat total_len"
    and "list_all (\<lambda>s. (known_section (sec_id s) \<or> sec_flags s AND SECTION_REQUIRED = 0) \<and>
       length (sec_bytes s) \<le> unat (max_section_bytes L)) ss"
    and "ready st offset ss" and "sorted_wrt (<) (map sec_id ss)"
    and "bytes = pre @ payload_bytes ss" and "length pre = offset"
  shows "fold_res (decode_entry sha bytes L total_len) st (directory_entries sha offset ss) =
    Inr (all_entries sha offset st ss)"
  using assms(3-)
proof (induction ss arbitrary: st offset pre)
  case (Cons s ss)
  have "decode_entry sha bytes L total_len st (directory_entry sha offset s) =
      Inr (after_entry sha offset st s)"
    using Cons.prems assms(1,2)
    by (intro decode_entry_directory_entry [where pre = pre and post = "payload_bytes ss"]) simp_all
  moreover have "fold_res (decode_entry sha bytes L total_len) (after_entry sha offset st s)
      (directory_entries sha (offset + length (sec_bytes s)) ss) =
      Inr (all_entries sha (offset + length (sec_bytes s)) (after_entry sha offset st s) ss)"
    using Cons.prems ready_after_entry [OF Cons.prems(2,3)]
    by (intro Cons.IH [where pre = "pre @ sec_bytes s"]) simp_all
  ultimately show ?case by simp
qed simp

lemma all_entries_offset:
  "ds_expected_offset st = of_nat offset \<Longrightarrow>
    ds_expected_offset (all_entries sha offset st ss) = of_nat (offset + length (payload_bytes ss))"
  by (induction ss arbitrary: offset st) (simp_all add: after_entry_def ac_simps)

lemma all_entries_other:
  "i \<notin> sec_id ` set ss \<Longrightarrow> ds_sections (all_entries sha offset st ss) i = ds_sections st i"
  by (induction ss arbitrary: offset st) (auto simp: after_entry_def)

lemma all_entries_section:
  assumes "s \<in> set ss" and "distinct (map sec_id ss)" and "length pre = offset"
  shows "\<exists>p q. pre @ payload_bytes ss = p @ sec_bytes s @ q \<and>
    ds_sections (all_entries sha offset st ss) (sec_id s) = Some (entry_metadata sha (length p) s)"
  using assms
proof (induction ss arbitrary: offset st pre)
  case (Cons t ss)
  show ?case
  proof (cases "s = t")
    case True
    then have "sec_id s \<notin> sec_id ` set ss" using Cons.prems(2) by simp
    then have "ds_sections (all_entries sha offset st (t # ss)) (sec_id s) =
        Some (entry_metadata sha offset s)"
      using True by (simp add: all_entries_other) (simp add: after_entry_def)
    then show ?thesis
      using Cons.prems(3) True by (intro exI [of _ pre] exI [of _ "payload_bytes ss"]) simp
  next
    case False
    then show ?thesis
      using Cons.IH [of "pre @ sec_bytes t" "offset + length (sec_bytes t)"
          "after_entry sha offset st t"] Cons.prems
      by auto
  qed
qed simp

lemma sorted_ids_distinct: "sorted_wrt (<) (map sec_id ss) \<Longrightarrow> distinct (map sec_id ss)"
  using strict_sorted_iff by blast

lemma header_fields:
  fixes n t :: nat
  assumes "length abi = 32" and "length digest = 32"
  defines "h \<equiv> header_prefix abi n t @ digest"
  shows "take 8 h = MAGIC" "read_u16 h 8 = Inr FORMAT_VERSION"
    "read_u16 h 10 = Inr (of_nat HEADER_LEN)" "take 32 (drop 12 h) = abi" "read_u32 h 44 = Inr 0"
    "read_u32 h 48 = Inr (of_nat n)" "read_u64 h 52 = Inr (of_nat t)"
    "take 32 (drop CONTENT_HASH_OFFSET h) = digest" "length h = HEADER_LEN"
proof -
  note m = length_MAGIC
  let ?a = "MAGIC @ u16_le FORMAT_VERSION"
  let ?b = "?a @ u16_le (of_nat HEADER_LEN)"
  let ?c = "?b @ abi"
  let ?d = "?c @ u32_le 0"
  let ?e = "?d @ u32_le (of_nat n)"
  show "take 8 h = MAGIC" by (simp add: h_def header_prefix_def)
  show "read_u16 h 8 = Inr FORMAT_VERSION"
    using read_u16_at [of MAGIC 8 FORMAT_VERSION] by (simp add: h_def header_prefix_def)
  show "read_u16 h 10 = Inr (of_nat HEADER_LEN)"
    using read_u16_at [of ?a 10] by (simp add: h_def header_prefix_def)
  show "take 32 (drop 12 h) = abi" using assms(1) by (simp add: h_def header_prefix_def)
  show "read_u32 h 44 = Inr 0"
    using read_u32_at [of ?c 44] assms(1) by (simp add: h_def header_prefix_def)
  show "read_u32 h 48 = Inr (of_nat n)"
    using read_u32_at [of ?d 48] assms(1) by (simp add: h_def header_prefix_def)
  show "read_u64 h 52 = Inr (of_nat t)"
    using read_u64_at [of ?e 52] assms(1) by (simp add: h_def header_prefix_def)
  show "take 32 (drop CONTENT_HASH_OFFSET h) = digest"
    using assms(2) by (simp add: h_def length_header_prefix [OF assms(1)])
  show "length h = HEADER_LEN"
    using assms(2) by (simp add: h_def length_header_prefix [OF assms(1)] layout_defs)
qed

lemma decode_header_encoded:
  assumes "length abi = 32" and "\<forall>bs. length (sha bs) = 32" and "sections_ok L ss"
  defines "bytes \<equiv> header_prefix abi (length ss) (container_len ss) @ container_digest sha abi ss @
    container_rest sha ss"
  shows "length bytes = container_len ss"
    and "decode_header sha abi bytes L =
      Inr (0, of_nat (length ss), of_nat (container_len ss), container_digest sha abi ss)"
proof -
  let ?d = "container_digest sha abi ss"
  let ?h = "header_prefix abi (length ss) (container_len ss) @ ?d"
  have d: "length ?d = 32" using assms(2) by (simp add: container_digest_def)
  note h = header_fields [OF assms(1) d, of "length ss" "container_len ss"]
  show len: "length bytes = container_len ss"
    using length_concat_entries [OF assms(2)] length_header_prefix [OF assms(1)] d
    by (simp add: bytes_def container_rest_def container_len_def layout_defs)
  have tot: "container_len ss \<le> unat (max_total_bytes L)" "length ss \<le> unat (max_sections L)"
    using assms(3) by (simp_all add: sections_ok_def)
  then have u: "unat (of_nat (container_len ss) :: u64) = container_len ss"
    "unat (of_nat (length ss) :: u32) = length ss"
    using unat_u64_lt [of "max_total_bytes L"] unat_u32_lt [of "max_sections L"]
    by (auto intro!: unat_u64_of_nat unat_u32_of_nat)
  have hdr: "get_range bytes 0 HEADER_LEN = Some ?h"
    using get_range_at [of "[]" 0 HEADER_LEN ?h "container_rest sha ss"] h(9) by (simp add: bytes_def)
  have zero: "write_digest bytes (replicate 32 0) =
      header_prefix abi (length ss) (container_len ss) @ replicate 32 0 @ container_rest sha ss"
    using d by (simp add: bytes_def write_digest_at [OF length_header_prefix [OF assms(1)]])
  have cnt: "(of_nat (length ss) :: u32) \<le> max_sections L"
    using tot u by (simp add: word_le_nat_alt)
  have hl: "unat (of_nat HEADER_LEN :: u16) = HEADER_LEN" by (simp add: HEADER_LEN_def)
  show "decode_header sha abi bytes L =
      Inr (0, of_nat (length ss), of_nat (container_len ss), ?d)"
    unfolding decode_header_def len
    using tot(1) by (simp add: hdr h hl cnt u zero Let_def container_digest_def [symmetric]
        del: take_append drop_append)
qed

lemma dc_required_at:
  assumes "dc_sections dc i = Some (entry_metadata sha (length p) s)"
    and "dc_bytes dc = p @ sec_bytes s @ q" and "length (dc_bytes dc) < 2 ^ 64"
  shows "dc_required dc i = Inr (sec_bytes s)"
proof -
  have lt: "length p + length (sec_bytes s) < 2 ^ 64" using assms(2,3) by simp
  then have "unat (of_nat (length p) :: u64) = length p"
    "unat (of_nat (length (sec_bytes s)) :: u64) = length (sec_bytes s)"
    by (intro unat_u64_of_nat; simp)+
  with lt assms(1,2) show ?thesis
    by (simp add: dc_required_def entry_metadata_def get_range_at [OF refl refl])
qed

lemma decode_containerI:
  assumes "decode_header sha abi bytes L = Inr (flags, n, total_len, digest)"
    and "usize_checked_mul DIRECTORY_ENTRY_LEN (unat n) = Some len"
    and "usize_checked_add HEADER_LEN len = Some e"
    and "get_range bytes HEADER_LEN e = Some directory"
    and "fold_res (decode_entry sha bytes L total_len)
           \<lparr>ds_sections = Map.empty, ds_metadata = [], ds_expected_id = None,
            ds_expected_offset = of_nat e\<rparr> (chunks_exact DIRECTORY_ENTRY_LEN directory) = Inr st"
    and "ds_expected_offset st = total_len"
    and "\<forall>i\<in>{SECTION_MANIFEST, SECTION_PROGRAM, SECTION_REQUIRED_BUILTINS}. ds_sections st i \<noteq> None"
  shows "decode_container sha abi bytes L =
    Inr \<lparr>dc_bytes = bytes, dc_sections = ds_sections st, dc_metadata = ds_metadata st,
         dc_flags = flags, dc_digest = digest\<rparr>"
  using assms by (simp add: decode_container_def)

lemma decode_container_encoded:
  assumes "length abi = 32" and "\<forall>bs. length (sha bs) = 32" and "sections_ok L ss"
  shows "\<exists>bytes dc. encode_container sha abi ss = Inr bytes \<and> length bytes = container_len ss \<and>
    decode_container sha abi bytes L = Inr dc \<and> dc_flags dc = 0 \<and>
    (\<forall>s\<in>set ss. dc_required dc (sec_id s) = Inr (sec_bytes s)) \<and>
    (\<forall>i. i \<notin> sec_id ` set ss \<longrightarrow> dc_sections dc i = None)"
proof -
  let ?start = "HEADER_LEN + DIRECTORY_ENTRY_LEN * length ss"
  let ?pre = "header_prefix abi (length ss) (container_len ss) @ container_digest sha abi ss @
    concat (directory_entries sha ?start ss)"
  let ?bytes = "?pre @ payload_bytes ss"
  let ?init = "\<lparr>ds_sections = Map.empty, ds_metadata = [], ds_expected_id = None,
               ds_expected_offset = of_nat ?start\<rparr>"
  let ?st = "all_entries sha ?start ?init ss"
  note hdr = decode_header_encoded [OF assms, unfolded container_rest_def, simplified]
  have ok: "sorted_wrt (<) (map sec_id ss)" "container_len ss \<le> unat (max_total_bytes L)"
    "length ss \<le> unat (max_sections L)"
    "list_all (\<lambda>s. (known_section (sec_id s) \<or> sec_flags s AND SECTION_REQUIRED = 0) \<and>
       length (sec_bytes s) \<le> unat (max_section_bytes L)) ss"
    "{SECTION_MANIFEST, SECTION_PROGRAM, SECTION_REQUIRED_BUILTINS} \<subseteq> sec_id ` set ss"
    using assms(3) by (simp_all only: sections_ok_def)
  have lt: "container_len ss < 2 ^ 64" "length ss < 2 ^ 32"
    using ok unat_u64_lt [of "max_total_bytes L"] unat_u32_lt [of "max_sections L"] by linarith+
  have u: "unat (of_nat (container_len ss) :: u64) = container_len ss"
    "unat (of_nat (length ss) :: u32) = length ss"
    using lt by (auto intro!: unat_u64_of_nat unat_u32_of_nat)
  have len: "length ?pre = ?start"
    using hdr(1) by (simp add: container_len_def)
  have cl: "container_len ss = ?start + length (payload_bytes ss)" by (simp add: container_len_def)
  have enc: "encode_container sha abi ss = Inr ?bytes"
    using encode_container_eq [OF assms(1) lt(2,1)] by (simp add: container_rest_def)
  have mul: "usize_checked_mul DIRECTORY_ENTRY_LEN (length ss) = Some (DIRECTORY_ENTRY_LEN * length ss)"
    and add: "usize_checked_add HEADER_LEN (DIRECTORY_ENTRY_LEN * length ss) = Some ?start"
    using lt cl by simp_all
  have hlen: "length (header_prefix abi (length ss) (container_len ss) @ container_digest sha abi ss) =
      HEADER_LEN"
    using header_fields(9) [OF assms(1), of "container_digest sha abi ss"] assms(2)
    by (simp add: container_digest_def)
  have dir: "get_range ?bytes HEADER_LEN ?start = Some (concat (directory_entries sha ?start ss))"
    using get_range_at [OF hlen, of ?start "concat (directory_entries sha ?start ss)" "payload_bytes ss"]
      length_concat_entries [OF assms(2)] by simp
  have chunks: "chunks_exact DIRECTORY_ENTRY_LEN (concat (directory_entries sha ?start ss)) =
      directory_entries sha ?start ss"
    using directory_entries_len [OF assms(2)]
    by (intro chunks_exact_concat) (simp_all add: DIRECTORY_ENTRY_LEN_def)
  have "fold_res (decode_entry sha ?bytes L (of_nat (container_len ss))) ?init
      (directory_entries sha ?start ss) = Inr ?st"
    using hdr(1) u(1) ok(1,4)
    by (intro decode_entries [OF assms(2) _ _ _ _ _ len]) (simp_all add: ready_def)
  then have folded: "fold_res (decode_entry sha ?bytes L (of_nat (container_len ss))) ?init
      (chunks_exact DIRECTORY_ENTRY_LEN (concat (directory_entries sha ?start ss))) = Inr ?st"
    by (simp only: chunks)
  have off: "ds_expected_offset ?st = of_nat (container_len ss)"
    unfolding cl by (rule all_entries_offset) simp
  have sec: "\<exists>p q. ?bytes = p @ sec_bytes s @ q \<and>
      ds_sections ?st (sec_id s) = Some (entry_metadata sha (length p) s)" if "s \<in> set ss" for s
    using all_entries_section [OF that sorted_ids_distinct [OF ok(1)] len] by simp
  have req: "\<forall>i\<in>{SECTION_MANIFEST, SECTION_PROGRAM, SECTION_REQUIRED_BUILTINS}.
      ds_sections ?st i \<noteq> None"
    using ok(5) sec by fastforce
  have "decode_header sha abi ?bytes L = Inr (0, of_nat (length ss), of_nat (container_len ss),
      container_digest sha abi ss)"
    using hdr(2) by simp
  from decode_containerI [OF this _ add dir folded off req] mul u(2)
  have dec: "decode_container sha abi ?bytes L =
      Inr \<lparr>dc_bytes = ?bytes, dc_sections = ds_sections ?st, dc_metadata = ds_metadata ?st,
           dc_flags = 0, dc_digest = container_digest sha abi ss\<rparr>" (is "_ = Inr ?dc")
    by simp
  have "dc_required ?dc (sec_id s) = Inr (sec_bytes s)" if "s \<in> set ss" for s
  proof -
    from sec [OF that] obtain p q where pq: "?bytes = p @ sec_bytes s @ q"
      and m: "ds_sections ?st (sec_id s) = Some (entry_metadata sha (length p) s)" by blast
    show ?thesis
      by (rule dc_required_at [where p = p and q = q])
         (simp_all only: DecodedContainer.simps m pq hdr(1) lt(1), use hdr(1) lt(1) arg_cong [OF pq, of length] in simp)
  qed
  moreover have "ds_sections ?st i = None" if "i \<notin> sec_id ` set ss" for i
    using all_entries_other [OF that, of sha ?start ?init] by simp
  ultimately show ?thesis using enc dec hdr(1)
    by (intro exI [of _ ?bytes] exI [of _ ?dc]) simp
qed

section \<open>What an accepted container looks like\<close>

definition section_payload :: "u8 list \<Rightarrow> SectionMetadata \<Rightarrow> u8 list" where
  "section_payload bytes m = take (unat (sm_len m)) (drop (unat (sm_offset m)) bytes)"

text \<open>
  \<open>tiles sha bytes start ms e\<close>: the payloads of \<open>ms\<close> lie one after the other in \<open>bytes\<close> from
  \<open>start\<close> to \<open>e\<close>, and each has the digest its directory entry names.
\<close>

fun tiles :: "(u8 list \<Rightarrow> u8 list) \<Rightarrow> u8 list \<Rightarrow> nat \<Rightarrow> SectionMetadata list \<Rightarrow> nat \<Rightarrow> bool" where
  "tiles sha bytes start [] e \<longleftrightarrow> start = e"
| "tiles sha bytes start (m # ms) e \<longleftrightarrow>
     unat (sm_offset m) = start \<and> start + unat (sm_len m) \<le> length bytes \<and>
     sha (section_payload bytes m) = sm_sha256 m \<and>
     tiles sha bytes (start + unat (sm_len m)) ms e"

definition above :: "u16 option \<Rightarrow> u16 \<Rightarrow> bool" where
  "above prev i \<longleftrightarrow> (case prev of None \<Rightarrow> True | Some q \<Rightarrow> q < i)"

lemma decode_entryD:
  assumes "decode_entry sha bytes L total_len st entry = Inr st'"
  shows "\<exists>m. ds_sections st' = (ds_sections st)(sm_id m \<mapsto> m) \<and>
    ds_metadata st' = ds_metadata st @ [m] \<and> ds_expected_id st' = Some (sm_id m) \<and>
    above (ds_expected_id st) (sm_id m) \<and>
    unat (sm_offset m) = unat (ds_expected_offset st) \<and>
    unat (ds_expected_offset st') = unat (sm_offset m) + unat (sm_len m) \<and>
    unat (sm_offset m) + unat (sm_len m) \<le> length bytes \<and>
    sha (section_payload bytes m) = sm_sha256 m \<and> sm_len m \<le> max_section_bytes L"
proof -
  from assms obtain i flags offset len e payload where
    h: "case ds_expected_id st of None \<Rightarrow> True | Some previous \<Rightarrow> previous < i"
      "len \<le> max_section_bytes L" "offset = ds_expected_offset st"
      "u64_checked_add offset len = Some e" "get_range bytes (unat offset) (unat e) = Some payload"
      "sha payload = take 32 (drop 20 entry)"
      "st' = \<lparr>ds_sections = (ds_sections st)(i \<mapsto>
                 \<lparr>sm_id = i, sm_offset = offset, sm_len = len, sm_sha256 = take 32 (drop 20 entry)\<rparr>),
               ds_metadata = ds_metadata st @
                 [\<lparr>sm_id = i, sm_offset = offset, sm_len = len, sm_sha256 = take 32 (drop 20 entry)\<rparr>],
               ds_expected_id = Some i, ds_expected_offset = e\<rparr>"
    by (auto simp: decode_entry_def Let_def)
  have e: "unat e = unat offset + unat len"
    using h(4) unat_u64_of_nat [of "unat offset + unat len"]
    by (auto simp: u64_checked_add_def split: if_splits)
  have "take (unat len) (drop (unat offset) bytes) = payload" "unat e \<le> length bytes"
    using get_range_SomeD [OF h(5)] e by simp_all
  then show ?thesis
    using h e by (intro exI [of _ "\<lparr>sm_id = i, sm_offset = offset, sm_len = len,
      sm_sha256 = take 32 (drop 20 entry)\<rparr>"]) (simp add: above_def section_payload_def)
qed

lemma decode_entriesD:
  assumes "fold_res (decode_entry sha bytes L total_len) st es = Inr st'"
  shows "\<exists>ms. ds_metadata st' = ds_metadata st @ ms \<and> length ms = length es \<and>
    ds_sections st' = ds_sections st ++ map_of (map (\<lambda>m. (sm_id m, m)) (rev ms)) \<and>
    sorted_wrt (<) (map sm_id ms) \<and> (\<forall>m\<in>set ms. above (ds_expected_id st) (sm_id m)) \<and>
    (\<forall>m\<in>set ms. sm_len m \<le> max_section_bytes L) \<and>
    tiles sha bytes (unat (ds_expected_offset st)) ms (unat (ds_expected_offset st'))"
  using assms
proof (induction es arbitrary: st)
  case (Cons e es)
  then obtain st1 where st1: "decode_entry sha bytes L total_len st e = Inr st1"
    and rest: "fold_res (decode_entry sha bytes L total_len) st1 es = Inr st'" by auto
  from decode_entryD [OF st1] obtain m where
    m: "ds_sections st1 = (ds_sections st)(sm_id m \<mapsto> m)"
      "ds_metadata st1 = ds_metadata st @ [m]" "ds_expected_id st1 = Some (sm_id m)"
      "above (ds_expected_id st) (sm_id m)"
      "unat (sm_offset m) = unat (ds_expected_offset st)"
      "unat (ds_expected_offset st1) = unat (sm_offset m) + unat (sm_len m)"
      "unat (sm_offset m) + unat (sm_len m) \<le> length bytes"
      "sha (section_payload bytes m) = sm_sha256 m" "sm_len m \<le> max_section_bytes L" by blast
  from Cons.IH [OF rest] obtain ms where
    ms: "ds_metadata st' = ds_metadata st1 @ ms" "length ms = length es"
      "ds_sections st' = ds_sections st1 ++ map_of (map (\<lambda>m. (sm_id m, m)) (rev ms))"
      "sorted_wrt (<) (map sm_id ms)" "\<forall>m\<in>set ms. above (ds_expected_id st1) (sm_id m)"
      "\<forall>m\<in>set ms. sm_len m \<le> max_section_bytes L"
      "tiles sha bytes (unat (ds_expected_offset st1)) ms (unat (ds_expected_offset st'))" by blast
  have above: "\<forall>n\<in>set ms. sm_id m < sm_id n" using ms(5) m(3) by (simp add: above_def)
  then have "\<forall>n\<in>set ms. above (ds_expected_id st) (sm_id n)"
    using m(4) by (auto simp: above_def split: option.splits)
  then show ?case
    using m ms above by (intro exI [of _ "m # ms"]) (simp add: map_add_assoc [symmetric])
qed simp

lemma tiles_bounds:
  "tiles sha bytes start ms e \<Longrightarrow> start \<le> e \<and> (\<forall>m\<in>set ms. start \<le> unat (sm_offset m) \<and>
     unat (sm_offset m) + unat (sm_len m) \<le> e \<and> sha (section_payload bytes m) = sm_sha256 m)"
  by (induction ms arbitrary: start) force+

lemma tiles_payloads:
  "tiles sha bytes start ms e \<Longrightarrow> start \<le> length bytes \<Longrightarrow>
    concat (map (section_payload bytes) ms) = take (e - start) (drop start bytes)"
proof (induction ms arbitrary: start)
  case (Cons m ms)
  let ?k = "start + unat (sm_len m)"
  have k: "?k \<le> length bytes" "?k \<le> e" "tiles sha bytes ?k ms e" "unat (sm_offset m) = start"
    using Cons.prems tiles_bounds [of sha bytes ?k ms e] by auto
  then have "concat (map (section_payload bytes) ms) = take (e - ?k) (drop ?k bytes)"
    by (intro Cons.IH)
  moreover have "take (e - start) (drop start bytes) =
      take (unat (sm_len m)) (drop start bytes) @ take (e - ?k) (drop ?k bytes)"
    using k(2) take_add [of "unat (sm_len m)" "e - ?k" "drop start bytes"] by (simp add: add.commute)
  moreover have "section_payload bytes m = take (unat (sm_len m)) (drop start bytes)"
    using k(4) by (simp add: section_payload_def)
  ultimately show ?case by simp
qed simp

lemma decode_containerD:
  assumes "decode_container sha abi bytes L = Inr dc"
  shows "dc_bytes dc = bytes" and "length bytes \<le> unat (max_total_bytes L)"
    and "sorted_wrt (<) (map sm_id (dc_metadata dc))"
    and "\<forall>m\<in>set (dc_metadata dc). sm_len m \<le> max_section_bytes L"
    and "tiles sha bytes (HEADER_LEN + DIRECTORY_ENTRY_LEN * length (dc_metadata dc))
      (dc_metadata dc) (length bytes)"
    and "dc_sections dc = map_of (map (\<lambda>m. (sm_id m, m)) (rev (dc_metadata dc)))"
    and "\<forall>i\<in>{SECTION_MANIFEST, SECTION_PROGRAM, SECTION_REQUIRED_BUILTINS}. dc_sections dc i \<noteq> None"
    and "sha (write_digest bytes (replicate 32 0)) = dc_digest dc"
    and "take 32 (drop CONTENT_HASH_OFFSET bytes) = dc_digest dc"
    and "HEADER_LEN \<le> length bytes"
proof -
  from assms obtain flags n total digest directory st where
    hdr: "decode_header sha abi bytes L = Inr (flags, n, total, digest)"
    and bound: "DIRECTORY_ENTRY_LEN * unat n < 2 ^ 64" "HEADER_LEN + DIRECTORY_ENTRY_LEN * unat n < 2 ^ 64"
    and dir: "get_range bytes HEADER_LEN (HEADER_LEN + DIRECTORY_ENTRY_LEN * unat n) = Some directory"
    and fold: "fold_res (decode_entry sha bytes L total)
           \<lparr>ds_sections = Map.empty, ds_metadata = [], ds_expected_id = None,
            ds_expected_offset = of_nat (HEADER_LEN + DIRECTORY_ENTRY_LEN * unat n)\<rparr>
           (chunks_exact DIRECTORY_ENTRY_LEN directory) = Inr st" (is "fold_res _ ?init ?chunks = _")
    and fin: "ds_expected_offset st = total"
    and req: "\<forall>i\<in>{SECTION_MANIFEST, SECTION_PROGRAM, SECTION_REQUIRED_BUILTINS}. ds_sections st i \<noteq> None"
    and dc: "dc = \<lparr>dc_bytes = bytes, dc_sections = ds_sections st, dc_metadata = ds_metadata st,
         dc_flags = flags, dc_digest = digest\<rparr>"
    unfolding decode_container_def
    by (auto simp: usize_checked_mul_def usize_checked_add_def split: if_splits)
  from hdr have h: "length bytes \<le> unat (max_total_bytes L)" "unat total = length bytes"
    "sha (write_digest bytes (replicate 32 0)) = digest" "HEADER_LEN \<le> length bytes"
    "digest = take 32 (drop CONTENT_HASH_OFFSET (take HEADER_LEN bytes))"
    unfolding decode_header_def by (auto simp: Let_def dest!: get_range_SomeD)
  have "length directory = DIRECTORY_ENTRY_LEN * unat n"
    using get_range_SomeD [OF dir] by linarith
  then have cl: "length ?chunks = unat n" by (simp add: chunks_exact_def DIRECTORY_ENTRY_LEN_def)
  from decode_entriesD [OF fold] cl have
    e: "length (ds_metadata st) = unat n"
      "ds_sections st = map_of (map (\<lambda>m. (sm_id m, m)) (rev (ds_metadata st)))"
      "sorted_wrt (<) (map sm_id (ds_metadata st))"
      "\<forall>m\<in>set (ds_metadata st). sm_len m \<le> max_section_bytes L"
      "tiles sha bytes (unat (ds_expected_offset ?init)) (ds_metadata st) (unat (ds_expected_offset st))"
    by auto
  have "unat (ds_expected_offset ?init) = HEADER_LEN + DIRECTORY_ENTRY_LEN * unat n"
    using bound(2) unat_u64_of_nat [of "HEADER_LEN + DIRECTORY_ENTRY_LEN * unat n"] by simp
  with e(5,1) fin h(2)
  show "tiles sha bytes (HEADER_LEN + DIRECTORY_ENTRY_LEN * length (dc_metadata dc))
      (dc_metadata dc) (length bytes)"
    by (simp add: dc)
  show "take 32 (drop CONTENT_HASH_OFFSET bytes) = dc_digest dc"
    using h(5) by (simp add: dc layout_defs drop_take)
  show "\<forall>i\<in>{SECTION_MANIFEST, SECTION_PROGRAM, SECTION_REQUIRED_BUILTINS}. dc_sections dc i \<noteq> None"
    using req by (simp only: dc DecodedContainer.simps)
  show "dc_bytes dc = bytes" "length bytes \<le> unat (max_total_bytes L)"
    "sorted_wrt (<) (map sm_id (dc_metadata dc))"
    "\<forall>m\<in>set (dc_metadata dc). sm_len m \<le> max_section_bytes L"
    "dc_sections dc = map_of (map (\<lambda>m. (sm_id m, m)) (rev (dc_metadata dc)))"
    "sha (write_digest bytes (replicate 32 0)) = dc_digest dc" "HEADER_LEN \<le> length bytes"
    using h e by (simp_all add: dc)
qed

section \<open>Properties\<close>

text \<open>A small container for the witnesses: three sections and a length-based digest.\<close>

lemma sample_sections_ok:
  "sections_ok default_limits
     [section_required 1 [1, 2], section_required 2 [3], section_required 5 []]"
  by (simp add: sections_ok_def section_required_def known_section_def section_defs
      default_limits_def container_len_def layout_defs)

lemma sample_container:
  "\<exists>bytes dc. decode_container (\<lambda>bs. replicate 32 (of_nat (length bs))) (replicate 32 7) bytes
     default_limits = Inr dc"
  using decode_container_encoded [OF _ _ sample_sections_ok, of "replicate 32 7"
      "\<lambda>bs. replicate 32 (of_nat (length bs))"]
  by auto

text \<open>
  C10: What \<open>encode_container\<close> writes, \<open>decode_container\<close> accepts. For sections with strictly
  increasing ids, the three required ones among them, and sizes within the limits, encoding
  succeeds with the announced length, decoding the result succeeds, \<open>required\<close> gives back
  exactly the bytes of every section, and \<open>optional\<close> reports every other id as absent.
\<close>

theorem container_round_trip:
  assumes "length abi = 32" and "\<forall>bs. length (sha bs) = 32" and "sections_ok L ss"
  shows "\<exists>bytes dc. encode_container sha abi ss = Inr bytes \<and> length bytes = container_len ss \<and>
    decode_container sha abi bytes L = Inr dc \<and> dc_flags dc = 0 \<and>
    (\<forall>s\<in>set ss. dc_required dc (sec_id s) = Inr (sec_bytes s)) \<and>
    (\<forall>i. i \<notin> sec_id ` set ss \<longrightarrow> dc_optional dc i = Inr None)"
proof -
  from decode_container_encoded [OF assms] obtain bytes dc where
    "encode_container sha abi ss = Inr bytes \<and> length bytes = container_len ss \<and>
    decode_container sha abi bytes L = Inr dc \<and> dc_flags dc = 0 \<and>
    (\<forall>s\<in>set ss. dc_required dc (sec_id s) = Inr (sec_bytes s)) \<and>
    (\<forall>i. i \<notin> sec_id ` set ss \<longrightarrow> dc_sections dc i = None)" by blast
  then show ?thesis
    by (intro exI [of _ bytes] exI [of _ dc]) (simp add: dc_optional_def)
qed

theorem container_round_trip_witness:
  "\<exists>bytes dc. encode_container (\<lambda>bs. replicate 32 (of_nat (length bs))) (replicate 32 7)
      [section_required 1 [1, 2], section_required 2 [3], section_required 5 []] = Inr bytes \<and>
    decode_container (\<lambda>bs. replicate 32 (of_nat (length bs))) (replicate 32 7) bytes default_limits = Inr dc \<and>
    dc_required dc 1 = Inr [1, 2]"
proof -
  let ?ss = "[section_required 1 [1, 2], section_required 2 [3], section_required 5 []]"
  from container_round_trip [of "replicate 32 7" "\<lambda>bs. replicate 32 (of_nat (length bs))", OF _ _ sample_sections_ok]
  obtain bytes dc where "encode_container (\<lambda>bs. replicate 32 (of_nat (length bs))) (replicate 32 7) ?ss = Inr bytes"
    "decode_container (\<lambda>bs. replicate 32 (of_nat (length bs))) (replicate 32 7) bytes default_limits = Inr dc"
    "\<forall>s\<in>set ?ss. dc_required dc (sec_id s) = Inr (sec_bytes s)" by auto
  then show ?thesis by (intro exI [of _ bytes] exI [of _ dc]) (simp add: section_required_def)
qed

text \<open>
  C11: The layout of every accepted container, hostile ones included: the bytes are kept, the
  section ids are strictly increasing, the payloads start right after the directory, follow one
  another without gap or overlap up to the last byte, lie inside the buffer, are within the size
  limit, and each has the SHA-256 its directory entry names; the three required sections exist.
\<close>

theorem accepted_container_layout:
  assumes "decode_container sha abi bytes L = Inr dc"
  shows "dc_bytes dc = bytes \<and> sorted_wrt (<) (map sm_id (dc_metadata dc)) \<and>
    concat (map (section_payload bytes) (dc_metadata dc)) =
      drop (HEADER_LEN + DIRECTORY_ENTRY_LEN * length (dc_metadata dc)) bytes \<and>
    (\<forall>m\<in>set (dc_metadata dc).
       HEADER_LEN + DIRECTORY_ENTRY_LEN * length (dc_metadata dc) \<le> unat (sm_offset m) \<and>
       unat (sm_offset m) + unat (sm_len m) \<le> length bytes \<and>
       sm_len m \<le> max_section_bytes L \<and> sha (section_payload bytes m) = sm_sha256 m) \<and>
    {SECTION_MANIFEST, SECTION_PROGRAM, SECTION_REQUIRED_BUILTINS} \<subseteq> sm_id ` set (dc_metadata dc)"
proof -
  note d = decode_containerD [OF assms]
  note b = tiles_bounds [OF d(5)]
  have "concat (map (section_payload bytes) (dc_metadata dc)) =
      drop (HEADER_LEN + DIRECTORY_ENTRY_LEN * length (dc_metadata dc)) bytes"
    using tiles_payloads [OF d(5)] b by simp
  moreover have "i \<in> sm_id ` set (dc_metadata dc)" if "dc_sections dc i \<noteq> None" for i
    using that by (auto simp: d(6) dest!: map_of_SomeD)
  then have "{SECTION_MANIFEST, SECTION_PROGRAM, SECTION_REQUIRED_BUILTINS} \<subseteq> sm_id ` set (dc_metadata dc)"
    using d(7) by blast
  ultimately show ?thesis using d b by blast
qed

theorem accepted_container_layout_witness:
  "\<exists>bytes dc. decode_container (\<lambda>bs. replicate 32 (of_nat (length bs))) (replicate 32 7) bytes
     default_limits = Inr dc \<and> sorted_wrt (<) (map sm_id (dc_metadata dc))"
  using sample_container accepted_container_layout [where L = default_limits
      and sha = "\<lambda>bs. replicate 32 (of_nat (length bs))" and abi = "replicate 32 7"]
  by blast

text \<open>
  Integrity. Two accepted containers with the same content digest are the same byte string,
  or SHA-256 has a collision on the two strings with the digest field cleared.
\<close>

theorem digest_identifies_container:
  assumes "decode_container sha abi bytes L = Inr dc" and "decode_container sha abi' bytes' L' = Inr dc'"
    and "dc_digest dc = dc_digest dc'"
  shows "bytes = bytes' \<or>
    (let z = write_digest bytes (replicate 32 0); z' = write_digest bytes' (replicate 32 0)
     in z \<noteq> z' \<and> sha z = sha z')"
proof -
  note d = decode_containerD [OF assms(1)] and d' = decode_containerD [OF assms(2)]
  have restore: "b = write_digest (write_digest b (replicate 32 0)) (take 32 (drop CONTENT_HASH_OFFSET b))"
    if "HEADER_LEN \<le> length b" for b
  proof -
    have "b = take CONTENT_HASH_OFFSET b @ take 32 (drop CONTENT_HASH_OFFSET b) @ drop CONTENT_HASH_END b"
      by (metis CONTENT_HASH_END_def append_take_drop_id drop_drop add.commute)
    moreover have "length (take CONTENT_HASH_OFFSET b) = CONTENT_HASH_OFFSET"
      using that by (simp add: layout_defs)
    ultimately show ?thesis
      by (simp add: write_digest_at) (simp add: write_digest_def CONTENT_HASH_END_def)
  qed
  show ?thesis
  proof (cases "write_digest bytes (replicate 32 0) = write_digest bytes' (replicate 32 0)")
    case True
    then show ?thesis
      using restore [OF d(10)] restore [OF d'(10)] d(9) d'(9) assms(3) by metis
  next
    case False
    then show ?thesis using d(8) d'(8) assms(3) by (simp add: Let_def)
  qed
qed

theorem digest_identifies_container_witness:
  "\<exists>bytes dc. decode_container (\<lambda>bs. replicate 32 (of_nat (length bs))) (replicate 32 7) bytes
      default_limits = Inr dc \<and>
    (bytes = bytes \<or>
     (let z = write_digest bytes (replicate 32 0) in z \<noteq> z \<and>
        replicate 32 (of_nat (length z) :: u8) = replicate 32 (of_nat (length z))))"
proof -
  obtain bytes dc where d: "decode_container (\<lambda>bs. replicate 32 (of_nat (length bs))) (replicate 32 7) bytes
      default_limits = Inr dc" using sample_container by blast
  show ?thesis
    using digest_identifies_container [OF d d refl] d unfolding Let_def by blast
qed

end
