(* ===== verification/Dfs.thy ===== *)
theory Dfs
  imports Main
begin

text \<open>
  Depth-first search as a step relation. A state is the stack of blocks with the number of
  successors already looked at, the visited set, the blocks finished so far in order, and the
  edges found to lead back onto the stack. The searches of the sources refine this relation;
  their correctness is its invariant, proved by rule induction over the reachable states.
\<close>

type_synonym 'n dfs_state = "('n \<times> nat) list \<times> 'n set \<times> 'n list \<times> ('n \<times> 'n) set"

inductive dfs_step :: "('n \<Rightarrow> 'n list) \<Rightarrow> 'n dfs_state \<Rightarrow> 'n dfs_state \<Rightarrow> bool"
  for succ :: "'n \<Rightarrow> 'n list" where
  visit: "c < length (succ b) \<Longrightarrow> succ b ! c \<notin> V \<Longrightarrow>
    dfs_step succ ((b, c) # st, V, P, B)
      ((succ b ! c, 0) # (b, Suc c) # st, insert (succ b ! c) V, P, B)"
| retreat: "c < length (succ b) \<Longrightarrow> succ b ! c \<in> fst ` set ((b, c) # st) \<Longrightarrow>
    dfs_step succ ((b, c) # st, V, P, B) ((b, Suc c) # st, V, P, insert (b, succ b ! c) B)"
| skip: "c < length (succ b) \<Longrightarrow> succ b ! c \<in> V \<Longrightarrow> succ b ! c \<notin> fst ` set ((b, c) # st) \<Longrightarrow>
    dfs_step succ ((b, c) # st, V, P, B) ((b, Suc c) # st, V, P, B)"
| finish: "length (succ b) \<le> c \<Longrightarrow>
    dfs_step succ ((b, c) # st, V, P, B) (st, V, P @ [b], B)"

inductive_cases dfs_step_Nil: "dfs_step succ ([], V, P, B) s"

abbreviation dfs_run :: "('n \<Rightarrow> 'n list) \<Rightarrow> 'n dfs_state \<Rightarrow> 'n dfs_state \<Rightarrow> bool" where
  "dfs_run succ \<equiv> (dfs_step succ)\<^sup>*\<^sup>*"

definition edges :: "('n \<Rightarrow> 'n list) \<Rightarrow> ('n \<times> 'n) set" where
  "edges succ = {(a, b). b \<in> set (succ a)}"

definition dfs_start :: "'n \<Rightarrow> 'n dfs_state" where
  "dfs_start r = ([(r, 0)], {r}, [], {})"

section \<open>The invariant\<close>

text \<open>
  \<open>linked succ P B upper st\<close>, where \<open>upper\<close> is the entry above \<open>st\<close>: every stack entry has looked at some successors, each of which
  leads back, is finished, or is the entry right above it; and the entry above is one of them.
\<close>

fun linked :: "('n \<Rightarrow> 'n list) \<Rightarrow> 'n list \<Rightarrow> ('n \<times> 'n) set \<Rightarrow> 'n option \<Rightarrow> ('n \<times> nat) list \<Rightarrow> bool" where
  "linked succ P B upper [] \<longleftrightarrow> True"
| "linked succ P B upper ((b, c) # st) \<longleftrightarrow>
     c \<le> length (succ b) \<and>
     (\<forall>t\<in>set (take c (succ b)). (b, t) \<in> B \<or> t \<in> set P \<or> upper = Some t) \<and>
     (\<forall>a. upper = Some a \<longrightarrow> a \<in> set (take c (succ b))) \<and>
     linked succ P B (Some b) st"

definition post_ok :: "('n \<Rightarrow> 'n list) \<Rightarrow> 'n \<Rightarrow> ('n \<times> 'n) set \<Rightarrow> 'n list \<Rightarrow> 'n set \<Rightarrow> bool" where
  "post_ok succ r B P open_nodes \<longleftrightarrow>
     (\<forall>P1 b P2. P = P1 @ b # P2 \<longrightarrow>
        (\<forall>t\<in>set (succ b). (b, t) \<in> B \<or> t \<in> set P1) \<and>
        (b = r \<or> (\<exists>u\<in>set P2 \<union> open_nodes. b \<in> set (succ u))))"

fun dfs_inv :: "('n \<Rightarrow> 'n list) \<Rightarrow> 'n \<Rightarrow> 'n dfs_state \<Rightarrow> bool" where
  "dfs_inv succ r (st, V, P, B) \<longleftrightarrow>
     distinct (map fst st @ P) \<and> V = fst ` set st \<union> set P \<and> r \<in> V \<and>
     (\<forall>v\<in>V. (r, v) \<in> (edges succ)\<^sup>*) \<and>
     (st \<noteq> [] \<longrightarrow> fst (last st) = r) \<and>
     linked succ P B None st \<and> post_ok succ r B P (fst ` set st) \<and>
     (\<forall>(u, v)\<in>B. u \<in> V \<and> v \<in> set (succ u) \<and> v \<in> V \<and> (v, u) \<in> (edges succ)\<^sup>*)"

lemma dfs_invD:
  assumes "dfs_inv succ r (st, V, P, B)"
  shows "distinct (map fst st @ P)" and "V = fst ` set st \<union> set P" and "r \<in> V"
    and "\<forall>v\<in>V. (r, v) \<in> (edges succ)\<^sup>*" and "st \<noteq> [] \<longrightarrow> fst (last st) = r"
    and "linked succ P B None st" and "post_ok succ r B P (fst ` set st)"
    and "\<forall>(u, v)\<in>B. u \<in> V \<and> v \<in> set (succ u) \<and> v \<in> V \<and> (v, u) \<in> (edges succ)\<^sup>*"
  using assms unfolding dfs_inv.simps by - (elim conjE, assumption)+

lemma linked_mono:
  "linked succ P B upper st \<Longrightarrow> set P \<subseteq> set P' \<Longrightarrow> B \<subseteq> B' \<Longrightarrow> linked succ P' B' upper st"
  by (induction succ P B upper st rule: linked.induct) auto

lemma linked_pop: "linked succ P B (Some b) st \<Longrightarrow> linked succ (P @ [b]) B None st"
proof (induction succ P B "Some b" st rule: linked.induct)
  case (2 succ P B u k st)
  then have "linked succ (P @ [b]) B (Some u) st" using linked_mono [of succ P B "Some u" st "P @ [b]" B] by (simp add: subset_insertI)
  with 2 show ?case by auto
qed simp

lemma linked_reach:
  "linked succ P B upper ((b, c) # st) \<Longrightarrow> x \<in> fst ` set ((b, c) # st) \<Longrightarrow> (x, b) \<in> (edges succ)\<^sup>*"
proof (induction st arbitrary: upper b c)
  case (Cons e st)
  obtain b' c' where e: "e = (b', c')" by (cases e)
  then have l: "linked succ P B (Some b) ((b', c') # st)" using Cons.prems(1) by simp
  show ?case
  proof (cases "x = b")
    case False
    then have "x \<in> fst ` set ((b', c') # st)" using Cons.prems(2) e by auto
    with l have "(x, b') \<in> (edges succ)\<^sup>*" by (rule Cons.IH)
    moreover have "(b', b) \<in> edges succ" using l by (simp add: edges_def) (metis in_set_takeD)
    ultimately show ?thesis by (rule rtrancl_into_rtrancl)
  qed simp
qed simp

lemma post_ok_snoc:
  assumes "post_ok succ r B P (insert b open_nodes)"
    and "\<forall>t\<in>set (succ b). (b, t) \<in> B \<or> t \<in> set P"
    and "b = r \<or> (\<exists>u\<in>open_nodes. b \<in> set (succ u))"
  shows "post_ok succ r B (P @ [b]) open_nodes"
  unfolding post_ok_def
proof (intro allI impI)
  fix P1 x P2
  assume eq: "P @ [b] = P1 @ x # P2"
  show "(\<forall>t\<in>set (succ x). (x, t) \<in> B \<or> t \<in> set P1) \<and>
      (x = r \<or> (\<exists>u\<in>set P2 \<union> open_nodes. x \<in> set (succ u)))"
  proof (cases P2 rule: rev_cases)
    case Nil
    with eq assms(2,3) show ?thesis by simp
  next
    case (snoc Q y)
    with eq have "P = P1 @ x # Q" "y = b" by simp_all
    with assms(1) snoc show ?thesis unfolding post_ok_def by fastforce
  qed
qed

lemma post_ok_mono: "post_ok succ r B P S \<Longrightarrow> B \<subseteq> B' \<Longrightarrow> S \<subseteq> S' \<Longrightarrow> post_ok succ r B' P S'"
  unfolding post_ok_def by blast

lemma dfs_inv_start: "dfs_inv succ r (dfs_start r)"
  by (simp add: dfs_start_def post_ok_def)

lemma dfs_inv_step: "dfs_step succ s s' \<Longrightarrow> dfs_inv succ r s \<Longrightarrow> dfs_inv succ r s'"
proof (induction rule: dfs_step.induct)
  case (visit c b V st P B)
  let ?t = "succ b ! c"
  note inv = dfs_invD [OF visit.prems]
  have "(b, ?t) \<in> edges succ" using visit.hyps(1) by (simp add: edges_def)
  then have reach: "(r, ?t) \<in> (edges succ)\<^sup>*" using inv(2,4) by (auto intro: rtrancl_into_rtrancl)
  have "linked succ P B None ((?t, 0) # (b, Suc c) # st)"
    using inv(6) visit.hyps(1) by (auto simp: take_Suc_conv_app_nth)
  moreover have "post_ok succ r B P (fst ` set ((?t, 0) # (b, Suc c) # st))"
    by (rule post_ok_mono [OF inv(7)]) auto
  moreover have "distinct (map fst ((?t, 0) # (b, Suc c) # st) @ P)"
    using inv(1,2) visit.hyps(2) by auto
  ultimately show ?case using inv(2-5,8) reach by auto
next
  case (retreat c b st V P B)
  let ?t = "succ b ! c"
  note inv = dfs_invD [OF retreat.prems]
  have "(?t, b) \<in> (edges succ)\<^sup>*" using linked_reach [OF inv(6)] retreat.hyps(2) by blast
  moreover have "linked succ P (insert (b, ?t) B) (Some b) st"
    using inv(6) by (auto intro: linked_mono)
  then have "linked succ P (insert (b, ?t) B) None ((b, Suc c) # st)"
    using inv(6) retreat.hyps(1) by (auto simp: take_Suc_conv_app_nth)
  moreover have "post_ok succ r (insert (b, ?t) B) P (fst ` set ((b, Suc c) # st))"
    by (rule post_ok_mono [OF inv(7)]) auto
  ultimately show ?case using inv retreat.hyps by (auto split: if_splits)
next
  case (skip c b V st P B)
  then show ?case by (auto simp: take_Suc_conv_app_nth split: if_splits)
next
  case (finish b c st V P B)
  note inv = dfs_invD [OF finish.prems]
  have "linked succ (P @ [b]) B None st" using inv(6) by (auto intro: linked_pop)
  moreover have "post_ok succ r B (P @ [b]) (fst ` set st)"
  proof (rule post_ok_snoc)
    show "post_ok succ r B P (insert b (fst ` set st))" using inv(7) by simp
    show "\<forall>t\<in>set (succ b). (b, t) \<in> B \<or> t \<in> set P" using inv(6) finish.hyps by auto
    show "b = r \<or> (\<exists>u\<in>fst ` set st. b \<in> set (succ u))"
    proof (cases st)
      case (Cons e st')
      obtain u k where e: "e = (u, k)" by (cases e)
      then have "b \<in> set (succ u)" using inv(6) Cons by (auto dest: in_set_takeD)
      then show ?thesis using Cons e by force
    qed (use inv(5) in simp)
  qed
  moreover have "st \<noteq> [] \<longrightarrow> fst (last st) = r" using inv(5) by (cases st) simp_all
  ultimately show ?case using inv(1-4,8) by auto
qed

lemma dfs_inv_run: "dfs_run succ s s' \<Longrightarrow> dfs_inv succ r s \<Longrightarrow> dfs_inv succ r s'"
  by (induction rule: rtranclp_induct) (auto intro: dfs_inv_step)

section \<open>What a finished search has found\<close>

lemma dfs_final:
  assumes "dfs_run succ (dfs_start r) ([], V, P, B)"
  shows "distinct P" and "set P = V" and "V = {v. (r, v) \<in> (edges succ)\<^sup>*}"
    and "\<forall>P1 b P2. P = P1 @ b # P2 \<longrightarrow> (\<forall>t\<in>set (succ b). (b, t) \<in> B \<or> t \<in> set P1)"
    and "\<forall>P1 b P2. P = P1 @ b # P2 \<longrightarrow> b = r \<or> (\<exists>u\<in>set P2. b \<in> set (succ u))"
    and "\<forall>(u, v)\<in>B. u \<in> V \<and> v \<in> set (succ u) \<and> (v, u) \<in> (edges succ)\<^sup>*"
proof -
  note i = dfs_invD [OF dfs_inv_run [OF assms dfs_inv_start]]
  have inv: "distinct P" "V = set P" "r \<in> V" "\<forall>v\<in>V. (r, v) \<in> (edges succ)\<^sup>*"
    "post_ok succ r B P {}"
    "\<forall>(u, v)\<in>B. u \<in> V \<and> v \<in> set (succ u) \<and> v \<in> V \<and> (v, u) \<in> (edges succ)\<^sup>*"
    using i(1,2,7) i(3,4,8) by simp_all
  show "distinct P" "set P = V" using inv(1,2) by simp_all
  show post: "\<forall>P1 b P2. P = P1 @ b # P2 \<longrightarrow> (\<forall>t\<in>set (succ b). (b, t) \<in> B \<or> t \<in> set P1)"
    and "\<forall>P1 b P2. P = P1 @ b # P2 \<longrightarrow> b = r \<or> (\<exists>u\<in>set P2. b \<in> set (succ u))"
    using inv(5) unfolding post_ok_def by auto
  show "\<forall>(u, v)\<in>B. u \<in> V \<and> v \<in> set (succ u) \<and> (v, u) \<in> (edges succ)\<^sup>*" using inv(6) by blast
  have closed: "t \<in> V" if "b \<in> V" "t \<in> set (succ b)" for b t
  proof -
    obtain P1 P2 where "P = P1 @ b # P2" using \<open>b \<in> V\<close> inv(2) by (metis split_list)
    with post that(2) have "(b, t) \<in> B \<or> t \<in> set P1" by blast
    then show ?thesis using inv(2,6) \<open>P = P1 @ b # P2\<close> by auto
  qed
  have "v \<in> V" if "(r, v) \<in> (edges succ)\<^sup>*" for v
    using that inv(3) closed by (induction rule: rtrancl_induct) (auto simp: edges_def)
  with inv(4) show "V = {v. (r, v) \<in> (edges succ)\<^sup>*}" by blast
qed

text \<open>
  Without the edges that lead back, the visited part of the graph has no cycle: on a cycle, the
  first node to finish has an edge to a node that had not finished before it.
\<close>

lemma back_edges_break_cycles:
  assumes "\<forall>P1 b P2. P = P1 @ b # P2 \<longrightarrow> (\<forall>t\<in>set (succ b). (b, t) \<in> B \<or> t \<in> set P1)"
  shows "acyclic {(a, b). a \<in> set P \<and> (a, b) \<in> edges succ \<and> (a, b) \<notin> B}" (is "acyclic ?E")
proof (rule acyclicI, intro allI notI)
  fix v assume cycle: "(v, v) \<in> ?E\<^sup>+"
  let ?C = "\<lambda>x. (v, x) \<in> ?E\<^sup>* \<and> (x, v) \<in> ?E\<^sup>*"
  have "v \<in> set P" using tranclD [OF cycle] by auto
  then have "\<exists>x\<in>set P. ?C x" by auto
  then obtain P1 b P2 where P: "P = P1 @ b # P2" "?C b" "\<forall>y\<in>set P1. \<not> ?C y"
    using split_list_first_prop [of P ?C] by blast
  have "(b, v) \<in> ?E\<^sup>+"
    by (rule rtrancl_trancl_trancl [OF _ cycle]) (use P(2) in simp)
  then obtain t where t: "(b, t) \<in> ?E" "(t, v) \<in> ?E\<^sup>*"
    by (meson tranclD)
  then have "?C t" using P(2) by (meson rtrancl_into_rtrancl)
  then have "t \<notin> set P1" using P(3) by blast
  then show False using assms P(1) t(1) by (auto simp: edges_def)
qed

end
