(* ===== verification/Cfg.thy ===== *)
theory Cfg
  imports IR Dfs
begin

text \<open>
  The control flow graph of a function (\<open>wjsm-ir/src/cfg.rs\<close>): successors and predecessors,
  reachability and reverse post order by an explicit-stack depth-first search, back edges,
  immediate dominators, dominance frontiers and dominator sets.

  Blocks are named by their index. A loop of the sources that indexes a vector returns
  \<open>None\<close> where the source would panic. The two depth-first searches are simulated by one
  step relation, on which their invariant is proved by rule induction.
\<close>

section \<open>Successors\<close>

definition push_successor :: "BasicBlockId \<Rightarrow> BasicBlockId list \<Rightarrow> BasicBlockId list" where
  "push_successor target successors =
     (if target \<in> set successors then successors else successors @ [target])"

fun terminator_successors :: "Terminator \<Rightarrow> BasicBlockId list" where
  "terminator_successors (Return _) = []"
| "terminator_successors (Throw _) = []"
| "terminator_successors Unreachable = []"
| "terminator_successors (Deopt _) = []"
| "terminator_successors (Jump target) = push_successor target []"
| "terminator_successors (Branch _ true_block false_block) =
     push_successor false_block (push_successor true_block [])"
| "terminator_successors (Switch _ cases default_block exit_block) =
     push_successor exit_block (push_successor default_block
       (fold push_successor (map case_target cases) []))"

section \<open>Depth-first search\<close>

type_synonym bool_table = "bool list"
type_synonym dfs_stack = "(BasicBlockId \<times> nat) list"

text \<open>Indexing that panics out of range, and the assignment \<open>table[index] = value\<close>.\<close>

definition set_at :: "'a list \<Rightarrow> nat \<Rightarrow> 'a \<Rightarrow> 'a list option" where
  "set_at xs i x = (if i < length xs then Some (xs[i := x]) else None)"

definition unvisited :: "bool_table \<Rightarrow> nat" where
  "unvisited table = length (filter Not table)"

definition pending :: "BasicBlockId list list \<Rightarrow> dfs_stack \<Rightarrow> nat" where
  \<comment> \<open>the work left on the stack: the edges not yet looked at, and one pop per entry\<close>
  "pending succs stack =
     sum_list (map (\<lambda>(b, c). (if bix b < length succs then length (succs ! bix b) else 0) - c + 1) stack)"

lemma unvisited_less:
  "i < length table \<Longrightarrow> \<not> table ! i \<Longrightarrow> unvisited (table[i := True]) < unvisited table"
proof (induction table arbitrary: i)
  case (Cons b table)
  then show ?case by (cases i) (auto simp: unvisited_def)
qed simp

lemma set_at_Some_iff: "set_at xs i x = Some ys \<longleftrightarrow> i < length xs \<and> ys = xs[i := x]"
  by (auto simp: set_at_def)

function depth_first_loop ::
  "BasicBlockId list list \<Rightarrow> dfs_stack \<Rightarrow> bool_table \<Rightarrow> BasicBlockId list \<Rightarrow>
   (bool_table \<times> BasicBlockId list) option" where
  "depth_first_loop succs [] reachable post_order = Some (reachable, post_order)"
| "depth_first_loop succs ((block, cursor) # stack) reachable post_order =
     (case get_at succs (bix block) of
        None \<Rightarrow> None
      | Some targets \<Rightarrow>
          if cursor < length targets then
            (let next = targets ! cursor in
             case get_at reachable (bix next) of
               None \<Rightarrow> None
             | Some True \<Rightarrow> depth_first_loop succs ((block, cursor + 1) # stack) reachable post_order
             | Some False \<Rightarrow>
                 depth_first_loop succs ((next, 0) # (block, cursor + 1) # stack)
                   (reachable[bix next := True]) post_order)
          else depth_first_loop succs stack reachable (post_order @ [block]))"
  by pat_completeness auto
termination
  by (relation "measures [\<lambda>(succs, stack, reachable, post). unvisited reachable,
        \<lambda>(succs, stack, reachable, post). pending succs stack]")
     (auto simp: get_at_Some_iff unvisited_less pending_def)

definition depth_first_post_order ::
  "BasicBlockId \<Rightarrow> BasicBlockId list list \<Rightarrow> bool_table \<Rightarrow> BasicBlockId list \<Rightarrow>
   (bool_table \<times> BasicBlockId list) option" where
  "depth_first_post_order entry succs reachable post_order =
     (if bix entry \<ge> length reachable then Some (reachable, post_order)
      else depth_first_loop succs [(entry, 0)] (reachable[bix entry := True]) post_order)"

section \<open>The graph\<close>

record ControlFlowGraph =
  cfg_entry :: BasicBlockId
  cfg_successors :: "BasicBlockId list list"
  cfg_predecessors :: "BasicBlockId list list"
  cfg_reachable :: bool_table
  cfg_reverse_post_order :: "BasicBlockId list"
  cfg_order_index :: "nat option list"

definition push_at :: "nat \<Rightarrow> 'a \<Rightarrow> 'a list list \<Rightarrow> 'a list list" where
  \<comment> \<open>\<open>table[index].push(x)\<close>\<close>
  "push_at i x table = table[i := table ! i @ [x]]"

definition block_at :: "nat \<Rightarrow> BasicBlockId" where
  "block_at index = BasicBlockId (of_nat index)"

definition successor_table :: "Function \<Rightarrow> BasicBlockId list list" where
  "successor_table fn =
     map (\<lambda>b. filter (\<lambda>t. bix t < length (fn_blocks fn)) (terminator_successors (blk_terminator b)))
       (fn_blocks fn)"

definition predecessor_table :: "BasicBlockId list list \<Rightarrow> BasicBlockId list list" where
  "predecessor_table succs =
     fold (\<lambda>(i, targets) preds. fold (\<lambda>t preds. push_at (bix t) (block_at i) preds) targets preds)
       (enumerate 0 succs) (replicate (length succs) [])"

definition order_index_table :: "nat \<Rightarrow> BasicBlockId list \<Rightarrow> nat option list" where
  \<comment> \<open>\<open>usize::MAX\<close>, the mark of an unreachable block, is \<open>None\<close>\<close>
  "order_index_table count rpo =
     fold (\<lambda>(position, b) table. table[bix b := Some position]) (enumerate 0 rpo) (replicate count None)"

fun order_gt :: "nat option \<Rightarrow> nat option \<Rightarrow> bool" where
  \<comment> \<open>the comparison of two positions, the mark being the largest\<close>
  "order_gt None y \<longleftrightarrow> y \<noteq> None"
| "order_gt (Some x) (Some y) \<longleftrightarrow> x > y"
| "order_gt (Some x) None \<longleftrightarrow> False"

definition cfg_build :: "Function \<Rightarrow> ControlFlowGraph option" where
  "cfg_build fn =
     (let count = length (fn_blocks fn);
          successors = successor_table fn;
          predecessors = predecessor_table successors;
          reachable = replicate count False
      in case (if count > 0 then depth_first_post_order (fn_entry fn) successors reachable []
               else Some (reachable, [])) of
           None \<Rightarrow> None
         | Some (reachable, post_order) \<Rightarrow>
             (let rpo = rev post_order
              in Some \<lparr>cfg_entry = fn_entry fn, cfg_successors = successors,
                       cfg_predecessors = predecessors, cfg_reachable = reachable,
                       cfg_reverse_post_order = rpo,
                       cfg_order_index = order_index_table count rpo\<rparr>))"

definition block_count :: "ControlFlowGraph \<Rightarrow> nat" where
  "block_count g = length (cfg_successors g)"

definition successors :: "ControlFlowGraph \<Rightarrow> BasicBlockId \<Rightarrow> BasicBlockId list" where
  "successors g b = (case get_at (cfg_successors g) (bix b) of None \<Rightarrow> [] | Some ts \<Rightarrow> ts)"

definition predecessors :: "ControlFlowGraph \<Rightarrow> BasicBlockId \<Rightarrow> BasicBlockId list" where
  "predecessors g b = (case get_at (cfg_predecessors g) (bix b) of None \<Rightarrow> [] | Some ts \<Rightarrow> ts)"

definition cfg_is_reachable :: "ControlFlowGraph \<Rightarrow> BasicBlockId \<Rightarrow> bool" where
  "cfg_is_reachable g b = (case get_at (cfg_reachable g) (bix b) of None \<Rightarrow> False | Some r \<Rightarrow> r)"

section \<open>Back edges\<close>

function back_edge_loop ::
  "ControlFlowGraph \<Rightarrow> dfs_stack \<Rightarrow> bool_table \<Rightarrow> bool_table \<Rightarrow> (BasicBlockId \<times> BasicBlockId) set \<Rightarrow>
   (BasicBlockId \<times> BasicBlockId) set option" where
  "back_edge_loop g [] visited on_stack back_edges = Some back_edges"
| "back_edge_loop g ((block, cursor) # stack) visited on_stack back_edges =
     (let targets = successors g block in
      if cursor < length targets then
        (let next = targets ! cursor; stack' = (block, cursor + 1) # stack in
         case (get_at on_stack (bix next), get_at visited (bix next)) of
           (Some True, _) \<Rightarrow> back_edge_loop g stack' visited on_stack (insert (block, next) back_edges)
         | (Some False, Some False) \<Rightarrow>
             back_edge_loop g ((next, 0) # stack') (visited[bix next := True])
               (on_stack[bix next := True]) back_edges
         | (Some False, Some True) \<Rightarrow> back_edge_loop g stack' visited on_stack back_edges
         | _ \<Rightarrow> None)
      else
        (case set_at on_stack (bix block) False of
           None \<Rightarrow> None
         | Some on_stack' \<Rightarrow> back_edge_loop g stack visited on_stack' back_edges))"
  by pat_completeness auto
termination
  by (relation "measures [\<lambda>(g, stack, visited, on_stack, back). unvisited visited,
        \<lambda>(g, stack, visited, on_stack, back). pending (cfg_successors g) stack]")
     (auto simp: get_at_Some_iff unvisited_less pending_def successors_def get_at_def split: if_splits)

definition dfs_back_edges :: "ControlFlowGraph \<Rightarrow> (BasicBlockId \<times> BasicBlockId) set option" where
  "dfs_back_edges g =
     (let count = block_count g; entry = cfg_entry g in
      if count = 0 \<or> bix entry \<ge> count then Some {}
      else back_edge_loop g [(entry, 0)] ((replicate count False)[bix entry := True])
             ((replicate count False)[bix entry := True]) {})"

section \<open>Immediate dominators\<close>

text \<open>
  The \<open>while\<close> loops below are iterations to a fixed point or along a chain; they are partial
  functions: not terminating is \<open>None\<close>, like a panic.
\<close>

type_synonym idom_table = "BasicBlockId option list"

datatype 'a climb_result = Reached 'a | Stuck

partial_function (option) climb ::
  "nat option list \<Rightarrow> idom_table \<Rightarrow> BasicBlockId \<Rightarrow> nat option \<Rightarrow> BasicBlockId climb_result option" where
  \<comment> \<open>one of the two inner loops of \<open>intersect\<close>; \<open>Stuck\<close> is its early return\<close>
  "climb order idom x bound =
     (case get_at order (bix x) of
        None \<Rightarrow> None
      | Some ox \<Rightarrow>
          if order_gt ox bound then
            (case get_at idom (bix x) of
               None \<Rightarrow> None
             | Some None \<Rightarrow> Some Stuck
             | Some (Some next) \<Rightarrow> if next \<noteq> x then climb order idom next bound else Some Stuck)
          else Some (Reached x))"

declare climb.simps [code]

partial_function (option) cfg_intersect ::
  "nat option list \<Rightarrow> idom_table \<Rightarrow> BasicBlockId \<Rightarrow> BasicBlockId \<Rightarrow> BasicBlockId option" where
  "cfg_intersect order idom left right =
     (if left = right then Some left
      else case get_at order (bix right) of
        None \<Rightarrow> None
      | Some bound \<Rightarrow>
          (case climb order idom left bound of
             None \<Rightarrow> None
           | Some Stuck \<Rightarrow> Some right
           | Some (Reached left') \<Rightarrow>
               (case get_at order (bix left') of
                  None \<Rightarrow> None
                | Some bound' \<Rightarrow>
                    (case climb order idom right bound' of
                       None \<Rightarrow> None
                     | Some Stuck \<Rightarrow> Some left'
                     | Some (Reached right') \<Rightarrow> cfg_intersect order idom left' right'))))"

declare cfg_intersect.simps [code]

fun fold_option :: "('s \<Rightarrow> 'a \<Rightarrow> 's option) \<Rightarrow> 's \<Rightarrow> 'a list \<Rightarrow> 's option" where
  "fold_option f s [] = Some s"
| "fold_option f s (x # xs) = (case f s x of None \<Rightarrow> None | Some s' \<Rightarrow> fold_option f s' xs)"

definition new_idom :: "ControlFlowGraph \<Rightarrow> idom_table \<Rightarrow> BasicBlockId \<Rightarrow> BasicBlockId option option" where
  \<comment> \<open>the loop over the predecessors of \<open>block\<close>\<close>
  "new_idom g idom block =
     fold_option (\<lambda>acc p.
       case get_at idom (bix p) of
         None \<Rightarrow> None
       | Some None \<Rightarrow> Some acc
       | Some (Some _) \<Rightarrow>
           (case acc of
              None \<Rightarrow> Some (Some p)
            | Some current \<Rightarrow> map_option Some (cfg_intersect (cfg_order_index g) idom p current)))
       None (predecessors g block)"

definition idom_round :: "ControlFlowGraph \<Rightarrow> idom_table \<Rightarrow> (idom_table \<times> bool) option" where
  \<comment> \<open>one pass of the \<open>while changed\<close> loop, with its \<open>changed\<close> flag\<close>
  "idom_round g idom =
     fold_option (\<lambda>(idom, changed) block.
       if block = cfg_entry g then Some (idom, changed)
       else case new_idom g idom block of
         None \<Rightarrow> None
       | Some new \<Rightarrow>
           (case get_at idom (bix block) of
              None \<Rightarrow> None
            | Some old \<Rightarrow>
                if new \<noteq> None \<and> old \<noteq> new then Some (idom[bix block := new], True)
                else Some (idom, changed)))
       (idom, False) (cfg_reverse_post_order g)"

partial_function (option) idom_loop :: "ControlFlowGraph \<Rightarrow> idom_table \<Rightarrow> idom_table option" where
  "idom_loop g idom =
     (case idom_round g idom of
        None \<Rightarrow> None
      | Some (idom', changed) \<Rightarrow> if changed then idom_loop g idom' else Some idom')"

declare idom_loop.simps [code]

definition immediate_dominators :: "ControlFlowGraph \<Rightarrow> idom_table option" where
  "immediate_dominators g =
     (let count = block_count g; idom = replicate count None; entry = cfg_entry g in
      if count = 0 \<or> \<not> cfg_is_reachable g entry then Some idom
      else map_option (\<lambda>idom. idom[bix entry := None])
             (idom_loop g (idom[bix entry := Some entry])))"

section \<open>What is derived from the immediate dominators\<close>

partial_function (option) run_frontier ::
  "ControlFlowGraph \<Rightarrow> idom_table \<Rightarrow> BasicBlockId \<Rightarrow> BasicBlockId \<Rightarrow> BasicBlockId list list \<Rightarrow>
   BasicBlockId list list option" where
  \<comment> \<open>the \<open>while\<close> loop of \<open>dominance_frontiers\<close> for one predecessor\<close>
  "run_frontier g idom block runner frontiers =
     (case get_at idom (bix block) of
        None \<Rightarrow> None
      | Some stop \<Rightarrow>
          if Some runner = stop \<or> \<not> cfg_is_reachable g runner then Some frontiers
          else case (get_at frontiers (bix runner), get_at idom (bix runner)) of
            (Some frontier, Some up) \<Rightarrow>
              (let frontiers' = (if block \<in> set frontier then frontiers
                                 else frontiers[bix runner := frontier @ [block]])
               in case up of
                    None \<Rightarrow> Some frontiers'
                  | Some next \<Rightarrow> run_frontier g idom block next frontiers')
          | _ \<Rightarrow> None)"

declare run_frontier.simps [code]

definition dominance_frontiers :: "ControlFlowGraph \<Rightarrow> idom_table \<Rightarrow> BasicBlockId list list option" where
  "dominance_frontiers g idom =
     fold_option (\<lambda>frontiers block.
       if length (predecessors g block) < 2 then Some frontiers
       else fold_option (\<lambda>frontiers p. run_frontier g idom block p frontiers) frontiers
              (predecessors g block))
       (replicate (block_count g) []) (cfg_reverse_post_order g)"

definition dominator_tree_children :: "ControlFlowGraph \<Rightarrow> idom_table \<Rightarrow> BasicBlockId list list" where
  "dominator_tree_children g idom =
     map (sort_key bid)
       (fold (\<lambda>(index, parent) children.
          case parent of None \<Rightarrow> children | Some p \<Rightarrow> push_at (bix p) (block_at index) children)
          (enumerate 0 idom) (replicate (block_count g) []))"

partial_function (option) idom_chain ::
  "idom_table \<Rightarrow> BasicBlockId option \<Rightarrow> BasicBlockId set \<Rightarrow> BasicBlockId set option" where
  "idom_chain idom cur acc =
     (case cur of
        None \<Rightarrow> Some acc
      | Some parent \<Rightarrow>
          if parent \<in> acc then Some acc
          else (case get_at idom (bix parent) of
                  None \<Rightarrow> None
                | Some up \<Rightarrow> idom_chain idom up (insert parent acc)))"

declare idom_chain.simps [code]

definition dominator_sets :: "ControlFlowGraph \<Rightarrow> (BasicBlockId \<rightharpoonup> BasicBlockId set) option" where
  "dominator_sets g =
     (case immediate_dominators g of
        None \<Rightarrow> None
      | Some idom \<Rightarrow>
          fold_option (\<lambda>sets index.
            let block = block_at index in
            if cfg_is_reachable g block then
              (case get_at idom index of
                 None \<Rightarrow> None
               | Some cur \<Rightarrow> map_option (\<lambda>s. sets(block \<mapsto> s)) (idom_chain idom cur {block}))
            else Some (sets(block \<mapsto> {block})))
            Map.empty [0..<block_count g])"

section \<open>The searches refine the step relation\<close>

definition succ_of :: "BasicBlockId list list \<Rightarrow> BasicBlockId \<Rightarrow> BasicBlockId list" where
  "succ_of succs b = (case get_at succs (bix b) of None \<Rightarrow> [] | Some ts \<Rightarrow> ts)"

definition marked :: "bool_table \<Rightarrow> BasicBlockId set" where
  "marked table = {b. get_at table (bix b) = Some True}"

definition closed_table :: "BasicBlockId list list \<Rightarrow> bool" where
  "closed_table succs \<longleftrightarrow> (\<forall>ts\<in>set succs. \<forall>t\<in>set ts. bix t < length succs)"

lemma bix_inj: "bix a = bix b \<longleftrightarrow> a = b"
  by (cases a; cases b) (simp add: bix_def unsigned_word_eqI word_unat_eq_iff)

lemma get_at_list_update:
  "get_at (xs[i := x]) j = (if j = i \<and> i < length xs then Some x else get_at xs j)"
  by (auto simp: get_at_def)

lemma marked_set: "bix b < length table \<Longrightarrow> marked (table[bix b := True]) = insert b (marked table)"
  by (auto simp: marked_def get_at_list_update bix_inj)

lemma marked_clear: "marked (table[bix b := False]) = marked table - {b}"
  by (auto simp: marked_def get_at_list_update bix_inj) (auto simp: get_at_def)

lemma marked_none [simp]: "marked (replicate n False) = {}"
  by (auto simp: marked_def get_at_def)

lemma depth_first_loop_run:
  "depth_first_loop succs st R P = Some (R', P') \<Longrightarrow>
     \<exists>B'. dfs_run (succ_of succs) (st, marked R, P, B) ([], marked R', P', B')"
proof (induction succs st R P arbitrary: B rule: depth_first_loop.induct)
  case (1 succs R P)
  then show ?case by auto
next
  case (2 succs b c st R P)
  from "2.prems" obtain ts where ts: "get_at succs (bix b) = Some ts"
    by (auto split: option.splits)
  then have succ: "succ_of succs b = ts" by (simp add: succ_of_def)
  show ?case
  proof (cases "c < length ts")
    case False
    then have "depth_first_loop succs st R (P @ [b]) = Some (R', P')" using "2.prems" ts by simp
    then obtain B' where "dfs_run (succ_of succs) (st, marked R, P @ [b], B) ([], marked R', P', B')"
      using "2.IH"(3) [OF ts False] by blast
    moreover have "dfs_step (succ_of succs) ((b, c) # st, marked R, P, B) (st, marked R, P @ [b], B)"
      using False succ by (intro dfs_step.finish) simp
    ultimately show ?thesis by (meson converse_rtranclp_into_rtranclp)
  next
    case True
    from "2.prems" ts True obtain r where r: "get_at R (bix (ts ! c)) = Some r"
      by (auto simp: Let_def split: option.splits)
    have lt: "c < length (succ_of succs b)" using True succ by simp
    show ?thesis
    proof (cases r)
      case False
      let ?s = "((ts ! c, 0) # (b, Suc c) # st, insert (ts ! c) (marked R), P, B)"
      have new: "ts ! c \<notin> marked R" "bix (ts ! c) < length R"
        using r False by (auto simp: marked_def get_at_Some_iff)
      have "depth_first_loop succs ((ts ! c, 0) # (b, c + 1) # st) (R[bix (ts ! c) := True]) P = Some (R', P')"
        using "2.prems" ts True r False by (simp add: Let_def)
      then obtain B' where "dfs_run (succ_of succs) ?s ([], marked R', P', B')"
        using "2.IH"(2) [OF ts True refl r] False marked_set [OF new(2)] by fastforce
      moreover have "dfs_step (succ_of succs) ((b, c) # st, marked R, P, B) ?s"
        using dfs_step.visit [of c "succ_of succs" b "marked R" st P B] lt new(1) succ by simp
      ultimately show ?thesis by (meson converse_rtranclp_into_rtranclp)
    next
      case True
      then have old: "succ_of succs b ! c \<in> marked R" using r succ by (simp add: marked_def)
      have "depth_first_loop succs ((b, c + 1) # st) R P = Some (R', P')"
        using "2.prems" ts \<open>c < length ts\<close> r True by (simp add: Let_def)
      then have run: "\<exists>B'. dfs_run (succ_of succs) ((b, Suc c) # st, marked R, P, B1) ([], marked R', P', B')" for B1
        using "2.IH"(1) [OF ts \<open>c < length ts\<close> refl r] True by fastforce
      show ?thesis
      proof (cases "succ_of succs b ! c \<in> fst ` set ((b, c) # st)")
        case True
        from dfs_step.retreat [where succ = "succ_of succs" and V = "marked R" and P = P and B = B, OF lt True] run
        show ?thesis
          by (meson converse_rtranclp_into_rtranclp)
      next
        case False
        from dfs_step.skip [where succ = "succ_of succs" and P = P and B = B, OF lt old False] run
        show ?thesis
          by (meson converse_rtranclp_into_rtranclp)
      qed
    qed
  qed
qed

lemma closed_tableD:
  "closed_table succs \<Longrightarrow> i < length succs \<Longrightarrow> c < length (succs ! i) \<Longrightarrow>
     bix (succs ! i ! c) < length succs"
  by (meson closed_table_def nth_mem)

lemma depth_first_loop_total:
  "closed_table succs \<Longrightarrow> length R = length succs \<Longrightarrow> \<forall>e\<in>set st. bix (fst e) < length succs \<Longrightarrow>
     \<exists>R' P'. depth_first_loop succs st R P = Some (R', P') \<and> length R' = length R"
proof (induction succs st R P rule: depth_first_loop.induct)
  case (2 succs b c st R P)
  then have b: "get_at succs (bix b) = Some (succs ! bix b)" by (simp add: get_at_def)
  have nxt: "get_at R (bix (succs ! bix b ! c)) = Some (R ! bix (succs ! bix b ! c))"
    if "c < length (succs ! bix b)"
    using that "2.prems" closed_tableD [of succs "bix b" c] by (simp add: get_at_def)
  show ?case
  proof (cases "c < length (succs ! bix b)")
    case True
    have lt: "bix (succs ! bix b ! c) < length succs"
      using True "2.prems" closed_tableD [of succs "bix b" c] by simp
    show ?thesis
    proof (cases "R ! bix (succs ! bix b ! c)")
      case old: True
      then show ?thesis using "2.IH"(1) [OF b True refl nxt [OF True]] "2.prems" b True nxt [OF True]
        by simp
    next
      case new: False
      then show ?thesis using "2.IH"(2) [OF b True refl nxt [OF True]] "2.prems" b True nxt [OF True] lt
        by (simp add: Let_def)
    qed
  next
    case False
    then show ?thesis using "2.IH"(3) [OF b False] "2.prems" b by simp
  qed
qed simp

section \<open>The built graph\<close>

lemma push_successor_facts [simp]:
  "set (push_successor t ts) = insert t (set ts)"
  "distinct ts \<Longrightarrow> distinct (push_successor t ts)"
  by (auto simp: push_successor_def)

lemma fold_push_successor [simp]:
  "set (fold push_successor xs ts) = set xs \<union> set ts"
  "distinct ts \<Longrightarrow> distinct (fold push_successor xs ts)"
  by (induction xs arbitrary: ts) simp_all

lemma distinct_terminator_successors: "distinct (terminator_successors t)"
  by (cases t) simp_all

text \<open>
  \<open>flow_edge fn a b\<close>: the control flow of the function itself, block \<open>a\<close> may jump to block \<open>b\<close>.
\<close>

definition flow_edge :: "Function \<Rightarrow> (BasicBlockId \<times> BasicBlockId) set" where
  "flow_edge fn =
     {(a, b). bix a < length (fn_blocks fn) \<and> bix b < length (fn_blocks fn) \<and>
        b \<in> set (terminator_successors (blk_terminator (fn_blocks fn ! bix a)))}"

lemma closed_successor_table: "closed_table (successor_table fn)"
  by (auto simp: closed_table_def successor_table_def)

lemma length_successor_table [simp]: "length (successor_table fn) = length (fn_blocks fn)"
  by (simp add: successor_table_def)

lemma edges_successor_table: "edges (succ_of (successor_table fn)) = flow_edge fn"
  by (auto simp: edges_def flow_edge_def succ_of_def successor_table_def get_at_def split: if_splits)

lemma cfg_buildE:
  assumes "cfg_build fn = Some g"
  obtains R P where "cfg_entry g = fn_entry fn" "cfg_successors g = successor_table fn"
    "cfg_predecessors g = predecessor_table (successor_table fn)"
    "cfg_reachable g = R" "cfg_reverse_post_order g = rev P"
    "cfg_order_index g = order_index_table (length (fn_blocks fn)) (rev P)"
    "if length (fn_blocks fn) > 0
     then depth_first_post_order (fn_entry fn) (successor_table fn)
            (replicate (length (fn_blocks fn)) False) [] = Some (R, P)
     else R = [] \<and> P = []"
proof -
  from assms obtain R P where
    rp: "(if length (fn_blocks fn) > 0
      then depth_first_post_order (fn_entry fn) (successor_table fn)
             (replicate (length (fn_blocks fn)) False) []
      else Some (replicate (length (fn_blocks fn)) False, [])) = Some (R, P)"
    and g: "g = \<lparr>cfg_entry = fn_entry fn, cfg_successors = successor_table fn,
      cfg_predecessors = predecessor_table (successor_table fn), cfg_reachable = R,
      cfg_reverse_post_order = rev P,
      cfg_order_index = order_index_table (length (fn_blocks fn)) (rev P)\<rparr>"
    unfolding cfg_build_def Let_def by (auto split: option.splits)
  from rp have "if length (fn_blocks fn) > 0
     then depth_first_post_order (fn_entry fn) (successor_table fn)
            (replicate (length (fn_blocks fn)) False) [] = Some (R, P)
     else R = [] \<and> P = []"
    by (auto split: if_splits)
  with g show thesis by (intro that [of R P]) simp_all
qed

lemma cfg_build_total: "\<exists>g. cfg_build fn = Some g"
proof -
  have "\<exists>R P. depth_first_post_order (fn_entry fn) (successor_table fn)
      (replicate (length (fn_blocks fn)) False) [] = Some (R, P)"
    using depth_first_loop_total [OF closed_successor_table, of
        "(replicate (length (fn_blocks fn)) False)[bix (fn_entry fn) := True]" fn "[(fn_entry fn, 0)]" "[]"]
    by (cases "bix (fn_entry fn) < length (fn_blocks fn)") (auto simp: depth_first_post_order_def)
  then obtain R P where rp: "depth_first_post_order (fn_entry fn) (successor_table fn)
      (replicate (length (fn_blocks fn)) False) [] = Some (R, P)" by blast
  show ?thesis unfolding cfg_build_def Let_def rp by simp
qed

lemma depth_first_post_order_run:
  assumes "depth_first_post_order r succs (replicate (length succs) False) [] = Some (R, P)"
    and "bix r < length succs"
  shows "\<exists>B. dfs_run (succ_of succs) (dfs_start r) ([], marked R, P, B)"
proof -
  have "depth_first_loop succs [(r, 0)] ((replicate (length succs) False)[bix r := True]) [] = Some (R, P)"
    using assms by (simp add: depth_first_post_order_def)
  from depth_first_loop_run [OF this, of "{}"] show ?thesis
    using assms(2) by (simp add: dfs_start_def marked_set)
qed

text \<open>Reachability and order of the built graph.\<close>

lemma cfg_build_reachable:
  assumes "cfg_build fn = Some g" and "bix (fn_entry fn) < length (fn_blocks fn)"
  shows "cfg_is_reachable g b \<longleftrightarrow> (fn_entry fn, b) \<in> (flow_edge fn)\<^sup>*"
    and "distinct (cfg_reverse_post_order g)"
    and "set (cfg_reverse_post_order g) = {b. (fn_entry fn, b) \<in> (flow_edge fn)\<^sup>*}"
    and "cfg_reverse_post_order g = xs @ c # ys \<Longrightarrow> c = fn_entry fn \<or> (\<exists>u\<in>set xs. (u, c) \<in> flow_edge fn)"
proof -
  from assms(1) obtain R P where g: "cfg_reachable g = R" "cfg_reverse_post_order g = rev P"
    and "if length (fn_blocks fn) > 0
     then depth_first_post_order (fn_entry fn) (successor_table fn)
            (replicate (length (fn_blocks fn)) False) [] = Some (R, P)
     else R = [] \<and> P = []"
    by (elim cfg_buildE) simp
  then have "depth_first_post_order (fn_entry fn) (successor_table fn)
      (replicate (length (successor_table fn)) False) [] = Some (R, P)"
    using assms(2) by (simp split: if_splits)
  from depth_first_post_order_run [OF this] assms(2) obtain B where
    "dfs_run (succ_of (successor_table fn)) (dfs_start (fn_entry fn)) ([], marked R, P, B)" by auto
  note fin = dfs_final [OF this, unfolded edges_successor_table]
  have "cfg_is_reachable g b \<longleftrightarrow> b \<in> marked R"
    by (auto simp: cfg_is_reachable_def g marked_def split: option.splits)
  with fin(3) show "cfg_is_reachable g b \<longleftrightarrow> (fn_entry fn, b) \<in> (flow_edge fn)\<^sup>*" by blast
  show "distinct (cfg_reverse_post_order g)" using fin(1) by (simp add: g)
  show "set (cfg_reverse_post_order g) = {b. (fn_entry fn, b) \<in> (flow_edge fn)\<^sup>*}"
    using fin(2,3) by (simp add: g)
  assume "cfg_reverse_post_order g = xs @ c # ys"
  then have "P = rev ys @ c # rev xs" by (metis (no_types, lifting) g(2) append.assoc append_Cons
      append_Nil rev.simps(2) rev_append rev_rev_ident)
  with fin(5) have "c = fn_entry fn \<or> (\<exists>u\<in>set xs. c \<in> set (succ_of (successor_table fn) u))"
    by (metis set_rev)
  then show "c = fn_entry fn \<or> (\<exists>u\<in>set xs. (u, c) \<in> flow_edge fn)"
    unfolding edges_successor_table [symmetric] by (simp add: edges_def)
qed

declare dfs_inv.simps [simp del]

lemma back_edge_loop_run:
  "back_edge_loop g st vis on B = Some B' \<Longrightarrow> dfs_inv (successors g) r (st, marked vis, P, B) \<Longrightarrow>
     marked on = fst ` set st \<Longrightarrow>
     \<exists>V' P'. dfs_run (successors g) (st, marked vis, P, B) ([], V', P', B')"
proof (induction g st vis on B arbitrary: P rule: back_edge_loop.induct)
  case (1 g vis on B)
  then show ?case by auto
next
  case (2 g b c st vis on B)
  let ?ts = "successors g b"
  note inv = dfs_invD [OF "2.prems"(2)]
  have go: ?case
    if "dfs_step (successors g) ((b, c) # st, marked vis, P, B) s'"
      and "dfs_inv (successors g) r s' \<Longrightarrow> \<exists>V' P'. dfs_run (successors g) s' ([], V', P', B')" for s'
    using that(2) [OF dfs_inv_step [OF that(1) "2.prems"(2)]] that(1)
    by (meson converse_rtranclp_into_rtranclp)
  show ?case
  proof (cases "c < length ?ts")
    case False
    then obtain on' where on': "set_at on (bix b) False = Some on'"
      "back_edge_loop g st vis on' B = Some B'"
      using "2.prems"(1) by (auto split: option.splits)
    have "b \<notin> fst ` set st" using inv(1) by auto
    then have "marked on' = fst ` set st"
      using on'(1) "2.prems"(3) by (auto simp: set_at_Some_iff marked_clear)
    with "2.IH"(4) [OF refl False on'] show ?thesis
      by - (rule go [OF dfs_step.finish], use False in auto)
  next
    case True
    let ?n = "?ts ! c"
    have on_iff: "get_at on (bix ?n) = Some True \<longleftrightarrow> ?n \<in> fst ` set ((b, c) # st)"
      using "2.prems"(3) by (auto simp: marked_def)
    consider (on) "get_at on (bix ?n) = Some True"
      | (new) "get_at on (bix ?n) = Some False" "get_at vis (bix ?n) = Some False"
      | (old) "get_at on (bix ?n) = Some False" "get_at vis (bix ?n) = Some True"
      using "2.prems"(1) True
      by (auto simp: Let_def split: option.splits bool.splits)
    then show ?thesis
    proof cases
      case on
      then have "back_edge_loop g ((b, c + 1) # st) vis on (insert (b, ?n) B) = Some B'"
        using "2.prems"(1) True by (simp add: Let_def)
      note ih = "2.IH"(1) [OF refl True refl refl refl on refl this]
      show ?thesis
        by (rule go [OF dfs_step.retreat]) (use True on on_iff "2.prems"(3) ih in auto)
    next
      case new
      then have "back_edge_loop g ((?n, 0) # (b, c + 1) # st) (vis[bix ?n := True])
          (on[bix ?n := True]) B = Some B'"
        using "2.prems"(1) True by (simp add: Let_def)
      note ih = "2.IH"(3) [OF refl True refl refl refl new(1) refl new(2) refl this]
      have "bix ?n < length vis" "bix ?n < length on" "?n \<notin> marked vis"
        using new by (auto simp: get_at_Some_iff marked_def)
      then show ?thesis
        by - (rule go [OF dfs_step.visit], use True "2.prems"(3) ih in \<open>auto simp: marked_set\<close>)
    next
      case old
      then have "back_edge_loop g ((b, c + 1) # st) vis on B = Some B'"
        using "2.prems"(1) True by (simp add: Let_def)
      note ih = "2.IH"(2) [OF refl True refl refl refl old(1) refl old(2) refl this]
      have "?n \<in> marked vis" using old by (simp add: marked_def)
      moreover have "?n \<notin> fst ` set ((b, c) # st)" using old on_iff by auto
      ultimately show ?thesis
        by - (rule go [OF dfs_step.skip], use True "2.prems"(3) ih in auto)
    qed
  qed
qed

lemma successors_nth: "bix b < length (cfg_successors g) \<Longrightarrow> successors g b = cfg_successors g ! bix b"
  by (simp add: successors_def get_at_def)

lemma back_edge_loop_total:
  "closed_table (cfg_successors g) \<Longrightarrow> length vis = block_count g \<Longrightarrow> length on = block_count g \<Longrightarrow>
     \<forall>e\<in>set st. bix (fst e) < block_count g \<Longrightarrow> \<exists>B'. back_edge_loop g st vis on B = Some B'"
proof (induction g st vis on B rule: back_edge_loop.induct)
  case (2 g b c st vis on B)
  let ?ts = "successors g b"
  have b: "bix b < block_count g" using "2.prems"(4) by simp
  show ?case
  proof (cases "c < length ?ts")
    case True
    let ?n = "?ts ! c"
    have n: "bix ?n < block_count g"
      using True b closed_tableD [OF "2.prems"(1), of "bix b" c] by (simp add: successors_nth block_count_def)
    then obtain o' v' where ov: "get_at on (bix ?n) = Some o'" "get_at vis (bix ?n) = Some v'"
      using "2.prems"(2,3) by (simp add: get_at_def)
    consider "o' = True" | "o' = False" "v' = True" | "o' = False" "v' = False" by blast
    then show ?thesis
    proof cases
      case 1
      then show ?thesis
        using "2.IH"(1) [OF refl True refl refl refl ov(1) 1] "2.prems" True ov by (simp add: Let_def)
    next
      case 2
      then show ?thesis
        using "2.IH"(2) [OF refl True refl refl refl ov(1) 2(1) ov(2) 2(2)] "2.prems" True ov
        by (simp add: Let_def)
    next
      case 3
      then show ?thesis
        using "2.IH"(3) [OF refl True refl refl refl ov(1) 3(1) ov(2) 3(2)] "2.prems" True ov n
        by (simp add: Let_def)
    qed
  next
    case False
    have s: "set_at on (bix b) False = Some (on[bix b := False])"
      using b "2.prems"(3) by (simp add: set_at_def)
    then show ?thesis using "2.IH"(4) [OF refl False s] "2.prems" False by simp
  qed
qed simp

lemma dfs_back_edges_run:
  assumes "cfg_build fn = Some g" and "bix (fn_entry fn) < length (fn_blocks fn)"
  shows "\<exists>B V P. dfs_back_edges g = Some B \<and>
    dfs_run (succ_of (successor_table fn)) (dfs_start (fn_entry fn)) ([], V, P, B)"
proof -
  from assms(1) have g: "cfg_entry g = fn_entry fn" "cfg_successors g = successor_table fn"
    by (elim cfg_buildE; simp)+
  have succ: "successors g = succ_of (successor_table fn)"
    by (rule ext) (simp add: successors_def succ_of_def g)
  let ?n = "length (fn_blocks fn)"
  let ?t = "(replicate ?n False)[bix (fn_entry fn) := True]"
  have m: "marked ?t = {fn_entry fn}" using assms(2) by (simp add: marked_set)
  have "dfs_back_edges g = back_edge_loop g [(fn_entry fn, 0)] ?t ?t {}"
    using assms(2) by (auto simp: dfs_back_edges_def Let_def block_count_def g)
  moreover obtain B where B: "back_edge_loop g [(fn_entry fn, 0)] ?t ?t {} = Some B"
    using back_edge_loop_total [of g ?t ?t "[(fn_entry fn, 0)]" "{}"] closed_successor_table [of fn]
      assms(2) by (auto simp: block_count_def g)
  moreover have "\<exists>V P. dfs_run (successors g) ([(fn_entry fn, 0)], marked ?t, [], {}) ([], V, P, B)"
    by (rule back_edge_loop_run [OF B])
       (use m dfs_inv_start [of "successors g" "fn_entry fn"] in \<open>simp_all add: dfs_start_def\<close>)
  ultimately show ?thesis using m succ by (auto simp: dfs_start_def)
qed

lemma dfs_back_edges_facts:
  assumes "cfg_build fn = Some g" and "bix (fn_entry fn) < length (fn_blocks fn)"
    and "dfs_back_edges g = Some B"
  shows "\<forall>(u, v)\<in>B. (u, v) \<in> flow_edge fn \<and> (v, u) \<in> (flow_edge fn)\<^sup>* \<and>
      (fn_entry fn, u) \<in> (flow_edge fn)\<^sup>*"
    and "acyclic {(u, v). (fn_entry fn, u) \<in> (flow_edge fn)\<^sup>* \<and> (u, v) \<in> flow_edge fn \<and> (u, v) \<notin> B}"
proof -
  let ?s = "succ_of (successor_table fn)"
  from dfs_back_edges_run [OF assms(1,2)] assms(3) obtain V P where
    run: "dfs_run ?s (dfs_start (fn_entry fn)) ([], V, P, B)" by auto
  note fin = dfs_final [OF run]
  note e = edges_successor_table [of fn]
  have mem: "v \<in> set (?s u) \<longleftrightarrow> (u, v) \<in> flow_edge fn" for u v
    unfolding e [symmetric] by (simp add: edges_def)
  show "\<forall>(u, v)\<in>B. (u, v) \<in> flow_edge fn \<and> (v, u) \<in> (flow_edge fn)\<^sup>* \<and>
      (fn_entry fn, u) \<in> (flow_edge fn)\<^sup>*"
    using fin(3,6) by (auto simp: mem e)
  show "acyclic {(u, v). (fn_entry fn, u) \<in> (flow_edge fn)\<^sup>* \<and> (u, v) \<in> flow_edge fn \<and> (u, v) \<notin> B}"
    using back_edges_break_cycles [OF fin(4)] fin(2,3) by (simp add: e)
qed

section \<open>Predecessors\<close>

lemma push_at_nth: "i < length table \<Longrightarrow> push_at i x table ! j = (if i = j then table ! j @ [x] else table ! j)"
  by (auto simp: push_at_def nth_list_update)

lemma length_push_at [simp]: "length (push_at i x table) = length table"
  by (simp add: push_at_def)

lemma push_targets:
  "distinct ts \<Longrightarrow> \<forall>t\<in>set ts. bix t < length table \<Longrightarrow>
     length (fold (\<lambda>t. push_at (bix t) x) ts table) = length table \<and>
     fold (\<lambda>t. push_at (bix t) x) ts table ! j =
       (if \<exists>t\<in>set ts. bix t = j then table ! j @ [x] else table ! j)"
proof (induction ts arbitrary: table)
  case (Cons t ts)
  then have "bix t < length table" by simp
  moreover have "\<not> (\<exists>u\<in>set ts. bix u = bix t)" using Cons.prems(1) by (auto simp: bix_inj)
  ultimately show ?case using Cons.IH [of "push_at (bix t) x table"] Cons.prems
    by (auto simp: push_at_nth)
qed simp

lemma predecessor_fold:
  assumes "\<forall>ts\<in>set succs. distinct ts \<and> (\<forall>t\<in>set ts. bix t < length table)"
  shows "length (fold (\<lambda>(i, ts) preds. fold (\<lambda>t preds. push_at (bix t) (block_at i) preds) ts preds)
      (enumerate k succs) table) = length table \<and>
    fold (\<lambda>(i, ts) preds. fold (\<lambda>t preds. push_at (bix t) (block_at i) preds) ts preds)
      (enumerate k succs) table ! j =
      table ! j @ map block_at (filter (\<lambda>i. \<exists>t\<in>set (succs ! (i - k)). bix t = j) [k..<k + length succs])"
  using assms
proof (induction succs arbitrary: k table)
  case (Cons ts succs)
  let ?table = "fold (\<lambda>t preds. push_at (bix t) (block_at k) preds) ts table"
  have p: "length ?table = length table"
    "?table ! j = (if \<exists>t\<in>set ts. bix t = j then table ! j @ [block_at k] else table ! j)"
    using push_targets [of ts table "block_at k" j] Cons.prems by auto
  have split: "[k..<k + length (ts # succs)] = k # [Suc k..<Suc k + length succs]"
    using upt_conv_Cons [of k "k + length (ts # succs)"] by (simp del: upt.simps)
  have shift: "filter (\<lambda>i. \<exists>t\<in>set ((ts # succs) ! (i - k)). bix t = j) [Suc k..<Suc k + length succs] =
      filter (\<lambda>i. \<exists>t\<in>set (succs ! (i - Suc k)). bix t = j) [Suc k..<Suc k + length succs]"
    by (rule filter_cong) (auto simp: Suc_diff_le nth_Cons' dest: Suc_le_lessD)
  show ?case
    unfolding split using Cons.IH [of ?table "Suc k"] Cons.prems p shift by simp
qed simp

lemma predecessors_iff:
  assumes "cfg_build fn = Some g" and "length (fn_blocks fn) \<le> 2 ^ 32"
  shows "a \<in> set (predecessors g b) \<longleftrightarrow> (a, b) \<in> flow_edge fn" and "distinct (predecessors g b)"
proof -
  let ?s = "successor_table fn" and ?n = "length (fn_blocks fn)"
  have g: "cfg_predecessors g = predecessor_table ?s" using assms(1) by (elim cfg_buildE) simp
  have d: "\<forall>ts\<in>set ?s. distinct ts \<and> (\<forall>t\<in>set ts. bix t < length (replicate (length ?s) []))"
    by (auto simp: successor_table_def distinct_terminator_successors)
  have len: "length (predecessor_table ?s) = ?n"
    using predecessor_fold [OF d, of 0] by (simp add: predecessor_table_def)
  have nth: "predecessor_table ?s ! bix b =
      map block_at (filter (\<lambda>i. \<exists>t\<in>set (?s ! i). bix t = bix b) [0..<?n])" if "bix b < ?n"
    using predecessor_fold [OF d, of 0 "bix b"] that by (simp add: predecessor_table_def)
  have block: "bix (block_at i) = i" if "i < ?n" for i
    using that assms(2) by (simp add: bix_def block_at_def unat_u32_of_nat)
  have same: "block_at (bix a) = a" by (cases a) (simp add: bix_def block_at_def)
  show "a \<in> set (predecessors g b) \<longleftrightarrow> (a, b) \<in> flow_edge fn"
  proof (cases "bix b < ?n")
    case True
    have "a \<in> set (predecessors g b) \<longleftrightarrow> bix a < ?n \<and> b \<in> set (?s ! bix a)"
      using True block same
      by (auto simp: predecessors_def g get_at_def len nth bix_inj image_iff)
    then show ?thesis using True by (auto simp: flow_edge_def successor_table_def)
  next
    case False
    then show ?thesis by (simp add: predecessors_def g get_at_def len flow_edge_def)
  qed
  have "inj_on block_at {i. i < ?n}" using block by (metis (mono_tags) inj_on_def mem_Collect_eq)
  then show "distinct (predecessors g b)"
    by (cases "bix b < ?n")
      (auto simp: predecessors_def g get_at_def len nth distinct_map intro: inj_on_subset)
qed

section \<open>Properties\<close>

text \<open>Small functions for the witnesses: a diamond, and a block that jumps to itself.\<close>

definition diamond :: Function where
  "diamond = (function_new [] (BasicBlockId 0))\<lparr>fn_blocks :=
     [\<lparr>blk_id = BasicBlockId 0, blk_instructions = [],
       blk_terminator = Branch (ValueId 0) (BasicBlockId 1) (BasicBlockId 2)\<rparr>,
      \<lparr>blk_id = BasicBlockId 1, blk_instructions = [], blk_terminator = Jump (BasicBlockId 3)\<rparr>,
      \<lparr>blk_id = BasicBlockId 2, blk_instructions = [], blk_terminator = Jump (BasicBlockId 3)\<rparr>,
      \<lparr>blk_id = BasicBlockId 3, blk_instructions = [], blk_terminator = Return None\<rparr>]\<rparr>"

definition entry_loop :: Function where
  "entry_loop = (function_new [] (BasicBlockId 0))\<lparr>fn_blocks :=
     [\<lparr>blk_id = BasicBlockId 0, blk_instructions = [], blk_terminator = Jump (BasicBlockId 0)\<rparr>]\<rparr>"

lemma sample_functions:
  "bix (fn_entry diamond) < length (fn_blocks diamond) \<and> length (fn_blocks diamond) \<le> 2 ^ 32"
  "bix (fn_entry entry_loop) < length (fn_blocks entry_loop)"
  by (simp_all add: diamond_def entry_loop_def function_new_def bix_def)

text \<open>
  The graph a function is built into. Building never fails; a block counts as reachable
  exactly when the control flow leads to it from the entry; the reverse post order lists exactly
  the reachable blocks, each once, and every block but the entry after one of its predecessors;
  and the predecessor lists are the control flow read backwards, without repetition.
\<close>

theorem cfg_build_correct:
  assumes "bix (fn_entry fn) < length (fn_blocks fn)" and "length (fn_blocks fn) \<le> 2 ^ 32"
  shows "\<exists>g. cfg_build fn = Some g \<and>
    (\<forall>b. cfg_is_reachable g b \<longleftrightarrow> (fn_entry fn, b) \<in> (flow_edge fn)\<^sup>*) \<and>
    distinct (cfg_reverse_post_order g) \<and>
    set (cfg_reverse_post_order g) = {b. cfg_is_reachable g b} \<and>
    (\<forall>xs c ys. cfg_reverse_post_order g = xs @ c # ys \<longrightarrow>
       c = fn_entry fn \<or> (\<exists>u\<in>set xs. u \<in> set (predecessors g c))) \<and>
    (\<forall>a b. a \<in> set (predecessors g b) \<longleftrightarrow> (a, b) \<in> flow_edge fn) \<and>
    (\<forall>b. distinct (predecessors g b))"
proof -
  obtain g where g: "cfg_build fn = Some g" using cfg_build_total by blast
  note r = cfg_build_reachable [OF g assms(1)] and p = predecessors_iff [OF g assms(2)]
  show ?thesis
    using g r(1-3) p r(4) by (intro exI [of _ g] conjI allI impI) auto
qed

theorem cfg_build_correct_witness:
  "\<exists>g. cfg_build diamond = Some g \<and> distinct (cfg_reverse_post_order g) \<and>
     BasicBlockId 2 \<in> set (predecessors g (BasicBlockId 3))"
proof -
  have "(BasicBlockId 2, BasicBlockId 3) \<in> flow_edge diamond"
    by (simp add: flow_edge_def diamond_def bix_def function_new_def push_successor_def)
  with cfg_build_correct [OF conjunct1 [OF sample_functions(1)] conjunct2 [OF sample_functions(1)]]
  show ?thesis by blast
qed

text \<open>
  Back edges. The search always finishes; every edge it reports is a reachable edge of the
  control flow that lies on a cycle; and every cycle of reachable blocks contains a reported
  edge, because without the reported edges the reachable control flow is acyclic. So polling at
  these edges polls every loop, and polls nowhere else.
\<close>

theorem dfs_back_edges_correct:
  assumes "cfg_build fn = Some g" and "bix (fn_entry fn) < length (fn_blocks fn)"
  shows "\<exists>B. dfs_back_edges g = Some B \<and>
    (\<forall>u v. (u, v) \<in> B \<longrightarrow> (fn_entry fn, u) \<in> (flow_edge fn)\<^sup>* \<and> (u, v) \<in> flow_edge fn \<and>
       (v, u) \<in> (flow_edge fn)\<^sup>*) \<and>
    acyclic {(u, v). (fn_entry fn, u) \<in> (flow_edge fn)\<^sup>* \<and> (u, v) \<in> flow_edge fn \<and> (u, v) \<notin> B}"
proof -
  obtain B where B: "dfs_back_edges g = Some B" using dfs_back_edges_run [OF assms] by blast
  from dfs_back_edges_facts [OF assms B] B show ?thesis by blast
qed

theorem dfs_back_edges_correct_witness:
  "\<exists>g B. cfg_build entry_loop = Some g \<and> dfs_back_edges g = Some B \<and>
     acyclic {(u, v). (fn_entry entry_loop, u) \<in> (flow_edge entry_loop)\<^sup>* \<and>
       (u, v) \<in> flow_edge entry_loop \<and> (u, v) \<notin> B}"
proof -
  obtain g where "cfg_build entry_loop = Some g" using cfg_build_total by blast
  with dfs_back_edges_correct [OF this sample_functions(2)] show ?thesis by blast
qed

text \<open>
  A gap of the dominance frontiers. By the definition the sources give, the frontier of a
  block holds every block one of whose predecessors it dominates without strictly dominating the
  block itself; an entry block that jumps to itself is in its own frontier. The computed frontier
  is empty: a block with a single predecessor is skipped, also when it is the entry.
\<close>

theorem frontier_misses_entry_loop:
  "Option.bind (cfg_build entry_loop) (\<lambda>g.
     Option.bind (immediate_dominators g) (\<lambda>idom.
     Option.bind (dominance_frontiers g idom) (\<lambda>frontiers.
       Some (predecessors g (BasicBlockId 0), idom, frontiers)))) =
   Some ([BasicBlockId 0], [None], [[]])"
  by code_simp

end
