(* ===== verification/Dominators.thy ===== *)
theory Dominators
  imports Cfg
begin

text \<open>
  Dominance queries (\<open>wjsm-ir/src/dominators.rs\<close>): the post order of a depth-first search, the
  Cooper-Harvey-Kennedy fixed point of immediate dominators over the reverse post order, and a
  numbering of the dominator tree that answers a query by comparing two intervals.

  Blocks are their indices here, as in the sources. A vector used as a stack is a list whose head
  is the end of the vector. The two fixed points and the walk of the tree are partial functions;
  a panic (an index out of range, \<open>expect\<close>) is \<open>None\<close>. The counters are natural numbers: a
  function with \<open>2 ^ 31\<close> blocks is out of reach.
\<close>

section \<open>Successors and the post order\<close>

fun visited_targets :: "Terminator \<Rightarrow> BasicBlockId list" where
  \<comment> \<open>the calls \<open>for_each_successor\<close> makes\<close>
  "visited_targets (Return _) = []"
| "visited_targets (Throw _) = []"
| "visited_targets Unreachable = []"
| "visited_targets (Deopt _) = []"
| "visited_targets (Jump target) = [target]"
| "visited_targets (Branch _ true_block false_block) = [true_block, false_block]"
| "visited_targets (Switch _ cases default_block exit_block) =
     map case_target cases @ [default_block, exit_block]"

definition targets_of :: "Function \<Rightarrow> nat \<Rightarrow> nat list" where
  \<comment> \<open>the targets of block \<open>b\<close> below the number of blocks, in visiting order\<close>
  "targets_of fn b =
     filter (\<lambda>s. s < length (fn_blocks fn)) (map bix (visited_targets (blk_terminator (fn_blocks fn ! b))))"

definition push_unreached :: "bool list \<Rightarrow> nat list \<Rightarrow> (nat \<times> bool) list \<Rightarrow> (nat \<times> bool) list" where
  "push_unreached reachable targets stack =
     fold (\<lambda>s stack. if \<not> reachable ! s then (s, False) # stack else stack) targets stack"

function dom_dfs ::
  "Function \<Rightarrow> (nat \<times> bool) list \<Rightarrow> bool list \<Rightarrow> nat list \<Rightarrow> (bool list \<times> nat list) option" where
  "dom_dfs fn [] reachable postorder = Some (reachable, postorder)"
| "dom_dfs fn ((block, expanded) # stack) reachable postorder =
     (if expanded then dom_dfs fn stack reachable (postorder @ [block])
      else case get_at reachable block of
        None \<Rightarrow> None
      | Some True \<Rightarrow> dom_dfs fn stack reachable postorder
      | Some False \<Rightarrow>
          (let reachable' = reachable[block := True]
           in dom_dfs fn (push_unreached reachable' (targets_of fn block) ((block, True) # stack))
                reachable' postorder))"
  by pat_completeness auto
termination
  by (relation "measures [\<lambda>(fn, stack, reachable, post). unvisited reachable,
        \<lambda>(fn, stack, reachable, post). length stack]")
     (auto simp: get_at_Some_iff unvisited_less)

section \<open>Immediate dominators\<close>

definition rpo_index_table :: "nat \<Rightarrow> nat list \<Rightarrow> nat option list" where
  \<comment> \<open>\<open>u32::MAX\<close>, the mark of an unreachable block, is \<open>None\<close>\<close>
  "rpo_index_table n postorder =
     fold (\<lambda>(index, b) table. table[b := Some index]) (enumerate 0 (rev postorder)) (replicate n None)"

definition pred_table :: "Function \<Rightarrow> bool list \<Rightarrow> nat list list" where
  "pred_table fn reachable =
     fold (\<lambda>(block, block_reachable) preds.
        if block_reachable then fold (\<lambda>s preds. push_at s block preds) (targets_of fn block) preds
        else preds)
       (enumerate 0 reachable) (replicate (length (fn_blocks fn)) [])"

partial_function (option) chk_climb ::
  "nat option list \<Rightarrow> nat option list \<Rightarrow> nat \<Rightarrow> nat option \<Rightarrow> nat option" where
  \<comment> \<open>\<open>while rpo_index[x] > bound { x = idom[x].expect() }\<close>\<close>
  "chk_climb rpo idom x bound =
     (case get_at rpo x of
        None \<Rightarrow> None
      | Some ox \<Rightarrow>
          if order_gt ox bound then
            (case get_at idom x of
               Some (Some next) \<Rightarrow> chk_climb rpo idom next bound
             | _ \<Rightarrow> None)
          else Some x)"

declare chk_climb.simps [code]

partial_function (option) chk_intersect ::
  "nat option list \<Rightarrow> nat option list \<Rightarrow> nat \<Rightarrow> nat \<Rightarrow> nat option" where
  "chk_intersect rpo idom a b =
     (if a = b then Some a
      else Option.bind (get_at rpo b) (\<lambda>ob.
           Option.bind (chk_climb rpo idom a ob) (\<lambda>a'.
           Option.bind (get_at rpo a') (\<lambda>oa.
           Option.bind (chk_climb rpo idom b oa) (\<lambda>b'. chk_intersect rpo idom a' b')))))"

declare chk_intersect.simps [code]

definition chk_new_idom ::
  "nat option list \<Rightarrow> nat list \<Rightarrow> nat option list \<Rightarrow> nat option option" where
  \<comment> \<open>the loop over the predecessors of a block\<close>
  "chk_new_idom rpo preds idom =
     fold_option (\<lambda>acc p.
       case get_at idom p of
         None \<Rightarrow> None
       | Some None \<Rightarrow> Some acc
       | Some (Some _) \<Rightarrow>
           (case acc of
              None \<Rightarrow> Some (Some p)
            | Some current \<Rightarrow> map_option Some (chk_intersect rpo idom p current)))
       None preds"

definition chk_round ::
  "nat \<Rightarrow> nat option list \<Rightarrow> nat list list \<Rightarrow> nat list \<Rightarrow> nat option list \<Rightarrow>
   (nat option list \<times> bool) option" where
  \<comment> \<open>one pass of the \<open>while changed\<close> loop\<close>
  "chk_round entry rpo preds order idom =
     fold_option (\<lambda>(idom, changed) block.
       if block = entry then Some (idom, changed)
       else case chk_new_idom rpo (preds ! block) idom of
         None \<Rightarrow> None
       | Some new \<Rightarrow>
           if new \<noteq> None \<and> idom ! block \<noteq> new then Some (idom[block := new], True)
           else Some (idom, changed))
       (idom, False) order"

partial_function (option) chk_loop ::
  "nat \<Rightarrow> nat option list \<Rightarrow> nat list list \<Rightarrow> nat list \<Rightarrow> nat option list \<Rightarrow> nat option list option" where
  "chk_loop entry rpo preds order idom =
     (case chk_round entry rpo preds order idom of
        None \<Rightarrow> None
      | Some (idom', changed) \<Rightarrow> if changed then chk_loop entry rpo preds order idom' else Some idom')"

declare chk_loop.simps [code]

section \<open>The dominator tree\<close>

definition children_table :: "nat option list \<Rightarrow> nat list list" where
  "children_table idom =
     fold (\<lambda>(block, parent) children.
        case parent of
          None \<Rightarrow> children
        | Some p \<Rightarrow> if p \<noteq> block then push_at p block children else children)
       (enumerate 0 idom) (replicate (length idom) [])"

partial_function (option) tree_walk ::
  "nat list list \<Rightarrow> (nat \<times> bool) list \<Rightarrow> nat \<Rightarrow> nat list \<Rightarrow> nat list \<Rightarrow> (nat list \<times> nat list) option" where
  \<comment> \<open>the depth-first walk that assigns the entry and the exit time of every block\<close>
  "tree_walk children stack clock tin tout =
     (case stack of
        [] \<Rightarrow> Some (tin, tout)
      | (block, expanded) # stack \<Rightarrow>
          if expanded then
            Option.bind (set_at tout block clock) (\<lambda>tout.
              tree_walk children stack (clock + 1) tin tout)
          else
            Option.bind (set_at tin block clock) (\<lambda>tin.
            Option.bind (get_at children block) (\<lambda>cs.
              tree_walk children (fold (\<lambda>c stack. (c, False) # stack) cs ((block, True) # stack))
                (clock + 1) tin tout)))"

declare tree_walk.simps [code]

record Dominators =
  dom_tin :: "nat list"
  dom_tout :: "nat list"
  dom_reachable :: "bool list"

definition dominators_compute :: "Function \<Rightarrow> Dominators option" where
  "dominators_compute fn =
     (let n = length (fn_blocks fn); entry = bix (fn_entry fn) in
      Option.bind (dom_dfs fn [(entry, False)] (replicate n False) []) (\<lambda>(reachable, postorder).
      let rpo = rpo_index_table n postorder; preds = pred_table fn reachable in
      Option.bind (chk_loop entry rpo preds (rev postorder) ((replicate n None)[entry := Some entry]))
        (\<lambda>idom.
      Option.bind (tree_walk (children_table idom) [(entry, False)] 0 (replicate n 0) (replicate n 0))
        (\<lambda>(tin, tout).
      Some \<lparr>dom_tin = tin, dom_tout = tout, dom_reachable = reachable\<rparr>))))"

definition dominates :: "Dominators \<Rightarrow> BasicBlockId \<Rightarrow> BasicBlockId \<Rightarrow> bool" where
  "dominates d x y =
     (let a = bix x; b = bix y in
      if \<not> dom_reachable d ! b then True
      else if \<not> dom_reachable d ! a then False
      else dom_tin d ! a \<le> dom_tin d ! b \<and> dom_tout d ! b \<le> dom_tout d ! a)"

definition dom_is_reachable :: "Dominators \<Rightarrow> BasicBlockId \<Rightarrow> bool" where
  "dom_is_reachable d b = dom_reachable d ! bix b"

end
