(* ===== verification/Verify.thy ===== *)
theory Verify
  imports Dominators Values Errors
begin

text \<open>
  The IR verifier (\<open>wjsm-ir/src/verify.rs\<close>): references to constants, functions and blocks,
  single definitions, phi sources, and that every use is dominated by its definition.

  Every early return carries its own error. The maps of the source are maps; a set of
  predecessors is the list of them without repetition in insertion order (a \<open>HashSet\<close> is
  iterated in an unspecified order, which only decides the predecessor an error names). The
  result is \<open>None\<close> only where the dominator computation panics or does not end.
\<close>

section \<open>Definitions and sites\<close>

record ValueDefinition =
  def_block :: BasicBlockId
  def_index :: nat

type_synonym predecessor_map = "BasicBlockId \<rightharpoonup> BasicBlockId list"
type_synonym definition_map = "ValueId \<rightharpoonup> ValueDefinition"

fun site_block :: "ValueUseSite \<Rightarrow> BasicBlockId" where
  "site_block (InstructionSite b _) = b"
| "site_block (TerminatorSite b) = b"
| "site_block (PhiSourceSite _ predecessor) = predecessor"

fun site_index :: "ValueUseSite \<Rightarrow> nat option" where
  \<comment> \<open>\<open>usize::MAX\<close>, after every instruction, is \<open>None\<close>\<close>
  "site_index (InstructionSite _ i) = Some i"
| "site_index (TerminatorSite _) = None"
| "site_index (PhiSourceSite _ _) = None"

section \<open>References\<close>

definition verify_constant :: "Module \<Rightarrow> nat \<times> Constant \<Rightarrow> IrVerificationError + unit" where
  "verify_constant m = (\<lambda>(index, c).
     bindr (case c of
              FunctionRef f \<Rightarrow> ensure (fnix f < length (mod_functions m)) (ConstantMissingFunction index f)
            | _ \<Rightarrow> Inr ()) (\<lambda>_.
     case c of
       ObjectTemplate keys \<Rightarrow>
         for_each_res (\<lambda>key.
           case template_key_name_ref key of
             None \<Rightarrow> Inr ()
           | Some i \<Rightarrow>
               (case get_at (mod_constants m) (unat i) of
                  Some (String _) \<Rightarrow> Inr ()
                | _ \<Rightarrow> Inl (TemplateNameRefNotString index))) keys
     | _ \<Rightarrow> Inr ()))"

definition verify_module_constants :: "Module \<Rightarrow> IrVerificationError + unit" where
  "verify_module_constants m = for_each_res (verify_constant m) (enumerate 0 (mod_constants m))"

definition verify_constant_id ::
  "Module \<Rightarrow> Function \<Rightarrow> BasicBlock \<Rightarrow> ConstantId \<Rightarrow> IrVerificationError + unit" where
  "verify_constant_id m fn block c =
     ensure (cix c < length (mod_constants m)) (MissingConstant (fn_name fn) (blk_id block) c)"

definition verify_instruction_constant_refs ::
  "Module \<Rightarrow> Function \<Rightarrow> BasicBlock \<Rightarrow> IrVerificationError + unit" where
  "verify_instruction_constant_refs m fn block =
     for_each_res (\<lambda>i. case i of Const _ c \<Rightarrow> verify_constant_id m fn block c | _ \<Rightarrow> Inr ())
       (blk_instructions block)"

definition verify_terminator_constant_refs ::
  "Module \<Rightarrow> Function \<Rightarrow> BasicBlock \<Rightarrow> IrVerificationError + unit" where
  "verify_terminator_constant_refs m fn block =
     (case blk_terminator block of
        Switch _ cases _ _ \<Rightarrow> for_each_res (\<lambda>c. verify_constant_id m fn block (case_constant c)) cases
      | _ \<Rightarrow> Inr ())"

fun home_function :: "HomeObject \<Rightarrow> FunctionId" where
  "home_function (Prototype f) = f"
| "home_function (Constructor f) = f"

definition verify_function_id_refs :: "Module \<Rightarrow> Function \<Rightarrow> IrVerificationError + unit" where
  "verify_function_id_refs m fn =
     (case fn_home_object fn of
        None \<Rightarrow> Inr ()
      | Some h \<Rightarrow>
          ensure (get_at (mod_functions m) (fnix (home_function h)) \<noteq> None)
            (InvalidHomeObject (fn_name fn) (home_function h)))"

section \<open>Blocks and definitions\<close>

definition empty_predecessors :: "Function \<Rightarrow> predecessor_map" where
  "empty_predecessors fn = map_of (map (\<lambda>b. (blk_id b, [])) (fn_blocks fn))"

definition add_predecessor :: "BasicBlockId \<Rightarrow> BasicBlockId \<Rightarrow> predecessor_map \<Rightarrow> predecessor_map" where
  \<comment> \<open>\<open>predecessors.entry(successor).or_default().insert(block)\<close>\<close>
  "add_predecessor s b preds =
     preds(s \<mapsto> push_successor b (case preds s of None \<Rightarrow> [] | Some ps \<Rightarrow> ps))"

definition verify_block ::
  "Module \<Rightarrow> Function \<Rightarrow> predecessor_map \<Rightarrow> nat \<times> BasicBlock \<Rightarrow> IrVerificationError + predecessor_map" where
  \<comment> \<open>the body of the loop over the blocks in \<open>verify_function\<close>\<close>
  "verify_block m fn preds = (\<lambda>(index, block).
     bindr (ensure (bix (blk_id block) = index) (BlockIdMismatch (fn_name fn) index (blk_id block))) (\<lambda>_.
     bindr (ensure (blk_instructions block = [] \<or> blk_terminator block \<noteq> Unreachable)
              (UnterminatedBlock (fn_name fn) (blk_id block))) (\<lambda>_.
     bindr (verify_instruction_constant_refs m fn block) (\<lambda>_.
     bindr (verify_terminator_constant_refs m fn block) (\<lambda>_.
     fold_res (\<lambda>preds s.
       bindr (ensure (bix s < length (fn_blocks fn)) (MissingSuccessor (fn_name fn) (blk_id block) s)) (\<lambda>_.
       Inr (add_predecessor s (blk_id block) preds)))
       preds (terminator_successors (blk_terminator block)))))))"

definition collect_instruction ::
  "Function \<Rightarrow> BasicBlock \<Rightarrow> definition_map \<Rightarrow> nat \<times> Instruction \<Rightarrow> IrVerificationError + definition_map" where
  "collect_instruction fn block defs = (\<lambda>(index, i).
     case dest i of
       None \<Rightarrow> Inr defs
     | Some d \<Rightarrow>
         (case defs d of
            Some previous \<Rightarrow> Inl (DefinedTwice (fn_name fn) (blk_id block) d (def_block previous))
          | None \<Rightarrow> Inr (defs(d \<mapsto> \<lparr>def_block = blk_id block, def_index = index\<rparr>))))"

definition collect_definitions :: "Function \<Rightarrow> IrVerificationError + definition_map" where
  "collect_definitions fn =
     fold_res (\<lambda>defs block. fold_res (collect_instruction fn block) defs (enumerate 0 (blk_instructions block)))
       Map.empty (fn_blocks fn)"

section \<open>Uses\<close>

definition verify_value_use ::
  "Function \<Rightarrow> definition_map \<Rightarrow> Dominators \<Rightarrow> ValueId \<Rightarrow> ValueUseSite \<Rightarrow> IrVerificationError + unit" where
  "verify_value_use fn defs dt v site =
     (case defs v of
        None \<Rightarrow> Inl (UndefinedValue (fn_name fn) v site)
      | Some d \<Rightarrow>
          if def_block d = site_block site \<and> (case site_index site of None \<Rightarrow> False | Some i \<Rightarrow> i \<le> def_index d)
          then Inl (UsedBeforeDefinition (fn_name fn) v site (def_index d) (def_block d))
          else if dom_is_reachable dt (site_block site) \<and> \<not> dominates dt (def_block d) (site_block site)
          then Inl (DefinitionDoesNotDominate (fn_name fn) v (def_block d) site)
          else Inr ())"

definition verify_phi_source_predecessor ::
  "Function \<Rightarrow> BasicBlock \<Rightarrow> PhiSource \<Rightarrow> BasicBlockId list \<Rightarrow> BasicBlockId set \<Rightarrow>
   IrVerificationError + BasicBlockId set" where
  "verify_phi_source_predecessor fn block source preds seen =
     bindr (ensure (phi_predecessor source \<notin> seen)
              (PhiDuplicatePredecessor (fn_name fn) (blk_id block) (phi_predecessor source))) (\<lambda>_.
     bindr (ensure (phi_predecessor source \<in> set preds)
              (PhiNotAPredecessor (fn_name fn) (blk_id block) (phi_predecessor source))) (\<lambda>_.
     Inr (insert (phi_predecessor source) seen)))"

definition verify_phi ::
  "Function \<Rightarrow> definition_map \<Rightarrow> Dominators \<Rightarrow> BasicBlock \<Rightarrow> BasicBlockId list \<Rightarrow> PhiSource list \<Rightarrow>
   IrVerificationError + unit" where
  "verify_phi fn defs dt block preds sources =
     bindr (ensure (sources \<noteq> []) (PhiWithoutSources (fn_name fn) (blk_id block))) (\<lambda>_.
     bindr (ensure (blk_id block \<noteq> fn_entry fn) (PhiInEntryBlock (fn_name fn) (blk_id block))) (\<lambda>_.
     bindr (fold_res (\<lambda>seen source.
              bindr (verify_phi_source_predecessor fn block source preds seen) (\<lambda>seen.
              bindr (verify_value_use fn defs dt (phi_value source)
                       (PhiSourceSite (blk_id block) (phi_predecessor source))) (\<lambda>_. Inr seen)))
              {} sources) (\<lambda>seen.
     for_each_res (\<lambda>p. ensure (p \<in> seen) (PhiMissingPredecessor (fn_name fn) (blk_id block) p)) preds)))"

definition verify_phi_sources ::
  "Function \<Rightarrow> predecessor_map \<Rightarrow> definition_map \<Rightarrow> Dominators \<Rightarrow> IrVerificationError + unit" where
  "verify_phi_sources fn preds defs dt =
     for_each_res (\<lambda>block.
       for_each_res (\<lambda>i. case i of
           Phi _ sources \<Rightarrow>
             verify_phi fn defs dt block (case preds (blk_id block) of None \<Rightarrow> [] | Some ps \<Rightarrow> ps) sources
         | _ \<Rightarrow> Inr ()) (blk_instructions block)) (fn_blocks fn)"

fun is_phi :: "Instruction \<Rightarrow> bool" where
  "is_phi (Phi _ _) = True"
| "is_phi _ = False"

fun forwards_with_args :: "Instruction \<Rightarrow> bool" where
  \<comment> \<open>a \<open>SuperCall\<close> that forwards its arguments and has explicit ones\<close>
  "forwards_with_args (SuperCall _ _ _ args forward_args) \<longleftrightarrow> forward_args \<and> args \<noteq> []"
| "forwards_with_args _ \<longleftrightarrow> False"

definition verify_instruction_uses ::
  "Function \<Rightarrow> definition_map \<Rightarrow> Dominators \<Rightarrow> ValueUseSite \<Rightarrow> Instruction \<Rightarrow> IrVerificationError + unit" where
  "verify_instruction_uses fn defs dt site i =
     (if is_phi i then Inr ()
      else bindr (ensure (\<not> forwards_with_args i) (SuperCallForwardsArgs (fn_name fn))) (\<lambda>_.
           for_each_res (\<lambda>v. verify_value_use fn defs dt v site) (uses i)))"

definition verify_terminator_uses ::
  "Function \<Rightarrow> definition_map \<Rightarrow> Dominators \<Rightarrow> BasicBlock \<Rightarrow> IrVerificationError + unit" where
  "verify_terminator_uses fn defs dt block =
     (let check = (\<lambda>v. verify_value_use fn defs dt v (TerminatorSite (blk_id block))) in
      case blk_terminator block of
        Return (Some v) \<Rightarrow> check v
      | Throw v \<Rightarrow> check v
      | Branch c _ _ \<Rightarrow> check c
      | Switch v _ _ _ \<Rightarrow> check v
      | Deopt frames \<Rightarrow> for_each_res (\<lambda>f. for_each_res check (frame_lives f)) frames
      | _ \<Rightarrow> Inr ())"

definition verify_non_phi_uses ::
  "Function \<Rightarrow> definition_map \<Rightarrow> Dominators \<Rightarrow> IrVerificationError + unit" where
  "verify_non_phi_uses fn defs dt =
     for_each_res (\<lambda>block.
       bindr (for_each_res (\<lambda>(index, i).
                verify_instruction_uses fn defs dt (InstructionSite (blk_id block) index) i)
                (enumerate 0 (blk_instructions block))) (\<lambda>_.
       verify_terminator_uses fn defs dt block)) (fn_blocks fn)"

section \<open>Functions and modules\<close>

definition verify_function :: "Module \<Rightarrow> Function \<Rightarrow> (IrVerificationError + unit) option" where
  "verify_function m fn =
     (case bindr (ensure (block_by_id fn (fn_entry fn) \<noteq> None)
                    (EntryBlockMissing (fn_name fn) (fn_entry fn))) (\<lambda>_.
           bindr (verify_function_id_refs m fn) (\<lambda>_.
           bindr (fold_res (verify_block m fn) (empty_predecessors fn) (enumerate 0 (fn_blocks fn))) (\<lambda>preds.
           bindr (collect_definitions fn) (\<lambda>defs. Inr (preds, defs))))) of
        Inl e \<Rightarrow> Some (Inl e)
      | Inr (preds, defs) \<Rightarrow>
          map_option (\<lambda>dt.
            bindr (verify_phi_sources fn preds defs dt) (\<lambda>_. verify_non_phi_uses fn defs dt))
            (dominators_compute fn))"

fun verify_functions :: "Module \<Rightarrow> Function list \<Rightarrow> (IrVerificationError + unit) option" where
  "verify_functions m [] = Some (Inr ())"
| "verify_functions m (fn # fns) =
     (case verify_function m fn of
        None \<Rightarrow> None
      | Some (Inl e) \<Rightarrow> Some (Inl e)
      | Some (Inr _) \<Rightarrow> verify_functions m fns)"

definition verify_module :: "Module \<Rightarrow> (IrVerificationError + unit) option" where
  "verify_module m =
     (case verify_module_constants m of
        Inl e \<Rightarrow> Some (Inl e)
      | Inr _ \<Rightarrow> verify_functions m (mod_functions m))"

end
