(* ===== verification/Dominance.thy ===== *)
theory Dominance
  imports Main
begin

text \<open>
  Why the Cooper-Harvey-Kennedy iteration computes dominance. A flow graph is given by its entry,
  its nodes, their predecessors and a rank (the reverse post order) in which every node but the
  entry has a predecessor of smaller rank. A table of candidate immediate dominators is a tree
  whose edges go up in rank; intersecting two nodes is going up to their nearest common ancestor.

  The locale collects what the graph promises. Its lemmas show that dominators stay ancestors
  under every update, that ancestors only shrink from round to round, so the iteration ends, and
  that at a fixed point the ancestors of a node are its dominators.
\<close>

section \<open>Positions in an order\<close>

definition position :: "'n list \<Rightarrow> 'n \<Rightarrow> nat" where
  "position xs b = length (takeWhile (\<lambda>x. x \<noteq> b) xs)"

lemma position_less: "b \<in> set xs \<Longrightarrow> position xs b < length xs"
  by (induction xs) (auto simp: position_def)

lemma position_nth: "b \<in> set xs \<Longrightarrow> xs ! position xs b = b"
  by (induction xs) (auto simp: position_def)

lemma position_inj: "inj_on (position xs) (set xs)"
  by (metis inj_onI position_nth)

lemma position_append: "b \<notin> set xs \<Longrightarrow> position (xs @ b # ys) b = length xs"
  by (induction xs) (auto simp: position_def)

lemma position_in_prefix: "b \<in> set xs \<Longrightarrow> position (xs @ ys) b < length xs"
  by (induction xs) (auto simp: position_def)

lemma position_of_nth: "distinct xs \<Longrightarrow> i < length xs \<Longrightarrow> position xs (xs ! i) = i"
  by (metis nth_eq_iff_index_eq nth_mem position_less position_nth)

section \<open>Tables as trees\<close>

type_synonym 'n table = "'n \<Rightarrow> 'n option"

definition up :: "'n table \<Rightarrow> ('n \<times> 'n) set" where
  "up I = {(x, y). I x = Some y}"

definition anc :: "'n table \<Rightarrow> 'n \<Rightarrow> 'n set" where
  "anc I b = {a. (b, a) \<in> (up I)\<^sup>*}"

definition avoiding :: "('n \<Rightarrow> 'n set) \<Rightarrow> 'n \<Rightarrow> ('n \<times> 'n) set" where
  "avoiding pred x = {(u, v). u \<in> pred v \<and> u \<noteq> x \<and> v \<noteq> x}"

definition evades :: "'n \<Rightarrow> ('n \<Rightarrow> 'n set) \<Rightarrow> 'n \<Rightarrow> 'n \<Rightarrow> bool" where
  \<comment> \<open>some path from the entry \<open>e\<close> to \<open>b\<close> does not meet \<open>x\<close>\<close>
  "evades e pred x b \<longleftrightarrow> x \<noteq> e \<and> (e, b) \<in> (avoiding pred x)\<^sup>*"

definition tree_parent :: "('n \<Rightarrow> 'n set) \<Rightarrow> ('n \<Rightarrow> nat) \<Rightarrow> 'n \<Rightarrow> 'n" where
  "tree_parent pred rk b = (SOME u. u \<in> pred b \<and> rk u < rk b)"

definition spanning :: "'n \<Rightarrow> 'n set \<Rightarrow> ('n \<Rightarrow> 'n set) \<Rightarrow> ('n \<Rightarrow> nat) \<Rightarrow> ('n \<times> 'n) set" where
  "spanning e V pred rk = {(b, tree_parent pred rk b) |b. b \<in> V \<and> b \<noteq> e}"

text \<open>The properties of a table the iteration keeps, and what a round does to a node.\<close>

definition tree :: "'n \<Rightarrow> 'n set \<Rightarrow> ('n \<Rightarrow> 'n set) \<Rightarrow> ('n \<Rightarrow> nat) \<Rightarrow> 'n table \<Rightarrow> bool" where
  "tree e V pred rk I \<longleftrightarrow>
     I e = Some e \<and>
     (\<forall>b d. I b = Some d \<longrightarrow> b \<in> V \<and> I d \<noteq> None \<and>
        (b \<noteq> e \<longrightarrow> (tree_parent pred rk b, d) \<in> (spanning e V pred rk)\<^sup>*))"

definition covers :: "'n \<Rightarrow> ('n \<Rightarrow> 'n set) \<Rightarrow> 'n table \<Rightarrow> bool" where
  \<comment> \<open>what dominates a node is its ancestor\<close>
  "covers e pred I \<longleftrightarrow> (\<forall>b x. I b \<noteq> None \<longrightarrow> \<not> evades e pred x b \<longrightarrow> x \<in> anc I b)"

definition meets :: "'n \<Rightarrow> 'n set \<Rightarrow> ('n \<Rightarrow> 'n set) \<Rightarrow> 'n table \<Rightarrow> bool" where
  \<comment> \<open>a common ancestor of all predecessors is an ancestor\<close>
  "meets e V pred I \<longleftrightarrow>
     (\<forall>c\<in>V - {e}. \<forall>z. z \<noteq> c \<longrightarrow> (\<forall>p\<in>pred c. z \<in> anc I p) \<longrightarrow> z \<in> anc I c)"

definition nearest :: "('n \<Rightarrow> 'n set) \<Rightarrow> 'n table \<Rightarrow> 'n \<Rightarrow> 'n \<Rightarrow> bool" where
  \<comment> \<open>\<open>d\<close> is the nearest common ancestor of the predecessors of \<open>c\<close> that are in the table\<close>
  "nearest pred I c d \<longleftrightarrow> (\<forall>z. z \<in> anc I d \<longleftrightarrow> (\<forall>p\<in>pred c. I p \<noteq> None \<longrightarrow> z \<in> anc I p))"

definition mix :: "('n \<Rightarrow> nat) \<Rightarrow> nat \<Rightarrow> 'n table \<Rightarrow> 'n table \<Rightarrow> 'n table" where
  \<comment> \<open>the table in the middle of a round from \<open>I\<close> to \<open>K\<close>: ranks below \<open>k\<close> are done\<close>
  "mix rk k I K b = (if rk b < k then K b else I b)"

definition rounded :: "('n \<Rightarrow> 'n set) \<Rightarrow> ('n \<Rightarrow> nat) \<Rightarrow> 'n table \<Rightarrow> 'n table \<Rightarrow> 'n \<Rightarrow> bool" where
  "rounded pred rk I K c \<longleftrightarrow> (\<exists>d. K c = Some d \<and> nearest pred (mix rk (rk c) I K) c d)"

definition weight :: "'n set \<Rightarrow> ('n \<Rightarrow> nat) \<Rightarrow> 'n table \<Rightarrow> nat" where
  "weight V rk I = (\<Sum>b\<in>V. rk (the (I b)))"

definition sound :: "'n \<Rightarrow> 'n set \<Rightarrow> ('n \<Rightarrow> 'n set) \<Rightarrow> ('n \<Rightarrow> nat) \<Rightarrow> 'n table \<Rightarrow> bool" where
  \<comment> \<open>what holds of the table before every round\<close>
  "sound e V pred rk I \<longleftrightarrow> tree e V pred rk I \<and> covers e pred I \<and>
     (I = [e \<mapsto> e] \<or> (\<forall>b\<in>V. I b \<noteq> None) \<and> meets e V pred I)"

definition during ::
  "'n \<Rightarrow> 'n set \<Rightarrow> ('n \<Rightarrow> 'n set) \<Rightarrow> ('n \<Rightarrow> nat) \<Rightarrow> 'n table \<Rightarrow> nat \<Rightarrow> 'n table \<Rightarrow> bool" where
  \<comment> \<open>the round that started from \<open>I\<close> has done the ranks below \<open>k\<close>\<close>
  "during e V pred rk I k J \<longleftrightarrow> tree e V pred rk J \<and> covers e pred J \<and>
     (\<forall>b. k \<le> rk b \<longrightarrow> J b = I b) \<and> (\<forall>c\<in>V - {e}. rk c < k \<longrightarrow> rounded pred rk I J c)"

lemma anc_refl [simp]: "b \<in> anc I b"
  by (simp add: anc_def)

lemma anc_trans: "a \<in> anc I b \<Longrightarrow> b \<in> anc I c \<Longrightarrow> a \<in> anc I c"
  by (simp add: anc_def)

lemma anc_subset: "a \<in> anc I b \<Longrightarrow> anc I a \<subseteq> anc I b"
  by (auto intro: anc_trans)

lemma anc_step: "I b = Some d \<Longrightarrow> anc I b = insert b (anc I d)"
  by (auto simp: anc_def up_def elim: converse_rtranclE intro: converse_rtrancl_into_rtrancl)

lemma anc_None: "I b = None \<Longrightarrow> anc I b = {b}"
  by (auto simp: anc_def up_def elim: converse_rtranclE)

lemma anc_linear:
  assumes "a \<in> anc I c" "b \<in> anc I c"
  shows "a \<in> anc I b \<or> b \<in> anc I a"
proof -
  have "single_valued (up I)" by (auto simp: single_valued_def up_def)
  then show ?thesis using assms single_valued_confluent [of "up I" c a b] by (auto simp: anc_def)
qed

section \<open>The contract of a ranked flow graph\<close>

locale ranked_flow =
  fixes e :: 'n and V :: "'n set" and pred :: "'n \<Rightarrow> 'n set" and rk :: "'n \<Rightarrow> nat"
  assumes finite_nodes: "finite V"
    and entry: "e \<in> V" "rk e = 0"
    and rank_inj: "inj_on rk V"
    and pred_nodes: "b \<in> V \<Longrightarrow> pred b \<subseteq> V"
    and ranked: "b \<in> V \<Longrightarrow> b \<noteq> e \<Longrightarrow> \<exists>u\<in>pred b. rk u < rk b"
begin

lemma rank_entry: "rk e = 0"
  by (rule entry(2))

lemma tree_parent: "b \<in> V \<Longrightarrow> b \<noteq> e \<Longrightarrow> tree_parent pred rk b \<in> pred b \<and> rk (tree_parent pred rk b) < rk b"
  unfolding tree_parent_def by (rule someI_ex) (use ranked in blast)

lemma spanning_up:
  "(b, a) \<in> (spanning e V pred rk)\<^sup>* \<Longrightarrow> b \<in> V \<Longrightarrow> a \<in> V \<and> rk a \<le> rk b \<and> (rk a = rk b \<longrightarrow> a = b)"
proof (induction rule: rtrancl_induct)
  case (step y z)
  then have "y \<in> V" "y \<noteq> e" "z = tree_parent pred rk y" by (auto simp: spanning_def)
  with tree_parent [of y] pred_nodes [of y] step show ?case by force
qed simp

lemma treeD:
  assumes "tree e V pred rk I" and "I b = Some d"
  shows "b \<in> V" "d \<in> V" "I d \<noteq> None" "b \<noteq> e \<Longrightarrow> rk d < rk b"
    "b \<noteq> e \<Longrightarrow> (tree_parent pred rk b, d) \<in> (spanning e V pred rk)\<^sup>*" "b = e \<Longrightarrow> d = e"
    "(b, d) \<in> (spanning e V pred rk)\<^sup>*"
proof -
  show b: "b \<in> V" and "I d \<noteq> None"
    and s: "b \<noteq> e \<Longrightarrow> (tree_parent pred rk b, d) \<in> (spanning e V pred rk)\<^sup>*"
    and e: "b = e \<Longrightarrow> d = e"
    using assms by (auto simp: tree_def)
  show "d \<in> V"
    using s e spanning_up tree_parent [OF b] pred_nodes [OF b] b by (cases "b = e") blast+
  show "b \<noteq> e \<Longrightarrow> rk d < rk b"
    using s spanning_up tree_parent [OF b] pred_nodes [OF b] by fastforce
  have "(b, tree_parent pred rk b) \<in> spanning e V pred rk" if "b \<noteq> e"
    using that b by (auto simp: spanning_def)
  then show "(b, d) \<in> (spanning e V pred rk)\<^sup>*"
    using s e by (cases "b = e") (auto intro: converse_rtrancl_into_rtrancl)
qed

lemma rank_induct [consumes 1, case_names absent entry other]:
  \<comment> \<open>induction along a table\<close>
  assumes "tree e V pred rk I" and "\<And>b. I b = None \<Longrightarrow> P b" and "P e"
    and "\<And>b d. I b = Some d \<Longrightarrow> b \<noteq> e \<Longrightarrow> P d \<Longrightarrow> P b"
  shows "P b"
proof (induction "rk b" arbitrary: b rule: less_induct)
  case less
  then show ?case using assms treeD(4) [OF assms(1)] by (cases "I b"; cases "b = e") blast+
qed

lemma anc_spanning: "tree e V pred rk I \<Longrightarrow> a \<in> anc I b \<Longrightarrow> (b, a) \<in> (spanning e V pred rk)\<^sup>*"
proof -
  assume t: "tree e V pred rk I" and "a \<in> anc I b"
  then have "(b, a) \<in> (up I)\<^sup>*" by (simp add: anc_def)
  then show ?thesis
    by (induction rule: rtrancl_induct) (auto simp: up_def dest: treeD(7) [OF t] intro: rtrancl_trans)
qed

lemma anc_facts:
  assumes "tree e V pred rk I" and "a \<in> anc I b" and "I b \<noteq> None"
  shows "I a \<noteq> None" "a \<in> V" "b \<in> V" "rk a \<le> rk b" "rk a = rk b \<Longrightarrow> a = b"
proof -
  have "(b, a) \<in> (up I)\<^sup>*" using assms(2) by (simp add: anc_def)
  then show "I a \<noteq> None"
    by (induction rule: rtrancl_induct) (use assms(3) in \<open>auto simp: up_def dest: treeD(3) [OF assms(1)]\<close>)
  show "b \<in> V" using assms(1,3) treeD(1) by blast
  with spanning_up anc_spanning [OF assms(1,2)]
  show "a \<in> V" "rk a \<le> rk b" "rk a = rk b \<Longrightarrow> a = b" by blast+
qed

lemma anc_entry: "tree e V pred rk I \<Longrightarrow> anc I e = {e}"
  using anc_facts(4,5) [of I _ e] entry(2) by (auto simp: tree_def)

lemma entry_anc:
  assumes "tree e V pred rk I" and "I b \<noteq> None" shows "e \<in> anc I b"
proof -
  have "I b \<noteq> None \<longrightarrow> e \<in> anc I b"
    using assms(1) by (induction b rule: rank_induct) (auto simp: anc_step dest: treeD(3) [OF assms(1)])
  with assms(2) show ?thesis by simp
qed

lemma anc_less:
  assumes "tree e V pred rk I" and "I b = Some d" and "b \<noteq> e" and "a \<in> anc I d"
  shows "rk a < rk b" "a \<noteq> b"
proof -
  note t = treeD [OF assms(1,2)]
  show "rk a < rk b" using anc_facts(4) [OF assms(1,4) t(3)] t(4) assms(3) by simp
  then show "a \<noteq> b" by blast
qed

lemma anc_by_rank:
  assumes "tree e V pred rk I" "I c \<noteq> None" "a \<in> anc I c" "b \<in> anc I c" "rk a \<le> rk b"
  shows "a \<in> anc I b"
proof -
  have b: "I b \<noteq> None" "I a \<noteq> None" using anc_facts(1) [OF assms(1)] assms(2-4) by blast+
  from anc_linear [OF assms(3,4)] show ?thesis
  proof
    assume "b \<in> anc I a"
    then have "rk b \<le> rk a" "rk b = rk a \<Longrightarrow> b = a" using anc_facts(4,5) [OF assms(1) _ b(2)] by blast+
    then show ?thesis using assms(5) by simp
  qed simp
qed

lemma anc_cong:
  assumes "tree e V pred rk I" and "\<And>x. rk x \<le> rk b \<Longrightarrow> I x = K x"
  shows "anc I b = anc K b"
proof -
  have "(\<forall>x. rk x \<le> rk b \<longrightarrow> I x = K x) \<longrightarrow> anc I b = anc K b"
    using assms(1)
  proof (induction b rule: rank_induct)
    case (absent b)
    then show ?case by (metis anc_None order_refl)
  next
    case entry
    show ?case
    proof
      assume "\<forall>x. rk x \<le> rk e \<longrightarrow> I x = K x"
      then have "K e = Some e" using assms(1) by (metis order_refl tree_def)
      moreover have "a = e" if "(e, a) \<in> (up K)\<^sup>*" for a
        using that calculation by (induction rule: rtrancl_induct) (auto simp: up_def)
      ultimately show "anc I e = anc K e" using anc_entry [OF assms(1)] by (auto simp: anc_def)
    qed
  next
    case (other b d)
    show ?case
    proof
      assume eq: "\<forall>x. rk x \<le> rk b \<longrightarrow> I x = K x"
      then have "K b = Some d" using other.hyps(1) by (metis order_refl)
      moreover have "anc I d = anc K d"
        using other.IH eq treeD(4) [OF assms(1) other.hyps] by auto
      ultimately show "anc I b = anc K b" using other.hyps(1) by (simp add: anc_step)
    qed
  qed
  with assms(2) show ?thesis by blast
qed

text \<open>Two nodes whose chains are climbed in turn keep their common ancestors and lose rank.\<close>

lemma climb_progress:
  assumes "a \<in> V" "b \<in> V" "a \<noteq> b" "rk a' \<le> rk a" "rk b' \<le> rk b" "rk a' \<le> rk b" "rk b' \<le> rk a'"
  shows "rk a' + rk b' < rk a + rk b"
proof (rule ccontr)
  assume "\<not> ?thesis"
  then have "rk a = rk b" using assms(4-7) by simp
  then show False using assms(1-3) rank_inj by (metis inj_onD)
qed

lemma meet_after_climb:
  assumes T: "tree e V pred rk I" and "I a \<noteq> None" "I b \<noteq> None"
    and a': "a' \<in> anc I a" "rk a' \<le> rk b" "\<forall>z\<in>anc I a. rk z \<le> rk b \<longrightarrow> z \<in> anc I a'"
    and b': "b' \<in> anc I b" "\<forall>z\<in>anc I b. rk z \<le> rk a' \<longrightarrow> z \<in> anc I b'"
  shows "anc I a' \<inter> anc I b' = anc I a \<inter> anc I b"
proof
  show "anc I a' \<inter> anc I b' \<subseteq> anc I a \<inter> anc I b"
    using anc_subset [OF a'(1)] anc_subset [OF b'(1)] by blast
  show "anc I a \<inter> anc I b \<subseteq> anc I a' \<inter> anc I b'"
  proof
    fix z assume z: "z \<in> anc I a \<inter> anc I b"
    then have "rk z \<le> rk b" using anc_facts(4) [OF T _ assms(3)] by blast
    then have za: "z \<in> anc I a'" using a'(3) z by blast
    have "rk z \<le> rk a'" by (rule anc_facts(4) [OF T za anc_facts(1) [OF T a'(1) assms(2)]])
    then show "z \<in> anc I a' \<inter> anc I b'" using za b'(2) z by blast
  qed
qed

section \<open>Paths\<close>

lemma evades_extend: "evades e pred x u \<Longrightarrow> u \<in> pred v \<Longrightarrow> v \<noteq> x \<Longrightarrow> u \<noteq> x \<Longrightarrow> evades e pred x v"
  unfolding evades_def avoiding_def by (auto intro: rtrancl_into_rtrancl)

lemma evades_self: "\<not> evades e pred x x"
  unfolding evades_def avoiding_def by (auto elim: rtranclE)

lemma evades_pred: "\<not> evades e pred x v \<Longrightarrow> u \<in> pred v \<Longrightarrow> v \<noteq> x \<Longrightarrow> \<not> evades e pred x u"
  using evades_extend evades_self by blast

lemma evades_down:
  \<comment> \<open>a node evaded high in the spanning tree is evaded below, if its rank is small\<close>
  assumes "(b, y) \<in> (spanning e V pred rk)\<^sup>*" and "b \<in> V" and "rk x \<le> rk y" and "evades e pred x y"
  shows "evades e pred x b"
  using assms(1)
proof (induction rule: converse_rtrancl_induct)
  case (step c u)
  then have c: "c \<in> V" "c \<noteq> e" "u = tree_parent pred rk c" by (auto simp: spanning_def)
  note p = tree_parent [OF c(1,2)]
  have "u \<in> V" using p c pred_nodes by blast
  then have "rk y \<le> rk u" using spanning_up [OF step.hyps(2)] by simp
  then have "c \<noteq> x" using p c(3) assms(3) by auto
  then show ?case using step.IH p c(3) evades_extend evades_self by metis
qed (rule assms(4))

section \<open>One update\<close>

lemma nearest_tree:
  assumes "tree e V pred rk I" and "c \<in> V" and "c \<noteq> e" and "nearest pred I c d"
    and "\<forall>x\<in>V. rk x < rk c \<longrightarrow> I x \<noteq> None"
  shows "d \<in> anc I (tree_parent pred rk c)" "I d \<noteq> None" "rk d < rk c"
    "(tree_parent pred rk c, d) \<in> (spanning e V pred rk)\<^sup>*"
proof -
  let ?u = "tree_parent pred rk c"
  have u: "?u \<in> pred c" "rk ?u < rk c" using tree_parent [OF assms(2,3)] by simp_all
  then have v: "I ?u \<noteq> None" using assms(5) pred_nodes [OF assms(2)] by blast
  have "d \<in> anc I d" by simp
  then show d: "d \<in> anc I ?u" using assms(4) u(1) v unfolding nearest_def by (metis (no_types))
  show "I d \<noteq> None" "rk d < rk c" using anc_facts [OF assms(1) d v] u by simp_all
  show "(?u, d) \<in> (spanning e V pred rk)\<^sup>*" by (rule anc_spanning [OF assms(1) d])
qed

lemma tree_update:
  assumes "tree e V pred rk I" and "c \<in> V" and "c \<noteq> e" and "nearest pred I c d"
    and "\<forall>x\<in>V. rk x < rk c \<longrightarrow> I x \<noteq> None"
  shows "tree e V pred rk (I(c \<mapsto> d))"
proof -
  note d = nearest_tree [OF assms]
  have "(I(c \<mapsto> d)) e = Some e" using assms(1,3) by (simp add: tree_def)
  moreover have "b \<in> V \<and> (I(c \<mapsto> d)) x \<noteq> None \<and>
      (b \<noteq> e \<longrightarrow> (tree_parent pred rk b, x) \<in> (spanning e V pred rk)\<^sup>*)"
    if "(I(c \<mapsto> d)) b = Some x" for b x
  proof (cases "b = c")
    case True
    then show ?thesis using that d assms(2) by simp
  next
    case False
    then have "I b = Some x" using that by simp
    from treeD(1,3,5) [OF assms(1) this] show ?thesis by simp
  qed
  ultimately show ?thesis unfolding tree_def by blast
qed

lemma update_anc:
  assumes "tree e V pred rk I" and "rk b < rk c"
  shows "anc (I(c \<mapsto> d)) b = anc I b"
  by (rule sym, rule anc_cong [OF assms(1)]) (use assms(2) in auto)

lemma covers_update:
  assumes tree: "tree e V pred rk I" and c: "c \<in> V" "c \<noteq> e" "nearest pred I c d"
    and low: "\<forall>x\<in>V. rk x < rk c \<longrightarrow> I x \<noteq> None"
    and "covers e pred I"
  shows "covers e pred (I(c \<mapsto> d))" (is "covers e pred ?J")
proof -
  note tJ = tree_update [OF tree c low]
  note d = nearest_tree [OF tree c low]
  have "?J b \<noteq> None \<longrightarrow> (\<forall>x. \<not> evades e pred x b \<longrightarrow> x \<in> anc ?J b)" for b
    using tJ
  proof (induction b rule: rank_induct)
    case entry
    have "evades e pred x e" if "x \<noteq> e" for x using that by (simp add: evades_def)
    then show ?case by (metis anc_refl)
  next
    case (other b d')
    have "x \<in> anc ?J b" if dom: "\<not> evades e pred x b" for x
    proof (cases "x = b")
      case False
      show ?thesis
      proof (cases "b = c")
        case True
        have "x \<in> anc I p" if "p \<in> pred c" "I p \<noteq> None" for p
          using assms(6) that evades_pred [OF dom] False True unfolding covers_def by blast
        then have "x \<in> anc I d" using c(3) unfolding nearest_def by blast
        then have "x \<in> anc ?J d" using update_anc [OF tree d(3)] by simp
        then show ?thesis using anc_step [of ?J c d] True by simp
      next
        case False
        then have b: "I b = Some d'" using other.hyps by simp
        have "x \<in> anc I b" using assms(6) b dom unfolding covers_def by blast
        then have x: "x \<in> anc I d'" using anc_step [of I b d', OF b] \<open>x \<noteq> b\<close> by simp
        note t = treeD [OF tree b]
        have "rk x \<le> rk d'" using anc_facts(4) [OF tree x] t by blast
        then have "\<not> evades e pred x d'" using evades_down t(1,7) dom by blast
        then have "x \<in> anc ?J d'" using other.IH treeD(3) [OF tJ other.hyps(1)] by blast
        then show ?thesis using anc_step other.hyps(1) by (metis insertI2)
      qed
    qed simp
    then show ?case by blast
  qed simp
  then show ?thesis unfolding covers_def by blast
qed

section \<open>One round\<close>

lemma mix_low: "tree e V pred rk K \<Longrightarrow> rk b < k \<Longrightarrow> anc (mix rk k I K) b = anc K b"
  by (rule sym, rule anc_cong) (auto simp: mix_def)

lemma rounded_nearest:
  \<comment> \<open>what a round leaves behind a node, in terms of the final table\<close>
  assumes "tree e V pred rk K" and "c \<noteq> e" and "rounded pred rk I K c"
  obtains d where "K c = Some d" "rk d < rk c" "anc K c = insert c (anc K d)"
    "\<And>z. z \<in> anc K d \<longleftrightarrow>
       (\<forall>p\<in>pred c. mix rk (rk c) I K p \<noteq> None \<longrightarrow> z \<in> anc (mix rk (rk c) I K) p)"
proof -
  obtain d where d: "K c = Some d" "nearest pred (mix rk (rk c) I K) c d"
    using assms(3) unfolding rounded_def by blast
  have less: "rk d < rk c" using treeD(4) [OF assms(1) d(1) assms(2)] .
  show ?thesis
    using that [OF d(1) less anc_step [of K c d, OF d(1)]] d(2) mix_low [OF assms(1) less]
    unfolding nearest_def by simp
qed


lemma rounded_all:
  "tree e V pred rk K \<Longrightarrow> \<forall>c\<in>V - {e}. rounded pred rk I K c \<Longrightarrow> b \<in> V \<Longrightarrow> K b \<noteq> None"
  unfolding rounded_def tree_def by (cases "b = e") auto

lemma mix_shrinks:
  assumes I: "tree e V pred rk I" and K: "tree e V pred rk K"
    and low: "\<forall>b. rk b < k \<longrightarrow> I b \<noteq> None \<longrightarrow> anc K b \<subseteq> anc I b" and "I p \<noteq> None"
  shows "anc (mix rk k I K) p \<subseteq> anc I p"
proof -
  have "I p \<noteq> None \<longrightarrow> anc (mix rk k I K) p \<subseteq> anc I p"
    using I
  proof (induction p rule: rank_induct)
    case entry
    show ?case
    proof (cases "0 < k")
      case True
      then show ?thesis using mix_low [OF K, of e k I] low anc_entry [OF I] anc_entry [OF K] rank_entry by simp
    next
      case False
      then show ?thesis by (simp add: mix_def [abs_def])
    qed
  next
    case (other b d)
    show ?case
    proof (cases "rk b < k")
      case True
      then show ?thesis using mix_low [OF K True, of I] low by simp
    next
      case False
      then have "mix rk k I K b = Some d" using other.hyps by (simp add: mix_def)
      then have "anc (mix rk k I K) b = insert b (anc (mix rk k I K) d)" by (rule anc_step)
      moreover have "anc I b = insert b (anc I d)" using other.hyps(1) by (rule anc_step)
      moreover have "I d \<noteq> None" by (rule treeD(3) [OF I other.hyps(1)])
      ultimately show ?thesis using other.IH by blast
    qed
  qed simp
  with assms(4) show ?thesis by blast
qed

lemma round_shrinks:
  \<comment> \<open>the ancestors of a node that was in the table shrink\<close>
  assumes I: "tree e V pred rk I" and K: "tree e V pred rk K"
    and rounded: "\<forall>c\<in>V - {e}. rounded pred rk I K c"
    and "(\<forall>b. b \<noteq> e \<longrightarrow> I b = None) \<or> (\<forall>b\<in>V. I b \<noteq> None) \<and> meets e V pred I"
    and "I b \<noteq> None"
  shows "anc K b \<subseteq> anc I b"
  using assms(5)
proof (induction "rk b" arbitrary: b rule: less_induct)
  case less
  show ?case
  proof (cases "b = e")
    case True
    then show ?thesis using anc_entry I K by simp
  next
    case False
    let ?J = "mix rk (rk b) I K"
    have all: "\<forall>b\<in>V. I b \<noteq> None" and m: "meets e V pred I" using assms(4) less.prems False by auto
    have b: "b \<in> V" using less.prems treeD(1) [OF I] by blast
    then have "rounded pred rk I K b" using rounded False by blast
    from rounded_nearest [OF K False this] obtain d where d: "rk d < rk b" "anc K b = insert b (anc K d)"
      "\<And>z. z \<in> anc K d \<longleftrightarrow> (\<forall>p\<in>pred b. ?J p \<noteq> None \<longrightarrow> z \<in> anc ?J p)"
      by metis
    have J: "anc ?J p \<subseteq> anc I p" if "p \<in> pred b" for p
    proof (rule mix_shrinks [OF I K])
      show "\<forall>x. rk x < rk b \<longrightarrow> I x \<noteq> None \<longrightarrow> anc K x \<subseteq> anc I x" using less.hyps by blast
      show "I p \<noteq> None" using all pred_nodes [OF b] that by blast
    qed
    have J_all: "?J p \<noteq> None" if "p \<in> pred b" for p
    proof -
      have "p \<in> V" using that pred_nodes [OF b] by blast
      moreover have "K p \<noteq> None" using rounded_all [OF K rounded calculation] .
      ultimately show ?thesis using all unfolding mix_def by (cases "rk p < rk b") simp_all
    qed
    have "z \<in> anc I b" if z: "z \<in> anc K d" "z \<noteq> b" for z
    proof -
      have "\<forall>p\<in>pred b. z \<in> anc I p" using z d(3) J J_all by blast
      then show ?thesis using m b False z(2) unfolding meets_def by blast
    qed
    then show ?thesis unfolding d(2) using anc_refl [of b I] by blast
  qed
qed

lemma rounded_tight:
  \<comment> \<open>going up the spanning tree does not lose an ancestor of small rank\<close>
  assumes K: "tree e V pred rk K" and rounded: "\<forall>c\<in>V - {e}. rounded pred rk I K c"
    and "p \<in> V" "(p, y) \<in> (spanning e V pred rk)\<^sup>*" "z \<in> anc K p" "rk z \<le> rk y"
  shows "z \<in> anc K y"
  using assms(4,3,5,6)
proof (induction rule: converse_rtrancl_induct)
  case (step c u)
  then have c: "c \<noteq> e" "u = tree_parent pred rk c" by (auto simp: spanning_def)
  note u = tree_parent [OF step.prems(1) c(1)]
  have uV: "u \<in> V" using u c pred_nodes [OF step.prems(1)] by blast
  have ranks: "rk y \<le> rk u" using spanning_up [OF step.hyps(2) uV] by simp
  have "rounded pred rk I K c" using rounded step.prems(1) c(1) by blast
  from rounded_nearest [OF K c(1) this] obtain d where d: "K c = Some d" "anc K c = insert c (anc K d)"
    "\<And>z. z \<in> anc K d \<longleftrightarrow>
       (\<forall>p\<in>pred c. mix rk (rk c) I K p \<noteq> None \<longrightarrow> z \<in> anc (mix rk (rk c) I K) p)"
    by metis
  have "K u \<noteq> None" by (rule rounded_all [OF K rounded uV])
  then have "mix rk (rk c) I K u \<noteq> None" using u c(2) by (simp add: mix_def)
  moreover have "z \<in> anc K d" using step.prems d(2) u ranks c(2) by auto
  ultimately have "z \<in> anc (mix rk (rk c) I K) u" using d(3) u c(2) by blast
  then have "z \<in> anc K u" using mix_low [OF K] u c(2) by simp
  then show ?case using step.IH uV step.prems(3) by blast
qed

lemma mix_keeps:
  assumes I: "tree e V pred rk I" and K: "tree e V pred rk K"
    and rounded: "\<forall>c\<in>V - {e}. rounded pred rk I K c"
    and shrinks: "\<forall>b. I b \<noteq> None \<longrightarrow> anc K b \<subseteq> anc I b"
    and "z \<in> anc K p" "rk z < k" "I p \<noteq> None"
  shows "z \<in> anc (mix rk k I K) p"
proof -
  have "I p \<noteq> None \<longrightarrow> z \<in> anc K p \<longrightarrow> z \<in> anc (mix rk k I K) p"
    using I
  proof (induction p rule: rank_induct)
    case entry
    then show ?case using anc_entry [OF K] by auto
  next
    case (other b d)
    show ?case
    proof (cases "rk b < k")
      case True
      then show ?thesis using mix_low [OF K True, of I] by simp
    next
      case False
      show ?thesis
      proof (intro impI)
        assume "I b \<noteq> None" and z: "z \<in> anc K b"
        have step: "anc I b = insert b (anc I d)" using other.hyps(1) by (rule anc_step)
        have "z \<noteq> b" using False assms(6) by auto
        then have "z \<in> anc I d" using z shrinks \<open>I b \<noteq> None\<close> step by blast
        note t = treeD [OF I other.hyps(1)]
        have "rk z \<le> rk d" by (rule anc_facts(4) [OF I \<open>z \<in> anc I d\<close> t(3)])
        then have "z \<in> anc K d" using rounded_tight [OF K rounded t(1,7) z] by blast
        then have "z \<in> anc (mix rk k I K) d" using other.IH t(3) by blast
        moreover have "mix rk k I K b = Some d" using False other.hyps(1) by (simp add: mix_def)
        then have "anc (mix rk k I K) b = insert b (anc (mix rk k I K) d)" by (rule anc_step)
        ultimately show "z \<in> anc (mix rk k I K) b" by blast
      qed
    qed
  qed simp
  with assms(5,7) show ?thesis by blast
qed

lemma round_meets:
  assumes I: "tree e V pred rk I" and K: "tree e V pred rk K"
    and rounded: "\<forall>c\<in>V - {e}. rounded pred rk I K c"
    and start: "(\<forall>b. b \<noteq> e \<longrightarrow> I b = None) \<or> (\<forall>b\<in>V. I b \<noteq> None) \<and> meets e V pred I"
  shows "meets e V pred K"
  unfolding meets_def
proof (intro ballI allI impI)
  fix c z assume c: "c \<in> V - {e}" and "z \<noteq> c" and z: "\<forall>p\<in>pred c. z \<in> anc K p"
  let ?J = "mix rk (rk c) I K"
  have "c \<noteq> e" "rounded pred rk I K c" using rounded c by blast+
  from rounded_nearest [OF K this] obtain d where d: "anc K c = insert c (anc K d)"
    "\<And>z. z \<in> anc K d \<longleftrightarrow> (\<forall>p\<in>pred c. ?J p \<noteq> None \<longrightarrow> z \<in> anc ?J p)"
    by metis
  obtain u where u: "u \<in> pred c" "rk u < rk c" using ranked c by blast
  have "K u \<noteq> None" using rounded_all [OF K rounded] pred_nodes c u(1) by blast
  then have less: "rk z < rk c" using anc_facts(4) [OF K, of z u] z u by fastforce
  have "z \<in> anc ?J p" if p: "p \<in> pred c" "?J p \<noteq> None" for p
  proof (cases "I p = None")
    case True
    with p(2) have "rk p < rk c" by (auto simp: mix_def split: if_splits)
    then show ?thesis using mix_low [OF K] z p(1) by simp
  next
    case False
    show ?thesis
    proof (rule mix_keeps [OF I K rounded _ _ less False])
      show "\<forall>b. I b \<noteq> None \<longrightarrow> anc K b \<subseteq> anc I b" using round_shrinks [OF I K rounded start] by blast
      show "z \<in> anc K p" using z p(1) by blast
    qed
  qed
  then show "z \<in> anc K c" using d by blast
qed

section \<open>Start, progress and fixed points\<close>

lemma tree_start: "tree e V pred rk [e \<mapsto> e]"
  using entry(1) by (auto simp: tree_def split: if_splits)

lemma covers_start: "covers e pred [e \<mapsto> e]"
  unfolding covers_def
proof (intro allI impI)
  fix b x assume "[e \<mapsto> e] b \<noteq> None" and "\<not> evades e pred x b"
  then have "b = e" "x = e" by (auto simp: evades_def split: if_splits)
  then show "x \<in> anc [e \<mapsto> e] b" by simp
qed

lemma weight_decreases:
  assumes I: "tree e V pred rk I" and K: "tree e V pred rk K"
    and all: "\<forall>b\<in>V. I b \<noteq> None" "\<forall>b\<in>V. K b \<noteq> None"
    and shrinks: "\<forall>b. I b \<noteq> None \<longrightarrow> anc K b \<subseteq> anc I b" and "K \<noteq> I"
  shows "weight V rk K < weight V rk I"
proof -
  have le: "rk (the (K b)) \<le> rk (the (I b)) \<and> (rk (the (K b)) = rk (the (I b)) \<longrightarrow> K b = I b)"
    if b: "b \<in> V" for b
  proof (cases "b = e")
    case True
    then show ?thesis using I K by (simp add: tree_def)
  next
    case False
    obtain d d' where d: "K b = Some d" "I b = Some d'" using all b by blast
    have steps: "anc K b = insert b (anc K d)" "anc I b = insert b (anc I d')"
      using d by (auto dest: anc_step)
    have "d \<in> anc K b" by (simp add: steps(1))
    moreover have "anc K b \<subseteq> anc I b" using shrinks d(2) by blast
    ultimately have "d \<in> anc I b" by blast
    moreover have "d \<noteq> b" using treeD(4) [OF K d(1) False] by auto
    ultimately have a: "d \<in> anc I d'" using steps(2) by simp
    show ?thesis using anc_facts(4,5) [OF I a treeD(3) [OF I d(2)]] d by auto
  qed
  have "\<exists>b\<in>V. K b \<noteq> I b"
  proof (rule ccontr)
    assume "\<not> ?thesis"
    moreover have "K b = I b" if "b \<notin> V" for b
    proof -
      have "K b = None" "I b = None" using that treeD(1) [OF K] treeD(1) [OF I] by (meson option.exhaust)+
      then show ?thesis by simp
    qed
    ultimately show False using \<open>K \<noteq> I\<close> by blast
  qed
  then have "\<exists>b\<in>V. rk (the (K b)) < rk (the (I b))" using le by (meson le_neq_implies_less)
  moreover have "\<forall>b\<in>V. rk (the (K b)) \<le> rk (the (I b))" using le by blast
  ultimately show ?thesis unfolding weight_def by (meson sum_strict_mono_ex1 finite_nodes)
qed

lemma mix_same [simp]: "mix rk k I I = I"
  by (simp add: mix_def fun_eq_iff)

theorem fixed_point:
  assumes I: "tree e V pred rk I" and "covers e pred I" and rounded: "\<forall>c\<in>V - {e}. rounded pred rk I I c"
    and v: "v \<in> V"
  shows "a \<in> anc I v \<longleftrightarrow> \<not> evades e pred a v"
proof
  assume "\<not> evades e pred a v"
  then show "a \<in> anc I v"
    using assms(2) rounded_all [OF I rounded v] unfolding covers_def by blast
next
  have "v \<in> V \<longrightarrow> a \<notin> anc I v" if "a \<noteq> e" "(e, v) \<in> (avoiding pred a)\<^sup>*"
    using that(2)
  proof (induction rule: rtrancl_induct)
    case base
    show ?case using anc_entry [OF I] that(1) by simp
  next
    case (step u w)
    then have u: "u \<in> pred w" "w \<noteq> a" by (auto simp: avoiding_def)
    show ?case
    proof (intro impI notI)
      assume w: "w \<in> V" and a: "a \<in> anc I w"
      then have "u \<in> V" using u pred_nodes by blast
      have "w \<noteq> e" using a anc_entry [OF I] that(1) by auto
      then have "rounded pred rk I I w" using rounded w by blast
      from rounded_nearest [OF I \<open>w \<noteq> e\<close> this] obtain d where d: "anc I w = insert w (anc I d)"
        "\<And>z. z \<in> anc I d \<longleftrightarrow> (\<forall>p\<in>pred w. I p \<noteq> None \<longrightarrow> z \<in> anc I p)"
        unfolding mix_same by metis
      have "a \<in> anc I d" using a u(2) by (simp add: d(1))
      then have "a \<in> anc I u" using d(2) u(1) rounded_all [OF I rounded \<open>u \<in> V\<close>] by blast
      then show False using step.IH \<open>u \<in> V\<close> by blast
    qed
  qed
  then show "a \<in> anc I v \<Longrightarrow> \<not> evades e pred a v" using v unfolding evades_def by blast
qed

section \<open>The round as a loop over the nodes in rank order\<close>

lemma during_start: "sound e V pred rk I \<Longrightarrow> during e V pred rk I 0 I"
  by (simp add: during_def sound_def)

lemma during_entry: "during e V pred rk I 0 J \<Longrightarrow> during e V pred rk I (Suc 0) J"
  using rank_inj entry by (auto simp: during_def inj_on_def)

lemma during_low:
  assumes "during e V pred rk I k J" shows "\<forall>x\<in>V. rk x < k \<longrightarrow> J x \<noteq> None"
  using assms unfolding during_def rounded_def tree_def by (metis DiffI option.distinct(1) singletonD)

lemma during_step:
  assumes d: "during e V pred rk I (rk c) J" and c: "c \<in> V" "c \<noteq> e" "nearest pred J c d"
  shows "during e V pred rk I (Suc (rk c)) (J(c \<mapsto> d))" (is "during e V pred rk I _ ?J")
proof -
  have J: "tree e V pred rk J" "covers e pred J" "\<forall>b. rk c \<le> rk b \<longrightarrow> J b = I b"
    "\<forall>x\<in>V - {e}. rk x < rk c \<longrightarrow> rounded pred rk I J x"
    using d unfolding during_def by blast+
  note low = during_low [OF d]
  have same: "mix rk (rk x) I ?J = mix rk (rk x) I J" if "rk x \<le> rk c" for x
    using that by (auto simp: mix_def fun_eq_iff)
  have here: "mix rk (rk c) I J = J" using J(3) by (auto simp: mix_def fun_eq_iff)
  have "rounded pred rk I ?J x" if x: "x \<in> V - {e}" "rk x < Suc (rk c)" for x
  proof (cases "x = c")
    case True
    then show ?thesis using c(3) same [of c] here by (simp add: rounded_def)
  next
    case False
    then have "rk x < rk c" using x c(1) rank_inj by (metis DiffD1 inj_on_def less_SucE)
    then show ?thesis using J(4) x(1) same [of x] False by (simp add: rounded_def)
  qed
  moreover have "tree e V pred rk ?J" by (rule tree_update [OF J(1) c low])
  moreover have "covers e pred ?J" by (rule covers_update [OF J(1) c low J(2)])
  moreover have "?J b = I b" if "Suc (rk c) \<le> rk b" for b using that J(3) by auto
  ultimately show ?thesis unfolding during_def by blast
qed

lemma nearest_exists:
  \<comment> \<open>in the middle of a round, some predecessor of the next node is in the table\<close>
  assumes "during e V pred rk I (rk c) J" "c \<in> V" "c \<noteq> e"
  shows "\<exists>p\<in>pred c. J p \<noteq> None"
  using ranked [OF assms(2,3)] during_low [OF assms(1)] pred_nodes [OF assms(2)] by blast

theorem round_end:
  assumes I: "sound e V pred rk I" and K: "during e V pred rk I k K" and k: "\<forall>b\<in>V. rk b < k"
  shows "sound e V pred rk K" "\<forall>b\<in>V. K b \<noteq> None"
    "\<forall>b\<in>V. I b \<noteq> None \<Longrightarrow> K \<noteq> I \<Longrightarrow> weight V rk K < weight V rk I"
    "K = I \<Longrightarrow> v \<in> V \<Longrightarrow> a \<in> anc K v \<longleftrightarrow> \<not> evades e pred a v"
proof -
  have start: "(\<forall>b. b \<noteq> e \<longrightarrow> I b = None) \<or> (\<forall>b\<in>V. I b \<noteq> None) \<and> meets e V pred I"
    and tI: "tree e V pred rk I" using I by (auto simp: sound_def)
  have K': "tree e V pred rk K" "covers e pred K" "\<forall>c\<in>V - {e}. rounded pred rk I K c"
    using K k unfolding during_def by blast+
  show all: "\<forall>b\<in>V. K b \<noteq> None" using rounded_all [OF K'(1,3)] by blast
  show "sound e V pred rk K"
    using K'(1,2) all round_meets [OF tI K'(1,3) start] unfolding sound_def by blast
  show "weight V rk K < weight V rk I" if "\<forall>b\<in>V. I b \<noteq> None" "K \<noteq> I"
  proof (rule weight_decreases [OF tI K'(1) that(1) all _ that(2)])
    show "\<forall>b. I b \<noteq> None \<longrightarrow> anc K b \<subseteq> anc I b"
      using round_shrinks [OF tI K'(1,3) start] by blast
  qed
  show "a \<in> anc K v \<longleftrightarrow> \<not> evades e pred a v" if "K = I" "v \<in> V"
    using fixed_point [OF K'(1,2) _ that(2)] K'(3) that(1) by simp
qed

lemma sound_start: "sound e V pred rk [e \<mapsto> e]"
  using tree_start covers_start by (simp add: sound_def)

end

end
