(* ===== verification/Dominators_Order.thy ===== *)
theory Dominators_Order
  imports Dominators Dominance
begin

text \<open>
  What the first phases of \<open>Dominators::compute\<close> leave behind: the blocks the search marks are the
  ones reachable from the entry, its post order lists each of them once, the entry last and every
  other block before one of its predecessors, and the tables of positions and of predecessors
  say the same of every block. These are the promises of a ranked flow graph.
\<close>

section \<open>The flow graph over block indices\<close>

definition index_edges :: "Function \<Rightarrow> (nat \<times> nat) set" where
  "index_edges fn = {(a, b). b \<in> set (targets_of fn a)}"

definition flow_to :: "Function \<Rightarrow> nat set" where
  "flow_to fn = {b. (bix (fn_entry fn), b) \<in> (index_edges fn)\<^sup>*}"

lemma targets_less: "s \<in> set (targets_of fn b) \<Longrightarrow> s < length (fn_blocks fn)"
  by (auto simp: targets_of_def)

lemma flow_to_step: "u \<in> flow_to fn \<Longrightarrow> s \<in> set (targets_of fn u) \<Longrightarrow> s \<in> flow_to fn"
  by (auto simp: flow_to_def index_edges_def intro: rtrancl_into_rtrancl)

section \<open>The search\<close>

definition opened :: "(nat \<times> bool) list \<Rightarrow> nat list" where
  \<comment> \<open>the blocks on the stack whose successors have been pushed\<close>
  "opened stack = map fst (filter snd stack)"

fun supported :: "(nat \<Rightarrow> nat list) \<Rightarrow> nat \<Rightarrow> (nat \<times> bool) list \<Rightarrow> bool" where
  "supported succ r [] = True"
| "supported succ r ((b, _) # stack) \<longleftrightarrow>
     (b = r \<and> stack = [] \<or> (\<exists>u\<in>set (opened stack). b \<in> set (succ u))) \<and> supported succ r stack"

definition search_inv ::
  "Function \<Rightarrow> (nat \<times> bool) list \<Rightarrow> bool list \<Rightarrow> nat list \<Rightarrow> bool" where
  "search_inv fn stack R P \<longleftrightarrow>
     length R = length (fn_blocks fn) \<and>
     distinct (opened stack @ P) \<and>
     {b. b < length R \<and> R ! b} = set (opened stack) \<union> set P \<and>
     set (opened stack) \<union> set P \<subseteq> flow_to fn \<and>
     supported (targets_of fn) (bix (fn_entry fn)) stack \<and>
     (bix (fn_entry fn) \<in> set P \<union> fst ` set stack) \<and>
     (\<forall>b\<in>set (opened stack) \<union> set P. set (targets_of fn b) \<subseteq> set P \<union> fst ` set stack) \<and>
     (\<forall>P1 b P2. P = P1 @ b # P2 \<longrightarrow>
        b = bix (fn_entry fn) \<or> (\<exists>u\<in>set P2 \<union> set (opened stack). b \<in> set (targets_of fn u)))"

lemma search_invD:
  assumes "search_inv fn stack R P"
  shows "length R = length (fn_blocks fn)" and "distinct (opened stack @ P)"
    and "{b. b < length R \<and> R ! b} = set (opened stack) \<union> set P"
    and "set (opened stack) \<union> set P \<subseteq> flow_to fn"
    and "supported (targets_of fn) (bix (fn_entry fn)) stack"
    and "bix (fn_entry fn) \<in> set P \<union> fst ` set stack"
    and "\<forall>b\<in>set (opened stack) \<union> set P. set (targets_of fn b) \<subseteq> set P \<union> fst ` set stack"
    and "\<forall>P1 b P2. P = P1 @ b # P2 \<longrightarrow>
      b = bix (fn_entry fn) \<or> (\<exists>u\<in>set P2 \<union> set (opened stack). b \<in> set (targets_of fn u))"
  using assms unfolding search_inv_def by - (elim conjE, assumption)+

lemma opened_simps [simp]:
  "opened [] = []" "opened ((b, True) # stack) = b # opened stack"
  "opened ((b, False) # stack) = opened stack"
  by (simp_all add: opened_def)

lemma opened_subset: "set (opened stack) \<subseteq> fst ` set stack"
  by (auto simp: opened_def)

lemma push_unreached_facts:
  "opened (push_unreached R ts stack) = opened stack"
  "fst ` set (push_unreached R ts stack) = fst ` set stack \<union> {s \<in> set ts. \<not> R ! s}"
  "\<forall>s\<in>set ts. \<exists>u\<in>set (opened stack). s \<in> set (succ u) \<Longrightarrow>
     supported succ r stack \<Longrightarrow> supported succ r (push_unreached R ts stack)"
  unfolding push_unreached_def by (induction ts arbitrary: stack) auto

lemma supported_entry:
  assumes "search_inv fn ((b, x) # stack) R P"
  shows "b \<in> flow_to fn" "b = bix (fn_entry fn) \<or> b < length R"
proof -
  note inv = search_invD [OF assms]
  have o: "set (opened stack) \<subseteq> set (opened ((b, x) # stack))" by (auto simp: opened_def)
  from inv(5) consider "b = bix (fn_entry fn)" | u where "u \<in> set (opened stack)" "b \<in> set (targets_of fn u)"
    by auto
  then have "b \<in> flow_to fn \<and> (b = bix (fn_entry fn) \<or> b < length R)"
  proof cases
    case 1
    then show ?thesis by (simp add: flow_to_def)
  next
    case 2
    then have "u \<in> flow_to fn" using inv(4) o by blast
    then show ?thesis using 2(2) flow_to_step targets_less inv(1) by metis
  qed
  then show "b \<in> flow_to fn" "b = bix (fn_entry fn) \<or> b < length R" by simp_all
qed

lemma search_finish:
  assumes "search_inv fn ((b, True) # stack) R P"
  shows "search_inv fn stack R (P @ [b])"
proof -
  note inv = search_invD [OF assms, simplified]
  have order: "x = bix (fn_entry fn) \<or> (\<exists>u\<in>set P2 \<union> set (opened stack). x \<in> set (targets_of fn u))"
    if eq: "P @ [b] = P1 @ x # P2" for P1 x P2
  proof (cases P2 rule: rev_cases)
    case Nil
    with eq inv(5) show ?thesis by auto
  next
    case (snoc Q y)
    with eq have "P = P1 @ x # Q" "y = b" by simp_all
    then show ?thesis using inv(8) snoc by fastforce
  qed
  show ?thesis
    unfolding search_inv_def
  proof (intro conjI allI impI)
    show "{x. x < length R \<and> R ! x} = set (opened stack) \<union> set (P @ [b])" using inv(3) by simp
    show "\<forall>x\<in>set (opened stack) \<union> set (P @ [b]). set (targets_of fn x) \<subseteq> set (P @ [b]) \<union> fst ` set stack"
      using inv(7) by simp
    show "bix (fn_entry fn) \<in> set (P @ [b]) \<union> fst ` set stack" using inv(6) by auto
  qed (use inv(1,2,4,5) order in auto)
qed

lemma search_skip:
  assumes "search_inv fn ((b, False) # stack) R P" and "R ! b" "b < length R"
  shows "search_inv fn stack R P"
proof -
  note inv = search_invD [OF assms(1), simplified]
  have b: "b \<in> set P \<union> fst ` set stack" using assms(2,3) inv(3) opened_subset [of stack] by blast
  show ?thesis
    unfolding search_inv_def
  proof (intro conjI)
    show "\<forall>x\<in>set (opened stack) \<union> set P. set (targets_of fn x) \<subseteq> set P \<union> fst ` set stack"
      using inv(7) b by blast
    show "bix (fn_entry fn) \<in> set P \<union> fst ` set stack" using inv(6) b by auto
    show "\<forall>P1 b P2. P = P1 @ b # P2 \<longrightarrow>
      b = bix (fn_entry fn) \<or> (\<exists>u\<in>set P2 \<union> set (opened stack). b \<in> set (targets_of fn u))"
      by (rule inv(8))
  qed (use inv(1-5) in auto)
qed

lemma search_open:
  assumes "search_inv fn ((b, False) # stack) R P" and "\<not> R ! b" "b < length R"
  shows "search_inv fn
    (push_unreached (R[b := True]) (targets_of fn b) ((b, True) # stack)) (R[b := True]) P"
proof -
  note inv = search_invD [OF assms(1), simplified]
  let ?R = "R[b := True]" and ?r = "bix (fn_entry fn)"
  let ?st = "push_unreached ?R (targets_of fn b) ((b, True) # stack)"
  have new: "b \<notin> set (opened stack)" "b \<notin> set P" using assms(2) inv(3) by auto
  have marks: "{x. x < length ?R \<and> ?R ! x} = insert b (set (opened stack) \<union> set P)"
    unfolding inv(3) [symmetric] using assms(3) by (auto simp: nth_list_update)
  have o: "opened ?st = b # opened stack" by (simp add: push_unreached_facts(1))
  have f: "fst ` set ?st = insert b (fst ` set stack) \<union> {s \<in> set (targets_of fn b). \<not> ?R ! s}"
    by (simp add: push_unreached_facts(2))
  have sup: "supported (targets_of fn) ?r ?st"
    by (rule push_unreached_facts(3)) (use inv(5) in auto)
  have seen: "x \<in> set P \<union> fst ` set ?st" if x: "x \<in> set (targets_of fn b)" for x
  proof (cases "?R ! x")
    case True
    moreover have "x < length ?R" using targets_less [OF x] inv(1) by simp
    ultimately have "x \<in> insert b (set (opened stack) \<union> set P)" using marks by blast
    then show ?thesis using opened_subset [of stack] unfolding f by blast
  qed (use x f in blast)
  show ?thesis
    unfolding search_inv_def o
  proof (intro conjI ballI allI impI)
    show "set (b # opened stack) \<union> set P \<subseteq> flow_to fn"
      using inv(4) supported_entry(1) [OF assms(1)] by simp
    show "supported (targets_of fn) ?r ?st" by (rule sup)
    show "?r \<in> set P \<union> fst ` set ?st" unfolding f using inv(6) by auto
    show "{x. x < length ?R \<and> ?R ! x} = set (b # opened stack) \<union> set P" using marks by simp
    show "length ?R = length (fn_blocks fn)" using inv(1) by simp
    show "distinct ((b # opened stack) @ P)" using inv(2) new by simp
    show "set (targets_of fn x) \<subseteq> set P \<union> fst ` set ?st" if x: "x \<in> set (b # opened stack) \<union> set P" for x
    proof (cases "x = b")
      case False
      then have "x \<in> set (opened stack) \<union> set P" using x by simp
      then have "set (targets_of fn x) \<subseteq> insert b (set P \<union> fst ` set stack)" using inv(7) by blast
      then show ?thesis unfolding f by blast
    qed (use seen in blast)
    show "x = ?r \<or> (\<exists>u\<in>set P2 \<union> set (b # opened stack). x \<in> set (targets_of fn u))"
      if "P = P1 @ x # P2" for P1 x P2
      using inv(8) that by fastforce
  qed
qed

lemma dom_dfs_inv:
  "search_inv fn stack R P \<Longrightarrow> bix (fn_entry fn) < length (fn_blocks fn) \<Longrightarrow>
     \<exists>R' P'. dom_dfs fn stack R P = Some (R', P') \<and> search_inv fn [] R' P'"
proof (induction fn stack R P rule: dom_dfs.induct)
  case (2 fn b x stack R P)
  have len: "length R = length (fn_blocks fn)" using "2.prems"(1) by (simp add: search_inv_def)
  have b: "get_at R b = Some (R ! b)"
    using supported_entry(2) [OF "2.prems"(1)] "2.prems"(2) len by (auto simp: get_at_def)
  then have "b < length R" by (simp add: get_at_Some_iff)
  show ?case
  proof (cases x)
    case True
    then show ?thesis using "2.IH"(1) search_finish "2.prems" by simp
  next
    case closed: False
    show ?thesis
    proof (cases "R ! b")
      case True
      then show ?thesis
        using "2.IH"(2) [of True] search_skip [of fn b stack R P] "2.prems" closed b \<open>b < length R\<close> by simp
    next
      case False
      then show ?thesis
        using "2.IH"(3) [of False] search_open [of fn b stack R P] "2.prems" closed b \<open>b < length R\<close>
        by (simp add: Let_def)
    qed
  qed
qed simp

lemma dom_dfs_final:
  assumes "bix (fn_entry fn) < length (fn_blocks fn)"
  shows "\<exists>R P. dom_dfs fn [(bix (fn_entry fn), False)] (replicate (length (fn_blocks fn)) False) [] = Some (R, P)
     \<and> length R = length (fn_blocks fn) \<and> (\<forall>b. b < length R \<longrightarrow> R ! b \<longleftrightarrow> b \<in> flow_to fn)
     \<and> distinct P \<and> set P = flow_to fn
     \<and> (\<forall>P1 b P2. P = P1 @ b # P2 \<longrightarrow>
          b = bix (fn_entry fn) \<or> (\<exists>u\<in>set P2. b \<in> set (targets_of fn u)))"
proof -
  let ?r = "bix (fn_entry fn)" and ?n = "length (fn_blocks fn)"
  have "search_inv fn [(?r, False)] (replicate ?n False) []"
    unfolding search_inv_def by auto
  from dom_dfs_inv [OF this assms] obtain R P where
    run: "dom_dfs fn [(?r, False)] (replicate ?n False) [] = Some (R, P)" and i: "search_inv fn [] R P"
    by blast
  have inv: "length R = ?n" "distinct P" "{b. b < length R \<and> R ! b} = set P" "set P \<subseteq> flow_to fn"
    "?r \<in> set P" "\<forall>b\<in>set P. set (targets_of fn b) \<subseteq> set P"
    using search_invD [OF i] by simp_all
  have "b \<in> set P" if "b \<in> flow_to fn" for b
  proof -
    have "(?r, b) \<in> (index_edges fn)\<^sup>*" using that by (simp add: flow_to_def)
    then show ?thesis by (induction rule: rtrancl_induct) (use inv(5,6) in \<open>auto simp: index_edges_def\<close>)
  qed
  then have "set P = flow_to fn" using inv(4) by blast
  moreover have "R ! b \<longleftrightarrow> b \<in> set P" if "b < length R" for b using inv(3) that by blast
  moreover have "\<forall>P1 b P2. P = P1 @ b # P2 \<longrightarrow> b = ?r \<or> (\<exists>u\<in>set P2. b \<in> set (targets_of fn u))"
    using search_invD(8) [OF i] by simp
  ultimately show ?thesis using run inv(1,2) by blast
qed

section \<open>The ranked flow graph\<close>

definition dom_search :: "Function \<Rightarrow> (bool list \<times> nat list) option" where
  "dom_search fn = dom_dfs fn [(bix (fn_entry fn), False)] (replicate (length (fn_blocks fn)) False) []"

definition dom_order :: "Function \<Rightarrow> nat list" where
  \<comment> \<open>the reverse post order; the entry alone where it is not a block\<close>
  "dom_order fn = (case dom_search fn of None \<Rightarrow> [bix (fn_entry fn)] | Some (_, postorder) \<Rightarrow> rev postorder)"

abbreviation flow_nodes :: "Function \<Rightarrow> nat set" where
  "flow_nodes fn \<equiv> set (dom_order fn)"

abbreviation flow_rank :: "Function \<Rightarrow> nat \<Rightarrow> nat" where
  "flow_rank fn \<equiv> position (dom_order fn)"

definition flow_preds :: "Function \<Rightarrow> nat \<Rightarrow> nat set" where
  "flow_preds fn b = {u \<in> flow_nodes fn. b \<in> set (targets_of fn u)}"

lemma dom_order_facts:
  assumes "bix (fn_entry fn) < length (fn_blocks fn)"
  shows "distinct (dom_order fn)" "flow_nodes fn = flow_to fn" "hd (dom_order fn) = bix (fn_entry fn)"
    "dom_order fn \<noteq> []"
    "b \<in> flow_nodes fn \<Longrightarrow> b \<noteq> bix (fn_entry fn) \<Longrightarrow> \<exists>u\<in>flow_preds fn b. flow_rank fn u < flow_rank fn b"
    "\<exists>R. dom_search fn = Some (R, rev (dom_order fn)) \<and> length R = length (fn_blocks fn) \<and>
       (\<forall>b. b < length R \<longrightarrow> R ! b \<longleftrightarrow> b \<in> flow_nodes fn)"
proof -
  let ?r = "bix (fn_entry fn)"
  obtain R P where run: "dom_search fn = Some (R, P)" and R: "length R = length (fn_blocks fn)"
    "\<forall>b. b < length R \<longrightarrow> R ! b \<longleftrightarrow> b \<in> flow_to fn" and P: "distinct P" "set P = flow_to fn"
    "\<forall>P1 b P2. P = P1 @ b # P2 \<longrightarrow> b = ?r \<or> (\<exists>u\<in>set P2. b \<in> set (targets_of fn u))"
    using dom_dfs_final [OF assms] unfolding dom_search_def by blast
  have o: "dom_order fn = rev P" using run by (simp add: dom_order_def)
  have "?r \<in> set P" using P(2) by (simp add: flow_to_def)
  then obtain P1 z where last: "P = P1 @ [z]" by (cases P rule: rev_cases) auto
  show "distinct (dom_order fn)" "flow_nodes fn = flow_to fn" "dom_order fn \<noteq> []"
    using P(1,2) o last by simp_all
  show "hd (dom_order fn) = ?r" using P(3) [rule_format, of P1 z "[]"] last o by simp
  show "\<exists>R. dom_search fn = Some (R, rev (dom_order fn)) \<and> length R = length (fn_blocks fn) \<and>
       (\<forall>b. b < length R \<longrightarrow> R ! b \<longleftrightarrow> b \<in> flow_nodes fn)" using run R P(2) o by simp
  assume "b \<in> flow_nodes fn" "b \<noteq> ?r"
  then obtain P1 P2 where split: "P = P1 @ b # P2" using o by (auto dest: split_list)
  with P(3) \<open>b \<noteq> ?r\<close> obtain u where u: "u \<in> set P2" "b \<in> set (targets_of fn u)" by blast
  have rev: "dom_order fn = rev P2 @ b # rev P1" using o split by simp
  have "b \<notin> set (rev P2)" using P(1) split by auto
  then have "flow_rank fn b = length (rev P2)" unfolding rev by (rule position_append)
  moreover have "flow_rank fn u < length (rev P2)" unfolding rev by (rule position_in_prefix) (use u in simp)
  moreover have "u \<in> flow_preds fn b" using u rev by (simp add: flow_preds_def)
  ultimately show "\<exists>u\<in>flow_preds fn b. flow_rank fn u < flow_rank fn b" by auto
qed

lemma dom_order_missing: "\<not> bix (fn_entry fn) < length (fn_blocks fn) \<Longrightarrow> dom_order fn = [bix (fn_entry fn)]"
  by (simp add: dom_order_def dom_search_def get_at_def)

interpretation chk: ranked_flow "bix (fn_entry fn)" "flow_nodes fn" "flow_preds fn" "flow_rank fn" for fn
proof
  let ?r = "bix (fn_entry fn)"
  have entry: "?r \<in> flow_nodes fn \<and> flow_rank fn ?r = 0"
  proof (cases "?r < length (fn_blocks fn)")
    case True
    note f = dom_order_facts [OF True]
    then obtain xs where "dom_order fn = ?r # xs" by (cases "dom_order fn") auto
    then show ?thesis by (simp add: position_def)
  qed (simp add: dom_order_missing position_def)
  then show "?r \<in> flow_nodes fn" "flow_rank fn ?r = 0" by simp_all
  show "inj_on (flow_rank fn) (flow_nodes fn)" by (rule position_inj)
  show "flow_preds fn b \<subseteq> flow_nodes fn" for b by (auto simp: flow_preds_def)
  show "\<exists>u\<in>flow_preds fn b. flow_rank fn u < flow_rank fn b" if "b \<in> flow_nodes fn" "b \<noteq> ?r" for b
    using that dom_order_facts(5) dom_order_missing by (cases "?r < length (fn_blocks fn)") auto
qed simp

section \<open>The tables\<close>

lemma rpo_fold:
  "distinct xs \<Longrightarrow> set xs \<subseteq> {..<length table} \<Longrightarrow>
     length (fold (\<lambda>(index, b) table. table[b := Some index]) (enumerate k xs) table) = length table \<and>
     fold (\<lambda>(index, b) table. table[b := Some index]) (enumerate k xs) table ! b =
       (if b \<in> set xs then Some (k + position xs b) else table ! b)"
proof (induction xs arbitrary: k table)
  case (Cons x xs)
  then show ?case using Cons.IH [of "table[x := Some k]" "Suc k"]
    by (auto simp: position_def nth_list_update)
qed (simp add: position_def)

lemma rpo_index_table:
  assumes "bix (fn_entry fn) < length (fn_blocks fn)"
  shows "length (rpo_index_table (length (fn_blocks fn)) (rev (dom_order fn))) = length (fn_blocks fn)"
    "b < length (fn_blocks fn) \<Longrightarrow> rpo_index_table (length (fn_blocks fn)) (rev (dom_order fn)) ! b =
       (if b \<in> flow_nodes fn then Some (flow_rank fn b) else None)"
proof -
  have "b < length (fn_blocks fn)" if "b \<in> flow_to fn" for b
    using that assms targets_less unfolding flow_to_def index_edges_def by (auto elim: rtranclE)
  then have s: "set (dom_order fn) \<subseteq> {..<length (replicate (length (fn_blocks fn)) (None :: nat option))}"
    using dom_order_facts(2) [OF assms] by auto
  from rpo_fold [OF dom_order_facts(1) [OF assms] s, of 0]
  show "length (rpo_index_table (length (fn_blocks fn)) (rev (dom_order fn))) = length (fn_blocks fn)"
    "b < length (fn_blocks fn) \<Longrightarrow> rpo_index_table (length (fn_blocks fn)) (rev (dom_order fn)) ! b =
       (if b \<in> flow_nodes fn then Some (flow_rank fn b) else None)"
    by (simp_all add: rpo_index_table_def)
qed

lemma push_all:
  "\<forall>t\<in>set ts. t < length table \<Longrightarrow>
     length (fold (\<lambda>t table. push_at t x table) ts table) = length table \<and>
     set (fold (\<lambda>t table. push_at t x table) ts table ! j) =
       set (table ! j) \<union> (if j \<in> set ts then {x} else {})"
  by (induction ts arbitrary: table) (auto simp: push_at_nth)

lemma pred_fold:
  assumes "\<forall>u. \<forall>t\<in>set (ts u). t < length table"
  shows "length (fold (\<lambda>(u, r) preds. if r then fold (\<lambda>t preds. push_at t u preds) (ts u) preds else preds)
      (enumerate k R) table) = length table \<and>
    set (fold (\<lambda>(u, r) preds. if r then fold (\<lambda>t preds. push_at t u preds) (ts u) preds else preds)
      (enumerate k R) table ! j) =
      set (table ! j) \<union> {k + i |i. i < length R \<and> R ! i \<and> j \<in> set (ts (k + i))}"
  using assms
proof (induction R arbitrary: k table)
  case (Cons r R)
  let ?table = "if r then fold (\<lambda>t preds. push_at t k preds) (ts k) table else table"
  have p: "length ?table = length table" "set (?table ! j) = set (table ! j) \<union> (if r \<and> j \<in> set (ts k) then {k} else {})"
    using push_all [of "ts k" table k j] Cons.prems by auto
  have "{k + i |i. i < length (r # R) \<and> (r # R) ! i \<and> j \<in> set (ts (k + i))} =
      (if r \<and> j \<in> set (ts k) then {k} else {}) \<union> {Suc k + i |i. i < length R \<and> R ! i \<and> j \<in> set (ts (Suc k + i))}"
    (is "?A = ?B")
  proof (rule set_eqI)
    fix x show "x \<in> ?A \<longleftrightarrow> x \<in> ?B"
      by (auto simp: less_Suc_eq_0_disj)
  qed
  then show ?case using Cons.IH [of ?table "Suc k"] Cons.prems p by (auto simp: Un_assoc)
qed simp

lemma pred_table:
  assumes "length R = length (fn_blocks fn)"
  shows "length (pred_table fn R) = length (fn_blocks fn)"
    "b < length (fn_blocks fn) \<Longrightarrow> set (pred_table fn R ! b) = {u. u < length R \<and> R ! u \<and> b \<in> set (targets_of fn u)}"
proof -
  have "\<forall>u. \<forall>t\<in>set (targets_of fn u). t < length (replicate (length (fn_blocks fn)) ([] :: nat list))"
    using targets_less by auto
  from pred_fold [OF this, where k = 0 and R = R and j = b]
  show "length (pred_table fn R) = length (fn_blocks fn)"
    "b < length (fn_blocks fn) \<Longrightarrow> set (pred_table fn R ! b) = {u. u < length R \<and> R ! u \<and> b \<in> set (targets_of fn u)}"
    by (simp_all add: pred_table_def)
qed

end
