(* ===== verification/Dominators_Fixpoint.thy ===== *)
theory Dominators_Fixpoint
  imports Dominators_Order
begin

text \<open>
  The fixed point of \<open>Dominators::compute\<close> is reached and is the dominator tree. The loops of the
  sources are matched with the tables of the theory of dominance: climbing and intersecting
  computes nearest common ancestors, one pass is one round, the passes end.
\<close>

definition table_of :: "nat option list \<Rightarrow> nat table" where
  "table_of idom b = (case get_at idom b of None \<Rightarrow> None | Some d \<Rightarrow> d)"

abbreviation flow_tree :: "Function \<Rightarrow> nat table \<Rightarrow> bool" where
  "flow_tree fn \<equiv> tree (bix (fn_entry fn)) (flow_nodes fn) (flow_preds fn) (flow_rank fn)"

abbreviation flow_sound :: "Function \<Rightarrow> nat table \<Rightarrow> bool" where
  "flow_sound fn \<equiv> sound (bix (fn_entry fn)) (flow_nodes fn) (flow_preds fn) (flow_rank fn)"

abbreviation flow_during :: "Function \<Rightarrow> nat table \<Rightarrow> nat \<Rightarrow> nat table \<Rightarrow> bool" where
  "flow_during fn \<equiv> during (bix (fn_entry fn)) (flow_nodes fn) (flow_preds fn) (flow_rank fn)"

definition ranks :: "Function \<Rightarrow> nat option list \<Rightarrow> bool" where
  \<comment> \<open>the table of positions agrees with the order\<close>
  "ranks fn rpo \<longleftrightarrow> (\<forall>b\<in>flow_nodes fn. get_at rpo b = Some (Some (flow_rank fn b)))"

lemma table_of_Some: "table_of idom b = Some d \<longleftrightarrow> get_at idom b = Some (Some d)"
  by (auto simp: table_of_def split: option.splits)

lemma table_of_nth: "b < length idom \<Longrightarrow> table_of idom b = idom ! b"
  by (simp add: table_of_def get_at_def)

lemma table_of_update: "b < length idom \<Longrightarrow> table_of (idom[b := x]) = (table_of idom)(b := x)"
  by (auto simp: table_of_def get_at_def fun_eq_iff)

lemma table_of_inj: "length xs = length ys \<Longrightarrow> table_of xs = table_of ys \<longleftrightarrow> xs = ys"
proof
  assume len: "length xs = length ys" and eq: "table_of xs = table_of ys"
  have "xs ! i = ys ! i" if "i < length xs" for i
    using table_of_nth [OF that] table_of_nth [of i ys] that len eq by simp
  then show "xs = ys" using len by (simp add: list_eq_iff_nth_eq)
qed simp

section \<open>Climbing and intersecting\<close>

lemma climb:
  assumes "ranks fn rpo" and T: "flow_tree fn (table_of idom)"
  shows "table_of idom x \<noteq> None \<longrightarrow> (\<exists>y. chk_climb rpo idom x (Some k) = Some y \<and> y \<in> anc (table_of idom) x \<and>
     flow_rank fn y \<le> k \<and> (\<forall>z\<in>anc (table_of idom) x. flow_rank fn z \<le> k \<longrightarrow> z \<in> anc (table_of idom) y))"
  using T
proof (induction x rule: chk.rank_induct)
  case entry
  have "get_at rpo (bix (fn_entry fn)) = Some (Some 0)"
    using assms(1) chk.entry unfolding ranks_def by simp
  then show ?case using chk.rank_entry by (simp add: chk_climb.simps)
next
  case (other x d)
  note t = chk.treeD [OF T other.hyps(1)]
  have x: "get_at rpo x = Some (Some (flow_rank fn x))" using assms(1) t(1) by (simp add: ranks_def)
  have d: "get_at idom x = Some (Some d)" using other.hyps(1) by (simp add: table_of_Some)
  have step: "anc (table_of idom) x = insert x (anc (table_of idom) d)" using other.hyps(1) by (rule anc_step)
  show ?case
  proof (cases "flow_rank fn x \<le> k")
    case True
    then show ?thesis using x by (simp add: chk_climb.simps)
  next
    case False
    then have "chk_climb rpo idom x (Some k) = chk_climb rpo idom d (Some k)"
      using x d by (simp add: chk_climb.simps)
    then show ?thesis using other.IH t(3) step False by auto
  qed
qed simp

lemma intersect:
  assumes R: "ranks fn rpo" and T: "flow_tree fn (table_of idom)"
    and "table_of idom a \<noteq> None" "table_of idom b \<noteq> None"
  shows "\<exists>c. chk_intersect rpo idom a b = Some c \<and> table_of idom c \<noteq> None \<and>
     anc (table_of idom) c = anc (table_of idom) a \<inter> anc (table_of idom) b"
  using assms(3,4)
proof (induction "flow_rank fn a + flow_rank fn b" arbitrary: a b rule: less_induct)
  case less
  let ?I = "table_of idom" and ?rk = "flow_rank fn"
  show ?case
  proof (cases "a = b")
    case True
    then show ?thesis using less.prems by (simp add: chk_intersect.simps)
  next
    case False
    have V: "a \<in> flow_nodes fn" "b \<in> flow_nodes fn" using chk.treeD(1) [OF T] less.prems by blast+
    obtain a' where a': "chk_climb rpo idom a (Some (?rk b)) = Some a'" "a' \<in> anc ?I a" "?rk a' \<le> ?rk b"
      "\<forall>z\<in>anc ?I a. ?rk z \<le> ?rk b \<longrightarrow> z \<in> anc ?I a'"
      using climb [OF R T] less.prems(1) by blast
    obtain b' where b': "chk_climb rpo idom b (Some (?rk a')) = Some b'" "b' \<in> anc ?I b" "?rk b' \<le> ?rk a'"
      "\<forall>z\<in>anc ?I b. ?rk z \<le> ?rk a' \<longrightarrow> z \<in> anc ?I b'"
      using climb [OF R T] less.prems(2) by blast
    note fa = chk.anc_facts [OF T a'(2) less.prems(1)]
    note fb = chk.anc_facts [OF T b'(2) less.prems(2)]
    note meet = chk.meet_after_climb [OF T less.prems a'(2,3,4) b'(2,4)]
    have "?rk a' + ?rk b' < ?rk a + ?rk b"
      by (rule chk.climb_progress [OF V False fa(4) fb(4) a'(3) b'(3)])
    then obtain c where c: "chk_intersect rpo idom a' b' = Some c" "?I c \<noteq> None"
      "anc ?I c = anc ?I a' \<inter> anc ?I b'"
      using less.hyps [of a' b'] fa(1) fb(1) by blast
    have "chk_intersect rpo idom a b = Some c"
      using R V fa(2) False a'(1) b'(1) c(1) by (subst chk_intersect.simps) (simp add: ranks_def)
    then show ?thesis using c(2,3) meet by blast
  qed
qed

section \<open>The predecessors of a block\<close>

text \<open>The loop, over any lookup \<open>L\<close> of a table \<open>I\<close> and any intersection \<open>X\<close>.\<close>

lemma meet_fold:
  assumes X: "\<And>a b. I a \<noteq> None \<Longrightarrow> I b \<noteq> None \<Longrightarrow>
      \<exists>c. X a b = Some c \<and> I c \<noteq> None \<and> anc I c = anc I a \<inter> anc I b"
    and "\<forall>p\<in>set ps. L p = Some (I p)" and "\<forall>c. acc = Some c \<longrightarrow> I c \<noteq> None"
  shows "\<exists>new. fold_option (\<lambda>acc p.
       case L p of
         None \<Rightarrow> None
       | Some None \<Rightarrow> Some acc
       | Some (Some _) \<Rightarrow>
           (case acc of
              None \<Rightarrow> Some (Some p)
            | Some current \<Rightarrow> map_option Some (X p current))) acc ps = Some new \<and>
     (\<forall>c. new = Some c \<longrightarrow> I c \<noteq> None \<and>
        (\<forall>z. z \<in> anc I c \<longleftrightarrow>
           (\<forall>a. acc = Some a \<longrightarrow> z \<in> anc I a) \<and> (\<forall>p\<in>set ps. I p \<noteq> None \<longrightarrow> z \<in> anc I p))) \<and>
     (new = None \<longrightarrow> acc = None \<and> (\<forall>p\<in>set ps. I p = None))"
  using assms(2,3)
proof (induction ps arbitrary: acc)
  case Nil
  then show ?case by (cases acc) auto
next
  case (Cons p ps)
  have p: "L p = Some (I p)" and ps: "\<forall>p\<in>set ps. L p = Some (I p)" using Cons.prems(1) by simp_all
  show ?case
  proof (cases "I p")
    case None
    then show ?thesis using p Cons.IH [OF ps Cons.prems(2)] by auto
  next
    case (Some d)
    show ?thesis
    proof (cases acc)
      case None
      then show ?thesis using p Some Cons.IH [OF ps, of "Some p"] by auto
    next
      case (Some current)
      then obtain c where c: "X p current = Some c" "I c \<noteq> None" "anc I c = anc I p \<inter> anc I current"
        using X [of p current] Cons.prems(2) \<open>I p = Some d\<close> by auto
      then show ?thesis using p Some \<open>I p = Some d\<close> Cons.IH [OF ps, of "Some c"] by auto
    qed
  qed
qed

lemma meet_fold_nearest:
  assumes "\<And>a b. I a \<noteq> None \<Longrightarrow> I b \<noteq> None \<Longrightarrow>
      \<exists>c. X a b = Some c \<and> I c \<noteq> None \<and> anc I c = anc I a \<inter> anc I b"
    and L: "\<forall>p\<in>set ps. L p = Some (I p)"
    and preds: "\<forall>p. I p \<noteq> None \<longrightarrow> (p \<in> set ps \<longleftrightarrow> p \<in> pred b)" and "\<exists>p\<in>pred b. I p \<noteq> None"
  shows "\<exists>d. fold_option (\<lambda>acc p.
       case L p of
         None \<Rightarrow> None
       | Some None \<Rightarrow> Some acc
       | Some (Some _) \<Rightarrow>
           (case acc of
              None \<Rightarrow> Some (Some p)
            | Some current \<Rightarrow> map_option Some (X p current))) None ps = Some (Some d) \<and> nearest pred I b d"
proof -
  from meet_fold [OF assms(1) L, where acc = None] obtain new where
    new: "fold_option (\<lambda>acc p.
       case L p of
         None \<Rightarrow> None
       | Some None \<Rightarrow> Some acc
       | Some (Some _) \<Rightarrow>
           (case acc of
              None \<Rightarrow> Some (Some p)
            | Some current \<Rightarrow> map_option Some (X p current))) None ps = Some new"
    "new = None \<longrightarrow> (\<forall>p\<in>set ps. I p = None)"
    "\<forall>c. new = Some c \<longrightarrow> (\<forall>z. z \<in> anc I c \<longleftrightarrow> (\<forall>p\<in>set ps. I p \<noteq> None \<longrightarrow> z \<in> anc I p))"
    by auto
  have "new \<noteq> None" using new(2) assms(4) preds by metis
  then obtain d where d: "new = Some d" by blast
  then have "nearest pred I b d" using new(3) preds unfolding nearest_def by blast
  then show ?thesis using new(1) d by auto
qed

lemma new_idom:
  assumes "ranks fn rpo" and "flow_tree fn (table_of idom)"
    and ps: "set ps = flow_preds fn b" and "flow_preds fn b \<subseteq> {..<length idom}"
    and "\<exists>p\<in>flow_preds fn b. table_of idom p \<noteq> None"
  shows "\<exists>d. chk_new_idom rpo ps idom = Some (Some d) \<and> nearest (flow_preds fn) (table_of idom) b d"
proof -
  have "\<forall>p\<in>set ps. get_at idom p = Some (table_of idom p)"
    using ps assms(4) by (auto simp: get_at_def table_of_nth)
  moreover have "\<forall>p. table_of idom p \<noteq> None \<longrightarrow> (p \<in> set ps \<longleftrightarrow> p \<in> flow_preds fn b)" using ps by simp
  ultimately show ?thesis
    unfolding chk_new_idom_def using assms(5)
    by (rule meet_fold_nearest [where X = "chk_intersect rpo idom", rotated]) (rule intersect [OF assms(1,2)])
qed

section \<open>Passes\<close>

definition tables_match :: "Function \<Rightarrow> nat option list \<Rightarrow> nat list list \<Rightarrow> bool" where
  \<comment> \<open>what the passes rely on\<close>
  "tables_match fn rpo preds \<longleftrightarrow>
     bix (fn_entry fn) < length (fn_blocks fn) \<and> ranks fn rpo \<and>
     (\<forall>b\<in>flow_nodes fn. b < length (fn_blocks fn) \<and> set (preds ! b) = flow_preds fn b)"

abbreviation round_step :: "Function \<Rightarrow> nat option list \<Rightarrow> nat list list \<Rightarrow>
    nat option list \<times> bool \<Rightarrow> nat \<Rightarrow> (nat option list \<times> bool) option" where
  "round_step fn rpo preds \<equiv> \<lambda>(idom, changed) block.
     if block = bix (fn_entry fn) then Some (idom, changed)
     else case chk_new_idom rpo (preds ! block) idom of
       None \<Rightarrow> None
     | Some new \<Rightarrow>
         if new \<noteq> None \<and> idom ! block \<noteq> new then Some (idom[block := new], True)
         else Some (idom, changed)"

lemma round_fold:
  assumes M: "tables_match fn rpo preds" and "dom_order fn = done @ blocks"
    and "flow_during fn (table_of start) (length done) (table_of idom)"
    and "length idom = length (fn_blocks fn)" "length start = length (fn_blocks fn)"
    and "changed \<longleftrightarrow> idom \<noteq> start"
  shows "\<exists>K changed'. fold_option (round_step fn rpo preds) (idom, changed) blocks = Some (K, changed') \<and>
     length K = length (fn_blocks fn) \<and> (changed' \<longleftrightarrow> K \<noteq> start) \<and>
     flow_during fn (table_of start) (length (dom_order fn)) (table_of K)"
  using assms(2-4,6)
proof (induction blocks arbitrary: "done" idom changed)
  case Nil
  then show ?case by simp
next
  case (Cons b blocks)
  let ?r = "bix (fn_entry fn)" and ?I = "table_of start" and ?J = "table_of idom"
  have m: "?r < length (fn_blocks fn)" "ranks fn rpo"
    "\<forall>b\<in>flow_nodes fn. b < length (fn_blocks fn) \<and> set (preds ! b) = flow_preds fn b"
    using M by (auto simp: tables_match_def)
  have b: "b \<in> flow_nodes fn" using Cons.prems(1) by simp
  have "distinct (done @ b # blocks)" using dom_order_facts(1) [OF m(1)] Cons.prems(1) by simp
  then have "b \<notin> set done" by simp
  then have rank: "flow_rank fn b = length done" unfolding Cons.prems(1) by (rule position_append)
  have split: "dom_order fn = (done @ [b]) @ blocks" using Cons.prems(1) by simp
  show ?case
  proof (cases "b = ?r")
    case True
    then have "length done = 0" using rank chk.rank_entry [of fn] by simp
    then have "flow_during fn ?I (length (done @ [b])) ?J"
      using chk.during_entry Cons.prems(2) by simp
    then show ?thesis using Cons.IH [OF split _ Cons.prems(3,4)] True by simp
  next
    case False
    have dur: "flow_during fn ?I (flow_rank fn b) ?J" using Cons.prems(2) rank by simp
    have bl: "b < length idom" using b m(3) Cons.prems(3) by simp
    have pl: "flow_preds fn b \<subseteq> {..<length idom}"
      using m(3) Cons.prems(3) by (auto simp: flow_preds_def)
    have T: "flow_tree fn ?J" using dur by (simp add: during_def)
    have pb: "set (preds ! b) = flow_preds fn b" using m(3) b by blast
    obtain d where d: "chk_new_idom rpo (preds ! b) idom = Some (Some d)" "nearest (flow_preds fn) ?J b d"
      using new_idom [OF m(2) T pb pl chk.nearest_exists [OF dur b False]] by blast
    have upd: "flow_during fn ?I (length (done @ [b])) (table_of (idom[b := Some d]))"
      using chk.during_step [OF dur b False d(2)] rank by (simp add: table_of_update [OF bl])
    have old: "start ! b = idom ! b"
      using dur bl table_of_nth [of b idom] table_of_nth [of b start] assms(5) Cons.prems(3)
      by (simp add: during_def)
    show ?thesis
    proof (cases "idom ! b = Some d")
      case True
      then have "idom[b := Some d] = idom" by (metis list_update_id)
      then show ?thesis using Cons.IH [OF split _ Cons.prems(3,4)] upd True False d(1) by simp
    next
      case changed: False
      have "idom[b := Some d] ! b = Some d" using bl by simp
      then have "idom[b := Some d] \<noteq> start" using old changed by metis
      then show ?thesis
        using Cons.IH [OF split upd, of True] Cons.prems(3) changed False d(1) by simp
    qed
  qed
qed

lemma round_result:
  assumes M: "tables_match fn rpo preds" and S: "flow_sound fn (table_of idom)"
    and len: "length idom = length (fn_blocks fn)"
  shows "\<exists>K changed. chk_round (bix (fn_entry fn)) rpo preds (dom_order fn) idom = Some (K, changed) \<and>
     length K = length (fn_blocks fn) \<and> (changed \<longleftrightarrow> K \<noteq> idom) \<and>
     flow_during fn (table_of idom) (length (dom_order fn)) (table_of K)"
proof -
  have "flow_during fn (table_of idom) (length ([] :: nat list)) (table_of idom)"
    using chk.during_start [OF S] by simp
  from round_fold [OF M _ this len len, of "dom_order fn" False] show ?thesis
    by (simp add: chk_round_def)
qed

definition dominator_table :: "Function \<Rightarrow> nat table \<Rightarrow> bool" where
  "dominator_table fn I \<longleftrightarrow> flow_tree fn I \<and> (\<forall>b\<in>flow_nodes fn. I b \<noteq> None) \<and>
     (\<forall>v\<in>flow_nodes fn. \<forall>a. a \<in> anc I v \<longleftrightarrow> \<not> evades (bix (fn_entry fn)) (flow_preds fn) a v)"

lemma loop_step:
  assumes M: "tables_match fn rpo preds" and S: "flow_sound fn (table_of idom)"
    and len: "length idom = length (fn_blocks fn)"
  obtains K where "length K = length (fn_blocks fn)" "flow_sound fn (table_of K)"
    "\<forall>b\<in>flow_nodes fn. table_of K b \<noteq> None"
    "K \<noteq> idom \<Longrightarrow> \<forall>b\<in>flow_nodes fn. table_of idom b \<noteq> None \<Longrightarrow>
       weight (flow_nodes fn) (flow_rank fn) (table_of K) < weight (flow_nodes fn) (flow_rank fn) (table_of idom)"
    "K = idom \<Longrightarrow> dominator_table fn (table_of K)"
    "chk_loop (bix (fn_entry fn)) rpo preds (dom_order fn) idom =
       (if K \<noteq> idom then chk_loop (bix (fn_entry fn)) rpo preds (dom_order fn) K else Some K)"
proof -
  obtain K changed where K: "chk_round (bix (fn_entry fn)) rpo preds (dom_order fn) idom = Some (K, changed)"
    "length K = length (fn_blocks fn)" "changed \<longleftrightarrow> K \<noteq> idom"
    "flow_during fn (table_of idom) (length (dom_order fn)) (table_of K)"
    using round_result [OF assms] by blast
  have "\<forall>b\<in>flow_nodes fn. flow_rank fn b < length (dom_order fn)" by (simp add: position_less)
  note r = chk.round_end [OF S K(4) this]
  have ne: "table_of K \<noteq> table_of idom" if "K \<noteq> idom" using that table_of_inj K(2) len by metis
  have dt: "dominator_table fn (table_of K)" if "K = idom"
    unfolding dominator_table_def using r(1,2) r(4) that by (auto simp: sound_def)
  show ?thesis
    by (rule that [OF K(2) r(1,2)]) (use r(3) ne dt K(1,3) in \<open>auto simp: chk_loop.simps\<close>)
qed

lemma loop_from_full:
  assumes M: "tables_match fn rpo preds" and "flow_sound fn (table_of idom)"
    and "length idom = length (fn_blocks fn)" and "\<forall>b\<in>flow_nodes fn. table_of idom b \<noteq> None"
  shows "\<exists>K. chk_loop (bix (fn_entry fn)) rpo preds (dom_order fn) idom = Some K \<and>
     length K = length (fn_blocks fn) \<and> dominator_table fn (table_of K)"
  using assms(2-4)
proof (induction "weight (flow_nodes fn) (flow_rank fn) (table_of idom)" arbitrary: idom rule: less_induct)
  case less
  obtain K where K: "length K = length (fn_blocks fn)" "flow_sound fn (table_of K)"
    "\<forall>b\<in>flow_nodes fn. table_of K b \<noteq> None"
    "K \<noteq> idom \<Longrightarrow> weight (flow_nodes fn) (flow_rank fn) (table_of K) < weight (flow_nodes fn) (flow_rank fn) (table_of idom)"
    "K = idom \<Longrightarrow> dominator_table fn (table_of K)"
    "chk_loop (bix (fn_entry fn)) rpo preds (dom_order fn) idom =
       (if K \<noteq> idom then chk_loop (bix (fn_entry fn)) rpo preds (dom_order fn) K else Some K)"
    using loop_step [OF M less.prems(1,2)] less.prems(3) by metis
  show ?case
  proof (cases "K = idom")
    case True
    then show ?thesis using K by auto
  next
    case False
    then show ?thesis using less.hyps [OF K(4) [OF False] K(2,1,3)] K(6) by simp
  qed
qed

lemma chk_loop_result:
  assumes M: "tables_match fn rpo preds"
  shows "\<exists>K. chk_loop (bix (fn_entry fn)) rpo preds (dom_order fn)
       ((replicate (length (fn_blocks fn)) None)[bix (fn_entry fn) := Some (bix (fn_entry fn))]) = Some K \<and>
     length K = length (fn_blocks fn) \<and> dominator_table fn (table_of K)"
proof -
  let ?r = "bix (fn_entry fn)" and ?n = "length (fn_blocks fn)"
  let ?s = "(replicate ?n None)[?r := Some ?r]"
  have r: "?r < ?n" using M by (simp add: tables_match_def)
  have "table_of (replicate ?n None) = Map.empty" by (auto simp: table_of_def get_at_def fun_eq_iff)
  then have "table_of ?s = [?r \<mapsto> ?r]" using r by (simp add: table_of_update)
  then have S: "flow_sound fn (table_of ?s)" using chk.sound_start by simp
  have len: "length ?s = ?n" by simp
  from loop_step [OF M S len] obtain K where K: "length K = ?n" "flow_sound fn (table_of K)"
    "\<forall>b\<in>flow_nodes fn. table_of K b \<noteq> None"
    "K = ?s \<Longrightarrow> dominator_table fn (table_of K)"
    "chk_loop ?r rpo preds (dom_order fn) ?s = (if K \<noteq> ?s then chk_loop ?r rpo preds (dom_order fn) K else Some K)"
    by metis
  show ?thesis
  proof (cases "K = ?s")
    case True
    then show ?thesis using K by auto
  next
    case False
    then show ?thesis using loop_from_full [OF M K(2,1,3)] K(5) by simp
  qed
qed

end
