(* ===== verification/Dominators_Tree.thy ===== *)
theory Dominators_Tree
  imports Dominators_Fixpoint
begin

text \<open>
  The numbering of the dominator tree: the walk ends, and the interval of a block contains the
  interval of another exactly when the first is an ancestor of the second. With the fixed point
  this makes a query of \<open>Dominators\<close> the path condition it stands for.
\<close>

section \<open>Children\<close>

lemma children_fold:
  assumes "\<forall>b p. b < length idom \<longrightarrow> idom ! b = Some p \<longrightarrow> p < length table"
  shows "length (fold (\<lambda>(block, parent) children.
        case parent of
          None \<Rightarrow> children
        | Some p \<Rightarrow> if p \<noteq> block then push_at p block children else children)
       (enumerate k idom) table) = length table \<and>
     fold (\<lambda>(block, parent) children.
        case parent of
          None \<Rightarrow> children
        | Some p \<Rightarrow> if p \<noteq> block then push_at p block children else children)
       (enumerate k idom) table ! q =
     table ! q @ filter (\<lambda>b. idom ! (b - k) = Some q \<and> b \<noteq> q) [k..<k + length idom]"
  using assms
proof (induction idom arbitrary: k table)
  case (Cons x idom)
  let ?table = "case x of None \<Rightarrow> table | Some p \<Rightarrow> if p \<noteq> k then push_at p k table else table"
  have tail: "\<forall>b p. b < length idom \<longrightarrow> idom ! b = Some p \<longrightarrow> p < length table"
  proof (intro allI impI)
    fix b p assume "b < length idom" "idom ! b = Some p"
    then show "p < length table" using Cons.prems [rule_format, of "Suc b" p] by simp
  qed
  have len: "length ?table = length table" by (simp split: option.split)
  have p: "?table ! q = table ! q @ (if x = Some q \<and> k \<noteq> q then [k] else [])"
    using Cons.prems [rule_format, of 0] by (auto simp: push_at_nth split: option.split)
  have split: "[k..<k + length (x # idom)] = k # [Suc k..<Suc k + length idom]"
    using upt_conv_Cons [of k "k + length (x # idom)"] by (simp del: upt.simps)
  have shift: "filter (\<lambda>b. (x # idom) ! (b - k) = Some q \<and> b \<noteq> q) [Suc k..<Suc k + length idom] =
      filter (\<lambda>b. idom ! (b - Suc k) = Some q \<and> b \<noteq> q) [Suc k..<Suc k + length idom]"
    by (rule filter_cong) (auto simp: Suc_diff_le nth_Cons' dest: Suc_le_lessD)
  have head: "filter (\<lambda>b. (x # idom) ! (b - k) = Some q \<and> b \<noteq> q) (k # [Suc k..<Suc k + length idom]) =
      (if x = Some q \<and> k \<noteq> q then [k] else []) @
      filter (\<lambda>b. idom ! (b - Suc k) = Some q \<and> b \<noteq> q) [Suc k..<Suc k + length idom]"
    unfolding filter.simps shift by simp
  show ?case
    unfolding split head using Cons.IH [of ?table "Suc k"] tail len p by (simp del: upt.simps)
qed simp

lemma children_table:
  assumes "\<forall>b p. b < length idom \<longrightarrow> idom ! b = Some p \<longrightarrow> p < length idom"
  shows "length (children_table idom) = length idom"
    "q < length idom \<Longrightarrow> distinct (children_table idom ! q)"
    "q < length idom \<Longrightarrow> set (children_table idom ! q) = {b. table_of idom b = Some q \<and> b \<noteq> q}"
proof -
  have "\<forall>b p. b < length idom \<longrightarrow> idom ! b = Some p \<longrightarrow> p < length (replicate (length idom) ([] :: nat list))"
    using assms by simp
  from children_fold [OF this, of 0 q]
  have l: "length (children_table idom) = length idom"
    and q: "q < length idom \<Longrightarrow>
      children_table idom ! q = filter (\<lambda>b. idom ! b = Some q \<and> b \<noteq> q) [0..<length idom]"
    by (simp_all add: children_table_def)
  show "length (children_table idom) = length idom" by (rule l)
  show "q < length idom \<Longrightarrow> distinct (children_table idom ! q)" using q by simp
  show "q < length idom \<Longrightarrow> set (children_table idom ! q) = {b. table_of idom b = Some q \<and> b \<noteq> q}"
    using q by (auto simp: table_of_Some get_at_def)
qed

section \<open>Intervals\<close>

definition below :: "nat table \<Rightarrow> nat \<Rightarrow> nat set" where
  \<comment> \<open>the subtree of a block\<close>
  "below I b = {x. I x \<noteq> None \<and> b \<in> anc I x}"

definition numbered :: "nat table \<Rightarrow> nat set \<Rightarrow> nat \<Rightarrow> nat \<Rightarrow> nat list \<Rightarrow> nat list \<Rightarrow> bool" where
  "numbered I S lo hi tin tout \<longleftrightarrow>
     (\<forall>x\<in>S. lo \<le> tin ! x \<and> tin ! x < tout ! x \<and> tout ! x < hi) \<and>
     (\<forall>x\<in>S. \<forall>y\<in>S. tin ! x \<le> tin ! y \<and> tout ! y \<le> tout ! x \<longleftrightarrow> x \<in> anc I y)"

definition walks :: "nat list list \<Rightarrow> nat table \<Rightarrow> nat \<Rightarrow> (nat \<times> bool) list \<Rightarrow> nat set \<Rightarrow> bool" where
  \<comment> \<open>the walk of the entries \<open>items\<close> numbers the blocks of \<open>S\<close> and no others\<close>
  "walks children I n items S \<longleftrightarrow>
     (\<forall>stack clock tin tout. length tin = n \<longrightarrow> length tout = n \<longrightarrow>
        (\<exists>clock' tin' tout'. clock \<le> clock' \<and> length tin' = n \<and> length tout' = n \<and>
           tree_walk children (items @ stack) clock tin tout = tree_walk children stack clock' tin' tout' \<and>
           numbered I S clock clock' tin' tout' \<and>
           (\<forall>x. x \<notin> S \<longrightarrow> tin' ! x = tin ! x \<and> tout' ! x = tout ! x)))"

lemma walksE:
  assumes "walks children I n items S" and "length tin = n" "length tout = n"
  obtains clock' tin' tout' where "clock \<le> clock'" "length tin' = n" "length tout' = n"
    "tree_walk children (items @ stack) clock tin tout = tree_walk children stack clock' tin' tout'"
    "numbered I S clock clock' tin' tout'"
    "\<forall>x. x \<notin> S \<longrightarrow> tin' ! x = tin ! x \<and> tout' ! x = tout ! x"
  using assms(1) [unfolded walks_def, rule_format, of tin tout clock stack, OF assms(2,3)] that by blast

lemma walks_append:
  assumes "walks children I n xs S" "walks children I n ys T" "S \<inter> T = {}"
    and apart: "\<forall>x\<in>S. \<forall>y\<in>T. x \<notin> anc I y \<and> y \<notin> anc I x"
  shows "walks children I n (xs @ ys) (S \<union> T)"
  unfolding walks_def
proof (intro allI impI)
  fix stack clock and tin tout :: "nat list" assume len: "length tin = n" "length tout = n"
  obtain c1 tin1 tout1 where 1: "clock \<le> c1" "length tin1 = n" "length tout1 = n"
    "tree_walk children (xs @ ys @ stack) clock tin tout = tree_walk children (ys @ stack) c1 tin1 tout1"
    "numbered I S clock c1 tin1 tout1" "\<forall>x. x \<notin> S \<longrightarrow> tin1 ! x = tin ! x \<and> tout1 ! x = tout ! x"
    using walksE [OF assms(1) len, of clock "ys @ stack"] by blast
  obtain c2 tin2 tout2 where 2: "c1 \<le> c2" "length tin2 = n" "length tout2 = n"
    "tree_walk children (ys @ stack) c1 tin1 tout1 = tree_walk children stack c2 tin2 tout2"
    "numbered I T c1 c2 tin2 tout2" "\<forall>x. x \<notin> T \<longrightarrow> tin2 ! x = tin1 ! x \<and> tout2 ! x = tout1 ! x"
    using walksE [OF assms(2) 1(2,3), of c1 stack] by blast
  have S: "tin2 ! x = tin1 ! x \<and> tout2 ! x = tout1 ! x" if "x \<in> S" for x using that 2(6) assms(3) by blast
  have nS: "clock \<le> tin2 ! x" "tin2 ! x < tout2 ! x" "tout2 ! x < c1" if "x \<in> S" for x
    using that S 1(5) by (auto simp: numbered_def)
  have nT: "c1 \<le> tin2 ! x" "tin2 ! x < tout2 ! x" "tout2 ! x < c2" if "x \<in> T" for x
    using that 2(5) by (auto simp: numbered_def)
  have pairs: "tin2 ! x \<le> tin2 ! y \<and> tout2 ! y \<le> tout2 ! x \<longleftrightarrow> x \<in> anc I y"
    if xy: "x \<in> S \<union> T" "y \<in> S \<union> T" for x y
  proof (cases "x \<in> S"; cases "y \<in> S")
    assume "x \<in> S" "y \<in> S"
    then show ?thesis using S 1(5) by (simp add: numbered_def)
  next
    assume "x \<in> S" "y \<notin> S"
    then show ?thesis using xy apart nS [of x] nT [of y] by auto
  next
    assume "x \<notin> S" "y \<in> S"
    then show ?thesis using xy apart nS [of y] nT [of x] by auto
  next
    assume "x \<notin> S" "y \<notin> S"
    then show ?thesis using xy 2(5) by (simp add: numbered_def)
  qed
  have "clock \<le> tin2 ! x \<and> tin2 ! x < tout2 ! x \<and> tout2 ! x < c2" if "x \<in> S \<union> T" for x
    using that nS [of x] nT [of x] 1(1) 2(1) by auto
  then have "numbered I (S \<union> T) clock c2 tin2 tout2" using pairs by (simp add: numbered_def)
  moreover have "\<forall>x. x \<notin> S \<union> T \<longrightarrow> tin2 ! x = tin ! x \<and> tout2 ! x = tout ! x" using 1(6) 2(6) by simp
  ultimately show "\<exists>clock' tin' tout'. clock \<le> clock' \<and> length tin' = n \<and> length tout' = n \<and>
      tree_walk children ((xs @ ys) @ stack) clock tin tout = tree_walk children stack clock' tin' tout' \<and>
      numbered I (S \<union> T) clock clock' tin' tout' \<and>
      (\<forall>x. x \<notin> S \<union> T \<longrightarrow> tin' ! x = tin ! x \<and> tout' ! x = tout ! x)"
    using 1(1,4) 2(1-4) by (intro exI [of _ c2] exI [of _ tin2] exI [of _ tout2]) auto
qed

lemma walks_siblings:
  assumes "\<forall>c\<in>set cs. walks children I n [(c, False)] (below I c)" and "distinct cs"
    and "\<forall>c\<in>set cs. \<forall>d\<in>set cs. c \<noteq> d \<longrightarrow>
      below I c \<inter> below I d = {} \<and> (\<forall>x\<in>below I c. \<forall>y\<in>below I d. x \<notin> anc I y)"
  shows "walks children I n (map (\<lambda>c. (c, False)) cs) (\<Union>c\<in>set cs. below I c)"
  using assms
proof (induction cs)
  case Nil
  then show ?case by (auto simp: walks_def numbered_def)
next
  case (Cons c cs)
  have "walks children I n ([(c, False)] @ map (\<lambda>c. (c, False)) cs) (below I c \<union> (\<Union>c\<in>set cs. below I c))"
  proof (rule walks_append)
    show "walks children I n [(c, False)] (below I c)" using Cons.prems(1) by simp
    show "walks children I n (map (\<lambda>c. (c, False)) cs) (\<Union>c\<in>set cs. below I c)"
      using Cons.IH Cons.prems by simp
    have ne: "c \<noteq> d" if "d \<in> set cs" for d using that Cons.prems(2) by auto
    show "below I c \<inter> (\<Union>c\<in>set cs. below I c) = {}"
      using Cons.prems(3) ne by fastforce
    show "\<forall>x\<in>below I c. \<forall>y\<in>\<Union>c\<in>set cs. below I c. x \<notin> anc I y \<and> y \<notin> anc I x"
      using Cons.prems(3) ne by (metis UN_E list.set_intros)
  qed
  then show ?case by simp
qed

lemma push_children: "fold (\<lambda>c stack. (c, False) # stack) cs stack = map (\<lambda>c. (c, False)) (rev cs) @ stack"
  by (induction cs arbitrary: stack) auto

lemma walks_node:
  \<comment> \<open>the walk of a block is the walk of its children between its two times\<close>
  assumes "b < n" "length children = n"
    and kids: "walks children I n (map (\<lambda>c. (c, False)) (rev (children ! b))) S"
    and S: "b \<notin> S" "\<forall>x\<in>S. b \<in> anc I x \<and> x \<notin> anc I b"
  shows "walks children I n [(b, False)] (insert b S)"
  unfolding walks_def
proof (intro allI impI)
  fix stack clock and tin tout :: "nat list" assume len: "length tin = n" "length tout = n"
  obtain c tin1 tout1 where 1: "clock + 1 \<le> c" "length tin1 = n" "length tout1 = n"
    "tree_walk children (map (\<lambda>c. (c, False)) (rev (children ! b)) @ (b, True) # stack) (clock + 1) (tin[b := clock]) tout =
     tree_walk children ((b, True) # stack) c tin1 tout1"
    "numbered I S (clock + 1) c tin1 tout1"
    "\<forall>x. x \<notin> S \<longrightarrow> tin1 ! x = tin[b := clock] ! x \<and> tout1 ! x = tout ! x"
    using walksE [OF kids, of "tin[b := clock]" tout "clock + 1" "(b, True) # stack"] len
    by (metis length_list_update)
  let ?tout = "tout1[b := c]"
  have "tree_walk children ([(b, False)] @ stack) clock tin tout =
      tree_walk children (map (\<lambda>c. (c, False)) (rev (children ! b)) @ (b, True) # stack) (clock + 1) (tin[b := clock]) tout"
    using assms(1,2) len by (simp add: tree_walk.simps [of _ "(b, False) # stack"] set_at_def get_at_def push_children)
  also have "\<dots> = tree_walk children stack (c + 1) tin1 ?tout"
    using assms(1) 1(3,4) by (simp add: tree_walk.simps [of _ "(b, True) # stack"] set_at_def)
  finally have run: "tree_walk children ([(b, False)] @ stack) clock tin tout = tree_walk children stack (c + 1) tin1 ?tout" .
  have b: "tin1 ! b = clock" "?tout ! b = c" using 1(3,6) S(1) assms(1) len by simp_all
  have other: "?tout ! x = tout1 ! x" if "x \<in> S" for x using that S(1) by (metis nth_list_update_neq)
  have inS: "clock < tin1 ! x" "tin1 ! x < ?tout ! x" "?tout ! x < c" if "x \<in> S" for x
    using that other [OF that] 1(5) by (auto simp: numbered_def)
  have "numbered I (insert b S) clock (c + 1) tin1 ?tout"
    unfolding numbered_def
  proof (intro conjI ballI)
    fix x assume x: "x \<in> insert b S"
    show "clock \<le> tin1 ! x" "tin1 ! x < ?tout ! x" "?tout ! x < c + 1"
      using x b inS [of x] 1(1) by auto
    fix y assume y: "y \<in> insert b S"
    show "tin1 ! x \<le> tin1 ! y \<and> ?tout ! y \<le> ?tout ! x \<longleftrightarrow> x \<in> anc I y"
    proof (cases "x = b"; cases "y = b")
      assume "x = b" "y \<noteq> b"
      then show ?thesis using y b inS [of y] S(2) by auto
    next
      assume "x \<noteq> b" "y = b"
      then show ?thesis using x b inS [of x] S(2) by auto
    next
      assume "x \<noteq> b" "y \<noteq> b"
      then show ?thesis using x y other 1(5) by (simp add: numbered_def)
    qed simp
  qed
  moreover have "\<forall>x. x \<notin> insert b S \<longrightarrow> tin1 ! x = tin ! x \<and> ?tout ! x = tout ! x"
    using 1(6) by (metis insertCI nth_list_update_neq)
  ultimately show "\<exists>clock' tin' tout'. clock \<le> clock' \<and> length tin' = n \<and> length tout' = n \<and>
      tree_walk children ([(b, False)] @ stack) clock tin tout = tree_walk children stack clock' tin' tout' \<and>
      numbered I (insert b S) clock clock' tin' tout' \<and>
      (\<forall>x. x \<notin> insert b S \<longrightarrow> tin' ! x = tin ! x \<and> tout' ! x = tout ! x)"
    using run 1(1-3) by (intro exI [of _ "c + 1"] exI [of _ tin1] exI [of _ ?tout]) auto
qed

section \<open>The numbering of the dominator tree\<close>

lemma below_entry:
  assumes "flow_tree fn I" and "\<forall>b\<in>flow_nodes fn. I b \<noteq> None"
  shows "below I (bix (fn_entry fn)) = flow_nodes fn"
  using assms(2) chk.entry_anc [OF assms(1)] chk.treeD(1) [OF assms(1)] by (auto simp: below_def)

lemma below_children:
  assumes T: "flow_tree fn I" and "I b \<noteq> None"
  shows "below I b = insert b (\<Union>c\<in>{c. I c = Some b \<and> c \<noteq> b}. below I c)" (is "_ = insert b ?C")
proof
  have "b \<in> anc I x" if "I c = Some b" "c \<in> anc I x" for c x
    using anc_step [of I c b, OF that(1)] that(2) by (metis anc_refl anc_trans insertI2)
  then show "insert b ?C \<subseteq> below I b" using assms(2) by (auto simp: below_def)
  have "I x \<noteq> None \<longrightarrow> b \<in> anc I x \<longrightarrow> x \<in> insert b ?C" for x
    using T
  proof (induction x rule: chk.rank_induct)
    case entry
    then show ?case using chk.anc_entry [OF T] by simp
  next
    case (other x d)
    show ?case
    proof (intro impI)
      assume x: "I x \<noteq> None" "b \<in> anc I x"
      have step: "anc I x = insert x (anc I d)" using other.hyps(1) by (rule anc_step)
      show "x \<in> insert b ?C"
      proof (cases "x = b")
        case False
        then have "b \<in> anc I d" using x(2) step by simp
        then have "d \<in> insert b ?C" using other.IH chk.treeD(3) [OF T other.hyps(1)] by blast
        then show ?thesis
        proof
          assume "d = b"
          then have "I x = Some b \<and> x \<noteq> b \<and> x \<in> below I x" using other.hyps(1) False by (simp add: below_def)
          then show ?thesis by blast
        next
          assume "d \<in> ?C"
          then show ?thesis using step x(1) by (auto simp: below_def)
        qed
      qed simp
    qed
  qed simp
  then show "below I b \<subseteq> insert b ?C" by (auto simp: below_def)
qed

lemma siblings_apart:
  assumes T: "flow_tree fn I" and c: "I c = Some b" "c \<noteq> b" and d: "I d = Some b" "d \<noteq> b" and "c \<noteq> d"
    and x: "x \<in> below I c" and y: "y \<in> below I d"
  shows "x \<notin> anc I y"
proof
  assume "x \<in> anc I y"
  moreover have "c \<in> anc I x" "d \<in> anc I y" using x y by (auto simp: below_def)
  ultimately have "c \<in> anc I d \<or> d \<in> anc I c" by (meson anc_linear anc_trans)
  moreover have False if "I u = Some b" "u \<noteq> b" "I v = Some b" "v \<noteq> b" "u \<noteq> v" "u \<in> anc I v" for u v
  proof -
    have "anc I v = insert v (anc I b)" using that(3) by (rule anc_step)
    then have u: "u \<in> anc I b" using that(5,6) by simp
    have "u \<noteq> bix (fn_entry fn)" using chk.treeD(6) [OF T that(1)] that(2) by blast
    then have "flow_rank fn b < flow_rank fn u" by (rule chk.treeD(4) [OF T that(1)])
    moreover have "flow_rank fn u \<le> flow_rank fn b"
      by (rule chk.anc_facts(4) [OF T u chk.treeD(3) [OF T that(1)]])
    ultimately show False by simp
  qed
  ultimately show False using assms by metis
qed

lemma walks_tree:
  assumes T: "flow_tree fn (table_of K)" and nodes: "flow_nodes fn \<subseteq> {..<length K}" and "table_of K b \<noteq> None"
  shows "walks (children_table K) (table_of K) (length K) [(b, False)] (below (table_of K) b)"
  using assms(3)
proof (induction "length (dom_order fn) - flow_rank fn b" arbitrary: b rule: less_induct)
  case less
  let ?I = "table_of K"
  have range: "\<forall>b p. b < length K \<longrightarrow> K ! b = Some p \<longrightarrow> p < length K"
    using chk.treeD(2) [OF T] nodes by (metis lessThan_iff subsetD table_of_nth)
  note ch = children_table [OF range]
  have b: "b < length K" using less.prems chk.treeD(1) [OF T] nodes by blast
  have C: "set (rev (children_table K ! b)) = {c. ?I c = Some b \<and> c \<noteq> b}" using ch(3) [OF b] by simp
  have kid: "walks (children_table K) ?I (length K) [(c, False)] (below ?I c)"
    if c: "c \<in> set (rev (children_table K ! b))" for c
  proof (rule less.hyps)
    have c': "?I c = Some b" "c \<noteq> b" using c C by auto
    then have "c \<noteq> bix (fn_entry fn)" using chk.treeD(6) [OF T c'(1)] by auto
    then have "flow_rank fn b < flow_rank fn c" by (rule chk.treeD(4) [OF T c'(1)])
    moreover have "flow_rank fn c < length (dom_order fn)"
      using chk.treeD(1) [OF T c'(1)] by (simp add: position_less)
    ultimately show "length (dom_order fn) - flow_rank fn c < length (dom_order fn) - flow_rank fn b" by simp
    show "?I c \<noteq> None" using c' by simp
  qed
  have "walks (children_table K) ?I (length K) (map (\<lambda>c. (c, False)) (rev (children_table K ! b)))
      (\<Union>c\<in>set (rev (children_table K ! b)). below ?I c)"
  proof (rule walks_siblings)
    show "distinct (rev (children_table K ! b))" using ch(2) [OF b] by simp
    show "\<forall>c\<in>set (rev (children_table K ! b)). \<forall>d\<in>set (rev (children_table K ! b)). c \<noteq> d \<longrightarrow>
        below ?I c \<inter> below ?I d = {} \<and> (\<forall>x\<in>below ?I c. \<forall>y\<in>below ?I d. x \<notin> anc ?I y)"
    proof (intro ballI impI)
      fix c d assume "c \<in> set (rev (children_table K ! b))" "d \<in> set (rev (children_table K ! b))"
        and cd: "c \<noteq> d"
      then have cd': "?I c = Some b" "c \<noteq> b" "?I d = Some b" "d \<noteq> b" unfolding C by simp_all
      have "x \<notin> anc ?I y" if "x \<in> below ?I c" "y \<in> below ?I d" for x y
        by (rule siblings_apart [OF T cd' cd that])
      then have "\<forall>x\<in>below ?I c. \<forall>y\<in>below ?I d. x \<notin> anc ?I y" by (intro ballI)
      then show "below ?I c \<inter> below ?I d = {} \<and> (\<forall>x\<in>below ?I c. \<forall>y\<in>below ?I d. x \<notin> anc ?I y)"
        using anc_refl [of _ ?I] disjoint_iff [of "below ?I c" "below ?I d"] by (metis (no_types))
    qed
  qed (use kid in blast)
  then have kids: "walks (children_table K) ?I (length K) (map (\<lambda>c. (c, False)) (rev (children_table K ! b)))
      (\<Union>c\<in>{c. ?I c = Some b \<and> c \<noteq> b}. below ?I c)" unfolding C .
  have inner: "b \<in> anc ?I x \<and> x \<notin> anc ?I b" if x: "x \<in> (\<Union>c\<in>{c. ?I c = Some b \<and> c \<noteq> b}. below ?I c)" for x
  proof -
    obtain c where c: "?I c = Some b" "c \<noteq> b" "?I x \<noteq> None" "c \<in> anc ?I x" using x by (auto simp: below_def)
    have step: "anc ?I c = insert c (anc ?I b)" using c(1) by (rule anc_step)
    have "c \<noteq> bix (fn_entry fn)" using chk.treeD(6) [OF T c(1)] c(2) by auto
    then have "c \<notin> anc ?I b" using chk.anc_less(2) [OF T c(1)] by blast
    then show ?thesis using step c(4) anc_trans by (metis anc_refl insertI2)
  qed
  have "b \<notin> (\<Union>c\<in>{c. ?I c = Some b \<and> c \<noteq> b}. below ?I c)" using inner anc_refl by blast
  then show ?case
    unfolding below_children [OF T less.prems]
    by (rule walks_node [OF b ch(1) kids]) (use inner in blast)
qed

section \<open>Paths\<close>

inductive flow_walk :: "Function \<Rightarrow> BasicBlockId \<Rightarrow> BasicBlockId list \<Rightarrow> BasicBlockId \<Rightarrow> bool" for fn where
  here: "flow_walk fn a [a] a"
| step: "flow_walk fn a p b \<Longrightarrow> (b, c) \<in> flow_edge fn \<Longrightarrow> flow_walk fn a (p @ [c]) c"

lemma visited_targets_set: "set (visited_targets t) = set (terminator_successors t)"
  by (cases t) auto

lemma flow_edge_targets:
  "(a, b) \<in> flow_edge fn \<longleftrightarrow> bix a < length (fn_blocks fn) \<and> bix b \<in> set (targets_of fn (bix a))"
  by (auto simp: flow_edge_def targets_of_def visited_targets_set bix_inj)

lemma flow_to_less:
  "bix (fn_entry fn) < length (fn_blocks fn) \<Longrightarrow> b \<in> flow_to fn \<Longrightarrow> b < length (fn_blocks fn)"
  using targets_less unfolding flow_to_def index_edges_def by (auto elim: rtranclE)

lemma flow_to_walk:
  assumes "bix (fn_entry fn) < length (fn_blocks fn)"
  shows "bix b \<in> flow_to fn \<longleftrightarrow> (\<exists>p. flow_walk fn (fn_entry fn) p b)"
proof
  have "bix b \<in> flow_to fn" if "flow_walk fn a p b" "a = fn_entry fn" for a p b
    using that by (induction rule: flow_walk.induct)
      (auto simp: flow_to_def flow_edge_targets index_edges_def intro: rtrancl_into_rtrancl)
  then show "\<exists>p. flow_walk fn (fn_entry fn) p b \<Longrightarrow> bix b \<in> flow_to fn" by blast
next
  assume "bix b \<in> flow_to fn"
  then have "(bix (fn_entry fn), bix b) \<in> (index_edges fn)\<^sup>*" by (simp add: flow_to_def)
  then have "\<exists>b' p. bix b' = bix b \<and> flow_walk fn (fn_entry fn) p b'"
  proof (induction rule: rtrancl_induct)
    case base
    then show ?case using flow_walk.here by blast
  next
    case (step u v)
    then obtain b p where b: "bix b = u" "flow_walk fn (fn_entry fn) p b" by blast
    have v: "v \<in> set (targets_of fn u)" using step.hyps(2) by (simp add: index_edges_def)
    then obtain c where c: "bix c = v" by (auto simp: targets_of_def)
    have "u \<in> flow_to fn" using step.hyps(1) by (simp add: flow_to_def)
    then have "(b, c) \<in> flow_edge fn" using v b(1) c flow_to_less [OF assms] by (simp add: flow_edge_targets)
    then show ?case using flow_walk.step [OF b(2)] c by blast
  qed
  then show "\<exists>p. flow_walk fn (fn_entry fn) p b" by (metis bix_inj)
qed

lemma walk_evades:
  assumes "bix (fn_entry fn) < length (fn_blocks fn)"
  shows "(\<exists>p. flow_walk fn (fn_entry fn) p b \<and> x \<notin> set p) \<longleftrightarrow>
    evades (bix (fn_entry fn)) (flow_preds fn) (bix x) (bix b)"
proof
  have "x \<notin> set p \<longrightarrow> bix b \<in> flow_to fn \<and> evades (bix a) (flow_preds fn) (bix x) (bix b)"
    if "flow_walk fn a p b" "a = fn_entry fn" for a p b
    using that
  proof (induction rule: flow_walk.induct)
    case (here a)
    then show ?case by (auto simp: flow_to_def evades_def bix_inj)
  next
    case (step a p b c)
    show ?case
    proof
      assume "x \<notin> set (p @ [c])"
      then have b: "bix b \<in> flow_to fn" "evades (bix a) (flow_preds fn) (bix x) (bix b)" and "x \<noteq> c"
        using step by auto
      have t: "bix c \<in> set (targets_of fn (bix b))" using step.hyps by (simp add: flow_edge_targets)
      have "bix b \<in> flow_preds fn (bix c)" using b(1) t dom_order_facts(2) [OF assms] by (simp add: flow_preds_def)
      then show "bix c \<in> flow_to fn \<and> evades (bix a) (flow_preds fn) (bix x) (bix c)"
        using b t flow_to_step chk.evades_extend chk.evades_self step.prems \<open>x \<noteq> c\<close> bix_inj by metis
    qed
  qed
  then show "\<exists>p. flow_walk fn (fn_entry fn) p b \<and> x \<notin> set p \<Longrightarrow>
      evades (bix (fn_entry fn)) (flow_preds fn) (bix x) (bix b)" by blast
next
  assume e: "evades (bix (fn_entry fn)) (flow_preds fn) (bix x) (bix b)"
  then have "(bix (fn_entry fn), bix b) \<in> (avoiding (flow_preds fn) (bix x))\<^sup>*" "x \<noteq> fn_entry fn"
    by (auto simp: evades_def)
  then have "\<exists>b' p. bix b' = bix b \<and> flow_walk fn (fn_entry fn) p b' \<and> x \<notin> set p"
  proof (induction rule: rtrancl_induct)
    case base
    then show ?case using flow_walk.here by fastforce
  next
    case (step u v)
    then obtain b p where b: "bix b = u" "flow_walk fn (fn_entry fn) p b" "x \<notin> set p" by blast
    have u: "u \<in> flow_nodes fn" "v \<in> set (targets_of fn u)" "v \<noteq> bix x"
      using step.hyps(2) by (auto simp: avoiding_def flow_preds_def)
    then obtain c where c: "bix c = v" by (auto simp: targets_of_def)
    have "(b, c) \<in> flow_edge fn"
      using u b(1) c flow_to_less [OF assms] dom_order_facts(2) [OF assms] by (simp add: flow_edge_targets)
    then have "flow_walk fn (fn_entry fn) (p @ [c]) c" using b(2) by (rule flow_walk.step [rotated])
    moreover have "x \<notin> set (p @ [c])" using b(3) c u(3) by auto
    ultimately show ?case using c by blast
  qed
  then show "\<exists>p. flow_walk fn (fn_entry fn) p b \<and> x \<notin> set p" by (metis bix_inj)
qed

section \<open>What a query means\<close>

definition on_every_path :: "Function \<Rightarrow> BasicBlockId \<Rightarrow> BasicBlockId \<Rightarrow> bool" where
  "on_every_path fn a b \<longleftrightarrow> (\<forall>p. flow_walk fn (fn_entry fn) p b \<longrightarrow> a \<in> set p)"

lemma tables_match_compute:
  assumes "bix (fn_entry fn) < length (fn_blocks fn)" and "dom_search fn = Some (R, rev (dom_order fn))"
    and "length R = length (fn_blocks fn)" "\<forall>b. b < length R \<longrightarrow> R ! b \<longleftrightarrow> b \<in> flow_nodes fn"
  shows "tables_match fn (rpo_index_table (length (fn_blocks fn)) (rev (dom_order fn))) (pred_table fn R)"
proof -
  have less: "b < length (fn_blocks fn)" if "b \<in> flow_nodes fn" for b
    using that flow_to_less [OF assms(1)] dom_order_facts(2) [OF assms(1)] by simp
  have "set (pred_table fn R ! b) = flow_preds fn b" if "b \<in> flow_nodes fn" for b
    using pred_table(2) [OF assms(3) less [OF that]] assms(3,4) less by (auto simp: flow_preds_def)
  then show ?thesis
    using assms(1) less rpo_index_table [OF assms(1)] by (simp add: tables_match_def ranks_def get_at_def)
qed

lemma compute_entry: "dominators_compute fn = Some d \<Longrightarrow> bix (fn_entry fn) < length (fn_blocks fn)"
  by (cases "bix (fn_entry fn) < length (fn_blocks fn)") (simp_all add: dominators_compute_def Let_def get_at_def)

lemma dominators_compute_result:
  assumes r: "bix (fn_entry fn) < length (fn_blocks fn)"
  shows "\<exists>d I. dominators_compute fn = Some d \<and> dominator_table fn I \<and>
     length (dom_reachable d) = length (fn_blocks fn) \<and>
     (\<forall>b < length (fn_blocks fn). dom_reachable d ! b \<longleftrightarrow> b \<in> flow_nodes fn) \<and>
     (\<exists>hi. numbered I (flow_nodes fn) 0 hi (dom_tin d) (dom_tout d))"
proof -
  let ?r = "bix (fn_entry fn)" and ?n = "length (fn_blocks fn)"
  obtain R where R: "dom_search fn = Some (R, rev (dom_order fn))" "length R = ?n"
    "\<forall>b. b < length R \<longrightarrow> R ! b \<longleftrightarrow> b \<in> flow_nodes fn"
    using dom_order_facts(6) [OF r] by blast
  from chk_loop_result [OF tables_match_compute [OF r R]] obtain K where
    K: "chk_loop ?r (rpo_index_table ?n (rev (dom_order fn))) (pred_table fn R) (dom_order fn)
       ((replicate ?n None)[?r := Some ?r]) = Some K" "length K = ?n" "dominator_table fn (table_of K)"
    by blast
  have T: "flow_tree fn (table_of K)" and full: "\<forall>b\<in>flow_nodes fn. table_of K b \<noteq> None"
    using K(3) by (auto simp: dominator_table_def)
  have nodes: "flow_nodes fn \<subseteq> {..<length K}"
    using flow_to_less [OF r] dom_order_facts(2) [OF r] K(2) by auto
  have "table_of K ?r \<noteq> None" using full chk.entry(1) by blast
  from walks_tree [OF T nodes this]
  have "walks (children_table K) (table_of K) (length K) [(?r, False)] (flow_nodes fn)"
    unfolding below_entry [OF T full] .
  then obtain hi tin tout where
    "tree_walk (children_table K) ([(?r, False)] @ []) 0 (replicate ?n 0) (replicate ?n 0) =
      tree_walk (children_table K) [] hi tin tout"
    and num: "numbered (table_of K) (flow_nodes fn) 0 hi tin tout"
    using walksE [of "children_table K" "table_of K" "length K" "[(?r, False)]" "flow_nodes fn"
        "replicate ?n 0" "replicate ?n 0" 0 "[]"] K(2) by (metis length_replicate)
  then have w: "tree_walk (children_table K) [(?r, False)] 0 (replicate ?n 0) (replicate ?n 0) = Some (tin, tout)"
    by (simp add: tree_walk.simps [of _ "[]"])
  have "dominators_compute fn = Some \<lparr>dom_tin = tin, dom_tout = tout, dom_reachable = R\<rparr>"
    using R(1) K(1) w(1) by (simp add: dominators_compute_def dom_search_def Let_def)
  then show ?thesis using R(2,3) K(3) num by auto
qed

lemma dominates_evades:
  assumes r: "bix (fn_entry fn) < length (fn_blocks fn)" and "dominators_compute fn = Some d"
    and "bix a < length (fn_blocks fn)" "bix b < length (fn_blocks fn)"
  shows "dominates d a b \<longleftrightarrow> on_every_path fn a b"
    "dom_is_reachable d b \<longleftrightarrow> (\<exists>p. flow_walk fn (fn_entry fn) p b)"
proof -
  let ?r = "bix (fn_entry fn)"
  obtain I hi where I: "dominator_table fn I" "numbered I (flow_nodes fn) 0 hi (dom_tin d) (dom_tout d)"
    and R: "\<forall>b < length (fn_blocks fn). dom_reachable d ! b \<longleftrightarrow> b \<in> flow_nodes fn"
    using dominators_compute_result [OF r] assms(2) by auto
  have every: "on_every_path fn x y \<longleftrightarrow> \<not> evades ?r (flow_preds fn) (bix x) (bix y)" for x y
    using walk_evades [OF r, of y x] by (auto simp: on_every_path_def)
  have walk: "bix b \<in> flow_to fn \<longleftrightarrow> (\<exists>p. flow_walk fn (fn_entry fn) p b)"
    by (rule flow_to_walk [OF r])
  then show "dom_is_reachable d b \<longleftrightarrow> (\<exists>p. flow_walk fn (fn_entry fn) p b)"
    using R assms(4) dom_order_facts(2) [OF r] by (simp add: dom_is_reachable_def)
  show "dominates d a b \<longleftrightarrow> on_every_path fn a b"
  proof (cases "bix b \<in> flow_nodes fn")
    case False
    then have "on_every_path fn a b" using walk dom_order_facts(2) [OF r] by (simp add: on_every_path_def)
    then show ?thesis using False R assms(4) by (simp add: dominates_def)
  next
    case b: True
    then have A: "bix a \<in> anc I (bix b) \<longleftrightarrow> on_every_path fn a b"
      using I(1) every unfolding dominator_table_def by blast
    show ?thesis
    proof (cases "bix a \<in> flow_nodes fn")
      case True
      then show ?thesis using b A I(2) R assms(3,4) by (simp add: dominates_def Let_def numbered_def)
    next
      case False
      have "I (bix b) \<noteq> None" "flow_tree fn I" using I(1) b by (auto simp: dominator_table_def)
      then have "bix a \<notin> anc I (bix b)" using chk.anc_facts(2) False by blast
      then show ?thesis using b False A R assms(3,4) by (simp add: dominates_def Let_def)
    qed
  qed
qed

section \<open>Properties\<close>

text \<open>
  C12: The dominator computation always ends, with a result exactly when the entry names a block
  of the function: the depth-first search, the climbs, the intersections, the fixed point and the
  walk of the tree all finish, and no index is out of range.
\<close>

theorem dominators_compute_total:
  "dominators_compute fn \<noteq> None \<longleftrightarrow> bix (fn_entry fn) < length (fn_blocks fn)"
proof
  show "dominators_compute fn \<noteq> None \<Longrightarrow> bix (fn_entry fn) < length (fn_blocks fn)"
    using compute_entry by blast
next
  show "bix (fn_entry fn) < length (fn_blocks fn) \<Longrightarrow> dominators_compute fn \<noteq> None"
    using dominators_compute_result by auto
qed

text \<open>
  C6: What the interval comparison of \<open>dominates\<close> answers: block \<open>a\<close> dominates block \<open>b\<close> exactly
  when every path of the control flow from the entry to \<open>b\<close> passes through \<open>a\<close> (so an unreachable
  block is dominated by all), and a block counts as reachable exactly when there is such a path.
\<close>

theorem dominates_iff_every_path:
  assumes "dominators_compute fn = Some d"
    and "bix a < length (fn_blocks fn)" and "bix b < length (fn_blocks fn)"
  shows "(dominates d a b \<longleftrightarrow> (\<forall>p. flow_walk fn (fn_entry fn) p b \<longrightarrow> a \<in> set p)) \<and>
    (dom_is_reachable d b \<longleftrightarrow> (\<exists>p. flow_walk fn (fn_entry fn) p b))"
  using dominates_evades [OF compute_entry [OF assms(1)] assms] unfolding on_every_path_def by simp

theorem dominates_iff_every_path_witness:
  "(\<nexists>p. flow_walk diamond (BasicBlockId 0) p (BasicBlockId 3) \<and> BasicBlockId 0 \<notin> set p) \<and>
   (\<exists>p. flow_walk diamond (BasicBlockId 0) p (BasicBlockId 3) \<and> BasicBlockId 1 \<notin> set p)"
proof -
  define d where "d = \<lparr>dom_tin = [0, 5, 3, 1], dom_tout = [7, 6, 4, 2], dom_reachable = [True, True, True, True]\<rparr>"
  have d: "dominators_compute diamond = Some d" unfolding d_def by code_simp
  have e: "fn_entry diamond = BasicBlockId 0" by (simp add: diamond_def function_new_def)
  have n: "bix (BasicBlockId k) < length (fn_blocks diamond)" if "k \<in> {0, 1, 2, 3}" for k
    using that by (auto simp: diamond_def bix_def)
  have "dominates d (BasicBlockId 0) (BasicBlockId 3) \<and> \<not> dominates d (BasicBlockId 1) (BasicBlockId 3)"
    unfolding d_def by code_simp
  with dominates_iff_every_path [OF d n [of 0] n [of 3]] dominates_iff_every_path [OF d n [of 1] n [of 3]]
  show ?thesis by (auto simp: e)
qed

end
