(* ===== verification/Verify_Sound.thy ===== *)
theory Verify_Sound
  imports Verify Dominators_Tree
begin

text \<open>
  What the verifier accepts. The well-formedness of a function is stated without any of the
  verifier's tables: references are in range, every value has one definition, every use is
  reached only through its definition, the sources of a phi are the predecessors of its block.
  The verifier accepts exactly the well-formed functions and always ends; and an execution that
  follows the control flow of an accepted function reads only values it has assigned.
\<close>

section \<open>Well-formed functions\<close>

definition defined_at :: "Function \<Rightarrow> ValueId \<Rightarrow> BasicBlockId \<Rightarrow> nat \<Rightarrow> bool" where
  "defined_at fn v B j \<longleftrightarrow> (\<exists>b\<in>set (fn_blocks fn). blk_id b = B \<and>
     j < length (blk_instructions b) \<and> dest (blk_instructions b ! j) = Some v)"

definition use_ok :: "Function \<Rightarrow> ValueId \<Rightarrow> BasicBlockId \<Rightarrow> nat option \<Rightarrow> bool" where
  \<comment> \<open>\<open>v\<close> may be read in block \<open>B\<close> before instruction \<open>i\<close>, or at its end\<close>
  "use_ok fn v B i \<longleftrightarrow> (\<exists>D j. defined_at fn v D j \<and> on_every_path fn D B \<and>
     (D = B \<longrightarrow> (case i of None \<Rightarrow> True | Some i \<Rightarrow> j < i)))"

fun terminator_uses :: "Terminator \<Rightarrow> ValueId list" where
  "terminator_uses (Return (Some v)) = [v]"
| "terminator_uses (Return None) = []"
| "terminator_uses (Throw v) = [v]"
| "terminator_uses (Branch c _ _) = [c]"
| "terminator_uses (Switch v _ _ _) = [v]"
| "terminator_uses (Deopt frames) = concat (map frame_lives frames)"
| "terminator_uses (Jump _) = []"
| "terminator_uses Unreachable = []"

definition phi_ok :: "Function \<Rightarrow> BasicBlock \<Rightarrow> PhiSource list \<Rightarrow> bool" where
  "phi_ok fn b sources \<longleftrightarrow> sources \<noteq> [] \<and> blk_id b \<noteq> fn_entry fn \<and>
     distinct (map phi_predecessor sources) \<and>
     set (map phi_predecessor sources) = {a. (a, blk_id b) \<in> flow_edge fn} \<and>
     (\<forall>s\<in>set sources. use_ok fn (phi_value s) (phi_predecessor s) None)"

definition instruction_wf :: "Function \<Rightarrow> BasicBlock \<Rightarrow> nat \<Rightarrow> Instruction \<Rightarrow> bool" where
  "instruction_wf fn b k i \<longleftrightarrow>
     (case i of
        Phi _ sources \<Rightarrow> phi_ok fn b sources
      | _ \<Rightarrow> \<not> forwards_with_args i \<and> (\<forall>v\<in>set (uses i). use_ok fn v (blk_id b) (Some k)))"

definition constants_in_range :: "Module \<Rightarrow> BasicBlock \<Rightarrow> bool" where
  "constants_in_range m b \<longleftrightarrow>
     (\<forall>d c. Const d c \<in> set (blk_instructions b) \<longrightarrow> cix c < length (mod_constants m)) \<and>
     (case blk_terminator b of
        Switch _ cases _ _ \<Rightarrow> \<forall>c\<in>set cases. cix (case_constant c) < length (mod_constants m)
      | _ \<Rightarrow> True)"

definition block_wf :: "Module \<Rightarrow> Function \<Rightarrow> nat \<Rightarrow> BasicBlock \<Rightarrow> bool" where
  "block_wf m fn k b \<longleftrightarrow> bix (blk_id b) = k \<and>
     (blk_instructions b = [] \<or> blk_terminator b \<noteq> Unreachable) \<and> constants_in_range m b \<and>
     (\<forall>s\<in>set (terminator_successors (blk_terminator b)). bix s < length (fn_blocks fn))"

definition uses_ok :: "Function \<Rightarrow> BasicBlock \<Rightarrow> bool" where
  "uses_ok fn b \<longleftrightarrow>
     (\<forall>k < length (blk_instructions b). instruction_wf fn b k (blk_instructions b ! k)) \<and>
     (\<forall>v\<in>set (terminator_uses (blk_terminator b)). use_ok fn v (blk_id b) None)"

definition fn_dests :: "Function \<Rightarrow> ValueId list" where
  "fn_dests fn = List.map_filter dest (concat (map blk_instructions (fn_blocks fn)))"

definition wf_function :: "Module \<Rightarrow> Function \<Rightarrow> bool" where
  "wf_function m fn \<longleftrightarrow> bix (fn_entry fn) < length (fn_blocks fn) \<and>
     (\<forall>h. fn_home_object fn = Some h \<longrightarrow> fnix (home_function h) < length (mod_functions m)) \<and>
     (\<forall>k < length (fn_blocks fn). block_wf m fn k (fn_blocks fn ! k)) \<and>
     distinct (fn_dests fn) \<and> (\<forall>b\<in>set (fn_blocks fn). uses_ok fn b)"

section \<open>The loops of the verifier\<close>

lemma fold_res_concat:
  "fold_res (\<lambda>s x. fold_res (g x) s (h x)) s xs =
     fold_res (\<lambda>s (x, y). g x s y) s (concat (map (\<lambda>x. map (Pair x) (h x)) xs))"
proof (induction xs arbitrary: s)
  case (Cons x xs)
  have "fold_res (g x) s ys = fold_res (\<lambda>s (x, y). g x s y) s (map (Pair x) ys)" for s ys
    by (induction ys arbitrary: s) auto
  then show ?case using Cons.IH by simp
qed simp

lemma for_each_enumerate:
  "for_each_res (\<lambda>(k, x). f k x) (enumerate 0 xs) = Inr u \<longleftrightarrow> (\<forall>k < length xs. f k (xs ! k) = Inr ())"
  by (simp add: all_set_conv_all_nth nth_enumerate_eq)

lemma map_filter_simps [simp]:
  "List.map_filter f [] = []"
  "List.map_filter f (x # xs) = (case f x of None \<Rightarrow> [] | Some y \<Rightarrow> [y]) @ List.map_filter f xs"
  "List.map_filter f (xs @ ys) = List.map_filter f xs @ List.map_filter f ys"
  by (auto simp: List.map_filter_def split: option.split)

lemma map_filter_iff: "v \<in> set (List.map_filter f xs) \<longleftrightarrow> (\<exists>x\<in>set xs. f x = Some v)"
  by (force simp: List.map_filter_def)

subsection \<open>Definitions\<close>

type_synonym definition_site = "BasicBlock \<times> nat \<times> Instruction"

definition sites :: "Function \<Rightarrow> definition_site list" where
  "sites fn = concat (map (\<lambda>b. map (Pair b) (enumerate 0 (blk_instructions b))) (fn_blocks fn))"

abbreviation site_dest :: "definition_site \<Rightarrow> ValueId option" where
  "site_dest \<equiv> \<lambda>(b, k, i). dest i"

lemma collect_instruction_iff:
  "collect_instruction fn b defs (k, i) = Inr defs' \<longleftrightarrow>
     (case dest i of
        None \<Rightarrow> defs' = defs
      | Some v \<Rightarrow> defs v = None \<and> defs' = defs(v \<mapsto> \<lparr>def_block = blk_id b, def_index = k\<rparr>))"
  by (auto simp: collect_instruction_def split: option.splits)

lemma collect_fold:
  "(\<exists>defs'. fold_res (\<lambda>defs (b, ki). collect_instruction fn b defs ki) defs L = Inr defs') \<longleftrightarrow>
     distinct (List.map_filter site_dest L) \<and> set (List.map_filter site_dest L) \<inter> dom defs = {}"
  "fold_res (\<lambda>defs (b, ki). collect_instruction fn b defs ki) defs L = Inr defs' \<Longrightarrow>
     defs' v = Some d \<longleftrightarrow> defs v = Some d \<or>
       (\<exists>b k i. (b, k, i) \<in> set L \<and> dest i = Some v \<and> d = \<lparr>def_block = blk_id b, def_index = k\<rparr>)"
proof (induction L arbitrary: defs)
  case (Cons x L)
  obtain b k i where x: "x = (b, k, i)" by (cases x)
  {
    case 1
    show ?case using Cons.IH(1) by (cases "dest i") (auto simp: x collect_instruction_iff dom_def)
  next
    case 2
    then obtain defs1 where s: "collect_instruction fn b defs (k, i) = Inr defs1"
      "fold_res (\<lambda>defs (b, ki). collect_instruction fn b defs ki) defs1 L = Inr defs'" by (auto simp: x)
    have "defs1 v = Some d \<longleftrightarrow>
        defs v = Some d \<or> dest i = Some v \<and> d = \<lparr>def_block = blk_id b, def_index = k\<rparr>"
      using s(1) by (cases "dest i") (auto simp: collect_instruction_iff)
    with Cons.IH(2) [OF s(2)] show ?case by (auto simp: x)
  }
qed auto

lemma collect_definitions_sites:
  "collect_definitions fn = fold_res (\<lambda>defs (b, ki). collect_instruction fn b defs ki) Map.empty (sites fn)"
  unfolding collect_definitions_def sites_def by (rule fold_res_concat)

lemma site_dests: "List.map_filter site_dest (sites fn) = fn_dests fn"
proof -
  have block: "List.map_filter site_dest (map (Pair b) (enumerate n is)) = List.map_filter dest is" for b n "is"
    by (induction "is" arbitrary: n) (auto split: option.split)
  have "List.map_filter site_dest (concat (map (\<lambda>b. map (Pair b) (enumerate 0 (blk_instructions b))) bs)) =
      List.map_filter dest (concat (map blk_instructions bs))" for bs
    by (induction bs) (simp_all add: block)
  then show ?thesis by (simp add: sites_def fn_dests_def)
qed

lemma set_sites:
  "(b, k, i) \<in> set (sites fn) \<longleftrightarrow>
     b \<in> set (fn_blocks fn) \<and> k < length (blk_instructions b) \<and> blk_instructions b ! k = i"
  by (force simp: sites_def in_set_enumerate_eq)

lemma collect_definitions_iff:
  "(\<exists>defs. collect_definitions fn = Inr defs) \<longleftrightarrow> distinct (fn_dests fn)"
  "collect_definitions fn = Inr defs \<Longrightarrow>
     defs v = Some d \<longleftrightarrow> defined_at fn v (def_block d) (def_index d)"
proof -
  show "(\<exists>defs. collect_definitions fn = Inr defs) \<longleftrightarrow> distinct (fn_dests fn)"
    unfolding collect_definitions_sites collect_fold(1) site_dests by simp
  assume "collect_definitions fn = Inr defs"
  from collect_fold(2) [OF this [unfolded collect_definitions_sites], of v d]
  have "defs v = Some d \<longleftrightarrow> (\<exists>b k i. (b, k, i) \<in> set (sites fn) \<and> dest i = Some v \<and>
      d = \<lparr>def_block = blk_id b, def_index = k\<rparr>)" by simp
  then show "defs v = Some d \<longleftrightarrow> defined_at fn v (def_block d) (def_index d)"
    unfolding set_sites defined_at_def by (cases d) auto
qed

subsection \<open>Blocks and predecessors\<close>

definition preds_of :: "predecessor_map \<Rightarrow> BasicBlockId \<Rightarrow> BasicBlockId set" where
  "preds_of preds s = (case preds s of None \<Rightarrow> {} | Some ps \<Rightarrow> set ps)"

lemma preds_of_add:
  "preds_of (add_predecessor s b preds) t = (if t = s then insert b (preds_of preds s) else preds_of preds t)"
  by (auto simp: preds_of_def add_predecessor_def split: option.split)

lemma successor_fold:
  "fold_res (\<lambda>preds s. bindr (ensure (bix s < n) (err s)) (\<lambda>_. Inr (add_predecessor s b preds))) preds ss = Inr preds' \<longleftrightarrow>
     (\<forall>s\<in>set ss. bix s < n) \<and> preds' = fold (\<lambda>s. add_predecessor s b) ss preds"
  by (induction ss arbitrary: preds) auto

lemma preds_of_fold:
  "preds_of (fold (\<lambda>s. add_predecessor s b) ss preds) t = preds_of preds t \<union> (if t \<in> set ss then {b} else {})"
  by (induction ss arbitrary: preds) (auto simp: preds_of_add)

lemma constant_refs_iff:
  "verify_instruction_constant_refs m fn b = Inr () \<and> verify_terminator_constant_refs m fn b = Inr () \<longleftrightarrow>
     constants_in_range m b"
proof -
  have "verify_instruction_constant_refs m fn b = Inr () \<longleftrightarrow>
      (\<forall>d c. Const d c \<in> set (blk_instructions b) \<longrightarrow> cix c < length (mod_constants m))"
    by (auto simp: verify_instruction_constant_refs_def verify_constant_id_def split: Instruction.splits)
  moreover have "verify_terminator_constant_refs m fn b = Inr () \<longleftrightarrow>
      (case blk_terminator b of
         Switch _ cases _ _ \<Rightarrow> \<forall>c\<in>set cases. cix (case_constant c) < length (mod_constants m)
       | _ \<Rightarrow> True)"
    by (auto simp: verify_terminator_constant_refs_def verify_constant_id_def split: Terminator.splits)
  ultimately show ?thesis by (simp add: constants_in_range_def)
qed

lemma verify_block_iff:
  "verify_block m fn preds (k, b) = Inr preds' \<longleftrightarrow> block_wf m fn k b \<and>
     preds' = fold (\<lambda>s. add_predecessor s (blk_id b)) (terminator_successors (blk_terminator b)) preds"
  unfolding verify_block_def block_wf_def successor_fold prod.case constant_refs_iff [of m fn b, symmetric]
  by (auto simp: successor_fold)

lemma verify_blocks_iff:
  "(\<exists>preds'. fold_res (verify_block m fn) preds (enumerate k bs) = Inr preds') \<longleftrightarrow>
     (\<forall>i < length bs. block_wf m fn (k + i) (bs ! i))"
  "fold_res (verify_block m fn) preds (enumerate k bs) = Inr preds' \<Longrightarrow>
     preds_of preds' t = preds_of preds t \<union>
       {blk_id b |b. b \<in> set bs \<and> t \<in> set (terminator_successors (blk_terminator b))}"
proof (induction bs arbitrary: k preds)
  case (Cons b bs)
  {
    case 1
    show ?case using Cons.IH(1) [of _ "Suc k"] by (auto simp: verify_block_iff less_Suc_eq_0_disj all_conj_distrib)
  next
    case 2
    then show ?case using Cons.IH(2) [of _ "Suc k"] by (auto simp: verify_block_iff preds_of_fold split: if_splits)
  }
qed auto

lemma preds_of_empty: "preds_of (empty_predecessors fn) t = {}"
  by (auto simp: preds_of_def empty_predecessors_def split: option.split dest!: map_of_SomeD)

lemma block_of_id:
  assumes "\<forall>k < length (fn_blocks fn). block_wf m fn k (fn_blocks fn ! k)" and "b \<in> set (fn_blocks fn)"
  shows "fn_blocks fn ! bix (blk_id b) = b" "bix (blk_id b) < length (fn_blocks fn)"
  using assms by (auto simp: in_set_conv_nth block_wf_def)

lemma preds_flow_edge:
  assumes "\<forall>k < length (fn_blocks fn). block_wf m fn k (fn_blocks fn ! k)"
  shows "{blk_id b |b. b \<in> set (fn_blocks fn) \<and> t \<in> set (terminator_successors (blk_terminator b))} =
    {a. (a, t) \<in> flow_edge fn}"
proof (intro set_eqI iffI; elim CollectE exE conjE)
  fix a b assume b: "a = blk_id b" "b \<in> set (fn_blocks fn)" "t \<in> set (terminator_successors (blk_terminator b))"
  note n = block_of_id [OF assms b(2)]
  then have "block_wf m fn (bix (blk_id b)) b" using assms by metis
  then show "a \<in> {a. (a, t) \<in> flow_edge fn}" using b n by (simp add: flow_edge_def block_wf_def)
next
  fix a assume "(a, t) \<in> flow_edge fn"
  then have a: "bix a < length (fn_blocks fn)" "t \<in> set (terminator_successors (blk_terminator (fn_blocks fn ! bix a)))"
    by (auto simp: flow_edge_def)
  then have "bix (blk_id (fn_blocks fn ! bix a)) = bix a" using assms by (simp add: block_wf_def)
  then show "a \<in> {blk_id b |b. b \<in> set (fn_blocks fn) \<and> t \<in> set (terminator_successors (blk_terminator b))}"
    using a by (force simp: bix_inj)
qed

subsection \<open>Uses\<close>

lemma value_use_iff:
  assumes D: "dominators_compute fn = Some dt"
    and blocks: "\<forall>k < length (fn_blocks fn). block_wf m fn k (fn_blocks fn ! k)"
    and defs: "\<And>v d. defs v = Some d \<longleftrightarrow> defined_at fn v (def_block d) (def_index d)"
    and site: "bix (site_block site) < length (fn_blocks fn)"
  shows "verify_value_use fn defs dt v site = Inr () \<longleftrightarrow> use_ok fn v (site_block site) (site_index site)"
proof -
  have query: "\<not> (dom_is_reachable dt (site_block site) \<and> \<not> dominates dt (def_block d) (site_block site)) \<longleftrightarrow>
      on_every_path fn (def_block d) (site_block site)" if "defs v = Some d" for d
  proof -
    have "bix (def_block d) < length (fn_blocks fn)"
      using that block_of_id(2) [OF blocks] unfolding defs defined_at_def by metis
    from dominates_evades [OF compute_entry [OF D] D this site] show ?thesis
      by (auto simp: on_every_path_def)
  qed
  show ?thesis
  proof (cases "defs v")
    case None
    then have "\<not> defined_at fn v D j" for D j
      using defs [of v "\<lparr>def_block = D, def_index = j\<rparr>"] by simp
    then show ?thesis using None by (simp add: verify_value_use_def use_ok_def)
  next
    case (Some d)
    have only: "D = def_block d \<and> j = def_index d" if "defined_at fn v D j" for D j
      using that defs [of v "\<lparr>def_block = D, def_index = j\<rparr>"] Some by simp
    have d: "defined_at fn v (def_block d) (def_index d)" using Some defs by simp
    have "use_ok fn v (site_block site) (site_index site) \<longleftrightarrow>
        on_every_path fn (def_block d) (site_block site) \<and>
        (def_block d = site_block site \<longrightarrow>
           (case site_index site of None \<Rightarrow> True | Some i \<Rightarrow> def_index d < i))"
      unfolding use_ok_def using only d by blast
    then show ?thesis using query [OF Some] Some
      by (auto simp: verify_value_use_def split: option.splits)
  qed
qed

lemma phi_fold:
  "fold_res (\<lambda>seen source.
      bindr (verify_phi_source_predecessor fn block source preds seen) (\<lambda>seen.
      bindr (verify_value_use fn defs dt (phi_value source)
               (PhiSourceSite (blk_id block) (phi_predecessor source))) (\<lambda>_. Inr seen))) seen sources = Inr seen' \<longleftrightarrow>
   distinct (map phi_predecessor sources) \<and> phi_predecessor ` set sources \<inter> seen = {} \<and>
   phi_predecessor ` set sources \<subseteq> set preds \<and>
   (\<forall>s\<in>set sources. verify_value_use fn defs dt (phi_value s)
      (PhiSourceSite (blk_id block) (phi_predecessor s)) = Inr ()) \<and>
   seen' = seen \<union> phi_predecessor ` set sources"
proof (induction sources arbitrary: seen)
  case (Cons s sources)
  have one: "verify_phi_source_predecessor fn block s preds seen = Inr seen1 \<longleftrightarrow>
      phi_predecessor s \<notin> seen \<and> phi_predecessor s \<in> set preds \<and> seen1 = insert (phi_predecessor s) seen" for seen1
    by (auto simp: verify_phi_source_predecessor_def)
  show ?case by (auto simp: one Cons.IH)
qed auto

lemma verify_phi_iff:
  "verify_phi fn defs dt block preds sources = Inr () \<longleftrightarrow>
   sources \<noteq> [] \<and> blk_id block \<noteq> fn_entry fn \<and> distinct (map phi_predecessor sources) \<and>
   phi_predecessor ` set sources = set preds \<and>
   (\<forall>s\<in>set sources. verify_value_use fn defs dt (phi_value s)
      (PhiSourceSite (blk_id block) (phi_predecessor s)) = Inr ())"
  unfolding verify_phi_def by (auto simp: phi_fold)

lemma verify_phi_ok:
  assumes D: "dominators_compute fn = Some dt"
    and blocks: "\<forall>k < length (fn_blocks fn). block_wf m fn k (fn_blocks fn ! k)"
    and defs: "\<And>v d. defs v = Some d \<longleftrightarrow> defined_at fn v (def_block d) (def_index d)"
    and preds: "set preds = {a. (a, blk_id b) \<in> flow_edge fn}"
  shows "verify_phi fn defs dt b preds sources = Inr () \<longleftrightarrow> phi_ok fn b sources"
proof -
  have "verify_value_use fn defs dt (phi_value s) (PhiSourceSite (blk_id b) (phi_predecessor s)) = Inr () \<longleftrightarrow>
      use_ok fn (phi_value s) (phi_predecessor s) None" if "phi_predecessor s \<in> set preds" for s
    using value_use_iff [OF D blocks defs, of "PhiSourceSite (blk_id b) (phi_predecessor s)"] that preds
    by (simp add: flow_edge_def)
  then show ?thesis unfolding verify_phi_iff phi_ok_def preds [symmetric] by auto
qed

lemma terminator_uses_iff:
  assumes D: "dominators_compute fn = Some dt"
    and blocks: "\<forall>k < length (fn_blocks fn). block_wf m fn k (fn_blocks fn ! k)"
    and defs: "\<And>v d. defs v = Some d \<longleftrightarrow> defined_at fn v (def_block d) (def_index d)"
    and b: "b \<in> set (fn_blocks fn)"
  shows "verify_terminator_uses fn defs dt b = Inr () \<longleftrightarrow>
    (\<forall>v\<in>set (terminator_uses (blk_terminator b)). use_ok fn v (blk_id b) None)"
proof -
  have "verify_value_use fn defs dt v (TerminatorSite (blk_id b)) = Inr () \<longleftrightarrow> use_ok fn v (blk_id b) None" for v
    using value_use_iff [OF D blocks defs, of "TerminatorSite (blk_id b)"] block_of_id(2) [OF blocks b] by simp
  then show ?thesis
    unfolding verify_terminator_uses_def by (auto simp: Let_def split: Terminator.split option.split)
qed

lemma verify_uses_iff:
  assumes D: "dominators_compute fn = Some dt"
    and blocks: "\<forall>k < length (fn_blocks fn). block_wf m fn k (fn_blocks fn ! k)"
    and defs: "\<And>v d. defs v = Some d \<longleftrightarrow> defined_at fn v (def_block d) (def_index d)"
    and preds: "\<And>t. preds_of preds t = {a. (a, t) \<in> flow_edge fn}"
  shows "bindr (verify_phi_sources fn preds defs dt) (\<lambda>_. verify_non_phi_uses fn defs dt) = Inr () \<longleftrightarrow>
    (\<forall>b\<in>set (fn_blocks fn). uses_ok fn b)"
proof -
  let ?plist = "\<lambda>b. case preds (blk_id b) of None \<Rightarrow> [] | Some ps \<Rightarrow> ps"
  have plist: "set (?plist b) = {a. (a, blk_id b) \<in> flow_edge fn}" for b
    unfolding preds [symmetric] by (auto simp: preds_of_def split: option.split)
  note phi = verify_phi_ok [OF D blocks defs plist]
  have phis: "verify_phi_sources fn preds defs dt = Inr () \<longleftrightarrow>
      (\<forall>b\<in>set (fn_blocks fn). \<forall>k < length (blk_instructions b). \<forall>d sources.
         blk_instructions b ! k = Phi d sources \<longrightarrow> phi_ok fn b sources)"
    unfolding verify_phi_sources_def for_each_res_Inr_iff phi [symmetric]
    by (auto simp: all_set_conv_all_nth [of "blk_instructions _"] split: Instruction.split)
  have site: "verify_value_use fn defs dt v (InstructionSite (blk_id b) k) = Inr () \<longleftrightarrow> use_ok fn v (blk_id b) (Some k)"
    if "b \<in> set (fn_blocks fn)" for v b k
    using value_use_iff [OF D blocks defs, of "InstructionSite (blk_id b) k"] block_of_id(2) [OF blocks that] by simp
  have inst: "verify_instruction_uses fn defs dt (InstructionSite (blk_id b) k) i = Inr () \<longleftrightarrow>
      is_phi i \<or> \<not> forwards_with_args i \<and> (\<forall>v\<in>set (uses i). use_ok fn v (blk_id b) (Some k))"
    if "b \<in> set (fn_blocks fn)" for b k i
    by (auto simp: verify_instruction_uses_def site [OF that])
  have ok: "instruction_wf fn b k i \<longleftrightarrow> (\<forall>d sources. i = Phi d sources \<longrightarrow> phi_ok fn b sources) \<and>
      (is_phi i \<or> \<not> forwards_with_args i \<and> (\<forall>v\<in>set (uses i). use_ok fn v (blk_id b) (Some k)))" for b k i
    unfolding instruction_wf_def by (cases i) simp_all
  have rest: "verify_non_phi_uses fn defs dt = Inr () \<longleftrightarrow>
      (\<forall>b\<in>set (fn_blocks fn).
         (\<forall>k < length (blk_instructions b). is_phi (blk_instructions b ! k) \<or>
            \<not> forwards_with_args (blk_instructions b ! k) \<and>
            (\<forall>v\<in>set (uses (blk_instructions b ! k)). use_ok fn v (blk_id b) (Some k))) \<and>
         (\<forall>v\<in>set (terminator_uses (blk_terminator b)). use_ok fn v (blk_id b) None))"
    unfolding verify_non_phi_uses_def for_each_res_Inr_iff [of _ "fn_blocks fn"] bindr_Inr_iff for_each_enumerate
    by (simp add: inst terminator_uses_iff [OF D blocks defs])
  have "bindr (verify_phi_sources fn preds defs dt) (\<lambda>_. verify_non_phi_uses fn defs dt) = Inr () \<longleftrightarrow>
      verify_phi_sources fn preds defs dt = Inr () \<and> verify_non_phi_uses fn defs dt = Inr ()"
    by simp
  then show ?thesis unfolding phis rest uses_ok_def ok by blast
qed

section \<open>The verifier accepts exactly the well-formed functions\<close>

lemma function_ids_iff:
  "verify_function_id_refs m fn = Inr () \<longleftrightarrow>
     (\<forall>h. fn_home_object fn = Some h \<longrightarrow> fnix (home_function h) < length (mod_functions m))"
  by (auto simp: verify_function_id_refs_def get_at_def split: option.split)

lemma entry_check_iff: "block_by_id fn b \<noteq> None \<longleftrightarrow> bix b < length (fn_blocks fn)"
  by (simp add: block_by_id_def get_at_def)

lemma verify_function_result:
  "verify_function m fn \<noteq> None" "verify_function m fn = Some (Inr ()) \<longleftrightarrow> wf_function m fn"
proof -
  let ?head = "bindr (ensure (block_by_id fn (fn_entry fn) \<noteq> None)
                    (EntryBlockMissing (fn_name fn) (fn_entry fn))) (\<lambda>_.
           bindr (verify_function_id_refs m fn) (\<lambda>_.
           bindr (fold_res (verify_block m fn) (empty_predecessors fn) (enumerate 0 (fn_blocks fn))) (\<lambda>preds.
           bindr (collect_definitions fn) (\<lambda>defs. Inr (preds, defs)))))"
  have head: "(\<exists>x. ?head = Inr x) \<longleftrightarrow> bix (fn_entry fn) < length (fn_blocks fn) \<and>
      (\<forall>h. fn_home_object fn = Some h \<longrightarrow> fnix (home_function h) < length (mod_functions m)) \<and>
      (\<forall>k < length (fn_blocks fn). block_wf m fn k (fn_blocks fn ! k)) \<and> distinct (fn_dests fn)"
    using verify_blocks_iff(1) [of m fn "empty_predecessors fn" 0 "fn_blocks fn"]
      collect_definitions_iff(1) [of fn] function_ids_iff [of m fn] entry_check_iff [of fn "fn_entry fn"]
    by auto
  show "verify_function m fn \<noteq> None"
  proof (cases ?head)
    case (Inr x)
    then have "dominators_compute fn \<noteq> None" using head dominators_compute_result [of fn] by auto
    then show ?thesis unfolding verify_function_def Inr by (cases x) auto
  qed (simp add: verify_function_def)
  show "verify_function m fn = Some (Inr ()) \<longleftrightarrow> wf_function m fn"
  proof (cases ?head)
    case (Inl e)
    then have "\<not> (\<exists>x. ?head = Inr x)" by simp
    then have "\<not> wf_function m fn" unfolding head wf_function_def by blast
    then show ?thesis unfolding verify_function_def Inl by simp
  next
    case (Inr x)
    obtain preds defs where x: "x = (preds, defs)" by (cases x)
    have h: "bix (fn_entry fn) < length (fn_blocks fn)" "\<forall>k < length (fn_blocks fn). block_wf m fn k (fn_blocks fn ! k)"
      using head Inr by blast+
    have r: "fold_res (verify_block m fn) (empty_predecessors fn) (enumerate 0 (fn_blocks fn)) = Inr preds"
      "collect_definitions fn = Inr defs" using Inr x by auto
    have P: "preds_of preds t = {a. (a, t) \<in> flow_edge fn}" for t
      using verify_blocks_iff(2) [OF r(1), of t] preds_flow_edge [OF h(2), of t] by (simp add: preds_of_empty)
    obtain dt where dt: "dominators_compute fn = Some dt" using dominators_compute_result [OF h(1)] by blast
    have "verify_function m fn = Some (Inr ()) \<longleftrightarrow> (\<forall>b\<in>set (fn_blocks fn). uses_ok fn b)"
      using verify_uses_iff [OF dt h(2) collect_definitions_iff(2) [OF r(2)] P] Inr x dt
      by (simp add: verify_function_def)
    then show ?thesis using head Inr unfolding wf_function_def by blast
  qed
qed

section \<open>Executions of a verified function\<close>

text \<open>
  \<open>reaches fn prev B i S\<close>: following the terminators from the entry, an execution can stand
  before instruction \<open>i\<close> of block \<open>B\<close> (at its terminator when \<open>i\<close> is the number of instructions),
  having come from block \<open>prev\<close> and having assigned the values \<open>S\<close>. \<open>value_reads\<close> is what it reads there;
  a phi reads its source for the block the execution came from.
\<close>

inductive reaches :: "Function \<Rightarrow> BasicBlockId option \<Rightarrow> BasicBlockId \<Rightarrow> nat \<Rightarrow> ValueId set \<Rightarrow> bool" for fn where
  enter: "reaches fn None (fn_entry fn) 0 {}"
| advance: "reaches fn prev B i S \<Longrightarrow> block_by_id fn B = Some b \<Longrightarrow> i < length (blk_instructions b) \<Longrightarrow>
    reaches fn prev B (Suc i) (S \<union> set_option (dest (blk_instructions b ! i)))"
| follow: "reaches fn prev B i S \<Longrightarrow> block_by_id fn B = Some b \<Longrightarrow> i = length (blk_instructions b) \<Longrightarrow>
    (B, C) \<in> flow_edge fn \<Longrightarrow> reaches fn (Some B) C 0 S"

definition value_reads :: "Function \<Rightarrow> BasicBlockId option \<Rightarrow> BasicBlockId \<Rightarrow> nat \<Rightarrow> ValueId set" where
  "value_reads fn prev B i =
     (case block_by_id fn B of
        None \<Rightarrow> {}
      | Some b \<Rightarrow>
          if i < length (blk_instructions b) then
            (case blk_instructions b ! i of
               Phi _ sources \<Rightarrow> {phi_value s |s. s \<in> set sources \<and> prev = Some (phi_predecessor s)}
             | instruction \<Rightarrow> set (uses instruction))
          else set (terminator_uses (blk_terminator b)))"

definition exec_inv :: "Function \<Rightarrow> BasicBlockId option \<Rightarrow> BasicBlockId \<Rightarrow> nat \<Rightarrow> ValueId set \<Rightarrow> bool" where
  "exec_inv fn prev B i S \<longleftrightarrow>
     (\<exists>p. flow_walk fn (fn_entry fn) (p @ [B]) B \<and>
        (case prev of
           None \<Rightarrow> p = [] \<and> B = fn_entry fn
         | Some u \<Rightarrow> flow_walk fn (fn_entry fn) p u \<and> (u, B) \<in> flow_edge fn) \<and>
        (\<forall>v D j. defined_at fn v D j \<longrightarrow> D \<in> set p \<or> D = B \<and> j < i \<longrightarrow> v \<in> S))"

lemma walk_last: "flow_walk fn a p b \<Longrightarrow> \<exists>q. p = q @ [b]"
  by (induction rule: flow_walk.induct) auto

lemma defined_in_block:
  assumes "\<forall>k < length (fn_blocks fn). block_wf m fn k (fn_blocks fn ! k)" and "block_by_id fn B = Some b"
  shows "defined_at fn v B j \<longleftrightarrow> j < length (blk_instructions b) \<and> dest (blk_instructions b ! j) = Some v"
    "blk_id b = B" "b \<in> set (fn_blocks fn)"
proof -
  have b: "bix B < length (fn_blocks fn)" "fn_blocks fn ! bix B = b"
    using assms(2) by (simp_all add: block_by_id_def get_at_Some_iff)
  then have "bix (blk_id b) = bix B" using assms(1) by (auto simp: block_wf_def)
  then show "blk_id b = B" by (simp add: bix_inj)
  show "b \<in> set (fn_blocks fn)" using b by auto
  then show "defined_at fn v B j \<longleftrightarrow> j < length (blk_instructions b) \<and> dest (blk_instructions b ! j) = Some v"
    using block_of_id(1) [OF assms(1)] \<open>blk_id b = B\<close> b(2) unfolding defined_at_def by metis
qed

lemma exec_inv_reaches:
  assumes "\<forall>k < length (fn_blocks fn). block_wf m fn k (fn_blocks fn ! k)" and "reaches fn prev B i S"
  shows "exec_inv fn prev B i S"
  using assms(2)
proof (induction rule: reaches.induct)
  case enter
  then show ?case using flow_walk.here [of fn "fn_entry fn"] unfolding exec_inv_def by auto
next
  case (advance prev B i S b)
  from advance.IH obtain p where p: "flow_walk fn (fn_entry fn) (p @ [B]) B"
    "case prev of None \<Rightarrow> p = [] \<and> B = fn_entry fn
     | Some u \<Rightarrow> flow_walk fn (fn_entry fn) p u \<and> (u, B) \<in> flow_edge fn"
    "\<forall>v D j. defined_at fn v D j \<longrightarrow> D \<in> set p \<or> D = B \<and> j < i \<longrightarrow> v \<in> S"
    unfolding exec_inv_def by blast
  have "v \<in> S \<union> set_option (dest (blk_instructions b ! i))"
    if "defined_at fn v D j" "D \<in> set p \<or> D = B \<and> j < Suc i" for v D j
    using that p(3) defined_in_block(1) [OF assms(1) advance.hyps(2)] by (auto simp: less_Suc_eq)
  then show ?case unfolding exec_inv_def using p(1,2) by blast
next
  case (follow prev B i S b C)
  from follow.IH obtain p where p: "flow_walk fn (fn_entry fn) (p @ [B]) B"
    "\<forall>v D j. defined_at fn v D j \<longrightarrow> D \<in> set p \<or> D = B \<and> j < i \<longrightarrow> v \<in> S"
    unfolding exec_inv_def by blast
  have "flow_walk fn (fn_entry fn) ((p @ [B]) @ [C]) C" by (rule flow_walk.step [OF p(1) follow.hyps(4)])
  moreover have "v \<in> S" if "defined_at fn v D j" "D \<in> set (p @ [B])" for v D j
  proof (cases "D = B")
    case True
    then have "j < i" using that(1) defined_in_block(1) [OF assms(1) follow.hyps(2)] follow.hyps(3) by simp
    then show ?thesis using that(1) p(2) True by blast
  qed (use that p(2) in auto)
  ultimately show ?case unfolding exec_inv_def using p(1) follow.hyps(4) by (intro exI [of _ "p @ [B]"]) auto
qed

lemma use_assigned:
  assumes "use_ok fn v B pos" and "flow_walk fn (fn_entry fn) (p @ [B]) B"
    and "\<forall>v D j. defined_at fn v D j \<longrightarrow> D \<in> set p \<or> D = B \<and> j < i \<longrightarrow> v \<in> S"
    and "\<And>D j. pos = None \<Longrightarrow> defined_at fn v B j \<Longrightarrow> j < i" and "pos = None \<or> pos = Some i"
  shows "v \<in> S"
proof -
  obtain D j where d: "defined_at fn v D j" "on_every_path fn D B"
    "D = B \<longrightarrow> (case pos of None \<Rightarrow> True | Some i \<Rightarrow> j < i)"
    using assms(1) unfolding use_ok_def by blast
  have "D \<in> set (p @ [B])" using d(2) assms(2) unfolding on_every_path_def by blast
  moreover have "j < i" if "D = B" using that d assms(4,5) by (cases pos) auto
  ultimately show ?thesis using d(1) assms(3) by auto
qed

lemma exec_safe:
  assumes wf: "wf_function m fn" and run: "reaches fn prev B i S"
  shows "block_by_id fn B \<noteq> None" "value_reads fn prev B i \<subseteq> S"
    "block_by_id fn B = Some b \<Longrightarrow> i < length (blk_instructions b) \<Longrightarrow> blk_instructions b ! i = Phi d sources \<Longrightarrow>
       \<exists>!s. s \<in> set sources \<and> prev = Some (phi_predecessor s)"
proof -
  have blocks: "\<forall>k < length (fn_blocks fn). block_wf m fn k (fn_blocks fn ! k)"
    and entry: "bix (fn_entry fn) < length (fn_blocks fn)"
    and uses: "\<forall>b\<in>set (fn_blocks fn). uses_ok fn b" using wf by (auto simp: wf_function_def)
  obtain p where p: "flow_walk fn (fn_entry fn) (p @ [B]) B"
    "case prev of None \<Rightarrow> p = [] \<and> B = fn_entry fn
     | Some u \<Rightarrow> flow_walk fn (fn_entry fn) p u \<and> (u, B) \<in> flow_edge fn"
    "\<forall>v D j. defined_at fn v D j \<longrightarrow> D \<in> set p \<or> D = B \<and> j < i \<longrightarrow> v \<in> S"
    using exec_inv_reaches [OF blocks run] unfolding exec_inv_def by blast
  have "bix B \<in> flow_to fn" using p(1) flow_to_walk [OF entry] by blast
  then have "bix B < length (fn_blocks fn)" by (rule flow_to_less [OF entry])
  then show "block_by_id fn B \<noteq> None" by (simp only: entry_check_iff)
  have phi: "phi_ok fn b sources" "prev \<noteq> None"
    if "block_by_id fn B = Some b" "i < length (blk_instructions b)" "blk_instructions b ! i = Phi d sources" for b d sources
  proof -
    note blk = defined_in_block(2,3) [OF blocks that(1)]
    show ok: "phi_ok fn b sources" using uses blk(2) that(2,3) by (force simp: uses_ok_def instruction_wf_def)
    show "prev \<noteq> None"
    proof
      assume "prev = None"
      then have "B = fn_entry fn" using p(2) by simp
      then show False using ok blk(1) by (simp add: phi_ok_def)
    qed
  qed
  show "\<exists>!s. s \<in> set sources \<and> prev = Some (phi_predecessor s)"
    if b: "block_by_id fn B = Some b" "i < length (blk_instructions b)" "blk_instructions b ! i = Phi d sources"
  proof -
    obtain u where u: "prev = Some u" using phi(2) [OF b] by auto
    have "u \<in> set (map phi_predecessor sources)" "inj_on phi_predecessor (set sources)"
      using phi(1) [OF b] p(2) u defined_in_block(2) [OF blocks b(1)] by (auto simp: phi_ok_def distinct_map)
    then show ?thesis unfolding u by (auto simp: inj_on_def)
  qed
  show "value_reads fn prev B i \<subseteq> S"
  proof (cases "block_by_id fn B")
    case (Some b)
    note blk = defined_in_block [OF blocks Some]
    show ?thesis
    proof
      fix v assume v: "v \<in> value_reads fn prev B i"
      show "v \<in> S"
      proof (cases "i < length (blk_instructions b)")
        case False
        then have "v \<in> set (terminator_uses (blk_terminator b))" using v Some by (simp add: value_reads_def)
        then have "use_ok fn v B None" using uses blk(2,3) by (auto simp: uses_ok_def)
        then show ?thesis by (rule use_assigned [OF _ p(1,3)]) (use blk(1) False in auto)
      next
        case True
        have ok: "instruction_wf fn b i (blk_instructions b ! i)" using uses blk(3) True by (simp add: uses_ok_def)
        show ?thesis
        proof (cases "\<exists>d sources. blk_instructions b ! i = Phi d sources")
          case phi_case: True
          then obtain d sources s where s: "blk_instructions b ! i = Phi d sources" "s \<in> set sources"
            "prev = Some (phi_predecessor s)" "v = phi_value s" using v Some True by (auto simp: value_reads_def)
          have "use_ok fn v (phi_predecessor s) None" using phi(1) [OF Some True s(1)] s by (simp add: phi_ok_def)
          then obtain D j where d: "defined_at fn v D j" "on_every_path fn D (phi_predecessor s)"
            unfolding use_ok_def by blast
          have "flow_walk fn (fn_entry fn) p (phi_predecessor s)" using p(2) s(3) by simp
          then have "D \<in> set p" using d(2) by (simp add: on_every_path_def)
          then show ?thesis using d(1) p(3) by blast
        next
          case False
          then have "v \<in> set (uses (blk_instructions b ! i))"
            using v Some True by (cases "blk_instructions b ! i") (simp_all add: value_reads_def)
          moreover have "\<forall>v\<in>set (uses (blk_instructions b ! i)). use_ok fn v (blk_id b) (Some i)"
            using ok False by (cases "blk_instructions b ! i") (simp_all add: instruction_wf_def)
          ultimately have "use_ok fn v B (Some i)" using blk(2) by auto
          then show ?thesis by (rule use_assigned [OF _ p(1,3)]) auto
        qed
      qed
    qed
  qed (simp add: value_reads_def)
qed

section \<open>Modules\<close>

definition wf_constants :: "Module \<Rightarrow> bool" where
  "wf_constants m \<longleftrightarrow> (\<forall>c\<in>set (mod_constants m).
     case c of
       FunctionRef f \<Rightarrow> fnix f < length (mod_functions m)
     | ObjectTemplate keys \<Rightarrow> \<forall>key\<in>set keys. \<forall>i. template_key_name_ref key = Some i \<longrightarrow>
         (\<exists>s. get_at (mod_constants m) (unat i) = Some (String s))
     | _ \<Rightarrow> True)"

lemma verify_module_constants_iff: "verify_module_constants m = Inr () \<longleftrightarrow> wf_constants m"
proof -
  have one: "verify_constant m (k, c) = Inr () \<longleftrightarrow>
     (case c of
       FunctionRef f \<Rightarrow> fnix f < length (mod_functions m)
     | ObjectTemplate keys \<Rightarrow> \<forall>key\<in>set keys. \<forall>i. template_key_name_ref key = Some i \<longrightarrow>
         (\<exists>s. get_at (mod_constants m) (unat i) = Some (String s))
     | _ \<Rightarrow> True)" for k c
  proof -
    have key: "(case x of Some (String s) \<Rightarrow> Inr () | _ \<Rightarrow> Inl e) = Inr () \<longleftrightarrow> (\<exists>s. x = Some (String s))"
      for x :: "Constant option" and e :: IrVerificationError
      by (auto split: option.splits Constant.splits)
    have ref: "(case x of None \<Rightarrow> Inr () | Some i \<Rightarrow> f i) = Inr () \<longleftrightarrow> (\<forall>i. x = Some i \<longrightarrow> f i = Inr ())"
      for x :: "u32 option" and f :: "u32 \<Rightarrow> IrVerificationError + unit"
      by (auto split: option.splits)
    show ?thesis by (cases c) (simp_all add: verify_constant_def key ref)
  qed
  show ?thesis
    unfolding verify_module_constants_def wf_constants_def for_each_res_Inr_iff
    by (simp add: all_set_conv_all_nth nth_enumerate_eq one)
qed

lemma verify_functions_iff:
  "verify_functions m fns \<noteq> None"
  "verify_functions m fns = Some (Inr ()) \<longleftrightarrow> (\<forall>fn\<in>set fns. wf_function m fn)"
proof (induction fns)
  case (Cons fn fns)
  have "verify_function m fn \<noteq> None" "verify_function m fn = Some (Inr ()) \<longleftrightarrow> wf_function m fn"
    by (rule verify_function_result)+
  then obtain r where r: "verify_function m fn = Some r" "(r = Inr ()) \<longleftrightarrow> wf_function m fn" by auto
  {
    case 1
    show ?case using r Cons.IH(1) by (cases r) simp_all
  next
    case 2
    show ?case using r Cons.IH(2) by (cases r) simp_all
  }
qed simp_all

section \<open>Properties\<close>

text \<open>A module for the witnesses: two branches assign different values, a phi joins them.\<close>

definition joined :: Function where
  "joined = (function_new [] (BasicBlockId 0))\<lparr>fn_blocks :=
     [\<lparr>blk_id = BasicBlockId 0, blk_instructions = [Const (ValueId 0) (ConstantId 0)],
       blk_terminator = Branch (ValueId 0) (BasicBlockId 1) (BasicBlockId 2)\<rparr>,
      \<lparr>blk_id = BasicBlockId 1, blk_instructions = [Const (ValueId 1) (ConstantId 0)],
       blk_terminator = Jump (BasicBlockId 3)\<rparr>,
      \<lparr>blk_id = BasicBlockId 2, blk_instructions = [], blk_terminator = Jump (BasicBlockId 3)\<rparr>,
      \<lparr>blk_id = BasicBlockId 3,
       blk_instructions = [Phi (ValueId 2)
         [\<lparr>phi_predecessor = BasicBlockId 1, phi_value = ValueId 1\<rparr>,
          \<lparr>phi_predecessor = BasicBlockId 2, phi_value = ValueId 0\<rparr>]],
       blk_terminator = Return (Some (ValueId 2))\<rparr>]\<rparr>"

definition joined_module :: Module where
  "joined_module = module_new\<lparr>mod_constants := [Null], mod_functions := [joined]\<rparr>"

lemma joined_verified: "verify_function joined_module joined = Some (Inr ())"
  by code_simp

text \<open>
  C5: The verifier always ends without a panic, and it accepts exactly the well-formed modules:
  the constants refer to existing functions and to string constants, and every function has its
  entry block, a home object in range, blocks in the order of their ids, terminated and with
  constants and targets in range, one definition per value, phis whose sources are exactly the
  predecessors of their block and come from definitions on every path to that predecessor, and
  other uses preceded by their definition on every path from the entry.
\<close>

theorem verify_module_accepts_wf:
  "verify_module m \<noteq> None \<and>
   (verify_module m = Some (Inr ()) \<longleftrightarrow> wf_constants m \<and> (\<forall>fn\<in>set (mod_functions m). wf_function m fn))"
proof -
  have "verify_functions m (mod_functions m) \<noteq> None" by (rule verify_functions_iff(1))
  then show ?thesis
    using verify_functions_iff(2) [of m "mod_functions m"] verify_module_constants_iff [of m]
    unfolding verify_module_def by (cases "verify_module_constants m") auto
qed

theorem verify_module_accepts_wf_witness:
  "verify_module joined_module = Some (Inr ()) \<and> wf_function joined_module joined"
proof -
  have "verify_module joined_module = Some (Inr ())" by code_simp
  moreover have "joined \<in> set (mod_functions joined_module)" by (simp add: joined_module_def)
  ultimately show ?thesis using verify_module_accepts_wf [of joined_module] by blast
qed

text \<open>
  C4: Executions of a verified function are safe. Wherever an execution can stand, following the
  terminators from the entry: it is in a block of the function, every value it reads there has
  been assigned before (at a phi, the source for the block it came from), and a phi has exactly
  one source for that block.
\<close>

theorem verified_reads_are_assigned:
  assumes "verify_function m fn = Some (Inr ())" and "reaches fn prev B i S"
  shows "\<exists>b. block_by_id fn B = Some b \<and> value_reads fn prev B i \<subseteq> S \<and>
    (\<forall>d sources. i < length (blk_instructions b) \<and> blk_instructions b ! i = Phi d sources \<longrightarrow>
       (\<exists>!s. s \<in> set sources \<and> prev = Some (phi_predecessor s)))"
proof -
  have wf: "wf_function m fn" using assms(1) verify_function_result(2) by blast
  obtain b where b: "block_by_id fn B = Some b" using exec_safe(1) [OF wf assms(2)] by blast
  then show ?thesis using exec_safe(2,3) [OF wf assms(2)] by blast
qed

theorem verified_reads_are_assigned_witness:
  "reaches joined (Some (BasicBlockId 2)) (BasicBlockId 3) 0 {ValueId 0} \<and>
   value_reads joined (Some (BasicBlockId 2)) (BasicBlockId 3) 0 \<subseteq> {ValueId 0}"
proof -
  have e: "fn_entry joined = BasicBlockId 0" by (simp add: joined_def function_new_def)
  have blocks: "block_by_id joined (BasicBlockId 0) = Some (fn_blocks joined ! 0)"
    "block_by_id joined (BasicBlockId 2) = Some (fn_blocks joined ! 2)"
    by (simp_all add: block_by_id_def get_at_def bix_def joined_def)
  have edges: "(BasicBlockId 0, BasicBlockId 2) \<in> flow_edge joined" "(BasicBlockId 2, BasicBlockId 3) \<in> flow_edge joined"
    by (simp_all add: flow_edge_def joined_def bix_def push_successor_def)
  have lengths: "length (blk_instructions (fn_blocks joined ! 0)) = 1" "length (blk_instructions (fn_blocks joined ! 2)) = 0"
    by (simp_all add: joined_def)
  have "dest (blk_instructions (fn_blocks joined ! 0) ! 0) = Some (ValueId 0)" by code_simp
  moreover have "reaches joined None (BasicBlockId 0) 0 {}" using reaches.enter [of joined] by (simp add: e)
  ultimately have "reaches joined None (BasicBlockId 0) 1 {ValueId 0}"
    using reaches.advance [OF _ blocks(1), of None 0 "{}"] lengths(1) by simp
  then have "reaches joined (Some (BasicBlockId 0)) (BasicBlockId 2) 0 {ValueId 0}"
    by (rule reaches.follow [OF _ blocks(1) _ edges(1)]) (simp add: lengths)
  then have r: "reaches joined (Some (BasicBlockId 2)) (BasicBlockId 3) 0 {ValueId 0}"
    by (rule reaches.follow [OF _ blocks(2) _ edges(2)]) (simp add: lengths)
  with verified_reads_are_assigned [OF joined_verified r] show ?thesis by blast
qed

end
