(* ===== verification/Manifest_Verify.thy ===== *)
theory Manifest_Verify
  imports Wire_Manifest Verify_Sound
begin

text \<open>
  The checks on a module manifest (\<open>wjsm-artifact-format/src/verify.rs\<close>): \<open>verify_artifact\<close> with
  the IR verifier in front, and the validation of logical URLs, byte by byte as the source does
  it. A decoded component is a byte string; errors are the values of \<^typ>\<open>UrlError\<close> and
  \<^typ>\<open>ManifestError\<close>. The \<open>HashSet\<close>s of ids and URLs are sets.
\<close>

section \<open>Logical URLs\<close>

definition canonical_hex :: "u8 \<Rightarrow> u8 option" where
  "canonical_hex b =
     (if 48 \<le> b \<and> b \<le> 57 then Some (b - 48)
      else if 65 \<le> b \<and> b \<le> 70 then Some (b - 65 + 10)
      else None)"

definition is_ascii_alphanumeric :: "u8 \<Rightarrow> bool" where
  "is_ascii_alphanumeric b \<longleftrightarrow>
     (48 \<le> b \<and> b \<le> 57) \<or> (65 \<le> b \<and> b \<le> 90) \<or> (97 \<le> b \<and> b \<le> 122)"

definition unreserved :: "u8 \<Rightarrow> bool" where
  \<comment> \<open>alphanumeric, or one of \<open>-\<close>, \<open>.\<close>, \<open>_\<close>, \<open>~\<close>\<close>
  "unreserved b \<longleftrightarrow> is_ascii_alphanumeric b \<or> b = 45 \<or> b = 46 \<or> b = 95 \<or> b = 126"

definition hex_pair :: "u8 \<Rightarrow> u8 \<Rightarrow> UrlError + u8" where
  "hex_pair h l =
     bindr (ok_or (canonical_hex h) UrlNonCanonicalPercent) (\<lambda>high.
     bindr (ok_or (canonical_hex l) UrlNonCanonicalPercent) (\<lambda>low.
     let b = push_bit 4 high OR low in
     bindr (ensure (\<not> unreserved b) UrlEncodesUnreserved) (\<lambda>_. Inr b)))"

fun percent_decode :: "u8 list \<Rightarrow> UrlError + u8 list" where
  \<comment> \<open>the \<open>while\<close> loop: what is decoded from the bytes at \<open>index\<close> on; \<open>%\<close> is 37\<close>
  "percent_decode [] = Inr []"
| "percent_decode (b # bs) =
     (if b \<noteq> 37 then bindr (percent_decode bs) (\<lambda>ds. Inr (b # ds))
      else case bs of
        h # l # r \<Rightarrow>
          bindr (hex_pair h l) (\<lambda>d. bindr (percent_decode r) (\<lambda>ds. Inr (d # ds)))
      | _ \<Rightarrow> Inl UrlTruncatedPercent)"

definition validate_logical_url_component :: "rstr \<Rightarrow> UrlError + unit" where
  "validate_logical_url_component c =
     bindr (ensure (c \<noteq> []) UrlEmptyComponent) (\<lambda>_.
     bindr (percent_decode (as_bytes c)) (\<lambda>decoded.
     bindr (ensure (decoded \<noteq> [46] \<and> decoded \<noteq> [46, 46]) UrlTraversal) (\<lambda>_.
     bindr (ensure (47 \<notin> set decoded \<and> 92 \<notin> set decoded) UrlEncodesSeparator) (\<lambda>_.
     ensure (0 \<notin> set decoded) UrlEncodesNul))))"

fun split_on :: "'a \<Rightarrow> 'a list \<Rightarrow> 'a list list" where
  \<comment> \<open>\<open>str::split\<close> on one character: the pieces between the separators\<close>
  "split_on s [] = [[]]"
| "split_on s (x # xs) =
     (if x = s then [] # split_on s xs
      else case split_on s xs of p # ps \<Rightarrow> (x # p) # ps | [] \<Rightarrow> [[x]])"

definition validate_logical_url :: "rstr \<Rightarrow> UrlError + unit" where
  "validate_logical_url url =
     bindr (ensure (url \<noteq> []) UrlEmpty) (\<lambda>_.
     bindr (ensure (92 \<notin> set url) UrlBackslash) (\<lambda>_.
     for_each_res validate_logical_url_component (split_on 47 url)))"

section \<open>Manifests\<close>

definition ensure_module_exists :: "ModuleId \<Rightarrow> ModuleId set \<Rightarrow> string \<Rightarrow> ManifestError + unit" where
  "ensure_module_exists m ids ctxt = ensure (m \<in> ids) (MissingModule ctxt m)"

definition verify_manifest_module ::
  "ModuleId set \<times> rstr set \<Rightarrow> ManifestModule \<Rightarrow> ManifestError + ModuleId set \<times> rstr set" where
  \<comment> \<open>the body of the first loop; the pair is what \<open>ids\<close> and \<open>urls\<close> hold\<close>
  "verify_manifest_module = (\<lambda>(ids, urls) m.
     bindr (ensure (mm_id m \<notin> ids) (DuplicateModuleId (mm_id m))) (\<lambda>_.
     bindr (case validate_logical_url (mm_logical_url m) of
              Inl reason \<Rightarrow> Inl (InvalidLogicalUrl (mm_logical_url m) reason)
            | Inr _ \<Rightarrow> Inr ()) (\<lambda>_.
     bindr (ensure (mm_logical_url m \<notin> urls) (DuplicateLogicalUrl (mm_logical_url m))) (\<lambda>_.
     Inr (insert (mm_id m) ids, insert (mm_logical_url m) urls)))))"

definition verify_manifest :: "Module \<Rightarrow> ModuleManifest \<Rightarrow> ManifestError + unit" where
  \<comment> \<open>\<open>verify_artifact\<close> after the IR verifier\<close>
  "verify_manifest p mf =
     bindr (ensure (mf_modules mf \<noteq> []) ManifestEmpty) (\<lambda>_.
     bindr (fold_res verify_manifest_module ({}, {}) (mf_modules mf)) (\<lambda>(ids, urls).
     bindr (ensure_module_exists (mf_entry mf) ids ''entry'') (\<lambda>_.
     bindr (for_each_res (\<lambda>m.
              bindr (for_each_res (\<lambda>d. ensure_module_exists d ids ''static dependency'')
                       (mm_static_dependencies m)) (\<lambda>_.
              for_each_res (\<lambda>d. ensure_module_exists (snd d) ids ''dynamic dependency'')
                (mm_dynamic_dependencies m))) (mf_modules mf)) (\<lambda>_.
     for_each_res (\<lambda>c. case c of
         ModuleIdC m \<Rightarrow> ensure_module_exists m ids ''IR module constant''
       | _ \<Rightarrow> Inr ()) (mod_constants p)))))"

definition verify_artifact :: "Module \<Rightarrow> ModuleManifest \<Rightarrow> (ArtifactFormatError + unit) option" where
  \<comment> \<open>\<open>None\<close> only where the dominator computation of the IR verifier has no result\<close>
  "verify_artifact p mf =
     map_option (\<lambda>r. case r of
         Inl e \<Rightarrow> Inl (InvalidIr e)
       | Inr _ \<Rightarrow> (case verify_manifest p mf of Inl e \<Rightarrow> Inl (InvalidManifest e) | Inr _ \<Rightarrow> Inr ()))
       (verify_module p)"

section \<open>What validated URLs look like\<close>

lemma split_on_not_Nil [simp]: "split_on s xs \<noteq> []"
  by (cases xs) (auto split: list.split)

lemma split_on_append:
  "s \<notin> set p \<Longrightarrow> split_on s (p @ xs) = (case split_on s xs of q # qs \<Rightarrow> (p @ q) # qs | [] \<Rightarrow> [p])"
proof (induction p)
  case Nil
  show ?case using split_on_not_Nil [of s xs] by (auto split: list.split)
next
  case (Cons x p)
  then show ?case by (auto split: list.splits)
qed

lemma split_on_sep: "s \<notin> set p \<Longrightarrow> split_on s (p @ s # xs) = p # split_on s xs"
  by (simp add: split_on_append)

lemma split_on_whole: "s \<notin> set p \<Longrightarrow> split_on s p = [p]"
  using split_on_append [of s p "[]"] by simp

lemma split_on_induct [case_names last piece]:
  \<comment> \<open>a sequence is its first piece, or its first piece, a separator and the rest\<close>
  assumes "\<And>p. s \<notin> set p \<Longrightarrow> P p"
    and "\<And>p xs. s \<notin> set p \<Longrightarrow> P xs \<Longrightarrow> P (p @ s # xs)"
  shows "P xs"
proof (induction xs rule: length_induct)
  case (1 xs)
  show ?case
  proof (cases "s \<in> set xs")
    case True
    then obtain p ys where "xs = p @ s # ys" "s \<notin> set p" by (meson split_list_first)
    with 1 assms(2) show ?thesis by simp
  qed (use assms(1) in blast)
qed

lemma utf8_char_ascii: "c < 128 \<Longrightarrow> utf8_char c = [of_nat c]"
  by (simp add: utf8_char_def)

lemma high_byte: "128 \<le> n \<Longrightarrow> n < 256 \<Longrightarrow> 128 \<le> unat (of_nat n :: u8)"
  by (simp add: unat_u8_of_nat)

lemma utf8_char_digits:
  assumes "is_scalar c" "128 \<le> c"
  shows "\<exists>ns. utf8_char c = map of_nat ns \<and> list_all (\<lambda>n. 128 \<le> n \<and> n < 256) ns"
proof -
  have "c < 0x110000" using assms(1) by (auto simp: is_scalar_def)
  then have top: "c div 262144 < 5" by auto
  have low: "x mod 64 < 128" for x :: nat using mod_less_divisor [of 64 x] by linarith
  consider (two) "c < 0x800" | (three) "0x800 \<le> c" "c < 0x10000" | (four) "0x10000 \<le> c" by linarith
  then show ?thesis
  proof cases
    case two
    then have "c div 64 < 32" by auto
    with two assms(2) show ?thesis
      by (intro exI [of _ "[0xC0 + c div 64, 0x80 + c mod 64]"]) (simp add: utf8_char_def low)
  next
    case three
    then have "c div 4096 < 16" by auto
    with three show ?thesis
      by (intro exI [of _ "[0xE0 + c div 4096, 0x80 + c div 64 mod 64, 0x80 + c mod 64]"])
         (simp add: utf8_char_def low)
  next
    case four
    with top show ?thesis
      by (intro exI [of _ "[0xF0 + c div 262144, 0x80 + c div 4096 mod 64, 0x80 + c div 64 mod 64,
            0x80 + c mod 64]"]) (simp add: utf8_char_def low)
  qed
qed

lemma utf8_char_high:
  assumes "is_scalar c" "128 \<le> c" "b \<in> set (utf8_char c)"
  shows "128 \<le> unat b"
  using utf8_char_digits [OF assms(1,2)] assms(3) by (auto simp: list_all_iff high_byte)

lemma ascii_eq: "n < 128 \<Longrightarrow> c < 128 \<Longrightarrow> (of_nat n :: u8) = of_nat c \<longleftrightarrow> n = c"
proof
  assume n: "n < 128" "c < 128" and "(of_nat n :: u8) = of_nat c"
  then have "unat (of_nat n :: u8) = unat (of_nat c :: u8)" by (simp only:)
  then show "n = c" using n unat_u8_of_nat [of n] unat_u8_of_nat [of c] by linarith
qed (simp only:)

lemma ascii_in_char:
  assumes "is_scalar c" "n < 128"
  shows "of_nat n \<in> set (utf8_char c) \<longleftrightarrow> n = c"
proof (cases "c < 128")
  case True
  then show ?thesis using assms(2) by (simp add: utf8_char_ascii ascii_eq)
next
  case False
  then have "128 \<le> unat b" if "b \<in> set (utf8_char c)" for b
    using utf8_char_high [OF assms(1) _ that] by simp
  then have "of_nat n \<notin> set (utf8_char c)" using assms(2) unat_u8_of_nat [of n] by fastforce
  with False assms(2) show ?thesis by auto
qed

lemma ascii_in_as_bytes:
  "valid_str s \<Longrightarrow> n < 128 \<Longrightarrow> of_nat n \<in> set (as_bytes s) \<longleftrightarrow> n \<in> set s"
  by (induction s) (simp_all add: as_bytes_def ascii_in_char)

lemma percent_decode_append:
  "percent_decode bs = Inr ds \<Longrightarrow> percent_decode (bs @ cs) = bindr (percent_decode cs) (\<lambda>es. Inr (ds @ es))"
proof (induction bs arbitrary: ds rule: percent_decode.induct)
  case 1
  then show ?case by (cases "percent_decode cs") simp_all
next
  case (2 b bs)
  show ?case
  proof (cases "b = 37")
    case False
    with 2 show ?thesis by (cases "percent_decode cs") auto
  next
    case True
    with "2.prems" obtain h l r where "bs = h # l # r"
      by (auto split: list.splits)
    with 2 True show ?thesis by (cases "percent_decode cs") auto
  qed
qed

definition good_component :: "u8 list \<Rightarrow> bool" where
  \<comment> \<open>names an entry of the current directory: not empty, \<open>.\<close> or \<open>..\<close>, free of slashes, backslashes and NUL\<close>
  "good_component d \<longleftrightarrow> d \<noteq> [] \<and> d \<noteq> [46] \<and> d \<noteq> [46, 46] \<and> 47 \<notin> set d \<and> 92 \<notin> set d \<and> 0 \<notin> set d"

lemma percent_decode_Nil_iff: "percent_decode bs = Inr [] \<longleftrightarrow> bs = []"
  by (cases bs rule: percent_decode.cases) (auto split: list.splits)

lemma as_bytes_Nil_iff: "as_bytes s = [] \<longleftrightarrow> s = []"
  by (cases s) (auto simp: as_bytes_def utf8_char_def)

lemma as_bytes_append: "as_bytes (s @ t) = as_bytes s @ as_bytes t"
  by (simp add: as_bytes_def)

lemma as_bytes_slash: "as_bytes (s @ 47 # t) = as_bytes s @ 47 # as_bytes t"
  by (simp add: as_bytes_def utf8_char_ascii)

lemma hex_pair_slash: "hex_pair 47 l = Inl UrlNonCanonicalPercent" "hex_pair h 47 \<noteq> Inr d"
  by (auto simp: hex_pair_def canonical_hex_def)

text \<open>A separator is never part of an escape, so decoding goes piece by piece.\<close>

lemma percent_decode_slash:
  "percent_decode (bs @ 47 # cs) = Inr ds \<longleftrightarrow>
    (\<exists>d e. percent_decode bs = Inr d \<and> percent_decode cs = Inr e \<and> ds = d @ 47 # e)"
proof
  assume "\<exists>d e. percent_decode bs = Inr d \<and> percent_decode cs = Inr e \<and> ds = d @ 47 # e"
  then show "percent_decode (bs @ 47 # cs) = Inr ds" by (auto simp: percent_decode_append)
next
  assume "percent_decode (bs @ 47 # cs) = Inr ds"
  then show "\<exists>d e. percent_decode bs = Inr d \<and> percent_decode cs = Inr e \<and> ds = d @ 47 # e"
  proof (induction bs arbitrary: ds rule: percent_decode.induct)
    case (2 b bs)
    show ?case
    proof (cases "b = 37")
      case False
      with 2 show ?thesis by fastforce
    next
      case True
      then obtain h l r where bs: "bs = h # l # r"
        using "2.prems" hex_pair_slash by (cases bs; cases "tl bs") (auto split: list.splits)
      with True "2.prems" obtain x es where "hex_pair h l = Inr x" "percent_decode (r @ 47 # cs) = Inr es"
        "ds = x # es" by auto
      with "2.IH"(2) [OF _ bs refl] True bs show ?thesis by fastforce
    qed
  qed auto
qed

lemma percent_decode_seps: "percent_decode bs = Inr ds \<Longrightarrow> count_list bs 47 \<le> count_list ds 47"
proof (induction bs arbitrary: ds rule: percent_decode.induct)
  case (2 b bs)
  show ?case
  proof (cases "b = 37")
    case False
    with 2 show ?thesis by auto
  next
    case True
    with "2.prems" obtain h l r x es where bs: "bs = h # l # r" "hex_pair h l = Inr x"
      "percent_decode r = Inr es" "ds = x # es" by (auto split: list.splits)
    then have "h \<noteq> 47" "l \<noteq> 47" using hex_pair_slash by auto
    moreover have "count_list r 47 \<le> count_list es 47" using "2.IH"(2) True bs by blast
    ultimately show ?thesis using True bs by simp
  qed
qed simp

lemma count_as_bytes: "valid_str s \<Longrightarrow> count_list (as_bytes s) 47 = count_list s 47"
proof (induction s rule: split_on_induct [where s = 47])
  case (last p)
  then show ?case using ascii_in_as_bytes [of p 47] by simp
next
  case (piece p xs)
  then show ?case using ascii_in_as_bytes [of p 47] by (simp add: as_bytes_slash count_notin)
qed

lemma validate_component_iff:
  "validate_logical_url_component c = Inr () \<longleftrightarrow>
    (\<exists>d. percent_decode (as_bytes c) = Inr d \<and> good_component d)"
  unfolding validate_logical_url_component_def good_component_def
  using percent_decode_Nil_iff [of "as_bytes c"] as_bytes_Nil_iff [of c] by auto

lemma good_component_split: "good_component d \<Longrightarrow> split_on 47 d = [d]"
  by (simp add: good_component_def split_on_whole)

lemma no_sep: "count_list d (47::u8) = 0 \<longleftrightarrow> 47 \<notin> set d"
  by (simp add: count_list_0_iff)

lemma components_iff:
  assumes "valid_str url"
  shows "(\<forall>c\<in>set (split_on 47 url). validate_logical_url_component c = Inr ()) \<longleftrightarrow>
    (\<exists>d. percent_decode (as_bytes url) = Inr d \<and> count_list d 47 = count_list url 47 \<and>
         list_all good_component (split_on 47 d))"
  using assms
proof (induction url rule: split_on_induct [where s = 47])
  case (last p)
  then have "count_list p 47 = 0" by simp
  then show ?case
    using last(1) by (auto simp: split_on_whole validate_component_iff no_sep good_component_split
        good_component_def)
next
  case (piece p xs)
  have cnt: "count_list (p @ 47 # xs) 47 = Suc (count_list xs 47)"
    using piece(1) by simp
  have one: "count_list d 47 + Suc (count_list e 47) = Suc (count_list xs 47) \<longleftrightarrow>
      47 \<notin> set d \<and> count_list e 47 = count_list xs 47"
    if "percent_decode (as_bytes xs) = Inr e" for d :: "u8 list" and e
    using percent_decode_seps [OF that] count_as_bytes [of xs] piece(3) no_sep [of d] by auto
  have "(\<exists>d. percent_decode (as_bytes (p @ 47 # xs)) = Inr d \<and>
        count_list d 47 = count_list (p @ 47 # xs) 47 \<and> list_all good_component (split_on 47 d)) \<longleftrightarrow>
      (\<exists>d e. percent_decode (as_bytes p) = Inr d \<and> percent_decode (as_bytes xs) = Inr e \<and>
        47 \<notin> set d \<and> count_list e 47 = count_list xs 47 \<and>
        list_all good_component (split_on 47 (d @ 47 # e)))"
    unfolding as_bytes_slash percent_decode_slash cnt using one by fastforce
  also have "\<dots> \<longleftrightarrow> (\<exists>d e. percent_decode (as_bytes p) = Inr d \<and> percent_decode (as_bytes xs) = Inr e \<and>
        good_component d \<and> count_list e 47 = count_list xs 47 \<and> list_all good_component (split_on 47 e))"
    by (auto simp: split_on_sep good_component_def)
  also have "\<dots> \<longleftrightarrow> validate_logical_url_component p = Inr () \<and>
      (\<forall>c\<in>set (split_on 47 xs). validate_logical_url_component c = Inr ())"
    using piece(2,3) by (auto simp: validate_component_iff)
  finally show ?case using split_on_sep [OF piece(1)] by simp
qed

section \<open>Well-formed manifests\<close>

definition module_refs :: "Module \<Rightarrow> ModuleId set" where
  "module_refs p = {m. ModuleIdC m \<in> set (mod_constants p)}"

definition wf_manifest :: "Module \<Rightarrow> ModuleManifest \<Rightarrow> bool" where
  "wf_manifest p mf \<longleftrightarrow>
     distinct (map mm_id (mf_modules mf)) \<and> distinct (map mm_logical_url (mf_modules mf)) \<and>
     (\<forall>m\<in>set (mf_modules mf). validate_logical_url (mm_logical_url m) = Inr ()) \<and>
     insert (mf_entry mf) (\<Union>m\<in>set (mf_modules mf).
         set (mm_static_dependencies m) \<union> snd ` set (mm_dynamic_dependencies m)) \<union> module_refs p
       \<subseteq> mm_id ` set (mf_modules mf)"

lemma verify_manifest_modules_iff:
  "fold_res verify_manifest_module (ids, urls) ms = Inr r \<longleftrightarrow>
    r = (ids \<union> mm_id ` set ms, urls \<union> mm_logical_url ` set ms) \<and>
    distinct (map mm_id ms) \<and> distinct (map mm_logical_url ms) \<and>
    mm_id ` set ms \<inter> ids = {} \<and> mm_logical_url ` set ms \<inter> urls = {} \<and>
    (\<forall>m\<in>set ms. validate_logical_url (mm_logical_url m) = Inr ())"
proof (induction ms arbitrary: ids urls)
  case (Cons m ms)
  have "verify_manifest_module (ids, urls) m = Inr q \<longleftrightarrow>
      mm_id m \<notin> ids \<and> mm_logical_url m \<notin> urls \<and> validate_logical_url (mm_logical_url m) = Inr () \<and>
      q = (insert (mm_id m) ids, insert (mm_logical_url m) urls)" for q
    by (auto simp: verify_manifest_module_def split: sum.splits)
  then show ?case by (auto simp: Cons.IH)
qed auto

lemma verify_manifest_iff: "verify_manifest p mf = Inr () \<longleftrightarrow> wf_manifest p mf"
proof -
  let ?ids = "mm_id ` set (mf_modules mf)"
  have refs: "(\<forall>c\<in>set (mod_constants p). (case c of ModuleIdC m \<Rightarrow> ensure_module_exists m ?ids ctxt | _ \<Rightarrow> Inr ()) = Inr ())
      \<longleftrightarrow> module_refs p \<subseteq> ?ids" for ctxt
    by (auto simp: module_refs_def ensure_module_exists_def split: Constant.splits)
  have "mf_modules mf \<noteq> []" if "mf_entry mf \<in> ?ids" using that by auto
  then show ?thesis
    unfolding verify_manifest_def wf_manifest_def
    by (simp add: verify_manifest_modules_iff refs ensure_module_exists_def [of _ _ "''static dependency''"]
          ensure_module_exists_def [of _ _ "''dynamic dependency''"] ensure_module_exists_def [of _ _ "''entry''"])
       blast
qed

section \<open>Properties\<close>

lemmas url_simps = validate_logical_url_def lit_def validate_logical_url_component_def as_bytes_def
  utf8_char_def hex_pair_def canonical_hex_def unreserved_def is_ascii_alphanumeric_def Let_def
  push_bit_eq_mult is_scalar_def

lemma joined_artifact:
  "verify_artifact joined_module (manifest_single url False) =
    Some (case validate_logical_url url of Inl e \<Rightarrow> Inl (InvalidManifest (InvalidLogicalUrl url e))
          | Inr _ \<Rightarrow> Inr ())"
proof -
  have "verify_module joined_module = Some (Inr ())" by code_simp
  then show ?thesis
    by (simp add: verify_artifact_def verify_manifest_def manifest_single_def verify_manifest_module_def
        ensure_module_exists_def joined_module_def split: sum.split)
qed

text \<open>
  C9: \<open>validate_logical_url\<close> accepts exactly the safe URLs: not empty, no backslash, every escape
  is complete, in upper case and of a byte that needs one, and the decoded bytes split at \<open>/\<close>
  into as many components as the URL itself, each of them a plain name (not empty, not a dot or
  double dot, no separator, no NUL). So decoding before or after splitting gives the same path,
  and no accepted URL leaves its directory.
\<close>

theorem logical_urls_are_safe:
  assumes "valid_str url"
  shows "validate_logical_url url = Inr () \<longleftrightarrow> url \<noteq> [] \<and> 92 \<notin> set url \<and>
    (\<exists>d. percent_decode (as_bytes url) = Inr d \<and> count_list d 47 = count_list url 47 \<and>
         list_all good_component (split_on 47 d))"
  using components_iff [OF assms] by (auto simp: validate_logical_url_def)

theorem logical_urls_are_safe_witness:
  "validate_logical_url (lit ''modules/main_%FF.js'') = Inr () \<and>
   (\<exists>d. percent_decode (as_bytes (lit ''modules/main_%FF.js'')) = Inr d \<and>
        list_all good_component (split_on 47 d)) \<and>
   validate_logical_url (lit ''dir/%2Fetc'') = Inl UrlEncodesSeparator"
proof -
  have "valid_str (lit ''modules/main_%FF.js'')" by (simp add: url_simps)
  moreover have "validate_logical_url (lit ''modules/main_%FF.js'') = Inr ()"
    "validate_logical_url (lit ''dir/%2Fetc'') = Inl UrlEncodesSeparator" by (simp_all add: url_simps)
  ultimately show ?thesis using logical_urls_are_safe [of "lit ''modules/main_%FF.js''"] by blast
qed

text \<open>
  C8: \<open>verify_artifact\<close> always ends without a panic and accepts exactly the well-formed pairs of
  a program and a manifest: the program passes the IR verifier; module ids and logical URLs are
  distinct and every URL is valid; and the entry, every static and dynamic dependency and every
  module constant of the program name a module of the manifest.
\<close>

theorem verify_artifact_accepts_wf:
  "verify_artifact p mf \<noteq> None \<and>
   (verify_artifact p mf = Some (Inr ()) \<longleftrightarrow> verify_module p = Some (Inr ()) \<and> wf_manifest p mf)"
proof -
  have "verify_module p \<noteq> None"
    using verify_functions_iff(1) [of p "mod_functions p"]
    by (auto simp: verify_module_def split: sum.splits)
  then obtain r where r: "verify_module p = Some r" by blast
  have "(case verify_manifest p mf of Inl e \<Rightarrow> Inl (InvalidManifest e) | Inr _ \<Rightarrow> Inr ()) = Inr () \<longleftrightarrow>
      wf_manifest p mf"
    unfolding verify_manifest_iff [symmetric] by (auto split: sum.splits)
  with r show ?thesis by (auto simp: verify_artifact_def split: sum.splits)
qed

theorem verify_artifact_accepts_wf_witness:
  "wf_manifest joined_module (manifest_single (lit ''main.js'') False) \<and>
   verify_artifact joined_module (manifest_single [] False) = Some (Inl (InvalidManifest (InvalidLogicalUrl [] UrlEmpty)))"
proof -
  have "verify_artifact joined_module (manifest_single (lit ''main.js'') False) = Some (Inr ())"
    by (simp add: joined_artifact url_simps)
  moreover have "verify_artifact joined_module (manifest_single [] False) =
      Some (Inl (InvalidManifest (InvalidLogicalUrl [] UrlEmpty)))"
    by (simp add: joined_artifact url_simps)
  ultimately show ?thesis
    using verify_artifact_accepts_wf [of joined_module "manifest_single (lit ''main.js'') False"] by blast
qed

end
