(* ===== verification/Artifact.thy ===== *)
theory Artifact
  imports Container Manifest_Verify
begin

text \<open>
  The portable artifact (\<open>PortableArtifact::from_input\<close> and \<open>decode\<close>,
  \<open>metadata_from_encoded_sections\<close>, \<open>verify_required_builtin_set\<close> and \<open>encode_source_map\<close> in
  \<open>wjsm-artifact-format/src/lib.rs\<close>, with the build input of \<open>manifest.rs\<close>): a verified program
  and manifest, written into and read from a container. \<open>sha\<close> and \<open>abi\<close> are the parameters of
  the container. A result \<open>None\<close> stands for a panic of the IR verifier.
\<close>

section \<open>Build input and artifact\<close>

record BuildOptions =
  include_source_map :: bool
  include_source_text :: bool

record ArtifactBuildInput =
  bi_program :: Module
  bi_manifest :: ModuleManifest
  bi_options :: BuildOptions
  bi_source_text :: "rstr option"

definition build_input_new :: "Module \<Rightarrow> ModuleManifest \<Rightarrow> BuildOptions \<Rightarrow> ArtifactBuildInput" where
  "build_input_new program manifest options =
     \<lparr>bi_program = program, bi_manifest = manifest, bi_options = options, bi_source_text = None\<rparr>"

record ArtifactMetadata =
  am_format_version :: u16
  am_semantic_abi_hash :: "u8 list"
  am_flags :: u32
  am_sections :: "SectionMetadata list"
  am_required_builtins :: "u16 list"

record PortableArtifact =
  pa_bytes :: "u8 list"
  pa_program :: Module
  pa_manifest :: ModuleManifest
  pa_source_text :: "rstr option"
  pa_metadata :: ArtifactMetadata
  pa_digest :: "u8 list"

section \<open>Encoding\<close>

definition encode_span_entry :: "SourceSpan option \<Rightarrow> u8 list" where
  "encode_span_entry s =
     (case s of Some span \<Rightarrow> [1] @ u32_le (span_line span) @ u32_le (span_col span) | None \<Rightarrow> [0])"

definition encode_source_map :: "Module \<Rightarrow> ArtifactFormatError + u8 list" where
  "encode_source_map p =
     bindr (ensure (length (mod_functions p) < 2 ^ 32) LengthOverflow) (\<lambda>_.
     Inr (u32_le (of_nat (length (mod_functions p))) @
          concat (map (\<lambda>fn. encode_span_entry (fn_source_span fn)) (mod_functions p))))"

definition included_text :: "ArtifactBuildInput \<Rightarrow> rstr option" where
  \<comment> \<open>\<open>include_source_text.then(..).flatten()\<close>\<close>
  "included_text inp = (if include_source_text (bi_options inp) then bi_source_text inp else None)"

definition artifact_sections :: "ArtifactBuildInput \<Rightarrow> ArtifactFormatError + EncodedSection list" where
  "artifact_sections inp =
     bindr (encode_manifest (bi_manifest inp) []) (\<lambda>manifest_bytes.
     bindr (encode_program (bi_program inp) []) (\<lambda>program_bytes.
     let required_builtins = encode_required_builtins (bi_program inp);
         sections = [section_required SECTION_MANIFEST manifest_bytes,
                     section_required SECTION_PROGRAM program_bytes,
                     section_required SECTION_REQUIRED_BUILTINS required_builtins]
     in bindr (if include_source_map (bi_options inp)
               then bindr (encode_source_map (bi_program inp)) (\<lambda>bs.
                    Inr (sections @ [section_optional SECTION_SOURCE_MAP bs]))
               else Inr sections) (\<lambda>sections.
        let sections = (case included_text inp of
              Some text \<Rightarrow> sections @ [section_optional SECTION_SOURCE_TEXT (as_bytes text)]
            | None \<Rightarrow> sections)
        in Inr (sort_key sec_id sections))))"

definition metadata_from_encoded_sections ::
  "(u8 list \<Rightarrow> u8 list) \<Rightarrow> u8 list \<Rightarrow> EncodedSection list \<Rightarrow> u8 list \<Rightarrow>
   ArtifactFormatError + ArtifactMetadata" where
  "metadata_from_encoded_sections sha abi sections bytes =
     bindr (decode_container sha abi bytes default_limits) (\<lambda>decoded.
     bindr (ok_or (find (\<lambda>s. sec_id s = SECTION_REQUIRED_BUILTINS) sections)
              (MissingRequiredSection SECTION_REQUIRED_BUILTINS)) (\<lambda>required.
     bindr (decode_required_builtins (sec_bytes required) default_limits) (\<lambda>ids.
     Inr \<lparr>am_format_version = FORMAT_VERSION, am_semantic_abi_hash = abi, am_flags = dc_flags decoded,
          am_sections = dc_metadata decoded, am_required_builtins = ids\<rparr>)))"

definition build_verified ::
  "(u8 list \<Rightarrow> u8 list) \<Rightarrow> u8 list \<Rightarrow> ArtifactBuildInput \<Rightarrow> ArtifactFormatError + PortableArtifact" where
  \<comment> \<open>\<open>from_input\<close> after the verifier\<close>
  "build_verified sha abi inp =
     bindr (ensure (\<not> (include_source_text (bi_options inp) \<and> bi_source_text inp = None))
              MissingSourceText) (\<lambda>_.
     bindr (artifact_sections inp) (\<lambda>sections.
     bindr (encode_container sha abi sections) (\<lambda>bytes.
     let digest = take 32 (drop CONTENT_HASH_OFFSET bytes)
     in bindr (metadata_from_encoded_sections sha abi sections bytes) (\<lambda>metadata.
        Inr \<lparr>pa_bytes = bytes, pa_program = bi_program inp, pa_manifest = bi_manifest inp,
             pa_source_text = included_text inp, pa_metadata = metadata, pa_digest = digest\<rparr>))))"

definition from_input ::
  "(u8 list \<Rightarrow> u8 list) \<Rightarrow> u8 list \<Rightarrow> ArtifactBuildInput \<Rightarrow>
   (ArtifactFormatError + PortableArtifact) option" where
  "from_input sha abi inp =
     map_option (\<lambda>r. bindr r (\<lambda>_. build_verified sha abi inp))
       (verify_artifact (bi_program inp) (bi_manifest inp))"

section \<open>Decoding\<close>

definition verify_required_builtin_set :: "Module \<Rightarrow> u16 list \<Rightarrow> ArtifactFormatError + unit" where
  "verify_required_builtin_set p expected =
     bindr (decode_required_builtins (encode_required_builtins p) default_limits) (\<lambda>actual.
     ensure (actual = expected) RequiredBuiltinsMismatch)"

definition decode_parts ::
  "DecodedContainer \<Rightarrow> ArtifactLimits \<Rightarrow>
   ArtifactFormatError + ModuleManifest \<times> Module \<times> u16 list \<times> rstr option" where
  \<comment> \<open>the sections of \<open>decode\<close>, before verification\<close>
  "decode_parts decoded L =
     bindr (dc_required decoded SECTION_MANIFEST) (\<lambda>manifest_bytes.
     bindr (dc_required decoded SECTION_PROGRAM) (\<lambda>program_bytes.
     bindr (dc_required decoded SECTION_REQUIRED_BUILTINS) (\<lambda>required_bytes.
     bindr (decode_manifest manifest_bytes L) (\<lambda>manifest.
     bindr (decode_program program_bytes L) (\<lambda>program.
     bindr (decode_required_builtins required_bytes L) (\<lambda>required_builtins.
     bindr (dc_optional decoded SECTION_SOURCE_TEXT) (\<lambda>text.
     bindr (case text of
              None \<Rightarrow> Inr None
            | Some bs \<Rightarrow> bindr (ok_or (from_utf8 bs) InvalidUtf8) (\<lambda>s. Inr (Some s))) (\<lambda>source_text.
     Inr (manifest, program, required_builtins, source_text)))))))))"

definition decode_artifact ::
  "(u8 list \<Rightarrow> u8 list) \<Rightarrow> u8 list \<Rightarrow> u8 list \<Rightarrow> ArtifactLimits \<Rightarrow>
   (ArtifactFormatError + PortableArtifact) option" where
  "decode_artifact sha abi bytes L =
     (case bindr (decode_container sha abi bytes L) (\<lambda>decoded.
           bindr (decode_parts decoded L) (\<lambda>parts. Inr (decoded, parts))) of
        Inl e \<Rightarrow> Some (Inl e)
      | Inr (decoded, manifest, program, required_builtins, source_text) \<Rightarrow>
          map_option (\<lambda>r.
            bindr r (\<lambda>_.
            bindr (verify_required_builtin_set program required_builtins) (\<lambda>_.
            Inr \<lparr>pa_bytes = bytes, pa_program = program, pa_manifest = manifest,
                 pa_source_text = source_text,
                 pa_metadata = \<lparr>am_format_version = FORMAT_VERSION, am_semantic_abi_hash = abi,
                   am_flags = dc_flags decoded, am_sections = dc_metadata decoded,
                   am_required_builtins = required_builtins\<rparr>,
                 pa_digest = dc_digest decoded\<rparr>)))
            (verify_artifact program manifest))"

section \<open>Verification does not depend on the encoding order\<close>

text \<open>The canonical form of a function differs in the order of its known callees only.\<close>

lemma canon_function_simps [simp]:
  "fn_blocks (canon_function fn) = fn_blocks fn" "fn_entry (canon_function fn) = fn_entry fn"
  "fn_name (canon_function fn) = fn_name fn" "fn_home_object (canon_function fn) = fn_home_object fn"
  "fn_source_span (canon_function fn) = fn_source_span fn"
  "block_by_id (canon_function fn) = block_by_id fn"
  "fn_instructions (canon_function fn) = fn_instructions fn"
  by (simp_all add: canon_function_def block_by_id_def fn_instructions_def fun_eq_iff)

lemma canon_program_simps [simp]:
  "mod_constants (canon_program p) = mod_constants p"
  "mod_functions (canon_program p) = map canon_function (mod_functions p)"
  by (simp_all add: canon_program_def)

lemma called_builtins_canon: "called_builtins (canon_program p) = called_builtins p"
  by (simp add: called_builtins_def comp_def)

lemma required_builtin_ids_canon: "required_builtin_ids (canon_program p) = required_builtin_ids p"
  by (simp add: required_builtin_ids_def called_builtins_canon)

lemma encode_required_canon: "encode_required_builtins (canon_program p) = encode_required_builtins p"
  by (simp add: encode_required_builtins_def required_builtin_ids_canon)

lemma verify_constants_canon: "verify_module_constants (canon_program p) = verify_module_constants p"
  unfolding verify_module_constants_def verify_constant_def canon_program_simps length_map ..

lemma dom_dfs_canon: "dom_dfs (canon_function fn) stack reachable post = dom_dfs fn stack reachable post"
proof (induction fn stack reachable post rule: dom_dfs.induct)
  case (2 fn block expanded stack reachable post)
  then show ?case by (simp add: targets_of_def Let_def split: option.split bool.split)
qed simp

lemma dominators_canon: "dominators_compute (canon_function fn) = dominators_compute fn"
proof -
  have "targets_of (canon_function fn) = targets_of fn"
    by (simp add: fun_eq_iff targets_of_def)
  then show ?thesis
    unfolding dominators_compute_def pred_table_def dom_dfs_canon canon_function_simps by (simp only:)
qed

lemma verify_uses_canon:
  "verify_value_use (canon_function fn) = verify_value_use fn"
  "verify_phi (canon_function fn) = verify_phi fn"
  unfolding fun_eq_iff verify_value_use_def verify_phi_def verify_phi_source_predecessor_def
    canon_function_simps by simp_all

lemma verify_block_canon: "verify_block (canon_program p) (canon_function fn) = verify_block p fn"
  unfolding verify_block_def verify_instruction_constant_refs_def
    verify_terminator_constant_refs_def verify_constant_id_def canon_function_simps
    canon_program_simps ..

lemma verify_function_canon:
  "verify_function (canon_program p) (canon_function fn) = verify_function p fn"
proof -
  have refs: "verify_function_id_refs (canon_program p) (canon_function fn) = verify_function_id_refs p fn"
    unfolding verify_function_id_refs_def canon_function_simps canon_program_simps get_at_map
      option.map_disc_iff ..
  have defs: "collect_definitions (canon_function fn) = collect_definitions fn"
    unfolding collect_definitions_def collect_instruction_def canon_function_simps ..
  have preds: "empty_predecessors (canon_function fn) = empty_predecessors fn"
    by (simp add: empty_predecessors_def)
  have phis: "verify_phi_sources (canon_function fn) = verify_phi_sources fn"
    unfolding fun_eq_iff verify_phi_sources_def verify_uses_canon canon_function_simps by simp
  have others: "verify_non_phi_uses (canon_function fn) = verify_non_phi_uses fn"
    unfolding fun_eq_iff verify_non_phi_uses_def verify_instruction_uses_def verify_terminator_uses_def
      verify_uses_canon canon_function_simps by simp
  show ?thesis
    unfolding verify_function_def refs defs preds phis others dominators_canon verify_block_canon
      canon_function_simps ..
qed

lemma verify_module_canon: "verify_module (canon_program p) = verify_module p"
proof -
  have "verify_functions (canon_program p) (map canon_function fns) = verify_functions p fns" for fns
    by (induction fns) (auto simp: verify_function_canon split: option.split sum.split)
  then show ?thesis unfolding verify_module_def verify_constants_canon canon_program_simps by (simp only:)
qed

lemma distinct_sort_modules:
  "distinct (map f (sort_modules ms)) \<longleftrightarrow> distinct (map f ms)"
  unfolding sort_modules_def by (metis mset_map mset_sort mset_eq_imp_distinct_iff)

lemma canon_module_simps [simp]:
  "mm_logical_url (canon_module m) = mm_logical_url m"
  "set (mm_static_dependencies (canon_module m)) = set (mm_static_dependencies m)"
  "set (mm_dynamic_dependencies (canon_module m)) = set (mm_dynamic_dependencies m)"
  by (simp_all add: canon_module_def)

lemma wf_manifest_canon: "wf_manifest (canon_program p) (canon_manifest mf) \<longleftrightarrow> wf_manifest p mf"
  by (simp add: wf_manifest_def canon_manifest_def module_refs_def comp_def image_image distinct_sort_modules)

lemma accepted_iff: "verify_artifact p mf = Some (Inr ()) \<longleftrightarrow> verify_module p = Some (Inr ()) \<and> wf_manifest p mf"
  unfolding verify_artifact_def verify_manifest_iff [symmetric]
  by (cases "verify_module p"; cases "the (verify_module p)"; cases "verify_manifest p mf") auto

lemma accepted_canon:
  "verify_artifact p mf = Some (Inr ()) \<Longrightarrow>
    verify_artifact (canon_program p) (canon_manifest mf) = Some (Inr ())"
  by (simp add: accepted_iff verify_module_canon wf_manifest_canon)

section \<open>The sections of an artifact\<close>

definition section_list :: "ArtifactBuildInput \<Rightarrow> u8 list \<Rightarrow> u8 list \<Rightarrow> u8 list \<Rightarrow> EncodedSection list" where
  \<comment> \<open>in the order of their ids\<close>
  "section_list inp mb pb sm =
     [section_required SECTION_MANIFEST mb, section_required SECTION_PROGRAM pb] @
     (if include_source_map (bi_options inp) then [section_optional SECTION_SOURCE_MAP sm] else []) @
     (case included_text inp of
        None \<Rightarrow> [] | Some text \<Rightarrow> [section_optional SECTION_SOURCE_TEXT (as_bytes text)]) @
     [section_required SECTION_REQUIRED_BUILTINS (encode_required_builtins (bi_program inp))]"

lemma artifact_sections_iff:
  "artifact_sections inp = Inr ss \<longleftrightarrow>
    (\<exists>mb pb sm. encode_manifest (bi_manifest inp) [] = Inr mb \<and> encode_program (bi_program inp) [] = Inr pb \<and>
       (include_source_map (bi_options inp) \<longrightarrow> encode_source_map (bi_program inp) = Inr sm) \<and>
       ss = section_list inp mb pb sm)"
  by (cases "include_source_map (bi_options inp)"; cases "included_text inp")
     (auto simp: artifact_sections_def section_list_def Let_def section_required_def
        section_optional_def section_defs)

lemma section_list_ids:
  "sorted_wrt (<) (map sec_id (section_list inp mb pb sm))"
  "\<forall>s\<in>set (section_list inp mb pb sm). known_section (sec_id s)"
  "length (section_list inp mb pb sm) \<le> 5"
  "{SECTION_MANIFEST, SECTION_PROGRAM, SECTION_REQUIRED_BUILTINS} \<subseteq> sec_id ` set (section_list inp mb pb sm)"
  "SECTION_SOURCE_TEXT \<in> sec_id ` set (section_list inp mb pb sm) \<longleftrightarrow> included_text inp \<noteq> None"
  by (cases "include_source_map (bi_options inp)"; cases "included_text inp";
      simp add: section_list_def section_required_def section_optional_def section_defs known_section_def)+

lemma find_required:
  "find (\<lambda>s. sec_id s = SECTION_REQUIRED_BUILTINS) (section_list inp mb pb sm) =
    Some (section_required SECTION_REQUIRED_BUILTINS (encode_required_builtins (bi_program inp)))"
  by (cases "include_source_map (bi_options inp)"; cases "included_text inp";
      simp add: section_list_def section_required_def section_optional_def section_defs)

lemma sum_lengthsD:
  "fold_res (\<lambda>total s. ok_or (usize_checked_add total (length (sec_bytes s))) LengthOverflow) n ss = Inr t \<Longrightarrow>
    t = n + length (payload_bytes ss)"
proof (induction ss arbitrary: n)
  case (Cons s ss)
  then have "fold_res (\<lambda>total s. ok_or (usize_checked_add total (length (sec_bytes s))) LengthOverflow)
      (n + length (sec_bytes s)) ss = Inr t"
    by (auto simp: usize_checked_add_def split: if_splits)
  from Cons.IH [OF this] show ?case by simp
qed simp

lemma encode_containerD:
  assumes "encode_container sha abi ss = Inr bytes"
  shows "length ss < 2 ^ 32" and "container_len ss < 2 ^ 64"
proof -
  from assms obtain a b t c where "length ss < 2 ^ 32"
    and h: "usize_checked_mul DIRECTORY_ENTRY_LEN (length ss) = Some a" "usize_checked_add HEADER_LEN a = Some b"
      "sum_lengths ss = Inr t" "usize_checked_add b t = Some c"
    unfolding encode_container_def by auto
  then show "length ss < 2 ^ 32" by simp
  have "t = length (payload_bytes ss)" using h(3) sum_lengthsD [of 0 ss t] by (simp add: sum_lengths_def)
  with h(1,2,4) show "container_len ss < 2 ^ 64"
    by (auto simp: usize_checked_mul_def usize_checked_add_def container_len_def split: if_splits)
qed

section \<open>Limits only decide acceptance\<close>

lemma decode_header_limits:
  "decode_header sha abi bytes L = Inr r \<Longrightarrow> decode_header sha abi bytes L' = Inr r' \<Longrightarrow> r = r'"
  unfolding decode_header_def by (auto simp: Let_def)

lemma decode_entry_limits:
  "decode_entry sha bytes L total_len st e = Inr r \<Longrightarrow> decode_entry sha bytes L' total_len st e = Inr r' \<Longrightarrow> r = r'"
  unfolding decode_entry_def by (auto simp: Let_def)

lemma decode_entries_limits:
  "fold_res (decode_entry sha bytes L total_len) st es = Inr r \<Longrightarrow>
    fold_res (decode_entry sha bytes L' total_len) st es = Inr r' \<Longrightarrow> r = r'"
  by (induction es arbitrary: st) (auto dest: decode_entry_limits)

lemma decode_container_limits:
  assumes "decode_container sha abi bytes L = Inr dc" "decode_container sha abi bytes L' = Inr dc'"
  shows "dc = dc'"
proof -
  from assms(1) obtain h where h: "decode_header sha abi bytes L = Inr h"
    unfolding decode_container_def by auto
  moreover from assms(2) obtain h' where "decode_header sha abi bytes L' = Inr h'"
    unfolding decode_container_def by auto
  ultimately have h': "decode_header sha abi bytes L' = Inr h" using decode_header_limits by blast
  from assms show ?thesis
    unfolding decode_container_def h h' by (cases h) (auto dest: decode_entries_limits)
qed

section \<open>Reading an artifact back\<close>

lemma length_encoded:
  assumes "length abi = 32" and "\<forall>bs. length (sha bs) = 32" and "encode_container sha abi ss = Inr bytes"
  shows "length bytes = container_len ss"
proof -
  note size = encode_containerD [OF assms(3)]
  have "length (container_digest sha abi ss) = 32" using assms(2) by (simp add: container_digest_def)
  then show ?thesis
    using encode_container_eq [OF assms(1) size] assms(3) length_concat_entries [OF assms(2)]
      length_header_prefix [OF assms(1)]
    by (auto simp: container_rest_def container_len_def layout_defs)
qed

lemma length_section: "s \<in> set ss \<Longrightarrow> length (sec_bytes s) \<le> container_len ss"
proof -
  assume "s \<in> set ss"
  then have "length (sec_bytes s) \<le> length (payload_bytes ss)" by (induction ss) auto
  then show ?thesis by (simp add: container_len_def)
qed

lemma program_builtins_ok: "program_ok L p \<Longrightarrow> builtins_ok p"
  by (fastforce simp: program_ok_def function_ok_def block_ok_def list_all_iff builtins_ok_def
      called_builtins_def fn_instructions_def instruction_ok_def split: Instruction.splits)

definition fits :: "ArtifactLimits \<Rightarrow> nat \<Rightarrow> bool" where
  \<comment> \<open>the limits leave room for an artifact of \<open>n\<close> bytes and for every builtin\<close>
  "fits L n \<longleftrightarrow> n \<le> unat (max_total_bytes L) \<and> n \<le> unat (max_section_bytes L) \<and>
     5 \<le> unat (max_sections L) \<and> 508 \<le> unat (max_required_builtins L)"

lemma section_list_ok:
  assumes "fits L (container_len (section_list inp mb pb sm))"
  shows "sections_ok L (section_list inp mb pb sm)"
  unfolding sections_ok_def list_all_iff
  using section_list_ids [of inp mb pb sm] assms length_section [of _ "section_list inp mb pb sm"]
  by (auto simp: fits_def intro: order_trans)

lemma read_text:
  assumes "pred_option valid_str (bi_source_text inp)"
    and "\<forall>s\<in>set (section_list inp mb pb sm). dc_required dc (sec_id s) = Inr (sec_bytes s)"
    and "\<forall>i. i \<notin> sec_id ` set (section_list inp mb pb sm) \<longrightarrow> dc_sections dc i = None"
  shows "\<exists>x. dc_optional dc SECTION_SOURCE_TEXT = Inr x \<and>
    (case x of None \<Rightarrow> Inr None | Some bs \<Rightarrow> bindr (ok_or (from_utf8 bs) InvalidUtf8) (\<lambda>s. Inr (Some s))) =
      Inr (included_text inp)"
proof (cases "included_text inp")
  case None
  then show ?thesis using assms(3) section_list_ids(5) [of inp mb pb sm] by (simp add: dc_optional_def)
next
  case (Some t)
  then have "section_optional SECTION_SOURCE_TEXT (as_bytes t) \<in> set (section_list inp mb pb sm)"
    by (simp add: section_list_def)
  with assms(2) have "dc_required dc SECTION_SOURCE_TEXT = Inr (as_bytes t)"
    by (fastforce simp: section_optional_def)
  moreover from this have "dc_sections dc SECTION_SOURCE_TEXT \<noteq> None" by (auto simp: dc_required_def)
  moreover have "valid_str t" using Some assms(1) by (auto simp: included_text_def split: if_splits)
  ultimately show ?thesis using Some by (simp add: dc_optional_def from_utf8_as_bytes)
qed

lemma default_limits_builtins: "508 \<le> unat (max_required_builtins default_limits)"
  by (simp add: default_limits_def)

lemma required_set_ok:
  "builtins_ok p \<Longrightarrow> verify_required_builtin_set (canon_program p) (required_builtin_ids p) = Inr ()"
  by (simp add: verify_required_builtin_set_def encode_required_canon
      decode_required_encode [OF _ default_limits_builtins])

lemma decode_section_parts:
  assumes "program_ok L (bi_program inp)" "manifest_ok L (bi_manifest inp)"
    and "pred_option valid_str (bi_source_text inp)" "508 \<le> unat (max_required_builtins L)"
    and "encode_manifest (bi_manifest inp) [] = Inr mb" "encode_program (bi_program inp) [] = Inr pb"
    and "container_len (section_list inp mb pb sm) < 2 ^ 64"
    and sec: "\<forall>s\<in>set (section_list inp mb pb sm). dc_required dc (sec_id s) = Inr (sec_bytes s)"
      "\<forall>i. i \<notin> sec_id ` set (section_list inp mb pb sm) \<longrightarrow> dc_sections dc i = None"
  shows "decode_parts dc L =
    Inr (canon_manifest (bi_manifest inp), canon_program (bi_program inp),
         required_builtin_ids (bi_program inp), included_text inp)"
proof -
  let ?ss = "section_list inp mb pb sm"
  have mem: "section_required SECTION_MANIFEST mb \<in> set ?ss" "section_required SECTION_PROGRAM pb \<in> set ?ss"
    "section_required SECTION_REQUIRED_BUILTINS (encode_required_builtins (bi_program inp)) \<in> set ?ss"
    by (simp_all add: section_list_def)
  have len: "length mb < 2 ^ 64" "length pb < 2 ^ 64"
    using length_section [OF mem(1)] length_section [OF mem(2)] assms(7)
    by (simp_all add: section_required_def)
  have req: "dc_required dc SECTION_MANIFEST = Inr mb" "dc_required dc SECTION_PROGRAM = Inr pb"
    "dc_required dc SECTION_REQUIRED_BUILTINS = Inr (encode_required_builtins (bi_program inp))"
    using bspec [OF sec(1) mem(1)] bspec [OF sec(1) mem(2)] bspec [OF sec(1) mem(3)]
    by (simp_all add: section_required_def)
  have "decode_manifest mb L = Inr (canon_manifest (bi_manifest inp))"
    unfolding decode_manifest_def by (rule manifest_codec.decode_encoded [OF assms(2,5) len(1)])
  moreover have "decode_program pb L = Inr (canon_program (bi_program inp))"
    unfolding decode_program_def by (rule program_codec.decode_encoded [OF assms(1,6) len(2)])
  moreover have "decode_required_builtins (encode_required_builtins (bi_program inp)) L =
      Inr (required_builtin_ids (bi_program inp))"
    by (rule decode_required_encode [OF program_builtins_ok [OF assms(1)] assms(4)])
  ultimately show ?thesis
    unfolding decode_parts_def req bindr.simps using read_text [OF assms(3) sec] by simp
qed

section \<open>The required builtins of an accepted artifact\<close>

lemma read_u16_once:
  assumes "drop (cursor d) (dec_bytes d) = u16_le w @ post" "cursor d \<le> length (dec_bytes d)"
    "length (dec_bytes d) < 2 ^ 64"
  shows "dec_u16 d = Inr (w, d\<lparr>cursor := cursor d + 2\<rparr>)"
proof -
  have "reads (limits d) dec_u16 (u16_le w) w"
    using codes_u16 [of "limits d" w] by (auto simp: codes_def writes_def enc_u16_def)
  from reads_fun [OF this refl assms(2,3,1)] show ?thesis by simp
qed

lemma required_fold:
  assumes "dec_fold (length ws) decode_required_id (q, ids) d = Inr ((q', ids'), d')"
    and "drop (cursor d) (dec_bytes d) = concat (map u16_le ws) @ post"
    and "cursor d \<le> length (dec_bytes d)" "length (dec_bytes d) < 2 ^ 64"
  shows "ids' = ids @ ws"
  using assms
proof (induction ws arbitrary: q ids d)
  case Nil
  then show ?case by (simp add: ret_def)
next
  case (Cons w ws)
  have rest: "drop (cursor d) (dec_bytes d) = u16_le w @ concat (map u16_le ws) @ post"
    using Cons.prems(2) by simp
  note u = read_u16_once [OF rest Cons.prems(3,4)]
  let ?d = "d\<lparr>cursor := cursor d + 2\<rparr>"
  from Cons.prems(1) obtain s e where step: "decode_required_id (q, ids) d = Inr (s, e)"
    and fold: "dec_fold (length ws) decode_required_id s e = Inr ((q', ids'), d')"
    by (auto elim: bnd_InrE)
  from step u have se: "s = (Some w, ids @ [w])" "e = ?d"
    by (auto simp: decode_required_id_def bnd_def ret_def fail_def split: if_splits)
  have "drop (cursor ?d) (dec_bytes ?d) = concat (map u16_le ws) @ post"
    using drop_prefix_drop [OF rest] by simp
  moreover have "cursor ?d \<le> length (dec_bytes ?d)"
    using drop_prefix_length [OF rest Cons.prems(3)] by simp
  ultimately have "ids' = (ids @ [w]) @ ws"
    using Cons.IH [of "Some w" "ids @ [w]" ?d] fold se Cons.prems(4) by simp
  then show ?case by simp
qed

lemma length_required_any: "length (required_builtin_ids p) \<le> 65536"
proof -
  have "card (set (required_builtin_ids p)) \<le> card (UNIV :: u16 set)" by (intro card_mono) simp_all
  moreover have "distinct (required_builtin_ids p)" by (simp add: required_builtin_ids_def)
  ultimately show ?thesis by (simp add: distinct_card [symmetric] card_word del: set_required_builtin_ids)
qed

lemma decode_required_only:
  assumes "decode_required_builtins (encode_required_builtins p) default_limits = Inr ids"
  shows "ids = required_builtin_ids p"
proof -
  let ?ws = "required_builtin_ids p"
  let ?d = "decoder_new (encode_required_builtins p) default_limits"
  have size: "length (encode_required_builtins p) < 2 ^ 64"
    using length_required_any [of p] by (simp add: encode_required_builtins_def length_concat_u16_le)
  have "codes default_limits (enc_len (length ?ws)) (dec_count (max_required_builtins default_limits)) (length ?ws)"
    by (rule codes_count) (use length_required_any [of p] in \<open>simp add: default_limits_def\<close>)
  then have "reads default_limits (dec_count (max_required_builtins default_limits))
      (u32_le (of_nat (length ?ws))) (length ?ws)"
    using length_required_any [of p] by (auto simp: codes_def writes_def enc_len_def enc_u32_def)
  from reads_fun [OF this, of ?d "concat (map u16_le ?ws)"] size
  have count: "dec_count (max_required_builtins default_limits) ?d = Inr (length ?ws, ?d\<lparr>cursor := 4\<rparr>)"
    by (simp add: decoder_new_def encode_required_builtins_def)
  from assms obtain q d' where
    "dec_fold (length ?ws) decode_required_id (None, []) (?d\<lparr>cursor := 4\<rparr>) = Inr ((q, ids), d')"
    unfolding decode_required_builtins_def decode_all_def decode_required_body_def with_limits_def
    by (auto simp: bnd_def ret_def decoder_new_def count [unfolded decoder_new_def] split: sum.splits)
  from required_fold [OF this, of "[]"] size show ?thesis
    by (simp add: decoder_new_def encode_required_builtins_def)
qed

lemma required_setD: "verify_required_builtin_set p ids = Inr () \<Longrightarrow> ids = required_builtin_ids p"
  using decode_required_only by (auto simp: verify_required_builtin_set_def)

section \<open>Properties\<close>

lemma verify_artifact_total: "verify_artifact p mf \<noteq> None"
  using verify_functions_iff(1) [of p "mod_functions p"]
  by (auto simp: verify_artifact_def verify_module_def split: sum.splits)

lemma decode_artifactD:
  assumes "decode_artifact sha abi bytes L = Some (Inr a)"
  shows "pa_bytes a = bytes" "verify_module (pa_program a) = Some (Inr ())"
    "wf_manifest (pa_program a) (pa_manifest a)"
    "am_required_builtins (pa_metadata a) = required_builtin_ids (pa_program a)"
    "\<exists>dc. decode_container sha abi bytes L = Inr dc \<and> pa_digest a = dc_digest dc"
proof -
  from assms obtain dc mf p ids t where dc: "decode_container sha abi bytes L = Inr dc"
    and acc: "verify_artifact p mf = Some (Inr ())" and ids: "verify_required_builtin_set p ids = Inr ()"
    and a: "a = \<lparr>pa_bytes = bytes, pa_program = p, pa_manifest = mf, pa_source_text = t,
       pa_metadata = \<lparr>am_format_version = FORMAT_VERSION, am_semantic_abi_hash = abi,
         am_flags = dc_flags dc, am_sections = dc_metadata dc, am_required_builtins = ids\<rparr>,
       pa_digest = dc_digest dc\<rparr>"
    unfolding decode_artifact_def by (auto split: sum.splits prod.splits)
  show "pa_bytes a = bytes" "verify_module (pa_program a) = Some (Inr ())"
    "wf_manifest (pa_program a) (pa_manifest a)"
    "am_required_builtins (pa_metadata a) = required_builtin_ids (pa_program a)"
    "\<exists>dc. decode_container sha abi bytes L = Inr dc \<and> pa_digest a = dc_digest dc"
    using acc [unfolded accepted_iff] required_setD [OF ids] dc by (simp_all add: a)
qed

lemma build_verified_ok:
  assumes "length abi = 32" and "\<forall>bs. length (sha bs) = 32"
    and "verify_artifact (bi_program inp) (bi_manifest inp) = Some (Inr ())"
    and "program_ok L (bi_program inp)"
    and "pred_option valid_str (bi_source_text inp)"
    and "\<not> (include_source_text (bi_options inp) \<and> bi_source_text inp = None)"
    and "artifact_sections inp = Inr ss" and "fits default_limits (container_len ss)"
  shows "\<exists>dc bytes. encode_container sha abi ss = Inr bytes \<and> decode_container sha abi bytes default_limits = Inr dc \<and>
    from_input sha abi inp = Some (Inr
      \<lparr>pa_bytes = bytes, pa_program = bi_program inp, pa_manifest = bi_manifest inp,
       pa_source_text = included_text inp,
       pa_metadata = \<lparr>am_format_version = FORMAT_VERSION, am_semantic_abi_hash = abi,
         am_flags = dc_flags dc, am_sections = dc_metadata dc,
         am_required_builtins = required_builtin_ids (bi_program inp)\<rparr>,
       pa_digest = dc_digest dc\<rparr>)"
proof -
  from assms(7) obtain mb pb sm where ss: "ss = section_list inp mb pb sm"
    unfolding artifact_sections_iff by blast
  have "sections_ok default_limits ss" using assms(8) unfolding ss by (rule section_list_ok)
  from decode_container_encoded [OF assms(1,2) this] obtain bytes dc where
    enc: "encode_container sha abi ss = Inr bytes" and dec: "decode_container sha abi bytes default_limits = Inr dc"
    by blast
  have "metadata_from_encoded_sections sha abi ss bytes =
      Inr \<lparr>am_format_version = FORMAT_VERSION, am_semantic_abi_hash = abi, am_flags = dc_flags dc,
           am_sections = dc_metadata dc, am_required_builtins = required_builtin_ids (bi_program inp)\<rparr>"
    using decode_required_encode [OF program_builtins_ok [OF assms(4)] default_limits_builtins]
    unfolding metadata_from_encoded_sections_def dec ss find_required
    by (simp add: section_required_def)
  moreover have "take 32 (drop CONTENT_HASH_OFFSET bytes) = dc_digest dc"
    by (rule decode_containerD(9) [OF dec])
  ultimately have "build_verified sha abi inp = Inr
      \<lparr>pa_bytes = bytes, pa_program = bi_program inp, pa_manifest = bi_manifest inp,
       pa_source_text = included_text inp,
       pa_metadata = \<lparr>am_format_version = FORMAT_VERSION, am_semantic_abi_hash = abi,
         am_flags = dc_flags dc, am_sections = dc_metadata dc,
         am_required_builtins = required_builtin_ids (bi_program inp)\<rparr>,
       pa_digest = dc_digest dc\<rparr>"
    unfolding build_verified_def using assms(6,7) enc by (simp add: Let_def)
  then show ?thesis using assms(3) enc dec by (simp add: from_input_def)
qed

text \<open>
  An input for the witnesses: a program with a branch and a phi, a one-module manifest, a source
  map and a source text; its encoded sections take a few hundred bytes.
\<close>

definition sample_input :: ArtifactBuildInput where
  "sample_input =
     \<lparr>bi_program = joined_module, bi_manifest = manifest_single [97] False,
      bi_options = \<lparr>include_source_map = True, include_source_text = True\<rparr>,
      bi_source_text = Some [49]\<rparr>"

lemmas enc_eval = run.simps enc_u8_def enc_u16_def enc_u32_def enc_u64_def enc_bytes_def enc_bool_def
  enc_len_def enc_string_def enc_strings_def enc_list_def enc_opt.simps
lemmas sample_defs = joined_module_def joined_def module_new_def function_new_def manifest_single_def

lemma sample_program: "\<exists>pb. encode_program joined_module [] = Inr pb \<and> length pb < 1000"
  by (simp add: encode_program_def sample_defs constants_with_meta_def enc_eval encode_constant_def
      encode_function_def encode_block_def encode_instruction_def encode_terminator_def
      sort_callees_def value_id_def encode_phi_source_def as_bytes_ascii)

lemma sample_manifest: "\<exists>mb. encode_manifest (manifest_single [97] False) [] = Inr mb \<and> length mb < 100"
  by (simp add: encode_manifest_def sample_defs enc_eval sort_modules_def encode_manifest_module_def
      as_bytes_ascii sort_static_def sort_dynamic_def sort_conditions_def sort_dedup_def)

lemma sample_builtins: "length (encode_required_builtins joined_module) = 4"
  by (simp add: encode_required_builtins_def required_builtin_ids_def called_builtins_def
      fn_instructions_def sample_defs)

lemma sample_fits: "\<exists>ss. artifact_sections sample_input = Inr ss \<and> fits default_limits (container_len ss)"
proof -
  obtain mb pb where b: "encode_program joined_module [] = Inr pb" "length pb < 1000"
    "encode_manifest (manifest_single [97] False) [] = Inr mb" "length mb < 100"
    using sample_program sample_manifest by blast
  have "\<exists>sm. encode_source_map joined_module = Inr sm \<and> length sm < 100"
    by (simp add: encode_source_map_def sample_defs encode_span_entry_def)
  then obtain sm where sm: "encode_source_map joined_module = Inr sm" "length sm < 100" by blast
  have "artifact_sections sample_input = Inr (section_list sample_input mb pb sm)"
    unfolding artifact_sections_iff using b sm by (simp add: sample_input_def)
  moreover have "container_len (section_list sample_input mb pb sm) \<le> 2000"
    using b sm sample_builtins
    by (simp add: container_len_def layout_defs section_list_def sample_input_def included_text_def
        section_required_def section_optional_def as_bytes_ascii)
  ultimately show ?thesis by (auto simp: fits_def default_limits_def)
qed

lemma sample_ok:
  "program_ok default_limits joined_module" "manifest_ok default_limits (manifest_single [97] False)"
  by (simp_all add: program_ok_def sample_defs default_limits_def constants_with_meta_def function_ok_def
      str_ok_def strings_ok_def block_ok_def instruction_ok_def terminator_ok_def values_ok_def
      manifest_ok_def manifest_module_ok_def as_bytes_ascii is_scalar_def)

lemma sample_accepted: "verify_artifact joined_module (manifest_single [97] False) = Some (Inr ())"
  by (simp add: joined_artifact url_simps)

lemma built_artifact_decodes:
  assumes "length abi = 32" and "\<forall>bs. length (sha bs) = 32"
    and "verify_artifact (bi_program inp) (bi_manifest inp) = Some (Inr ())"
    and "program_ok L (bi_program inp)" "manifest_ok L (bi_manifest inp)"
    and "pred_option valid_str (bi_source_text inp)"
    and "\<not> (include_source_text (bi_options inp) \<and> bi_source_text inp = None)"
    and "artifact_sections inp = Inr ss"
    and "fits default_limits (container_len ss)" "fits L (container_len ss)"
  shows "\<exists>a. from_input sha abi inp = Some (Inr a) \<and>
    decode_artifact sha abi (pa_bytes a) L =
      Some (Inr (a\<lparr>pa_program := canon_program (bi_program inp), pa_manifest := canon_manifest (bi_manifest inp)\<rparr>))"
proof -
  from build_verified_ok [OF assms(1-4,6-9)] obtain dc bytes where
    enc: "encode_container sha abi ss = Inr bytes" and dec: "decode_container sha abi bytes default_limits = Inr dc"
    and build: "from_input sha abi inp = Some (Inr
      \<lparr>pa_bytes = bytes, pa_program = bi_program inp, pa_manifest = bi_manifest inp,
       pa_source_text = included_text inp,
       pa_metadata = \<lparr>am_format_version = FORMAT_VERSION, am_semantic_abi_hash = abi,
         am_flags = dc_flags dc, am_sections = dc_metadata dc,
         am_required_builtins = required_builtin_ids (bi_program inp)\<rparr>,
       pa_digest = dc_digest dc\<rparr>)" by blast
  from assms(8) obtain mb pb sm where mb: "encode_manifest (bi_manifest inp) [] = Inr mb"
    and pb: "encode_program (bi_program inp) [] = Inr pb" and ss: "ss = section_list inp mb pb sm"
    unfolding artifact_sections_iff by blast
  have "sections_ok L ss" using assms(10) unfolding ss by (rule section_list_ok)
  from decode_container_encoded [OF assms(1,2) this] enc obtain dc' where
    dc': "decode_container sha abi bytes L = Inr dc'"
    and sec: "\<forall>s\<in>set ss. dc_required dc' (sec_id s) = Inr (sec_bytes s)"
      "\<forall>i. i \<notin> sec_id ` set ss \<longrightarrow> dc_sections dc' i = None" by auto
  have same: "dc' = dc" using decode_container_limits [OF dc' dec] .
  have n: "508 \<le> unat (max_required_builtins L)" using assms(10) by (simp add: fits_def)
  have size: "container_len (section_list inp mb pb sm) < 2 ^ 64"
    using encode_containerD(2) [OF enc] by (simp only: ss)
  note parts = decode_section_parts [OF assms(4-6) n mb pb size sec [unfolded ss]]
  show ?thesis
    using build dc' parts accepted_canon [OF assms(3)]
      required_set_ok [OF program_builtins_ok [OF assms(4)]]
    by (simp add: decode_artifact_def same)
qed

text \<open>
  C3: Building an artifact and reading it back. For a program and a manifest that pass the
  verifier, are representable within the limits and have, where requested, a source text,
  \<open>from_input\<close> succeeds; \<open>decode\<close> accepts its bytes and gives back the same artifact (bytes,
  digest, source text, flags, sections and required builtins), with the program and the manifest
  in the canonical form the encoder writes.
\<close>

theorem artifact_round_trip:
  assumes "length abi = 32" and "\<forall>bs. length (sha bs) = 32"
    and "verify_artifact (bi_program inp) (bi_manifest inp) = Some (Inr ())"
    and "program_ok L (bi_program inp)" "manifest_ok L (bi_manifest inp)"
    and "pred_option valid_str (bi_source_text inp)"
    and "\<not> (include_source_text (bi_options inp) \<and> bi_source_text inp = None)"
    and "artifact_sections inp = Inr ss"
    and "fits default_limits (container_len ss)" "fits L (container_len ss)"
  shows "\<exists>a. from_input sha abi inp = Some (Inr a) \<and>
    decode_artifact sha abi (pa_bytes a) L =
      Some (Inr (a\<lparr>pa_program := canon_program (bi_program inp), pa_manifest := canon_manifest (bi_manifest inp)\<rparr>))"
  by (rule built_artifact_decodes [OF assms])

theorem artifact_round_trip_witness:
  "\<exists>a. from_input (\<lambda>bs. replicate 32 (of_nat (length bs))) (replicate 32 7) sample_input = Some (Inr a) \<and>
     decode_artifact (\<lambda>bs. replicate 32 (of_nat (length bs))) (replicate 32 7) (pa_bytes a) default_limits =
       Some (Inr (a\<lparr>pa_program := canon_program joined_module, pa_manifest := canon_manifest (manifest_single [97] False)\<rparr>))"
proof -
  obtain ss where "artifact_sections sample_input = Inr ss" "fits default_limits (container_len ss)"
    using sample_fits by blast
  then show ?thesis
    using artifact_round_trip [of "replicate 32 7" "\<lambda>bs. replicate 32 (of_nat (length bs))" sample_input
        default_limits ss] sample_ok sample_accepted
    by (simp add: sample_input_def is_scalar_def)
qed

text \<open>
  C1: What \<open>decode\<close> accepts is safe, whatever the bytes and whoever wrote them: decoding never
  panics; an accepted artifact keeps the bytes it came from, its program passes the IR verifier,
  its manifest is well formed for it, the required builtins it lists are exactly the ones its
  instructions call, in strictly increasing order, and no execution of any of its functions reads
  a value it has not assigned.
\<close>

theorem decoded_artifact_is_safe:
  "decode_artifact sha abi bytes L \<noteq> None \<and>
   (decode_artifact sha abi bytes L = Some (Inr a) \<longrightarrow>
      pa_bytes a = bytes \<and> verify_module (pa_program a) = Some (Inr ()) \<and>
      wf_manifest (pa_program a) (pa_manifest a) \<and>
      sorted_wrt (<) (am_required_builtins (pa_metadata a)) \<and>
      set (am_required_builtins (pa_metadata a)) = set (called_builtins (pa_program a)) \<and>
      (\<forall>fn\<in>set (mod_functions (pa_program a)). \<forall>prev B i S.
         reaches fn prev B i S \<longrightarrow> block_by_id fn B \<noteq> None \<and> value_reads fn prev B i \<subseteq> S))"
proof -
  have "decode_artifact sha abi bytes L \<noteq> None"
    using verify_artifact_total by (auto simp: decode_artifact_def split: sum.splits)
  moreover have "block_by_id fn B \<noteq> None \<and> value_reads fn prev B i \<subseteq> S"
    if "decode_artifact sha abi bytes L = Some (Inr a)" "fn \<in> set (mod_functions (pa_program a))"
      "reaches fn prev B i S" for fn prev B i S
  proof -
    have "verify_functions (pa_program a) (mod_functions (pa_program a)) = Some (Inr ())"
      using decode_artifactD(2) [OF that(1)] by (auto simp: verify_module_def split: sum.splits)
    then have "wf_function (pa_program a) fn" using that(2) verify_functions_iff(2) by blast
    then show ?thesis using exec_safe(1,2) [OF _ that(3)] by blast
  qed
  ultimately show ?thesis
    using decode_artifactD [of sha abi bytes L a] required_builtin_ids_sorted [of "pa_program a"] by simp
qed

lemma sample_decoded:
  "\<exists>bytes a. decode_artifact (\<lambda>bs. replicate 32 (of_nat (length bs))) (replicate 32 7) bytes default_limits = Some (Inr a)"
proof -
  let ?sha = "\<lambda>bs. replicate 32 (of_nat (length bs)) :: u8 list"
  obtain ss where ss: "artifact_sections sample_input = Inr ss" "fits default_limits (container_len ss)"
    using sample_fits by blast
  have "pred_option valid_str (bi_source_text sample_input)" by (simp add: sample_input_def is_scalar_def)
  then show ?thesis
    using built_artifact_decodes [of "replicate 32 7" ?sha sample_input default_limits ss] ss sample_ok sample_accepted
    by (auto simp: sample_input_def)
qed

theorem decoded_artifact_is_safe_witness:
  "\<exists>bytes a. decode_artifact (\<lambda>bs. replicate 32 (of_nat (length bs))) (replicate 32 7) bytes default_limits = Some (Inr a) \<and>
     verify_module (pa_program a) = Some (Inr ()) \<and>
     set (am_required_builtins (pa_metadata a)) = set (called_builtins (pa_program a))"
  using sample_decoded decoded_artifact_is_safe [where L = default_limits
      and sha = "\<lambda>bs. replicate 32 (of_nat (length bs))" and abi = "replicate 32 7"]
  by blast

lemma other_abi_header:
  assumes "length abi = 32" and "\<forall>bs. length (sha bs) = 32" and "abi' \<noteq> abi"
    and enc: "encode_container sha abi ss = Inr bytes" and "length bytes \<le> unat (max_total_bytes L)"
  shows "decode_header sha abi' bytes L = Inl SemanticAbiMismatch"
proof -
  let ?d = "container_digest sha abi ss"
  let ?h = "header_prefix abi (length ss) (container_len ss) @ ?d"
  have bytes: "bytes = ?h @ container_rest sha ss"
    using encode_container_eq [OF assms(1) encode_containerD [OF enc]] enc by simp
  have d: "length ?d = 32" using assms(2) by (simp add: container_digest_def)
  note h = header_fields [OF assms(1) d, of "length ss" "container_len ss"]
  have "get_range bytes 0 HEADER_LEN = Some ?h"
    using get_range_at [of "[]" 0 HEADER_LEN ?h "container_rest sha ss"] h(9) by (simp add: bytes)
  moreover have "unat (of_nat HEADER_LEN :: u16) = HEADER_LEN" by (simp add: HEADER_LEN_def)
  ultimately show ?thesis
    unfolding decode_header_def using assms(3,5) by (simp add: h del: take_append drop_append)
qed

text \<open>
  A runtime with another semantic ABI refuses an artifact with \<open>SemanticAbiMismatch\<close>, before
  it looks at the digest, the directory or any section: no other error can mask it, and nothing
  of the foreign program is decoded.
\<close>

theorem other_abi_is_refused:
  assumes "length abi = 32" and "\<forall>bs. length (sha bs) = 32" and "abi' \<noteq> abi"
    and "from_input sha abi inp = Some (Inr a)" and "length (pa_bytes a) \<le> unat (max_total_bytes L)"
  shows "decode_artifact sha abi' (pa_bytes a) L = Some (Inl SemanticAbiMismatch)"
proof -
  from assms(4) obtain ss where "encode_container sha abi ss = Inr (pa_bytes a)"
    by (auto simp: from_input_def build_verified_def Let_def)
  from other_abi_header [OF assms(1-3) this assms(5)] show ?thesis
    by (simp add: decode_artifact_def decode_container_def)
qed

theorem other_abi_is_refused_witness:
  "\<exists>a. from_input (\<lambda>bs. replicate 32 (of_nat (length bs))) (replicate 32 7) sample_input = Some (Inr a) \<and>
     decode_artifact (\<lambda>bs. replicate 32 (of_nat (length bs))) (replicate 32 8) (pa_bytes a) default_limits =
       Some (Inl SemanticAbiMismatch)"
proof -
  let ?sha = "\<lambda>bs. replicate 32 (of_nat (length bs)) :: u8 list"
  obtain ss where ss: "artifact_sections sample_input = Inr ss" "fits default_limits (container_len ss)"
    using sample_fits by blast
  have "pred_option valid_str (bi_source_text sample_input)" by (simp add: sample_input_def is_scalar_def)
  then obtain a a' where a: "from_input ?sha (replicate 32 7) sample_input = Some (Inr a)"
    and d: "decode_artifact ?sha (replicate 32 7) (pa_bytes a) default_limits = Some (Inr a')"
    using built_artifact_decodes [of "replicate 32 7" ?sha sample_input default_limits ss] ss sample_ok sample_accepted
    by (auto simp: sample_input_def)
  from decode_artifactD(5) [OF d] obtain dc where
    "decode_container ?sha (replicate 32 7) (pa_bytes a) default_limits = Inr dc" by blast
  from decode_containerD(2) [OF this] a show ?thesis
    using other_abi_is_refused [of "replicate 32 7" ?sha "replicate 32 8" sample_input a default_limits]
    by simp
qed

end
