(* ===== verification/IR_Module.thy ===== *)
theory IR_Module
  imports Verify_Sound
begin

text \<open>
  Operations of \<open>wjsm-ir/src/lib.rs\<close> on whole modules: which variables of a function are local to
  its frame (\<open>frame_local_candidate_names\<close>, \<open>frame_local_variable_names_by_function\<close>), and how a
  merged program is cut into the builtin and the user segment (\<open>split_builtin_segment\<close>).
  \<open>BTreeSet<&str>\<close> is a set of names, \<open>BTreeMap<&str, Vec<usize>>\<close> a function from names to the
  index list, absent entries being \<open>[]\<close>.
\<close>

section \<open>Names with a fixed meaning\<close>

definition EVAL_SCOPE_ENV_PARAM :: rstr where
  "EVAL_SCOPE_ENV_PARAM = lit ''$eval_env''"

definition MODULE_ENTRY_IR_NAME :: rstr where
  "MODULE_ENTRY_IR_NAME = lit ''$module_main''"

definition BUILTIN_ENTRY_IR_NAME :: rstr where
  "BUILTIN_ENTRY_IR_NAME = lit ''$builtin_main''"

definition is_host_shared_variable :: "rstr \<Rightarrow> bool" where
  "is_host_shared_variable n \<longleftrightarrow>
     n = lit ''$this'' \<or> n = lit ''$env'' \<or> n = EVAL_SCOPE_ENV_PARAM \<or>
     starts_with n (lit ''$0.'') \<or> starts_with n (lit ''$sroa.'')"

definition is_builtin_entry_ir_function :: "rstr \<Rightarrow> bool" where
  "is_builtin_entry_ir_function n \<longleftrightarrow> n = BUILTIN_ENTRY_IR_NAME"

definition is_module_entry_ir_function :: "rstr \<Rightarrow> bool" where
  "is_module_entry_ir_function n \<longleftrightarrow> n = MODULE_ENTRY_IR_NAME"

section \<open>Variables of a function\<close>

definition loaded_names :: "Function \<Rightarrow> rstr set" where
  \<comment> \<open>the names of the \<open>LoadVar\<close> instructions\<close>
  "loaded_names fn = set (List.map_filter (\<lambda>i. case i of LoadVar _ n \<Rightarrow> Some n | _ \<Rightarrow> None) (fn_instructions fn))"

definition store_names :: "Function \<Rightarrow> rstr set" where
  \<comment> \<open>the names of the \<open>StoreVar\<close> instructions\<close>
  "store_names fn = set (List.map_filter (\<lambda>i. case i of StoreVar n _ \<Rightarrow> Some n | _ \<Rightarrow> None) (fn_instructions fn))"

definition stored_variable_names :: "Function \<Rightarrow> rstr set" where
  "stored_variable_names fn = set (fn_params fn) \<union> store_names fn"

definition owned_variable_names :: "Function \<Rightarrow> rstr set" where
  "owned_variable_names = stored_variable_names"

definition used_variable_names :: "Function \<Rightarrow> rstr set" where
  "used_variable_names fn = owned_variable_names fn \<union> loaded_names fn"

definition frame_local_candidate_names :: "Function \<Rightarrow> rstr set" where
  "frame_local_candidate_names fn =
     (if fn_has_eval fn \<or> is_builtin_entry_ir_function (fn_name fn) then {}
      else
        let captured = set (fn_captured_names fn);
            stored = Set.filter (\<lambda>p. \<not> is_host_shared_variable p \<and> p \<notin> captured) (set (fn_params fn)) \<union>
              store_names fn
        in Set.filter (\<lambda>n. \<not> is_host_shared_variable n \<and> n \<notin> captured) (loaded_names fn \<inter> stored))"

definition frame_local_variable_names :: "Function \<Rightarrow> rstr set" where
  "frame_local_variable_names = frame_local_candidate_names"

section \<open>Variables across the functions of a module\<close>

definition builtin_entry_published_names :: "Module \<Rightarrow> rstr set" where
  "builtin_entry_published_names m =
     \<Union> (set (map stored_variable_names
        (filter (\<lambda>fn. is_builtin_entry_ir_function (fn_name fn)) (mod_functions m))))"

definition users_of :: "(Function \<Rightarrow> rstr set) \<Rightarrow> Module \<Rightarrow> rstr \<Rightarrow> nat list" where
  \<comment> \<open>the entry of \<open>readers\<close> (\<open>owners\<close>) for a name: the functions using (owning) it, in order\<close>
  "users_of names m n =
     map fst (filter (\<lambda>(index, fn). n \<in> names fn) (enumerate 0 (mod_functions m)))"

definition frame_local_variable_names_by_function :: "Module \<Rightarrow> rstr set list" where
  "frame_local_variable_names_by_function m =
     (let published = builtin_entry_published_names m;
          readers = users_of used_variable_names m;
          owners = users_of owned_variable_names m
      in map (\<lambda>(index, fn).
           if is_builtin_entry_ir_function (fn_name fn) then {}
           else Set.filter (\<lambda>n. n \<notin> published \<and>
                  \<not> (starts_with n (lit ''$sroa.'') \<and> 1 < length (readers n)) \<and>
                  list_all (\<lambda>user. user = index \<or> user \<in> set (owners n)) (readers n))
                (frame_local_candidate_names fn))
           (enumerate 0 (mod_functions m)))"

definition module_frame_local_variable_names :: "Module \<Rightarrow> nat \<Rightarrow> rstr set" where
  \<comment> \<open>\<open>Module::frame_local_variable_names\<close>; the function is given by its index, the source finds
      it by its address\<close>
  "module_frame_local_variable_names m index =
     (case get_at (frame_local_variable_names_by_function m) index of None \<Rightarrow> {} | Some s \<Rightarrow> s)"

section \<open>The builtin segment\<close>

fun find_position :: "('a \<Rightarrow> bool) \<Rightarrow> 'a list \<Rightarrow> nat option" where
  \<comment> \<open>\<open>Iterator::position\<close>\<close>
  "find_position P [] = None"
| "find_position P (x # xs) = (if P x then Some 0 else map_option Suc (find_position P xs))"

definition builtin_entry_function_id :: "Module \<Rightarrow> FunctionId option" where
  "builtin_entry_function_id m =
     (case find_position (\<lambda>fn. is_builtin_entry_ir_function (fn_name fn)) (mod_functions m) of
        None \<Rightarrow> None
      | Some index \<Rightarrow> if index < 2 ^ 32 then Some (FunctionId (of_nat index)) else None)"

definition constant_refs :: "BasicBlock \<Rightarrow> ConstantId list" where
  \<comment> \<open>the constants \<open>max_constant_id_in\<close> looks at in a block\<close>
  "constant_refs b =
     List.map_filter (\<lambda>i. case i of Const _ c \<Rightarrow> Some c | _ \<Rightarrow> None) (blk_instructions b) @
     (case blk_terminator b of Switch _ cases _ _ \<Rightarrow> map case_constant cases | _ \<Rightarrow> [])"

definition max_constant_id_in :: "Function list \<Rightarrow> nat option" where
  "max_constant_id_in fns =
     fold (\<lambda>c acc. Some (case acc of None \<Rightarrow> cix c | Some current \<Rightarrow> max current (cix c)))
       (concat (map (\<lambda>fn. concat (map constant_refs (fn_blocks fn))) fns)) None"

fun remap_user_function_ref :: "u32 \<Rightarrow> u32 \<Rightarrow> Constant \<Rightarrow> Constant" where
  "remap_user_function_ref split user_count (FunctionRef f) =
     (if fid f \<ge> split then FunctionRef (FunctionId (fid f - split))
      else FunctionRef (FunctionId (user_count + fid f)))"
| "remap_user_function_ref split user_count c = c"

definition take_through :: "nat option \<Rightarrow> 'a list \<Rightarrow> 'a list option" where
  \<comment> \<open>\<open>xs[..=max].to_vec()\<close>, which panics (\<open>None\<close>) past the end, or \<open>Vec::new()\<close>\<close>
  "take_through used xs =
     (case used of
        None \<Rightarrow> Some []
      | Some maximum \<Rightarrow> if maximum < length xs then Some (take (maximum + 1) xs) else None)"

definition split_builtin_segment :: "Module \<Rightarrow> (Module \<times> Module) option option" where
  \<comment> \<open>the outer option is a panic, the inner one the result of the source\<close>
  "split_builtin_segment m =
     (case builtin_entry_function_id m of
        None \<Rightarrow> Some None
      | Some entry \<Rightarrow>
          let entry_index = fnix entry; split = entry_index + 1 in
          if (case get_at (mod_functions m) entry_index of
                None \<Rightarrow> True | Some fn \<Rightarrow> \<not> is_builtin_entry_ir_function (fn_name fn)) then Some None
          else if split > length (mod_functions m) then Some None
          else if fid entry = 0xFFFFFFFF then Some None
          else
            let builtin_used = max_constant_id_in (take split (mod_functions m)) in
            Option.bind (take_through builtin_used (mod_constants m)) (\<lambda>builtin_constants.
            Option.bind (take_through builtin_used (mod_string_constant_metas m)) (\<lambda>builtin_metas.
            let user_len = length (mod_functions m) - split in
            if 2 ^ 32 \<le> user_len then Some None
            else Some (Some
              (\<lparr>mod_constants = builtin_constants, mod_string_constant_metas = builtin_metas,
                mod_functions = take split (mod_functions m), mod_script_mode = mod_script_mode m,
                mod_source_file = None\<rparr>,
               \<lparr>mod_constants = map (remap_user_function_ref (fid entry + 1) (of_nat user_len)) (mod_constants m),
                mod_string_constant_metas = mod_string_constant_metas m,
                mod_functions = drop split (mod_functions m), mod_script_mode = mod_script_mode m,
                mod_source_file = mod_source_file m\<rparr>)))))"

section \<open>Promotion\<close>

lemma users_of_iff: "i \<in> set (users_of names m n) \<longleftrightarrow> i < length (mod_functions m) \<and> n \<in> names (mod_functions m ! i)"
proof -
  have "(i, fn) \<in> set (enumerate 0 (mod_functions m)) \<longleftrightarrow> i < length (mod_functions m) \<and> fn = mod_functions m ! i" for fn
    by (auto simp: in_set_enumerate_eq)
  then show ?thesis by (force simp: users_of_def image_iff)
qed

lemma distinct_users_of: "distinct (users_of names m n)"
  unfolding users_of_def by (rule distinct_map_filter) (simp add: distinct_enumerate)

lemma users_of_one: "length (users_of names m n) \<le> 1 \<Longrightarrow> i \<in> set (users_of names m n) \<Longrightarrow>
    j \<in> set (users_of names m n) \<Longrightarrow> i = j"
  by (cases "users_of names m n"; cases "tl (users_of names m n)") auto

lemma frame_local_iff:
  "i < length (mod_functions m) \<Longrightarrow> n \<in> frame_local_variable_names_by_function m ! i \<longleftrightarrow>
    \<not> is_builtin_entry_ir_function (fn_name (mod_functions m ! i)) \<and>
    n \<in> frame_local_candidate_names (mod_functions m ! i) \<and> n \<notin> builtin_entry_published_names m \<and>
    (starts_with n (lit ''$sroa.'') \<longrightarrow> length (users_of used_variable_names m n) \<le> 1) \<and>
    (\<forall>j < length (mod_functions m). n \<in> used_variable_names (mod_functions m ! j) \<longrightarrow>
       j = i \<or> n \<in> owned_variable_names (mod_functions m ! j))"
  by (auto simp: frame_local_variable_names_by_function_def Let_def list_all_iff users_of_iff nth_enumerate_eq
      not_less)

lemma candidate_used: "n \<in> frame_local_candidate_names fn \<Longrightarrow> n \<in> owned_variable_names fn \<and> n \<in> used_variable_names fn"
  by (auto simp: frame_local_candidate_names_def Let_def used_variable_names_def owned_variable_names_def
      stored_variable_names_def split: if_splits)

section \<open>Where references lead after the split\<close>

lemma find_position_Some: "find_position P xs = Some i \<Longrightarrow> i < length xs \<and> P (xs ! i) \<and> (\<forall>j < i. \<not> P (xs ! j))"
proof (induction xs arbitrary: i)
  case (Cons x xs)
  then show ?case by (auto simp: less_Suc_eq_0_disj split: if_splits)
qed simp

lemma find_position_None: "find_position P xs = None \<longleftrightarrow> (\<forall>x\<in>set xs. \<not> P x)"
  by (induction xs) auto

definition refs_of :: "Function list \<Rightarrow> ConstantId list" where
  "refs_of fns = concat (map (\<lambda>fn. concat (map constant_refs (fn_blocks fn))) fns)"

lemma max_constants:
  "fold (\<lambda>c acc. Some (case acc of None \<Rightarrow> cix c | Some current \<Rightarrow> max current (cix c))) cs None =
    (if cs = [] then None else Some (Max (cix ` set cs)))"
proof (induction cs rule: rev_induct)
  case (snoc c cs)
  then show ?case by (simp add: max.commute)
qed simp

lemma max_constant_id_in_refs:
  "max_constant_id_in fns = (if refs_of fns = [] then None else Some (Max (cix ` set (refs_of fns))))"
  unfolding max_constant_id_in_def refs_of_def [symmetric] by (rule max_constants)

lemma max_constant_id_in_None: "max_constant_id_in fns = None \<longleftrightarrow> refs_of fns = []"
  by (simp add: max_constant_id_in_refs)

lemma max_constant_id_in_Some:
  assumes "max_constant_id_in fns = Some k"
  shows "k \<in> cix ` set (refs_of fns)" "\<forall>c\<in>set (refs_of fns). cix c \<le> k"
proof -
  have ne: "refs_of fns \<noteq> []" and k: "k = Max (cix ` set (refs_of fns))"
    using assms by (auto simp: max_constant_id_in_refs split: if_splits)
  then have "cix ` set (refs_of fns) \<noteq> {}" by simp
  then show "k \<in> cix ` set (refs_of fns)" unfolding k by (intro Max_in) simp_all
  show "\<forall>c\<in>set (refs_of fns). cix c \<le> k" unfolding k by simp
qed

lemma take_through_refs:
  assumes "take_through (max_constant_id_in fns) xs = Some ys"
  shows "\<forall>c\<in>set (refs_of fns). cix c < length ys" "ys = take (length ys) xs"
proof -
  show "ys = take (length ys) xs"
    using assms by (auto simp: take_through_def split: option.splits if_splits)
  show "\<forall>c\<in>set (refs_of fns). cix c < length ys"
  proof (cases "max_constant_id_in fns")
    case None
    then show ?thesis by (simp add: max_constant_id_in_None)
  next
    case (Some k)
    with assms have "length ys = k + 1" by (auto simp: take_through_def split: if_splits)
    then show ?thesis using max_constant_id_in_Some(2) [OF Some] by fastforce
  qed
qed

lemma take_through_ok:
  "\<forall>c\<in>set (refs_of fns). cix c < length xs \<Longrightarrow> take_through (max_constant_id_in fns) xs \<noteq> None"
  using max_constant_id_in_Some(1) [of fns] by (fastforce simp: take_through_def split: option.split)

lemma const_refs_iff:
  "c \<in> set (List.map_filter (\<lambda>i. case i of Const _ c \<Rightarrow> Some c | _ \<Rightarrow> None) is) \<longleftrightarrow> (\<exists>d. Const d c \<in> set is)"
proof -
  have "(case i of Const _ c \<Rightarrow> Some c | _ \<Rightarrow> None) = Some c \<longleftrightarrow> (\<exists>d. i = Const d c)" for i
    by (cases i) simp_all
  then show ?thesis by (auto simp: map_filter_iff)
qed

lemma constant_refs_in_range:
  "constants_in_range m b \<longleftrightarrow> (\<forall>c\<in>set (constant_refs b). cix c < length (mod_constants m))"
proof -
  have "(\<forall>c\<in>set (List.map_filter (\<lambda>i. case i of Const _ c \<Rightarrow> Some c | _ \<Rightarrow> None) (blk_instructions b)).
        cix c < length (mod_constants m)) \<longleftrightarrow>
      (\<forall>d c. Const d c \<in> set (blk_instructions b) \<longrightarrow> cix c < length (mod_constants m))"
    unfolding Ball_def const_refs_iff by blast
  moreover have "(\<forall>c\<in>set (case blk_terminator b of Switch _ cases _ _ \<Rightarrow> map case_constant cases | _ \<Rightarrow> []).
        cix c < length (mod_constants m)) \<longleftrightarrow>
      (case blk_terminator b of
        Switch _ cases _ _ \<Rightarrow> \<forall>c\<in>set cases. cix (case_constant c) < length (mod_constants m) | _ \<Rightarrow> True)"
    by (cases "blk_terminator b") simp_all
  ultimately show ?thesis
    unfolding constants_in_range_def constant_refs_def set_append ball_Un by (simp only:)
qed

lemma wf_refs:
  assumes "\<forall>fn\<in>set (mod_functions m). wf_function m fn" "c \<in> set (refs_of (mod_functions m))"
  shows "cix c < length (mod_constants m)"
proof -
  from assms(2) obtain fn b where fn: "fn \<in> set (mod_functions m)" and b: "b \<in> set (fn_blocks fn)" "c \<in> set (constant_refs b)"
    by (auto simp: refs_of_def)
  from b(1) obtain k where "k < length (fn_blocks fn)" "fn_blocks fn ! k = b" by (auto simp: in_set_conv_nth)
  with assms(1) fn have "constants_in_range m b" by (auto simp: wf_function_def block_wf_def)
  with b(2) show ?thesis by (simp add: constant_refs_in_range)
qed

lemma remap_resolves:
  assumes "FunctionRef f = c" and "fnix f < n" and "n < 2 ^ 32" and "0 < k" "k \<le> n" and "length fns = n"
    and "unat split = k"
  shows "\<exists>g. remap_user_function_ref split (of_nat (n - k)) c = FunctionRef g \<and> fnix g < n \<and>
    (drop k fns @ take k fns) ! fnix g = fns ! fnix f"
proof -
  have f: "fnix f = unat (fid f)" by (simp add: fnix_def)
  show ?thesis
  proof (cases "fid f \<ge> split")
    case True
    then have "unat (fid f - split) = fnix f - k" "k \<le> fnix f"
      using assms(7) f by (simp_all add: unat_sub word_le_nat_alt)
    then have "(drop k fns @ take k fns) ! fnix (FunctionId (fid f - split)) = fns ! fnix f"
      using assms(2,5,6) diff_less_mono [of "fnix f" n k] by (simp add: fnix_def nth_append)
    moreover have "fnix (FunctionId (fid f - split)) < n"
      using \<open>unat (fid f - split) = fnix f - k\<close> assms(2) by (simp add: fnix_def)
    ultimately show ?thesis using True assms(1) by auto
  next
    case False
    then have lt: "fnix f < k" using assms(7) f by (simp add: word_le_nat_alt)
    have "unat (of_nat (n - k) :: u32) = n - k" using assms(3) by (intro unat_u32_of_nat) simp
    then have "unat (of_nat (n - k) + fid f :: u32) = n - k + fnix f"
      using lt assms(3,5) f by (subst unat_add_lem [THEN iffD1]) auto
    then have "fnix (FunctionId (of_nat (n - k) + fid f)) = length (drop k fns) + fnix f"
      using assms(6) by (simp add: fnix_def)
    then have "(drop k fns @ take k fns) ! fnix (FunctionId (of_nat (n - k) + fid f)) = fns ! fnix f"
      using lt by (simp only: nth_append_length_plus nth_take)
    moreover have "fnix (FunctionId (of_nat (n - k) + fid f)) < n"
      using \<open>fnix (FunctionId (of_nat (n - k) + fid f)) = length (drop k fns) + fnix f\<close> lt assms(5,6) by simp
    ultimately show ?thesis using False assms(1) by auto
  qed
qed

lemma entry_id_Some:
  assumes "builtin_entry_function_id m = Some e"
  shows "fnix e < length (mod_functions m)" "is_builtin_entry_ir_function (fn_name (mod_functions m ! fnix e))"
    "\<forall>j < fnix e. \<not> is_builtin_entry_ir_function (fn_name (mod_functions m ! j))"
proof -
  from assms obtain i where i: "find_position (\<lambda>fn. is_builtin_entry_ir_function (fn_name fn)) (mod_functions m) = Some i"
    "i < 2 ^ 32" "e = FunctionId (of_nat i)"
    by (auto simp: builtin_entry_function_id_def split: option.splits if_splits)
  then have "fnix e = i" by (simp add: fnix_def unat_u32_of_nat)
  then show "fnix e < length (mod_functions m)" "is_builtin_entry_ir_function (fn_name (mod_functions m ! fnix e))"
    "\<forall>j < fnix e. \<not> is_builtin_entry_ir_function (fn_name (mod_functions m ! j))"
    using find_position_Some [OF i(1)] by simp_all
qed

lemma split_cases:
  assumes "length (mod_functions m) < 2 ^ 32"
  shows "builtin_entry_function_id m = None \<longleftrightarrow>
      (\<forall>fn\<in>set (mod_functions m). \<not> is_builtin_entry_ir_function (fn_name fn))"
    and "builtin_entry_function_id m = Some e \<Longrightarrow> split_builtin_segment m =
      (let k = fnix e + 1; used = max_constant_id_in (take k (mod_functions m)) in
       Option.bind (take_through used (mod_constants m)) (\<lambda>cs.
       Option.bind (take_through used (mod_string_constant_metas m)) (\<lambda>metas.
       Some (Some
         (\<lparr>mod_constants = cs, mod_string_constant_metas = metas, mod_functions = take k (mod_functions m),
           mod_script_mode = mod_script_mode m, mod_source_file = None\<rparr>,
          \<lparr>mod_constants = map (remap_user_function_ref (fid e + 1) (of_nat (length (mod_functions m) - k))) (mod_constants m),
           mod_string_constant_metas = mod_string_constant_metas m, mod_functions = drop k (mod_functions m),
           mod_script_mode = mod_script_mode m, mod_source_file = mod_source_file m\<rparr>)))))"
proof -
  show "builtin_entry_function_id m = None \<longleftrightarrow>
      (\<forall>fn\<in>set (mod_functions m). \<not> is_builtin_entry_ir_function (fn_name fn))"
  proof (cases "find_position (\<lambda>fn. is_builtin_entry_ir_function (fn_name fn)) (mod_functions m)")
    case None
    then have "\<forall>fn\<in>set (mod_functions m). \<not> is_builtin_entry_ir_function (fn_name fn)"
      by (simp add: find_position_None)
    with None show ?thesis by (simp add: builtin_entry_function_id_def)
  next
    case (Some i)
    then have "i < 2 ^ 32" using find_position_Some [OF Some] assms by simp
    then show ?thesis using find_position_Some [OF Some] Some by (auto simp: builtin_entry_function_id_def)
  qed
  assume e: "builtin_entry_function_id m = Some e"
  note E = entry_id_Some [OF e]
  have "fid e \<noteq> 0xFFFFFFFF" using E(1) assms by (auto simp: fnix_def)
  moreover have "get_at (mod_functions m) (fnix e) = Some (mod_functions m ! fnix e)"
    using E(1) by (simp add: get_at_def)
  moreover have small: "\<not> 4294967296 \<le> length (mod_functions m) - Suc (fnix e)" using assms by simp
  ultimately show "split_builtin_segment m =
      (let k = fnix e + 1; used = max_constant_id_in (take k (mod_functions m)) in
       Option.bind (take_through used (mod_constants m)) (\<lambda>cs.
       Option.bind (take_through used (mod_string_constant_metas m)) (\<lambda>metas.
       Some (Some
         (\<lparr>mod_constants = cs, mod_string_constant_metas = metas, mod_functions = take k (mod_functions m),
           mod_script_mode = mod_script_mode m, mod_source_file = None\<rparr>,
          \<lparr>mod_constants = map (remap_user_function_ref (fid e + 1) (of_nat (length (mod_functions m) - k))) (mod_constants m),
           mod_string_constant_metas = mod_string_constant_metas m, mod_functions = drop k (mod_functions m),
           mod_script_mode = mod_script_mode m, mod_source_file = mod_source_file m\<rparr>)))))"
    using E small by (simp add: split_builtin_segment_def e Let_def del: of_nat_diff of_nat_Suc)
qed

definition refers_same :: "Function list \<Rightarrow> Function list \<Rightarrow> Constant \<Rightarrow> Constant \<Rightarrow> bool" where
  \<comment> \<open>\<open>c'\<close> means in the image with the functions \<open>gs\<close> what \<open>c\<close> means among \<open>fns\<close>\<close>
  "refers_same fns gs c c' \<longleftrightarrow>
     (case c of
        FunctionRef f \<Rightarrow> \<exists>g. c' = FunctionRef g \<and> fnix g < length gs \<and> gs ! fnix g = fns ! fnix f
      | _ \<Rightarrow> c' = c)"

section \<open>Properties\<close>

text \<open>
  A merged program for the witnesses: the builtin entry uses a constant and an object template
  behind it, the user function refers to both functions.
\<close>

definition builtin_part :: Function where
  "builtin_part = (function_new BUILTIN_ENTRY_IR_NAME (BasicBlockId 0))\<lparr>fn_blocks :=
     [\<lparr>blk_id = BasicBlockId 0,
       blk_instructions = [Const (ValueId 0) (ConstantId 0), InitObjectLiteral (ValueId 1) (ConstantId 1) [ValueId 0]],
       blk_terminator = Return (Some (ValueId 1))\<rparr>]\<rparr>"

definition user_part :: Function where
  "user_part = (function_new MODULE_ENTRY_IR_NAME (BasicBlockId 0))\<lparr>fn_blocks :=
     [\<lparr>blk_id = BasicBlockId 0, blk_instructions = [Const (ValueId 0) (ConstantId 2)],
       blk_terminator = Return (Some (ValueId 0))\<rparr>]\<rparr>"

definition merged :: Module where
  "merged = module_new\<lparr>mod_constants := [Undefined, ObjectTemplate [7], FunctionRef (FunctionId 1), FunctionRef (FunctionId 0)],
     mod_string_constant_metas := [None, None, None, None], mod_functions := [builtin_part, user_part]\<rparr>"

lemma merged_verified: "verify_module merged = Some (Inr ())"
  by code_simp

lemma merged_split: "split_builtin_segment merged = Some (Some
    (module_new\<lparr>mod_constants := [Undefined], mod_string_constant_metas := [None], mod_functions := [builtin_part]\<rparr>,
     module_new\<lparr>mod_constants := [Undefined, ObjectTemplate [7], FunctionRef (FunctionId 0), FunctionRef (FunctionId 1)],
       mod_string_constant_metas := [None, None, None, None], mod_functions := [user_part]\<rparr>))"
proof -
  have "find_position (\<lambda>fn. is_builtin_entry_ir_function (fn_name fn)) (mod_functions merged) = Some 0"
    by (simp add: merged_def builtin_part_def function_new_def module_new_def is_builtin_entry_ir_function_def)
  then have e: "builtin_entry_function_id merged = Some (FunctionId 0)"
    by (simp add: builtin_entry_function_id_def)
  have "max_constant_id_in [builtin_part] = Some 0"
    by (simp add: max_constant_id_in_refs refs_of_def constant_refs_def builtin_part_def cix_def)
  moreover have "length (mod_functions merged) < 2 ^ 32" by (simp add: merged_def module_new_def)
  ultimately show ?thesis
    using split_cases(2) [OF _ e]
    by (simp add: Let_def fnix_def take_through_def) (simp add: merged_def module_new_def)
qed

text \<open>
  Cutting a verified module into its builtin and its user segment. It never panics (the
  string metadata being aligned with the constants) and has no result exactly when no function is
  named \<open>$builtin_main\<close>. Otherwise the two segments hold all functions in order, the first entry
  function being the last of the builtin segment; every \<open>Const\<close> and \<open>Switch\<close> reference of a
  builtin function stays inside the builtin constants, which are a prefix of the original ones; and
  the user constants are the original ones except that every function reference is renumbered, so
  that looked up in the user functions followed by the builtin functions it finds the same function.
\<close>

theorem split_preserves_references:
  assumes "verify_module m = Some (Inr ())" and "length (mod_string_constant_metas m) = length (mod_constants m)"
    and "length (mod_functions m) < 2 ^ 32"
  shows "(split_builtin_segment m = Some None \<and>
      (\<forall>fn\<in>set (mod_functions m). \<not> is_builtin_entry_ir_function (fn_name fn))) \<or>
    (\<exists>b u. split_builtin_segment m = Some (Some (b, u)) \<and>
      mod_functions m = mod_functions b @ mod_functions u \<and> mod_functions b \<noteq> [] \<and>
      is_builtin_entry_ir_function (fn_name (last (mod_functions b))) \<and>
      (\<forall>fn\<in>set (butlast (mod_functions b)). \<not> is_builtin_entry_ir_function (fn_name fn)) \<and>
      mod_constants b = take (length (mod_constants b)) (mod_constants m) \<and>
      (\<forall>c\<in>set (refs_of (mod_functions b)). cix c < length (mod_constants b)) \<and>
      list_all2 (refers_same (mod_functions m) (mod_functions u @ mod_functions b))
        (mod_constants m) (mod_constants u))"
proof (cases "builtin_entry_function_id m")
  case None
  then show ?thesis
    using split_cases(1) [OF assms(3)] by (simp add: split_builtin_segment_def)
next
  case (Some e)
  note E = entry_id_Some [OF Some]
  let ?k = "fnix e + 1" and ?n = "length (mod_functions m)"
  let ?fns = "take ?k (mod_functions m)"
  have wf: "wf_constants m" "\<forall>fn\<in>set (mod_functions m). wf_function m fn"
    using assms(1) verify_functions_iff [of m "mod_functions m"] verify_module_constants_iff [of m]
    by (auto simp: verify_module_def split: sum.splits)
  have "set (refs_of ?fns) \<subseteq> set (refs_of (mod_functions m))"
    by (auto simp: refs_of_def dest!: in_set_takeD)
  then have refs: "\<forall>c\<in>set (refs_of ?fns). cix c < length (mod_constants m)" using wf_refs [OF wf(2)] by blast
  then obtain cs metas where cs: "take_through (max_constant_id_in ?fns) (mod_constants m) = Some cs"
    and metas: "take_through (max_constant_id_in ?fns) (mod_string_constant_metas m) = Some metas"
    using take_through_ok [of ?fns "mod_constants m"] take_through_ok [of ?fns "mod_string_constant_metas m"] assms(2)
    by auto
  let ?remap = "remap_user_function_ref (fid e + 1) (of_nat (?n - ?k))"
  let ?b = "\<lparr>mod_constants = cs, mod_string_constant_metas = metas, mod_functions = ?fns,
    mod_script_mode = mod_script_mode m, mod_source_file = None\<rparr>"
  let ?u = "\<lparr>mod_constants = map ?remap (mod_constants m), mod_string_constant_metas = mod_string_constant_metas m,
    mod_functions = drop ?k (mod_functions m), mod_script_mode = mod_script_mode m,
    mod_source_file = mod_source_file m\<rparr>"
  have split: "split_builtin_segment m = Some (Some (?b, ?u))"
    using split_cases(2) [OF assms(3) Some] cs metas by (simp add: Let_def)
  have u: "unat (fid e + 1) = ?k"
    using E(1) assms(3) by (subst unat_plus_simple [THEN iffD1]) (auto simp: fnix_def no_olen_add_nat)
  have const: "refers_same (mod_functions m) (drop ?k (mod_functions m) @ ?fns) c (?remap c)"
    if "c \<in> set (mod_constants m)" for c
  proof (cases c)
    case (FunctionRef f)
    then have "fnix f < ?n" using bspec [OF wf(1) [unfolded wf_constants_def] that] by simp
    then have "\<exists>g. ?remap c = FunctionRef g \<and> fnix g < ?n \<and>
        (drop ?k (mod_functions m) @ ?fns) ! fnix g = mod_functions m ! fnix f"
      using E(1) u by (intro remap_resolves [OF FunctionRef [symmetric] _ assms(3)]) simp_all
    then show ?thesis using FunctionRef E(1) by (auto simp: refers_same_def)
  qed (simp_all add: refers_same_def)
  have "last ?fns = mod_functions m ! fnix e" "butlast ?fns = take (fnix e) (mod_functions m)"
    using E(1) by (simp_all add: take_Suc_conv_app_nth)
  then have names: "is_builtin_entry_ir_function (fn_name (last ?fns))"
    "\<forall>fn\<in>set (butlast ?fns). \<not> is_builtin_entry_ir_function (fn_name fn)" "?fns \<noteq> []"
    using E by (auto simp: in_set_conv_nth)
  have "list_all2 (refers_same (mod_functions m) (drop ?k (mod_functions m) @ ?fns))
      (mod_constants m) (map ?remap (mod_constants m))"
    using const by (auto simp: list_all2_map2 intro!: list_all2_same [THEN iffD2])
  then show ?thesis
    unfolding split
    using names take_through_refs [OF cs]
    by (intro disjI2 exI [of _ ?b] exI [of _ ?u]) (simp only: Module.simps append_take_drop_id, simp)
qed

theorem split_preserves_references_witness:
  "split_builtin_segment merged \<noteq> Some None \<and>
   (\<exists>b u. split_builtin_segment merged = Some (Some (b, u)) \<and> mod_functions b = [builtin_part] \<and>
      list_all2 (refers_same (mod_functions merged) (mod_functions u @ mod_functions b))
        (mod_constants merged) (mod_constants u))"
proof -
  have "length (mod_string_constant_metas merged) = length (mod_constants merged)"
    "length (mod_functions merged) < 2 ^ 32" by (simp_all add: merged_def module_new_def)
  note split = split_preserves_references [OF merged_verified this]
  have fns: "mod_functions merged = [builtin_part, user_part]" by (simp add: merged_def module_new_def)
  from split show ?thesis by (simp add: merged_split fns module_new_def)
qed

text \<open>
  The documentation of \<open>split_builtin_segment\<close> says that the builtin segment copies all
  constants. The code keeps them only up to the largest one a \<open>Const\<close> or \<open>Switch\<close> refers to: here
  a verified module whose builtin entry builds an object from a template is cut into a builtin
  segment that still names the template's index and no longer contains it.
\<close>

theorem split_drops_templates:
  "verify_module merged = Some (Inr ()) \<and>
   (\<exists>b u. split_builtin_segment merged = Some (Some (b, u)) \<and>
      InitObjectLiteral (ValueId 1) (ConstantId 1) [ValueId 0] \<in> set (fn_instructions (mod_functions b ! 0)) \<and>
      length (mod_constants b) = 1)"
  by (simp add: merged_verified merged_split module_new_def builtin_part_def fn_instructions_def)

text \<open>
  Promoting variables to the frame is all or nothing. If a name is promoted in one function,
  then it is not a shared or protocol slot and the builtin entry does not write it; every other
  function that uses it stores it itself or has it as a parameter; and it is promoted in every
  other function where it is a candidate. So a promoted variable never shares a host slot with
  another function's copy.
\<close>

theorem promotion_is_uniform:
  assumes "n \<in> module_frame_local_variable_names m i" and "j < length (mod_functions m)"
    and "n \<in> used_variable_names (mod_functions m ! j)"
  shows "\<not> is_host_shared_variable n \<and> n \<notin> builtin_entry_published_names m \<and>
    n \<in> owned_variable_names (mod_functions m ! j) \<and>
    (n \<in> frame_local_candidate_names (mod_functions m ! j) \<longrightarrow> n \<in> module_frame_local_variable_names m j)"
proof -
  let ?f = "\<lambda>k. mod_functions m ! k"
  have len: "length (frame_local_variable_names_by_function m) = length (mod_functions m)"
    by (simp add: frame_local_variable_names_by_function_def Let_def)
  have at: "module_frame_local_variable_names m k = frame_local_variable_names_by_function m ! k"
    if "k < length (mod_functions m)" for k
    using that by (simp add: module_frame_local_variable_names_def get_at_def len)
  have i: "i < length (mod_functions m)"
    using assms(1) by (auto simp: module_frame_local_variable_names_def get_at_def len split: if_splits)
  note I = assms(1) [unfolded at [OF i] frame_local_iff [OF i]]
  have own: "n \<in> owned_variable_names (?f k)"
    if "k < length (mod_functions m)" "n \<in> used_variable_names (?f k)" for k
    using I that candidate_used by blast
  have host: "\<not> is_host_shared_variable n"
    using I by (auto simp: frame_local_candidate_names_def Let_def split: if_splits)
  have "n \<in> module_frame_local_variable_names m j" if c: "n \<in> frame_local_candidate_names (?f j)"
  proof -
    have "\<not> is_builtin_entry_ir_function (fn_name (?f j))"
      using c by (auto simp: frame_local_candidate_names_def split: if_splits)
    then show ?thesis unfolding at [OF assms(2)] frame_local_iff [OF assms(2)] using I c own by blast
  qed
  with I own assms(2,3) host show ?thesis by blast
qed

definition counter :: "rstr \<Rightarrow> Function" where
  "counter f = (function_new f (BasicBlockId 0))\<lparr>fn_blocks :=
     [\<lparr>blk_id = BasicBlockId 0, blk_instructions = [StoreVar [120] (ValueId 0), LoadVar (ValueId 1) [120]],
       blk_terminator = Return (Some (ValueId 1))\<rparr>]\<rparr>"

theorem promotion_is_uniform_witness:
  "[120] \<in> module_frame_local_variable_names (module_new\<lparr>mod_functions := [counter [97], counter [98]]\<rparr>) 0 \<and>
   [120] \<in> module_frame_local_variable_names (module_new\<lparr>mod_functions := [counter [97], counter [98]]\<rparr>) 1"
proof -
  let ?m = "module_new\<lparr>mod_functions := [counter [97], counter [98]]\<rparr>"
  have "[120] \<in> module_frame_local_variable_names ?m 0" by code_simp
  moreover have "1 < length (mod_functions ?m)" "[120] \<in> used_variable_names (mod_functions ?m ! 1)"
    "[120] \<in> frame_local_candidate_names (mod_functions ?m ! 1)" by code_simp+
  ultimately show ?thesis using promotion_is_uniform [of "[120]" ?m 0 1] by blast
qed

end
