(* ===== verification/Cfg_Dominance.thy ===== *)
theory Cfg_Dominance
  imports Dominators_Tree
begin

text \<open>
  The second implementation of dominance, \<open>ControlFlowGraph::immediate_dominators\<close> and
  \<open>dominator_sets\<close>: the same iteration over the reverse post order of the graph, with an
  intersection that stops where the chain of immediate dominators ends. It is a second instance
  of the theory of dominance, and its sets agree with the interval queries.
\<close>

section \<open>The graph as a ranked flow graph\<close>

definition cfg_order :: "Function \<Rightarrow> BasicBlockId list" where
  \<comment> \<open>the reverse post order; the entry alone where it is not a block\<close>
  "cfg_order fn =
     (if bix (fn_entry fn) < length (fn_blocks fn)
      then (case cfg_build fn of Some g \<Rightarrow> cfg_reverse_post_order g | None \<Rightarrow> [])
      else [fn_entry fn])"

abbreviation cfg_nodes :: "Function \<Rightarrow> BasicBlockId set" where
  "cfg_nodes fn \<equiv> set (cfg_order fn)"

abbreviation cfg_rank :: "Function \<Rightarrow> BasicBlockId \<Rightarrow> nat" where
  "cfg_rank fn \<equiv> position (cfg_order fn)"

definition cfg_preds :: "Function \<Rightarrow> BasicBlockId \<Rightarrow> BasicBlockId set" where
  "cfg_preds fn b = {u \<in> cfg_nodes fn. (u, b) \<in> flow_edge fn}"

lemma cfg_order_facts:
  assumes "cfg_build fn = Some g" and "bix (fn_entry fn) < length (fn_blocks fn)"
  shows "cfg_order fn = cfg_reverse_post_order g" "distinct (cfg_order fn)"
    "cfg_nodes fn = {b. (fn_entry fn, b) \<in> (flow_edge fn)\<^sup>*}"
    "\<exists>xs. cfg_order fn = fn_entry fn # xs"
    "b \<in> cfg_nodes fn \<Longrightarrow> b \<noteq> fn_entry fn \<Longrightarrow> \<exists>u\<in>cfg_preds fn b. cfg_rank fn u < cfg_rank fn b"
    "b \<in> cfg_nodes fn \<Longrightarrow> bix b < length (fn_blocks fn)"
proof -
  show o: "cfg_order fn = cfg_reverse_post_order g" using assms by (simp add: cfg_order_def)
  note r = cfg_build_reachable [OF assms, folded o]
  show "distinct (cfg_order fn)" "cfg_nodes fn = {b. (fn_entry fn, b) \<in> (flow_edge fn)\<^sup>*}"
    using r(2,3) by simp_all
  show "\<exists>xs. cfg_order fn = fn_entry fn # xs"
  proof (cases "cfg_order fn")
    case Nil
    then show ?thesis using r(3) by auto
  next
    case (Cons c xs)
    then show ?thesis using r(4) [of "[]" c xs] by simp
  qed
  show "b \<in> cfg_nodes fn \<Longrightarrow> bix b < length (fn_blocks fn)"
    using r(3) assms(2) by (auto simp: flow_edge_def elim: rtranclE)
  assume b: "b \<in> cfg_nodes fn" "b \<noteq> fn_entry fn"
  then obtain xs ys where split: "cfg_order fn = xs @ b # ys" by (auto dest: split_list)
  obtain u where u: "u \<in> set xs" "(u, b) \<in> flow_edge fn" using r(4) [OF split] b(2) by blast
  have "b \<notin> set xs" using r(2) split by simp
  then have "cfg_rank fn b = length xs" unfolding split by (rule position_append)
  moreover have "cfg_rank fn u < length xs" unfolding split using u(1) by (rule position_in_prefix)
  moreover have "u \<in> cfg_preds fn b" using u split by (simp add: cfg_preds_def)
  ultimately show "\<exists>u\<in>cfg_preds fn b. cfg_rank fn u < cfg_rank fn b" by auto
qed

interpretation cfgd: ranked_flow "fn_entry fn" "cfg_nodes fn" "cfg_preds fn" "cfg_rank fn" for fn
proof
  obtain g where g: "cfg_build fn = Some g" using cfg_build_total by blast
  have entry: "\<exists>xs. cfg_order fn = fn_entry fn # xs"
    using cfg_order_facts(4) [OF g] by (cases "bix (fn_entry fn) < length (fn_blocks fn)") (auto simp: cfg_order_def)
  then show "fn_entry fn \<in> cfg_nodes fn" "cfg_rank fn (fn_entry fn) = 0" by (auto simp: position_def)
  show "inj_on (cfg_rank fn) (cfg_nodes fn)" by (rule position_inj)
  show "cfg_preds fn b \<subseteq> cfg_nodes fn" for b by (auto simp: cfg_preds_def)
  show "\<exists>u\<in>cfg_preds fn b. cfg_rank fn u < cfg_rank fn b" if "b \<in> cfg_nodes fn" "b \<noteq> fn_entry fn" for b
    using that cfg_order_facts(5) [OF g] by (cases "bix (fn_entry fn) < length (fn_blocks fn)") (auto simp: cfg_order_def)
qed simp

lemma walk_rtrancl: "(a, b) \<in> (flow_edge fn)\<^sup>* \<longleftrightarrow> (\<exists>p. flow_walk fn a p b)"
proof
  show "(a, b) \<in> (flow_edge fn)\<^sup>* \<Longrightarrow> \<exists>p. flow_walk fn a p b"
    by (induction rule: rtrancl_induct) (auto intro: flow_walk.intros)
  have "(a, b) \<in> (flow_edge fn)\<^sup>*" if "flow_walk fn a p b" for p
    using that by (induction rule: flow_walk.induct) (auto intro: rtrancl_into_rtrancl)
  then show "\<exists>p. flow_walk fn a p b \<Longrightarrow> (a, b) \<in> (flow_edge fn)\<^sup>*" by blast
qed

lemma cfg_walk_evades:
  assumes "cfg_build fn = Some g" and "bix (fn_entry fn) < length (fn_blocks fn)"
  shows "(\<exists>p. flow_walk fn (fn_entry fn) p b \<and> x \<notin> set p) \<longleftrightarrow> evades (fn_entry fn) (cfg_preds fn) x b"
proof
  note nodes = cfg_order_facts(3) [OF assms]
  have "x \<notin> set p \<longrightarrow> (a, b) \<in> (flow_edge fn)\<^sup>* \<and> evades a (cfg_preds fn) x b"
    if "flow_walk fn a p b" "a = fn_entry fn" for a p b
    using that
  proof (induction rule: flow_walk.induct)
    case (here a)
    then show ?case by (simp add: evades_def)
  next
    case (step a p b c)
    show ?case
    proof
      assume "x \<notin> set (p @ [c])"
      then have b: "(a, b) \<in> (flow_edge fn)\<^sup>*" "evades a (cfg_preds fn) x b" "x \<noteq> c" using step by auto
      then have "b \<in> cfg_preds fn c" using step.hyps(2) step.prems nodes by (simp add: cfg_preds_def)
      moreover have "b \<noteq> x" using b(2) cfgd.evades_self step.prems by blast
      ultimately show "(a, c) \<in> (flow_edge fn)\<^sup>* \<and> evades a (cfg_preds fn) x c"
        using b step.hyps(2) step.prems cfgd.evades_extend by (metis rtrancl.rtrancl_into_rtrancl)
    qed
  qed
  then show "\<exists>p. flow_walk fn (fn_entry fn) p b \<and> x \<notin> set p \<Longrightarrow> evades (fn_entry fn) (cfg_preds fn) x b" by blast
next
  assume "evades (fn_entry fn) (cfg_preds fn) x b"
  then have "(fn_entry fn, b) \<in> (avoiding (cfg_preds fn) x)\<^sup>*" "x \<noteq> fn_entry fn" by (simp_all add: evades_def)
  then show "\<exists>p. flow_walk fn (fn_entry fn) p b \<and> x \<notin> set p"
  proof (induction rule: rtrancl_induct)
    case base
    then show ?case using flow_walk.here by (metis empty_iff empty_set insert_iff list.simps(15))
  next
    case (step u v)
    then obtain p where "flow_walk fn (fn_entry fn) p u" "x \<notin> set p" by blast
    moreover have "(u, v) \<in> flow_edge fn" "v \<noteq> x" using step.hyps(2) by (auto simp: avoiding_def cfg_preds_def)
    ultimately have "flow_walk fn (fn_entry fn) (p @ [v]) v" "x \<notin> set (p @ [v])"
      using flow_walk.step by auto
    then show ?case by blast
  qed
qed

section \<open>Climbing and intersecting\<close>

definition block_table :: "idom_table \<Rightarrow> BasicBlockId table" where
  "block_table idom b = (case get_at idom (bix b) of None \<Rightarrow> None | Some d \<Rightarrow> d)"

abbreviation cfg_tree :: "Function \<Rightarrow> BasicBlockId table \<Rightarrow> bool" where
  "cfg_tree fn \<equiv> tree (fn_entry fn) (cfg_nodes fn) (cfg_preds fn) (cfg_rank fn)"

abbreviation cfg_sound :: "Function \<Rightarrow> BasicBlockId table \<Rightarrow> bool" where
  "cfg_sound fn \<equiv> sound (fn_entry fn) (cfg_nodes fn) (cfg_preds fn) (cfg_rank fn)"

abbreviation cfg_during :: "Function \<Rightarrow> BasicBlockId table \<Rightarrow> nat \<Rightarrow> BasicBlockId table \<Rightarrow> bool" where
  "cfg_during fn \<equiv> during (fn_entry fn) (cfg_nodes fn) (cfg_preds fn) (cfg_rank fn)"

definition block_ranks :: "Function \<Rightarrow> nat option list \<Rightarrow> bool" where
  "block_ranks fn order \<longleftrightarrow> (\<forall>b\<in>cfg_nodes fn. get_at order (bix b) = Some (Some (cfg_rank fn b)))"

lemma block_table_Some: "block_table idom b = Some d \<longleftrightarrow> get_at idom (bix b) = Some (Some d)"
  by (auto simp: block_table_def split: option.splits)

lemma block_table_nth: "bix b < length idom \<Longrightarrow> block_table idom b = idom ! bix b"
  by (simp add: block_table_def get_at_def)

lemma block_table_update: "bix b < length idom \<Longrightarrow> block_table (idom[bix b := x]) = (block_table idom)(b := x)"
  by (auto simp: block_table_def get_at_list_update fun_eq_iff bix_inj)

lemma block_climb:
  assumes "block_ranks fn order" and T: "cfg_tree fn (block_table idom)"
  shows "block_table idom x \<noteq> None \<longrightarrow>
    (\<exists>y. climb order idom x (Some k) = Some (Reached y) \<and> y \<in> anc (block_table idom) x \<and>
     cfg_rank fn y \<le> k \<and> (\<forall>z\<in>anc (block_table idom) x. cfg_rank fn z \<le> k \<longrightarrow> z \<in> anc (block_table idom) y))"
  using T
proof (induction x rule: cfgd.rank_induct)
  case entry
  have "get_at order (bix (fn_entry fn)) = Some (Some 0)"
    using assms(1) cfgd.entry unfolding block_ranks_def by simp
  then show ?case using cfgd.rank_entry by (simp add: climb.simps)
next
  case (other x d)
  note t = cfgd.treeD [OF T other.hyps(1)]
  have x: "get_at order (bix x) = Some (Some (cfg_rank fn x))" using assms(1) t(1) by (simp add: block_ranks_def)
  have d: "get_at idom (bix x) = Some (Some d)" using other.hyps(1) by (simp add: block_table_Some)
  have "d \<noteq> x" using t(4) other.hyps(2) by auto
  have step: "anc (block_table idom) x = insert x (anc (block_table idom) d)" using other.hyps(1) by (rule anc_step)
  show ?case
  proof (cases "cfg_rank fn x \<le> k")
    case True
    then show ?thesis using x by (simp add: climb.simps)
  next
    case False
    then have "climb order idom x (Some k) = climb order idom d (Some k)"
      using x d \<open>d \<noteq> x\<close> by (simp add: climb.simps)
    then show ?thesis using other.IH t(3) step False by auto
  qed
qed simp

lemma block_intersect:
  assumes R: "block_ranks fn order" and T: "cfg_tree fn (block_table idom)"
    and "block_table idom a \<noteq> None" "block_table idom b \<noteq> None"
  shows "\<exists>c. cfg_intersect order idom a b = Some c \<and> block_table idom c \<noteq> None \<and>
     anc (block_table idom) c = anc (block_table idom) a \<inter> anc (block_table idom) b"
  using assms(3,4)
proof (induction "cfg_rank fn a + cfg_rank fn b" arbitrary: a b rule: less_induct)
  case less
  let ?I = "block_table idom" and ?rk = "cfg_rank fn"
  show ?case
  proof (cases "a = b")
    case True
    then show ?thesis using less.prems by (simp add: cfg_intersect.simps)
  next
    case False
    have V: "a \<in> cfg_nodes fn" "b \<in> cfg_nodes fn" using cfgd.treeD(1) [OF T] less.prems by blast+
    obtain a' where a': "climb order idom a (Some (?rk b)) = Some (Reached a')" "a' \<in> anc ?I a" "?rk a' \<le> ?rk b"
      "\<forall>z\<in>anc ?I a. ?rk z \<le> ?rk b \<longrightarrow> z \<in> anc ?I a'"
      using block_climb [OF R T] less.prems(1) by blast
    obtain b' where b': "climb order idom b (Some (?rk a')) = Some (Reached b')" "b' \<in> anc ?I b" "?rk b' \<le> ?rk a'"
      "\<forall>z\<in>anc ?I b. ?rk z \<le> ?rk a' \<longrightarrow> z \<in> anc ?I b'"
      using block_climb [OF R T] less.prems(2) by blast
    note fa = cfgd.anc_facts [OF T a'(2) less.prems(1)]
    note fb = cfgd.anc_facts [OF T b'(2) less.prems(2)]
    note meet = cfgd.meet_after_climb [OF T less.prems a'(2,3,4) b'(2,4)]
    have "?rk a' + ?rk b' < ?rk a + ?rk b"
      by (rule cfgd.climb_progress [OF V False fa(4) fb(4) a'(3) b'(3)])
    then obtain c where c: "cfg_intersect order idom a' b' = Some c" "?I c \<noteq> None"
      "anc ?I c = anc ?I a' \<inter> anc ?I b'"
      using less.hyps [of a' b'] fa(1) fb(1) by blast
    have "cfg_intersect order idom a b = Some c"
      using R V fa(2) False a'(1) b'(1) c(1) by (subst cfg_intersect.simps) (simp add: block_ranks_def)
    then show ?thesis using c(2,3) meet by blast
  qed
qed

section \<open>Passes\<close>

definition cfg_match :: "Function \<Rightarrow> ControlFlowGraph \<Rightarrow> bool" where
  \<comment> \<open>what the passes rely on\<close>
  "cfg_match fn g \<longleftrightarrow>
     cfg_build fn = Some g \<and> bix (fn_entry fn) < length (fn_blocks fn) \<and> length (fn_blocks fn) \<le> 2 ^ 32"

lemma order_fold:
  "distinct xs \<Longrightarrow> \<forall>b\<in>set xs. bix b < length table \<Longrightarrow>
     length (fold (\<lambda>(position, b) table. table[bix b := Some position]) (enumerate k xs) table) = length table \<and>
     fold (\<lambda>(position, b) table. table[bix b := Some position]) (enumerate k xs) table ! bix b =
       (if b \<in> set xs then Some (k + position xs b) else table ! bix b)"
proof (induction xs arbitrary: k table)
  case (Cons x xs)
  then show ?case using Cons.IH [of "table[bix x := Some k]" "Suc k"]
    by (auto simp: position_def nth_list_update bix_inj)
qed (simp add: position_def)

lemma cfg_matchD:
  assumes "cfg_match fn g"
  shows "cfg_entry g = fn_entry fn" "block_count g = length (fn_blocks fn)"
    "cfg_reverse_post_order g = cfg_order fn" "block_ranks fn (cfg_order_index g)"
    "a \<in> set (predecessors g b) \<longleftrightarrow> (a, b) \<in> flow_edge fn"
    "cfg_is_reachable g b \<longleftrightarrow> b \<in> cfg_nodes fn"
proof -
  have m: "cfg_build fn = Some g" "bix (fn_entry fn) < length (fn_blocks fn)" "length (fn_blocks fn) \<le> 2 ^ 32"
    using assms by (simp_all add: cfg_match_def)
  note o = cfg_order_facts [OF m(1,2)]
  show rpo: "cfg_reverse_post_order g = cfg_order fn" using o(1) by simp
  show "cfg_entry g = fn_entry fn" "block_count g = length (fn_blocks fn)"
    using m(1) by (auto simp: block_count_def elim: cfg_buildE)
  have idx: "cfg_order_index g = order_index_table (length (fn_blocks fn)) (cfg_order fn)"
    using m(1) rpo by (auto elim!: cfg_buildE)
  have "\<forall>b\<in>cfg_nodes fn. bix b < length (replicate (length (fn_blocks fn)) (None :: nat option))" using o(6) by simp
  from order_fold [OF o(2) this, of 0] show "block_ranks fn (cfg_order_index g)"
    using o(6) by (auto simp: block_ranks_def idx order_index_table_def get_at_def)
  show "a \<in> set (predecessors g b) \<longleftrightarrow> (a, b) \<in> flow_edge fn" by (rule predecessors_iff(1) [OF m(1,3)])
  show "cfg_is_reachable g b \<longleftrightarrow> b \<in> cfg_nodes fn" using cfg_build_reachable(1) [OF m(1,2)] o(3) by simp
qed

lemma cfg_new_idom:
  assumes M: "cfg_match fn g" and T: "cfg_tree fn (block_table idom)"
    and len: "length idom = length (fn_blocks fn)"
    and "\<exists>p\<in>cfg_preds fn b. block_table idom p \<noteq> None"
  shows "\<exists>d. new_idom g idom b = Some (Some d) \<and> nearest (cfg_preds fn) (block_table idom) b d"
proof -
  note g = cfg_matchD [OF M]
  have "\<forall>p\<in>set (predecessors g b). get_at idom (bix p) = Some (block_table idom p)"
    using len by (auto simp: g(5) flow_edge_def get_at_def block_table_nth)
  moreover have "\<forall>p. block_table idom p \<noteq> None \<longrightarrow> (p \<in> set (predecessors g b) \<longleftrightarrow> p \<in> cfg_preds fn b)"
    using cfgd.treeD(1) [OF T] by (auto simp: g(5) cfg_preds_def)
  ultimately show ?thesis
    unfolding new_idom_def using assms(4)
    by (rule meet_fold_nearest [where X = "cfg_intersect (cfg_order_index g) idom" and L = "\<lambda>p. get_at idom (bix p)", rotated])
      (rule block_intersect [OF g(4) T])
qed

abbreviation idom_step :: "ControlFlowGraph \<Rightarrow> idom_table \<times> bool \<Rightarrow> BasicBlockId \<Rightarrow> (idom_table \<times> bool) option" where
  "idom_step g \<equiv> \<lambda>(idom, changed) block.
     if block = cfg_entry g then Some (idom, changed)
     else case new_idom g idom block of
       None \<Rightarrow> None
     | Some new \<Rightarrow>
         (case get_at idom (bix block) of
            None \<Rightarrow> None
          | Some old \<Rightarrow>
              if new \<noteq> None \<and> old \<noteq> new then Some (idom[bix block := new], True)
              else Some (idom, changed))"

lemma idom_fold:
  assumes M: "cfg_match fn g" and "cfg_order fn = done @ blocks"
    and "cfg_during fn (block_table start) (length done) (block_table idom)"
    and "length idom = length (fn_blocks fn)" "length start = length (fn_blocks fn)"
    and "changed \<longleftrightarrow> idom \<noteq> start"
  shows "\<exists>K changed'. fold_option (idom_step g) (idom, changed) blocks = Some (K, changed') \<and>
     length K = length (fn_blocks fn) \<and> (changed' \<longleftrightarrow> K \<noteq> start) \<and>
     cfg_during fn (block_table start) (length (cfg_order fn)) (block_table K)"
  using assms(2-4,6)
proof (induction blocks arbitrary: "done" idom changed)
  case Nil
  then show ?case by simp
next
  case (Cons b blocks)
  let ?I = "block_table start" and ?J = "block_table idom"
  note g = cfg_matchD [OF M]
  have m: "cfg_build fn = Some g" "bix (fn_entry fn) < length (fn_blocks fn)" using M by (simp_all add: cfg_match_def)
  note o = cfg_order_facts [OF m]
  have b: "b \<in> cfg_nodes fn" using Cons.prems(1) by simp
  have "b \<notin> set done" using o(2) Cons.prems(1) by simp
  then have rank: "cfg_rank fn b = length done" unfolding Cons.prems(1) by (rule position_append)
  have split: "cfg_order fn = (done @ [b]) @ blocks" using Cons.prems(1) by simp
  show ?case
  proof (cases "b = fn_entry fn")
    case True
    then have "length done = 0" using rank cfgd.rank_entry [of fn] by simp
    then have "cfg_during fn ?I (length (done @ [b])) ?J" using cfgd.during_entry Cons.prems(2) by simp
    then show ?thesis using Cons.IH [OF split _ Cons.prems(3,4)] True g(1) by simp
  next
    case False
    have dur: "cfg_during fn ?I (cfg_rank fn b) ?J" using Cons.prems(2) rank by simp
    have bl: "bix b < length idom" using b o(6) Cons.prems(3) by simp
    have T: "cfg_tree fn ?J" using dur by (simp add: during_def)
    obtain d where d: "new_idom g idom b = Some (Some d)" "nearest (cfg_preds fn) ?J b d"
      using cfg_new_idom [OF M T Cons.prems(3) cfgd.nearest_exists [OF dur b False]] by blast
    have upd: "cfg_during fn ?I (length (done @ [b])) (block_table (idom[bix b := Some d]))"
      using cfgd.during_step [OF dur b False d(2)] rank by (simp add: block_table_update [OF bl])
    have get: "get_at idom (bix b) = Some (idom ! bix b)" using bl by (simp add: get_at_def)
    have old: "start ! bix b = idom ! bix b"
      using dur bl block_table_nth [of b idom] block_table_nth [of b start] assms(5) Cons.prems(3)
      by (simp add: during_def)
    show ?thesis
    proof (cases "idom ! bix b = Some d")
      case True
      then have "idom[bix b := Some d] = idom" by (metis list_update_id)
      then show ?thesis using Cons.IH [OF split _ Cons.prems(3,4)] upd True False d(1) g(1) get by simp
    next
      case changed: False
      have "idom[bix b := Some d] ! bix b = Some d" using bl by simp
      then have "idom[bix b := Some d] \<noteq> start" using old changed by metis
      then show ?thesis
        using Cons.IH [OF split upd, of True] Cons.prems(3) changed False d(1) g(1) get by simp
    qed
  qed
qed

lemma block_table_inj:
  assumes "length xs = length ys" "length ys \<le> 2 ^ 32" "block_table xs = block_table ys" shows "xs = ys"
proof (rule nth_equalityI [OF assms(1)])
  fix i assume i: "i < length xs"
  then have "bix (block_at i) = i" using assms(1,2) by (simp add: bix_def block_at_def unat_u32_of_nat)
  then show "xs ! i = ys ! i"
    using block_table_nth [of "block_at i" xs] block_table_nth [of "block_at i" ys] i assms(1,3) by simp
qed

definition cfg_dominator_table :: "Function \<Rightarrow> BasicBlockId table \<Rightarrow> bool" where
  "cfg_dominator_table fn I \<longleftrightarrow> cfg_tree fn I \<and> (\<forall>b\<in>cfg_nodes fn. I b \<noteq> None) \<and>
     (\<forall>v\<in>cfg_nodes fn. \<forall>a. a \<in> anc I v \<longleftrightarrow> \<not> evades (fn_entry fn) (cfg_preds fn) a v)"

lemma idom_loop_step:
  assumes M: "cfg_match fn g" and S: "cfg_sound fn (block_table idom)"
    and len: "length idom = length (fn_blocks fn)"
  obtains K where "length K = length (fn_blocks fn)" "cfg_sound fn (block_table K)"
    "\<forall>b\<in>cfg_nodes fn. block_table K b \<noteq> None"
    "K \<noteq> idom \<Longrightarrow> \<forall>b\<in>cfg_nodes fn. block_table idom b \<noteq> None \<Longrightarrow>
       weight (cfg_nodes fn) (cfg_rank fn) (block_table K) < weight (cfg_nodes fn) (cfg_rank fn) (block_table idom)"
    "K = idom \<Longrightarrow> cfg_dominator_table fn (block_table K)"
    "idom_loop g idom = (if K \<noteq> idom then idom_loop g K else Some K)"
proof -
  have "cfg_during fn (block_table idom) (length ([] :: BasicBlockId list)) (block_table idom)"
    using cfgd.during_start [OF S] by simp
  from idom_fold [OF M _ this len len, of "cfg_order fn" False] obtain K changed where
    K: "idom_round g idom = Some (K, changed)" "length K = length (fn_blocks fn)" "changed \<longleftrightarrow> K \<noteq> idom"
    "cfg_during fn (block_table idom) (length (cfg_order fn)) (block_table K)"
    unfolding idom_round_def cfg_matchD(3) [OF M] by auto
  have "\<forall>b\<in>cfg_nodes fn. cfg_rank fn b < length (cfg_order fn)" by (simp add: position_less)
  note r = cfgd.round_end [OF S K(4) this]
  have ne: "block_table K \<noteq> block_table idom" if "K \<noteq> idom"
    using that block_table_inj [of K idom] K(2) len M by (auto simp: cfg_match_def)
  have dt: "cfg_dominator_table fn (block_table K)" if "K = idom"
    unfolding cfg_dominator_table_def using r(1,2) r(4) that by (auto simp: sound_def)
  show ?thesis
    by (rule that [OF K(2) r(1,2)]) (use r(3) ne dt K(1,3) in \<open>auto simp: idom_loop.simps\<close>)
qed

lemma idom_loop_from_full:
  assumes M: "cfg_match fn g" and "cfg_sound fn (block_table idom)"
    and "length idom = length (fn_blocks fn)" and "\<forall>b\<in>cfg_nodes fn. block_table idom b \<noteq> None"
  shows "\<exists>K. idom_loop g idom = Some K \<and> length K = length (fn_blocks fn) \<and> cfg_dominator_table fn (block_table K)"
  using assms(2-4)
proof (induction "weight (cfg_nodes fn) (cfg_rank fn) (block_table idom)" arbitrary: idom rule: less_induct)
  case less
  obtain K where K: "length K = length (fn_blocks fn)" "cfg_sound fn (block_table K)"
    "\<forall>b\<in>cfg_nodes fn. block_table K b \<noteq> None"
    "K \<noteq> idom \<Longrightarrow> weight (cfg_nodes fn) (cfg_rank fn) (block_table K) < weight (cfg_nodes fn) (cfg_rank fn) (block_table idom)"
    "K = idom \<Longrightarrow> cfg_dominator_table fn (block_table K)"
    "idom_loop g idom = (if K \<noteq> idom then idom_loop g K else Some K)"
    using idom_loop_step [OF M less.prems(1,2)] less.prems(3) by metis
  show ?case
  proof (cases "K = idom")
    case True
    then show ?thesis using K by auto
  next
    case False
    then show ?thesis using less.hyps [OF K(4) [OF False] K(2,1,3)] K(6) by simp
  qed
qed

lemma idom_loop_result:
  assumes M: "cfg_match fn g"
  shows "\<exists>K. idom_loop g ((replicate (length (fn_blocks fn)) None)[bix (fn_entry fn) := Some (fn_entry fn)]) = Some K \<and>
     length K = length (fn_blocks fn) \<and> cfg_dominator_table fn (block_table K)"
proof -
  let ?r = "fn_entry fn" and ?n = "length (fn_blocks fn)"
  let ?s = "(replicate ?n None)[bix ?r := Some ?r]"
  have r: "bix ?r < ?n" using M by (simp add: cfg_match_def)
  have "block_table (replicate ?n None) = Map.empty" by (auto simp: block_table_def get_at_def fun_eq_iff)
  then have "block_table ?s = [?r \<mapsto> ?r]" using r by (simp add: block_table_update)
  then have S: "cfg_sound fn (block_table ?s)" using cfgd.sound_start by simp
  have len: "length ?s = ?n" by simp
  from idom_loop_step [OF M S len] obtain K where K: "length K = ?n" "cfg_sound fn (block_table K)"
    "\<forall>b\<in>cfg_nodes fn. block_table K b \<noteq> None" "K = ?s \<Longrightarrow> cfg_dominator_table fn (block_table K)"
    "idom_loop g ?s = (if K \<noteq> ?s then idom_loop g K else Some K)"
    by metis
  show ?thesis
  proof (cases "K = ?s")
    case True
    then show ?thesis using K by auto
  next
    case False
    then show ?thesis using idom_loop_from_full [OF M K(2,1,3)] K(5) by simp
  qed
qed

section \<open>Immediate dominators and dominator sets\<close>

lemma immediate_dominators_table:
  assumes M: "cfg_match fn g"
  obtains K where "immediate_dominators g = Some (K[bix (fn_entry fn) := None])"
    "length K = length (fn_blocks fn)" "cfg_dominator_table fn (block_table K)"
proof -
  note g = cfg_matchD [OF M]
  have "bix (fn_entry fn) < length (fn_blocks fn)" using M by (simp add: cfg_match_def)
  moreover have "cfg_is_reachable g (fn_entry fn)" using g(6) cfgd.entry(1) by simp
  ultimately have "immediate_dominators g = map_option (\<lambda>idom. idom[bix (fn_entry fn) := None])
      (idom_loop g ((replicate (length (fn_blocks fn)) None)[bix (fn_entry fn) := Some (fn_entry fn)]))"
    by (auto simp: immediate_dominators_def Let_def g(1,2))
  then show ?thesis using idom_loop_result [OF M] that by auto
qed

lemma cfg_every_path:
  assumes "cfg_match fn g" and "cfg_dominator_table fn I" and "v \<in> cfg_nodes fn"
  shows "a \<in> anc I v \<longleftrightarrow> on_every_path fn a v"
proof -
  have "cfg_build fn = Some g" "bix (fn_entry fn) < length (fn_blocks fn)" using assms(1) by (simp_all add: cfg_match_def)
  from cfg_walk_evades [OF this, of v a] show ?thesis
    using assms(2,3) unfolding cfg_dominator_table_def on_every_path_def by blast
qed

lemma idom_chain_anc:
  assumes T: "cfg_tree fn (block_table K)" and "bix (fn_entry fn) < length K"
  shows "block_table K x \<noteq> None \<longrightarrow> acc \<inter> anc (block_table K) x = {} \<longrightarrow>
     idom_chain (K[bix (fn_entry fn) := None]) (Some x) acc = Some (acc \<union> anc (block_table K) x)"
  using T
proof (induction x arbitrary: acc rule: cfgd.rank_induct)
  case entry
  show ?case
    using assms(2) cfgd.anc_entry [OF T]
    by (simp add: idom_chain.simps [of _ "Some _"] idom_chain.simps [of _ None] get_at_def)
next
  case (other x d)
  have step: "anc (block_table K) x = insert x (anc (block_table K) d)" using other.hyps(1) by (rule anc_step)
  have d: "block_table K d \<noteq> None" by (rule cfgd.treeD(3) [OF T other.hyps(1)])
  have "x \<notin> anc (block_table K) d" using cfgd.anc_less(2) [OF T other.hyps] by blast
  moreover have "get_at (K[bix (fn_entry fn) := None]) (bix x) = Some (Some d)"
    using other.hyps by (simp add: get_at_list_update bix_inj block_table_Some)
  ultimately show ?case using other.IH [of "insert x acc"] d step
    by (auto simp: idom_chain.simps [of _ "Some x"])
qed simp

lemma fold_option_total: "(\<And>s x. x \<in> set xs \<Longrightarrow> f s x = Some (h x s)) \<Longrightarrow> fold_option f s xs = Some (fold h xs s)"
  by (induction xs arbitrary: s) simp_all

lemma fold_block_map:
  "n \<le> 2 ^ 32 \<Longrightarrow> fold (\<lambda>i sets. sets(block_at i \<mapsto> G i)) [0..<n] sets b =
     (if bix b < n then Some (G (bix b)) else sets b)"
proof (induction n)
  case (Suc n)
  have "bix (block_at n) = n" using Suc.prems by (simp add: bix_def block_at_def unat_u32_of_nat)
  then have "b = block_at n \<longleftrightarrow> bix b = n" by (metis bix_inj)
  then show ?case using Suc by (auto simp: less_Suc_eq)
qed simp

lemma dominator_sets_result:
  assumes M: "cfg_match fn g"
  shows "\<exists>sets. dominator_sets g = Some sets \<and>
     (\<forall>b. sets b = (if bix b < length (fn_blocks fn)
        then Some (if cfg_is_reachable g b then {a. on_every_path fn a b} else {b}) else None))"
proof -
  let ?n = "length (fn_blocks fn)" and ?r = "fn_entry fn"
  note g = cfg_matchD [OF M]
  have r: "bix ?r < ?n" "?n \<le> 2 ^ 32" using M by (simp_all add: cfg_match_def)
  obtain K where K: "immediate_dominators g = Some (K[bix ?r := None])" "length K = ?n"
    "cfg_dominator_table fn (block_table K)" using immediate_dominators_table [OF M] by blast
  have T: "cfg_tree fn (block_table K)" and full: "\<forall>b\<in>cfg_nodes fn. block_table K b \<noteq> None"
    using K(3) by (simp_all add: cfg_dominator_table_def)
  let ?G = "\<lambda>i. if cfg_is_reachable g (block_at i) then {a. on_every_path fn a (block_at i)} else {block_at i}"
  have id: "bix (block_at i) = i" if "i < ?n" for i
    using that r(2) by (simp add: bix_def block_at_def unat_u32_of_nat)
  have chain: "idom_chain (K[bix ?r := None]) (K[bix ?r := None] ! i) {block_at i} = Some {a. on_every_path fn a (block_at i)}"
    if i: "i < ?n" "block_at i \<in> cfg_nodes fn" for i
  proof -
    have every: "anc (block_table K) (block_at i) = {a. on_every_path fn a (block_at i)}"
      using cfg_every_path [OF M K(3) i(2)] by blast
    show ?thesis
    proof (cases "block_at i = ?r")
      case True
      then have "K[bix ?r := None] ! i = None" using id [OF i(1)] r(1) K(2) by simp
      moreover have "anc (block_table K) (block_at i) = {block_at i}" using cfgd.anc_entry [OF T] True by simp
      ultimately show ?thesis using every by (simp add: idom_chain.simps)
    next
      case False
      then have "bix ?r \<noteq> i" using id [OF i(1)] by (metis bix_inj)
      obtain d where d: "block_table K (block_at i) = Some d" using full i(2) by blast
      have at: "K[bix ?r := None] ! i = Some d"
        using d i(1) K(2) id [OF i(1)] \<open>bix ?r \<noteq> i\<close> block_table_nth [of "block_at i" K] by simp
      have "anc (block_table K) (block_at i) = insert (block_at i) (anc (block_table K) d)" using d by (rule anc_step)
      moreover have "block_at i \<notin> anc (block_table K) d" using cfgd.anc_less(2) [OF T d False] by blast
      ultimately show ?thesis
        using idom_chain_anc [OF T, of d "{block_at i}"] r(1) K(2) cfgd.treeD(3) [OF T d] at every by simp
    qed
  qed
  have "dominator_sets g = Some (fold (\<lambda>i sets. sets(block_at i \<mapsto> ?G i)) [0..<?n] Map.empty)"
    unfolding dominator_sets_def K(1) option.case g(2)
    by (rule fold_option_total) (auto simp: Let_def get_at_def K(2) g(6) chain)
  moreover have "fold (\<lambda>i sets. sets(block_at i \<mapsto> ?G i)) [0..<?n] Map.empty b =
      (if bix b < ?n then Some (if cfg_is_reachable g b then {a. on_every_path fn a b} else {b}) else None)" for b
  proof -
    have "block_at (bix b) = b" by (cases b) (simp add: bix_def block_at_def)
    then show ?thesis unfolding fold_block_map [OF r(2)] by simp
  qed
  ultimately show ?thesis by (intro exI [of _ "fold (\<lambda>i sets. sets(block_at i \<mapsto> ?G i)) [0..<?n] Map.empty"]) blast
qed

section \<open>Properties\<close>

text \<open>
  C13: The immediate dominators of the graph. For every reachable block but the entry the result
  names the one strict dominator that all other strict dominators dominate; the entry and
  unreachable blocks have none.
\<close>

theorem immediate_dominators_correct:
  assumes "cfg_build fn = Some g" and "bix (fn_entry fn) < length (fn_blocks fn)"
    and "length (fn_blocks fn) \<le> 2 ^ 32"
  shows "\<exists>idom. immediate_dominators g = Some idom \<and> length idom = length (fn_blocks fn) \<and>
    (\<forall>b. bix b < length (fn_blocks fn) \<longrightarrow>
       (if cfg_is_reachable g b \<and> b \<noteq> fn_entry fn
        then \<exists>d. idom ! bix b = Some d \<and> d \<noteq> b \<and> on_every_path fn d b \<and>
               (\<forall>a. a \<noteq> b \<longrightarrow> on_every_path fn a b \<longrightarrow> on_every_path fn a d)
        else idom ! bix b = None))"
proof -
  have M: "cfg_match fn g" using assms by (simp add: cfg_match_def)
  let ?n = "length (fn_blocks fn)" and ?r = "fn_entry fn"
  obtain K where K: "immediate_dominators g = Some (K[bix ?r := None])" "length K = ?n"
    "cfg_dominator_table fn (block_table K)" using immediate_dominators_table [OF M] by blast
  have T: "cfg_tree fn (block_table K)" and full: "\<forall>b\<in>cfg_nodes fn. block_table K b \<noteq> None"
    using K(3) by (simp_all add: cfg_dominator_table_def)
  note reach = cfg_matchD(6) [OF M] and every = cfg_every_path [OF M K(3)]
  have "\<exists>d. K ! bix b = Some d \<and> d \<noteq> b \<and> on_every_path fn d b \<and>
        (\<forall>a. a \<noteq> b \<longrightarrow> on_every_path fn a b \<longrightarrow> on_every_path fn a d)"
    if b: "b \<in> cfg_nodes fn" "b \<noteq> ?r" "bix b < ?n" for b
  proof -
    obtain d where d: "block_table K b = Some d" using full b(1) by blast
    note t = cfgd.treeD [OF T d]
    have step: "anc (block_table K) b = insert b (anc (block_table K) d)" using d by (rule anc_step)
    have "d \<noteq> b" using t(4) b(2) by auto
    moreover have "on_every_path fn d b" using every [OF b(1), of d] step by simp
    moreover have "on_every_path fn a d" if "a \<noteq> b" "on_every_path fn a b" for a
      using that every [OF b(1), of a] every [OF t(2), of a] step by simp
    moreover have "K ! bix b = Some d" using block_table_nth [of b K] b(3) K(2) d by simp
    ultimately show ?thesis by blast
  qed
  moreover have "K ! bix b = None" if "b \<notin> cfg_nodes fn" "bix b < ?n" for b
  proof -
    have "block_table K b = None" using that(1) cfgd.treeD(1) [OF T] by (meson option.exhaust)
    then show ?thesis using block_table_nth [of b K] that(2) K(2) by simp
  qed
  ultimately show ?thesis
    using K(1,2) reach assms(2) by (intro exI [of _ "K[bix ?r := None]"]) (auto simp: nth_list_update bix_inj)
qed

theorem immediate_dominators_correct_witness:
  "\<exists>g idom. cfg_build diamond = Some g \<and> immediate_dominators g = Some idom \<and> idom ! 0 = None"
proof -
  obtain g where g: "cfg_build diamond = Some g" using cfg_build_total by blast
  have "fn_entry diamond = BasicBlockId 0" by (simp add: diamond_def function_new_def)
  moreover have "bix (BasicBlockId 0) < length (fn_blocks diamond)" by (simp add: diamond_def bix_def)
  moreover have "bix (BasicBlockId 0) = 0" by (simp add: bix_def)
  ultimately show ?thesis
    using immediate_dominators_correct [OF g conjunct1 [OF sample_functions(1)] conjunct2 [OF sample_functions(1)]] g
    by (metis (no_types, lifting))
qed

text \<open>
  C7: The dominator sets of the graph and the interval queries are two implementations of one
  relation: the set of a reachable block holds exactly the blocks on every path to it, which are
  the blocks for which \<open>Dominators::dominates\<close> answers yes; an unreachable block has only itself.
\<close>

theorem dominator_sets_agree:
  assumes "cfg_build fn = Some g" and "length (fn_blocks fn) \<le> 2 ^ 32" and "dominators_compute fn = Some d"
  shows "\<exists>sets. dominator_sets g = Some sets \<and>
    (\<forall>a b. bix a < length (fn_blocks fn) \<longrightarrow> bix b < length (fn_blocks fn) \<longrightarrow>
       (\<exists>s. sets b = Some s \<and>
          (a \<in> s \<longleftrightarrow> (if dom_is_reachable d b then dominates d a b else a = b))))"
proof -
  have r: "bix (fn_entry fn) < length (fn_blocks fn)" by (rule compute_entry [OF assms(3)])
  have M: "cfg_match fn g" using assms(1,2) r by (simp add: cfg_match_def)
  obtain sets where sets: "dominator_sets g = Some sets"
    "\<forall>b. sets b = (if bix b < length (fn_blocks fn)
        then Some (if cfg_is_reachable g b then {a. on_every_path fn a b} else {b}) else None)"
    using dominator_sets_result [OF M] by blast
  have "cfg_is_reachable g b \<longleftrightarrow> dom_is_reachable d b"
    if "bix a < length (fn_blocks fn)" "bix b < length (fn_blocks fn)" for a b
    unfolding dominates_evades(2) [OF r assms(3) that] cfg_build_reachable(1) [OF assms(1) r] by (rule walk_rtrancl)
  then show ?thesis using sets dominates_evades(1) [OF r assms(3)] by (intro exI [of _ sets]) auto
qed

theorem dominator_sets_agree_witness:
  "\<exists>g d sets. cfg_build diamond = Some g \<and> dominators_compute diamond = Some d \<and> dominator_sets g = Some sets"
proof -
  obtain g where g: "cfg_build diamond = Some g" using cfg_build_total by blast
  obtain d where d: "dominators_compute diamond = Some d"
    using dominators_compute_result sample_functions(1) by blast
  from dominator_sets_agree [OF g conjunct2 [OF sample_functions(1)] d] g d show ?thesis by blast
qed

end
