(* ===== verification/Frontiers.thy ===== *)
theory Frontiers
  imports Cfg_Dominance
begin

text \<open>
  What the dominance frontiers and the children of the dominator tree are
  (\<open>dominance_frontiers\<close> and \<open>dominator_tree_children\<close> of \<open>wjsm-ir/src/cfg.rs\<close>), in terms of the
  table of immediate dominators whose ancestors are the dominators of a block.
\<close>

section \<open>The walk of one predecessor\<close>

definition beyond :: "BasicBlockId table \<Rightarrow> BasicBlockId option \<Rightarrow> BasicBlockId \<Rightarrow> BasicBlockId set" where
  \<comment> \<open>the blocks on the chain from \<open>runner\<close> before the chain of \<open>stop\<close>\<close>
  "beyond I stop runner = anc I runner - (case stop of None \<Rightarrow> {} | Some d \<Rightarrow> anc I d)"

definition mark_frontier ::
  "BasicBlockId \<Rightarrow> BasicBlockId set \<Rightarrow> BasicBlockId list list \<Rightarrow> BasicBlockId list list" where
  "mark_frontier b S F = map (\<lambda>i. if block_at i \<in> S then push_successor b (F ! i) else F ! i) [0..<length F]"

lemma length_mark [simp]: "length (mark_frontier b S F) = length F"
  by (simp add: mark_frontier_def)

lemma nth_mark: "i < length F \<Longrightarrow> mark_frontier b S F ! i = (if block_at i \<in> S then push_successor b (F ! i) else F ! i)"
  by (simp add: mark_frontier_def)

lemma mark_empty [simp]: "mark_frontier b {} F = F"
  by (simp add: mark_frontier_def map_nth)

lemma push_successor_idem [simp]: "push_successor b (push_successor b xs) = push_successor b xs"
  by (simp add: push_successor_def)

lemma mark_mark [simp]: "mark_frontier b S (mark_frontier b S' F) = mark_frontier b (S \<union> S') F"
  by (rule nth_equalityI) (simp_all add: nth_mark)

lemma block_at_bix [simp]: "block_at (bix b) = b"
  by (cases b) (simp add: bix_def block_at_def)

lemma bix_block_at: "i < n \<Longrightarrow> n \<le> 2 ^ 32 \<Longrightarrow> bix (block_at i) = i"
  by (simp add: bix_def block_at_def unat_u32_of_nat)

lemma mark_one:
  assumes "bix r < length F" "length F \<le> 2 ^ 32"
  shows "mark_frontier b {r} F = F[bix r := push_successor b (F ! bix r)]"
proof (rule nth_equalityI)
  fix i assume "i < length (mark_frontier b {r} F)"
  then have i: "i < length F" by simp
  then have "block_at i = r \<longleftrightarrow> i = bix r" using bix_block_at [OF i assms(2)] by auto
  then show "mark_frontier b {r} F ! i = F[bix r := push_successor b (F ! bix r)] ! i"
    using i by (auto simp: nth_mark)
qed simp

lemma run_frontier_marks:
  assumes M: "cfg_match fn g" and T: "cfg_tree fn (block_table K)" and K: "length K = length (fn_blocks fn)"
    and stop: "get_at (K[bix (fn_entry fn) := None]) (bix b) = Some stop"
  shows "block_table K r \<noteq> None \<longrightarrow> length F = length (fn_blocks fn) \<longrightarrow>
     (\<forall>d. stop = Some d \<longrightarrow> d \<in> anc (block_table K) r) \<longrightarrow>
     run_frontier g (K[bix (fn_entry fn) := None]) b r F = Some (mark_frontier b (beyond (block_table K) stop r) F)"
  using T
proof (induction r arbitrary: F rule: cfgd.rank_induct)
  case (absent r)
  then show ?case by simp
next
  case entry
  note g = cfg_matchD [OF M]
  have e: "bix (fn_entry fn) < length (fn_blocks fn)" "length (fn_blocks fn) \<le> 2 ^ 32"
    using M by (simp_all add: cfg_match_def)
  have r: "cfg_is_reachable g (fn_entry fn)" using g(6) cfgd.entry(1) by simp
  have a: "anc (block_table K) (fn_entry fn) = {fn_entry fn}" by (rule cfgd.anc_entry [OF T])
  show ?case
  proof (intro impI)
    assume F: "length F = length (fn_blocks fn)" and s: "\<forall>d. stop = Some d \<longrightarrow> d \<in> anc (block_table K) (fn_entry fn)"
    have old: "(if b \<in> set (F ! bix (fn_entry fn)) then F else F[bix (fn_entry fn) := F ! bix (fn_entry fn) @ [b]]) =
        mark_frontier b {fn_entry fn} F"
      using e F by (simp add: mark_one push_successor_def)
    show "run_frontier g (K[bix (fn_entry fn) := None]) b (fn_entry fn) F =
        Some (mark_frontier b (beyond (block_table K) stop (fn_entry fn)) F)"
      using s a e K F stop r old
      by (cases stop) (auto simp: run_frontier.simps beyond_def get_at_def Let_def)
  qed
next
  case (other r d')
  note g = cfg_matchD [OF M]
  have n: "length (fn_blocks fn) \<le> 2 ^ 32" using M by (simp add: cfg_match_def)
  have node: "r \<in> cfg_nodes fn" using cfgd.treeD(1) [OF T other.hyps(1)] .
  then have reach: "cfg_is_reachable g r" using g(6) by simp
  have up: "get_at (K[bix (fn_entry fn) := None]) (bix r) = Some (Some d')"
    using other.hyps by (simp add: get_at_list_update bix_inj block_table_Some)
  then have r: "bix r < length (fn_blocks fn)" using K by (simp add: get_at_Some_iff)
  have d': "block_table K d' \<noteq> None" by (rule cfgd.treeD(3) [OF T other.hyps(1)])
  have step: "anc (block_table K) r = insert r (anc (block_table K) d')" using other.hyps(1) by (rule anc_step)
  have new: "r \<notin> anc (block_table K) d'" using cfgd.anc_less(2) [OF T other.hyps] by blast
  show ?case
  proof (intro impI)
    assume F: "length F = length (fn_blocks fn)" and s: "\<forall>d. stop = Some d \<longrightarrow> d \<in> anc (block_table K) r"
    show "run_frontier g (K[bix (fn_entry fn) := None]) b r F = Some (mark_frontier b (beyond (block_table K) stop r) F)"
    proof (cases "stop = Some r")
      case True
      then show ?thesis using stop by (simp add: run_frontier.simps beyond_def)
    next
      case False
      have s': "\<forall>d. stop = Some d \<longrightarrow> d \<in> anc (block_table K) d'" using s step False by auto
      have "r \<notin> (case stop of None \<Rightarrow> {} | Some d \<Rightarrow> anc (block_table K) d)"
        using s' new anc_subset by (fastforce split: option.splits)
      then have split: "beyond (block_table K) stop r = beyond (block_table K) stop d' \<union> {r}"
        using step by (auto simp: beyond_def)
      have old: "(if b \<in> set (F ! bix r) then F else F[bix r := F ! bix r @ [b]]) = mark_frontier b {r} F"
        using r n F by (simp add: mark_one push_successor_def)
      have "run_frontier g (K[bix (fn_entry fn) := None]) b r F =
          run_frontier g (K[bix (fn_entry fn) := None]) b d' (mark_frontier b {r} F)"
        using stop reach up False r F old by (auto simp: run_frontier.simps [of _ _ _ r] get_at_def Let_def)
      also have "\<dots> = Some (mark_frontier b (beyond (block_table K) stop r) F)"
        using other.IH [of "mark_frontier b {r} F"] d' F s' split by simp
      finally show ?thesis .
    qed
  qed
qed

section \<open>All predecessors of a block, all blocks\<close>

definition joined_frontier :: "Function \<Rightarrow> ControlFlowGraph \<Rightarrow> BasicBlockId table \<Rightarrow> BasicBlockId \<Rightarrow> BasicBlockId set" where
  \<comment> \<open>the blocks whose frontier gets \<open>b\<close>\<close>
  "joined_frontier fn g I b =
     {x. 2 \<le> length (predecessors g b) \<and> (\<exists>p\<in>cfg_preds fn b. x \<in> anc I p) \<and> (x = b \<or> x \<notin> anc I b)}"

lemma mark_fold:
  assumes "\<And>p F. p \<in> set ps \<Longrightarrow> length F = n \<Longrightarrow> f F p = Some (mark_frontier b (S p) F)"
  shows "length F = n \<Longrightarrow> fold_option f F ps = Some (mark_frontier b (\<Union>p\<in>set ps. S p) F)"
  using assms
proof (induction ps arbitrary: F)
  case (Cons p ps)
  have "fold_option f F (p # ps) = fold_option f (mark_frontier b (S p) F) ps"
    using Cons.prems by simp
  also have "\<dots> = Some (mark_frontier b (\<Union>p\<in>set ps. S p) (mark_frontier b (S p) F))"
    by (rule Cons.IH) (simp_all add: Cons.prems)
  finally show ?case by (simp add: Un_commute)
qed simp

lemma run_frontier_unreachable:
  assumes "get_at idom (bix b) = Some stop" "\<not> cfg_is_reachable g r"
  shows "run_frontier g idom b r F = Some F"
  using assms by (simp add: run_frontier.simps)

definition tabled :: "Function \<Rightarrow> ControlFlowGraph \<Rightarrow> idom_table \<Rightarrow> bool" where
  \<comment> \<open>\<open>K\<close> holds the immediate dominators, the entry being its own\<close>
  "tabled fn g K \<longleftrightarrow> cfg_match fn g \<and> cfg_dominator_table fn (block_table K) \<and> length K = length (fn_blocks fn)"

lemma table_facts:
  assumes "tabled fn g K"
  shows "cfg_tree fn (block_table K)" "b \<in> cfg_nodes fn \<Longrightarrow> block_table K b \<noteq> None"
    "b \<in> cfg_nodes fn \<Longrightarrow> a \<in> anc (block_table K) b \<longleftrightarrow> \<not> evades (fn_entry fn) (cfg_preds fn) a b"
    "b \<in> cfg_nodes fn \<Longrightarrow> a \<in> anc (block_table K) b \<longleftrightarrow> on_every_path fn a b"
    "cfg_match fn g" "length K = length (fn_blocks fn)"
  using assms cfg_every_path [of fn g "block_table K"] unfolding tabled_def cfg_dominator_table_def by blast+

lemma node_bound:
  assumes "tabled fn g K" "b \<in> cfg_nodes fn" shows "bix b < length (fn_blocks fn)"
  using assms cfg_order_facts(6) unfolding tabled_def cfg_match_def by blast

lemma idom_at:
  assumes W: "tabled fn g K" and b: "b \<in> cfg_nodes fn"
  shows "get_at (K[bix (fn_entry fn) := None]) (bix b) =
    Some (if b = fn_entry fn then None else block_table K b)"
  using node_bound [OF W b] node_bound [OF W cfgd.entry(1)] table_facts(6) [OF W] block_table_nth [of b K]
  by (simp add: get_at_list_update bix_inj) (simp add: get_at_def)

lemma pred_anc:
  \<comment> \<open>what strictly dominates a block dominates its predecessors\<close>
  assumes W: "tabled fn g K" and b: "b \<in> cfg_nodes fn" "p \<in> cfg_preds fn b" "a \<in> anc (block_table K) b" "a \<noteq> b"
  shows "a \<in> anc (block_table K) p"
proof -
  have "p \<in> cfg_nodes fn" using b(2) by (simp add: cfg_preds_def)
  then show ?thesis using b cfgd.evades_pred table_facts(3) [OF W] by blast
qed

lemma idom_pred:
  assumes W: "tabled fn g K" and b: "b \<in> cfg_nodes fn" "b \<noteq> fn_entry fn" "block_table K b = Some d" "p \<in> cfg_preds fn b"
  shows "d \<in> anc (block_table K) p"
proof (rule pred_anc [OF W b(1,4)])
  show "d \<in> anc (block_table K) b" using anc_step [of "block_table K", OF b(3)] by simp
  show "d \<noteq> b" using cfgd.anc_less(2) [OF table_facts(1) [OF W] b(3,2) anc_refl] by blast
qed

lemma block_marks:
  assumes W: "tabled fn g K" and b: "b \<in> cfg_nodes fn" and F: "length F = length (fn_blocks fn)"
  shows "(if length (predecessors g b) < 2 then Some F
     else fold_option (\<lambda>F p. run_frontier g (K[bix (fn_entry fn) := None]) b p F) F (predecessors g b)) =
     Some (mark_frontier b (joined_frontier fn g (block_table K) b) F)"
proof (cases "length (predecessors g b) < 2")
  case True
  then show ?thesis by (simp add: joined_frontier_def)
next
  case False
  note M = table_facts(5) [OF W] and K = table_facts(6) [OF W]
  note g = cfg_matchD [OF M]
  let ?I = "block_table K"
  let ?stop = "if b = fn_entry fn then None else ?I b"
  let ?S = "\<lambda>p. if p \<in> cfg_nodes fn then beyond ?I ?stop p else {}"
  have "fold_option (\<lambda>F p. run_frontier g (K[bix (fn_entry fn) := None]) b p F) F (predecessors g b) =
      Some (mark_frontier b (\<Union>p\<in>set (predecessors g b). ?S p) F)"
  proof (rule mark_fold [OF _ F])
    fix p and G :: "BasicBlockId list list"
    assume p: "p \<in> set (predecessors g b)" and G: "length G = length (fn_blocks fn)"
    show "run_frontier g (K[bix (fn_entry fn) := None]) b p G = Some (mark_frontier b (?S p) G)"
    proof (cases "p \<in> cfg_nodes fn")
      case True
      then have "p \<in> cfg_preds fn b" using p g(5) by (simp add: cfg_preds_def)
      then have "\<forall>d. ?stop = Some d \<longrightarrow> d \<in> anc ?I p" using idom_pred [OF W] b by auto
      then show ?thesis
        using run_frontier_marks [OF M table_facts(1) [OF W] K idom_at [OF W b], of p G] table_facts(2) [OF W True] G True by simp
    next
      case False
      then show ?thesis using run_frontier_unreachable [OF idom_at [OF W b]] g(6) by simp
    qed
  qed
  moreover have "(\<Union>p\<in>set (predecessors g b). ?S p) = (\<Union>p\<in>cfg_preds fn b. beyond ?I ?stop p)"
    using g(5) by (auto simp: cfg_preds_def)
  moreover have "x \<in> beyond ?I ?stop p \<longleftrightarrow> x \<in> anc ?I p \<and> (x = b \<or> x \<notin> anc ?I b)" for x p
  proof (cases "b = fn_entry fn")
    case True
    then show ?thesis using cfgd.anc_entry [OF table_facts(1) [OF W]] by (auto simp: beyond_def)
  next
    case False
    obtain d where d: "?I b = Some d" using table_facts(2) [OF W b] by blast
    have "anc ?I b = insert b (anc ?I d)" "b \<notin> anc ?I d"
      using anc_step [of ?I, OF d] cfgd.anc_less(2) [OF table_facts(1) [OF W] d False] by blast+
    then show ?thesis using False d by (auto simp: beyond_def)
  qed
  then have "(\<Union>p\<in>cfg_preds fn b. beyond ?I ?stop p) = joined_frontier fn g ?I b"
    using False by (auto simp: joined_frontier_def)
  ultimately show ?thesis using False by simp
qed

lemma frontier_fold:
  assumes W: "tabled fn g K"
  shows "set bs \<subseteq> cfg_nodes fn \<Longrightarrow> length F = length (fn_blocks fn) \<Longrightarrow> \<forall>xs\<in>set F. distinct xs \<Longrightarrow>
   \<exists>F'. fold_option (\<lambda>F b. if length (predecessors g b) < 2 then Some F
       else fold_option (\<lambda>F p. run_frontier g (K[bix (fn_entry fn) := None]) b p F) F (predecessors g b)) F bs = Some F' \<and>
     length F' = length (fn_blocks fn) \<and> (\<forall>xs\<in>set F'. distinct xs) \<and>
     (\<forall>x. bix x < length (fn_blocks fn) \<longrightarrow>
        set (F' ! bix x) = set (F ! bix x) \<union> {b \<in> set bs. x \<in> joined_frontier fn g (block_table K) b})"
proof (induction bs arbitrary: F)
  case (Cons b bs)
  let ?J = "joined_frontier fn g (block_table K)"
  let ?F = "mark_frontier b (?J b) F"
  have d: "\<forall>xs\<in>set ?F. distinct xs" using Cons.prems(2,3) by (auto simp: mark_frontier_def)
  from Cons.IH [OF _ _ d] Cons.prems(1,2) obtain F' where
    F': "fold_option (\<lambda>F b. if length (predecessors g b) < 2 then Some F
       else fold_option (\<lambda>F p. run_frontier g (K[bix (fn_entry fn) := None]) b p F) F (predecessors g b)) ?F bs = Some F'"
      "length F' = length (fn_blocks fn)" "\<forall>xs\<in>set F'. distinct xs"
      "\<And>x. bix x < length (fn_blocks fn) \<Longrightarrow> set (F' ! bix x) = set (?F ! bix x) \<union> {b \<in> set bs. x \<in> ?J b}"
    by auto
  have "set (F' ! bix x) = set (F ! bix x) \<union> {c \<in> set (b # bs). x \<in> ?J c}" if "bix x < length (fn_blocks fn)" for x
    using F'(4) [OF that] that Cons.prems(2) by (auto simp: nth_mark)
  then show ?case using F'(1-3) block_marks [OF W, of b F] Cons.prems(1,2) by auto
qed simp

lemma frontiers_result:
  assumes W: "tabled fn g K"
  obtains fr where "dominance_frontiers g (K[bix (fn_entry fn) := None]) = Some fr"
    "length fr = length (fn_blocks fn)" "\<forall>xs\<in>set fr. distinct xs"
    "\<And>x. bix x < length (fn_blocks fn) \<Longrightarrow>
       set (fr ! bix x) = {b \<in> cfg_nodes fn. x \<in> joined_frontier fn g (block_table K) b}"
proof -
  note g = cfg_matchD [OF table_facts(5) [OF W]]
  have "\<forall>xs\<in>set (replicate (length (fn_blocks fn)) []). distinct xs" by simp
  from frontier_fold [OF W order_refl _ this] show ?thesis
    using that unfolding dominance_frontiers_def g(2,3) by fastforce
qed

section \<open>What a frontier is\<close>

definition in_frontier :: "Function \<Rightarrow> BasicBlockId \<Rightarrow> BasicBlockId \<Rightarrow> bool" where
  \<comment> \<open>\<open>x\<close> dominates a predecessor of \<open>b\<close> without strictly dominating \<open>b\<close>\<close>
  "in_frontier fn x b \<longleftrightarrow>
     (\<exists>p. (fn_entry fn, p) \<in> (flow_edge fn)\<^sup>* \<and> (p, b) \<in> flow_edge fn \<and> on_every_path fn x p) \<and>
     (x = b \<or> \<not> on_every_path fn x b)"

lemma cfg_preds_nodes: "p \<in> cfg_preds fn b \<Longrightarrow> p \<in> cfg_nodes fn"
  by (simp add: cfg_preds_def)

lemma single_pred:
  \<comment> \<open>the dominators of the only predecessor strictly dominate the block\<close>
  assumes W: "tabled fn g K" and b: "b \<in> cfg_nodes fn" "b \<noteq> fn_entry fn"
    and p: "cfg_preds fn b = {p}" and x: "x \<in> anc (block_table K) p"
  shows "x \<noteq> b" "x \<in> anc (block_table K) b"
proof -
  have pn: "p \<in> cfg_nodes fn" using p cfg_preds_nodes by blast
  have "cfg_rank fn p < cfg_rank fn b" using cfgd.ranked [OF b] p by auto
  moreover have "cfg_rank fn x \<le> cfg_rank fn p"
    using cfgd.anc_facts(4) [OF table_facts(1) [OF W] x table_facts(2) [OF W pn]] .
  ultimately show "x \<noteq> b" by auto
  show "x \<in> anc (block_table K) b"
  proof (rule ccontr)
    assume "x \<notin> anc (block_table K) b"
    then have e: "x \<noteq> fn_entry fn" "(fn_entry fn, b) \<in> (avoiding (cfg_preds fn) x)\<^sup>*"
      using table_facts(3) [OF W b(1)] by (auto simp: evades_def)
    from e(2) b(2) obtain u where "(fn_entry fn, u) \<in> (avoiding (cfg_preds fn) x)\<^sup>*" "u \<in> cfg_preds fn b"
      by (metis (no_types, lifting) avoiding_def case_prodD mem_Collect_eq rtranclE)
    then have "evades (fn_entry fn) (cfg_preds fn) x p" using e(1) p by (auto simp: evades_def)
    then show False using x table_facts(3) [OF W pn] by blast
  qed
qed

lemma in_frontier_anc:
  assumes W: "tabled fn g K" and b: "b \<in> cfg_nodes fn"
  shows "in_frontier fn x b \<longleftrightarrow>
    (\<exists>p\<in>cfg_preds fn b. x \<in> anc (block_table K) p) \<and> (x = b \<or> x \<notin> anc (block_table K) b)"
proof -
  have "cfg_nodes fn = {b. (fn_entry fn, b) \<in> (flow_edge fn)\<^sup>*}"
    using table_facts(5) [OF W] cfg_order_facts(3) unfolding cfg_match_def by blast
  then have preds: "p \<in> cfg_preds fn b \<longleftrightarrow> (fn_entry fn, p) \<in> (flow_edge fn)\<^sup>* \<and> (p, b) \<in> flow_edge fn" for p
    by (simp add: cfg_preds_def)
  show ?thesis
    using table_facts(4) [OF W b] table_facts(4) [OF W cfg_preds_nodes] preds unfolding in_frontier_def by blast
qed

lemma joined_frontier_iff:
  assumes W: "tabled fn g K" and b: "b \<in> cfg_nodes fn"
  shows "x \<in> joined_frontier fn g (block_table K) b \<longleftrightarrow>
    in_frontier fn x b \<and> (b = fn_entry fn \<longrightarrow> 2 \<le> length (predecessors g b))"
proof -
  note g = cfg_matchD [OF table_facts(5) [OF W]]
  have "2 \<le> length (predecessors g b)" if f: "in_frontier fn x b" "b \<noteq> fn_entry fn"
  proof (rule ccontr)
    assume "\<not> 2 \<le> length (predecessors g b)"
    moreover obtain p where p: "p \<in> cfg_preds fn b" "x \<in> anc (block_table K) p"
      using f in_frontier_anc [OF W b] by blast
    then have "p \<in> set (predecessors g b)" using g(5) by (simp add: cfg_preds_def)
    ultimately have "predecessors g b = [p]" by (cases "predecessors g b"; cases "tl (predecessors g b)") auto
    then have "\<forall>q. (q, b) \<in> flow_edge fn \<longrightarrow> q = p" using g(5) [of _ b] by simp
    then have "cfg_preds fn b = {p}" using p(1) by (auto simp: cfg_preds_def)
    from single_pred [OF W b f(2) this p(2)] show False using f in_frontier_anc [OF W b] by blast
  qed
  then show ?thesis using in_frontier_anc [OF W b] by (auto simp: joined_frontier_def)
qed

section \<open>The children of the dominator tree\<close>

lemma sort_key_set: "set (sort_key f xs) = set xs" "distinct (sort_key f xs) = distinct xs"
  by simp_all

lemma child_lists_fold:
  "k + length idom \<le> 2 ^ 32 \<Longrightarrow> \<forall>d. Some d \<in> set idom \<longrightarrow> bix d < length C \<Longrightarrow>
   length (fold (\<lambda>(index, parent) children.
      case parent of None \<Rightarrow> children | Some p \<Rightarrow> push_at (bix p) (block_at index) children) (enumerate k idom) C) = length C \<and>
   fold (\<lambda>(index, parent) children.
      case parent of None \<Rightarrow> children | Some p \<Rightarrow> push_at (bix p) (block_at index) children) (enumerate k idom) C ! i =
   C ! i @ map block_at (filter (\<lambda>j. \<exists>d. idom ! (j - k) = Some d \<and> bix d = i) [k..<k + length idom])"
proof (induction idom arbitrary: k C)
  case (Cons x idom)
  have shift: "filter (\<lambda>j. \<exists>d. (x # idom) ! (j - k) = Some d \<and> bix d = i) [Suc k..<Suc k + length idom] =
      filter (\<lambda>j. \<exists>d. idom ! (j - Suc k) = Some d \<and> bix d = i) [Suc k..<Suc k + length idom]"
    by (rule filter_cong) (auto simp: nth_Cons' Suc_diff_Suc)
  have range: "[k..<k + length (x # idom)] = k # [Suc k..<Suc k + length idom]"
    using upt_conv_Cons [of k "k + length (x # idom)"] by simp
  show ?case
  proof (cases x)
    case None
    then show ?thesis using Cons.IH [of "Suc k" C] Cons.prems shift range by simp
  next
    case (Some d)
    then have "bix d < length C" using Cons.prems(2) by simp
    then show ?thesis
      using Cons.IH [of "Suc k" "push_at (bix d) (block_at k) C"] Cons.prems shift range Some
      by (simp add: push_at_nth)
  qed
qed simp

lemma children_result:
  assumes W: "tabled fn g K"
  defines "C \<equiv> dominator_tree_children g (K[bix (fn_entry fn) := None])"
  shows "length C = length (fn_blocks fn)"
    "bix x < length (fn_blocks fn) \<Longrightarrow> distinct (C ! bix x)"
    "bix x < length (fn_blocks fn) \<Longrightarrow>
       set (C ! bix x) = {b \<in> cfg_nodes fn. b \<noteq> fn_entry fn \<and> block_table K b = Some x}"
proof -
  note M = table_facts(5) [OF W] and K = table_facts(6) [OF W] and T = table_facts(1) [OF W]
  note g = cfg_matchD [OF M]
  let ?n = "length (fn_blocks fn)" and ?e = "bix (fn_entry fn)"
  let ?L = "K[?e := None]"
  let ?P = "\<lambda>x j. \<exists>d. ?L ! j = Some d \<and> bix d = bix x"
  have n: "?n \<le> 2 ^ 32" and e: "?e < ?n" using M by (simp_all add: cfg_match_def)
  have entry: "?L ! j = Some d \<longleftrightarrow> block_at j \<noteq> fn_entry fn \<and> block_table K (block_at j) = Some d" if "j < ?n" for j d
  proof -
    have "bix (block_at j) = j" using bix_block_at [OF that n] .
    then have "block_at j = fn_entry fn \<longleftrightarrow> j = ?e" "block_table K (block_at j) = K ! j"
      using block_table_nth [of "block_at j" K] that K by (metis bix_inj, simp)
    then show ?thesis using that K e by (cases "j = ?e") auto
  qed
  have "bix d < ?n" if "Some d \<in> set ?L" for d
  proof -
    obtain j where "j < ?n" "?L ! j = Some d" using \<open>Some d \<in> set ?L\<close> K by (auto simp: in_set_conv_nth simp del: nth_list_update)
    then have "block_table K (block_at j) = Some d" using entry by blast
    then have "d \<in> cfg_nodes fn" by (rule cfgd.treeD(2) [OF T])
    then show ?thesis by (rule node_bound [OF W])
  qed
  then have targets: "\<forall>d. Some d \<in> set ?L \<longrightarrow> bix d < length (replicate ?n [])" by simp
  have "0 + length ?L \<le> 2 ^ 32" using n K by simp
  note F = child_lists_fold [OF this targets]
  show len: "length C = ?n" using conjunct1 [OF F] by (simp add: C_def dominator_tree_children_def g(2))
  {
    assume x: "bix x < ?n"
    have C: "C ! bix x = sort_key bid (map block_at (filter (?P x) [0..<?n]))"
      using conjunct2 [OF F, of "bix x"] len K x by (simp add: C_def dominator_tree_children_def g(2))
    have "inj_on block_at {i. i < ?n}" using bix_block_at n by (metis (mono_tags) inj_on_def mem_Collect_eq)
    then show "distinct (C ! bix x)" unfolding C
      by (auto simp: distinct_map intro: inj_on_subset)
    have "b \<in> set (C ! bix x) \<longleftrightarrow> b \<noteq> fn_entry fn \<and> block_table K b = Some x" for b
    proof
      assume "b \<in> set (C ! bix x)"
      then obtain j d where "b = block_at j" "j < ?n" "?L ! j = Some d" "bix d = bix x" unfolding C by (auto simp del: nth_list_update)
      then show "b \<noteq> fn_entry fn \<and> block_table K b = Some x" using entry bix_inj by metis
    next
      assume b: "b \<noteq> fn_entry fn \<and> block_table K b = Some x"
      then have "bix b < ?n" using node_bound [OF W cfgd.treeD(1) [OF T]] by blast
      then have "?P x (bix b)" using entry [of "bix b" x] b by (simp del: nth_list_update)
      then show "b \<in> set (C ! bix x)" using \<open>bix b < ?n\<close> unfolding C
        by (auto simp: image_iff simp del: nth_list_update intro: bexI [of _ "bix b"])
    qed
    then show "set (C ! bix x) = {b \<in> cfg_nodes fn. b \<noteq> fn_entry fn \<and> block_table K b = Some x}"
      using cfgd.treeD(1) [OF T] by blast
  }
qed

section \<open>Properties\<close>

text \<open>
  C14: The dominance frontiers. The computation succeeds, and the frontier of a block holds, once
  each, the reachable blocks of which it dominates a reachable predecessor without strictly
  dominating them. The entry block is the exception: it is put into frontiers only where it has
  two predecessors or more.
\<close>

theorem dominance_frontiers_correct:
  assumes "cfg_build fn = Some g" and "bix (fn_entry fn) < length (fn_blocks fn)"
    and "length (fn_blocks fn) \<le> 2 ^ 32"
  shows "\<exists>idom frontiers. immediate_dominators g = Some idom \<and> dominance_frontiers g idom = Some frontiers \<and>
    length frontiers = length (fn_blocks fn) \<and>
    (\<forall>x. bix x < length (fn_blocks fn) \<longrightarrow> distinct (frontiers ! bix x) \<and>
       set (frontiers ! bix x) = {b. cfg_is_reachable g b \<and> in_frontier fn x b \<and>
         (b = fn_entry fn \<longrightarrow> 2 \<le> length (predecessors g b))})"
proof -
  have M: "cfg_match fn g" using assms by (simp add: cfg_match_def)
  obtain K where K: "immediate_dominators g = Some (K[bix (fn_entry fn) := None])"
    "length K = length (fn_blocks fn)" "cfg_dominator_table fn (block_table K)"
    using immediate_dominators_table [OF M] by blast
  have W: "tabled fn g K" using M K by (simp add: tabled_def)
  obtain fr where fr: "dominance_frontiers g (K[bix (fn_entry fn) := None]) = Some fr"
    "length fr = length (fn_blocks fn)" "\<forall>xs\<in>set fr. distinct xs"
    "\<And>x. bix x < length (fn_blocks fn) \<Longrightarrow>
       set (fr ! bix x) = {b \<in> cfg_nodes fn. x \<in> joined_frontier fn g (block_table K) b}"
    using frontiers_result [OF W] by blast
  have "set (fr ! bix x) = {b. cfg_is_reachable g b \<and> in_frontier fn x b \<and>
         (b = fn_entry fn \<longrightarrow> 2 \<le> length (predecessors g b))}" if "bix x < length (fn_blocks fn)" for x
    using fr(4) [OF that] joined_frontier_iff [OF W] cfg_matchD(6) [OF M] by blast
  moreover have "distinct (fr ! bix x)" if "bix x < length (fn_blocks fn)" for x
    using fr(2,3) that by auto
  ultimately show ?thesis
    by (intro exI [of _ "K[bix (fn_entry fn) := None]"] exI [of _ fr]) (simp add: K(1) fr(1,2))
qed

theorem dominance_frontiers_correct_witness:
  "\<exists>g idom frontiers. cfg_build diamond = Some g \<and> immediate_dominators g = Some idom \<and>
     dominance_frontiers g idom = Some frontiers \<and> distinct (frontiers ! 1)"
proof -
  obtain g where g: "cfg_build diamond = Some g" using cfg_build_total by blast
  have "bix (BasicBlockId 1) < length (fn_blocks diamond)" "bix (BasicBlockId 1) = 1" by (simp_all add: diamond_def bix_def)
  with dominance_frontiers_correct [OF g conjunct1 [OF sample_functions(1)] conjunct2 [OF sample_functions(1)]] g
  show ?thesis by metis
qed

end
