(* ===== verification/Variable_Ssa.thy ===== *)
theory Variable_Ssa
  imports Frontiers
begin

text \<open>
  The SSA view of frame-local variables (\<open>wjsm-ir/src/variable_ssa.rs\<close>): for every \<open>LoadVar\<close> the
  definition that reaches it, with phi nodes at the iterated dominance frontier of the stores and a
  renaming walk over the dominator tree. The graph, its immediate dominators, frontiers and tree
  are those of \<open>cfg.rs\<close>. Vectors used as stacks are lists with the top first; a panic is \<open>None\<close>.
\<close>

section \<open>Definitions and nodes\<close>

datatype VarDef = VarValue ValueId | VarPhi u32 | VarEntry

record PhiNode =
  phi_node_variable :: rstr
  phi_node_sources :: "VarDef list"

record VariableSsa =
  ssa_loads :: "ValueId \<rightharpoonup> VarDef"
  ssa_phis :: "PhiNode list"

definition ssa_empty :: VariableSsa where
  "ssa_empty = \<lparr>ssa_loads = Map.empty, ssa_phis = []\<rparr>"

definition load_definition :: "VariableSsa \<Rightarrow> ValueId \<Rightarrow> VarDef option" where
  "load_definition ssa d = ssa_loads ssa d"

definition phi_sources :: "VariableSsa \<Rightarrow> u32 \<Rightarrow> VarDef list" where
  "phi_sources ssa p = (case get_at (ssa_phis ssa) (unat p) of None \<Rightarrow> [] | Some node \<Rightarrow> phi_node_sources node)"

definition phi_variable :: "VariableSsa \<Rightarrow> u32 \<Rightarrow> rstr option" where
  "phi_variable ssa p = map_option phi_node_variable (get_at (ssa_phis ssa) (unat p))"

definition phi_count :: "VariableSsa \<Rightarrow> nat" where
  "phi_count ssa = length (ssa_phis ssa)"

section \<open>Placing the phi nodes\<close>

fun stores_to :: "rstr \<Rightarrow> Instruction \<Rightarrow> bool" where
  "stores_to n (StoreVar m _) \<longleftrightarrow> m = n"
| "stores_to n _ \<longleftrightarrow> False"

definition defining_blocks :: "Function \<Rightarrow> ControlFlowGraph \<Rightarrow> rstr \<Rightarrow> BasicBlockId list" where
  "defining_blocks fn g n =
     map blk_id (filter (\<lambda>b. cfg_is_reachable g (blk_id b) \<and> list_ex (stores_to n) (blk_instructions b))
       (fn_blocks fn))"

type_synonym placement = "u32 option list \<times> PhiNode list \<times> BasicBlockId list \<times> BasicBlockId list"
  \<comment> \<open>\<open>phi_at\<close>, the nodes, \<open>defining_blocks\<close> and the worklist\<close>

definition place_at :: "rstr \<Rightarrow> placement \<Rightarrow> BasicBlockId \<Rightarrow> placement option" where
  \<comment> \<open>the body of the loop over the frontier of a block\<close>
  "place_at n = (\<lambda>(phi_at, phis, defining, worklist) f.
     case get_at phi_at (bix f) of
       None \<Rightarrow> None
     | Some (Some _) \<Rightarrow> Some (phi_at, phis, defining, worklist)
     | Some None \<Rightarrow>
         if 2 ^ 32 \<le> length phis then None
         else Some (phi_at[bix f := Some (of_nat (length phis))],
                    phis @ [\<lparr>phi_node_variable = n, phi_node_sources = []\<rparr>],
                    (if f \<in> set defining then defining else defining @ [f]),
                    (if f \<in> set defining then worklist else f # worklist)))"

partial_function (option) place_phis ::
  "rstr \<Rightarrow> BasicBlockId list list \<Rightarrow> placement \<Rightarrow> (u32 option list \<times> PhiNode list) option" where
  "place_phis n frontiers st =
     (case st of (phi_at, phis, defining, worklist) \<Rightarrow>
        (case worklist of
           [] \<Rightarrow> Some (phi_at, phis)
         | block # rest \<Rightarrow>
             Option.bind (get_at frontiers (bix block)) (\<lambda>fs.
             Option.bind (fold_option (place_at n) (phi_at, phis, defining, rest) fs) (\<lambda>st'.
             place_phis n frontiers st'))))"

declare place_phis.simps [code]

section \<open>Renaming\<close>

definition scan_instruction ::
  "rstr \<Rightarrow> VarDef \<times> (ValueId \<rightharpoonup> VarDef) \<Rightarrow> Instruction \<Rightarrow> VarDef \<times> (ValueId \<rightharpoonup> VarDef)" where
  "scan_instruction n = (\<lambda>(reaching, loads) i.
     case i of
       LoadVar d m \<Rightarrow> if m = n then (reaching, loads(d \<mapsto> reaching)) else (reaching, loads)
     | StoreVar m v \<Rightarrow> if m = n then (VarValue v, loads) else (reaching, loads)
     | _ \<Rightarrow> (reaching, loads))"

definition scan_block ::
  "rstr \<Rightarrow> Instruction list \<Rightarrow> VarDef \<Rightarrow> (ValueId \<rightharpoonup> VarDef) \<Rightarrow> VarDef \<times> (ValueId \<rightharpoonup> VarDef)" where
  "scan_block n is reaching loads = foldl (scan_instruction n) (reaching, loads) is"

partial_function (option) rename_loop ::
  "Function \<Rightarrow> rstr \<Rightarrow> u32 option list \<Rightarrow> BasicBlockId list list \<Rightarrow> (BasicBlockId \<times> VarDef \<times> bool) list \<Rightarrow>
   VarDef option list \<Rightarrow> (ValueId \<rightharpoonup> VarDef) \<Rightarrow> (VarDef option list \<times> (ValueId \<rightharpoonup> VarDef)) option" where
  "rename_loop fn n phi_at children stack current loads =
     (case stack of
        [] \<Rightarrow> Some (current, loads)
      | (block, incoming, processed) # stack \<Rightarrow>
          if processed then rename_loop fn n phi_at children stack current loads
          else
            Option.bind (get_at phi_at (bix block)) (\<lambda>phi.
            Option.bind (get_at (fn_blocks fn) (bix block)) (\<lambda>b.
            case scan_block n (blk_instructions b) (case phi of Some p \<Rightarrow> VarPhi p | None \<Rightarrow> incoming) loads of
              (reaching, loads) \<Rightarrow>
                Option.bind (set_at current (bix block) (Some reaching)) (\<lambda>current.
                Option.bind (get_at children (bix block)) (\<lambda>cs.
                rename_loop fn n phi_at children
                  (fold (\<lambda>c stack. (c, reaching, False) # stack) cs stack) current loads)))))"

declare rename_loop.simps [code]

definition phi_inputs :: "ControlFlowGraph \<Rightarrow> VarDef option list \<Rightarrow> BasicBlockId \<Rightarrow> VarDef list" where
  \<comment> \<open>a reachable predecessor is a block, so indexing \<open>current\<close> does not panic\<close>
  "phi_inputs g current b =
     map (\<lambda>p. case get_at current (bix p) of Some (Some d) \<Rightarrow> d | _ \<Rightarrow> VarEntry)
       (filter (cfg_is_reachable g) (predecessors g b))"

definition fill_sources ::
  "ControlFlowGraph \<Rightarrow> VarDef option list \<Rightarrow> u32 option list \<Rightarrow> PhiNode list \<Rightarrow> PhiNode list" where
  "fill_sources g current phi_at phis =
     fold (\<lambda>(index, phi) phis.
       case phi of
         None \<Rightarrow> phis
       | Some p \<Rightarrow> phis[unat p := (phis ! unat p)\<lparr>phi_node_sources := phi_inputs g current (block_at index)\<rparr>])
       (enumerate 0 phi_at) phis"

definition record_entry_loads ::
  "Function \<Rightarrow> ControlFlowGraph \<Rightarrow> rstr \<Rightarrow> (ValueId \<rightharpoonup> VarDef) \<Rightarrow> (ValueId \<rightharpoonup> VarDef)" where
  "record_entry_loads fn g n loads =
     foldl (\<lambda>loads b.
       if \<not> cfg_is_reachable g (blk_id b) then loads
       else foldl (\<lambda>loads i. case i of
              LoadVar d m \<Rightarrow> if m = n then loads(d \<mapsto> VarEntry) else loads
            | _ \<Rightarrow> loads) loads (blk_instructions b)) loads (fn_blocks fn)"

definition build_variable ::
  "Function \<Rightarrow> ControlFlowGraph \<Rightarrow> BasicBlockId list list \<Rightarrow> BasicBlockId list list \<Rightarrow> VariableSsa \<Rightarrow> rstr \<Rightarrow>
   VariableSsa option" where
  "build_variable fn g frontiers children ssa n =
     (let count = block_count g; defining = defining_blocks fn g n in
      if defining = [] then Some (ssa\<lparr>ssa_loads := record_entry_loads fn g n (ssa_loads ssa)\<rparr>)
      else
        Option.bind (place_phis n frontiers (replicate count None, ssa_phis ssa, defining, rev defining))
          (\<lambda>(phi_at, phis).
        Option.bind (rename_loop fn n phi_at children [(cfg_entry g, VarEntry, False)]
            (replicate count None) (ssa_loads ssa)) (\<lambda>(current, loads).
        Some \<lparr>ssa_loads = loads, ssa_phis = fill_sources g current phi_at phis\<rparr>)))"

definition variable_ssa_build :: "Function \<Rightarrow> rstr list \<Rightarrow> VariableSsa option" where
  \<comment> \<open>\<open>names\<close> in the iteration order of the set\<close>
  "variable_ssa_build fn names =
     (if names = [] \<or> fn_blocks fn = [] then Some ssa_empty
      else
        Option.bind (cfg_build fn) (\<lambda>g.
        Option.bind (immediate_dominators g) (\<lambda>idom.
        Option.bind (dominance_frontiers g idom) (\<lambda>frontiers.
        fold_option (build_variable fn g frontiers (dominator_tree_children g idom)) ssa_empty names))))"

end
