(* ===== verification/Ssa_Placement.thy ===== *)
theory Ssa_Placement
  imports Variable_Ssa
begin

text \<open>
  Where the phi nodes of a variable go: the worklist of \<open>build_variable\<close> ends, the blocks it
  marks are closed under the dominance frontier, and every mark owns one new node, whose
  sources the last loop fills in.
\<close>

section \<open>The placement as a list of blocks\<close>

abbreviation phi_node :: "rstr \<Rightarrow> VarDef list \<Rightarrow> PhiNode" where
  "phi_node n ds \<equiv> \<lparr>phi_node_variable = n, phi_node_sources = ds\<rparr>"

definition phi_table :: "nat \<Rightarrow> nat \<Rightarrow> BasicBlockId list \<Rightarrow> u32 option list" where
  \<comment> \<open>\<open>phi_at\<close> after the blocks \<open>os\<close> have got nodes, numbered from \<open>base\<close>\<close>
  "phi_table count base os =
     map (\<lambda>j. if block_at j \<in> set os then Some (of_nat (base + position os (block_at j))) else None) [0..<count]"

definition placed :: "rstr \<Rightarrow> nat \<Rightarrow> PhiNode list \<Rightarrow> BasicBlockId list \<Rightarrow> u32 option list \<times> PhiNode list" where
  "placed n count phis os = (phi_table count (length phis) os, phis @ replicate (length os) (phi_node n []))"

lemma length_phi_table [simp]: "length (phi_table count base os) = count"
  by (simp add: phi_table_def)

lemma phi_table_at:
  "bix b < count \<Longrightarrow> get_at (phi_table count base os) (bix b) =
     Some (if b \<in> set os then Some (of_nat (base + position os b)) else None)"
  by (simp add: phi_table_def get_at_def)

lemma phi_table_snoc:
  assumes "f \<notin> set os" "bix f < count" "count \<le> 2 ^ 32"
  shows "(phi_table count base os)[bix f := Some (of_nat (base + length os))] = phi_table count base (os @ [f])"
proof (rule nth_equalityI)
  fix j assume "j < length ((phi_table count base os)[bix f := Some (of_nat (base + length os))])"
  then have j: "j < count" by simp
  then have "block_at j = f \<longleftrightarrow> j = bix f" using bix_block_at [OF j assms(3)] by auto
  moreover have "position (os @ [f]) f = length os" using position_append [OF assms(1), of "[]"] by simp
  moreover have "position (os @ [f]) b = position os b" if "b \<in> set os" for b
    using that by (simp add: position_def takeWhile_append1)
  ultimately show "(phi_table count base os)[bix f := Some (of_nat (base + length os))] ! j = phi_table count base (os @ [f]) ! j"
    using j assms(2) by (auto simp: phi_table_def nth_list_update)
qed simp

lemma place_at_placed:
  assumes f: "bix f < count" and n: "count \<le> 2 ^ 32" and room: "length phis + length os < 2 ^ 32"
  shows "place_at n (case placed n count phis os of (a, p) \<Rightarrow> (a, p, defining, worklist)) f =
    Some (if f \<in> set os then (case placed n count phis os of (a, p) \<Rightarrow> (a, p, defining, worklist))
      else case placed n count phis (os @ [f]) of (a, p) \<Rightarrow>
        (a, p, if f \<in> set defining then defining else defining @ [f],
         if f \<in> set defining then worklist else f # worklist))"
proof (cases "f \<in> set os")
  case True
  then show ?thesis using f by (simp add: place_at_def placed_def phi_table_at)
next
  case False
  have "phis @ replicate (length os) (phi_node n []) @ [phi_node n []] =
      phis @ replicate (length (os @ [f])) (phi_node n [])"
    by (simp add: replicate_append_same)
  then show ?thesis
    using False f n room phi_table_snoc [OF False f n, of "length phis"]
    by (simp add: place_at_def placed_def phi_table_at)
qed

section \<open>The worklist\<close>

definition placement_state ::
  "rstr \<Rightarrow> nat \<Rightarrow> PhiNode list \<Rightarrow> BasicBlockId list \<Rightarrow> BasicBlockId list \<Rightarrow> BasicBlockId list \<Rightarrow> placement" where
  "placement_state n count phis os defining worklist =
     (case placed n count phis os of (a, p) \<Rightarrow> (a, p, defining, worklist))"

definition placement_inv ::
  "BasicBlockId set \<Rightarrow> BasicBlockId list \<Rightarrow> BasicBlockId list \<Rightarrow> BasicBlockId list \<Rightarrow> BasicBlockId list \<Rightarrow> bool" where
  \<comment> \<open>\<open>V\<close>: the blocks that may get a node\<close>
  "placement_inv V start os defining worklist \<longleftrightarrow>
     distinct os \<and> set os \<subseteq> V \<and> set defining = set start \<union> set os \<and> set worklist \<subseteq> set defining"

definition open_places :: "BasicBlockId set \<Rightarrow> BasicBlockId list \<Rightarrow> BasicBlockId list \<Rightarrow> nat" where
  \<comment> \<open>what the loop consumes: a new node is paid twice, once for its entry of the worklist\<close>
  "open_places V os worklist = 2 * (card V - length os) + length worklist"

lemma placement_room:
  assumes "placement_inv V start os defining worklist" "finite V" "f \<in> V" "f \<notin> set os"
  shows "length os < card V"
proof -
  have "distinct (f # os)" "set (f # os) \<subseteq> V" using assms by (auto simp: placement_inv_def)
  then have "length (f # os) \<le> card V" using assms(2) by (metis card_mono distinct_card)
  then show ?thesis by simp
qed

lemma place_one:
  assumes inv: "placement_inv V start os defining worklist" and V: "finite V" "\<forall>b\<in>V. bix b < count"
    and f: "f \<in> V" and room: "length phis + card V \<le> 2 ^ 32" "count \<le> 2 ^ 32"
  shows "\<exists>os' defining' worklist'. place_at n (placement_state n count phis os defining worklist) f =
      Some (placement_state n count phis os' defining' worklist') \<and>
    placement_inv V start os' defining' worklist' \<and> set os' = insert f (set os) \<and>
    open_places V os' worklist' \<le> open_places V os worklist \<and>
    set defining' - set worklist' \<subseteq> set defining - set worklist"
proof (cases "f \<in> set os")
  case True
  have "length os \<le> card V" using inv V(1) by (metis card_mono distinct_card placement_inv_def)
  have "place_at n (placement_state n count phis os defining worklist) f =
      Some (placement_state n count phis os defining worklist)"
    using True V f by (simp add: placement_state_def placed_def place_at_def phi_table_at)
  then show ?thesis using True inv by (intro exI [of _ os] exI [of _ defining] exI [of _ worklist]) auto
next
  case False
  have less: "length os < card V" by (rule placement_room [OF inv V(1) f False])
  have "bix f < count" using V(2) f by blast
  from place_at_placed [OF this room(2), of phis os n defining worklist] False room(1) less
  have "place_at n (placement_state n count phis os defining worklist) f =
      Some (placement_state n count phis (os @ [f]) (if f \<in> set defining then defining else defining @ [f])
        (if f \<in> set defining then worklist else f # worklist))"
    by (simp add: placement_state_def)
  moreover have "placement_inv V start (os @ [f]) (if f \<in> set defining then defining else defining @ [f])
        (if f \<in> set defining then worklist else f # worklist)"
    using inv f False by (auto simp: placement_inv_def)
  moreover have "open_places V (os @ [f]) (if f \<in> set defining then worklist else f # worklist) \<le> open_places V os worklist"
    using less by (auto simp: open_places_def)
  ultimately show ?thesis
    by (intro exI [of _ "os @ [f]"] exI [of _ "if f \<in> set defining then defining else defining @ [f]"]
        exI [of _ "if f \<in> set defining then worklist else f # worklist"]) auto
qed

lemma place_frontier:
  assumes V: "finite V" "\<forall>b\<in>V. bix b < count" and room: "length phis + card V \<le> 2 ^ 32" "count \<le> 2 ^ 32"
  shows "placement_inv V start os defining worklist \<Longrightarrow> set fs \<subseteq> V \<Longrightarrow>
   \<exists>os' defining' worklist'. fold_option (place_at n) (placement_state n count phis os defining worklist) fs =
      Some (placement_state n count phis os' defining' worklist') \<and>
    placement_inv V start os' defining' worklist' \<and> set os' = set fs \<union> set os \<and>
    open_places V os' worklist' \<le> open_places V os worklist \<and>
    set defining' - set worklist' \<subseteq> set defining - set worklist"
proof (induction fs arbitrary: os defining worklist)
  case (Cons f fs)
  have "f \<in> V" using Cons.prems(2) by simp
  from place_one [OF Cons.prems(1) V this room, of n] obtain os1 d1 w1 where
    1: "place_at n (placement_state n count phis os defining worklist) f = Some (placement_state n count phis os1 d1 w1)"
      "placement_inv V start os1 d1 w1" "set os1 = insert f (set os)"
      "open_places V os1 w1 \<le> open_places V os worklist" "set d1 - set w1 \<subseteq> set defining - set worklist" by blast
  have "set fs \<subseteq> V" using Cons.prems(2) by simp
  from Cons.IH [OF 1(2) this] obtain os2 d2 w2 where
    2: "fold_option (place_at n) (placement_state n count phis os1 d1 w1) fs = Some (placement_state n count phis os2 d2 w2)"
      "placement_inv V start os2 d2 w2" "set os2 = set fs \<union> set os1"
      "open_places V os2 w2 \<le> open_places V os1 w1" "set d2 - set w2 \<subseteq> set d1 - set w1" by blast
  show ?case
    using 1 2 by (intro exI [of _ os2] exI [of _ d2] exI [of _ w2]) auto
qed auto

lemma place_phis_run:
  assumes V: "finite V" "\<forall>b\<in>V. bix b < count" and room: "length phis + card V \<le> 2 ^ 32" "count \<le> 2 ^ 32"
    and fr: "length fr = count" "\<forall>fs\<in>set fr. set fs \<subseteq> V" and start: "\<forall>b\<in>set start. bix b < count"
  shows "placement_inv V start os defining worklist \<Longrightarrow>
   \<forall>x\<in>set defining - set worklist. set (fr ! bix x) \<subseteq> set os \<Longrightarrow>
   \<exists>os'. place_phis n fr (placement_state n count phis os defining worklist) = Some (placed n count phis os') \<and>
     distinct os' \<and> set os' \<subseteq> V \<and> (\<forall>x\<in>set start \<union> set os'. set (fr ! bix x) \<subseteq> set os')"
proof (induction "open_places V os worklist" arbitrary: os defining worklist rule: less_induct)
  case less
  obtain a p where ap: "placed n count phis os = (a, p)" by fastforce
  show ?case
  proof (cases worklist)
    case Nil
    have "place_phis n fr (placement_state n count phis os defining worklist) = Some (placed n count phis os)"
      by (simp add: place_phis.simps placement_state_def ap Nil)
    then show ?thesis using less.prems Nil unfolding placement_inv_def by auto
  next
    case (Cons b rest)
    have inv: "placement_inv V start os defining rest"
      using less.prems(1) Cons by (auto simp: placement_inv_def)
    have "bix b < count"
      using less.prems(1) Cons start V(2) by (auto simp: placement_inv_def)
    then have at: "get_at fr (bix b) = Some (fr ! bix b)" and sub: "set (fr ! bix b) \<subseteq> V"
      using fr by (simp_all add: get_at_def)
    from place_frontier [OF V room inv sub, of n] obtain os' d' w' where
      1: "fold_option (place_at n) (placement_state n count phis os defining rest) (fr ! bix b) =
          Some (placement_state n count phis os' d' w')"
        "placement_inv V start os' d' w'" "set os' = set (fr ! bix b) \<union> set os"
        "open_places V os' w' \<le> open_places V os rest" "set d' - set w' \<subseteq> set defining - set rest" by blast
    have "open_places V os' w' < open_places V os worklist"
      using 1(4) by (simp add: open_places_def Cons)
    moreover have "\<forall>x\<in>set d' - set w'. set (fr ! bix x) \<subseteq> set os'"
      using 1(3,5) less.prems(2) Cons by auto
    moreover have "place_phis n fr (placement_state n count phis os defining worklist) =
        place_phis n fr (placement_state n count phis os' d' w')"
    proof -
      have "placement_state n count phis os defining worklist = (a, p, defining, b # rest)"
        "placement_state n count phis os defining rest = (a, p, defining, rest)"
        by (simp_all add: placement_state_def ap Cons)
      then show ?thesis using at 1(1) by (simp add: place_phis.simps [of _ _ "(a, p, defining, b # rest)"])
    qed
    ultimately show ?thesis using less.hyps 1(2) by presburger
  qed
qed

lemma phi_placement:
  assumes V: "finite V" "\<forall>b\<in>V. bix b < count" and room: "length phis + card V \<le> 2 ^ 32" "count \<le> 2 ^ 32"
    and fr: "length fr = count" "\<forall>fs\<in>set fr. set fs \<subseteq> V" and start: "\<forall>b\<in>set start. bix b < count"
  obtains os where "place_phis n fr (replicate count None, phis, start, rev start) = Some (placed n count phis os)"
    "distinct os" "set os \<subseteq> V" "\<forall>x\<in>set start \<union> set os. set (fr ! bix x) \<subseteq> set os"
proof -
  have empty: "phi_table count base [] = replicate count None" for base
    by (rule nth_equalityI) (simp_all add: phi_table_def)
  have "placement_state n count phis [] start (rev start) = (replicate count None, phis, start, rev start)"
    by (simp add: placement_state_def placed_def empty)
  moreover have "placement_inv V start [] start (rev start)" by (simp add: placement_inv_def)
  ultimately show ?thesis
    using place_phis_run [OF V room fr start, of "[]" start "rev start" n] that by auto
qed

section \<open>The sources\<close>

definition sourced :: "rstr \<Rightarrow> (BasicBlockId \<Rightarrow> VarDef list) \<Rightarrow> PhiNode list \<Rightarrow> BasicBlockId list \<Rightarrow> PhiNode list" where
  \<comment> \<open>the nodes of a variable with their sources\<close>
  "sourced n inputs phis os = phis @ map (\<lambda>b. phi_node n (inputs b)) os"

lemma sourced_update:
  assumes os: "distinct os" "b \<in> set os" and f: "\<And>c. c \<noteq> b \<Longrightarrow> f' c = f c" and "h (phi_node n (f b)) = phi_node n (f' b)"
  shows "(sourced n f phis os)[length phis + position os b := h (sourced n f phis os ! (length phis + position os b))] =
    sourced n f' phis os"
proof -
  have "map (\<lambda>b. phi_node n (f' b)) os = (map (\<lambda>b. phi_node n (f b)) os)[position os b := phi_node n (f' b)]"
  proof (rule nth_equalityI)
    fix i assume "i < length (map (\<lambda>b. phi_node n (f' b)) os)"
    then have i: "i < length os" by simp
    then have "os ! i = b \<longleftrightarrow> i = position os b"
      using position_of_nth [OF os(1) i] position_nth [OF os(2)] by auto
    then show "map (\<lambda>b. phi_node n (f' b)) os ! i = (map (\<lambda>b. phi_node n (f b)) os)[position os b := phi_node n (f' b)] ! i"
      using i f [of "os ! i"] by (auto simp: nth_list_update)
  qed simp
  then show ?thesis
    using assms(4) position_less [OF os(2)] position_nth [OF os(2)]
    by (simp add: sourced_def nth_append list_update_append)
qed

lemma fill_prefix:
  assumes os: "distinct os" and n: "count \<le> 2 ^ 32" and room: "length phis + length os \<le> 2 ^ 32" and "c \<le> count"
  shows "fold (\<lambda>(index, phi) phis.
       case phi of
         None \<Rightarrow> phis
       | Some p \<Rightarrow> phis[unat p := (phis ! unat p)\<lparr>phi_node_sources := inputs (block_at index)\<rparr>])
     (enumerate 0 (take c (phi_table count (length phis) os))) (phis @ replicate (length os) (phi_node n [])) =
     sourced n (\<lambda>b. if bix b < c then inputs b else []) phis os"
  using \<open>c \<le> count\<close>
proof (induction c)
  case 0
  show ?case by (simp add: sourced_def map_replicate_const)
next
  case (Suc c)
  let ?T = "phi_table count (length phis) os"
  let ?f = "\<lambda>c b. if bix b < c then inputs b else []"
  have c: "c < count" "bix (block_at c) = c" using Suc.prems bix_block_at [of c count] n by simp_all
  have step: "enumerate 0 (take (Suc c) ?T) = enumerate 0 (take c ?T) @ [(c, ?T ! c)]"
    using c(1) by (simp add: take_Suc_conv_app_nth enumerate_append_eq)
  have other: "?f (Suc c) b = ?f c b" if "b \<noteq> block_at c" for b
  proof -
    have "bix b \<noteq> c" using that by auto
    then show ?thesis by (simp add: less_Suc_eq)
  qed
  show ?case
  proof (cases "block_at c \<in> set os")
    case True
    let ?p = "length phis + position os (block_at c)"
    have "?p < 2 ^ 32" using position_less [OF True] room by linarith
    then have p: "unat (of_nat ?p :: u32) = ?p" by (rule unat_u32_of_nat)
    have T: "?T ! c = Some (of_nat ?p)" using True c by (simp add: phi_table_def)
    have "(sourced n (?f c) phis os)[?p := (sourced n (?f c) phis os ! ?p)\<lparr>phi_node_sources := inputs (block_at c)\<rparr>] =
        sourced n (?f (Suc c)) phis os"
      by (rule sourced_update [OF os True]) (simp_all add: other c(2))
    then show ?thesis using Suc.IH Suc.prems by (simp add: step T p del: of_nat_add)
  next
    case False
    then have "?T ! c = None" using c by (simp add: phi_table_def)
    moreover have "sourced n (?f (Suc c)) phis os = sourced n (?f c) phis os"
    proof -
      have "?f (Suc c) b = ?f c b" if "b \<in> set os" for b by (rule other) (use False that in auto)
      then show ?thesis unfolding sourced_def by (simp cong: map_cong)
    qed
    ultimately show ?thesis using Suc.IH Suc.prems by (simp add: step)
  qed
qed

lemma fill_sources_placed:
  assumes "distinct os" "count \<le> 2 ^ 32" "length phis + length os \<le> 2 ^ 32" "\<forall>b\<in>set os. bix b < count"
    and "placed n count phis os = (phi_at, nodes)"
  shows "fill_sources g current phi_at nodes = sourced n (phi_inputs g current) phis os"
proof -
  have "phi_at = phi_table count (length phis) os" "nodes = phis @ replicate (length os) (phi_node n [])"
    using assms(5) by (auto simp: placed_def)
  moreover have "sourced n (\<lambda>b. if bix b < count then phi_inputs g current b else []) phis os = sourced n (phi_inputs g current) phis os"
    using assms(4) by (simp add: sourced_def)
  ultimately show ?thesis
    using fill_prefix [OF assms(1-3) order_refl, of "phi_inputs g current" n] by (simp add: fill_sources_def)
qed

end
