(* ===== verification/Ssa_Renaming.thy ===== *)
theory Ssa_Renaming
  imports Ssa_Placement
begin

text \<open>
  The renaming walk of \<open>build_variable\<close>: it ends, visits every reachable block once, and records
  for every load of the variable the definition that reaches it along the dominator tree.
\<close>

section \<open>The definition that reaches a point\<close>

abbreviation code_of :: "Function \<Rightarrow> BasicBlockId \<Rightarrow> Instruction list" where
  "code_of fn b \<equiv> blk_instructions (fn_blocks fn ! bix b)"

definition reach_step :: "rstr \<Rightarrow> VarDef \<Rightarrow> Instruction \<Rightarrow> VarDef" where
  "reach_step n r i = (case i of StoreVar m v \<Rightarrow> if m = n then VarValue v else r | _ \<Rightarrow> r)"

definition reaching :: "rstr \<Rightarrow> VarDef \<Rightarrow> Instruction list \<Rightarrow> VarDef" where
  "reaching n = foldl (reach_step n)"

lemma reaching_simps [simp]:
  "reaching n r [] = r" "reaching n r (xs @ [i]) = reach_step n (reaching n r xs) i"
  by (simp_all add: reaching_def)

lemma reaching_no_store: "\<not> list_ex (stores_to n) xs \<Longrightarrow> reaching n r xs = r"
proof (induction xs rule: rev_induct)
  case (snoc i xs)
  then show ?case by (cases i) (simp_all add: reach_step_def)
qed simp

lemma reaching_store: "list_ex (stores_to n) xs \<Longrightarrow> \<exists>i v. i < length xs \<and> xs ! i = StoreVar n v \<and> reaching n r xs = VarValue v"
proof (induction xs rule: rev_induct)
  case (snoc i xs)
  show ?case
  proof (cases "stores_to n i")
    case True
    then obtain v where "i = StoreVar n v" by (cases i) auto
    then show ?thesis by (intro exI [of _ "length xs"] exI [of _ v]) (simp add: reach_step_def)
  next
    case False
    then have "list_ex (stores_to n) xs" using snoc.prems by simp
    from snoc.IH [OF this] obtain k v where "k < length xs" "xs ! k = StoreVar n v" "reaching n r xs = VarValue v" by blast
    moreover have "reach_step n (VarValue v) i = VarValue v" using False by (cases i) (auto simp: reach_step_def)
    ultimately show ?thesis by (intro exI [of _ k] exI [of _ v]) (simp add: nth_append)
  qed
qed simp

lemma scan_snoc: "foldl (scan_instruction n) s (xs @ [i]) = scan_instruction n (foldl (scan_instruction n) s xs) i"
  by simp

lemma scan_result:
  assumes "\<forall>i < length is. \<forall>j < length is. \<forall>d. is ! i = LoadVar d n \<longrightarrow> is ! j = LoadVar d n \<longrightarrow> i = j"
  obtains l' where "scan_block n is r l = (reaching n r is, l')"
    "\<And>d. LoadVar d n \<notin> set is \<Longrightarrow> l' d = l d"
    "\<And>i d. i < length is \<Longrightarrow> is ! i = LoadVar d n \<Longrightarrow> l' d = Some (reaching n r (take i is))"
proof -
  have "\<exists>l'. scan_block n is r l = (reaching n r is, l') \<and> (\<forall>d. LoadVar d n \<notin> set is \<longrightarrow> l' d = l d) \<and>
      (\<forall>i < length is. \<forall>d. is ! i = LoadVar d n \<longrightarrow> l' d = Some (reaching n r (take i is)))"
    using assms
  proof (induction "is" rule: rev_induct)
    case (snoc x xs)
    have "\<forall>i < length xs. \<forall>j < length xs. \<forall>d. xs ! i = LoadVar d n \<longrightarrow> xs ! j = LoadVar d n \<longrightarrow> i = j"
      using snoc.prems by (metis length_append_singleton less_SucI nth_append)
    from snoc.IH [OF this] obtain l' where l': "scan_block n xs r l = (reaching n r xs, l')"
      "\<forall>d. LoadVar d n \<notin> set xs \<longrightarrow> l' d = l d"
      "\<forall>i < length xs. \<forall>d. xs ! i = LoadVar d n \<longrightarrow> l' d = Some (reaching n r (take i xs))" by blast
    show ?case
    proof (cases "\<exists>d. x = LoadVar d n")
      case True
      then obtain d where x: "x = LoadVar d n" by blast
      have new: "xs ! i \<noteq> LoadVar d n" if "i < length xs" for i
        using snoc.prems [rule_format, of i "length xs" d] that x by (auto simp: nth_append)
      have "scan_block n (xs @ [x]) r l = (reaching n r (xs @ [x]), l'(d \<mapsto> reaching n r xs))"
        using l'(1) x by (simp add: scan_block_def scan_instruction_def reach_step_def)
      then show ?thesis using l'(2,3) x new by (auto simp: nth_append less_Suc_eq)
    next
      case False
      then have "scan_block n (xs @ [x]) r l = (reaching n r (xs @ [x]), l')"
        using l'(1) by (cases x) (auto simp: scan_block_def scan_instruction_def reach_step_def)
      then show ?thesis using l'(2,3) False by (auto simp: nth_append less_Suc_eq)
    qed
  qed (simp add: scan_block_def)
  then show ?thesis using that by blast
qed

section \<open>The definitions along the dominator tree\<close>

type_synonym phi_map = "BasicBlockId \<Rightarrow> u32 option"

primrec out_to ::
  "Function \<Rightarrow> rstr \<Rightarrow> BasicBlockId table \<Rightarrow> phi_map \<Rightarrow> nat \<Rightarrow> BasicBlockId \<Rightarrow> VarDef" where
  "out_to fn n I \<phi> 0 b = VarEntry"
| "out_to fn n I \<phi> (Suc k) b =
     reaching n (case \<phi> b of Some p \<Rightarrow> VarPhi p
       | None \<Rightarrow> if b = fn_entry fn then VarEntry else out_to fn n I \<phi> k (the (I b))) (code_of fn b)"

definition def_out :: "Function \<Rightarrow> rstr \<Rightarrow> BasicBlockId table \<Rightarrow> phi_map \<Rightarrow> BasicBlockId \<Rightarrow> VarDef" where
  "def_out fn n I \<phi> b = out_to fn n I \<phi> (Suc (cfg_rank fn b)) b"

definition def_incoming :: "Function \<Rightarrow> rstr \<Rightarrow> BasicBlockId table \<Rightarrow> phi_map \<Rightarrow> BasicBlockId \<Rightarrow> VarDef" where
  \<comment> \<open>what the walk carries down to the block\<close>
  "def_incoming fn n I \<phi> b = (if b = fn_entry fn then VarEntry else def_out fn n I \<phi> (the (I b)))"

definition def_in :: "Function \<Rightarrow> rstr \<Rightarrow> BasicBlockId table \<Rightarrow> phi_map \<Rightarrow> BasicBlockId \<Rightarrow> VarDef" where
  "def_in fn n I \<phi> b = (case \<phi> b of Some p \<Rightarrow> VarPhi p | None \<Rightarrow> def_incoming fn n I \<phi> b)"

lemma out_to_stable:
  assumes "cfg_tree fn I"
  shows "I b \<noteq> None \<Longrightarrow> cfg_rank fn b < k \<Longrightarrow> cfg_rank fn b < k' \<Longrightarrow> out_to fn n I \<phi> k b = out_to fn n I \<phi> k' b"
proof (induction k arbitrary: k' b)
  case (Suc k)
  then obtain j where k': "k' = Suc j" by (cases k') auto
  have "out_to fn n I \<phi> k (the (I b)) = out_to fn n I \<phi> j (the (I b))" if "b \<noteq> fn_entry fn"
  proof -
    obtain d where d: "I b = Some d" using Suc.prems(1) by blast
    have "cfg_rank fn d < cfg_rank fn b" "I d \<noteq> None" using cfgd.treeD(3,4) [OF assms d] that by blast+
    then show ?thesis using Suc.IH [of d j] Suc.prems d k' by simp
  qed
  then show ?case using k' by (simp split: option.split)
qed simp

lemma def_out_in:
  assumes T: "cfg_tree fn I" and "I b \<noteq> None"
  shows "def_out fn n I \<phi> b = reaching n (def_in fn n I \<phi> b) (code_of fn b)"
proof -
  have "out_to fn n I \<phi> (cfg_rank fn b) (the (I b)) = def_out fn n I \<phi> (the (I b))" if "b \<noteq> fn_entry fn"
  proof -
    obtain d where d: "I b = Some d" using assms(2) by blast
    have "cfg_rank fn d < cfg_rank fn b" "I d \<noteq> None" using cfgd.treeD(3,4) [OF T d] that by blast+
    then show ?thesis using out_to_stable [OF T, of d "cfg_rank fn b" "Suc (cfg_rank fn d)" n \<phi>] d
      unfolding def_out_def by (metis lessI option.sel)
  qed
  then have "(if b = fn_entry fn then VarEntry else out_to fn n I \<phi> (cfg_rank fn b) (the (I b))) = def_incoming fn n I \<phi> b"
    by (simp add: def_incoming_def)
  moreover have "def_out fn n I \<phi> b = out_to fn n I \<phi> (Suc (cfg_rank fn b)) b" by (rule def_out_def)
  ultimately show ?thesis by (simp only: def_in_def out_to.simps)
qed

section \<open>The walk\<close>

definition loads_ok ::
  "Function \<Rightarrow> rstr \<Rightarrow> (BasicBlockId \<Rightarrow> VarDef) \<Rightarrow> BasicBlockId set \<Rightarrow> (ValueId \<rightharpoonup> VarDef) \<Rightarrow> (ValueId \<rightharpoonup> VarDef) \<Rightarrow> bool" where
  \<comment> \<open>the loads of \<open>n\<close> in the blocks \<open>V\<close> are recorded, and nothing else\<close>
  "loads_ok fn n d_in V l0 l \<longleftrightarrow>
     (\<forall>b\<in>V. \<forall>i < length (code_of fn b). \<forall>d. code_of fn b ! i = LoadVar d n \<longrightarrow>
        l d = Some (reaching n (d_in b) (take i (code_of fn b)))) \<and>
     (\<forall>d. (\<forall>b\<in>V. LoadVar d n \<notin> set (code_of fn b)) \<longrightarrow> l d = l0 d)"

definition one_load :: "Function \<Rightarrow> BasicBlockId set \<Rightarrow> bool" where
  \<comment> \<open>no value is loaded at two places\<close>
  "one_load fn V \<longleftrightarrow>
     (\<forall>b\<in>V. \<forall>c\<in>V. \<forall>i < length (code_of fn b). \<forall>j < length (code_of fn c). \<forall>d m n.
        code_of fn b ! i = LoadVar d m \<longrightarrow> code_of fn c ! j = LoadVar d n \<longrightarrow> b = c \<and> i = j)"

definition current_table :: "nat \<Rightarrow> (BasicBlockId \<Rightarrow> VarDef) \<Rightarrow> BasicBlockId set \<Rightarrow> VarDef option list" where
  "current_table count out V = map (\<lambda>j. if block_at j \<in> V then Some (out (block_at j)) else None) [0..<count]"

lemma current_table_set:
  assumes "bix b < count" "count \<le> 2 ^ 32"
  shows "set_at (current_table count out V) (bix b) (Some (out b)) = Some (current_table count out (insert b V))"
proof -
  have "(current_table count out V)[bix b := Some (out b)] = current_table count out (insert b V)"
  proof (rule nth_equalityI)
    fix j assume "j < length ((current_table count out V)[bix b := Some (out b)])"
    then have j: "j < count" by (simp add: current_table_def)
    then have "block_at j = b \<longleftrightarrow> j = bix b" using bix_block_at [OF j assms(2)] by auto
    then show "(current_table count out V)[bix b := Some (out b)] ! j = current_table count out (insert b V) ! j"
      using j assms(1) by (auto simp: current_table_def nth_list_update)
  qed (simp add: current_table_def)
  then show ?thesis using assms(1) by (simp add: set_at_def current_table_def)
qed

lemma loads_ok_visit:
  assumes one: "one_load fn W" and b: "b \<in> W" "V \<subseteq> W" "b \<notin> V" and ok: "loads_ok fn n d_in V l0 l"
  obtains l' where "scan_block n (code_of fn b) (d_in b) l = (reaching n (d_in b) (code_of fn b), l')"
    "loads_ok fn n d_in (insert b V) l0 l'"
proof -
  have "\<forall>i < length (code_of fn b). \<forall>j < length (code_of fn b). \<forall>d.
      code_of fn b ! i = LoadVar d n \<longrightarrow> code_of fn b ! j = LoadVar d n \<longrightarrow> i = j"
    using one b(1) unfolding one_load_def by blast
  then obtain l' where l': "scan_block n (code_of fn b) (d_in b) l = (reaching n (d_in b) (code_of fn b), l')"
    "\<And>d. LoadVar d n \<notin> set (code_of fn b) \<Longrightarrow> l' d = l d"
    "\<And>i d. i < length (code_of fn b) \<Longrightarrow> code_of fn b ! i = LoadVar d n \<Longrightarrow>
       l' d = Some (reaching n (d_in b) (take i (code_of fn b)))"
    by (rule scan_result [of "code_of fn b" n "d_in b" l]) blast
  have "l' d = l d" if "c \<in> V" "i < length (code_of fn c)" "code_of fn c ! i = LoadVar d n" for c i d
  proof (rule l'(2), rule notI)
    assume "LoadVar d n \<in> set (code_of fn b)"
    then obtain j where "j < length (code_of fn b)" "code_of fn b ! j = LoadVar d n" by (auto simp: in_set_conv_nth)
    then have "c = b" using one b that unfolding one_load_def by blast
    then show False using that(1) b(3) by blast
  qed
  then have "loads_ok fn n d_in (insert b V) l0 l'" using ok l'(2,3) unfolding loads_ok_def by auto
  then show ?thesis using that l'(1) by blast
qed

lemma stack_children: "fold (\<lambda>c stack. (c, r, False) # stack) cs stack = rev (map (\<lambda>c. (c, r, False)) cs) @ stack"
  by (induction cs arbitrary: stack) simp_all

definition stack_ok ::
  "Function \<Rightarrow> BasicBlockId table \<Rightarrow> (BasicBlockId \<Rightarrow> VarDef) \<Rightarrow> BasicBlockId set \<Rightarrow> (BasicBlockId \<times> VarDef \<times> bool) list \<Rightarrow> bool" where
  \<comment> \<open>the stack is the border of what has been visited\<close>
  "stack_ok fn I incoming V stack \<longleftrightarrow>
     V \<subseteq> cfg_nodes fn \<and> distinct (map fst stack) \<and> V \<inter> fst ` set stack = {} \<and> fst ` set stack \<subseteq> cfg_nodes fn \<and>
     (\<forall>(c, r, p)\<in>set stack. r = incoming c \<and> \<not> p) \<and>
     (\<forall>c\<in>V \<union> fst ` set stack. c \<noteq> fn_entry fn \<longrightarrow> the (I c) \<in> V) \<and>
     (\<forall>c\<in>cfg_nodes fn. c \<noteq> fn_entry fn \<longrightarrow> the (I c) \<in> V \<longrightarrow> c \<in> V \<union> fst ` set stack) \<and>
     fn_entry fn \<in> V \<union> fst ` set stack"

lemma stack_ok_visit:
  assumes W: "tabled fn g K" and ok: "stack_ok fn (block_table K) incoming V ((b, r, p) # stack)"
    and cs: "distinct cs" "set cs = {c \<in> cfg_nodes fn. c \<noteq> fn_entry fn \<and> block_table K c = Some b}"
    and r': "\<forall>c\<in>set cs. incoming c = r'"
  shows "stack_ok fn (block_table K) incoming (insert b V) (fold (\<lambda>c stack. (c, r', False) # stack) cs stack)"
proof -
  let ?I = "block_table K"
  have fresh: "c \<notin> V \<union> fst ` set ((b, r, p) # stack)" if "c \<in> set cs" for c
  proof
    assume "c \<in> V \<union> fst ` set ((b, r, p) # stack)"
    moreover have "c \<noteq> fn_entry fn" "?I c = Some b" using that cs(2) by auto
    moreover have "\<forall>c\<in>V \<union> fst ` set ((b, r, p) # stack). c \<noteq> fn_entry fn \<longrightarrow> the (?I c) \<in> V"
      using ok unfolding stack_ok_def by (elim conjE)
    ultimately have "b \<in> V" by fastforce
    then show False using ok unfolding stack_ok_def by auto
  qed
  have child: "c \<in> set cs" if c: "c \<in> cfg_nodes fn" "c \<noteq> fn_entry fn" "the (?I c) = b" for c
  proof -
    obtain d where "?I c = Some d" using table_facts(2) [OF W c(1)] by blast
    then show ?thesis using c cs(2) by simp
  qed
  have fsts: "fst ` set (fold (\<lambda>c stack. (c, r', False) # stack) cs stack) = set cs \<union> fst ` set stack"
    by (simp add: stack_children image_Un image_image)
  have dist: "distinct (map fst (fold (\<lambda>c stack. (c, r', False) # stack) cs stack))"
    using ok cs(1) fresh by (auto simp: stack_children stack_ok_def rev_map [symmetric] o_def)
  show ?thesis
    unfolding stack_ok_def fsts
  proof (intro conjI)
    show "distinct (map fst (fold (\<lambda>c stack. (c, r', False) # stack) cs stack))" by (rule dist)
    show "insert b V \<subseteq> cfg_nodes fn" using ok by (auto simp: stack_ok_def)
    show "insert b V \<inter> (set cs \<union> fst ` set stack) = {}" using ok fresh by (auto simp: stack_ok_def)
    show "set cs \<union> fst ` set stack \<subseteq> cfg_nodes fn" using ok cs(2) by (auto simp: stack_ok_def)
    show "\<forall>(c, r, p)\<in>set (fold (\<lambda>c stack. (c, r', False) # stack) cs stack). r = incoming c \<and> \<not> p"
      using ok r' by (auto simp: stack_ok_def stack_children)
    show "\<forall>c\<in>insert b V \<union> (set cs \<union> fst ` set stack). c \<noteq> fn_entry fn \<longrightarrow> the (?I c) \<in> insert b V"
      using ok cs(2) by (auto simp: stack_ok_def)
    show "\<forall>c\<in>cfg_nodes fn. c \<noteq> fn_entry fn \<longrightarrow> the (?I c) \<in> insert b V \<longrightarrow> c \<in> insert b V \<union> (set cs \<union> fst ` set stack)"
    proof (intro ballI impI)
      fix c assume c: "c \<in> cfg_nodes fn" "c \<noteq> fn_entry fn" "the (?I c) \<in> insert b V"
      have "\<forall>c\<in>cfg_nodes fn. c \<noteq> fn_entry fn \<longrightarrow> the (?I c) \<in> V \<longrightarrow> c \<in> V \<union> fst ` set ((b, r, p) # stack)"
        using ok unfolding stack_ok_def by (elim conjE)
      then show "c \<in> insert b V \<union> (set cs \<union> fst ` set stack)" using c child by (cases "the (?I c) = b") auto
    qed
    show "fn_entry fn \<in> insert b V \<union> (set cs \<union> fst ` set stack)" using ok by (auto simp: stack_ok_def)
  qed
qed

lemma rename_run:
  fixes n :: rstr and \<phi> :: phi_map
  assumes W: "tabled fn g K" and one: "one_load fn (cfg_nodes fn)"
    and phi: "\<And>b. b \<in> cfg_nodes fn \<Longrightarrow> get_at phi_at (bix b) = Some (\<phi> b)"
    and children: "C = dominator_tree_children g (K[bix (fn_entry fn) := None])"
  defines "out \<equiv> def_out fn n (block_table K) \<phi>"
  shows "stack_ok fn (block_table K) (def_incoming fn n (block_table K) \<phi>) V stack \<Longrightarrow>
    loads_ok fn n (def_in fn n (block_table K) \<phi>) V l0 l \<Longrightarrow>
    \<exists>l'. rename_loop fn n phi_at C stack (current_table (length (fn_blocks fn)) out V) l =
        Some (current_table (length (fn_blocks fn)) out (cfg_nodes fn), l') \<and>
      loads_ok fn n (def_in fn n (block_table K) \<phi>) (cfg_nodes fn) l0 l'"
proof (induction "card (cfg_nodes fn - V)" arbitrary: V stack l rule: less_induct)
  case less
  let ?I = "block_table K" and ?n = "length (fn_blocks fn)"
  have n: "?n \<le> 2 ^ 32" using table_facts(5) [OF W] by (simp add: cfg_match_def)
  show ?case
  proof (cases stack)
    case Nil
    have "c \<in> V" if "?I c \<noteq> None \<longrightarrow> c \<in> V" "c \<in> cfg_nodes fn" for c
      using that table_facts(2) [OF W that(2)] by blast
    moreover have "?I c \<noteq> None \<longrightarrow> c \<in> V" for c
      using table_facts(1) [OF W]
    proof (induction c rule: cfgd.rank_induct)
      case entry
      then show ?case using less.prems(1) Nil by (simp add: stack_ok_def)
    next
      case (other b d)
      then have "b \<in> cfg_nodes fn" "?I d \<noteq> None" using cfgd.treeD(1,3) [OF table_facts(1) [OF W]] by blast+
      then show ?case using less.prems(1) Nil other by (auto simp: stack_ok_def)
    qed simp
    ultimately have "cfg_nodes fn \<subseteq> V" by blast
    then have "V = cfg_nodes fn" using less.prems(1) by (auto simp: stack_ok_def)
    then show ?thesis using less.prems(2) Nil by (auto simp: rename_loop.simps)
  next
    case (Cons e rest)
    obtain b r p where e: "e = (b, r, p)" by (cases e)
    have ok: "stack_ok fn ?I (def_incoming fn n ?I \<phi>) V ((b, r, p) # rest)" using less.prems(1) Cons e by simp
    have b: "b \<in> cfg_nodes fn" "b \<notin> V" "r = def_incoming fn n ?I \<phi> b" "\<not> p" "V \<subseteq> cfg_nodes fn"
      using ok by (auto simp: stack_ok_def)
    have bound: "bix b < ?n" by (rule node_bound [OF W b(1)])
    have at: "get_at (fn_blocks fn) (bix b) = Some (fn_blocks fn ! bix b)" using bound by (simp add: get_at_def)
    have reach_in: "(case \<phi> b of Some p \<Rightarrow> VarPhi p | None \<Rightarrow> r) = def_in fn n ?I \<phi> b"
      unfolding def_in_def b(3) ..
    have out: "reaching n (def_in fn n ?I \<phi> b) (code_of fn b) = out b"
      unfolding out_def by (rule def_out_in [OF table_facts(1) [OF W] table_facts(2) [OF W b(1)], symmetric])
    obtain l1 where l1: "scan_block n (code_of fn b) (def_in fn n ?I \<phi> b) l = (out b, l1)"
      "loads_ok fn n (def_in fn n ?I \<phi>) (insert b V) l0 l1"
      using loads_ok_visit [OF one b(1,5,2) less.prems(2)] unfolding out by blast
    note kids = children_result [OF W, folded children]
    have cs: "distinct (C ! bix b)" "set (C ! bix b) = {c \<in> cfg_nodes fn. c \<noteq> fn_entry fn \<and> ?I c = Some b}"
      "get_at C (bix b) = Some (C ! bix b)"
      using kids(2,3) [OF bound] kids(1) bound by (simp_all add: get_at_def)
    have incoming: "\<forall>c\<in>set (C ! bix b). def_incoming fn n ?I \<phi> c = out b"
      using cs(2) by (simp add: def_incoming_def out_def)
    let ?stack = "fold (\<lambda>c stack. (c, out b, False) # stack) (C ! bix b) rest"
    have step: "rename_loop fn n phi_at C stack (current_table ?n out V) l =
        rename_loop fn n phi_at C ?stack (current_table ?n out (insert b V)) l1"
      using Cons e b(4) phi [OF b(1)] at reach_in l1(1) current_table_set [OF bound n] cs(3)
      by (simp add: rename_loop.simps [of _ _ _ _ "(b, r, False) # rest"])
    have "cfg_nodes fn - insert b V \<subset> cfg_nodes fn - V" using b(1,2) by blast
    then have "card (cfg_nodes fn - insert b V) < card (cfg_nodes fn - V)" by (simp add: psubset_card_mono)
    from less.hyps [OF this stack_ok_visit [OF W ok cs(1,2) incoming] l1(2)] step show ?thesis by simp
  qed
qed

end
