(* ===== verification/Ssa_Views.thy ===== *)
theory Ssa_Views
  imports Ssa_Renaming
begin

text \<open>
  What the result of \<open>build_variable\<close> says of its variable, without execution: the definition at
  the start of a block is the one at the end of all its predecessors, or a phi node whose sources
  are these; a definition that is a stored value comes from a store that dominates the block.
\<close>

section \<open>Views\<close>

definition view_entry ::
  "Function \<Rightarrow> ControlFlowGraph \<Rightarrow> VariableSsa \<Rightarrow> rstr \<Rightarrow> (u32 \<rightharpoonup> BasicBlockId) \<Rightarrow>
   (BasicBlockId \<Rightarrow> VarDef) \<Rightarrow> (BasicBlockId \<Rightarrow> VarDef) \<Rightarrow> BasicBlockId \<Rightarrow> bool" where
  \<comment> \<open>how the definition at the start of \<open>b\<close> joins those of the predecessors; \<open>place\<close> is where a phi node stands\<close>
  "view_entry fn g ssa n place d_in d_out b \<longleftrightarrow>
     (if b = fn_entry fn then d_in b = VarEntry
      else (\<forall>p\<in>cfg_preds fn b. d_out p = d_in b) \<and> (\<forall>q. d_in b = VarPhi q \<longrightarrow> (\<exists>c. place q = Some c \<and> c \<noteq> b)) \<or>
        (\<exists>q. d_in b = VarPhi q \<and> place q = Some b \<and> unat q < phi_count ssa \<and> phi_variable ssa q = Some n \<and>
           phi_sources ssa q = map d_out (filter (cfg_is_reachable g) (predecessors g b))))"

definition places_ok :: "Function \<Rightarrow> ControlFlowGraph \<Rightarrow> VariableSsa \<Rightarrow> rstr set \<Rightarrow> (u32 \<rightharpoonup> BasicBlockId) \<Rightarrow> bool" where
  \<comment> \<open>every phi node has one source per reachable predecessor of its block\<close>
  "places_ok fn g ssa names place \<longleftrightarrow>
     (\<forall>q c. place q = Some c \<longrightarrow> c \<in> cfg_nodes fn \<and> c \<noteq> fn_entry fn \<and> unat q < phi_count ssa \<and>
        (\<exists>n\<in>names. phi_variable ssa q = Some n) \<and>
        length (phi_sources ssa q) = length (filter (cfg_is_reachable g) (predecessors g c)))"

definition stored_above :: "Function \<Rightarrow> rstr \<Rightarrow> ValueId \<Rightarrow> BasicBlockId \<Rightarrow> bool" where
  "stored_above fn n v b \<longleftrightarrow>
     (\<exists>s\<in>cfg_nodes fn. s \<noteq> b \<and> on_every_path fn s b \<and> StoreVar n v \<in> set (code_of fn s))"

definition var_view ::
  "Function \<Rightarrow> ControlFlowGraph \<Rightarrow> VariableSsa \<Rightarrow> rstr \<Rightarrow> (u32 \<rightharpoonup> BasicBlockId) \<Rightarrow>
   (BasicBlockId \<Rightarrow> VarDef) \<Rightarrow> (BasicBlockId \<Rightarrow> VarDef) \<Rightarrow> bool" where
  "var_view fn g ssa n place d_in d_out \<longleftrightarrow>
     (\<forall>b\<in>cfg_nodes fn.
        d_out b = reaching n (d_in b) (code_of fn b) \<and>
        (\<forall>i < length (code_of fn b). \<forall>d. code_of fn b ! i = LoadVar d n \<longrightarrow>
           load_definition ssa d = Some (reaching n (d_in b) (take i (code_of fn b)))) \<and>
        view_entry fn g ssa n place d_in d_out b \<and>
        (\<forall>v. d_in b = VarValue v \<longrightarrow> stored_above fn n v b))"

definition ordered_ids :: "Function \<Rightarrow> bool" where
  "ordered_ids fn \<longleftrightarrow> (\<forall>k < length (fn_blocks fn). bix (blk_id (fn_blocks fn ! k)) = k)"

definition entry_has_no_edge :: "Function \<Rightarrow> bool" where
  \<comment> \<open>no block jumps to the entry\<close>
  "entry_has_no_edge fn \<longleftrightarrow> (\<forall>a. (a, fn_entry fn) \<notin> flow_edge fn)"

section \<open>Variables that are never stored\<close>

lemma entry_loads_block:
  "foldl (\<lambda>loads i. case i of LoadVar d m \<Rightarrow> if m = n then loads(d \<mapsto> VarEntry) else loads | _ \<Rightarrow> loads) l is d =
    (if LoadVar d n \<in> set is then Some VarEntry else l d)"
proof (induction "is" arbitrary: l)
  case (Cons i "is")
  show ?case by (cases i) (auto simp: Cons.IH)
qed simp

lemma entry_loads:
  "record_entry_loads fn g n l d =
    (if \<exists>b\<in>set (fn_blocks fn). cfg_is_reachable g (blk_id b) \<and> LoadVar d n \<in> set (blk_instructions b)
     then Some VarEntry else l d)"
proof -
  have "foldl (\<lambda>loads b. if \<not> cfg_is_reachable g (blk_id b) then loads
       else foldl (\<lambda>loads i. case i of LoadVar d m \<Rightarrow> if m = n then loads(d \<mapsto> VarEntry) else loads
            | _ \<Rightarrow> loads) loads (blk_instructions b)) l bs d =
     (if \<exists>b\<in>set bs. cfg_is_reachable g (blk_id b) \<and> LoadVar d n \<in> set (blk_instructions b) then Some VarEntry else l d)" for bs :: "BasicBlock list"
    by (induction bs arbitrary: l) (auto simp: entry_loads_block)
  then show ?thesis unfolding record_entry_loads_def .
qed

lemma node_block:
  assumes W: "tabled fn g K" and ids: "ordered_ids fn"
  shows "b \<in> cfg_nodes fn \<Longrightarrow> fn_blocks fn ! bix b \<in> set (fn_blocks fn) \<and> blk_id (fn_blocks fn ! bix b) = b"
    "c \<in> set (fn_blocks fn) \<Longrightarrow> cfg_is_reachable g (blk_id c) \<longleftrightarrow> blk_id c \<in> cfg_nodes fn"
    "c \<in> set (fn_blocks fn) \<Longrightarrow> fn_blocks fn ! bix (blk_id c) = c"
proof -
  show "fn_blocks fn ! bix b \<in> set (fn_blocks fn) \<and> blk_id (fn_blocks fn ! bix b) = b" if "b \<in> cfg_nodes fn"
    using node_bound [OF W that] ids by (metis bix_inj nth_mem ordered_ids_def)
  show "cfg_is_reachable g (blk_id c) \<longleftrightarrow> blk_id c \<in> cfg_nodes fn"
    using cfg_matchD(6) [OF table_facts(5) [OF W]] .
  show "fn_blocks fn ! bix (blk_id c) = c" if "c \<in> set (fn_blocks fn)"
    using that ids by (auto simp: in_set_conv_nth ordered_ids_def)
qed

lemma defining_iff:
  assumes W: "tabled fn g K" and ids: "ordered_ids fn"
  shows "set (defining_blocks fn g n) = {b \<in> cfg_nodes fn. list_ex (stores_to n) (code_of fn b)}"
  using node_block [OF W ids] by (fastforce simp: defining_blocks_def image_iff)

lemma entry_view:
  assumes W: "tabled fn g K" and ids: "ordered_ids fn" and none: "defining_blocks fn g n = []"
  shows "var_view fn g (ssa\<lparr>ssa_loads := record_entry_loads fn g n (ssa_loads ssa)\<rparr>) n place (\<lambda>_. VarEntry) (\<lambda>_. VarEntry)"
proof -
  have stores: "\<not> list_ex (stores_to n) (code_of fn b)" if "b \<in> cfg_nodes fn" for b
    using defining_iff [OF W ids, of n] none that by auto
  have prefix: "reaching n VarEntry (take i (code_of fn b)) = VarEntry" if "b \<in> cfg_nodes fn" for b i
    by (rule reaching_no_store) (use stores [OF that] in \<open>auto simp: list_ex_iff dest: in_set_takeD\<close>)
  have "record_entry_loads fn g n (ssa_loads ssa) d = Some VarEntry"
    if "b \<in> cfg_nodes fn" "i < length (code_of fn b)" "code_of fn b ! i = LoadVar d n" for b i d
  proof -
    have "LoadVar d n \<in> set (code_of fn b)" using that by (metis nth_mem)
    then show ?thesis using node_block [OF W ids] that(1) by (metis entry_loads)
  qed
  then show ?thesis
    using stores prefix reaching_no_store [of n _ VarEntry]
    by (simp add: var_view_def view_entry_def load_definition_def)
qed

section \<open>The joins of a placement\<close>

lemma chain_out:
  \<comment> \<open>between a block and its dominator \<open>d\<close>, without phi nodes and stores, the definition stays\<close>
  assumes T: "cfg_tree fn I"
  shows "I p \<noteq> None \<longrightarrow> d \<in> anc I p \<longrightarrow>
    (\<forall>x\<in>anc I p - anc I d. \<phi> x = None \<and> \<not> list_ex (stores_to n) (code_of fn x)) \<longrightarrow>
    def_out fn n I \<phi> p = def_out fn n I \<phi> d"
  using T
proof (induction p rule: cfgd.rank_induct)
  case entry
  then show ?case using cfgd.anc_entry [OF T] by auto
next
  case (other b c)
  show ?case
  proof (cases "b = d")
    case False
    have step: "anc I b = insert b (anc I c)" using other.hyps(1) by (rule anc_step)
    show ?thesis
    proof (intro impI)
      assume d: "d \<in> anc I b" and clean: "\<forall>x\<in>anc I b - anc I d. \<phi> x = None \<and> \<not> list_ex (stores_to n) (code_of fn x)"
      have dc: "d \<in> anc I c" using d False unfolding step by auto
      then have nb: "b \<notin> anc I d" using cfgd.anc_less(2) [OF T other.hyps] anc_subset [of d I c] by blast
      moreover have "b \<in> anc I b" by simp
      ultimately have b: "\<phi> b = None" "\<not> list_ex (stores_to n) (code_of fn b)" using clean by blast+
      have "def_out fn n I \<phi> b = def_in fn n I \<phi> b"
        using def_out_in [OF T, of b n \<phi>] other.hyps(1) reaching_no_store [OF b(2)] by simp
      also have "\<dots> = def_out fn n I \<phi> c" using b(1) other.hyps by (simp add: def_in_def def_incoming_def)
      also have "\<dots> = def_out fn n I \<phi> d"
      proof -
        have "\<forall>x\<in>anc I c - anc I d. \<phi> x = None \<and> \<not> list_ex (stores_to n) (code_of fn x)" using clean step by simp
        then show ?thesis using other.IH cfgd.treeD(3) [OF T other.hyps(1)] dc by simp
      qed
      finally show "def_out fn n I \<phi> b = def_out fn n I \<phi> d" .
    qed
  qed simp
qed simp

lemma chain_store:
  \<comment> \<open>a stored value reaches a block from a store in a strict dominator\<close>
  assumes T: "cfg_tree fn I"
  shows "I b \<noteq> None \<longrightarrow> def_in fn n I \<phi> b = VarValue v \<longrightarrow>
    (\<exists>s\<in>anc I b. s \<noteq> b \<and> StoreVar n v \<in> set (code_of fn s))"
  using T
proof (induction b rule: cfgd.rank_induct)
  case entry
  show ?case by (simp add: def_in_def def_incoming_def split: option.split)
next
  case (other b c)
  show ?case
  proof (intro impI)
    assume v: "def_in fn n I \<phi> b = VarValue v"
    have step: "anc I b = insert b (anc I c)" using other.hyps(1) by (rule anc_step)
    have c: "I c \<noteq> None" by (rule cfgd.treeD(3) [OF T other.hyps(1)])
    have new: "b \<notin> anc I c" using cfgd.anc_less(2) [OF T other.hyps] by blast
    have out: "reaching n (def_in fn n I \<phi> c) (code_of fn c) = VarValue v"
      using v other.hyps def_out_in [OF T c, of n \<phi>] by (auto simp: def_in_def def_incoming_def split: option.splits)
    show "\<exists>s\<in>anc I b. s \<noteq> b \<and> StoreVar n v \<in> set (code_of fn s)"
    proof (cases "list_ex (stores_to n) (code_of fn c)")
      case True
      from reaching_store [OF this, of "def_in fn n I \<phi> c"] out have "StoreVar n v \<in> set (code_of fn c)"
        by (metis VarDef.inject(1) nth_mem)
      then show ?thesis using step new by auto
    next
      case False
      then have "def_in fn n I \<phi> c = VarValue v" using out reaching_no_store [OF False] by simp
      then obtain s where "s \<in> anc I c" "StoreVar n v \<in> set (code_of fn s)" using other.IH c by blast
      then show ?thesis using step new by (intro bexI [of _ s]) auto
    qed
  qed
qed simp

lemma chain_phi:
  assumes T: "cfg_tree fn I"
  shows "I b \<noteq> None \<longrightarrow> def_in fn n I \<phi> b = VarPhi q \<longrightarrow> (\<exists>x. \<phi> x = Some q)"
  using T
proof (induction b rule: cfgd.rank_induct)
  case entry
  show ?case by (auto simp: def_in_def def_incoming_def split: option.split)
next
  case (other b c)
  have c: "I c \<noteq> None" by (rule cfgd.treeD(3) [OF T other.hyps(1)])
  show ?case
  proof (intro impI)
    assume q: "def_in fn n I \<phi> b = VarPhi q"
    show "\<exists>x. \<phi> x = Some q"
    proof (cases "\<phi> b")
      case None
      then have out: "reaching n (def_in fn n I \<phi> c) (code_of fn c) = VarPhi q"
        using q other.hyps def_out_in [OF T c, of n \<phi>] by (simp add: def_in_def def_incoming_def)
      then have "\<not> list_ex (stores_to n) (code_of fn c)"
        using reaching_store [of n "code_of fn c" "def_in fn n I \<phi> c"] by auto
      then show ?thesis using out other.IH c by (simp add: reaching_no_store)
    next
      case (Some p)
      then show ?thesis using q by (auto simp: def_in_def)
    qed
  qed
qed simp

section \<open>Building the view of one variable\<close>

definition ssa_ready :: "Function \<Rightarrow> ControlFlowGraph \<Rightarrow> idom_table \<Rightarrow> BasicBlockId list list \<Rightarrow> bool" where
  \<comment> \<open>what the construction relies on\<close>
  "ssa_ready fn g K frontiers \<longleftrightarrow> tabled fn g K \<and> ordered_ids fn \<and> one_load fn (cfg_nodes fn) \<and> entry_has_no_edge fn \<and>
     dominance_frontiers g (K[bix (fn_entry fn) := None]) = Some frontiers"

lemma ssa_readyD:
  assumes "ssa_ready fn g K frontiers"
  shows "tabled fn g K" "ordered_ids fn" "one_load fn (cfg_nodes fn)" "entry_has_no_edge fn"
    "length frontiers = length (fn_blocks fn)"
    "x \<in> cfg_nodes fn \<Longrightarrow> set (frontiers ! bix x) = {b \<in> cfg_nodes fn. b \<noteq> fn_entry fn \<and> in_frontier fn x b}"
    "\<forall>fs\<in>set frontiers. set fs \<subseteq> cfg_nodes fn - {fn_entry fn}"
proof -
  have W: "tabled fn g K" and e: "entry_has_no_edge fn"
    and F: "dominance_frontiers g (K[bix (fn_entry fn) := None]) = Some frontiers"
    using assms by (simp_all add: ssa_ready_def)
  show "tabled fn g K" "ordered_ids fn" "one_load fn (cfg_nodes fn)" "entry_has_no_edge fn"
    using assms by (simp_all add: ssa_ready_def)
  obtain fr where fr: "dominance_frontiers g (K[bix (fn_entry fn) := None]) = Some fr"
    "length fr = length (fn_blocks fn)" "\<forall>xs\<in>set fr. distinct xs"
    "\<And>x. bix x < length (fn_blocks fn) \<Longrightarrow>
       set (fr ! bix x) = {b \<in> cfg_nodes fn. x \<in> joined_frontier fn g (block_table K) b}"
    using frontiers_result [OF W] by blast
  have same: "fr = frontiers" using fr(1) F by simp
  show "length frontiers = length (fn_blocks fn)" using fr(2) same by simp
  have at: "set (frontiers ! bix x) = {b \<in> cfg_nodes fn. b \<noteq> fn_entry fn \<and> in_frontier fn x b}"
    if "bix x < length (fn_blocks fn)" for x
    using fr(4) [OF that] same joined_frontier_iff [OF W] e unfolding in_frontier_def entry_has_no_edge_def by blast
  show "x \<in> cfg_nodes fn \<Longrightarrow> set (frontiers ! bix x) = {b \<in> cfg_nodes fn. b \<noteq> fn_entry fn \<and> in_frontier fn x b}"
    using at node_bound [OF W] by blast
  show "\<forall>fs\<in>set frontiers. set fs \<subseteq> cfg_nodes fn - {fn_entry fn}"
  proof
    fix fs assume "fs \<in> set frontiers"
    then obtain j where j: "j < length (fn_blocks fn)" "frontiers ! j = fs" using fr(2) same by (auto simp: in_set_conv_nth)
    then have "bix (block_at j) = j" using bix_block_at table_facts(5) [OF W] by (auto simp: cfg_match_def)
    then show "set fs \<subseteq> cfg_nodes fn - {fn_entry fn}" using at [of "block_at j"] j by auto
  qed
qed

definition phi_numbers :: "nat \<Rightarrow> BasicBlockId list \<Rightarrow> phi_map" where
  "phi_numbers base os b = (if b \<in> set os then Some (of_nat (base + position os b)) else None)"

definition phi_places :: "nat \<Rightarrow> BasicBlockId list \<Rightarrow> u32 \<rightharpoonup> BasicBlockId" where
  "phi_places base os q = (if base \<le> unat q \<and> unat q < base + length os then Some (os ! (unat q - base)) else None)"

lemma phi_number_place:
  assumes "b \<in> set os" "base + length os \<le> 2 ^ 32"
  shows "unat (of_nat (base + position os b) :: u32) = base + position os b"
    "phi_places base os (of_nat (base + position os b)) = Some b"
proof -
  have p: "position os b < length os" "os ! position os b = b"
    using position_less [OF assms(1)] position_nth [OF assms(1)] .
  then show "unat (of_nat (base + position os b) :: u32) = base + position os b"
    using assms(2) by (intro unat_u32_of_nat) simp
  then show "phi_places base os (of_nat (base + position os b)) = Some b"
    using p by (simp add: phi_places_def del: of_nat_add)
qed

lemma joined_or_passed:
  \<comment> \<open>a block without a phi node gets the definition of its immediate dominator from every side\<close>
  assumes R: "ssa_ready fn g K frontiers" and b: "b \<in> cfg_nodes fn" "b \<noteq> fn_entry fn" "b \<notin> set os"
    and closed: "\<forall>x\<in>set (defining_blocks fn g n) \<union> set os. set (frontiers ! bix x) \<subseteq> set os"
    and p: "p \<in> cfg_preds fn b"
  shows "def_out fn n (block_table K) (phi_numbers base os) p = def_in fn n (block_table K) (phi_numbers base os) b"
proof -
  note R' = ssa_readyD [OF R]
  let ?I = "block_table K"
  note T = table_facts(1) [OF R'(1)]
  obtain d where d: "?I b = Some d" using table_facts(2) [OF R'(1) b(1)] by blast
  have pn: "?I p \<noteq> None" using table_facts(2) [OF R'(1)] cfg_preds_nodes [OF p] by blast
  have dp: "d \<in> anc ?I p" by (rule idom_pred [OF R'(1) b(1,2) d p])
  have step: "anc ?I b = insert b (anc ?I d)" using d by (rule anc_step)
  have "phi_numbers base os x = None \<and> \<not> list_ex (stores_to n) (code_of fn x)" if x: "x \<in> anc ?I p - anc ?I d" for x
  proof -
    have "x \<in> anc ?I p" using x by blast
    from cfgd.anc_facts(2) [OF T this pn] have node: "x \<in> cfg_nodes fn" .
    have "in_frontier fn x b" using in_frontier_anc [OF R'(1) b(1), of x] x p step by blast
    then have "b \<in> set (frontiers ! bix x)" using R'(6) [OF node] b(1,2) by simp
    then have "x \<notin> set (defining_blocks fn g n) \<union> set os" using closed b(3) by blast
    then show ?thesis using defining_iff [OF R'(1,2), of n] node by (simp add: phi_numbers_def)
  qed
  then have "def_out fn n ?I (phi_numbers base os) p = def_out fn n ?I (phi_numbers base os) d"
    using chain_out [OF T, of p d "phi_numbers base os" n] pn dp by blast
  then show ?thesis using b d by (simp add: def_in_def def_incoming_def phi_numbers_def)
qed

lemma placed_view:
  assumes R: "ssa_ready fn g K frontiers"
    and os: "distinct os" "set os \<subseteq> cfg_nodes fn - {fn_entry fn}" "length (ssa_phis ssa) + length os \<le> 2 ^ 32"
    and closed: "\<forall>x\<in>set (defining_blocks fn g n) \<union> set os. set (frontiers ! bix x) \<subseteq> set os"
    and loads: "loads_ok fn n (def_in fn n (block_table K) (phi_numbers (length (ssa_phis ssa)) os)) (cfg_nodes fn) l0 l"
  defines "d_in \<equiv> def_in fn n (block_table K) (phi_numbers (length (ssa_phis ssa)) os)"
    and "d_out \<equiv> def_out fn n (block_table K) (phi_numbers (length (ssa_phis ssa)) os)"
  shows "var_view fn g \<lparr>ssa_loads = l,
      ssa_phis = sourced n (phi_inputs g (current_table (length (fn_blocks fn)) d_out (cfg_nodes fn))) (ssa_phis ssa) os\<rparr>
    n (phi_places (length (ssa_phis ssa)) os) d_in d_out"
  unfolding var_view_def
proof (intro ballI conjI allI impI)
  let ?base = "length (ssa_phis ssa)" and ?I = "block_table K"
  let ?cur = "current_table (length (fn_blocks fn)) d_out (cfg_nodes fn)"
  let ?ssa = "\<lparr>ssa_loads = l, ssa_phis = sourced n (phi_inputs g ?cur) (ssa_phis ssa) os\<rparr>"
  note R' = ssa_readyD [OF R]
  note W = R'(1)
  note T = table_facts(1) [OF W]
  fix b assume b: "b \<in> cfg_nodes fn"
  note Ib = table_facts(2) [OF W b]
  show "d_out b = reaching n (d_in b) (code_of fn b)"
    unfolding d_out_def d_in_def by (rule def_out_in [OF T Ib])
  show "load_definition ?ssa d = Some (reaching n (d_in b) (take i (code_of fn b)))"
    if "i < length (code_of fn b)" "code_of fn b ! i = LoadVar d n" for i d
    using loads b that by (simp add: load_definition_def loads_ok_def d_in_def)
  show "stored_above fn n v b" if "d_in b = VarValue v" for v
  proof -
    obtain s where s: "s \<in> anc ?I b" "s \<noteq> b" "StoreVar n v \<in> set (code_of fn s)"
      using chain_store [OF T] Ib \<open>d_in b = VarValue v\<close> unfolding d_in_def by blast
    then show ?thesis
      using cfgd.anc_facts(2) [OF T s(1) Ib] table_facts(4) [OF W b] unfolding stored_above_def by blast
  qed
  show "view_entry fn g ?ssa n (phi_places ?base os) d_in d_out b"
  proof (cases "b = fn_entry fn")
    case True
    then show ?thesis using os(2) by (auto simp: view_entry_def d_in_def def_in_def def_incoming_def phi_numbers_def)
  next
    case False
    show ?thesis
    proof (cases "b \<in> set os")
      case True
      let ?q = "of_nat (?base + position os b) :: u32"
      note q = phi_number_place [OF True os(3)]
      have p: "position os b < length os" "os ! position os b = b" using position_less [OF True] position_nth [OF True] .
      have node: "get_at (ssa_phis ?ssa) (unat ?q) = Some (phi_node n (phi_inputs g ?cur b))"
        unfolding q(1) using p by (simp add: sourced_def get_at_def nth_append)
      have cur: "get_at ?cur (bix c) = Some (Some (d_out c))" if "cfg_is_reachable g c" for c
        using that cfg_matchD(6) [OF table_facts(5) [OF W]] node_bound [OF W, of c]
        by (simp add: current_table_def get_at_def)
      have "phi_inputs g ?cur b = map d_out (filter (cfg_is_reachable g) (predecessors g b))"
        unfolding phi_inputs_def by (rule map_cong) (simp_all add: cur)
      moreover have "d_in b = VarPhi ?q" using True by (simp add: d_in_def def_in_def phi_numbers_def)
      moreover have "unat ?q < phi_count ?ssa" unfolding q(1) using p by (simp add: phi_count_def sourced_def)
      ultimately show ?thesis
        using False node q(2) by (auto simp: view_entry_def phi_variable_def phi_sources_def)
    next
      case nophi: False
      have "\<exists>c. phi_places ?base os q = Some c \<and> c \<noteq> b" if "d_in b = VarPhi q" for q
      proof -
        obtain x where "phi_numbers ?base os x = Some q"
          using chain_phi [OF T] Ib \<open>d_in b = VarPhi q\<close> unfolding d_in_def by blast
        then have x: "x \<in> set os" "q = of_nat (?base + position os x)" by (simp_all add: phi_numbers_def split: if_splits)
        then show ?thesis using phi_number_place(2) [OF x(1) os(3)] nophi by auto
      qed
      then show ?thesis
        using joined_or_passed [OF R b False nophi closed] False
        by (simp add: view_entry_def d_in_def d_out_def)
    qed
  qed
qed

lemma sourced_places:
  assumes os: "set os \<subseteq> cfg_nodes fn - {fn_entry fn}" "length phis + length os \<le> 2 ^ 32"
  shows "places_ok fn g \<lparr>ssa_loads = l, ssa_phis = sourced n (phi_inputs g current) phis os\<rparr> {n} (phi_places (length phis) os)"
  unfolding places_ok_def
proof (intro allI impI)
  fix q c assume "phi_places (length phis) os q = Some c"
  then have q: "length phis \<le> unat q" "unat q < length phis + length os" "c = os ! (unat q - length phis)"
    by (simp_all add: phi_places_def split: if_splits)
  have "c \<in> set os" using q by simp
  then have "c \<in> cfg_nodes fn" "c \<noteq> fn_entry fn" using os(1) by blast+
  moreover have "get_at (sourced n (phi_inputs g current) phis os) (unat q) = Some (phi_node n (phi_inputs g current c))"
    using q by (simp add: get_at_def sourced_def nth_append)
  ultimately show "c \<in> cfg_nodes fn \<and> c \<noteq> fn_entry fn \<and>
      unat q < phi_count \<lparr>ssa_loads = l, ssa_phis = sourced n (phi_inputs g current) phis os\<rparr> \<and>
      (\<exists>m\<in>{n}. phi_variable \<lparr>ssa_loads = l, ssa_phis = sourced n (phi_inputs g current) phis os\<rparr> q = Some m) \<and>
      length (phi_sources \<lparr>ssa_loads = l, ssa_phis = sourced n (phi_inputs g current) phis os\<rparr> q) =
      length (filter (cfg_is_reachable g) (predecessors g c))"
    using q(2) by (simp add: phi_count_def phi_variable_def phi_sources_def phi_inputs_def)
      (simp add: sourced_def)
qed

lemma build_variable_view:
  assumes R: "ssa_ready fn g K frontiers" and room: "length (ssa_phis ssa) + card (cfg_nodes fn) \<le> 2 ^ 32"
  defines "C \<equiv> dominator_tree_children g (K[bix (fn_entry fn) := None])"
  obtains ssa' place d_in d_out where
    "build_variable fn g frontiers C ssa n = Some ssa'" "var_view fn g ssa' n place d_in d_out"
    "\<exists>ys. ssa_phis ssa' = ssa_phis ssa @ ys \<and> length ys \<le> card (cfg_nodes fn)"
    "dom place \<subseteq> {q. length (ssa_phis ssa) \<le> unat q \<and> unat q < length (ssa_phis ssa')}"
    "\<And>d. \<forall>b\<in>cfg_nodes fn. LoadVar d n \<notin> set (code_of fn b) \<Longrightarrow> load_definition ssa' d = load_definition ssa d"
    "places_ok fn g ssa' {n} place"
proof (cases "defining_blocks fn g n = []")
  case True
  let ?ssa = "ssa\<lparr>ssa_loads := record_entry_loads fn g n (ssa_loads ssa)\<rparr>"
  note R' = ssa_readyD [OF R]
  have "build_variable fn g frontiers C ssa n = Some ?ssa" using True by (simp add: build_variable_def Let_def)
  moreover have "load_definition ?ssa d = load_definition ssa d"
    if "\<forall>b\<in>cfg_nodes fn. LoadVar d n \<notin> set (code_of fn b)" for d
    using that node_block [OF R'(1,2)] by (auto simp: load_definition_def entry_loads)
  ultimately show ?thesis
    using that [of ?ssa Map.empty "\<lambda>_. VarEntry" "\<lambda>_. VarEntry"] entry_view [OF R'(1,2) True, of ssa Map.empty]
    by (simp add: places_ok_def)
next
  case False
  note R' = ssa_readyD [OF R]
  note W = R'(1)
  note M = table_facts(5) [OF W]
  note g = cfg_matchD [OF M]
  let ?n = "length (fn_blocks fn)" and ?D = "defining_blocks fn g n" and ?e = "fn_entry fn"
  let ?V = "cfg_nodes fn - {?e}" and ?base = "length (ssa_phis ssa)"
  have n: "?n \<le> 2 ^ 32" using M by (simp add: cfg_match_def)
  have less: "card ?V \<le> card (cfg_nodes fn)" by (intro card_mono) auto
  then have small: "?base + card ?V \<le> 2 ^ 32" using room by simp
  have D: "\<forall>b\<in>set ?D. bix b < ?n" using defining_iff [OF W R'(2)] node_bound [OF W] by blast
  have fin: "finite ?V" and bounds: "\<forall>b\<in>?V. bix b < ?n" using node_bound [OF W] by simp_all
  obtain os where os: "place_phis n frontiers (replicate ?n None, ssa_phis ssa, ?D, rev ?D) = Some (placed n ?n (ssa_phis ssa) os)"
    "distinct os" "set os \<subseteq> ?V" "\<forall>x\<in>set ?D \<union> set os. set (frontiers ! bix x) \<subseteq> set os"
    using phi_placement [OF fin bounds small n R'(5,7) D] by blast
  have "card (set os) \<le> card ?V" using os(3) fin by (rule card_mono [rotated])
  then have len: "length os \<le> card (cfg_nodes fn)" using os(2) less by (simp add: distinct_card)
  then have len': "?base + length os \<le> 2 ^ 32" using room by simp
  let ?\<phi> = "phi_numbers ?base os"
  let ?in = "def_in fn n (block_table K) ?\<phi>" and ?out = "def_out fn n (block_table K) ?\<phi>"
  obtain phi_at nodes where pn: "placed n ?n (ssa_phis ssa) os = (phi_at, nodes)" by fastforce
  then have phi_at: "phi_at = phi_table ?n ?base os" by (simp add: placed_def)
  have phi: "get_at phi_at (bix b) = Some (?\<phi> b)" if "b \<in> cfg_nodes fn" for b
    unfolding phi_at phi_numbers_def by (rule phi_table_at [OF node_bound [OF W that]])
  have start: "stack_ok fn (block_table K) (def_incoming fn n (block_table K) ?\<phi>) {} [(?e, VarEntry, False)]"
    using cfgd.entry(1) by (simp add: stack_ok_def def_incoming_def)
  have "loads_ok fn n ?in {} (ssa_loads ssa) (ssa_loads ssa)" by (simp add: loads_ok_def)
  from rename_run [OF W R'(3) phi, of C, OF _ _ start this] C_def obtain l' where
    l': "rename_loop fn n phi_at C [(?e, VarEntry, False)] (current_table ?n ?out {}) (ssa_loads ssa) =
        Some (current_table ?n ?out (cfg_nodes fn), l')"
      "loads_ok fn n ?in (cfg_nodes fn) (ssa_loads ssa) l'" by blast
  have empty: "current_table ?n ?out {} = replicate ?n None"
    by (rule nth_equalityI) (simp_all add: current_table_def)
  let ?phis = "sourced n (phi_inputs g (current_table ?n ?out (cfg_nodes fn))) (ssa_phis ssa) os"
  let ?ssa = "\<lparr>ssa_loads = l', ssa_phis = ?phis\<rparr>"
  have "fill_sources g (current_table ?n ?out (cfg_nodes fn)) phi_at nodes = ?phis"
    by (rule fill_sources_placed [OF os(2) n len' _ pn]) (use os(3) bounds in blast)
  then have "build_variable fn g frontiers C ssa n = Some ?ssa"
    using False os(1) pn l'(1) by (simp add: build_variable_def Let_def g(1,2) empty)
  moreover have "var_view fn g ?ssa n (phi_places ?base os) ?in ?out"
    by (rule placed_view [OF R os(2,3) len' os(4) l'(2)])
  moreover have "dom (phi_places ?base os) \<subseteq> {q. ?base \<le> unat q \<and> unat q < length (ssa_phis ?ssa)}"
    by (auto simp: phi_places_def sourced_def split: if_splits)
  moreover have "load_definition ?ssa d = load_definition ssa d"
    if "\<forall>b\<in>cfg_nodes fn. LoadVar d n \<notin> set (code_of fn b)" for d
    using l'(2) that by (simp add: load_definition_def loads_ok_def)
  moreover have "places_ok fn g ?ssa {n} (phi_places ?base os)" by (rule sourced_places [OF os(3) len'])
  ultimately show ?thesis using that [of ?ssa] len by (simp add: sourced_def)
qed

section \<open>All variables\<close>

lemma view_extend:
  assumes V: "var_view fn g ssa m place d_in d_out"
    and phis: "ssa_phis ssa' = ssa_phis ssa @ ys" and place: "place \<subseteq>\<^sub>m place'"
    and loads: "\<And>b d. b \<in> cfg_nodes fn \<Longrightarrow> LoadVar d m \<in> set (code_of fn b) \<Longrightarrow> load_definition ssa' d = load_definition ssa d"
  shows "var_view fn g ssa' m place' d_in d_out"
proof -
  have "view_entry fn g ssa' m place' d_in d_out b" if "view_entry fn g ssa m place d_in d_out b" for b
  proof -
    have "place' q = Some c" if "place q = Some c" for q c using place that by (metis domI map_le_def)
    moreover have "phi_variable ssa' q = phi_variable ssa q" "phi_sources ssa' q = phi_sources ssa q" "unat q < phi_count ssa'"
      if "unat q < phi_count ssa" for q
      using that by (simp_all add: phi_variable_def phi_sources_def phi_count_def phis get_at_def nth_append)
    ultimately show ?thesis using that unfolding view_entry_def by (auto split: if_splits)
  qed
  moreover have "load_definition ssa' d = load_definition ssa d"
    if "b \<in> cfg_nodes fn" "i < length (code_of fn b)" "code_of fn b ! i = LoadVar d m" for b i d
    using loads that by (metis nth_mem)
  ultimately show ?thesis using V unfolding var_view_def by metis
qed

lemma places_extend:
  assumes "places_ok fn g ssa names place" "ssa_phis ssa' = ssa_phis ssa @ ys" "names \<subseteq> names'"
  shows "places_ok fn g ssa' names' place"
proof -
  have "phi_variable ssa' q = phi_variable ssa q" "phi_sources ssa' q = phi_sources ssa q" "unat q < phi_count ssa'"
    if "unat q < phi_count ssa" for q
    using that by (simp_all add: phi_variable_def phi_sources_def phi_count_def assms(2) get_at_def nth_append)
  then show ?thesis using assms(1,3) unfolding places_ok_def by (metis subsetD)
qed

lemma places_union:
  "places_ok fn g ssa names p \<Longrightarrow> places_ok fn g ssa names p' \<Longrightarrow> places_ok fn g ssa names (p ++ p')"
  by (simp add: places_ok_def map_add_Some_iff) blast

lemma other_loads:
  assumes "one_load fn V" "b \<in> V" "c \<in> V" "LoadVar d m \<in> set (code_of fn b)" "m \<noteq> n"
  shows "LoadVar d n \<notin> set (code_of fn c)"
proof
  assume "LoadVar d n \<in> set (code_of fn c)"
  then obtain i j where "i < length (code_of fn b)" "code_of fn b ! i = LoadVar d m"
    "j < length (code_of fn c)" "code_of fn c ! j = LoadVar d n" using assms(4) by (metis in_set_conv_nth)
  moreover from this have "b = c \<and> i = j" using assms(1-3) unfolding one_load_def by blast
  ultimately show False using assms(5) by simp
qed

lemma build_views:
  assumes R: "ssa_ready fn g K frontiers"
  defines "C \<equiv> dominator_tree_children g (K[bix (fn_entry fn) := None])"
  shows "distinct (rev done @ names) \<Longrightarrow> length (rev done @ names) * card (cfg_nodes fn) \<le> 2 ^ 32 \<Longrightarrow>
    length (ssa_phis ssa) \<le> length done * card (cfg_nodes fn) \<Longrightarrow>
    \<forall>m\<in>set done. \<exists>d_in d_out. var_view fn g ssa m place d_in d_out \<Longrightarrow>
    places_ok fn g ssa (set done) place \<Longrightarrow> dom place \<subseteq> {q. unat q < length (ssa_phis ssa)} \<Longrightarrow>
    \<exists>ssa' place'. fold_option (build_variable fn g frontiers C) ssa names = Some ssa' \<and>
      (\<forall>m\<in>set done \<union> set names. \<exists>d_in d_out. var_view fn g ssa' m place' d_in d_out) \<and>
      length (ssa_phis ssa') \<le> length (rev done @ names) * card (cfg_nodes fn) \<and>
      places_ok fn g ssa' (set done \<union> set names) place' \<and>
      (\<forall>d. (\<forall>m\<in>set names. \<forall>b\<in>cfg_nodes fn. LoadVar d m \<notin> set (code_of fn b)) \<longrightarrow> load_definition ssa' d = load_definition ssa d)"
proof (induction names arbitrary: "done" ssa place)
  case Nil
  then show ?case by auto
next
  case (Cons n names)
  let ?N = "card (cfg_nodes fn)"
  have "length (ssa_phis ssa) + ?N \<le> (length done + 1) * ?N" using Cons.prems(3) by simp
  also have "\<dots> \<le> length (rev done @ n # names) * ?N" by (rule mult_right_mono) simp_all
  finally have "length (ssa_phis ssa) + ?N \<le> 2 ^ 32" using Cons.prems(2) by simp
  from build_variable_view [OF R this, of n, folded C_def] obtain ssa1 place1 d_in d_out where
    1: "build_variable fn g frontiers C ssa n = Some ssa1" "var_view fn g ssa1 n place1 d_in d_out"
      "\<exists>ys. ssa_phis ssa1 = ssa_phis ssa @ ys \<and> length ys \<le> ?N"
      "dom place1 \<subseteq> {q. length (ssa_phis ssa) \<le> unat q \<and> unat q < length (ssa_phis ssa1)}"
      "\<And>d. \<forall>b\<in>cfg_nodes fn. LoadVar d n \<notin> set (code_of fn b) \<Longrightarrow> load_definition ssa1 d = load_definition ssa d"
      "places_ok fn g ssa1 {n} place1" by blast
  obtain ys where ys: "ssa_phis ssa1 = ssa_phis ssa @ ys" "length ys \<le> ?N" using 1(3) by blast
  let ?place = "place ++ place1"
  have disjoint: "dom place \<inter> dom place1 = {}" using Cons.prems(6) 1(4) by fastforce
  have le: "place \<subseteq>\<^sub>m ?place" using disjoint by (metis map_add_comm map_le_map_add)
  have old: "\<exists>d_in d_out. var_view fn g ssa1 m ?place d_in d_out" if m: "m \<in> set done" for m
  proof -
    have "m \<noteq> n" using Cons.prems(1) m by auto
    obtain d_in d_out where "var_view fn g ssa m place d_in d_out" using Cons.prems(4) m by blast
    then have "var_view fn g ssa1 m ?place d_in d_out"
      by (rule view_extend [OF _ ys(1) le])
        (use 1(5) other_loads [OF ssa_readyD(3) [OF R]] \<open>m \<noteq> n\<close> in blast)
    then show ?thesis by blast
  qed
  have new: "var_view fn g ssa1 n ?place d_in d_out"
    by (rule view_extend [OF 1(2), of _ "[]"]) simp_all
  have "\<forall>m\<in>set (n # done). \<exists>d_in d_out. var_view fn g ssa1 m ?place d_in d_out" using old new by auto
  moreover have "places_ok fn g ssa1 (set (n # done)) ?place"
    by (rule places_union [OF places_extend [OF Cons.prems(5) ys(1)] places_extend [OF 1(6), of _ "[]"]]) auto
  moreover have "dom ?place \<subseteq> {q. unat q < length (ssa_phis ssa1)}" using Cons.prems(6) 1(4) ys(1) by fastforce
  moreover have "length (ssa_phis ssa1) \<le> length (n # done) * ?N" using ys Cons.prems(3) by simp
  moreover have "distinct (rev (n # done) @ names)" "length (rev (n # done) @ names) * ?N \<le> 2 ^ 32"
    using Cons.prems(1,2) by auto
  ultimately obtain ssa' place' where ind: "fold_option (build_variable fn g frontiers C) ssa1 names = Some ssa'"
    "\<forall>m\<in>set (n # done) \<union> set names. \<exists>d_in d_out. var_view fn g ssa' m place' d_in d_out"
    "length (ssa_phis ssa') \<le> length (rev (n # done) @ names) * ?N" "places_ok fn g ssa' (set (n # done) \<union> set names) place'"
    "\<forall>d. (\<forall>m\<in>set names. \<forall>b\<in>cfg_nodes fn. LoadVar d m \<notin> set (code_of fn b)) \<longrightarrow> load_definition ssa' d = load_definition ssa1 d"
    using Cons.IH [of "n # done" ssa1 ?place] by blast
  have "load_definition ssa' d = load_definition ssa d"
    if "\<forall>m\<in>set (n # names). \<forall>b\<in>cfg_nodes fn. LoadVar d m \<notin> set (code_of fn b)" for d
    using ind(5) 1(5) that by simp
  then show ?case using ind(1-4) 1(1) by (intro exI [of _ ssa'] exI [of _ place']) simp
qed

end
