(* ===== verification/Ssa_Correct.thy ===== *)
theory Ssa_Correct
  imports Ssa_Views Verify_Sound
begin

text \<open>
  Correctness of the SSA view against execution. An execution of a function keeps the values
  assigned so far, the contents of the variables and, for every phi node, the value it took when
  its block was last entered. At every load of a variable that has been analysed, the recorded
  definition has the value the variable contains.
\<close>

section \<open>Executions\<close>

type_synonym 'v value_env = "ValueId \<Rightarrow> 'v"
type_synonym 'v variable_env = "rstr \<Rightarrow> 'v"

definition effect ::
  "rstr set \<Rightarrow> Instruction \<Rightarrow> 'v value_env \<Rightarrow> 'v variable_env \<Rightarrow> 'v value_env \<Rightarrow> 'v variable_env \<Rightarrow> bool" where
  \<comment> \<open>the variables \<open>names\<close> belong to the frame, so only a \<open>StoreVar\<close> changes them\<close>
  "effect names i env vars env' vars' \<longleftrightarrow>
     (case i of
        LoadVar d n \<Rightarrow> env' = env(d := vars n) \<and> vars' = vars
      | StoreVar n v \<Rightarrow> env' = env \<and> vars' = vars(n := env v)
      | _ \<Rightarrow> (\<forall>v. dest i \<noteq> Some v \<longrightarrow> env' v = env v) \<and> (\<forall>n\<in>names. vars' n = vars n))"

fun def_value :: "'v \<Rightarrow> 'v value_env \<Rightarrow> (u32 \<Rightarrow> 'v) \<Rightarrow> VarDef \<Rightarrow> 'v" where
  \<comment> \<open>the value of a definition, for a variable that contained \<open>initial\<close> at the start\<close>
  "def_value initial env phis (VarValue v) = env v"
| "def_value initial env phis (VarPhi q) = phis q"
| "def_value initial env phis VarEntry = initial"

definition edge_source :: "ControlFlowGraph \<Rightarrow> VariableSsa \<Rightarrow> BasicBlockId \<Rightarrow> BasicBlockId \<Rightarrow> u32 \<Rightarrow> VarDef" where
  \<comment> \<open>the source of a phi node of \<open>c\<close> for the edge from \<open>b\<close>\<close>
  "edge_source g ssa b c q = phi_sources ssa q ! position (filter (cfg_is_reachable g) (predecessors g c)) b"

definition enter_phis ::
  "ControlFlowGraph \<Rightarrow> VariableSsa \<Rightarrow> (u32 \<rightharpoonup> BasicBlockId) \<Rightarrow> 'v variable_env \<Rightarrow> BasicBlockId \<Rightarrow> BasicBlockId \<Rightarrow>
   'v value_env \<Rightarrow> (u32 \<Rightarrow> 'v) \<Rightarrow> u32 \<Rightarrow> 'v" where
  "enter_phis g ssa place initial b c env phis q =
     (if place q = Some c
      then def_value (initial (the (phi_variable ssa q))) env phis (edge_source g ssa b c q) else phis q)"

inductive ssa_exec ::
  "Function \<Rightarrow> ControlFlowGraph \<Rightarrow> VariableSsa \<Rightarrow> rstr set \<Rightarrow> (u32 \<rightharpoonup> BasicBlockId) \<Rightarrow> 'v variable_env \<Rightarrow>
   BasicBlockId \<Rightarrow> nat \<Rightarrow> 'v value_env \<Rightarrow> 'v variable_env \<Rightarrow> (u32 \<Rightarrow> 'v) \<Rightarrow> bool"
  for fn g ssa names place initial where
  begin_entry: "ssa_exec fn g ssa names place initial (fn_entry fn) 0 env initial phis"
| instruction: "ssa_exec fn g ssa names place initial b i env vars phis \<Longrightarrow> i < length (code_of fn b) \<Longrightarrow>
    effect names (code_of fn b ! i) env vars env' vars' \<Longrightarrow>
    ssa_exec fn g ssa names place initial b (Suc i) env' vars' phis"
| follow_edge: "ssa_exec fn g ssa names place initial b i env vars phis \<Longrightarrow> i = length (code_of fn b) \<Longrightarrow>
    (b, c) \<in> flow_edge fn \<Longrightarrow>
    ssa_exec fn g ssa names place initial c 0 env vars (enter_phis g ssa place initial b c env phis)"

section \<open>What verification gives\<close>

lemma wf_blocks:
  assumes "wf_function m fn"
  shows "ordered_ids fn" "length (fn_blocks fn) \<le> 2 ^ 32" "bix (fn_entry fn) < length (fn_blocks fn)"
    "\<forall>k < length (fn_blocks fn). block_wf m fn k (fn_blocks fn ! k)"
proof -
  show b: "\<forall>k < length (fn_blocks fn). block_wf m fn k (fn_blocks fn ! k)" and "bix (fn_entry fn) < length (fn_blocks fn)"
    using assms by (simp_all add: wf_function_def)
  then show ids: "ordered_ids fn" by (simp add: ordered_ids_def block_wf_def)
  show "length (fn_blocks fn) \<le> 2 ^ 32"
  proof (cases "fn_blocks fn = []")
    case False
    let ?k = "length (fn_blocks fn) - 1"
    have "bix (blk_id (fn_blocks fn ! ?k)) = ?k" using ids False by (simp add: ordered_ids_def)
    moreover have "bix (blk_id (fn_blocks fn ! ?k)) < 2 ^ 32"
      using unsigned_less [of "bid (blk_id (fn_blocks fn ! ?k))"] by (simp add: bix_def)
    ultimately show ?thesis by linarith
  qed simp
qed

lemma definition_unique:
  assumes "wf_function m fn" "defined_at fn v b i" "defined_at fn v c j"
  shows "b = c \<and> i = j"
proof -
  have "distinct (fn_dests fn)" using assms(1) by (simp add: wf_function_def)
  then obtain defs where defs: "collect_definitions fn = Inr defs" using collect_definitions_iff(1) by blast
  have "defs v = Some \<lparr>def_block = b, def_index = i\<rparr>" "defs v = Some \<lparr>def_block = c, def_index = j\<rparr>"
    using collect_definitions_iff(2) [OF defs, of v] assms(2,3) by simp_all
  then show ?thesis by simp
qed

lemma defined_here:
  assumes "wf_function m fn" "bix b < length (fn_blocks fn)" "i < length (code_of fn b)" "dest (code_of fn b ! i) = Some v"
  shows "defined_at fn v b i"
proof -
  have "fn_blocks fn ! bix b \<in> set (fn_blocks fn)" using assms(2) by simp
  moreover have "blk_id (fn_blocks fn ! bix b) = b" using wf_blocks(1) [OF assms(1)] assms(2) bix_inj by (metis ordered_ids_def)
  ultimately show ?thesis using assms(3,4) by (auto simp: defined_at_def)
qed

lemma wf_one_load:
  assumes wf: "wf_function m fn" and V: "\<forall>b\<in>V. bix b < length (fn_blocks fn)"
  shows "one_load fn V"
  unfolding one_load_def
proof (intro ballI allI impI)
  fix b c i j d m' n
  assume "b \<in> V" "c \<in> V" "i < length (code_of fn b)" "j < length (code_of fn c)"
    "code_of fn b ! i = LoadVar d m'" "code_of fn c ! j = LoadVar d n"
  then have "defined_at fn d b i" "defined_at fn d c j" using V by (auto intro!: defined_here [OF wf] simp: dest_def)
  then show "b = c \<and> i = j" by (rule definition_unique [OF wf])
qed

lemma store_use:
  \<comment> \<open>a stored value is defined before the store on every path\<close>
  assumes wf: "wf_function m fn" and s: "bix s < length (fn_blocks fn)" "k < length (code_of fn s)" "code_of fn s ! k = StoreVar n v"
  obtains c j where "defined_at fn v c j" "on_every_path fn c s" "c = s \<Longrightarrow> j < k"
proof -
  let ?b = "fn_blocks fn ! bix s"
  have "?b \<in> set (fn_blocks fn)" using s(1) by simp
  then have "instruction_wf fn ?b k (code_of fn s ! k)" using wf s(2) by (simp add: wf_function_def uses_ok_def)
  moreover have "blk_id ?b = s" using wf_blocks(1) [OF wf] s(1) bix_inj by (metis ordered_ids_def)
  ultimately have "use_ok fn v s (Some k)" using s(3) by (simp add: instruction_wf_def uses_def)
  then show ?thesis using that unfolding use_ok_def by auto
qed

lemma verified_ready:
  assumes wf: "wf_function m fn" and e: "entry_has_no_edge fn"
  obtains g K frontiers where "cfg_build fn = Some g" "immediate_dominators g = Some (K[bix (fn_entry fn) := None])"
    "dominance_frontiers g (K[bix (fn_entry fn) := None]) = Some frontiers" "ssa_ready fn g K frontiers"
proof -
  obtain g where g: "cfg_build fn = Some g" using cfg_build_total by blast
  then have M: "cfg_match fn g" using wf_blocks [OF wf] by (simp add: cfg_match_def)
  obtain K where K: "immediate_dominators g = Some (K[bix (fn_entry fn) := None])"
    "length K = length (fn_blocks fn)" "cfg_dominator_table fn (block_table K)"
    using immediate_dominators_table [OF M] by blast
  then have W: "tabled fn g K" using M by (simp add: tabled_def)
  obtain fr where fr: "dominance_frontiers g (K[bix (fn_entry fn) := None]) = Some fr"
    by (rule frontiers_result [OF W])
  have "one_load fn (cfg_nodes fn)" using wf_one_load [OF wf] node_bound [OF W] by blast
  then have "ssa_ready fn g K fr" using W e fr wf_blocks(1) [OF wf] by (simp add: ssa_ready_def)
  then show ?thesis using that g K(1) fr by blast
qed

section \<open>The invariant of executions\<close>

definition views :: "Function \<Rightarrow> ControlFlowGraph \<Rightarrow> VariableSsa \<Rightarrow> rstr set \<Rightarrow> (u32 \<rightharpoonup> BasicBlockId) \<Rightarrow> bool" where
  "views fn g ssa names place \<longleftrightarrow>
     (\<forall>n\<in>names. \<exists>d_in d_out. var_view fn g ssa n place d_in d_out) \<and> places_ok fn g ssa names place"

definition agrees ::
  "Function \<Rightarrow> ControlFlowGraph \<Rightarrow> VariableSsa \<Rightarrow> (u32 \<rightharpoonup> BasicBlockId) \<Rightarrow> 'v variable_env \<Rightarrow> rstr \<Rightarrow>
   BasicBlockId \<Rightarrow> nat \<Rightarrow> 'v value_env \<Rightarrow> 'v variable_env \<Rightarrow> (u32 \<Rightarrow> 'v) \<Rightarrow> bool" where
  "agrees fn g ssa place initial n b i env vars phis \<longleftrightarrow>
     (\<forall>d_in d_out. var_view fn g ssa n place d_in d_out \<longrightarrow>
        def_value (initial n) env phis (reaching n (d_in b) (take i (code_of fn b))) = vars n)"

lemma not_redefined:
  \<comment> \<open>where a stored value is the reaching definition, it is not being assigned\<close>
  assumes wf: "wf_function m fn" and W: "tabled fn g K" and V: "var_view fn g ssa n place d_in d_out"
    and b: "b \<in> cfg_nodes fn" "i < length (code_of fn b)"
    and v: "reaching n (d_in b) (take i (code_of fn b)) = VarValue v"
  shows "dest (code_of fn b ! i) \<noteq> Some v"
proof
  assume d: "dest (code_of fn b ! i) = Some v"
  have here: "defined_at fn v b i" by (rule defined_here [OF wf node_bound [OF W b(1)] b(2) d])
  show False
  proof (cases "list_ex (stores_to n) (take i (code_of fn b))")
    case True
    then obtain k w where "k < length (take i (code_of fn b))" "take i (code_of fn b) ! k = StoreVar n w"
      "reaching n (d_in b) (take i (code_of fn b)) = VarValue w" using reaching_store by blast
    then have k: "k < i" "k < length (code_of fn b)" "code_of fn b ! k = StoreVar n v" using v by auto
    obtain c j where "defined_at fn v c j" "c = b \<Longrightarrow> j < k"
      using store_use [OF wf node_bound [OF W b(1)] k(2,3)] by metis
    then show False using definition_unique [OF wf here, of c j] k(1) by auto
  next
    case False
    then have "d_in b = VarValue v" using v reaching_no_store [OF False] by simp
    then have "stored_above fn n v b" using V b(1) unfolding var_view_def by blast
    then obtain s where s: "s \<in> cfg_nodes fn" "s \<noteq> b" "on_every_path fn s b" "StoreVar n v \<in> set (code_of fn s)"
      unfolding stored_above_def by blast
    obtain k where "k < length (code_of fn s)" "code_of fn s ! k = StoreVar n v" using s(4) by (auto simp: in_set_conv_nth)
    then obtain c j where c: "defined_at fn v c j" "on_every_path fn c s"
      using store_use [OF wf node_bound [OF W s(1)]] by metis
    then have "on_every_path fn b s" using definition_unique [OF wf here, of c j] by simp
    then have "b \<in> anc (block_table K) s" "s \<in> anc (block_table K) b"
      using s(3) table_facts(4) [OF W s(1)] table_facts(4) [OF W b(1)] by blast+
    then show False
      using cfgd.anc_facts(4,5) [OF table_facts(1) [OF W]] table_facts(2) [OF W s(1)] table_facts(2) [OF W b(1)] s(2)
      by (metis le_antisym)
  qed
qed

lemma agrees_instruction:
  assumes wf: "wf_function m fn" and W: "tabled fn g K" and b: "b \<in> cfg_nodes fn" "i < length (code_of fn b)"
    and n: "n \<in> names" and eff: "effect names (code_of fn b ! i) env vars env' vars'"
    and A: "agrees fn g ssa place initial n b i env vars phis"
  shows "agrees fn g ssa place initial n b (Suc i) env' vars' phis"
  unfolding agrees_def
proof (intro allI impI)
  fix d_in d_out assume V: "var_view fn g ssa n place d_in d_out"
  let ?r = "reaching n (d_in b) (take i (code_of fn b))" and ?i = "code_of fn b ! i"
  have old: "def_value (initial n) env phis ?r = vars n" using A V unfolding agrees_def by blast
  have step: "reaching n (d_in b) (take (Suc i) (code_of fn b)) = reach_step n ?r ?i"
    using b(2) by (simp add: take_Suc_conv_app_nth)
  have kept: "def_value (initial n) env' phis ?r = def_value (initial n) env phis ?r"
    if "\<forall>v. dest ?i \<noteq> Some v \<longrightarrow> env' v = env v"
    using that not_redefined [OF wf W V b] by (cases ?r) auto
  consider (load) d m' where "?i = LoadVar d m'" | (store) m' v where "?i = StoreVar m' v"
    | (other) "\<forall>d m'. ?i \<noteq> LoadVar d m'" "\<forall>m' v. ?i \<noteq> StoreVar m' v" by blast
  then show "def_value (initial n) env' phis (reaching n (d_in b) (take (Suc i) (code_of fn b))) = vars' n"
  proof cases
    case load
    then have "env' = env(d := vars m')" "vars' = vars" using eff by (simp_all add: effect_def)
    moreover from this have "def_value (initial n) env' phis ?r = def_value (initial n) env phis ?r"
      by (intro kept) (simp add: load dest_def)
    ultimately show ?thesis using old load by (simp add: step reach_step_def)
  next
    case store
    then have "env' = env" "vars' = vars(m' := env v)" using eff by (simp_all add: effect_def)
    then show ?thesis using old store by (auto simp: step reach_step_def)
  next
    case other
    then have "(\<forall>v. dest ?i \<noteq> Some v \<longrightarrow> env' v = env v) \<and> (\<forall>n\<in>names. vars' n = vars n)"
      using eff by (cases ?i) (simp_all add: effect_def)
    moreover have "reach_step n ?r ?i = ?r" using other by (cases ?i) (simp_all add: reach_step_def)
    ultimately show ?thesis using old kept n by (simp add: step)
  qed
qed

lemma agrees_edge:
  assumes W: "tabled fn g K" and e: "entry_has_no_edge fn" and b: "b \<in> cfg_nodes fn" and edge: "(b, c) \<in> flow_edge fn"
    and A: "agrees fn g ssa place initial n b (length (code_of fn b)) env vars phis"
  shows "c \<in> cfg_nodes fn"
    "agrees fn g ssa place initial n c 0 env vars (enter_phis g ssa place initial b c env phis)"
proof -
  have nodes: "cfg_nodes fn = {b. (fn_entry fn, b) \<in> (flow_edge fn)\<^sup>*}"
    using table_facts(5) [OF W] cfg_order_facts(3) unfolding cfg_match_def by blast
  show c: "c \<in> cfg_nodes fn" using b edge unfolding nodes by (auto intro: rtrancl_into_rtrancl)
  have pred: "b \<in> cfg_preds fn c" using b edge by (simp add: cfg_preds_def)
  have not_entry: "c \<noteq> fn_entry fn" using e edge by (auto simp: entry_has_no_edge_def)
  note g = cfg_matchD [OF table_facts(5) [OF W]]
  let ?ps = "filter (cfg_is_reachable g) (predecessors g c)"
  have inps: "b \<in> set ?ps" using b edge g(5,6) by simp
  show "agrees fn g ssa place initial n c 0 env vars (enter_phis g ssa place initial b c env phis)"
    unfolding agrees_def
  proof (intro allI impI)
    fix d_in d_out assume V: "var_view fn g ssa n place d_in d_out"
    let ?new = "enter_phis g ssa place initial b c env phis"
    have out: "d_out b = reaching n (d_in b) (code_of fn b)" using V b unfolding var_view_def by blast
    have old: "def_value (initial n) env phis (d_out b) = vars n"
      using A V out unfolding agrees_def by fastforce
    have "view_entry fn g ssa n place d_in d_out c" using V c unfolding var_view_def by blast
    then consider (join) "d_out b = d_in c" "\<forall>q. d_in c = VarPhi q \<longrightarrow> (\<exists>x. place q = Some x \<and> x \<noteq> c)"
      | (phi) q where "d_in c = VarPhi q" "place q = Some c" "phi_variable ssa q = Some n" "phi_sources ssa q = map d_out ?ps"
      using pred not_entry unfolding view_entry_def by auto
    then have "def_value (initial n) env ?new (d_in c) = vars n"
    proof cases
      case join
      then have "def_value (initial n) env ?new (d_in c) = def_value (initial n) env phis (d_in c)"
        by (cases "d_in c") (auto simp: enter_phis_def)
      then show ?thesis using old join(1) by simp
    next
      case phi
      have "edge_source g ssa b c q = d_out b"
        using phi(4) position_less [OF inps] position_nth [OF inps] by (simp add: edge_source_def)
      then show ?thesis using old phi by (simp add: enter_phis_def)
    qed
    then show "def_value (initial n) env ?new (reaching n (d_in c) (take 0 (code_of fn c))) = vars n" by simp
  qed
qed

lemma exec_agrees:
  assumes wf: "wf_function m fn" and R: "ssa_ready fn g K frontiers"
  shows "ssa_exec fn g ssa names place initial b i env vars phis \<Longrightarrow>
    b \<in> cfg_nodes fn \<and> i \<le> length (code_of fn b) \<and> (\<forall>n\<in>names. agrees fn g ssa place initial n b i env vars phis)"
proof (induction rule: ssa_exec.induct)
  case (begin_entry env phis)
  have "d_in (fn_entry fn) = VarEntry" if "var_view fn g ssa n place d_in d_out" for n d_in d_out
    using that cfgd.entry(1) unfolding var_view_def view_entry_def by metis
  then have "agrees fn g ssa place initial n (fn_entry fn) 0 env initial phis" for n
    unfolding agrees_def by (metis def_value.simps(3) reaching_simps(1) take0)
  then show ?case using cfgd.entry(1) by blast
next
  case (instruction b i env vars phis env' vars')
  then show ?case using agrees_instruction [OF wf ssa_readyD(1) [OF R]] by (simp add: Suc_le_eq) blast
next
  case (follow_edge b i env vars phis c)
  then have "agrees fn g ssa place initial n b (length (code_of fn b)) env vars phis" if "n \<in> names" for n using that by blast
  moreover have "c \<in> cfg_nodes fn"
  proof -
    have "cfg_nodes fn = {b. (fn_entry fn, b) \<in> (flow_edge fn)\<^sup>*}"
      using table_facts(5) [OF ssa_readyD(1) [OF R]] cfg_order_facts(3) unfolding cfg_match_def by blast
    then show ?thesis using follow_edge.IH follow_edge.hyps(3) by (auto intro: rtrancl_into_rtrancl)
  qed
  ultimately show ?case
    using agrees_edge(2) [OF ssa_readyD(1,4) [OF R]] follow_edge.IH follow_edge.hyps(3) by blast
qed

lemma load_agrees:
  assumes wf: "wf_function m fn" and R: "ssa_ready fn g K frontiers" and V: "views fn g ssa names place"
    and run: "ssa_exec fn g ssa names place initial b i env vars phis"
    and load: "i < length (code_of fn b)" "code_of fn b ! i = LoadVar d n" "n \<in> names"
  shows "\<exists>def. load_definition ssa d = Some def \<and> def_value (initial n) env phis def = vars n"
proof -
  note inv = exec_agrees [OF wf R run]
  obtain d_in d_out where v: "var_view fn g ssa n place d_in d_out" using V load(3) unfolding views_def by blast
  have "load_definition ssa d = Some (reaching n (d_in b) (take i (code_of fn b)))"
    using v inv load(1,2) unfolding var_view_def by blast
  moreover have "def_value (initial n) env phis (reaching n (d_in b) (take i (code_of fn b))) = vars n"
    using v inv load(3) unfolding agrees_def by blast
  ultimately show ?thesis by blast
qed

lemma build_result_sizes:
  assumes wf: "wf_function m fn" and e: "entry_has_no_edge fn" and names: "distinct names"
    and room: "length names * length (fn_blocks fn) \<le> 2 ^ 32"
  obtains g K frontiers ssa place where "cfg_build fn = Some g" "ssa_ready fn g K frontiers"
    "variable_ssa_build fn names = Some ssa" "views fn g ssa (set names) place"
    "phi_count ssa \<le> length names * length (fn_blocks fn)"
    "\<And>d. \<forall>m\<in>set names. \<forall>b\<in>cfg_nodes fn. LoadVar d m \<notin> set (code_of fn b) \<Longrightarrow> load_definition ssa d = None"
proof -
  obtain g K fr where g: "cfg_build fn = Some g" "immediate_dominators g = Some (K[bix (fn_entry fn) := None])"
    "dominance_frontiers g (K[bix (fn_entry fn) := None]) = Some fr" "ssa_ready fn g K fr"
    by (rule verified_ready [OF wf e])
  note W = ssa_readyD(1) [OF g(4)]
  have "bix ` cfg_nodes fn \<subseteq> {..<length (fn_blocks fn)}" using node_bound [OF W] by auto
  then have "card (bix ` cfg_nodes fn) \<le> length (fn_blocks fn)" by (metis card_lessThan card_mono finite_lessThan)
  moreover have "inj_on bix (cfg_nodes fn)" by (simp add: inj_on_def bix_inj)
  ultimately have "card (cfg_nodes fn) \<le> length (fn_blocks fn)" by (simp add: card_image)
  then have "length names * card (cfg_nodes fn) \<le> 2 ^ 32" using room by (meson le_trans mult_le_mono2)
  then obtain ssa place where ssa: "fold_option (build_variable fn g fr (dominator_tree_children g (K[bix (fn_entry fn) := None]))) ssa_empty names = Some ssa"
    "\<forall>n\<in>set names. \<exists>d_in d_out. var_view fn g ssa n place d_in d_out" "places_ok fn g ssa (set names) place"
    "length (ssa_phis ssa) \<le> length names * card (cfg_nodes fn)"
    "\<forall>d. (\<forall>m\<in>set names. \<forall>b\<in>cfg_nodes fn. LoadVar d m \<notin> set (code_of fn b)) \<longrightarrow> load_definition ssa d = None"
    using build_views [OF g(4), of "[]" names ssa_empty Map.empty] names
    by (auto simp: ssa_empty_def places_ok_def load_definition_def)
  have "phi_count ssa \<le> length names * length (fn_blocks fn)"
    using ssa(4) \<open>card (cfg_nodes fn) \<le> length (fn_blocks fn)\<close> unfolding phi_count_def by (meson le_trans mult_le_mono2)
  have "fn_blocks fn \<noteq> []" using wf_blocks(3) [OF wf] by auto
  then have "variable_ssa_build fn names = Some ssa"
    using ssa(1) g by (cases names) (simp_all add: variable_ssa_build_def)
  then show ?thesis using that g ssa \<open>phi_count ssa \<le> length names * length (fn_blocks fn)\<close> by (simp add: views_def)
qed

lemma build_result:
  assumes "wf_function m fn" and "entry_has_no_edge fn" and "distinct names"
    and "length names * length (fn_blocks fn) \<le> 2 ^ 32"
  obtains g K frontiers ssa place where "cfg_build fn = Some g" "ssa_ready fn g K frontiers"
    "variable_ssa_build fn names = Some ssa" "views fn g ssa (set names) place"
  using build_result_sizes [OF assms] that by metis

lemma load_value_dominates:
  assumes W: "tabled fn g K" and V: "var_view fn g ssa n place d_in d_out" and b: "b \<in> cfg_nodes fn"
    and load: "i < length (code_of fn b)" "code_of fn b ! i = LoadVar d n" "load_definition ssa d = Some (VarValue v)"
  shows "\<exists>s k. k < length (code_of fn s) \<and> code_of fn s ! k = StoreVar n v \<and> on_every_path fn s b \<and> (s = b \<longrightarrow> k < i)"
proof -
  have r: "reaching n (d_in b) (take i (code_of fn b)) = VarValue v" using V b load unfolding var_view_def by fastforce
  show ?thesis
  proof (cases "list_ex (stores_to n) (take i (code_of fn b))")
    case True
    then obtain k w where "k < length (take i (code_of fn b))" "take i (code_of fn b) ! k = StoreVar n w"
      "reaching n (d_in b) (take i (code_of fn b)) = VarValue w" using reaching_store by blast
    moreover have "on_every_path fn b b" using table_facts(4) [OF W b, of b] by simp
    ultimately show ?thesis using r by (intro exI [of _ b] exI [of _ k]) auto
  next
    case False
    then have "d_in b = VarValue v" using r reaching_no_store [OF False] by simp
    then have "stored_above fn n v b" using V b unfolding var_view_def by blast
    then obtain s where s: "s \<noteq> b" "on_every_path fn s b" "StoreVar n v \<in> set (code_of fn s)"
      unfolding stored_above_def by blast
    then obtain k where "k < length (code_of fn s)" "code_of fn s ! k = StoreVar n v" by (auto simp: in_set_conv_nth)
    then show ?thesis using s by (intro exI [of _ s] exI [of _ k]) simp
  qed
qed

section \<open>Properties\<close>

text \<open>
  Two functions for the witnesses: a loop whose header loads a variable that the blocks before and
  in the loop store, and the same loop starting at the entry block.
\<close>

definition loop_load :: Function where
  "loop_load = (function_new [] (BasicBlockId 0))\<lparr>fn_blocks :=
     [\<lparr>blk_id = BasicBlockId 0, blk_instructions = [Const (ValueId 1) (ConstantId 0), StoreVar [120] (ValueId 1)],
       blk_terminator = Jump (BasicBlockId 1)\<rparr>,
      \<lparr>blk_id = BasicBlockId 1,
       blk_instructions = [LoadVar (ValueId 0) [120], Const (ValueId 2) (ConstantId 0), StoreVar [120] (ValueId 2)],
       blk_terminator = Branch (ValueId 0) (BasicBlockId 1) (BasicBlockId 2)\<rparr>,
      \<lparr>blk_id = BasicBlockId 2, blk_instructions = [], blk_terminator = Return (Some (ValueId 0))\<rparr>]\<rparr>"

definition entry_loop_load :: Function where
  "entry_loop_load = (function_new [] (BasicBlockId 0))\<lparr>fn_blocks :=
     [\<lparr>blk_id = BasicBlockId 0,
       blk_instructions = [LoadVar (ValueId 0) [120], Const (ValueId 1) (ConstantId 0), StoreVar [120] (ValueId 1)],
       blk_terminator = Branch (ValueId 0) (BasicBlockId 0) (BasicBlockId 1)\<rparr>,
      \<lparr>blk_id = BasicBlockId 1, blk_instructions = [], blk_terminator = Return (Some (ValueId 0))\<rparr>]\<rparr>"

definition one_constant :: Module where
  "one_constant = module_new\<lparr>mod_constants := [Null]\<rparr>"

lemma loop_load_verified:
  "verify_function one_constant loop_load = Some (Inr ())"
  "verify_function one_constant entry_loop_load = Some (Inr ())"
  by code_simp+

lemma loop_load_entry: "entry_has_no_edge loop_load"
proof -
  have targets: "BasicBlockId 0 \<notin> set (terminator_successors (blk_terminator (fn_blocks loop_load ! k)))"
    if "k < length (fn_blocks loop_load)" for k
  proof -
    have "k = 0 \<or> k = 1 \<or> k = 2" using that by (auto simp: loop_load_def)
    then show ?thesis by (elim disjE) (simp_all add: loop_load_def)
  qed
  have "fn_entry loop_load = BasicBlockId 0" by (simp add: loop_load_def function_new_def)
  then show ?thesis using targets unfolding entry_has_no_edge_def flow_edge_def by auto
qed

lemma loop_load_run:
  "ssa_exec loop_load g ssa (set [[120]]) place (\<lambda>_. 0::nat) (BasicBlockId 1) 0 (\<lambda>_. 0) ((\<lambda>_. 0)([120] := 0))
     (enter_phis g ssa place (\<lambda>_. 0) (BasicBlockId 0) (BasicBlockId 1) (\<lambda>_. 0) (\<lambda>_. 0))"
proof -
  let ?exec = "ssa_exec loop_load g ssa (set [[120]]) place (\<lambda>_. 0::nat)"
  have e: "fn_entry loop_load = BasicBlockId 0" by (simp add: loop_load_def function_new_def)
  have c: "code_of loop_load (BasicBlockId 0) = [Const (ValueId 1) (ConstantId 0), StoreVar [120] (ValueId 1)]"
    by (simp add: loop_load_def bix_def)
  have "?exec (BasicBlockId 0) 0 (\<lambda>_. 0) (\<lambda>_. 0) (\<lambda>_. 0)"
    using ssa_exec.begin_entry [of loop_load g ssa "set [[120]]" place "\<lambda>_. 0::nat"] by (simp add: e)
  then have "?exec (BasicBlockId 0) (Suc 0) (\<lambda>_. 0) (\<lambda>_. 0) (\<lambda>_. 0)"
    by (rule ssa_exec.instruction) (simp_all add: c effect_def)
  then have "?exec (BasicBlockId 0) (Suc (Suc 0)) (\<lambda>_. 0) ((\<lambda>_. 0)([120] := 0)) (\<lambda>_. 0)"
    by (rule ssa_exec.instruction) (simp_all add: c effect_def)
  moreover have "(BasicBlockId 0, BasicBlockId 1) \<in> flow_edge loop_load"
    by (simp add: flow_edge_def loop_load_def bix_def)
  ultimately show ?thesis by (intro ssa_exec.follow_edge) (simp_all add: c)
qed

text \<open>
  C2: The SSA view is right about every execution. For a verified function whose entry block has
  no incoming edge, the construction succeeds for any set of variables (as long as the numbers of
  the phi nodes fit 32 bits), every phi node has one source per reachable predecessor of its block,
  and in every execution, wherever a load of one of the variables stands next, the table has a
  definition for it whose value - the stored value, the phi node's, or the content at the start -
  is what the variable contains.
\<close>

theorem variable_ssa_correct:
  assumes "verify_function m fn = Some (Inr ())" and "entry_has_no_edge fn" and "distinct names"
    and "length names * length (fn_blocks fn) \<le> 2 ^ 32"
  shows "\<exists>g ssa place. cfg_build fn = Some g \<and> variable_ssa_build fn names = Some ssa \<and>
    places_ok fn g ssa (set names) place \<and>
    (\<forall>initial b i env vars phis d n.
       ssa_exec fn g ssa (set names) place initial b i env vars phis \<and>
       i < length (code_of fn b) \<and> code_of fn b ! i = LoadVar d n \<and> n \<in> set names \<longrightarrow>
       (\<exists>def. load_definition ssa d = Some def \<and> def_value (initial n) env phis def = vars n))"
proof -
  have wf: "wf_function m fn" using assms(1) verify_function_result(2) by blast
  obtain g K fr ssa place where g: "cfg_build fn = Some g" "ssa_ready fn g K fr" "variable_ssa_build fn names = Some ssa"
    "views fn g ssa (set names) place" by (rule build_result [OF wf assms(2-4)])
  then have "places_ok fn g ssa (set names) place" by (simp add: views_def)
  then show ?thesis using g(1,3) load_agrees [OF wf g(2,4)] by blast
qed

theorem variable_ssa_correct_witness:
  "\<exists>ssa def. variable_ssa_build loop_load [[120]] = Some ssa \<and> load_definition ssa (ValueId 0) = Some def"
proof -
  have n: "length [[120]::rstr] * length (fn_blocks loop_load) \<le> 2 ^ 32" by (simp add: loop_load_def)
  have d: "distinct [[120]::rstr]" by simp
  obtain g ssa place where s: "variable_ssa_build loop_load [[120]] = Some ssa"
    and run: "\<forall>initial b i env vars phis d n.
       ssa_exec loop_load g ssa (set [[120]]) place (initial :: nat variable_env) b i env vars phis \<and>
       i < length (code_of loop_load b) \<and> code_of loop_load b ! i = LoadVar d n \<and> n \<in> set [[120]] \<longrightarrow>
       (\<exists>def. load_definition ssa d = Some def \<and> def_value (initial n) env phis def = vars n)"
    using variable_ssa_correct [OF loop_load_verified(1) loop_load_entry d n] by metis
  have "ssa_exec loop_load g ssa (set [[120]]) place (\<lambda>_. 0::nat) (BasicBlockId 1) 0 (\<lambda>_. 0) ((\<lambda>_. 0)([120] := 0))
      (enter_phis g ssa place (\<lambda>_. 0) (BasicBlockId 0) (BasicBlockId 1) (\<lambda>_. 0) (\<lambda>_. 0)) \<and>
      0 < length (code_of loop_load (BasicBlockId 1)) \<and> code_of loop_load (BasicBlockId 1) ! 0 = LoadVar (ValueId 0) [120] \<and>
      [120] \<in> set [[120]]"
    by (intro conjI loop_load_run) (simp_all add: loop_load_def bix_def)
  then have "\<exists>def. load_definition ssa (ValueId 0) = Some def" using run by blast
  then show ?thesis using s by blast
qed

text \<open>
  C15: A load that is resolved to a stored value is dominated by a store of that value: a store of
  the same variable stands earlier in the block or in a block on every path to it, so the value is
  available wherever the view says the load may be replaced by it.
\<close>

theorem resolved_values_dominate:
  assumes "verify_function m fn = Some (Inr ())" and "entry_has_no_edge fn" and "distinct names"
    and "length names * length (fn_blocks fn) \<le> 2 ^ 32"
  shows "\<exists>ssa. variable_ssa_build fn names = Some ssa \<and>
    (\<forall>b i d n v. (fn_entry fn, b) \<in> (flow_edge fn)\<^sup>* \<and> i < length (code_of fn b) \<and> code_of fn b ! i = LoadVar d n \<and>
       n \<in> set names \<and> load_definition ssa d = Some (VarValue v) \<longrightarrow>
       (\<exists>s k. k < length (code_of fn s) \<and> code_of fn s ! k = StoreVar n v \<and> on_every_path fn s b \<and> (s = b \<longrightarrow> k < i)))"
proof -
  have wf: "wf_function m fn" using assms(1) verify_function_result(2) by blast
  obtain g K fr ssa place where g: "cfg_build fn = Some g" "ssa_ready fn g K fr" "variable_ssa_build fn names = Some ssa"
    "views fn g ssa (set names) place" by (rule build_result [OF wf assms(2-4)])
  note W = ssa_readyD(1) [OF g(2)]
  have "cfg_nodes fn = {b. (fn_entry fn, b) \<in> (flow_edge fn)\<^sup>*}"
    using table_facts(5) [OF W] cfg_order_facts(3) unfolding cfg_match_def by blast
  moreover have "\<exists>d_in d_out. var_view fn g ssa n place d_in d_out" if "n \<in> set names" for n
    using g(4) that by (simp add: views_def)
  ultimately show ?thesis using g(3) load_value_dominates [OF W] by blast
qed

definition stored_load :: Function where
  \<comment> \<open>the entry block stores a value, the next block loads it\<close>
  "stored_load = (function_new [] (BasicBlockId 0))\<lparr>fn_blocks :=
     [\<lparr>blk_id = BasicBlockId 0, blk_instructions = [Const (ValueId 1) (ConstantId 0), StoreVar [120] (ValueId 1)],
       blk_terminator = Jump (BasicBlockId 1)\<rparr>,
      \<lparr>blk_id = BasicBlockId 1, blk_instructions = [LoadVar (ValueId 0) [120]], blk_terminator = Return (Some (ValueId 0))\<rparr>]\<rparr>"

lemma stored_load_facts:
  "verify_function one_constant stored_load = Some (Inr ())"
  "map_option (\<lambda>ssa. load_definition ssa (ValueId 0)) (variable_ssa_build stored_load [[120]]) = Some (Some (VarValue (ValueId 1)))"
  by code_simp+

lemma stored_load_flow:
  "fn_entry stored_load = BasicBlockId 0" "entry_has_no_edge stored_load"
  "(fn_entry stored_load, BasicBlockId 1) \<in> (flow_edge stored_load)\<^sup>*"
proof -
  show "fn_entry stored_load = BasicBlockId 0" by (simp add: stored_load_def function_new_def)
  have "(BasicBlockId 0, BasicBlockId 1) \<in> flow_edge stored_load" by (simp add: flow_edge_def stored_load_def bix_def)
  then show "(fn_entry stored_load, BasicBlockId 1) \<in> (flow_edge stored_load)\<^sup>*"
    by (simp add: stored_load_def function_new_def r_into_rtrancl)
  show "entry_has_no_edge stored_load"
    by (auto simp: entry_has_no_edge_def flow_edge_def stored_load_def function_new_def bix_def less_Suc_eq nth_Cons')
qed

theorem resolved_values_dominate_witness:
  "\<exists>ssa s k. variable_ssa_build stored_load [[120]] = Some ssa \<and> load_definition ssa (ValueId 0) = Some (VarValue (ValueId 1)) \<and>
     k < length (code_of stored_load s) \<and> code_of stored_load s ! k = StoreVar [120] (ValueId 1) \<and>
     on_every_path stored_load s (BasicBlockId 1)"
proof -
  have room: "length [[120]::rstr] * length (fn_blocks stored_load) \<le> 2 ^ 32" by (simp add: stored_load_def)
  obtain ssa where ssa: "variable_ssa_build stored_load [[120]] = Some ssa"
    "\<forall>b i d n v. (fn_entry stored_load, b) \<in> (flow_edge stored_load)\<^sup>* \<and> i < length (code_of stored_load b) \<and>
       code_of stored_load b ! i = LoadVar d n \<and> n \<in> set [[120]] \<and> load_definition ssa d = Some (VarValue v) \<longrightarrow>
       (\<exists>s k. k < length (code_of stored_load s) \<and> code_of stored_load s ! k = StoreVar n v \<and>
          on_every_path stored_load s b \<and> (s = b \<longrightarrow> k < i))"
    using resolved_values_dominate [OF stored_load_facts(1) stored_load_flow(2) _ room] by auto
  have load: "load_definition ssa (ValueId 0) = Some (VarValue (ValueId 1))" using stored_load_facts(2) ssa(1) by simp
  have "code_of stored_load (BasicBlockId 1) = [LoadVar (ValueId 0) [120]]" by (simp add: stored_load_def bix_def)
  then have "\<exists>s k. k < length (code_of stored_load s) \<and> code_of stored_load s ! k = StoreVar [120] (ValueId 1) \<and>
      on_every_path stored_load s (BasicBlockId 1)"
    using ssa(2) [rule_format, of "BasicBlockId 1" 0 "ValueId 0" "[120]" "ValueId 1"] stored_load_flow(3) load by auto
  then show ?thesis using ssa(1) load by blast
qed

text \<open>
  Why the entry block must not be the target of a jump: the verifier accepts a function that
  loops back to its entry, but the view of a variable that the loop stores still resolves the load
  in the entry block to the content at the start of the function. In the second round the
  variable contains another value. (The phi node is missing because the frontier of the dominance
  computation leaves out an entry block with one predecessor.)
\<close>

theorem entry_loop_load_is_stale:
  "verify_function one_constant entry_loop_load = Some (Inr ()) \<and>
   (\<exists>g ssa. cfg_build entry_loop_load = Some g \<and> variable_ssa_build entry_loop_load [[120]] = Some ssa \<and>
      load_definition ssa (ValueId 0) = Some VarEntry \<and>
      (\<exists>env vars phis.
         ssa_exec entry_loop_load g ssa {[120]} Map.empty (\<lambda>_. 0::nat) (BasicBlockId 0) 0 env vars phis \<and>
         code_of entry_loop_load (BasicBlockId 0) ! 0 = LoadVar (ValueId 0) [120] \<and>
         def_value 0 env phis VarEntry \<noteq> vars [120]))"
proof -
  let ?f = entry_loop_load
  obtain g where g: "cfg_build ?f = Some g" using cfg_build_total by blast
  have "map_option (\<lambda>ssa. load_definition ssa (ValueId 0)) (variable_ssa_build ?f [[120]]) = Some (Some VarEntry)"
    by code_simp
  then obtain ssa where ssa: "variable_ssa_build ?f [[120]] = Some ssa" "load_definition ssa (ValueId 0) = Some VarEntry"
    by auto
  let ?exec = "ssa_exec ?f g ssa {[120]} Map.empty (\<lambda>_. 0::nat)"
  let ?env = "(\<lambda>_. 0::nat)(ValueId 1 := 1)"
  have e: "fn_entry ?f = BasicBlockId 0" by (simp add: entry_loop_load_def function_new_def)
  have c: "code_of ?f (BasicBlockId 0) = [LoadVar (ValueId 0) [120], Const (ValueId 1) (ConstantId 0), StoreVar [120] (ValueId 1)]"
    by (simp add: entry_loop_load_def bix_def)
  have "?exec (BasicBlockId 0) 0 (\<lambda>_. 0) (\<lambda>_. 0) (\<lambda>_. 0)"
    using ssa_exec.begin_entry [of ?f g ssa "{[120]}" Map.empty "\<lambda>_. 0::nat"] by (simp add: e)
  then have "?exec (BasicBlockId 0) (Suc 0) (\<lambda>_. 0) (\<lambda>_. 0) (\<lambda>_. 0)"
    by (rule ssa_exec.instruction) (simp_all add: c effect_def fun_eq_iff)
  then have "?exec (BasicBlockId 0) (Suc (Suc 0)) ?env (\<lambda>_. 0) (\<lambda>_. 0)"
    by (rule ssa_exec.instruction) (auto simp: c effect_def dest_def)
  then have "?exec (BasicBlockId 0) (Suc (Suc (Suc 0))) ?env ((\<lambda>_. 0)([120] := 1)) (\<lambda>_. 0)"
    by (rule ssa_exec.instruction) (simp_all add: c effect_def fun_eq_iff)
  moreover have "(BasicBlockId 0, BasicBlockId 0) \<in> flow_edge ?f"
    by (simp add: flow_edge_def entry_loop_load_def bix_def)
  ultimately have "?exec (BasicBlockId 0) 0 ?env ((\<lambda>_. 0)([120] := 1))
      (enter_phis g ssa Map.empty (\<lambda>_. 0) (BasicBlockId 0) (BasicBlockId 0) ?env (\<lambda>_. 0))"
    by (intro ssa_exec.follow_edge) (simp_all add: c)
  moreover have "def_value 0 ?env (enter_phis g ssa Map.empty (\<lambda>_. 0) (BasicBlockId 0) (BasicBlockId 0) ?env (\<lambda>_. 0)) VarEntry \<noteq>
      ((\<lambda>_. 0)([120] := 1)) [120]" by simp
  ultimately show ?thesis using loop_load_verified(2) g ssa c by (metis nth_Cons_0)
qed

end
