(* ===== verification/Opt_Dce.thy ===== *)
theory Opt_Dce
  imports Ssa_Correct
begin

text \<open>
  Dead code elimination (\<open>wjsm-optimize/src/dce.rs\<close>, \<open>ir_walk.rs\<close>): instructions without an effect
  whose result nobody uses are deleted, then blocks the entry does not reach, and the ids of the
  remaining blocks become their positions again. A panic is \<open>None\<close>.
\<close>

section \<open>Walking the instructions\<close>

definition collect_uses :: "Function \<Rightarrow> ValueId \<Rightarrow> Instruction list" where
  "collect_uses fn target =
     concat (map (\<lambda>b. filter (\<lambda>i. target \<in> set (uses i)) (blk_instructions b)) (fn_blocks fn))"

section \<open>Deleting instructions\<close>

definition instruction_has_effect :: "Instruction \<Rightarrow> bool" where
  "instruction_has_effect i =
     (case i of
        StoreVar _ _ \<Rightarrow> True | SetProp _ _ _ _ _ \<Rightarrow> True | SetElem _ _ _ _ _ \<Rightarrow> True
      | StoreSlot _ _ _ _ _ \<Rightarrow> True | Call _ _ _ _ _ \<Rightarrow> True | SuperCall _ _ _ _ _ \<Rightarrow> True
      | ConstructCall _ _ _ _ _ \<Rightarrow> True | CallBuiltin _ _ _ \<Rightarrow> True | DeleteProp _ _ _ _ \<Rightarrow> True
      | SetProto _ _ \<Rightarrow> True | PromiseResolve _ _ \<Rightarrow> True | PromiseReject _ _ \<Rightarrow> True
      | Suspend _ _ \<Rightarrow> True | GeneratorSuspend _ _ \<Rightarrow> True | ObjectSpread _ _ _ \<Rightarrow> True
      | DebugCheck _ _ \<Rightarrow> True | CreateDataProperty _ _ _ _ \<Rightarrow> True
      | _ \<Rightarrow> False)"

definition instruction_is_live :: "ValueId set \<Rightarrow> Instruction \<Rightarrow> bool" where
  "instruction_is_live used i \<longleftrightarrow>
     instruction_has_effect i \<or> (case dest i of None \<Rightarrow> True | Some d \<Rightarrow> d \<in> used)"

definition used_values :: "Function \<Rightarrow> ValueId set" where
  "used_values fn =
     set (concat (map (\<lambda>b. terminator_uses (blk_terminator b) @ concat (map uses (blk_instructions b))) (fn_blocks fn)))"

definition dce_function :: "Function \<Rightarrow> Function" where
  "dce_function fn =
     (let used = used_values fn
      in fn\<lparr>fn_blocks := map (\<lambda>b. b\<lparr>blk_instructions := filter (instruction_is_live used) (blk_instructions b)\<rparr>)
              (fn_blocks fn)\<rparr>)"

definition dce_run :: "Module \<Rightarrow> Module" where
  "dce_run m = m\<lparr>mod_functions := map dce_function (mod_functions m)\<rparr>"

section \<open>Deleting blocks\<close>

instance BasicBlockId :: finite
proof
  have "(UNIV :: BasicBlockId set) = range BasicBlockId" by (auto intro: BasicBlockId.exhaust)
  then show "finite (UNIV :: BasicBlockId set)" by (metis finite finite_imageI)
qed

definition find_block :: "Function \<Rightarrow> BasicBlockId \<Rightarrow> BasicBlock option" where
  "find_block fn b = List.find (\<lambda>block. blk_id block = b) (fn_blocks fn)"

function prune_reachable :: "Function \<Rightarrow> BasicBlockId list \<Rightarrow> BasicBlockId set \<Rightarrow> BasicBlockId set" where
  "prune_reachable fn [] reachable = reachable"
| "prune_reachable fn (b # stack) reachable =
     (if b \<in> reachable then prune_reachable fn stack reachable
      else case find_block fn b of
        None \<Rightarrow> prune_reachable fn stack (insert b reachable)
      | Some block \<Rightarrow>
          prune_reachable fn (fold (\<lambda>s stack. s # stack) (terminator_successors (blk_terminator block)) stack)
            (insert b reachable))"
  by pat_completeness auto
termination
  by (relation "measures [\<lambda>(fn, stack, reachable). card (- reachable), \<lambda>(fn, stack, reachable). length stack]")
    (auto intro!: psubset_card_mono)

definition new_ids :: "BasicBlock list \<Rightarrow> BasicBlockId option list" where
  \<comment> \<open>\<open>to_new\<close>, indexed by the old id\<close>
  "new_ids blocks =
     fold (\<lambda>(index, b) to_new. to_new[bix (blk_id b) := Some (block_at index)]) (enumerate 0 blocks)
       (replicate (fold max (map (bix \<circ> blk_id) blocks) 0 + 1) None)"

definition new_id :: "BasicBlockId option list \<Rightarrow> BasicBlockId \<Rightarrow> BasicBlockId option" where
  \<comment> \<open>the closure \<open>remap\<close>, which panics without an entry\<close>
  "new_id to_new b = Option.bind (get_at to_new (bix b)) (\<lambda>x. x)"

fun terminator_blocks :: "Terminator \<Rightarrow> BasicBlockId list" where
  \<comment> \<open>what \<open>Terminator::remap_blocks\<close> passes to the closure\<close>
  "terminator_blocks (Jump t) = [t]"
| "terminator_blocks (Branch _ t e) = [t, e]"
| "terminator_blocks (Switch _ cases d e) = map case_target cases @ [d, e]"
| "terminator_blocks (Deopt frames) = map frame_block frames"
| "terminator_blocks (Return _) = []"
| "terminator_blocks (Throw _) = []"
| "terminator_blocks Unreachable = []"

fun instruction_blocks :: "Instruction \<Rightarrow> BasicBlockId list" where
  "instruction_blocks (Phi _ sources) = map phi_predecessor sources"
| "instruction_blocks _ = []"

definition block_refs :: "BasicBlock \<Rightarrow> BasicBlockId list" where
  "block_refs b = blk_id b # concat (map instruction_blocks (blk_instructions b)) @ terminator_blocks (blk_terminator b)"

definition renamed_block :: "(BasicBlockId \<Rightarrow> BasicBlockId) \<Rightarrow> BasicBlock \<Rightarrow> BasicBlock" where
  "renamed_block f b =
     \<lparr>blk_id = f (blk_id b), blk_instructions = map (remap_blocks f) (blk_instructions b),
      blk_terminator = term_remap_blocks f (blk_terminator b)\<rparr>"

definition compact_block_ids :: "Function \<Rightarrow> Function option" where
  "compact_block_ids fn =
     (let to_new = new_ids (fn_blocks fn);
          refs = fn_entry fn # concat (map block_refs (fn_blocks fn))
      in if \<exists>b\<in>set refs. new_id to_new b = None then None
         else Some (let f = (\<lambda>b. the (new_id to_new b))
                    in fn\<lparr>fn_entry := f (fn_entry fn), fn_blocks := map (renamed_block f) (fn_blocks fn)\<rparr>))"

definition prune_function :: "Function \<Rightarrow> Function option" where
  "prune_function fn =
     (let reachable = prune_reachable fn [fn_entry fn] {}
      in compact_block_ids (fn\<lparr>fn_blocks := filter (\<lambda>b. blk_id b \<in> reachable) (fn_blocks fn)\<rparr>))"

definition prune_unreachable :: "Module \<Rightarrow> Module option" where
  "prune_unreachable m =
     map_option (\<lambda>fs. m\<lparr>mod_functions := fs\<rparr>) (those (map prune_function (mod_functions m)))"

end
