(* ===== verification/Opt_Dce_Correct.thy ===== *)
theory Opt_Dce_Correct
  imports Opt_Dce
begin

text \<open>
  Deleting unused instructions keeps a function well formed, and keeps its executions for every
  meaning of instructions in which the pure ones, listed here, leave the state alone.
\<close>

section \<open>Positions in a filtered list\<close>

definition kept_index :: "('a \<Rightarrow> bool) \<Rightarrow> 'a list \<Rightarrow> nat \<Rightarrow> nat" where
  "kept_index P xs i = length (filter P (take i xs))"

lemma kept_index_nth:
  assumes "i < length xs" "P (xs ! i)"
  shows "kept_index P xs i < length (filter P xs)" "filter P xs ! kept_index P xs i = xs ! i"
proof -
  have "filter P xs = filter P (take i xs) @ xs ! i # filter P (drop (Suc i) xs)"
    using assms by (metis filter.simps(2) filter_append id_take_nth_drop)
  then show "kept_index P xs i < length (filter P xs)" "filter P xs ! kept_index P xs i = xs ! i"
    by (simp_all add: kept_index_def nth_append)
qed

lemma kept_index_less:
  assumes "j < i" "i \<le> length xs" "P (xs ! j)"
  shows "kept_index P xs j < kept_index P xs i"
proof -
  have "kept_index P xs j < length (filter P (take i xs))"
    using kept_index_nth(1) [of j "take i xs" P] assms by (simp add: kept_index_def min_def split: if_splits)
  then show ?thesis by (simp add: kept_index_def)
qed

lemma kept_index_ex:
  "k < length (filter P xs) \<Longrightarrow> \<exists>i < length xs. P (xs ! i) \<and> kept_index P xs i = k"
proof (induction xs arbitrary: k)
  case (Cons x xs)
  show ?case
  proof (cases "P x \<and> k = 0")
    case True
    then show ?thesis by (intro exI [of _ 0]) (simp add: kept_index_def)
  next
    case False
    let ?k = "if P x then k - 1 else k"
    have "?k < length (filter P xs)" using Cons.prems False by (auto split: if_splits)
    from Cons.IH [OF this] obtain i where "i < length xs" "P (xs ! i)" "kept_index P xs i = ?k" by blast
    then show ?thesis using False by (intro exI [of _ "Suc i"]) (auto simp: kept_index_def split: if_splits)
  qed
qed simp

lemma map_filter_filter: "distinct (List.map_filter f xs) \<Longrightarrow> distinct (List.map_filter f (filter P xs))"
proof -
  have "set (List.map_filter f (filter P xs)) \<subseteq> set (List.map_filter f xs)" for xs
    by (auto simp: map_filter_iff)
  then show "distinct (List.map_filter f xs) \<Longrightarrow> distinct (List.map_filter f (filter P xs))"
    by (induction xs) (auto split: option.splits)
qed

section \<open>Functions with the same control flow\<close>

lemma flow_walk_cong: "flow_edge fn' = flow_edge fn \<Longrightarrow> flow_walk fn' a p b = flow_walk fn a p b"
proof -
  have "flow_walk fn a p b \<Longrightarrow> flow_edge fn' = flow_edge fn \<Longrightarrow> flow_walk fn' a p b" for fn fn'
    by (induction rule: flow_walk.induct) (auto intro: flow_walk.intros)
  then show "flow_edge fn' = flow_edge fn \<Longrightarrow> flow_walk fn' a p b = flow_walk fn a p b" by metis
qed

lemma on_every_path_cong:
  "flow_edge fn' = flow_edge fn \<Longrightarrow> fn_entry fn' = fn_entry fn \<Longrightarrow> on_every_path fn' a b = on_every_path fn a b"
  unfolding on_every_path_def using flow_walk_cong [of fn' fn] by simp

section \<open>Well-formedness\<close>

abbreviation live :: "Function \<Rightarrow> Instruction \<Rightarrow> bool" where
  "live fn \<equiv> instruction_is_live (used_values fn)"

definition dce_block :: "Function \<Rightarrow> BasicBlock \<Rightarrow> BasicBlock" where
  "dce_block fn b = b\<lparr>blk_instructions := filter (live fn) (blk_instructions b)\<rparr>"

lemma dce_blocks: "fn_blocks (dce_function fn) = map (dce_block fn) (fn_blocks fn)"
  by (simp add: dce_function_def dce_block_def Let_def)

lemma dce_block_simps [simp]:
  "blk_id (dce_block fn b) = blk_id b" "blk_terminator (dce_block fn b) = blk_terminator b"
  "blk_instructions (dce_block fn b) = filter (live fn) (blk_instructions b)"
  by (simp_all add: dce_block_def)

lemma dce_same [simp]:
  "fn_entry (dce_function fn) = fn_entry fn" "fn_home_object (dce_function fn) = fn_home_object fn"
  "length (fn_blocks (dce_function fn)) = length (fn_blocks fn)"
  by (simp_all add: dce_function_def Let_def)

lemma flow_edge_dce: "flow_edge (dce_function fn) = flow_edge fn"
  by (auto simp: flow_edge_def dce_blocks)

lemma live_def: "dest i = Some v \<Longrightarrow> v \<in> used_values fn \<Longrightarrow> live fn i"
  by (simp add: instruction_is_live_def)

lemma used_values_iff:
  "v \<in> used_values fn \<longleftrightarrow> (\<exists>b\<in>set (fn_blocks fn). v \<in> set (terminator_uses (blk_terminator b)) \<or>
     (\<exists>i\<in>set (blk_instructions b). v \<in> set (uses i)))"
  by (auto simp: used_values_def)

lemma defined_at_dce:
  assumes "defined_at fn v D j" "v \<in> used_values fn"
  obtains b where "b \<in> set (fn_blocks fn)" "blk_id b = D" "j < length (blk_instructions b)"
    "live fn (blk_instructions b ! j)"
    "defined_at (dce_function fn) v D (kept_index (live fn) (blk_instructions b) j)"
proof -
  obtain b where b: "b \<in> set (fn_blocks fn)" "blk_id b = D" "j < length (blk_instructions b)"
    "dest (blk_instructions b ! j) = Some v" using assms(1) unfolding defined_at_def by blast
  have l: "live fn (blk_instructions b ! j)" by (rule live_def [OF b(4) assms(2)])
  have "dce_block fn b \<in> set (fn_blocks (dce_function fn))" using b(1) by (simp add: dce_blocks)
  moreover have "blk_id (dce_block fn b) = D" using b(2) by simp
  moreover note k = kept_index_nth [of j "blk_instructions b" "live fn", OF b(3) l]
  ultimately have "defined_at (dce_function fn) v D (kept_index (live fn) (blk_instructions b) j)"
    unfolding defined_at_def using b(4) by (intro bexI [of _ "dce_block fn b"]) simp_all
  then show ?thesis using that b l by blast
qed

lemma use_ok_dce:
  assumes blocks: "\<forall>k < length (fn_blocks fn). block_wf m fn k (fn_blocks fn ! k)"
    and b: "b \<in> set (fn_blocks fn)" and used: "v \<in> used_values fn"
    and pos: "case pos of None \<Rightarrow> pos' = None | Some i \<Rightarrow> i \<le> length (blk_instructions b) \<and>
      pos' = Some (kept_index (live fn) (blk_instructions b) i)"
    and use: "use_ok fn v (blk_id b) pos"
  shows "use_ok (dce_function fn) v (blk_id b) pos'"
proof -
  obtain D j where D: "defined_at fn v D j" "on_every_path fn D (blk_id b)"
    "D = blk_id b \<longrightarrow> (case pos of None \<Rightarrow> True | Some i \<Rightarrow> j < i)" using use unfolding use_ok_def by blast
  obtain c where c: "c \<in> set (fn_blocks fn)" "blk_id c = D" "j < length (blk_instructions c)"
    "live fn (blk_instructions c ! j)"
    "defined_at (dce_function fn) v D (kept_index (live fn) (blk_instructions c) j)"
    by (rule defined_at_dce [OF D(1) used])
  have "on_every_path (dce_function fn) D (blk_id b)"
    using D(2) on_every_path_cong [OF flow_edge_dce] by simp
  moreover have "case pos' of None \<Rightarrow> True | Some i \<Rightarrow> kept_index (live fn) (blk_instructions c) j < i" if "D = blk_id b"
  proof -
    have "c = b" using block_of_id(1) [OF blocks c(1)] block_of_id(1) [OF blocks b] c(2) that by metis
    then show ?thesis using pos D(3) that c(4) by (auto split: option.splits intro: kept_index_less)
  qed
  ultimately show ?thesis using c(5) unfolding use_ok_def by blast
qed

lemma block_wf_dce:
  assumes "block_wf m fn k b"
  shows "block_wf m (dce_function fn) k (dce_block fn b)"
proof -
  have "constants_in_range m (dce_block fn b)" using assms by (auto simp: block_wf_def constants_in_range_def)
  then show ?thesis using assms by (auto simp: block_wf_def)
qed

lemma edge_block:
  assumes "\<forall>k < length (fn_blocks fn). block_wf m fn k (fn_blocks fn ! k)" and "(a, t) \<in> flow_edge fn"
  shows "\<exists>c\<in>set (fn_blocks fn). blk_id c = a"
proof -
  have "bix a < length (fn_blocks fn)" using assms(2) by (simp add: flow_edge_def)
  then have "fn_blocks fn ! bix a \<in> set (fn_blocks fn)" "bix (blk_id (fn_blocks fn ! bix a)) = bix a"
    using assms(1) by (simp_all add: block_wf_def)
  then show ?thesis by (metis bix_inj)
qed

lemma uses_ok_dce:
  assumes blocks: "\<forall>k < length (fn_blocks fn). block_wf m fn k (fn_blocks fn ! k)"
    and b: "b \<in> set (fn_blocks fn)" and ok: "uses_ok fn b"
  shows "uses_ok (dce_function fn) (dce_block fn b)"
  unfolding uses_ok_def
proof (intro conjI allI impI ballI)
  note edges = flow_edge_dce [of fn]
  fix v assume v: "v \<in> set (terminator_uses (blk_terminator (dce_block fn b)))"
  then have "use_ok fn v (blk_id b) None" using ok by (simp add: uses_ok_def)
  moreover have "v \<in> used_values fn" using v b used_values_iff by auto
  ultimately show "use_ok (dce_function fn) v (blk_id (dce_block fn b)) None"
    using use_ok_dce [OF blocks b, of v None None] by simp
next
  fix k assume "k < length (blk_instructions (dce_block fn b))"
  then obtain i where i: "i < length (blk_instructions b)" "live fn (blk_instructions b ! i)"
    "kept_index (live fn) (blk_instructions b) i = k" using kept_index_ex [of k "live fn" "blk_instructions b"] by auto
  let ?i = "blk_instructions b ! i"
  have at: "blk_instructions (dce_block fn b) ! k = ?i" using kept_index_nth(2) [of i _ "live fn", OF i(1,2)] i(3) by simp
  have used: "v \<in> used_values fn" if "v \<in> set (uses ?i)" for v
    using that b i(1) used_values_iff nth_mem by blast
  have wf: "instruction_wf fn b i ?i" using ok i(1) by (simp add: uses_ok_def)
  show "instruction_wf (dce_function fn) (dce_block fn b) k (blk_instructions (dce_block fn b) ! k)"
  proof (cases "\<exists>d sources. ?i = Phi d sources")
    case True
    then obtain d sources where phi: "?i = Phi d sources" by blast
    then have ok: "phi_ok fn b sources" using wf by (simp add: instruction_wf_def)
    have "use_ok (dce_function fn) (phi_value s) (phi_predecessor s) None" if s: "s \<in> set sources" for s
    proof -
      have "(phi_predecessor s, blk_id b) \<in> flow_edge fn" using ok s unfolding phi_ok_def by fastforce
      then obtain c where c: "c \<in> set (fn_blocks fn)" "blk_id c = phi_predecessor s"
        using edge_block [OF blocks] by blast
      have "phi_value s \<in> used_values fn" by (rule used) (simp add: phi uses_def s)
      moreover have "use_ok fn (phi_value s) (blk_id c) None" using ok s c(2) by (simp add: phi_ok_def)
      ultimately show ?thesis using use_ok_dce [OF blocks c(1), of _ None None] c(2) by simp
    qed
    then have "phi_ok (dce_function fn) (dce_block fn b) sources"
      using ok by (simp add: phi_ok_def flow_edge_dce)
    then show ?thesis unfolding at phi by (simp add: instruction_wf_def)
  next
    case False
    then have "\<not> forwards_with_args ?i \<and> (\<forall>v\<in>set (uses ?i). use_ok fn v (blk_id b) (Some i))"
      using wf by (cases ?i) (simp_all add: instruction_wf_def)
    moreover have "use_ok (dce_function fn) v (blk_id b) (Some k)" if "v \<in> set (uses ?i)" "use_ok fn v (blk_id b) (Some i)" for v
      using use_ok_dce [OF blocks b used [OF that(1)], of "Some k" "Some i"] that(2) i(1,3) by simp
    ultimately show ?thesis unfolding at using False by (cases ?i) (simp_all add: instruction_wf_def)
  qed
qed

lemma wf_dce:
  assumes "wf_function m fn"
  shows "wf_function m (dce_function fn)"
proof -
  note wf = assms [unfolded wf_function_def]
  have blocks: "\<forall>k < length (fn_blocks fn). block_wf m fn k (fn_blocks fn ! k)" using wf by blast
  have "fn_dests (dce_function fn) = List.map_filter dest (filter (live fn) (concat (map blk_instructions (fn_blocks fn))))"
    by (simp add: fn_dests_def dce_blocks filter_concat o_def)
  moreover have "distinct (List.map_filter dest (concat (map blk_instructions (fn_blocks fn))))"
    using wf by (simp add: fn_dests_def)
  ultimately have "distinct (fn_dests (dce_function fn))" using map_filter_filter by metis
  moreover have "\<forall>b\<in>set (fn_blocks (dce_function fn)). uses_ok (dce_function fn) b"
    using wf uses_ok_dce [OF blocks] by (auto simp: dce_blocks)
  moreover have "\<forall>k < length (fn_blocks (dce_function fn)). block_wf m (dce_function fn) k (fn_blocks (dce_function fn) ! k)"
    using blocks block_wf_dce by (simp add: dce_blocks)
  ultimately show ?thesis using wf by (simp add: wf_function_def)
qed

section \<open>Executions\<close>

text \<open>
  A meaning of instructions: \<open>act prev i vs s\<close> is the result and the new state of instruction
  \<open>i\<close> with operands \<open>vs\<close>, after arriving from block \<open>prev\<close> (a phi node selects by it);
  \<open>pick t vs s\<close> is the block a terminator goes to. The trace records, for every block that is
  run, the operands its terminator sees and the state.
\<close>

type_synonym ('v, 's) meaning = "BasicBlockId option \<Rightarrow> Instruction \<Rightarrow> 'v list \<Rightarrow> 's \<Rightarrow> 'v \<times> 's"
type_synonym ('v, 's) chooser = "Terminator \<Rightarrow> 'v list \<Rightarrow> 's \<Rightarrow> BasicBlockId option"

definition run_instruction ::
  "('v, 's) meaning \<Rightarrow> BasicBlockId option \<Rightarrow> (ValueId \<Rightarrow> 'v) \<times> 's \<Rightarrow> Instruction \<Rightarrow> (ValueId \<Rightarrow> 'v) \<times> 's" where
  "run_instruction act prev = (\<lambda>(env, s) i.
     case act prev i (map env (uses i)) s of
       (v, s') \<Rightarrow> (case dest i of None \<Rightarrow> env | Some d \<Rightarrow> env(d := v), s'))"

definition run_block ::
  "('v, 's) meaning \<Rightarrow> BasicBlockId option \<Rightarrow> Instruction list \<Rightarrow> (ValueId \<Rightarrow> 'v) \<times> 's \<Rightarrow> (ValueId \<Rightarrow> 'v) \<times> 's" where
  "run_block act prev is st = foldl (run_instruction act prev) st is"

primrec block_trace ::
  "('v, 's) meaning \<Rightarrow> ('v, 's) chooser \<Rightarrow> Function \<Rightarrow> nat \<Rightarrow> BasicBlockId option \<Rightarrow> BasicBlockId \<Rightarrow>
   (ValueId \<Rightarrow> 'v) \<Rightarrow> 's \<Rightarrow> (BasicBlockId \<times> 'v list \<times> 's) list" where
  "block_trace act pick fn 0 prev b env s = []"
| "block_trace act pick fn (Suc k) prev b env s =
     (case block_by_id fn b of
        None \<Rightarrow> []
      | Some block \<Rightarrow>
          (case run_block act prev (blk_instructions block) (env, s) of (env', s') \<Rightarrow>
             let vs = map env' (terminator_uses (blk_terminator block)) in
             (b, vs, s') #
               (case pick (blk_terminator block) vs s' of
                  None \<Rightarrow> []
                | Some next \<Rightarrow> block_trace act pick fn k (Some b) next env' s')))"

text \<open>
  What may happen while an instruction runs, by what the instruction is and apart from the list in the
  code. Pure instructions at most read or allocate. Some instructions have a value but may run code on
  the way: arithmetic and relational comparisons convert objects to primitive values, reading a
  property may call a getter, and \<open>StoreEnvSlot\<close> writes. All others (calls, writes, deletions,
  suspensions, promises) may do anything.
\<close>

definition pure_instruction :: "Instruction \<Rightarrow> bool" where
  "pure_instruction i =
     (case i of
        Const _ _ \<Rightarrow> True | Phi _ _ \<Rightarrow> True | LoadVar _ _ \<Rightarrow> True | LoadSlot _ _ _ \<Rightarrow> True
      | NewObject _ _ \<Rightarrow> True | NewArray _ _ \<Rightarrow> True | CloneArrayTemplate _ _ \<Rightarrow> True
      | InitObjectLiteral _ _ _ \<Rightarrow> True | NewPromise _ \<Rightarrow> True | CollectRestArgs _ _ \<Rightarrow> True
      | GetSuperBase _ \<Rightarrow> True | GetSuperConstructor _ \<Rightarrow> True
      | IsException _ _ \<Rightarrow> True | EncodeException _ _ \<Rightarrow> True | ExceptionToObject _ _ \<Rightarrow> True
      | GuardSameFunction _ _ _ \<Rightarrow> True | GuardTag _ _ _ \<Rightarrow> True | GuardShape _ _ _ \<Rightarrow> True
      | GuardElementsKind _ _ _ _ \<Rightarrow> True | GuardCallTarget _ _ _ \<Rightarrow> True
      | Compare _ op _ _ \<Rightarrow> \<not> is_relational op
      | Unary _ op _ \<Rightarrow> op = NotOp \<or> op = Void \<or> op = IsNullish
      | _ \<Rightarrow> False)"

definition runs_hidden_code :: "Instruction \<Rightarrow> bool" where
  "runs_hidden_code i =
     (case i of
        Binary _ _ _ _ \<Rightarrow> True | StringConcatVa _ _ \<Rightarrow> True
      | Compare _ op _ _ \<Rightarrow> is_relational op
      | Unary _ op _ \<Rightarrow> op = Neg \<or> op = Pos \<or> op = BitNot \<or> op = Delete
      | GetProp _ _ _ _ _ \<Rightarrow> True | GetElem _ _ _ _ \<Rightarrow> True
      | LoadEnvSlot _ _ _ _ \<Rightarrow> True | StoreEnvSlot _ _ _ _ _ _ \<Rightarrow> True
      | _ \<Rightarrow> False)"

definition keeps_pure :: "('v, 's) meaning \<Rightarrow> bool" where
  \<comment> \<open>pure instructions leave the state alone\<close>
  "keeps_pure act \<longleftrightarrow> (\<forall>prev i vs s. pure_instruction i \<longrightarrow> snd (act prev i vs s) = s)"

definition hidden_code_is_used :: "Function \<Rightarrow> bool" where
  \<comment> \<open>the result of every instruction of the second kind is used, as by the test for an exception\<close>
  "hidden_code_is_used fn \<longleftrightarrow>
     list_all (\<lambda>b. list_all (\<lambda>i. runs_hidden_code i \<longrightarrow> (case dest i of None \<Rightarrow> True | Some d \<Rightarrow> d \<in> used_values fn))
       (blk_instructions b)) (fn_blocks fn)"

lemma deleted_is_pure:
  "\<not> instruction_is_live U i \<Longrightarrow> runs_hidden_code i \<longrightarrow> (case dest i of None \<Rightarrow> True | Some d \<Rightarrow> d \<in> U) \<Longrightarrow> pure_instruction i"
  by (cases i) (auto simp: instruction_is_live_def instruction_has_effect_def pure_instruction_def runs_hidden_code_def dest_def
      split: option.splits intro: UnaryOp.exhaust)

lemma run_filtered:
  assumes "keeps_pure act" and "\<forall>i\<in>set is. set (uses i) \<subseteq> U"
    and "\<forall>i\<in>set is. runs_hidden_code i \<longrightarrow> (case dest i of None \<Rightarrow> True | Some d \<Rightarrow> d \<in> U)"
    and "\<forall>v\<in>U. env v = env' v"
  shows "snd (run_block act prev (filter (instruction_is_live U) is) (env', s)) = snd (run_block act prev is (env, s)) \<and>
    (\<forall>v\<in>U. fst (run_block act prev is (env, s)) v = fst (run_block act prev (filter (instruction_is_live U) is) (env', s)) v)"
  using assms(2-4)
proof (induction "is" arbitrary: env env' s)
  case Nil
  then show ?case by (simp add: run_block_def)
next
  case (Cons i "is")
  have ops: "map env (uses i) = map env' (uses i)" using Cons.prems(1,3) by auto
  obtain v s1 where a: "act prev i (map env (uses i)) s = (v, s1)" by fastforce
  let ?upd = "\<lambda>env. case dest i of None \<Rightarrow> env | Some d \<Rightarrow> env(d := v)"
  have uses: "\<forall>i\<in>set is. set (uses i) \<subseteq> U"
    "\<forall>i\<in>set is. runs_hidden_code i \<longrightarrow> (case dest i of None \<Rightarrow> True | Some d \<Rightarrow> d \<in> U)" using Cons.prems(1,2) by simp_all
  have full: "run_block act prev (i # is) (env, s) = run_block act prev is (?upd env, s1)"
    using a by (simp add: run_block_def run_instruction_def)
  show ?case
  proof (cases "instruction_is_live U i")
    case True
    have "\<forall>v\<in>U. ?upd env v = ?upd env' v" using Cons.prems(3) by (simp split: option.split)
    moreover have "run_block act prev (filter (instruction_is_live U) (i # is)) (env', s) =
        run_block act prev (filter (instruction_is_live U) is) (?upd env', s1)"
      using True a ops by (simp add: run_block_def run_instruction_def)
    ultimately show ?thesis using Cons.IH [OF uses, of "?upd env" "?upd env'" s1] full by simp
  next
    case False
    then obtain d where d: "dest i = Some d" "d \<notin> U"
      by (auto simp: instruction_is_live_def split: option.splits)
    have "pure_instruction i" by (rule deleted_is_pure [OF False]) (use Cons.prems(2) in simp)
    then have "s1 = s" using assms(1) a unfolding keeps_pure_def by (metis snd_conv)
    moreover have "\<forall>v\<in>U. ?upd env v = env' v" using Cons.prems(3) d by auto
    ultimately show ?thesis using Cons.IH [OF uses, of "?upd env" env' s1] full False by simp
  qed
qed

lemma block_by_id_dce: "block_by_id (dce_function fn) b = map_option (dce_block fn) (block_by_id fn b)"
  by (simp add: block_by_id_def dce_blocks)

lemma trace_dce:
  assumes "keeps_pure act" and "hidden_code_is_used fn" and "\<forall>v\<in>used_values fn. env v = env' v"
  shows "block_trace act pick (dce_function fn) k prev b env' s = block_trace act pick fn k prev b env s"
  using assms(3)
proof (induction k arbitrary: prev b env env' s)
  case (Suc k)
  show ?case
  proof (cases "block_by_id fn b")
    case None
    then show ?thesis by (simp add: block_by_id_dce)
  next
    case (Some block)
    then have mem: "block \<in> set (fn_blocks fn)" by (auto simp: block_by_id_def get_at_Some_iff)
    have reads: "\<forall>i\<in>set (blk_instructions block). set (uses i) \<subseteq> used_values fn"
      using mem used_values_iff by blast
    have "\<forall>i\<in>set (blk_instructions block). runs_hidden_code i \<longrightarrow> (case dest i of None \<Rightarrow> True | Some d \<Rightarrow> d \<in> used_values fn)"
      using mem assms(2) unfolding hidden_code_is_used_def list_all_iff by blast
    note run = run_filtered [OF assms(1) reads this Suc.prems, of prev s]
    obtain e1 s1 where r: "run_block act prev (blk_instructions block) (env, s) = (e1, s1)" by fastforce
    obtain e2 s2 where r': "run_block act prev (filter (live fn) (blk_instructions block)) (env', s) = (e2, s2)" by fastforce
    have s: "s2 = s1" and e: "\<forall>v\<in>used_values fn. e1 v = e2 v" using run r r' by simp_all
    have vs: "map e2 (terminator_uses (blk_terminator block)) = map e1 (terminator_uses (blk_terminator block))"
    proof (rule map_cong [OF refl])
      fix v assume "v \<in> set (terminator_uses (blk_terminator block))"
      then have "v \<in> used_values fn" using mem used_values_iff by blast
      then show "e2 v = e1 v" using e by simp
    qed
    show ?thesis
      by (simp only: block_trace.simps block_by_id_dce Some option.map option.case dce_block_simps r r' prod.case s vs
          Let_def Suc.IH [OF e])
  qed
qed simp

section \<open>Properties\<close>

definition unused_read :: Function where
  \<comment> \<open>one constant is passed on and its sum with itself returned, another one is not used\<close>
  "unused_read = (function_new [] (BasicBlockId 0))\<lparr>fn_blocks :=
     [\<lparr>blk_id = BasicBlockId 0,
       blk_instructions = [Const (ValueId 0) (ConstantId 0), Const (ValueId 1) (ConstantId 0), LoadVar (ValueId 2) [120],
         SetProp (ValueId 3) (ValueId 0) (ValueId 0) (ValueId 0) True, Call None (ValueId 0) (ValueId 0) [] None,
         Binary (ValueId 4) Add (ValueId 0) (ValueId 0)],
       blk_terminator = Return (Some (ValueId 4))\<rparr>]\<rparr>"

text \<open>
  C30: Deleting the unused instructions of a verified function gives a verified function: no instruction that is kept, phi node or terminator has lost the definition of a
  value it reads, and no definition has moved behind its use.
\<close>

theorem dce_keeps_verified:
  assumes "verify_function m fn = Some (Inr ())"
  shows "verify_function m (dce_function fn) = Some (Inr ())"
  using wf_dce assms verify_function_result(2) by blast

theorem dce_keeps_verified_witness:
  "verify_function one_constant (dce_function unused_read) = Some (Inr ()) \<and> dce_function unused_read \<noteq> unused_read"
proof
  have "verify_function one_constant unused_read = Some (Inr ())" by code_simp
  then show "verify_function one_constant (dce_function unused_read) = Some (Inr ())" by (rule dce_keeps_verified)
  show "dce_function unused_read \<noteq> unused_read" by code_simp
qed

text \<open>
  C29: Deleting unused instructions does not change what a function does. For every meaning of
  instructions in which the pure ones leave the state alone (constants, phi nodes, reads of variables
  and slots, allocations, tests, strict equality), a function and the result of the pass run through
  the same blocks, with the same state and the same operands of the terminator at the end of each.
  Calls, writes, deletions and suspensions may do anything to the state. An instruction that has a
  value but may run code on the way (a conversion, a getter) or writes a captured variable must have
  its result used, as it is where the lowering tests for an exception: otherwise the pass deletes it,
  which the theorem \<open>dce_deletes_captured_writes\<close> shows.
\<close>

theorem dce_preserves_executions:
  assumes "keeps_pure act" and "hidden_code_is_used fn"
  shows "block_trace act pick (dce_function fn) k prev b env s = block_trace act pick fn k prev b env s"
  by (rule trace_dce [OF assms]) simp

definition counting :: "(nat, nat) meaning" where
  \<comment> \<open>every instruction that is not pure is counted in the state\<close>
  "counting prev i vs s = (s, if pure_instruction i then s else s + 1)"

theorem dce_preserves_executions_witness:
  "map blk_instructions (fn_blocks (dce_function unused_read)) =
     [[Const (ValueId 0) (ConstantId 0), SetProp (ValueId 3) (ValueId 0) (ValueId 0) (ValueId 0) True,
       Call None (ValueId 0) (ValueId 0) [] None, Binary (ValueId 4) Add (ValueId 0) (ValueId 0)]] \<and>
   block_trace counting (\<lambda>_ _ _. None) (dce_function unused_read) 1 None (BasicBlockId 0) (\<lambda>_. 0) 0 = [(BasicBlockId 0, [2], 3)]"
proof
  show "map blk_instructions (fn_blocks (dce_function unused_read)) =
     [[Const (ValueId 0) (ConstantId 0), SetProp (ValueId 3) (ValueId 0) (ValueId 0) (ValueId 0) True,
       Call None (ValueId 0) (ValueId 0) [] None, Binary (ValueId 4) Add (ValueId 0) (ValueId 0)]]"
    by code_simp
  have "keeps_pure counting" by (simp add: keeps_pure_def counting_def)
  moreover have "hidden_code_is_used unused_read" by code_simp
  ultimately have "block_trace counting (\<lambda>_ _ _. None) (dce_function unused_read) 1 None (BasicBlockId 0) (\<lambda>_. 0) 0 =
      block_trace counting (\<lambda>_ _ _. None) unused_read 1 None (BasicBlockId 0) (\<lambda>_. 0) 0"
    by (rule dce_preserves_executions)
  also have "\<dots> = [(BasicBlockId 0, [2], 3)]"
    by (simp add: unused_read_def block_by_id_def get_at_def bix_def run_block_def run_instruction_def counting_def
        pure_instruction_def dest_def function_new_def)
  finally show "block_trace counting (\<lambda>_ _ _. None) (dce_function unused_read) 1 None (BasicBlockId 0) (\<lambda>_. 0) 0 =
      [(BasicBlockId 0, [2], 3)]" .
qed

definition captured_write :: Function where
  "captured_write = (function_new [] (BasicBlockId 0))\<lparr>fn_blocks :=
     [\<lparr>blk_id = BasicBlockId 0,
       blk_instructions = [Const (ValueId 0) (ConstantId 0),
         StoreEnvSlot (Some (ValueId 1)) (ValueId 0) 0 (ValueId 0) (ValueId 0) True],
       blk_terminator = Return (Some (ValueId 0))\<rparr>]\<rparr>"

text \<open>
  The list of instructions with an effect lacks \<open>StoreEnvSlot\<close>, the write to a captured
  variable of a closure: when its completion value is not used, the pass deletes the write.
\<close>

theorem dce_deletes_captured_writes:
  "verify_function one_constant captured_write = Some (Inr ()) \<and>
   map blk_instructions (fn_blocks (dce_function captured_write)) = [[Const (ValueId 0) (ConstantId 0)]]"
proof
  show "verify_function one_constant captured_write = Some (Inr ())" by code_simp
  show "map blk_instructions (fn_blocks (dce_function captured_write)) = [[Const (ValueId 0) (ConstantId 0)]]"
    by code_simp
qed

end
