(* ===== verification/Opt_Prune.thy ===== *)
theory Opt_Prune
  imports Opt_Dce_Correct
begin

text \<open>
  Deleting the blocks the entry does not reach and renumbering the rest: when it panics, and that
  the result is the same control flow under new names.
\<close>

section \<open>The search\<close>

definition block_edges :: "Function \<Rightarrow> (BasicBlockId \<times> BasicBlockId) set" where
  "block_edges fn = {(a, s). \<exists>block. find_block fn a = Some block \<and> s \<in> set (terminator_successors (blk_terminator block))}"

lemma push_all_set: "set (fold (\<lambda>s stack. s # stack) ss stack) = set ss \<union> set stack"
  by (induction ss arbitrary: stack) auto

lemma prune_reachable_result:
  "\<forall>a\<in>R. \<forall>s. (a, s) \<in> block_edges fn \<longrightarrow> s \<in> R \<union> set stack \<Longrightarrow>
   \<forall>a\<in>R \<union> set stack. (e, a) \<in> (block_edges fn)\<^sup>* \<Longrightarrow> e \<in> R \<union> set stack \<Longrightarrow>
   prune_reachable fn stack R = {b. (e, b) \<in> (block_edges fn)\<^sup>*}"
proof (induction fn stack R rule: prune_reachable.induct)
  case (1 fn R)
  have closed: "\<forall>a\<in>R. \<forall>s. (a, s) \<in> block_edges fn \<longrightarrow> s \<in> R" and e: "e \<in> R" using 1 by simp_all
  have "b \<in> R" if "(e, b) \<in> (block_edges fn)\<^sup>*" for b
    using that
  proof (induction rule: rtrancl_induct)
    case (step y z)
    then show ?case using closed by blast
  qed (rule e)
  moreover have "(e, a) \<in> (block_edges fn)\<^sup>*" if "a \<in> R" for a using 1(2) that by simp
  ultimately have "R = {b. (e, b) \<in> (block_edges fn)\<^sup>*}" by blast
  then show ?case by simp
next
  case (2 fn b stack R)
  show ?case
  proof (cases "b \<in> R")
    case True
    have "prune_reachable fn stack R = {b. (e, b) \<in> (block_edges fn)\<^sup>*}"
      by (rule "2.IH"(1) [OF True]) (use "2.prems" True in auto)
    then show ?thesis using True by simp
  next
    case False
    show ?thesis
    proof (cases "find_block fn b")
      case None
      then have no: "(b, s) \<notin> block_edges fn" for s by (simp add: block_edges_def)
      have "prune_reachable fn stack (insert b R) = {b. (e, b) \<in> (block_edges fn)\<^sup>*}"
        by (rule "2.IH"(2) [OF False None]) (use "2.prems" no in auto)
      then show ?thesis using False None by simp
    next
      case (Some block)
      let ?ss = "terminator_successors (blk_terminator block)"
      have edges: "(b, s) \<in> block_edges fn \<longleftrightarrow> s \<in> set ?ss" for s using Some by (simp add: block_edges_def)
      have eb: "(e, b) \<in> (block_edges fn)\<^sup>*" using "2.prems"(2) by simp
      have "prune_reachable fn (fold (\<lambda>s stack. s # stack) ?ss stack) (insert b R) = {b. (e, b) \<in> (block_edges fn)\<^sup>*}"
      proof (rule "2.IH"(3) [OF False Some])
        show "\<forall>a\<in>insert b R. \<forall>s. (a, s) \<in> block_edges fn \<longrightarrow> s \<in> insert b R \<union> set (fold (\<lambda>s stack. s # stack) ?ss stack)"
          using "2.prems"(1) edges by (auto simp: push_all_set)
        show "\<forall>a\<in>insert b R \<union> set (fold (\<lambda>s stack. s # stack) ?ss stack). (e, a) \<in> (block_edges fn)\<^sup>*"
          using "2.prems"(2) eb edges by (auto simp: push_all_set intro: rtrancl_into_rtrancl)
        show "e \<in> insert b R \<union> set (fold (\<lambda>s stack. s # stack) ?ss stack)"
          using "2.prems"(3) by (auto simp: push_all_set)
      qed
      then show ?thesis using False Some by simp
    qed
  qed
qed

lemma find_block_wf:
  assumes "\<forall>k < length (fn_blocks fn). block_wf m fn k (fn_blocks fn ! k)"
  shows "find_block fn b = (if bix b < length (fn_blocks fn) then Some (fn_blocks fn ! bix b) else None)"
proof (cases "find_block fn b")
  case None
  then have "\<forall>c\<in>set (fn_blocks fn). blk_id c \<noteq> b" by (auto simp: find_block_def find_None_iff)
  then have "\<not> bix b < length (fn_blocks fn)" using assms by (metis bix_inj block_wf_def nth_mem)
  then show ?thesis using None by simp
next
  case (Some c)
  then have "c \<in> set (fn_blocks fn)" "blk_id c = b" by (auto simp: find_block_def find_Some_iff)
  then show ?thesis using block_of_id [OF assms] Some by auto
qed

lemma block_edges_wf:
  assumes "\<forall>k < length (fn_blocks fn). block_wf m fn k (fn_blocks fn ! k)"
  shows "block_edges fn = flow_edge fn"
  using assms by (auto simp: block_edges_def flow_edge_def find_block_wf [OF assms] block_wf_def split: if_splits)

definition reached :: "Function \<Rightarrow> BasicBlockId set" where
  "reached fn = {b. (fn_entry fn, b) \<in> (flow_edge fn)\<^sup>*}"

lemma prune_reached:
  assumes "\<forall>k < length (fn_blocks fn). block_wf m fn k (fn_blocks fn ! k)"
  shows "prune_reachable fn [fn_entry fn] {} = reached fn"
  using prune_reachable_result [of "{}" fn "[fn_entry fn]" "fn_entry fn"]
  by (simp add: block_edges_wf [OF assms] reached_def)

section \<open>New numbers\<close>

lemma fold_max_ge: "x \<in> set xs \<or> x = a \<Longrightarrow> x \<le> fold max xs (a::nat)"
proof -
  have start: "a \<le> fold max xs a" for a :: nat and xs
  proof (induction xs arbitrary: a)
    case (Cons y xs)
    show ?case using Cons.IH [of "max y a"] by simp
  qed simp
  show "x \<in> set xs \<or> x = a \<Longrightarrow> x \<le> fold max xs a"
  proof (induction xs arbitrary: a)
    case (Cons y xs)
    then show ?case using Cons.IH [of "max y a"] start [of "max y a" xs] by auto
  qed simp
qed

lemma new_ids_fold:
  "distinct (map blk_id bs) \<Longrightarrow> \<forall>b\<in>set bs. bix (blk_id b) < length T \<Longrightarrow>
   length (fold (\<lambda>(index, b) to_new. to_new[bix (blk_id b) := Some (block_at index)]) (enumerate k bs) T) = length T \<and>
   fold (\<lambda>(index, b) to_new. to_new[bix (blk_id b) := Some (block_at index)]) (enumerate k bs) T ! bix x =
     (if x \<in> blk_id ` set bs then Some (block_at (k + position (map blk_id bs) x)) else T ! bix x)"
proof (induction bs arbitrary: k T)
  case (Cons b bs)
  show ?case
    using Cons.prems Cons.IH [of "T[bix (blk_id b) := Some (block_at k)]" "Suc k"]
    by (auto simp: position_def bix_inj)
qed simp

lemma new_id_result:
  assumes "distinct (map blk_id bs)"
  shows "new_id (new_ids bs) x = (if x \<in> blk_id ` set bs then Some (block_at (position (map blk_id bs) x)) else None)"
proof -
  let ?T = "replicate (fold max (map (bix \<circ> blk_id) bs) 0 + 1) (None :: BasicBlockId option)"
  have "\<forall>b\<in>set bs. bix (blk_id b) < length ?T"
    using fold_max_ge [of _ "map (bix \<circ> blk_id) bs" 0] by (auto simp: less_Suc_eq_le)
  note F = new_ids_fold [OF assms this, of 0 x]
  have len: "length (new_ids bs) = length ?T" using F by (simp add: new_ids_def)
  show ?thesis
  proof (cases "x \<in> blk_id ` set bs")
    case True
    then have "bix x < length ?T" using \<open>\<forall>b\<in>set bs. bix (blk_id b) < length ?T\<close> by auto
    then show ?thesis using F True len by (simp add: new_id_def get_at_def new_ids_def)
  next
    case False
    have "?T ! bix x = None" if "bix x < length ?T" using that by (simp only: nth_replicate length_replicate)
    moreover have "new_ids bs ! bix x = ?T ! bix x" using F False by (simp add: new_ids_def)
    ultimately show ?thesis using False len by (auto simp: new_id_def get_at_def)
  qed
qed

section \<open>The function after pruning\<close>

definition kept_blocks :: "Function \<Rightarrow> BasicBlock list" where
  "kept_blocks fn = filter (\<lambda>b. blk_id b \<in> reached fn) (fn_blocks fn)"

definition renumber :: "Function \<Rightarrow> BasicBlockId \<Rightarrow> BasicBlockId" where
  "renumber fn b = block_at (position (map blk_id (kept_blocks fn)) b)"

definition pruned :: "Function \<Rightarrow> Function" where
  "pruned fn = fn\<lparr>fn_entry := renumber fn (fn_entry fn), fn_blocks := map (renamed_block (renumber fn)) (kept_blocks fn)\<rparr>"

definition refs_reached :: "Function \<Rightarrow> bool" where
  \<comment> \<open>a kept block mentions no deleted block: phi sources and the frames of a \<open>Deopt\<close> included\<close>
  "refs_reached fn \<longleftrightarrow> (\<forall>b\<in>set (kept_blocks fn). set (block_refs b) \<subseteq> reached fn)"

lemma remap_blocks_cong: "\<forall>x\<in>set (instruction_blocks i). f x = g x \<Longrightarrow> remap_blocks f i = remap_blocks g i"
  by (cases i) (auto simp: remap_blocks_def)

lemma term_remap_blocks_cong: "\<forall>x\<in>set (terminator_blocks t). f x = g x \<Longrightarrow> term_remap_blocks f t = term_remap_blocks g t"
  by (cases t) auto

lemma renamed_block_cong:
  assumes "\<forall>x\<in>set (block_refs b). f x = g x"
  shows "renamed_block f b = renamed_block g b"
  using assms remap_blocks_cong [of _ f g] term_remap_blocks_cong [of _ f g]
  by (auto simp: renamed_block_def block_refs_def)

lemma distinct_ids:
  assumes "wf_function m fn"
  shows "distinct (map blk_id (fn_blocks fn))"
proof -
  have "distinct (map (bix \<circ> blk_id) (fn_blocks fn))"
    using wf_blocks(1) [OF assms] by (simp add: ordered_ids_def distinct_conv_nth)
  then show ?thesis by (simp add: distinct_map comp_inj_on_iff inj_on_def)
qed

lemma kept_facts:
  assumes wf: "wf_function m fn"
  shows "distinct (map blk_id (kept_blocks fn))" "blk_id ` set (kept_blocks fn) = reached fn"
    "fn_entry fn \<in> reached fn" "length (kept_blocks fn) \<le> 2 ^ 32"
    "b \<in> reached fn \<Longrightarrow> bix b < length (fn_blocks fn)" "b \<in> reached fn \<Longrightarrow> fn_blocks fn ! bix b \<in> set (kept_blocks fn)"
    "b \<in> reached fn \<Longrightarrow> blk_id (fn_blocks fn ! bix b) = b"
    "(a, b) \<in> flow_edge fn \<Longrightarrow> a \<in> reached fn \<Longrightarrow> b \<in> reached fn"
    "c \<in> set (kept_blocks fn) \<Longrightarrow> fn_blocks fn ! bix (blk_id c) = c"
proof -
  have blocks: "\<forall>k < length (fn_blocks fn). block_wf m fn k (fn_blocks fn ! k)" and ids: "ordered_ids fn"
    and e: "bix (fn_entry fn) < length (fn_blocks fn)" using wf_blocks [OF wf] by blast+
  from distinct_ids [OF wf] show "distinct (map blk_id (kept_blocks fn))" unfolding kept_blocks_def by (rule distinct_map_filter)
  show "fn_entry fn \<in> reached fn" by (simp add: reached_def)
  show "length (kept_blocks fn) \<le> 2 ^ 32"
    using wf_blocks(2) [OF wf] length_filter_le [of "\<lambda>b. blk_id b \<in> reached fn" "fn_blocks fn"]
    unfolding kept_blocks_def by linarith
  show range: "bix b < length (fn_blocks fn)" if "b \<in> reached fn" for b
    using that e unfolding reached_def by (auto elim: rtranclE simp: flow_edge_def)
  show id: "blk_id (fn_blocks fn ! bix b) = b" if "b \<in> reached fn" for b
    using range [OF that] ids by (metis bix_inj ordered_ids_def)
  show mem: "fn_blocks fn ! bix b \<in> set (kept_blocks fn)" if "b \<in> reached fn" for b
    using range [OF that] id [OF that] that by (simp add: kept_blocks_def)
  show "blk_id ` set (kept_blocks fn) = reached fn"
  proof
    show "reached fn \<subseteq> blk_id ` set (kept_blocks fn)" using mem id by (metis image_eqI subsetI)
  qed (auto simp: kept_blocks_def)
  show "(a, b) \<in> flow_edge fn \<Longrightarrow> a \<in> reached fn \<Longrightarrow> b \<in> reached fn"
    by (auto simp: reached_def intro: rtrancl_into_rtrancl)
  show "c \<in> set (kept_blocks fn) \<Longrightarrow> fn_blocks fn ! bix (blk_id c) = c"
    using block_of_id(1) [OF blocks, of c] by (simp add: kept_blocks_def)
qed

lemma renumber_facts:
  assumes wf: "wf_function m fn" and a: "a \<in> reached fn"
  shows "bix (renumber fn a) < length (kept_blocks fn)" "kept_blocks fn ! bix (renumber fn a) = fn_blocks fn ! bix a"
    "b \<in> reached fn \<Longrightarrow> renumber fn a = renumber fn b \<longleftrightarrow> a = b"
proof -
  note k = kept_facts [OF wf]
  have mem: "x \<in> set (map blk_id (kept_blocks fn))" if "x \<in> reached fn" for x using k(2) that by simp
  have pos: "position (map blk_id (kept_blocks fn)) x < length (kept_blocks fn)"
    "map blk_id (kept_blocks fn) ! position (map blk_id (kept_blocks fn)) x = x" if "x \<in> reached fn" for x
    using position_less [OF mem [OF that]] position_nth [OF mem [OF that]] by simp_all
  have bix: "bix (renumber fn x) = position (map blk_id (kept_blocks fn)) x" if "x \<in> reached fn" for x
    unfolding renumber_def by (rule bix_block_at [OF pos(1) [OF that] k(4)])
  show "bix (renumber fn a) < length (kept_blocks fn)" using pos(1) [OF a] bix [OF a] by simp
  have "blk_id (kept_blocks fn ! bix (renumber fn a)) = a" using pos [OF a] bix [OF a] by simp
  moreover have "kept_blocks fn ! bix (renumber fn a) \<in> set (kept_blocks fn)" using pos(1) [OF a] bix [OF a] by simp
  ultimately show "kept_blocks fn ! bix (renumber fn a) = fn_blocks fn ! bix a" using k(9) by metis
  show "renumber fn a = renumber fn b \<longleftrightarrow> a = b" if "b \<in> reached fn"
    using pos(2) [OF a] pos(2) [OF that] bix [OF a] bix [OF that] by metis
qed

lemma prune_result:
  assumes wf: "wf_function m fn"
  shows "prune_function fn = (if refs_reached fn then Some (pruned fn) else None)"
proof -
  note k = kept_facts [OF wf]
  have blocks: "\<forall>k < length (fn_blocks fn). block_wf m fn k (fn_blocks fn ! k)" using wf_blocks [OF wf] by blast
  let ?K = "kept_blocks fn" and ?new = "new_id (new_ids (kept_blocks fn))"
  have new: "?new x = (if x \<in> reached fn then Some (renumber fn x) else None)" for x
    unfolding new_id_result [OF k(1)] k(2) renumber_def ..
  have "(\<exists>b\<in>set (fn_entry fn # concat (map block_refs ?K)). ?new b = None) \<longleftrightarrow> \<not> refs_reached fn"
    using k(3) by (auto simp: new refs_reached_def)
  moreover have "map (renamed_block (\<lambda>b. the (?new b))) ?K = map (renamed_block (renumber fn)) ?K" if "refs_reached fn"
  proof (rule map_cong [OF refl])
    fix b assume "b \<in> set ?K"
    then have "\<forall>x\<in>set (block_refs b). the (?new x) = renumber fn x" using that by (auto simp: refs_reached_def new)
    then show "renamed_block (\<lambda>b. the (?new b)) b = renamed_block (renumber fn) b" by (rule renamed_block_cong)
  qed
  moreover have "prune_function fn = compact_block_ids (fn\<lparr>fn_blocks := ?K\<rparr>)"
    unfolding prune_function_def prune_reached [OF blocks] Let_def kept_blocks_def ..
  ultimately show ?thesis
    using new [of "fn_entry fn"] k(3) by (simp add: Let_def compact_block_ids_def pruned_def del: map_eq_conv)
qed

section \<open>The control flow of the result\<close>

lemma successors_remap:
  "set (terminator_successors (term_remap_blocks f t)) = f ` set (terminator_successors t)"
  by (cases t) (auto simp: image_iff)

lemma terminator_uses_remap: "terminator_uses (term_remap_blocks f t) = terminator_uses t"
proof (cases t)
  case (Return v)
  then show ?thesis by (cases v) simp_all
qed (auto intro!: arg_cong [where f = concat])

lemma renumber_surj:
  assumes wf: "wf_function m fn" and "bix x < length (kept_blocks fn)"
  shows "\<exists>a\<in>reached fn. renumber fn a = x"
proof -
  note k = kept_facts [OF wf]
  let ?a = "blk_id (kept_blocks fn ! bix x)"
  have "position (map blk_id (kept_blocks fn)) ?a = bix x"
    using position_of_nth [OF k(1), of "bix x"] assms(2) by simp
  then have "renumber fn ?a = x" by (simp add: renumber_def)
  moreover have "?a \<in> reached fn" using assms(2) by (auto simp: k(2) [symmetric])
  ultimately show ?thesis by blast
qed

lemma pruned_block:
  assumes "wf_function m fn" "a \<in> reached fn"
  shows "fn_blocks (pruned fn) ! bix (renumber fn a) = renamed_block (renumber fn) (fn_blocks fn ! bix a)"
  using renumber_facts(1,2) [OF assms] by (simp add: pruned_def)

lemma flow_edge_pruned:
  assumes wf: "wf_function m fn"
  shows "(x, y) \<in> flow_edge (pruned fn) \<longleftrightarrow>
    (\<exists>a b. a \<in> reached fn \<and> (a, b) \<in> flow_edge fn \<and> x = renumber fn a \<and> y = renumber fn b)"
proof
  assume xy: "(x, y) \<in> flow_edge (pruned fn)"
  then have "bix x < length (kept_blocks fn)" by (simp add: flow_edge_def pruned_def)
  then obtain a where a: "a \<in> reached fn" "renumber fn a = x" using renumber_surj [OF wf] by blast
  have "y \<in> set (terminator_successors (blk_terminator (fn_blocks (pruned fn) ! bix x)))"
    using xy by (simp add: flow_edge_def)
  then have "y \<in> set (terminator_successors (blk_terminator (renamed_block (renumber fn) (fn_blocks fn ! bix a))))"
    using pruned_block [OF wf a(1)] a(2) by simp
  then obtain b where b: "b \<in> set (terminator_successors (blk_terminator (fn_blocks fn ! bix a)))" "y = renumber fn b"
    by (auto simp: renamed_block_def successors_remap)
  have n: "bix a < length (fn_blocks fn)" by (rule kept_facts(5) [OF wf a(1)])
  have "bix b < length (fn_blocks fn)" using wf_blocks(4) [OF wf] n b(1) by (auto simp: block_wf_def)
  then have "(a, b) \<in> flow_edge fn" using n b(1) by (simp add: flow_edge_def)
  then show "\<exists>a b. a \<in> reached fn \<and> (a, b) \<in> flow_edge fn \<and> x = renumber fn a \<and> y = renumber fn b"
    using a b(2) by blast
next
  assume "\<exists>a b. a \<in> reached fn \<and> (a, b) \<in> flow_edge fn \<and> x = renumber fn a \<and> y = renumber fn b"
  then obtain a b where ab: "a \<in> reached fn" "(a, b) \<in> flow_edge fn" "x = renumber fn a" "y = renumber fn b" by blast
  have b: "b \<in> reached fn" by (rule kept_facts(8) [OF wf ab(2,1)])
  have "y \<in> set (terminator_successors (blk_terminator (fn_blocks (pruned fn) ! bix x)))"
    using ab pruned_block [OF wf ab(1)] by (simp add: renamed_block_def successors_remap flow_edge_def)
  then show "(x, y) \<in> flow_edge (pruned fn)"
    using renumber_facts(1) [OF wf ab(1)] renumber_facts(1) [OF wf b] ab(3,4) by (simp add: flow_edge_def pruned_def)
qed

lemma walk_pruned:
  assumes wf: "wf_function m fn"
  shows "flow_walk (pruned fn) x q y \<Longrightarrow> x = renumber fn (fn_entry fn) \<Longrightarrow>
    \<exists>p b. flow_walk fn (fn_entry fn) p b \<and> q = map (renumber fn) p \<and> y = renumber fn b \<and> b \<in> reached fn \<and> set p \<subseteq> reached fn"
proof (induction rule: flow_walk.induct)
  case (here a)
  then show ?case using kept_facts(3) [OF wf] flow_walk.here [of fn "fn_entry fn"]
    by (intro exI [of _ "[fn_entry fn]"] exI [of _ "fn_entry fn"]) simp
next
  case (step x q y z)
  then obtain p b where p: "flow_walk fn (fn_entry fn) p b" "q = map (renumber fn) p" "y = renumber fn b"
    "b \<in> reached fn" "set p \<subseteq> reached fn" by blast
  obtain a c where c: "a \<in> reached fn" "(a, c) \<in> flow_edge fn" "y = renumber fn a" "z = renumber fn c"
    using step.hyps(2) flow_edge_pruned [OF wf] by blast
  have "a = b" using renumber_facts(3) [OF wf c(1) p(4)] c(3) p(3) by simp
  moreover have "c \<in> reached fn" by (rule kept_facts(8) [OF wf c(2,1)])
  ultimately show ?case using p c flow_walk.step [OF p(1), of c]
    by (intro exI [of _ "p @ [c]"] exI [of _ c]) simp
qed

lemma pruned_reachable:
  assumes wf: "wf_function m fn" and b: "b \<in> reached fn"
  shows "(fn_entry (pruned fn), renumber fn b) \<in> (flow_edge (pruned fn))\<^sup>*"
proof -
  have "(fn_entry fn, b) \<in> (flow_edge fn)\<^sup>*" using b by (simp add: reached_def)
  then show ?thesis
  proof (induction rule: rtrancl_induct)
    case base
    then show ?case by (simp add: pruned_def)
  next
    case (step y z)
    then have "(renumber fn y, renumber fn z) \<in> flow_edge (pruned fn)"
      using flow_edge_pruned [OF wf] by (auto simp: reached_def)
    then show ?case using step.IH by (rule rtrancl_into_rtrancl [rotated])
  qed
qed

lemma walk_reached:
  "flow_walk fn a p b \<Longrightarrow> a \<in> reached fn \<Longrightarrow> set p \<subseteq> reached fn \<and> b \<in> reached fn"
  by (induction rule: flow_walk.induct) (auto simp: reached_def intro: rtrancl_into_rtrancl)

lemma path_pruned:
  assumes wf: "wf_function m fn" and b: "b \<in> reached fn" and D: "on_every_path fn D b"
  shows "D \<in> reached fn" "on_every_path (pruned fn) (renumber fn D) (renumber fn b)"
proof -
  obtain p where p: "flow_walk fn (fn_entry fn) p b" using b walk_rtrancl unfolding reached_def by blast
  have "set p \<subseteq> reached fn" using walk_reached [OF p] kept_facts(3) [OF wf] by blast
  then show "D \<in> reached fn" using D p unfolding on_every_path_def by blast
  have entry: "fn_entry (pruned fn) = renumber fn (fn_entry fn)" by (simp add: pruned_def)
  show "on_every_path (pruned fn) (renumber fn D) (renumber fn b)"
    unfolding on_every_path_def
  proof (intro allI impI)
    fix q assume "flow_walk (pruned fn) (fn_entry (pruned fn)) q (renumber fn b)"
    from walk_pruned [OF wf this entry] obtain p c where p: "flow_walk fn (fn_entry fn) p c"
      "q = map (renumber fn) p" "renumber fn b = renumber fn c" "c \<in> reached fn" by blast
    have "c = b" using renumber_facts(3) [OF wf b p(4)] p(3) by simp
    then have "D \<in> set p" using D p(1) unfolding on_every_path_def by blast
    then show "renumber fn D \<in> set q" using p(2) by simp
  qed
qed

section \<open>Well-formedness of the result\<close>

lemma renamed_block_simps [simp]:
  "blk_id (renamed_block f b) = f (blk_id b)"
  "blk_instructions (renamed_block f b) = map (remap_blocks f) (blk_instructions b)"
  "blk_terminator (renamed_block f b) = term_remap_blocks f (blk_terminator b)"
  by (simp_all add: renamed_block_def)

lemma defined_at_pruned:
  assumes wf: "wf_function m fn" and D: "D \<in> reached fn" and d: "defined_at fn v D j"
  shows "defined_at (pruned fn) v (renumber fn D) j"
proof -
  obtain b where b: "b \<in> set (fn_blocks fn)" "blk_id b = D" "j < length (blk_instructions b)"
    "dest (blk_instructions b ! j) = Some v" using d unfolding defined_at_def by blast
  have "renamed_block (renumber fn) b \<in> set (fn_blocks (pruned fn))"
    using b(1,2) D by (simp add: pruned_def kept_blocks_def)
  then show ?thesis
    unfolding defined_at_def using b by (intro bexI [of _ "renamed_block (renumber fn) b"]) (simp_all add: dest_remap_blocks)
qed

lemma use_ok_pruned:
  assumes wf: "wf_function m fn" and b: "b \<in> reached fn" and use: "use_ok fn v b pos"
  shows "use_ok (pruned fn) v (renumber fn b) pos"
proof -
  obtain D j where D: "defined_at fn v D j" "on_every_path fn D b"
    "D = b \<longrightarrow> (case pos of None \<Rightarrow> True | Some i \<Rightarrow> j < i)" using use unfolding use_ok_def by blast
  note p = path_pruned [OF wf b D(2)]
  have "renumber fn D = renumber fn b \<longleftrightarrow> D = b" by (rule renumber_facts(3) [OF wf p(1) b])
  then show ?thesis
    unfolding use_ok_def using defined_at_pruned [OF wf p(1) D(1)] p(2) D(3) by blast
qed

lemma phi_ok_pruned:
  assumes wf: "wf_function m fn" and b: "blk_id b \<in> reached fn"
    and s: "phi_predecessor ` set sources \<subseteq> reached fn" and phi: "phi_ok fn b sources"
  shows "phi_ok (pruned fn) (renamed_block (renumber fn) b)
    (map (\<lambda>s. s\<lparr>phi_predecessor := renumber fn (phi_predecessor s)\<rparr>) sources)"
proof -
  note k = kept_facts [OF wf]
  have inj: "inj_on (renumber fn) (reached fn)" using renumber_facts(3) [OF wf] by (auto simp: inj_on_def)
  have preds: "phi_predecessor ` set sources = {a. (a, blk_id b) \<in> flow_edge fn}" using phi by (simp add: phi_ok_def)
  have same: "renumber fn ` {a. (a, blk_id b) \<in> flow_edge fn} = {x. (x, renumber fn (blk_id b)) \<in> flow_edge (pruned fn)}"
  proof
    show "renumber fn ` {a. (a, blk_id b) \<in> flow_edge fn} \<subseteq> {x. (x, renumber fn (blk_id b)) \<in> flow_edge (pruned fn)}"
      using s preds by (auto simp: flow_edge_pruned [OF wf])
    show "{x. (x, renumber fn (blk_id b)) \<in> flow_edge (pruned fn)} \<subseteq> renumber fn ` {a. (a, blk_id b) \<in> flow_edge fn}"
    proof
      fix x assume "x \<in> {x. (x, renumber fn (blk_id b)) \<in> flow_edge (pruned fn)}"
      then obtain a c where c: "a \<in> reached fn" "(a, c) \<in> flow_edge fn" "x = renumber fn a"
        "renumber fn (blk_id b) = renumber fn c" by (auto simp: flow_edge_pruned [OF wf])
      have "blk_id b = c" using renumber_facts(3) [OF wf b k(8) [OF c(2,1)]] c(4) by blast
      then show "x \<in> renumber fn ` {a. (a, blk_id b) \<in> flow_edge fn}" using c by blast
    qed
  qed
  then have sources: "(\<lambda>s. renumber fn (phi_predecessor s)) ` set sources =
      {x. (x, renumber fn (blk_id b)) \<in> flow_edge (pruned fn)}"
    unfolding preds [symmetric] image_image .
  have "distinct (map (renumber fn) (map phi_predecessor sources))"
    using phi inj_on_subset [OF inj s] by (simp only: phi_ok_def distinct_map [of "renumber fn"] set_map)
  moreover have "renumber fn (blk_id b) \<noteq> fn_entry (pruned fn)"
    using phi renumber_facts(3) [OF wf b k(3)] by (simp add: pruned_def phi_ok_def)
  moreover have "use_ok (pruned fn) (phi_value s) (renumber fn (phi_predecessor s)) None" if "s \<in> set sources" for s
    using use_ok_pruned [OF wf, of "phi_predecessor s" "phi_value s" None] phi s that by (auto simp: phi_ok_def)
  ultimately show ?thesis
    using phi by (simp add: phi_ok_def o_def sources)
qed

lemma uses_ok_pruned:
  assumes wf: "wf_function m fn" and refs: "refs_reached fn" and b: "b \<in> set (kept_blocks fn)"
  shows "uses_ok (pruned fn) (renamed_block (renumber fn) b)"
  unfolding uses_ok_def
proof (intro conjI allI impI ballI)
  have r: "blk_id b \<in> reached fn" using b by (simp add: kept_blocks_def)
  have ok: "uses_ok fn b" using wf b by (simp add: wf_function_def kept_blocks_def)
  fix v assume "v \<in> set (terminator_uses (blk_terminator (renamed_block (renumber fn) b)))"
  then show "use_ok (pruned fn) v (blk_id (renamed_block (renumber fn) b)) None"
    using ok use_ok_pruned [OF wf r, of v None] by (simp add: uses_ok_def terminator_uses_remap)
next
  have r: "blk_id b \<in> reached fn" using b by (simp add: kept_blocks_def)
  have ok: "uses_ok fn b" using wf b by (simp add: wf_function_def kept_blocks_def)
  fix k assume "k < length (blk_instructions (renamed_block (renumber fn) b))"
  then have k: "k < length (blk_instructions b)" by simp
  let ?i = "blk_instructions b ! k"
  have i: "instruction_wf fn b k ?i" using ok k by (simp add: uses_ok_def)
  have "instruction_wf (pruned fn) (renamed_block (renumber fn) b) k (remap_blocks (renumber fn) ?i)"
  proof (cases "\<exists>d sources. ?i = Phi d sources")
    case True
    then obtain d sources where phi: "?i = Phi d sources" by blast
    have "set (instruction_blocks ?i) \<subseteq> set (block_refs b)" using nth_mem [OF k] by (auto simp: block_refs_def)
    then have "phi_predecessor ` set sources \<subseteq> reached fn" using refs b by (fastforce simp: refs_reached_def phi)
    then show ?thesis
      using phi_ok_pruned [OF wf r] i by (simp add: phi instruction_wf_def remap_blocks_def)
  next
    case False
    then have "\<not> forwards_with_args ?i \<and> (\<forall>v\<in>set (uses ?i). use_ok fn v (blk_id b) (Some k))"
      using i by (cases ?i) (simp_all add: instruction_wf_def)
    moreover have "remap_blocks (renumber fn) ?i = ?i" using False by (cases ?i) (simp_all add: remap_blocks_def)
    moreover note use_ok_pruned [OF wf r, of _ "Some k"]
    ultimately show ?thesis using False by (cases ?i) (simp_all add: instruction_wf_def)
  qed
  then show "instruction_wf (pruned fn) (renamed_block (renumber fn) b) k
      (blk_instructions (renamed_block (renumber fn) b) ! k)" using k by simp
qed


lemma constants_remap: "constants_in_range m b \<Longrightarrow> constants_in_range m (renamed_block f b)"
proof -
  have "remap_blocks f i = Const d c \<longleftrightarrow> i = Const d c" for i d c by (cases i) (auto simp: remap_blocks_def)
  then have "Const d c \<in> remap_blocks f ` set is \<longleftrightarrow> Const d c \<in> set is" for d c "is" by (metis (no_types, lifting) image_iff)
  then show "constants_in_range m b \<Longrightarrow> constants_in_range m (renamed_block f b)"
    by (cases "blk_terminator b") (auto simp: constants_in_range_def)
qed

lemma dests_remap:
  "List.map_filter dest (concat (map (\<lambda>b. map (remap_blocks f) (blk_instructions b)) bs)) =
   List.map_filter dest (concat (map blk_instructions bs))"
proof -
  have "List.map_filter dest (map (remap_blocks f) is) = List.map_filter dest is" for "is"
    by (induction "is") (simp_all add: dest_remap_blocks split: option.split)
  then show ?thesis by (induction bs) simp_all
qed

lemma dests_kept: "distinct (List.map_filter dest (concat (map g bs))) \<Longrightarrow>
  distinct (List.map_filter dest (concat (map g (filter P bs))))"
proof (induction bs)
  case (Cons b bs)
  have "set (List.map_filter dest (concat (map g (filter P bs)))) \<subseteq> set (List.map_filter dest (concat (map g bs)))"
    by (fastforce simp: map_filter_iff)
  then show ?case using Cons by auto
qed simp

lemma block_wf_pruned:
  assumes wf: "wf_function m fn" and refs: "refs_reached fn" and k: "k < length (kept_blocks fn)"
  shows "block_wf m (pruned fn) k (renamed_block (renumber fn) (kept_blocks fn ! k))"
proof -
  let ?b = "kept_blocks fn ! k"
  have b: "?b \<in> set (kept_blocks fn)" using k by simp
  then have mem: "?b \<in> set (fn_blocks fn)" "blk_id ?b \<in> reached fn" by (simp_all add: kept_blocks_def)
  have "block_wf m fn (bix (blk_id ?b)) ?b"
    using wf_blocks(4) [OF wf] kept_facts(5) [OF wf mem(2)] kept_facts(9) [OF wf b] by metis
  then have old: "blk_instructions ?b = [] \<or> blk_terminator ?b \<noteq> Unreachable" "constants_in_range m ?b"
    "\<forall>s\<in>set (terminator_successors (blk_terminator ?b)). (blk_id ?b, s) \<in> flow_edge fn"
    using kept_facts(5,9) [OF wf] b mem(2) by (auto simp: block_wf_def flow_edge_def)
  have "position (map blk_id (kept_blocks fn)) (blk_id ?b) = k"
    using position_of_nth [OF kept_facts(1) [OF wf], of k] k by simp
  then have "bix (renumber fn (blk_id ?b)) = k"
    using bix_block_at [OF k kept_facts(4) [OF wf]] by (simp add: renumber_def)
  moreover have "constants_in_range m (renamed_block (renumber fn) ?b)"
    using old(2) constants_remap by simp
  moreover have "bix s < length (fn_blocks (pruned fn))"
    if s: "s \<in> set (terminator_successors (blk_terminator (renamed_block (renumber fn) ?b)))" for s
  proof -
    obtain t where "t \<in> set (terminator_successors (blk_terminator ?b))" "s = renumber fn t"
      using s by (auto simp: successors_remap)
    then have "t \<in> reached fn" using old(3) kept_facts(8) [OF wf _ mem(2)] by blast
    from renumber_facts(1) [OF wf this] show ?thesis using \<open>s = renumber fn t\<close> by (simp add: pruned_def)
  qed
  moreover have "term_remap_blocks f t \<noteq> Unreachable \<longleftrightarrow> t \<noteq> Unreachable" for f t by (cases t) simp_all
  ultimately show ?thesis using old(1) by (simp add: block_wf_def)
qed

lemma wf_pruned:
  assumes wf: "wf_function m fn" and refs: "refs_reached fn"
  shows "wf_function m (pruned fn)"
proof -
  have "distinct (fn_dests fn)" using wf by (simp add: wf_function_def)
  moreover have "fn_dests (pruned fn) = List.map_filter dest (concat (map blk_instructions (kept_blocks fn)))"
    by (simp add: fn_dests_def pruned_def o_def dests_remap)
  ultimately have d: "distinct (fn_dests (pruned fn))"
    using dests_kept by (simp add: fn_dests_def kept_blocks_def)
  show ?thesis
    unfolding wf_function_def
  proof (intro conjI)
    show "bix (fn_entry (pruned fn)) < length (fn_blocks (pruned fn))"
      using renumber_facts(1) [OF wf kept_facts(3) [OF wf]] by (simp add: pruned_def)
    show "\<forall>h. fn_home_object (pruned fn) = Some h \<longrightarrow> fnix (home_function h) < length (mod_functions m)"
      using wf by (simp add: wf_function_def pruned_def)
    show "\<forall>k<length (fn_blocks (pruned fn)). block_wf m (pruned fn) k (fn_blocks (pruned fn) ! k)"
      using block_wf_pruned [OF wf refs] by (simp add: pruned_def)
    show "\<forall>b\<in>set (fn_blocks (pruned fn)). uses_ok (pruned fn) b"
      using uses_ok_pruned [OF wf refs] by (auto simp: pruned_def)
  qed (rule d)
qed

section \<open>Executions of the result\<close>

definition block_blind :: "('v, 's) meaning \<Rightarrow> ('v, 's) chooser \<Rightarrow> bool" where
  \<comment> \<open>the meaning of a function does not depend on the numbers of its blocks, and control goes to successors\<close>
  "block_blind act pick \<longleftrightarrow>
     (\<forall>f prev i vs s. inj_on f (set_option prev \<union> set (instruction_blocks i)) \<longrightarrow>
        act (map_option f prev) (remap_blocks f i) vs s = act prev i vs s) \<and>
     (\<forall>f t vs s. pick (term_remap_blocks f t) vs s = map_option f (pick t vs s)) \<and>
     (\<forall>t vs s n. pick t vs s = Some n \<longrightarrow> n \<in> set (terminator_successors t))"

lemma run_renamed:
  assumes blind: "block_blind act pick" and inj: "inj_on f R" and prev: "set_option prev \<subseteq> R"
    and blocks: "\<forall>i\<in>set is. set (instruction_blocks i) \<subseteq> R"
  shows "run_block act (map_option f prev) (map (remap_blocks f) is) st = run_block act prev is st"
  using blocks
proof (induction "is" arbitrary: st)
  case (Cons i "is")
  have "inj_on f (set_option prev \<union> set (instruction_blocks i))"
    by (rule inj_on_subset [OF inj]) (use prev Cons.prems in simp)
  then have act: "act (map_option f prev) (remap_blocks f i) vs s = act prev i vs s" for vs s
    using blind unfolding block_blind_def by blast
  have "run_instruction act (map_option f prev) st (remap_blocks f i) = run_instruction act prev st i" for st
    by (simp add: run_instruction_def act uses_remap_blocks dest_remap_blocks split: prod.split)
  then show ?case using Cons.IH Cons.prems by (simp add: run_block_def)
qed (simp add: run_block_def)

lemma block_by_id_pruned:
  assumes "wf_function m fn" "b \<in> reached fn"
  shows "block_by_id fn b = Some (fn_blocks fn ! bix b)"
    "block_by_id (pruned fn) (renumber fn b) = Some (renamed_block (renumber fn) (fn_blocks fn ! bix b))"
  using kept_facts(5) [OF assms] renumber_facts(1) [OF assms] pruned_block [OF assms]
  by (simp_all add: block_by_id_def get_at_def pruned_def)

lemma trace_pruned:
  assumes wf: "wf_function m fn" and refs: "refs_reached fn" and blind: "block_blind act pick"
    and b: "b \<in> reached fn" "set_option prev \<subseteq> reached fn"
  shows "block_trace act pick (pruned fn) k (map_option (renumber fn) prev) (renumber fn b) env s =
    map (\<lambda>(b, vs, s). (renumber fn b, vs, s)) (block_trace act pick fn k prev b env s)"
  using b
proof (induction k arbitrary: prev b env s)
  case (Suc k)
  let ?block = "fn_blocks fn ! bix b"
  have inj: "inj_on (renumber fn) (reached fn)" using renumber_facts(3) [OF wf] by (auto simp: inj_on_def)
  have "?block \<in> set (kept_blocks fn)" by (rule kept_facts(6) [OF wf Suc.prems(1)])
  then have "\<forall>i\<in>set (blk_instructions ?block). set (instruction_blocks i) \<subseteq> reached fn"
    using refs by (force simp: refs_reached_def block_refs_def)
  note run = run_renamed [OF blind inj Suc.prems(2) this]
  obtain e s1 where r: "run_block act prev (blk_instructions ?block) (env, s) = (e, s1)" by fastforce
  let ?vs = "map e (terminator_uses (blk_terminator ?block))"
  have pick: "pick (term_remap_blocks (renumber fn) (blk_terminator ?block)) ?vs s1 =
      map_option (renumber fn) (pick (blk_terminator ?block) ?vs s1)"
    using blind unfolding block_blind_def by blast
  show ?case
  proof (cases "pick (blk_terminator ?block) ?vs s1")
    case None
    then show ?thesis
      using pick by (simp add: block_by_id_pruned [OF wf Suc.prems(1)] run r terminator_uses_remap)
  next
    case (Some n)
    then have "n \<in> set (terminator_successors (blk_terminator ?block))"
      using blind unfolding block_blind_def by blast
    then have "(b, n) \<in> flow_edge fn"
      using kept_facts(5) [OF wf Suc.prems(1)] wf_blocks(4) [OF wf] by (simp add: flow_edge_def block_wf_def)
    then have "n \<in> reached fn" using kept_facts(8) [OF wf _ Suc.prems(1)] by blast
    then show ?thesis
      using pick Some Suc.IH [of n "Some b" e s1] Suc.prems(1)
      by (simp add: block_by_id_pruned [OF wf Suc.prems(1)] run r terminator_uses_remap)
  qed
qed simp

section \<open>Properties\<close>

definition dead_middle :: Function where
  \<comment> \<open>block 1 is not reachable, the phi of block 3 has two sources\<close>
  "dead_middle = (function_new [] (BasicBlockId 0))\<lparr>fn_blocks :=
     [\<lparr>blk_id = BasicBlockId 0, blk_instructions = [Const (ValueId 0) (ConstantId 0)],
       blk_terminator = Branch (ValueId 0) (BasicBlockId 2) (BasicBlockId 3)\<rparr>,
      \<lparr>blk_id = BasicBlockId 1, blk_instructions = [], blk_terminator = Return None\<rparr>,
      \<lparr>blk_id = BasicBlockId 2, blk_instructions = [], blk_terminator = Jump (BasicBlockId 3)\<rparr>,
      \<lparr>blk_id = BasicBlockId 3,
       blk_instructions = [Phi (ValueId 1) [\<lparr>phi_predecessor = BasicBlockId 0, phi_value = ValueId 0\<rparr>,
         \<lparr>phi_predecessor = BasicBlockId 2, phi_value = ValueId 0\<rparr>]],
       blk_terminator = Return (Some (ValueId 1))\<rparr>]\<rparr>"

lemma dead_middle_verified: "verify_function one_constant dead_middle = Some (Inr ())"
  by code_simp

text \<open>
  When the pass that deletes unreachable blocks returns, the renumbered function passes the
  verifier again and has no unreachable block left.
\<close>

theorem prune_keeps_verified:
  assumes "verify_function m fn = Some (Inr ())" and "prune_function fn = Some fn'"
  shows "verify_function m fn' = Some (Inr ()) \<and>
    (\<forall>k < length (fn_blocks fn'). (fn_entry fn', blk_id (fn_blocks fn' ! k)) \<in> (flow_edge fn')\<^sup>*)"
proof -
  have wf: "wf_function m fn" using assms(1) verify_function_result(2) by blast
  have refs: "refs_reached fn" and fn': "fn' = pruned fn"
    using assms(2) prune_result [OF wf] by (simp_all split: if_splits)
  have "verify_function m fn' = Some (Inr ())" using wf_pruned [OF wf refs] fn' verify_function_result(2) by blast
  moreover have "(fn_entry fn', blk_id (fn_blocks fn' ! k)) \<in> (flow_edge fn')\<^sup>*" if "k < length (fn_blocks fn')" for k
  proof -
    have k: "k < length (kept_blocks fn)" using that by (simp add: fn' pruned_def)
    have "blk_id (kept_blocks fn ! k) \<in> reached fn" using nth_mem [OF k] by (simp add: kept_blocks_def)
    from pruned_reachable [OF wf this] show ?thesis using k by (simp add: fn' pruned_def)
  qed
  ultimately show ?thesis by blast
qed

theorem prune_keeps_verified_witness:
  "\<exists>fn'. prune_function dead_middle = Some fn' \<and> verify_function one_constant fn' = Some (Inr ())"
proof -
  have "prune_function dead_middle \<noteq> None" by code_simp
  then obtain fn' where "prune_function dead_middle = Some fn'" by blast
  with prune_keeps_verified [OF dead_middle_verified this] show ?thesis by blast
qed

text \<open>
  C28: The pass only renames what a verified function does: there is a renaming of blocks under
  which, for every meaning of instructions that does not look at block numbers, the new function
  runs through the renamed blocks of the old one, with the same operands and states at their ends.
\<close>

theorem prune_preserves_executions:
  assumes "verify_function m fn = Some (Inr ())" and "prune_function fn = Some fn'" and "block_blind act pick"
  shows "\<exists>f. inj_on f {b. (fn_entry fn, b) \<in> (flow_edge fn)\<^sup>*} \<and>
    (\<forall>k env s. block_trace act pick fn' k None (fn_entry fn') env s =
       map (\<lambda>(b, vs, s). (f b, vs, s)) (block_trace act pick fn k None (fn_entry fn) env s))"
proof -
  have wf: "wf_function m fn" using assms(1) verify_function_result(2) by blast
  have refs: "refs_reached fn" and fn': "fn' = pruned fn"
    using assms(2) prune_result [OF wf] by (simp_all split: if_splits)
  have "inj_on (renumber fn) {b. (fn_entry fn, b) \<in> (flow_edge fn)\<^sup>*}"
    using renumber_facts(3) [OF wf] by (auto simp: inj_on_def reached_def)
  moreover have "fn_entry fn' = renumber fn (fn_entry fn)" by (simp add: fn' pruned_def)
  ultimately show ?thesis
    using trace_pruned [OF wf refs assms(3) kept_facts(3) [OF wf], of None] fn'
    by (intro exI [of _ "renumber fn"]) simp
qed

fun from_source :: "(nat, nat) meaning" where
  "from_source (Some p) (Phi d sources) vs s = (case map_of (zip (map phi_predecessor sources) vs) p of None \<Rightarrow> 0 | Some v \<Rightarrow> v, s + 1)"
| "from_source prev i vs s = (sum_list vs, s + 1)"

fun by_condition :: "(nat, nat) chooser" where
  "by_condition (Jump b) vs s = Some b"
| "by_condition (Branch c t e) vs s = Some (if hd vs = 0 then e else t)"
| "by_condition (Switch v cases d x) vs s = Some d"
| "by_condition t vs s = None"

theorem prune_preserves_executions_witness:
  "\<exists>fn' f. prune_function dead_middle = Some fn' \<and>
    (\<forall>k env s. block_trace from_source by_condition fn' k None (fn_entry fn') env s =
       map (\<lambda>(b, vs, s). (f b, vs, s))
         (block_trace from_source by_condition dead_middle k None (fn_entry dead_middle) env s))"
proof -
  have "prune_function dead_middle \<noteq> None" by code_simp
  then obtain fn' where fn': "prune_function dead_middle = Some fn'" by blast
  have source: "map_of (zip (map (\<lambda>s. f (phi_predecessor s)) sources) vs) (f p) = map_of (zip (map phi_predecessor sources) vs) p"
    if "inj_on f (insert p (phi_predecessor ` set sources))" for f :: "BasicBlockId \<Rightarrow> BasicBlockId" and p sources and vs :: "nat list"
    using that
  proof (induction sources arbitrary: vs)
    case (Cons x sources)
    have "inj_on f (insert p (phi_predecessor ` set sources))" by (rule inj_on_subset [OF Cons.prems]) auto
    then show ?case using Cons.prems Cons.IH by (cases vs) (auto simp: inj_on_def)
  qed simp
  have "from_source (map_option f prev) (remap_blocks f i) vs s = from_source prev i vs s"
    if "inj_on f (set_option prev \<union> set (instruction_blocks i))" for f prev i vs s
    using that by (cases prev; cases i) (simp_all add: remap_blocks_def source o_def)
  moreover have "by_condition (term_remap_blocks f t) vs s = map_option f (by_condition t vs s)" for f t vs s
    by (cases t) simp_all
  moreover have "n \<in> set (terminator_successors t)" if "by_condition t vs s = Some n" for t vs s n
    using that by (cases t) (auto split: if_splits)
  ultimately have "block_blind from_source by_condition" unfolding block_blind_def by blast
  from prune_preserves_executions [OF dead_middle_verified fn' this] fn' show ?thesis by blast
qed

definition dead_predecessor :: Function where
  "dead_predecessor = (function_new [] (BasicBlockId 0))\<lparr>fn_blocks :=
     [\<lparr>blk_id = BasicBlockId 0, blk_instructions = [Const (ValueId 0) (ConstantId 0)],
       blk_terminator = Jump (BasicBlockId 2)\<rparr>,
      \<lparr>blk_id = BasicBlockId 1, blk_instructions = [], blk_terminator = Jump (BasicBlockId 2)\<rparr>,
      \<lparr>blk_id = BasicBlockId 2,
       blk_instructions = [Phi (ValueId 1) [\<lparr>phi_predecessor = BasicBlockId 0, phi_value = ValueId 0\<rparr>,
         \<lparr>phi_predecessor = BasicBlockId 1, phi_value = ValueId 0\<rparr>]],
       blk_terminator = Return (Some (ValueId 1))\<rparr>]\<rparr>"

text \<open>
  The pass panics on verified code: the verifier asks a phi for a source from every
  predecessor, an unreachable one included, and deleting that predecessor leaves its id in the phi
  without a new number.
\<close>

theorem prune_panics_on_dead_predecessor:
  "verify_function one_constant dead_predecessor = Some (Inr ()) \<and> prune_function dead_predecessor = None"
proof
  show "verify_function one_constant dead_predecessor = Some (Inr ())" by code_simp
  show "prune_function dead_predecessor = None" by code_simp
qed

end
