(* ===== verification/Opt_Liveness.thy ===== *)
theory Opt_Liveness
  imports Opt_Prune
begin

text \<open>
  Liveness of values (\<open>wjsm-optimize/src/liveness.rs\<close>), which decides what a deoptimisation point
  saves: block-local facts, the rounds of \<open>cfg_live_out\<close> until nothing changes, and the backward
  walk from the end of a block to an instruction.
\<close>

instance ValueId :: finite
proof
  have "(UNIV :: ValueId set) = range ValueId" by (auto intro: ValueId.exhaust)
  then show "finite (UNIV :: ValueId set)" by (metis finite finite_imageI)
qed

instantiation ValueId :: linorder
begin

definition less_eq_ValueId :: "ValueId \<Rightarrow> ValueId \<Rightarrow> bool" where
  "less_eq_ValueId v w \<longleftrightarrow> vid v \<le> vid w"

definition less_ValueId :: "ValueId \<Rightarrow> ValueId \<Rightarrow> bool" where
  "less_ValueId v w \<longleftrightarrow> vid v < vid w"

instance
  by standard (auto simp: less_eq_ValueId_def less_ValueId_def intro: ValueId.expand)

end

section \<open>Facts of a block\<close>

type_synonym value_sets = "BasicBlockId \<rightharpoonup> ValueId set"

record LivenessFacts =
  block_uses :: value_sets
  block_defs :: value_sets
  phi_defs :: value_sets
  phi_edge_uses :: "BasicBlockId \<times> BasicBlockId \<rightharpoonup> ValueId set"

definition vals_at :: "('k \<rightharpoonup> 'a set) \<Rightarrow> 'k \<Rightarrow> 'a set" where
  \<comment> \<open>\<open>unwrap_or_default\<close>; the indexed tables have an entry for every block\<close>
  "vals_at m k = (case m k of None \<Rightarrow> {} | Some s \<Rightarrow> s)"

record block_scan =
  scan_uses :: "ValueId set"
  scan_defs :: "ValueId set"
  scan_phis :: "ValueId set"
  scan_edges :: "BasicBlockId \<times> BasicBlockId \<rightharpoonup> ValueId set"

definition scan_use :: "ValueId \<Rightarrow> block_scan \<Rightarrow> block_scan" where
  "scan_use v sc = (if v \<in> scan_defs sc then sc else sc\<lparr>scan_uses := insert v (scan_uses sc)\<rparr>)"

definition add_edge_use :: "BasicBlockId \<Rightarrow> PhiSource \<Rightarrow> block_scan \<Rightarrow> block_scan" where
  "add_edge_use b s sc =
     sc\<lparr>scan_edges := (scan_edges sc)((phi_predecessor s, b) \<mapsto> insert (phi_value s) (vals_at (scan_edges sc) (phi_predecessor s, b)))\<rparr>"

definition scan_plain :: "Instruction \<Rightarrow> block_scan \<Rightarrow> block_scan" where
  "scan_plain i sc =
     (let sc = fold scan_use (uses i) sc
      in case dest i of None \<Rightarrow> sc | Some d \<Rightarrow> sc\<lparr>scan_defs := insert d (scan_defs sc)\<rparr>)"

definition liveness_instruction :: "BasicBlockId \<Rightarrow> Instruction \<Rightarrow> block_scan \<Rightarrow> block_scan" where
  "liveness_instruction b i sc =
     (case i of
        Phi d sources \<Rightarrow>
          fold (add_edge_use b) sources
            (sc\<lparr>scan_defs := insert d (scan_defs sc), scan_phis := insert d (scan_phis sc)\<rparr>)
      | _ \<Rightarrow> scan_plain i sc)"

definition liveness_block_facts :: "BasicBlock \<Rightarrow> LivenessFacts \<Rightarrow> LivenessFacts" where
  "liveness_block_facts b facts =
     (let sc = fold (liveness_instruction (blk_id b)) (blk_instructions b)
                 \<lparr>scan_uses = {}, scan_defs = {}, scan_phis = {}, scan_edges = phi_edge_uses facts\<rparr>;
          sc = fold scan_use (terminator_uses (blk_terminator b)) sc
      in \<lparr>block_uses = (block_uses facts)(blk_id b \<mapsto> scan_uses sc),
          block_defs = (block_defs facts)(blk_id b \<mapsto> scan_defs sc),
          phi_defs = (phi_defs facts)(blk_id b \<mapsto> scan_phis sc),
          phi_edge_uses = scan_edges sc\<rparr>)"

definition liveness_facts :: "Function \<Rightarrow> LivenessFacts" where
  "liveness_facts fn =
     fold liveness_block_facts (fn_blocks fn)
       \<lparr>block_uses = Map.empty, block_defs = Map.empty, phi_defs = Map.empty, phi_edge_uses = Map.empty\<rparr>"

section \<open>The rounds\<close>

record live_state =
  live_in :: value_sets
  live_out :: value_sets
  live_changed :: bool

definition outgoing_values :: "LivenessFacts \<Rightarrow> value_sets \<Rightarrow> BasicBlock \<Rightarrow> ValueId set" where
  "outgoing_values facts ins b =
     fold (\<lambda>s out.
        let out = (case ins s of None \<Rightarrow> out | Some l \<Rightarrow> out \<union> (l - vals_at (phi_defs facts) s))
        in case phi_edge_uses facts (blk_id b, s) of None \<Rightarrow> out | Some e \<Rightarrow> out \<union> e)
       (terminator_successors (blk_terminator b)) {}"

definition live_block_step :: "LivenessFacts \<Rightarrow> BasicBlock \<Rightarrow> live_state \<Rightarrow> live_state" where
  "live_block_step facts b st =
     (let outgoing = outgoing_values facts (live_in st) b;
          incoming = vals_at (block_uses facts) (blk_id b) \<union> (outgoing - vals_at (block_defs facts) (blk_id b));
          st = (if vals_at (live_out st) (blk_id b) \<noteq> outgoing
                then st\<lparr>live_out := (live_out st)(blk_id b \<mapsto> outgoing), live_changed := True\<rparr> else st)
      in if vals_at (live_in st) (blk_id b) \<noteq> incoming
         then st\<lparr>live_in := (live_in st)(blk_id b \<mapsto> incoming), live_changed := True\<rparr> else st)"

definition live_round :: "LivenessFacts \<Rightarrow> Function \<Rightarrow> live_state \<Rightarrow> live_state" where
  "live_round facts fn st = fold (live_block_step facts) (rev (fn_blocks fn)) (st\<lparr>live_changed := False\<rparr>)"

partial_function (option) live_loop :: "LivenessFacts \<Rightarrow> Function \<Rightarrow> live_state \<Rightarrow> live_state option" where
  "live_loop facts fn st =
     (let st' = live_round facts fn st in if live_changed st' then live_loop facts fn st' else Some st')"

declare live_loop.simps [code]

definition nothing_live :: "Function \<Rightarrow> value_sets" where
  "nothing_live fn = fold (\<lambda>b m. m(blk_id b \<mapsto> {})) (fn_blocks fn) Map.empty"

definition cfg_live_out :: "Function \<Rightarrow> value_sets option" where
  "cfg_live_out fn =
     map_option live_out
       (live_loop (liveness_facts fn) fn \<lparr>live_in = nothing_live fn, live_out = nothing_live fn, live_changed = False\<rparr>)"

section \<open>The values live at an instruction\<close>

definition live_step :: "Instruction \<Rightarrow> ValueId set \<Rightarrow> ValueId set" where
  "live_step i vs =
     (case i of
        Phi d _ \<Rightarrow> vs - {d}
      | _ \<Rightarrow> (case dest i of None \<Rightarrow> vs | Some d \<Rightarrow> vs - {d}) \<union> set (uses i))"

definition live_in_at :: "Function \<Rightarrow> BasicBlockId \<Rightarrow> nat \<Rightarrow> ValueId list option" where
  "live_in_at fn b i =
     (case find_block fn b of
        None \<Rightarrow> Some []
      | Some block \<Rightarrow>
          map_option (\<lambda>out.
            sorted_list_of_set
              (fold live_step (rev (drop i (blk_instructions block)))
                (vals_at out b \<union> set (terminator_uses (blk_terminator block)))))
            (cfg_live_out fn))"

definition live_values_at :: "Module \<Rightarrow> FunctionId \<Rightarrow> BasicBlockId \<Rightarrow> nat \<Rightarrow> ValueId list option" where
  "live_values_at m f b i =
     (case get_at (mod_functions m) (fnix f) of None \<Rightarrow> Some [] | Some fn \<Rightarrow> live_in_at fn b i)"

end
