(* ===== verification/Opt_Liveness_Correct.thy ===== *)
theory Opt_Liveness_Correct
  imports Opt_Liveness
begin

text \<open>
  The computed sets are the values a path reads before defining them again; the rounds end.
\<close>

section \<open>Live along a path\<close>

definition phi_reads :: "BasicBlockId \<Rightarrow> Instruction \<Rightarrow> ValueId set" where
  \<comment> \<open>what a phi reads when control comes from block \<open>p\<close>\<close>
  "phi_reads p i = (case i of Phi _ sources \<Rightarrow> {phi_value s | s. s \<in> set sources \<and> phi_predecessor s = p} | _ \<Rightarrow> {})"

inductive live_from :: "Function \<Rightarrow> ValueId \<Rightarrow> BasicBlockId \<Rightarrow> nat \<Rightarrow> bool" for fn v where
  read_here: "bix B < length (fn_blocks fn) \<Longrightarrow> i < length (code_of fn B) \<Longrightarrow> \<not> is_phi (code_of fn B ! i) \<Longrightarrow>
    v \<in> set (uses (code_of fn B ! i)) \<Longrightarrow> live_from fn v B i"
| not_defined: "bix B < length (fn_blocks fn) \<Longrightarrow> i < length (code_of fn B) \<Longrightarrow> dest (code_of fn B ! i) \<noteq> Some v \<Longrightarrow>
    live_from fn v B (Suc i) \<Longrightarrow> live_from fn v B i"
| read_at_end: "bix B < length (fn_blocks fn) \<Longrightarrow>
    v \<in> set (terminator_uses (blk_terminator (fn_blocks fn ! bix B))) \<Longrightarrow> live_from fn v B (length (code_of fn B))"
| read_on_edge: "(B, C) \<in> flow_edge fn \<Longrightarrow> j < length (code_of fn C) \<Longrightarrow> v \<in> phi_reads B (code_of fn C ! j) \<Longrightarrow>
    live_from fn v B (length (code_of fn B))"
| read_later: "(B, C) \<in> flow_edge fn \<Longrightarrow> live_from fn v C 0 \<Longrightarrow> live_from fn v B (length (code_of fn B))"

lemma live_from_range: "live_from fn v B i \<Longrightarrow> bix B < length (fn_blocks fn) \<and> i \<le> length (code_of fn B)"
  by (induction rule: live_from.induct) (auto simp: flow_edge_def)

section \<open>The backward transfer\<close>

abbreviation live_before :: "Instruction list \<Rightarrow> ValueId set \<Rightarrow> ValueId set" where
  "live_before is S \<equiv> foldr live_step is S"

lemma live_step_iff:
  "v \<in> live_step i S \<longleftrightarrow> \<not> is_phi i \<and> v \<in> set (uses i) \<or> dest i \<noteq> Some v \<and> v \<in> S"
  by (cases i) (auto simp: live_step_def dest_def split: option.split)

lemma live_before_split:
  "live_before is S = live_before is {} \<union> (S - {v. \<exists>i\<in>set is. dest i = Some v})"
proof (induction "is")
  case (Cons i "is")
  have "v \<in> live_step i (live_before is {} \<union> (S - {v. \<exists>i\<in>set is. dest i = Some v})) \<longleftrightarrow>
      v \<in> live_step i (live_before is {}) \<union> (S - {v. \<exists>i\<in>set (i # is). dest i = Some v})" for v
    by (auto simp: live_step_iff)
  then show ?case using Cons.IH by auto
qed auto

lemma live_before_empty:
  "v \<in> live_before is {} \<longleftrightarrow> (\<exists>k < length is. \<not> is_phi (is ! k) \<and> v \<in> set (uses (is ! k)) \<and>
     (\<forall>j < k. dest (is ! j) \<noteq> Some v))"
proof (induction "is")
  case (Cons i "is")
  show ?case
    unfolding foldr.simps o_apply live_step_iff Cons.IH
    by (simp add: Ex_less_Suc2 All_less_Suc2) blast
qed simp

section \<open>The facts of a function\<close>

definition dests_of :: "Instruction list \<Rightarrow> ValueId set" where
  "dests_of is = {v. \<exists>i\<in>set is. dest i = Some v}"

definition phi_dests :: "Instruction list \<Rightarrow> ValueId set" where
  "phi_dests is = {v. \<exists>i\<in>set is. is_phi i \<and> dest i = Some v}"

lemma dests_simps [simp]:
  "dests_of [] = {}" "dests_of (i # is) = set_option (dest i) \<union> dests_of is"
  "phi_dests [] = {}" "phi_dests (i # is) = (if is_phi i then set_option (dest i) else {}) \<union> phi_dests is"
  by (auto simp: dests_of_def phi_dests_def)

lemma scan_uses_fold:
  "fold scan_use vs sc = sc\<lparr>scan_uses := scan_uses sc \<union> (set vs - scan_defs sc)\<rparr>"
  by (induction vs arbitrary: sc) (simp_all add: scan_use_def insert_Diff_if)

lemma scan_edges_fold:
  "fold (add_edge_use b) ss sc = sc\<lparr>scan_edges := scan_edges (fold (add_edge_use b) ss sc)\<rparr>"
  "vals_at (scan_edges (fold (add_edge_use b) ss sc)) (p, c) =
     vals_at (scan_edges sc) (p, c) \<union> {phi_value s | s. s \<in> set ss \<and> phi_predecessor s = p \<and> c = b}"
proof (induction ss arbitrary: sc)
  case Nil
  { case 1 show ?case by simp }
  { case 2 show ?case by simp }
next
  case (Cons s ss)
  { case 1 show ?case using Cons.IH(1) [of "add_edge_use b s sc"] by (simp add: add_edge_use_def) }
  { case 2 show ?case using Cons.IH(2) [of "add_edge_use b s sc"] by (auto simp: add_edge_use_def vals_at_def) }
qed

lemma phi_cases: "is_phi i \<Longrightarrow> \<exists>d sources. i = Phi d sources"
  by (cases i) simp_all

lemma scan_other:
  assumes "\<not> is_phi i"
  shows "liveness_instruction b i sc = scan_plain i sc" "phi_reads p i = {}"
  using assms by (cases i; simp add: liveness_instruction_def phi_reads_def)+

lemma scan_plain_facts:
  "scan_uses (scan_plain i sc) = scan_uses sc \<union> (set (uses i) - scan_defs sc)"
  "scan_defs (scan_plain i sc) = scan_defs sc \<union> set_option (dest i)"
  "scan_phis (scan_plain i sc) = scan_phis sc" "scan_edges (scan_plain i sc) = scan_edges sc"
  by (simp_all add: scan_plain_def scan_uses_fold Let_def split: option.split)

lemma scan_instruction_facts:
  "scan_uses (liveness_instruction b i sc) = scan_uses sc \<union> (if is_phi i then {} else set (uses i) - scan_defs sc)"
  "scan_defs (liveness_instruction b i sc) = scan_defs sc \<union> set_option (dest i)"
  "scan_phis (liveness_instruction b i sc) = scan_phis sc \<union> (if is_phi i then set_option (dest i) else {})"
  "vals_at (scan_edges (liveness_instruction b i sc)) (p, c) =
     vals_at (scan_edges sc) (p, c) \<union> (if c = b then phi_reads p i else {})"
proof -
  have "scan_uses (liveness_instruction b i sc) = scan_uses sc \<union> (if is_phi i then {} else set (uses i) - scan_defs sc) \<and>
    scan_defs (liveness_instruction b i sc) = scan_defs sc \<union> set_option (dest i) \<and>
    scan_phis (liveness_instruction b i sc) = scan_phis sc \<union> (if is_phi i then set_option (dest i) else {}) \<and>
    vals_at (scan_edges (liveness_instruction b i sc)) (p, c) =
      vals_at (scan_edges sc) (p, c) \<union> (if c = b then phi_reads p i else {})" (is ?all)
  proof (cases "is_phi i")
    case True
    then obtain d ss where i: "i = Phi d ss" using phi_cases by blast
    let ?sc = "sc\<lparr>scan_defs := insert d (scan_defs sc), scan_phis := insert d (scan_phis sc)\<rparr>"
    have l: "liveness_instruction b i sc = ?sc\<lparr>scan_edges := scan_edges (fold (add_edge_use b) ss ?sc)\<rparr>"
      unfolding i liveness_instruction_def using scan_edges_fold(1) [of b ss ?sc] by simp
    have e: "vals_at (scan_edges (liveness_instruction b i sc)) (p, c) =
        vals_at (scan_edges sc) (p, c) \<union> (if c = b then phi_reads p i else {})"
      using scan_edges_fold(2) [of b ss ?sc p c] unfolding l by (auto simp: i phi_reads_def)
    have "dest i = Some d" by (simp add: i dest_def)
    then show ?all unfolding e by (simp add: l True)
  next
    case False
    then show ?all by (simp add: scan_other scan_plain_facts)
  qed
  then show "scan_uses (liveness_instruction b i sc) = scan_uses sc \<union> (if is_phi i then {} else set (uses i) - scan_defs sc)"
    "scan_defs (liveness_instruction b i sc) = scan_defs sc \<union> set_option (dest i)"
    "scan_phis (liveness_instruction b i sc) = scan_phis sc \<union> (if is_phi i then set_option (dest i) else {})"
    "vals_at (scan_edges (liveness_instruction b i sc)) (p, c) =
      vals_at (scan_edges sc) (p, c) \<union> (if c = b then phi_reads p i else {})"
    by blast+
qed

lemma scan_block:
  "scan_uses (fold (liveness_instruction b) is sc) = scan_uses sc \<union> (live_before is {} - scan_defs sc)"
  "scan_defs (fold (liveness_instruction b) is sc) = scan_defs sc \<union> dests_of is"
  "scan_phis (fold (liveness_instruction b) is sc) = scan_phis sc \<union> phi_dests is"
  "vals_at (scan_edges (fold (liveness_instruction b) is sc)) (p, c) =
     vals_at (scan_edges sc) (p, c) \<union> (if c = b then \<Union> (phi_reads p ` set is) else {})"
proof (induction "is" arbitrary: sc)
  case Nil
  { case 1 show ?case by simp }
  { case 2 show ?case by simp }
  { case 3 show ?case by simp }
  { case 4 show ?case by simp }
next
  case (Cons i "is")
  { case 1
    have "scan_uses sc \<union> (if is_phi i then {} else set (uses i) - scan_defs sc) \<union>
        (live_before is {} - (scan_defs sc \<union> set_option (dest i))) =
      scan_uses sc \<union> (live_step i (live_before is {}) - scan_defs sc)"
      by (rule set_eqI) (auto simp: live_step_iff)
    then show ?case
      by (simp only: fold_simps foldr.simps o_apply Cons.IH(1) [of "liveness_instruction b i sc"] scan_instruction_facts(1,2)) }
  { case 2 show ?case using Cons.IH(2) [of "liveness_instruction b i sc"] by (simp add: scan_instruction_facts Un_assoc) }
  { case 3 show ?case using Cons.IH(3) [of "liveness_instruction b i sc"] by (simp add: scan_instruction_facts Un_assoc) }
  { case 4 show ?case using Cons.IH(4) [of "liveness_instruction b i sc"] by (simp add: scan_instruction_facts Un_assoc) }
qed

lemma block_facts_step:
  fixes b F
  defines "F' \<equiv> liveness_block_facts b F"
  shows "block_uses F' = (block_uses F)(blk_id b \<mapsto> live_before (blk_instructions b) (set (terminator_uses (blk_terminator b))))"
    "block_defs F' = (block_defs F)(blk_id b \<mapsto> dests_of (blk_instructions b))"
    "phi_defs F' = (phi_defs F)(blk_id b \<mapsto> phi_dests (blk_instructions b))"
    "vals_at (phi_edge_uses F') (p, c) = vals_at (phi_edge_uses F) (p, c) \<union>
       (if c = blk_id b then \<Union> (phi_reads p ` set (blk_instructions b)) else {})"
  unfolding F'_def liveness_block_facts_def
  by (simp_all add: Let_def scan_uses_fold scan_block live_before_split [of _ "set (terminator_uses (blk_terminator b))"] dests_of_def)

lemma facts_other:
  "x \<notin> blk_id ` set bs \<Longrightarrow> block_uses (fold liveness_block_facts bs F) x = block_uses F x \<and>
    block_defs (fold liveness_block_facts bs F) x = block_defs F x \<and>
    phi_defs (fold liveness_block_facts bs F) x = phi_defs F x"
  by (induction bs arbitrary: F) (simp_all add: block_facts_step)

lemma facts_block:
  "distinct (map blk_id bs) \<Longrightarrow> b \<in> set bs \<Longrightarrow>
     block_uses (fold liveness_block_facts bs F) (blk_id b) = Some (live_before (blk_instructions b) (set (terminator_uses (blk_terminator b)))) \<and>
     block_defs (fold liveness_block_facts bs F) (blk_id b) = Some (dests_of (blk_instructions b)) \<and>
     phi_defs (fold liveness_block_facts bs F) (blk_id b) = Some (phi_dests (blk_instructions b))"
proof (induction bs arbitrary: F)
  case (Cons a bs)
  show ?case
  proof (cases "b = a")
    case True
    have "blk_id a \<notin> blk_id ` set bs" using Cons.prems(1) by simp
    from facts_other [OF this, of "liveness_block_facts a F"] show ?thesis using True by (simp add: block_facts_step)
  next
    case False
    then show ?thesis using Cons by simp
  qed
qed simp

lemma facts_edges:
  "vals_at (phi_edge_uses (fold liveness_block_facts bs F)) (p, c) = vals_at (phi_edge_uses F) (p, c) \<union>
     \<Union> {\<Union> (phi_reads p ` set (blk_instructions b)) | b. b \<in> set bs \<and> blk_id b = c}"
proof (induction bs arbitrary: F)
  case (Cons a bs)
  show ?case unfolding fold_simps Cons.IH block_facts_step by auto
qed simp

lemma liveness_facts_wf:
  assumes wf: "wf_function m fn" and B: "bix B < length (fn_blocks fn)"
  shows "vals_at (block_uses (liveness_facts fn)) B =
      live_before (code_of fn B) (set (terminator_uses (blk_terminator (fn_blocks fn ! bix B))))"
    "vals_at (block_defs (liveness_facts fn)) B = dests_of (code_of fn B)"
    "vals_at (phi_defs (liveness_facts fn)) B = phi_dests (code_of fn B)"
    "vals_at (phi_edge_uses (liveness_facts fn)) (p, B) = \<Union> (phi_reads p ` set (code_of fn B))"
    "blk_id (fn_blocks fn ! bix B) = B"
proof -
  let ?b = "fn_blocks fn ! bix B"
  show id: "blk_id ?b = B" using wf_blocks(1) [OF wf] B bix_inj by (metis ordered_ids_def)
  have b: "?b \<in> set (fn_blocks fn)" using B by simp
  have d: "distinct (map blk_id (fn_blocks fn))" by (rule distinct_ids [OF wf])
  show "vals_at (block_uses (liveness_facts fn)) B = live_before (code_of fn B) (set (terminator_uses (blk_terminator ?b)))"
    "vals_at (block_defs (liveness_facts fn)) B = dests_of (code_of fn B)"
    "vals_at (phi_defs (liveness_facts fn)) B = phi_dests (code_of fn B)"
    using facts_block [OF d b] id by (simp_all add: vals_at_def liveness_facts_def)
  have "{\<Union> (phi_reads p ` set (blk_instructions b)) | b. b \<in> set (fn_blocks fn) \<and> blk_id b = B} =
      {\<Union> (phi_reads p ` set (code_of fn B))}"
    using block_of_id(1) [OF wf_blocks(4) [OF wf]] b id by (auto intro!: exI [of _ ?b])
  then show "vals_at (phi_edge_uses (liveness_facts fn)) (p, B) = \<Union> (phi_reads p ` set (code_of fn B))"
    unfolding liveness_facts_def facts_edges by (simp add: vals_at_def)
qed

section \<open>The rounds\<close>

abbreviation end_uses :: "Function \<Rightarrow> BasicBlockId \<Rightarrow> ValueId set" where
  "end_uses fn B \<equiv> set (terminator_uses (blk_terminator (fn_blocks fn ! bix B)))"

definition flow_out :: "Function \<Rightarrow> value_sets \<Rightarrow> BasicBlockId \<Rightarrow> ValueId set" where
  "flow_out fn ins B = {v. \<exists>s. (B, s) \<in> flow_edge fn \<and>
     (v \<in> vals_at ins s - phi_dests (code_of fn s) \<or> v \<in> \<Union> (phi_reads B ` set (code_of fn s)))}"

definition flow_in :: "Function \<Rightarrow> value_sets \<Rightarrow> BasicBlockId \<Rightarrow> ValueId set" where
  "flow_in fn ins B = live_before (code_of fn B) (end_uses fn B \<union> flow_out fn ins B)"

lemma outgoing_fold:
  "fold (\<lambda>s out.
      let out = (case ins s of None \<Rightarrow> out | Some l \<Rightarrow> out \<union> (l - P s))
      in case E s of None \<Rightarrow> out | Some e \<Rightarrow> out \<union> e) ss out =
   out \<union> {v. \<exists>s\<in>set ss. v \<in> vals_at ins s - P s \<or> v \<in> vals_at E s}"
proof (induction ss arbitrary: out)
  case (Cons s ss)
  show ?case unfolding fold_simps Cons.IH by (cases "ins s"; cases "E s") (auto simp: Let_def vals_at_def)
qed simp

lemma live_before_parts:
  "live_before is T \<union> (V - dests_of is) = live_before is (T \<union> V)"
  unfolding live_before_split [of "is" T] live_before_split [of "is" "T \<union> V"] dests_of_def by blast

lemma outgoing_values_wf:
  assumes wf: "wf_function m fn" and B: "bix B < length (fn_blocks fn)"
  shows "outgoing_values (liveness_facts fn) ins (fn_blocks fn ! bix B) = flow_out fn ins B"
proof -
  note F = liveness_facts_wf [OF wf B]
  have edge: "s \<in> set (terminator_successors (blk_terminator (fn_blocks fn ! bix B))) \<longleftrightarrow> (B, s) \<in> flow_edge fn" for s
    using wf_blocks(4) [OF wf] B by (auto simp: flow_edge_def block_wf_def)
  have E: "vals_at (\<lambda>s. phi_edge_uses (liveness_facts fn) (B, s)) s = vals_at (phi_edge_uses (liveness_facts fn)) (B, s)" for s
    by (simp add: vals_at_def)
  have "outgoing_values (liveness_facts fn) ins (fn_blocks fn ! bix B) =
      {v. \<exists>s. (B, s) \<in> flow_edge fn \<and> (v \<in> vals_at ins s - vals_at (phi_defs (liveness_facts fn)) s \<or>
        v \<in> vals_at (phi_edge_uses (liveness_facts fn)) (B, s))}"
    unfolding outgoing_values_def F(5) outgoing_fold [where P = "vals_at (phi_defs (liveness_facts fn))" and E = "\<lambda>s. phi_edge_uses (liveness_facts fn) (B, s)"] E
    using edge by auto
  also have "\<dots> = flow_out fn ins B"
  proof -
    have "vals_at (phi_defs (liveness_facts fn)) s = phi_dests (code_of fn s) \<and>
        vals_at (phi_edge_uses (liveness_facts fn)) (B, s) = \<Union> (phi_reads B ` set (code_of fn s))" if "(B, s) \<in> flow_edge fn" for s
      using liveness_facts_wf(3,4) [OF wf, of s] that by (simp add: flow_edge_def)
    then show ?thesis unfolding flow_out_def by (intro Collect_cong ex_cong1 conj_cong refl) simp
  qed
  finally show ?thesis .
qed

lemma live_block_step_wf:
  assumes wf: "wf_function m fn" and B: "bix B < length (fn_blocks fn)"
  shows "live_block_step (liveness_facts fn) (fn_blocks fn ! bix B) st =
    (let st = (if vals_at (live_out st) B \<noteq> flow_out fn (live_in st) B
               then st\<lparr>live_out := (live_out st)(B \<mapsto> flow_out fn (live_in st) B), live_changed := True\<rparr> else st)
     in if vals_at (live_in st) B \<noteq> flow_in fn (live_in st) B
        then st\<lparr>live_in := (live_in st)(B \<mapsto> flow_in fn (live_in st) B), live_changed := True\<rparr> else st)"
  unfolding live_block_step_def outgoing_values_wf [OF wf B] liveness_facts_wf [OF wf B] live_before_parts flow_in_def Let_def
  by simp

lemma flow_mono:
  assumes "\<forall>s. vals_at ins s \<subseteq> vals_at ins' s"
  shows "flow_out fn ins B \<subseteq> flow_out fn ins' B" "flow_in fn ins B \<subseteq> flow_in fn ins' B"
proof -
  show o: "flow_out fn ins B \<subseteq> flow_out fn ins' B" using assms unfolding flow_out_def by blast
  show "flow_in fn ins B \<subseteq> flow_in fn ins' B"
    unfolding flow_in_def live_before_split [of "code_of fn B" "end_uses fn B \<union> flow_out fn ins B"]
      live_before_split [of "code_of fn B" "end_uses fn B \<union> flow_out fn ins' B"] using o by blast
qed

lemma live_before_live:
  assumes B: "bix B < length (fn_blocks fn)" and e: "\<forall>v\<in>S. live_from fn v B (length (code_of fn B))"
  shows "i \<le> length (code_of fn B) \<Longrightarrow> v \<in> live_before (drop i (code_of fn B)) S \<Longrightarrow> live_from fn v B i"
proof (induction i rule: inc_induct)
  case base
  then show ?case using e by simp
next
  case (step i)
  have "drop i (code_of fn B) = code_of fn B ! i # drop (Suc i) (code_of fn B)" using step.hyps by (simp add: Cons_nth_drop_Suc)
  then have "\<not> is_phi (code_of fn B ! i) \<and> v \<in> set (uses (code_of fn B ! i)) \<or>
      dest (code_of fn B ! i) \<noteq> Some v \<and> v \<in> live_before (drop (Suc i) (code_of fn B)) S"
    using step.prems by (simp add: live_step_iff)
  then show ?case using B step.hyps step.IH by (auto intro: live_from.intros)
qed

lemma flow_out_live:
  assumes ins: "\<forall>s. bix s < length (fn_blocks fn) \<longrightarrow> (\<forall>v\<in>vals_at ins s. live_from fn v s 0)" and v: "v \<in> flow_out fn ins B"
  shows "live_from fn v B (length (code_of fn B))"
proof -
  obtain s where s: "(B, s) \<in> flow_edge fn" "v \<in> vals_at ins s \<or> v \<in> \<Union> (phi_reads B ` set (code_of fn s))"
    using v unfolding flow_out_def by blast
  show ?thesis
  proof (cases "v \<in> vals_at ins s")
    case True
    then have "live_from fn v s 0" using ins s(1) by (simp add: flow_edge_def)
    then show ?thesis by (rule live_from.read_later [OF s(1)])
  next
    case False
    then obtain j where "j < length (code_of fn s)" "v \<in> phi_reads B (code_of fn s ! j)" using s(2) by (auto simp: in_set_conv_nth)
    then show ?thesis by (rule live_from.read_on_edge [OF s(1)])
  qed
qed

lemma flow_in_live:
  assumes wf: "wf_function m fn" and B: "bix B < length (fn_blocks fn)"
    and ins: "\<forall>s. bix s < length (fn_blocks fn) \<longrightarrow> (\<forall>v\<in>vals_at ins s. live_from fn v s 0)"
  shows "\<forall>v\<in>flow_in fn ins B. live_from fn v B 0"
  using live_before_live [OF B, of "end_uses fn B \<union> flow_out fn ins B" 0] flow_out_live [OF ins] live_from.read_at_end [OF B]
  unfolding flow_in_def by auto

definition live_inv :: "Function \<Rightarrow> live_state \<Rightarrow> bool" where
  \<comment> \<open>the sets only grow, and hold only values a path reads\<close>
  "live_inv fn st \<longleftrightarrow> (\<forall>B. bix B < length (fn_blocks fn) \<longrightarrow> (\<forall>v\<in>vals_at (live_in st) B. live_from fn v B 0) \<and>
     vals_at (live_in st) B \<subseteq> flow_in fn (live_in st) B \<and> vals_at (live_out st) B \<subseteq> flow_out fn (live_in st) B)"

definition live_settled :: "Function \<Rightarrow> live_state \<Rightarrow> BasicBlockId \<Rightarrow> bool" where
  "live_settled fn st B \<longleftrightarrow>
     vals_at (live_in st) B = flow_in fn (live_in st) B \<and> vals_at (live_out st) B = flow_out fn (live_in st) B"

definition live_room :: "live_state \<Rightarrow> nat" where
  "live_room st = (\<Sum>B\<in>UNIV. card (- vals_at (live_in st) B)) + (\<Sum>B\<in>UNIV. card (- vals_at (live_out st) B))"

lemma vals_at_upd [simp]: "vals_at (m(k \<mapsto> s)) x = (if x = k then s else vals_at m x)"
  by (simp add: vals_at_def)

lemma room_less:
  fixes m :: value_sets
  assumes "vals_at m B \<subset> S"
  shows "(\<Sum>C\<in>UNIV. card (- vals_at (m(B \<mapsto> S)) C)) < (\<Sum>C\<in>UNIV. card (- vals_at m C))"
proof (rule sum_strict_mono_ex1)
  show "\<forall>C\<in>UNIV. card (- vals_at (m(B \<mapsto> S)) C) \<le> card (- vals_at m C)"
    using assms by (auto intro!: card_mono)
  show "\<exists>C\<in>UNIV. card (- vals_at (m(B \<mapsto> S)) C) < card (- vals_at m C)"
    using assms by (intro bexI [of _ B] psubset_card_mono) auto
qed simp

lemma live_block_step_inv:
  assumes wf: "wf_function m fn" and B: "bix B < length (fn_blocks fn)" and inv: "live_inv fn st"
  defines "st' \<equiv> live_block_step (liveness_facts fn) (fn_blocks fn ! bix B) st"
  shows "live_inv fn st'" "st' = st \<and> live_settled fn st B \<or> live_changed st' \<and> live_room st' < live_room st"
proof -
  let ?O = "flow_out fn (live_in st) B" and ?I = "flow_in fn (live_in st) B"
  have ins: "live_in st' = (if vals_at (live_in st) B \<noteq> ?I then (live_in st)(B \<mapsto> ?I) else live_in st)"
    and outs: "live_out st' = (if vals_at (live_out st) B \<noteq> ?O then (live_out st)(B \<mapsto> ?O) else live_out st)"
    and ch: "live_changed st' = (live_changed st \<or> vals_at (live_in st) B \<noteq> ?I \<or> vals_at (live_out st) B \<noteq> ?O)"
    unfolding st'_def live_block_step_wf [OF wf B] by (simp_all add: Let_def)
  have sub: "vals_at (live_in st) B \<subseteq> ?I" "vals_at (live_out st) B \<subseteq> ?O" using inv B by (simp_all add: live_inv_def)
  have grow: "\<forall>s. vals_at (live_in st) s \<subseteq> vals_at (live_in st') s" using sub(1) by (simp add: ins)
  note mono = flow_mono [OF grow]
  show "live_inv fn st'"
    unfolding live_inv_def
  proof (intro allI impI)
    fix C assume C: "bix C < length (fn_blocks fn)"
    have old: "\<forall>s. bix s < length (fn_blocks fn) \<longrightarrow> (\<forall>v\<in>vals_at (live_in st) s. live_from fn v s 0)"
      using inv by (simp add: live_inv_def)
    have "\<forall>v\<in>vals_at (live_in st') C. live_from fn v C 0"
      using old C flow_in_live [OF wf C old] by (auto simp: ins)
    moreover have "vals_at (live_in st') C \<subseteq> flow_in fn (live_in st) C" using inv C by (simp add: live_inv_def ins)
    moreover have "vals_at (live_out st') C \<subseteq> flow_out fn (live_in st) C" using inv C by (simp add: live_inv_def outs)
    ultimately show "(\<forall>v\<in>vals_at (live_in st') C. live_from fn v C 0) \<and>
        vals_at (live_in st') C \<subseteq> flow_in fn (live_in st') C \<and> vals_at (live_out st') C \<subseteq> flow_out fn (live_in st') C"
      using mono by blast
  qed
  show "st' = st \<and> live_settled fn st B \<or> live_changed st' \<and> live_room st' < live_room st"
  proof (cases "vals_at (live_in st) B = ?I \<and> vals_at (live_out st) B = ?O")
    case True
    then have "st' = st" by (simp add: ins outs ch)
    then show ?thesis using True by (simp add: live_settled_def)
  next
    case False
    have "(\<Sum>C\<in>UNIV. card (- vals_at (live_in st') C)) < (\<Sum>C\<in>UNIV. card (- vals_at (live_in st) C))" if "vals_at (live_in st) B \<noteq> ?I"
      using room_less [of "live_in st" B ?I] sub(1) that by (simp only: ins if_True psubsetI simp_thms)
    moreover have "(\<Sum>C\<in>UNIV. card (- vals_at (live_out st') C)) < (\<Sum>C\<in>UNIV. card (- vals_at (live_out st) C))" if "vals_at (live_out st) B \<noteq> ?O"
      using room_less [of "live_out st" B ?O] sub(2) that by (simp only: outs if_True psubsetI simp_thms)
    moreover have "live_in st' = live_in st" if "vals_at (live_in st) B = ?I" using that by (simp add: ins)
    moreover have "live_out st' = live_out st" if "vals_at (live_out st) B = ?O" using that by (simp add: outs)
    ultimately have "live_room st' < live_room st" using False unfolding live_room_def by (metis add_less_mono add_less_mono1 add_strict_left_mono)
    then show ?thesis using False ch by simp
  qed
qed

lemma live_round_inv:
  assumes wf: "wf_function m fn" and bs: "set bs \<subseteq> set (fn_blocks fn)" and inv: "live_inv fn st"
  defines "step \<equiv> live_block_step (liveness_facts fn)"
  shows "live_inv fn (fold step bs st) \<and>
    (fold step bs st = st \<and> (\<forall>b\<in>set bs. live_settled fn st (blk_id b)) \<or>
     live_changed (fold step bs st) \<and> live_room (fold step bs st) < live_room st)"
  using bs inv
proof (induction bs arbitrary: st)
  case (Cons b bs)
  have b: "fn_blocks fn ! bix (blk_id b) = b" "bix (blk_id b) < length (fn_blocks fn)"
    using block_of_id [OF wf_blocks(4) [OF wf], of b] Cons.prems(1) by simp_all
  have inv: "live_inv fn (step b st)" and
    s: "step b st = st \<and> live_settled fn st (blk_id b) \<or> live_changed (step b st) \<and> live_room (step b st) < live_room st"
    using live_block_step_inv [OF wf b(2) Cons.prems(2)] unfolding b(1) step_def by blast+
  have bs: "set bs \<subseteq> set (fn_blocks fn)" using Cons.prems(1) by simp
  note IH = Cons.IH [OF bs inv]
  show ?case
  proof (cases "step b st = st \<and> live_settled fn st (blk_id b)")
    case True
    then show ?thesis using IH by auto
  next
    case False
    then have "live_changed (step b st)" "live_room (step b st) < live_room st" using s by blast+
    then show ?thesis using IH by auto
  qed
qed simp

lemma live_loop_result:
  assumes wf: "wf_function m fn" and inv: "live_inv fn st"
  shows "\<exists>st'. live_loop (liveness_facts fn) fn st = Some st' \<and> live_inv fn st' \<and>
    (\<forall>B. bix B < length (fn_blocks fn) \<longrightarrow> live_settled fn st' B)"
  using inv
proof (induction "live_room st" arbitrary: st rule: less_induct)
  case less
  let ?st = "st\<lparr>live_changed := False\<rparr>" and ?st' = "live_round (liveness_facts fn) fn st"
  have "live_inv fn ?st" using less.prems by (simp add: live_inv_def)
  then have r: "live_inv fn ?st' \<and> (?st' = ?st \<and> (\<forall>b\<in>set (fn_blocks fn). live_settled fn ?st (blk_id b)) \<or>
      live_changed ?st' \<and> live_room ?st' < live_room ?st)"
    using live_round_inv [OF wf, of "rev (fn_blocks fn)" ?st] unfolding live_round_def by simp
  show ?case
  proof (cases "live_changed ?st'")
    case True
    then have "?st' \<noteq> ?st" by (auto dest: arg_cong [where f = live_changed])
    then have "live_room ?st' < live_room st" using r by (simp add: live_room_def)
    from less.hyps [OF this] r show ?thesis
      by (subst live_loop.simps) (simp add: Let_def True)
  next
    case False
    then have s: "?st' = ?st" "\<forall>b\<in>set (fn_blocks fn). live_settled fn ?st' (blk_id b)" using r by auto
    have "live_settled fn ?st' B" if "bix B < length (fn_blocks fn)" for B
      using s(2) nth_mem [OF that] liveness_facts_wf(5) [OF wf that] by metis
    moreover have "live_loop (liveness_facts fn) fn st = Some ?st'"
      by (subst live_loop.simps) (simp only: Let_def False if_False)
    ultimately show ?thesis using r by blast
  qed
qed

section \<open>The computed sets\<close>

lemma defined_before_read:
  assumes wf: "wf_function m fn" and B: "bix B < length (fn_blocks fn)" and v: "v \<in> live_before (code_of fn B) {}"
  shows "v \<notin> dests_of (code_of fn B)"
proof
  obtain k where k: "k < length (code_of fn B)" "\<not> is_phi (code_of fn B ! k)" "v \<in> set (uses (code_of fn B ! k))"
    "\<forall>j < k. dest (code_of fn B ! j) \<noteq> Some v" using v unfolding live_before_empty by blast
  let ?b = "fn_blocks fn ! bix B"
  have id: "blk_id ?b = B" by (rule liveness_facts_wf(5) [OF wf B])
  have "uses_ok fn ?b" using wf B by (simp add: wf_function_def)
  then have "instruction_wf fn ?b k (code_of fn B ! k)" using k(1) by (simp add: uses_ok_def)
  then have "use_ok fn v B (Some k)"
    using k(2,3) id by (cases "code_of fn B ! k") (simp_all add: instruction_wf_def)
  then obtain D j where D: "defined_at fn v D j" "D = B \<longrightarrow> j < k" unfolding use_ok_def by auto
  assume "v \<in> dests_of (code_of fn B)"
  then obtain i where "i < length (code_of fn B)" "dest (code_of fn B ! i) = Some v"
    unfolding dests_of_def by (auto simp: in_set_conv_nth)
  then have i: "defined_at fn v B i" "dest (code_of fn B ! i) = Some v" using defined_here [OF wf B] by blast+
  have "D = B" "j = i" using definition_unique [OF wf D(1) i(1)] by simp_all
  then show False using D(2) k(4) i(2) by blast
qed

lemma phi_dests_sub: "phi_dests is \<subseteq> dests_of is"
  by (auto simp: phi_dests_def dests_of_def)

lemma settled_complete:
  assumes wf: "wf_function m fn" and settled: "\<forall>B. bix B < length (fn_blocks fn) \<longrightarrow> live_settled fn st B"
  shows "live_from fn v B i \<Longrightarrow> v \<in> live_before (drop i (code_of fn B)) (end_uses fn B \<union> vals_at (live_out st) B)"
proof (induction rule: live_from.induct)
  case (read_here B i)
  then show ?case by (simp add: Cons_nth_drop_Suc [symmetric] live_step_iff)
next
  case (not_defined B i)
  then show ?case by (simp add: Cons_nth_drop_Suc [symmetric] live_step_iff)
next
  case (read_at_end B)
  then show ?case by simp
next
  case (read_on_edge B C j)
  have "bix B < length (fn_blocks fn)" using read_on_edge(1) by (simp add: flow_edge_def)
  then have "vals_at (live_out st) B = flow_out fn (live_in st) B" using settled by (simp add: live_settled_def)
  then show ?case using read_on_edge nth_mem unfolding flow_out_def by fastforce
next
  case (read_later B C)
  have r: "bix B < length (fn_blocks fn)" "bix C < length (fn_blocks fn)" using read_later(1) by (simp_all add: flow_edge_def)
  then have s: "vals_at (live_out st) B = flow_out fn (live_in st) B" "vals_at (live_in st) C = flow_in fn (live_in st) C"
    "vals_at (live_out st) C = flow_out fn (live_in st) C" using settled by (simp_all add: live_settled_def)
  have v: "v \<in> flow_in fn (live_in st) C" using read_later.IH by (simp add: flow_in_def s)
  have "v \<notin> phi_dests (code_of fn C)"
  proof
    assume "v \<in> phi_dests (code_of fn C)"
    then have d: "v \<in> dests_of (code_of fn C)" using phi_dests_sub by blast
    then have "v \<in> live_before (code_of fn C) {}"
      using v unfolding flow_in_def live_before_split [of _ "end_uses fn C \<union> flow_out fn (live_in st) C"] dests_of_def by blast
    then show False using defined_before_read [OF wf r(2)] d by blast
  qed
  then have "v \<in> flow_out fn (live_in st) B" using read_later(1) v s(2) unfolding flow_out_def by blast
  then show ?case by (simp add: s)
qed

lemma nothing_live_empty: "vals_at (nothing_live fn) B = {}"
proof -
  have "vals_at (fold (\<lambda>b m. m(blk_id b \<mapsto> {})) bs m) B = {}" if "vals_at m B = {}" for bs :: "BasicBlock list" and m :: value_sets
    using that by (induction bs arbitrary: m) simp_all
  from this [of Map.empty] show ?thesis by (simp add: nothing_live_def vals_at_def)
qed

lemma cfg_live_out_result:
  assumes wf: "wf_function m fn"
  shows "\<exists>outs. cfg_live_out fn = Some outs \<and>
    (\<forall>B i v. bix B < length (fn_blocks fn) \<longrightarrow> i \<le> length (code_of fn B) \<longrightarrow>
       v \<in> live_before (drop i (code_of fn B)) (vals_at outs B \<union> end_uses fn B) \<longleftrightarrow> live_from fn v B i)"
proof -
  let ?st = "\<lparr>live_in = nothing_live fn, live_out = nothing_live fn, live_changed = False\<rparr>"
  have "live_inv fn ?st" by (simp add: live_inv_def nothing_live_empty)
  then obtain st where st: "live_loop (liveness_facts fn) fn ?st = Some st" "live_inv fn st"
    "\<forall>B. bix B < length (fn_blocks fn) \<longrightarrow> live_settled fn st B" using live_loop_result [OF wf] by blast
  have ins: "\<forall>s. bix s < length (fn_blocks fn) \<longrightarrow> (\<forall>v\<in>vals_at (live_in st) s. live_from fn v s 0)"
    using st(2) by (simp add: live_inv_def)
  have "v \<in> live_before (drop i (code_of fn B)) (vals_at (live_out st) B \<union> end_uses fn B) \<longleftrightarrow> live_from fn v B i"
    if B: "bix B < length (fn_blocks fn)" and i: "i \<le> length (code_of fn B)" for B i v
  proof -
    have "vals_at (live_out st) B = flow_out fn (live_in st) B" using st(3) B by (simp add: live_settled_def)
    then have "\<forall>v\<in>vals_at (live_out st) B \<union> end_uses fn B. live_from fn v B (length (code_of fn B))"
      using flow_out_live [OF ins] live_from.read_at_end [OF B] by blast
    from live_before_live [OF B this i] show ?thesis
      using settled_complete [OF wf st(3), of v B i] by (auto simp: Un_commute)
  qed
  then show ?thesis using st(1) by (simp add: cfg_live_out_def)
qed

lemma live_in_at_result:
  assumes wf: "wf_function m fn" and B: "bix B < length (fn_blocks fn)" and i: "i \<le> length (code_of fn B)"
  shows "live_in_at fn B i = Some (sorted_list_of_set {v. live_from fn v B i})"
proof -
  obtain outs where o: "cfg_live_out fn = Some outs"
    "\<forall>B i v. bix B < length (fn_blocks fn) \<longrightarrow> i \<le> length (code_of fn B) \<longrightarrow>
       v \<in> live_before (drop i (code_of fn B)) (vals_at outs B \<union> end_uses fn B) \<longleftrightarrow> live_from fn v B i"
    using cfg_live_out_result [OF wf] by blast
  have "live_before (drop i (code_of fn B)) (vals_at outs B \<union> end_uses fn B) = {v. live_from fn v B i}"
    using o(2) B i by blast
  then show ?thesis
    using B by (simp add: live_in_at_def find_block_wf [OF wf_blocks(4) [OF wf]] o(1) foldr_conv_fold)
qed

section \<open>Executions from an instruction\<close>

lemma live_assigned:
  assumes wf: "wf_function m fn"
  shows "live_from fn v B i \<Longrightarrow> reaches fn prev B i S \<Longrightarrow> v \<in> S"
proof (induction arbitrary: prev S rule: live_from.induct)
  case (read_here B i)
  have b: "block_by_id fn B = Some (fn_blocks fn ! bix B)" using read_here(1) by (simp add: block_by_id_def get_at_def)
  have "v \<in> value_reads fn prev B i"
    using b read_here by (cases "code_of fn B ! i") (simp_all add: value_reads_def)
  then show ?case using exec_safe(2) [OF wf read_here.prems] by blast
next
  case (not_defined B i)
  have "block_by_id fn B = Some (fn_blocks fn ! bix B)" using not_defined(1) by (simp add: block_by_id_def get_at_def)
  from reaches.advance [OF not_defined.prems this not_defined(2)] have "v \<in> S \<union> set_option (dest (code_of fn B ! i))"
    by (rule not_defined.IH)
  then show ?case using not_defined(3) by auto
next
  case (read_at_end B)
  have "block_by_id fn B = Some (fn_blocks fn ! bix B)" using read_at_end(1) by (simp add: block_by_id_def get_at_def)
  then have "v \<in> value_reads fn prev B (length (code_of fn B))" using read_at_end(2) by (simp add: value_reads_def)
  then show ?case using exec_safe(2) [OF wf read_at_end.prems] by blast
next
  case (read_on_edge B C j)
  let ?c = "fn_blocks fn ! bix C"
  have C: "bix C < length (fn_blocks fn)" "blk_id ?c = C" and B: "bix B < length (fn_blocks fn)"
    using read_on_edge(1) liveness_facts_wf(5) [OF wf] by (simp_all add: flow_edge_def)
  obtain d ss s where phi: "code_of fn C ! j = Phi d ss" "s \<in> set ss" "phi_predecessor s = B" "phi_value s = v"
    using read_on_edge(3) by (cases "code_of fn C ! j") (auto simp: phi_reads_def)
  have "uses_ok fn ?c" using wf C(1) by (simp add: wf_function_def)
  then have "instruction_wf fn ?c j (code_of fn C ! j)" using read_on_edge(2) by (simp add: uses_ok_def)
  then have use: "use_ok fn v B None" using phi by (auto simp: instruction_wf_def phi_ok_def)
  obtain p where p: "flow_walk fn (fn_entry fn) (p @ [B]) B"
    "\<forall>v D j. defined_at fn v D j \<longrightarrow> D \<in> set p \<or> D = B \<and> j < length (code_of fn B) \<longrightarrow> v \<in> S"
    using exec_inv_reaches [OF wf_blocks(4) [OF wf] read_on_edge.prems] unfolding exec_inv_def by blast
  have "block_by_id fn B = Some (fn_blocks fn ! bix B)" using B by (simp add: block_by_id_def get_at_def)
  from defined_in_block(1) [OF wf_blocks(4) [OF wf] this] show ?case
    by (intro use_assigned [OF use p]) simp_all
next
  case (read_later B C)
  have "block_by_id fn B = Some (fn_blocks fn ! bix B)" using read_later(1) by (simp add: block_by_id_def get_at_def flow_edge_def)
  from reaches.follow [OF read_later.prems this refl read_later(1)] show ?case by (rule read_later.IH)
qed

definition resume_trace ::
  "('v, 's) meaning \<Rightarrow> ('v, 's) chooser \<Rightarrow> Function \<Rightarrow> nat \<Rightarrow> BasicBlockId option \<Rightarrow> BasicBlockId \<Rightarrow> nat \<Rightarrow>
   (ValueId \<Rightarrow> 'v) \<Rightarrow> 's \<Rightarrow> (BasicBlockId \<times> 'v list \<times> 's) list" where
  \<comment> \<open>an execution that starts before instruction \<open>i\<close> of block \<open>b\<close>\<close>
  "resume_trace act pick fn k prev b i env s =
     (case block_by_id fn b of
        None \<Rightarrow> []
      | Some block \<Rightarrow>
          (case run_block act prev (drop i (blk_instructions block)) (env, s) of (env', s') \<Rightarrow>
             let vs = map env' (terminator_uses (blk_terminator block)) in
             (b, vs, s') #
               (case pick (blk_terminator block) vs s' of
                  None \<Rightarrow> []
                | Some next \<Rightarrow> block_trace act pick fn k (Some b) next env' s')))"

definition phi_selects :: "('v, 's) meaning \<Rightarrow> bool" where
  \<comment> \<open>a phi looks only at the operand for the block the execution came from\<close>
  "phi_selects act \<longleftrightarrow> (\<forall>p d sources f g s.
     (\<forall>x\<in>set sources. phi_predecessor x = p \<longrightarrow> f (phi_value x) = g (phi_value x)) \<longrightarrow>
     act (Some p) (Phi d sources) (map f (uses (Phi d sources))) s = act (Some p) (Phi d sources) (map g (uses (Phi d sources))) s)"

definition follows_edges :: "('v, 's) chooser \<Rightarrow> bool" where
  "follows_edges pick \<longleftrightarrow> (\<forall>t vs s n. pick t vs s = Some n \<longrightarrow> n \<in> set (terminator_successors t))"

definition needed :: "Function \<Rightarrow> BasicBlockId option \<Rightarrow> BasicBlockId \<Rightarrow> nat \<Rightarrow> ValueId set" where
  \<comment> \<open>what an execution that came from \<open>prev\<close> reads from instruction \<open>i\<close> on\<close>
  "needed fn prev B i = {v. live_from fn v B i} \<union>
     {v. \<exists>p j. prev = Some p \<and> i \<le> j \<and> j < length (code_of fn B) \<and> v \<in> phi_reads p (code_of fn B ! j)}"

lemma run_agree:
  assumes act: "phi_selects act" and B: "bix B < length (fn_blocks fn)"
    and phis: "\<forall>j. i \<le> j \<and> j < length (code_of fn B) \<and> is_phi (code_of fn B ! j) \<longrightarrow> prev \<noteq> None"
    and i: "i \<le> length (code_of fn B)" and env: "\<forall>v\<in>needed fn prev B i. env v = env' v"
  shows "\<exists>e e' s'. run_block act prev (drop i (code_of fn B)) (env, s) = (e, s') \<and>
    run_block act prev (drop i (code_of fn B)) (env', s) = (e', s') \<and> (\<forall>v. live_from fn v B (length (code_of fn B)) \<longrightarrow> e v = e' v)"
  using i phis env
proof (induction i arbitrary: env env' s rule: inc_induct)
  case base
  then show ?case by (simp add: run_block_def needed_def)
next
  case (step i)
  let ?i = "code_of fn B ! i"
  have split: "drop i (code_of fn B) = ?i # drop (Suc i) (code_of fn B)" using step.hyps by (simp add: Cons_nth_drop_Suc)
  have act: "act prev ?i (map env (uses ?i)) s = act prev ?i (map env' (uses ?i)) s"
  proof (cases "is_phi ?i")
    case True
    then obtain d ss where phi: "?i = Phi d ss" using phi_cases by blast
    obtain p where p: "prev = Some p" using step.prems(1) step.hyps True by (metis not_None_eq order_refl)
    have "env (phi_value x) = env' (phi_value x)" if "x \<in> set ss" "phi_predecessor x = p" for x
    proof -
      have "phi_value x \<in> phi_reads p ?i" using that by (auto simp: phi phi_reads_def)
      then have "phi_value x \<in> needed fn prev B i" using p step.hyps unfolding needed_def by blast
      then show ?thesis using step.prems(2) by blast
    qed
    then show ?thesis using act unfolding phi_selects_def p phi by blast
  next
    case False
    then have "\<forall>v\<in>set (uses ?i). v \<in> needed fn prev B i"
      using live_from.read_here [OF B step.hyps(2)] by (simp add: needed_def)
    then have "map env (uses ?i) = map env' (uses ?i)" using step.prems(2) by simp
    then show ?thesis by (rule arg_cong [where f = "\<lambda>vs. act prev ?i vs s"])
  qed
  obtain r s1 where r: "act prev ?i (map env (uses ?i)) s = (r, s1)" by fastforce
  let ?upd = "\<lambda>env. case dest ?i of None \<Rightarrow> env | Some d \<Rightarrow> env(d := r)"
  have "needed fn prev B (Suc i) \<subseteq> needed fn prev B i \<union> set_option (dest ?i)"
    using live_from.not_defined [OF B step.hyps(2)] unfolding needed_def by (auto dest: Suc_leD)
  then have "\<forall>v\<in>needed fn prev B (Suc i). ?upd env v = ?upd env' v"
    using step.prems(2) by (auto split: option.split)
  moreover have "\<forall>j. Suc i \<le> j \<and> j < length (code_of fn B) \<and> is_phi (code_of fn B ! j) \<longrightarrow> prev \<noteq> None"
    using step.prems(1) Suc_leD by blast
  ultimately have IH: "\<exists>e e' s'. run_block act prev (drop (Suc i) (code_of fn B)) (?upd env, s1) = (e, s') \<and>
      run_block act prev (drop (Suc i) (code_of fn B)) (?upd env', s1) = (e', s') \<and>
      (\<forall>v. live_from fn v B (length (code_of fn B)) \<longrightarrow> e v = e' v)" using step.IH by blast
  have "run_block act prev (drop i (code_of fn B)) (env, s) = run_block act prev (drop (Suc i) (code_of fn B)) (?upd env, s1)"
    "run_block act prev (drop i (code_of fn B)) (env', s) = run_block act prev (drop (Suc i) (code_of fn B)) (?upd env', s1)"
    unfolding split using r r [unfolded act] by (simp_all add: run_block_def run_instruction_def)
  then show ?case using IH by simp
qed

lemma resume_agree:
  assumes wf: "wf_function m fn" and act: "phi_selects act" and pick: "follows_edges pick"
    and later: "\<And>prev B env env' s. prev \<noteq> None \<Longrightarrow> bix B < length (fn_blocks fn) \<Longrightarrow>
      \<forall>v\<in>needed fn prev B 0. env v = env' v \<Longrightarrow>
      block_trace act pick fn k prev B env s = block_trace act pick fn k prev B env' s"
    and B: "bix B < length (fn_blocks fn)" and i: "i \<le> length (code_of fn B)"
    and phis: "\<forall>j. i \<le> j \<and> j < length (code_of fn B) \<and> is_phi (code_of fn B ! j) \<longrightarrow> prev \<noteq> None"
    and env: "\<forall>v\<in>needed fn prev B i. env v = env' v"
  shows "resume_trace act pick fn k prev B i env s = resume_trace act pick fn k prev B i env' s"
proof -
  have b: "block_by_id fn B = Some (fn_blocks fn ! bix B)" using B by (simp add: block_by_id_def get_at_def)
  obtain e e' s' where run: "run_block act prev (drop i (code_of fn B)) (env, s) = (e, s')"
    "run_block act prev (drop i (code_of fn B)) (env', s) = (e', s')"
    and agree: "\<forall>v. live_from fn v B (length (code_of fn B)) \<longrightarrow> e v = e' v"
    using run_agree [OF act B phis i env] by blast
  let ?t = "blk_terminator (fn_blocks fn ! bix B)"
  have vs: "map e (terminator_uses ?t) = map e' (terminator_uses ?t)"
    using agree live_from.read_at_end [OF B] by simp
  have rest: "block_trace act pick fn k (Some B) n e s' = block_trace act pick fn k (Some B) n e' s'"
    if n: "pick ?t (map e' (terminator_uses ?t)) s' = Some n" for n
  proof -
    have "n \<in> set (terminator_successors ?t)" using pick n unfolding follows_edges_def by blast
    then have edge: "(B, n) \<in> flow_edge fn" using B wf_blocks(4) [OF wf] by (simp add: flow_edge_def block_wf_def)
    have "live_from fn v B (length (code_of fn B))" if "v \<in> needed fn (Some B) n 0" for v
      using that live_from.read_later [OF edge] live_from.read_on_edge [OF edge] unfolding needed_def by blast
    then have "\<forall>v\<in>needed fn (Some B) n 0. e v = e' v" using agree by blast
    moreover have "bix n < length (fn_blocks fn)" using edge by (simp add: flow_edge_def)
    ultimately show ?thesis using later by blast
  qed
  show ?thesis unfolding resume_trace_def b option.case run prod.case Let_def vs using rest by (simp split: option.split)
qed

lemma trace_resume: "block_trace act pick fn (Suc k) prev B env s = resume_trace act pick fn k prev B 0 env s"
  by (simp only: resume_trace_def block_trace.simps drop_0)

lemma trace_agree:
  assumes wf: "wf_function m fn" and act: "phi_selects act" and pick: "follows_edges pick"
  shows "prev \<noteq> None \<Longrightarrow> bix B < length (fn_blocks fn) \<Longrightarrow> \<forall>v\<in>needed fn prev B 0. env v = env' v \<Longrightarrow>
    block_trace act pick fn k prev B env s = block_trace act pick fn k prev B env' s"
proof (induction k arbitrary: prev B env env' s)
  case (Suc k)
  have "\<forall>j. 0 \<le> j \<and> j < length (code_of fn B) \<and> is_phi (code_of fn B ! j) \<longrightarrow> prev \<noteq> None" using Suc.prems(1) by blast
  from resume_agree [OF wf act pick Suc.IH Suc.prems(2) _ this Suc.prems(3)] show ?case unfolding trace_resume by blast
qed simp


section \<open>Properties\<close>

text \<open>
  C26: The rounds of the liveness analysis end on every verified function, and the values reported
  for an instruction are, in ascending order, exactly those that some path from there reads before
  defining them; a phi reads its sources on the edges from its predecessors.
\<close>

theorem live_values_correct:
  assumes "verify_function m fn = Some (Inr ())" and "block_by_id fn B = Some b" and "i \<le> length (blk_instructions b)"
  shows "\<exists>vs. live_in_at fn B i = Some vs \<and> sorted vs \<and> distinct vs \<and> set vs = {v. live_from fn v B i}"
proof -
  have wf: "wf_function m fn" using assms(1) verify_function_result(2) by blast
  have "bix B < length (fn_blocks fn)" "b = fn_blocks fn ! bix B"
    using assms(2) by (simp_all add: block_by_id_def get_at_Some_iff)
  then show ?thesis using live_in_at_result [OF wf, of B i] assms(3) by simp
qed

theorem live_values_correct_witness:
  "\<exists>vs. live_in_at loop_load (BasicBlockId 1) 1 = Some vs \<and> set vs = {v. live_from loop_load v (BasicBlockId 1) 1}"
proof -
  have "block_by_id loop_load (BasicBlockId 1) = Some (fn_blocks loop_load ! 1)" "1 \<le> length (blk_instructions (fn_blocks loop_load ! 1))"
    by code_simp+
  from live_values_correct [OF loop_load_verified(1) this] show ?thesis by blast
qed

text \<open>
  C27: Saving the reported values is enough to resume, and all of them can be saved. When an
  execution of a verified function stands before an instruction behind the phis of its block, every
  reported value has been assigned; and an execution resumed there with any environment that agrees
  on the reported values runs through the same blocks, with the same states and operands.
\<close>

theorem resuming_with_live_values:
  assumes "verify_function m fn = Some (Inr ())" and "reaches fn prev B i S" and "block_by_id fn B = Some b"
    and "live_in_at fn B i = Some vs" and "\<forall>j. i \<le> j \<and> j < length (blk_instructions b) \<longrightarrow> \<not> is_phi (blk_instructions b ! j)"
    and "phi_selects act" and "follows_edges pick" and "\<forall>v\<in>set vs. env v = env' v" and "i \<le> length (blk_instructions b)"
  shows "set vs \<subseteq> S \<and> resume_trace act pick fn k prev B i env s = resume_trace act pick fn k prev B i env' s"
proof -
  have wf: "wf_function m fn" using assms(1) verify_function_result(2) by blast
  have B: "bix B < length (fn_blocks fn)" and b: "b = fn_blocks fn ! bix B"
    using assms(3) by (simp_all add: block_by_id_def get_at_Some_iff)
  have vs: "set vs = {v. live_from fn v B i}" using live_in_at_result [OF wf B, of i] assms(4,9) b by auto
  have "phi_reads p (code_of fn B ! j) = {}" if "i \<le> j" "j < length (code_of fn B)" for p j
    using scan_other(2) assms(5) that b by blast
  then have "needed fn prev B i = set vs" using vs unfolding needed_def by blast
  then have env: "\<forall>v\<in>needed fn prev B i. env v = env' v" using assms(8) by simp
  have phis: "\<forall>j. i \<le> j \<and> j < length (code_of fn B) \<and> is_phi (code_of fn B ! j) \<longrightarrow> prev \<noteq> None"
    using assms(5) b by blast
  have i: "i \<le> length (code_of fn B)" using assms(9) b by simp
  have "resume_trace act pick fn k prev B i env s = resume_trace act pick fn k prev B i env' s"
    by (rule resume_agree [OF wf assms(6,7) trace_agree [OF wf assms(6,7)] B i phis env])
  moreover have "set vs \<subseteq> S" using vs live_assigned [OF wf _ assms(2)] by blast
  ultimately show ?thesis by blast
qed

lemma from_source_selects: "phi_selects from_source"
proof -
  have sel: "map_of (zip (map phi_predecessor sources) (map f (map phi_value sources))) p =
      map_of (zip (map phi_predecessor sources) (map g (map phi_value sources))) p"
    if "\<forall>x\<in>set sources. phi_predecessor x = p \<longrightarrow> f (phi_value x) = g (phi_value x)"
    for f g :: "ValueId \<Rightarrow> nat" and p and sources :: "PhiSource list"
    using that by (induction sources) auto
  have u: "uses (Phi d sources) = map phi_value sources" for d sources by (simp add: uses_def)
  show ?thesis
    unfolding phi_selects_def u
  proof (intro allI impI)
    fix p d and sources :: "PhiSource list" and f and g :: "ValueId \<Rightarrow> nat" and s
    assume "\<forall>x\<in>set sources. phi_predecessor x = p \<longrightarrow> f (phi_value x) = g (phi_value x)"
    from sel [OF this] show "from_source (Some p) (Phi d sources) (map f (map phi_value sources)) s =
        from_source (Some p) (Phi d sources) (map g (map phi_value sources)) s"
      by (simp only: from_source.simps)
  qed
qed

lemma by_condition_follows: "follows_edges by_condition"
proof -
  have "n \<in> set (terminator_successors t)" if "by_condition t vs s = Some n" for t vs s n
    using that by (cases t) (auto split: if_splits)
  then show ?thesis unfolding follows_edges_def by blast
qed

theorem resuming_with_live_values_witness:
  "\<exists>vs. live_in_at loop_load (BasicBlockId 0) 1 = Some vs \<and> set vs \<subseteq> {ValueId 1} \<and>
    resume_trace from_source by_condition loop_load 5 None (BasicBlockId 0) 1 (\<lambda>_. 0) 0 =
    resume_trace from_source by_condition loop_load 5 None (BasicBlockId 0) 1 (\<lambda>v. if v = ValueId 1 then 0 else 7) 0"
proof -
  let ?b = "fn_blocks loop_load ! 0"
  have b: "block_by_id loop_load (BasicBlockId 0) = Some ?b" by code_simp
  have l: "length (blk_instructions ?b) = 2" "dest (blk_instructions ?b ! 0) = Some (ValueId 1)"
    "fn_entry loop_load = BasicBlockId 0" "blk_instructions ?b ! 1 = StoreVar [120] (ValueId 1)" by code_simp+
  have "reaches loop_load None (BasicBlockId 0) 0 {}" using reaches.enter [of loop_load] by (simp add: l)
  from reaches.advance [OF this b] have r: "reaches loop_load None (BasicBlockId 0) 1 {ValueId 1}" by (simp add: l)
  have vs: "live_in_at loop_load (BasicBlockId 0) 1 = Some [ValueId 1]" by code_simp
  have phis: "\<forall>j. 1 \<le> j \<and> j < length (blk_instructions ?b) \<longrightarrow> \<not> is_phi (blk_instructions ?b ! j)"
  proof (intro allI impI)
    fix j :: nat assume "1 \<le> j \<and> j < length (blk_instructions ?b)"
    then have "j = 1" by (simp add: l)
    then show "\<not> is_phi (blk_instructions ?b ! j)" using l(4) by simp
  qed
  have "\<forall>v\<in>set [ValueId 1]. (\<lambda>_. 0 :: nat) v = (\<lambda>v. if v = ValueId 1 then 0 else 7) v" "1 \<le> length (blk_instructions ?b)"
    by (simp_all add: l)
  from resuming_with_live_values [OF loop_load_verified(1) r b vs phis from_source_selects by_condition_follows this]
  show ?thesis using vs by blast
qed

end
