(* ===== verification/Opt_Gvn.thy ===== *)
theory Opt_Gvn
  imports Opt_Dce_Correct
begin

text \<open>
  Reuse of equal instructions inside a block (\<open>wjsm-optimize/src/gvn.rs\<close>): a constant, slot load
  or guard that repeats an earlier one is deleted and its value replaced by the earlier one in the
  whole function.
\<close>

section \<open>Aliases\<close>

type_synonym alias_map = "(ValueId \<times> ValueId) list"

function resolve_from :: "alias_map \<Rightarrow> nat \<Rightarrow> ValueId \<Rightarrow> ValueId" where
  "resolve_from aliases guard v =
     (case map_of aliases v of
        None \<Rightarrow> v
      | Some n \<Rightarrow> if n = v \<or> guard \<ge> 32 then v else resolve_from aliases (guard + 1) n)"
  by pat_completeness auto
termination
  by (relation "measure (\<lambda>(aliases, guard, v). 33 - guard)") auto

declare resolve_from.simps [simp del]

definition resolve_alias :: "alias_map \<Rightarrow> ValueId \<Rightarrow> ValueId" where
  "resolve_alias aliases v = resolve_from aliases 0 v"

definition remap_instruction :: "alias_map \<Rightarrow> Instruction \<Rightarrow> Instruction" where
  "remap_instruction aliases i = remap_values (\<lambda>v. if dest i = Some v then v else resolve_alias aliases v) i"

definition apply_aliases :: "alias_map \<Rightarrow> Function \<Rightarrow> Function" where
  "apply_aliases aliases fn =
     (if aliases = [] then fn
      else fn\<lparr>fn_blocks := map (\<lambda>b. b\<lparr>blk_instructions := map (remap_instruction aliases) (blk_instructions b),
             blk_terminator := term_remap_values (resolve_alias aliases) (blk_terminator b)\<rparr>) (fn_blocks fn)\<rparr>)"

section \<open>One block\<close>

record gvn_state =
  gvn_aliases :: alias_map
  gvn_consts :: "u32 \<rightharpoonup> ValueId"
  gvn_slots :: "ValueId \<times> u32 \<rightharpoonup> ValueId"
  gvn_shapes :: "ValueId \<times> u32 \<rightharpoonup> ValueId"
  gvn_kinds :: "ValueId \<times> u32 \<rightharpoonup> ValueId"
  gvn_tags :: "ValueId \<times> u8 \<rightharpoonup> ValueId"
  gvn_kept :: "Instruction list"

definition gvn_start :: gvn_state where
  "gvn_start = \<lparr>gvn_aliases = [], gvn_consts = Map.empty, gvn_slots = Map.empty, gvn_shapes = Map.empty,
     gvn_kinds = Map.empty, gvn_tags = Map.empty, gvn_kept = []\<rparr>"

definition alias_to :: "ValueId \<Rightarrow> ValueId \<Rightarrow> gvn_state \<Rightarrow> gvn_state" where
  "alias_to d e st = st\<lparr>gvn_aliases := AList.update d e (gvn_aliases st)\<rparr>"

definition keep :: "Instruction \<Rightarrow> gvn_state \<Rightarrow> gvn_state" where
  "keep i st = st\<lparr>gvn_kept := gvn_kept st @ [i]\<rparr>"

definition gvn_visit :: "Instruction \<Rightarrow> gvn_state \<Rightarrow> gvn_state" where
  "gvn_visit i st =
     (case i of
        Const d c \<Rightarrow>
          (case gvn_consts st (cid c) of
             Some e \<Rightarrow> alias_to d e st
           | None \<Rightarrow> keep i (st\<lparr>gvn_consts := (gvn_consts st)(cid c \<mapsto> d)\<rparr>))
      | LoadSlot d obj index \<Rightarrow>
          (case gvn_slots st (obj, index) of
             Some e \<Rightarrow> alias_to d e st
           | None \<Rightarrow> keep i (st\<lparr>gvn_slots := (gvn_slots st)((obj, index) \<mapsto> d)\<rparr>))
      | GuardShape d obj shape \<Rightarrow>
          (case gvn_shapes st (obj, shape) of
             Some e \<Rightarrow> alias_to d e st
           | None \<Rightarrow> keep i (st\<lparr>gvn_shapes := (gvn_shapes st)((obj, shape) \<mapsto> d)\<rparr>))
      | GuardElementsKind d array kind None \<Rightarrow>
          (case gvn_kinds st (array, kind) of
             Some e \<Rightarrow> alias_to d e st
           | None \<Rightarrow> keep i (st\<lparr>gvn_kinds := (gvn_kinds st)((array, kind) \<mapsto> d)\<rparr>))
      | GuardTag d v tag \<Rightarrow>
          (case gvn_tags st (v, tag) of
             Some e \<Rightarrow> alias_to d e st
           | None \<Rightarrow> keep i (st\<lparr>gvn_tags := (gvn_tags st)((v, tag) \<mapsto> d)\<rparr>))
      | StoreSlot _ obj index _ _ \<Rightarrow> keep i (st\<lparr>gvn_slots := (gvn_slots st)((obj, index) := None)\<rparr>)
      | _ \<Rightarrow> keep i st)"

definition gvn_instruction :: "Instruction \<Rightarrow> gvn_state \<Rightarrow> gvn_state" where
  "gvn_instruction i st = gvn_visit (remap_instruction (gvn_aliases st) i) st"

definition gvn_block :: "nat \<Rightarrow> Function \<Rightarrow> Function" where
  "gvn_block k fn =
     (let block = fn_blocks fn ! k; st = fold gvn_instruction (blk_instructions block) gvn_start
      in apply_aliases (gvn_aliases st)
           (fn\<lparr>fn_blocks := (fn_blocks fn)[k := block\<lparr>blk_instructions := gvn_kept st\<rparr>]\<rparr>))"

definition gvn_function :: "Function \<Rightarrow> Function" where
  "gvn_function fn = fold gvn_block [0..<length (fn_blocks fn)] fn"

definition gvn_run :: "Module \<Rightarrow> Module" where
  "gvn_run m = m\<lparr>mod_functions := map gvn_function (mod_functions m)\<rparr>"

section \<open>Deleting instructions and replacing their values\<close>

definition keeps :: "ValueId set \<Rightarrow> Instruction \<Rightarrow> bool" where
  "keeps R i \<longleftrightarrow> (case dest i of None \<Rightarrow> True | Some d \<Rightarrow> d \<notin> R)"

definition merged_block :: "ValueId set \<Rightarrow> (ValueId \<Rightarrow> ValueId) \<Rightarrow> BasicBlock \<Rightarrow> BasicBlock" where
  "merged_block R r b = b\<lparr>blk_instructions := map (remap_values r) (filter (keeps R) (blk_instructions b)),
     blk_terminator := term_remap_values r (blk_terminator b)\<rparr>"

definition merged :: "ValueId set \<Rightarrow> (ValueId \<Rightarrow> ValueId) \<Rightarrow> Function \<Rightarrow> Function" where
  \<comment> \<open>the definitions of \<open>R\<close> are deleted, every value is renamed by \<open>r\<close>\<close>
  "merged R r fn = fn\<lparr>fn_blocks := map (merged_block R r) (fn_blocks fn)\<rparr>"

definition merge_ok :: "ValueId set \<Rightarrow> (ValueId \<Rightarrow> ValueId) \<Rightarrow> Function \<Rightarrow> bool" where
  \<comment> \<open>a deleted value is replaced by one that is kept and defined before it in the same block\<close>
  "merge_ok R r fn \<longleftrightarrow> (\<forall>v. v \<notin> R \<longrightarrow> r v = v) \<and>
     (\<forall>v\<in>R. r v \<notin> R \<and> (\<forall>D i. defined_at fn v D i \<longrightarrow> (\<exists>j < i. defined_at fn (r v) D j)))"

lemma merged_block_simps [simp]:
  "blk_id (merged_block R r b) = blk_id b"
  "blk_instructions (merged_block R r b) = map (remap_values r) (filter (keeps R) (blk_instructions b))"
  "blk_terminator (merged_block R r b) = term_remap_values r (blk_terminator b)"
  by (simp_all add: merged_block_def)

lemma merged_simps [simp]:
  "fn_entry (merged R r fn) = fn_entry fn" "fn_home_object (merged R r fn) = fn_home_object fn"
  "fn_blocks (merged R r fn) = map (merged_block R r) (fn_blocks fn)"
  by (simp_all add: merged_def)

lemma term_remap_values_facts:
  "terminator_successors (term_remap_values r t) = terminator_successors t"
  "terminator_uses (term_remap_values r t) = map r (terminator_uses t)"
  "term_remap_values r t = Unreachable \<longleftrightarrow> t = Unreachable"
  "term_remap_values (\<lambda>v. v) t = t"
proof -
  show "terminator_uses (term_remap_values r t) = map r (terminator_uses t)"
  proof (cases t)
    case (Return v)
    then show ?thesis by (cases v) simp_all
  qed (auto simp: map_concat intro!: arg_cong [where f = concat])
qed (cases t; simp add: option.map_ident)+

lemma flow_edge_merged: "flow_edge (merged R r fn) = flow_edge fn"
  by (auto simp: flow_edge_def term_remap_values_facts)

lemma remap_values_kind:
  "forwards_with_args (remap_values r i) = forwards_with_args i" "is_phi (remap_values r i) = is_phi i"
  "remap_values r i = Const d c \<longleftrightarrow> (\<exists>d'. i = Const d' c \<and> d = r d')"
  by (cases i; auto simp: remap_values_def)+

end
