(* ===== verification/Opt_Gvn_Correct.thy ===== *)
theory Opt_Gvn_Correct
  imports Opt_Gvn
begin

text \<open>
  Reusing equal instructions keeps a function well formed: the deleted values are replaced by values
  defined earlier in the same block, so every use stays dominated by its definition.
\<close>

section \<open>Merging keeps functions well formed\<close>

lemma keeps_dest: "dest i = Some d \<Longrightarrow> keeps R i \<longleftrightarrow> d \<notin> R"
  by (simp add: keeps_def)

lemma defined_at_merged:
  assumes ids: "\<forall>k < length (fn_blocks fn). block_wf m fn k (fn_blocks fn ! k)"
    and ok: "merge_ok R r fn" and b: "b \<in> set (fn_blocks fn)" "blk_id b = D" and v: "v \<notin> R" and d: "defined_at fn v D j"
  shows "j < length (blk_instructions b)" "keeps R (blk_instructions b ! j)"
    "defined_at (merged R r fn) v D (kept_index (keeps R) (blk_instructions b) j)"
proof -
  obtain c where c: "c \<in> set (fn_blocks fn)" "blk_id c = D" "j < length (blk_instructions c)"
    "dest (blk_instructions c ! j) = Some v" using d unfolding defined_at_def by blast
  have "c = b" using block_of_id(1) [OF ids c(1)] block_of_id(1) [OF ids b(1)] c(2) b(2) by metis
  then have j: "j < length (blk_instructions b)" "dest (blk_instructions b ! j) = Some v" using c by simp_all
  then show "j < length (blk_instructions b)" by blast
  show k: "keeps R (blk_instructions b ! j)" using keeps_dest [OF j(2)] v by blast
  have rv: "r v = v" using ok v by (simp add: merge_ok_def)
  note kept = kept_index_nth [of j "blk_instructions b" "keeps R", OF j(1) k]
  have "merged_block R r b \<in> set (fn_blocks (merged R r fn))" using b(1) by simp
  moreover have "dest (blk_instructions (merged_block R r b) ! kept_index (keeps R) (blk_instructions b) j) = Some v"
    using kept j(2) rv by (simp add: dest_remap_values)
  ultimately show "defined_at (merged R r fn) v D (kept_index (keeps R) (blk_instructions b) j)"
    unfolding defined_at_def using kept(1) b(2) by (intro bexI [of _ "merged_block R r b"]) simp_all
qed

lemma use_ok_merged:
  assumes ids: "\<forall>k < length (fn_blocks fn). block_wf m fn k (fn_blocks fn ! k)"
    and ok: "merge_ok R r fn" and b: "b \<in> set (fn_blocks fn)"
    and pos: "case pos of None \<Rightarrow> pos' = None | Some i \<Rightarrow> i \<le> length (blk_instructions b) \<and>
      pos' = Some (kept_index (keeps R) (blk_instructions b) i)"
    and use: "use_ok fn v (blk_id b) pos"
  shows "use_ok (merged R r fn) (r v) (blk_id b) pos'"
proof -
  obtain D j where D: "defined_at fn v D j" "on_every_path fn D (blk_id b)"
    "D = blk_id b \<longrightarrow> (case pos of None \<Rightarrow> True | Some i \<Rightarrow> j < i)" using use unfolding use_ok_def by blast
  have "\<exists>j' \<le> j. defined_at fn (r v) D j' \<and> r v \<notin> R"
  proof (cases "v \<in> R")
    case True
    then show ?thesis using ok D(1) unfolding merge_ok_def by (meson less_imp_le)
  next
    case False
    then show ?thesis using ok D(1) unfolding merge_ok_def by auto
  qed
  then obtain j' where j': "j' \<le> j" "defined_at fn (r v) D j'" "r v \<notin> R" by blast
  obtain c where c: "c \<in> set (fn_blocks fn)" "blk_id c = D" using j'(2) unfolding defined_at_def by blast
  note kept = defined_at_merged [OF ids ok c j'(3,2)]
  have "on_every_path (merged R r fn) D (blk_id b)" using D(2) on_every_path_cong [OF flow_edge_merged] by simp
  moreover have "case pos' of None \<Rightarrow> True | Some i \<Rightarrow> kept_index (keeps R) (blk_instructions c) j' < i" if "D = blk_id b"
  proof -
    have "c = b" using block_of_id(1) [OF ids c(1)] block_of_id(1) [OF ids b] c(2) that by metis
    then show ?thesis using pos D(3) that kept(2) j'(1)
      by (auto split: option.splits intro!: kept_index_less)
  qed
  ultimately show ?thesis using kept(3) unfolding use_ok_def by blast
qed

lemma block_wf_merged:
  assumes "block_wf m fn k b"
  shows "block_wf m (merged R r fn) k (merged_block R r b)"
proof -
  have "constants_in_range m (merged_block R r b)"
    using assms
    by (cases "blk_terminator b") (fastforce simp: block_wf_def constants_in_range_def remap_values_kind(3) image_iff eq_commute [of "Const _ _"])+
  then show ?thesis using assms by (auto simp: block_wf_def term_remap_values_facts)
qed

lemma phi_ok_merged:
  assumes ids: "\<forall>k < length (fn_blocks fn). block_wf m fn k (fn_blocks fn ! k)"
    and ok: "merge_ok R r fn" and phi: "phi_ok fn b sources"
  shows "phi_ok (merged R r fn) (merged_block R r b) (map (\<lambda>s. s\<lparr>phi_value := r (phi_value s)\<rparr>) sources)"
proof -
  have "use_ok (merged R r fn) (r (phi_value s)) (phi_predecessor s) None" if s: "s \<in> set sources" for s
  proof -
    have "(phi_predecessor s, blk_id b) \<in> flow_edge fn" using phi s unfolding phi_ok_def by fastforce
    then obtain c where c: "c \<in> set (fn_blocks fn)" "blk_id c = phi_predecessor s"
      using edge_block [OF ids] by blast
    have "use_ok fn (phi_value s) (blk_id c) None" using phi s c(2) by (simp add: phi_ok_def)
    then show ?thesis using use_ok_merged [OF ids ok c(1), of None None] c(2) by simp
  qed
  then show ?thesis using phi by (simp add: phi_ok_def flow_edge_merged o_def image_image)
qed

lemma uses_ok_merged:
  assumes ids: "\<forall>k < length (fn_blocks fn). block_wf m fn k (fn_blocks fn ! k)"
    and ok: "merge_ok R r fn" and b: "b \<in> set (fn_blocks fn)" and u: "uses_ok fn b"
  shows "uses_ok (merged R r fn) (merged_block R r b)"
  unfolding uses_ok_def
proof (intro conjI allI impI ballI)
  fix v assume "v \<in> set (terminator_uses (blk_terminator (merged_block R r b)))"
  then obtain w where "w \<in> set (terminator_uses (blk_terminator b))" "v = r w" by (auto simp: term_remap_values_facts)
  then show "use_ok (merged R r fn) v (blk_id (merged_block R r b)) None"
    using u use_ok_merged [OF ids ok b, of None None w] by (simp add: uses_ok_def)
next
  fix k assume "k < length (blk_instructions (merged_block R r b))"
  then obtain i where i: "i < length (blk_instructions b)" "keeps R (blk_instructions b ! i)"
    "kept_index (keeps R) (blk_instructions b) i = k" using kept_index_ex [of k "keeps R" "blk_instructions b"] by auto
  let ?i = "blk_instructions b ! i"
  have at: "blk_instructions (merged_block R r b) ! k = remap_values r ?i"
    using kept_index_nth [of i _ "keeps R", OF i(1,2)] i(3) by simp
  have wf: "instruction_wf fn b i ?i" using u i(1) by (simp add: uses_ok_def)
  show "instruction_wf (merged R r fn) (merged_block R r b) k (blk_instructions (merged_block R r b) ! k)"
  proof (cases "is_phi ?i")
    case True
    then obtain d ss where phi: "?i = Phi d ss" by (cases ?i) simp_all
    then have "remap_values r ?i = Phi (r d) (map (\<lambda>s. s\<lparr>phi_value := r (phi_value s)\<rparr>) ss)" by (simp add: remap_values_def)
    then show ?thesis using phi_ok_merged [OF ids ok] wf unfolding at by (simp add: phi instruction_wf_def)
  next
    case False
    then have "\<not> forwards_with_args ?i \<and> (\<forall>v\<in>set (uses ?i). use_ok fn v (blk_id b) (Some i))"
      using wf by (cases ?i) (simp_all add: instruction_wf_def)
    then have "\<not> forwards_with_args (remap_values r ?i) \<and>
        (\<forall>v\<in>set (uses (remap_values r ?i)). use_ok (merged R r fn) v (blk_id b) (Some k))"
      using use_ok_merged [OF ids ok b, of "Some k" "Some i"] i by (auto simp: remap_values_kind uses_remap_values)
    moreover have "\<not> is_phi (remap_values r ?i)" using False by (simp add: remap_values_kind)
    ultimately show ?thesis unfolding at by (cases "remap_values r ?i") (simp_all add: instruction_wf_def)
  qed
qed

lemma dests_merged:
  assumes "\<forall>v. v \<notin> R \<longrightarrow> r v = v"
  shows "List.map_filter dest (map (remap_values r) (filter (keeps R) is)) = filter (\<lambda>v. v \<notin> R) (List.map_filter dest is)"
  using assms by (induction "is") (auto simp: keeps_def dest_remap_values split: option.split)

lemma wf_merged:
  assumes wf: "wf_function m fn" and ok: "merge_ok R r fn"
  shows "wf_function m (merged R r fn)"
proof -
  note w = wf [unfolded wf_function_def]
  have ids: "\<forall>k < length (fn_blocks fn). block_wf m fn k (fn_blocks fn ! k)" using w by blast
  have "fn_dests (merged R r fn) = filter (\<lambda>v. v \<notin> R) (fn_dests fn)"
  proof -
    have "List.map_filter dest (concat (map blk_instructions (map (merged_block R r) bs))) =
        filter (\<lambda>v. v \<notin> R) (List.map_filter dest (concat (map blk_instructions bs)))" for bs
      using ok by (induction bs) (simp_all add: dests_merged merge_ok_def)
    then show ?thesis by (simp add: fn_dests_def)
  qed
  then have "distinct (fn_dests (merged R r fn))" using w by simp
  moreover have "\<forall>b\<in>set (fn_blocks (merged R r fn)). uses_ok (merged R r fn) b"
    using w uses_ok_merged [OF ids ok] by auto
  moreover have "\<forall>k < length (fn_blocks (merged R r fn)). block_wf m (merged R r fn) k (fn_blocks (merged R r fn) ! k)"
    using ids block_wf_merged by simp
  ultimately show ?thesis using w by (simp add: wf_function_def)
qed

section \<open>The loop over a block\<close>

definition subst :: "(ValueId \<rightharpoonup> ValueId) \<Rightarrow> ValueId \<Rightarrow> ValueId" where
  "subst A v = (case A v of None \<Rightarrow> v | Some e \<Rightarrow> e)"

definition flat :: "(ValueId \<rightharpoonup> ValueId) \<Rightarrow> bool" where
  "flat A \<longleftrightarrow> ran A \<inter> dom A = {}"

lemma resolve_flat:
  assumes "flat (map_of A)"
  shows "resolve_alias A v = subst (map_of A) v"
proof (cases "map_of A v")
  case None
  then show ?thesis by (simp add: resolve_alias_def resolve_from.simps subst_def)
next
  case (Some e)
  then have "e \<in> ran (map_of A)" by (rule ranI)
  then have "map_of A e = None" using assms by (auto simp: flat_def dom_def)
  moreover then have "e \<noteq> v" using Some by auto
  ultimately show ?thesis using Some by (simp add: resolve_alias_def resolve_from.simps [of A] subst_def)
qed

lemma remap_flat:
  assumes "flat (map_of A)"
  shows "dest (remap_instruction A i) = dest i" "keeps (dom (map_of A)) i \<Longrightarrow> remap_instruction A i = remap_values (subst (map_of A)) i"
proof -
  show "dest (remap_instruction A i) = dest i" by (cases "dest i") (simp_all add: remap_instruction_def dest_remap_values)
  assume "keeps (dom (map_of A)) i"
  then have "(\<lambda>v. if dest i = Some v then v else resolve_alias A v) = subst (map_of A)"
    by (intro ext) (auto simp: keeps_def subst_def resolve_flat [OF assms] dom_def split: option.splits)
  then show "remap_instruction A i = remap_values (subst (map_of A)) i" by (simp add: remap_instruction_def)
qed

definition known :: "gvn_state \<Rightarrow> ValueId set" where
  "known st = ran (gvn_consts st) \<union> ran (gvn_slots st) \<union> ran (gvn_shapes st) \<union> ran (gvn_kinds st) \<union> ran (gvn_tags st)"

lemma ran_upd: "ran (m(k \<mapsto> v)) \<subseteq> insert v (ran m)" "ran (m(k := None)) \<subseteq> ran m"
  by (auto simp: ran_def)

lemma gvn_visit_cases:
  "(\<exists>d e. dest i = Some d \<and> e \<in> known st \<and> gvn_visit i st = alias_to d e st) \<or>
   gvn_kept (gvn_visit i st) = gvn_kept st @ [i] \<and> gvn_aliases (gvn_visit i st) = gvn_aliases st \<and>
     known (gvn_visit i st) \<subseteq> known st \<union> set_option (dest i)"
proof (cases i)
  case (Const d c)
  then show ?thesis using ran_upd(1) [of "gvn_consts st" "cid c" d]
    by (cases "gvn_consts st (cid c)") (auto simp: gvn_visit_def dest_def keep_def known_def intro: ranI)
next
  case (LoadSlot d obj index)
  then show ?thesis using ran_upd(1) [of "gvn_slots st" "(obj, index)" d]
    by (cases "gvn_slots st (obj, index)") (auto simp: gvn_visit_def dest_def keep_def known_def intro: ranI)
next
  case (GuardShape d obj shape)
  then show ?thesis using ran_upd(1) [of "gvn_shapes st" "(obj, shape)" d]
    by (cases "gvn_shapes st (obj, shape)") (auto simp: gvn_visit_def dest_def keep_def known_def intro: ranI)
next
  case (GuardElementsKind d array kind t)
  then show ?thesis using ran_upd(1) [of "gvn_kinds st" "(array, kind)" d]
    by (cases t; cases "gvn_kinds st (array, kind)") (auto simp: gvn_visit_def dest_def keep_def known_def intro: ranI)
next
  case (GuardTag d v tag)
  then show ?thesis using ran_upd(1) [of "gvn_tags st" "(v, tag)" d]
    by (cases "gvn_tags st (v, tag)") (auto simp: gvn_visit_def dest_def keep_def known_def intro: ranI)
next
  case (StoreSlot d obj index v t)
  then show ?thesis using ran_upd(2) [of "gvn_slots st" "(obj, index)"]
    by (auto simp: gvn_visit_def dest_def keep_def known_def)
qed (simp_all add: gvn_visit_def keep_def known_def)

definition dests_to :: "Instruction list \<Rightarrow> nat \<Rightarrow> ValueId set" where
  "dests_to is n = {v. \<exists>j < n. dest (is ! j) = Some v}"

definition gvn_inv :: "Instruction list \<Rightarrow> nat \<Rightarrow> gvn_state \<Rightarrow> bool" where
  \<comment> \<open>the first \<open>n\<close> instructions have been visited\<close>
  "gvn_inv is n st \<longleftrightarrow>
     dom (map_of (gvn_aliases st)) \<subseteq> dests_to is n \<and> ran (map_of (gvn_aliases st)) \<union> known st \<subseteq> dests_to is n - dom (map_of (gvn_aliases st)) \<and>
     (\<forall>d e. map_of (gvn_aliases st) d = Some e \<longrightarrow> (\<exists>i < n. \<exists>j < i. dest (is ! i) = Some d \<and> dest (is ! j) = Some e)) \<and>
     map dest (gvn_kept st) = map dest (filter (keeps (dom (map_of (gvn_aliases st)))) (take n is)) \<and>
     map (remap_values (subst (map_of (gvn_aliases st)))) (gvn_kept st) =
       map (remap_values (subst (map_of (gvn_aliases st)))) (filter (keeps (dom (map_of (gvn_aliases st)))) (take n is))"

lemma gvn_inv_flat: "gvn_inv is n st \<Longrightarrow> flat (map_of (gvn_aliases st))"
  by (auto simp: gvn_inv_def flat_def)

lemma subst_extend:
  assumes "flat A" "d \<notin> dom A" "d \<notin> ran A" "e \<noteq> d" "e \<notin> dom A"
  shows "subst (A(d \<mapsto> e)) \<circ> subst A = subst (A(d \<mapsto> e))"
proof
  fix v
  have "A x = None" if "A v = Some x" for x using ranI [where m = A, OF that] assms(1) by (auto simp: flat_def)
  moreover have "x \<noteq> d" if "A v = Some x" for x using ranI [where m = A, OF that] assms(3) by blast
  ultimately show "(subst (A(d \<mapsto> e)) \<circ> subst A) v = subst (A(d \<mapsto> e)) v"
    using assms(2,4,5) by (cases "A v") (auto simp: subst_def dom_def)
qed

lemma subst_idem:
  assumes "flat A"
  shows "subst A \<circ> subst A = subst A"
proof
  fix v
  have "A x = None" if "A v = Some x" for x using ranI [where m = A, OF that] assms by (auto simp: flat_def)
  then show "(subst A \<circ> subst A) v = subst A v" by (cases "A v") (simp_all add: subst_def)
qed

lemma gvn_inv_step:
  assumes inv: "gvn_inv is n st" and n: "n < length is"
    and new: "\<forall>j < n. dest (is ! n) \<noteq> None \<longrightarrow> dest (is ! j) \<noteq> dest (is ! n)"
  shows "gvn_inv is (Suc n) (gvn_instruction (is ! n) st)"
proof -
  let ?i = "is ! n" and ?A = "map_of (gvn_aliases st)" and ?st' = "gvn_instruction (is ! n) st"
  have flat: "flat ?A" by (rule gvn_inv_flat [OF inv])
  have Suc: "dests_to is (Suc n) = dests_to is n \<union> set_option (dest ?i)" by (auto simp: dests_to_def less_Suc_eq)
  have fresh: "v \<notin> dests_to is n" if "dest ?i = Some v" for v using new that by (auto simp: dests_to_def)
  have k: "keeps (dom ?A) ?i"
    using inv fresh by (cases "dest ?i") (auto simp: keeps_def gvn_inv_def)
  have take: "take (Suc n) is = take n is @ [?i]" by (rule take_Suc_conv_app_nth [OF n])
  note I = inv [unfolded gvn_inv_def]
  note remap = remap_flat [OF flat, of ?i]
  have same: "dest (remap_values (subst ?A) ?i) = dest ?i" using remap(1) unfolding remap(2) [OF k] .
  consider (drop) d e where "dest ?i = Some d" "e \<in> known st" "?st' = alias_to d e st"
    | (kept) "gvn_kept ?st' = gvn_kept st @ [remap_values (subst ?A) ?i]" "gvn_aliases ?st' = gvn_aliases st" "known ?st' \<subseteq> known st \<union> set_option (dest ?i)"
    using gvn_visit_cases [of "remap_values (subst ?A) ?i" st] unfolding same gvn_instruction_def remap(2) [OF k] by blast
  then show ?thesis
  proof cases
    case drop
    have d: "d \<notin> dests_to is n" by (rule fresh [OF drop(1)])
    have e: "e \<in> dests_to is n" "e \<notin> dom ?A" "e \<noteq> d" and dA: "d \<notin> dom ?A" "d \<notin> ran ?A" using I drop(2) d by blast+
    obtain j where j: "j < n" "dest (is ! j) = Some e" using e(1) by (auto simp: dests_to_def)
    note comp = subst_extend [OF flat dA e(3,2)]
    have "gvn_kept ?st' = gvn_kept st" "known ?st' = known st" "map_of (gvn_aliases ?st') = ?A(d \<mapsto> e)"
      by (simp_all add: drop(3) alias_to_def known_def update_conv')
    moreover have "filter (keeps (dom (?A(d \<mapsto> e)))) (take (Suc n) is) = filter (keeps (dom ?A)) (take n is)"
    proof -
      have "keeps (insert d (dom ?A)) x = keeps (dom ?A) x" if x: "x \<in> set (take n is)" for x
      proof -
        obtain m where "m < n" "x = is ! m" using x n by (auto simp: in_set_conv_nth)
        then have "dest x \<noteq> Some d" using d by (auto simp: dests_to_def)
        then show ?thesis by (cases "dest x") (simp_all add: keeps_def)
      qed
      then have "filter (keeps (insert d (dom ?A))) (take n is) = filter (keeps (dom ?A)) (take n is)" by (rule filter_cong [OF refl])
      then show ?thesis using drop(1) unfolding take by (simp add: keeps_def)
    qed
    moreover have "map (remap_values (subst (?A(d \<mapsto> e)))) (gvn_kept st) =
        map (remap_values (subst (?A(d \<mapsto> e)))) (filter (keeps (dom ?A)) (take n is))"
      using arg_cong [where f = "map (remap_values (subst (?A(d \<mapsto> e))))", OF I [THEN conjunct2, THEN conjunct2, THEN conjunct2, THEN conjunct2]]
      unfolding map_map comp_def [of "remap_values _"] remap_values_comp comp .
    moreover have "dom (?A(d \<mapsto> e)) \<subseteq> dests_to is (Suc n)" using I drop(1) by (auto simp: Suc)
    moreover have "ran (?A(d \<mapsto> e)) \<union> known st \<subseteq> dests_to is (Suc n) - dom (?A(d \<mapsto> e))"
    proof -
      have "insert e (ran ?A) \<union> known st \<subseteq> dests_to is (Suc n) - insert d (dom ?A)" using I d e dA Suc by blast
      then show ?thesis using ran_upd(1) [of ?A d e] by auto
    qed
    moreover have "\<forall>d' e'. (?A(d \<mapsto> e)) d' = Some e' \<longrightarrow> (\<exists>i < Suc n. \<exists>j < i. dest (is ! i) = Some d' \<and> dest (is ! j) = Some e')"
    proof (intro allI impI)
      fix d' e' assume a: "(?A(d \<mapsto> e)) d' = Some e'"
      show "\<exists>i < Suc n. \<exists>j < i. dest (is ! i) = Some d' \<and> dest (is ! j) = Some e'"
      proof (cases "d' = d")
        case True
        then have "dest (is ! n) = Some d'" "dest (is ! j) = Some e'" using a drop(1) j(2) by simp_all
        then show ?thesis using j(1) lessI by blast
      next
        case False
        then have "\<exists>i < n. \<exists>j < i. dest (is ! i) = Some d' \<and> dest (is ! j) = Some e'" using a I by simp
        then show ?thesis using less_SucI by blast
      qed
    qed
    moreover have "map dest (gvn_kept st) = map dest (filter (keeps (dom ?A)) (take n is))" using I by blast
    ultimately show ?thesis unfolding gvn_inv_def by simp
  next
    case kept
    have "map (remap_values (subst ?A)) (gvn_kept ?st') =
        map (remap_values (subst ?A)) (filter (keeps (dom ?A)) (take (Suc n) is))"
      using I k subst_idem [OF flat] unfolding take kept(1) by (simp add: remap_values_comp)
    moreover have "ran ?A \<union> known ?st' \<subseteq> dests_to is (Suc n) - dom ?A" using I kept(3) fresh unfolding Suc by fastforce
    moreover have "\<forall>d e. ?A d = Some e \<longrightarrow> (\<exists>i < Suc n. \<exists>j < i. dest (is ! i) = Some d \<and> dest (is ! j) = Some e)"
      using I less_SucI by blast
    moreover have "map dest (gvn_kept ?st') = map dest (filter (keeps (dom ?A)) (take (Suc n) is))"
      using I k unfolding take kept(1) by (simp add: same)
    ultimately show ?thesis using I unfolding gvn_inv_def kept(2) Suc by blast
  qed
qed

lemma gvn_inv_fold:
  assumes "distinct (List.map_filter dest is)"
  shows "n \<le> length is \<Longrightarrow> gvn_inv is n (fold gvn_instruction (take n is) gvn_start)"
proof (induction n)
  case 0
  then show ?case by (simp add: gvn_inv_def gvn_start_def known_def)
next
  case (Suc n)
  have "dest (is ! j) \<noteq> dest (is ! n)" if j: "j < n" and some: "dest (is ! n) \<noteq> None" for j
  proof
    assume same: "dest (is ! j) = dest (is ! n)"
    obtain d where d: "dest (is ! n) = Some d" using some by blast
    have "is = take n is @ is ! n # drop (Suc n) is" using Suc.prems by (simp add: id_take_nth_drop)
    then have "distinct (List.map_filter dest (take n is) @ d # List.map_filter dest (drop (Suc n) is))"
      using assms d by (metis append_Cons append_Nil map_filter_simps(2,3) option.case(2))
    moreover have "is ! j \<in> set (take n is)" using j Suc.prems by (auto simp: in_set_conv_nth)
    then have "d \<in> set (List.map_filter dest (take n is))" using same d by (auto simp: map_filter_iff)
    ultimately show False by auto
  qed
  then show ?case
    using gvn_inv_step [of "is" n "fold gvn_instruction (take n is) gvn_start"] Suc
    by (simp add: take_Suc_conv_app_nth)
qed

section \<open>The function after a block\<close>

definition renamed :: "alias_map \<Rightarrow> BasicBlock \<Rightarrow> BasicBlock" where
  "renamed A b = b\<lparr>blk_instructions := map (remap_instruction A) (blk_instructions b),
     blk_terminator := term_remap_values (resolve_alias A) (blk_terminator b)\<rparr>"

lemma renamed_flat:
  fixes A
  defines "M \<equiv> map_of A"
  assumes "flat M" and "\<forall>i\<in>set (blk_instructions b). keeps (dom M) i"
  shows "renamed A b = b\<lparr>blk_instructions := map (remap_values (subst M)) (blk_instructions b),
      blk_terminator := term_remap_values (subst M) (blk_terminator b)\<rparr>"
    "renamed A b = merged_block (dom M) (subst M) b"
proof -
  have "map (remap_instruction A) (blk_instructions b) = map (remap_values (subst M)) (blk_instructions b)"
    using assms remap_flat(2) by (intro map_cong) auto
  moreover have "resolve_alias A = subst M" using resolve_flat assms(2) unfolding M_def by (intro ext) blast
  ultimately show "renamed A b = b\<lparr>blk_instructions := map (remap_values (subst M)) (blk_instructions b),
      blk_terminator := term_remap_values (subst M) (blk_terminator b)\<rparr>" by (simp add: renamed_def)
  moreover have "filter (keeps (dom M)) (blk_instructions b) = blk_instructions b" using assms(3) by simp
  ultimately show "renamed A b = merged_block (dom M) (subst M) b" by (simp add: merged_block_def)
qed

lemma resolve_alias_empty: "resolve_alias [] = (\<lambda>v. v)" "remap_instruction [] i = i"
proof -
  show r: "resolve_alias [] = (\<lambda>v. v)" by (simp add: resolve_alias_def resolve_from.simps fun_eq_iff)
  have "remap_instruction [] i = remap_values (\<lambda>v. v) i" unfolding remap_instruction_def r by (simp cong: if_cong)
  then show "remap_instruction [] i = i" by (simp only: remap_values_id)
qed

lemma distinct_concat_map:
  "distinct (List.map_filter f (concat xss)) \<Longrightarrow> xs \<in> set xss \<Longrightarrow> distinct (List.map_filter f xs)"
  by (induction xss) auto

lemma gvn_block_merged:
  assumes wf: "wf_function m fn" and k: "k < length (fn_blocks fn)"
  shows "\<exists>R r. gvn_block k fn = merged R r fn \<and> merge_ok R r fn"
proof -
  let ?b = "fn_blocks fn ! k"
  let ?is = "blk_instructions ?b"
  let ?st = "fold gvn_instruction ?is gvn_start"
  let ?L = "gvn_aliases ?st" and ?A = "map_of (gvn_aliases ?st)" and ?blocks = "(fn_blocks fn)[k := ?b\<lparr>blk_instructions := gvn_kept ?st\<rparr>]"
  have d: "distinct (fn_dests fn)" using wf by (simp add: wf_function_def)
  have "distinct (List.map_filter dest ?is)" using distinct_concat_map [of dest "map blk_instructions (fn_blocks fn)" ?is] d k by (simp add: fn_dests_def)
  from gvn_inv_fold [OF this order_refl] have inv: "gvn_inv ?is (length ?is) ?st" by simp
  note I = inv [unfolded gvn_inv_def]
  have flat: "flat ?A" by (rule gvn_inv_flat [OF inv])
  have R: "\<exists>i. i < length ?is \<and> (\<exists>j < i. dest (?is ! i) = Some v \<and> dest (?is ! j) = Some (subst ?A v))" if "v \<in> dom ?A" for v
    using that I by (auto simp: subst_def)
  have id: "blk_id ?b = blk_id (fn_blocks fn ! bix (blk_id ?b))" "bix (blk_id ?b) = k"
    using block_of_id [OF wf_blocks(4) [OF wf] nth_mem [OF k]] wf_blocks(4) [OF wf] k by (simp_all add: block_wf_def)
  have def_here: "defined_at fn v (blk_id ?b) i" if "i < length ?is" "dest (?is ! i) = Some v" for i v
    unfolding defined_at_def using that k by (intro bexI [of _ ?b]) simp_all
  have ok: "merge_ok (dom ?A) (subst ?A) fn"
    unfolding merge_ok_def
  proof (intro conjI allI impI ballI)
    show "subst ?A v = v" if "v \<notin> dom ?A" for v using that by (simp add: subst_def dom_def)
    show "subst ?A v \<notin> dom ?A" if v: "v \<in> dom ?A" for v
    proof -
      obtain e where "?A v = Some e" using v by blast
      then show ?thesis using I ranI [where m = ?A and a = v and b = e] by (auto simp: subst_def)
    qed
    show "\<exists>j < i. defined_at fn (subst ?A v) D j" if v: "v \<in> dom ?A" and D: "defined_at fn v D i" for v D i
    proof -
      obtain i' j where i': "i' < length ?is" "j < i'" "dest (?is ! i') = Some v" "dest (?is ! j) = Some (subst ?A v)"
        using R [OF v] by blast
      have "D = blk_id ?b \<and> i = i'" by (rule definition_unique [OF wf D def_here [OF i'(1,3)]])
      moreover have "defined_at fn (subst ?A v) (blk_id ?b) j" by (rule def_here) (use i' in simp_all)
      ultimately show ?thesis using i'(2) by blast
    qed
  qed
  have other: "renamed ?L (fn_blocks fn ! n) = merged_block (dom ?A) (subst ?A) (fn_blocks fn ! n)"
    if n: "n < length (fn_blocks fn)" "n \<noteq> k" for n
  proof (rule renamed_flat(2) [OF flat], rule ballI)
    fix i assume "i \<in> set (blk_instructions (fn_blocks fn ! n))"
    then obtain j where j: "j < length (blk_instructions (fn_blocks fn ! n))" "i = blk_instructions (fn_blocks fn ! n) ! j"
      by (auto simp: in_set_conv_nth)
    have "v \<notin> dom ?A" if v: "dest i = Some v" for v
    proof
      assume "v \<in> dom ?A"
      then obtain i' where i': "i' < length ?is" "dest (?is ! i') = Some v" using R by blast
      have "defined_at fn v (blk_id (fn_blocks fn ! n)) j"
        unfolding defined_at_def using n(1) j v by (intro bexI [of _ "fn_blocks fn ! n"]) simp_all
      then have "blk_id (fn_blocks fn ! n) = blk_id ?b" using definition_unique [OF wf _ def_here [OF i']] by blast
      moreover have "bix (blk_id (fn_blocks fn ! n)) = n" using wf_blocks(4) [OF wf] n(1) by (simp add: block_wf_def)
      ultimately show False using id(2) n(2) by simp
    qed
    then show "keeps (dom ?A) i" by (simp add: keeps_def split: option.split)
  qed
  have dest_kept: "map dest (gvn_kept ?st) = map dest (filter (keeps (dom ?A)) ?is)"
    and code_kept: "map (remap_values (subst ?A)) (gvn_kept ?st) = map (remap_values (subst ?A)) (filter (keeps (dom ?A)) ?is)"
    using I by simp_all
  have "keeps (dom ?A) i" if i: "i \<in> set (gvn_kept ?st)" for i
  proof -
    have "dest i \<in> set (map dest (gvn_kept ?st))" using i by simp
    then obtain i0 where "keeps (dom ?A) i0" "dest i = dest i0" unfolding dest_kept by auto
    then show ?thesis by (simp add: keeps_def)
  qed
  then have here: "renamed ?L (?b\<lparr>blk_instructions := gvn_kept ?st\<rparr>) = merged_block (dom ?A) (subst ?A) ?b"
    using renamed_flat(1) [OF flat, of "?b\<lparr>blk_instructions := gvn_kept ?st\<rparr>"] code_kept by (simp add: merged_block_def)
  have all: "map (renamed ?L) ?blocks = map (merged_block (dom ?A) (subst ?A)) (fn_blocks fn)"
  proof (rule nth_equalityI)
    fix n assume "n < length (map (renamed ?L) ?blocks)"
    then have n: "n < length (fn_blocks fn)" by simp
    then have "renamed ?L (?blocks ! n) = merged_block (dom ?A) (subst ?A) (fn_blocks fn ! n)"
      by (cases "n = k") (simp_all only: nth_list_update_eq nth_list_update_neq not_False_eq_True here other)
    then show "map (renamed ?L) ?blocks ! n = map (merged_block (dom ?A) (subst ?A)) (fn_blocks fn) ! n"
      using n by (simp only: nth_map length_list_update)
  qed (simp only: length_map length_list_update)
  have "gvn_block k fn = merged (dom ?A) (subst ?A) fn"
  proof (cases "?L = []")
    case True
    have "map (remap_instruction []) is = is" for "is" by (rule map_idI) (rule resolve_alias_empty(2))
    then have "map (renamed ?L) xs = xs" for xs
      by (intro map_idI) (simp add: renamed_def True resolve_alias_empty(1) term_remap_values_facts)
    then show ?thesis using all True by (simp add: gvn_block_def Let_def apply_aliases_def merged_def)
  next
    case False
    then show ?thesis
      using all unfolding gvn_block_def Let_def apply_aliases_def renamed_def merged_def by simp
  qed
  then show ?thesis using ok by blast
qed

lemma wf_gvn:
  assumes "wf_function m fn"
  shows "wf_function m (gvn_function fn)"
proof -
  have "wf_function m (fold gvn_block ks fn) \<and> length (fn_blocks (fold gvn_block ks fn)) = length (fn_blocks fn)"
    if "wf_function m fn" "\<forall>k\<in>set ks. k < length (fn_blocks fn)" for ks fn
    using that
  proof (induction ks arbitrary: fn)
    case (Cons k ks)
    obtain R r where "gvn_block k fn = merged R r fn" "merge_ok R r fn"
      using gvn_block_merged [OF Cons.prems(1), of k] Cons.prems(2) by auto
    then have "wf_function m (gvn_block k fn)" "length (fn_blocks (gvn_block k fn)) = length (fn_blocks fn)"
      using wf_merged [OF Cons.prems(1)] by simp_all
    then show ?case using Cons.IH [of "gvn_block k fn"] Cons.prems(2) by simp
  qed simp
  then show ?thesis using assms by (simp add: gvn_function_def)
qed

section \<open>Properties\<close>

text \<open>
  C31: Reusing equal constants, loads and guards inside blocks, and replacing the deleted values in
  the whole function, turns a verified function into a verified function: a deleted value is always
  replaced by one defined before it in its block.
\<close>

theorem gvn_keeps_verified:
  assumes "verify_function m fn = Some (Inr ())"
  shows "verify_function m (gvn_function fn) = Some (Inr ())"
  using wf_gvn assms verify_function_result(2) by blast

definition two_constants :: Function where
  \<comment> \<open>the second constant is deleted, and used in the other block\<close>
  "two_constants = (function_new [] (BasicBlockId 0))\<lparr>fn_blocks :=
     [\<lparr>blk_id = BasicBlockId 0, blk_instructions = [Const (ValueId 0) (ConstantId 0), Const (ValueId 1) (ConstantId 0)],
       blk_terminator = Jump (BasicBlockId 1)\<rparr>,
      \<lparr>blk_id = BasicBlockId 1, blk_instructions = [], blk_terminator = Return (Some (ValueId 1))\<rparr>]\<rparr>"

theorem gvn_keeps_verified_witness:
  "verify_function one_constant (gvn_function two_constants) = Some (Inr ()) \<and>
   map blk_instructions (fn_blocks (gvn_function two_constants)) = [[Const (ValueId 0) (ConstantId 0)], []]"
proof
  have "verify_function one_constant two_constants = Some (Inr ())" by code_simp
  then show "verify_function one_constant (gvn_function two_constants) = Some (Inr ())" by (rule gvn_keeps_verified)
  show "map blk_instructions (fn_blocks (gvn_function two_constants)) = [[Const (ValueId 0) (ConstantId 0)], []]" by code_simp
qed

definition load_call_load :: Function where
  \<comment> \<open>a slot of an object, a call the object is passed to, and the slot again\<close>
  "load_call_load = (function_new [] (BasicBlockId 0))\<lparr>fn_blocks :=
     [\<lparr>blk_id = BasicBlockId 0,
       blk_instructions =
         [NewObject (ValueId 0) 4, Const (ValueId 1) (ConstantId 0), LoadSlot (ValueId 2) (ValueId 0) 0,
          Call (Some (ValueId 3)) (ValueId 1) (ValueId 1) [ValueId 0] None, LoadSlot (ValueId 4) (ValueId 0) 0],
       blk_terminator = Return (Some (ValueId 4))\<rparr>]\<rparr>"

text \<open>
  The table of loaded slots is forgotten only for a store to the same value and index, not for a
  call: a slot loaded again after a call that was given the object is not read again, the function
  returns what the slot contained before the call.
\<close>

theorem gvn_reuses_load_across_call:
  "verify_function one_constant load_call_load = Some (Inr ()) \<and>
   map (\<lambda>b. (blk_instructions b, blk_terminator b)) (fn_blocks (gvn_function load_call_load)) =
     [([NewObject (ValueId 0) 4, Const (ValueId 1) (ConstantId 0), LoadSlot (ValueId 2) (ValueId 0) 0,
        Call (Some (ValueId 3)) (ValueId 1) (ValueId 1) [ValueId 0] None],
       Return (Some (ValueId 2)))]"
proof
  show "verify_function one_constant load_call_load = Some (Inr ())" by code_simp
  show "map (\<lambda>b. (blk_instructions b, blk_terminator b)) (fn_blocks (gvn_function load_call_load)) =
     [([NewObject (ValueId 0) 4, Const (ValueId 1) (ConstantId 0), LoadSlot (ValueId 2) (ValueId 0) 0,
        Call (Some (ValueId 3)) (ValueId 1) (ValueId 1) [ValueId 0] None],
       Return (Some (ValueId 2)))]" by code_simp
qed

end
