(* ===== verification/Byte_Reader.thy ===== *)
theory Byte_Reader
  imports Rust_Str
begin

text \<open>
  The cursor over a byte slice that the executable and the snapshot format each define
  (\<open>Decoder\<close> in \<open>wjsm-exec-format\<close>, \<open>Reader\<close> in \<open>wjsm-snapshot-format\<close>). Both advance by
  \<open>take\<close>, which fails with one error when the end overflows and another when the slice is too
  short; the two errors are arguments here.
\<close>

record reader =
  rd_bytes :: "u8 list"
  rd_offset :: nat

type_synonym ('e, 'a) rd = "reader \<Rightarrow> 'e + 'a \<times> reader"

definition reader_new :: "u8 list \<Rightarrow> reader" where
  "reader_new bs = \<lparr>rd_bytes = bs, rd_offset = 0\<rparr>"

definition rd_ret :: "'a \<Rightarrow> ('e, 'a) rd" where
  "rd_ret x r = Inr (x, r)"

definition rd_fail :: "'e \<Rightarrow> ('e, 'a) rd" where
  "rd_fail e r = Inl e"

definition rd_then :: "('e, 'a) rd \<Rightarrow> ('a \<Rightarrow> ('e, 'b) rd) \<Rightarrow> ('e, 'b) rd" where
  "rd_then m f r = (case m r of Inl e \<Rightarrow> Inl e | Inr (x, r') \<Rightarrow> f x r')"

definition rd_take :: "'e \<times> 'e \<Rightarrow> nat \<Rightarrow> ('e, u8 list) rd" where
  "rd_take errs len r =
     (case usize_checked_add (rd_offset r) len of
        None \<Rightarrow> Inl (fst errs)
      | Some e \<Rightarrow>
          (case get_range (rd_bytes r) (rd_offset r) e of
             None \<Rightarrow> Inl (snd errs)
           | Some chunk \<Rightarrow> Inr (chunk, r\<lparr>rd_offset := e\<rparr>)))"

definition rd_u8 :: "'e \<times> 'e \<Rightarrow> ('e, u8) rd" where
  "rd_u8 errs = rd_then (rd_take errs 1) (\<lambda>bs. rd_ret (hd bs))"

definition rd_u16 :: "'e \<times> 'e \<Rightarrow> ('e, u16) rd" where
  "rd_u16 errs = rd_then (rd_take errs 2) (\<lambda>bs. rd_ret (u16_of_le bs))"

definition rd_u32 :: "'e \<times> 'e \<Rightarrow> ('e, u32) rd" where
  "rd_u32 errs = rd_then (rd_take errs 4) (\<lambda>bs. rd_ret (u32_of_le bs))"

definition rd_u64 :: "'e \<times> 'e \<Rightarrow> ('e, u64) rd" where
  "rd_u64 errs = rd_then (rd_take errs 8) (\<lambda>bs. rd_ret (u64_of_le bs))"

fun rd_times :: "nat \<Rightarrow> ('s \<Rightarrow> ('e, 's) rd) \<Rightarrow> 's \<Rightarrow> ('e, 's) rd" where
  \<comment> \<open>\<open>for _ in 0..count\<close> with a loop-carried state\<close>
  "rd_times 0 f s = rd_ret s"
| "rd_times (Suc n) f s = rd_then (f s) (rd_times n f)"

definition rd_finish :: "'e \<Rightarrow> ('e, unit) rd" where
  "rd_finish e r = (if rd_offset r = length (rd_bytes r) then Inr ((), r) else Inl e)"

definition rd_remaining :: "reader \<Rightarrow> u8 list" where
  "rd_remaining r = drop (rd_offset r) (rd_bytes r)"

section \<open>What a reader consumes\<close>

definition eats :: "('e, 'a) rd \<Rightarrow> u8 list \<Rightarrow> 'a \<Rightarrow> bool" where
  \<comment> \<open>at the bytes \<open>bs\<close>, whatever follows, \<open>m\<close> returns \<open>x\<close> and stands behind them\<close>
  "eats m bs x \<longleftrightarrow>
     (\<forall>r post. rd_offset r \<le> length (rd_bytes r) \<longrightarrow> length (rd_bytes r) < 2 ^ 64 \<longrightarrow>
        drop (rd_offset r) (rd_bytes r) = bs @ post \<longrightarrow> m r = Inr (x, r\<lparr>rd_offset := rd_offset r + length bs\<rparr>))"

named_theorems eats_intros \<open>what the readers consume, statement by statement\<close>

lemma eats_ret [eats_intros]: "eats (rd_ret x) [] x"
  by (simp add: eats_def rd_ret_def)

lemma eats_then:
  assumes "eats m bs x" and "eats (f x) cs y"
  shows "eats (rd_then m f) (bs @ cs) y"
  unfolding eats_def
proof (intro allI impI)
  fix r :: reader and post
  assume r: "rd_offset r \<le> length (rd_bytes r)" "length (rd_bytes r) < 2 ^ 64"
    and rest: "drop (rd_offset r) (rd_bytes r) = (bs @ cs) @ post"
  let ?r = "r\<lparr>rd_offset := rd_offset r + length bs\<rparr>"
  have rest': "drop (rd_offset r) (rd_bytes r) = bs @ (cs @ post)" using rest by simp
  with assms(1) r have m: "m r = Inr (x, ?r)" unfolding eats_def by blast
  have "drop (rd_offset ?r) (rd_bytes ?r) = cs @ post" using drop_prefix_drop [OF rest'] by simp
  moreover have "rd_offset ?r \<le> length (rd_bytes ?r)" using drop_prefix_length [OF rest' r(1)] by simp
  ultimately have "f x ?r = Inr (y, ?r\<lparr>rd_offset := rd_offset ?r + length cs\<rparr>)"
    using assms(2) [unfolded eats_def, rule_format, of ?r post] r by simp
  then show "rd_then m f r = Inr (y, r\<lparr>rd_offset := rd_offset r + length (bs @ cs)\<rparr>)"
    by (simp add: rd_then_def m add.assoc)
qed

lemma eats_take: "n = length bs \<Longrightarrow> eats (rd_take errs n) bs bs"
  unfolding eats_def
proof (intro allI impI)
  fix r :: reader and post
  assume n: "n = length bs" and r: "rd_offset r \<le> length (rd_bytes r)" "length (rd_bytes r) < 2 ^ 64"
    and rest: "drop (rd_offset r) (rd_bytes r) = bs @ post"
  from drop_prefix_length [OF rest r(1)] have "rd_offset r + length bs \<le> length (rd_bytes r)" .
  then show "rd_take errs n r = Inr (bs, r\<lparr>rd_offset := rd_offset r + length bs\<rparr>)"
    using r(2) rest n by (simp add: rd_take_def get_range_def)
qed

lemma eats_map: "eats m bs x \<Longrightarrow> eats (rd_then m (\<lambda>x. rd_ret (f x))) bs (f x)"
  using eats_then [of m bs x "\<lambda>x. rd_ret (f x)" "[]" "f x"] by (simp add: eats_ret)

lemma eats_cong: "eats m bs x \<Longrightarrow> x = y \<Longrightarrow> eats m bs y"
  by simp

lemma eats_u8 [eats_intros]: "eats (rd_u8 errs) [v] v"
  unfolding rd_u8_def using eats_map [OF eats_take [of 1 "[v]"], of errs hd] by simp

lemma eats_u16 [eats_intros]: "eats (rd_u16 errs) (u16_le v) v"
  unfolding rd_u16_def using eats_map [OF eats_take [of 2 "u16_le v"], of errs u16_of_le] by simp

lemma eats_u32 [eats_intros]: "eats (rd_u32 errs) (u32_le v) v"
  unfolding rd_u32_def using eats_map [OF eats_take [of 4 "u32_le v"], of errs u32_of_le] by simp

lemma eats_u64 [eats_intros]: "eats (rd_u64 errs) (u64_le v) v"
  unfolding rd_u64_def using eats_map [OF eats_take [of 8 "u64_le v"], of errs u64_of_le] by simp

lemma eats_times: "eats (f s) bs t \<Longrightarrow> eats (rd_times n f t) cs u \<Longrightarrow> eats (rd_times (Suc n) f s) (bs @ cs) u"
  by (simp add: eats_then)

lemma eats_all:
  assumes "eats m bs x" and "length bs < 2 ^ 64"
  shows "rd_then m (\<lambda>x. rd_then (rd_finish e) (\<lambda>_. rd_ret (f x))) (reader_new bs) = Inr (f x, \<lparr>rd_bytes = bs, rd_offset = length bs\<rparr>)"
proof -
  have "m (reader_new bs) = Inr (x, \<lparr>rd_bytes = bs, rd_offset = length bs\<rparr>)"
    using assms(1) [unfolded eats_def, rule_format, of "reader_new bs" "[]"] assms(2) by (simp add: reader_new_def)
  then show ?thesis by (simp add: rd_then_def rd_finish_def rd_ret_def)
qed

definition eats_end :: "('e, 'a) rd \<Rightarrow> u8 list \<Rightarrow> 'a \<Rightarrow> bool" where
  \<comment> \<open>the same at the end of the slice\<close>
  "eats_end m bs x \<longleftrightarrow>
     (\<forall>r :: reader. rd_offset r \<le> length (rd_bytes r) \<longrightarrow> length (rd_bytes r) < 2 ^ 64 \<longrightarrow> drop (rd_offset r) (rd_bytes r) = bs \<longrightarrow>
        m r = Inr (x, r\<lparr>rd_offset := length (rd_bytes r)\<rparr>))"

lemma eats_end_then:
  assumes "eats m bs x" and "eats_end (f x) cs y"
  shows "eats_end (rd_then m f) (bs @ cs) y"
  unfolding eats_end_def
proof (intro allI impI)
  fix r :: reader
  assume r: "rd_offset r \<le> length (rd_bytes r)" "length (rd_bytes r) < 2 ^ 64" and rest: "drop (rd_offset r) (rd_bytes r) = bs @ cs"
  let ?r = "r\<lparr>rd_offset := rd_offset r + length bs\<rparr>"
  have m: "m r = Inr (x, ?r)" using assms(1) r rest unfolding eats_def by blast
  have "drop (rd_offset ?r) (rd_bytes ?r) = cs" using drop_prefix_drop [OF rest] by simp
  moreover have "rd_offset ?r \<le> length (rd_bytes ?r)" using drop_prefix_length [OF rest r(1)] by simp
  ultimately have "f x ?r = Inr (y, ?r\<lparr>rd_offset := length (rd_bytes ?r)\<rparr>)"
    using assms(2) [unfolded eats_end_def, rule_format, of ?r] r by simp
  then show "rd_then m f r = Inr (y, r\<lparr>rd_offset := length (rd_bytes r)\<rparr>)" by (simp add: rd_then_def m)
qed

lemma eats_end_finish: "eats_end (rd_then (rd_finish e) (\<lambda>_. rd_ret x)) [] x"
  by (auto simp: eats_end_def rd_then_def rd_finish_def rd_ret_def)

lemma eats_end_new: "eats_end m bs x \<Longrightarrow> length bs < 2 ^ 64 \<Longrightarrow> m (reader_new bs) = Inr (x, \<lparr>rd_bytes = bs, rd_offset = length bs\<rparr>)"
  by (simp add: eats_end_def reader_new_def)

section \<open>What an accepting reader has read\<close>

definition read_from :: "('e, 'a) rd \<Rightarrow> ('a \<Rightarrow> bool) \<Rightarrow> bool" where
  \<comment> \<open>a result satisfies \<open>P\<close>, and the cursor moved forward inside the slice\<close>
  "read_from m P \<longleftrightarrow> (\<forall>r x r'. rd_offset r \<le> length (rd_bytes r) \<longrightarrow> m r = Inr (x, r') \<longrightarrow>
     P x \<and> rd_bytes r' = rd_bytes r \<and> rd_offset r \<le> rd_offset r' \<and> rd_offset r' \<le> length (rd_bytes r))"

named_theorems read_intros \<open>what the readers guarantee, statement by statement\<close>

lemma read_ret [read_intros]: "P x \<Longrightarrow> read_from (rd_ret x) P"
  by (simp add: read_from_def rd_ret_def)

lemma read_fail [read_intros]: "read_from (rd_fail e) P"
  by (simp add: read_from_def rd_fail_def)

lemma read_then:
  assumes "read_from m Q" and "\<And>x. Q x \<Longrightarrow> read_from (f x) P"
  shows "read_from (rd_then m f) P"
  unfolding read_from_def
proof (intro allI impI)
  fix r y r' assume r: "rd_offset r \<le> length (rd_bytes r)" and y: "rd_then m f r = Inr (y, r')"
  obtain x r1 where m: "m r = Inr (x, r1)" "f x r1 = Inr (y, r')"
  proof (cases "m r")
    case (Inl e)
    then show thesis using y by (simp add: rd_then_def)
  next
    case (Inr p)
    then show thesis using y that [of "fst p" "snd p"] by (simp add: rd_then_def case_prod_beta)
  qed
  have 1: "Q x \<and> rd_bytes r1 = rd_bytes r \<and> rd_offset r \<le> rd_offset r1 \<and> rd_offset r1 \<le> length (rd_bytes r)"
    using assms(1) [unfolded read_from_def, rule_format, OF r m(1)] .
  then have le: "rd_offset r1 \<le> length (rd_bytes r1)" by simp
  have "read_from (f x) P" by (rule assms(2)) (use 1 in blast)
  from this [unfolded read_from_def, rule_format, OF le m(2)]
  have "P y \<and> rd_bytes r' = rd_bytes r1 \<and> rd_offset r1 \<le> rd_offset r' \<and> rd_offset r' \<le> length (rd_bytes r1)" .
  then show "P y \<and> rd_bytes r' = rd_bytes r \<and> rd_offset r \<le> rd_offset r' \<and> rd_offset r' \<le> length (rd_bytes r)"
    using 1 by simp
qed

lemma read_take [read_intros]: "read_from (rd_take errs n) (\<lambda>bs. length bs = n)"
  by (auto simp: read_from_def rd_take_def usize_checked_add_def dest: get_range_SomeD split: option.splits if_splits)

lemma read_weaken: "read_from m P \<Longrightarrow> (\<And>x. P x \<Longrightarrow> Q x) \<Longrightarrow> read_from m Q"
  unfolding read_from_def by blast

lemma read_words [read_intros]:
  "read_from (rd_u8 errs) (\<lambda>_. True)" "read_from (rd_u16 errs) (\<lambda>_. True)"
  "read_from (rd_u32 errs) (\<lambda>_. True)" "read_from (rd_u64 errs) (\<lambda>_. True)"
  unfolding rd_u8_def rd_u16_def rd_u32_def rd_u64_def by (rule read_then [OF read_take], rule read_ret, rule TrueI)+

lemma read_finish [read_intros]: "read_from (rd_finish e) (\<lambda>_. True)"
  by (simp add: read_from_def rd_finish_def)

lemma read_times:
  assumes "\<And>k s. k < n \<Longrightarrow> I k s \<Longrightarrow> read_from (f s) (I (Suc k))" and "I 0 s"
  shows "read_from (rd_times n f s) (I n)"
proof -
  have "read_from (rd_times j f s) (I (k + j))" if "I k s" "k + j \<le> n" for j k s
    using that
  proof (induction j arbitrary: k s)
    case 0
    then show ?case by (simp add: read_ret)
  next
    case (Suc j)
    have "read_from (f s) (I (Suc k))" using assms(1) Suc.prems by simp
    then show ?case using Suc.IH [of "Suc k"] Suc.prems(2) by (simp add: read_then)
  qed
  from this [of 0 s n] show ?thesis using assms(2) by simp
qed

end
