(* ===== verification/Exec_Format.thy ===== *)
theory Exec_Format
  imports Byte_Reader
begin

text \<open>
  Native executables (\<open>wjsm-exec-format/src/lib.rs\<close>): a stub, a compressed payload, and a footer of
  64 bytes at the end of the file that says where the payload is. The compressor of the \<open>zstd\<close>
  crate and SHA-256 are parameters (\<open>zc\<close>, \<open>zd\<close>, \<open>sha\<close>); \<open>zd c n\<close> decompresses into at most \<open>n\<close>
  bytes. A byte vector that is written to is the list of the bytes appended.
\<close>

section \<open>Data\<close>

definition FOOTER_LEN :: nat where "FOOTER_LEN = 64"
definition FOOTER_MAGIC :: "u8 list" where "FOOTER_MAGIC = map (\<lambda>c. of_nat (of_char c)) ''WJSMEXEC''"
definition PAYLOAD_SCHEMA :: u32 where "PAYLOAD_SCHEMA = 4"
definition FORMAT_VERSION :: u16 where "FORMAT_VERSION = 1"
definition MAX_PAYLOAD_BYTES :: nat where "MAX_PAYLOAD_BYTES = 512 * 1024 * 1024"
definition MAX_ARTIFACT_BYTES :: nat where "MAX_ARTIFACT_BYTES = 256 * 1024 * 1024"
definition MAX_OBJECT_BYTES :: nat where "MAX_OBJECT_BYTES = 512 * 1024 * 1024"
definition MAX_OBJECTS :: nat where "MAX_OBJECTS = 2"
definition MAX_FUNCTIONS :: nat where "MAX_FUNCTIONS = 4000000"
definition MAX_STRING_BYTES :: nat where "MAX_STRING_BYTES = 4096"
definition MAX_SNAPSHOT_FILES :: nat where "MAX_SNAPSHOT_FILES = 100000"
definition MAX_SNAPSHOT_FILE_BYTES :: nat where "MAX_SNAPSHOT_FILE_BYTES = 16 * 1024 * 1024"

record EncodedNativeObject =
  obj_bytes :: "u8 list"
  obj_frame_bytes :: "u32 list"
  obj_function_count :: u32
  obj_ic_slot_count :: u32
  obj_feedback_slot_count :: u32

record ExecPayload =
  xp_native_abi_hash :: "u8 list"
  xp_codegen_hash :: "u8 list"
  xp_target :: rstr
  xp_cranelift_version :: rstr
  xp_settings :: rstr
  xp_files :: "(rstr \<times> u8 list) list"
  xp_artifact :: "u8 list"
  xp_objects :: "EncodedNativeObject list"

record ExecFooter =
  foot_version :: u16
  foot_offset :: u64
  foot_len :: u64
  foot_digest :: "u8 list"

datatype ExecFormatError =
    MissingFooter
  | ExecInvalidMagic
  | ExecUnsupportedVersion u16
  | DigestMismatch
  | ExecTruncated
  | ExecInvalid string
  | ExecTargetMismatch rstr rstr
  | ExecDuplicateUrl rstr
  | ExecLengthOverflow

section \<open>Ordered maps\<close>

definition str_less :: "rstr \<Rightarrow> rstr \<Rightarrow> bool" where
  \<comment> \<open>\<open>Ord for str\<close>: the bytes in lexicographic order\<close>
  "str_less a b = ord_class.lexordp (as_bytes a) (as_bytes b)"

fun tree_insert :: "rstr \<Rightarrow> 'v \<Rightarrow> (rstr \<times> 'v) list \<Rightarrow> (rstr \<times> 'v) list" where
  \<comment> \<open>\<open>BTreeMap::insert\<close> on the entries in ascending order\<close>
  "tree_insert k v [] = [(k, v)]"
| "tree_insert k v ((k', v') # m) =
     (if k = k' then (k, v) # m
      else if str_less k k' then (k, v) # (k', v') # m
      else (k', v') # tree_insert k v m)"

section \<open>Encoding\<close>

type_synonym encoded = "ExecFormatError + u8 list"

definition encode_string :: "rstr \<Rightarrow> encoded" where
  "encode_string v =
     (let len = length (as_bytes v)
      in if len \<ge> 2 ^ 32 then Inl ExecLengthOverflow
         else if len > MAX_STRING_BYTES then Inl (ExecInvalid ''string exceeds byte limit'')
         else Inr (u32_le (of_nat len) @ as_bytes v))"

definition encode_blob :: "u8 list \<Rightarrow> nat \<Rightarrow> encoded" where
  "encode_blob blob max_bytes =
     (if length blob > max_bytes then Inl (ExecInvalid ''blob exceeds byte limit'')
      else Inr (u64_le (of_nat (length blob)) @ blob))"

fun encode_file_entries :: "(rstr \<times> u8 list) list \<Rightarrow> encoded" where
  "encode_file_entries [] = Inr []"
| "encode_file_entries ((url, content) # files) =
     (if url = [] then Inl (ExecInvalid ''snapshot logical URL is empty'')
      else bindr (encode_string url) (\<lambda>a.
           bindr (encode_blob content MAX_SNAPSHOT_FILE_BYTES) (\<lambda>b.
           bindr (encode_file_entries files) (\<lambda>rest. Inr (a @ b @ rest)))))"

definition encode_snapshot_files :: "(rstr \<times> u8 list) list \<Rightarrow> encoded" where
  "encode_snapshot_files files =
     (if length files \<ge> 2 ^ 32 then Inl ExecLengthOverflow
      else if length files > MAX_SNAPSHOT_FILES then Inl (ExecInvalid ''snapshot file count exceeds limit'')
      else bindr (encode_file_entries files) (\<lambda>entries. Inr (u32_le (of_nat (length files)) @ entries)))"

definition encode_object :: "EncodedNativeObject \<Rightarrow> encoded" where
  "encode_object ob =
     (if length (obj_frame_bytes ob) \<noteq> unat (obj_function_count ob)
      then Inl (ExecInvalid ''object frame_bytes length does not match function_count'')
      else if unat (obj_function_count ob) > MAX_FUNCTIONS
      then Inl (ExecInvalid ''object function count exceeds limit'')
      else bindr (encode_blob (obj_bytes ob) MAX_OBJECT_BYTES) (\<lambda>blob.
           Inr (u32_le (obj_function_count ob) @ concat (map u32_le (obj_frame_bytes ob)) @
                u32_le (obj_ic_slot_count ob) @ u32_le (obj_feedback_slot_count ob) @ blob)))"

fun encode_objects :: "EncodedNativeObject list \<Rightarrow> encoded" where
  "encode_objects [] = Inr []"
| "encode_objects (ob # obs) = bindr (encode_object ob) (\<lambda>a. bindr (encode_objects obs) (\<lambda>rest. Inr (a @ rest)))"

definition encode_inner :: "ExecPayload \<Rightarrow> encoded" where
  "encode_inner p =
     (if xp_objects p = [] \<or> length (xp_objects p) > MAX_OBJECTS
      then Inl (ExecInvalid ''native executable must embed 1 or 2 objects'')
      else bindr (encode_string (xp_target p)) (\<lambda>target.
           bindr (encode_string (xp_cranelift_version p)) (\<lambda>version.
           bindr (encode_string (xp_settings p)) (\<lambda>settings.
           bindr (encode_snapshot_files (xp_files p)) (\<lambda>files.
           bindr (encode_blob (xp_artifact p) MAX_ARTIFACT_BYTES) (\<lambda>artifact.
           if length (xp_objects p) \<ge> 2 ^ 32 then Inl ExecLengthOverflow
           else bindr (encode_objects (xp_objects p)) (\<lambda>objects.
           Inr (xp_native_abi_hash p @ xp_codegen_hash p @ target @ version @ settings @ files @ artifact @
                u32_le (of_nat (length (xp_objects p))) @ objects))))))))"

definition encode_payload :: "(u8 list \<Rightarrow> u8 list option) \<Rightarrow> ExecPayload \<Rightarrow> encoded" where
  "encode_payload zc p =
     bindr (encode_inner p) (\<lambda>inner.
     if length inner = 0 \<or> length inner > MAX_PAYLOAD_BYTES then Inl (ExecInvalid ''payload exceeds byte limit'')
     else bindr (ok_or (zc inner) (ExecInvalid ''zstd compress failed'')) (\<lambda>compressed.
     Inr (u32_le PAYLOAD_SCHEMA @ u64_le (of_nat (length inner)) @ compressed)))"

definition encode_footer :: "ExecFooter \<Rightarrow> u8 list" where
  "encode_footer f =
     FOOTER_MAGIC @ u16_le (foot_version f) @ [0, 0] @ u64_le (foot_offset f) @ u64_le (foot_len f) @ foot_digest f @ [0, 0, 0, 0]"

section \<open>Decoding\<close>

type_synonym 'a xd = "(ExecFormatError, 'a) rd"

abbreviation exec_errs :: "ExecFormatError \<times> ExecFormatError" where
  "exec_errs \<equiv> (ExecLengthOverflow, ExecTruncated)"

definition decode_string :: "rstr xd" where
  "decode_string = rd_then (rd_u32 exec_errs) (\<lambda>len.
     if unat len > MAX_STRING_BYTES then rd_fail (ExecInvalid ''string exceeds byte limit'')
     else rd_then (rd_take exec_errs (unat len)) (\<lambda>bs.
       case from_utf8 bs of None \<Rightarrow> rd_fail (ExecInvalid ''invalid UTF-8'') | Some s \<Rightarrow> rd_ret s))"

definition decode_blob :: "nat \<Rightarrow> u8 list xd" where
  "decode_blob max_bytes = rd_then (rd_u64 exec_errs) (\<lambda>len.
     if unat len > max_bytes then rd_fail (ExecInvalid ''blob exceeds byte limit'')
     else rd_take exec_errs (unat len))"

definition decode_file_entry :: "(rstr \<times> u8 list) list \<Rightarrow> (rstr \<times> u8 list) list xd" where
  "decode_file_entry files = rd_then decode_string (\<lambda>url.
     if url = [] then rd_fail (ExecInvalid ''snapshot logical URL is empty'')
     else rd_then (decode_blob MAX_SNAPSHOT_FILE_BYTES) (\<lambda>content.
       if map_of files url \<noteq> None then rd_fail (ExecDuplicateUrl url)
       else rd_ret (tree_insert url content files)))"

definition decode_snapshot_files :: "(rstr \<times> u8 list) list xd" where
  "decode_snapshot_files = rd_then (rd_u32 exec_errs) (\<lambda>count.
     if unat count > MAX_SNAPSHOT_FILES then rd_fail (ExecInvalid ''snapshot file count exceeds limit'')
     else rd_times (unat count) decode_file_entry [])"

definition decode_frame :: "u32 list \<Rightarrow> u32 list xd" where
  "decode_frame fs = rd_then (rd_u32 exec_errs) (\<lambda>f. rd_ret (fs @ [f]))"

definition decode_object :: "EncodedNativeObject xd" where
  "decode_object = rd_then (rd_u32 exec_errs) (\<lambda>count.
     if unat count > MAX_FUNCTIONS then rd_fail (ExecInvalid ''object function count exceeds limit'')
     else rd_then (rd_times (unat count) decode_frame []) (\<lambda>frames.
          rd_then (rd_u32 exec_errs) (\<lambda>ic.
          rd_then (rd_u32 exec_errs) (\<lambda>feedback.
          rd_then (decode_blob MAX_OBJECT_BYTES) (\<lambda>bytes.
          rd_ret \<lparr>obj_bytes = bytes, obj_frame_bytes = frames, obj_function_count = count,
            obj_ic_slot_count = ic, obj_feedback_slot_count = feedback\<rparr>)))))"

definition decode_objects :: "EncodedNativeObject list \<Rightarrow> EncodedNativeObject list xd" where
  "decode_objects obs = rd_then decode_object (\<lambda>ob. rd_ret (obs @ [ob]))"

definition decode_fields :: "ExecPayload xd" where
  "decode_fields =
     rd_then (rd_take exec_errs 32) (\<lambda>abi.
     rd_then (rd_take exec_errs 32) (\<lambda>codegen.
     rd_then decode_string (\<lambda>target.
     rd_then decode_string (\<lambda>version.
     rd_then decode_string (\<lambda>settings.
     rd_then decode_snapshot_files (\<lambda>files.
     rd_then (decode_blob MAX_ARTIFACT_BYTES) (\<lambda>artifact.
     rd_then (rd_u32 exec_errs) (\<lambda>count.
     if unat count = 0 \<or> unat count > MAX_OBJECTS
     then rd_fail (ExecInvalid ''native executable must embed 1 or 2 objects'')
     else rd_then (rd_times (unat count) decode_objects []) (\<lambda>objects.
     rd_ret \<lparr>xp_native_abi_hash = abi, xp_codegen_hash = codegen, xp_target = target,
       xp_cranelift_version = version, xp_settings = settings, xp_files = files,
       xp_artifact = artifact, xp_objects = objects\<rparr>)))))))))"

definition decode_inner :: "u8 list \<Rightarrow> ExecFormatError + ExecPayload" where
  "decode_inner bytes =
     bindr (rd_then decode_fields (\<lambda>p. rd_then (rd_finish (ExecInvalid ''payload has trailing bytes'')) (\<lambda>_. rd_ret p))
       (reader_new bytes)) (\<lambda>(p, _). Inr p)"

definition decompress_zstd :: "(u8 list \<Rightarrow> nat \<Rightarrow> u8 list option) \<Rightarrow> u8 list \<Rightarrow> nat \<Rightarrow> ExecFormatError + u8 list" where
  "decompress_zstd zd compressed raw_len =
     bindr (ok_or (zd compressed raw_len) (ExecInvalid ''zstd decompress failed'')) (\<lambda>inner.
     if length inner \<noteq> raw_len then Inl (ExecInvalid ''zstd output length mismatch'') else Inr inner)"

definition decode_payload :: "(u8 list \<Rightarrow> nat \<Rightarrow> u8 list option) \<Rightarrow> u8 list \<Rightarrow> ExecFormatError + ExecPayload" where
  "decode_payload zd bytes =
     bindr (rd_u32 exec_errs (reader_new bytes)) (\<lambda>(schema, r).
     if schema \<noteq> PAYLOAD_SCHEMA then Inl (ExecInvalid ''payload schema mismatch'')
     else bindr (rd_u64 exec_errs r) (\<lambda>(raw_len, r).
     if raw_len = 0 \<or> unat raw_len > MAX_PAYLOAD_BYTES then Inl (ExecInvalid ''payload exceeds byte limit'')
     else bindr (decompress_zstd zd (rd_remaining r) (unat raw_len)) decode_inner))"

section \<open>The file\<close>

definition read_footer :: "u8 list \<Rightarrow> ExecFormatError + ExecFooter" where
  "read_footer bytes =
     (if length bytes < FOOTER_LEN then Inl MissingFooter
      else let footer = drop (length bytes - FOOTER_LEN) bytes
      in if take 8 footer \<noteq> FOOTER_MAGIC then Inl ExecInvalidMagic
      else let version = u16_of_le (take 2 (drop 8 footer))
      in if version \<noteq> FORMAT_VERSION then Inl (ExecUnsupportedVersion version)
      else let payload_offset = u64_of_le (take 8 (drop 12 footer)); payload_len = u64_of_le (take 8 (drop 20 footer))
      in if unat payload_len > MAX_PAYLOAD_BYTES then Inl (ExecInvalid ''payload exceeds byte limit'')
      else Inr \<lparr>foot_version = version, foot_offset = payload_offset, foot_len = payload_len,
             foot_digest = take 32 (drop 28 footer)\<rparr>)"

definition stub_prefix :: "u8 list \<Rightarrow> u8 list" where
  "stub_prefix bytes =
     (case read_footer bytes of
        Inr footer \<Rightarrow> (case get_range bytes 0 (unat (foot_offset footer)) of None \<Rightarrow> bytes | Some stub \<Rightarrow> stub)
      | Inl _ \<Rightarrow> bytes)"

definition pack :: "(u8 list \<Rightarrow> u8 list) \<Rightarrow> (u8 list \<Rightarrow> u8 list option) \<Rightarrow> u8 list \<Rightarrow> ExecPayload \<Rightarrow> encoded" where
  "pack sha zc stub p =
     (let stub = stub_prefix stub
      in bindr (encode_payload zc p) (\<lambda>payload_bytes.
         if length payload_bytes > MAX_PAYLOAD_BYTES then Inl (ExecInvalid ''payload exceeds byte limit'')
         else Inr (stub @ payload_bytes @
           encode_footer \<lparr>foot_version = FORMAT_VERSION, foot_offset = of_nat (length stub),
             foot_len = of_nat (length payload_bytes), foot_digest = sha payload_bytes\<rparr>)))"

definition unpack :: "(u8 list \<Rightarrow> u8 list) \<Rightarrow> (u8 list \<Rightarrow> nat \<Rightarrow> u8 list option) \<Rightarrow> u8 list \<Rightarrow> ExecFormatError + ExecPayload" where
  "unpack sha zd bytes =
     bindr (read_footer bytes) (\<lambda>footer.
     bindr (ok_or (usize_checked_add (unat (foot_offset footer)) (unat (foot_len footer))) ExecLengthOverflow) (\<lambda>end_offset.
     bindr (ok_or (get_range bytes (unat (foot_offset footer)) end_offset) ExecTruncated) (\<lambda>payload.
     if sha payload \<noteq> foot_digest footer then Inl DigestMismatch else decode_payload zd payload)))"

definition unpack_from_path :: "(u8 list \<Rightarrow> u8 list) \<Rightarrow> (u8 list \<Rightarrow> nat \<Rightarrow> u8 list option) \<Rightarrow> u8 list \<Rightarrow> ExecFormatError + ExecPayload" where
  \<comment> \<open>on the content of a file that can be read\<close>
  "unpack_from_path sha zd contents =
     (if length contents < FOOTER_LEN then Inl MissingFooter
      else bindr (read_footer (drop (length contents - FOOTER_LEN) contents)) (\<lambda>footer.
      bindr (ok_or (Option.bind (usize_checked_add (unat (foot_offset footer)) (unat (foot_len footer)))
                 (\<lambda>e. usize_checked_add e FOOTER_LEN)) ExecLengthOverflow) (\<lambda>expected_end.
      if expected_end \<noteq> length contents then Inl ExecTruncated
      else let payload = take (unat (foot_len footer)) (drop (unat (foot_offset footer)) contents)
      in if sha payload \<noteq> foot_digest footer then Inl DigestMismatch else decode_payload zd payload)))"

definition verify_stub_identity ::
  "rstr \<Rightarrow> ExecPayload \<Rightarrow> u8 list \<Rightarrow> u8 list \<Rightarrow> rstr \<Rightarrow> rstr \<Rightarrow> ExecFormatError + unit" where
  \<comment> \<open>\<open>host\<close> is \<open>host_target()\<close>, a constant of the platform\<close>
  "verify_stub_identity host p native_abi_hash codegen_hash cranelift_version settings =
     bindr (ensure (xp_native_abi_hash p = native_abi_hash) (ExecInvalid ''native ABI hash does not match this stub'')) (\<lambda>_.
     bindr (ensure (xp_codegen_hash p = codegen_hash) (ExecInvalid ''native codegen hash does not match this stub'')) (\<lambda>_.
     bindr (ensure (xp_target p = host) (ExecTargetMismatch (xp_target p) host)) (\<lambda>_.
     bindr (ensure (xp_cranelift_version p = cranelift_version) (ExecInvalid ''Cranelift version does not match this stub'')) (\<lambda>_.
     ensure (xp_settings p = settings) (ExecInvalid ''native codegen settings do not match this stub'')))))"

end
