(* ===== verification/Exec_Format_Correct.thy ===== *)
theory Exec_Format_Correct
  imports Exec_Format
begin

text \<open>
  Packing and unpacking native executables: what \<open>pack\<close> writes, \<open>unpack\<close> reads back; what \<open>unpack\<close>
  accepts obeys the limits of the format.
\<close>

section \<open>Well-formed payloads\<close>

definition short_str :: "rstr \<Rightarrow> bool" where
  "short_str s \<longleftrightarrow> valid_str s \<and> length (as_bytes s) \<le> MAX_STRING_BYTES"

definition object_ok :: "EncodedNativeObject \<Rightarrow> bool" where
  "object_ok ob \<longleftrightarrow> length (obj_frame_bytes ob) = unat (obj_function_count ob) \<and>
     unat (obj_function_count ob) \<le> MAX_FUNCTIONS \<and> length (obj_bytes ob) \<le> MAX_OBJECT_BYTES"

definition files_ok :: "(rstr \<times> u8 list) list \<Rightarrow> bool" where
  "files_ok files \<longleftrightarrow> length files \<le> MAX_SNAPSHOT_FILES \<and> sorted_wrt str_less (map fst files) \<and>
     (\<forall>(url, content)\<in>set files. url \<noteq> [] \<and> short_str url \<and> length content \<le> MAX_SNAPSHOT_FILE_BYTES)"

definition payload_ok :: "ExecPayload \<Rightarrow> bool" where
  "payload_ok p \<longleftrightarrow> length (xp_native_abi_hash p) = 32 \<and> length (xp_codegen_hash p) = 32 \<and>
     short_str (xp_target p) \<and> short_str (xp_cranelift_version p) \<and> short_str (xp_settings p) \<and>
     files_ok (xp_files p) \<and> length (xp_artifact p) \<le> MAX_ARTIFACT_BYTES \<and>
     xp_objects p \<noteq> [] \<and> length (xp_objects p) \<le> MAX_OBJECTS \<and> (\<forall>ob\<in>set (xp_objects p). object_ok ob)"

lemmas exec_limits = MAX_STRING_BYTES_def MAX_SNAPSHOT_FILE_BYTES_def MAX_SNAPSHOT_FILES_def MAX_OBJECTS_def
  MAX_FUNCTIONS_def MAX_OBJECT_BYTES_def MAX_ARTIFACT_BYTES_def MAX_PAYLOAD_BYTES_def

section \<open>Ordered insertion\<close>

lemma str_less_order:
  "\<not> str_less a a" "str_less a b \<Longrightarrow> \<not> str_less b a" "str_less a b \<Longrightarrow> str_less b c \<Longrightarrow> str_less a c"
  "valid_str a \<Longrightarrow> valid_str b \<Longrightarrow> a \<noteq> b \<Longrightarrow> \<not> str_less a b \<Longrightarrow> str_less b a"
proof -
  show irr: "\<not> str_less a a" for a unfolding str_less_def by (rule lexordp_irreflexive')
  show trans: "str_less a b \<Longrightarrow> str_less b c \<Longrightarrow> str_less a c" for a b c
    unfolding str_less_def using lexordp_trans by blast
  then show "str_less a b \<Longrightarrow> \<not> str_less b a" using irr by blast
  show "valid_str a \<Longrightarrow> valid_str b \<Longrightarrow> a \<noteq> b \<Longrightarrow> \<not> str_less a b \<Longrightarrow> str_less b a"
    unfolding str_less_def using lexordp_linear as_bytes_inj by blast
qed

lemma tree_insert_last: "\<forall>k'\<in>fst ` set m. str_less k' k \<Longrightarrow> tree_insert k v m = m @ [(k, v)]"
  by (induction m) (auto simp: str_less_order(1) dest: str_less_order(2))

lemma tree_insert_facts:
  "set (tree_insert k v m) \<subseteq> insert (k, v) (set m)"
  "k \<notin> fst ` set m \<Longrightarrow> length (tree_insert k v m) = Suc (length m)"
  "k \<notin> fst ` set m \<Longrightarrow> valid_str k \<Longrightarrow> \<forall>k'\<in>fst ` set m. valid_str k' \<Longrightarrow> sorted_wrt str_less (map fst m) \<Longrightarrow>
     sorted_wrt str_less (map fst (tree_insert k v m))"
proof (induction m)
  case Nil
  { case 1 show ?case by simp }
  { case 2 show ?case by simp }
  { case 3 show ?case by simp }
next
  case (Cons e m)
  { case 1 show ?case using Cons.IH(1) by (cases e) auto }
  { case 2 show ?case using 2 Cons.IH(2) by (cases e) auto }
  { case 3
    obtain k' v' where e: "e = (k', v')" by (cases e)
    show ?case
    proof (cases "str_less k k'")
      case True
      then show ?thesis using 3 e str_less_order(3) by auto
    next
      case False
      then have less: "str_less k' k" using 3 e str_less_order(4) by auto
      have "set (map fst (tree_insert k v m)) \<subseteq> insert k (fst ` set m)" using Cons.IH(1) by auto
      moreover have "\<forall>x\<in>insert k (fst ` set m). str_less k' x" using 3 e less by auto
      ultimately have "\<forall>x\<in>set (map fst (tree_insert k v m)). str_less k' x" by blast
      moreover have "sorted_wrt str_less (map fst (tree_insert k v m))" using Cons.IH(3) 3 e by auto
      ultimately show ?thesis using 3 e False by auto
    qed }
qed

section \<open>What is written is read back\<close>

lemma encode_string_eats:
  assumes "valid_str v" and "encode_string v = Inr bs"
  shows "eats decode_string bs v"
proof -
  have len: "length (as_bytes v) \<le> MAX_STRING_BYTES" "bs = u32_le (of_nat (length (as_bytes v))) @ as_bytes v"
    using assms(2) by (simp_all add: encode_string_def Let_def split: if_splits)
  then have u: "unat (of_nat (length (as_bytes v)) :: u32) = length (as_bytes v)"
    by (intro unat_u32_of_nat) (simp add: exec_limits)
  have "eats (rd_then (rd_take exec_errs (length (as_bytes v))) (\<lambda>bs.
      case from_utf8 bs of None \<Rightarrow> rd_fail (ExecInvalid ''invalid UTF-8'') | Some s \<Rightarrow> rd_ret s)) (as_bytes v @ []) v"
    by (rule eats_then [OF eats_take [OF refl]]) (simp add: from_utf8_as_bytes [OF assms(1)] eats_ret)
  then show ?thesis
    unfolding decode_string_def len(2) by (intro eats_then [OF eats_u32]) (use u len(1) in simp)
qed

lemma encode_blob_eats:
  assumes "encode_blob blob n = Inr bs" and "n < 2 ^ 64"
  shows "eats (decode_blob n) bs blob"
proof -
  have len: "length blob \<le> n" "bs = u64_le (of_nat (length blob)) @ blob"
    using assms(1) by (simp_all add: encode_blob_def split: if_splits)
  then have "unat (of_nat (length blob) :: u64) = length blob" using assms(2) by (intro unat_u64_of_nat) simp
  then show ?thesis
    unfolding decode_blob_def len(2) by (intro eats_then [OF eats_u64]) (use len(1) in \<open>simp add: eats_take\<close>)
qed

lemma encode_files_eats:
  assumes "encode_file_entries files = Inr bs" and "sorted_wrt str_less (map fst (acc @ files))"
    and "\<forall>(url, content)\<in>set files. valid_str url"
  shows "eats (rd_times (length files) decode_file_entry acc) bs (acc @ files)"
  using assms
proof (induction files arbitrary: acc bs)
  case Nil
  then show ?case by (simp add: eats_ret)
next
  case (Cons f files)
  obtain url content where f: "f = (url, content)" by (cases f)
  from Cons.prems(1) obtain a b rest where e: "url \<noteq> []" "encode_string url = Inr a"
    "encode_blob content MAX_SNAPSHOT_FILE_BYTES = Inr b" "encode_file_entries files = Inr rest" "bs = a @ b @ rest"
    by (auto simp: f split: if_splits)
  have less: "\<forall>k'\<in>fst ` set acc. str_less k' url" using Cons.prems(2) by (auto simp: f sorted_wrt_append)
  then have new: "map_of acc url = None" using str_less_order(1) by (force simp: map_of_eq_None_iff)
  have "eats (rd_then (decode_blob MAX_SNAPSHOT_FILE_BYTES) (\<lambda>content.
      if map_of acc url \<noteq> None then rd_fail (ExecDuplicateUrl url) else rd_ret (tree_insert url content acc))) (b @ []) (acc @ [f])"
    by (rule eats_then [OF encode_blob_eats [OF e(3)]])
      (simp_all add: new tree_insert_last [OF less] f eats_ret exec_limits)
  then have "eats (decode_file_entry acc) (a @ b) (acc @ [f])"
    unfolding decode_file_entry_def using Cons.prems(3) f e(1) by (intro eats_then [OF encode_string_eats [OF _ e(2)]]) auto
  moreover have "eats (rd_times (length files) decode_file_entry (acc @ [f])) rest ((acc @ [f]) @ files)"
    by (rule Cons.IH [OF e(4)]) (use Cons.prems in auto)
  ultimately have "eats (rd_times (Suc (length files)) decode_file_entry acc) ((a @ b) @ rest) ((acc @ [f]) @ files)"
    by (rule eats_times)
  then show ?case using e(5) by simp
qed

lemma encode_snapshot_files_eats:
  assumes "encode_snapshot_files files = Inr bs" and "files_ok files"
  shows "eats decode_snapshot_files bs files"
proof -
  obtain entries where e: "encode_file_entries files = Inr entries" "bs = u32_le (of_nat (length files)) @ entries"
    using assms(1) by (auto simp: encode_snapshot_files_def split: if_splits)
  have u: "unat (of_nat (length files) :: u32) = length files"
    using assms(2) by (intro unat_u32_of_nat) (simp add: files_ok_def exec_limits)
  have "eats (rd_times (length files) decode_file_entry []) entries ([] @ files)"
    by (rule encode_files_eats [OF e(1)]) (use assms(2) in \<open>auto simp: files_ok_def short_str_def\<close>)
  then show ?thesis
    unfolding decode_snapshot_files_def e(2) by (intro eats_then [OF eats_u32]) (use u assms(2) in \<open>simp add: files_ok_def\<close>)
qed

lemma frames_eat: "eats (rd_times (length fs) decode_frame acc) (concat (map u32_le fs)) (acc @ fs)"
proof (induction fs arbitrary: acc)
  case (Cons f fs)
  have "eats (decode_frame acc) (u32_le f) (acc @ [f])"
    unfolding decode_frame_def by (rule eats_map [OF eats_u32])
  from eats_times [OF this Cons.IH] show ?case by simp
qed (simp add: eats_ret)

lemma encode_object_eats:
  assumes "encode_object ob = Inr bs"
  shows "eats decode_object bs ob"
proof -
  obtain blob where ob: "length (obj_frame_bytes ob) = unat (obj_function_count ob)" "unat (obj_function_count ob) \<le> MAX_FUNCTIONS"
    "encode_blob (obj_bytes ob) MAX_OBJECT_BYTES = Inr blob"
    "bs = u32_le (obj_function_count ob) @ concat (map u32_le (obj_frame_bytes ob)) @
       u32_le (obj_ic_slot_count ob) @ u32_le (obj_feedback_slot_count ob) @ blob"
    using assms by (auto simp: encode_object_def split: if_splits)
  have "eats (decode_blob MAX_OBJECT_BYTES) blob (obj_bytes ob)" by (rule encode_blob_eats [OF ob(3)]) (simp add: exec_limits)
  note rest = eats_map [OF this]
  have "eats (rd_times (unat (obj_function_count ob)) decode_frame []) (concat (map u32_le (obj_frame_bytes ob))) (obj_frame_bytes ob)"
    using frames_eat [of "obj_frame_bytes ob" "[]"] ob(1) by simp
  note frames = eats_then [OF this]
  show ?thesis
    unfolding decode_object_def ob(4)
    by (intro eats_then [OF eats_u32], use ob(2) in simp, intro frames eats_then [OF eats_u32])
      (rule eats_cong [OF rest], simp)
qed

lemma encode_objects_eats:
  "encode_objects obs = Inr bs \<Longrightarrow> eats (rd_times (length obs) decode_objects acc) bs (acc @ obs)"
proof (induction obs arbitrary: acc bs)
  case (Cons ob obs)
  then obtain a rest where e: "encode_object ob = Inr a" "encode_objects obs = Inr rest" "bs = a @ rest" by auto
  have "eats (decode_objects acc) a (acc @ [ob])"
    unfolding decode_objects_def by (rule eats_map [OF encode_object_eats [OF e(1)]])
  from eats_times [OF this Cons.IH [OF e(2)]] show ?case by (simp add: e(3))
qed (simp add: eats_ret)

lemma encode_inner_eats:
  assumes ok: "payload_ok p" and enc: "encode_inner p = Inr bs"
  shows "eats decode_fields bs p"
proof -
  obtain target version settings files artifact objects where e:
    "encode_string (xp_target p) = Inr target" "encode_string (xp_cranelift_version p) = Inr version"
    "encode_string (xp_settings p) = Inr settings" "encode_snapshot_files (xp_files p) = Inr files"
    "encode_blob (xp_artifact p) MAX_ARTIFACT_BYTES = Inr artifact" "encode_objects (xp_objects p) = Inr objects"
    and bs: "bs = xp_native_abi_hash p @ xp_codegen_hash p @ target @ version @ settings @ files @ artifact @
      u32_le (of_nat (length (xp_objects p))) @ objects"
    using enc by (auto simp: encode_inner_def split: if_splits)
  note p = ok [unfolded payload_ok_def short_str_def]
  have n: "unat (of_nat (length (xp_objects p)) :: u32) = length (xp_objects p)"
    using p by (intro unat_u32_of_nat) (simp add: exec_limits)
  have objects: "eats (rd_times (length (xp_objects p)) decode_objects []) objects (xp_objects p)"
    using encode_objects_eats [OF e(6), of "[]"] by simp
  note strings = encode_string_eats [OF _ e(1)] encode_string_eats [OF _ e(2)] encode_string_eats [OF _ e(3)]
  note files = encode_snapshot_files_eats [OF e(4)]
  have artifact: "eats (decode_blob MAX_ARTIFACT_BYTES) artifact (xp_artifact p)"
    by (rule encode_blob_eats [OF e(5)]) (simp add: exec_limits)
  have tail: "eats (rd_then (rd_u32 exec_errs) (\<lambda>count.
     if unat count = 0 \<or> unat count > MAX_OBJECTS
     then rd_fail (ExecInvalid ''native executable must embed 1 or 2 objects'')
     else rd_then (rd_times (unat count) decode_objects []) (\<lambda>objects. rd_ret (f objects))))
     (u32_le (of_nat (length (xp_objects p))) @ objects) (f (xp_objects p))" for f :: "EncodedNativeObject list \<Rightarrow> ExecPayload"
    by (rule eats_then [OF eats_u32]) (use n p eats_map [OF objects] in simp)
  show ?thesis
    unfolding decode_fields_def bs
    by (intro eats_then [OF eats_take] eats_then [OF strings(1)] eats_then [OF strings(2)] eats_then [OF strings(3)]
        eats_then [OF files] eats_then [OF artifact]) (use p in \<open>simp_all add: eats_cong [OF tail]\<close>)
qed

lemma decode_inner_encoded:
  assumes "payload_ok p" "encode_inner p = Inr bs" "length bs \<le> MAX_PAYLOAD_BYTES"
  shows "decode_inner bs = Inr p"
  using eats_all [OF encode_inner_eats [OF assms(1,2)], of "ExecInvalid ''payload has trailing bytes''" "\<lambda>p. p"] assms(3)
  by (simp add: decode_inner_def exec_limits)

lemma encode_payload_decoded:
  assumes ok: "payload_ok p" and enc: "encode_payload zc p = Inr bs" and small: "length bs < 2 ^ 64"
    and zstd: "\<And>x c. zc x = Some c \<Longrightarrow> zd c (length x) = Some x"
  shows "decode_payload zd bs = Inr p"
proof -
  obtain inner c where e: "encode_inner p = Inr inner" "inner \<noteq> []" "length inner \<le> MAX_PAYLOAD_BYTES" "zc inner = Some c"
    and bs: "bs = u32_le PAYLOAD_SCHEMA @ u64_le (of_nat (length inner)) @ c"
    using enc by (auto simp: encode_payload_def split: if_splits)
  let ?n = "of_nat (length inner) :: u64"
  have n: "unat ?n = length inner" using e(3) by (intro unat_u64_of_nat) (simp add: exec_limits)
  then have nz: "?n \<noteq> 0" using e(2) by (metis length_greater_0_conv less_irrefl unat_0)
  have "rd_u32 exec_errs (reader_new bs) = Inr (PAYLOAD_SCHEMA, \<lparr>rd_bytes = bs, rd_offset = 4\<rparr>)"
    using eats_u32 [of exec_errs PAYLOAD_SCHEMA, unfolded eats_def, rule_format, of "reader_new bs" "u64_le ?n @ c"] small
    by (simp add: reader_new_def bs)
  moreover have "rd_u64 exec_errs \<lparr>rd_bytes = bs, rd_offset = 4\<rparr> = Inr (?n, \<lparr>rd_bytes = bs, rd_offset = 12\<rparr>)"
    using eats_u64 [of exec_errs ?n, unfolded eats_def, rule_format, of "\<lparr>rd_bytes = bs, rd_offset = 4\<rparr>" c] small
    by (simp add: bs)
  moreover have "rd_remaining \<lparr>rd_bytes = bs, rd_offset = 12\<rparr> = c" by (simp add: rd_remaining_def bs)
  moreover have "decompress_zstd zd c (length inner) = Inr inner"
    using zstd [OF e(4)] by (simp add: decompress_zstd_def)
  ultimately show ?thesis
    using nz n e(3) decode_inner_encoded [OF ok e(1,3)] by (simp add: decode_payload_def)
qed

section \<open>The file\<close>

lemma read_footer_encoded:
  assumes "foot_version f = FORMAT_VERSION" "length (foot_digest f) = 32" "unat (foot_len f) \<le> MAX_PAYLOAD_BYTES"
  shows "length (encode_footer f) = FOOTER_LEN" "read_footer (xs @ encode_footer f) = Inr f"
proof -
  have m: "length FOOTER_MAGIC = 8" by (simp add: FOOTER_MAGIC_def)
  show len: "length (encode_footer f) = FOOTER_LEN" using assms(2) by (simp add: encode_footer_def FOOTER_LEN_def m)
  have t: "take 8 (encode_footer f) = FOOTER_MAGIC" "take 2 (drop 8 (encode_footer f)) = u16_le (foot_version f)"
    "take 8 (drop 12 (encode_footer f)) = u64_le (foot_offset f)" "take 8 (drop 20 (encode_footer f)) = u64_le (foot_len f)"
    "take 32 (drop 28 (encode_footer f)) = foot_digest f"
    using assms(2) by (simp_all add: encode_footer_def m)
  show "read_footer (xs @ encode_footer f) = Inr f"
    using assms by (simp add: read_footer_def len t Let_def)
qed

lemma encode_ok:
  "short_str v \<Longrightarrow> \<exists>bs. encode_string v = Inr bs" "length blob \<le> n \<Longrightarrow> \<exists>bs. encode_blob blob n = Inr bs"
  "files_ok files \<Longrightarrow> \<exists>bs. encode_snapshot_files files = Inr bs" "object_ok ob \<Longrightarrow> \<exists>bs. encode_object ob = Inr bs"
  "payload_ok p \<Longrightarrow> \<exists>bs. encode_inner p = Inr bs"
proof -
  show str: "\<exists>bs. encode_string v = Inr bs" if "short_str v" for v
    using that by (simp add: short_str_def encode_string_def exec_limits Let_def)
  show blob: "\<exists>bs. encode_blob blob n = Inr bs" if "length blob \<le> n" for blob n using that by (simp add: encode_blob_def)
  show files: "\<exists>bs. encode_snapshot_files files = Inr bs" if ok: "files_ok files" for files
  proof -
    have "\<exists>bs. encode_file_entries fs = Inr bs" if "set fs \<subseteq> set files" for fs
      using that
    proof (induction fs)
      case (Cons f fs)
      obtain url content where f: "f = (url, content)" by (cases f)
      then have "url \<noteq> []" "short_str url" "length content \<le> MAX_SNAPSHOT_FILE_BYTES" using ok Cons.prems by (auto simp: files_ok_def)
      then show ?case using str [of url] blob [of content] Cons by (auto simp: f)
    qed simp
    from this [of files] show ?thesis using ok by (auto simp: encode_snapshot_files_def files_ok_def exec_limits)
  qed
  show obj: "\<exists>bs. encode_object ob = Inr bs" if "object_ok ob" for ob
    using that blob [of "obj_bytes ob" MAX_OBJECT_BYTES] by (auto simp: object_ok_def encode_object_def)
  show "\<exists>bs. encode_inner p = Inr bs" if ok: "payload_ok p" for p
  proof -
    have "\<exists>bs. encode_objects obs = Inr bs" if "set obs \<subseteq> set (xp_objects p)" for obs
      using that
    proof (induction obs)
      case (Cons ob obs)
      then show ?case using obj [of ob] ok by (fastforce simp: payload_ok_def)
    qed simp
    from this [of "xp_objects p"] obtain e where "encode_objects (xp_objects p) = Inr e" by auto
    moreover note str [of "xp_target p"] str [of "xp_cranelift_version p"] str [of "xp_settings p"] files [of "xp_files p"]
      blob [of "xp_artifact p" MAX_ARTIFACT_BYTES]
    ultimately show ?thesis using ok by (auto simp: encode_inner_def payload_ok_def exec_limits)
  qed
qed

lemma pack_parts:
  assumes "pack sha zc stub p = Inr exe"
  obtains body where "encode_payload zc p = Inr body" "length body \<le> MAX_PAYLOAD_BYTES"
    "exe = (stub_prefix stub @ body) @ encode_footer \<lparr>foot_version = FORMAT_VERSION, foot_offset = of_nat (length (stub_prefix stub)),
       foot_len = of_nat (length body), foot_digest = sha body\<rparr>"
  using assms that by (auto simp: pack_def Let_def split: if_splits)

lemma unpack_packed:
  assumes ok: "payload_ok p" and pack: "pack sha zc stub p = Inr exe" and small: "length stub < 2 ^ 63"
    and sha: "\<And>x. length (sha x) = 32" and zstd: "\<And>x c. zc x = Some c \<Longrightarrow> zd c (length x) = Some x"
  shows "unpack sha zd exe = Inr p" "unpack_from_path sha zd exe = Inr p" "stub_prefix exe = stub_prefix stub"
proof -
  obtain body where b: "encode_payload zc p = Inr body" "length body \<le> MAX_PAYLOAD_BYTES"
    "exe = (stub_prefix stub @ body) @ encode_footer \<lparr>foot_version = FORMAT_VERSION, foot_offset = of_nat (length (stub_prefix stub)),
       foot_len = of_nat (length body), foot_digest = sha body\<rparr>" by (rule pack_parts [OF pack])
  let ?stub = "stub_prefix stub"
  let ?f = "\<lparr>foot_version = FORMAT_VERSION, foot_offset = of_nat (length ?stub), foot_len = of_nat (length body), foot_digest = sha body\<rparr> :: ExecFooter"
  have stub: "length ?stub < 2 ^ 63"
    using small by (auto simp: stub_prefix_def get_range_def split: sum.split option.split)
  have o: "unat (of_nat (length ?stub) :: u64) = length ?stub" "unat (of_nat (length body) :: u64) = length body"
    using stub b(2) by (auto intro!: unat_u64_of_nat simp: exec_limits)
  have body: "decode_payload zd body = Inr p"
    by (rule encode_payload_decoded [OF ok b(1) _ zstd]) (use b(2) in \<open>simp_all add: exec_limits\<close>)
  have foot: "length (encode_footer ?f) = FOOTER_LEN" "read_footer (xs @ encode_footer ?f) = Inr ?f" for xs
    using read_footer_encoded(1) [of ?f] read_footer_encoded(2) [of ?f xs] sha b(2) o(2) by simp_all
  note read = foot(2) [of "?stub @ body", folded b(3)]
  have range: "get_range exe (length ?stub) (length ?stub + length body) = Some body" "get_range exe 0 (length ?stub) = Some ?stub"
    by (simp_all add: get_range_def b(3))
  have add: "usize_checked_add (length ?stub) (length body) = Some (length ?stub + length body)"
    "usize_checked_add (length ?stub + length body) FOOTER_LEN = Some (length ?stub + length body + FOOTER_LEN)"
    using stub b(2) by (simp_all add: usize_checked_add_def exec_limits FOOTER_LEN_def)
  show "unpack sha zd exe = Inr p" by (simp add: unpack_def read o add range body)
  show "stub_prefix exe = ?stub" unfolding stub_prefix_def [of exe] read by (simp only: sum.case ExecFooter.select_convs o range option.case)
  have len: "length exe = length ?stub + length body + FOOTER_LEN" by (simp add: b(3) foot(1))
  then have "drop (length exe - FOOTER_LEN) exe = encode_footer ?f" by (simp add: b(3) foot(1))
  then have "read_footer (drop (length exe - FOOTER_LEN) exe) = Inr ?f" using foot(2) [of "[]"] by simp
  moreover have "take (length body) (drop (length ?stub) exe) = body" by (simp add: b(3))
  ultimately show "unpack_from_path sha zd exe = Inr p" using len by (simp add: unpack_from_path_def o add body)
qed

section \<open>What is accepted\<close>

lemma read_string: "read_from decode_string short_str"
proof -
  have "read_from (if unat len > MAX_STRING_BYTES then rd_fail (ExecInvalid ''string exceeds byte limit'')
      else rd_then (rd_take exec_errs (unat len)) (\<lambda>bs.
        case from_utf8 bs of None \<Rightarrow> rd_fail (ExecInvalid ''invalid UTF-8'') | Some s \<Rightarrow> rd_ret s)) short_str" for len :: u32
  proof (cases "unat len > MAX_STRING_BYTES")
    case False
    have "read_from (case from_utf8 bs of None \<Rightarrow> rd_fail (ExecInvalid ''invalid UTF-8'') | Some s \<Rightarrow> rd_ret s) short_str"
      if "length bs = unat len" for bs
      using that False from_utf8_Some [of bs] by (cases "from_utf8 bs") (auto simp: read_fail short_str_def intro!: read_ret)
    then show ?thesis using False by (auto intro!: read_then [OF read_take])
  qed (simp add: read_fail)
  then show ?thesis unfolding decode_string_def by (intro read_then [OF read_words(3)])
qed

lemma read_blob: "read_from (decode_blob n) (\<lambda>b. length b \<le> n)"
proof -
  have "read_from (if unat len > n then rd_fail (ExecInvalid ''blob exceeds byte limit'') else rd_take exec_errs (unat len)) (\<lambda>b. length b \<le> n)"
    for len :: u64 by (auto simp: read_fail intro: read_weaken [OF read_take])
  then show ?thesis unfolding decode_blob_def by (intro read_then [OF read_words(4)])
qed

definition files_inv :: "nat \<Rightarrow> (rstr \<times> u8 list) list \<Rightarrow> bool" where
  "files_inv n files \<longleftrightarrow> length files = n \<and> sorted_wrt str_less (map fst files) \<and>
     (\<forall>(url, content)\<in>set files. url \<noteq> [] \<and> short_str url \<and> length content \<le> MAX_SNAPSHOT_FILE_BYTES)"

lemma read_file_entry:
  assumes inv: "files_inv n files"
  shows "read_from (decode_file_entry files) (files_inv (Suc n))"
proof -
  have "read_from (if map_of files url \<noteq> None then rd_fail (ExecDuplicateUrl url) else rd_ret (tree_insert url content files))
      (files_inv (Suc n))"
    if url: "short_str url" "url \<noteq> []" and content: "length content \<le> MAX_SNAPSHOT_FILE_BYTES" for url content
  proof (cases "map_of files url")
    case None
    then have new: "url \<notin> fst ` set files" by (simp add: map_of_eq_None_iff)
    have valid: "\<forall>k\<in>fst ` set files. valid_str k" using inv by (auto simp: files_inv_def short_str_def)
    have "files_inv (Suc n) (tree_insert url content files)"
    proof -
      have "length (tree_insert url content files) = Suc n" using tree_insert_facts(2) [OF new] inv by (simp add: files_inv_def)
      moreover have "sorted_wrt str_less (map fst (tree_insert url content files))"
        using tree_insert_facts(3) [OF new _ valid] inv url(1) by (simp add: files_inv_def short_str_def)
      moreover have "set (tree_insert url content files) \<subseteq> insert (url, content) (set files)" by (rule tree_insert_facts(1))
      ultimately show ?thesis using inv url content unfolding files_inv_def by fast
    qed
    then show ?thesis using None by (simp add: read_ret)
  qed (simp add: read_fail)
  then have "read_from (if url = [] then rd_fail (ExecInvalid ''snapshot logical URL is empty'')
      else rd_then (decode_blob MAX_SNAPSHOT_FILE_BYTES) (\<lambda>content.
        if map_of files url \<noteq> None then rd_fail (ExecDuplicateUrl url) else rd_ret (tree_insert url content files)))
      (files_inv (Suc n))" if "short_str url" for url
    using that by (cases "url = []") (auto simp: read_fail intro!: read_then [OF read_blob])
  then show ?thesis unfolding decode_file_entry_def by (intro read_then [OF read_string])
qed

lemma read_snapshot_files: "read_from decode_snapshot_files files_ok"
proof -
  have files: "read_from (rd_times n decode_file_entry []) (files_inv n)" for n
    by (rule read_times [where I = files_inv]) (simp_all add: read_file_entry files_inv_def)
  then have "read_from (if unat count > MAX_SNAPSHOT_FILES then rd_fail (ExecInvalid ''snapshot file count exceeds limit'')
      else rd_times (unat count) decode_file_entry []) files_ok" for count :: u32
    using read_weaken [OF files [of "unat count"], of files_ok] by (simp add: read_fail files_inv_def files_ok_def)
  then show ?thesis unfolding decode_snapshot_files_def by (intro read_then [OF read_words(3)])
qed

lemma read_object: "read_from decode_object object_ok"
proof -
  have frames: "read_from (rd_times n decode_frame []) (\<lambda>fs. length fs = n)" for n
    by (rule read_times) (auto simp: decode_frame_def intro!: read_then [OF read_words(3)] read_ret)
  have "read_from (if unat count > MAX_FUNCTIONS then rd_fail (ExecInvalid ''object function count exceeds limit'')
     else rd_then (rd_times (unat count) decode_frame []) (\<lambda>frames.
          rd_then (rd_u32 exec_errs) (\<lambda>ic.
          rd_then (rd_u32 exec_errs) (\<lambda>feedback.
          rd_then (decode_blob MAX_OBJECT_BYTES) (\<lambda>bytes.
          rd_ret \<lparr>obj_bytes = bytes, obj_frame_bytes = frames, obj_function_count = count,
            obj_ic_slot_count = ic, obj_feedback_slot_count = feedback\<rparr>))))) object_ok" for count :: u32
    by (cases "unat count > MAX_FUNCTIONS")
      (auto simp: read_fail object_ok_def intro!: read_then [OF frames] read_then [OF read_words(3)] read_then [OF read_blob] read_ret)
  then show ?thesis unfolding decode_object_def by (intro read_then [OF read_words(3)])
qed

lemma read_fields: "read_from decode_fields payload_ok"
proof -
  have objects: "read_from (rd_times n decode_objects []) (\<lambda>obs. length obs = n \<and> (\<forall>ob\<in>set obs. object_ok ob))" for n
    by (rule read_times) (auto simp: decode_objects_def intro!: read_then [OF read_object] read_ret)
  have "read_from (if unat count = 0 \<or> unat count > MAX_OBJECTS
     then rd_fail (ExecInvalid ''native executable must embed 1 or 2 objects'')
     else rd_then (rd_times (unat count) decode_objects []) (\<lambda>objects. rd_ret (f objects))) payload_ok"
    if f: "\<And>obs. obs \<noteq> [] \<Longrightarrow> length obs \<le> MAX_OBJECTS \<Longrightarrow> \<forall>ob\<in>set obs. object_ok ob \<Longrightarrow> payload_ok (f obs)"
    for count :: u32 and f
    by (cases "unat count = 0 \<or> unat count > MAX_OBJECTS")
      (auto simp: read_fail intro!: read_then [OF objects] read_ret f)
  then show ?thesis
    unfolding decode_fields_def
    by (intro read_then [OF read_take] read_then [OF read_string] read_then [OF read_snapshot_files]
        read_then [OF read_blob] read_then [OF read_words(3)]) (simp add: payload_ok_def)
qed

lemma decode_payload_accepts:
  assumes "decode_payload zd bytes = Inr p"
  shows "payload_ok p"
proof -
  obtain inner where "decode_inner inner = Inr p"
  proof (cases "rd_u32 exec_errs (reader_new bytes)")
    case (Inr q)
    obtain schema r where q: "q = (schema, r)" by (cases q)
    show thesis
    proof (cases "rd_u64 exec_errs r")
      case (Inl e)
      then show thesis using assms Inr q by (cases "schema \<noteq> PAYLOAD_SCHEMA") (simp_all add: decode_payload_def)
    next
      case (Inr q')
      obtain raw_len r' where q': "q' = (raw_len, r')" by (cases q')
      from assms have "bindr (decompress_zstd zd (rd_remaining r') (unat raw_len)) decode_inner = Inr p"
        using \<open>rd_u32 exec_errs (reader_new bytes) = Inr q\<close> Inr q q'
        by (cases "schema \<noteq> PAYLOAD_SCHEMA"; cases "raw_len = 0 \<or> unat raw_len > MAX_PAYLOAD_BYTES") (simp_all add: decode_payload_def)
      then show thesis using that by (cases "decompress_zstd zd (rd_remaining r') (unat raw_len)") simp_all
    qed
  qed (use assms in \<open>simp add: decode_payload_def\<close>)
  then obtain r where r: "rd_then decode_fields (\<lambda>p. rd_then (rd_finish (ExecInvalid ''payload has trailing bytes'')) (\<lambda>_. rd_ret p))
      (reader_new inner) = Inr (p, r)" by (auto simp: decode_inner_def)
  have "read_from (rd_then decode_fields (\<lambda>p. rd_then (rd_finish (ExecInvalid ''payload has trailing bytes'')) (\<lambda>_. rd_ret p))) payload_ok"
    by (rule read_then [OF read_fields], rule read_then [OF read_finish], rule read_ret)
  from this [unfolded read_from_def, rule_format, OF _ r] show ?thesis by (simp add: reader_new_def)
qed

section \<open>Properties\<close>

text \<open>
  C32: Packing a well-formed payload fails only when it is too large or the compressor fails. The file
  it gives unpacks to the same payload, read from memory and read from disk, and its stub is that of
  the input: packing a packed executable replaces the old payload. SHA-256 gives 32 bytes, the
  compressor is inverted by the decompressor.
\<close>

theorem packed_executable_round_trip:
  assumes "payload_ok p" and "length stub < 2 ^ 63" and "\<And>x. length (sha x) = 32"
    and "\<And>x c. zc x = Some c \<Longrightarrow> zd c (length x) = Some x"
  shows "case pack sha zc stub p of
      Inl e \<Rightarrow> e = ExecInvalid ''payload exceeds byte limit'' \<or> e = ExecInvalid ''zstd compress failed''
    | Inr exe \<Rightarrow> unpack sha zd exe = Inr p \<and> unpack_from_path sha zd exe = Inr p \<and> stub_prefix exe = stub_prefix stub"
proof (cases "pack sha zc stub p")
  case (Inl e)
  obtain inner where inner: "encode_inner p = Inr inner" using encode_ok(5) [OF assms(1)] by blast
  show ?thesis
    using Inl inner by (cases "zc inner") (auto simp: pack_def encode_payload_def Let_def split: if_splits)
next
  case (Inr exe)
  then show ?thesis using unpack_packed [OF assms(1) Inr assms(2) assms(3) assms(4)] by simp
qed

definition toy_payload :: ExecPayload where
  "toy_payload = \<lparr>xp_native_abi_hash = replicate 32 1, xp_codegen_hash = replicate 32 2, xp_target = [120, 56, 54],
     xp_cranelift_version = [48, 46, 49], xp_settings = [115],
     xp_files = [([97], [1, 2]), ([98], [3])], xp_artifact = [4, 5, 6],
     xp_objects = [\<lparr>obj_bytes = [7], obj_frame_bytes = [64, 128], obj_function_count = 2,
       obj_ic_slot_count = 3, obj_feedback_slot_count = 4\<rparr>]\<rparr>"

lemma toy_payload_ok: "payload_ok toy_payload"
  by (simp add: payload_ok_def toy_payload_def short_str_def files_ok_def object_ok_def exec_limits
      valid_str_def is_scalar_def as_bytes_ascii str_less_def)

lemma toy_payload_packs: "\<exists>exe. pack (\<lambda>_. replicate 32 9) Some [1, 2, 3] toy_payload = Inr exe"
proof -
  have "case pack (\<lambda>_. replicate 32 9) Some [1, 2, 3] toy_payload of Inl _ \<Rightarrow> False | Inr _ \<Rightarrow> True"
    by (simp add: pack_def encode_payload_def encode_inner_def toy_payload_def encode_string_def encode_snapshot_files_def
        encode_blob_def encode_object_def stub_prefix_def read_footer_def FOOTER_LEN_def exec_limits Let_def as_bytes_ascii)
  then show ?thesis by (cases "pack (\<lambda>_. replicate 32 9) Some [1, 2, 3] toy_payload") simp_all
qed

theorem packed_executable_round_trip_witness:
  "\<exists>exe. pack (\<lambda>_. replicate 32 9) Some [1, 2, 3] toy_payload = Inr exe \<and>
    unpack (\<lambda>_. replicate 32 9) (\<lambda>c n. Some c) exe = Inr toy_payload"
proof -
  obtain exe where exe: "pack (\<lambda>_. replicate 32 9) Some [1, 2, 3] toy_payload = Inr exe" using toy_payload_packs by blast
  have len: "length ([1, 2, 3] :: u8 list) < 2 ^ 63" by simp
  have "unpack (\<lambda>_. replicate 32 9) (\<lambda>c n. Some c) exe = Inr toy_payload"
    using packed_executable_round_trip [OF toy_payload_ok len, of "\<lambda>_. replicate 32 9" Some "\<lambda>c n. Some c", unfolded exe sum.case]
    by simp
  then show ?thesis using exe by blast
qed

text \<open>
  C33: Whatever bytes a file has, a payload accepted from it obeys every limit of the format: at most
  two objects and 100000 files in ascending order of their names, strings, files, the artifact and
  the objects within their byte limits, one frame size per function. Its bytes are inside the file
  and have the digest of the footer, and a file accepted from disk is accepted in memory.
\<close>

theorem accepted_executable_is_bounded:
  assumes "unpack_from_path sha zd contents = Inr p \<or> unpack sha zd contents = Inr p"
  shows "payload_ok p \<and> unpack sha zd contents = Inr p \<and>
    (\<exists>footer. read_footer contents = Inr footer \<and> unat (foot_offset footer) + unat (foot_len footer) \<le> length contents \<and>
       sha (take (unat (foot_len footer)) (drop (unat (foot_offset footer)) contents)) = foot_digest footer)"
proof -
  have tail: "read_footer (drop (length contents - FOOTER_LEN) contents) = read_footer contents" if "\<not> length contents < FOOTER_LEN"
    using that by (simp add: read_footer_def Let_def)
  have u: "unpack sha zd contents = Inr p"
    using assms
  proof
    assume "unpack_from_path sha zd contents = Inr p"
    then obtain footer e where f: "\<not> length contents < FOOTER_LEN" "read_footer contents = Inr footer"
      "usize_checked_add (unat (foot_offset footer)) (unat (foot_len footer)) = Some e" "e + FOOTER_LEN = length contents"
      "sha (take (unat (foot_len footer)) (drop (unat (foot_offset footer)) contents)) = foot_digest footer"
      "decode_payload zd (take (unat (foot_len footer)) (drop (unat (foot_offset footer)) contents)) = Inr p"
      using tail by (auto simp: unpack_from_path_def Let_def usize_checked_add_def split: if_splits bind_splits)
    have "e = unat (foot_offset footer) + unat (foot_len footer)" using f(3) by (auto simp: usize_checked_add_def split: if_splits)
    then show ?thesis using f by (simp add: unpack_def get_range_def)
  qed
  then obtain footer e payload where f: "read_footer contents = Inr footer"
    "usize_checked_add (unat (foot_offset footer)) (unat (foot_len footer)) = Some e"
    "get_range contents (unat (foot_offset footer)) e = Some payload" "sha payload = foot_digest footer" "decode_payload zd payload = Inr p"
    by (auto simp: unpack_def split: if_splits)
  have "e = unat (foot_offset footer) + unat (foot_len footer)" using f(2) by (auto simp: usize_checked_add_def split: if_splits)
  then have "unat (foot_offset footer) + unat (foot_len footer) \<le> length contents \<and>
      payload = take (unat (foot_len footer)) (drop (unat (foot_offset footer)) contents)"
    using get_range_SomeD [OF f(3)] by auto
  then show ?thesis using u f(1,4) decode_payload_accepts [OF f(5)] by blast
qed

theorem accepted_executable_is_bounded_witness:
  "\<exists>exe footer. unpack (\<lambda>_. replicate 32 9) (\<lambda>c n. Some c) exe = Inr toy_payload \<and>
     read_footer exe = Inr footer \<and> unat (foot_offset footer) + unat (foot_len footer) \<le> length exe"
proof -
  obtain exe where exe: "pack (\<lambda>_. replicate 32 9) Some [1, 2, 3] toy_payload = Inr exe" using toy_payload_packs by blast
  have "unpack (\<lambda>_. replicate 32 9) (\<lambda>c n. Some c) exe = Inr toy_payload"
    by (rule unpack_packed(1) [OF toy_payload_ok exe]) simp_all
  from accepted_executable_is_bounded [OF disjI2 [OF this]] show ?thesis by blast
qed

end
