(* ===== verification/Snapshot_Format.thy ===== *)
theory Snapshot_Format
  imports Byte_Reader
begin

text \<open>
  Startup snapshots (\<open>wjsm-snapshot-format/src/lib.rs\<close>): a header of 220 bytes, a directory of
  five sections and their payloads. SHA-256 is the parameter \<open>sha\<close>. Errors carry the message of
  the \<open>bail!\<close> or \<open>context\<close>; indexing out of range, a panic of the code, is \<open>SnapPanic\<close>.
\<close>

section \<open>Data\<close>

definition SNAPSHOT_MAGIC :: "u8 list" where "SNAPSHOT_MAGIC = map (\<lambda>c. of_nat (of_char c)) ''WJSMNSP'' @ [0]"
definition SNAPSHOT_FORMAT_VERSION :: u32 where "SNAPSHOT_FORMAT_VERSION = 2"
definition HEADER_BYTES :: nat where "HEADER_BYTES = 220"
definition DIRECTORY_ENTRY_BYTES :: nat where "DIRECTORY_ENTRY_BYTES = 52"
definition SNAPSHOT_HASH_OFFSET :: nat where "SNAPSHOT_HASH_OFFSET = 16"
definition SNAPSHOT_HASH_END :: nat where "SNAPSHOT_HASH_END = 48"
definition SECTION_TARGET :: u16 where "SECTION_TARGET = 1"
definition SECTION_OBJECT_BYTES :: u16 where "SECTION_OBJECT_BYTES = 2"
definition SECTION_HANDLES :: u16 where "SECTION_HANDLES = 3"
definition SECTION_SHAPES :: u16 where "SECTION_SHAPES = 4"
definition SECTION_HOST_STATE :: u16 where "SECTION_HOST_STATE = 5"
definition SNAPSHOT_SECTION_COUNT :: u32 where "SNAPSHOT_SECTION_COUNT = 5"
definition HANDLE_BYTES :: nat where "HANDLE_BYTES = 13"

datatype SnapshotError =
    SnapMsg string
  | SnapEndianTag u8
  | SnapGenerationTag u8
  | SnapMismatch string
  | SnapPanic

datatype SnapshotEndian = SnapLittle | SnapBig

fun endian_tag :: "SnapshotEndian \<Rightarrow> u8" where
  "endian_tag SnapLittle = 1"
| "endian_tag SnapBig = 2"

definition endian_decode :: "u8 \<Rightarrow> SnapshotError + SnapshotEndian" where
  "endian_decode raw = (if raw = 1 then Inr SnapLittle else if raw = 2 then Inr SnapBig else Inl (SnapEndianTag raw))"

datatype SnapshotGeneration = Young | Old

fun generation_tag :: "SnapshotGeneration \<Rightarrow> u8" where
  "generation_tag Young = 0"
| "generation_tag Old = 1"

definition generation_decode :: "u8 \<Rightarrow> SnapshotError + SnapshotGeneration" where
  "generation_decode raw = (if raw = 0 then Inr Young else if raw = 1 then Inr Old else Inl (SnapGenerationTag raw))"

record SnapshotHandle =
  sh_handle :: u32
  sh_address :: u64
  sh_generation :: SnapshotGeneration

record NativeStartupSnapshot =
  ns_bootstrap_hash :: "u8 list"
  ns_lowering_hash :: "u8 list"
  ns_semantic_abi_hash :: "u8 list"
  ns_native_abi_hash :: "u8 list"
  ns_target :: rstr
  ns_endian :: SnapshotEndian
  ns_object_heap_base :: u64
  ns_object_heap_end :: u64
  ns_next_handle :: u64
  ns_global_object :: u64
  ns_object_bytes :: "u8 list"
  ns_handles :: "SnapshotHandle list"
  ns_shape_table_bytes :: "u8 list"
  ns_host_state_bytes :: "u8 list"

record SnapshotExpectations =
  ex_bootstrap_hash :: "u8 list"
  ex_lowering_hash :: "u8 list"
  ex_semantic_abi_hash :: "u8 list"
  ex_native_abi_hash :: "u8 list"
  ex_target :: rstr
  ex_endian :: SnapshotEndian
  ex_object_heap_base :: u64
  ex_object_heap_capacity_end :: u64

record SnapshotLimits =
  max_total_bytes :: u64
  max_section_bytes :: u64
  max_handles :: u32
  max_target_bytes :: u32

definition default_snapshot_limits :: SnapshotLimits where
  "default_snapshot_limits = \<lparr>max_total_bytes = 256 * 1024 * 1024, max_section_bytes = 128 * 1024 * 1024,
     max_handles = 16 * 1024 * 1024, max_target_bytes = 4096\<rparr>"

section \<open>Validation\<close>

definition validate_handle :: "NativeStartupSnapshot \<Rightarrow> nat \<Rightarrow> u32 option \<Rightarrow> SnapshotHandle \<Rightarrow> SnapshotError + u32 option" where
  "validate_handle s captured_end previous h =
     (if (case previous of None \<Rightarrow> False | Some p \<Rightarrow> p \<ge> sh_handle h)
      then Inl (SnapMsg ''native snapshot handles are not strictly sorted'')
      else if unat (sh_handle h) \<ge> unat (ns_next_handle s)
      then Inl (SnapMsg ''native snapshot handle is outside next_handle'')
      else if sh_address h AND 7 \<noteq> 0 \<or> sh_address h < ns_object_heap_base s \<or> unat (sh_address h) \<ge> captured_end
      then Inl (SnapMsg ''native snapshot handle address is outside captured objects'')
      else Inr (Some (sh_handle h)))"

definition validate_snapshot :: "NativeStartupSnapshot \<Rightarrow> SnapshotLimits \<Rightarrow> SnapshotError + unit" where
  "validate_snapshot s limits =
     (if ns_target s = [] then Inl (SnapMsg ''native snapshot target is empty'')
      else if length (as_bytes (ns_target s)) > unat (max_target_bytes limits)
      then Inl (SnapMsg ''native snapshot target exceeds byte limit'')
      else if ns_object_heap_base s AND 7 \<noteq> 0 \<or> ns_object_heap_end s < ns_object_heap_base s
      then Inl (SnapMsg ''native snapshot object heap layout is invalid'')
      else let capacity = ns_object_heap_end s - ns_object_heap_base s
      in if length (ns_object_bytes s) > unat capacity then Inl (SnapMsg ''native snapshot object bytes exceed heap layout'')
      else if unat (ns_next_handle s) > 2 ^ 32 then Inl (SnapMsg ''native snapshot next handle exceeds u32 space'')
      else if length (ns_handles s) > unat (max_handles limits)
      then Inl (SnapMsg ''native snapshot handle count exceeds limit'')
      else bindr (for_each_res (\<lambda>bytes. ensure (length bytes \<le> unat (max_section_bytes limits))
                    (SnapMsg ''native snapshot section exceeds byte limit''))
                  [ns_object_bytes s, ns_shape_table_bytes s, ns_host_state_bytes s]) (\<lambda>_.
           bindr (ok_or (usize_checked_add (unat (ns_object_heap_base s)) (length (ns_object_bytes s)))
                    (SnapMsg ''native snapshot object range overflows'')) (\<lambda>captured_end.
           bindr (fold_res (validate_handle s captured_end) None (ns_handles s)) (\<lambda>_. Inr ()))))"

section \<open>Encoding\<close>

record SnapEncodedSection =
  es_id :: u16
  es_bytes :: "u8 list"

definition encode_snapshot_handle :: "SnapshotHandle \<Rightarrow> u8 list" where
  "encode_snapshot_handle h = u32_le (sh_handle h) @ u64_le (sh_address h) @ [generation_tag (sh_generation h)]"

definition encoded_sections :: "NativeStartupSnapshot \<Rightarrow> SnapshotError + SnapEncodedSection list" where
  "encoded_sections s =
     bindr (ok_or (usize_checked_mul (length (ns_handles s)) HANDLE_BYTES)
              (SnapMsg ''native snapshot handle payload overflows'')) (\<lambda>_.
     Inr [\<lparr>es_id = SECTION_TARGET, es_bytes = as_bytes (ns_target s)\<rparr>,
          \<lparr>es_id = SECTION_OBJECT_BYTES, es_bytes = ns_object_bytes s\<rparr>,
          \<lparr>es_id = SECTION_HANDLES, es_bytes = concat (map encode_snapshot_handle (ns_handles s))\<rparr>,
          \<lparr>es_id = SECTION_SHAPES, es_bytes = ns_shape_table_bytes s\<rparr>,
          \<lparr>es_id = SECTION_HOST_STATE, es_bytes = ns_host_state_bytes s\<rparr>])"

definition encode_header :: "NativeStartupSnapshot \<Rightarrow> u8 list" where
  "encode_header s =
     SNAPSHOT_MAGIC @ u32_le SNAPSHOT_FORMAT_VERSION @ u32_le (of_nat HEADER_BYTES) @ replicate 32 0 @
     u32_le SNAPSHOT_SECTION_COUNT @ ns_bootstrap_hash s @ ns_lowering_hash s @ ns_semantic_abi_hash s @
     ns_native_abi_hash s @ [endian_tag (ns_endian s)] @ replicate 7 0 @ u64_le (ns_object_heap_base s) @
     u64_le (ns_object_heap_end s) @ u64_le (ns_next_handle s) @ u64_le (ns_global_object s)"

definition digest_with_zeroed_content_hash :: "(u8 list \<Rightarrow> u8 list) \<Rightarrow> u8 list \<Rightarrow> u8 list" where
  "digest_with_zeroed_content_hash sha bytes =
     sha (take SNAPSHOT_HASH_OFFSET bytes @ replicate 32 0 @ drop SNAPSHOT_HASH_END bytes)"

definition encode_entry ::
  "(u8 list \<Rightarrow> u8 list) \<Rightarrow> u8 list \<times> nat \<Rightarrow> SnapEncodedSection \<Rightarrow> SnapshotError + u8 list \<times> nat" where
  "encode_entry sha st sec =
     bindr (ok_or (usize_checked_add (snd st) (length (es_bytes sec)))
              (SnapMsg ''native snapshot section offset overflows'')) (\<lambda>offset.
     Inr (fst st @ u16_le (es_id sec) @ [0, 0] @ u64_le (of_nat (snd st)) @ u64_le (of_nat (length (es_bytes sec))) @
            sha (es_bytes sec), offset))"

definition encode_snapshot :: "(u8 list \<Rightarrow> u8 list) \<Rightarrow> NativeStartupSnapshot \<Rightarrow> SnapshotError + u8 list" where
  "encode_snapshot sha s =
     bindr (validate_snapshot s default_snapshot_limits) (\<lambda>_.
     bindr (encoded_sections s) (\<lambda>sections.
     bindr (ok_or (usize_checked_mul DIRECTORY_ENTRY_BYTES (length sections))
              (SnapMsg ''native snapshot directory size overflows'')) (\<lambda>directory_bytes.
     bindr (ok_or (usize_checked_add HEADER_BYTES directory_bytes)
              (SnapMsg ''native snapshot payload offset overflows'')) (\<lambda>payload_start.
     bindr (fold_res (\<lambda>total sec. ok_or (usize_checked_add total (length (es_bytes sec)))
              (SnapMsg ''native snapshot payload size overflows'')) 0 sections) (\<lambda>payload_bytes.
     bindr (ok_or (usize_checked_add payload_start payload_bytes) (SnapMsg ''native snapshot size overflows'')) (\<lambda>_.
     bindr (fold_res (encode_entry sha) ([], payload_start) sections) (\<lambda>(directory, _).
     let bytes = encode_header s @ directory @ concat (map es_bytes sections)
     in Inr (take SNAPSHOT_HASH_OFFSET bytes @ digest_with_zeroed_content_hash sha bytes @ drop SNAPSHOT_HASH_END bytes))))))))"

section \<open>Decoding\<close>

type_synonym 'a sd = "(SnapshotError, 'a) rd"

abbreviation snap_errs :: "SnapshotError \<times> SnapshotError" where
  "snap_errs \<equiv> (SnapMsg ''native snapshot reader offset overflows'', SnapMsg ''native snapshot is truncated'')"

definition snap_finish :: "unit sd" where
  "snap_finish = rd_finish (SnapMsg ''native snapshot field has trailing bytes'')"

definition chunks :: "nat \<Rightarrow> 'a list \<Rightarrow> 'a list list" where
  \<comment> \<open>\<open>as_chunks::<N>().0\<close>: the whole chunks, without the rest\<close>
  "chunks n xs = map (\<lambda>i. take n (drop (i * n) xs)) [0..<length xs div n]"

definition require_eq :: "string \<Rightarrow> 'a \<Rightarrow> 'a \<Rightarrow> SnapshotError + unit" where
  "require_eq name actual expected = ensure (actual = expected) (SnapMismatch name)"

record SnapSection =
  ss_offset :: nat
  ss_len :: nat

record directory_state =
  dir_expected :: nat
  dir_previous :: "u16 option"
  dir_sections :: "(u16 \<times> SnapSection) list"

definition read_dir_entry :: "u16 option \<Rightarrow> (u16 \<times> u64 \<times> u64 \<times> u8 list) sd" where
  "read_dir_entry previous =
     rd_then (rd_u16 snap_errs) (\<lambda>sid.
     rd_then (rd_u16 snap_errs) (\<lambda>flags.
     if flags \<noteq> 0 then rd_fail (SnapMsg ''native snapshot section flags are non-canonical'')
     else if (case previous of None \<Rightarrow> False | Some p \<Rightarrow> p \<ge> sid)
     then rd_fail (SnapMsg ''native snapshot section IDs are not strictly sorted'')
     else rd_then (rd_u64 snap_errs) (\<lambda>offset.
     rd_then (rd_u64 snap_errs) (\<lambda>len.
     rd_then (rd_take snap_errs 32) (\<lambda>section_hash.
     rd_then snap_finish (\<lambda>_. rd_ret (sid, offset, len, section_hash)))))))"

definition decode_dir_entry ::
  "(u8 list \<Rightarrow> u8 list) \<Rightarrow> u8 list \<Rightarrow> SnapshotLimits \<Rightarrow> directory_state \<Rightarrow> u8 list \<Rightarrow> SnapshotError + directory_state" where
  "decode_dir_entry sha bytes limits st entry =
     bindr (read_dir_entry (dir_previous st) (reader_new entry)) (\<lambda>((sid, offset, len, section_hash), _).
     bindr (ensure (unat offset = dir_expected st) (SnapMsg ''native snapshot sections contain a gap or overlap'')) (\<lambda>_.
     bindr (ensure (unat len \<le> unat (max_section_bytes limits)) (SnapMsg ''native snapshot section exceeds byte limit'')) (\<lambda>_.
     bindr (ok_or (usize_checked_add (unat offset) (unat len)) (SnapMsg ''native snapshot section range overflows'')) (\<lambda>end_offset.
     bindr (ok_or (get_range bytes (unat offset) end_offset) (SnapMsg ''native snapshot section is truncated'')) (\<lambda>payload.
     bindr (ensure (sha payload = section_hash) (SnapMsg ''native snapshot section hash mismatch'')) (\<lambda>_.
     Inr \<lparr>dir_expected = end_offset, dir_previous = Some sid,
           dir_sections = dir_sections st @ [(sid, \<lparr>ss_offset = unat offset, ss_len = unat len\<rparr>)]\<rparr>))))))"

definition decode_directory ::
  "(u8 list \<Rightarrow> u8 list) \<Rightarrow> u8 list \<Rightarrow> SnapshotLimits \<Rightarrow> SnapshotError + (u16 \<times> SnapSection) list" where
  "decode_directory sha bytes limits =
     bindr (ok_or (usize_checked_add HEADER_BYTES (DIRECTORY_ENTRY_BYTES * unat SNAPSHOT_SECTION_COUNT))
              (SnapMsg ''native snapshot directory offset overflows'')) (\<lambda>directory_end.
     bindr (ok_or (get_range bytes HEADER_BYTES directory_end) (SnapMsg ''native snapshot directory is truncated'')) (\<lambda>directory.
     bindr (fold_res (decode_dir_entry sha bytes limits) \<lparr>dir_expected = directory_end, dir_previous = None, dir_sections = []\<rparr>
              (chunks DIRECTORY_ENTRY_BYTES directory)) (\<lambda>st.
     if dir_expected st \<noteq> length bytes then Inl (SnapMsg ''native snapshot has trailing bytes'')
     else if set (map fst (dir_sections st)) \<noteq>
       {SECTION_TARGET, SECTION_OBJECT_BYTES, SECTION_HANDLES, SECTION_SHAPES, SECTION_HOST_STATE}
     then Inl (SnapMsg ''native snapshot required sections mismatch'')
     else Inr (dir_sections st))))"

definition snap_section :: "u8 list \<Rightarrow> (u16 \<times> SnapSection) list \<Rightarrow> u16 \<Rightarrow> SnapshotError + u8 list" where
  "snap_section bytes sections sid =
     bindr (ok_or (map_of sections sid) (SnapMsg ''native snapshot required section is missing'')) (\<lambda>sec.
     ok_or (get_range bytes (ss_offset sec) (ss_offset sec + ss_len sec)) SnapPanic)"

definition decode_snapshot_handle :: "SnapshotHandle list \<Rightarrow> u8 list \<Rightarrow> SnapshotError + SnapshotHandle list" where
  "decode_snapshot_handle hs entry =
     bindr (generation_decode (entry ! 12)) (\<lambda>gen.
     Inr (hs @ [\<lparr>sh_handle = u32_of_le (take 4 entry), sh_address = u64_of_le (take 8 (drop 4 entry)), sh_generation = gen\<rparr>]))"

definition decode_handles :: "u8 list \<Rightarrow> u32 \<Rightarrow> SnapshotError + SnapshotHandle list" where
  "decode_handles bytes maximum =
     (if length bytes mod HANDLE_BYTES \<noteq> 0 then Inl (SnapMsg ''native snapshot handle section length is invalid'')
      else if length bytes div HANDLE_BYTES > unat maximum then Inl (SnapMsg ''native snapshot handle count exceeds limit'')
      else fold_res decode_snapshot_handle [] (chunks HANDLE_BYTES bytes))"

record snapshot_header =
  hd_bootstrap_hash :: "u8 list"
  hd_lowering_hash :: "u8 list"
  hd_semantic_abi_hash :: "u8 list"
  hd_native_abi_hash :: "u8 list"
  hd_endian :: SnapshotEndian
  hd_object_heap_base :: u64
  hd_object_heap_end :: u64
  hd_next_handle :: u64
  hd_global_object :: u64

definition read_identity :: "snapshot_header sd" where
  "read_identity =
     rd_then (rd_take snap_errs 32) (\<lambda>bootstrap.
     rd_then (rd_take snap_errs 32) (\<lambda>lowering.
     rd_then (rd_take snap_errs 32) (\<lambda>semantic_abi.
     rd_then (rd_take snap_errs 32) (\<lambda>native_abi.
     rd_then (rd_u8 snap_errs) (\<lambda>raw.
     case endian_decode raw of
       Inl e \<Rightarrow> rd_fail e
     | Inr endian \<Rightarrow>
     rd_then (rd_take snap_errs 7) (\<lambda>_.
     rd_then (rd_u64 snap_errs) (\<lambda>heap_base.
     rd_then (rd_u64 snap_errs) (\<lambda>heap_end.
     rd_then (rd_u64 snap_errs) (\<lambda>next_handle.
     rd_then (rd_u64 snap_errs) (\<lambda>global_object.
     rd_ret \<lparr>hd_bootstrap_hash = bootstrap, hd_lowering_hash = lowering, hd_semantic_abi_hash = semantic_abi,
       hd_native_abi_hash = native_abi, hd_endian = endian, hd_object_heap_base = heap_base,
       hd_object_heap_end = heap_end, hd_next_handle = next_handle, hd_global_object = global_object\<rparr>))))))))))"

definition read_header :: "u8 list \<Rightarrow> snapshot_header sd" where
  \<comment> \<open>\<open>content\<close> is the digest computed from the file\<close>
  "read_header content =
     rd_then (rd_u32 snap_errs) (\<lambda>version.
     if version \<noteq> SNAPSHOT_FORMAT_VERSION then rd_fail (SnapMsg ''native snapshot format version mismatch'')
     else rd_then (rd_u32 snap_errs) (\<lambda>header_bytes.
     if unat header_bytes \<noteq> HEADER_BYTES then rd_fail (SnapMsg ''native snapshot header size mismatch'')
     else rd_then (rd_take snap_errs 32) (\<lambda>content_hash.
     if content_hash \<noteq> content then rd_fail (SnapMsg ''native snapshot content hash mismatch'')
     else rd_then (rd_u32 snap_errs) (\<lambda>count.
     if count \<noteq> SNAPSHOT_SECTION_COUNT then rd_fail (SnapMsg ''native snapshot section count mismatch'')
     else rd_then read_identity (\<lambda>h. rd_then snap_finish (\<lambda>_. rd_ret h))))))"

definition check_expectations :: "snapshot_header \<Rightarrow> SnapshotExpectations \<Rightarrow> SnapshotError + unit" where
  "check_expectations h expected =
     bindr (require_eq ''bootstrap hash'' (hd_bootstrap_hash h) (ex_bootstrap_hash expected)) (\<lambda>_.
     bindr (require_eq ''lowering hash'' (hd_lowering_hash h) (ex_lowering_hash expected)) (\<lambda>_.
     bindr (require_eq ''semantic ABI hash'' (hd_semantic_abi_hash h) (ex_semantic_abi_hash expected)) (\<lambda>_.
     bindr (require_eq ''native ABI hash'' (hd_native_abi_hash h) (ex_native_abi_hash expected)) (\<lambda>_.
     bindr (require_eq ''endian'' (hd_endian h) (ex_endian expected)) (\<lambda>_.
     require_eq ''object heap base'' (hd_object_heap_base h) (ex_object_heap_base expected))))))"

definition decode_sections ::
  "u8 list \<Rightarrow> (u16 \<times> SnapSection) list \<Rightarrow> snapshot_header \<Rightarrow> SnapshotLimits \<Rightarrow> SnapshotExpectations \<Rightarrow>
     SnapshotError + NativeStartupSnapshot" where
  "decode_sections bytes sections h limits expected =
     bindr (snap_section bytes sections SECTION_TARGET) (\<lambda>raw_target.
     bindr (ok_or (from_utf8 raw_target) (SnapMsg ''native snapshot target is not UTF-8'')) (\<lambda>target.
     bindr (require_eq ''target'' target (ex_target expected)) (\<lambda>_.
     bindr (ensure (length (as_bytes target) \<le> unat (max_target_bytes limits))
              (SnapMsg ''native snapshot target exceeds byte limit'')) (\<lambda>_.
     bindr (snap_section bytes sections SECTION_OBJECT_BYTES) (\<lambda>object_bytes.
     bindr (ok_or (usize_checked_add (unat (hd_object_heap_base h)) (length object_bytes))
              (SnapMsg ''native snapshot restored object range overflows'')) (\<lambda>restored_object_end.
     bindr (ensure (restored_object_end \<le> unat (ex_object_heap_capacity_end expected))
              (SnapMsg ''native snapshot objects exceed runtime heap capacity'')) (\<lambda>_.
     bindr (snap_section bytes sections SECTION_HANDLES) (\<lambda>raw_handles.
     bindr (decode_handles raw_handles (max_handles limits)) (\<lambda>handles.
     bindr (snap_section bytes sections SECTION_SHAPES) (\<lambda>shapes.
     bindr (snap_section bytes sections SECTION_HOST_STATE) (\<lambda>host_state.
     let s = \<lparr>ns_bootstrap_hash = hd_bootstrap_hash h, ns_lowering_hash = hd_lowering_hash h,
       ns_semantic_abi_hash = hd_semantic_abi_hash h, ns_native_abi_hash = hd_native_abi_hash h, ns_target = target,
       ns_endian = hd_endian h, ns_object_heap_base = hd_object_heap_base h, ns_object_heap_end = hd_object_heap_end h,
       ns_next_handle = hd_next_handle h, ns_global_object = hd_global_object h, ns_object_bytes = object_bytes,
       ns_handles = handles, ns_shape_table_bytes = shapes, ns_host_state_bytes = host_state\<rparr>
     in bindr (validate_snapshot s limits) (\<lambda>_. Inr s))))))))))))"

definition decode_snapshot ::
  "(u8 list \<Rightarrow> u8 list) \<Rightarrow> u8 list \<Rightarrow> SnapshotLimits \<Rightarrow> SnapshotExpectations \<Rightarrow> SnapshotError + NativeStartupSnapshot" where
  "decode_snapshot sha bytes limits expected =
     (if length bytes > unat (max_total_bytes limits) then Inl (SnapMsg ''native snapshot exceeds total byte limit'')
      else bindr (ok_or (get_range bytes 0 HEADER_BYTES) (SnapMsg ''native snapshot is truncated'')) (\<lambda>header.
      if take 8 header \<noteq> SNAPSHOT_MAGIC then Inl (SnapMsg ''native snapshot magic mismatch'')
      else bindr (read_header (digest_with_zeroed_content_hash sha bytes) (reader_new (drop 8 header))) (\<lambda>(h, _).
      bindr (check_expectations h expected) (\<lambda>_.
      bindr (decode_directory sha bytes limits) (\<lambda>sections.
      decode_sections bytes sections h limits expected)))))"

definition snapshot_abi_hash :: "(u8 list \<Rightarrow> u8 list) \<Rightarrow> u8 list" where
  "snapshot_abi_hash sha =
     sha (SNAPSHOT_MAGIC @ u32_le SNAPSHOT_FORMAT_VERSION @ u64_le (of_nat HEADER_BYTES) @
       u64_le (of_nat DIRECTORY_ENTRY_BYTES) @ u64_le (of_nat HANDLE_BYTES) @
       concat (map u16_le [SECTION_TARGET, SECTION_OBJECT_BYTES, SECTION_HANDLES, SECTION_SHAPES, SECTION_HOST_STATE]))"

end
