(* ===== verification/Snapshot_Format_Correct.thy ===== *)
theory Snapshot_Format_Correct
  imports Snapshot_Format
begin

text \<open>
  Snapshots: what validation accepts, what a written snapshot reads back as, and what an accepted
  file guarantees.
\<close>

section \<open>Validation\<close>

definition snapshot_ok :: "SnapshotLimits \<Rightarrow> NativeStartupSnapshot \<Rightarrow> bool" where
  "snapshot_ok lim s \<longleftrightarrow>
     ns_target s \<noteq> [] \<and> length (as_bytes (ns_target s)) \<le> unat (max_target_bytes lim) \<and>
     8 dvd unat (ns_object_heap_base s) \<and>
     unat (ns_object_heap_base s) + length (ns_object_bytes s) \<le> unat (ns_object_heap_end s) \<and>
     unat (ns_next_handle s) \<le> 2 ^ 32 \<and> length (ns_handles s) \<le> unat (max_handles lim) \<and>
     (\<forall>bytes\<in>{ns_object_bytes s, ns_shape_table_bytes s, ns_host_state_bytes s}. length bytes \<le> unat (max_section_bytes lim)) \<and>
     sorted_wrt (<) (map sh_handle (ns_handles s)) \<and>
     (\<forall>h\<in>set (ns_handles s). unat (sh_handle h) < unat (ns_next_handle s) \<and> 8 dvd unat (sh_address h) \<and>
        ns_object_heap_base s \<le> sh_address h \<and>
        unat (sh_address h) < unat (ns_object_heap_base s) + length (ns_object_bytes s))"

lemma and_7: "(w :: u64) AND 7 = 0 \<longleftrightarrow> 8 dvd unat w"
proof -
  have "w AND 7 = take_bit 3 w" by (simp add: take_bit_eq_mask mask_eq_exp_minus_1)
  then have "unat (w AND 7) = unat w mod 8" by (simp add: take_bit_eq_mod unat_mod)
  then show ?thesis by (simp add: dvd_eq_mod_eq_0 flip: unat_eq_zero)
qed

lemma validate_handles:
  "fold_res (validate_handle s e) p hs = Inr q \<longleftrightarrow>
     q = (if hs = [] then p else Some (sh_handle (last hs))) \<and>
     (\<forall>a\<in>set_option p. \<forall>h\<in>set hs. a < sh_handle h) \<and> sorted_wrt (<) (map sh_handle hs) \<and>
     (\<forall>h\<in>set hs. unat (sh_handle h) < unat (ns_next_handle s) \<and> 8 dvd unat (sh_address h) \<and>
        ns_object_heap_base s \<le> sh_address h \<and> unat (sh_address h) < e)"
proof (induction hs arbitrary: p)
  case (Cons h hs)
  have step: "validate_handle s e p h = Inr r \<longleftrightarrow> r = Some (sh_handle h) \<and> (\<forall>a\<in>set_option p. a < sh_handle h) \<and>
      unat (sh_handle h) < unat (ns_next_handle s) \<and> 8 dvd unat (sh_address h) \<and>
      ns_object_heap_base s \<le> sh_address h \<and> unat (sh_address h) < e" for r
    by (cases p) (auto simp: validate_handle_def and_7 not_le not_less)
  let ?here = "unat (sh_handle h) < unat (ns_next_handle s) \<and> 8 dvd unat (sh_address h) \<and>
      ns_object_heap_base s \<le> sh_address h \<and> unat (sh_address h) < e"
  have "fold_res (validate_handle s e) p (h # hs) = Inr q \<longleftrightarrow>
      (\<forall>a\<in>set_option p. a < sh_handle h) \<and> ?here \<and> fold_res (validate_handle s e) (Some (sh_handle h)) hs = Inr q"
    unfolding fold_res.simps bindr_Inr_iff step by blast
  moreover have "(\<forall>a\<in>set_option p. \<forall>x\<in>set (h # hs). a < sh_handle x) \<and> (\<forall>x\<in>set hs. sh_handle h < sh_handle x) \<longleftrightarrow>
      (\<forall>a\<in>set_option p. a < sh_handle h) \<and> (\<forall>x\<in>set hs. sh_handle h < sh_handle x)"
    by (auto intro: order.strict_trans)
  ultimately show ?case unfolding Cons.IH by auto
qed auto

lemma validate_snapshot_ok: "validate_snapshot s lim = Inr u \<longleftrightarrow> snapshot_ok lim s"
proof -
  let ?b = "ns_object_heap_base s" and ?e = "ns_object_heap_end s"
  have cap: "unat (?e - ?b) = unat ?e - unat ?b" if "?b \<le> ?e" using that by (rule unat_sub)
  have le: "?b \<le> ?e \<longleftrightarrow> unat ?b \<le> unat ?e" by (rule word_le_nat_alt)
  have add: "usize_checked_add (unat ?b) n = Some (unat ?b + n)" if "unat ?b + n \<le> unat ?e" for n
    using that unat_u64_lt [of ?e] by simp
  have fits: "\<not> length (ns_object_bytes s) > unat (?e - ?b) \<longleftrightarrow> unat ?b + length (ns_object_bytes s) \<le> unat ?e" if "?b \<le> ?e"
    using cap [OF that] that le by linarith
  show ?thesis
  proof (cases "?b \<le> ?e \<and> unat ?b + length (ns_object_bytes s) \<le> unat ?e")
    case True
    then show ?thesis
      using fits add [of "length (ns_object_bytes s)"]
      by (auto simp: validate_snapshot_def snapshot_ok_def and_7 validate_handles Let_def not_less)
  next
    case False
    then have "\<not> snapshot_ok lim s" using le by (auto simp: snapshot_ok_def)
    moreover have "validate_snapshot s lim \<noteq> Inr u"
      using False fits by (auto simp: validate_snapshot_def Let_def not_less)
    ultimately show ?thesis by blast
  qed
qed

section \<open>The file\<close>

lemma chunks_concat: "\<forall>e\<in>set es. length e = n \<Longrightarrow> 0 < n \<Longrightarrow> chunks n (concat es) = es"
proof (induction es)
  case (Cons e es)
  have len: "length (concat es) = n * length es" using Cons.prems by (induction es) auto
  have "chunks n (e @ concat es) = e # chunks n (concat es)"
    using Cons.prems len unfolding chunks_def
    by (simp add: upt_conv_Cons map_Suc_upt [symmetric] del: upt_Suc)
  then show ?case using Cons by simp
qed (simp add: chunks_def)

definition entry_bytes :: "(u8 list \<Rightarrow> u8 list) \<Rightarrow> u16 \<Rightarrow> nat \<Rightarrow> u8 list \<Rightarrow> u8 list" where
  "entry_bytes sha sid offset payload =
     u16_le sid @ [0, 0] @ u64_le (of_nat offset) @ u64_le (of_nat (length payload)) @ sha payload"

lemma read_entry_bytes:
  assumes "length (sha payload) = 32" and "\<forall>p\<in>set_option prev. p < sid"
  shows "read_dir_entry prev (reader_new (entry_bytes sha sid offset payload)) =
    Inr ((sid, of_nat offset, of_nat (length payload), sha payload),
      \<lparr>rd_bytes = entry_bytes sha sid offset payload, rd_offset = 52\<rparr>)"
proof -
  have z: "[0, 0] = u16_le 0" by (simp add: u16_le_def numeral_2_eq_2)
  have prev: "\<not> (case prev of None \<Rightarrow> False | Some p \<Rightarrow> p \<ge> sid)" using assms(2) by (cases prev) auto
  have "eats_end (read_dir_entry prev)
      (u16_le sid @ u16_le 0 @ u64_le (of_nat offset) @ u64_le (of_nat (length payload)) @ sha payload @ [])
      (sid, of_nat offset, of_nat (length payload), sha payload)"
    unfolding read_dir_entry_def snap_finish_def
    by (intro eats_end_then [OF eats_u16], subst if_not_P, simp, subst if_not_P, rule prev)
      (intro eats_end_then [OF eats_u64] eats_end_then [OF eats_take] eats_end_finish, simp add: assms(1))
  from eats_end_new [OF this] show ?thesis using assms(1) by (simp add: entry_bytes_def z)
qed

lemma decode_entry_bytes:
  assumes sha: "length (sha payload) = 32" and prev: "\<forall>p\<in>set_option (dir_previous st). p < sid"
    and range: "get_range bytes (dir_expected st) (dir_expected st + length payload) = Some payload"
    and small: "dir_expected st + length payload < 2 ^ 64"
  shows "decode_dir_entry sha bytes lim st (entry_bytes sha sid (dir_expected st) payload) =
    (if length payload > unat (max_section_bytes lim) then Inl (SnapMsg ''native snapshot section exceeds byte limit'')
     else Inr \<lparr>dir_expected = dir_expected st + length payload, dir_previous = Some sid,
           dir_sections = dir_sections st @ [(sid, \<lparr>ss_offset = dir_expected st, ss_len = length payload\<rparr>)]\<rparr>)"
proof -
  have u: "unat (of_nat (dir_expected st) :: u64) = dir_expected st" "unat (of_nat (length payload) :: u64) = length payload"
    using small by (simp_all add: unat_u64_of_nat)
  show ?thesis
    unfolding decode_dir_entry_def
    by (simp only: read_entry_bytes [where sha = sha and payload = payload, OF sha prev] bindr.simps prod.case u ensure_simps usize_checked_add_Some [OF small]
        ok_or.simps range simp_thms(6) if_True refl) (simp add: ensure_def)
qed

section \<open>What a snapshot is written as\<close>

definition handle_section :: "NativeStartupSnapshot \<Rightarrow> u8 list" where
  "handle_section s = concat (map encode_snapshot_handle (ns_handles s))"

definition snapshot_directory :: "(u8 list \<Rightarrow> u8 list) \<Rightarrow> NativeStartupSnapshot \<Rightarrow> u8 list list" where
  "snapshot_directory sha s =
     (let a = as_bytes (ns_target s); b = ns_object_bytes s; c = handle_section s; d = ns_shape_table_bytes s; e = ns_host_state_bytes s
      in [entry_bytes sha 1 480 a, entry_bytes sha 2 (480 + length a) b, entry_bytes sha 3 (480 + length a + length b) c,
          entry_bytes sha 4 (480 + length a + length b + length c) d,
          entry_bytes sha 5 (480 + length a + length b + length c + length d) e])"

definition identity_bytes :: "NativeStartupSnapshot \<Rightarrow> u8 list" where
  "identity_bytes s = ns_bootstrap_hash s @ ns_lowering_hash s @ ns_semantic_abi_hash s @
     ns_native_abi_hash s @ [endian_tag (ns_endian s)] @ replicate 7 0 @ u64_le (ns_object_heap_base s) @
     u64_le (ns_object_heap_end s) @ u64_le (ns_next_handle s) @ u64_le (ns_global_object s)"

definition header_bytes :: "NativeStartupSnapshot \<Rightarrow> u8 list \<Rightarrow> u8 list" where
  "header_bytes s content =
     SNAPSHOT_MAGIC @ u32_le SNAPSHOT_FORMAT_VERSION @ u32_le (of_nat HEADER_BYTES) @ content @ u32_le SNAPSHOT_SECTION_COUNT @
     identity_bytes s"

definition payload_bytes :: "NativeStartupSnapshot \<Rightarrow> u8 list" where
  "payload_bytes s = as_bytes (ns_target s) @ ns_object_bytes s @ handle_section s @ ns_shape_table_bytes s @ ns_host_state_bytes s"

definition snapshot_typed :: "NativeStartupSnapshot \<Rightarrow> bool" where
  \<comment> \<open>what the Rust types say: arrays of 32 bytes, a string, vectors that fit in memory\<close>
  "snapshot_typed s \<longleftrightarrow> length (ns_bootstrap_hash s) = 32 \<and> length (ns_lowering_hash s) = 32 \<and>
     length (ns_semantic_abi_hash s) = 32 \<and> length (ns_native_abi_hash s) = 32 \<and> valid_str (ns_target s)"

lemmas snapshot_constants = HEADER_BYTES_def DIRECTORY_ENTRY_BYTES_def SNAPSHOT_HASH_OFFSET_def SNAPSHOT_HASH_END_def
  SECTION_TARGET_def SECTION_OBJECT_BYTES_def SECTION_HANDLES_def SECTION_SHAPES_def SECTION_HOST_STATE_def
  SNAPSHOT_SECTION_COUNT_def HANDLE_BYTES_def SNAPSHOT_FORMAT_VERSION_def

lemma length_magic [simp]: "length SNAPSHOT_MAGIC = 8"
  by (simp add: SNAPSHOT_MAGIC_def)

lemma length_entry_bytes: "length (sha payload) = 32 \<Longrightarrow> length (entry_bytes sha sid offset payload) = 52"
  by (simp add: entry_bytes_def)

lemma length_handle_section: "length (handle_section s) = 13 * length (ns_handles s)"
proof -
  have "length (concat (map encode_snapshot_handle hs)) = 13 * length hs" for hs
    by (induction hs) (simp_all add: encode_snapshot_handle_def)
  then show ?thesis by (simp add: handle_section_def)
qed

lemma header_bytes_parts:
  assumes "snapshot_typed s" "length content = 32"
  shows "length (header_bytes s content) = 220" "take 8 (header_bytes s content) = SNAPSHOT_MAGIC"
    "take 16 (header_bytes s content) = SNAPSHOT_MAGIC @ u32_le SNAPSHOT_FORMAT_VERSION @ u32_le (of_nat HEADER_BYTES)"
    "drop 48 (header_bytes s content) = u32_le SNAPSHOT_SECTION_COUNT @ identity_bytes s"
  using assms by (simp_all add: header_bytes_def identity_bytes_def snapshot_typed_def)

lemma zeroed_digest_of_header:
  assumes "snapshot_typed s" "length content = 32" "length content' = 32"
  shows "digest_with_zeroed_content_hash sha (header_bytes s content @ rest) = digest_with_zeroed_content_hash sha (header_bytes s content' @ rest)"
  using assms by (simp add: digest_with_zeroed_content_hash_def snapshot_constants header_bytes_parts)

lemma sum_section_sizes:
  "fold_res (\<lambda>sz sec. ok_or (usize_checked_add sz (length (es_bytes sec))) e) t secs = Inr sz \<Longrightarrow>
     sz = t + length (concat (map es_bytes secs))"
proof (induction secs arbitrary: t)
  case (Cons sec secs)
  then obtain t' where t': "usize_checked_add t (length (es_bytes sec)) = Some t'"
    "fold_res (\<lambda>sz sec. ok_or (usize_checked_add sz (length (es_bytes sec))) e) t' secs = Inr sz" by auto
  from Cons.IH [OF t'(2)] t'(1) show ?case by (simp add: usize_checked_add_def split: if_splits)
qed simp

lemma encode_entry_eq:
  "off + length payload < 2 ^ 64 \<Longrightarrow> encode_entry sha (dir, off) \<lparr>es_id = sid, es_bytes = payload\<rparr> =
     Inr (dir @ entry_bytes sha sid off payload, off + length payload)"
  by (simp add: encode_entry_def entry_bytes_def)

lemma encode_snapshot_written:
  assumes enc: "encode_snapshot sha s = Inr bytes" and typed: "snapshot_typed s" and sha: "\<And>x. length (sha x) = 32"
  shows "snapshot_ok default_snapshot_limits s" and "length (payload_bytes s) + 480 < 2 ^ 64"
    and "\<exists>content. length content = 32 \<and> bytes = header_bytes s content @ concat (snapshot_directory sha s) @ payload_bytes s \<and>
        digest_with_zeroed_content_hash sha bytes = content"
proof -
  let ?a = "as_bytes (ns_target s)" and ?b = "ns_object_bytes s" and ?c = "handle_section s"
    and ?d = "ns_shape_table_bytes s" and ?e = "ns_host_state_bytes s"
  let ?secs = "[\<lparr>es_id = 1, es_bytes = ?a\<rparr>, \<lparr>es_id = 2, es_bytes = ?b\<rparr>, \<lparr>es_id = 3, es_bytes = ?c\<rparr>,
    \<lparr>es_id = 4, es_bytes = ?d\<rparr>, \<lparr>es_id = 5, es_bytes = ?e\<rparr>] :: SnapEncodedSection list"
  have ok: "validate_snapshot s default_snapshot_limits = Inr ()" using enc by (simp add: encode_snapshot_def)
  then show "snapshot_ok default_snapshot_limits s" by (simp add: validate_snapshot_ok)
  then have "13 * length (ns_handles s) < 2 ^ 64" by (simp add: snapshot_ok_def default_snapshot_limits_def)
  then have secs: "encoded_sections s = Inr ?secs"
    by (simp add: encoded_sections_def snapshot_constants handle_section_def mult.commute)
  have start: "usize_checked_mul DIRECTORY_ENTRY_BYTES (length ?secs) = Some 260" "usize_checked_add HEADER_BYTES 260 = Some 480"
    by (simp_all add: snapshot_constants)
  note enc' = enc [unfolded encode_snapshot_def ok secs bindr.simps start ok_or.simps]
  let ?sum = "fold_res (\<lambda>sz sec. ok_or (usize_checked_add sz (length (es_bytes sec)))
              (SnapMsg ''native snapshot payload size overflows'')) 0 ?secs"
  obtain sz where sz: "?sum = Inr sz" using enc' by (cases ?sum) (simp_all only: bindr.simps sum.distinct)
  then have "sz = length (payload_bytes s)" using sum_section_sizes [OF sz] by (simp add: payload_bytes_def)
  moreover have "usize_checked_add 480 sz \<noteq> None" using enc' unfolding sz by (cases "usize_checked_add 480 sz") simp_all
  ultimately show small: "length (payload_bytes s) + 480 < 2 ^ 64" by (auto simp: usize_checked_add_def split: if_splits)
  then have dir: "fold_res (encode_entry sha) ([], 480) ?secs =
      Inr (concat (snapshot_directory sha s), 480 + length ?a + length ?b + length ?c + length ?d + length ?e)"
    by (simp add: encode_entry_eq snapshot_directory_def Let_def payload_bytes_def)
  have "usize_checked_add 480 sz = Some (480 + sz)"
    using small \<open>sz = length (payload_bytes s)\<close> by simp
  note enc'' = enc' [unfolded sz this dir bindr.simps ok_or.simps prod.case Let_def]
  let ?B = "header_bytes s (replicate 32 0) @ concat (snapshot_directory sha s) @ payload_bytes s"
  have "encode_header s @ concat (snapshot_directory sha s) @ concat (map es_bytes ?secs) = ?B"
    by (simp add: encode_header_def header_bytes_def identity_bytes_def payload_bytes_def)
  with enc'' have bytes: "bytes = take 16 ?B @ digest_with_zeroed_content_hash sha ?B @ drop 48 ?B"
    by (simp only: sum.inject snapshot_constants)
  define content where "content = digest_with_zeroed_content_hash sha ?B"
  have len: "length content = 32" by (simp add: content_def digest_with_zeroed_content_hash_def sha)
  have h: "length (replicate 32 (0 :: u8)) = 32" by simp
  have "bytes = header_bytes s content @ concat (snapshot_directory sha s) @ payload_bytes s"
    unfolding bytes content_def [symmetric] using header_bytes_parts [OF typed h] by (simp add: header_bytes_def)
  moreover have "digest_with_zeroed_content_hash sha (header_bytes s content @ concat (snapshot_directory sha s) @ payload_bytes s) = content"
    unfolding content_def by (rule zeroed_digest_of_header [OF typed]) (simp_all add: len [unfolded content_def])
  ultimately show "\<exists>content. length content = 32 \<and> bytes = header_bytes s content @ concat (snapshot_directory sha s) @ payload_bytes s \<and>
        digest_with_zeroed_content_hash sha bytes = content" using len by blast
qed

lemma written_length:
  assumes "encode_snapshot sha s = Inr bytes" and typed: "snapshot_typed s" and sha: "\<And>x. length (sha x) = 32"
  shows "length bytes = 480 + length (payload_bytes s)"
proof -
  obtain content where c: "length content = 32" "bytes = header_bytes s content @ concat (snapshot_directory sha s) @ payload_bytes s"
    using encode_snapshot_written(3) [OF assms] by blast
  have "length (concat (snapshot_directory sha s)) = 260" by (simp add: snapshot_directory_def Let_def length_entry_bytes sha)
  then show ?thesis using header_bytes_parts(1) [OF typed c(1)] by (simp add: c(2))
qed

section \<open>Reading it back\<close>

lemma endian_round: "endian_decode (endian_tag e) = Inr e"
  by (cases e) (simp_all add: endian_decode_def)

lemma generation_round: "generation_decode (generation_tag g) = Inr g"
  by (cases g) (simp_all add: generation_decode_def)

lemma decode_handles_written:
  assumes "length (ns_handles s) \<le> unat m"
  shows "decode_handles (handle_section s) m = Inr (ns_handles s)"
proof -
  have step: "decode_snapshot_handle acc (encode_snapshot_handle h) = Inr (acc @ [h])" for acc h
    by (simp add: decode_snapshot_handle_def encode_snapshot_handle_def generation_round nth_append)
  have "fold_res decode_snapshot_handle acc (map encode_snapshot_handle hs) = Inr (acc @ hs)" for acc hs
    by (induction hs arbitrary: acc) (simp_all add: step)
  moreover have "chunks HANDLE_BYTES (handle_section s) = map encode_snapshot_handle (ns_handles s)"
    unfolding handle_section_def by (rule chunks_concat) (simp_all add: encode_snapshot_handle_def HANDLE_BYTES_def)
  ultimately show ?thesis using assms by (simp add: decode_handles_def length_handle_section snapshot_constants)
qed

lemma get_range_middle:
  "get_range (xs @ ys @ zs) (length xs) (length xs + length ys) = Some ys"
  by (simp add: get_range_def)

lemma decode_directory_written:
  assumes sha: "\<And>x. length (sha x) = 32" and h: "length header = 220"
    and small: "length (payload_bytes s) + 480 < 2 ^ 64"
    and lim: "\<forall>bytes\<in>{as_bytes (ns_target s), ns_object_bytes s, ns_shape_table_bytes s, ns_host_state_bytes s}.
      length bytes \<le> unat (max_section_bytes lim)"
  defines "bytes \<equiv> header @ concat (snapshot_directory sha s) @ payload_bytes s"
  shows "unat (max_section_bytes lim) < length (handle_section s) \<Longrightarrow>
      decode_directory sha bytes lim = Inl (SnapMsg ''native snapshot section exceeds byte limit'')"
    and "length (handle_section s) \<le> unat (max_section_bytes lim) \<Longrightarrow>
      \<exists>sections. decode_directory sha bytes lim = Inr sections \<and> snap_section bytes sections 1 = Inr (as_bytes (ns_target s)) \<and>
        snap_section bytes sections 2 = Inr (ns_object_bytes s) \<and> snap_section bytes sections 3 = Inr (handle_section s) \<and>
        snap_section bytes sections 4 = Inr (ns_shape_table_bytes s) \<and> snap_section bytes sections 5 = Inr (ns_host_state_bytes s)"
proof -
  let ?a = "as_bytes (ns_target s)" and ?b = "ns_object_bytes s" and ?c = "handle_section s"
    and ?d = "ns_shape_table_bytes s" and ?e = "ns_host_state_bytes s"
  let ?dir = "concat (snapshot_directory sha s)"
  have dir: "length ?dir = 260" by (simp add: snapshot_directory_def Let_def length_entry_bytes sha)
  let ?p = "header @ ?dir"
  let ?o1 = 480 let ?o2 = "?o1 + length ?a" let ?o3 = "?o2 + length ?b" let ?o4 = "?o3 + length ?c" let ?o5 = "?o4 + length ?d"
  have ranges: "get_range bytes ?o1 ?o2 = Some ?a" "get_range bytes ?o2 ?o3 = Some ?b" "get_range bytes ?o3 ?o4 = Some ?c"
    "get_range bytes ?o4 ?o5 = Some ?d" "get_range bytes ?o5 (?o5 + length ?e) = Some ?e"
    using get_range_middle [of ?p ?a "?b @ ?c @ ?d @ ?e"] get_range_middle [of "?p @ ?a" ?b "?c @ ?d @ ?e"]
      get_range_middle [of "?p @ ?a @ ?b" ?c "?d @ ?e"] get_range_middle [of "?p @ ?a @ ?b @ ?c" ?d ?e]
      get_range_middle [of "?p @ ?a @ ?b @ ?c @ ?d" ?e "[]"] h dir
    by (simp_all add: bytes_def payload_bytes_def add.assoc)
  have chunks: "chunks 52 ?dir = snapshot_directory sha s"
    by (rule chunks_concat) (simp_all add: snapshot_directory_def Let_def length_entry_bytes sha)
  have range: "get_range bytes 220 480 = Some ?dir"
    using get_range_middle [of header ?dir "payload_bytes s"] h dir by (simp add: bytes_def)
  have sz: "?o5 + length ?e = length bytes" using h dir by (simp add: bytes_def payload_bytes_def)
  note entry = decode_entry_bytes [where sha = sha and bytes = bytes and lim = lim, OF sha]
  let ?st = "\<lambda>off prev secs. \<lparr>dir_expected = off, dir_previous = prev, dir_sections = secs\<rparr>"
  have small': "?o2 < 2 ^ 64" "?o3 < 2 ^ 64" "?o4 < 2 ^ 64" "?o5 < 2 ^ 64" "?o5 + length ?e < 2 ^ 64"
    using small by (simp_all add: payload_bytes_def)
  have e1: "decode_dir_entry sha bytes lim (?st ?o1 None []) (entry_bytes sha 1 ?o1 ?a) = Inr (?st ?o2 (Some 1) [(1, \<lparr>ss_offset = ?o1, ss_len = length ?a\<rparr>)])"
    using entry [of "?st ?o1 None []" 1 ?a] ranges(1) small'(1) lim by simp
  have e2: "decode_dir_entry sha bytes lim (?st ?o2 (Some 1) secs) (entry_bytes sha 2 ?o2 ?b) = Inr (?st ?o3 (Some 2) (secs @ [(2, \<lparr>ss_offset = ?o2, ss_len = length ?b\<rparr>)]))" for secs
    using entry [of "?st ?o2 (Some 1) secs" 2 ?b] ranges(2) small'(2) lim by simp
  have e3: "decode_dir_entry sha bytes lim (?st ?o3 (Some 2) secs) (entry_bytes sha 3 ?o3 ?c) =
      (if length ?c > unat (max_section_bytes lim) then Inl (SnapMsg ''native snapshot section exceeds byte limit'')
       else Inr (?st ?o4 (Some 3) (secs @ [(3, \<lparr>ss_offset = ?o3, ss_len = length ?c\<rparr>)])))" for secs
    using entry [of "?st ?o3 (Some 2) secs" 3 ?c] ranges(3) small'(3) by simp
  have e4: "decode_dir_entry sha bytes lim (?st ?o4 (Some 3) secs) (entry_bytes sha 4 ?o4 ?d) = Inr (?st ?o5 (Some 4) (secs @ [(4, \<lparr>ss_offset = ?o4, ss_len = length ?d\<rparr>)]))" for secs
    using entry [of "?st ?o4 (Some 3) secs" 4 ?d] ranges(4) small'(4) lim by simp
  have e5: "decode_dir_entry sha bytes lim (?st ?o5 (Some 4) secs) (entry_bytes sha 5 ?o5 ?e) = Inr (?st (?o5 + length ?e) (Some 5) (secs @ [(5, \<lparr>ss_offset = ?o5, ss_len = length ?e\<rparr>)]))" for secs
    using entry [of "?st ?o5 (Some 4) secs" 5 ?e] ranges(5) small'(5) lim by simp
  have start: "decode_directory sha bytes lim =
     bindr (fold_res (decode_dir_entry sha bytes lim) (?st 480 None []) (snapshot_directory sha s)) (\<lambda>st.
     if dir_expected st \<noteq> length bytes then Inl (SnapMsg ''native snapshot has trailing bytes'')
     else if set (map fst (dir_sections st)) \<noteq> {1, 2, 3, 4, 5}
     then Inl (SnapMsg ''native snapshot required sections mismatch'')
     else Inr (dir_sections st))"
    by (simp add: decode_directory_def snapshot_constants range chunks cong: if_cong)
  note steps = e1 e2 e3 e4 e5
  show "decode_directory sha bytes lim = Inl (SnapMsg ''native snapshot section exceeds byte limit'')"
    if "unat (max_section_bytes lim) < length ?c"
    using that by (simp only: start snapshot_directory_def Let_def fold_res.simps steps bindr.simps if_True)
  assume "length ?c \<le> unat (max_section_bytes lim)"
  then have big: "\<not> unat (max_section_bytes lim) < length ?c" by simp
  let ?secs = "[(1, \<lparr>ss_offset = ?o1, ss_len = length ?a\<rparr>), (2, \<lparr>ss_offset = ?o2, ss_len = length ?b\<rparr>),
    (3, \<lparr>ss_offset = ?o3, ss_len = length ?c\<rparr>), (4, \<lparr>ss_offset = ?o4, ss_len = length ?d\<rparr>),
    (5, \<lparr>ss_offset = ?o5, ss_len = length ?e\<rparr>)] :: (u16 \<times> SnapSection) list"
  have "fold_res (decode_dir_entry sha bytes lim) (?st 480 None []) (snapshot_directory sha s) = Inr (?st (?o5 + length ?e) (Some 5) ?secs)"
    by (simp only: snapshot_directory_def Let_def fold_res.simps steps bindr.simps big if_False append.simps)
  then have "decode_directory sha bytes lim = Inr ?secs"
    unfolding start bindr.simps by (simp only: sz directory_state.select_convs) (simp add: insert_commute)
  moreover have "snap_section bytes ?secs 1 = Inr ?a" "snap_section bytes ?secs 2 = Inr ?b" "snap_section bytes ?secs 3 = Inr ?c"
    "snap_section bytes ?secs 4 = Inr ?d" "snap_section bytes ?secs 5 = Inr ?e"
    using ranges by (simp_all add: snap_section_def)
  ultimately show "\<exists>sections. decode_directory sha bytes lim = Inr sections \<and> snap_section bytes sections 1 = Inr ?a \<and>
      snap_section bytes sections 2 = Inr ?b \<and> snap_section bytes sections 3 = Inr ?c \<and>
      snap_section bytes sections 4 = Inr ?d \<and> snap_section bytes sections 5 = Inr ?e" by blast
qed

definition header_of :: "NativeStartupSnapshot \<Rightarrow> snapshot_header" where
  "header_of s = \<lparr>hd_bootstrap_hash = ns_bootstrap_hash s, hd_lowering_hash = ns_lowering_hash s,
     hd_semantic_abi_hash = ns_semantic_abi_hash s, hd_native_abi_hash = ns_native_abi_hash s, hd_endian = ns_endian s,
     hd_object_heap_base = ns_object_heap_base s, hd_object_heap_end = ns_object_heap_end s,
     hd_next_handle = ns_next_handle s, hd_global_object = ns_global_object s\<rparr>"

lemma read_identity_written:
  assumes "snapshot_typed s"
  shows "eats read_identity (identity_bytes s) (header_of s)"
proof -
  note typed = assms [unfolded snapshot_typed_def]
  have "eats (case endian_decode (endian_tag (ns_endian s)) of Inl e \<Rightarrow> rd_fail e | Inr endian \<Rightarrow>
     rd_then (rd_take snap_errs 7) (\<lambda>_.
     rd_then (rd_u64 snap_errs) (\<lambda>heap_base.
     rd_then (rd_u64 snap_errs) (\<lambda>heap_end.
     rd_then (rd_u64 snap_errs) (\<lambda>next_handle.
     rd_then (rd_u64 snap_errs) (\<lambda>global_object.
     rd_ret \<lparr>hd_bootstrap_hash = ns_bootstrap_hash s, hd_lowering_hash = ns_lowering_hash s, hd_semantic_abi_hash = ns_semantic_abi_hash s,
       hd_native_abi_hash = ns_native_abi_hash s, hd_endian = endian, hd_object_heap_base = heap_base,
       hd_object_heap_end = heap_end, hd_next_handle = next_handle, hd_global_object = global_object\<rparr>))))))
     (replicate 7 0 @ u64_le (ns_object_heap_base s) @ u64_le (ns_object_heap_end s) @ u64_le (ns_next_handle s) @
       u64_le (ns_global_object s) @ []) (header_of s)"
    unfolding endian_round sum.case header_of_def
    by (intro eats_then [OF eats_take] eats_then [OF eats_u64] eats_ret) simp
  note tail = this [unfolded append_Nil2]
  show ?thesis
    unfolding read_identity_def identity_bytes_def
    by (rule eats_then [OF eats_take], simp add: typed, rule eats_then [OF eats_take], simp add: typed,
        rule eats_then [OF eats_take], simp add: typed, rule eats_then [OF eats_take], simp add: typed,
        rule eats_then [OF eats_u8], rule tail)
qed

lemma read_header_written:
  assumes "snapshot_typed s" and "length content = 32"
  shows "\<exists>r. read_header content (reader_new (drop 8 (header_bytes s content))) = Inr (header_of s, r)"
proof -
  let ?bs = "u32_le SNAPSHOT_FORMAT_VERSION @ u32_le (of_nat HEADER_BYTES) @ content @ u32_le SNAPSHOT_SECTION_COUNT @ identity_bytes s @ []"
  have hb: "unat (of_nat HEADER_BYTES :: u32) = HEADER_BYTES" by (simp add: snapshot_constants)
  have "eats_end (read_header content) ?bs (header_of s)"
    unfolding read_header_def snap_finish_def
    by (rule eats_end_then [OF eats_u32], simp only: simp_thms if_False, rule eats_end_then [OF eats_u32], simp only: hb simp_thms if_False,
        rule eats_end_then [OF eats_take], rule assms(2) [symmetric], simp only: simp_thms if_False,
        rule eats_end_then [OF eats_u32], simp only: simp_thms if_False,
        rule eats_end_then [OF read_identity_written [OF assms(1)]], rule eats_end_finish)
  moreover have "length ?bs < 2 ^ 64" using assms by (simp add: identity_bytes_def snapshot_typed_def)
  ultimately show ?thesis using eats_end_new by (force simp: header_bytes_def)
qed

definition expects :: "SnapshotExpectations \<Rightarrow> NativeStartupSnapshot \<Rightarrow> bool" where
  \<comment> \<open>the snapshot was taken for the runtime that reads it\<close>
  "expects ex s \<longleftrightarrow> ex_bootstrap_hash ex = ns_bootstrap_hash s \<and> ex_lowering_hash ex = ns_lowering_hash s \<and>
     ex_semantic_abi_hash ex = ns_semantic_abi_hash s \<and> ex_native_abi_hash ex = ns_native_abi_hash s \<and>
     ex_target ex = ns_target s \<and> ex_endian ex = ns_endian s \<and> ex_object_heap_base ex = ns_object_heap_base s \<and>
     unat (ns_object_heap_base s) + length (ns_object_bytes s) \<le> unat (ex_object_heap_capacity_end ex)"

lemma decode_sections_written:
  assumes typed: "snapshot_typed s" and ok: "snapshot_ok lim s" and ex: "expects ex s"
    and sections: "snap_section bytes sections 1 = Inr (as_bytes (ns_target s))"
      "snap_section bytes sections 2 = Inr (ns_object_bytes s)" "snap_section bytes sections 3 = Inr (handle_section s)"
      "snap_section bytes sections 4 = Inr (ns_shape_table_bytes s)" "snap_section bytes sections 5 = Inr (ns_host_state_bytes s)"
  shows "decode_sections bytes sections (header_of s) lim ex = Inr s"
proof -
  have utf8: "from_utf8 (as_bytes (ns_target s)) = Some (ns_target s)" using typed by (simp add: snapshot_typed_def from_utf8_as_bytes)
  have handles: "decode_handles (handle_section s) (max_handles lim) = Inr (ns_handles s)"
    by (rule decode_handles_written) (use ok in \<open>simp add: snapshot_ok_def\<close>)
  have add: "usize_checked_add (unat (ns_object_heap_base s)) (length (ns_object_bytes s)) =
      Some (unat (ns_object_heap_base s) + length (ns_object_bytes s))"
    using ok unat_u64_lt [of "ns_object_heap_end s"] by (simp add: snapshot_ok_def)
  have valid: "validate_snapshot s lim = Inr ()" using ok by (simp add: validate_snapshot_ok)
  have target: "length (as_bytes (ns_target s)) \<le> unat (max_target_bytes lim)" using ok by (simp add: snapshot_ok_def)
  have self: "\<lparr>ns_bootstrap_hash = ns_bootstrap_hash s, ns_lowering_hash = ns_lowering_hash s,
       ns_semantic_abi_hash = ns_semantic_abi_hash s, ns_native_abi_hash = ns_native_abi_hash s, ns_target = ns_target s,
       ns_endian = ns_endian s, ns_object_heap_base = ns_object_heap_base s, ns_object_heap_end = ns_object_heap_end s,
       ns_next_handle = ns_next_handle s, ns_global_object = ns_global_object s, ns_object_bytes = ns_object_bytes s,
       ns_handles = ns_handles s, ns_shape_table_bytes = ns_shape_table_bytes s, ns_host_state_bytes = ns_host_state_bytes s\<rparr> = s"
    by (cases s) simp
  note ex = ex [unfolded expects_def]
  show ?thesis
    unfolding decode_sections_def SECTION_TARGET_def SECTION_OBJECT_BYTES_def SECTION_HANDLES_def SECTION_SHAPES_def SECTION_HOST_STATE_def
    by (simp add: sections utf8 handles require_eq_def header_of_def add valid target ex Let_def self)
qed

lemma decode_snapshot_written:
  assumes enc: "encode_snapshot sha s = Inr bytes" and typed: "snapshot_typed s" and sha: "\<And>x. length (sha x) = 32"
    and ex: "expects ex s"
  shows "decode_snapshot sha bytes default_snapshot_limits ex =
    (if length bytes > 256 * 1024 * 1024 then Inl (SnapMsg ''native snapshot exceeds total byte limit'')
     else if 13 * length (ns_handles s) > 128 * 1024 * 1024 then Inl (SnapMsg ''native snapshot section exceeds byte limit'')
     else Inr s)"
proof -
  let ?lim = default_snapshot_limits
  note ok = encode_snapshot_written(1) [OF enc typed sha]
  note small = encode_snapshot_written(2) [OF enc typed sha]
  obtain content where c: "length content = 32"
    and bytes: "bytes = header_bytes s content @ concat (snapshot_directory sha s) @ payload_bytes s"
    and digest: "digest_with_zeroed_content_hash sha bytes = content" using encode_snapshot_written(3) [OF enc typed sha] by blast
  have h: "length (header_bytes s content) = 220" by (rule header_bytes_parts(1) [OF typed c])
  then have range: "get_range bytes 0 HEADER_BYTES = Some (header_bytes s content)"
    by (simp add: get_range_def bytes snapshot_constants)
  obtain r where head: "read_header content (reader_new (drop 8 (header_bytes s content))) = Inr (header_of s, r)"
    using read_header_written [OF typed c] by blast
  have expected: "check_expectations (header_of s) ex = Inr ()"
    using ex by (simp add: check_expectations_def header_of_def expects_def require_eq_def)
  have lims: "unat (max_total_bytes ?lim) = 256 * 1024 * 1024" "unat (max_section_bytes ?lim) = 128 * 1024 * 1024"
    "unat (max_target_bytes ?lim) = 4096"
    by (simp_all add: default_snapshot_limits_def)
  have others: "\<forall>bytes\<in>{as_bytes (ns_target s), ns_object_bytes s, ns_shape_table_bytes s, ns_host_state_bytes s}.
      length bytes \<le> unat (max_section_bytes ?lim)" using ok by (simp add: snapshot_ok_def lims)
  note dir = decode_directory_written [where sha = sha, OF sha h small others, folded bytes, unfolded length_handle_section lims]
  have start: "decode_snapshot sha bytes ?lim ex =
    (if length bytes > 256 * 1024 * 1024 then Inl (SnapMsg ''native snapshot exceeds total byte limit'')
     else bindr (decode_directory sha bytes ?lim) (\<lambda>sections. decode_sections bytes sections (header_of s) ?lim ex))"
    unfolding decode_snapshot_def range digest
    by (simp only: lims ok_or.simps bindr.simps header_bytes_parts(2) [OF typed c] simp_thms if_False head prod.case expected)
  show ?thesis
  proof (cases "13 * length (ns_handles s) > 128 * 1024 * 1024")
    case True
    then show ?thesis unfolding start using dir(1) by simp
  next
    case False
    then obtain sections where "decode_directory sha bytes ?lim = Inr sections"
      "decode_sections bytes sections (header_of s) ?lim ex = Inr s"
      using dir(2) decode_sections_written [OF typed ok ex] by (metis not_less)
    then show ?thesis unfolding start using False by simp
  qed
qed

lemma sum_section_sizes_fit:
  "t + length (concat (map es_bytes secs)) < 2 ^ 64 \<Longrightarrow>
     fold_res (\<lambda>sz sec. ok_or (usize_checked_add sz (length (es_bytes sec))) e) t secs = Inr (t + length (concat (map es_bytes secs)))"
  by (induction secs arbitrary: t) simp_all

lemma encode_snapshot_succeeds:
  assumes ok: "snapshot_ok default_snapshot_limits s"
  shows "\<exists>bytes. encode_snapshot sha s = Inr bytes"
proof -
  let ?a = "as_bytes (ns_target s)" and ?b = "ns_object_bytes s" and ?c = "handle_section s"
    and ?d = "ns_shape_table_bytes s" and ?e = "ns_host_state_bytes s"
  let ?secs = "[\<lparr>es_id = 1, es_bytes = ?a\<rparr>, \<lparr>es_id = 2, es_bytes = ?b\<rparr>, \<lparr>es_id = 3, es_bytes = ?c\<rparr>,
    \<lparr>es_id = 4, es_bytes = ?d\<rparr>, \<lparr>es_id = 5, es_bytes = ?e\<rparr>] :: SnapEncodedSection list"
  have sizes: "length ?a \<le> 4096" "length ?b \<le> 134217728" "length ?d \<le> 134217728" "length ?e \<le> 134217728"
    "length ?c \<le> 13 * 16777216"
    using ok by (simp_all add: snapshot_ok_def default_snapshot_limits_def length_handle_section)
  have secs: "encoded_sections s = Inr ?secs"
    using sizes(5) by (simp add: encoded_sections_def snapshot_constants handle_section_def [symmetric] length_handle_section mult.commute)
  have add: "fold_res (\<lambda>sz sec. ok_or (usize_checked_add sz (length (es_bytes sec)))
      (SnapMsg ''native snapshot payload size overflows'')) 0 ?secs = Inr (0 + length (concat (map es_bytes ?secs)))"
    by (rule sum_section_sizes_fit) (use sizes in simp)
  have dir: "fold_res (encode_entry sha) ([], 480) ?secs =
      Inr (concat (snapshot_directory sha s), 480 + length ?a + length ?b + length ?c + length ?d + length ?e)"
    using sizes by (simp add: encode_entry_eq snapshot_directory_def Let_def)
  have start: "usize_checked_mul DIRECTORY_ENTRY_BYTES (length ?secs) = Some 260" "usize_checked_add HEADER_BYTES 260 = Some 480"
    "usize_checked_add 480 (0 + length (concat (map es_bytes ?secs))) = Some (480 + length (concat (map es_bytes ?secs)))"
    using sizes by (simp_all add: snapshot_constants)
  have valid: "validate_snapshot s default_snapshot_limits = Inr ()" using ok by (simp add: validate_snapshot_ok)
  show ?thesis
    unfolding encode_snapshot_def valid secs bindr.simps start ok_or.simps add dir prod.case Let_def by blast
qed

section \<open>What is accepted\<close>

lemma read_snap_finish: "read_from snap_finish (\<lambda>_. True)"
  unfolding snap_finish_def by (rule read_finish)

lemma read_identity_sizes:
  "read_from read_identity (\<lambda>h. length (hd_bootstrap_hash h) = 32 \<and> length (hd_lowering_hash h) = 32 \<and>
     length (hd_semantic_abi_hash h) = 32 \<and> length (hd_native_abi_hash h) = 32)"
proof -
  have "read_from (case endian_decode raw of Inl e \<Rightarrow> rd_fail e | Inr endian \<Rightarrow>
     rd_then (rd_take snap_errs 7) (\<lambda>_.
     rd_then (rd_u64 snap_errs) (\<lambda>heap_base.
     rd_then (rd_u64 snap_errs) (\<lambda>heap_end.
     rd_then (rd_u64 snap_errs) (\<lambda>next_handle.
     rd_then (rd_u64 snap_errs) (\<lambda>global_object. rd_ret (f endian heap_base heap_end next_handle global_object))))))) P"
    if "\<And>endian b e n g. P (f endian b e n g)" for raw f and P :: "snapshot_header \<Rightarrow> bool"
    using that by (cases "endian_decode raw") (auto intro!: read_fail read_then [OF read_take] read_then [OF read_words(4)] read_ret)
  then show ?thesis
    unfolding read_identity_def by (intro read_then [OF read_take] read_then [OF read_words(1)]) simp
qed

lemma read_header_sizes:
  "read_from (read_header content) (\<lambda>h. length (hd_bootstrap_hash h) = 32 \<and> length (hd_lowering_hash h) = 32 \<and>
     length (hd_semantic_abi_hash h) = 32 \<and> length (hd_native_abi_hash h) = 32)" (is "read_from _ ?P")
proof -
  have 1: "read_from (rd_then read_identity (\<lambda>h. rd_then snap_finish (\<lambda>_. rd_ret h))) ?P"
    by (rule read_then [OF read_identity_sizes], rule read_then [OF read_snap_finish], rule read_ret)
  have branch: "read_from (if c then rd_fail e else m) ?P" if "read_from m ?P" for c e m
    using that by (simp add: read_fail)
  show ?thesis
    unfolding read_header_def
    by (intro branch 1 read_then [OF read_words(3)] read_then [OF read_take])
qed

lemma rd_u32_moves: "rd_u32 errs r = Inr (x, r') \<Longrightarrow> r' = r\<lparr>rd_offset := rd_offset r + 4\<rparr>"
  by (auto simp: rd_u32_def rd_then_def rd_take_def rd_ret_def usize_checked_add_def split: sum.splits option.splits if_splits)

lemma rd_take_chunk: "rd_take errs n r = Inr (x, r') \<Longrightarrow> x = take n (drop (rd_offset r) (rd_bytes r))"
  by (auto simp: rd_take_def usize_checked_add_def get_range_def split: option.splits if_splits)

lemma rd_thenE:
  assumes "rd_then m f r = Inr (y, r')"
  obtains x r1 where "m r = Inr (x, r1)" "f x r1 = Inr (y, r')"
  using assms that by (cases "m r") (auto simp: rd_then_def)

lemma read_header_content:
  assumes "read_header content (reader_new bs) = Inr (h, r)"
  shows "take 32 (drop 8 bs) = content"
proof -
  from assms obtain version r1 where 1: "rd_u32 snap_errs (reader_new bs) = Inr (version, r1)"
    and a: "(if version \<noteq> SNAPSHOT_FORMAT_VERSION then rd_fail (SnapMsg ''native snapshot format version mismatch'')
     else rd_then (rd_u32 snap_errs) (\<lambda>header_bytes.
     if unat header_bytes \<noteq> HEADER_BYTES then rd_fail (SnapMsg ''native snapshot header size mismatch'')
     else rd_then (rd_take snap_errs 32) (\<lambda>content_hash.
     if content_hash \<noteq> content then rd_fail (SnapMsg ''native snapshot content hash mismatch'')
     else rd_then (rd_u32 snap_errs) (\<lambda>count.
     if count \<noteq> SNAPSHOT_SECTION_COUNT then rd_fail (SnapMsg ''native snapshot section count mismatch'')
     else rd_then read_identity (\<lambda>h. rd_then snap_finish (\<lambda>_. rd_ret h)))))) r1 = Inr (h, r)"
    unfolding read_header_def by (rule rd_thenE)
  have "version = SNAPSHOT_FORMAT_VERSION" using a by (cases "version = SNAPSHOT_FORMAT_VERSION") (simp_all add: rd_fail_def)
  note a = a [unfolded this simp_thms if_False]
  from a obtain hb r2 where 2: "rd_u32 snap_errs r1 = Inr (hb, r2)"
    and b: "(if unat hb \<noteq> HEADER_BYTES then rd_fail (SnapMsg ''native snapshot header size mismatch'')
     else rd_then (rd_take snap_errs 32) (\<lambda>content_hash.
     if content_hash \<noteq> content then rd_fail (SnapMsg ''native snapshot content hash mismatch'')
     else rd_then (rd_u32 snap_errs) (\<lambda>count.
     if count \<noteq> SNAPSHOT_SECTION_COUNT then rd_fail (SnapMsg ''native snapshot section count mismatch'')
     else rd_then read_identity (\<lambda>h. rd_then snap_finish (\<lambda>_. rd_ret h))))) r2 = Inr (h, r)"
    by (rule rd_thenE)
  have "unat hb = HEADER_BYTES" using b by (cases "unat hb = HEADER_BYTES") (simp_all add: rd_fail_def)
  note b = b [unfolded this simp_thms if_False]
  from b obtain ch r3 where 3: "rd_take snap_errs 32 r2 = Inr (ch, r3)"
    and c: "(if ch \<noteq> content then rd_fail (SnapMsg ''native snapshot content hash mismatch'')
     else rd_then (rd_u32 snap_errs) (\<lambda>count.
     if count \<noteq> SNAPSHOT_SECTION_COUNT then rd_fail (SnapMsg ''native snapshot section count mismatch'')
     else rd_then read_identity (\<lambda>h. rd_then snap_finish (\<lambda>_. rd_ret h)))) r3 = Inr (h, r)"
    by (rule rd_thenE)
  have "ch = content" using c by (cases "ch = content") (simp_all add: rd_fail_def)
  moreover have "ch = take 32 (drop (rd_offset r2) (rd_bytes r2))" by (rule rd_take_chunk [OF 3])
  moreover have "r2 = \<lparr>rd_bytes = bs, rd_offset = 8\<rparr>" using rd_u32_moves [OF 1] rd_u32_moves [OF 2] by (simp add: reader_new_def)
  ultimately show ?thesis by simp
qed

lemma decode_sections_accepts:
  assumes "decode_sections bytes sections h lim ex = Inr s"
    and "length (hd_bootstrap_hash h) = 32 \<and> length (hd_lowering_hash h) = 32 \<and>
     length (hd_semantic_abi_hash h) = 32 \<and> length (hd_native_abi_hash h) = 32"
    and "check_expectations h ex = Inr ()"
  shows "snapshot_typed s" "snapshot_ok lim s" "expects ex s"
proof -
  obtain raw target object_bytes e handles shapes host where s:
    "from_utf8 raw = Some target" "target = ex_target ex"
    "usize_checked_add (unat (hd_object_heap_base h)) (length object_bytes) = Some e" "e \<le> unat (ex_object_heap_capacity_end ex)"
    "validate_snapshot s lim = Inr ()"
    "s = \<lparr>ns_bootstrap_hash = hd_bootstrap_hash h, ns_lowering_hash = hd_lowering_hash h,
       ns_semantic_abi_hash = hd_semantic_abi_hash h, ns_native_abi_hash = hd_native_abi_hash h, ns_target = target,
       ns_endian = hd_endian h, ns_object_heap_base = hd_object_heap_base h, ns_object_heap_end = hd_object_heap_end h,
       ns_next_handle = hd_next_handle h, ns_global_object = hd_global_object h, ns_object_bytes = object_bytes,
       ns_handles = handles, ns_shape_table_bytes = shapes, ns_host_state_bytes = host\<rparr>"
    using assms(1)
    unfolding decode_sections_def Let_def require_eq_def bindr_Inr_iff ok_or_Inr_iff ensure_Inr_iff sum.inject
    by (elim exE conjE) (rule that [rotated 5], erule sym, assumption, assumption, assumption, assumption, simp)
  have e: "e = unat (hd_object_heap_base h) + length object_bytes" using s(3) by (simp add: usize_checked_add_def split: if_splits)
  show "snapshot_ok lim s" using s(5) by (simp add: validate_snapshot_ok)
  show "snapshot_typed s" using s(6) assms(2) from_utf8_Some [OF s(1)] by (simp add: snapshot_typed_def)
  show "expects ex s" using s(2,4,6) e assms(3) by (simp add: expects_def check_expectations_def require_eq_def)
qed

lemma decode_snapshot_accepts:
  assumes "decode_snapshot sha bytes lim ex = Inr s"
  shows "length bytes \<le> unat (max_total_bytes lim) \<and> snapshot_typed s \<and> snapshot_ok lim s \<and> expects ex s \<and>
     take 32 (drop 16 bytes) = digest_with_zeroed_content_hash sha bytes"
proof -
  have le: "\<not> length bytes > unat (max_total_bytes lim)"
    using assms by (cases "length bytes > unat (max_total_bytes lim)") (simp_all add: decode_snapshot_def)
  note a = assms [unfolded decode_snapshot_def if_not_P [OF le]]
  obtain header where header: "get_range bytes 0 HEADER_BYTES = Some header"
    using a by (cases "get_range bytes 0 HEADER_BYTES") simp_all
  note b = a [unfolded header ok_or.simps bindr.simps]
  have magic: "\<not> take 8 header \<noteq> SNAPSHOT_MAGIC" using b by (cases "take 8 header = SNAPSHOT_MAGIC") simp_all
  note c = b [unfolded if_not_P [OF magic]]
  obtain h r where h: "read_header (digest_with_zeroed_content_hash sha bytes) (reader_new (drop 8 header)) = Inr (h, r)"
    using c by (cases "read_header (digest_with_zeroed_content_hash sha bytes) (reader_new (drop 8 header))") auto
  obtain u sections where "check_expectations h ex = Inr u" "decode_sections bytes sections h lim ex = Inr s"
    using c unfolding h bindr.simps prod.case bindr_Inr_iff by blast
  then have "check_expectations h ex = Inr ()" "decode_sections bytes sections h lim ex = Inr s" by simp_all
  note d = le [unfolded not_less] header h this
  have new: "rd_offset (reader_new (drop 8 header)) \<le> length (rd_bytes (reader_new (drop 8 header)))" by (simp add: reader_new_def)
  have sizes: "length (hd_bootstrap_hash h) = 32 \<and> length (hd_lowering_hash h) = 32 \<and>
     length (hd_semantic_abi_hash h) = 32 \<and> length (hd_native_abi_hash h) = 32"
    using read_header_sizes [unfolded read_from_def, rule_format, OF new d(3)] by blast
  have "header = take 220 bytes" using d(2) by (simp add: get_range_def snapshot_constants split: if_splits)
  then have "take 32 (drop 16 bytes) = digest_with_zeroed_content_hash sha bytes"
    using read_header_content [OF d(3)] by (simp add: drop_take)
  then show ?thesis using d(1) decode_sections_accepts [OF d(5) sizes d(4)] by blast
qed

section \<open>Indexing never fails\<close>

definition calm :: "SnapshotError + 'a \<Rightarrow> bool" where
  "calm r \<longleftrightarrow> r \<noteq> Inl SnapPanic"

definition calm_rd :: "'a sd \<Rightarrow> bool" where
  "calm_rd m \<longleftrightarrow> (\<forall>r. calm (m r))"

named_theorems calm_intros \<open>results that are not a panic\<close>

lemma calm_basic [calm_intros]:
  "calm (Inr x)" "calm (Inl (SnapMsg m))" "calm (Inl (SnapEndianTag b))" "calm (Inl (SnapGenerationTag b))"
  "calm (ok_or v (SnapMsg m))" "calm (ensure c (SnapMsg m))"
  by (auto simp: calm_def ensure_def) (cases v; simp)

lemma calm_require_eq [calm_intros]: "calm (require_eq name a b)"
  by (simp add: calm_def require_eq_def ensure_def)

lemma calm_bindr [calm_intros]: "calm r \<Longrightarrow> (\<And>x. r = Inr x \<Longrightarrow> calm (f x)) \<Longrightarrow> calm (bindr r f)"
  by (cases r) (auto simp: calm_def)

lemma calm_if [calm_intros]: "calm a \<Longrightarrow> calm b \<Longrightarrow> calm (if c then a else b)"
  by simp

lemma calm_prod [calm_intros]: "(\<And>a b. p = (a, b) \<Longrightarrow> calm (f a b)) \<Longrightarrow> calm (case p of (a, b) \<Rightarrow> f a b)"
  by (cases p) simp

lemma calm_prod2 [calm_intros]: "(\<And>a b. p = (a, b) \<Longrightarrow> calm (f a b r)) \<Longrightarrow> calm ((case p of (a, b) \<Rightarrow> f a b) r)"
  by (cases p) simp

lemma calm_fold: "(\<And>s x. x \<in> set xs \<Longrightarrow> calm (f s x)) \<Longrightarrow> calm (fold_res f s xs)"
proof (induction xs arbitrary: s)
  case (Cons x xs)
  then show ?case by (simp add: calm_bindr)
qed (simp add: calm_def)

lemma calm_rd_intros:
  "calm_rd (rd_ret x)" "calm_rd (rd_fail (SnapMsg m))" "calm_rd (rd_take snap_errs n)" "calm_rd snap_finish"
  by (auto simp: calm_rd_def calm_def rd_ret_def rd_fail_def rd_take_def snap_finish_def rd_finish_def split: option.split)

lemma calm_rd_then: "calm_rd m \<Longrightarrow> (\<And>x. calm_rd (f x)) \<Longrightarrow> calm_rd (rd_then m f)"
  by (auto simp: calm_rd_def calm_def rd_then_def split: sum.split)

lemma calm_rd_if: "calm_rd a \<Longrightarrow> calm_rd b \<Longrightarrow> calm_rd (if c then a else b)"
  by simp

lemma calm_rd_words:
  "calm_rd (rd_u8 snap_errs)" "calm_rd (rd_u16 snap_errs)" "calm_rd (rd_u32 snap_errs)" "calm_rd (rd_u64 snap_errs)"
  unfolding rd_u8_def rd_u16_def rd_u32_def rd_u64_def by (rule calm_rd_then; rule calm_rd_intros)+

lemma calm_rd_endian: "(\<And>e. calm_rd (f e)) \<Longrightarrow> calm_rd (case endian_decode raw of Inl e \<Rightarrow> rd_fail e | Inr e \<Rightarrow> f e)"
  by (auto simp: endian_decode_def calm_rd_def rd_fail_def calm_def)

lemmas calm_readers = calm_rd_then calm_rd_if calm_rd_endian calm_rd_intros calm_rd_words

lemma calm_run: "calm_rd m \<Longrightarrow> calm (m r)"
  by (simp add: calm_rd_def)

lemma calm_read_header: "calm_rd (read_header content)"
  unfolding read_header_def read_identity_def by (intro calm_readers)

lemma calm_read_dir_entry: "calm_rd (read_dir_entry prev)"
  unfolding read_dir_entry_def by (intro calm_readers)

lemma calm_validate: "calm (validate_snapshot s lim)"
proof -
  have h: "calm (validate_handle s e p h)" for e p h
    unfolding validate_handle_def by (intro calm_intros)
  have each: "calm (for_each_res f xs)" if "\<And>x. calm (f x)" for f :: "u8 list \<Rightarrow> SnapshotError + unit" and xs
    using that by (induction xs) (auto intro: calm_intros)
  show ?thesis
    unfolding validate_snapshot_def Let_def by (intro calm_intros calm_fold h each)
qed

lemma calm_decode_handles: "calm (decode_handles bytes m)"
proof -
  have "calm (generation_decode b)" for b by (simp add: generation_decode_def calm_def)
  then have "calm (decode_snapshot_handle hs e)" for hs e unfolding decode_snapshot_handle_def by (intro calm_intros)
  then show ?thesis unfolding decode_handles_def by (intro calm_intros calm_fold)
qed

definition in_file :: "u8 list \<Rightarrow> (u16 \<times> SnapSection) list \<Rightarrow> bool" where
  "in_file bytes sections \<longleftrightarrow> (\<forall>(sid, sec)\<in>set sections. ss_offset sec + ss_len sec \<le> length bytes)"

lemma decode_dir_entry_in_file:
  "decode_dir_entry sha bytes lim st entry = Inr st' \<Longrightarrow> in_file bytes (dir_sections st) \<Longrightarrow> in_file bytes (dir_sections st')"
  by (auto simp: decode_dir_entry_def in_file_def usize_checked_add_def dest!: get_range_SomeD split: if_splits)

lemma decode_directory_in_file: "decode_directory sha bytes lim = Inr sections \<Longrightarrow> in_file bytes sections"
proof -
  have "fold_res (decode_dir_entry sha bytes lim) st es = Inr st' \<Longrightarrow> in_file bytes (dir_sections st) \<Longrightarrow> in_file bytes (dir_sections st')" for st st' es
  proof (induction es arbitrary: st)
    case (Cons e es)
    then show ?case using decode_dir_entry_in_file by fastforce
  qed simp
  note fold = this
  assume "decode_directory sha bytes lim = Inr sections"
  then obtain st0 st es where "fold_res (decode_dir_entry sha bytes lim) st0 es = Inr st" "dir_sections st0 = []" "sections = dir_sections st"
    by (fastforce simp: decode_directory_def split: if_splits)
  then show ?thesis using fold by (simp add: in_file_def)
qed

lemma calm_section: "in_file bytes sections \<Longrightarrow> calm (snap_section bytes sections sid)"
proof (unfold snap_section_def, rule calm_bindr, rule calm_intros)
  fix sec assume "in_file bytes sections" "ok_or (map_of sections sid) (SnapMsg ''native snapshot required section is missing'') = Inr sec"
  then have "ss_offset sec + ss_len sec \<le> length bytes" by (auto simp: in_file_def dest!: map_of_SomeD)
  then show "calm (ok_or (get_range bytes (ss_offset sec) (ss_offset sec + ss_len sec)) SnapPanic)"
    by (simp add: get_range_def calm_def)
qed

lemma calm_decode_snapshot: "calm (decode_snapshot sha bytes lim ex)"
proof -
  have dir: "calm (decode_directory sha bytes lim)"
    unfolding decode_directory_def decode_dir_entry_def
    by (intro calm_intros calm_fold calm_run [OF calm_read_dir_entry])
  have secs: "calm (decode_sections bytes sections h lim ex)" if "in_file bytes sections" for sections h
    unfolding decode_sections_def Let_def
    by (intro calm_intros calm_section [OF that] calm_decode_handles calm_validate)
  show ?thesis
    unfolding decode_snapshot_def check_expectations_def
    by (intro calm_intros calm_run [OF calm_read_header] dir secs decode_directory_in_file)
qed

section \<open>Properties\<close>

text \<open>
  C34: Every snapshot that obeys the default limits is written, and the runtime it was taken for reads
  back exactly that snapshot, unless the file is larger than 256 MiB or the handle section is larger
  than 128 MiB: the two limits the writer does not check. SHA-256 gives 32 bytes.
\<close>

theorem snapshot_round_trip:
  assumes "snapshot_ok default_snapshot_limits s" and "snapshot_typed s" and "expects ex s" and "\<And>x. length (sha x) = 32"
  shows "\<exists>bytes. encode_snapshot sha s = Inr bytes \<and>
    decode_snapshot sha bytes default_snapshot_limits ex =
      (if length bytes > 256 * 1024 * 1024 then Inl (SnapMsg ''native snapshot exceeds total byte limit'')
       else if 13 * length (ns_handles s) > 128 * 1024 * 1024 then Inl (SnapMsg ''native snapshot section exceeds byte limit'')
       else Inr s)"
  using encode_snapshot_succeeds [OF assms(1)] decode_snapshot_written [where sha = sha, OF _ assms(2,4,3)] by blast

definition toy_snapshot :: "nat \<Rightarrow> NativeStartupSnapshot" where
  "toy_snapshot n = \<lparr>ns_bootstrap_hash = replicate 32 1, ns_lowering_hash = replicate 32 2, ns_semantic_abi_hash = replicate 32 3,
     ns_native_abi_hash = replicate 32 4, ns_target = [120, 56, 54], ns_endian = SnapLittle, ns_object_heap_base = 64,
     ns_object_heap_end = 128, ns_next_handle = of_nat n, ns_global_object = 7, ns_object_bytes = replicate 16 0,
     ns_handles = map (\<lambda>i. \<lparr>sh_handle = of_nat i, sh_address = 72, sh_generation = Young\<rparr>) [0..<n],
     ns_shape_table_bytes = [1, 2], ns_host_state_bytes = []\<rparr>"

definition toy_expectations :: SnapshotExpectations where
  "toy_expectations = \<lparr>ex_bootstrap_hash = replicate 32 1, ex_lowering_hash = replicate 32 2, ex_semantic_abi_hash = replicate 32 3,
     ex_native_abi_hash = replicate 32 4, ex_target = [120, 56, 54], ex_endian = SnapLittle, ex_object_heap_base = 64,
     ex_object_heap_capacity_end = 256\<rparr>"

lemma toy_snapshot_ok:
  assumes "n \<le> 16777216"
  shows "snapshot_ok default_snapshot_limits (toy_snapshot n)" "snapshot_typed (toy_snapshot n)" "expects toy_expectations (toy_snapshot n)"
proof -
  have u: "unat (of_nat n :: u64) = n" "i \<le> n \<Longrightarrow> unat (of_nat i :: u32) = i" for i
    using assms by (simp_all add: unat_u64_of_nat unat_u32_of_nat)
  have "sorted_wrt (<) (map (\<lambda>i. of_nat i :: u32) [0..<n])"
    by (simp add: sorted_wrt_iff_nth_less word_less_nat_alt u)
  then show "snapshot_ok default_snapshot_limits (toy_snapshot n)"
    using assms by (simp add: snapshot_ok_def toy_snapshot_def default_snapshot_limits_def as_bytes_ascii u comp_def)
  show "snapshot_typed (toy_snapshot n)" by (simp add: snapshot_typed_def toy_snapshot_def valid_str_def is_scalar_def)
  show "expects toy_expectations (toy_snapshot n)" by (simp add: expects_def toy_snapshot_def toy_expectations_def)
qed

theorem snapshot_round_trip_witness:
  "\<exists>bytes. encode_snapshot (\<lambda>_. replicate 32 9) (toy_snapshot 3) = Inr bytes \<and> length bytes = 540 \<and>
     decode_snapshot (\<lambda>_. replicate 32 9) bytes default_snapshot_limits toy_expectations = Inr (toy_snapshot 3)"
proof -
  have n: "(3 :: nat) \<le> 16777216" by simp
  obtain bytes where b: "encode_snapshot (\<lambda>_. replicate 32 9) (toy_snapshot 3) = Inr bytes"
    "decode_snapshot (\<lambda>_. replicate 32 9) bytes default_snapshot_limits toy_expectations =
      (if length bytes > 256 * 1024 * 1024 then Inl (SnapMsg ''native snapshot exceeds total byte limit'')
       else if 13 * length (ns_handles (toy_snapshot 3)) > 128 * 1024 * 1024 then Inl (SnapMsg ''native snapshot section exceeds byte limit'')
       else Inr (toy_snapshot 3))"
    using snapshot_round_trip [OF toy_snapshot_ok [OF n], of "\<lambda>_. replicate 32 9"] by auto
  have "length (payload_bytes (toy_snapshot 3)) = 60"
    by (simp add: payload_bytes_def length_handle_section toy_snapshot_def as_bytes_ascii)
  then have "length bytes = 540" using written_length [where sha = "\<lambda>_. replicate 32 9", OF b(1) toy_snapshot_ok(2) [OF n]] by simp
  moreover have "length (ns_handles (toy_snapshot 3)) = 3" by (simp add: toy_snapshot_def)
  ultimately show ?thesis using b by simp
qed

text \<open>
  C36: Whatever bytes it is given, the reader does not index out of bounds. A snapshot it accepts obeys
  the limits it was called with, has strictly ascending handles whose aligned addresses lie in the
  captured objects, was taken for this runtime and fits its heap, and comes from a file whose stored
  content hash is that of its bytes.
\<close>

theorem accepted_snapshot_is_valid:
  "case decode_snapshot sha bytes lim ex of
     Inl e \<Rightarrow> e \<noteq> SnapPanic
   | Inr s \<Rightarrow> length bytes \<le> unat (max_total_bytes lim) \<and> snapshot_typed s \<and> snapshot_ok lim s \<and> expects ex s \<and>
       take 32 (drop 16 bytes) = digest_with_zeroed_content_hash sha bytes"
proof (cases "decode_snapshot sha bytes lim ex")
  case (Inl e)
  then show ?thesis using calm_decode_snapshot [of sha bytes lim ex] by (simp add: calm_def)
next
  case (Inr s)
  then show ?thesis using decode_snapshot_accepts by simp
qed

text \<open>
  The writer accepts a snapshot with 10400000 handles, within its own limit of 16 Mi handles, and
  writes a file that the reader refuses under the same default limits: its handle section is larger
  than the limit of a section.
\<close>

theorem written_snapshot_is_refused:
  assumes "\<And>x. length (sha x) = 32"
  shows "\<exists>bytes. encode_snapshot sha (toy_snapshot 10400000) = Inr bytes \<and>
    (\<exists>e. decode_snapshot sha bytes default_snapshot_limits toy_expectations = Inl e)"
proof -
  have n: "(10400000 :: nat) \<le> 16777216" by simp
  have len: "length (ns_handles (toy_snapshot n)) = n" for n by (simp add: toy_snapshot_def)
  obtain bytes where b: "encode_snapshot sha (toy_snapshot 10400000) = Inr bytes"
    using encode_snapshot_succeeds [OF toy_snapshot_ok(1) [OF n]] by blast
  show ?thesis
    using b decode_snapshot_written [where sha = sha, OF b toy_snapshot_ok(2) [OF n] assms toy_snapshot_ok(3) [OF n]]
    unfolding len by auto
qed

theorem written_snapshot_is_refused_witness:
  "\<exists>bytes. encode_snapshot (\<lambda>_. replicate 32 9) (toy_snapshot 10400000) = Inr bytes \<and>
    (\<exists>e. decode_snapshot (\<lambda>_. replicate 32 9) bytes default_snapshot_limits toy_expectations = Inl e)"
  by (rule written_snapshot_is_refused) simp

end
