(* ===== verification/Value_Class.thy ===== *)
theory Value_Class
  imports IR_Module Variable_Ssa "HOL-Library.List_Lexorder"
begin

text \<open>
  The classes of values (\<open>wjsm-ir/src/value_class.rs\<close>): which SSA values of a function are always
  Numbers, and which of those are small integers. Hash sets are sets; the loops that run until
  nothing changes are \<open>until_stable\<close>, whose value is \<open>None\<close> when they do not end. The ordered set of
  names is handed to the SSA view in ascending order.
\<close>

partial_function (option) until_stable :: "('s \<Rightarrow> 's \<times> bool) \<Rightarrow> 's \<Rightarrow> 's option" where
  \<comment> \<open>\<open>let mut changed = true; while changed { changed = false; ... }\<close>\<close>
  "until_stable pass s = (case pass s of (s', changed) \<Rightarrow> if changed then until_stable pass s' else Some s')"

declare until_stable.simps [code]

section \<open>Names and seeds\<close>

definition module_binding :: "Function \<Rightarrow> rstr \<Rightarrow> bool" where
  "module_binding fn n \<longleftrightarrow> starts_with n (lit ''$0.'') \<and> n \<notin> set (fn_captured_names fn) \<and>
     n \<notin> {lit ''$0.$global'', lit ''$0.$shared_env''}"

definition ssa_variable_names :: "Function \<Rightarrow> rstr set \<Rightarrow> rstr set" where
  "ssa_variable_names fn frame_locals =
     frame_locals \<union> (Set.filter (module_binding fn) (loaded_names fn) \<inter> Set.filter (module_binding fn) (store_names fn))"

record ValueClassSet =
  vc_numbers :: "ValueId set"
  vc_int32s :: "ValueId set"

definition cannot_throw :: "ValueClassSet \<Rightarrow> ValueId \<Rightarrow> bool" where
  "cannot_throw classes v \<longleftrightarrow> v \<in> vc_numbers classes \<or> v \<in> vc_int32s classes"

record FunctionSeeds =
  param_is_number :: "bool list"
  extra_numbers :: "ValueId set"

definition no_seeds :: FunctionSeeds where
  "no_seeds = \<lparr>param_is_number = [], extra_numbers = {}\<rparr>"

section \<open>Numbers\<close>

fun number_binary :: "BinaryOp \<Rightarrow> bool" where
  "number_binary op \<longleftrightarrow> op \<in> {Add, Sub, Mul, Div, Mod, Exp, BitAnd, BitOr, BitXor, Shl, Shr, UShr}"

definition number_dest_shape :: "Module \<Rightarrow> Instruction \<Rightarrow> ValueId option" where
  "number_dest_shape m i =
     (case i of
        Const d c \<Rightarrow> (case get_at (mod_constants m) (cix c) of Some (Number _) \<Rightarrow> Some d | _ \<Rightarrow> None)
      | LoadVar d _ \<Rightarrow> Some d
      | Phi d _ \<Rightarrow> Some d
      | Unary d op _ \<Rightarrow> if op = Neg \<or> op = Pos then Some d else None
      | Binary d op _ _ \<Rightarrow> if number_binary op then Some d else None
      | _ \<Rightarrow> None)"

fun definition_is_number :: "ValueId set \<Rightarrow> u32 set \<Rightarrow> bool \<Rightarrow> VarDef \<Rightarrow> bool" where
  "definition_is_number numbers number_phis entry_is_number (VarValue v) \<longleftrightarrow> v \<in> numbers"
| "definition_is_number numbers number_phis entry_is_number (VarPhi q) \<longleftrightarrow> q \<in> number_phis"
| "definition_is_number numbers number_phis entry_is_number VarEntry \<longleftrightarrow> entry_is_number"

record number_facts =
  \<comment> \<open>the inputs of the analysis that its loop does not change\<close>
  nf_variables :: VariableSsa
  nf_parameters :: "rstr set"
  nf_modified :: "rstr set"
  nf_extra :: "ValueId set"

definition load_holds :: "number_facts \<Rightarrow> ValueId set \<Rightarrow> u32 set \<Rightarrow> ValueId \<Rightarrow> rstr \<Rightarrow> bool" where
  "load_holds facts numbers number_phis d n \<longleftrightarrow>
     d \<in> nf_extra facts \<or>
     (case load_definition (nf_variables facts) d of
        Some definition \<Rightarrow> definition_is_number numbers number_phis (n \<in> nf_parameters facts) definition
      | None \<Rightarrow> n \<in> nf_parameters facts \<and> n \<notin> nf_modified facts)"

definition number_holds :: "number_facts \<Rightarrow> ValueId set \<Rightarrow> u32 set \<Rightarrow> Instruction \<Rightarrow> bool" where
  "number_holds facts numbers number_phis i =
     (case i of
        Const _ _ \<Rightarrow> True
      | LoadVar d n \<Rightarrow> load_holds facts numbers number_phis d n
      | Binary _ _ l r \<Rightarrow> (l \<in> numbers \<and> r \<in> numbers) \<or> (l \<in> nf_extra facts \<and> r \<in> nf_extra facts)
      | Unary _ _ v \<Rightarrow> v \<in> nf_extra facts \<or> v \<in> numbers
      | Phi d sources \<Rightarrow> d \<in> nf_extra facts \<or> (sources \<noteq> [] \<and> list_all (\<lambda>s. phi_value s \<in> numbers) sources)
      | _ \<Rightarrow> False)"

definition doomed_phi :: "number_facts \<Rightarrow> ValueId set \<Rightarrow> u32 set \<Rightarrow> u32 \<Rightarrow> bool" where
  "doomed_phi facts numbers number_phis q \<longleftrightarrow>
     (let sources = phi_sources (nf_variables facts) q;
          entry_is_number = (case phi_variable (nf_variables facts) q of None \<Rightarrow> False | Some n \<Rightarrow> n \<in> nf_parameters facts)
      in sources = [] \<or> \<not> list_all (definition_is_number numbers number_phis entry_is_number) sources)"

definition number_visit ::
  "Module \<Rightarrow> number_facts \<Rightarrow> u32 set \<Rightarrow> Instruction \<Rightarrow> ValueId set \<times> bool \<Rightarrow> ValueId set \<times> bool" where
  "number_visit m facts number_phis i = (\<lambda>(numbers, changed).
     case number_dest_shape m i of
       None \<Rightarrow> (numbers, changed)
     | Some d \<Rightarrow>
         if \<not> number_holds facts numbers number_phis i \<and> d \<in> numbers then (numbers - {d}, True)
         else (numbers, changed))"

definition number_pass ::
  "Module \<Rightarrow> Function \<Rightarrow> number_facts \<Rightarrow> ValueId set \<times> u32 set \<Rightarrow> (ValueId set \<times> u32 set) \<times> bool" where
  "number_pass m fn facts = (\<lambda>(numbers, number_phis).
     let doomed = Set.filter (doomed_phi facts numbers number_phis) number_phis;
         number_phis = number_phis - doomed;
         (numbers, changed) = fold (number_visit m facts number_phis) (fn_instructions fn) (numbers, doomed \<noteq> {})
     in ((numbers, number_phis), changed))"

section \<open>Small integers\<close>

definition f64_truncated :: "u64 \<Rightarrow> int" where
  \<comment> \<open>a finite number rounded towards zero: the mantissa shifted by the exponent, with the sign\<close>
  "f64_truncated x =
     (let e = unat (drop_bit 52 x AND 0x7FF);
          f = unat (x AND 0x000FFFFFFFFFFFFF);
          mant = (if e = 0 then f else f + 2 ^ 52);
          scale = (if e = 0 then 1 else e);
          magnitude = (if scale \<ge> 1075 then mant * 2 ^ (scale - 1075) else mant div 2 ^ (1075 - scale))
      in if bit x 63 then - int magnitude else int magnitude)"

definition f64_is_integral :: "u64 \<Rightarrow> bool" where
  \<comment> \<open>a finite number without a fractional part\<close>
  "f64_is_integral x =
     (let e = unat (drop_bit 52 x AND 0x7FF);
          f = unat (x AND 0x000FFFFFFFFFFFFF);
          mant = (if e = 0 then f else f + 2 ^ 52);
          scale = (if e = 0 then 1 else e)
      in scale \<ge> 1075 \<or> mant mod 2 ^ (1075 - scale) = 0)"

definition is_int32_number :: "f64 \<Rightarrow> bool" where
  \<comment> \<open>\<open>value as i32\<close> saturates; the conversion back is exact, so the comparison holds for the
      integers in the range\<close>
  "is_int32_number v =
     (let x = f64_bits v
      in if drop_bit 52 x AND 0x7FF = 0x7FF \<or> x = push_bit 63 1 then False
         else f64_is_integral x \<and> - (2 ^ 31) \<le> f64_truncated x \<and> f64_truncated x < 2 ^ 31)"

definition number_var_names :: "Function \<Rightarrow> ValueId set \<Rightarrow> rstr set" where
  "number_var_names fn numbers =
     Set.filter (\<lambda>n. list_all (\<lambda>i. case i of StoreVar n' v \<Rightarrow> n' = n \<longrightarrow> v \<in> numbers | _ \<Rightarrow> True) (fn_instructions fn))
       (store_names fn)"

definition int32_constants :: "Module \<Rightarrow> Function \<Rightarrow> ValueId set \<Rightarrow> ValueId set" where
  "int32_constants m fn numbers =
     set (List.map_filter (\<lambda>i. case i of
         Const d c \<Rightarrow>
           (case get_at (mod_constants m) (cix c) of
              Some (Number v) \<Rightarrow> if d \<in> numbers \<and> is_int32_number v then Some d else None
            | _ \<Rightarrow> None)
       | _ \<Rightarrow> None) (fn_instructions fn))"

definition int32_dest ::
  "rstr set \<Rightarrow> ValueId set \<Rightarrow> rstr set \<Rightarrow> ValueId set \<Rightarrow> Instruction \<Rightarrow> ValueId option" where
  "int32_dest ssa_names numbers name_int32s int32s i =
     (case i of
        LoadVar d n \<Rightarrow> if d \<in> numbers \<and> n \<in> ssa_names \<and> n \<in> name_int32s then Some d else None
      | Binary d op l r \<Rightarrow>
          if (op = Add \<or> op = Sub \<or> op = Mul) \<and> d \<in> numbers \<and> l \<in> int32s \<and> r \<in> int32s then Some d else None
      | Unary d op v \<Rightarrow> if (op = Neg \<or> op = Pos) \<and> d \<in> numbers \<and> v \<in> int32s then Some d else None
      | Phi d sources \<Rightarrow>
          if d \<in> numbers \<and> sources \<noteq> [] \<and> list_all (\<lambda>s. phi_value s \<in> int32s) sources then Some d else None
      | _ \<Rightarrow> None)"

definition int32_visit ::
  "rstr set \<Rightarrow> ValueId set \<Rightarrow> rstr set \<Rightarrow> Instruction \<Rightarrow> ValueId set \<times> bool \<Rightarrow> ValueId set \<times> bool" where
  "int32_visit ssa_names numbers name_int32s i = (\<lambda>(int32s, changed).
     case int32_dest ssa_names numbers name_int32s int32s i of
       None \<Rightarrow> (int32s, changed)
     | Some d \<Rightarrow> (insert d int32s, changed \<or> d \<notin> int32s))"

definition int32_pass ::
  "Function \<Rightarrow> rstr set \<Rightarrow> ValueId set \<Rightarrow> ValueId set \<times> rstr set \<Rightarrow> (ValueId set \<times> rstr set) \<times> bool" where
  "int32_pass fn ssa_names numbers = (\<lambda>(int32s, name_int32s).
     let (int32s, changed) = fold (int32_visit ssa_names numbers name_int32s) (fn_instructions fn) (int32s, False);
         next_names = number_var_names fn int32s
     in ((int32s, next_names), changed \<or> next_names \<noteq> name_int32s))"

definition infer_int32 :: "Module \<Rightarrow> Function \<Rightarrow> rstr set \<Rightarrow> ValueId set \<Rightarrow> ValueId set option" where
  "infer_int32 m fn ssa_names numbers =
     (let int32s = int32_constants m fn numbers
      in map_option fst (until_stable (int32_pass fn ssa_names numbers) (int32s, number_var_names fn int32s)))"

section \<open>A function, a program\<close>

definition number_parameters :: "Function \<Rightarrow> bool list \<Rightarrow> rstr set" where
  \<comment> \<open>the names of the promised parameters; the first two are the environment and \<open>this\<close>\<close>
  "number_parameters fn flags = set (map fst (filter snd (zip (drop 2 (fn_params fn)) flags)))"

definition analyze :: "Module \<Rightarrow> Function \<Rightarrow> VariableSsa \<Rightarrow> rstr set \<Rightarrow> bool list \<Rightarrow> ValueId set \<Rightarrow> ValueClassSet option" where
  "analyze m fn variables ssa_names f64_params extra =
     (let parameters = number_parameters fn f64_params;
          facts = \<lparr>nf_variables = variables, nf_parameters = parameters,
                   nf_modified = Set.filter (\<lambda>n. n \<in> parameters) (store_names fn), nf_extra = extra\<rparr>;
          numbers = extra \<union> set (List.map_filter (number_dest_shape m) (fn_instructions fn))
      in if phi_count variables \<ge> 2 ^ 32 then None
         else Option.bind (until_stable (number_pass m fn facts) (numbers, set (map of_nat [0..<phi_count variables])))
           (\<lambda>(numbers, _). map_option (\<lambda>int32s. \<lparr>vc_numbers = numbers, vc_int32s = int32s\<rparr>)
              (infer_int32 m fn ssa_names numbers)))"

definition param_flags :: "Function \<Rightarrow> bool list \<Rightarrow> bool list" where
  \<comment> \<open>the promises of the seeds for the parameters there are\<close>
  "param_flags fn promises =
     map (\<lambda>k. case get_at promises k of None \<Rightarrow> False | Some flag \<Rightarrow> flag) [0..<length (fn_params fn) - 2]"

definition infer_function :: "Module \<Rightarrow> Function \<Rightarrow> rstr set \<Rightarrow> FunctionSeeds \<Rightarrow> ValueClassSet option" where
  "infer_function m fn frame_locals seeds =
     (let ssa_names = ssa_variable_names fn frame_locals; flags = param_flags fn (param_is_number seeds)
      in Option.bind (variable_ssa_build fn (sorted_list_of_set ssa_names)) (\<lambda>variables.
         analyze m fn variables ssa_names flags (extra_numbers seeds)))"

definition infer_program_with_seeds :: "Module \<Rightarrow> (u32 \<Rightarrow> FunctionSeeds option) \<Rightarrow> ValueClassSet list option" where
  \<comment> \<open>the classes of the functions in order\<close>
  "infer_program_with_seeds m seeds =
     those (map (\<lambda>(index, fn). infer_function m fn (module_frame_local_variable_names m index)
       (case seeds (of_nat index) of None \<Rightarrow> no_seeds | Some s \<Rightarrow> s)) (enumerate 0 (mod_functions m)))"

definition infer_program :: "Module \<Rightarrow> ValueClassSet list option" where
  "infer_program m = infer_program_with_seeds m Map.empty"

end
