(* ===== verification/Js_Exec.thy ===== *)
theory Js_Exec
  imports IR_Module Ssa_Correct
begin

text \<open>
  Executions that the analyses of value classes rely on. A value is a Number, an object, an
  exception, a boolean or anything else; an instruction does what the passes take for granted about
  it: arithmetic on Numbers gives a Number, a comparison of Numbers a boolean, creating an object or a
  closure does not throw, a branch follows its condition. Everything else an instruction may do is
  left open.
\<close>

record 'v js =
  js_num :: "'v \<Rightarrow> bool"
  js_exc :: "'v \<Rightarrow> bool"
  js_obj :: "'v \<Rightarrow> bool"
  js_bool :: "bool \<Rightarrow> 'v"
  js_cmp :: "CompareOp \<Rightarrow> 'v \<Rightarrow> 'v \<Rightarrow> bool"

definition js_ok :: "'v js \<Rightarrow> bool" where
  \<comment> \<open>there are Numbers and objects; they and the booleans are not exceptions; true is not false\<close>
  "js_ok J \<longleftrightarrow> (\<exists>x. js_num J x) \<and> (\<exists>x. js_obj J x) \<and> (\<forall>x. js_num J x \<or> js_obj J x \<longrightarrow> \<not> js_exc J x) \<and>
     (\<forall>b. \<not> js_exc J (js_bool J b)) \<and> js_bool J True \<noteq> js_bool J False"

definition ABSTRACT_COMPARE :: Builtin where
  "ABSTRACT_COMPARE = Builtin 24"

definition CREATE_CLOSURE :: Builtin where
  "CREATE_CLOSURE = Builtin 41"

definition IS_JS_OBJECT :: Builtin where
  "IS_JS_OBJECT = Builtin 178"

definition IS_STRING :: Builtin where
  "IS_STRING = Builtin 452"

lemma builtins_differ:
  "ABSTRACT_COMPARE \<noteq> CREATE_CLOSURE" "ABSTRACT_COMPARE \<noteq> IS_JS_OBJECT" "IS_JS_OBJECT \<noteq> CREATE_CLOSURE"
  by (simp_all add: ABSTRACT_COMPARE_def CREATE_CLOSURE_def IS_JS_OBJECT_def)

fun comparison :: "bool \<Rightarrow> bool \<Rightarrow> CompareOp" where
  \<comment> \<open>what the flags \<open>reverse\<close> and \<open>invert\<close> of the builtin mean\<close>
  "comparison False False = Lt"
| "comparison True False = Gt"
| "comparison True True = LtEq"
| "comparison False True = GtEq"

definition builtin_result :: "'v js \<Rightarrow> ValueId option \<Rightarrow> Builtin \<Rightarrow> ValueId list \<Rightarrow> 'v value_env \<Rightarrow> 'v value_env \<Rightarrow> bool" where
  "builtin_result J d b args env env' \<longleftrightarrow>
     (\<forall>e l r reverse invert x y. d = Some e \<and> b = ABSTRACT_COMPARE \<and> args = [l, r, reverse, invert] \<and>
        js_num J (env l) \<and> js_num J (env r) \<and> env reverse = js_bool J x \<and> env invert = js_bool J y \<longrightarrow>
        env' e = js_bool J (js_cmp J (comparison x y) (env l) (env r))) \<and>
     (\<forall>e. d = Some e \<and> b = CREATE_CLOSURE \<longrightarrow> \<not> js_exc J (env' e)) \<and>
     (\<forall>e v. d = Some e \<and> b = IS_JS_OBJECT \<and> args = [v] \<longrightarrow> env' e = js_bool J (js_obj J (env v)))"

definition js_result ::
  "'v js \<Rightarrow> Module \<Rightarrow> BasicBlockId option \<Rightarrow> 'v value_env \<Rightarrow> Instruction \<Rightarrow> 'v value_env \<Rightarrow> 'v value_env \<Rightarrow> bool" where
  \<comment> \<open>a phi node takes the value its source had when the block was entered from \<open>prev\<close>\<close>
  "js_result J m prev ent i env env' \<longleftrightarrow>
     (case i of
        Const d c \<Rightarrow>
          (case get_at (mod_constants m) (cix c) of
             Some (Number _) \<Rightarrow> js_num J (env' d)
           | Some (Bool b) \<Rightarrow> env' d = js_bool J b
           | _ \<Rightarrow> \<not> js_exc J (env' d))
      | Binary d _ l r \<Rightarrow> js_num J (env l) \<and> js_num J (env r) \<longrightarrow> js_num J (env' d)
      | Unary d op v \<Rightarrow> (op = Neg \<or> op = Pos) \<and> js_num J (env v) \<longrightarrow> js_num J (env' d)
      | Compare d op l r \<Rightarrow>
          if is_relational op
          then js_num J (env l) \<and> js_num J (env r) \<longrightarrow> env' d = js_bool J (js_cmp J op (env l) (env r))
          else \<not> js_exc J (env' d)
      | Phi d sources \<Rightarrow> \<forall>s\<in>set sources. prev = Some (phi_predecessor s) \<longrightarrow> env' d = ent (phi_value s)
      | IsException d v \<Rightarrow> env' d = js_bool J (js_exc J (env v))
      | NewObject d _ \<Rightarrow> js_obj J (env' d)
      | InitObjectLiteral d _ _ \<Rightarrow> js_obj J (env' d)
      | NewArray d _ \<Rightarrow> \<not> js_exc J (env' d)
      | CallBuiltin d b args \<Rightarrow> builtin_result J d b args env env'
      | _ \<Rightarrow> True)"

definition js_edge :: "'v js \<Rightarrow> Function \<Rightarrow> 'v value_env \<Rightarrow> BasicBlockId \<Rightarrow> BasicBlockId \<Rightarrow> bool" where
  "js_edge J fn env b c \<longleftrightarrow> (b, c) \<in> flow_edge fn \<and>
     (case blk_terminator (fn_blocks fn ! bix b) of
        Branch cond t f \<Rightarrow> (env cond = js_bool J True \<longrightarrow> c = t) \<and> (env cond = js_bool J False \<longrightarrow> c = f)
      | _ \<Rightarrow> True)"

text \<open>
  A state: where the execution came from, the block and the next instruction, the values assigned so
  far, their contents when the block was entered, their contents now, and the variables. \<open>names\<close> are
  the variables only this frame writes; the values \<open>extra\<close> are promised to be Numbers.
\<close>

inductive js_exec ::
  "'v js \<Rightarrow> Module \<Rightarrow> Function \<Rightarrow> rstr set \<Rightarrow> ValueId set \<Rightarrow> 'v variable_env \<Rightarrow>
   BasicBlockId option \<Rightarrow> BasicBlockId \<Rightarrow> nat \<Rightarrow> ValueId set \<Rightarrow> 'v value_env \<Rightarrow> 'v value_env \<Rightarrow> 'v variable_env \<Rightarrow> bool"
  for J m fn names extra initial where
  js_enter: "js_exec J m fn names extra initial None (fn_entry fn) 0 {} env env initial"
| js_step: "js_exec J m fn names extra initial prev b i S ent env vars \<Longrightarrow> i < length (code_of fn b) \<Longrightarrow>
    effect names (code_of fn b ! i) env vars env' vars' \<Longrightarrow> js_result J m prev ent (code_of fn b ! i) env env' \<Longrightarrow>
    \<forall>d\<in>extra. dest (code_of fn b ! i) = Some d \<longrightarrow> js_num J (env' d) \<Longrightarrow>
    js_exec J m fn names extra initial prev b (Suc i) (S \<union> set_option (dest (code_of fn b ! i))) ent env' vars'"
| js_follow: "js_exec J m fn names extra initial prev b i S ent env vars \<Longrightarrow> i = length (code_of fn b) \<Longrightarrow>
    js_edge J fn env b c \<Longrightarrow> js_exec J m fn names extra initial (Some b) c 0 S env env vars"

section \<open>Executions follow the control flow\<close>

lemma js_exec_reaches:
  assumes wf: "wf_function m' fn" and run: "js_exec J m fn names extra initial prev b i S ent env vars"
  shows "reaches fn prev b i S \<and> bix b < length (fn_blocks fn) \<and> i \<le> length (code_of fn b)"
  using run
proof (induction rule: js_exec.induct)
  case (js_enter env)
  then show ?case using reaches.enter wf_blocks(3) [OF wf] by simp
next
  case (js_step prev b i S ent env vars env' vars')
  then have b: "block_by_id fn b = Some (fn_blocks fn ! bix b)" by (simp add: block_by_id_def get_at_def)
  show ?case using reaches.advance [OF _ b, of prev i S] js_step by simp
next
  case (js_follow prev b i S ent env vars c)
  then have b: "block_by_id fn b = Some (fn_blocks fn ! bix b)" by (simp add: block_by_id_def get_at_def)
  have edge: "(b, c) \<in> flow_edge fn" using js_follow.hyps(3) by (simp add: js_edge_def)
  have r: "reaches fn (Some b) c 0 S" by (rule reaches.follow [of fn prev b i, OF _ b _ edge]) (use js_follow in simp_all)
  have "block_by_id fn c \<noteq> None" by (rule exec_safe(1) [OF wf r])
  then show ?case using r by (simp only: entry_check_iff) simp
qed

lemma read_assigned:
  \<comment> \<open>an operand of an instruction that is not a phi has been assigned\<close>
  assumes wf: "wf_function m' fn" and r: "reaches fn prev b i S" and b: "bix b < length (fn_blocks fn)"
    and i: "i < length (code_of fn b)" "\<not> is_phi (code_of fn b ! i)" "v \<in> set (uses (code_of fn b ! i))"
  shows "v \<in> S"
proof -
  have blk: "block_by_id fn b = Some (fn_blocks fn ! bix b)" using b by (simp add: block_by_id_def get_at_def)
  have "v \<in> value_reads fn prev b i"
    using i blk by (cases "code_of fn b ! i") (simp_all add: value_reads_def)
  then show ?thesis using exec_safe(2) [OF wf r] by blast
qed

lemma terminator_read_assigned:
  assumes wf: "wf_function m' fn" and r: "reaches fn prev b i S" and b: "bix b < length (fn_blocks fn)"
    and i: "i = length (code_of fn b)" and v: "v \<in> set (terminator_uses (blk_terminator (fn_blocks fn ! bix b)))"
  shows "v \<in> S"
proof -
  have "block_by_id fn b = Some (fn_blocks fn ! bix b)" using b by (simp add: block_by_id_def get_at_def)
  then have "v \<in> value_reads fn prev b i" using i v by (simp add: value_reads_def)
  then show ?thesis using exec_safe(2) [OF wf r] by blast
qed

lemma phi_read_assigned:
  \<comment> \<open>the source of a phi node for the edge taken was assigned before the block was entered\<close>
  assumes wf: "wf_function m' fn" and r: "reaches fn prev b 0 S" and b: "bix b < length (fn_blocks fn)"
    and i: "i < length (code_of fn b)" "code_of fn b ! i = Phi d sources"
    and s: "s \<in> set sources" "prev = Some (phi_predecessor s)"
  shows "phi_value s \<in> S"
proof -
  have blocks: "\<forall>k < length (fn_blocks fn). block_wf m' fn k (fn_blocks fn ! k)"
    and uses: "\<forall>b\<in>set (fn_blocks fn). uses_ok fn b" using wf by (auto simp: wf_function_def)
  obtain p where p: "flow_walk fn (fn_entry fn) p (phi_predecessor s)"
    "\<forall>v D j. defined_at fn v D j \<longrightarrow> D \<in> set p \<or> D = b \<and> j < 0 \<longrightarrow> v \<in> S"
    using exec_inv_reaches [OF blocks r] s(2) unfolding exec_inv_def by auto
  have "uses_ok fn (fn_blocks fn ! bix b)" using uses b by simp
  then have "instruction_wf fn (fn_blocks fn ! bix b) i (Phi d sources)" using i by (force simp: uses_ok_def)
  then have "use_ok fn (phi_value s) (phi_predecessor s) None" using s(1) by (simp add: instruction_wf_def phi_ok_def)
  then obtain D j where d: "defined_at fn (phi_value s) D j" "on_every_path fn D (phi_predecessor s)"
    unfolding use_ok_def by blast
  then have "D \<in> set p" using p(1) by (simp add: on_every_path_def)
  then show ?thesis using d(1) p(2) by blast
qed

lemma phi_source_taken:
  assumes wf: "wf_function m' fn" and r: "reaches fn prev b i S" and b: "bix b < length (fn_blocks fn)"
    and i: "i < length (code_of fn b)" "code_of fn b ! i = Phi d sources"
  obtains s where "s \<in> set sources" "prev = Some (phi_predecessor s)"
proof -
  have "block_by_id fn b = Some (fn_blocks fn ! bix b)" using b by (simp add: block_by_id_def get_at_def)
  from exec_safe(3) [OF wf r this, of d sources] i that show ?thesis by auto
qed

lemma entry_has_no_edge_check:
  "list_all (\<lambda>b. fn_entry fn \<notin> set (terminator_successors (blk_terminator b))) (fn_blocks fn) \<Longrightarrow> entry_has_no_edge fn"
  by (auto simp: entry_has_no_edge_def flow_edge_def list_all_length)

section \<open>Executions do not get stuck\<close>

definition small_js :: "nat js" where
  \<comment> \<open>booleans 0 and 1, an exception 2, the Number 3, and objects from 4\<close>
  "small_js = \<lparr>js_num = \<lambda>x. x = 3, js_exc = \<lambda>x. x = 2, js_obj = \<lambda>x. 4 \<le> x, js_bool = \<lambda>b. if b then 1 else 0, js_cmp = \<lambda>op x y. x < y\<rparr>"

lemma small_js_ok: "js_ok small_js"
  by (auto simp: js_ok_def small_js_def intro: exI [of _ 4])

lemma result_exists:
  \<comment> \<open>some value is a result of the instruction\<close>
  assumes J: "js_ok J" and d: "dest i = Some d"
    and load: "\<And>n. i \<noteq> LoadVar d n" and phi: "\<And>sources. i \<noteq> Phi d sources"
  shows "\<exists>x. js_result J m prev ent i env (env(d := x))"
proof -
  obtain x where x: "js_num J x" using J by (auto simp: js_ok_def)
  obtain y where y: "js_obj J y" using J by (auto simp: js_ok_def)
  have ok: "\<not> js_exc J x" "\<not> js_exc J (js_bool J b)" for b using J x by (auto simp: js_ok_def)
  show ?thesis
  proof (cases i)
    case (Const d' c)
    let ?c = "get_at (mod_constants m) (cix c)"
    have "js_result J m prev ent i env (env(d := case ?c of Some (Bool b) \<Rightarrow> js_bool J b | _ \<Rightarrow> x))"
      using Const d x ok(1) by (cases ?c) (auto simp: js_result_def dest_def split: Constant.splits)
    then show ?thesis by blast
  next
    case (Compare d' op l r)
    have "js_result J m prev ent i env (env(d := js_bool J (js_cmp J op (env l) (env r))))"
      using Compare d ok(2) by (simp add: js_result_def dest_def)
    then show ?thesis by blast
  next
    case (IsException d' v)
    have "js_result J m prev ent i env (env(d := js_bool J (js_exc J (env v))))"
      using IsException d by (simp add: js_result_def dest_def)
    then show ?thesis by blast
  next
    case (CallBuiltin d' b args)
    let ?v = "js_bool J (if b = IS_JS_OBJECT then js_obj J (env (args ! 0))
      else js_cmp J (comparison (env (args ! 2) = js_bool J True) (env (args ! 3) = js_bool J True)) (env (args ! 0)) (env (args ! 1)))"
    have inj: "js_bool J y = js_bool J True \<longleftrightarrow> y" for y using J by (cases y) (auto simp: js_ok_def)
    have "js_result J m prev ent i env (env(d := ?v))"
      using CallBuiltin d builtins_differ ok(2) by (auto simp: js_result_def dest_def builtin_result_def inj)
    then show ?thesis by blast
  next
    case (Phi d' sources)
    then have "i = Phi d sources" using d by (simp add: dest_def)
    then show ?thesis using phi by blast
  next
    case (NewObject d' n)
    then show ?thesis using y d by (auto simp: js_result_def dest_def)
  next
    case (InitObjectLiteral d' c vs)
    then show ?thesis using y d by (auto simp: js_result_def dest_def)
  qed (use x ok d in \<open>auto simp: js_result_def dest_def intro!: exI [of _ x]\<close>)
qed

lemma step_exists:
  \<comment> \<open>an instruction of a verified function can be executed\<close>
  assumes wf: "wf_function m' fn" and J: "js_ok J" and r: "reaches fn prev b i S" and b: "bix b < length (fn_blocks fn)"
    and i: "i < length (code_of fn b)"
  shows "\<exists>env' vars'. effect names (code_of fn b ! i) env vars env' vars' \<and> js_result J m prev ent (code_of fn b ! i) env env'"
proof -
  let ?i = "code_of fn b ! i"
  consider (load) d n where "?i = LoadVar d n" | (store) n v where "?i = StoreVar n v" | (phi) d sources where "?i = Phi d sources"
    | (none) "dest ?i = None" "\<forall>n v. ?i \<noteq> StoreVar n v"
    | (other) d where "dest ?i = Some d" "\<forall>d n. ?i \<noteq> LoadVar d n" "\<forall>d ss. ?i \<noteq> Phi d ss"
    by (cases "dest ?i") blast+
  then show ?thesis
  proof cases
    case load
    then show ?thesis by (simp add: effect_def js_result_def)
  next
    case store
    then show ?thesis by (simp add: effect_def js_result_def)
  next
    case phi
    have blk: "block_by_id fn b = Some (fn_blocks fn ! bix b)" using b by (simp add: block_by_id_def get_at_def)
    obtain s where s: "\<forall>s'\<in>set sources. prev = Some (phi_predecessor s') \<longrightarrow> s' = s"
      using exec_safe(3) [OF wf r blk, of d sources] i phi by auto
    have "effect names ?i env vars (env(d := ent (phi_value s))) vars" using phi by (simp add: effect_def dest_def)
    moreover have "js_result J m prev ent ?i env (env(d := ent (phi_value s)))" using phi s by (auto simp: js_result_def)
    ultimately show ?thesis by blast
  next
    case none
    then have "effect names ?i env vars env vars" by (cases ?i) (simp_all add: effect_def dest_def)
    moreover have "js_result J m prev ent ?i env env"
      using none(1) by (cases ?i) (simp_all add: js_result_def dest_def builtin_result_def)
    ultimately show ?thesis by blast
  next
    case other
    obtain x where x: "js_result J m prev ent ?i env (env(d := x))"
      using result_exists [OF J other(1)] other(2,3) by blast
    have "\<forall>n v. ?i \<noteq> StoreVar n v" using other(1) by (auto simp: dest_def)
    then have "effect names ?i env vars (env(d := x)) vars"
      using other(1,2) by (cases ?i) (simp_all add: effect_def)
    then show ?thesis using x by blast
  qed
qed

lemma edge_exists:
  assumes wf: "wf_function m fn" and J: "js_ok J" and b: "bix b < length (fn_blocks fn)"
    and succ: "terminator_successors (blk_terminator (fn_blocks fn ! bix b)) \<noteq> []"
  shows "\<exists>c. js_edge J fn env b c"
proof -
  let ?t = "blk_terminator (fn_blocks fn ! bix b)"
  have edge: "(b, c) \<in> flow_edge fn" if "c \<in> set (terminator_successors ?t)" for c
    using that b wf by (auto simp: flow_edge_def wf_function_def block_wf_def)
  show ?thesis
  proof (cases "\<exists>cond t f. ?t = Branch cond t f")
    case True
    then obtain cond t f where t: "?t = Branch cond t f" by blast
    then have "(b, t) \<in> flow_edge fn" "(b, f) \<in> flow_edge fn" using edge by simp_all
    then have "js_edge J fn env b (if env cond = js_bool J True then t else f)" using t J by (auto simp: js_edge_def js_ok_def)
    then show ?thesis by blast
  next
    case False
    obtain c where "c \<in> set (terminator_successors ?t)" using succ by (meson last_in_set)
    then have "js_edge J fn env b c" using False edge by (cases ?t) (simp_all add: js_edge_def)
    then show ?thesis by blast
  qed
qed

text \<open>
  C38: An execution of a verified function never gets stuck: from every state that is reached, the
  next instruction can be executed, or the block has ended and the execution can go to a successor,
  or the terminator of the block has none. In particular the demands on results are satisfiable.
\<close>

theorem execution_progress:
  assumes "verify_function m fn = Some (Inr ())" and "js_ok J"
    and "js_exec J m fn names {} initial prev b i S ent env vars"
  shows "(i < length (code_of fn b) \<and>
        (\<exists>env' vars'. js_exec J m fn names {} initial prev b (Suc i) (S \<union> set_option (dest (code_of fn b ! i))) ent env' vars')) \<or>
     (i = length (code_of fn b) \<and> (\<exists>c. js_exec J m fn names {} initial (Some b) c 0 S env env vars)) \<or>
     (i = length (code_of fn b) \<and> terminator_successors (blk_terminator (fn_blocks fn ! bix b)) = [])"
proof -
  have wf: "wf_function m fn" using assms(1) verify_function_result(2) by blast
  note at = js_exec_reaches [OF wf assms(3)]
  show ?thesis
  proof (cases "i < length (code_of fn b)")
    case True
    obtain env' vars' where "effect names (code_of fn b ! i) env vars env' vars'" "js_result J m prev ent (code_of fn b ! i) env env'"
      using step_exists [OF wf assms(2) _ _ True] at by blast
    then show ?thesis using js_exec.js_step [OF assms(3) True] True by blast
  next
    case False
    then have i: "i = length (code_of fn b)" using at by simp
    then show ?thesis using edge_exists [OF wf assms(2), of b env] at js_exec.js_follow [OF assms(3) i] by blast
  qed
qed

theorem execution_progress_witness:
  "\<exists>env' vars'. js_exec small_js one_constant loop_load {} {} (\<lambda>_. 0) None (BasicBlockId 0) 1 {ValueId 1} (\<lambda>_. 0) env' vars'"
proof -
  have c: "fn_entry loop_load = BasicBlockId 0" "length (code_of loop_load (BasicBlockId 0)) = 2"
    "code_of loop_load (BasicBlockId 0) ! 0 = Const (ValueId 1) (ConstantId 0)"
    by (simp_all add: loop_load_def function_new_def bix_def)
  have "js_exec small_js one_constant loop_load {} {} (\<lambda>_. 0) None (BasicBlockId 0) 0 {} (\<lambda>_. 0) (\<lambda>_. 0) (\<lambda>_. 0)"
    using js_exec.js_enter [of small_js one_constant loop_load "{}" "{}" "\<lambda>_. 0" "\<lambda>_. 0"] by (simp add: c)
  from execution_progress [OF loop_load_verified(1) small_js_ok this] show ?thesis by (auto simp: c dest_def)
qed

end
