(* ===== verification/Typed_Cfg.thy ===== *)
theory Typed_Cfg
  imports Value_Class Js_Exec
begin

text \<open>
  Rewriting by value classes (\<open>wjsm-ir/src/typed_cfg.rs\<close>): an \<open>is_exception\<close> of a value that cannot
  be an exception becomes the constant false, a comparison of Numbers becomes a \<open>Compare\<close>, and a
  branch on a constant becomes a jump. A rewriting loop over the instructions is a partial map from
  instructions to their replacements; a panic is \<open>None\<close>.
\<close>

section \<open>Definitions of values\<close>

definition dest_of :: "Instruction \<Rightarrow> ValueId option" where
  "dest_of i = (case i of
     Const d _ \<Rightarrow> Some d | Binary d _ _ _ \<Rightarrow> Some d | Unary d _ _ \<Rightarrow> Some d | Compare d _ _ _ \<Rightarrow> Some d
   | Phi d _ \<Rightarrow> Some d | LoadVar d _ \<Rightarrow> Some d | IsException d _ \<Rightarrow> Some d
   | CallBuiltin d _ _ \<Rightarrow> d
   | _ \<Rightarrow> None)"

definition instruction_defs :: "Function \<Rightarrow> ValueId \<rightharpoonup> Instruction" where
  \<comment> \<open>the map \<open>defs\<close>; a later insertion replaces an earlier one\<close>
  "instruction_defs fn =
     foldl (\<lambda>defs i. case dest_of i of None \<Rightarrow> defs | Some d \<Rightarrow> defs(d \<mapsto> i)) Map.empty (fn_instructions fn)"

definition rewrite_instructions :: "(Instruction \<Rightarrow> Instruction option) \<Rightarrow> Function \<Rightarrow> Function \<times> bool" where
  \<comment> \<open>replace instructions in place, and whether one was replaced\<close>
  "rewrite_instructions f fn =
     (fn\<lparr>fn_blocks := map (\<lambda>b. b\<lparr>blk_instructions := map (\<lambda>i. case f i of None \<Rightarrow> i | Some i' \<Rightarrow> i') (blk_instructions b)\<rparr>) (fn_blocks fn)\<rparr>,
      list_ex (\<lambda>i. f i \<noteq> None) (fn_instructions fn))"

section \<open>Tests for exceptions\<close>

definition is_always_non_exception :: "(ValueId \<rightharpoonup> Instruction) \<Rightarrow> ValueId \<Rightarrow> ValueId set \<Rightarrow> bool" where
  "is_always_non_exception defs v numbers \<longleftrightarrow>
     (if v \<in> numbers then True
      else case defs v of
        Some (Const _ _) \<Rightarrow> True
      | Some (NewObject _ _) \<Rightarrow> True
      | Some (InitObjectLiteral _ _ _) \<Rightarrow> True
      | Some (Compare _ _ _ _) \<Rightarrow> True
      | Some (NewArray _ _) \<Rightarrow> True
      | _ \<Rightarrow> False)"

definition fold_is_exception ::
  "(ValueId \<rightharpoonup> Instruction) \<Rightarrow> ValueClassSet \<Rightarrow> ConstantId \<Rightarrow> Instruction \<Rightarrow> Instruction option" where
  "fold_is_exception defs classes bool_false i =
     (case i of
        IsException d v \<Rightarrow>
          if cannot_throw classes v \<or> is_always_non_exception defs v (vc_numbers classes) then Some (Const d bool_false) else None
      | _ \<Rightarrow> None)"

section \<open>Comparisons of Numbers\<close>

definition const_bool :: "(ValueId \<rightharpoonup> Instruction) \<Rightarrow> Constant list \<Rightarrow> ValueId \<Rightarrow> bool option" where
  "const_bool defs constants v =
     (case defs v of
        Some (Const _ c) \<Rightarrow> (case get_at constants (cix c) of Some (Bool flag) \<Rightarrow> Some flag | _ \<Rightarrow> None)
      | _ \<Rightarrow> None)"

definition relational_op :: "(ValueId \<rightharpoonup> Instruction) \<Rightarrow> Constant list \<Rightarrow> ValueId list \<Rightarrow> CompareOp option" where
  \<comment> \<open>called with four arguments\<close>
  "relational_op defs constants args =
     Option.bind (const_bool defs constants (args ! 2)) (\<lambda>reverse.
     Option.bind (const_bool defs constants (args ! 3)) (\<lambda>invert.
     Some (case (reverse, invert) of
        (False, False) \<Rightarrow> Lt | (True, False) \<Rightarrow> Gt | (True, True) \<Rightarrow> LtEq | (False, True) \<Rightarrow> GtEq)))"

definition abstract_compare_to_compare ::
  "(ValueId \<rightharpoonup> Instruction) \<Rightarrow> Constant list \<Rightarrow> ValueId set \<Rightarrow> Instruction \<Rightarrow> Instruction option" where
  "abstract_compare_to_compare defs constants numbers i =
     (case i of
        CallBuiltin (Some d) b args \<Rightarrow>
          if b \<noteq> ABSTRACT_COMPARE then None
          else if length args \<noteq> 4 \<or> args ! 0 \<notin> numbers \<or> args ! 1 \<notin> numbers then None
          else map_option (\<lambda>op. Compare d op (args ! 0) (args ! 1)) (relational_op defs constants args)
      | _ \<Rightarrow> None)"

definition rewrite_abstract_compares :: "Constant list \<Rightarrow> Function \<Rightarrow> ValueId set \<Rightarrow> Function \<times> bool" where
  "rewrite_abstract_compares constants fn numbers =
     rewrite_instructions (abstract_compare_to_compare (instruction_defs fn) constants numbers) fn"

section \<open>Branches on constants\<close>

definition constant_bools :: "Constant list \<Rightarrow> Function \<Rightarrow> ValueId \<rightharpoonup> bool" where
  "constant_bools constants fn =
     foldl (\<lambda>bools i.
       case i of
         Const d c \<Rightarrow> (case get_at constants (cix c) of Some (Bool flag) \<Rightarrow> bools(d \<mapsto> flag) | _ \<Rightarrow> bools)
       | _ \<Rightarrow> bools) Map.empty (fn_instructions fn)"

definition fold_branch :: "(ValueId \<rightharpoonup> bool) \<Rightarrow> Terminator \<Rightarrow> Terminator option" where
  "fold_branch bools t =
     (case t of
        Branch condition true_block false_block \<Rightarrow>
          map_option (\<lambda>flag. Jump (if flag then true_block else false_block)) (bools condition)
      | _ \<Rightarrow> None)"

definition with_terminators :: "(nat \<Rightarrow> Terminator \<Rightarrow> Terminator) \<Rightarrow> Function \<Rightarrow> Function" where
  "with_terminators f fn =
     fn\<lparr>fn_blocks := map (\<lambda>(index, b). b\<lparr>blk_terminator := f index (blk_terminator b)\<rparr>) (enumerate 0 (fn_blocks fn))\<rparr>"

definition neutralize_unreachable :: "Function \<Rightarrow> Function option" where
  "neutralize_unreachable fn =
     map_option (\<lambda>g. with_terminators (\<lambda>index t. if cfg_is_reachable g (block_at index) then t else Unreachable) fn)
       (cfg_build fn)"

definition fold_const_branches :: "Constant list \<Rightarrow> Function \<Rightarrow> (Function \<times> bool) option" where
  "fold_const_branches constants fn =
     (let bools = constant_bools constants fn;
          folded = with_terminators (\<lambda>_ t. case fold_branch bools t of None \<Rightarrow> t | Some t' \<Rightarrow> t') fn;
          changed = list_ex (\<lambda>b. fold_branch bools (blk_terminator b) \<noteq> None) (fn_blocks fn)
      in if changed then map_option (\<lambda>fn'. (fn', True)) (neutralize_unreachable folded)
         else Some (folded, False))"

section \<open>A function, a program\<close>

definition const_id_or_add :: "Constant \<Rightarrow> Module \<Rightarrow> Module \<times> ConstantId" where
  "const_id_or_add c m =
     (case find_position (\<lambda>existing. existing = c) (mod_constants m) of
        Some index \<Rightarrow> (m, ConstantId (of_nat index))
      | None \<Rightarrow> add_constant c m)"

definition rewrite_function :: "Module \<Rightarrow> FunctionId \<Rightarrow> FunctionSeeds option \<Rightarrow> (Module \<times> bool) option" where
  "rewrite_function m function_id seeds =
     (case get_at (mod_functions m) (fnix function_id) of
        None \<Rightarrow> Some (m, False)
      | Some fn \<Rightarrow>
          Option.bind (infer_function m fn (module_frame_local_variable_names m (fnix function_id))
            (case seeds of None \<Rightarrow> no_seeds | Some s \<Rightarrow> s)) (\<lambda>classes.
          case const_id_or_add (Bool False) m of
            (m', bool_false) \<Rightarrow>
              (case rewrite_instructions (fold_is_exception (instruction_defs fn) classes bool_false) fn of
                 (fn1, changed1) \<Rightarrow>
                   (case rewrite_abstract_compares (mod_constants m') fn1 (vc_numbers classes) of
                      (fn2, changed2) \<Rightarrow>
                        map_option (\<lambda>(fn3, changed3).
                          (m'\<lparr>mod_functions := (mod_functions m')[fnix function_id := fn3]\<rparr>, changed1 \<or> changed2 \<or> changed3))
                          (fold_const_branches (mod_constants m') fn2)))))"

definition typed_rewrite_program :: "Module \<Rightarrow> (u32 \<Rightarrow> FunctionSeeds option) \<Rightarrow> (Module \<times> bool) option" where
  \<comment> \<open>\<open>rewrite_program\<close>\<close>
  "typed_rewrite_program m seeds =
     fold_option (\<lambda>(m, anything) index.
       map_option (\<lambda>(m', changed). (m', anything \<or> changed)) (rewrite_function m (FunctionId (of_nat index)) (seeds (of_nat index))))
       (m, False) [0..<length (mod_functions m)]"

section \<open>Loop headers\<close>

lemma finite_blocks_below: "finite {b. bix b < n}"
proof -
  have "inj_on bix {b. bix b < n}" by (simp add: inj_on_def bix_inj)
  moreover have "bix ` {b. bix b < n} \<subseteq> {..<n}" by auto
  ultimately show ?thesis using finite_imageD finite_subset by blast
qed

function dominates_walk :: "idom_table \<Rightarrow> BasicBlockId \<Rightarrow> BasicBlockId set \<Rightarrow> BasicBlockId \<Rightarrow> bool" where
  \<comment> \<open>the loop of \<open>dominates\<close> with the nodes seen\<close>
  "dominates_walk idom dominator seen node =
     (if node \<in> seen then False
      else case Option.bind (get_at idom (bix node)) (\<lambda>x. x) of
        None \<Rightarrow> False
      | Some parent \<Rightarrow> if parent = dominator then True else dominates_walk idom dominator (insert node seen) parent)"
  by pat_completeness auto
termination
proof (relation "measure (\<lambda>(idom, dominator, seen, node). card ({b. bix b < length idom} - seen))")
  fix idom dominator seen node parent
  assume a: "node \<notin> seen" "Option.bind (get_at idom (bix node)) (\<lambda>x. x) = Some (parent :: BasicBlockId)"
  then have "bix node < length idom" by (auto simp: get_at_def split: if_splits Option.bind_splits)
  then have "{b. bix b < length idom} - insert node seen \<subset> {b. bix b < length idom} - seen" using a(1) by blast
  then have "card ({b. bix b < length idom} - insert node seen) < card ({b. bix b < length idom} - seen)"
    using finite_blocks_below by (intro psubset_card_mono) auto
  then show "((idom, dominator, insert node seen, parent), idom, dominator, seen, node) \<in>
      measure (\<lambda>(idom, dominator, seen, node). card ({b. bix b < length idom} - seen))" by simp
qed simp

definition dominates_node :: "idom_table \<Rightarrow> BasicBlockId \<Rightarrow> BasicBlockId \<Rightarrow> bool" where
  \<comment> \<open>\<open>dominates\<close>\<close>
  "dominates_node idom dominator node \<longleftrightarrow> (if dominator = node then True else dominates_walk idom dominator {} node)"

definition loop_headers :: "Function \<Rightarrow> BasicBlockId list option" where
  "loop_headers fn =
     Option.bind (cfg_build fn) (\<lambda>g.
     map_option (\<lambda>idom.
       filter (\<lambda>header. list_ex (\<lambda>pred. dominates_node idom header pred) (predecessors g header))
         (map block_at [0..<length (fn_blocks fn)])) (immediate_dominators g))"

definition loop_header_live_phis :: "Function \<Rightarrow> BasicBlockId \<Rightarrow> ValueId list" where
  "loop_header_live_phis fn header =
     (case block_by_id fn header of
        None \<Rightarrow> []
      | Some b \<Rightarrow> List.map_filter (\<lambda>i. case i of Phi d _ \<Rightarrow> Some d | _ \<Rightarrow> None) (blk_instructions b))"

end
