(* ===== verification/Cfg_Fold.thy ===== *)
theory Cfg_Fold
  imports Typed_Cfg Opt_Dce
begin

text \<open>
  Folding of tests and branches (\<open>wjsm-optimize/src/cfg_fold.rs\<close>): tests whose answer is known become
  constants, branches and switches on constants become jumps, unreachable blocks are emptied, phi
  nodes lose the sources of edges that are gone, and unused instructions of a white list are deleted;
  all that in at most eight rounds over the functions. The hash set of values under examination is a
  set that grows along the recursion; a vector index out of bounds does not occur and is not modelled
  as a panic.
\<close>

section \<open>What is known about a value\<close>

definition GET_PROTOTYPE_FROM_CONSTRUCTOR :: Builtin where
  "GET_PROTOTYPE_FROM_CONSTRUCTOR = Builtin 88"

definition string_builtins :: "Builtin list" where
  \<comment> \<open>StringBuilderAppend, StringBuilderFinish, StringSlice, StringSubstring, StringConcatVa,
      StringRepeat, StringReplace, StringPadStart, StringPadEnd, StringTrim, StringTrimStart,
      StringTrimEnd, StringToLowerCase, StringToUpperCase, StringCharAt\<close>
  "string_builtins = map Builtin [450, 451, 215, 218, 205, 213, 142, 212, 211, 221, 223, 222, 219, 220, 202]"

instance ValueId :: finite
proof
  have "(UNIV :: ValueId set) = range ValueId" by (auto intro: ValueId.exhaust)
  then show "finite (UNIV :: ValueId set)" by (metis finite finite_imageI)
qed

lemma visiting_grows: "v \<notin> visiting \<Longrightarrow> card (- insert v visiting) < card (- (visiting :: ValueId set))"
  by (intro psubset_card_mono) auto

function is_provably_non_exception :: "(ValueId \<rightharpoonup> Instruction) \<Rightarrow> ValueId set \<Rightarrow> ValueId \<Rightarrow> bool" where
  "is_provably_non_exception defs visiting v =
     (case defs v of
        Some (Const _ _) \<Rightarrow> True
      | Some (NewObject _ _) \<Rightarrow> True
      | Some (InitObjectLiteral _ _ _) \<Rightarrow> True
      | Some (Compare _ _ _ _) \<Rightarrow> True
      | Some (NewArray _ _) \<Rightarrow> True
      | Some (CallBuiltin _ b _) \<Rightarrow> b = CREATE_CLOSURE
      | Some (Phi _ sources) \<Rightarrow>
          if v \<in> visiting then False
          else list_all (\<lambda>s. is_provably_non_exception defs (insert v visiting) (phi_value s)) sources
      | _ \<Rightarrow> False)"
  by pat_completeness auto
termination
  by (relation "measure (\<lambda>(defs, visiting, v). card (- visiting))") (simp_all add: visiting_grows)

function is_provably_string ::
  "(ValueId \<rightharpoonup> Instruction) \<Rightarrow> (rstr \<rightharpoonup> ValueId list) \<Rightarrow> Constant list \<Rightarrow> ValueId set \<Rightarrow> ValueId \<Rightarrow> bool" where
  "is_provably_string defs var_stores constants visiting v =
     (case defs v of
        Some (Const _ c) \<Rightarrow> (case get_at constants (cix c) of Some (String _) \<Rightarrow> True | _ \<Rightarrow> False)
      | Some (StringConcatVa _ _) \<Rightarrow> True
      | Some (CallBuiltin _ b _) \<Rightarrow> b \<in> set string_builtins
      | Some (Phi _ sources) \<Rightarrow>
          if v \<in> visiting then False
          else sources \<noteq> [] \<and>
            list_all (\<lambda>s. is_provably_string defs var_stores constants (insert v visiting) (phi_value s)) sources
      | Some (LoadVar _ n) \<Rightarrow>
          if v \<in> visiting then False
          else (case var_stores n of
              None \<Rightarrow> False
            | Some stores \<Rightarrow> stores \<noteq> [] \<and>
                list_all (\<lambda>w. is_provably_string defs var_stores constants (insert v visiting) w) stores)
      | _ \<Rightarrow> False)"
  by pat_completeness auto
termination
  by (relation "measure (\<lambda>(defs, var_stores, constants, visiting, v). card (- visiting))") (simp_all add: visiting_grows)

declare is_provably_non_exception.simps [simp del] is_provably_string.simps [simp del]

definition all_defs :: "Function \<Rightarrow> ValueId \<rightharpoonup> Instruction" where
  "all_defs fn =
     foldl (\<lambda>defs i. case dest i of None \<Rightarrow> defs | Some d \<Rightarrow> defs(d \<mapsto> i)) Map.empty (fn_instructions fn)"

definition var_store_values :: "Function \<Rightarrow> rstr \<rightharpoonup> ValueId list" where
  "var_store_values fn =
     foldl (\<lambda>stores i. case i of
         StoreVar n v \<Rightarrow> stores(n \<mapsto> (case stores n of None \<Rightarrow> [] | Some vs \<Rightarrow> vs) @ [v])
       | _ \<Rightarrow> stores) Map.empty (fn_instructions fn)"

section \<open>Tests and branches\<close>

record fold_facts =
  ff_defs :: "ValueId \<rightharpoonup> Instruction"
  ff_stores :: "rstr \<rightharpoonup> ValueId list"
  ff_constants :: "Constant list"
  ff_classes :: "ValueClassSet option"

definition fold_test :: "fold_facts \<Rightarrow> ConstantId \<Rightarrow> ConstantId \<Rightarrow> Instruction \<Rightarrow> Instruction option" where
  "fold_test facts bool_true bool_false i =
     (case i of
        IsException d v \<Rightarrow>
          if (case ff_classes facts of None \<Rightarrow> False | Some classes \<Rightarrow> cannot_throw classes v) \<or>
             is_provably_non_exception (ff_defs facts) {} v
          then Some (Const d bool_false) else None
      | CallBuiltin (Some d) b args \<Rightarrow>
          if b = IS_JS_OBJECT then
            if length args = 1 \<and>
               (case ff_defs facts (args ! 0) of Some (NewObject _ _) \<Rightarrow> True | Some (InitObjectLiteral _ _ _) \<Rightarrow> True | _ \<Rightarrow> False)
            then Some (Const d bool_true) else None
          else if b = IS_STRING then
            if length args = 1 \<and> is_provably_string (ff_defs facts) (ff_stores facts) (ff_constants facts) {} (args ! 0)
            then Some (Const d bool_true) else None
          else None
      | _ \<Rightarrow> None)"

definition fold_terminator :: "fold_facts \<Rightarrow> Terminator \<Rightarrow> Terminator option" where
  "fold_terminator facts t =
     (case t of
        Branch condition true_block false_block \<Rightarrow>
          (case ff_defs facts condition of
             Some (Const _ c) \<Rightarrow>
               (case get_at (ff_constants facts) (cix c) of
                  Some (Bool b) \<Rightarrow> Some (Jump (if b then true_block else false_block))
                | _ \<Rightarrow> None)
           | _ \<Rightarrow> None)
      | Switch v cases default_block _ \<Rightarrow>
          (case ff_defs facts v of
             Some (Const _ c) \<Rightarrow>
               Some (Jump (case List.find (\<lambda>sc. case_constant sc = c) cases of
                   None \<Rightarrow> default_block | Some found \<Rightarrow> case_target found))
           | _ \<Rightarrow> None)
      | _ \<Rightarrow> None)"

definition fold_terminators :: "fold_facts \<Rightarrow> Function \<Rightarrow> Function \<times> bool" where
  "fold_terminators facts fn =
     (with_terminators (\<lambda>_ t. case fold_terminator facts t of None \<Rightarrow> t | Some t' \<Rightarrow> t') fn,
      list_ex (\<lambda>b. fold_terminator facts (blk_terminator b) \<noteq> None) (fn_blocks fn))"

section \<open>Unreachable blocks\<close>

function mark_reachable :: "Function \<Rightarrow> BasicBlockId list \<Rightarrow> BasicBlockId set \<Rightarrow> BasicBlockId set" where
  "mark_reachable fn [] reachable = reachable"
| "mark_reachable fn (b # stack) reachable =
     (if bix b \<ge> length (fn_blocks fn) \<or> b \<in> reachable then mark_reachable fn stack reachable
      else mark_reachable fn
        (fold (\<lambda>s stack. s # stack) (terminator_successors (blk_terminator (fn_blocks fn ! bix b))) stack) (insert b reachable))"
  by pat_completeness auto
termination
  by (relation "measures [\<lambda>(fn, stack, reachable). card (- reachable), \<lambda>(fn, stack, reachable). length stack]")
    (auto intro!: psubset_card_mono)

definition empty_unreachable :: "Function \<Rightarrow> Function \<times> bool" where
  "empty_unreachable fn =
     (let reachable = mark_reachable fn [fn_entry fn] {}
      in (fn\<lparr>fn_blocks := map (\<lambda>(index, b).
             if block_at index \<in> reachable then b else b\<lparr>blk_instructions := [], blk_terminator := Unreachable\<rparr>)
             (enumerate 0 (fn_blocks fn))\<rparr>,
          list_ex (\<lambda>index. block_at index \<notin> reachable) [0..<length (fn_blocks fn)]))"

section \<open>Phi nodes\<close>

definition replace_all_uses_of :: "ValueId \<Rightarrow> ValueId \<Rightarrow> Function \<Rightarrow> Function" where
  "replace_all_uses_of old_val new_val fn =
     (if old_val = new_val then fn
      else let f = (\<lambda>v. if v = old_val then new_val else v)
        in fn\<lparr>fn_blocks := map (\<lambda>b. b\<lparr>blk_instructions := map (remap_values f) (blk_instructions b),
               blk_terminator := term_remap_values f (blk_terminator b)\<rparr>) (fn_blocks fn)\<rparr>)"

datatype phi_change =
    Collapse (change_index: nat) ValueId ValueId
  | ToUndefined (change_index: nat) ValueId
  | Sources (change_index: nat) ValueId "PhiSource list"

definition phi_change_of :: "BasicBlockId list \<Rightarrow> nat \<times> Instruction \<Rightarrow> phi_change option" where
  "phi_change_of preds = (\<lambda>(index, i).
     case i of
       Phi d sources \<Rightarrow>
         (let alive = filter (\<lambda>s. phi_predecessor s \<in> set preds) sources
          in if alive \<noteq> [] \<and> list_all (\<lambda>s. phi_value s = phi_value (hd alive)) alive then Some (Collapse index d (phi_value (hd alive)))
             else if alive = [] then Some (ToUndefined index d)
             else if length alive \<noteq> length sources then Some (Sources index d alive)
             else None)
     | _ \<Rightarrow> None)"

definition set_instruction :: "nat \<Rightarrow> nat \<Rightarrow> Instruction \<Rightarrow> Function \<Rightarrow> Function" where
  "set_instruction k index i fn =
     fn\<lparr>fn_blocks := (fn_blocks fn)[k := (fn_blocks fn ! k)\<lparr>blk_instructions := (blk_instructions (fn_blocks fn ! k))[index := i]\<rparr>]\<rparr>"

definition remove_instruction :: "nat \<Rightarrow> nat \<Rightarrow> Function \<Rightarrow> Function" where
  "remove_instruction k index fn =
     (let is = blk_instructions (fn_blocks fn ! k)
      in fn\<lparr>fn_blocks := (fn_blocks fn)[k := (fn_blocks fn ! k)\<lparr>blk_instructions := take index is @ drop (Suc index) is\<rparr>]\<rparr>)"

fun apply_collapse :: "phi_change \<Rightarrow> Function \<Rightarrow> Function" where
  "apply_collapse (Collapse _ d v) fn = replace_all_uses_of d v fn"
| "apply_collapse _ fn = fn"

fun apply_undefined :: "nat \<Rightarrow> ConstantId \<Rightarrow> phi_change \<Rightarrow> Function \<Rightarrow> Function" where
  "apply_undefined k undefined_id (ToUndefined index d) fn = set_instruction k index (Const d undefined_id) fn"
| "apply_undefined k undefined_id _ fn = fn"

fun apply_sources :: "nat \<Rightarrow> phi_change \<Rightarrow> Function \<Rightarrow> Function" where
  "apply_sources k (Sources index d alive) fn = set_instruction k index (Phi d alive) fn"
| "apply_sources k _ fn = fn"

fun is_collapse :: "phi_change \<Rightarrow> bool" where
  "is_collapse (Collapse _ _ _) \<longleftrightarrow> True"
| "is_collapse _ \<longleftrightarrow> False"

definition clean_phis :: "ConstantId \<Rightarrow> BasicBlockId list \<Rightarrow> nat \<Rightarrow> Function \<Rightarrow> Function \<times> bool" where
  \<comment> \<open>the body of the loop over the blocks; the changes are collected first\<close>
  "clean_phis undefined_id preds k fn =
     (let changes = List.map_filter (phi_change_of preds) (enumerate 0 (blk_instructions (fn_blocks fn ! k)));
          fn1 = fold apply_collapse changes fn;
          fn2 = fold (apply_undefined k undefined_id) changes fn1;
          fn3 = fold (apply_sources k) changes fn2;
          indices = rev (sort (map change_index (filter is_collapse changes)))
      in (fold (remove_instruction k) indices fn3, changes \<noteq> []))"

definition clean_all_phis :: "ConstantId \<Rightarrow> Function \<Rightarrow> Function \<times> bool" where
  "clean_all_phis undefined_id fn =
     (let preds = predecessor_table (successor_table fn)
      in fold (\<lambda>k (fn, changed). case clean_phis undefined_id (preds ! k) k fn of (fn', c) \<Rightarrow> (fn', changed \<or> c))
           [0..<length preds] (fn, False))"

section \<open>Unused instructions\<close>

definition white_listed :: "Instruction \<Rightarrow> bool" where
  "white_listed i \<longleftrightarrow>
     (case i of
        Const _ _ \<Rightarrow> True | LoadVar _ _ \<Rightarrow> True | Phi _ _ \<Rightarrow> True | IsException _ _ \<Rightarrow> True
      | CallBuiltin _ b _ \<Rightarrow> b = GET_PROTOTYPE_FROM_CONSTRUCTOR \<or> b = CREATE_CLOSURE
      | _ \<Rightarrow> False)"

definition deletable :: "ValueId set \<Rightarrow> Instruction \<Rightarrow> bool" where
  "deletable used i \<longleftrightarrow> white_listed i \<and> (case dest i of None \<Rightarrow> False | Some d \<Rightarrow> d \<notin> used)"

definition delete_unused :: "Function \<Rightarrow> Function \<times> bool" where
  "delete_unused fn =
     (let used = used_values fn
      in (fn\<lparr>fn_blocks := map (\<lambda>b. b\<lparr>blk_instructions := filter (\<lambda>i. \<not> deletable used i) (blk_instructions b)\<rparr>) (fn_blocks fn)\<rparr>,
          list_ex (deletable used) (fn_instructions fn)))"

section \<open>Rounds\<close>

definition fold_rules :: "fold_facts \<Rightarrow> ConstantId \<Rightarrow> ConstantId \<Rightarrow> ConstantId \<Rightarrow> Function \<Rightarrow> Function \<times> bool" where
  \<comment> \<open>the rules on a function, once the constants are there\<close>
  "fold_rules facts bool_true bool_false undefined_id fn =
     (let (fn1, folded) = rewrite_instructions (fold_test facts bool_true bool_false) fn;
          (fn2, branches) = fold_terminators facts fn1;
          (fn3, emptied) = empty_unreachable fn2;
          (fn4, phis) = clean_all_phis undefined_id fn3;
          (fn5, deleted) = delete_unused fn4
      in (fn5, folded \<or> branches \<or> emptied \<or> phis \<or> deleted))"

definition fold_with :: "ValueClassSet option \<Rightarrow> nat \<Rightarrow> Module \<Rightarrow> Module \<times> bool" where
  \<comment> \<open>the body of the loop over the functions, after the classes\<close>
  "fold_with classes k m =
     (let fn = mod_functions m ! k;
          facts = \<lparr>ff_defs = all_defs fn, ff_stores = var_store_values fn, ff_constants = mod_constants m, ff_classes = classes\<rparr>;
          (m1, bool_true) = const_id_or_add (Bool True) m;
          (m2, bool_false) = const_id_or_add (Bool False) m1;
          (m3, undefined_id) = const_id_or_add Undefined m2;
          (fn', changed) = fold_rules facts bool_true bool_false undefined_id fn
      in (m3\<lparr>mod_functions := (mod_functions m3)[k := fn']\<rparr>, changed))"

definition fold_function :: "bool \<Rightarrow> nat \<Rightarrow> Module \<Rightarrow> (Module \<times> bool) option" where
  "fold_function fold_proven_numbers k m =
     (if fold_proven_numbers
      then map_option (\<lambda>classes. fold_with (Some classes) k m)
        (infer_function m (mod_functions m ! k) (module_frame_local_variable_names m k) no_seeds)
      else Some (fold_with None k m))"

definition fold_round :: "bool \<Rightarrow> Module \<Rightarrow> (Module \<times> bool) option" where
  "fold_round fold_proven_numbers m =
     fold_option (\<lambda>(m, changed) k.
       map_option (\<lambda>(m', c). (m', changed \<or> c)) (fold_function fold_proven_numbers k m))
       (m, False) [0..<length (mod_functions m)]"

fun fold_rounds :: "nat \<Rightarrow> bool \<Rightarrow> Module \<Rightarrow> Module option" where
  \<comment> \<open>\<open>while any_change && round < 8\<close> with the rounds that are left\<close>
  "fold_rounds 0 fold_proven_numbers m = Some m"
| "fold_rounds (Suc rounds) fold_proven_numbers m =
     (case fold_round fold_proven_numbers m of
        None \<Rightarrow> None
      | Some (m', changed) \<Rightarrow> if changed then fold_rounds rounds fold_proven_numbers m' else Some m')"

definition cfg_fold_run :: "Module \<Rightarrow> Module option" where
  "cfg_fold_run m = fold_rounds 8 False m"

definition run_after_value_class :: "Module \<Rightarrow> Module option" where
  "run_after_value_class m = fold_rounds 8 True m"

end
