(* ===== verification/Value_Class_Correct.thy ===== *)
theory Value_Class_Correct
  imports Value_Class Js_Exec
begin

text \<open>
  The analysis of value classes ends, and the values it calls Numbers are Numbers in every execution.
\<close>

section \<open>Loops that end\<close>

lemma until_stable_ends:
  assumes step: "\<And>s s'. I s \<Longrightarrow> pass s = (s', True) \<Longrightarrow> I s' \<and> measure_of s' < (measure_of s :: nat)"
    and stop: "\<And>s s'. I s \<Longrightarrow> pass s = (s', False) \<Longrightarrow> I s' \<and> s' = s" and start: "I s"
  shows "\<exists>t. until_stable pass s = Some t \<and> I t \<and> pass t = (t, False)"
  using start
proof (induction "measure_of s" arbitrary: s rule: less_induct)
  case less
  obtain s' changed where p: "pass s = (s', changed)" by (cases "pass s")
  show ?case
  proof (cases changed)
    case True
    then have p': "pass s = (s', True)" using p by simp
    obtain t where "until_stable pass s' = Some t" "I t" "pass t = (t, False)"
      using less.hyps step [OF less.prems p'] by blast
    then show ?thesis using p' by (subst until_stable.simps) auto
  next
    case False
    then have p': "pass s = (s', False)" using p by simp
    then have "s' = s" using stop [OF less.prems p'] by simp
    then show ?thesis using p' less.prems by (subst until_stable.simps) auto
  qed
qed

section \<open>The fixed point of the Numbers\<close>

definition holds_in :: "Module \<Rightarrow> number_facts \<Rightarrow> ValueId set \<Rightarrow> u32 set \<Rightarrow> Instruction \<Rightarrow> bool" where
  "holds_in m facts N P i \<longleftrightarrow> (\<forall>d. number_dest_shape m i = Some d \<and> d \<in> N \<longrightarrow> number_holds facts N P i)"

lemma number_visits:
  "fold (number_visit m facts P) is (N, c) = (N', c') \<Longrightarrow>
     N' \<subseteq> N \<and> (c \<longrightarrow> c') \<and> (c' \<and> \<not> c \<longrightarrow> N' \<subset> N) \<and> (\<not> c' \<longrightarrow> N' = N \<and> (\<forall>i\<in>set is. holds_in m facts N P i))"
proof (induction "is" arbitrary: N c)
  case (Cons i "is")
  obtain N1 c1 where v: "number_visit m facts P i (N, c) = (N1, c1)" by (cases "number_visit m facts P i (N, c)")
  have one: "N1 \<subseteq> N \<and> (c \<longrightarrow> c1) \<and> (c1 \<and> \<not> c \<longrightarrow> N1 \<subset> N) \<and> (\<not> c1 \<longrightarrow> N1 = N \<and> holds_in m facts N P i)"
    using v by (cases "number_dest_shape m i") (auto simp: number_visit_def holds_in_def split: if_splits)
  have "fold (number_visit m facts P) is (N1, c1) = (N', c')" using Cons.prems v by simp
  from Cons.IH [OF this] show ?case using one by auto
qed simp

lemma number_pass_cases:
  assumes "number_pass m fn facts (N, P) = ((N', P'), changed)" and fin: "finite N" "finite P"
  shows "N' \<subseteq> N" "P' \<subseteq> P" "changed \<Longrightarrow> card N' + card P' < card N + card P"
    "\<not> changed \<Longrightarrow> N' = N \<and> P' = P \<and> (\<forall>q\<in>P. \<not> doomed_phi facts N P q) \<and> (\<forall>i\<in>set (fn_instructions fn). holds_in m facts N P i)"
proof -
  let ?D = "Set.filter (doomed_phi facts N P) P"
  have P': "P' = P - ?D" and f: "fold (number_visit m facts (P - ?D)) (fn_instructions fn) (N, ?D \<noteq> {}) = (N', changed)"
    using assms(1) by (auto simp: number_pass_def Let_def split: prod.splits)
  note v = number_visits [OF f]
  show "N' \<subseteq> N" "P' \<subseteq> P" using v P' by auto
  show "card N' + card P' < card N + card P" if changed
  proof (cases "?D = {}")
    case True
    then have "N' \<subset> N" using v that by auto
    from add_less_le_mono [OF psubset_card_mono [OF fin(1) this] card_mono [OF fin(2) \<open>P' \<subseteq> P\<close>]] show ?thesis .
  next
    case False
    then have "P' \<subset> P" using P' by auto
    from add_le_less_mono [OF card_mono [OF fin(1) \<open>N' \<subseteq> N\<close>] psubset_card_mono [OF fin(2) this]] show ?thesis .
  qed
  show "N' = N \<and> P' = P \<and> (\<forall>q\<in>P. \<not> doomed_phi facts N P q) \<and> (\<forall>i\<in>set (fn_instructions fn). holds_in m facts N P i)"
    if "\<not> changed"
  proof -
    have "?D = {}" "N' = N" using v that by auto
    then have "\<forall>q\<in>P. \<not> doomed_phi facts N P q" "P - ?D = P" by auto
    then show ?thesis using v that P' by auto
  qed
qed

lemma number_fixpoint:
  assumes "finite N0" "finite P0"
  obtains N P where "until_stable (number_pass m fn facts) (N0, P0) = Some (N, P)" "N \<subseteq> N0" "P \<subseteq> P0"
    "\<forall>q\<in>P. \<not> doomed_phi facts N P q" "\<forall>i\<in>set (fn_instructions fn). holds_in m facts N P i"
proof -
  let ?I = "\<lambda>(N, P). N \<subseteq> N0 \<and> P \<subseteq> P0"
  have fin: "finite N" "finite P" if "?I (N, P)" for N P using that assms by (auto intro: finite_subset)
  have "\<exists>t. until_stable (number_pass m fn facts) (N0, P0) = Some t \<and> ?I t \<and> number_pass m fn facts t = (t, False)"
  proof (rule until_stable_ends [where measure_of = "\<lambda>(N, P). card N + card P"])
    fix s s' assume I: "?I s" and p: "number_pass m fn facts s = (s', True)"
    obtain N P N' P' where s: "s = (N, P)" "s' = (N', P')" by (cases s; cases s')
    note f = fin [of N P, OF I [unfolded s]]
    show "?I s' \<and> (case s' of (N, P) \<Rightarrow> card N + card P) < (case s of (N, P) \<Rightarrow> card N + card P)"
      using number_pass_cases(1-3) [OF p [unfolded s] f] I s by auto
  next
    fix s s' assume I: "?I s" and p: "number_pass m fn facts s = (s', False)"
    obtain N P N' P' where s: "s = (N, P)" "s' = (N', P')" by (cases s; cases s')
    note f = fin [of N P, OF I [unfolded s]]
    show "?I s' \<and> s' = s" using number_pass_cases(4) [OF p [unfolded s] f] I s by simp
  qed simp
  then obtain N P where t: "until_stable (number_pass m fn facts) (N0, P0) = Some (N, P)" "?I (N, P)"
    "number_pass m fn facts (N, P) = ((N, P), False)" by auto
  show ?thesis using that t number_pass_cases(4) [OF t(3) fin [OF t(2)]] by auto
qed

lemma int32_visits:
  "fold (int32_visit ssa N names) is (I, c) = (I', c') \<Longrightarrow> I \<subseteq> N \<Longrightarrow>
     I \<subseteq> I' \<and> I' \<subseteq> N \<and> (c \<longrightarrow> c') \<and> (c' \<and> \<not> c \<longrightarrow> I \<subset> I') \<and> (\<not> c' \<longrightarrow> I' = I)"
proof (induction "is" arbitrary: I c)
  case (Cons i "is")
  obtain I1 c1 where v: "int32_visit ssa N names i (I, c) = (I1, c1)" by (cases "int32_visit ssa N names i (I, c)")
  have "d \<in> N" if "int32_dest ssa N names I i = Some d" for d
    using that by (cases i) (simp_all add: int32_dest_def split: if_splits)
  then have one: "I \<subseteq> I1 \<and> I1 \<subseteq> N \<and> (c \<longrightarrow> c1) \<and> (c1 \<and> \<not> c \<longrightarrow> I \<subset> I1) \<and> (\<not> c1 \<longrightarrow> I1 = I)"
    using v Cons.prems(2) by (cases "int32_dest ssa N names I i") (auto simp: int32_visit_def)
  have "fold (int32_visit ssa N names) is (I1, c1) = (I', c')" using Cons.prems v by simp
  from Cons.IH [OF this] show ?case using one by auto
qed simp

lemma infer_int32_ends:
  assumes fin: "finite N"
  obtains I where "infer_int32 m fn ssa N = Some I" "I \<subseteq> N"
proof -
  let ?I = "\<lambda>(I, names). I \<subseteq> N \<and> names = number_var_names fn I"
  let ?start = "(int32_constants m fn N, number_var_names fn (int32_constants m fn N))"
  have pass: "?I (I', names') \<and> (changed \<longrightarrow> card (N - I') < card (N - I)) \<and> (\<not> changed \<longrightarrow> (I', names') = (I, names))"
    if inv: "?I (I, names)" and step: "int32_pass fn ssa N (I, names) = ((I', names'), changed)" for I names I' names' changed
  proof -
    obtain c where c: "fold (int32_visit ssa N names) (fn_instructions fn) (I, False) = (I', c)"
      "names' = number_var_names fn I'" "changed = (c \<or> names' \<noteq> names)"
      using step by (auto simp: int32_pass_def Let_def split: prod.splits)
    have inv': "I \<subseteq> N" "names = number_var_names fn I" using inv by simp_all
    note v = int32_visits [OF c(1) inv'(1)]
    have i: "?I (I', names')" using v c(2) by simp
    show ?thesis
    proof (cases changed)
      case True
      then have "I \<subset> I'" using v c(2,3) inv'(2) by (cases c) auto
      then have "card (N - I') < card (N - I)" using v fin by (intro psubset_card_mono) auto
      then show ?thesis using i True by simp
    next
      case False
      then have "\<not> c" "names' = names" using c(3) by simp_all
      then have "(I', names') = (I, names)" using v by simp
      then show ?thesis using i False by simp
    qed
  qed
  have "\<exists>t. until_stable (int32_pass fn ssa N) ?start = Some t \<and> ?I t \<and> int32_pass fn ssa N t = (t, False)"
  proof (rule until_stable_ends [where measure_of = "\<lambda>(I, names). card (N - I)"])
    fix s s' assume inv: "?I s" and step: "int32_pass fn ssa N s = (s', True)"
    obtain I names I' names' where s: "s = (I, names)" "s' = (I', names')" by (cases s; cases s')
    show "?I s' \<and> (case s' of (I, names) \<Rightarrow> card (N - I)) < (case s of (I, names) \<Rightarrow> card (N - I))"
      using pass [OF inv [unfolded s] step [unfolded s]] unfolding s by simp
  next
    fix s s' assume inv: "?I s" and step: "int32_pass fn ssa N s = (s', False)"
    obtain I names I' names' where s: "s = (I, names)" "s' = (I', names')" by (cases s; cases s')
    show "?I s' \<and> s' = s" using pass [OF inv [unfolded s] step [unfolded s]] inv unfolding s by auto
  next
    have "d \<in> N" if "(case i of
         Const d c \<Rightarrow>
           (case get_at (mod_constants m) (cix c) of
              Some (Number v) \<Rightarrow> if d \<in> N \<and> is_int32_number v then Some d else None
            | _ \<Rightarrow> None)
       | _ \<Rightarrow> None) = Some d" for i d
      using that by (cases i) (auto split: option.splits Constant.splits if_splits)
    then have "int32_constants m fn N \<subseteq> N" unfolding int32_constants_def subset_iff map_filter_iff by blast
    then show "?I ?start" by simp
  qed
  then obtain t where t: "until_stable (int32_pass fn ssa N) ?start = Some t" "?I t" by blast
  have "fst t \<subseteq> N" using t(2) by (cases t) simp
  then show ?thesis using that [of "fst t"] t(1) by (simp add: infer_int32_def Let_def)
qed

section \<open>Numbers stay Numbers\<close>

lemma number_shape_dest: "number_dest_shape m i = Some d \<Longrightarrow> dest i = Some d"
  by (cases i) (auto simp: number_dest_shape_def dest_def split: option.splits Constant.splits if_splits)

lemma number_step:
  \<comment> \<open>one instruction whose condition holds computes a Number\<close>
  assumes shape: "number_dest_shape m i = Some d" and holds: "number_holds facts N P i" and extra: "d \<notin> nf_extra facts"
    and eff: "effect names i env vars env' vars'" and res: "js_result J m prev ent i env env'"
    and operand: "\<And>v. \<not> is_phi i \<Longrightarrow> v \<in> set (uses i) \<Longrightarrow> v \<in> N \<union> nf_extra facts \<Longrightarrow> js_num J (env v)"
    and load: "\<And>n. i = LoadVar d n \<Longrightarrow> js_num J (vars n)"
    and phi: "\<And>sources. i = Phi d sources \<Longrightarrow>
      \<exists>s\<in>set sources. prev = Some (phi_predecessor s) \<and> (phi_value s \<in> N \<longrightarrow> js_num J (ent (phi_value s)))"
  shows "js_num J (env' d)"
proof (cases i)
  case (Const d' c)
  then show ?thesis using shape res
    by (auto simp: number_dest_shape_def js_result_def split: option.splits Constant.splits)
next
  case (Binary d' op l r)
  then have "js_num J (env l) \<and> js_num J (env r)"
    using holds operand [of l] operand [of r] by (auto simp: number_holds_def uses_def)
  then show ?thesis using Binary shape res by (auto simp: number_dest_shape_def js_result_def split: if_splits)
next
  case (Unary d' op v)
  then have "js_num J (env v)" using holds operand [of v] by (auto simp: number_holds_def uses_def)
  then show ?thesis using Unary shape res by (auto simp: number_dest_shape_def js_result_def split: if_splits)
next
  case (Phi d' sources)
  then have d: "i = Phi d sources" using shape by (simp add: number_dest_shape_def)
  obtain s where s: "s \<in> set sources" "prev = Some (phi_predecessor s)" "phi_value s \<in> N \<longrightarrow> js_num J (ent (phi_value s))"
    using phi [OF d] by blast
  have "phi_value s \<in> N" using holds extra d s(1) by (auto simp: number_holds_def list_all_iff)
  then show ?thesis using s res d by (auto simp: js_result_def)
next
  case (LoadVar d' n)
  then show ?thesis using shape eff load by (simp add: number_dest_shape_def effect_def)
qed (use shape in \<open>simp_all add: number_dest_shape_def\<close>)

definition shadow :: "'v value_env \<Rightarrow> Instruction \<Rightarrow> 'v value_env \<Rightarrow> 'v value_env" where
  \<comment> \<open>an environment that takes over what an instruction assigns\<close>
  "shadow env' i sh = (case dest i of None \<Rightarrow> sh | Some d \<Rightarrow> sh(d := env' d))"

lemma effect_keeps:
  "effect names i env vars env' vars' \<Longrightarrow> dest i \<noteq> Some v \<Longrightarrow> env' v = env v"
  by (cases i) (auto simp: effect_def dest_def)

lemma shadow_effect:
  assumes "effect names' i env vars env' vars'" "names \<subseteq> names'" "\<And>n v. i = StoreVar n v \<Longrightarrow> sh v = env v"
  shows "effect names i sh vars (shadow env' i sh) vars'"
  using assms by (cases i) (auto simp: effect_def shadow_def dest_def subset_iff split: option.splits)

lemma definition_number:
  assumes "definition_is_number N P entry_is_number def" "\<And>v. v \<in> N \<Longrightarrow> js_num J (env v)" "\<And>q. q \<in> P \<Longrightarrow> js_num J (phis q)"
    "entry_is_number \<Longrightarrow> js_num J x"
  shows "js_num J (def_value x env phis def)"
  using assms by (cases "def") simp_all

definition numbers_fixed :: "Module \<Rightarrow> Function \<Rightarrow> number_facts \<Rightarrow> ValueId set \<Rightarrow> u32 set \<Rightarrow> bool" where
  \<comment> \<open>what the analysis leaves when nothing changes\<close>
  "numbers_fixed m fn facts N P \<longleftrightarrow>
     N \<subseteq> nf_extra facts \<union> set (List.map_filter (number_dest_shape m) (fn_instructions fn)) \<and>
     (\<forall>q\<in>P. \<not> doomed_phi facts N P q) \<and> (\<forall>i\<in>set (fn_instructions fn). holds_in m facts N P i)"

definition numbers_now ::
  "'v js \<Rightarrow> number_facts \<Rightarrow> ValueId set \<Rightarrow> u32 set \<Rightarrow> 'v variable_env \<Rightarrow> 'v value_env \<Rightarrow> 'v value_env \<Rightarrow> (u32 \<Rightarrow> 'v) \<Rightarrow>
   'v variable_env \<Rightarrow> bool" where
  "numbers_now J facts N P initial she sh phis vars \<longleftrightarrow>
     (\<forall>v\<in>N \<union> nf_extra facts. js_num J (sh v) \<and> js_num J (she v)) \<and> (\<forall>q\<in>P. js_num J (phis q)) \<and>
     (\<forall>n\<in>nf_parameters facts. n \<notin> nf_modified facts \<longrightarrow> vars n = initial n)"

lemma in_fn_instructions:
  assumes "bix b < length (fn_blocks fn)" "i < length (code_of fn b)"
  shows "code_of fn b ! i \<in> set (fn_instructions fn)"
proof -
  have "fn_blocks fn ! bix b \<in> set (fn_blocks fn)" using assms(1) by simp
  moreover have "code_of fn b ! i \<in> set (code_of fn b)" using assms(2) by simp
  ultimately show ?thesis unfolding fn_instructions_def by auto
qed

lemma same_definition:
  \<comment> \<open>an instruction of the function that assigns a value is the one at its definition\<close>
  assumes wf: "wf_function m' fn" and b: "bix b < length (fn_blocks fn)" "i < length (code_of fn b)" "dest (code_of fn b ! i) = Some d"
    and j: "j \<in> set (fn_instructions fn)" "dest j = Some d"
  shows "j = code_of fn b ! i"
proof -
  obtain k l where k: "k < length (fn_blocks fn)" "l < length (blk_instructions (fn_blocks fn ! k))"
    "j = blk_instructions (fn_blocks fn ! k) ! l"
    using j(1) by (auto simp: fn_instructions_def in_set_conv_nth)
  let ?c = "blk_id (fn_blocks fn ! k)"
  have c: "bix ?c = k" using wf_blocks(1) [OF wf] k(1) by (simp add: ordered_ids_def)
  have "defined_at fn d ?c l" by (rule defined_here [OF wf]) (use c k j in simp_all)
  from definition_unique [OF wf this defined_here [OF wf b]] show ?thesis using c k(3) by simp
qed

lemma unmodified_kept:
  assumes eff: "effect names i env vars env' vars'" and i: "i \<in> set (fn_instructions fn)"
    and n: "n \<in> names" "n \<notin> store_names fn"
  shows "vars' n = vars n"
proof (cases i)
  case (StoreVar n' v)
  then have "n' \<in> store_names fn" using i by (force simp: store_names_def map_filter_iff)
  then show ?thesis using eff n StoreVar by (auto simp: effect_def)
qed (use eff n in \<open>auto simp: effect_def\<close>)

lemma phis_enter:
  assumes W: "tabled fn g K" and places: "places_ok fn g ssa names place" and b: "b \<in> cfg_nodes fn" "(b, c) \<in> flow_edge fn"
    and facts: "nf_variables facts = ssa" "\<forall>q\<in>P. \<not> doomed_phi facts N P q"
    and init: "\<forall>n\<in>nf_parameters facts. js_num J (initial n)"
    and num: "\<forall>v\<in>N. js_num J (sh v)" "\<forall>q\<in>P. js_num J (phis q)" and q: "q \<in> P"
  shows "js_num J (enter_phis g ssa place initial b c sh phis q)"
proof (cases "place q = Some c")
  case True
  let ?ps = "filter (cfg_is_reachable g) (predecessors g c)"
  let ?flag = "case phi_variable ssa q of None \<Rightarrow> False | Some n \<Rightarrow> n \<in> nf_parameters facts"
  have "b \<in> set ?ps" using b cfg_matchD(5,6) [OF table_facts(5) [OF W]] by simp
  then have "position ?ps b < length ?ps" by (rule position_less)
  then have "position ?ps b < length (phi_sources ssa q)" using True places by (simp add: places_ok_def)
  then have "edge_source g ssa b c q \<in> set (phi_sources ssa q)" by (simp add: edge_source_def)
  moreover have "list_all (definition_is_number N P ?flag) (phi_sources ssa q)"
    using facts q by (auto simp: doomed_phi_def Let_def)
  ultimately have src: "definition_is_number N P ?flag (edge_source g ssa b c q)" by (simp add: list_all_iff)
  have "js_num J (def_value (initial (the (phi_variable ssa q))) sh phis (edge_source g ssa b c q))"
    by (rule definition_number [OF src]) (use num init in \<open>auto split: option.splits\<close>)
  then show ?thesis using True by (simp add: enter_phis_def)
next
  case False
  then show ?thesis using num(2) q by (simp add: enter_phis_def)
qed

lemma number_run:
  assumes wf: "wf_function m' fn" and R: "ssa_ready fn g K frontiers" and V: "views fn g ssa names place"
    and only: "\<And>d. \<forall>n\<in>names. \<forall>b\<in>cfg_nodes fn. LoadVar d n \<notin> set (code_of fn b) \<Longrightarrow> load_definition ssa d = None"
    and J: "js_ok J" and fixed: "numbers_fixed m fn facts N P"
    and facts: "nf_variables facts = ssa" "nf_modified facts = Set.filter (\<lambda>n. n \<in> nf_parameters facts) (store_names fn)"
    and init: "\<forall>n\<in>nf_parameters facts. js_num J (initial n)"
    and run: "js_exec J m fn (names \<union> nf_parameters facts) (nf_extra facts) initial prev b i S ent env vars"
  shows "\<exists>sh she phis S0. ssa_exec fn g ssa names place initial b i sh vars phis \<and> (\<forall>v\<in>S. sh v = env v) \<and>
    (\<forall>v\<in>S0. she v = ent v) \<and> reaches fn prev b 0 S0 \<and> numbers_now J facts N P initial she sh phis vars"
  using run
proof (induction rule: js_exec.induct)
  case (js_enter env)
  obtain x where x: "js_num J x" using J by (auto simp: js_ok_def)
  have "reaches fn None (fn_entry fn) 0 {}" using reaches.enter wf_blocks(3) [OF wf] by simp
  then show ?case using x ssa_exec.begin_entry
    by (intro exI [of _ "\<lambda>_. x"] exI [of _ "\<lambda>_. x"] exI [of _ "\<lambda>_. x"] exI [of _ "{}"]) (simp add: numbers_now_def)
next
  case (js_step prev b i S ent env vars env' vars')
  then obtain sh she phis S0 where ih: "ssa_exec fn g ssa names place initial b i sh vars phis" "\<forall>v\<in>S. sh v = env v"
    "\<forall>v\<in>S0. she v = ent v" "reaches fn prev b 0 S0" "numbers_now J facts N P initial she sh phis vars" by blast
  let ?i = "code_of fn b ! i"
  let ?sh = "shadow env' ?i sh"
  have at: "reaches fn prev b i S" "bix b < length (fn_blocks fn)" using js_exec_reaches [OF wf js_step.hyps(1)] by auto
  have ins: "?i \<in> set (fn_instructions fn)" by (rule in_fn_instructions [OF at(2) js_step.hyps(2)])
  have reads: "sh v = env v" if "\<not> is_phi ?i" "v \<in> set (uses ?i)" for v
    using read_assigned [OF wf at js_step.hyps(2) that] ih(2) by blast
  have eff: "effect names ?i sh vars ?sh vars'"
    by (rule shadow_effect [OF js_step.hyps(3)]) (use reads in \<open>auto simp: uses_def\<close>)
  have run': "ssa_exec fn g ssa names place initial b (Suc i) ?sh vars' phis"
    by (rule ssa_exec.instruction [OF ih(1) js_step.hyps(2) eff])
  have now: "\<forall>v\<in>N \<union> nf_extra facts. js_num J (sh v) \<and> js_num J (she v)" "\<forall>q\<in>P. js_num J (phis q)"
    "\<forall>n\<in>nf_parameters facts. n \<notin> nf_modified facts \<longrightarrow> vars n = initial n"
    using ih(5) by (simp_all add: numbers_now_def)
  have new: "js_num J (env' d)" if d: "dest ?i = Some d" "d \<in> N \<union> nf_extra facts" for d
  proof (cases "d \<in> nf_extra facts")
    case True
    then show ?thesis using js_step.hyps(5) d(1) by blast
  next
    case False
    then have "d \<in> N" "d \<in> set (List.map_filter (number_dest_shape m) (fn_instructions fn))"
      using d(2) fixed by (auto simp: numbers_fixed_def)
    then obtain j where j: "j \<in> set (fn_instructions fn)" "number_dest_shape m j = Some d" by (auto simp: map_filter_iff)
    then have shape: "number_dest_shape m ?i = Some d"
      using same_definition [OF wf at(2) js_step.hyps(2) d(1) j(1) number_shape_dest] by simp
    then have holds: "number_holds facts N P ?i" using fixed ins \<open>d \<in> N\<close> by (auto simp: numbers_fixed_def holds_in_def)
    show ?thesis
    proof (rule number_step [OF shape holds False js_step.hyps(3,4)])
      show "js_num J (env v)" if "\<not> is_phi ?i" "v \<in> set (uses ?i)" "v \<in> N \<union> nf_extra facts" for v
        using reads [OF that(1,2)] now(1) that(3) by force
      show "js_num J (vars n)" if l: "?i = LoadVar d n" for n
      proof (cases "load_definition ssa d")
        case None
        then have "n \<in> nf_parameters facts" "n \<notin> nf_modified facts"
          using holds l False facts(1) by (simp_all add: number_holds_def load_holds_def)
        then show ?thesis using now(3) init by simp
      next
        case (Some def0)
        then obtain n' c where n': "n' \<in> names" "c \<in> cfg_nodes fn" "LoadVar d n' \<in> set (code_of fn c)"
          using only [of d] by force
        have "bix c < length (fn_blocks fn)" by (rule node_bound [OF ssa_readyD(1) [OF R] n'(2)])
        then have "LoadVar d n' \<in> set (fn_instructions fn)" using n'(3) in_fn_instructions by (metis in_set_conv_nth)
        then have "n' = n" using same_definition [OF wf at(2) js_step.hyps(2) d(1)] l by (fastforce simp: dest_def)
        then have v: "def_value (initial n) sh phis def0 = vars n"
          using load_agrees [OF wf R V ih(1) js_step.hyps(2) l] n'(1) Some by simp
        have flag: "definition_is_number N P (n \<in> nf_parameters facts) def0"
          using holds l False facts(1) Some by (simp add: number_holds_def load_holds_def)
        have "js_num J (def_value (initial n) sh phis def0)"
          by (rule definition_number [OF flag]) (use now init in auto)
        then show ?thesis using v by simp
      qed
      show "\<exists>s\<in>set sources. prev = Some (phi_predecessor s) \<and> (phi_value s \<in> N \<longrightarrow> js_num J (ent (phi_value s)))"
        if p: "?i = Phi d sources" for sources
      proof -
        obtain s where s: "s \<in> set sources" "prev = Some (phi_predecessor s)"
          by (rule phi_source_taken [OF wf at js_step.hyps(2) p])
        have "phi_value s \<in> S0" by (rule phi_read_assigned [OF wf ih(4) at(2) js_step.hyps(2) p s])
        then have "phi_value s \<in> N \<longrightarrow> js_num J (ent (phi_value s))" using ih(3) now(1) by force
        then show ?thesis using s by blast
      qed
    qed
  qed
  have kept: "vars' n = vars n" if "n \<in> nf_parameters facts" "n \<notin> nf_modified facts" for n
    by (rule unmodified_kept [OF js_step.hyps(3) ins]) (use that facts(2) in auto)
  have "numbers_now J facts N P initial she ?sh phis vars'"
    using now new kept by (auto simp: numbers_now_def shadow_def split: option.splits)
  moreover have "\<forall>v\<in>S \<union> set_option (dest ?i). ?sh v = env' v"
    using ih(2) effect_keeps [OF js_step.hyps(3)] by (auto simp: shadow_def split: option.splits)
  ultimately show ?case using run' ih(3,4) by blast
next
  case (js_follow prev b i S ent env vars c)
  then obtain sh she phis S0 where ih: "ssa_exec fn g ssa names place initial b i sh vars phis" "\<forall>v\<in>S. sh v = env v"
    "numbers_now J facts N P initial she sh phis vars" by blast
  have edge: "(b, c) \<in> flow_edge fn" using js_follow.hyps(3) by (simp add: js_edge_def)
  have node: "b \<in> cfg_nodes fn" using exec_agrees [OF wf R ih(1)] by simp
  have r: "reaches fn (Some b) c 0 S"
    using js_exec_reaches [OF wf js_exec.js_follow [OF js_follow.hyps(1,2,3)]] by simp
  have run': "ssa_exec fn g ssa names place initial c 0 sh vars (enter_phis g ssa place initial b c sh phis)"
    by (rule ssa_exec.follow_edge [OF ih(1) js_follow.hyps(2) edge])
  have now: "\<forall>v\<in>N. js_num J (sh v)" "\<forall>q\<in>P. js_num J (phis q)" "\<forall>q\<in>P. \<not> doomed_phi facts N P q"
    using ih(3) fixed by (simp_all add: numbers_now_def numbers_fixed_def)
  have "places_ok fn g ssa names place" using V by (simp add: views_def)
  note phis = phis_enter [OF ssa_readyD(1) [OF R] this node edge facts(1) now(3) init now(1,2)]
  have "numbers_now J facts N P initial sh sh (enter_phis g ssa place initial b c sh phis) vars"
    using ih(3) phis by (auto simp: numbers_now_def)
  then show ?case using run' ih(2) r by blast
qed

section \<open>Properties\<close>

lemma finite_ssa_variable_names: "finite frame_locals \<Longrightarrow> finite (ssa_variable_names fn frame_locals)"
  by (simp add: ssa_variable_names_def loaded_names_def)

lemma infer_function_sound:
  assumes "verify_function m fn = Some (Inr ())" and "entry_has_no_edge fn" and "finite frame_locals"
    and "finite (extra_numbers seeds)" and "card (ssa_variable_names fn frame_locals) * length (fn_blocks fn) < 2 ^ 32"
    and "js_ok J"
  obtains classes where "infer_function m fn frame_locals seeds = Some classes" "vc_int32s classes \<subseteq> vc_numbers classes"
    "\<And>initial prev b i S ent env vars v.
       \<forall>n\<in>number_parameters fn (param_flags fn (param_is_number seeds)). js_num J (initial n) \<Longrightarrow>
       js_exec J m fn (ssa_variable_names fn frame_locals \<union> number_parameters fn (param_flags fn (param_is_number seeds)))
         (extra_numbers seeds) initial prev b i S ent env vars \<Longrightarrow>
       v \<in> S \<Longrightarrow> v \<in> vc_numbers classes \<Longrightarrow> js_num J (env v)"
proof -
  have wf: "wf_function m fn" using assms(1) verify_function_result(2) by blast
  let ?names = "ssa_variable_names fn frame_locals" and ?extra = "extra_numbers seeds"
  let ?params = "number_parameters fn (param_flags fn (param_is_number seeds))"
  have fin: "finite ?names" by (rule finite_ssa_variable_names [OF assms(3)])
  have list: "distinct (sorted_list_of_set ?names)" "set (sorted_list_of_set ?names) = ?names"
    "length (sorted_list_of_set ?names) = card ?names" using fin by simp_all
  have room: "length (sorted_list_of_set ?names) * length (fn_blocks fn) \<le> 2 ^ 32" using assms(5) list(3) by simp
  obtain g K fr ssa place where ssa: "ssa_ready fn g K fr" "variable_ssa_build fn (sorted_list_of_set ?names) = Some ssa"
    "views fn g ssa ?names place" "phi_count ssa \<le> length (sorted_list_of_set ?names) * length (fn_blocks fn)"
    "\<And>d. \<forall>n\<in>?names. \<forall>b\<in>cfg_nodes fn. LoadVar d n \<notin> set (code_of fn b) \<Longrightarrow> load_definition ssa d = None"
    using build_result_sizes [OF wf assms(2) list(1) room] unfolding list(2) by metis
  let ?facts = "\<lparr>nf_variables = ssa, nf_parameters = ?params,
    nf_modified = Set.filter (\<lambda>n. n \<in> ?params) (store_names fn), nf_extra = ?extra\<rparr>"
  let ?N0 = "?extra \<union> set (List.map_filter (number_dest_shape m) (fn_instructions fn))"
  obtain N P where fp: "until_stable (number_pass m fn ?facts) (?N0, set (map of_nat [0..<phi_count ssa])) = Some (N, P)"
    "N \<subseteq> ?N0" "\<forall>q\<in>P. \<not> doomed_phi ?facts N P q" "\<forall>i\<in>set (fn_instructions fn). holds_in m ?facts N P i"
    using assms(4) by (rule_tac number_fixpoint [of ?N0 "set (map of_nat [0..<phi_count ssa])" m fn ?facts]) simp_all
  have "finite N" by (rule finite_subset [OF fp(2)]) (simp add: assms(4))
  then obtain I where I: "infer_int32 m fn ?names N = Some I" "I \<subseteq> N" by (rule infer_int32_ends)
  have "phi_count ssa < 2 ^ 32" using ssa(4) assms(5) list(3) by simp
  then have "infer_function m fn frame_locals seeds = Some \<lparr>vc_numbers = N, vc_int32s = I\<rparr>"
    using ssa(2) fp(1) I(1) by (simp add: infer_function_def analyze_def Let_def)
  moreover have "js_num J (env v)"
    if init: "\<forall>n\<in>?params. js_num J (initial n)" and run: "js_exec J m fn (?names \<union> ?params) ?extra initial prev b i S ent env vars"
      and v: "v \<in> S" "v \<in> N" for initial prev b i S ent env vars v
  proof -
    have fixed: "numbers_fixed m fn ?facts N P" using fp by (simp add: numbers_fixed_def)
    have run': "js_exec J m fn (?names \<union> nf_parameters ?facts) (nf_extra ?facts) initial prev b i S ent env vars" using run by simp
    obtain sh she phis where sh: "\<forall>v\<in>S. sh v = env v" "numbers_now J ?facts N P initial she sh phis vars"
      using number_run [OF wf ssa(1,3,5) assms(6) fixed _ _ _ run'] init by auto
    have "js_num J (sh v)" using v(2) sh(2) by (simp add: numbers_now_def)
    then show ?thesis using sh(1) v(1) by simp
  qed
  ultimately show ?thesis using that [of "\<lparr>vc_numbers = N, vc_int32s = I\<rparr>"] I(2) by simp
qed

text \<open>A function that adds 2147483647 and 1, for the witnesses.\<close>

definition two_numbers :: Module where
  "two_numbers = module_new\<lparr>mod_constants := [Number (F64 0x41DFFFFFFFC00000), Number (F64 0x3FF0000000000000)]\<rparr>"

definition sum_function :: Function where
  "sum_function = (function_new [] (BasicBlockId 0))\<lparr>fn_blocks :=
     [\<lparr>blk_id = BasicBlockId 0,
       blk_instructions = [Const (ValueId 0) (ConstantId 0), Const (ValueId 1) (ConstantId 1), Binary (ValueId 2) Add (ValueId 0) (ValueId 1)],
       blk_terminator = Return (Some (ValueId 2))\<rparr>]\<rparr>"

lemma sum_verified: "verify_function two_numbers sum_function = Some (Inr ())"
  by code_simp

lemma int32_numbers:
  "is_int32_number (F64 0x41DFFFFFFFC00000)" "is_int32_number (F64 0x3FF0000000000000)"
  "\<not> is_int32_number (F64 0x41E0000000000000)"
  by (simp_all add: is_int32_number_def f64_is_integral_def f64_truncated_def Let_def)

lemma sum_parts:
  "fn_instructions sum_function = [Const (ValueId 0) (ConstantId 0), Const (ValueId 1) (ConstantId 1), Binary (ValueId 2) Add (ValueId 0) (ValueId 1)]"
  "ssa_variable_names sum_function {} = {}" "variable_ssa_build sum_function [] = Some ssa_empty"
  "number_parameters sum_function (param_flags sum_function []) = {}"
  by (simp_all add: sum_function_def function_new_def fn_instructions_def ssa_variable_names_def loaded_names_def List.map_filter_def variable_ssa_build_def
    number_parameters_def)

lemma sum_classes:
  "infer_function two_numbers sum_function {} no_seeds =
     Some \<lparr>vc_numbers = {ValueId 0, ValueId 1, ValueId 2}, vc_int32s = {ValueId 0, ValueId 1, ValueId 2}\<rparr>"
proof -
  let ?N = "{ValueId 0, ValueId 1, ValueId 2}" and ?f = sum_function
  let ?facts = "\<lparr>nf_variables = ssa_empty, nf_parameters = {}, nf_modified = {}, nf_extra = {}\<rparr>"
  have c: "get_at (mod_constants two_numbers) (cix (ConstantId 0)) = Some (Number (F64 0x41DFFFFFFFC00000))"
    "get_at (mod_constants two_numbers) (cix (ConstantId 1)) = Some (Number (F64 0x3FF0000000000000))"
    by (simp_all add: two_numbers_def get_at_def cix_def)
  have shapes: "set (List.map_filter (number_dest_shape two_numbers) (fn_instructions ?f)) = ?N"
    by (simp add: sum_parts(1) List.map_filter_def number_dest_shape_def c)
  have "number_pass two_numbers ?f ?facts (?N, {}) = ((?N, {}), False)"
    by (simp add: number_pass_def number_visit_def sum_parts(1) number_dest_shape_def number_holds_def c)
  then have numbers: "until_stable (number_pass two_numbers ?f ?facts) (?N, {}) = Some (?N, {})"
    by (subst until_stable.simps) simp
  have constants: "int32_constants two_numbers ?f ?N = {ValueId 0, ValueId 1}"
    by (simp add: int32_constants_def sum_parts(1) List.map_filter_def c int32_numbers)
  have names: "number_var_names ?f I = {}" for I
    by (simp add: number_var_names_def store_names_def sum_parts(1) List.map_filter_def)
  have passes: "int32_pass ?f {} ?N ({ValueId 0, ValueId 1}, {}) = ((?N, {}), True)"
    "int32_pass ?f {} ?N (?N, {}) = ((?N, {}), False)"
    by (simp_all add: int32_pass_def int32_visit_def int32_dest_def sum_parts(1) names) auto
  have "until_stable (int32_pass ?f {} ?N) (?N, {}) = Some (?N, {})"
    by (subst until_stable.simps) (simp add: passes(2))
  then have "until_stable (int32_pass ?f {} ?N) ({ValueId 0, ValueId 1}, {}) = Some (?N, {})"
    by (subst until_stable.simps) (simp add: passes(1))
  then have "infer_int32 two_numbers ?f {} ?N = Some ?N" by (simp add: infer_int32_def constants names)
  then show ?thesis
    using numbers by (simp add: infer_function_def analyze_def no_seeds_def sum_parts(2-4) shapes phi_count_def ssa_empty_def)
qed

lemma sum_run:
  fixes J :: "'v js"
  assumes "js_num J x"
  shows "\<exists>S vars. ValueId 2 \<in> S \<and>
    js_exec J two_numbers sum_function {} {} initial None (BasicBlockId 0) 3 S (\<lambda>_. x) (\<lambda>_. x) vars"
proof -
  let ?run = "js_exec J two_numbers sum_function {} {} initial None (BasicBlockId 0)" and ?e = "\<lambda>_. x"
  have c: "code_of sum_function (BasicBlockId 0) = [Const (ValueId 0) (ConstantId 0), Const (ValueId 1) (ConstantId 1),
      Binary (ValueId 2) Add (ValueId 0) (ValueId 1)]" by (simp add: sum_function_def bix_def)
  have k: "get_at (mod_constants two_numbers) (cix (ConstantId 0)) = Some (Number (F64 0x41DFFFFFFFC00000))"
    "get_at (mod_constants two_numbers) (cix (ConstantId 1)) = Some (Number (F64 0x3FF0000000000000))"
    by (simp_all add: two_numbers_def get_at_def cix_def)
  have "fn_entry sum_function = BasicBlockId 0" by (simp add: sum_function_def function_new_def)
  then have "?run 0 {} ?e ?e initial" using js_exec.js_enter [of J two_numbers sum_function "{}" "{}" initial ?e] by simp
  then have "?run (Suc 0) ({} \<union> {ValueId 0}) ?e ?e initial"
    using js_exec.js_step [of J two_numbers sum_function "{}" "{}" initial None "BasicBlockId 0" 0 "{}" ?e ?e initial ?e initial]
      assms c k by (simp add: effect_def js_result_def dest_def)
  then have "?run (Suc (Suc 0)) ({ValueId 0} \<union> {ValueId 1}) ?e ?e initial"
    using js_exec.js_step [of J two_numbers sum_function "{}" "{}" initial None "BasicBlockId 0" "Suc 0" "{ValueId 0}" ?e ?e initial ?e initial]
      assms c k by (simp add: effect_def js_result_def dest_def)
  then have "?run (Suc (Suc (Suc 0))) ({ValueId 0, ValueId 1} \<union> {ValueId 2}) ?e ?e initial"
    using js_exec.js_step [of J two_numbers sum_function "{}" "{}" initial None "BasicBlockId 0" "Suc (Suc 0)" "{ValueId 0, ValueId 1}"
        ?e ?e initial ?e initial] assms c by (simp add: effect_def js_result_def dest_def insert_commute)
  then show ?thesis by (intro exI [of _ "{ValueId 0, ValueId 1} \<union> {ValueId 2}"] exI [of _ initial]) (simp add: numeral_3_eq_3)
qed

text \<open>
  C16: The classes of values are sound: the analysis of a verified function ends, and in every
  execution in which the promised parameters start as Numbers and the promised values are Numbers,
  every assigned value that the classes say cannot throw is a Number and not an exception. Loops,
  phi nodes and variables are included: a value is kept because all its sources are kept. The frame
  is the only writer of the variables analysed, and the entry is not the target of a jump.
\<close>

theorem value_classes_sound:
  assumes "verify_function m fn = Some (Inr ())" and "entry_has_no_edge fn" and "finite frame_locals"
    and "finite (extra_numbers seeds)" and "card (ssa_variable_names fn frame_locals) * length (fn_blocks fn) < 2 ^ 32"
    and "js_ok J"
  shows "\<exists>classes. infer_function m fn frame_locals seeds = Some classes \<and>
    (\<forall>initial prev b i S ent env vars v.
       (\<forall>n\<in>number_parameters fn (param_flags fn (param_is_number seeds)). js_num J (initial n)) \<and>
       js_exec J m fn (ssa_variable_names fn frame_locals \<union> number_parameters fn (param_flags fn (param_is_number seeds)))
         (extra_numbers seeds) initial prev b i S ent env vars \<and>
       v \<in> S \<and> cannot_throw classes v \<longrightarrow>
       js_num J (env v) \<and> \<not> js_exc J (env v))"
proof -
  obtain classes where c: "infer_function m fn frame_locals seeds = Some classes" "vc_int32s classes \<subseteq> vc_numbers classes"
    "\<And>initial prev b i S ent env vars v.
       \<forall>n\<in>number_parameters fn (param_flags fn (param_is_number seeds)). js_num J (initial n) \<Longrightarrow>
       js_exec J m fn (ssa_variable_names fn frame_locals \<union> number_parameters fn (param_flags fn (param_is_number seeds)))
         (extra_numbers seeds) initial prev b i S ent env vars \<Longrightarrow>
       v \<in> S \<Longrightarrow> v \<in> vc_numbers classes \<Longrightarrow> js_num J (env v)"
    using infer_function_sound [OF assms] by metis
  then show ?thesis using assms(6) by (intro exI [of _ classes]) (auto simp: cannot_throw_def js_ok_def)
qed

theorem value_classes_sound_witness:
  "\<exists>classes S env vars. infer_function two_numbers sum_function {} no_seeds = Some classes \<and>
     js_exec small_js two_numbers sum_function {} {} (\<lambda>_. 0) None (BasicBlockId 0) 3 S env env vars \<and>
     ValueId 2 \<in> S \<and> cannot_throw classes (ValueId 2) \<and> js_num small_js (env (ValueId 2)) \<and> \<not> js_exc small_js (env (ValueId 2))"
proof -
  have e: "entry_has_no_edge sum_function" by (rule entry_has_no_edge_check) code_simp
  have room: "card (ssa_variable_names sum_function {}) * length (fn_blocks sum_function) < 2 ^ 32" by (simp add: sum_parts(2))
  have extra: "finite (extra_numbers no_seeds)" "extra_numbers no_seeds = {}" "param_is_number no_seeds = []"
    by (simp_all add: no_seeds_def)
  have "js_num small_js 3" by (simp add: small_js_def)
  then obtain S vars where run: "ValueId 2 \<in> S"
    "js_exec small_js two_numbers sum_function {} {} (\<lambda>_. 0) None (BasicBlockId 0) 3 S (\<lambda>_. 3) (\<lambda>_. 3) vars"
    using sum_run [of small_js 3 "\<lambda>_. 0"] \<open>js_num small_js 3\<close> by blast
  let ?c = "\<lparr>vc_numbers = {ValueId 0, ValueId 1, ValueId 2}, vc_int32s = {ValueId 0, ValueId 1, ValueId 2}\<rparr>"
  have "cannot_throw ?c (ValueId 2)" by (simp add: cannot_throw_def)
  moreover from this have "js_num small_js 3 \<and> \<not> js_exc small_js (3::nat)"
    using value_classes_sound [OF sum_verified e finite.emptyI extra(1) room small_js_ok] run
    by (fastforce simp: sum_parts extra sum_classes)
  ultimately show ?thesis using run sum_classes by (intro exI [of _ ?c] exI [of _ S] exI [of _ "\<lambda>_. 3"] exI [of _ vars]) simp
qed

text \<open>
  The set \<open>int32s\<close> is not a set of 32-bit integers: the analysis puts the sum of 2147483647 and 1
  into it, because both operands are in it, although the sum 2147483648 is not an \<open>i32\<close>. The native
  backend compares such values as integers and answers false when one of them does not fit.
\<close>

theorem int32_sum_overflows:
  "\<exists>classes. infer_function two_numbers sum_function {} no_seeds = Some classes \<and>
     get_at (mod_constants two_numbers) 0 = Some (Number (F64 0x41DFFFFFFFC00000)) \<and>
     get_at (mod_constants two_numbers) 1 = Some (Number (F64 0x3FF0000000000000)) \<and>
     f64_truncated 0x41DFFFFFFFC00000 + f64_truncated 0x3FF0000000000000 = f64_truncated 0x41E0000000000000 \<and>
     f64_is_integral 0x41E0000000000000 \<and> \<not> is_int32_number (F64 0x41E0000000000000) \<and>
     ValueId 2 \<in> vc_int32s classes"
proof -
  have "f64_truncated 0x41DFFFFFFFC00000 + f64_truncated 0x3FF0000000000000 = f64_truncated 0x41E0000000000000"
    "f64_is_integral 0x41E0000000000000" by (simp_all add: f64_truncated_def f64_is_integral_def Let_def)
  moreover have "get_at (mod_constants two_numbers) 0 = Some (Number (F64 0x41DFFFFFFFC00000))"
    "get_at (mod_constants two_numbers) 1 = Some (Number (F64 0x3FF0000000000000))"
    by (simp_all add: two_numbers_def get_at_def)
  ultimately show ?thesis using int32_numbers(3) sum_classes by simp
qed

end
