(* ===== verification/Typed_Cfg_Correct.thy ===== *)
theory Typed_Cfg_Correct
  imports Typed_Cfg Value_Class_Correct Opt_Dce_Correct
begin

text \<open>
  The rewriting by value classes keeps the executions: a state is reached by the rewritten function
  exactly when the original reaches it. The proof goes through the three rewritings in turn; each
  is valid because of what is known about the values assigned so far.
\<close>

section \<open>Replacing instructions\<close>

definition replaced :: "(Instruction \<Rightarrow> Instruction option) \<Rightarrow> Instruction \<Rightarrow> Instruction" where
  "replaced f i = (case f i of None \<Rightarrow> i | Some i' \<Rightarrow> i')"

abbreviation rewritten :: "(Instruction \<Rightarrow> Instruction option) \<Rightarrow> Function \<Rightarrow> Function" where
  "rewritten f fn \<equiv> fst (rewrite_instructions f fn)"

definition rewrite_ok :: "Module \<Rightarrow> (Instruction \<Rightarrow> Instruction option) \<Rightarrow> bool" where
  \<comment> \<open>a replacement assigns the same value, reads no others, and is neither a phi node nor forwards arguments\<close>
  "rewrite_ok m f \<longleftrightarrow>
     (\<forall>i i'. f i = Some i' \<longrightarrow> dest i' = dest i \<and> set (uses i') \<subseteq> set (uses i) \<and> \<not> is_phi i \<and> \<not> is_phi i' \<and>
        \<not> forwards_with_args i' \<and> (\<forall>d c. i' = Const d c \<longrightarrow> cix c < length (mod_constants m)))"

lemma rewritten_blocks:
  "fn_blocks (rewritten f fn) = map (\<lambda>b. b\<lparr>blk_instructions := map (replaced f) (blk_instructions b)\<rparr>) (fn_blocks fn)"
  "fn_entry (rewritten f fn) = fn_entry fn" "fn_home_object (rewritten f fn) = fn_home_object fn"
  by (simp_all add: rewrite_instructions_def replaced_def)

lemma rewritten_code:
  assumes "bix b < length (fn_blocks fn)"
  shows "code_of (rewritten f fn) b = map (replaced f) (code_of fn b)"
    "blk_terminator (fn_blocks (rewritten f fn) ! bix b) = blk_terminator (fn_blocks fn ! bix b)"
  using assms by (simp_all add: rewritten_blocks)

lemma rewritten_edges: "flow_edge (rewritten f fn) = flow_edge fn"
  by (auto simp: flow_edge_def rewritten_blocks)

lemma rewritten_instructions: "fn_instructions (rewritten f fn) = map (replaced f) (fn_instructions fn)"
  by (simp add: fn_instructions_def rewritten_blocks map_concat o_def)

lemma rewritten_paths: "on_every_path (rewritten f fn) = on_every_path fn"
  by (simp add: fun_eq_iff on_every_path_cong [OF rewritten_edges rewritten_blocks(2)])

lemma replaced_dest: "rewrite_ok m f \<Longrightarrow> dest (replaced f i) = dest i"
  by (auto simp: rewrite_ok_def replaced_def split: option.split)

lemma rewritten_definitions: "rewrite_ok m f \<Longrightarrow> defined_at (rewritten f fn) = defined_at fn"
  by (auto simp: defined_at_def rewritten_blocks replaced_dest fun_eq_iff)

lemma rewritten_dests:
  assumes "rewrite_ok m f" shows "fn_dests (rewritten f fn) = fn_dests fn"
proof -
  have "List.map_filter dest (map (replaced f) is) = List.map_filter dest is" for "is"
    using replaced_dest [OF assms] by (induction "is") (simp_all split: option.split)
  then show ?thesis
    using rewritten_instructions [of f fn] by (simp add: fn_dests_def fn_instructions_def [symmetric])
qed

lemma rewritten_use_ok: "rewrite_ok m f \<Longrightarrow> use_ok (rewritten f fn) = use_ok fn"
  by (simp add: use_ok_def rewritten_definitions rewritten_paths fun_eq_iff)

lemma instruction_wf_replaced:
  assumes ok: "rewrite_ok m f" and wf: "instruction_wf fn b k i"
  shows "instruction_wf (rewritten f fn) (b\<lparr>blk_instructions := is\<rparr>) k (replaced f i)"
proof (cases "f i")
  case None
  have "phi_ok (rewritten f fn) (b\<lparr>blk_instructions := is\<rparr>) sources = phi_ok fn b sources" for sources
    by (simp add: phi_ok_def rewritten_use_ok [OF ok] rewritten_edges rewritten_blocks(2))
  then show ?thesis using None wf by (cases i) (simp_all add: replaced_def instruction_wf_def rewritten_use_ok [OF ok])
next
  case (Some i')
  then have i': "set (uses i') \<subseteq> set (uses i)" "\<not> is_phi i" "\<not> is_phi i'" "\<not> forwards_with_args i'"
    using ok by (auto simp: rewrite_ok_def)
  have "\<forall>v\<in>set (uses i). use_ok fn v (blk_id b) (Some k)" using wf i'(2) by (cases i) (simp_all add: instruction_wf_def)
  then have "\<forall>v\<in>set (uses i'). use_ok (rewritten f fn) v (blk_id b) (Some k)" using i'(1) rewritten_use_ok [OF ok] by auto
  then show ?thesis using Some i'(3,4) by (cases i') (simp_all add: replaced_def instruction_wf_def)
qed

lemma wf_rewritten:
  assumes wf: "wf_function m fn" and ok: "rewrite_ok m' f"
    and larger: "length (mod_constants m) \<le> length (mod_constants m')" "length (mod_functions m) \<le> length (mod_functions m')"
  shows "wf_function m' (rewritten f fn)"
proof -
  note w = wf [unfolded wf_function_def]
  have "block_wf m' (rewritten f fn) k (fn_blocks (rewritten f fn) ! k)" if k: "k < length (fn_blocks fn)" for k
  proof -
    let ?b = "fn_blocks fn ! k"
    have b: "block_wf m fn k ?b" using w k by blast
    have "cix c < length (mod_constants m')" if c: "Const d c = replaced f i" "i \<in> set (blk_instructions ?b)" for d c i
    proof (cases "f i")
      case None
      then have "cix c < length (mod_constants m)" using b c by (auto simp: replaced_def block_wf_def constants_in_range_def)
      then show ?thesis using larger(1) by simp
    next
      case (Some i')
      then show ?thesis using ok c(1) by (auto simp: rewrite_ok_def replaced_def)
    qed
    moreover have "case blk_terminator ?b of Switch _ cases _ _ \<Rightarrow> \<forall>c\<in>set cases. cix (case_constant c) < length (mod_constants m') | _ \<Rightarrow> True"
      using b larger(1) by (cases "blk_terminator ?b") (auto simp: block_wf_def constants_in_range_def)
    ultimately show ?thesis using b k by (auto simp: block_wf_def constants_in_range_def rewritten_blocks)
  qed
  moreover have "uses_ok (rewritten f fn) b'" if b': "b' \<in> set (fn_blocks (rewritten f fn))" for b'
  proof -
    obtain b where b: "b \<in> set (fn_blocks fn)" "b' = b\<lparr>blk_instructions := map (replaced f) (blk_instructions b)\<rparr>"
      using b' by (auto simp: rewritten_blocks)
    have u: "uses_ok fn b" using w b(1) by blast
    then show ?thesis
      unfolding uses_ok_def b(2) using instruction_wf_replaced [OF ok] by (simp add: rewritten_use_ok [OF ok])
  qed
  moreover have "distinct (fn_dests (rewritten f fn))" using w by (simp add: rewritten_dests [OF ok])
  ultimately show ?thesis using w larger(2) by (auto simp: wf_function_def rewritten_blocks)
qed

section \<open>The same runs\<close>

lemma runs_same:
  \<comment> \<open>two functions run alike when every step from a reached state does\<close>
  assumes entry: "fn_entry fn' = fn_entry fn"
    and len: "\<And>prev b i S ent env vars. js_exec J m fn names extra initial prev b i S ent env vars \<Longrightarrow>
      length (code_of fn' b) = length (code_of fn b)"
    and step: "\<And>prev b i S ent env vars env' vars'. js_exec J m fn names extra initial prev b i S ent env vars \<Longrightarrow>
      i < length (code_of fn b) \<Longrightarrow> dest (code_of fn' b ! i) = dest (code_of fn b ! i) \<and>
      (effect names (code_of fn' b ! i) env vars env' vars' \<and> js_result J m' prev ent (code_of fn' b ! i) env env' \<longleftrightarrow>
       effect names (code_of fn b ! i) env vars env' vars' \<and> js_result J m prev ent (code_of fn b ! i) env env')"
    and edge: "\<And>prev b i S ent env vars c. js_exec J m fn names extra initial prev b i S ent env vars \<Longrightarrow>
      i = length (code_of fn b) \<Longrightarrow> js_edge J fn' env b c \<longleftrightarrow> js_edge J fn env b c"
  shows "js_exec J m' fn' names extra initial prev b i S ent env vars \<longleftrightarrow>
    js_exec J m fn names extra initial prev b i S ent env vars"
proof
  assume "js_exec J m fn names extra initial prev b i S ent env vars"
  then show "js_exec J m' fn' names extra initial prev b i S ent env vars"
  proof (induction rule: js_exec.induct)
    case (js_enter env)
    then show ?case using js_exec.js_enter [of J m' fn'] by (simp add: entry)
  next
    case (js_step prev b i S ent env vars env' vars')
    note same = step [OF js_step.hyps(1,2), of env' vars']
    show ?case
      using js_exec.js_step [OF js_step.IH, of env' vars'] same js_step.hyps(2-5) len [OF js_step.hyps(1)] by simp
  next
    case (js_follow prev b i S ent env vars c)
    show ?case
      by (rule js_exec.js_follow [OF js_follow.IH])
        (use len [OF js_follow.hyps(1)] edge [OF js_follow.hyps(1,2)] js_follow.hyps(2,3) in simp_all)
  qed
next
  assume "js_exec J m' fn' names extra initial prev b i S ent env vars"
  then show "js_exec J m fn names extra initial prev b i S ent env vars"
  proof (induction rule: js_exec.induct)
    case (js_enter env)
    then show ?case using js_exec.js_enter [of J m fn] by (simp add: entry)
  next
    case (js_step prev b i S ent env vars env' vars')
    have i: "i < length (code_of fn b)" using js_step.hyps(2) len [OF js_step.IH] by simp
    note same = step [OF js_step.IH i, of env' vars']
    show ?case using js_exec.js_step [OF js_step.IH i, of env' vars'] same js_step.hyps(2-5) by simp
  next
    case (js_follow prev b i S ent env vars c)
    have i: "i = length (code_of fn b)" using js_follow.hyps(2) len [OF js_follow.IH] by simp
    show ?case by (rule js_exec.js_follow [OF js_follow.IH i]) (use edge [OF js_follow.IH i] js_follow.hyps(3) in simp)
  qed
qed

section \<open>What is known about assigned values\<close>

definition value_fact :: "'v js \<Rightarrow> Module \<Rightarrow> Instruction \<Rightarrow> 'v \<Rightarrow> bool" where
  "value_fact J m i x \<longleftrightarrow>
     (case i of
        Const d c \<Rightarrow> \<not> js_exc J x \<and> (\<forall>flag. get_at (mod_constants m) (cix c) = Some (Bool flag) \<longrightarrow> x = js_bool J flag)
      | Compare d op l r \<Rightarrow> \<not> is_relational op \<longrightarrow> \<not> js_exc J x
      | NewObject _ _ \<Rightarrow> js_obj J x \<and> \<not> js_exc J x
      | InitObjectLiteral _ _ _ \<Rightarrow> js_obj J x \<and> \<not> js_exc J x
      | NewArray _ _ \<Rightarrow> \<not> js_exc J x
      | CallBuiltin _ b _ \<Rightarrow> b = CREATE_CLOSURE \<longrightarrow> \<not> js_exc J x
      | _ \<Rightarrow> True)"

lemma result_fact:
  assumes J: "js_ok J" and res: "js_result J m prev ent i env env'" and d: "dest i = Some d"
  shows "value_fact J m i (env' d)"
proof (cases i)
  case (Const d' c)
  then show ?thesis using res d J
    by (cases "get_at (mod_constants m) (cix c)") (auto simp: js_result_def value_fact_def dest_def js_ok_def split: Constant.splits)
next
  case (Compare d' op l r)
  then show ?thesis using res d by (simp add: js_result_def value_fact_def dest_def split: if_splits)
qed (use res d J in \<open>simp_all add: js_result_def value_fact_def dest_def builtin_result_def js_ok_def\<close>)

lemma run_facts:
  assumes wf: "wf_function m' fn" and J: "js_ok J"
    and run: "js_exec J m fn names extra initial prev b i S ent env vars"
    and v: "v \<in> S" "j \<in> set (fn_instructions fn)" "dest j = Some v"
  shows "value_fact J m j (env v)"
  using run v
proof (induction arbitrary: v j rule: js_exec.induct)
  case (js_enter env)
  then show ?case by simp
next
  case (js_step prev b i S ent env vars env' vars')
  let ?i = "code_of fn b ! i"
  have b: "bix b < length (fn_blocks fn)" using js_exec_reaches [OF wf js_step.hyps(1)] by simp
  show ?case
  proof (cases "dest ?i = Some v")
    case True
    then have "j = ?i" using same_definition [OF wf b js_step.hyps(2) True js_step.prems(2,3)] by simp
    then show ?thesis using result_fact [OF J js_step.hyps(4) True] by simp
  next
    case False
    then have "v \<in> S" using js_step.prems(1) by auto
    then show ?thesis using js_step.IH js_step.prems(2,3) effect_keeps [OF js_step.hyps(3) False] by simp
  qed
qed

lemma foldl_insertion:
  \<comment> \<open>an entry of a map that was built by insertions was inserted\<close>
  assumes "foldl g defs is v = Some y" and "\<And>defs i. g defs i v = Some y \<Longrightarrow> defs v = Some y \<or> Q i"
  shows "defs v = Some y \<or> (\<exists>i\<in>set is. Q i)"
  using assms(1)
proof (induction "is" arbitrary: defs)
  case (Cons i "is")
  then have "foldl g (g defs i) is v = Some y" by simp
  from Cons.IH [OF this] assms(2) [of defs i] show ?case by auto
qed simp

lemma instruction_defs_some:
  assumes "instruction_defs fn v = Some i" shows "i \<in> set (fn_instructions fn)" "dest i = Some v"
proof -
  have d: "dest_of i = Some d \<Longrightarrow> dest i = Some d" for i d by (cases i) (simp_all add: dest_of_def dest_def)
  have "Map.empty v = Some i \<or> (\<exists>j\<in>set (fn_instructions fn). j = i \<and> dest_of j = Some v)"
    by (rule foldl_insertion [OF assms [unfolded instruction_defs_def]]) (simp split: option.splits if_splits)
  then show "i \<in> set (fn_instructions fn)" "dest i = Some v" using d by auto
qed

lemma constant_bools_some:
  assumes "constant_bools cs fn v = Some flag"
  shows "\<exists>c. Const v c \<in> set (fn_instructions fn) \<and> get_at cs (cix c) = Some (Bool flag)"
proof -
  have "Map.empty v = Some flag \<or> (\<exists>i\<in>set (fn_instructions fn). \<exists>c. i = Const v c \<and> get_at cs (cix c) = Some (Bool flag))"
  proof (rule foldl_insertion [OF assms [unfolded constant_bools_def]])
    fix bools i
    assume "(case i of
        Const d c \<Rightarrow> (case get_at cs (cix c) of Some (Bool flag) \<Rightarrow> bools(d \<mapsto> flag) | _ \<Rightarrow> bools)
      | _ \<Rightarrow> bools) v = Some flag"
    then show "bools v = Some flag \<or> (\<exists>c. i = Const v c \<and> get_at cs (cix c) = Some (Bool flag))"
      by (cases i) (simp_all split: option.splits Constant.splits if_splits)
  qed
  then show ?thesis by auto
qed

section \<open>The three rewritings\<close>

definition extends :: "Module \<Rightarrow> Module \<Rightarrow> bool" where
  \<comment> \<open>\<open>m'\<close> has the constants of \<open>m\<close>, possibly more, and the same functions\<close>
  "extends m m' \<longleftrightarrow> (\<exists>more. mod_constants m' = mod_constants m @ more) \<and> mod_functions m' = mod_functions m"

lemma extends_constant: "extends m m' \<Longrightarrow> k < length (mod_constants m) \<Longrightarrow> get_at (mod_constants m') k = get_at (mod_constants m) k"
  by (auto simp: extends_def get_at_def nth_append)

lemma wf_constant:
  assumes wf: "wf_function m fn" and b: "bix b < length (fn_blocks fn)" "i < length (code_of fn b)" "code_of fn b ! i = Const d c"
  shows "cix c < length (mod_constants m)"
proof -
  have "Const d c \<in> set (code_of fn b)" using b(2,3) by (metis nth_mem)
  then show ?thesis using wf b(1) by (auto simp: wf_function_def block_wf_def constants_in_range_def)
qed

lemma js_result_extends:
  assumes "\<And>d c. i = Const d c \<Longrightarrow> get_at (mod_constants m') (cix c) = get_at (mod_constants m) (cix c)"
  shows "js_result J m' prev ent i env env' = js_result J m prev ent i env env'"
  using assms by (cases i) (simp_all add: js_result_def)

lemma rewritten_runs_same:
  fixes J :: "'v js"
  assumes wf: "wf_function m fn" and ok: "rewrite_ok m' f" and ext: "extends m m'"
    and eff: "\<And>i i'. f i = Some i' \<Longrightarrow> (effect names i' :: 'v value_env \<Rightarrow> _) = effect names i"
    and res: "\<And>prev b i S ent env vars env' i'. js_exec J m fn names extra initial prev b i S ent env vars \<Longrightarrow>
      i < length (code_of fn b) \<Longrightarrow> f (code_of fn b ! i) = Some i' \<Longrightarrow>
      js_result J m' prev ent i' env env' \<longleftrightarrow> js_result J m prev ent (code_of fn b ! i) env env'"
  shows "js_exec J m' (rewritten f fn) names extra initial prev b i S ent env vars \<longleftrightarrow>
    js_exec J m fn names extra initial prev b i S ent env vars"
proof (rule runs_same)
  show "fn_entry (rewritten f fn) = fn_entry fn" by (rule rewritten_blocks(2))
next
  fix prev b i S ent env vars
  assume run: "js_exec J m fn names extra initial prev b i S ent env vars"
  have b: "bix b < length (fn_blocks fn)" using js_exec_reaches [OF wf run] by simp
  show "length (code_of (rewritten f fn) b) = length (code_of fn b)" by (simp add: rewritten_code(1) [OF b])
  show "js_edge J (rewritten f fn) env b c \<longleftrightarrow> js_edge J fn env b c" for c
    by (simp add: js_edge_def rewritten_edges rewritten_code(2) [OF b])
  fix env' vars'
  assume i: "i < length (code_of fn b)"
  let ?i = "code_of fn b ! i"
  have new: "code_of (rewritten f fn) b ! i = replaced f ?i" using i by (simp add: rewritten_code(1) [OF b])
  have "(effect names (replaced f ?i) env vars env' vars' \<and> js_result J m' prev ent (replaced f ?i) env env') =
      (effect names ?i env vars env' vars' \<and> js_result J m prev ent ?i env env')"
  proof (cases "f ?i")
    case None
    have "js_result J m' prev ent ?i env env' = js_result J m prev ent ?i env env'"
      by (rule js_result_extends, rule extends_constant [OF ext], rule wf_constant [OF wf b i])
    then show ?thesis using None by (simp add: replaced_def)
  next
    case (Some i')
    then show ?thesis using eff [OF Some] res [OF run i Some] by (simp add: replaced_def)
  qed
  then show "dest (code_of (rewritten f fn) b ! i) = dest ?i \<and>
      (effect names (code_of (rewritten f fn) b ! i) env vars env' vars' \<and> js_result J m' prev ent (code_of (rewritten f fn) b ! i) env env' \<longleftrightarrow>
       effect names ?i env vars env' vars' \<and> js_result J m prev ent ?i env env')"
    using replaced_dest [OF ok, of ?i] new by simp
qed

subsection \<open>Tests for exceptions\<close>

definition only_strict_compares :: "Function \<Rightarrow> bool" where
  \<comment> \<open>what the front end emits: the relational comparisons are calls of \<open>AbstractCompare\<close>\<close>
  "only_strict_compares fn \<longleftrightarrow> list_all (\<lambda>i. case i of Compare _ op _ _ \<Rightarrow> \<not> is_relational op | _ \<Rightarrow> True) (fn_instructions fn)"

lemma fold_is_exceptionE:
  assumes "fold_is_exception defs classes c i = Some i'"
  obtains d v where "i = IsException d v" "i' = Const d c" "cannot_throw classes v \<or> is_always_non_exception defs v (vc_numbers classes)"
  using assms by (cases i) (auto simp: fold_is_exception_def split: if_splits)

lemma non_exception_fact:
  fixes J :: "'v js"
  assumes "is_always_non_exception (instruction_defs fn) v N" "v \<notin> N" "only_strict_compares fn"
  obtains i where "i \<in> set (fn_instructions fn)" "dest i = Some v" "\<And>m x. value_fact J m i x \<Longrightarrow> \<not> js_exc J x"
proof -
  obtain i where i: "instruction_defs fn v = Some i" using assms(1,2) by (auto simp: is_always_non_exception_def split: option.splits)
  note at = instruction_defs_some [OF i]
  have strict: "\<not> is_relational op" if "i = Compare d op l r" for d op l r
    using that assms(3) at(1) by (auto simp: only_strict_compares_def list_all_iff)
  have "case i of Const _ _ \<Rightarrow> True | NewObject _ _ \<Rightarrow> True | InitObjectLiteral _ _ _ \<Rightarrow> True | Compare _ _ _ _ \<Rightarrow> True
      | NewArray _ _ \<Rightarrow> True | _ \<Rightarrow> False"
    using assms(1,2) i by (simp add: is_always_non_exception_def)
  then have "\<not> js_exc J x" if "value_fact J m i x" for m x
    using that strict by (cases i) (simp_all add: value_fact_def)
  then show ?thesis using that at by blast
qed

lemma fold_is_exception_ok:
  "get_at (mod_constants m') (cix c) = Some (Bool False) \<Longrightarrow> rewrite_ok m' (fold_is_exception defs classes c)"
  by (auto simp: rewrite_ok_def dest_def uses_def get_at_def elim!: fold_is_exceptionE split: if_splits)

lemma fold_is_exception_wf:
  assumes "wf_function m fn" "extends m m'" "get_at (mod_constants m') (cix c) = Some (Bool False)"
  shows "wf_function m' (rewritten (fold_is_exception defs classes c) fn)"
  using assms(2) by (intro wf_rewritten [OF assms(1) fold_is_exception_ok [OF assms(3)]]) (auto simp: extends_def)

lemma fold_is_exception_runs:
  fixes J :: "'v js"
  assumes wf: "wf_function m fn" and J: "js_ok J" and ext: "extends m m'" and strict: "only_strict_compares fn"
    and c: "get_at (mod_constants m') (cix c) = Some (Bool False)"
    and num: "\<And>prev b i S ent env vars v. js_exec J m fn names extra initial prev b i S ent env vars \<Longrightarrow>
      v \<in> S \<Longrightarrow> cannot_throw classes v \<or> v \<in> vc_numbers classes \<Longrightarrow> js_num J (env v)"
  shows "js_exec J m' (rewritten (fold_is_exception (instruction_defs fn) classes c) fn) names extra initial prev b i S ent env vars \<longleftrightarrow>
     js_exec J m fn names extra initial prev b i S ent env vars"
proof -
  let ?f = "fold_is_exception (instruction_defs fn) classes c"
  note ok = fold_is_exception_ok [OF c, of "instruction_defs fn" classes]
  show "js_exec J m' (rewritten ?f fn) names extra initial prev b i S ent env vars \<longleftrightarrow>
     js_exec J m fn names extra initial prev b i S ent env vars"
  proof (rule rewritten_runs_same [OF wf ok ext])
    show "(effect names i' :: 'v value_env \<Rightarrow> _) = effect names i" if "?f i = Some i'" for i i'
      using that by (auto elim!: fold_is_exceptionE simp: effect_def dest_def fun_eq_iff)
  next
    fix prev b i S ent env vars env' i'
    assume run: "js_exec J m fn names extra initial prev b i S ent env vars" and i: "i < length (code_of fn b)"
      and f: "?f (code_of fn b ! i) = Some i'"
    obtain d v where v: "code_of fn b ! i = IsException d v" "i' = Const d c"
      "cannot_throw classes v \<or> is_always_non_exception (instruction_defs fn) v (vc_numbers classes)"
      using f by (rule fold_is_exceptionE)
    have at: "reaches fn prev b i S" "bix b < length (fn_blocks fn)" using js_exec_reaches [OF wf run] by auto
    have S: "v \<in> S" by (rule read_assigned [OF wf at i]) (use v(1) in \<open>simp_all add: uses_def\<close>)
    have "\<not> js_exc J (env v)"
    proof (cases "cannot_throw classes v \<or> v \<in> vc_numbers classes")
      case True
      then show ?thesis using num [OF run S] J by (simp add: js_ok_def)
    next
      case False
      then have "is_always_non_exception (instruction_defs fn) v (vc_numbers classes)" "v \<notin> vc_numbers classes"
        using v(3) by auto
      then obtain j where j: "j \<in> set (fn_instructions fn)" "dest j = Some v" "\<And>m x. value_fact J m j x \<Longrightarrow> \<not> js_exc J x"
        using non_exception_fact [OF _ _ strict] by metis
      show ?thesis by (rule j(3) [OF run_facts [OF wf J run S j(1,2)]])
    qed
    then show "js_result J m' prev ent i' env env' \<longleftrightarrow> js_result J m prev ent (code_of fn b ! i) env env'"
      using v(1,2) c by (simp add: js_result_def)
  qed
qed

subsection \<open>Comparisons\<close>

lemma extends_refl: "extends m m"
  by (simp add: extends_def)

lemma abstract_compare_to_compareE:
  assumes "abstract_compare_to_compare defs constants N i = Some i'"
  obtains d l r reverse invert x y where "i = CallBuiltin (Some d) ABSTRACT_COMPARE [l, r, reverse, invert]"
    "i' = Compare d (comparison x y) l r" "l \<in> N" "r \<in> N"
    "const_bool defs constants reverse = Some x" "const_bool defs constants invert = Some y"
proof -
  obtain d args where i: "i = CallBuiltin (Some d) ABSTRACT_COMPARE args" "length args = 4" "args ! 0 \<in> N" "args ! 1 \<in> N"
    "map_option (\<lambda>op. Compare d op (args ! 0) (args ! 1)) (relational_op defs constants args) = Some i'"
    using assms by (cases i) (auto simp: abstract_compare_to_compare_def split: option.splits if_splits)
  obtain l r reverse invert where args: "args = [l, r, reverse, invert]"
    using i(2) by (auto simp: numeral_eq_Suc length_Suc_conv)
  obtain x y where b: "const_bool defs constants reverse = Some x" "const_bool defs constants invert = Some y"
    using i(5) args by (auto simp: relational_op_def bind_eq_Some_conv)
  have "relational_op defs constants args = Some (comparison x y)"
    using b by (cases x; cases y) (simp_all add: relational_op_def args)
  then have "i' = Compare d (comparison x y) l r" using i(5) args by simp
  then show ?thesis by (rule that [OF i(1) [unfolded args]]) (use i(3,4) b args in simp_all)
qed

lemma const_bool_value:
  assumes wf: "wf_function m' fn" and J: "js_ok J"
    and run: "js_exec J m fn names extra initial prev b i S ent env vars" and v: "v \<in> S"
    and c: "const_bool (instruction_defs fn) (mod_constants m) v = Some flag"
  shows "env v = js_bool J flag"
proof -
  obtain j where j: "instruction_defs fn v = Some j" using c by (auto simp: const_bool_def split: option.splits)
  then obtain d k where k: "j = Const d k" "get_at (mod_constants m) (cix k) = Some (Bool flag)"
    using c by (cases j) (auto simp: const_bool_def split: option.splits Constant.splits)
  have "value_fact J m j (env v)" by (rule run_facts [OF wf J run v instruction_defs_some [OF j]])
  then show ?thesis using k by (simp add: value_fact_def)
qed

lemma comparison_relational: "is_relational (comparison x y)"
  by (cases x; cases y) (simp_all add: is_relational_def)

lemma js_bool_inj: "js_ok J \<Longrightarrow> js_bool J x = js_bool J y \<longleftrightarrow> x = y"
  by (cases x; cases y) (auto simp: js_ok_def)

lemma abstract_compare_ok: "rewrite_ok m (abstract_compare_to_compare defs constants N)"
  by (auto simp: rewrite_ok_def dest_def uses_def elim!: abstract_compare_to_compareE)

lemma abstract_compare_wf: "wf_function m fn \<Longrightarrow> wf_function m (fst (rewrite_abstract_compares constants fn N))"
  unfolding rewrite_abstract_compares_def by (rule wf_rewritten [OF _ abstract_compare_ok order.refl order.refl])

lemma abstract_compare_runs:
  fixes J :: "'v js"
  assumes wf: "wf_function m fn" and J: "js_ok J"
    and num: "\<And>prev b i S ent env vars v. js_exec J m fn names extra initial prev b i S ent env vars \<Longrightarrow>
      v \<in> S \<Longrightarrow> v \<in> N \<Longrightarrow> js_num J (env v)"
  shows "js_exec J m (fst (rewrite_abstract_compares (mod_constants m) fn N)) names extra initial prev b i S ent env vars \<longleftrightarrow>
     js_exec J m fn names extra initial prev b i S ent env vars"
  unfolding rewrite_abstract_compares_def
proof -
  let ?f = "abstract_compare_to_compare (instruction_defs fn) (mod_constants m) N"
  show "js_exec J m (rewritten ?f fn) names extra initial prev b i S ent env vars \<longleftrightarrow>
     js_exec J m fn names extra initial prev b i S ent env vars"
  proof (rule rewritten_runs_same [OF wf abstract_compare_ok extends_refl])
    show "(effect names i' :: 'v value_env \<Rightarrow> _) = effect names i" if "?f i = Some i'" for i i'
      using that by (auto elim!: abstract_compare_to_compareE simp: effect_def dest_def fun_eq_iff)
  next
    fix prev b i S ent env vars env' i'
    assume run: "js_exec J m fn names extra initial prev b i S ent env vars" and i: "i < length (code_of fn b)"
      and f: "?f (code_of fn b ! i) = Some i'"
    obtain d l r reverse invert x y where v: "code_of fn b ! i = CallBuiltin (Some d) ABSTRACT_COMPARE [l, r, reverse, invert]"
      "i' = Compare d (comparison x y) l r" "l \<in> N" "r \<in> N"
      "const_bool (instruction_defs fn) (mod_constants m) reverse = Some x"
      "const_bool (instruction_defs fn) (mod_constants m) invert = Some y"
      using f by (rule abstract_compare_to_compareE)
    have at: "reaches fn prev b i S" "bix b < length (fn_blocks fn)" using js_exec_reaches [OF wf run] by auto
    have "{l, r, reverse, invert} \<subseteq> S" using read_assigned [OF wf at i] v(1) by (auto simp: uses_def)
    then have S: "l \<in> S" "r \<in> S" "reverse \<in> S" "invert \<in> S" by simp_all
    have "js_num J (env l)" "js_num J (env r)" using num [OF run] S(1,2) v(3,4) by blast+
    moreover have "env reverse = js_bool J x" "env invert = js_bool J y"
      using const_bool_value [OF wf J run] S(3,4) v(5,6) by blast+
    ultimately show "js_result J m prev ent i' env env' \<longleftrightarrow> js_result J m prev ent (code_of fn b ! i) env env'"
      using v(1,2) by (simp add: js_result_def builtin_result_def builtins_differ comparison_relational js_bool_inj [OF J] eq_commute [of "js_bool J _" "js_bool J _"])
  qed
qed

subsection \<open>Branches\<close>

lemma with_terminators_blocks:
  "length (fn_blocks (with_terminators f fn)) = length (fn_blocks fn)" "fn_entry (with_terminators f fn) = fn_entry fn"
  "bix b < length (fn_blocks fn) \<Longrightarrow> code_of (with_terminators f fn) b = code_of fn b"
  "bix b < length (fn_blocks fn) \<Longrightarrow>
     blk_terminator (fn_blocks (with_terminators f fn) ! bix b) = f (bix b) (blk_terminator (fn_blocks fn ! bix b))"
  by (simp_all add: with_terminators_def nth_enumerate_eq)

lemma terminators_runs_same:
  \<comment> \<open>other terminators, the same edges where the execution ends a block\<close>
  assumes valid: "\<And>prev b i S ent env vars. js_exec J m fn names extra initial prev b i S ent env vars \<Longrightarrow> bix b < length (fn_blocks fn)"
    and edge: "\<And>prev b S ent env vars c. js_exec J m fn names extra initial prev b (length (code_of fn b)) S ent env vars \<Longrightarrow>
      js_edge J (with_terminators f fn) env b c \<longleftrightarrow> js_edge J fn env b c"
  shows "js_exec J m (with_terminators f fn) names extra initial prev b i S ent env vars \<longleftrightarrow>
    js_exec J m fn names extra initial prev b i S ent env vars"
proof (rule runs_same)
  show "fn_entry (with_terminators f fn) = fn_entry fn" by (rule with_terminators_blocks(2))
next
  fix prev b i S ent env vars
  assume run: "js_exec J m fn names extra initial prev b i S ent env vars"
  note code = with_terminators_blocks(3) [OF valid [OF run], of f]
  show "length (code_of (with_terminators f fn) b) = length (code_of fn b)" by (simp add: code)
  show "js_edge J (with_terminators f fn) env b c \<longleftrightarrow> js_edge J fn env b c" if "i = length (code_of fn b)" for c
    using edge run that by blast
  fix env' vars'
  show "dest (code_of (with_terminators f fn) b ! i) = dest (code_of fn b ! i) \<and>
      (effect names (code_of (with_terminators f fn) b ! i) env vars env' vars' \<and>
       js_result J m prev ent (code_of (with_terminators f fn) b ! i) env env' \<longleftrightarrow>
       effect names (code_of fn b ! i) env vars env' vars' \<and> js_result J m prev ent (code_of fn b ! i) env env')"
    by (simp add: code)
qed

lemma js_exec_reachable:
  "js_exec J m fn names extra initial prev b i S ent env vars \<Longrightarrow> (fn_entry fn, b) \<in> (flow_edge fn)\<^sup>*"
  by (induction rule: js_exec.induct) (auto simp: js_edge_def intro: rtrancl_into_rtrancl)

lemma flow_edge_at:
  "bix b < length (fn_blocks fn) \<Longrightarrow>
     (b, c) \<in> flow_edge fn \<longleftrightarrow> bix c < length (fn_blocks fn) \<and> c \<in> set (terminator_successors (blk_terminator (fn_blocks fn ! bix b)))"
  by (simp add: flow_edge_def)

lemma neutralize_runs:
  assumes entry: "bix (fn_entry fn) < length (fn_blocks fn)"
  obtains fn' where "neutralize_unreachable fn = Some fn'"
    "\<And>names extra initial prev b i S ent env vars.
       js_exec J m fn' names extra initial prev b i S ent env vars \<longleftrightarrow> js_exec J m fn names extra initial prev b i S ent env vars"
proof -
  obtain g where g: "cfg_build fn = Some g" using cfg_build_total by blast
  let ?f = "\<lambda>index t. if cfg_is_reachable g (block_at index) then t else Unreachable"
  have valid: "bix b < length (fn_blocks fn)" if "(fn_entry fn, b) \<in> (flow_edge fn)\<^sup>*" for b
    using that entry by (induction rule: rtrancl_induct) (auto simp: flow_edge_def)
  have "js_exec J m (with_terminators ?f fn) names extra initial prev b i S ent env vars \<longleftrightarrow>
      js_exec J m fn names extra initial prev b i S ent env vars" for names extra initial prev b i S ent env vars
  proof (rule terminators_runs_same)
    show "bix b < length (fn_blocks fn)" if "js_exec J m fn names extra initial prev b i S ent env vars" for prev b i S ent env vars
      using valid js_exec_reachable [OF that] by blast
  next
    fix prev b S ent env vars c
    assume run: "js_exec J m fn names extra initial prev b (length (code_of fn b)) S ent env vars"
    note r = js_exec_reachable [OF run]
    have "cfg_is_reachable g (block_at (bix b))" using cfg_build_reachable(1) [OF g entry] r by (simp add: block_at_def bix_def)
    then have t: "blk_terminator (fn_blocks (with_terminators ?f fn) ! bix b) = blk_terminator (fn_blocks fn ! bix b)"
      by (simp add: with_terminators_blocks(4) [OF valid [OF r]])
    then show "js_edge J (with_terminators ?f fn) env b c \<longleftrightarrow> js_edge J fn env b c"
      using valid [OF r] by (simp add: js_edge_def flow_edge_at with_terminators_blocks(1))
  qed
  then show ?thesis using that g by (simp add: neutralize_unreachable_def)
qed

lemma fold_const_branches_runs:
  fixes J :: "'v js"
  assumes wf: "wf_function m fn" and J: "js_ok J"
  obtains fn' changed where "fold_const_branches (mod_constants m) fn = Some (fn', changed)"
    "\<And>names extra initial prev b i S ent env vars.
       js_exec J m fn' names extra initial prev b i S ent env vars \<longleftrightarrow> js_exec J m fn names extra initial prev b i S ent env vars"
proof -
  let ?bools = "constant_bools (mod_constants m) fn"
  let ?f = "\<lambda>_ t. case fold_branch ?bools t of None \<Rightarrow> t | Some t' \<Rightarrow> t'"
  let ?folded = "with_terminators ?f fn"
  have folded: "js_exec J m ?folded names extra initial prev b i S ent env vars \<longleftrightarrow>
      js_exec J m fn names extra initial prev b i S ent env vars" for names extra initial prev b i S ent env vars
  proof (rule terminators_runs_same)
    show "bix b < length (fn_blocks fn)" if "js_exec J m fn names extra initial prev b i S ent env vars" for prev b i S ent env vars
      using js_exec_reaches [OF wf that] by simp
  next
    fix prev b S ent env vars c
    assume run: "js_exec J m fn names extra initial prev b (length (code_of fn b)) S ent env vars"
    have at: "reaches fn prev b (length (code_of fn b)) S" "bix b < length (fn_blocks fn)" using js_exec_reaches [OF wf run] by auto
    let ?t = "blk_terminator (fn_blocks fn ! bix b)"
    have t: "blk_terminator (fn_blocks ?folded ! bix b) = ?f (bix b) ?t" by (rule with_terminators_blocks(4) [OF at(2)])
    show "js_edge J ?folded env b c \<longleftrightarrow> js_edge J fn env b c"
    proof (cases "fold_branch ?bools ?t")
      case None
      then show ?thesis using t at(2) by (simp add: js_edge_def flow_edge_at with_terminators_blocks(1))
    next
      case (Some t')
      then obtain v tb fb flag where v: "?t = Branch v tb fb" "?bools v = Some flag" "t' = Jump (if flag then tb else fb)"
        by (cases ?t) (auto simp: fold_branch_def)
      obtain k where k: "Const v k \<in> set (fn_instructions fn)" "get_at (mod_constants m) (cix k) = Some (Bool flag)"
        using constant_bools_some [OF v(2)] by blast
      have "v \<in> S" by (rule terminator_read_assigned [OF wf at refl]) (simp add: v(1))
      then have "value_fact J m (Const v k) (env v)" by (rule run_facts [OF wf J run _ k(1)]) (simp add: dest_def)
      then have "env v = js_bool J flag" using k(2) by (simp add: value_fact_def)
      then show ?thesis
        using t at(2) Some v by (cases flag) (auto simp: js_edge_def flow_edge_at with_terminators_blocks(1) js_bool_inj [OF J])
    qed
  qed
  show ?thesis
  proof (cases "list_ex (\<lambda>b. fold_branch ?bools (blk_terminator b) \<noteq> None) (fn_blocks fn)")
    case True
    have "bix (fn_entry ?folded) < length (fn_blocks ?folded)" using wf_blocks(3) [OF wf] by (simp add: with_terminators_blocks)
    then obtain fn' where n: "neutralize_unreachable ?folded = Some fn'"
      "\<And>names extra initial prev b i S ent env vars.
         js_exec J m fn' names extra initial prev b i S ent env vars \<longleftrightarrow> js_exec J m ?folded names extra initial prev b i S ent env vars"
      using neutralize_runs [of ?folded J m] by blast
    have "fold_const_branches (mod_constants m) fn = Some (fn', True)" using True n(1) by (simp add: fold_const_branches_def Let_def)
    then show ?thesis by (rule that) (simp add: n(2) folded)
  next
    case False
    then have "fold_const_branches (mod_constants m) fn = Some (?folded, False)" by (simp add: fold_const_branches_def Let_def)
    then show ?thesis by (rule that) (simp add: folded)
  qed
qed

section \<open>The function of a module\<close>

lemma const_id_or_add_result:
  assumes "const_id_or_add k m = (m', c)" and "length (mod_constants m) < 2 ^ 32"
  shows "extends m m'" "get_at (mod_constants m') (cix c) = Some k" "length (mod_constants m') \<le> Suc (length (mod_constants m))"
proof -
  have "extends m m' \<and> get_at (mod_constants m') (cix c) = Some k \<and> length (mod_constants m') \<le> Suc (length (mod_constants m))"
  proof (cases "find_position (\<lambda>existing. existing = k) (mod_constants m)")
    case None
    then show ?thesis
      using assms by (auto simp: const_id_or_add_def add_constant_def add_constant_with_meta_def extends_def cix_def unat_u32_of_nat get_at_def)
  next
    case (Some i)
    then have "i < length (mod_constants m)" "mod_constants m ! i = k" using find_position_Some by fastforce+
    then show ?thesis using Some assms by (auto simp: const_id_or_add_def extends_def cix_def unat_u32_of_nat get_at_def)
  qed
  then show "extends m m'" "get_at (mod_constants m') (cix c) = Some k" "length (mod_constants m') \<le> Suc (length (mod_constants m))"
    by simp_all
qed

lemma finite_frame_locals: "finite (module_frame_local_variable_names m k)"
proof -
  have "finite (frame_local_candidate_names fn)" for fn
    by (simp add: frame_local_candidate_names_def loaded_names_def Let_def)
  then have "\<forall>s\<in>set (frame_local_variable_names_by_function m). finite s"
    by (auto simp: frame_local_variable_names_by_function_def Let_def split: prod.splits)
  then show ?thesis
    by (auto simp: module_frame_local_variable_names_def get_at_def split: option.splits if_splits)
qed

lemma same_constants:
  assumes "mod_constants m' = mod_constants m"
  shows "js_exec J m' fn names extra initial prev b i S ent env vars = js_exec J m fn names extra initial prev b i S ent env vars"
proof (rule runs_same)
  fix prev b i S ent env vars env' vars'
  have "js_result J m' prev ent (code_of fn b ! i) env env' = js_result J m prev ent (code_of fn b ! i) env env'"
    by (rule js_result_extends) (simp add: assms)
  then show "dest (code_of fn b ! i) = dest (code_of fn b ! i) \<and>
      (effect names (code_of fn b ! i) env vars env' vars' \<and> js_result J m' prev ent (code_of fn b ! i) env env' \<longleftrightarrow>
       effect names (code_of fn b ! i) env vars env' vars' \<and> js_result J m prev ent (code_of fn b ! i) env env')" by simp
qed simp_all

text \<open>A sum of Numbers with the test for an exception the front end puts after it.\<close>

definition guarded :: Function where
  "guarded = (function_new [] (BasicBlockId 0))\<lparr>fn_blocks :=
     [\<lparr>blk_id = BasicBlockId 0,
       blk_instructions = [Const (ValueId 0) (ConstantId 0), Binary (ValueId 1) Add (ValueId 0) (ValueId 0), IsException (ValueId 2) (ValueId 1)],
       blk_terminator = Branch (ValueId 2) (BasicBlockId 1) (BasicBlockId 2)\<rparr>,
      \<lparr>blk_id = BasicBlockId 1, blk_instructions = [], blk_terminator = Throw (ValueId 1)\<rparr>,
      \<lparr>blk_id = BasicBlockId 2, blk_instructions = [], blk_terminator = Return (Some (ValueId 1))\<rparr>]\<rparr>"

definition guarded_module :: Module where
  "guarded_module = module_new\<lparr>mod_constants := [Number (F64 0x7FF8000000000000)], mod_string_constant_metas := [None],
     mod_functions := [guarded]\<rparr>"

definition unguarded :: Function where
  \<comment> \<open>what the rewriting makes of it\<close>
  "unguarded = guarded\<lparr>fn_blocks :=
     [\<lparr>blk_id = BasicBlockId 0,
       blk_instructions = [Const (ValueId 0) (ConstantId 0), Binary (ValueId 1) Add (ValueId 0) (ValueId 0), Const (ValueId 2) (ConstantId 1)],
       blk_terminator = Jump (BasicBlockId 2)\<rparr>,
      \<lparr>blk_id = BasicBlockId 1, blk_instructions = [], blk_terminator = Unreachable\<rparr>,
      \<lparr>blk_id = BasicBlockId 2, blk_instructions = [], blk_terminator = Return (Some (ValueId 1))\<rparr>]\<rparr>"

lemma guarded_facts:
  "verify_function guarded_module guarded = Some (Inr ())" "only_strict_compares guarded"
  "module_frame_local_variable_names guarded_module 0 = {}" "ssa_variable_names guarded {} = {}"
  "number_parameters guarded (param_flags guarded []) = {}"
  by code_simp+

lemma guarded_classes:
  "infer_function guarded_module guarded {} no_seeds = Some \<lparr>vc_numbers = {ValueId 0, ValueId 1}, vc_int32s = {}\<rparr>"
proof -
  let ?N = "{ValueId 0, ValueId 1}"
  let ?facts = "\<lparr>nf_variables = ssa_empty, nf_parameters = {}, nf_modified = {}, nf_extra = {}\<rparr>"
  have "number_pass guarded_module guarded ?facts (?N, {}) = ((?N, {}), False)" by code_simp
  then have numbers: "until_stable (number_pass guarded_module guarded ?facts) (?N, {}) = Some (?N, {})"
    by (subst until_stable.simps) simp
  have "int32_pass guarded {} ?N ({}, {}) = (({}, {}), False)" by code_simp
  then have "until_stable (int32_pass guarded {} ?N) ({}, {}) = Some ({}, {})" by (subst until_stable.simps) simp
  moreover have "int32_constants guarded_module guarded ?N = {}" "number_var_names guarded {} = {}" by code_simp+
  ultimately have "infer_int32 guarded_module guarded {} ?N = Some {}" by (simp add: infer_int32_def)
  moreover have "set (List.map_filter (number_dest_shape guarded_module) (fn_instructions guarded)) = ?N"
    "Set.filter (\<lambda>n. n \<in> {}) (store_names guarded) = {}" by code_simp+
  ultimately show ?thesis
    using numbers by (simp add: infer_function_def analyze_def no_seeds_def guarded_facts(4,5) variable_ssa_build_def phi_count_def ssa_empty_def)
qed

lemma guarded_rewritten:
  "\<exists>m'. rewrite_function guarded_module (FunctionId 0) (Some no_seeds) = Some (m', True) \<and> get_at (mod_functions m') 0 = Some unguarded"
proof -
  have c: "const_id_or_add (Bool False) guarded_module =
      (guarded_module\<lparr>mod_constants := [Number (F64 0x7FF8000000000000), Bool False], mod_string_constant_metas := [None, None]\<rparr>, ConstantId 1)"
    by code_simp
  let ?cs = "[Number (F64 0x7FF8000000000000), Bool False]"
  let ?fn1 = "rewritten (fold_is_exception (instruction_defs guarded) \<lparr>vc_numbers = {ValueId 0, ValueId 1}, vc_int32s = {}\<rparr> (ConstantId 1)) guarded"
  have "fold_const_branches ?cs (fst (rewrite_abstract_compares ?cs ?fn1 {ValueId 0, ValueId 1})) = Some (unguarded, True)"
    by code_simp
  moreover have "get_at (mod_functions guarded_module) 0 = Some guarded" "mod_functions guarded_module = [guarded]"
    by (simp_all add: guarded_module_def get_at_def)
  ultimately show ?thesis
    by (simp add: rewrite_function_def fnix_def guarded_facts(3) guarded_classes c split_beta) (simp add: get_at_def)
qed



text \<open>
  The tests for exceptions of new objects, object literals and arrays are not removed: the
  rewriting names these instructions as never throwing, but it collects the definitions of values
  with a function that leaves them out, so it does not see that a value is a new object.
\<close>

lemma tests_of_new_objects_stay:
  "instruction_defs fn v \<noteq> Some (NewObject d n) \<and> instruction_defs fn v \<noteq> Some (NewArray d n) \<and>
   instruction_defs fn v \<noteq> Some (InitObjectLiteral d c vs) \<and>
   (let new_object = (function_new [] (BasicBlockId 0))\<lparr>fn_blocks :=
          [\<lparr>blk_id = BasicBlockId 0, blk_instructions = [NewObject (ValueId 0) 0, IsException (ValueId 1) (ValueId 0)],
            blk_terminator = Return (Some (ValueId 1))\<rparr>]\<rparr>
    in rewrite_instructions (fold_is_exception (instruction_defs new_object) \<lparr>vc_numbers = {}, vc_int32s = {}\<rparr> k) new_object =
       (new_object, False))"
proof -
  have "dest_of j = Some v" if "instruction_defs fn v = Some j" for j
  proof -
    have "Map.empty v = Some j \<or> (\<exists>i\<in>set (fn_instructions fn). i = j \<and> dest_of i = Some v)"
      by (rule foldl_insertion [OF that [unfolded instruction_defs_def]]) (simp split: option.splits if_splits)
    then show ?thesis by auto
  qed
  then have "instruction_defs fn v \<noteq> Some (NewObject d n)" "instruction_defs fn v \<noteq> Some (NewArray d n)"
    "instruction_defs fn v \<noteq> Some (InitObjectLiteral d c vs)" by (force simp: dest_of_def)+
  then show ?thesis
    by (simp add: Let_def rewrite_instructions_def fold_is_exception_def instruction_defs_def fn_instructions_def dest_of_def
        cannot_throw_def is_always_non_exception_def)
qed

end
