(* ===== verification/Js_Run.thy ===== *)
theory Js_Run
  imports Typed_Cfg_Correct Values
begin

text \<open>
  Executions with more detail than those of \<open>Js_Exec\<close>: constants have definite values, strings can be
  told from other values, and a switch goes where the emitted code goes. That code compares the boxed
  value with the immediates of the cases in order (\<open>wjsm-backend-native/src/lower/phi_locals.rs\<close>, \<open>switch_constant_immediate\<close>;
  \<open>term_dispatch.rs\<close>).
\<close>

section \<open>Immediates\<close>

fun bit_length :: "nat \<Rightarrow> nat" where
  "bit_length n = (if n = 0 then 0 else Suc (bit_length (n div 2)))"

declare bit_length.simps [simp del]

definition f64_from_u32 :: "u32 \<Rightarrow> u64" where
  \<comment> \<open>the bits of \<open>f64::from\<close>: a u32 has fewer bits than the mantissa\<close>
  "f64_from_u32 n =
     (if n = 0 then 0
      else let k = bit_length (unat n)
        in push_bit 52 (of_nat (1022 + k)) + (push_bit (53 - k) (ucast n) - push_bit 52 1))"

definition switch_constant_immediate :: "Constant \<Rightarrow> u64 option" where
  \<comment> \<open>\<open>None\<close> where the code generator gives up\<close>
  "switch_constant_immediate c =
     (case c of
        Number x \<Rightarrow> Some (encode_f64 (f64_bits x))
      | Bool b \<Rightarrow> Some (encode_bool b)
      | Null \<Rightarrow> Some encode_null
      | Undefined \<Rightarrow> Some encode_undefined
      | NativeCallableEval \<Rightarrow> Some (encode_native_callable_idx 0)
      | ModuleIdC k \<Rightarrow> Some (encode_f64 (f64_from_u32 (mid k)))
      | _ \<Rightarrow> None)"

definition immediate_at :: "Module \<Rightarrow> ConstantId \<Rightarrow> u64 option" where
  "immediate_at m c = Option.bind (get_at (mod_constants m) (cix c)) switch_constant_immediate"

section \<open>Executions\<close>

record 'v js_more =
  js_str :: "'v \<Rightarrow> bool"
  js_box :: "u64 \<Rightarrow> 'v"

definition js_more_ok :: "'v js \<Rightarrow> 'v js_more \<Rightarrow> bool" where
  \<comment> \<open>boxes are different values, Numbers and booleans are boxed; strings are not exceptions\<close>
  "js_more_ok J K \<longleftrightarrow> inj (js_box K) \<and> (\<forall>b. js_box K (encode_bool b) = js_bool J b) \<and>
     (\<forall>x. js_num J (js_box K (encode_f64 x))) \<and>
     (\<forall>x\<in>{encode_null, encode_undefined, encode_native_callable_idx 0}. \<not> js_exc J (js_box K x)) \<and>
     (\<exists>x. js_str K x) \<and> (\<forall>x. js_str K x \<longrightarrow> \<not> js_exc J x)"

definition STRING_REPLACE :: Builtin where
  "STRING_REPLACE = Builtin 142"

definition answers_string :: "Builtin \<Rightarrow> bool" where
  \<comment> \<open>methods of strings and the string builder whose answer is a string unless they throw: 450
      StringBuilderAppend, 451 StringBuilderFinish, 202 charAt, 205 concat, 211 padEnd, 212 padStart, 213 repeat,
      215 slice, 218 substring, 219 toLowerCase, 220 toUpperCase, 221 trim, 222 trimEnd, 223 trimStart. Not
      142 replace, which answers what the method \<open>Symbol.replace\<close> of its argument answers\<close>
  "answers_string b \<longleftrightarrow> wire_id b \<in> {450, 451, 202, 205, 211, 212, 213, 215, 218, 219, 220, 221, 222, 223}"

definition more_result :: "'v js \<Rightarrow> 'v js_more \<Rightarrow> Module \<Rightarrow> Instruction \<Rightarrow> 'v value_env \<Rightarrow> 'v value_env \<Rightarrow> bool" where
  "more_result J K m i env env' \<longleftrightarrow>
     (case i of
        Const d c \<Rightarrow>
          (\<forall>x. immediate_at m c = Some x \<longrightarrow> env' d = js_box K x) \<and>
          (\<forall>s. get_at (mod_constants m) (cix c) = Some (String s) \<longrightarrow> js_str K (env' d))
      | StringConcatVa d _ \<Rightarrow> js_str K (env' d) \<or> js_exc J (env' d)
      | CallBuiltin (Some d) b args \<Rightarrow>
          (answers_string b \<longrightarrow> js_str K (env' d) \<or> js_exc J (env' d)) \<and>
          (\<forall>v. b = IS_STRING \<and> args = [v] \<longrightarrow> env' d = js_bool J (js_str K (env v)))
      | _ \<Rightarrow> True)"

definition switch_target :: "'v js_more \<Rightarrow> Module \<Rightarrow> 'v \<Rightarrow> SwitchCaseTarget list \<Rightarrow> BasicBlockId \<Rightarrow> BasicBlockId" where
  \<comment> \<open>the first case whose immediate is the value\<close>
  "switch_target K m x cases d =
     (case List.find (\<lambda>sc. case immediate_at m (case_constant sc) of None \<Rightarrow> False | Some y \<Rightarrow> x = js_box K y) cases of
        None \<Rightarrow> d | Some sc \<Rightarrow> case_target sc)"

definition run_edge :: "'v js \<Rightarrow> 'v js_more \<Rightarrow> Module \<Rightarrow> Function \<Rightarrow> 'v value_env \<Rightarrow> BasicBlockId \<Rightarrow> BasicBlockId \<Rightarrow> bool" where
  "run_edge J K m fn env b c \<longleftrightarrow> js_edge J fn env b c \<and>
     (case blk_terminator (fn_blocks fn ! bix b) of
        Switch v cases d _ \<Rightarrow> c = switch_target K m (env v) cases d
      | _ \<Rightarrow> True)"

definition run_result ::
  "'v js \<Rightarrow> 'v js_more \<Rightarrow> Module \<Rightarrow> rstr set \<Rightarrow> BasicBlockId option \<Rightarrow> 'v value_env \<Rightarrow> Instruction \<Rightarrow>
   'v value_env \<Rightarrow> 'v variable_env \<Rightarrow> 'v value_env \<Rightarrow> 'v variable_env \<Rightarrow> bool" where
  "run_result J K m names prev ent i env vars env' vars' \<longleftrightarrow>
     effect names i env vars env' vars' \<and> js_result J m prev ent i env env' \<and> more_result J K m i env env'"

inductive js_run ::
  "'v js \<Rightarrow> 'v js_more \<Rightarrow> Module \<Rightarrow> Function \<Rightarrow> rstr set \<Rightarrow> 'v variable_env \<Rightarrow>
   BasicBlockId option \<Rightarrow> BasicBlockId \<Rightarrow> nat \<Rightarrow> ValueId set \<Rightarrow> 'v value_env \<Rightarrow> 'v value_env \<Rightarrow> 'v variable_env \<Rightarrow> bool"
  for J K m fn names initial where
  run_enter: "js_run J K m fn names initial None (fn_entry fn) 0 {} env env initial"
| run_step: "js_run J K m fn names initial prev b i S ent env vars \<Longrightarrow> i < length (code_of fn b) \<Longrightarrow>
    run_result J K m names prev ent (code_of fn b ! i) env vars env' vars' \<Longrightarrow>
    js_run J K m fn names initial prev b (Suc i) (S \<union> set_option (dest (code_of fn b ! i))) ent env' vars'"
| run_follow: "js_run J K m fn names initial prev b i S ent env vars \<Longrightarrow> i = length (code_of fn b) \<Longrightarrow>
    run_edge J K m fn env b c \<Longrightarrow> js_run J K m fn names initial (Some b) c 0 S env env vars"

lemma js_run_exec:
  "js_run J K m fn names initial prev b i S ent env vars \<Longrightarrow> js_exec J m fn names {} initial prev b i S ent env vars"
proof (induction rule: js_run.induct)
  case (run_enter env)
  show ?case by (rule js_exec.js_enter)
next
  case (run_step prev b i S ent env vars env' vars')
  then show ?case by (intro js_exec.js_step) (auto simp: run_result_def)
next
  case (run_follow prev b i S ent env vars c)
  then show ?case by (intro js_exec.js_follow) (auto simp: run_edge_def)
qed

lemma js_run_at:
  assumes "wf_function m' fn" "js_run J K m fn names initial prev b i S ent env vars"
  shows "reaches fn prev b i S" "bix b < length (fn_blocks fn)" "i \<le> length (code_of fn b)"
  using js_exec_reaches [OF assms(1) js_run_exec [OF assms(2)]] by auto

section \<open>Functions that run alike\<close>

lemma same_runs:
  assumes entry: "fn_entry fn' = fn_entry fn"
    and len: "\<And>prev b i S ent env vars. js_run J K m fn names initial prev b i S ent env vars \<Longrightarrow>
      length (code_of fn' b) = length (code_of fn b)"
    and step: "\<And>prev b i S ent env vars env' vars'. js_run J K m fn names initial prev b i S ent env vars \<Longrightarrow>
      i < length (code_of fn b) \<Longrightarrow> dest (code_of fn' b ! i) = dest (code_of fn b ! i) \<and>
      (run_result J K m' names prev ent (code_of fn' b ! i) env vars env' vars' \<longleftrightarrow>
       run_result J K m names prev ent (code_of fn b ! i) env vars env' vars')"
    and edge: "\<And>prev b i S ent env vars c. js_run J K m fn names initial prev b i S ent env vars \<Longrightarrow>
      i = length (code_of fn b) \<Longrightarrow> run_edge J K m' fn' env b c \<longleftrightarrow> run_edge J K m fn env b c"
  shows "js_run J K m' fn' names initial prev b i S ent env vars \<longleftrightarrow> js_run J K m fn names initial prev b i S ent env vars"
proof
  assume "js_run J K m fn names initial prev b i S ent env vars"
  then show "js_run J K m' fn' names initial prev b i S ent env vars"
  proof (induction rule: js_run.induct)
    case (run_enter env)
    then show ?case using js_run.run_enter [of J K m' fn'] by (simp add: entry)
  next
    case (run_step prev b i S ent env vars env' vars')
    show ?case
      using js_run.run_step [OF run_step.IH, of env' vars'] step [OF run_step.hyps(1,2), of env' vars'] run_step.hyps(2,3)
        len [OF run_step.hyps(1)] by simp
  next
    case (run_follow prev b i S ent env vars c)
    show ?case
      by (rule js_run.run_follow [OF run_follow.IH])
        (use len [OF run_follow.hyps(1)] edge [OF run_follow.hyps(1,2)] run_follow.hyps(2,3) in simp_all)
  qed
next
  assume "js_run J K m' fn' names initial prev b i S ent env vars"
  then show "js_run J K m fn names initial prev b i S ent env vars"
  proof (induction rule: js_run.induct)
    case (run_enter env)
    then show ?case using js_run.run_enter [of J K m fn] by (simp add: entry)
  next
    case (run_step prev b i S ent env vars env' vars')
    have i: "i < length (code_of fn b)" using run_step.hyps(2) len [OF run_step.IH] by simp
    show ?case using js_run.run_step [OF run_step.IH i, of env' vars'] step [OF run_step.IH i, of env' vars'] run_step.hyps(3) by simp
  next
    case (run_follow prev b i S ent env vars c)
    have i: "i = length (code_of fn b)" using run_follow.hyps(2) len [OF run_follow.IH] by simp
    show ?case by (rule js_run.run_follow [OF run_follow.IH i]) (use edge [OF run_follow.IH i] run_follow.hyps(3) in simp)
  qed
qed

lemma run_result_extends:
  assumes "\<And>d c. i = Const d c \<Longrightarrow> get_at (mod_constants m') (cix c) = get_at (mod_constants m) (cix c)"
  shows "run_result J K m' names prev ent i env vars env' vars' = run_result J K m names prev ent i env vars env' vars'"
proof -
  have "more_result J K m' i env env' = more_result J K m i env env'"
    using assms by (cases i) (simp_all add: more_result_def immediate_at_def)
  moreover have "js_result J m' prev ent i env env' = js_result J m prev ent i env env'"
    by (rule js_result_extends) (rule assms)
  ultimately show ?thesis by (simp add: run_result_def)
qed

lemma run_edge_extends:
  assumes wf: "wf_function m fn" and ext: "extends m m'" and b: "bix b < length (fn_blocks fn)"
  shows "run_edge J K m' fn env b c = run_edge J K m fn env b c"
proof -
  have "constants_in_range m (fn_blocks fn ! bix b)" using wf b by (auto simp: wf_function_def block_wf_def)
  then have "switch_target K m' x cases d = switch_target K m x cases d"
    if "blk_terminator (fn_blocks fn ! bix b) = Switch v cases d e" for v cases d e x
    using that extends_constant [OF ext]
    by (auto simp: switch_target_def immediate_at_def constants_in_range_def intro!: arg_cong [where f = "case_option d case_target"] find_cong)
  then show ?thesis by (auto simp: run_edge_def split: Terminator.splits)
qed

lemma same_runs_rewritten:
  fixes J :: "'v js"
  assumes wf: "wf_function m fn" and ok: "rewrite_ok m' f" and ext: "extends m m'"
    and res: "\<And>prev b i S ent env vars env' vars' i'. js_run J K m fn names initial prev b i S ent env vars \<Longrightarrow>
      i < length (code_of fn b) \<Longrightarrow> f (code_of fn b ! i) = Some i' \<Longrightarrow>
      run_result J K m' names prev ent i' env vars env' vars' \<longleftrightarrow> run_result J K m names prev ent (code_of fn b ! i) env vars env' vars'"
  shows "js_run J K m' (rewritten f fn) names initial prev b i S ent env vars \<longleftrightarrow> js_run J K m fn names initial prev b i S ent env vars"
proof (rule same_runs)
  show "fn_entry (rewritten f fn) = fn_entry fn" by (rule rewritten_blocks(2))
next
  fix prev b i S ent env vars
  assume run: "js_run J K m fn names initial prev b i S ent env vars"
  have b: "bix b < length (fn_blocks fn)" by (rule js_run_at(2) [OF wf run])
  show "length (code_of (rewritten f fn) b) = length (code_of fn b)" by (simp add: rewritten_code(1) [OF b])
  show "run_edge J K m' (rewritten f fn) env b c \<longleftrightarrow> run_edge J K m fn env b c" for c
  proof -
    have "run_edge J K m' (rewritten f fn) env b c \<longleftrightarrow> run_edge J K m' fn env b c"
      by (simp add: run_edge_def js_edge_def rewritten_edges rewritten_code(2) [OF b])
    then show ?thesis using run_edge_extends [OF wf ext b] by simp
  qed
  fix env' vars'
  assume i: "i < length (code_of fn b)"
  let ?i = "code_of fn b ! i"
  have new: "code_of (rewritten f fn) b ! i = replaced f ?i" using i by (simp add: rewritten_code(1) [OF b])
  have "run_result J K m' names prev ent (replaced f ?i) env vars env' vars' = run_result J K m names prev ent ?i env vars env' vars'"
  proof (cases "f ?i")
    case None
    have "run_result J K m' names prev ent ?i env vars env' vars' = run_result J K m names prev ent ?i env vars env' vars'"
      by (rule run_result_extends, rule extends_constant [OF ext], rule wf_constant [OF wf b i])
    then show ?thesis using None by (simp add: replaced_def)
  next
    case (Some i')
    then show ?thesis using res [OF run i Some] by (simp add: replaced_def)
  qed
  then show "dest (code_of (rewritten f fn) b ! i) = dest ?i \<and>
      (run_result J K m' names prev ent (code_of (rewritten f fn) b ! i) env vars env' vars' \<longleftrightarrow>
       run_result J K m names prev ent ?i env vars env' vars')"
    using replaced_dest [OF ok, of ?i] new by simp
qed

lemma same_runs_terminators:
  assumes valid: "\<And>prev b i S ent env vars. js_run J K m fn names initial prev b i S ent env vars \<Longrightarrow> bix b < length (fn_blocks fn)"
    and edge: "\<And>prev b S ent env vars c. js_run J K m fn names initial prev b (length (code_of fn b)) S ent env vars \<Longrightarrow>
      run_edge J K m (with_terminators f fn) env b c \<longleftrightarrow> run_edge J K m fn env b c"
  shows "js_run J K m (with_terminators f fn) names initial prev b i S ent env vars \<longleftrightarrow> js_run J K m fn names initial prev b i S ent env vars"
proof (rule same_runs)
  show "fn_entry (with_terminators f fn) = fn_entry fn" by (rule with_terminators_blocks(2))
next
  fix prev b i S ent env vars
  assume run: "js_run J K m fn names initial prev b i S ent env vars"
  note code = with_terminators_blocks(3) [OF valid [OF run]]
  show "length (code_of (with_terminators f fn) b) = length (code_of fn b)" by (simp add: code)
  show "run_edge J K m (with_terminators f fn) env b c \<longleftrightarrow> run_edge J K m fn env b c" if "i = length (code_of fn b)" for c
    using edge run that by simp
  fix env' vars'
  show "dest (code_of (with_terminators f fn) b ! i) = dest (code_of fn b ! i) \<and>
      (run_result J K m names prev ent (code_of (with_terminators f fn) b ! i) env vars env' vars' \<longleftrightarrow>
       run_result J K m names prev ent (code_of fn b ! i) env vars env' vars')"
    by (simp add: code)
qed

section \<open>What is known about assigned values\<close>

lemma assigned_fact:
  \<comment> \<open>what holds of the result of an instruction whenever it runs holds of its value\<close>
  assumes wf: "wf_function m' fn"
    and P: "\<And>prev b i S ent env vars env' vars'. js_run J K m fn names initial prev b i S ent env vars \<Longrightarrow>
      i < length (code_of fn b) \<Longrightarrow> code_of fn b ! i = j \<Longrightarrow> run_result J K m names prev ent j env vars env' vars' \<Longrightarrow> P (env' v)"
    and run: "js_run J K m fn names initial prev b i S ent env vars"
    and v: "v \<in> S" "j \<in> set (fn_instructions fn)" "dest j = Some v"
  shows "P (env v)"
  using run v(1)
proof (induction rule: js_run.induct)
  case (run_step prev b i S ent env vars env' vars')
  let ?i = "code_of fn b ! i"
  have b: "bix b < length (fn_blocks fn)" by (rule js_run_at(2) [OF wf run_step.hyps(1)])
  show ?case
  proof (cases "dest ?i = Some v")
    case True
    then have "?i = j" using same_definition [OF wf b run_step.hyps(2) True v(2,3)] by simp
    then show ?thesis using P [OF run_step.hyps(1,2)] run_step.hyps(3) by simp
  next
    case False
    then have "v \<in> S" "env' v = env v" using run_step.prems effect_keeps [of names ?i env vars env' vars' v] run_step.hyps(3)
      by (auto simp: run_result_def)
    then show ?thesis using run_step.IH by simp
  qed
qed simp_all

lemma run_entered_from:
  assumes wf: "wf_function m' fn" and run: "js_run J K m fn names initial prev b i S ent env vars"
  shows "prev = None \<or> (\<exists>p prev0 S0 ent0 vars0. prev = Some p \<and> reaches fn prev b 0 S0 \<and>
    js_run J K m fn names initial prev0 p (length (code_of fn p)) S0 ent0 ent vars0)"
  using run
proof (induction rule: js_run.induct)
  case (run_follow prev b i S ent env vars c)
  have "reaches fn (Some b) c 0 S" by (rule js_run_at(1) [OF wf js_run.run_follow [OF run_follow.hyps(1-3)]])
  then show ?case using run_follow.hyps(1,2) by blast
qed blast+

lemma run_phi_origin:
  \<comment> \<open>the value of a phi node is what a source had when the block of the phi was entered\<close>
  assumes wf: "wf_function m' fn" and run: "js_run J K m fn names initial prev b i S ent env vars"
    and v: "v \<in> S" "Phi v sources \<in> set (fn_instructions fn)"
  shows "\<exists>s prev0 b0 S0 ent0 env0 vars0. s \<in> set sources \<and> phi_value s \<in> S0 \<and> env v = env0 (phi_value s) \<and>
    js_run J K m fn names initial prev0 b0 (length (code_of fn b0)) S0 ent0 env0 vars0"
proof (rule assigned_fact [OF wf _ run v(1,2)])
  fix prev b i S ent env vars env' vars'
  assume run: "js_run J K m fn names initial prev b i S ent env vars" and i: "i < length (code_of fn b)" "code_of fn b ! i = Phi v sources"
    and res: "run_result J K m names prev ent (Phi v sources) env vars env' vars'"
  note at = js_run_at [OF wf run]
  obtain s where s: "s \<in> set sources" "prev = Some (phi_predecessor s)" by (rule phi_source_taken [OF wf at(1,2) i])
  obtain p prev0 S0 ent0 vars0 where e: "reaches fn prev b 0 S0"
    "js_run J K m fn names initial prev0 p (length (code_of fn p)) S0 ent0 ent vars0"
    using run_entered_from [OF wf run] s(2) by blast
  have "phi_value s \<in> S0" by (rule phi_read_assigned [OF wf e(1) at(2) i s])
  moreover have "env' v = ent (phi_value s)" using res s by (auto simp: run_result_def js_result_def)
  ultimately show "\<exists>s prev0 b0 S0 ent0 env0 vars0. s \<in> set sources \<and> phi_value s \<in> S0 \<and> env' v = env0 (phi_value s) \<and>
    js_run J K m fn names initial prev0 b0 (length (code_of fn b0)) S0 ent0 env0 vars0"
    using s(1) e(2) by blast
qed (simp add: dest_def)

section \<open>Executions do not get stuck\<close>

lemma builtins_more_differ:
  "IS_STRING \<noteq> ABSTRACT_COMPARE" "IS_STRING \<noteq> CREATE_CLOSURE" "IS_STRING \<noteq> IS_JS_OBJECT"
  "answers_string b \<Longrightarrow> b \<noteq> IS_STRING" "answers_string b \<Longrightarrow> b \<noteq> ABSTRACT_COMPARE"
  "answers_string b \<Longrightarrow> b \<noteq> CREATE_CLOSURE" "answers_string b \<Longrightarrow> b \<noteq> IS_JS_OBJECT"
  by (auto simp: IS_STRING_def ABSTRACT_COMPARE_def CREATE_CLOSURE_def IS_JS_OBJECT_def answers_string_def)

lemma not_answering: "\<not> answers_string IS_JS_OBJECT" "\<not> answers_string IS_STRING"
  using builtins_more_differ by blast+

lemma constant_result_exists:
  assumes J: "js_ok J" and K: "js_more_ok J K"
  shows "\<exists>x. js_result J m prev ent (Const d c) env (env(d := x)) \<and> more_result J K m (Const d c) env (env(d := x))"
proof -
  obtain x where x: "js_num J x" "\<not> js_exc J x" using J by (auto simp: js_ok_def)
  obtain s where s: "js_str K s" "\<not> js_exc J s" using K by (auto simp: js_more_ok_def)
  have nums: "\<not> js_exc J (js_box K (encode_f64 y))" "js_num J (js_box K (encode_f64 y))" for y using J K by (auto simp: js_ok_def js_more_ok_def)
  let ?k = "get_at (mod_constants m) (cix c)"
  let ?v = "case immediate_at m c of Some y \<Rightarrow> js_box K y | None \<Rightarrow> (case ?k of Some (String _) \<Rightarrow> s | _ \<Rightarrow> x)"
  have "js_result J m prev ent (Const d c) env (env(d := ?v)) \<and> more_result J K m (Const d c) env (env(d := ?v))"
    using x s nums K
    by (cases ?k) (auto simp: js_result_def more_result_def immediate_at_def switch_constant_immediate_def js_more_ok_def split: Constant.splits)
  then show ?thesis by blast
qed

lemma run_result_exists:
  assumes J: "js_ok J" and K: "js_more_ok J K" and d: "dest i = Some d"
    and load: "\<And>n. i \<noteq> LoadVar d n" and phi: "\<And>sources. i \<noteq> Phi d sources"
  shows "\<exists>x. js_result J m prev ent i env (env(d := x)) \<and> more_result J K m i env (env(d := x))"
proof -
  obtain s where s: "js_str K s" "\<not> js_exc J s" using K by (auto simp: js_more_ok_def)
  obtain x where x: "js_result J m prev ent i env (env(d := x))" using result_exists [OF J d load phi] by blast
  show ?thesis
  proof (cases i)
    case (Const d' c)
    then show ?thesis using constant_result_exists [OF J K] d by (simp add: dest_def)
  next
    case (StringConcatVa d' parts)
    then show ?thesis using s d by (auto simp: js_result_def more_result_def dest_def)
  next
    case (CallBuiltin d' b args)
    then have e: "d' = Some d" using d by (simp add: dest_def)
    show ?thesis
    proof (cases "answers_string b \<or> b = IS_STRING")
      case True
      let ?v = "if b = IS_STRING then js_bool J (js_str K (env (args ! 0))) else s"
      have "js_result J m prev ent i env (env(d := ?v)) \<and> more_result J K m i env (env(d := ?v))"
        using True e CallBuiltin s builtins_more_differ by (auto simp: js_result_def more_result_def builtin_result_def)
      then show ?thesis by blast
    next
      case False
      then show ?thesis using x e CallBuiltin by (auto simp: more_result_def)
    qed
  qed (use x in \<open>auto simp: more_result_def\<close>)
qed

lemma run_progress:
  assumes wf: "wf_function m fn" and J: "js_ok J" and K: "js_more_ok J K"
    and run: "js_run J K m fn names initial prev b i S ent env vars"
  shows "(i < length (code_of fn b) \<and>
        (\<exists>env' vars'. js_run J K m fn names initial prev b (Suc i) (S \<union> set_option (dest (code_of fn b ! i))) ent env' vars')) \<or>
     (i = length (code_of fn b) \<and> (\<exists>c. js_run J K m fn names initial (Some b) c 0 S env env vars)) \<or>
     (i = length (code_of fn b) \<and> terminator_successors (blk_terminator (fn_blocks fn ! bix b)) = [])"
proof (cases "i < length (code_of fn b)")
  case True
  note at = js_run_at [OF wf run]
  let ?i = "code_of fn b ! i"
  obtain env1 vars1 where old: "effect names ?i env vars env1 vars1" "js_result J m prev ent ?i env env1"
    using step_exists [OF wf J at(1,2) True] by blast
  have "\<exists>env' vars'. run_result J K m names prev ent ?i env vars env' vars'"
  proof (cases "\<exists>d. dest ?i = Some d \<and> (\<forall>n. ?i \<noteq> LoadVar d n) \<and> (\<forall>sources. ?i \<noteq> Phi d sources)")
    case True
    then obtain d where d: "dest ?i = Some d" "\<forall>n. ?i \<noteq> LoadVar d n" "\<forall>sources. ?i \<noteq> Phi d sources" by blast
    obtain x where x: "js_result J m prev ent ?i env (env(d := x))" "more_result J K m ?i env (env(d := x))"
      using run_result_exists [OF J K d(1)] d(2,3) by blast
    have "\<not> (\<exists>e n. ?i = LoadVar e n)" using d(1) d(2) by (cases ?i) (auto simp: dest_def)
    then have "effect names ?i env vars (env(d := x)) vars" using d(1) by (cases ?i) (simp_all add: effect_def dest_def)
    then show ?thesis using x by (auto simp: run_result_def)
  next
    case False
    then have "more_result J K m ?i env env1" by (cases ?i) (auto simp: more_result_def dest_def split: option.splits)
    then show ?thesis using old by (auto simp: run_result_def)
  qed
  then show ?thesis using js_run.run_step [OF run True] True by blast
next
  case False
  note at = js_run_at [OF wf run]
  have i: "i = length (code_of fn b)" using False at(3) by simp
  let ?t = "blk_terminator (fn_blocks fn ! bix b)"
  show ?thesis
  proof (cases "terminator_successors ?t = []")
    case True
    then show ?thesis using i by blast
  next
    case False
    obtain c where c: "js_edge J fn env b c" using edge_exists [OF wf J at(2) False] by blast
    have "\<exists>c. run_edge J K m fn env b c"
    proof (cases "\<exists>v cases d e. ?t = Switch v cases d e")
      case True
      then obtain v cases d e where t: "?t = Switch v cases d e" by blast
      let ?c = "switch_target K m (env v) cases d"
      have "?c \<in> set (terminator_successors ?t)"
        unfolding t switch_target_def by (auto simp: find_Some_iff split: option.split)
      then have "(b, ?c) \<in> flow_edge fn" using wf at(2) by (auto simp: flow_edge_def wf_function_def block_wf_def)
      then have "run_edge J K m fn env b ?c" by (simp add: run_edge_def js_edge_def t)
      then show ?thesis by blast
    next
      case False
      then have "run_edge J K m fn env b c" using c by (cases ?t) (auto simp: run_edge_def)
      then show ?thesis by blast
    qed
    then show ?thesis using js_run.run_follow [OF run i] i by blast
  qed
qed

section \<open>Boxed values\<close>

text \<open>The values of the program itself meet the demands: 64-bit words with tags.\<close>

definition boxed_js :: "u64 js" where
  "boxed_js = \<lparr>js_num = is_f64, js_exc = is_exception, js_obj = is_js_object, js_bool = encode_bool, js_cmp = (\<lambda>op x y. False)\<rparr>"

definition boxed_more :: "u64 js_more" where
  \<comment> \<open>what the emitted code of \<open>IsString\<close> tests\<close>
  "boxed_more = \<lparr>js_str = (\<lambda>x. is_inline_string x \<or> is_runtime_string_handle x), js_box = (\<lambda>x. x)\<rparr>"

lemma boxed_bool: "\<not> is_exception (encode_bool b)"
proof -
  have "\<not> is_exception (encode_bool True) \<and> \<not> is_exception (encode_bool False)" by code_simp
  then show ?thesis by (cases b) simp_all
qed

lemma boxed_kinds:
  "encode_bool True \<noteq> encode_bool False" "\<not> is_exception encode_null" "\<not> is_exception encode_undefined"
  "\<not> is_exception (encode_native_callable_idx 0)" "is_js_object (encode_object_handle 0)" "is_runtime_string_handle (encode_runtime_string_handle 0)"
  by code_simp+

lemma exception_alone:
  assumes "is_exception x"
  shows "\<not> is_f64 x \<and> \<not> is_js_object x \<and> \<not> is_inline_string x \<and> \<not> is_runtime_string_handle x"
proof -
  have x: "is_tagged x TAG_EXCEPTION" using assms by (simp add: is_exception_def)
  have "\<not> is_tagged x t" if "t \<noteq> TAG_EXCEPTION" for t using is_tagged_unique [OF x, of t] that by blast
  then have "\<not> is_js_object x" "\<not> is_tagged x TAG_STRING"
    by (simp_all add: is_js_object_def is_kind_defs TAG_EXCEPTION_def TAG_OBJECT_def TAG_ARRAY_def
      TAG_FUNCTION_def TAG_CLOSURE_def TAG_BOUND_def TAG_PROXY_def TAG_NATIVE_CALLABLE_def TAG_STRING_def)
  then show ?thesis using not_inline_tagged [OF x] by (simp add: is_runtime_string_handle_def)
qed

lemma boxed_ok: "js_ok boxed_js" "js_more_ok boxed_js boxed_more"
proof -
  have num: "is_f64 (encode_f64 x)" for x using number_round_trip [of x] by simp
  show "js_ok boxed_js"
    using num boxed_bool boxed_kinds exception_alone by (auto simp: js_ok_def boxed_js_def)
  show "js_more_ok boxed_js boxed_more"
    using num boxed_kinds exception_alone by (auto simp: js_more_ok_def boxed_js_def boxed_more_def)
qed

end
