(* ===== verification/Cfg_Fold_Correct.thy ===== *)
theory Cfg_Fold_Correct
  imports Cfg_Fold Js_Run
begin

text \<open>
  What the folding of tests and branches does right and wrong. Removing tests, folding branches and
  switches and emptying unreachable blocks keeps executions, under conditions that name the cases where
  a rule goes wrong; cleaning the phi nodes can leave a use of a value that was deleted.
\<close>

section \<open>Values that are not exceptions\<close>

definition operands_checked ::
  "'v js \<Rightarrow> 'v js_more \<Rightarrow> Module \<Rightarrow> Function \<Rightarrow> rstr set \<Rightarrow> 'v variable_env \<Rightarrow> bool" where
  \<comment> \<open>relational comparisons see Numbers, as those that the rewriting by value classes makes do, and
      tests for strings do not see exceptions, as behind a test for them\<close>
  "operands_checked J K m fn names initial \<longleftrightarrow>
     (\<forall>prev b i S ent env vars. js_run J K m fn names initial prev b i S ent env vars \<longrightarrow> i < length (code_of fn b) \<longrightarrow>
        (\<forall>d op l r. code_of fn b ! i = Compare d op l r \<longrightarrow> is_relational op \<longrightarrow> js_num J (env l) \<and> js_num J (env r)) \<and>
        (\<forall>d v. code_of fn b ! i = CallBuiltin (Some d) IS_STRING [v] \<longrightarrow> \<not> js_exc J (env v)))"

lemma all_defs_some:
  assumes "all_defs fn v = Some i" shows "i \<in> set (fn_instructions fn)" "dest i = Some v"
proof -
  have "Map.empty v = Some i \<or> (\<exists>j\<in>set (fn_instructions fn). j = i \<and> dest j = Some v)"
    by (rule foldl_insertion [OF assms [unfolded all_defs_def]]) (simp split: option.splits if_splits)
  then show "i \<in> set (fn_instructions fn)" "dest i = Some v" by auto
qed

lemma relational_no_exception:
  assumes wf: "wf_function m' fn" and J: "js_ok J" and checked: "operands_checked J K m fn names initial"
    and run: "js_run J K m fn names initial prev b i S ent env vars"
    and v: "v \<in> S" "Compare v op l r \<in> set (fn_instructions fn)" "is_relational op"
  shows "\<not> js_exc J (env v)"
proof (rule assigned_fact [OF wf _ run v(1,2)])
  fix prev b i S ent env vars env' vars'
  assume run: "js_run J K m fn names initial prev b i S ent env vars" and i: "i < length (code_of fn b)"
    "code_of fn b ! i = Compare v op l r" and res: "run_result J K m names prev ent (Compare v op l r) env vars env' vars'"
  have "js_num J (env l) \<and> js_num J (env r)" using checked run i v(3) unfolding operands_checked_def by blast
  then show "\<not> js_exc J (env' v)" using res v(3) J by (auto simp: run_result_def js_result_def js_ok_def)
qed (simp add: dest_def)

lemma provable_no_exception:
  assumes wf: "wf_function m' fn" and J: "js_ok J" and checked: "operands_checked J K m fn names initial"
  shows "is_provably_non_exception defs visiting v \<Longrightarrow> defs = all_defs fn \<Longrightarrow>
    js_run J K m fn names initial prev b i S ent env vars \<Longrightarrow> v \<in> S \<Longrightarrow> \<not> js_exc J (env v)"
proof (induction defs visiting v arbitrary: prev b i S ent env vars rule: is_provably_non_exception.induct)
  case (1 defs visiting v)
  obtain j where j: "defs v = Some j" using "1.prems"(1) by (cases "defs v") (simp_all add: is_provably_non_exception.simps)
  have at: "j \<in> set (fn_instructions fn)" "dest j = Some v" using all_defs_some [of fn v j] j "1.prems"(2) by simp_all
  consider (phi) sources where "j = Phi v sources" | (relational) op l r where "j = Compare v op l r" "is_relational op"
    | (other) "\<forall>d sources. j \<noteq> Phi d sources" "\<forall>d op l r. j = Compare d op l r \<longrightarrow> \<not> is_relational op"
    using at(2) by (cases j) (auto simp: dest_def)
  then show ?case
  proof cases
    case phi
    have vis: "v \<notin> visiting" and all: "\<forall>s\<in>set sources. is_provably_non_exception defs (insert v visiting) (phi_value s)"
      using "1.prems"(1) j phi by (simp_all add: is_provably_non_exception.simps [of defs visiting] list_all_iff split: if_splits)
    obtain s prev0 b0 S0 ent0 env0 vars0 where s: "s \<in> set sources" "phi_value s \<in> S0" "env v = env0 (phi_value s)"
      "js_run J K m fn names initial prev0 b0 (length (code_of fn b0)) S0 ent0 env0 vars0"
      using run_phi_origin [OF wf "1.prems"(3,4)] at(1) phi by blast
    have "\<not> js_exc J (env0 (phi_value s))"
      by (rule "1.IH" [OF j phi vis s(1) _ "1.prems"(2) s(4,2)]) (use all s(1) in blast)
    then show ?thesis using s(3) by simp
  next
    case relational
    then show ?thesis using relational_no_exception [OF wf J checked "1.prems"(3,4)] at(1) by blast
  next
    case other
    have fact: "value_fact J m j (env v)" by (rule run_facts [OF wf J js_run_exec [OF "1.prems"(3)] "1.prems"(4) at])
    show ?thesis
      using "1.prems"(1) j fact other by (cases j) (simp_all add: is_provably_non_exception.simps [of defs visiting] value_fact_def)
  qed
qed

section \<open>Values that are strings\<close>

definition no_string_tests :: "Function \<Rightarrow> bool" where
  "no_string_tests fn \<longleftrightarrow> list_all (\<lambda>i. case i of CallBuiltin _ b _ \<Rightarrow> b \<noteq> IS_STRING | _ \<Rightarrow> True) (fn_instructions fn)"

definition plain_string_proofs :: "Module \<Rightarrow> Function \<Rightarrow> bool" where
  \<comment> \<open>no load of a variable is taken for a string, and no method \<open>replace\<close> is called\<close>
  "plain_string_proofs m fn \<longleftrightarrow>
     list_all (\<lambda>i. case i of
         LoadVar d _ \<Rightarrow> \<not> is_provably_string (all_defs fn) (var_store_values fn) (mod_constants m) {} d
       | CallBuiltin _ b _ \<Rightarrow> b \<noteq> STRING_REPLACE
       | _ \<Rightarrow> True) (fn_instructions fn)"

lemma string_proof_anywhere:
  \<comment> \<open>a proof does not depend on the values under examination\<close>
  "is_provably_string defs stores constants visiting v \<Longrightarrow> visiting' \<subseteq> visiting \<Longrightarrow> is_provably_string defs stores constants visiting' v"
proof (induction defs stores constants visiting v arbitrary: visiting' rule: is_provably_string.induct)
  case (1 defs stores constants visiting v)
  obtain j where j: "defs v = Some j" using "1.prems"(1) by (cases "defs v") (simp_all add: is_provably_string.simps)
  have sub: "insert v visiting' \<subseteq> insert v visiting" using "1.prems"(2) by blast
  show ?case
  proof (cases j)
    case (Phi d sources)
    have vis: "v \<notin> visiting" and all: "sources \<noteq> []" "\<forall>s\<in>set sources. is_provably_string defs stores constants (insert v visiting) (phi_value s)"
      using "1.prems"(1) j Phi by (simp_all add: is_provably_string.simps [of defs stores constants visiting] list_all_iff split: if_splits)
    have "is_provably_string defs stores constants (insert v visiting') (phi_value s)" if "s \<in> set sources" for s
      by (rule "1.IH"(1) [OF j Phi vis that _ sub]) (use all that in blast)
    then show ?thesis using j Phi all vis "1.prems"(2)
      by (auto simp: is_provably_string.simps [of defs stores constants visiting'] list_all_iff)
  next
    case (LoadVar d n)
    obtain ws where ws: "v \<notin> visiting" "stores n = Some ws" "ws \<noteq> []" "\<forall>w\<in>set ws. is_provably_string defs stores constants (insert v visiting) w"
      using "1.prems"(1) j LoadVar
      by (auto simp: is_provably_string.simps [of defs stores constants visiting] list_all_iff split: if_splits option.splits)
    have "is_provably_string defs stores constants (insert v visiting') w" if "w \<in> set ws" for w
      by (rule "1.IH"(2) [OF j LoadVar ws(1,2) that _ sub]) (use ws(4) that in blast)
    then show ?thesis using j LoadVar ws "1.prems"(2)
      by (auto simp: is_provably_string.simps [of defs stores constants visiting'] list_all_iff)
  qed (use "1.prems"(1) j in \<open>simp_all add: is_provably_string.simps [of defs stores constants]\<close>)
qed

lemma string_builtin_answers: "b \<in> set string_builtins \<Longrightarrow> b \<noteq> STRING_REPLACE \<Longrightarrow> answers_string b"
  by (auto simp: string_builtins_def STRING_REPLACE_def answers_string_def)

lemma provable_string:
  assumes wf: "wf_function m' fn" and ok: "plain_string_proofs m fn"
  shows "is_provably_string defs stores constants visiting v \<Longrightarrow> defs = all_defs fn \<Longrightarrow> stores = var_store_values fn \<Longrightarrow>
    constants = mod_constants m \<Longrightarrow> js_run J K m fn names initial prev b i S ent env vars \<Longrightarrow> v \<in> S \<Longrightarrow>
    js_str K (env v) \<or> js_exc J (env v)"
proof (induction defs stores constants visiting v arbitrary: prev b i S ent env vars rule: is_provably_string.induct)
  case (1 defs stores constants visiting v)
  obtain j where j: "defs v = Some j" using "1.prems"(1) by (cases "defs v") (simp_all add: is_provably_string.simps)
  have at: "j \<in> set (fn_instructions fn)" "dest j = Some v" using all_defs_some [of fn v j] j "1.prems"(2) by simp_all
  note unfolded = is_provably_string.simps [of defs stores constants visiting]
  have result: "js_str K (env v) \<or> js_exc J (env v)"
    if "\<And>env env'. more_result J K m j env env' \<Longrightarrow> js_str K (env' v) \<or> js_exc J (env' v)"
    by (rule assigned_fact [OF wf _ "1.prems"(5,6) at]) (use that in \<open>auto simp: run_result_def\<close>)
  show ?case
  proof (cases j)
    case (Phi d sources)
    then have phi: "j = Phi v sources" using at(2) by (simp add: dest_def)
    have vis: "v \<notin> visiting" and all: "\<forall>s\<in>set sources. is_provably_string defs stores constants (insert v visiting) (phi_value s)"
      using "1.prems"(1) j phi by (simp_all add: unfolded list_all_iff split: if_splits)
    obtain s prev0 b0 S0 ent0 env0 vars0 where s: "s \<in> set sources" "phi_value s \<in> S0" "env v = env0 (phi_value s)"
      "js_run J K m fn names initial prev0 b0 (length (code_of fn b0)) S0 ent0 env0 vars0"
      using run_phi_origin [OF wf "1.prems"(5,6)] at(1) phi by blast
    have "js_str K (env0 (phi_value s)) \<or> js_exc J (env0 (phi_value s))"
      by (rule "1.IH"(1) [OF j phi vis s(1) _ "1.prems"(2-4) s(4,2)]) (use all s(1) in blast)
    then show ?thesis using s(3) by simp
  next
    case (LoadVar d n)
    then have "d = v" using at(2) by (simp add: dest_def)
    then have "\<not> is_provably_string defs stores constants {} v"
      using ok at(1) LoadVar "1.prems"(2-4) by (auto simp: plain_string_proofs_def list_all_iff)
    then show ?thesis using string_proof_anywhere [OF "1.prems"(1), of "{}"] by blast
  next
    case (CallBuiltin d b args)
    have "b \<in> set string_builtins" using "1.prems"(1) j CallBuiltin by (simp add: unfolded)
    moreover have "b \<noteq> STRING_REPLACE" using ok at(1) CallBuiltin by (auto simp: plain_string_proofs_def list_all_iff)
    ultimately have "answers_string b" by (rule string_builtin_answers)
    then show ?thesis by (intro result) (use at(2) CallBuiltin in \<open>auto simp: more_result_def dest_def\<close>)
  next
    case (Const d c)
    then have "case get_at constants (cix c) of Some (String _) \<Rightarrow> True | _ \<Rightarrow> False" using "1.prems"(1) j by (simp add: unfolded)
    then obtain s where "get_at (mod_constants m) (cix c) = Some (String s)"
      using "1.prems"(4) by (auto split: option.splits Constant.splits)
    then show ?thesis by (intro result) (use at(2) Const in \<open>auto simp: more_result_def dest_def\<close>)
  next
    case (StringConcatVa d parts)
    then show ?thesis by (intro result) (use at(2) in \<open>auto simp: more_result_def dest_def\<close>)
  qed (use "1.prems"(1) j in \<open>simp_all add: unfolded\<close>)
qed

section \<open>Unreachable blocks\<close>

lemma pushed_set: "set (fold (\<lambda>s stack. s # stack) ss stack) = set ss \<union> set stack"
  by (induction ss arbitrary: stack) auto

lemma mark_reachable_result:
  "bix e < length (fn_blocks fn) \<Longrightarrow> \<forall>a\<in>R. \<forall>s. (a, s) \<in> flow_edge fn \<longrightarrow> s \<in> R \<union> set stack \<Longrightarrow>
   \<forall>a\<in>R \<union> set stack. bix a < length (fn_blocks fn) \<longrightarrow> (e, a) \<in> (flow_edge fn)\<^sup>* \<Longrightarrow>
   \<forall>a\<in>R. bix a < length (fn_blocks fn) \<Longrightarrow> e \<in> R \<union> set stack \<Longrightarrow>
   mark_reachable fn stack R = {b. (e, b) \<in> (flow_edge fn)\<^sup>*}"
proof (induction fn stack R rule: mark_reachable.induct)
  case (1 fn R)
  have closed: "\<forall>a\<in>R. \<forall>s. (a, s) \<in> flow_edge fn \<longrightarrow> s \<in> R" and e: "e \<in> R" using 1 by simp_all
  have "b \<in> R" if "(e, b) \<in> (flow_edge fn)\<^sup>*" for b
    using that
  proof (induction rule: rtrancl_induct)
    case (step y z)
    then show ?case using closed by blast
  qed (rule e)
  moreover have "(e, a) \<in> (flow_edge fn)\<^sup>*" if "a \<in> R" for a using 1(3,4) that by simp
  ultimately have "R = {b. (e, b) \<in> (flow_edge fn)\<^sup>*}" by blast
  then show ?case by simp
next
  case (2 fn b stack R)
  show ?case
  proof (cases "bix b \<ge> length (fn_blocks fn) \<or> b \<in> R")
    case True
    have in_range: "bix s < length (fn_blocks fn)" if "(a, s) \<in> flow_edge fn" for a s using that by (simp add: flow_edge_def)
    have "mark_reachable fn stack R = {b. (e, b) \<in> (flow_edge fn)\<^sup>*}"
      by (rule "2.IH"(1) [OF True "2.prems"(1)]) (use "2.prems" True in_range in \<open>fastforce+\<close>)
    then show ?thesis using True by simp
  next
    case False
    let ?ss = "terminator_successors (blk_terminator (fn_blocks fn ! bix b))"
    have edges: "(b, s) \<in> flow_edge fn \<longleftrightarrow> bix s < length (fn_blocks fn) \<and> s \<in> set ?ss" for s
      using False by (simp add: flow_edge_def)
    have eb: "(e, b) \<in> (flow_edge fn)\<^sup>*" using "2.prems"(3) False by simp
    have "mark_reachable fn (fold (\<lambda>s stack. s # stack) ?ss stack) (insert b R) = {b. (e, b) \<in> (flow_edge fn)\<^sup>*}"
    proof (rule "2.IH"(2) [OF False "2.prems"(1)])
      show "\<forall>a\<in>insert b R. \<forall>s. (a, s) \<in> flow_edge fn \<longrightarrow> s \<in> insert b R \<union> set (fold (\<lambda>s stack. s # stack) ?ss stack)"
        using "2.prems"(2) edges by (auto simp: pushed_set)
      show "\<forall>a\<in>insert b R \<union> set (fold (\<lambda>s stack. s # stack) ?ss stack). bix a < length (fn_blocks fn) \<longrightarrow> (e, a) \<in> (flow_edge fn)\<^sup>*"
        using "2.prems"(3) eb edges by (auto simp: pushed_set intro: rtrancl_into_rtrancl)
      show "\<forall>a\<in>insert b R. bix a < length (fn_blocks fn)" using "2.prems"(4) False by simp
      show "e \<in> insert b R \<union> set (fold (\<lambda>s stack. s # stack) ?ss stack)" using "2.prems"(5) by (auto simp: pushed_set)
    qed
    then show ?thesis using False by simp
  qed
qed

lemma marked_blocks:
  assumes "bix (fn_entry fn) < length (fn_blocks fn)"
  shows "mark_reachable fn [fn_entry fn] {} = {b. (fn_entry fn, b) \<in> (flow_edge fn)\<^sup>*}"
  by (rule mark_reachable_result) (use assms in auto)

lemma empty_unreachable_runs:
  assumes entry: "bix (fn_entry fn) < length (fn_blocks fn)"
  shows "js_run J K m (fst (empty_unreachable fn)) names initial prev b i S ent env vars \<longleftrightarrow>
    js_run J K m fn names initial prev b i S ent env vars"
proof -
  let ?fn = "fst (empty_unreachable fn)"
  have len: "length (fn_blocks ?fn) = length (fn_blocks fn)" and start: "fn_entry ?fn = fn_entry fn"
    by (simp_all add: empty_unreachable_def Let_def)
  have same: "fn_blocks ?fn ! bix b = fn_blocks fn ! bix b" "bix b < length (fn_blocks fn)"
    if "js_run J K m fn names initial prev b i S ent env vars" for prev b i S ent env vars
  proof -
    have r: "(fn_entry fn, b) \<in> (flow_edge fn)\<^sup>*" by (rule js_exec_reachable [OF js_run_exec [OF that]])
    then show b: "bix b < length (fn_blocks fn)" using entry by (induction rule: rtrancl_induct) (auto simp: flow_edge_def)
    have "block_at (bix b) = b" by (simp add: block_at_def bix_def)
    then have "block_at (bix b) \<in> mark_reachable fn [fn_entry fn] {}" using r unfolding marked_blocks [OF entry] by simp
    then show "fn_blocks ?fn ! bix b = fn_blocks fn ! bix b" using b by (simp add: empty_unreachable_def Let_def nth_enumerate_eq)
  qed
  show ?thesis
  proof (rule same_runs [OF start])
    fix prev b i S ent env vars
    assume run: "js_run J K m fn names initial prev b i S ent env vars"
    note s = same [OF run]
    show "length (code_of ?fn b) = length (code_of fn b)" by (simp add: s(1))
    show "run_edge J K m ?fn env b c \<longleftrightarrow> run_edge J K m fn env b c" for c by (simp add: run_edge_def js_edge_def flow_edge_at s len)
    fix env' vars'
    show "dest (code_of ?fn b ! i) = dest (code_of fn b ! i) \<and>
      (run_result J K m names prev ent (code_of ?fn b ! i) env vars env' vars' \<longleftrightarrow>
       run_result J K m names prev ent (code_of fn b ! i) env vars env' vars')"
      by (simp add: s(1))
  qed
qed

section \<open>Tests\<close>

definition distinct_switch_keys :: "Module \<Rightarrow> Function \<Rightarrow> bool" where
  \<comment> \<open>a \<open>Switch\<close> on a constant has an immediate, and no case with another constant of the same immediate\<close>
  "distinct_switch_keys m fn \<longleftrightarrow>
     list_all (\<lambda>b. case blk_terminator b of
         Switch v cases _ _ \<Rightarrow>
           (case all_defs fn v of
              Some (Const _ c) \<Rightarrow>
                (case immediate_at m c of
                   None \<Rightarrow> False
                 | Some x \<Rightarrow> list_all (\<lambda>sc. case_constant sc = c \<or> immediate_at m (case_constant sc) \<noteq> Some x) cases)
            | _ \<Rightarrow> True)
       | _ \<Rightarrow> True) (fn_blocks fn)"

lemma fold_testE:
  assumes "fold_test facts bool_true bool_false i = Some i'"
  obtains (exc) d v where "i = IsException d v" "i' = Const d bool_false"
      "(\<exists>classes. ff_classes facts = Some classes \<and> cannot_throw classes v) \<or> is_provably_non_exception (ff_defs facts) {} v"
    | (obj) d v j where "i = CallBuiltin (Some d) IS_JS_OBJECT [v]" "i' = Const d bool_true" "ff_defs facts v = Some j"
      "(\<exists>e n. j = NewObject e n) \<or> (\<exists>e c vs. j = InitObjectLiteral e c vs)"
    | (str) d v where "i = CallBuiltin (Some d) IS_STRING [v]" "i' = Const d bool_true"
      "is_provably_string (ff_defs facts) (ff_stores facts) (ff_constants facts) {} v"
  using assms
proof (cases i)
  case (IsException d v)
  then show ?thesis using assms exc [of d v] by (simp add: fold_test_def split: option.splits if_splits)
next
  case (CallBuiltin e b args)
  then obtain d where d: "e = Some d" using assms by (cases e) (simp_all add: fold_test_def)
  have one: "length args = 1" using assms CallBuiltin d by (simp add: fold_test_def split: if_splits)
  then obtain v where v: "args = [v]" by (cases args) auto
  show ?thesis
  proof (cases "b = IS_JS_OBJECT")
    case True
    obtain j where j: "ff_defs facts v = Some j" using assms CallBuiltin d v True by (cases "ff_defs facts v") (simp_all add: fold_test_def)
    have "(\<exists>e n. j = NewObject e n) \<or> (\<exists>e c vs. j = InitObjectLiteral e c vs)"
      using assms CallBuiltin d v True j by (cases j) (simp_all add: fold_test_def)
    then show ?thesis using obj [of d v j] assms CallBuiltin d v True j by (simp add: fold_test_def split: if_splits)
  next
    case False
    then show ?thesis using str [of d v] assms CallBuiltin d v by (simp add: fold_test_def split: if_splits)
  qed
qed (simp_all add: fold_test_def)

lemma fold_test_ok:
  assumes "get_at (mod_constants m') (cix t) = Some (Bool True)" "get_at (mod_constants m') (cix f) = Some (Bool False)"
  shows "rewrite_ok m' (fold_test facts t f)"
  using assms by (auto simp: rewrite_ok_def dest_def uses_def get_at_def elim!: fold_testE split: if_splits)

lemma fold_test_runs:
  fixes J :: "'v js"
  assumes wf: "wf_function m fn" and J: "js_ok J" and K: "js_more_ok J K" and ext: "extends m m'"
    and checked: "operands_checked J K m fn names initial" and strings: "no_string_tests fn \<or> plain_string_proofs m fn"
    and facts: "ff_defs facts = all_defs fn" "ff_stores facts = var_store_values fn" "ff_constants facts = mod_constants m"
    and t: "get_at (mod_constants m') (cix t) = Some (Bool True)" and f: "get_at (mod_constants m') (cix f) = Some (Bool False)"
    and num: "\<And>prev b i S ent env vars v classes. js_run J K m fn names initial prev b i S ent env vars \<Longrightarrow>
      v \<in> S \<Longrightarrow> ff_classes facts = Some classes \<Longrightarrow> cannot_throw classes v \<Longrightarrow> js_num J (env v)"
  shows "js_run J K m' (rewritten (fold_test facts t f) fn) names initial prev b i S ent env vars \<longleftrightarrow>
     js_run J K m fn names initial prev b i S ent env vars"
proof (rule same_runs_rewritten [OF wf fold_test_ok [OF t f] ext])
  fix prev b i S ent env vars env' vars' i'
  assume run: "js_run J K m fn names initial prev b i S ent env vars" and i: "i < length (code_of fn b)"
    and rep: "fold_test facts t f (code_of fn b ! i) = Some i'"
  note at = js_run_at(1,2) [OF wf run]
  have imm: "immediate_at m' t = Some (encode_bool True)" "immediate_at m' f = Some (encode_bool False)"
    using t f by (simp_all add: immediate_at_def switch_constant_immediate_def)
  have box: "js_box K (encode_bool b) = js_bool J b" for b using K by (simp add: js_more_ok_def)
  have const: "run_result J K m' names prev ent (Const d t) env vars env' vars' \<longleftrightarrow>
        effect names (Const d t) env vars env' vars' \<and> env' d = js_bool J True"
      "run_result J K m' names prev ent (Const d f) env vars env' vars' \<longleftrightarrow>
        effect names (Const d f) env vars env' vars' \<and> env' d = js_bool J False" for d
    using t f imm box by (auto simp: run_result_def js_result_def more_result_def)
  have read: "v \<in> S" if "v \<in> set (uses (code_of fn b ! i))" "\<not> is_phi (code_of fn b ! i)" for v
    using read_assigned [OF wf at i] that by blast
  from rep show "run_result J K m' names prev ent i' env vars env' vars' \<longleftrightarrow> run_result J K m names prev ent (code_of fn b ! i) env vars env' vars'"
  proof (cases rule: fold_testE)
    case (exc d v)
    have S: "v \<in> S" by (rule read) (use exc(1) in \<open>simp_all add: uses_def\<close>)
    have "\<not> js_exc J (env v)"
      using exc(3)
    proof
      assume "\<exists>classes. ff_classes facts = Some classes \<and> cannot_throw classes v"
      then have "js_num J (env v)" using num [OF run S] by blast
      then show ?thesis using J by (simp add: js_ok_def)
    next
      assume "is_provably_non_exception (ff_defs facts) {} v"
      then show ?thesis by (rule provable_no_exception [OF wf J checked _ facts(1) run S])
    qed
    then show ?thesis using exc(1,2) const(2) by (simp add: run_result_def js_result_def more_result_def effect_def dest_def)
  next
    case (obj d v j)
    have S: "v \<in> S" by (rule read) (use obj(1) in \<open>simp_all add: uses_def\<close>)
    have "value_fact J m j (env v)"
      by (rule run_facts [OF wf J js_run_exec [OF run] S]) (use all_defs_some [of fn v j] obj(3) facts(1) in simp_all)
    then have "js_obj J (env v)" using obj(4) by (auto simp: value_fact_def)
    then show ?thesis using obj(1,2) const(1) builtins_differ builtins_more_differ(1-3) not_answering
      by (auto simp: run_result_def js_result_def more_result_def builtin_result_def effect_def dest_def)
  next
    case (str d v)
    have S: "v \<in> S" by (rule read) (use str(1) in \<open>simp_all add: uses_def\<close>)
    have "code_of fn b ! i \<in> set (fn_instructions fn)" by (rule in_fn_instructions [OF at(2) i])
    then have "plain_string_proofs m fn" using strings str(1) by (auto simp: no_string_tests_def list_all_iff)
    then have "js_str K (env v) \<or> js_exc J (env v)" using provable_string [OF wf _ str(3) facts run S] by blast
    moreover have "\<not> js_exc J (env v)" using checked run i str(1) unfolding operands_checked_def by blast
    ultimately have "js_str K (env v)" by blast
    then show ?thesis using str(1,2) const(1) builtins_differ builtins_more_differ(1-3) not_answering
      by (auto simp: run_result_def js_result_def more_result_def builtin_result_def effect_def dest_def)
  qed
qed

section \<open>Branches\<close>

lemma switch_on_constant:
  assumes "inj (js_box K)" and "immediate_at m c = Some x"
    and "\<forall>sc\<in>set cases. case_constant sc = c \<or> immediate_at m (case_constant sc) \<noteq> Some x"
  shows "switch_target K m (js_box K x) cases d =
    (case List.find (\<lambda>sc. case_constant sc = c) cases of None \<Rightarrow> d | Some found \<Rightarrow> case_target found)"
proof -
  have "(case immediate_at m (case_constant sc) of None \<Rightarrow> False | Some y \<Rightarrow> js_box K x = js_box K y) \<longleftrightarrow> case_constant sc = c"
    if "sc \<in> set cases" for sc
    using assms that by (auto simp: inj_eq split: option.splits)
  then have "List.find (\<lambda>sc. case immediate_at m (case_constant sc) of None \<Rightarrow> False | Some y \<Rightarrow> js_box K x = js_box K y) cases =
      List.find (\<lambda>sc. case_constant sc = c) cases"
    by (intro find_cong) auto
  then show ?thesis by (simp add: switch_target_def)
qed

lemma fold_terminators_runs:
  fixes J :: "'v js"
  assumes wf: "wf_function m' fn1" and J: "js_ok J" and K: "js_more_ok J K"
    and cond: "\<And>prev b i S ent env vars v d c flag. js_run J K m fn1 names initial prev b i S ent env vars \<Longrightarrow> v \<in> S \<Longrightarrow>
      ff_defs facts v = Some (Const d c) \<Longrightarrow> get_at (ff_constants facts) (cix c) = Some (Bool flag) \<Longrightarrow> env v = js_bool J flag"
    and box: "\<And>prev b i S ent env vars v d c x. js_run J K m fn1 names initial prev b i S ent env vars \<Longrightarrow> v \<in> S \<Longrightarrow>
      ff_defs facts v = Some (Const d c) \<Longrightarrow> immediate_at m c = Some x \<Longrightarrow> env v = js_box K x"
    and keys: "\<And>b v cases d e k c. b \<in> set (fn_blocks fn1) \<Longrightarrow> blk_terminator b = Switch v cases d e \<Longrightarrow> ff_defs facts v = Some (Const k c) \<Longrightarrow>
      \<exists>x. immediate_at m c = Some x \<and> (\<forall>sc\<in>set cases. case_constant sc = c \<or> immediate_at m (case_constant sc) \<noteq> Some x)"
  shows "js_run J K m (fst (fold_terminators facts fn1)) names initial prev b i S ent env vars \<longleftrightarrow>
    js_run J K m fn1 names initial prev b i S ent env vars"
  unfolding fold_terminators_def fst_conv
proof (rule same_runs_terminators)
  show "bix b < length (fn_blocks fn1)" if "js_run J K m fn1 names initial prev b i S ent env vars" for prev b i S ent env vars
    by (rule js_run_at(2) [OF wf that])
next
  let ?f = "\<lambda>_ t. case fold_terminator facts t of None \<Rightarrow> t | Some t' \<Rightarrow> t'"
  fix prev b S ent env vars c
  assume run: "js_run J K m fn1 names initial prev b (length (code_of fn1 b)) S ent env vars"
  note at = js_run_at(1,2) [OF wf run]
  let ?t = "blk_terminator (fn_blocks fn1 ! bix b)"
  have t: "blk_terminator (fn_blocks (with_terminators ?f fn1) ! bix b) = ?f (bix b) ?t" by (rule with_terminators_blocks(4) [OF at(2)])
  note edges = run_edge_def js_edge_def flow_edge_at with_terminators_blocks(1)
  show "run_edge J K m (with_terminators ?f fn1) env b c \<longleftrightarrow> run_edge J K m fn1 env b c"
  proof (cases "fold_terminator facts ?t")
    case None
    then show ?thesis using t at(2) by (simp add: edges)
  next
    case (Some t')
    consider (branch) v tb fb where "?t = Branch v tb fb" | (switch) v cases d e where "?t = Switch v cases d e"
      using Some by (cases ?t) (auto simp: fold_terminator_def)
    then show ?thesis
    proof cases
      case branch
      obtain d k flag where k: "ff_defs facts v = Some (Const d k)" "get_at (ff_constants facts) (cix k) = Some (Bool flag)"
        "t' = Jump (if flag then tb else fb)"
        using Some branch by (auto simp: fold_terminator_def split: option.splits Instruction.splits Constant.splits)
      have "v \<in> S" by (rule terminator_read_assigned [OF wf at refl]) (simp add: branch)
      then have "env v = js_bool J flag" by (rule cond [OF run _ k(1,2)])
      then show ?thesis using t at(2) Some branch k(3) by (cases flag) (auto simp: edges js_bool_inj [OF J])
    next
      case switch
      obtain k c0 where k: "ff_defs facts v = Some (Const k c0)"
        "t' = Jump (case List.find (\<lambda>sc. case_constant sc = c0) cases of None \<Rightarrow> d | Some found \<Rightarrow> case_target found)"
        using Some switch by (auto simp: fold_terminator_def split: option.splits Instruction.splits)
      obtain x where x: "immediate_at m c0 = Some x" "\<forall>sc\<in>set cases. case_constant sc = c0 \<or> immediate_at m (case_constant sc) \<noteq> Some x"
        using keys [OF _ switch k(1)] at(2) by auto
      have "v \<in> S" by (rule terminator_read_assigned [OF wf at refl]) (simp add: switch)
      then have v: "env v = js_box K x" by (rule box [OF run _ k(1) x(1)])
      let ?c = "switch_target K m (env v) cases d"
      have inj: "inj (js_box K)" using K by (simp add: js_more_ok_def)
      have j: "t' = Jump ?c" using switch_on_constant [OF inj x] k(2) v by simp
      have "?c \<in> set (terminator_successors ?t)"
        unfolding switch switch_target_def by (auto simp: find_Some_iff split: option.split)
      then show ?thesis using t at(2) Some switch j by (auto simp: edges)
    qed
  qed
qed

lemma extends_trans: "extends a b \<Longrightarrow> extends b c \<Longrightarrow> extends a c"
  by (auto simp: extends_def)

lemma no_promises: "number_parameters fn (param_flags fn []) = {}"
proof -
  have "\<forall>flag\<in>set (param_flags fn []). \<not> flag" by (auto simp: param_flags_def get_at_def)
  then show ?thesis by (auto simp: number_parameters_def dest: set_zip_rightD)
qed

text \<open>A loop whose header has two phi nodes and a predecessor that is never taken, for the witnesses.\<close>

definition stale_phi :: Function where
  "stale_phi = (function_new [] (BasicBlockId 0))\<lparr>fn_blocks :=
     [\<lparr>blk_id = BasicBlockId 0,
       blk_instructions = [Const (ValueId 0) (ConstantId 0), Const (ValueId 1) (ConstantId 1), Const (ValueId 2) (ConstantId 2)],
       blk_terminator = Branch (ValueId 2) (BasicBlockId 3) (BasicBlockId 1)\<rparr>,
      \<lparr>blk_id = BasicBlockId 1,
       blk_instructions = [Phi (ValueId 3) [\<lparr>phi_predecessor = BasicBlockId 0, phi_value = ValueId 0\<rparr>, \<lparr>phi_predecessor = BasicBlockId 2, phi_value = ValueId 0\<rparr>, \<lparr>phi_predecessor = BasicBlockId 3, phi_value = ValueId 1\<rparr>],
         Phi (ValueId 4) [\<lparr>phi_predecessor = BasicBlockId 0, phi_value = ValueId 1\<rparr>, \<lparr>phi_predecessor = BasicBlockId 2, phi_value = ValueId 3\<rparr>, \<lparr>phi_predecessor = BasicBlockId 3, phi_value = ValueId 1\<rparr>]],
       blk_terminator = Branch (ValueId 4) (BasicBlockId 2) (BasicBlockId 4)\<rparr>,
      \<lparr>blk_id = BasicBlockId 2, blk_instructions = [], blk_terminator = Jump (BasicBlockId 1)\<rparr>,
      \<lparr>blk_id = BasicBlockId 3, blk_instructions = [], blk_terminator = Jump (BasicBlockId 1)\<rparr>,
      \<lparr>blk_id = BasicBlockId 4, blk_instructions = [], blk_terminator = Return (Some (ValueId 4))\<rparr>]\<rparr>"

definition stale_module :: Module where
  "stale_module = module_new\<lparr>mod_constants := [Null, Bool True, Bool False], mod_string_constant_metas := [None, None, None],
     mod_functions := [stale_phi]\<rparr>"


lemma immediate_extends: "extends m m' \<Longrightarrow> cix c < length (mod_constants m) \<Longrightarrow> immediate_at m' c = immediate_at m c"
  using extends_constant [of m m' "cix c"] by (simp add: immediate_at_def)

lemma switch_keys:
  assumes wf: "wf_function m fn" and ext: "extends m m'" and keys: "distinct_switch_keys m fn"
    and b: "b \<in> set (fn_blocks fn)" "blk_terminator b = Switch v cases d e" and c: "all_defs fn v = Some (Const k c)"
  shows "\<exists>x. immediate_at m' c = Some x \<and> (\<forall>sc\<in>set cases. case_constant sc = c \<or> immediate_at m' (case_constant sc) \<noteq> Some x)"
proof -
  have "Const k c \<in> set (fn_instructions fn)" by (rule all_defs_some(1) [OF c])
  then obtain b' where b': "b' \<in> set (fn_blocks fn)" "Const k c \<in> set (blk_instructions b')" by (auto simp: fn_instructions_def)
  have range: "constants_in_range m a" if "a \<in> set (fn_blocks fn)" for a
    using wf that by (auto simp: wf_function_def block_wf_def in_set_conv_nth)
  have "cix c < length (mod_constants m)" "\<forall>sc\<in>set cases. cix (case_constant sc) < length (mod_constants m)"
    using range [OF b'(1)] range [OF b(1)] b'(2) b(2) by (auto simp: constants_in_range_def)
  moreover obtain x where "immediate_at m c = Some x" "\<forall>sc\<in>set cases. case_constant sc = c \<or> immediate_at m (case_constant sc) \<noteq> Some x"
    using keys b c by (force simp: distinct_switch_keys_def list_all_iff split: option.splits)
  ultimately show ?thesis using immediate_extends [OF ext] by auto
qed


text \<open>A function in which every rule applies, for the witness.\<close>

definition foldable :: Function where
  "foldable = (function_new [] (BasicBlockId 0))\<lparr>fn_blocks :=
     [\<lparr>blk_id = BasicBlockId 0,
       blk_instructions = [Const (ValueId 0) (ConstantId 0), Const (ValueId 1) (ConstantId 1), IsException (ValueId 2) (ValueId 1),
         CallBuiltin (Some (ValueId 3)) IS_STRING [ValueId 1]],
       blk_terminator = Branch (ValueId 0) (BasicBlockId 1) (BasicBlockId 2)\<rparr>,
      \<lparr>blk_id = BasicBlockId 1, blk_instructions = [], blk_terminator = Return (Some (ValueId 3))\<rparr>,
      \<lparr>blk_id = BasicBlockId 2, blk_instructions = [Const (ValueId 4) (ConstantId 2)],
       blk_terminator = Switch (ValueId 4)
         [\<lparr>case_constant = ConstantId 3, case_target = BasicBlockId 1\<rparr>, \<lparr>case_constant = ConstantId 2, case_target = BasicBlockId 3\<rparr>]
         (BasicBlockId 1) (BasicBlockId 1)\<rparr>,
      \<lparr>blk_id = BasicBlockId 3, blk_instructions = [], blk_terminator = Return (Some (ValueId 2))\<rparr>]\<rparr>"

definition foldable_module :: Module where
  "foldable_module = module_new\<lparr>
     mod_constants := [Bool False, String [97], Number (F64 0x3FF0000000000000), Number (F64 0x4000000000000000), Bool True],
     mod_string_constant_metas := [None, None, None, None, None], mod_functions := [foldable]\<rparr>"

definition foldable_facts :: fold_facts where
  "foldable_facts = \<lparr>ff_defs = all_defs foldable, ff_stores = var_store_values foldable, ff_constants = mod_constants foldable_module,
     ff_classes = None\<rparr>"

definition folded_sample :: Function where
  "folded_sample = fst (empty_unreachable (fst (fold_terminators foldable_facts
     (fst (rewrite_instructions (fold_test foldable_facts (ConstantId 4) (ConstantId 0)) foldable)))))"

lemma foldable_facts_hold:
  "verify_function foldable_module foldable = Some (Inr ())" "plain_string_proofs foldable_module foldable"
  "distinct_switch_keys foldable_module foldable"
  "const_id_or_add (Bool True) foldable_module = (foldable_module, ConstantId 4)"
  "const_id_or_add (Bool False) foldable_module = (foldable_module, ConstantId 0)"
  by code_simp+

lemma foldable_code:
  "fn_entry foldable = BasicBlockId 0"
  "code_of foldable (BasicBlockId 0) = [Const (ValueId 0) (ConstantId 0), Const (ValueId 1) (ConstantId 1),
     IsException (ValueId 2) (ValueId 1), CallBuiltin (Some (ValueId 3)) IS_STRING [ValueId 1]]"
  "code_of foldable (BasicBlockId 2) = [Const (ValueId 4) (ConstantId 2)]"
  by (simp_all add: foldable_def function_new_def bix_def)

lemma foldable_checked: "operands_checked boxed_js K foldable_module foldable names initial"
proof -
  have wf: "wf_function foldable_module foldable" using foldable_facts_hold(1) verify_function_result(2) by blast
  have i: "fn_instructions foldable = [Const (ValueId 0) (ConstantId 0), Const (ValueId 1) (ConstantId 1), IsException (ValueId 2) (ValueId 1),
      CallBuiltin (Some (ValueId 3)) IS_STRING [ValueId 1], Const (ValueId 4) (ConstantId 2)]"
    by (simp add: fn_instructions_def foldable_def)
  have "\<not> is_exception (env v)"
    if run: "js_run boxed_js K foldable_module foldable names initial prev b i S ent env vars" and i': "i < length (code_of foldable b)"
      "code_of foldable b ! i = CallBuiltin (Some d) IS_STRING [v]" for prev b i S ent env vars d v
  proof -
    note at = js_run_at [OF wf run]
    have "CallBuiltin (Some d) IS_STRING [v] \<in> set (fn_instructions foldable)" using in_fn_instructions [OF at(2) i'(1)] i'(2) by simp
    then have v: "v = ValueId 1" by (simp add: i)
    then have "v \<in> S" using read_assigned [OF wf at(1,2) i'(1)] i'(2) by (auto simp: uses_def)
    then have "value_fact boxed_js foldable_module (Const (ValueId 1) (ConstantId 1)) (env v)"
      by (rule run_facts [OF wf boxed_ok(1) js_run_exec [OF run]]) (use v in \<open>simp_all add: i dest_def\<close>)
    then show ?thesis by (simp add: value_fact_def boxed_js_def)
  qed
  moreover have "code_of foldable b ! i \<noteq> Compare d op l r"
    if run: "js_run boxed_js K foldable_module foldable names initial prev b i S ent env vars" and i': "i < length (code_of foldable b)"
    for prev b i S ent env vars d op l r
  proof
    assume "code_of foldable b ! i = Compare d op l r"
    then have "Compare d op l r \<in> set (fn_instructions foldable)" using in_fn_instructions [OF js_run_at(2) [OF wf run] i'] by simp
    then show False by (simp add: i)
  qed
  ultimately show ?thesis by (auto simp: operands_checked_def boxed_js_def)
qed

definition foldable_values :: "u64 value_env" where
  "foldable_values = (\<lambda>_. 0)(ValueId 0 := encode_bool False, ValueId 1 := encode_runtime_string_handle 0, ValueId 2 := encode_bool False,
     ValueId 3 := encode_bool True, ValueId 4 := encode_f64 0x3FF0000000000000)"

lemma foldable_constants:
  "get_at (mod_constants foldable_module) (cix (ConstantId 0)) = Some (Bool False)"
  "get_at (mod_constants foldable_module) (cix (ConstantId 1)) = Some (String [97])"
  "get_at (mod_constants foldable_module) (cix (ConstantId 2)) = Some (Number (F64 0x3FF0000000000000))"
  "get_at (mod_constants foldable_module) (cix (ConstantId 3)) = Some (Number (F64 0x4000000000000000))"
  by (simp_all add: foldable_module_def get_at_def cix_def)

lemma foldable_boxes:
  "\<not> is_exception (encode_runtime_string_handle 0)" "is_runtime_string_handle (encode_runtime_string_handle 0)"
  "encode_f64 0x3FF0000000000000 = 0x3FF0000000000000" "encode_f64 0x4000000000000000 = 0x4000000000000000"
  "is_f64 0x3FF0000000000000" "encode_bool False \<noteq> encode_bool True"
  by code_simp+

lemma foldable_run:
  "\<exists>prev S ent. js_run boxed_js boxed_more foldable_module foldable names (\<lambda>_. 0) prev (BasicBlockId 3) 0 S ent foldable_values (\<lambda>_. 0)"
proof -
  let ?run = "js_run boxed_js boxed_more foldable_module foldable names (\<lambda>_. 0)"
  let ?e1 = "(\<lambda>_. 0)(ValueId 0 := encode_bool False)"
  let ?e2 = "?e1(ValueId 1 := encode_runtime_string_handle 0)"
  let ?e3 = "?e2(ValueId 2 := encode_bool False)"
  let ?e4 = "?e3(ValueId 3 := encode_bool True)"
  note eval = foldable_code foldable_constants foldable_boxes run_result_def effect_def js_result_def more_result_def builtin_result_def
    dest_def boxed_js_def boxed_more_def immediate_at_def switch_constant_immediate_def not_answering builtins_differ builtins_more_differ(1-3)
  have "?run None (BasicBlockId 0) 0 {} (\<lambda>_. 0) (\<lambda>_. 0) (\<lambda>_. 0)"
    using run_enter [of boxed_js boxed_more foldable_module foldable names "\<lambda>_. 0" "\<lambda>_. 0"] by (simp add: foldable_code)
  note step = run_step [OF this, of ?e1 "\<lambda>_. 0"]
  have "\<exists>S. ?run None (BasicBlockId 0) (Suc 0) S (\<lambda>_. 0) ?e1 (\<lambda>_. 0)" by (rule exI, rule step) (simp_all add: eval)
  then obtain S1 where r1: "?run None (BasicBlockId 0) (Suc 0) S1 (\<lambda>_. 0) ?e1 (\<lambda>_. 0)" by blast
  have "\<exists>S. ?run None (BasicBlockId 0) (Suc (Suc 0)) S (\<lambda>_. 0) ?e2 (\<lambda>_. 0)"
    by (rule exI, rule run_step [OF r1]) (simp_all add: eval)
  then obtain S2 where r2: "?run None (BasicBlockId 0) (Suc (Suc 0)) S2 (\<lambda>_. 0) ?e2 (\<lambda>_. 0)" by blast
  have "\<exists>S. ?run None (BasicBlockId 0) (Suc (Suc (Suc 0))) S (\<lambda>_. 0) ?e3 (\<lambda>_. 0)"
    by (rule exI, rule run_step [OF r2]) (simp_all add: eval)
  then obtain S3 where r3: "?run None (BasicBlockId 0) (Suc (Suc (Suc 0))) S3 (\<lambda>_. 0) ?e3 (\<lambda>_. 0)" by blast
  have "\<exists>S. ?run None (BasicBlockId 0) (Suc (Suc (Suc (Suc 0)))) S (\<lambda>_. 0) ?e4 (\<lambda>_. 0)"
    by (rule exI, rule run_step [OF r3]) (simp_all add: eval)
  then obtain S4 where r4: "?run None (BasicBlockId 0) (Suc (Suc (Suc (Suc 0)))) S4 (\<lambda>_. 0) ?e4 (\<lambda>_. 0)" by blast
  have "run_edge boxed_js boxed_more foldable_module foldable ?e4 (BasicBlockId 0) (BasicBlockId 2)"
    by (simp add: run_edge_def js_edge_def flow_edge_def foldable_def bix_def boxed_js_def foldable_boxes push_successor_def)
  then have r5: "?run (Some (BasicBlockId 0)) (BasicBlockId 2) 0 S4 ?e4 ?e4 (\<lambda>_. 0)"
    by (intro run_follow [OF r4]) (simp_all add: foldable_code)
  have "\<exists>S. ?run (Some (BasicBlockId 0)) (BasicBlockId 2) (Suc 0) S ?e4 foldable_values (\<lambda>_. 0)"
    by (rule exI, rule run_step [OF r5]) (simp_all add: eval foldable_values_def)
  then obtain S6 where r6: "?run (Some (BasicBlockId 0)) (BasicBlockId 2) (Suc 0) S6 ?e4 foldable_values (\<lambda>_. 0)" by blast
  have "run_edge boxed_js boxed_more foldable_module foldable foldable_values (BasicBlockId 2) (BasicBlockId 3)"
    by (simp add: run_edge_def js_edge_def flow_edge_def foldable_def bix_def push_successor_def switch_target_def
        boxed_more_def immediate_at_def switch_constant_immediate_def foldable_constants foldable_boxes foldable_values_def)
  then have "?run (Some (BasicBlockId 2)) (BasicBlockId 3) 0 S6 foldable_values foldable_values (\<lambda>_. 0)"
    by (intro run_follow [OF r6]) (simp_all add: foldable_code)
  then show ?thesis by blast
qed


text \<open>
  Cleaning the phi nodes of a block breaks verified code. The changes are collected first: one
  phi node of the block collapses and is deleted, another only loses a dead source and is written
  back with the remaining sources as they were collected, which still name the deleted phi node. The
  pass turns a verified module into one the verifier refuses. (It also runs all eight rounds on it,
  since an unreachable block counts as a change in every round.)
\<close>

theorem folding_leaves_deleted_value:
  "verify_module stale_module = Some (Inr ()) \<and>
   (\<exists>m. cfg_fold_run stale_module = Some m \<and> verify_module m \<noteq> Some (Inr ()) \<and>
      ValueId 3 \<in> used_values (mod_functions m ! 0) \<and> all_defs (mod_functions m ! 0) (ValueId 3) = None)"
proof -
  let ?m = "fst (fold_with None 0 stale_module)"
  have first: "snd (fold_with None 0 stale_module)" "length (mod_functions stale_module) = 1" "length (mod_functions ?m) = 1"
    by code_simp+
  have again: "fold_with None 0 ?m = (?m, True)" by code_simp
  have round: "fold_round False stale_module = Some (?m, True)" "fold_round False ?m = Some (?m, True)"
    using first again by (simp_all add: fold_round_def fold_function_def split_beta prod_eq_iff)
  have "fold_rounds n False ?m = Some ?m" for n by (induction n) (simp_all add: round(2))
  then have "cfg_fold_run stale_module = Some ?m" by (simp add: cfg_fold_run_def numeral_eq_Suc round(1))
  moreover have "verify_module stale_module = Some (Inr ())" "verify_module ?m \<noteq> Some (Inr ())"
    "ValueId 3 \<in> used_values (mod_functions ?m ! 0)" "all_defs (mod_functions ?m ! 0) (ValueId 3) = None" by code_simp+
  ultimately show ?thesis by blast
qed

section \<open>Two other rules\<close>

definition two_ones :: Function where
  "two_ones = (function_new [] (BasicBlockId 0))\<lparr>fn_blocks :=
     [\<lparr>blk_id = BasicBlockId 0, blk_instructions = [Const (ValueId 0) (ConstantId 0)],
       blk_terminator = Switch (ValueId 0) [\<lparr>case_constant = ConstantId 1, case_target = BasicBlockId 1\<rparr>] (BasicBlockId 2) (BasicBlockId 2)\<rparr>,
      \<lparr>blk_id = BasicBlockId 1, blk_instructions = [], blk_terminator = Return (Some (ValueId 0))\<rparr>,
      \<lparr>blk_id = BasicBlockId 2, blk_instructions = [], blk_terminator = Return None\<rparr>]\<rparr>"

definition two_ones_module :: Module where
  "two_ones_module = module_new\<lparr>mod_constants := [Number (F64 0x3FF0000000000000), Number (F64 0x3FF0000000000000)],
     mod_string_constant_metas := [None, None], mod_functions := [two_ones]\<rparr>"

text \<open>
  A switch on a constant is folded by the number of the constant, not by its value: a verified
  switch on the constant 1 whose only case is another constant 1 becomes a jump to the default block,
  while the backend compares the values. Nothing keeps a module from holding a constant twice.
\<close>

theorem switch_is_folded_by_number:
  "verify_module two_ones_module = Some (Inr ()) \<and>
   mod_constants two_ones_module ! 0 = mod_constants two_ones_module ! 1 \<and>
   blk_terminator (fn_blocks two_ones ! 0) =
     Switch (ValueId 0) [\<lparr>case_constant = ConstantId 1, case_target = BasicBlockId 1\<rparr>] (BasicBlockId 2) (BasicBlockId 2) \<and>
   blk_terminator (fn_blocks (mod_functions (fst (fold_with None 0 two_ones_module)) ! 0) ! 0) = Jump (BasicBlockId 2)"
  by code_simp

definition early_load :: Function where
  "early_load = (function_new [] (BasicBlockId 0))\<lparr>fn_blocks :=
     [\<lparr>blk_id = BasicBlockId 0,
       blk_instructions = [LoadVar (ValueId 0) [120], CallBuiltin (Some (ValueId 1)) IS_STRING [ValueId 0],
         Const (ValueId 2) (ConstantId 0), StoreVar [120] (ValueId 2)],
       blk_terminator = Return (Some (ValueId 1))\<rparr>]\<rparr>"

definition early_load_module :: Module where
  "early_load_module = module_new\<lparr>mod_constants := [String [97], Bool True],
     mod_string_constant_metas := [None, None], mod_functions := [early_load]\<rparr>"

text \<open>
  The test whether a variable holds a string looks only at the stores of the function: a load
  before the first store is taken for a string, although it reads what the variable contained at the
  start (and a captured variable may be written by other functions).
\<close>

lemma early_load_is_verified: "verify_function early_load_module early_load = Some (Inr ())"
  by code_simp

lemma early_load_reads_the_entry:
  "map_option (\<lambda>ssa. load_definition ssa (ValueId 0)) (variable_ssa_build early_load [[120]]) = Some (Some VarEntry)"
  by code_simp

lemma early_load_is_called_string:
  "Const (ValueId 1) (ConstantId 1) \<in> set (blk_instructions (fn_blocks (mod_functions (fst (fold_with None 0 early_load_module)) ! 0) ! 0))"
  by code_simp

definition replaced_text :: Function where
  "replaced_text = (function_new [] (BasicBlockId 0))\<lparr>fn_blocks :=
     [\<lparr>blk_id = BasicBlockId 0,
       blk_instructions = [Const (ValueId 0) (ConstantId 0), CallBuiltin (Some (ValueId 1)) STRING_REPLACE [ValueId 0, ValueId 0, ValueId 0],
         CallBuiltin (Some (ValueId 2)) IS_STRING [ValueId 1]],
       blk_terminator = Return (Some (ValueId 2))\<rparr>]\<rparr>"

text \<open>The answer of \<open>replace\<close> is what the method \<open>Symbol.replace\<close> of its argument returns, but is taken for a string.\<close>

lemma replace_is_called_string:
  "verify_function early_load_module replaced_text = Some (Inr ()) \<and>
   blk_instructions (fn_blocks (mod_functions (fst (fold_with None 0 (early_load_module\<lparr>mod_functions := [replaced_text]\<rparr>))) ! 0) ! 0) ! 2 =
     Const (ValueId 2) (ConstantId 1)"
  by code_simp

end
