(* ===== verification/Loop_Headers.thy ===== *)
theory Loop_Headers
  imports Typed_Cfg
begin

text \<open>
  The loop headers of a function (\<open>loop_headers\<close> of \<open>wjsm-ir/src/typed_cfg.rs\<close>) are the targets of
  the edges whose source they dominate, dominance meaning that every path from the entry to the
  source passes the header.
\<close>

lemma dominates_walk_ancestor:
  assumes W: "tabled fn g K" and b: "b \<in> cfg_nodes fn" and seen: "\<forall>s\<in>seen. cfg_rank fn b < cfg_rank fn s"
  shows "dominates_walk (K[bix (fn_entry fn) := None]) h seen b \<longleftrightarrow> h \<in> anc (block_table K) b \<and> h \<noteq> b"
  using b seen
proof (induction "cfg_rank fn b" arbitrary: b seen rule: less_induct)
  case less
  let ?idom = "K[bix (fn_entry fn) := None]"
  note T = table_facts(1) [OF W]
  have new: "b \<notin> seen" using less.prems(2) by blast
  show ?case
  proof (cases "b = fn_entry fn")
    case True
    then have "get_at ?idom (bix b) = Some None" using idom_at [OF W less.prems(1)] by simp
    moreover have "anc (block_table K) b = {b}" using cfgd.anc_entry [OF T] True by simp
    ultimately show ?thesis using new by (subst dominates_walk.simps) simp
  next
    case False
    obtain d where d: "block_table K b = Some d" using table_facts(2) [OF W less.prems(1)] by blast
    then have at: "get_at ?idom (bix b) = Some (Some d)" using idom_at [OF W less.prems(1)] False by simp
    note t = cfgd.treeD [OF T d]
    have rank: "cfg_rank fn d < cfg_rank fn b" using t(4) False by simp
    have anc: "anc (block_table K) b = insert b (anc (block_table K) d)" using d by (rule anc_step)
    show ?thesis
    proof (cases "d = h")
      case True
      then have "h \<in> anc (block_table K) b \<and> h \<noteq> b" using anc rank by auto
      then show ?thesis using True at new by (subst dominates_walk.simps) simp
    next
      case False
      have "dominates_walk ?idom h (insert b seen) d \<longleftrightarrow> h \<in> anc (block_table K) d \<and> h \<noteq> d"
        by (rule less.hyps [OF rank t(2)]) (use less.prems(2) rank in auto)
      moreover have "b \<notin> anc (block_table K) d" using cfgd.anc_facts(4) [OF T _ t(3)] rank by fastforce
      ultimately show ?thesis using False at new anc by (subst dominates_walk.simps) auto
    qed
  qed
qed

lemma dominates_node_iff:
  assumes W: "tabled fn g K" and p: "bix p < length (fn_blocks fn)"
  shows "dominates_node (K[bix (fn_entry fn) := None]) h p \<longleftrightarrow> h = p \<or> p \<in> cfg_nodes fn \<and> on_every_path fn h p"
proof (cases "p \<in> cfg_nodes fn")
  case True
  then show ?thesis
    using dominates_walk_ancestor [OF W True, of "{}" h] table_facts(4) [OF W True] by (auto simp: dominates_node_def)
next
  case False
  then have "block_table K p = None" using cfgd.treeD(1) [OF table_facts(1) [OF W]] by fastforce
  then have "get_at K (bix p) = Some None" using p table_facts(6) [OF W] by (simp add: block_table_def get_at_def)
  moreover have "p \<noteq> fn_entry fn" using False cfgd.entry(1) by metis
  ultimately have "get_at (K[bix (fn_entry fn) := None]) (bix p) = Some None"
    using p table_facts(6) [OF W] bix_inj [of p "fn_entry fn"] by (auto simp: get_at_def nth_list_update)
  then show ?thesis using False by (subst dominates_node_def, subst dominates_walk.simps) simp
qed

text \<open>
  C39: The loop headers of a verified function are exactly the blocks with an incoming edge from a
  block they dominate: from themselves, or from a reachable block such that every path from the
  entry to it passes the header. The computation never fails.
\<close>

theorem loop_headers_correct:
  assumes "verify_function m fn = Some (Inr ())"
  shows "\<exists>headers. loop_headers fn = Some headers \<and> distinct headers \<and>
    set headers = {h. \<exists>p. (p, h) \<in> flow_edge fn \<and> (h = p \<or> (fn_entry fn, p) \<in> (flow_edge fn)\<^sup>* \<and> on_every_path fn h p)}"
proof -
  have wf: "wf_function m fn" using assms verify_function_result(2) by blast
  obtain g where g: "cfg_build fn = Some g" using cfg_build_total by blast
  then have M: "cfg_match fn g" using wf_blocks [OF wf] by (simp add: cfg_match_def)
  obtain K where K: "immediate_dominators g = Some (K[bix (fn_entry fn) := None])"
    "length K = length (fn_blocks fn)" "cfg_dominator_table fn (block_table K)"
    using immediate_dominators_table [OF M] by blast
  then have W: "tabled fn g K" using M by (simp add: tabled_def)
  let ?blocks = "map block_at [0..<length (fn_blocks fn)]"
  have size: "length (fn_blocks fn) \<le> 2 ^ 32" by (rule wf_blocks(2) [OF wf])
  have index: "bix (block_at k) = k" if "k < length (fn_blocks fn)" for k
    using that size by (simp add: bix_def block_at_def unat_u32_of_nat)
  have blocks: "h \<in> set ?blocks \<longleftrightarrow> bix h < length (fn_blocks fn)" for h
  proof
    show "h \<in> set ?blocks \<Longrightarrow> bix h < length (fn_blocks fn)" using index by auto
    show "bix h < length (fn_blocks fn) \<Longrightarrow> h \<in> set ?blocks"
      using image_eqI [of h block_at "bix h"] by (simp add: block_at_def bix_def)
  qed
  have "inj_on block_at {0..<length (fn_blocks fn)}" using index by (intro inj_onI) (metis atLeastLessThan_iff)
  then have "distinct ?blocks" by (simp add: distinct_map)
  have nodes: "cfg_nodes fn = {b. (fn_entry fn, b) \<in> (flow_edge fn)\<^sup>*}"
    using M cfg_order_facts(3) unfolding cfg_match_def by blast
  have "list_ex (\<lambda>p. dominates_node (K[bix (fn_entry fn) := None]) h p) (predecessors g h) \<longleftrightarrow>
      (\<exists>p. (p, h) \<in> flow_edge fn \<and> (h = p \<or> (fn_entry fn, p) \<in> (flow_edge fn)\<^sup>* \<and> on_every_path fn h p))" for h
    using dominates_node_iff [OF W, of _ h] cfg_matchD(5) [OF M] nodes by (auto simp: list_ex_iff flow_edge_def)
  then have "set (filter (\<lambda>h. list_ex (\<lambda>p. dominates_node (K[bix (fn_entry fn) := None]) h p) (predecessors g h)) ?blocks) =
      {h. \<exists>p. (p, h) \<in> flow_edge fn \<and> (h = p \<or> (fn_entry fn, p) \<in> (flow_edge fn)\<^sup>* \<and> on_every_path fn h p)}"
    using blocks by (auto simp: flow_edge_def)
  then show ?thesis using \<open>distinct ?blocks\<close> g K(1) by (simp add: loop_headers_def)
qed

theorem loop_headers_correct_witness:
  "\<exists>headers. loop_headers loop_load = Some headers \<and> BasicBlockId 1 \<in> set headers"
proof -
  have "(BasicBlockId 1, BasicBlockId 1) \<in> flow_edge loop_load"
    by (simp add: flow_edge_def loop_load_def bix_def push_successor_def)
  then show ?thesis using loop_headers_correct [OF loop_load_verified(1)] by blast
qed

end
