(* ===== verification/Shape_Table.thy ===== *)
theory Shape_Table
  imports Values "HOL-Library.Product_Lexorder" "HOL-Library.AList"
begin

text \<open>
  Property keys and hidden classes of the garbage-collected heap (\<open>wjsm-gc/src/property_key.rs\<close>,
  \<open>wjsm-gc/src/shape.rs\<close>). A table is the state behind the lock; an operation takes it and returns
  the new one. \<open>None\<close> as the result of a transition is a panic. The transitions of a shape are an
  association list without duplicate keys (a hash map that \<open>export\<close> iterates and then sorts).
\<close>

section \<open>Property keys\<close>

datatype PropertyKey = PropertyKey (key_raw: u64)

instantiation PropertyKey :: linorder
begin

definition less_eq_PropertyKey :: "PropertyKey \<Rightarrow> PropertyKey \<Rightarrow> bool" where
  "k \<le> l \<longleftrightarrow> key_raw k \<le> key_raw l"

definition less_PropertyKey :: "PropertyKey \<Rightarrow> PropertyKey \<Rightarrow> bool" where
  "k < l \<longleftrightarrow> key_raw k < key_raw l"

instance
  by standard (auto simp: less_eq_PropertyKey_def less_PropertyKey_def PropertyKey.expand)

end

definition SYMBOL_NAMESPACE :: u64 where "SYMBOL_NAMESPACE = push_bit 63 1"
definition INLINE_NAMESPACE :: u64 where "INLINE_NAMESPACE = push_bit 62 1"
definition NAMESPACE_MASK :: u64 where "NAMESPACE_MASK = SYMBOL_NAMESPACE OR INLINE_NAMESPACE"
definition INLINE_PAYLOAD_MASK :: u64 where "INLINE_PAYLOAD_MASK = push_bit (INLINE_STRING_MARKER_SHIFT + 3) 1 - 1"

definition from_name_id :: "u32 \<Rightarrow> PropertyKey" where
  "from_name_id name_id = PropertyKey (ucast name_id)"

definition key_symbol :: "u32 \<Rightarrow> PropertyKey" where
  "key_symbol symbol_idx = PropertyKey (SYMBOL_NAMESPACE OR ucast symbol_idx)"

definition key_inline_string :: "u64 \<Rightarrow> PropertyKey option" where
  "key_inline_string encoded =
     (if \<not> is_inline_string encoded then None
      else Some (PropertyKey (INLINE_NAMESPACE OR (encoded AND INLINE_PAYLOAD_MASK))))"

definition from_baked_raw :: "u64 \<Rightarrow> PropertyKey" where
  "from_baked_raw raw = PropertyKey raw"

definition key_name_id :: "PropertyKey \<Rightarrow> u32 option" where
  "key_name_id k = (if key_raw k AND NAMESPACE_MASK = 0 then Some (ucast (key_raw k)) else None)"

definition key_is_symbol :: "PropertyKey \<Rightarrow> bool" where
  "key_is_symbol k \<longleftrightarrow> key_raw k AND NAMESPACE_MASK = SYMBOL_NAMESPACE"

definition key_is_inline_string :: "PropertyKey \<Rightarrow> bool" where
  "key_is_inline_string k \<longleftrightarrow> key_raw k AND NAMESPACE_MASK = INLINE_NAMESPACE"

definition key_to_value :: "PropertyKey \<Rightarrow> u64" where
  "key_to_value k =
     (if key_is_inline_string k then BOX_BASE OR (key_raw k AND INLINE_PAYLOAD_MASK)
      else if key_is_symbol k then encode_symbol_handle (ucast (key_raw k))
      else encode_runtime_string_handle (ucast (key_raw k)))"

section \<open>Shapes\<close>

definition SHAPE_ID_EMPTY :: u32 where "SHAPE_ID_EMPTY = 0"
definition SHAPE_MAP_THRESHOLD :: nat where "SHAPE_MAP_THRESHOLD = 8"
definition DICTIONARY_THRESHOLD :: nat where "DICTIONARY_THRESHOLD = 64"
definition SHAPE_TABLE_BUDGET :: nat where "SHAPE_TABLE_BUDGET = 65536"
definition FLAG_IS_ACCESSOR :: u32 where "FLAG_IS_ACCESSOR = 8"

record ShapeProp =
  sp_name :: PropertyKey
  sp_flags :: u32
  sp_index :: u32

definition slot_span_for :: "u32 \<Rightarrow> u32" where
  "slot_span_for flags = (if flags AND FLAG_IS_ACCESSOR \<noteq> 0 then 2 else 1)"

definition is_accessor :: "ShapeProp \<Rightarrow> bool" where
  "is_accessor p \<longleftrightarrow> sp_flags p AND FLAG_IS_ACCESSOR \<noteq> 0"

definition slot_span :: "ShapeProp \<Rightarrow> u32" where
  "slot_span p = slot_span_for (sp_flags p)"

definition getter_index :: "ShapeProp \<Rightarrow> u32" where
  "getter_index p = sp_index p"

definition setter_index :: "ShapeProp \<Rightarrow> u32" where
  "setter_index p = sp_index p + 1"

record ShapeTransition =
  tr_shape :: u32
  tr_index :: u32
  tr_slot_count :: u32
  tr_abandoned :: "(u32 \<times> u32) option"

record Shape =
  shp_props :: "ShapeProp list"
  shp_index_of :: "(PropertyKey \<rightharpoonup> u32) option"
  shp_transitions :: "((PropertyKey \<times> u32) \<times> u32) list"
  shp_slot_count :: u32
  shp_dictionary :: bool

definition shape_default :: Shape where
  "shape_default = \<lparr>shp_props = [], shp_index_of = None, shp_transitions = [], shp_slot_count = 0, shp_dictionary = False\<rparr>"

fun prop_position :: "PropertyKey \<Rightarrow> ShapeProp list \<Rightarrow> nat option" where
  \<comment> \<open>\<open>props.iter().position(...)\<close>\<close>
  "prop_position k [] = None"
| "prop_position k (p # ps) = (if sp_name p = k then Some 0 else map_option Suc (prop_position k ps))"

definition shape_find :: "Shape \<Rightarrow> PropertyKey \<Rightarrow> nat option" where
  "shape_find s k =
     (case shp_index_of s of
        Some m \<Rightarrow> map_option unat (m k)
      | None \<Rightarrow> prop_position k (shp_props s))"

definition rebuild_index :: "Shape \<Rightarrow> Shape" where
  "rebuild_index s =
     s\<lparr>shp_index_of := Some (foldl (\<lambda>m (slot, p). m(sp_name p \<mapsto> of_nat slot)) Map.empty (enumerate 0 (shp_props s)))\<rparr>"

definition push_prop :: "ShapeProp \<Rightarrow> Shape \<Rightarrow> Shape" where
  "push_prop p s =
     (let s1 = s\<lparr>shp_index_of := map_option (\<lambda>m. m(sp_name p \<mapsto> of_nat (length (shp_props s)))) (shp_index_of s)\<rparr>;
          s2 = s1\<lparr>shp_props := shp_props s1 @ [p]\<rparr>
      in if shp_index_of s2 = None \<and> length (shp_props s2) \<ge> SHAPE_MAP_THRESHOLD then rebuild_index s2 else s2)"

section \<open>The table\<close>

record ShapeTable =
  st_shapes :: "Shape list"
  st_prototypes :: "u32 set"
  st_generation :: u32

definition shape_table_new :: ShapeTable where
  "shape_table_new = \<lparr>st_shapes = [shape_default], st_prototypes = {}, st_generation = 0\<rparr>"

definition shape_at :: "ShapeTable \<Rightarrow> u32 \<Rightarrow> Shape option" where
  "shape_at T shape_id = get_at (st_shapes T) (unat shape_id)"

definition shape_count :: "ShapeTable \<Rightarrow> u32" where
  "shape_count T = of_nat (length (st_shapes T))"

definition shape_lookup :: "ShapeTable \<Rightarrow> u32 \<Rightarrow> PropertyKey \<Rightarrow> ShapeProp option" where
  \<comment> \<open>the index is in range, since a well-formed shape finds positions of its list only\<close>
  "shape_lookup T shape_id k =
     (case shape_at T shape_id of
        None \<Rightarrow> None
      | Some s \<Rightarrow> map_option (\<lambda>slot. shp_props s ! slot) (shape_find s k))"

definition slot_count :: "ShapeTable \<Rightarrow> u32 \<Rightarrow> u32" where
  "slot_count T shape_id = (case shape_at T shape_id of None \<Rightarrow> 0 | Some s \<Rightarrow> shp_slot_count s)"

definition prop_count :: "ShapeTable \<Rightarrow> u32 \<Rightarrow> u32" where
  "prop_count T shape_id = (case shape_at T shape_id of None \<Rightarrow> 0 | Some s \<Rightarrow> of_nat (length (shp_props s)))"

definition is_dictionary :: "ShapeTable \<Rightarrow> u32 \<Rightarrow> bool" where
  "is_dictionary T shape_id = (case shape_at T shape_id of None \<Rightarrow> False | Some s \<Rightarrow> shp_dictionary s)"

definition shape_props :: "ShapeTable \<Rightarrow> u32 \<Rightarrow> ShapeProp list" where
  "shape_props T shape_id = (case shape_at T shape_id of None \<Rightarrow> [] | Some s \<Rightarrow> shp_props s)"

definition all_name_ids :: "ShapeTable \<Rightarrow> u32 set" where
  "all_name_ids T = set (List.map_filter (\<lambda>p. key_name_id (sp_name p)) (concat (map shp_props (st_shapes T))))"

definition assign_prop :: "PropertyKey \<Rightarrow> u32 \<Rightarrow> Shape \<Rightarrow> Shape \<times> u32 \<times> (u32 \<times> u32) option" where
  \<comment> \<open>the match both transition functions end with: the shape, the index, the abandoned slots\<close>
  "assign_prop k flags s =
     (case shape_find s k of
        Some slot \<Rightarrow>
          (let old = shp_props s ! slot
           in if slot_span old = slot_span_for flags
              then (s\<lparr>shp_props := (shp_props s)[slot := old\<lparr>sp_flags := flags\<rparr>]\<rparr>, sp_index old, None)
              else (let index = shp_slot_count s
                    in (s\<lparr>shp_slot_count := index + slot_span_for flags,
                          shp_props := (shp_props s)[slot := \<lparr>sp_name = k, sp_flags = flags, sp_index = index\<rparr>]\<rparr>,
                        index, Some (sp_index old, slot_span old))))
      | None \<Rightarrow>
          (let index = shp_slot_count s
           in (push_prop \<lparr>sp_name = k, sp_flags = flags, sp_index = index\<rparr>
                 (s\<lparr>shp_slot_count := index + slot_span_for flags\<rparr>), index, None)))"

definition transition_in_dictionary :: "ShapeTable \<Rightarrow> u32 \<Rightarrow> PropertyKey \<Rightarrow> u32 \<Rightarrow> ShapeTable \<times> ShapeTransition" where
  "transition_in_dictionary T shape_id k flags =
     (let (s, index, abandoned) = assign_prop k flags (st_shapes T ! unat shape_id)
      in (T\<lparr>st_shapes := (st_shapes T)[unat shape_id := s]\<rparr>,
          \<lparr>tr_shape = shape_id, tr_index = index, tr_slot_count = shp_slot_count s, tr_abandoned = abandoned\<rparr>))"

definition ensure_dictionary :: "ShapeTable \<Rightarrow> u32 \<Rightarrow> ShapeTable \<times> u32" where
  "ensure_dictionary T shape_id =
     (case shape_at T shape_id of
        None \<Rightarrow> (T, SHAPE_ID_EMPTY)
      | Some s \<Rightarrow>
          if shp_dictionary s then (T, shape_id)
          else (let d = s\<lparr>shp_transitions := [], shp_dictionary := True\<rparr>;
                    d = (if shp_index_of d = None then rebuild_index d else d)
                in (T\<lparr>st_shapes := st_shapes T @ [d]\<rparr>, of_nat (length (st_shapes T)))))"

definition new_transition :: "ShapeTable \<Rightarrow> u32 \<Rightarrow> Shape \<Rightarrow> PropertyKey \<Rightarrow> u32 \<Rightarrow> ShapeTable \<times> ShapeTransition" where
  \<comment> \<open>the end of \<open>transition\<close>: a new shape and the edge to it\<close>
  "new_transition T shape_id s k flags =
     (let (target, index, abandoned) = assign_prop k flags (s\<lparr>shp_transitions := []\<rparr>);
          target_id = of_nat (length (st_shapes T));
          shapes = st_shapes T @ [target];
          parent = shapes ! unat shape_id
      in (T\<lparr>st_shapes := shapes[unat shape_id := parent\<lparr>shp_transitions := AList.update (k, flags) target_id (shp_transitions parent)\<rparr>]\<rparr>,
          \<lparr>tr_shape = target_id, tr_index = index, tr_slot_count = shp_slot_count target, tr_abandoned = abandoned\<rparr>))"

definition follow_transition :: "ShapeTable \<Rightarrow> Shape \<Rightarrow> PropertyKey \<Rightarrow> u32 \<Rightarrow> ShapeTransition option" where
  \<comment> \<open>along a cached edge; \<open>None\<close> is the panic of \<open>expect\<close> or of an index\<close>
  "follow_transition T s k target =
     (case shape_at T target of
        None \<Rightarrow> None
      | Some t \<Rightarrow>
          (case shape_find t k of
             None \<Rightarrow> None
           | Some slot \<Rightarrow>
               (let p = shp_props t ! slot
                in Some \<lparr>tr_shape = target, tr_index = sp_index p, tr_slot_count = shp_slot_count t,
                     tr_abandoned = (case shape_find s k of
                         None \<Rightarrow> None
                       | Some slot \<Rightarrow>
                           (let old = shp_props s ! slot
                            in if sp_index old \<noteq> sp_index p then Some (sp_index old, slot_span old) else None))\<rparr>)))"

definition unchanged_prop :: "Shape \<Rightarrow> PropertyKey \<Rightarrow> u32 \<Rightarrow> ShapeProp option" where
  \<comment> \<open>the property, when it is there with the same flags\<close>
  "unchanged_prop s k flags =
     (case shape_find s k of
        None \<Rightarrow> None
      | Some slot \<Rightarrow> if sp_flags (shp_props s ! slot) = flags then Some (shp_props s ! slot) else None)"

definition transition_from :: "ShapeTable \<Rightarrow> u32 \<Rightarrow> Shape \<Rightarrow> PropertyKey \<Rightarrow> u32 \<Rightarrow> (ShapeTable \<times> ShapeTransition) option" where
  \<comment> \<open>\<open>transition\<close> for a known shape\<close>
  "transition_from T shape_id s k flags =
     (if shp_dictionary s then Some (transition_in_dictionary T shape_id k flags)
      else
        (case unchanged_prop s k flags of
           Some p \<Rightarrow>
             Some (T, \<lparr>tr_shape = shape_id, tr_index = sp_index p, tr_slot_count = shp_slot_count s, tr_abandoned = None\<rparr>)
         | None \<Rightarrow>
             (case map_of (shp_transitions s) (k, flags) of
                Some target \<Rightarrow> map_option (Pair T) (follow_transition T s k target)
              | None \<Rightarrow>
                  if length (shp_props s) \<ge> DICTIONARY_THRESHOLD \<or> length (st_shapes T) \<ge> SHAPE_TABLE_BUDGET
                  then (case ensure_dictionary T shape_id of
                      (T', d) \<Rightarrow> Some (transition_in_dictionary T' d k flags))
                  else Some (new_transition T shape_id s k flags))))"

definition transition_add :: "ShapeTable \<Rightarrow> u32 \<Rightarrow> PropertyKey \<Rightarrow> u32 \<Rightarrow> (ShapeTable \<times> ShapeTransition) option" where
  \<comment> \<open>an unknown shape is replaced by the empty one; a table without shapes does not occur\<close>
  "transition_add T shape_id k flags =
     (case shape_at T shape_id of
        Some s \<Rightarrow> transition_from T shape_id s k flags
      | None \<Rightarrow>
          (case shape_at T SHAPE_ID_EMPTY of
             Some s \<Rightarrow> transition_from T SHAPE_ID_EMPTY s k flags
           | None \<Rightarrow> None))"

definition peek_transition :: "ShapeTable \<Rightarrow> u32 \<Rightarrow> PropertyKey \<Rightarrow> u32 \<Rightarrow> u32 option" where
  "peek_transition T shape_id k flags =
     (case shape_at T shape_id of
        None \<Rightarrow> None
      | Some s \<Rightarrow> if shp_dictionary s then None else map_of (shp_transitions s) (k, flags))"

definition update_flags :: "ShapeTable \<Rightarrow> u32 \<Rightarrow> PropertyKey \<Rightarrow> u32 \<Rightarrow> (ShapeTable \<times> ShapeTransition option) option" where
  \<comment> \<open>the outer \<open>None\<close> is a panic, the inner one the result of the function\<close>
  "update_flags T shape_id k flags =
     (case shape_at T shape_id of
        None \<Rightarrow> Some (T, None)
      | Some s \<Rightarrow>
          (case shape_find s k of
             None \<Rightarrow> Some (T, None)
           | Some _ \<Rightarrow> map_option (\<lambda>(T', r). (T', Some r)) (transition_add T shape_id k flags)))"

definition remove_prop :: "ShapeTable \<Rightarrow> u32 \<Rightarrow> PropertyKey \<Rightarrow> ShapeTable \<times> (u32 \<times> u32 \<times> u32) option" where
  \<comment> \<open>the dictionary is made before the property is looked up\<close>
  "remove_prop T shape_id k =
     (let (T1, d) = ensure_dictionary T shape_id
      in case shape_at T1 d of
           None \<Rightarrow> (T1, None)
         | Some s \<Rightarrow>
             (case shape_find s k of
                None \<Rightarrow> (T1, None)
              | Some slot \<Rightarrow>
                  (let p = shp_props s ! slot;
                       s' = rebuild_index (s\<lparr>shp_props := take slot (shp_props s) @ drop (Suc slot) (shp_props s)\<rparr>)
                   in (T1\<lparr>st_shapes := (st_shapes T1)[unat d := s']\<rparr>, Some (d, sp_index p, slot_span p)))))"

definition to_dictionary :: "ShapeTable \<Rightarrow> u32 \<Rightarrow> ShapeTable \<times> u32" where
  "to_dictionary T shape_id = ensure_dictionary T shape_id"

section \<open>Prototypes\<close>

definition PROTO_NULL_SENTINEL :: u32 where "PROTO_NULL_SENTINEL = 0xFFFFFFFF"
definition PROTO_PROXY_FLAG :: u32 where "PROTO_PROXY_FLAG = 0x80000000"
definition PROTO_REGEXP_FLAG :: u32 where "PROTO_REGEXP_FLAG = 0x40000000"

definition proto_slot_is_exotic :: "u32 \<Rightarrow> bool" where
  "proto_slot_is_exotic prototype \<longleftrightarrow>
     prototype \<noteq> PROTO_NULL_SENTINEL \<and> prototype AND (PROTO_PROXY_FLAG OR PROTO_REGEXP_FLAG) \<noteq> 0"

definition note_prototype :: "u32 \<Rightarrow> ShapeTable \<Rightarrow> ShapeTable" where
  "note_prototype handle T =
     (if handle = PROTO_NULL_SENTINEL then T else T\<lparr>st_prototypes := insert handle (st_prototypes T)\<rparr>)"

definition invalidate_if_prototype :: "u32 \<Rightarrow> ShapeTable \<Rightarrow> ShapeTable" where
  "invalidate_if_prototype handle T =
     (if handle \<in> st_prototypes T then T\<lparr>st_generation := st_generation T + 1\<rparr> else T)"

definition remap_prototypes :: "(u32 \<Rightarrow> u32) \<Rightarrow> ShapeTable \<Rightarrow> ShapeTable" where
  "remap_prototypes remap T = T\<lparr>st_prototypes := remap ` st_prototypes T\<rparr>"

section \<open>Snapshots\<close>

record ShapeTableSnapshot =
  sts_shapes :: "Shape list"
  sts_transitions :: "(u32 \<times> PropertyKey \<times> u32 \<times> u32) list"
  sts_prototypes :: "u32 list"
  sts_generation :: u32

definition export_table :: "ShapeTable \<Rightarrow> ShapeTableSnapshot" where
  "export_table T =
     \<lparr>sts_shapes = st_shapes T,
      sts_transitions = sort (concat (map (\<lambda>(parent, s).
        map (\<lambda>((k, flags), child). (of_nat parent, k, flags, child)) (shp_transitions s)) (enumerate 0 (st_shapes T)))),
      sts_prototypes = sorted_list_of_set (st_prototypes T),
      sts_generation = st_generation T\<rparr>"

definition serialized :: "ShapeTableSnapshot \<Rightarrow> ShapeTableSnapshot" where
  \<comment> \<open>what is left of a snapshot after writing and reading it: the fields marked \<open>serde(skip)\<close> are
      the default ones\<close>
  "serialized snapshot =
     snapshot\<lparr>sts_shapes := map (\<lambda>s. s\<lparr>shp_index_of := None, shp_transitions := []\<rparr>) (sts_shapes snapshot)\<rparr>"

definition import_shape :: "Shape \<Rightarrow> Shape" where
  "import_shape s =
     (let s = s\<lparr>shp_transitions := []\<rparr>
      in if length (shp_props s) \<ge> SHAPE_MAP_THRESHOLD then rebuild_index s else s\<lparr>shp_index_of := None\<rparr>)"

definition import_transition :: "Shape list \<Rightarrow> u32 \<times> PropertyKey \<times> u32 \<times> u32 \<Rightarrow> Shape list" where
  "import_transition shapes = (\<lambda>(parent, k, flags, child).
     case get_at shapes (unat parent) of
       None \<Rightarrow> shapes
     | Some s \<Rightarrow>
         if shp_dictionary s then shapes
         else shapes[unat parent := s\<lparr>shp_transitions := AList.update (k, flags) child (shp_transitions s)\<rparr>])"

definition import_table :: "ShapeTableSnapshot \<Rightarrow> ShapeTable \<Rightarrow> ShapeTable" where
  "import_table snapshot T =
     (let shapes = (if sts_shapes snapshot = [] then [shape_default] else sts_shapes snapshot);
          shapes = map import_shape shapes
      in T\<lparr>st_shapes := foldl import_transition shapes (sts_transitions snapshot),
           st_prototypes := set (sts_prototypes snapshot), st_generation := sts_generation snapshot\<rparr>)"

end
