(* ===== verification/Property_Keys.thy ===== *)
theory Property_Keys
  imports Shape_Table
begin

text \<open>
  Property keys name what they stand for: names, symbols and inline strings live in different
  namespaces of the 64 bits, and a key gives its value back.
\<close>

lemma namespace_bits: "bit NAMESPACE_MASK n \<longleftrightarrow> n = 62 \<or> n = 63"
  unfolding NAMESPACE_MASK_def SYMBOL_NAMESPACE_def INLINE_NAMESPACE_def bit_or_iff bit_one_at by auto

lemma namespace_eq:
  assumes "\<And>n. bit y n \<Longrightarrow> n = 62 \<or> n = 63"
  shows "x AND NAMESPACE_MASK = y \<longleftrightarrow> (bit x 62 \<longleftrightarrow> bit y 62) \<and> (bit x 63 \<longleftrightarrow> bit y 63)"
proof
  assume "x AND NAMESPACE_MASK = y"
  then show "(bit x 62 \<longleftrightarrow> bit y 62) \<and> (bit x 63 \<longleftrightarrow> bit y 63)" by (auto simp: bit_and_iff namespace_bits)
next
  assume "(bit x 62 \<longleftrightarrow> bit y 62) \<and> (bit x 63 \<longleftrightarrow> bit y 63)"
  then show "x AND NAMESPACE_MASK = y"
    by (intro bit_word_eqI) (use assms in \<open>auto simp: bit_and_iff namespace_bits\<close>)
qed

lemma single_namespace_bits: "bit SYMBOL_NAMESPACE n \<longleftrightarrow> n = 63" "bit INLINE_NAMESPACE n \<longleftrightarrow> n = 62"
  unfolding SYMBOL_NAMESPACE_def INLINE_NAMESPACE_def bit_one_at by auto

lemma namespace_cases:
  "x AND NAMESPACE_MASK = 0 \<longleftrightarrow> \<not> bit x 62 \<and> \<not> bit x 63"
  "x AND NAMESPACE_MASK = SYMBOL_NAMESPACE \<longleftrightarrow> \<not> bit x 62 \<and> bit x 63"
  "x AND NAMESPACE_MASK = INLINE_NAMESPACE \<longleftrightarrow> bit x 62 \<and> \<not> bit x 63"
  by (subst namespace_eq; simp add: single_namespace_bits)+

lemma name_key_bits: "bit (key_raw (from_name_id i)) n \<longleftrightarrow> bit i n"
  by (auto simp: from_name_id_def bit_ucast_iff dest: bit_imp_le_length)

lemma symbol_key_bits: "bit (key_raw (key_symbol i)) n \<longleftrightarrow> n = 63 \<or> bit i n"
  unfolding key_symbol_def SYMBOL_NAMESPACE_def PropertyKey.sel bit_or_iff bit_one_at
  by (auto simp: bit_ucast_iff dest: bit_imp_le_length)

lemma inline_key_raw: "key_inline_string v = map_option PropertyKey (inline_property_key_raw v)"
  by (simp add: key_inline_string_def inline_property_key_raw_def INLINE_NAMESPACE_def INLINE_PAYLOAD_MASK_def)

lemma u32_bits: "bit (i :: u32) n \<Longrightarrow> n < 32"
  using bit_imp_le_length by fastforce

lemma name_of_key: "(ucast (key_raw (from_name_id i)) :: u32) = i" "(ucast (key_raw (key_symbol i)) :: u32) = i"
  by (rule bit_word_eqI; auto simp: bit_ucast_iff name_key_bits symbol_key_bits)+

lemma inline_boxed: "is_inline_string v \<Longrightarrow> 51 \<le> n \<Longrightarrow> n < 64 \<Longrightarrow> bit v n"
  using boxed_bit [of v n] by (auto simp: is_inline_string_def is_inline_ascii_fields is_inline_latin1_fields)

lemma inline_key_value:
  assumes "key_inline_string v = Some k"
  shows "key_is_inline_string k" "key_to_value k = v"
proof -
  obtain r where r: "inline_property_key_raw v = Some r" "k = PropertyKey r" using assms by (auto simp: inline_key_raw)
  then have inline: "is_inline_string v" by (simp add: inline_property_key_raw_def split: if_splits)
  show k: "key_is_inline_string k" using bit_property_key [OF r(1)] by (simp add: key_is_inline_string_def namespace_cases r(2))
  have "bit (BOX_BASE OR (r AND INLINE_PAYLOAD_MASK)) n \<longleftrightarrow> bit v n" if "n < 64" for n
    using that inline_boxed [OF inline, of n] bit_property_key [OF r(1), of n]
    unfolding INLINE_PAYLOAD_MASK_def key_mask bit_or_iff bit_and_iff BOX_BASE_mask bit_push_bit_iff bit_mask_iff by auto
  then show "key_to_value k = v" using k r(2) by (simp add: key_to_value_def) (rule bit_word_eqI, simp)
qed

text \<open>
  C40: Property keys. A key made from a name, a symbol or an inline string answers to exactly that
  namespace and gives the name, the symbol or the value back, so keys are equal only if what they stand
  for is; and the key of an inline string is the one the compiler bakes into object templates.
\<close>

theorem property_keys_are_faithful:
  "key_name_id (from_name_id i) = Some i \<and> \<not> key_is_symbol (from_name_id i) \<and> \<not> key_is_inline_string (from_name_id i) \<and>
   key_to_value (from_name_id i) = encode_runtime_string_handle i \<and>
   key_name_id (key_symbol i) = None \<and> key_is_symbol (key_symbol i) \<and> \<not> key_is_inline_string (key_symbol i) \<and>
   key_to_value (key_symbol i) = encode_symbol_handle i \<and>
   pred_option (\<lambda>k. key_name_id k = None \<and> \<not> key_is_symbol k \<and> key_is_inline_string k \<and> key_to_value k = v) (key_inline_string v) \<and>
   key_inline_string v = map_option from_baked_raw (inline_property_key_raw v)"
proof -
  have n: "key_raw (from_name_id i) AND NAMESPACE_MASK = 0" "key_raw (from_name_id i) AND NAMESPACE_MASK \<noteq> SYMBOL_NAMESPACE"
    "key_raw (from_name_id i) AND NAMESPACE_MASK \<noteq> INLINE_NAMESPACE"
    using u32_bits [of i 62] u32_bits [of i 63] by (auto simp: namespace_cases name_key_bits)
  have s: "key_raw (key_symbol i) AND NAMESPACE_MASK \<noteq> 0" "key_raw (key_symbol i) AND NAMESPACE_MASK = SYMBOL_NAMESPACE"
    "key_raw (key_symbol i) AND NAMESPACE_MASK \<noteq> INLINE_NAMESPACE"
    using u32_bits [of i 62] u32_bits [of i 63] by (auto simp: namespace_cases symbol_key_bits)
  have "key_name_id k = None \<and> \<not> key_is_symbol k \<and> key_is_inline_string k \<and> key_to_value k = v" if "key_inline_string v = Some k" for k
    using inline_key_value [OF that] by (auto simp: key_name_id_def key_is_symbol_def key_is_inline_string_def namespace_cases)
  moreover have "key_inline_string v = map_option from_baked_raw (inline_property_key_raw v)"
    by (cases "inline_property_key_raw v") (simp_all add: inline_key_raw from_baked_raw_def)
  ultimately show ?thesis
    using n s name_of_key by (simp add: key_name_id_def key_is_symbol_def key_is_inline_string_def key_to_value_def option.pred_set) auto
qed

end
