(* ===== verification/Object_Heap.thy ===== *)
theory Object_Heap
  imports Shape_Table
begin

text \<open>
  Properties of objects on the heap (\<open>wjsm-gc/src/heap_access.rs\<close>): an object has a prototype, a shape
  and an array of value slots, the shape table says which slot a property has. An object is what its
  words say (the header fields and the slots); addresses, the handle table, barriers and the running
  out of memory are not part of this model. The result of an operation is \<open>None\<close> for a panic, an error,
  or the new heap. A slot index lies within the slots of the object on every well-formed heap.
\<close>

section \<open>Objects\<close>

record heap_object =
  ho_type :: u8
  ho_prototype :: u32
  ho_shape :: u32
  ho_slots :: "u64 list"

record object_heap =
  oh_table :: ShapeTable
  oh_objects :: "u32 \<rightharpoonup> heap_object"

datatype HeapAccessV2Error =
    UnresolvedHandle u32
  | ArrayPropertySlots u32
  | AddressOverflow
  | ExoticPrototype u32

record HeapAccessV2Property =
  hp_flags :: u32
  hp_value :: u64
  hp_getter :: u64
  hp_setter :: u64

definition FLAG_CONFIGURABLE :: u32 where "FLAG_CONFIGURABLE = 1"
definition FLAG_ENUMERABLE :: u32 where "FLAG_ENUMERABLE = 2"
definition FLAG_WRITABLE :: u32 where "FLAG_WRITABLE = 4"
definition HEAP_OBJECT_INITIAL_VALUE_CAPACITY :: nat where "HEAP_OBJECT_INITIAL_VALUE_CAPACITY = 4"

definition HEAP_TYPE_OBJECT :: u8 where "HEAP_TYPE_OBJECT = 0"
definition HEAP_TYPE_ARRAY :: u8 where "HEAP_TYPE_ARRAY = 1"

definition ho_is_array :: "heap_object \<Rightarrow> bool" where
  "ho_is_array object \<longleftrightarrow> ho_type object = HEAP_TYPE_ARRAY"

definition resolve_object :: "object_heap \<Rightarrow> u32 \<Rightarrow> HeapAccessV2Error + heap_object" where
  "resolve_object H handle = ok_or (oh_objects H handle) (UnresolvedHandle handle)"

definition update_object :: "u32 \<Rightarrow> (heap_object \<Rightarrow> heap_object) \<Rightarrow> object_heap \<Rightarrow> object_heap" where
  "update_object handle g H = H\<lparr>oh_objects := (oh_objects H)(handle := map_option g (oh_objects H handle))\<rparr>"

definition load_value_slot :: "heap_object \<Rightarrow> u32 \<Rightarrow> u64" where
  "load_value_slot object index = strip_gc_color (ho_slots object ! unat index)"

definition store_value_slot :: "u32 \<Rightarrow> u32 \<Rightarrow> u64 \<Rightarrow> object_heap \<Rightarrow> object_heap" where
  "store_value_slot handle index v =
     update_object handle (\<lambda>object. object\<lparr>ho_slots := (ho_slots object)[unat index := v]\<rparr>)"

definition publish_object :: "u32 \<Rightarrow> u32 \<Rightarrow> u64 list \<Rightarrow> object_heap \<Rightarrow> object_heap" where
  \<comment> \<open>with the words of the fresh memory\<close>
  "publish_object handle prototype slots H =
     H\<lparr>oh_table := note_prototype prototype (oh_table H),
       oh_objects := (oh_objects H)(handle \<mapsto>
         \<lparr>ho_type = HEAP_TYPE_OBJECT, ho_prototype = prototype, ho_shape = SHAPE_ID_EMPTY, ho_slots = slots\<rparr>)\<rparr>"

definition publish_array :: "u32 \<Rightarrow> u32 \<Rightarrow> u64 list \<Rightarrow> object_heap \<Rightarrow> object_heap" where
  "publish_array handle prototype slots H =
     update_object handle (\<lambda>object. object\<lparr>ho_type := HEAP_TYPE_ARRAY\<rparr>) (publish_object handle prototype slots H)"

definition set_object_type :: "object_heap \<Rightarrow> u32 \<Rightarrow> u8 \<Rightarrow> HeapAccessV2Error + object_heap" where
  "set_object_type H handle object_type =
     bindr (resolve_object H handle) (\<lambda>_.
       Inr (update_object handle (\<lambda>object. object\<lparr>ho_type := object_type\<rparr>) H))"

definition set_prototype :: "object_heap \<Rightarrow> u32 \<Rightarrow> u32 \<Rightarrow> HeapAccessV2Error + object_heap" where
  "set_prototype H handle prototype =
     bindr (resolve_object H handle) (\<lambda>_.
       Inr (update_object handle (\<lambda>object. object\<lparr>ho_prototype := prototype\<rparr>)
         (H\<lparr>oh_table := invalidate_if_prototype handle (note_prototype prototype (oh_table H))\<rparr>)))"

section \<open>Reading\<close>

definition read_prop :: "heap_object \<Rightarrow> ShapeProp \<Rightarrow> HeapAccessV2Property" where
  "read_prop object p =
     (if is_accessor p
      then \<lparr>hp_flags = sp_flags p, hp_value = encode_undefined,
            hp_getter = load_value_slot object (getter_index p), hp_setter = load_value_slot object (setter_index p)\<rparr>
      else \<lparr>hp_flags = sp_flags p, hp_value = load_value_slot object (sp_index p),
            hp_getter = encode_undefined, hp_setter = encode_undefined\<rparr>)"

definition get_property_slot :: "object_heap \<Rightarrow> u32 \<Rightarrow> PropertyKey \<Rightarrow> HeapAccessV2Error + HeapAccessV2Property option" where
  "get_property_slot H handle k =
     bindr (resolve_object H handle) (\<lambda>object.
       if ho_is_array object then Inr None
       else Inr (map_option (read_prop object) (shape_lookup (oh_table H) (ho_shape object) k)))"

definition get_property :: "object_heap \<Rightarrow> u32 \<Rightarrow> PropertyKey \<Rightarrow> HeapAccessV2Error + u64 option" where
  "get_property H handle k = bindr (get_property_slot H handle k) (\<lambda>p. Inr (map_option hp_value p))"

definition own_property_slots :: "object_heap \<Rightarrow> u32 \<Rightarrow> HeapAccessV2Error + (PropertyKey \<times> u32) list" where
  "own_property_slots H handle =
     bindr (resolve_object H handle) (\<lambda>object.
       if ho_is_array object then Inr []
       else Inr (map (\<lambda>p. (sp_name p, sp_flags p)) (shape_props (oh_table H) (ho_shape object))))"

definition own_data_property_index :: "object_heap \<Rightarrow> u32 \<Rightarrow> PropertyKey \<Rightarrow> HeapAccessV2Error + (u32 \<times> u32) option" where
  \<comment> \<open>what an inline cache is filled with\<close>
  "own_data_property_index H handle k =
     bindr (resolve_object H handle) (\<lambda>object.
       if ho_is_array object then Inr None
       else if is_dictionary (oh_table H) (ho_shape object) then Inr None
       else (case shape_lookup (oh_table H) (ho_shape object) k of
           None \<Rightarrow> Inr None
         | Some p \<Rightarrow> if is_accessor p then Inr None else Inr (Some (ho_shape object, sp_index p))))"

text \<open>The walks along the prototype chain; \<open>None\<close> is a walk that does not end, in a cycle.\<close>

partial_function (option) get_property_slot_on_proto_chain ::
  "object_heap \<Rightarrow> u32 \<Rightarrow> PropertyKey \<Rightarrow> u32 \<Rightarrow> (HeapAccessV2Error + (u32 \<times> HeapAccessV2Property) option) option" where
  "get_property_slot_on_proto_chain H handle k current =
     (if proto_slot_is_exotic current then Some (Inr None)
      else (case resolve_object H current of
          Inl e \<Rightarrow> Some (Inl e)
        | Inr object \<Rightarrow>
            if ho_is_array object \<and> current \<noteq> handle then Some (Inl (ExoticPrototype current))
            else (case get_property_slot H current k of
                Inl e \<Rightarrow> Some (Inl e)
              | Inr (Some p) \<Rightarrow> Some (Inr (Some (current, p)))
              | Inr None \<Rightarrow>
                  if ho_prototype object = PROTO_NULL_SENTINEL \<or> ho_prototype object = current then Some (Inr None)
                  else if proto_slot_is_exotic (ho_prototype object) then Some (Inl (ExoticPrototype (ho_prototype object)))
                  else get_property_slot_on_proto_chain H handle k (ho_prototype object))))"

partial_function (option) get_property_slot_on_proto_chain_for_ic ::
  "object_heap \<Rightarrow> PropertyKey \<Rightarrow> u32 \<Rightarrow> (HeapAccessV2Error + (u32 \<times> u32 \<times> HeapAccessV2Property) option) option" where
  "get_property_slot_on_proto_chain_for_ic H k current =
     (if proto_slot_is_exotic current then Some (Inr None)
      else (case resolve_object H current of
          Inl e \<Rightarrow> Some (Inl e)
        | Inr object \<Rightarrow>
            if ho_type object \<noteq> HEAP_TYPE_OBJECT then Some (Inr None)
            else if is_dictionary (oh_table H) (ho_shape object) then Some (Inr None)
            else (case shape_lookup (oh_table H) (ho_shape object) k of
                Some p \<Rightarrow> Some (Inr (Some (current, sp_index p, read_prop object p)))
              | None \<Rightarrow>
                  if ho_prototype object = PROTO_NULL_SENTINEL \<or> ho_prototype object = current then Some (Inr None)
                  else if proto_slot_is_exotic (ho_prototype object) then Some (Inr None)
                  else get_property_slot_on_proto_chain_for_ic H k (ho_prototype object))))"

section \<open>Writing\<close>

definition grow_value_capacity :: "object_heap \<Rightarrow> u32 \<Rightarrow> u32 \<Rightarrow> HeapAccessV2Error + object_heap" where
  "grow_value_capacity H handle needed =
     bindr (resolve_object H handle) (\<lambda>object.
       let capacity = length (ho_slots object);
           new_capacity = max (max (min (2 * capacity) (2 ^ 32 - 1)) HEAP_OBJECT_INITIAL_VALUE_CAPACITY) (unat needed)
       in if new_capacity \<le> capacity then Inl AddressOverflow
          else Inr (update_object handle (\<lambda>object.
            object\<lparr>ho_slots := ho_slots object @ replicate (new_capacity - capacity) 0\<rparr>) H))"

definition clear_slots :: "u32 \<Rightarrow> u32 \<times> u32 \<Rightarrow> object_heap \<Rightarrow> object_heap" where
  "clear_slots handle = (\<lambda>(index, span). fold (\<lambda>offset. store_value_slot handle (index + of_nat offset) 0) [0..<unat span])"

definition write_shape_id :: "u32 \<Rightarrow> u32 \<Rightarrow> object_heap \<Rightarrow> object_heap" where
  "write_shape_id handle shape_id = update_object handle (\<lambda>object. object\<lparr>ho_shape := shape_id\<rparr>)"

definition apply_transition :: "object_heap \<Rightarrow> u32 \<Rightarrow> u32 \<Rightarrow> ShapeTransition \<Rightarrow> HeapAccessV2Error + object_heap" where
  "apply_transition H handle old_shape_id t =
     bindr (resolve_object H handle) (\<lambda>object.
     bindr (if length (ho_slots object) < unat (tr_slot_count t) then grow_value_capacity H handle (tr_slot_count t) else Inr H) (\<lambda>H.
       let H = (case tr_abandoned t of None \<Rightarrow> H | Some slots \<Rightarrow> clear_slots handle slots H)
       in Inr (if tr_shape t \<noteq> old_shape_id
               then (write_shape_id handle (tr_shape t) H)\<lparr>oh_table := invalidate_if_prototype handle (oh_table H)\<rparr>
               else H)))"

definition define_property_slot ::
  "object_heap \<Rightarrow> u32 \<Rightarrow> PropertyKey \<Rightarrow> u32 \<Rightarrow> u64 \<Rightarrow> u64 \<Rightarrow> u64 \<Rightarrow> (HeapAccessV2Error + object_heap) option" where
  "define_property_slot H handle k flags property_value getter setter =
     (case resolve_object H handle of
        Inl e \<Rightarrow> Some (Inl e)
      | Inr object \<Rightarrow>
          if ho_is_array object then Some (Inl (ArrayPropertySlots handle))
          else map_option (\<lambda>(T, t).
            bindr (apply_transition (H\<lparr>oh_table := T\<rparr>) handle (ho_shape object) t) (\<lambda>H.
              Inr (if flags AND FLAG_IS_ACCESSOR \<noteq> 0
                   then store_value_slot handle (tr_index t + 1) setter (store_value_slot handle (tr_index t) getter H)
                   else store_value_slot handle (tr_index t) property_value H)))
            (transition_add (oh_table H) (ho_shape object) k flags))"

definition define_data_property ::
  "object_heap \<Rightarrow> u32 \<Rightarrow> PropertyKey \<Rightarrow> u64 \<Rightarrow> u32 \<Rightarrow> (HeapAccessV2Error + object_heap) option" where
  "define_data_property H handle k property_value flags =
     define_property_slot H handle k flags property_value encode_undefined encode_undefined"

definition define_accessor_property_with_flags ::
  "object_heap \<Rightarrow> u32 \<Rightarrow> PropertyKey \<Rightarrow> u64 \<Rightarrow> u64 \<Rightarrow> u32 \<Rightarrow> (HeapAccessV2Error + object_heap) option" where
  "define_accessor_property_with_flags H handle k getter setter flags =
     define_property_slot H handle k (flags OR FLAG_IS_ACCESSOR) encode_undefined getter setter"

definition define_accessor_property ::
  "object_heap \<Rightarrow> u32 \<Rightarrow> PropertyKey \<Rightarrow> u64 \<Rightarrow> u64 \<Rightarrow> (HeapAccessV2Error + object_heap) option" where
  "define_accessor_property H handle k getter setter =
     define_accessor_property_with_flags H handle k getter setter (FLAG_CONFIGURABLE OR FLAG_ENUMERABLE)"

definition set_property :: "object_heap \<Rightarrow> u32 \<Rightarrow> PropertyKey \<Rightarrow> u64 \<Rightarrow> (HeapAccessV2Error + object_heap) option" where
  "set_property H handle k v =
     (case resolve_object H handle of
        Inl e \<Rightarrow> Some (Inl e)
      | Inr object \<Rightarrow>
          if ho_is_array object then Some (Inl (ArrayPropertySlots handle))
          else (case shape_lookup (oh_table H) (ho_shape object) k of
              Some p \<Rightarrow>
                if \<not> is_accessor p then Some (Inr (store_value_slot handle (sp_index p) v H))
                else define_property_slot H handle k (FLAG_CONFIGURABLE OR FLAG_ENUMERABLE OR FLAG_WRITABLE) v encode_undefined encode_undefined
            | None \<Rightarrow>
                define_property_slot H handle k (FLAG_CONFIGURABLE OR FLAG_ENUMERABLE OR FLAG_WRITABLE) v encode_undefined encode_undefined))"

definition update_property_flags :: "object_heap \<Rightarrow> u32 \<Rightarrow> PropertyKey \<Rightarrow> u32 \<Rightarrow> (HeapAccessV2Error + object_heap) option" where
  "update_property_flags H handle k flags =
     (case resolve_object H handle of
        Inl e \<Rightarrow> Some (Inl e)
      | Inr object \<Rightarrow>
          if ho_is_array object then Some (Inr H)
          else map_option (\<lambda>(T, t).
            (case t of
               None \<Rightarrow> Inr (H\<lparr>oh_table := T\<rparr>)
             | Some t \<Rightarrow> apply_transition (H\<lparr>oh_table := T\<rparr>) handle (ho_shape object) t))
            (update_flags (oh_table H) (ho_shape object) k flags))"

definition delete_property :: "object_heap \<Rightarrow> u32 \<Rightarrow> PropertyKey \<Rightarrow> HeapAccessV2Error + object_heap" where
  \<comment> \<open>the answer is \<open>true\<close> whenever it is not an error\<close>
  "delete_property H handle k =
     bindr (resolve_object H handle) (\<lambda>object.
       if ho_is_array object then Inl (ArrayPropertySlots handle)
       else (case remove_prop (oh_table H) (ho_shape object) k of
           (T, None) \<Rightarrow> Inr (H\<lparr>oh_table := T\<rparr>)
         | (T, Some (dictionary_id, slots)) \<Rightarrow>
             Inr (clear_slots handle slots
               ((write_shape_id handle dictionary_id H)\<lparr>oh_table := invalidate_if_prototype handle T\<rparr>))))"

definition write_baked_object_literal_properties ::
  "object_heap \<Rightarrow> u32 \<Rightarrow> u32 \<Rightarrow> (u32 \<times> u64) list \<Rightarrow> HeapAccessV2Error + object_heap" where
  "write_baked_object_literal_properties H handle shape_id properties =
     bindr (resolve_object H handle) (\<lambda>_.
       Inr (fold (\<lambda>(index, stored). store_value_slot handle index stored) properties (write_shape_id handle shape_id H)))"

end
