(* ===== verification/Inline_Cache.thy ===== *)
theory Inline_Cache
  imports Object_Heap
begin

text \<open>
  Property inline caches: the 32-byte slot of an access site (\<open>wjsm-ir/src/constants.rs\<close>), how the host
  fills it after a miss (\<open>wjsm-host-native/src/dispatch/runtime.rs\<close>), and what the emitted fast path
  does with it (\<open>wjsm-backend-native/src/lower/ic_get.rs\<close>, \<open>ic_set.rs\<close>). A handle without a stable entry
  is a miss; the load assists of the collector, feedback slots and the shortcut for getters that
  compute \<open>Math.hypot\<close> are left out.
\<close>

record IcSlot =
  ic_shape_id :: u32
  ic_value_index :: u32
  ic_kind :: u32
  ic_proto_generation :: u32
  ic_holder_handle :: u32
  ic_expected_proto :: u32
  ic_reserved1 :: u32
  ic_reserved2 :: u32

definition IC_KIND_EMPTY :: u32 where "IC_KIND_EMPTY = 0"
definition IC_KIND_OWN_DATA :: u32 where "IC_KIND_OWN_DATA = 1"
definition IC_KIND_PROTO_DATA :: u32 where "IC_KIND_PROTO_DATA = 2"
definition IC_KIND_MEGAMORPHIC :: u32 where "IC_KIND_MEGAMORPHIC = 3"
definition IC_KIND_ACCESSOR :: u32 where "IC_KIND_ACCESSOR = 4"
definition IC_KIND_OWN_DATA_TRIO :: u32 where "IC_KIND_OWN_DATA_TRIO = 5"
definition IC_SLOT_TRIO_SITE_MARKER :: u32 where "IC_SLOT_TRIO_SITE_MARKER = 1"

lemmas ic_kind_defs = IC_KIND_EMPTY_def IC_KIND_OWN_DATA_def IC_KIND_PROTO_DATA_def IC_KIND_MEGAMORPHIC_def
  IC_KIND_ACCESSOR_def IC_KIND_OWN_DATA_TRIO_def

datatype TrioField = TrioName | TrioValue | TrioLength

section \<open>Filling a slot\<close>

definition write_ic_slot :: "u32 \<Rightarrow> u32 \<Rightarrow> u32 \<Rightarrow> u32 \<Rightarrow> u32 \<Rightarrow> u32 \<Rightarrow> IcSlot" where
  "write_ic_slot shape_id value_index kind proto_generation holder_handle expected_proto =
     \<lparr>ic_shape_id = shape_id, ic_value_index = value_index, ic_kind = kind, ic_proto_generation = proto_generation,
      ic_holder_handle = holder_handle, ic_expected_proto = expected_proto, ic_reserved1 = 0, ic_reserved2 = 0\<rparr>"

definition ic_slot_is_trio_site :: "IcSlot \<Rightarrow> bool" where
  "ic_slot_is_trio_site slot \<longleftrightarrow> ic_kind slot = IC_KIND_OWN_DATA_TRIO \<or> ic_reserved1 slot = IC_SLOT_TRIO_SITE_MARKER"

definition write_ic_slot_megamorphic :: "IcSlot \<Rightarrow> IcSlot" where
  "write_ic_slot_megamorphic slot =
     (let megamorphic = write_ic_slot 0 0 IC_KIND_MEGAMORPHIC 0 0 0
      in if ic_slot_is_trio_site slot then megamorphic\<lparr>ic_reserved1 := IC_SLOT_TRIO_SITE_MARKER\<rparr> else megamorphic)"

definition backfill_trio_ic_slot :: "object_heap \<Rightarrow> (TrioField \<Rightarrow> PropertyKey) \<Rightarrow> u32 \<Rightarrow> IcSlot option" where
  \<comment> \<open>with the keys of the three names; \<open>None\<close> for \<open>false\<close>\<close>
  "backfill_trio_ic_slot H trio_key handle =
     (case (own_data_property_index H handle (trio_key TrioName), own_data_property_index H handle (trio_key TrioValue),
            own_data_property_index H handle (trio_key TrioLength)) of
        (Inr (Some (shape_name, idx_name)), Inr (Some (shape_value, idx_value)), Inr (Some (shape_length, idx_length))) \<Rightarrow>
          if shape_name \<noteq> shape_value \<or> shape_value \<noteq> shape_length then None
          else Some (write_ic_slot shape_name idx_name IC_KIND_OWN_DATA_TRIO 0 idx_value idx_length)
      | _ \<Rightarrow> None)"

definition fill_own :: "u32 \<Rightarrow> u32 \<Rightarrow> IcSlot" where
  "fill_own shape_id value_index = write_ic_slot shape_id value_index IC_KIND_OWN_DATA 0 0 0"

definition fill_from_chain ::
  "object_heap \<Rightarrow> (u32 \<Rightarrow> bool) \<Rightarrow> u32 \<Rightarrow> heap_object \<Rightarrow> u32 \<Rightarrow> u32 \<Rightarrow> HeapAccessV2Property \<Rightarrow> IcSlot \<Rightarrow> IcSlot" where
  \<comment> \<open>the arm of \<open>backfill_get_prop_ic\<close> for a property found on the chain; \<open>claimed\<close> tells that the
      holder is \<open>Object.prototype\<close> and the host synthesizes the name for the receiver\<close>
  "fill_from_chain H claimed handle object holder_handle value_slot_index p slot =
     (let generation = st_generation (oh_table H)
      in if claimed holder_handle then write_ic_slot_megamorphic slot
         else if hp_flags p AND FLAG_IS_ACCESSOR \<noteq> 0
         then (if is_callable (hp_getter p)
               then write_ic_slot (ho_shape object) value_slot_index IC_KIND_ACCESSOR generation holder_handle (ho_prototype object)
               else write_ic_slot_megamorphic slot)
         else if holder_handle = handle then fill_own (ho_shape object) value_slot_index
         else write_ic_slot (ho_shape object) value_slot_index IC_KIND_PROTO_DATA generation holder_handle (ho_prototype object))"

definition backfill_get_prop_ic ::
  "object_heap \<Rightarrow> (TrioField \<Rightarrow> PropertyKey) \<Rightarrow> (u32 \<Rightarrow> bool) \<Rightarrow> u64 \<Rightarrow> PropertyKey option \<Rightarrow> IcSlot \<Rightarrow> IcSlot option" where
  \<comment> \<open>\<open>None\<close> when the walk along the chain does not end\<close>
  "backfill_get_prop_ic H trio_key claimed object_value k slot =
     (if \<not> is_object object_value then Some slot
      else
        (let handle = decode_object_handle object_value
         in if ic_slot_is_trio_site slot
            then Some (case backfill_trio_ic_slot H trio_key handle of
                None \<Rightarrow> write_ic_slot_megamorphic slot
              | Some filled \<Rightarrow> filled)
            else (case k of
                None \<Rightarrow> Some slot
              | Some k \<Rightarrow>
                  (case own_data_property_index H handle k of
                     Inl e \<Rightarrow> Some (write_ic_slot_megamorphic slot)
                   | Inr (Some (shape_id, value_index)) \<Rightarrow> Some (fill_own shape_id value_index)
                   | Inr None \<Rightarrow>
                       (case resolve_object H handle of
                          Inl e \<Rightarrow> Some (write_ic_slot_megamorphic slot)
                        | Inr object \<Rightarrow>
                            map_option (\<lambda>found. case found of
                                Inr (Some (holder_handle, value_slot_index, p)) \<Rightarrow>
                                  fill_from_chain H claimed handle object holder_handle value_slot_index p slot
                              | _ \<Rightarrow> write_ic_slot_megamorphic slot)
                              (get_property_slot_on_proto_chain_for_ic H k handle))))))"

definition backfill_set_prop_ic ::
  "object_heap \<Rightarrow> (TrioField \<Rightarrow> PropertyKey) \<Rightarrow> u64 \<Rightarrow> PropertyKey option \<Rightarrow> bool \<Rightarrow> IcSlot \<Rightarrow> IcSlot" where
  "backfill_set_prop_ic H trio_key object_value k success slot =
     (if \<not> success \<or> \<not> is_object object_value then write_ic_slot_megamorphic slot
      else
        (let handle = decode_object_handle object_value
         in if ic_slot_is_trio_site slot
            then (case backfill_trio_ic_slot H trio_key handle of
                None \<Rightarrow> write_ic_slot_megamorphic slot
              | Some filled \<Rightarrow> filled)
            else (case k of
                None \<Rightarrow> write_ic_slot_megamorphic slot
              | Some k \<Rightarrow>
                  (case own_data_property_index H handle k of
                     Inr (Some (shape_id, value_index)) \<Rightarrow> fill_own shape_id value_index
                   | _ \<Rightarrow> write_ic_slot_megamorphic slot))))"

section \<open>The emitted fast path\<close>

datatype IcOutcome =
    IcHit u64
  | IcInvoke u64
  | IcMiss

definition ic_kind_is_own_hit :: "u32 \<Rightarrow> TrioField option \<Rightarrow> bool" where
  "ic_kind_is_own_hit kind trio_field \<longleftrightarrow> kind = (if trio_field \<noteq> None then IC_KIND_OWN_DATA_TRIO else IC_KIND_OWN_DATA)"

fun load_ic_value_index :: "IcSlot \<Rightarrow> TrioField option \<Rightarrow> u32" where
  "load_ic_value_index slot (Some TrioValue) = ic_holder_handle slot"
| "load_ic_value_index slot (Some TrioLength) = ic_expected_proto slot"
| "load_ic_value_index slot _ = ic_value_index slot"

definition ic_get :: "object_heap \<Rightarrow> IcSlot \<Rightarrow> TrioField option \<Rightarrow> u64 \<Rightarrow> IcOutcome" where
  \<comment> \<open>what the code of \<open>lower_get_prop_ic_non_nullish\<close> does before it calls the host\<close>
  "ic_get H slot trio_field object_value =
     (if \<not> is_object object_value then IcMiss
      else (case oh_objects H (decode_object_handle object_value) of
          None \<Rightarrow> IcMiss
        | Some object \<Rightarrow>
            (let kind_own = ic_kind_is_own_hit (ic_kind slot) trio_field;
                 kind_accessor = (ic_kind slot = IC_KIND_ACCESSOR);
                 kind_holder = (ic_kind slot = IC_KIND_PROTO_DATA \<or> kind_accessor);
                 index = unat (load_ic_value_index slot trio_field)
             in if \<not> (kind_own \<or> kind_holder) then IcMiss
                else if ho_shape object \<noteq> ic_shape_id slot then IcMiss
                else if kind_own then IcHit (ho_slots object ! index)
                else if ho_prototype object = ic_expected_proto slot \<and> st_generation (oh_table H) = ic_proto_generation slot
                then (case oh_objects H (ic_holder_handle slot) of
                    None \<Rightarrow> IcMiss
                  | Some holder \<Rightarrow> if kind_accessor then IcInvoke (ho_slots holder ! index) else IcHit (ho_slots holder ! index))
                else IcMiss)))"

definition ic_set :: "object_heap \<Rightarrow> IcSlot \<Rightarrow> TrioField option \<Rightarrow> u64 \<Rightarrow> u64 \<Rightarrow> object_heap option" where
  \<comment> \<open>what the code of \<open>lower_set_prop_ic\<close> does before it calls the host; \<open>None\<close> is a miss\<close>
  "ic_set H slot trio_field object_value stored =
     (if \<not> is_object object_value then None
      else (case oh_objects H (decode_object_handle object_value) of
          None \<Rightarrow> None
        | Some object \<Rightarrow>
            if ic_kind_is_own_hit (ic_kind slot) trio_field \<and> ho_shape object = ic_shape_id slot
            then Some (store_value_slot (decode_object_handle object_value) (load_ic_value_index slot trio_field) stored H)
            else None))"

end
