(* ===== verification/Property_Write.thy ===== *)
theory Property_Write
  imports Inline_Cache
begin

text \<open>
  Writing a property, and the write through an inline cache that misses
  (\<open>wjsm-host-native/src/dispatch/runtime.rs\<close>, \<open>property_write.rs\<close>): the walk for a setter or a read-only property
  along the prototype chain, the write to the receiver, and what the cache learns from it. What
  setters do, and the writes to proxies, callables, arrays and the \<open>lastIndex\<close> of a regular expression, are
  parameters; memory does not run out. The result is \<open>None\<close> where the walk does not end (or the heap
  panics), else an exception or a completion, and the heap.
\<close>

datatype SetFailure =
    ReadOnly
  | GetterOnly
  | NotExtensible
  | ProxyFalsish
  | Receiver
  | NonDeletableElement u32

datatype SetCompletion =
    Written
  | Failed SetFailure

type_synonym set_result = "(u64 + SetCompletion) \<times> object_heap"

record set_host =
  module_namespace_objects :: "u32 set"
  non_extensible_objects :: "u32 set"
  regexp_prototype :: "u64 option"
  is_last_index :: "PropertyKey \<Rightarrow> bool"
  invoke_callable :: "u64 \<Rightarrow> u64 \<Rightarrow> u64 \<Rightarrow> object_heap \<Rightarrow> u64 option \<times> object_heap"
    \<comment> \<open>the callee, \<open>this\<close> and the argument\<close>
  exotic_set :: "u64 \<Rightarrow> PropertyKey \<Rightarrow> u64 \<Rightarrow> u64 \<Rightarrow> object_heap \<Rightarrow> set_result"
    \<comment> \<open>target, key, value and receiver\<close>
  exotic_assign :: "u64 \<Rightarrow> PropertyKey \<Rightarrow> u64 \<Rightarrow> object_heap \<Rightarrow> set_result"
    \<comment> \<open>receiver, key and value\<close>

section \<open>Values\<close>

definition fail_dispatch :: u64 where
  "fail_dispatch = encode_exception 0"

definition object_handle :: "u64 \<Rightarrow> u32 option" where
  "object_handle encoded = (if is_object encoded \<or> is_array encoded then Some (decode_handle encoded) else None)"

definition is_primitive_value :: "u64 \<Rightarrow> bool" where
  "is_primitive_value encoded \<longleftrightarrow> is_null encoded \<or> is_undefined encoded \<or> is_string encoded \<or> is_f64 encoded \<or> is_bool encoded \<or>
     is_symbol encoded \<or> is_bigint encoded"

definition decode_proto_slot :: "object_heap \<Rightarrow> u32 \<Rightarrow> u64 option" where
  "decode_proto_slot H prototype =
     (if prototype = PROTO_NULL_SENTINEL then None
      else if prototype AND PROTO_PROXY_FLAG \<noteq> 0 then Some (encode_proxy_handle (prototype AND NOT PROTO_PROXY_FLAG))
      else if prototype AND PROTO_REGEXP_FLAG \<noteq> 0 then Some (encode_regexp_handle (prototype AND NOT PROTO_REGEXP_FLAG))
      else Some (if (case oh_objects H prototype of None \<Rightarrow> False | Some object \<Rightarrow> ho_type object = HEAP_TYPE_ARRAY)
                 then encode_handle TAG_ARRAY prototype else encode_object_handle prototype))"

section \<open>Writing\<close>

definition set_property_or_out_of_memory :: "object_heap \<Rightarrow> u32 \<Rightarrow> PropertyKey \<Rightarrow> u64 \<Rightarrow> set_result option" where
  \<comment> \<open>with the \<open>Written\<close> of its caller\<close>
  "set_property_or_out_of_memory H handle k stored =
     map_option (\<lambda>r. case r of Inl e \<Rightarrow> (Inl fail_dispatch, H) | Inr H' \<Rightarrow> (Inr Written, H')) (set_property H handle k stored)"

definition assign_data_property_to_receiver ::
  "set_host \<Rightarrow> object_heap \<Rightarrow> u64 \<Rightarrow> PropertyKey \<Rightarrow> u64 \<Rightarrow> set_result option" where
  "assign_data_property_to_receiver host H receiver k stored =
     (if is_proxy receiver \<or> is_callable receiver then Some (exotic_assign host receiver k stored H)
      else if is_primitive_value receiver then Some (Inr (Failed Receiver), H)
      else (case object_handle receiver of
          None \<Rightarrow> Some (Inl fail_dispatch, H)
        | Some handle \<Rightarrow>
            (case get_property_slot H handle k of
               Inl e \<Rightarrow> Some (Inl fail_dispatch, H)
             | Inr own \<Rightarrow>
                 if handle \<in> module_namespace_objects host
                 then Some (Inr (Failed (if own \<noteq> None then ReadOnly else NotExtensible)), H)
                 else (case own of
                     Some p \<Rightarrow>
                       if hp_flags p AND FLAG_IS_ACCESSOR \<noteq> 0 then Some (Inr (Failed GetterOnly), H)
                       else if hp_flags p AND FLAG_WRITABLE = 0 then Some (Inr (Failed ReadOnly), H)
                       else set_property_or_out_of_memory H handle k stored
                   | None \<Rightarrow>
                       if handle \<in> non_extensible_objects host then Some (Inr (Failed NotExtensible), H)
                       else set_property_or_out_of_memory H handle k stored))))"

definition call_setter :: "set_host \<Rightarrow> object_heap \<Rightarrow> u64 \<Rightarrow> u64 \<Rightarrow> u64 \<Rightarrow> set_result" where
  "call_setter host H setter receiver stored =
     (if \<not> is_callable setter then (Inr (Failed GetterOnly), H)
      else (case invoke_callable host setter receiver stored H of
          (None, H') \<Rightarrow> (Inl fail_dispatch, H')
        | (Some result, H') \<Rightarrow> (if is_exception result then Inl result else Inr Written, H')))"

partial_function (option) ordinary_set_key ::
  "set_host \<Rightarrow> object_heap \<Rightarrow> u64 \<Rightarrow> PropertyKey \<Rightarrow> u64 \<Rightarrow> u64 \<Rightarrow> set_result option" where
  "ordinary_set_key host H target k stored receiver =
     (if is_callable target then Some (exotic_set host target k stored receiver H)
      else (case object_handle target of
          None \<Rightarrow> Some (Inl fail_dispatch, H)
        | Some handle \<Rightarrow>
            (case get_property_slot H handle k of
               Inl e \<Rightarrow> Some (Inl fail_dispatch, H)
             | Inr own \<Rightarrow>
                 if handle \<in> module_namespace_objects host
                 then Some (Inr (Failed (if own \<noteq> None then ReadOnly else NotExtensible)), H)
                 else (case own of
                     None \<Rightarrow>
                       (case resolve_object H handle of
                          Inl e \<Rightarrow> Some (Inl fail_dispatch, H)
                        | Inr object \<Rightarrow>
                            (case decode_proto_slot H (ho_prototype object) of
                               None \<Rightarrow> assign_data_property_to_receiver host H receiver k stored
                             | Some prototype \<Rightarrow>
                                 if is_proxy prototype then Some (exotic_set host prototype k stored receiver H)
                                 else if is_regexp prototype
                                 then if is_last_index host k then assign_data_property_to_receiver host H receiver k stored
                                      else (case regexp_prototype host of
                                          None \<Rightarrow> assign_data_property_to_receiver host H receiver k stored
                                        | Some prototype \<Rightarrow> ordinary_set_key host H prototype k stored receiver)
                                 else ordinary_set_key host H prototype k stored receiver))
                   | Some p \<Rightarrow>
                       if hp_flags p AND FLAG_IS_ACCESSOR \<noteq> 0 then Some (call_setter host H (hp_setter p) receiver stored)
                       else if hp_flags p AND FLAG_WRITABLE = 0 then Some (Inr (Failed ReadOnly), H)
                       else assign_data_property_to_receiver host H receiver k stored))))"

definition set_property_completion :: "set_host \<Rightarrow> object_heap \<Rightarrow> u64 \<Rightarrow> PropertyKey \<Rightarrow> u64 \<Rightarrow> set_result option" where
  "set_property_completion host H object_value k stored =
     (if is_proxy object_value \<or> is_array object_value \<or> is_regexp object_value \<and> is_last_index host k \<or> is_callable object_value
      then Some (exotic_set host object_value k stored object_value H)
      else ordinary_set_key host H object_value k stored object_value)"

section \<open>The write of a cache that misses\<close>

definition set_prop_ic ::
  "set_host \<Rightarrow> object_heap \<Rightarrow> (TrioField \<Rightarrow> PropertyKey) \<Rightarrow> u64 \<Rightarrow> PropertyKey \<Rightarrow> u64 \<Rightarrow> IcSlot \<Rightarrow>
   ((u64 + SetCompletion) \<times> object_heap \<times> IcSlot) option" where
  \<comment> \<open>\<open>SetPropIc\<close> for a receiver that is neither a primitive value nor an exception\<close>
  "set_prop_ic host H trio_key object_value k stored slot =
     map_option (\<lambda>(completion, H').
       (completion, H', backfill_set_prop_ic H' trio_key object_value (Some k) (completion = Inr Written) slot))
       (set_property_completion host H object_value k stored)"

end
