(* ===== verification/Shape_Table_Correct.thy ===== *)
theory Shape_Table_Correct
  imports Shape_Table
begin

text \<open>
  The hidden classes are right: a shape is a map from keys to properties with disjoint value slots, a
  transition changes exactly one entry of that map, and a shape that is not a dictionary never changes.
\<close>

section \<open>Property lists as maps\<close>

definition named :: "ShapeProp list \<Rightarrow> PropertyKey \<rightharpoonup> ShapeProp" where
  "named ps = map_of (map (\<lambda>p. (sp_name p, p)) ps)"

lemma prop_position_Some: "prop_position k ps = Some i \<Longrightarrow> i < length ps \<and> sp_name (ps ! i) = k"
  by (induction ps arbitrary: i) (auto split: if_splits)

lemma prop_position_None: "prop_position k ps = None \<longleftrightarrow> k \<notin> sp_name ` set ps"
  by (induction ps) auto

lemma named_position: "named ps k = map_option ((!) ps) (prop_position k ps)"
  by (induction ps) (auto simp: named_def option.map_comp o_def)

lemma named_None: "named ps k = None \<longleftrightarrow> k \<notin> sp_name ` set ps"
  by (simp add: named_position prop_position_None)

lemma named_Some: "distinct (map sp_name ps) \<Longrightarrow> named ps k = Some p \<longleftrightarrow> p \<in> set ps \<and> sp_name p = k"
  by (auto simp: named_def o_def map_of_eq_Some_iff)

lemma named_append: "k \<notin> sp_name ` set ps \<Longrightarrow> sp_name p = k \<Longrightarrow> named (ps @ [p]) = (named ps)(k \<mapsto> p)"
  using named_None [of ps k] by (auto simp: named_def map_add_def fun_eq_iff split: option.splits)

lemma names_update: "i < length ps \<Longrightarrow> sp_name q = sp_name (ps ! i) \<Longrightarrow> map sp_name (ps[i := q]) = map sp_name ps"
  by (metis list_update_id map_update nth_map)

lemma position_names: "map sp_name ps = map sp_name qs \<Longrightarrow> prop_position k ps = prop_position k qs"
proof (induction ps arbitrary: qs)
  case (Cons p ps)
  then show ?case by (cases qs) auto
qed simp

lemma prop_position_nth: "distinct (map sp_name ps) \<Longrightarrow> i < length ps \<Longrightarrow> prop_position (sp_name (ps ! i)) ps = Some i"
proof (induction ps arbitrary: i)
  case (Cons p ps)
  then show ?case by (cases i) (auto simp: image_iff)
qed simp

lemma named_update:
  assumes "prop_position k ps = Some i" "sp_name q = k"
  shows "named (ps[i := q]) = (named ps)(k \<mapsto> q)"
proof
  fix x
  have i: "i < length ps" "sp_name (ps ! i) = k" using prop_position_Some [OF assms(1)] by auto
  have "prop_position x (ps[i := q]) = prop_position x ps"
    by (rule position_names) (simp add: names_update i assms(2))
  then show "named (ps[i := q]) x = ((named ps)(k \<mapsto> q)) x"
    using assms(1) i prop_position_Some [of x ps]
    by (cases "prop_position x ps") (auto simp: named_position nth_list_update)
qed

lemma set_remove:
  assumes "distinct (map sp_name ps)" "i < length ps"
  shows "set (take i ps @ drop (Suc i) ps) = set ps - {ps ! i}"
proof -
  have ps: "ps = take i ps @ ps ! i # drop (Suc i) ps" using assms(2) by (rule id_take_nth_drop)
  have "distinct ps" using assms(1) by (simp add: distinct_map)
  then have "ps ! i \<notin> set (take i ps @ drop (Suc i) ps)" by (subst (asm) ps) auto
  then show ?thesis by (subst (3) ps) auto
qed

lemma distinct_remove:
  assumes "distinct (map sp_name ps)" "i < length ps"
  shows "distinct (map sp_name (take i ps @ drop (Suc i) ps))"
proof -
  have ps: "ps = take i ps @ ps ! i # drop (Suc i) ps" using assms(2) by (rule id_take_nth_drop)
  show ?thesis using assms(1) by (subst (asm) ps) auto
qed

lemma named_remove:
  assumes "distinct (map sp_name ps)" "prop_position k ps = Some i"
  shows "named (take i ps @ drop (Suc i) ps) = (named ps)(k := None)"
proof
  fix x
  have i: "i < length ps" "sp_name (ps ! i) = k" using prop_position_Some [OF assms(2)] by auto
  let ?qs = "take i ps @ drop (Suc i) ps"
  note names = named_Some [OF distinct_remove [OF assms(1) i(1)], of x] named_Some [OF assms(1), of x]
  have inj: "p = ps ! i" if "p \<in> set ps" "sp_name p = k" for p
    using that i assms(1) by (auto simp: distinct_map inj_on_def)
  show "named ?qs x = ((named ps)(k := None)) x"
  proof (cases "x = k")
    case True
    then have "named ?qs x \<noteq> Some p" for p using inj [of p] names(1) [of p] unfolding set_remove [OF assms(1) i(1)] by blast
    then show ?thesis using True by (cases "named ?qs x") auto
  next
    case False
    then have "named ?qs x = Some p \<longleftrightarrow> named ps x = Some p" for p
      using i(2) names [of p] unfolding set_remove [OF assms(1) i(1)] by auto
    then show ?thesis using False by (metis fun_upd_other not_Some_eq)
  qed
qed

section \<open>Well-formed shapes\<close>

definition index_ok :: "Shape \<Rightarrow> bool" where
  "index_ok s \<longleftrightarrow>
     (case shp_index_of s of None \<Rightarrow> True | Some m \<Rightarrow> m = (\<lambda>k. map_option of_nat (prop_position k (shp_props s))))"

definition slots_before :: "ShapeProp \<Rightarrow> ShapeProp \<Rightarrow> bool" where
  "slots_before p q \<longleftrightarrow> unat (sp_index p) + unat (slot_span p) \<le> unat (sp_index q)"

definition shape_ok :: "Shape \<Rightarrow> bool" where
  "shape_ok s \<longleftrightarrow>
     distinct (map sp_name (shp_props s)) \<and> index_ok s \<and> length (shp_props s) \<le> unat (shp_slot_count s) \<and>
     (\<forall>p\<in>set (shp_props s). unat (sp_index p) + unat (slot_span p) \<le> unat (shp_slot_count s)) \<and>
     (\<forall>p\<in>set (shp_props s). \<forall>q\<in>set (shp_props s). p = q \<or> slots_before p q \<or> slots_before q p)"

lemma shape_ok_length: "shape_ok s \<Longrightarrow> length (shp_props s) < 2 ^ 32"
  using unat_u32_lt [of "shp_slot_count s"] by (auto simp: shape_ok_def)

lemma shape_find_ok:
  assumes "shape_ok s"
  shows "shape_find s k = prop_position k (shp_props s)"
proof (cases "shp_index_of s")
  case (Some m)
  have "unat (of_nat i :: u32) = i" if "prop_position k (shp_props s) = Some i" for i
    using prop_position_Some [OF that] shape_ok_length [OF assms] by (simp add: unat_u32_of_nat)
  then show ?thesis using assms Some
    by (cases "prop_position k (shp_props s)") (auto simp: shape_find_def shape_ok_def index_ok_def)
qed (simp add: shape_find_def)

lemma foldl_index:
  assumes "distinct (map sp_name ps)"
  shows "foldl (\<lambda>m (slot, p). m(sp_name p \<mapsto> of_nat slot)) Map.empty (enumerate 0 ps) =
    (\<lambda>k. map_option of_nat (prop_position k ps))"
proof -
  have "foldl (\<lambda>m (slot, p). m(sp_name p \<mapsto> of_nat slot)) m (enumerate n ps) k =
      (case prop_position k ps of None \<Rightarrow> m k | Some i \<Rightarrow> Some (of_nat (n + i)))" for m :: "PropertyKey \<rightharpoonup> 'a" and n k
    using assms
  proof (induction ps arbitrary: m n)
    case (Cons p ps)
    have ih: "foldl (\<lambda>m (slot, p). m(sp_name p \<mapsto> of_nat slot)) (m(sp_name p \<mapsto> of_nat n)) (enumerate (Suc n) ps) k =
        (case prop_position k ps of None \<Rightarrow> (m(sp_name p \<mapsto> of_nat n)) k | Some i \<Rightarrow> Some (of_nat (Suc n + i)))"
      by (rule Cons.IH) (use Cons.prems in simp)
    have "prop_position (sp_name p) ps = None" using Cons.prems by (simp add: prop_position_None)
    then show ?case using ih by (cases "prop_position k ps") (auto simp add: algebra_simps simp del: fun_upd_apply, auto)
  qed simp
  from this [of Map.empty 0] show ?thesis by (auto simp: fun_eq_iff split: option.splits)
qed

lemma rebuild_index_simps [simp]:
  "shp_props (rebuild_index s) = shp_props s" "shp_transitions (rebuild_index s) = shp_transitions s"
  "shp_slot_count (rebuild_index s) = shp_slot_count s" "shp_dictionary (rebuild_index s) = shp_dictionary s"
  by (simp_all add: rebuild_index_def)

lemma rebuild_index_ok: "distinct (map sp_name (shp_props s)) \<Longrightarrow> index_ok (rebuild_index s)"
  using foldl_index [of "shp_props s"] by (simp add: rebuild_index_def index_ok_def)

lemma push_prop_simps [simp]:
  "shp_props (push_prop p s) = shp_props s @ [p]" "shp_transitions (push_prop p s) = shp_transitions s"
  "shp_slot_count (push_prop p s) = shp_slot_count s" "shp_dictionary (push_prop p s) = shp_dictionary s"
  by (simp_all add: push_prop_def Let_def)

lemma prop_position_append:
  "prop_position k (ps @ [p]) =
     (case prop_position k ps of Some i \<Rightarrow> Some i | None \<Rightarrow> if sp_name p = k then Some (length ps) else None)"
  by (induction ps) (auto split: option.splits)

lemma push_prop_index_ok:
  assumes "index_ok s" "distinct (map sp_name (shp_props s @ [p]))"
  shows "index_ok (push_prop p s)"
proof (cases "shp_index_of s")
  case None
  let ?s = "s\<lparr>shp_index_of := None, shp_props := shp_props s @ [p]\<rparr>"
  have "index_ok (rebuild_index ?s)" by (rule rebuild_index_ok) (use assms(2) in simp)
  moreover have "push_prop p s = (if Suc (length (shp_props s)) \<ge> SHAPE_MAP_THRESHOLD then rebuild_index ?s else ?s)"
    using None by (simp add: push_prop_def)
  moreover have "index_ok ?s" by (simp add: index_ok_def)
  ultimately show ?thesis by simp
next
  case (Some m)
  have "prop_position (sp_name p) (shp_props s) = None" using assms(2) by (auto simp: prop_position_None)
  then show ?thesis using Some assms(1)
    by (auto simp: push_prop_def Let_def index_ok_def prop_position_append split: option.splits)
qed

lemma slot_span_pos: "0 < unat (slot_span_for f)" "unat (slot_span_for f) \<le> 2" "slot_span_for f \<noteq> 0"
  by (simp_all add: slot_span_for_def)

definition kind_change :: "u32 \<Rightarrow> ShapeProp \<Rightarrow> (u32 \<times> u32) option" where
  \<comment> \<open>the slots a property gives up when it gets these flags\<close>
  "kind_change flags old =
     (if slot_span old = slot_span_for flags then None else Some (sp_index old, slot_span old))"

lemma unat_grow: "unat (n :: u32) + 2 < 2 ^ 32 \<Longrightarrow> unat (n + slot_span_for f) = unat n + unat (slot_span_for f)"
  using slot_span_pos(2) [of f] unat_add_lem [of n "slot_span_for f"] by simp

lemma shape_ok_room: "shape_ok s \<Longrightarrow> p \<in> set (shp_props s) \<Longrightarrow> unat (sp_index p) + unat (slot_span p) \<le> unat (shp_slot_count s)"
  by (simp add: shape_ok_def)

lemma slots_ok_update:
  \<comment> \<open>replacing a property by one on the same slots or on new ones\<close>
  assumes s: "shape_ok s" and k: "prop_position k (shp_props s) = Some i" and q: "sp_name q = k"
    and new: "sp_index q = sp_index (shp_props s ! i) \<and> slot_span q = slot_span (shp_props s ! i) \<and> n = shp_slot_count s \<or>
      sp_index q = shp_slot_count s \<and> unat n = unat (shp_slot_count s) + unat (slot_span q)"
  shows "shape_ok (s\<lparr>shp_slot_count := n, shp_props := (shp_props s)[i := q]\<rparr>)"
proof -
  let ?ps = "shp_props s" and ?old = "shp_props s ! i"
  have i: "i < length ?ps" "sp_name ?old = k" using prop_position_Some [OF k] by auto
  have names: "map sp_name (?ps[i := q]) = map sp_name ?ps" by (simp add: names_update i q)
  have mem: "p \<in> set (?ps[i := q]) \<Longrightarrow> p = q \<or> p \<in> set ?ps \<and> p \<noteq> ?old" for p
  proof -
    assume p: "p \<in> set (?ps[i := q])"
    then obtain j where j: "j < length ?ps" "p = (?ps[i := q]) ! j" by (auto simp: in_set_conv_nth)
    have "distinct ?ps" using s by (simp add: shape_ok_def distinct_map)
    then show ?thesis using j i(1) by (cases "j = i") (auto simp: nth_eq_iff_index_eq)
  qed
  have count: "unat (shp_slot_count s) \<le> unat n" using new by auto
  have room: "unat (sp_index q) + unat (slot_span q) \<le> unat n"
    using new shape_ok_room [OF s, of ?old] i(1) by auto
  have apart: "slots_before p q \<or> slots_before q p" if "p \<in> set ?ps" "p \<noteq> ?old" for p
  proof -
    have "slots_before p ?old \<or> slots_before ?old p" using s that i(1) unfolding shape_ok_def by (metis nth_mem)
    then show ?thesis using new shape_ok_room [OF s that(1)] by (auto simp: slots_before_def)
  qed
  have "index_ok (s\<lparr>shp_slot_count := n, shp_props := ?ps[i := q]\<rparr>)"
    using s position_names [OF names] by (auto simp: shape_ok_def index_ok_def split: option.splits)
  moreover have "unat (sp_index p) + unat (slot_span p) \<le> unat n" if "p \<in> set (?ps[i := q])" for p
    using mem [OF that] room shape_ok_room [OF s, of p] count by auto
  moreover have "p = p' \<or> slots_before p p' \<or> slots_before p' p" if "p \<in> set (?ps[i := q])" "p' \<in> set (?ps[i := q])" for p p'
    using mem [OF that(1)] mem [OF that(2)] apart s unfolding shape_ok_def by blast
  ultimately show ?thesis using s count names by (auto simp: shape_ok_def)
qed

lemma slots_ok_push:
  assumes s: "shape_ok s" and k: "prop_position (sp_name q) (shp_props s) = None"
    and new: "sp_index q = shp_slot_count s" "unat n = unat (shp_slot_count s) + unat (slot_span q)"
  shows "shape_ok (push_prop q (s\<lparr>shp_slot_count := n\<rparr>))"
proof -
  have fresh: "sp_name q \<notin> sp_name ` set (shp_props s)" using k by (simp add: prop_position_None)
  have span: "0 < unat (slot_span q)" using slot_span_pos(1) by (simp add: slot_span_def)
  have "index_ok (push_prop q (s\<lparr>shp_slot_count := n\<rparr>))"
    by (rule push_prop_index_ok) (use s fresh in \<open>auto simp: shape_ok_def index_ok_def split: option.splits\<close>)
  moreover have "slots_before p q" "unat (sp_index p) + unat (slot_span p) \<le> unat n" if "p \<in> set (shp_props s)" for p
    using shape_ok_room [OF s that] new by (simp_all add: slots_before_def)
  ultimately show ?thesis using s fresh span new by (auto simp: shape_ok_def)
qed

lemma assign_prop_ok:
  assumes s: "shape_ok s" and room: "unat (shp_slot_count s) + 2 < 2 ^ 32" and r: "assign_prop k f s = (s', i, a)"
  shows "shape_ok s'" and "named (shp_props s') = (named (shp_props s))(k \<mapsto> \<lparr>sp_name = k, sp_flags = f, sp_index = i\<rparr>)"
    and "a = Option.bind (named (shp_props s) k) (kind_change f)"
    and "i = (case named (shp_props s) k of Some old \<Rightarrow> if kind_change f old = None then sp_index old else shp_slot_count s | None \<Rightarrow> shp_slot_count s)"
    and "unat (shp_slot_count s) \<le> unat (shp_slot_count s')" and "unat (shp_slot_count s') \<le> unat (shp_slot_count s) + 2"
    and "length (shp_props s) \<le> length (shp_props s')" and "length (shp_props s') \<le> Suc (length (shp_props s))"
    and "shp_dictionary s' = shp_dictionary s" and "shp_transitions s' = shp_transitions s"
proof -
  let ?n = "shp_slot_count s + slot_span_for f"
  have n: "unat ?n = unat (shp_slot_count s) + unat (slot_span_for f)" by (rule unat_grow [OF room])
  have span: "slot_span \<lparr>sp_name = k, sp_flags = f, sp_index = j\<rparr> = slot_span_for f" for j by (simp add: slot_span_def)
  have "shape_ok s' \<and> named (shp_props s') = (named (shp_props s))(k \<mapsto> \<lparr>sp_name = k, sp_flags = f, sp_index = i\<rparr>) \<and>
    a = Option.bind (named (shp_props s) k) (kind_change f) \<and>
    i = (case named (shp_props s) k of Some old \<Rightarrow> if kind_change f old = None then sp_index old else shp_slot_count s | None \<Rightarrow> shp_slot_count s) \<and>
    unat (shp_slot_count s) \<le> unat (shp_slot_count s') \<and> unat (shp_slot_count s') \<le> unat (shp_slot_count s) + 2 \<and>
    length (shp_props s) \<le> length (shp_props s') \<and> length (shp_props s') \<le> Suc (length (shp_props s)) \<and>
    shp_dictionary s' = shp_dictionary s \<and> shp_transitions s' = shp_transitions s"
  proof (cases "prop_position k (shp_props s)")
    case None
    let ?q = "\<lparr>sp_name = k, sp_flags = f, sp_index = shp_slot_count s\<rparr>"
    have eq: "s' = push_prop ?q (s\<lparr>shp_slot_count := ?n\<rparr>)" "i = shp_slot_count s" "a = None"
      using r None by (auto simp: assign_prop_def shape_find_ok [OF s] Let_def)
    moreover have "shape_ok s'" unfolding eq(1) by (rule slots_ok_push [OF s]) (simp_all add: None span n)
    moreover have "named (shp_props s @ [?q]) = (named (shp_props s))(k \<mapsto> ?q)"
      by (rule named_append) (use None in \<open>simp_all add: prop_position_None\<close>)
    moreover have "named (shp_props s) k = None" using None by (simp add: named_position)
    ultimately show ?thesis using n slot_span_pos(2) [of f] by simp
  next
    case (Some j)
    let ?old = "shp_props s ! j"
    have j: "j < length (shp_props s)" "sp_name ?old = k" using prop_position_Some [OF Some] by auto
    have old: "named (shp_props s) k = Some ?old" using Some by (simp add: named_position)
    show ?thesis
    proof (cases "slot_span ?old = slot_span_for f")
      case True
      let ?q = "?old\<lparr>sp_flags := f\<rparr>"
      have eq: "s' = s\<lparr>shp_props := (shp_props s)[j := ?q]\<rparr>" "i = sp_index ?old" "a = None"
        using r Some True by (auto simp: assign_prop_def shape_find_ok [OF s] Let_def)
      have q: "?q = \<lparr>sp_name = k, sp_flags = f, sp_index = sp_index ?old\<rparr>" using j(2) by (cases ?old) simp
      have "shape_ok (s\<lparr>shp_slot_count := shp_slot_count s, shp_props := (shp_props s)[j := ?q]\<rparr>)"
        by (rule slots_ok_update [OF s Some]) (use q True in \<open>simp_all add: span\<close>)
      moreover have "named ((shp_props s)[j := ?q]) = (named (shp_props s))(k \<mapsto> ?q)"
        by (rule named_update [OF Some]) (simp add: j)
      ultimately show ?thesis using eq q old True by (simp add: kind_change_def)
    next
      case False
      let ?q = "\<lparr>sp_name = k, sp_flags = f, sp_index = shp_slot_count s\<rparr>"
      have eq: "s' = s\<lparr>shp_slot_count := ?n, shp_props := (shp_props s)[j := ?q]\<rparr>" "i = shp_slot_count s"
          "a = Some (sp_index ?old, slot_span ?old)"
        using r Some False by (auto simp: assign_prop_def shape_find_ok [OF s] Let_def)
      have "shape_ok s'" unfolding eq(1) by (rule slots_ok_update [OF s Some]) (simp_all add: span n)
      moreover have "named ((shp_props s)[j := ?q]) = (named (shp_props s))(k \<mapsto> ?q)"
        by (rule named_update [OF Some]) simp
      ultimately show ?thesis using eq old False n slot_span_pos(2) [of f] by (simp add: kind_change_def)
    qed
  qed
  then show "shape_ok s'" "named (shp_props s') = (named (shp_props s))(k \<mapsto> \<lparr>sp_name = k, sp_flags = f, sp_index = i\<rparr>)"
    "a = Option.bind (named (shp_props s) k) (kind_change f)"
    "i = (case named (shp_props s) k of Some old \<Rightarrow> if kind_change f old = None then sp_index old else shp_slot_count s | None \<Rightarrow> shp_slot_count s)"
    "unat (shp_slot_count s) \<le> unat (shp_slot_count s')" "unat (shp_slot_count s') \<le> unat (shp_slot_count s) + 2"
    "length (shp_props s) \<le> length (shp_props s')" "length (shp_props s') \<le> Suc (length (shp_props s))"
    "shp_dictionary s' = shp_dictionary s" "shp_transitions s' = shp_transitions s"
    by simp_all
qed

section \<open>Well-formed tables\<close>

definition same_layout :: "Shape \<Rightarrow> Shape \<Rightarrow> bool" where
  "same_layout s s' \<longleftrightarrow>
     shp_props s' = shp_props s \<and> shp_slot_count s' = shp_slot_count s \<and> shp_dictionary s' = shp_dictionary s"

definition edge_ok :: "Shape list \<Rightarrow> nat \<Rightarrow> PropertyKey \<Rightarrow> u32 \<Rightarrow> u32 \<Rightarrow> bool" where
  \<comment> \<open>an edge leads to the shape that would be made again\<close>
  "edge_ok ss i k f t \<longleftrightarrow>
     i < unat t \<and> unat t < length ss \<and> same_layout (fst (assign_prop k f (ss ! i))) (ss ! unat t)"

definition shared_ok :: "Shape list \<Rightarrow> nat \<Rightarrow> bool" where
  "shared_ok ss i \<longleftrightarrow>
     i < SHAPE_TABLE_BUDGET \<and> length (shp_props (ss ! i)) \<le> DICTIONARY_THRESHOLD \<and> unat (shp_slot_count (ss ! i)) \<le> 2 * i \<and>
     distinct (map fst (shp_transitions (ss ! i))) \<and>
     (\<forall>k f t. map_of (shp_transitions (ss ! i)) (k, f) = Some t \<longrightarrow> edge_ok ss i k f t)"

definition shapes_ok :: "Shape list \<Rightarrow> bool" where
  "shapes_ok ss \<longleftrightarrow>
     ss \<noteq> [] \<and> length ss \<le> 2 ^ 32 \<and> same_layout shape_default (ss ! 0) \<and>
     (\<forall>i < length ss. shape_ok (ss ! i) \<and> (if shp_dictionary (ss ! i) then shp_transitions (ss ! i) = [] else shared_ok ss i))"

definition table_ok :: "ShapeTable \<Rightarrow> bool" where
  "table_ok T \<longleftrightarrow> shapes_ok (st_shapes T)"

definition room :: "ShapeTable \<Rightarrow> u32 \<Rightarrow> bool" where
  \<comment> \<open>no 32-bit count overflows: of the shapes, and of the slots of a dictionary\<close>
  "room T d \<longleftrightarrow>
     length (st_shapes T) < 2 ^ 32 \<and>
     (\<forall>s. shape_at T d = Some s \<longrightarrow> shp_dictionary s \<longrightarrow> unat (shp_slot_count s) + 2 < 2 ^ 32)"

lemma shapes_okD:
  assumes "shapes_ok ss" "i < length ss"
  shows "shape_ok (ss ! i)" and "shp_dictionary (ss ! i) \<Longrightarrow> shp_transitions (ss ! i) = []"
    and "\<not> shp_dictionary (ss ! i) \<Longrightarrow> shared_ok ss i"
  using assms by (auto simp: shapes_ok_def split: if_splits)

lemma shared_room: "shapes_ok ss \<Longrightarrow> i < length ss \<Longrightarrow> \<not> shp_dictionary (ss ! i) \<Longrightarrow> unat (shp_slot_count (ss ! i)) + 2 < 2 ^ 32"
  using shapes_okD(3) [of ss i] by (simp add: shared_ok_def SHAPE_TABLE_BUDGET_def)

lemma same_layout_refl [simp]: "same_layout s s"
  by (simp add: same_layout_def)

lemma same_layout_trans: "same_layout a b \<Longrightarrow> same_layout b c \<Longrightarrow> same_layout a c"
  by (simp add: same_layout_def)

lemma assign_prop_layout:
  \<comment> \<open>the result depends on the layout only\<close>
  assumes "shape_ok s" "shape_ok u" "same_layout s u" "assign_prop k f s = (s', i, a)" "assign_prop k f u = (u', j, b)"
  shows "same_layout s' u'" "j = i" "b = a"
  using assms shape_find_ok [OF assms(1), of k] shape_find_ok [OF assms(2), of k]
  by (auto simp: assign_prop_def same_layout_def Let_def split: option.splits if_splits)

lemma shape_ok_transitions [simp]: "shape_ok (s\<lparr>shp_transitions := ts\<rparr>) \<longleftrightarrow> shape_ok s"
  by (auto simp: shape_ok_def index_ok_def split: option.splits)

lemma edge_ok_layout:
  assumes "edge_ok ss i k f t" "i < length ss" "shape_ok (ss ! i)" "shape_ok (ss' ! i)" "unat t < length ss'"
    and "same_layout (ss ! i) (ss' ! i)" "same_layout (ss ! unat t) (ss' ! unat t)"
  shows "edge_ok ss' i k f t"
proof -
  obtain s j a u l b where r: "assign_prop k f (ss ! i) = (s, j, a)" "assign_prop k f (ss' ! i) = (u, l, b)"
    by (metis prod_cases3)
  have "same_layout s u" by (rule assign_prop_layout(1) [OF assms(3,4,6) r])
  then show ?thesis using assms(1,5,7) r by (simp add: edge_ok_def same_layout_def)
qed

lemma shapes_ok_extend:
  \<comment> \<open>shared shapes keep their layout, dictionaries may change, shapes are added\<close>
  assumes ok: "shapes_ok ss" and len: "length ss \<le> length ss'" "length ss' \<le> 2 ^ 32"
    and new: "\<And>i. i < length ss' \<Longrightarrow> shape_ok (ss' ! i)"
      "\<And>i. i < length ss' \<Longrightarrow> shp_dictionary (ss' ! i) \<Longrightarrow> shp_transitions (ss' ! i) = []"
    and keep: "\<And>i. i < length ss \<Longrightarrow> \<not> shp_dictionary (ss ! i) \<Longrightarrow> same_layout (ss ! i) (ss' ! i)"
    and edges: "\<And>i k f t. i < length ss' \<Longrightarrow> \<not> shp_dictionary (ss' ! i) \<Longrightarrow> map_of (shp_transitions (ss' ! i)) (k, f) = Some t \<Longrightarrow>
        i < length ss \<and> \<not> shp_dictionary (ss ! i) \<and> map_of (shp_transitions (ss ! i)) (k, f) = Some t \<or> edge_ok ss' i k f t"
    and shared: "\<And>i. i < length ss' \<Longrightarrow> \<not> shp_dictionary (ss' ! i) \<Longrightarrow>
        i < SHAPE_TABLE_BUDGET \<and> length (shp_props (ss' ! i)) \<le> DICTIONARY_THRESHOLD \<and> unat (shp_slot_count (ss' ! i)) \<le> 2 * i \<and>
        distinct (map fst (shp_transitions (ss' ! i)))"
  shows "shapes_ok ss'"
proof -
  have "edge_ok ss' i k f t"
    if i: "i < length ss'" "\<not> shp_dictionary (ss' ! i)" "map_of (shp_transitions (ss' ! i)) (k, f) = Some t" for i k f t
    using edges [OF i]
  proof
    assume old: "i < length ss \<and> \<not> shp_dictionary (ss ! i) \<and> map_of (shp_transitions (ss ! i)) (k, f) = Some t"
    then have e: "edge_ok ss i k f t" using shapes_okD(3) [OF ok] by (simp add: shared_ok_def)
    then have t: "unat t < length ss" by (simp add: edge_ok_def)
    have "shp_dictionary (fst (assign_prop k f (ss ! i))) = False"
      using assign_prop_ok(9) [OF shapes_okD(1) [OF ok] shared_room [OF ok]] old by (metis prod.exhaust_sel)
    then have "\<not> shp_dictionary (ss ! unat t)" using e by (simp add: edge_ok_def same_layout_def)
    then show ?thesis
      using edge_ok_layout [OF e _ shapes_okD(1) [OF ok] new(1) _ keep keep] old t len i(1) by simp
  qed
  moreover have "same_layout shape_default (ss' ! 0)"
    using ok keep [of 0] by (auto simp: shapes_ok_def same_layout_def shape_default_def)
  ultimately show ?thesis
    using ok len new shared unfolding shapes_ok_def by (auto simp: shared_ok_def)
qed

section \<open>Transitions\<close>

definition keeps :: "ShapeTable \<Rightarrow> ShapeTable \<Rightarrow> u32 set \<Rightarrow> bool" where
  \<comment> \<open>every known shape outside the set keeps its layout\<close>
  "keeps T T' changed \<longleftrightarrow>
     (\<forall>x s. x \<notin> changed \<longrightarrow> shape_at T x = Some s \<longrightarrow> (\<exists>s'. shape_at T' x = Some s' \<and> same_layout s s'))"

lemma keeps_refl [simp]: "keeps T T d"
  by (auto simp: keeps_def)

lemma keeps_trans: "keeps T T1 d \<Longrightarrow> keeps T1 T2 d' \<Longrightarrow> d \<union> d' \<subseteq> e \<Longrightarrow> keeps T T2 e"
  unfolding keeps_def by (meson UnI1 UnI2 same_layout_trans subsetD)

lemma keepsD: "keeps T T' d \<Longrightarrow> x \<notin> d \<Longrightarrow> shape_at T x = Some s \<Longrightarrow> \<exists>s'. shape_at T' x = Some s' \<and> same_layout s s'"
  by (auto simp: keeps_def)

lemma keeps_new:
  assumes "keeps T T1 {}" "keeps T1 T2 {d}" "shape_at T d = None"
  shows "keeps T T2 {}"
  unfolding keeps_def
proof (intro allI impI)
  fix x s assume x: "shape_at T x = Some s"
  obtain s1 where s1: "shape_at T1 x = Some s1" "same_layout s s1" using keepsD [OF assms(1) _ x] by auto
  have "x \<notin> {d}" using x assms(3) by auto
  then show "\<exists>s'. shape_at T2 x = Some s' \<and> same_layout s s'"
    using keepsD [OF assms(2) _ s1(1)] same_layout_trans [OF s1(2)] by blast
qed

lemma shape_at_iff: "shape_at T x = Some s \<longleftrightarrow> unat x < length (st_shapes T) \<and> st_shapes T ! unat x = s"
  by (simp add: shape_at_def get_at_Some_iff)

lemma table_okD: "table_ok T \<Longrightarrow> shape_at T x = Some s \<Longrightarrow> shape_ok s"
  using shapes_okD(1) by (auto simp: table_ok_def shape_at_iff)

lemma table_shared_room: "table_ok T \<Longrightarrow> shape_at T x = Some s \<Longrightarrow> \<not> shp_dictionary s \<Longrightarrow> unat (shp_slot_count s) + 2 < 2 ^ 32"
  using shared_room by (auto simp: table_ok_def shape_at_iff)

lemma room_slots: "table_ok T \<Longrightarrow> room T x \<Longrightarrow> shape_at T x = Some s \<Longrightarrow> unat (shp_slot_count s) + 2 < 2 ^ 32"
  using table_shared_room by (cases "shp_dictionary s") (auto simp: room_def)

lemma replaced_dictionary_ok:
  assumes T: "table_ok T" and d: "shape_at T d = Some s" "shp_dictionary s"
    and s': "shape_ok s'" "shp_dictionary s'" "shp_transitions s' = []" and T': "T' = T\<lparr>st_shapes := (st_shapes T)[unat d := s']\<rparr>"
  shows "table_ok T'" "keeps T T' {d}" "shape_at T' d = Some s'"
proof -
  let ?ss = "st_shapes T" and ?i = "unat d"
  have ok: "shapes_ok ?ss" and i: "?i < length ?ss" "?ss ! ?i = s" using T d(1) by (auto simp: table_ok_def shape_at_iff)
  have "shapes_ok (?ss[?i := s'])"
  proof (rule shapes_ok_extend [OF ok])
    show "length (?ss[?i := s']) \<le> 2 ^ 32" using ok by (simp add: shapes_ok_def)
  qed (use ok i d(2) s' in \<open>auto simp: nth_list_update shapes_ok_def shared_ok_def split: if_splits\<close>)
  then show "table_ok T'" by (simp add: table_ok_def T')
  show "keeps T T' {d}" "shape_at T' d = Some s'"
    using i(1) by (auto simp: keeps_def shape_at_iff T' nth_list_update word_unat_eq_iff)
qed

lemma added_shape_ok:
  assumes T: "table_ok T" "length (st_shapes T) < 2 ^ 32" and s: "shape_ok s" "shp_transitions s = []"
    and shared: "\<not> shp_dictionary s \<Longrightarrow> length (st_shapes T) < SHAPE_TABLE_BUDGET \<and> length (shp_props s) \<le> DICTIONARY_THRESHOLD \<and>
      unat (shp_slot_count s) \<le> 2 * length (st_shapes T)"
    and T': "T' = T\<lparr>st_shapes := st_shapes T @ [s]\<rparr>"
  shows "table_ok T'" "keeps T T' {}" "shape_at T' (of_nat (length (st_shapes T))) = Some s"
    "shape_at T (of_nat (length (st_shapes T))) = None"
proof -
  let ?ss = "st_shapes T"
  have ok: "shapes_ok ?ss" using T by (simp add: table_ok_def)
  have "shapes_ok (?ss @ [s])"
  proof (rule shapes_ok_extend [OF ok])
    show "length (?ss @ [s]) \<le> 2 ^ 32" using T(2) by simp
  qed (use ok s shared in \<open>auto simp: nth_append shapes_ok_def shared_ok_def less_Suc_eq split: if_splits\<close>)
  then show "table_ok T'" by (simp add: table_ok_def T')
  show "keeps T T' {}" "shape_at T' (of_nat (length ?ss)) = Some s" "shape_at T (of_nat (length ?ss)) = None"
    using unat_u32_of_nat [OF T(2)] by (auto simp: keeps_def shape_at_def get_at_def T' nth_append split: if_splits)
qed

lemma ensure_dictionary_ok:
  assumes T: "table_ok T" "length (st_shapes T) < 2 ^ 32" and s: "shape_at T x = Some s" and r: "ensure_dictionary T x = (T', d)"
  shows "table_ok T'" "keeps T T' {}"
    and "\<exists>s'. shape_at T' d = Some s' \<and> shp_dictionary s' \<and> shp_props s' = shp_props s \<and> shp_slot_count s' = shp_slot_count s"
    and "if shp_dictionary s then T' = T \<and> d = x else shape_at T d = None"
    and "st_prototypes T' = st_prototypes T" "st_generation T' = st_generation T"
proof -
  have "table_ok T' \<and> keeps T T' {} \<and>
    (\<exists>s'. shape_at T' d = Some s' \<and> shp_dictionary s' \<and> shp_props s' = shp_props s \<and> shp_slot_count s' = shp_slot_count s) \<and>
    (if shp_dictionary s then T' = T \<and> d = x else shape_at T d = None) \<and>
    st_prototypes T' = st_prototypes T \<and> st_generation T' = st_generation T"
  proof (cases "shp_dictionary s")
    case True
    then have "T' = T" "d = x" using r s by (simp_all add: ensure_dictionary_def)
    then show ?thesis using True s T(1) by auto
  next
    case False
    define c where "c = s\<lparr>shp_transitions := [], shp_dictionary := True\<rparr>"
    define u where "u = (if shp_index_of c = None then rebuild_index c else c)"
    have u: "shp_props u = shp_props s" "shp_slot_count u = shp_slot_count s" "shp_dictionary u" "shp_transitions u = []"
      by (simp_all add: u_def c_def)
    have c: "shape_ok c" using table_okD [OF T(1) s] by (auto simp: c_def shape_ok_def index_ok_def split: option.splits)
    then have "index_ok u" using rebuild_index_ok [of c] by (auto simp: u_def shape_ok_def)
    then have ok: "shape_ok u" using c u by (auto simp: shape_ok_def c_def)
    have eq: "T' = T\<lparr>st_shapes := st_shapes T @ [u]\<rparr>" "d = of_nat (length (st_shapes T))"
      using r s False by (auto simp: ensure_dictionary_def Let_def u_def c_def split: if_splits)
    note added = added_shape_ok [OF T ok u(4) _ eq(1)]
    show ?thesis using added u False eq by auto
  qed
  then show "table_ok T'" "keeps T T' {}"
    "\<exists>s'. shape_at T' d = Some s' \<and> shp_dictionary s' \<and> shp_props s' = shp_props s \<and> shp_slot_count s' = shp_slot_count s"
    "if shp_dictionary s then T' = T \<and> d = x else shape_at T d = None"
    "st_prototypes T' = st_prototypes T" "st_generation T' = st_generation T"
    by blast+
qed

lemma transition_in_dictionary_ok:
  assumes T: "table_ok T" and d: "shape_at T d = Some s" "shp_dictionary s" and slots: "unat (shp_slot_count s) + 2 < 2 ^ 32"
    and a: "assign_prop k f s = (s', i, a)" and r: "transition_in_dictionary T d k f = (T', r)"
  shows "table_ok T'" "keeps T T' {d}" "shape_at T' d = Some s'"
    "r = \<lparr>tr_shape = d, tr_index = i, tr_slot_count = shp_slot_count s', tr_abandoned = a\<rparr>"
    "st_prototypes T' = st_prototypes T" "st_generation T' = st_generation T"
proof -
  have s: "shape_ok s" "shp_transitions s = []" "st_shapes T ! unat d = s"
    using T d shapes_okD by (auto simp: table_ok_def shape_at_iff)
  note ok = assign_prop_ok [OF s(1) slots a]
  have eq: "T' = T\<lparr>st_shapes := (st_shapes T)[unat d := s']\<rparr>"
    "r = \<lparr>tr_shape = d, tr_index = i, tr_slot_count = shp_slot_count s', tr_abandoned = a\<rparr>"
    using r a s(3) by (auto simp: transition_in_dictionary_def)
  show "table_ok T'" "keeps T T' {d}" "shape_at T' d = Some s'"
    using replaced_dictionary_ok [OF T d ok(1) _ _ eq(1)] ok(9,10) d(2) s(2) by auto
  show "r = \<lparr>tr_shape = d, tr_index = i, tr_slot_count = shp_slot_count s', tr_abandoned = a\<rparr>"
    "st_prototypes T' = st_prototypes T" "st_generation T' = st_generation T" by (simp_all add: eq)
qed

lemma assign_prop_names:
  assumes "shape_ok s" "assign_prop k f s = (s', i, a)"
  shows "map sp_name (shp_props s') = map sp_name (shp_props s) @ (if named (shp_props s) k = None then [k] else [])"
  using assms(2) shape_find_ok [OF assms(1), of k] prop_position_Some [of k "shp_props s"]
  by (auto simp: assign_prop_def Let_def named_position names_update split: option.splits if_splits)

lemma find_named:
  assumes "shape_ok s"
  shows "map_option (\<lambda>slot. shp_props s ! slot) (shape_find s k) = named (shp_props s) k"
  using shape_find_ok [OF assms] by (simp add: named_position)

lemma assign_prop_unchanged:
  assumes s: "shape_ok s" and p: "unchanged_prop s k f = Some p"
  shows "assign_prop k f s = (s, sp_index p, None)"
proof -
  obtain j where j: "shape_find s k = Some j" "p = shp_props s ! j" "sp_flags p = f"
    using p by (auto simp: unchanged_prop_def split: option.splits if_splits)
  have "(shp_props s)[j := p\<lparr>sp_flags := f\<rparr>] = shp_props s" using j(2,3) by (cases p) (metis ShapeProp.update_convs(2) list_update_id ShapeProp.select_convs(2))
  then show ?thesis using j by (simp add: assign_prop_def slot_span_def Let_def)
qed

lemma new_transition_ok:
  assumes T: "table_ok T" and s: "shape_at T x = Some s" "\<not> shp_dictionary s"
    and small: "length (shp_props s) < DICTIONARY_THRESHOLD" "length (st_shapes T) < SHAPE_TABLE_BUDGET"
    and a: "assign_prop k f s = (s', i, a)" and r: "new_transition T x s k f = (T', r)"
  shows "table_ok T'" "keeps T T' {}" "tr_shape r = of_nat (length (st_shapes T))"
    "\<exists>u. shape_at T' (tr_shape r) = Some u \<and> same_layout s' u"
    "r = \<lparr>tr_shape = tr_shape r, tr_index = i, tr_slot_count = shp_slot_count s', tr_abandoned = a\<rparr>"
    "st_prototypes T' = st_prototypes T" "st_generation T' = st_generation T"
    "\<exists>s2. shape_at T' x = Some s2 \<and> map_of (shp_transitions s2) (k, f) = Some (tr_shape r)"
proof -
  let ?ss = "st_shapes T" and ?c = "s\<lparr>shp_transitions := []\<rparr>"
  have ok: "shapes_ok ?ss" and x: "unat x < length ?ss" "?ss ! unat x = s" using T s(1) by (auto simp: table_ok_def shape_at_iff)
  have sok: "shape_ok s" "shared_ok ?ss (unat x)" using shapes_okD [OF ok x(1)] s(2) x(2) by auto
  have len: "length ?ss < 2 ^ 32" using small(2) by (simp add: SHAPE_TABLE_BUDGET_def)
  obtain u j b where u: "assign_prop k f ?c = (u, j, b)" by (metis prod_cases3)
  have sameu: "same_layout s' u" "j = i" "b = a"
    using assign_prop_layout [OF sok(1) _ _ a u] sok(1) by (simp_all add: same_layout_def)
  have slots: "unat (shp_slot_count ?c) + 2 < 2 ^ 32" using table_shared_room [OF T s] by simp
  have cok: "shape_ok ?c" using sok(1) by simp
  note uok = assign_prop_ok [OF cok slots u]
  let ?T1 = "T\<lparr>st_shapes := ?ss @ [u]\<rparr>" and ?t = "of_nat (length ?ss) :: u32"
  have t: "unat ?t = length ?ss" by (rule unat_u32_of_nat [OF len])
  have added: "table_ok ?T1" "keeps T ?T1 {}" "shape_at ?T1 ?t = Some u"
    using added_shape_ok [OF T len uok(1) _ _ refl] uok(6,8,10) small sok(2) x by (auto simp: shared_ok_def)
  let ?p = "s\<lparr>shp_transitions := AList.update (k, f) ?t (shp_transitions s)\<rparr>"
  have eq: "T' = T\<lparr>st_shapes := (?ss @ [u])[unat x := ?p]\<rparr>"
    "r = \<lparr>tr_shape = ?t, tr_index = i, tr_slot_count = shp_slot_count u, tr_abandoned = a\<rparr>"
    using r u x sameu by (auto simp: new_transition_def Let_def nth_append)
  have lay: "same_layout ((?ss @ [u]) ! n) ((?ss @ [u])[unat x := ?p] ! n)" if "n < Suc (length ?ss)" for n
    using x that by (auto simp: nth_list_update nth_append same_layout_def)
  have edge: "edge_ok ((?ss @ [u])[unat x := ?p]) (unat x) k f ?t"
  proof -
    obtain v l w where v: "assign_prop k f ?p = (v, l, w)" by (metis prod_cases3)
    have "same_layout v u"
      by (rule assign_prop_layout(1) [OF _ cok _ v u]) (use sok(1) in \<open>simp_all add: same_layout_def\<close>)
    then show ?thesis using x t v by (simp add: edge_ok_def nth_append)
  qed
  have "shapes_ok ((?ss @ [u])[unat x := ?p])"
  proof (rule shapes_ok_extend [where ss = "?ss @ [u]"])
    show ok1: "shapes_ok (?ss @ [u])" using added(1) by (simp add: table_ok_def)
    fix n assume n: "n < length ((?ss @ [u])[unat x := ?p])"
    show "shape_ok ((?ss @ [u])[unat x := ?p] ! n)"
      using shapes_okD(1) [OF ok1, of n] n sok(1) x(1) by (auto simp: nth_list_update)
    show "shp_dictionary ((?ss @ [u])[unat x := ?p] ! n) \<Longrightarrow> shp_transitions ((?ss @ [u])[unat x := ?p] ! n) = []"
      using shapes_okD(2) [OF ok1, of n] n s(2) x(1) by (auto simp: nth_list_update split: if_splits)
    assume nd: "\<not> shp_dictionary ((?ss @ [u])[unat x := ?p] ! n)"
    then have nd1: "\<not> shp_dictionary ((?ss @ [u]) ! n)" using lay [of n] n by (simp add: same_layout_def)
    then have sh: "shared_ok (?ss @ [u]) n" using shapes_okD(3) [OF ok1, of n] n by simp
    show "n < SHAPE_TABLE_BUDGET \<and> length (shp_props ((?ss @ [u])[unat x := ?p] ! n)) \<le> DICTIONARY_THRESHOLD \<and>
        unat (shp_slot_count ((?ss @ [u])[unat x := ?p] ! n)) \<le> 2 * n \<and>
        distinct (map fst (shp_transitions ((?ss @ [u])[unat x := ?p] ! n)))"
      using sh sok(2) x n by (auto simp: shared_ok_def nth_list_update distinct_update)
    fix k' f' t' assume "map_of (shp_transitions ((?ss @ [u])[unat x := ?p] ! n)) (k', f') = Some t'"
    then show "n < length (?ss @ [u]) \<and> \<not> shp_dictionary ((?ss @ [u]) ! n) \<and>
        map_of (shp_transitions ((?ss @ [u]) ! n)) (k', f') = Some t' \<or> edge_ok ((?ss @ [u])[unat x := ?p]) n k' f' t'"
      using edge nd1 n x by (auto simp: nth_list_update nth_append update_conv' split: if_splits)
  qed (use len lay in auto)
  then show "table_ok T'" by (simp add: table_ok_def eq)
  show "tr_shape r = of_nat (length ?ss)" "st_prototypes T' = st_prototypes T" "st_generation T' = st_generation T" by (simp_all add: eq)
  show "r = \<lparr>tr_shape = tr_shape r, tr_index = i, tr_slot_count = shp_slot_count s', tr_abandoned = a\<rparr>"
    using sameu(1) by (simp add: eq same_layout_def)
  show "keeps T T' {}" using x by (auto simp: keeps_def shape_at_iff eq nth_list_update nth_append same_layout_def)
  show "\<exists>u. shape_at T' (tr_shape r) = Some u \<and> same_layout s' u"
    using x t sameu(1) by (auto simp: shape_at_iff eq nth_list_update nth_append)
  show "\<exists>s2. shape_at T' x = Some s2 \<and> map_of (shp_transitions s2) (k, f) = Some (tr_shape r)"
    using x by (auto simp: shape_at_iff eq nth_list_update update_conv')
qed

lemma follow_transition_ok:
  assumes T: "table_ok T" and s: "shape_at T x = Some s" "\<not> shp_dictionary s"
    and edge: "map_of (shp_transitions s) (k, f) = Some t" and a: "assign_prop k f s = (s', i, a)"
  shows "\<exists>u. shape_at T t = Some u \<and> same_layout s' u \<and>
    follow_transition T s k t = Some \<lparr>tr_shape = t, tr_index = i, tr_slot_count = shp_slot_count s', tr_abandoned = a\<rparr>"
proof -
  let ?ss = "st_shapes T"
  have ok: "shapes_ok ?ss" and x: "unat x < length ?ss" "?ss ! unat x = s" using T s(1) by (auto simp: table_ok_def shape_at_iff)
  have "edge_ok ?ss (unat x) k f t" using shapes_okD(3) [OF ok x(1)] s(2) edge x(2) by (simp add: shared_ok_def)
  then have t: "unat t < length ?ss" "same_layout s' (?ss ! unat t)" using a x by (simp_all add: edge_ok_def)
  define u where "u = ?ss ! unat t"
  have u: "shape_at T t = Some u" "shape_ok u" using t(1) shapes_okD(1) [OF ok t(1)] by (simp_all add: shape_at_iff u_def)
  have sok: "shape_ok s" by (rule table_okD [OF T s(1)])
  note new = assign_prop_ok [OF sok table_shared_room [OF T s] a]
  have props: "shp_props u = shp_props s'" "shp_slot_count u = shp_slot_count s'" using t(2) by (simp_all add: same_layout_def u_def)
  have "named (shp_props u) k = Some \<lparr>sp_name = k, sp_flags = f, sp_index = i\<rparr>" using new(2) props by simp
  then obtain j where j: "shape_find u k = Some j" "shp_props u ! j = \<lparr>sp_name = k, sp_flags = f, sp_index = i\<rparr>"
    using find_named [OF u(2), of k] by auto
  have "(case shape_find s k of None \<Rightarrow> None
      | Some slot \<Rightarrow> let old = shp_props s ! slot in if sp_index old \<noteq> i then Some (sp_index old, slot_span old) else None) = a"
  proof (cases "shape_find s k")
    case None
    then show ?thesis using find_named [OF sok, of k] new(3) by simp
  next
    case (Some l)
    let ?old = "shp_props s ! l"
    have old: "named (shp_props s) k = Some ?old" using find_named [OF sok, of k] Some by simp
    have "?old \<in> set (shp_props s)" using old sok named_Some by (auto simp: shape_ok_def)
    then have "sp_index ?old \<noteq> shp_slot_count s"
      using shape_ok_room [OF sok, of ?old] slot_span_pos(1) [of "sp_flags ?old"] by (auto simp: slot_span_def)
    then show ?thesis using new(3,4) old Some by (auto simp: kind_change_def Let_def)
  qed
  then show ?thesis using u t(2) j props
    by (cases "shape_find s k") (auto simp: follow_transition_def Let_def u_def)
qed

text \<open>What a transition of a known shape does, in all five branches.\<close>

lemma transition_from_ok:
  assumes T: "table_ok T" "room T x" and s: "shape_at T x = Some s" and a: "assign_prop k f s = (s', i, a)"
  shows "\<exists>T' t u. transition_from T x s k f =
      Some (T', \<lparr>tr_shape = t, tr_index = i, tr_slot_count = shp_slot_count s', tr_abandoned = a\<rparr>) \<and>
    table_ok T' \<and> keeps T T' (if shp_dictionary s then {x} else {}) \<and>
    shape_at T' t = Some u \<and> shp_props u = shp_props s' \<and> shp_slot_count u = shp_slot_count s' \<and>
    (if shp_dictionary s then t = x \<and> shp_dictionary u else shp_dictionary u \<longrightarrow> shape_at T t = None) \<and>
    st_prototypes T' = st_prototypes T \<and> st_generation T' = st_generation T"
proof (cases "shp_dictionary s")
  case True
  obtain T' r where r: "transition_in_dictionary T x k f = (T', r)" by (metis surj_pair)
  note ok = transition_in_dictionary_ok [OF T(1) s True room_slots [OF T s] a r]
  have "shp_dictionary s'" using assign_prop_ok(9) [OF table_okD [OF T(1) s] room_slots [OF T s] a] True by simp
  then show ?thesis using ok True r by (auto simp: transition_from_def)
next
  case False
  have sok: "shape_ok s" by (rule table_okD [OF T(1) s])
  have slots: "unat (shp_slot_count s) + 2 < 2 ^ 32" by (rule room_slots [OF T s])
  have dict: "shp_dictionary s' = shp_dictionary s" by (rule assign_prop_ok(9) [OF sok slots a])
  have len: "length (st_shapes T) < 2 ^ 32" using T(2) by (simp add: room_def)
  show ?thesis
  proof (cases "unchanged_prop s k f")
    case (Some p)
    have "s' = s" "i = sp_index p" "a = None" using assign_prop_unchanged [OF sok Some] a by auto
    then show ?thesis using Some False s T(1) by (auto simp: transition_from_def)
  next
    case None
    show ?thesis
    proof (cases "map_of (shp_transitions s) (k, f)")
      case (Some t)
      then show ?thesis
        using follow_transition_ok [OF T(1) s False Some a] None False T(1) dict
        by (auto simp: transition_from_def same_layout_def)
    next
      case edge: None
      show ?thesis
      proof (cases "length (shp_props s) \<ge> DICTIONARY_THRESHOLD \<or> length (st_shapes T) \<ge> SHAPE_TABLE_BUDGET")
        case True
        obtain T1 d where e: "ensure_dictionary T x = (T1, d)" by (metis surj_pair)
        note ens = ensure_dictionary_ok [OF T(1) len s e]
        obtain c where c: "shape_at T1 d = Some c" "shp_dictionary c" "shp_props c = shp_props s" "shp_slot_count c = shp_slot_count s"
          using ens(3) by blast
        obtain c' j b where b: "assign_prop k f c = (c', j, b)" by (metis prod_cases3)
        have fc: "shape_find c k = shape_find s k"
          using shape_find_ok [OF sok] shape_find_ok [OF table_okD [OF ens(1) c(1)]] c(3) by simp
        have same: "shp_props c' = shp_props s'" "shp_slot_count c' = shp_slot_count s'" "j = i" "b = a"
          using a b fc c(3,4) by (auto simp: assign_prop_def Let_def split: option.splits if_splits)
        obtain T2 r where r: "transition_in_dictionary T1 d k f = (T2, r)" by (metis surj_pair)
        have cs: "unat (shp_slot_count c) + 2 < 2 ^ 32" using slots c(4) by simp
        note tr = transition_in_dictionary_ok [OF ens(1) c(1,2) cs b r]
        have new: "shape_at T d = None" using ens(4) False by simp
        have "keeps T T2 {}" by (rule keeps_new [OF ens(2) tr(2) new])
        then show ?thesis using tr ens(5,6) same new e r None edge True False by (auto simp: transition_from_def)
      next
        case small: False
        obtain T' r where r: "new_transition T x s k f = (T', r)" by (metis surj_pair)
        note new = new_transition_ok [OF T(1) s False _ _ a r]
        have "tr_shape r = of_nat (length (st_shapes T))" "table_ok T'" "keeps T T' {}" "\<exists>u. shape_at T' (tr_shape r) = Some u \<and> same_layout s' u"
          "r = \<lparr>tr_shape = tr_shape r, tr_index = i, tr_slot_count = shp_slot_count s', tr_abandoned = a\<rparr>"
          "st_prototypes T' = st_prototypes T" "st_generation T' = st_generation T" using new small by auto
        then show ?thesis using r None edge small False dict by (auto simp: transition_from_def same_layout_def)
      qed
    qed
  qed
qed

section \<open>The operations\<close>

lemma shape_lookup_named:
  assumes "table_ok T"
  shows "shape_lookup T x k = named (shape_props T x) k"
proof (cases "shape_at T x")
  case (Some s)
  then show ?thesis using find_named [OF table_okD [OF assms Some], of k] by (simp add: shape_lookup_def shape_props_def)
qed (simp add: shape_lookup_def shape_props_def named_def)

lemma keeps_known:
  assumes "keeps T T' d" "x \<notin> d" "shape_at T x \<noteq> None"
  shows "shape_props T' x = shape_props T x" "slot_count T' x = slot_count T x" "is_dictionary T' x = is_dictionary T x"
proof -
  obtain s s' where "shape_at T x = Some s" "shape_at T' x = Some s'" "same_layout s s'" using assms keepsD by blast
  then show "shape_props T' x = shape_props T x" "slot_count T' x = slot_count T x" "is_dictionary T' x = is_dictionary T x"
    by (simp_all add: shape_props_def slot_count_def is_dictionary_def same_layout_def)
qed

definition known :: "ShapeTable \<Rightarrow> u32 \<Rightarrow> bool" where
  "known T x \<longleftrightarrow> shape_at T x \<noteq> None"

lemma keeps_changed:
  assumes "keeps T T' (if d then {x} else {})" "known T y"
  shows "y = x \<and> d \<or> shape_props T' y = shape_props T y \<and> slot_count T' y = slot_count T y \<and> is_dictionary T' y = is_dictionary T y"
  using keeps_known [OF assms(1), of y] assms(2) by (cases d) (auto simp: known_def)

lemma transition_add_ok:
  assumes T: "table_ok T" "room T x" "known T x"
  obtains T' r where "transition_add T x k f = Some (T', r)" "table_ok T'"
    "keeps T T' (if is_dictionary T x then {x} else {})" "known T' (tr_shape r)"
    "shape_lookup T' (tr_shape r) = (shape_lookup T x)(k \<mapsto> \<lparr>sp_name = k, sp_flags = f, sp_index = tr_index r\<rparr>)"
    "map sp_name (shape_props T' (tr_shape r)) = map sp_name (shape_props T x) @ (if shape_lookup T x k = None then [k] else [])"
    "tr_slot_count r = slot_count T' (tr_shape r)" "unat (slot_count T x) \<le> unat (slot_count T' (tr_shape r))"
    "tr_abandoned r = Option.bind (shape_lookup T x k) (kind_change f)"
    "tr_index r = (case shape_lookup T x k of None \<Rightarrow> slot_count T x
       | Some old \<Rightarrow> if kind_change f old = None then sp_index old else slot_count T x)"
    "if is_dictionary T x then tr_shape r = x \<and> is_dictionary T' x else is_dictionary T' (tr_shape r) \<longrightarrow> \<not> known T (tr_shape r)"
    "st_prototypes T' = st_prototypes T" "st_generation T' = st_generation T"
proof -
  obtain s where s: "shape_at T x = Some s" using T(3) by (auto simp: known_def)
  obtain s' i a where a: "assign_prop k f s = (s', i, a)" by (metis prod_cases3)
  have sok: "shape_ok s" by (rule table_okD [OF T(1) s])
  note new = assign_prop_ok [OF sok room_slots [OF T(1,2) s] a] and names = assign_prop_names [OF sok a]
  obtain T' t u where t: "transition_from T x s k f =
      Some (T', \<lparr>tr_shape = t, tr_index = i, tr_slot_count = shp_slot_count s', tr_abandoned = a\<rparr>)"
    "table_ok T'" "keeps T T' (if shp_dictionary s then {x} else {})"
    "shape_at T' t = Some u" "shp_props u = shp_props s'" "shp_slot_count u = shp_slot_count s'"
    "if shp_dictionary s then t = x \<and> shp_dictionary u else shp_dictionary u \<longrightarrow> shape_at T t = None"
    "st_prototypes T' = st_prototypes T" "st_generation T' = st_generation T"
    using transition_from_ok [OF T(1,2) s a] by blast
  have props: "shape_props T x = shp_props s" "shape_props T' t = shp_props s'" "slot_count T x = shp_slot_count s"
    "slot_count T' t = shp_slot_count s'" "is_dictionary T x = shp_dictionary s" "is_dictionary T' t = shp_dictionary u"
    using s t(4-6) by (simp_all add: shape_props_def slot_count_def is_dictionary_def)
  have lookup: "shape_lookup T x k = named (shp_props s) k" for k using shape_lookup_named [OF T(1)] props(1) by simp
  have lookup': "shape_lookup T' t k = named (shp_props s') k" for k using shape_lookup_named [OF t(2)] props(2) by simp
  have map: "shape_lookup T' t = (shape_lookup T x)(k \<mapsto> \<lparr>sp_name = k, sp_flags = f, sp_index = i\<rparr>)"
    by (rule ext) (simp add: lookup lookup' new(2))
  show thesis
    by (rule that [of T' "\<lparr>tr_shape = t, tr_index = i, tr_slot_count = shp_slot_count s', tr_abandoned = a\<rparr>"])
      (use t s map props names new lookup in \<open>auto simp: transition_add_def known_def split: if_splits\<close>)
qed

lemma removed_ok:
  assumes "shape_ok s" "prop_position k (shp_props s) = Some j"
  shows "shape_ok (rebuild_index (s\<lparr>shp_props := take j (shp_props s) @ drop (Suc j) (shp_props s)\<rparr>))"
proof -
  let ?ps = "take j (shp_props s) @ drop (Suc j) (shp_props s)"
  have j: "j < length (shp_props s)" using prop_position_Some [OF assms(2)] by simp
  have d: "distinct (map sp_name (shp_props s))" using assms(1) by (simp add: shape_ok_def)
  have "set ?ps \<subseteq> set (shp_props s)" using set_remove [OF d j] by auto
  moreover have "index_ok (rebuild_index (s\<lparr>shp_props := ?ps\<rparr>))"
    by (rule rebuild_index_ok) (use distinct_remove [OF d j] in simp)
  moreover have "length ?ps \<le> length (shp_props s)" using j by simp
  moreover have "p = q \<or> slots_before p q \<or> slots_before q p" if "p \<in> set (shp_props s)" "q \<in> set (shp_props s)" for p q
    using assms(1) that unfolding shape_ok_def by blast
  moreover have "unat (sp_index p) + unat (slot_span p) \<le> unat (shp_slot_count s)" if "p \<in> set (shp_props s)" for p
    by (rule shape_ok_room [OF assms(1) that])
  moreover have "length (shp_props s) \<le> unat (shp_slot_count s)" using assms(1) by (simp add: shape_ok_def)
  ultimately show ?thesis using distinct_remove [OF d j] unfolding shape_ok_def
    by (simp del: set_append map_append length_append) (meson order_trans subsetD)
qed

lemma remove_prop_ok:
  assumes T: "table_ok T" "length (st_shapes T) < 2 ^ 32" "known T x" and r: "remove_prop T x k = (T', r)"
  shows "table_ok T'" "keeps T T' (if is_dictionary T x then {x} else {})"
    and "case shape_lookup T x k of
        None \<Rightarrow> r = None \<and> keeps T T' {} \<and> length (st_shapes T') = (if is_dictionary T x then 0 else 1) + length (st_shapes T)
      | Some p \<Rightarrow> \<exists>d. r = Some (d, sp_index p, slot_span p) \<and> shape_lookup T' d = (shape_lookup T x)(k := None) \<and>
          is_dictionary T' d \<and> slot_count T' d = slot_count T x \<and> known T' d \<and>
          map sp_name (shape_props T' d) = filter (\<lambda>n. n \<noteq> k) (map sp_name (shape_props T x)) \<and>
          (if is_dictionary T x then d = x else \<not> known T d)"
    and "st_prototypes T' = st_prototypes T" "st_generation T' = st_generation T"
proof -
  obtain s where s: "shape_at T x = Some s" using T(3) by (auto simp: known_def)
  obtain T1 d where e: "ensure_dictionary T x = (T1, d)" by (metis surj_pair)
  note ens = ensure_dictionary_ok [OF T(1,2) s e]
  obtain c where c: "shape_at T1 d = Some c" "shp_dictionary c" "shp_props c = shp_props s" "shp_slot_count c = shp_slot_count s"
    using ens(3) by blast
  have cok: "shape_ok c" by (rule table_okD [OF ens(1) c(1)])
  have find: "shape_find c k = prop_position k (shp_props s)" using shape_find_ok [OF cok] c(3) by simp
  have props: "shape_props T x = shp_props s" "slot_count T x = shp_slot_count s" "is_dictionary T x = shp_dictionary s"
    using s by (simp_all add: shape_props_def slot_count_def is_dictionary_def)
  have lookup: "shape_lookup T x k' = named (shp_props s) k'" for k' using shape_lookup_named [OF T(1)] props(1) by simp
  have grown: "length (st_shapes T1) = (if shp_dictionary s then 0 else 1) + length (st_shapes T)"
    using e s by (auto simp: ensure_dictionary_def Let_def split: if_splits)
  have "table_ok T' \<and> keeps T T' (if is_dictionary T x then {x} else {}) \<and>
    (case shape_lookup T x k of
        None \<Rightarrow> r = None \<and> keeps T T' {} \<and> length (st_shapes T') = (if is_dictionary T x then 0 else 1) + length (st_shapes T)
      | Some p \<Rightarrow> \<exists>d. r = Some (d, sp_index p, slot_span p) \<and> shape_lookup T' d = (shape_lookup T x)(k := None) \<and>
          is_dictionary T' d \<and> slot_count T' d = slot_count T x \<and> known T' d \<and>
          map sp_name (shape_props T' d) = filter (\<lambda>n. n \<noteq> k) (map sp_name (shape_props T x)) \<and>
          (if is_dictionary T x then d = x else \<not> known T d)) \<and>
    st_prototypes T' = st_prototypes T \<and> st_generation T' = st_generation T"
  proof (cases "prop_position k (shp_props s)")
    case None
    then have "T' = T1" "r = None" using r e c(1) find by (auto simp: remove_prop_def)
    moreover have "shape_lookup T x k = None" using None lookup by (simp add: named_position)
    ultimately show ?thesis using ens grown props by (auto simp: keeps_def)
  next
    case (Some j)
    let ?p = "shp_props s ! j"
    let ?u = "rebuild_index (c\<lparr>shp_props := take j (shp_props c) @ drop (Suc j) (shp_props c)\<rparr>)"
    have p: "shape_lookup T x k = Some ?p" using Some lookup by (simp add: named_position)
    have j: "j < length (shp_props s)" "sp_name ?p = k" using prop_position_Some [OF Some] by auto
    have eq: "T' = T1\<lparr>st_shapes := (st_shapes T1)[unat d := ?u]\<rparr>" "r = Some (d, sp_index ?p, slot_span ?p)"
      using r e c(1,3) find Some by (auto simp: remove_prop_def Let_def)
    have uok: "shape_ok ?u" by (rule removed_ok [OF cok, of k]) (simp add: c(3) Some)
    have "shp_transitions c = []" using ens(1) c(1,2) shapes_okD(2) by (auto simp: table_ok_def shape_at_iff)
    then have T': "table_ok T'" "keeps T1 T' {d}" "shape_at T' d = Some ?u"
      using replaced_dictionary_ok [OF ens(1) c(1,2) uok _ _ eq(1)] c(2) by auto
    have d: "distinct (map sp_name (shp_props s))" using table_okD [OF T(1) s] by (simp add: shape_ok_def)
    have "shape_props T' d = take j (shp_props s) @ drop (Suc j) (shp_props s)" using T'(3) c(3) by (simp add: shape_props_def)
    then have "shape_lookup T' d = (named (shp_props s))(k := None)"
      using shape_lookup_named [OF T'(1), of d] named_remove [OF d Some] by (simp add: fun_eq_iff)
    moreover have "map sp_name (take j (shp_props s) @ drop (Suc j) (shp_props s)) = filter (\<lambda>n. n \<noteq> k) (map sp_name (shp_props s))"
    proof -
      have ps: "shp_props s = take j (shp_props s) @ ?p # drop (Suc j) (shp_props s)" using j(1) by (rule id_take_nth_drop)
      let ?ns = "map sp_name (take j (shp_props s))" and ?ms = "map sp_name (drop (Suc j) (shp_props s))"
      have names: "map sp_name (shp_props s) = ?ns @ k # ?ms" using j(2) by (subst ps) simp
      have "k \<notin> set ?ns" "k \<notin> set ?ms" using d unfolding names by auto
      then have "filter (\<lambda>n. n \<noteq> k) ?ns = ?ns" "filter (\<lambda>n. n \<noteq> k) ?ms = ?ms" by (auto simp: filter_id_conv)
      then show ?thesis unfolding names by simp
    qed
    moreover have "keeps T T' (if shp_dictionary s then {x} else {})"
    proof (cases "shp_dictionary s")
      case True
      then show ?thesis using ens(4) T'(2) by simp
    next
      case False
      then show ?thesis using keeps_new [OF ens(2) T'(2)] ens(4) by simp
    qed
    moreover have "shape_lookup T x = named (shp_props s)" by (rule ext) (rule lookup)
    ultimately show ?thesis
      using T' ens(4-6) p eq c props by (auto simp: known_def is_dictionary_def slot_count_def shape_props_def split: if_splits)
  qed
  then show "table_ok T'" "keeps T T' (if is_dictionary T x then {x} else {})"
    "case shape_lookup T x k of
        None \<Rightarrow> r = None \<and> keeps T T' {} \<and> length (st_shapes T') = (if is_dictionary T x then 0 else 1) + length (st_shapes T)
      | Some p \<Rightarrow> \<exists>d. r = Some (d, sp_index p, slot_span p) \<and> shape_lookup T' d = (shape_lookup T x)(k := None) \<and>
          is_dictionary T' d \<and> slot_count T' d = slot_count T x \<and> known T' d \<and>
          map sp_name (shape_props T' d) = filter (\<lambda>n. n \<noteq> k) (map sp_name (shape_props T x)) \<and>
          (if is_dictionary T x then d = x else \<not> known T d)"
    "st_prototypes T' = st_prototypes T" "st_generation T' = st_generation T"
    by blast+
qed

section \<open>Reachable tables\<close>

inductive table_step :: "ShapeTable \<Rightarrow> ShapeTable \<Rightarrow> bool" where
  step_add: "transition_add T x k f = Some (T', r) \<Longrightarrow> room T x \<Longrightarrow> table_step T T'"
| step_flags: "update_flags T x k f = Some (T', r) \<Longrightarrow> room T x \<Longrightarrow> table_step T T'"
| step_remove: "remove_prop T x k = (T', r) \<Longrightarrow> room T x \<Longrightarrow> table_step T T'"
| step_dictionary: "to_dictionary T x = (T', d) \<Longrightarrow> room T x \<Longrightarrow> table_step T T'"
| step_prototype: "table_step T (note_prototype h T)"
| step_invalidate: "table_step T (invalidate_if_prototype h T)"
| step_remap: "table_step T (remap_prototypes g T)"

definition keeps_edges :: "ShapeTable \<Rightarrow> ShapeTable \<Rightarrow> bool" where
  "keeps_edges T T' \<longleftrightarrow> (\<forall>x k f t. peek_transition T x k f = Some t \<longrightarrow> peek_transition T' x k f = Some t)"

definition shared_kept :: "ShapeTable \<Rightarrow> ShapeTable \<Rightarrow> bool" where
  "shared_kept T T' \<longleftrightarrow>
     (\<forall>x s. shape_at T x = Some s \<longrightarrow> \<not> shp_dictionary s \<longrightarrow> (\<exists>s'. shape_at T' x = Some s' \<and> same_layout s s')) \<and> keeps_edges T T'"

lemma shared_kept_refl [simp]: "shared_kept T T"
  by (auto simp: shared_kept_def keeps_edges_def)

lemma shared_kept_trans: "shared_kept T T1 \<Longrightarrow> shared_kept T1 T2 \<Longrightarrow> shared_kept T T2"
  unfolding shared_kept_def keeps_edges_def by (meson same_layout_def same_layout_trans)

lemma shared_kept_same_shapes: "st_shapes T' = st_shapes T \<Longrightarrow> shared_kept T T'"
  by (auto simp: shared_kept_def keeps_edges_def shape_at_def peek_transition_def)

lemma keeps_shared:
  assumes "keeps T T' (if shp_dictionary s then {x} else {})" "shape_at T x = Some s" "keeps_edges T T'"
  shows "shared_kept T T'"
  unfolding shared_kept_def
proof (intro conjI allI impI)
  fix y u assume y: "shape_at T y = Some u" "\<not> shp_dictionary u"
  then have "y \<notin> (if shp_dictionary s then {x} else {})" using assms(2) by auto
  then show "\<exists>s'. shape_at T' y = Some s' \<and> same_layout u s'" by (rule keepsD [OF assms(1) _ y(1)])
qed (rule assms(3))

lemma keeps_all_shared: "keeps T T' {} \<Longrightarrow> keeps_edges T T' \<Longrightarrow> shared_kept T T'"
  by (simp add: shared_kept_def keeps_def)

lemma edges_replaced:
  assumes "shape_at T d = Some s" "shp_dictionary s"
  shows "keeps_edges T (T\<lparr>st_shapes := (st_shapes T)[unat d := u]\<rparr>)"
  using assms by (auto simp: keeps_edges_def peek_transition_def shape_at_def get_at_def nth_list_update split: option.splits if_splits)

lemma edges_added: "keeps_edges T (T\<lparr>st_shapes := st_shapes T @ [u]\<rparr>)"
  by (auto simp: keeps_edges_def peek_transition_def shape_at_def get_at_def nth_append split: option.splits if_splits)

lemma edges_trans: "keeps_edges T T1 \<Longrightarrow> keeps_edges T1 T2 \<Longrightarrow> keeps_edges T T2"
  by (simp add: keeps_edges_def)

lemma edges_in_dictionary:
  assumes "shape_at T d = Some s" "shp_dictionary s" "transition_in_dictionary T d k f = (T', r)"
  shows "keeps_edges T T'"
  using edges_replaced [OF assms(1,2)] assms(3) by (auto simp: transition_in_dictionary_def split: prod.splits)

lemma edges_ensure: "ensure_dictionary T x = (T', d) \<Longrightarrow> keeps_edges T T'"
  using edges_added [of T] by (auto simp: ensure_dictionary_def Let_def keeps_edges_def split: option.splits if_splits)

lemma edges_new:
  assumes s: "shape_at T x = Some s" "\<not> shp_dictionary s" "map_of (shp_transitions s) (k, f) = None"
    and r: "new_transition T x s k f = (T', r)"
  shows "keeps_edges T T'"
proof -
  let ?ss = "st_shapes T"
  obtain u t where T': "T' = T\<lparr>st_shapes := (?ss @ [u])[unat x := s\<lparr>shp_transitions := AList.update (k, f) t (shp_transitions s)\<rparr>]\<rparr>"
    using r s(1) by (auto simp: new_transition_def Let_def shape_at_iff nth_append split: prod.splits)
  show ?thesis unfolding keeps_edges_def
  proof (intro allI impI)
    fix y k' f' t' assume e: "peek_transition T y k' f' = Some t'"
    then have "y = x \<longrightarrow> (k', f') \<noteq> (k, f)" using s by (auto simp: peek_transition_def)
    then show "peek_transition T' y k' f' = Some t'"
      using e s by (auto simp: peek_transition_def shape_at_def get_at_def T' nth_list_update nth_append update_conv' word_unat_eq_iff
          split: option.splits if_splits)
  qed
qed

lemma dictionary_stays:
  assumes "table_ok T" "shape_at T d = Some c" "shp_dictionary c" "transition_in_dictionary T d k f = (T', r)"
  shows "is_dictionary T' (tr_shape r)"
proof -
  obtain c' i a where a: "assign_prop k f c = (c', i, a)" by (metis prod_cases3)
  then have "shp_dictionary c'"
    using assms(3) by (auto simp: assign_prop_def Let_def split: option.splits if_splits)
  moreover have d: "unat d < length (st_shapes T)" "st_shapes T ! unat d = c" using assms(2) by (simp_all add: shape_at_iff)
  then have "T' = T\<lparr>st_shapes := (st_shapes T)[unat d := c']\<rparr>" "tr_shape r = d"
    using assms(4) a by (auto simp: transition_in_dictionary_def)
  ultimately show ?thesis using d by (simp add: is_dictionary_def shape_at_def get_at_def)
qed

lemma transition_from_edges:
  assumes T: "table_ok T" "room T x" and s: "shape_at T x = Some s" and r: "transition_from T x s k f = Some (T', r)"
  shows "keeps_edges T T'"
    and "\<not> shp_dictionary s \<Longrightarrow> \<not> is_dictionary T' (tr_shape r) \<Longrightarrow>
      unchanged_prop s k f = None \<Longrightarrow> peek_transition T' x k f = Some (tr_shape r)"
proof -
  have len: "length (st_shapes T) < 2 ^ 32" using T(2) by (simp add: room_def)
  have "keeps_edges T T' \<and> (\<not> shp_dictionary s \<longrightarrow> \<not> is_dictionary T' (tr_shape r) \<longrightarrow>
      unchanged_prop s k f = None \<longrightarrow> peek_transition T' x k f = Some (tr_shape r))"
  proof (cases "shp_dictionary s")
    case True
    then show ?thesis using r edges_in_dictionary [OF s True] by (auto simp: transition_from_def)
  next
    case False
    consider (same) p where "unchanged_prop s k f = Some p" | (edge) t where "unchanged_prop s k f = None" "map_of (shp_transitions s) (k, f) = Some t"
      | (new) "unchanged_prop s k f = None" "map_of (shp_transitions s) (k, f) = None" by (metis option.exhaust)
    then show ?thesis
    proof cases
      case same
      then show ?thesis using r False by (auto simp: transition_from_def keeps_edges_def)
    next
      case edge
      then show ?thesis using r False s
        by (auto simp: transition_from_def keeps_edges_def peek_transition_def follow_transition_def Let_def split: option.splits)
    next
      case new
      show ?thesis
      proof (cases "length (shp_props s) \<ge> DICTIONARY_THRESHOLD \<or> length (st_shapes T) \<ge> SHAPE_TABLE_BUDGET")
        case True
        obtain T1 d where e: "ensure_dictionary T x = (T1, d)" by (metis surj_pair)
        obtain c where c: "shape_at T1 d = Some c" "shp_dictionary c" using ensure_dictionary_ok(3) [OF T(1) len s e] by blast
        have T': "transition_in_dictionary T1 d k f = (T', r)" using r False new True e by (simp add: transition_from_def)
        have "is_dictionary T' (tr_shape r)" by (rule dictionary_stays [OF ensure_dictionary_ok(1) [OF T(1) len s e] c T'])
        then show ?thesis using edges_trans [OF edges_ensure [OF e] edges_in_dictionary [OF c T']] by simp
      next
        case small: False
        then have T': "new_transition T x s k f = (T', r)" using r False new by (simp add: transition_from_def)
        obtain s' i a where a: "assign_prop k f s = (s', i, a)" by (metis prod_cases3)
        obtain s2 where s2: "shape_at T' x = Some s2" "map_of (shp_transitions s2) (k, f) = Some (tr_shape r)"
          using new_transition_ok(8) [OF T(1) s False _ _ a T'] small by auto
        have "\<not> shp_dictionary s2"
          using keepsD [OF new_transition_ok(2) [OF T(1) s False _ _ a T'] _ s] small s2(1) False by (auto simp: same_layout_def)
        then show ?thesis using edges_new [OF s False new(2) T'] s2 by (simp add: peek_transition_def)
      qed
    qed
  qed
  then show "keeps_edges T T'" "\<not> shp_dictionary s \<Longrightarrow> \<not> is_dictionary T' (tr_shape r) \<Longrightarrow>
      unchanged_prop s k f = None \<Longrightarrow> peek_transition T' x k f = Some (tr_shape r)" by blast+
qed

lemma room_empty: "table_ok T \<Longrightarrow> room T x \<Longrightarrow> room T SHAPE_ID_EMPTY"
  by (auto simp: room_def table_ok_def shapes_ok_def shape_at_iff SHAPE_ID_EMPTY_def same_layout_def shape_default_def)

lemma empty_known: "table_ok T \<Longrightarrow> known T SHAPE_ID_EMPTY"
  by (auto simp: known_def table_ok_def shapes_ok_def shape_at_def get_at_def SHAPE_ID_EMPTY_def)

lemma transition_from_step:
  assumes T: "table_ok T" "room T x" and s: "shape_at T x = Some s" and r: "transition_from T x s k f = Some (T', r)"
  shows "table_ok T' \<and> shared_kept T T'"
proof -
  obtain s' i a where a: "assign_prop k f s = (s', i, a)" by (metis prod_cases3)
  have "table_ok T'" "keeps T T' (if shp_dictionary s then {x} else {})" using transition_from_ok [OF T s a] r by auto
  then show ?thesis using keeps_shared [OF _ s transition_from_edges(1) [OF T s r]] by blast
qed

lemma transition_add_step:
  assumes T: "table_ok T" "room T x" and r: "transition_add T x k f = Some (T', r)"
  shows "table_ok T' \<and> shared_kept T T'"
proof (cases "shape_at T x")
  case None
  then obtain s where "shape_at T SHAPE_ID_EMPTY = Some s" "transition_from T SHAPE_ID_EMPTY s k f = Some (T', r)"
    using r by (auto simp: transition_add_def split: option.splits)
  then show ?thesis using transition_from_step [OF T(1) room_empty [OF T]] by blast
next
  case (Some s)
  then show ?thesis using transition_from_step [OF T Some] r by (simp add: transition_add_def)
qed

lemma ensure_dictionary_step:
  assumes T: "table_ok T" "room T x" and r: "ensure_dictionary T x = (T', d)"
  shows "table_ok T' \<and> shared_kept T T'"
proof (cases "shape_at T x")
  case None
  then show ?thesis using r T(1) by (simp add: ensure_dictionary_def)
next
  case (Some s)
  have "length (st_shapes T) < 2 ^ 32" using T(2) by (simp add: room_def)
  note ok = ensure_dictionary_ok [OF T(1) this Some r]
  then show ?thesis using keeps_all_shared [OF _ edges_ensure [OF r]] by blast
qed

lemma remove_prop_step:
  assumes T: "table_ok T" "room T x" and r: "remove_prop T x k = (T', q)"
  shows "table_ok T' \<and> shared_kept T T'"
proof (cases "known T x")
  case False
  have "shape_at T SHAPE_ID_EMPTY = Some s \<Longrightarrow> shape_find s k = None" for s
    using T(1) shape_find_ok [OF table_okD [OF T(1)], of SHAPE_ID_EMPTY s k]
    by (auto simp: table_ok_def shapes_ok_def shape_at_iff SHAPE_ID_EMPTY_def same_layout_def shape_default_def)
  then have "T' = T" using r False by (auto simp: remove_prop_def known_def ensure_dictionary_def split: option.splits)
  then show ?thesis using T(1) by simp
next
  case True
  have len: "length (st_shapes T) < 2 ^ 32" using T(2) by (simp add: room_def)
  obtain s where s: "shape_at T x = Some s" using True by (auto simp: known_def)
  obtain T1 d where e: "ensure_dictionary T x = (T1, d)" by (metis surj_pair)
  obtain c where c: "shape_at T1 d = Some c" "shp_dictionary c" using ensure_dictionary_ok(3) [OF T(1) len s e] by blast
  have "keeps_edges T1 T'"
    using edges_replaced [OF c] r e c(1) by (auto simp: remove_prop_def Let_def keeps_edges_def split: option.splits)
  then have edges: "keeps_edges T T'" using edges_trans [OF edges_ensure [OF e]] by simp
  note ok = remove_prop_ok [OF T(1) len True r]
  have "is_dictionary T x = shp_dictionary s" using s by (simp add: is_dictionary_def)
  then show ?thesis using ok(1) keeps_shared [OF _ s edges] ok(2) by simp
qed

lemma table_step_ok: "table_step T T' \<Longrightarrow> table_ok T \<Longrightarrow> table_ok T' \<and> shared_kept T T'"
proof (induction rule: table_step.induct)
  case (step_add T x k f T' r)
  show ?case by (rule transition_add_step [OF step_add(3,2,1)])
next
  case (step_flags T x k f T' r)
  then show ?case
    using transition_add_step [OF step_flags(3,2), of k f T'] by (auto simp: update_flags_def split: option.splits)
next
  case (step_remove T x k T' r)
  show ?case by (rule remove_prop_step [OF step_remove(3,2,1)])
next
  case (step_dictionary T x T' d)
  show ?case by (rule ensure_dictionary_step [OF step_dictionary(3,2) step_dictionary(1) [unfolded to_dictionary_def]])
qed (auto simp: note_prototype_def invalidate_if_prototype_def remap_prototypes_def table_ok_def shared_kept_same_shapes)

lemma table_steps_ok: "table_step\<^sup>*\<^sup>* T T' \<Longrightarrow> table_ok T \<Longrightarrow> table_ok T' \<and> shared_kept T T'"
proof (induction rule: rtranclp_induct)
  case (step T1 T2)
  then show ?case using table_step_ok [of T1 T2] shared_kept_trans [of T T1 T2] by blast
qed simp

lemma new_table_ok: "table_ok shape_table_new"
  by (simp add: table_ok_def shapes_ok_def shape_table_new_def shape_default_def shape_ok_def index_ok_def shared_ok_def same_layout_def
      SHAPE_TABLE_BUDGET_def)

lemma table_sound:
  assumes T: "table_ok T"
  shows "room T x \<Longrightarrow> transition_add T x k f \<noteq> None"
    and "distinct (map sp_name (shape_props T x))"
    and "p \<in> set (shape_props T x) \<Longrightarrow>
      shape_lookup T x (sp_name p) = Some p \<and> unat (sp_index p) + unat (slot_span p) \<le> unat (slot_count T x)"
    and "p \<in> set (shape_props T x) \<Longrightarrow> q \<in> set (shape_props T x) \<Longrightarrow> p \<noteq> q \<Longrightarrow>
      {unat (sp_index p) ..< unat (sp_index p) + unat (slot_span p)} \<inter> {unat (sp_index q) ..< unat (sp_index q) + unat (slot_span q)} = {}"
proof -
  show "transition_add T x k f \<noteq> None" if room: "room T x"
  proof (cases "known T x")
    case True
    show ?thesis by (rule transition_add_ok [OF T room True, of k f]) simp
  next
    case False
    then have "transition_add T x k f = transition_add T SHAPE_ID_EMPTY k f"
      using empty_known [OF T] by (auto simp: transition_add_def known_def split: option.splits)
    then show ?thesis using transition_add_ok [OF T room_empty [OF T room] empty_known [OF T], of k f] by (metis option.distinct(1))
  qed
  have s: "shape_ok s" "shape_props T x = shp_props s" "slot_count T x = shp_slot_count s" if "shape_at T x = Some s" for s
    using table_okD [OF T that] that by (simp_all add: shape_props_def slot_count_def)
  have none: "shape_props T x = []" if "shape_at T x = None" using that by (simp add: shape_props_def)
  show d: "distinct (map sp_name (shape_props T x))"
    using s none by (cases "shape_at T x") (auto simp: shape_ok_def)
  show "shape_lookup T x (sp_name p) = Some p \<and> unat (sp_index p) + unat (slot_span p) \<le> unat (slot_count T x)"
    if "p \<in> set (shape_props T x)" for p
    using s none that named_Some [OF d, of "sp_name p" p] shape_ok_room [of _ p] shape_lookup_named [OF T, of x]
    by (cases "shape_at T x") auto
  show "{unat (sp_index p) ..< unat (sp_index p) + unat (slot_span p)} \<inter> {unat (sp_index q) ..< unat (sp_index q) + unat (slot_span q)} = {}"
    if pq: "p \<in> set (shape_props T x)" "q \<in> set (shape_props T x)" "p \<noteq> q" for p q
  proof -
    obtain s' where s': "shape_at T x = Some s'" using none pq(1) by (cases "shape_at T x") auto
    then have "slots_before p q \<or> slots_before q p" using s [OF s'] pq unfolding shape_ok_def by auto
    then show ?thesis by (auto simp: slots_before_def)
  qed
qed

text \<open>
  C21: Every table the operations build from the new one is well-formed. No transition panics; in each
  shape the names of the properties are distinct, a property lies within the slots of the shape, and
  the slots of two properties are disjoint.
\<close>

theorem reachable_tables_are_sound:
  assumes "table_step\<^sup>*\<^sup>* shape_table_new T"
  shows "(room T x \<longrightarrow> transition_add T x k f \<noteq> None) \<and> distinct (map sp_name (shape_props T x)) \<and>
    (\<forall>p\<in>set (shape_props T x).
       shape_lookup T x (sp_name p) = Some p \<and> unat (sp_index p) + unat (slot_span p) \<le> unat (slot_count T x) \<and>
       (\<forall>q\<in>set (shape_props T x). p \<noteq> q \<longrightarrow>
          {unat (sp_index p) ..< unat (sp_index p) + unat (slot_span p)} \<inter> {unat (sp_index q) ..< unat (sp_index q) + unat (slot_span q)} = {}))"
proof -
  have T: "table_ok T" using table_steps_ok [OF assms new_table_ok] by simp
  show ?thesis using table_sound(1) [OF T, of x k f] table_sound(2-4) [OF T, where x = x] by blast
qed

lemma empty_new: "shape_at shape_table_new SHAPE_ID_EMPTY = Some shape_default" "room shape_table_new SHAPE_ID_EMPTY"
  by (simp_all add: shape_at_def get_at_def shape_table_new_def SHAPE_ID_EMPTY_def room_def shape_default_def)

text \<open>Two data properties on the empty shape, for the witnesses.\<close>

definition shape_sample :: "(ShapeTable \<times> ShapeTransition) option" where
  "shape_sample = transition_add shape_table_new 0 (from_name_id 1) 7"

lemma new_sample:
  "case shape_sample of None \<Rightarrow> False
   | Some (T, r) \<Rightarrow> length (st_shapes T) = 2 \<and> \<not> is_dictionary T 1 \<and> tr_shape r = 1 \<and> known T 1"
  by (simp add: shape_sample_def transition_add_def transition_from_def shape_table_new_def shape_default_def unchanged_prop_def
      shape_find_def new_transition_def assign_prop_def push_prop_def shape_at_def get_at_def DICTIONARY_THRESHOLD_def
      SHAPE_TABLE_BUDGET_def SHAPE_MAP_THRESHOLD_def is_dictionary_def known_def)

lemma sample_table:
  obtains T r where "shape_sample = Some (T, r)" "length (st_shapes T) = 2" "\<not> is_dictionary T 1" "tr_shape r = 1" "known T 1"
proof (cases shape_sample)
  case None
  then show thesis using new_sample by simp
next
  case (Some q)
  obtain T r where "q = (T, r)" by (cases q)
  then show thesis using new_sample that [of T r] unfolding Some by simp
qed

theorem reachable_tables_are_sound_witness:
  "\<exists>T r. shape_sample = Some (T, r) \<and> transition_add T 1 (from_name_id 2) 15 \<noteq> None"
proof -
  obtain T r where T: "shape_sample = Some (T, r)" "length (st_shapes T) = 2" "\<not> is_dictionary T 1"
    by (rule sample_table)
  have "room shape_table_new 0" using empty_new(2) by (simp add: SHAPE_ID_EMPTY_def)
  then have "table_step\<^sup>*\<^sup>* shape_table_new T" using T(1) step_add unfolding shape_sample_def by blast
  moreover have "room T 1" using T(2,3) by (auto simp: room_def is_dictionary_def)
  ultimately show ?thesis using reachable_tables_are_sound [of T 1 "from_name_id 2" 15] T(1) by auto
qed

text \<open>
  C19: Defining a property. On every reachable table the lookup in the new shape is the lookup in
  the old one with exactly this property changed, the names keep their insertion order with a new name
  at the end, and the answer says where its slots are and which slots a change between data and
  accessor property abandons. A dictionary is changed in place; otherwise no known shape changes, and
  a dictionary that results belongs to nobody yet.
\<close>

theorem defining_a_property:
  assumes "table_step\<^sup>*\<^sup>* shape_table_new T" and "room T x" and "known T x"
  shows "\<exists>T' r. transition_add T x k flags = Some (T', r) \<and>
    shape_lookup T' (tr_shape r) = (shape_lookup T x)(k \<mapsto> \<lparr>sp_name = k, sp_flags = flags, sp_index = tr_index r\<rparr>) \<and>
    map sp_name (shape_props T' (tr_shape r)) = map sp_name (shape_props T x) @ (if shape_lookup T x k = None then [k] else []) \<and>
    tr_slot_count r = slot_count T' (tr_shape r) \<and>
    tr_abandoned r = (case shape_lookup T x k of None \<Rightarrow> None
      | Some old \<Rightarrow> if slot_span old = slot_span_for flags then None else Some (sp_index old, slot_span old)) \<and>
    (if is_dictionary T x then tr_shape r = x else is_dictionary T' (tr_shape r) \<longrightarrow> \<not> known T (tr_shape r)) \<and>
    (\<forall>y. known T y \<longrightarrow> is_dictionary T' y = is_dictionary T y \<and> (y = x \<and> is_dictionary T x \<or>
       shape_props T' y = shape_props T y \<and> slot_count T' y = slot_count T y))"
proof -
  have T: "table_ok T" using table_steps_ok [OF assms(1) new_table_ok] by simp
  obtain T' r where r: "transition_add T x k flags = Some (T', r)" "keeps T T' (if is_dictionary T x then {x} else {})"
    "shape_lookup T' (tr_shape r) = (shape_lookup T x)(k \<mapsto> \<lparr>sp_name = k, sp_flags = flags, sp_index = tr_index r\<rparr>)"
    "map sp_name (shape_props T' (tr_shape r)) = map sp_name (shape_props T x) @ (if shape_lookup T x k = None then [k] else [])"
    "tr_slot_count r = slot_count T' (tr_shape r)" "tr_abandoned r = Option.bind (shape_lookup T x k) (kind_change flags)"
    "if is_dictionary T x then tr_shape r = x \<and> is_dictionary T' x else is_dictionary T' (tr_shape r) \<longrightarrow> \<not> known T (tr_shape r)"
    by (rule transition_add_ok [OF T assms(2,3), of k flags])
  have "tr_abandoned r = (case shape_lookup T x k of None \<Rightarrow> None
      | Some old \<Rightarrow> if slot_span old = slot_span_for flags then None else Some (sp_index old, slot_span old))"
    using r(6) by (auto simp: kind_change_def split: option.splits)
  moreover have "is_dictionary T' y = is_dictionary T y \<and> (y = x \<and> is_dictionary T x \<or>
       shape_props T' y = shape_props T y \<and> slot_count T' y = slot_count T y)" if "known T y" for y
    using keeps_changed [OF r(2) that] r(7) by auto
  ultimately show ?thesis using r(1,3-5,7) by (intro exI [of _ T'] exI [of _ r]) (auto split: if_splits)
qed

theorem defining_a_property_witness:
  "\<exists>T r. transition_add shape_table_new 0 (from_name_id 1) 15 = Some (T, r) \<and> tr_abandoned r = None \<and> tr_slot_count r = slot_count T (tr_shape r)"
proof -
  have "room shape_table_new 0" "known shape_table_new 0" "shape_lookup shape_table_new 0 (from_name_id 1) = None"
    using empty_new by (simp_all add: SHAPE_ID_EMPTY_def known_def shape_lookup_def shape_default_def shape_find_def)
  then show ?thesis using defining_a_property [of shape_table_new 0 "from_name_id 1" 15] by auto
qed

lemma kept_shape:
  assumes "shared_kept T T'" "shape_at T x = Some s" "\<not> shp_dictionary s"
  obtains s' where "shape_at T' x = Some s'" "same_layout s s'"
  using assms by (auto simp: shared_kept_def)

lemma unchanged_layout:
  assumes "shape_ok s" "shape_ok u" "same_layout s u"
  shows "unchanged_prop u k f = unchanged_prop s k f"
  using assms shape_find_ok [OF assms(1), of k] shape_find_ok [OF assms(2), of k]
  by (cases "prop_position k (shp_props s)") (simp_all add: unchanged_prop_def same_layout_def)

text \<open>
  C20: What inline caches rely on. However the table is used afterwards, a shape that is not a
  dictionary keeps its properties, their slots and their order, and asking for the same transition
  again gives the same answer without changing the table, provided the answer was not a dictionary.
\<close>

theorem shared_shapes_are_fixed:
  assumes "table_step\<^sup>*\<^sup>* shape_table_new T" and "table_step\<^sup>*\<^sup>* T1 T2" and "room T x" and "known T x" and "\<not> is_dictionary T x"
    and "transition_add T x k flags = Some (T1, r)" and "\<not> is_dictionary T1 (tr_shape r)"
  shows "shape_props T2 x = shape_props T x \<and> shape_props T2 (tr_shape r) = shape_props T1 (tr_shape r) \<and>
    \<not> is_dictionary T2 x \<and> \<not> is_dictionary T2 (tr_shape r) \<and> transition_add T2 x k flags = Some (T2, r)"
proof -
  have T: "table_ok T" using table_steps_ok [OF assms(1) new_table_ok] by simp
  have T1: "table_ok T1" "shared_kept T T1" using transition_add_step [OF T assms(3,6)] by auto
  have T2: "table_ok T2" "shared_kept T1 T2" using table_steps_ok [OF assms(2) T1(1)] by auto
  have kept0: "shared_kept T T2" by (rule shared_kept_trans [OF T1(2) T2(2)])
  obtain s where s: "shape_at T x = Some s" "\<not> shp_dictionary s" using assms(4,5) by (auto simp: known_def is_dictionary_def)
  obtain s2 where s2: "shape_at T2 x = Some s2" "same_layout s s2" by (rule kept_shape [OF kept0 s])
  obtain s' i a where a: "assign_prop k flags s = (s', i, a)" by (metis prod_cases3)
  have sok: "shape_ok s" "shape_ok s2" using table_okD T T2(1) s(1) s2(1) by blast+
  have run: "transition_from T x s k flags = Some (T1, r)" using assms(6) s(1) by (simp add: transition_add_def)
  obtain u where u: "r = \<lparr>tr_shape = tr_shape r, tr_index = i, tr_slot_count = shp_slot_count s', tr_abandoned = a\<rparr>"
    "shape_at T1 (tr_shape r) = Some u"
    using transition_from_ok [OF T assms(3) s(1) a] run by auto
  have nu: "\<not> shp_dictionary u" using assms(7) u(2) by (simp add: is_dictionary_def)
  obtain u2 where u2: "shape_at T2 (tr_shape r) = Some u2" "same_layout u u2" by (rule kept_shape [OF T2(2) u(2) nu])
  have kept: "shape_props T2 x = shape_props T x" "shape_props T2 (tr_shape r) = shape_props T1 (tr_shape r)"
    "\<not> is_dictionary T2 x" "\<not> is_dictionary T2 (tr_shape r)"
    using s s2 u(2) u2 nu by (simp_all add: shape_props_def is_dictionary_def same_layout_def)
  have n2: "\<not> shp_dictionary s2" using s(2) s2(2) by (simp add: same_layout_def)
  have "transition_add T2 x k flags = Some (T2, r)"
  proof (cases "unchanged_prop s k flags")
    case (Some p)
    then have "unchanged_prop s2 k flags = Some p" using unchanged_layout [OF sok s2(2)] by simp
    moreover have "r = \<lparr>tr_shape = x, tr_index = sp_index p, tr_slot_count = shp_slot_count s, tr_abandoned = None\<rparr>"
      using run Some s(2) by (simp add: transition_from_def)
    ultimately show ?thesis using s2 n2 by (simp add: transition_add_def transition_from_def same_layout_def)
  next
    case None
    have "peek_transition T1 x k flags = Some (tr_shape r)"
      by (rule transition_from_edges(2) [OF T assms(3) s(1) run s(2) assms(7) None])
    then have "peek_transition T2 x k flags = Some (tr_shape r)" using T2(2) by (simp add: shared_kept_def keeps_edges_def)
    then have edge: "map_of (shp_transitions s2) (k, flags) = Some (tr_shape r)" using s2(1) n2 by (simp add: peek_transition_def)
    obtain t' j b where b: "assign_prop k flags s2 = (t', j, b)" by (metis prod_cases3)
    note same = assign_prop_layout [OF sok s2(2) a b]
    have "follow_transition T2 s2 k (tr_shape r) = Some r"
      using follow_transition_ok [OF T2(1) s2(1) n2 edge b] same u(1) by (auto simp: same_layout_def)
    moreover have "unchanged_prop s2 k flags = None" using None unchanged_layout [OF sok s2(2)] by simp
    ultimately show ?thesis using s2(1) n2 edge by (simp add: transition_add_def transition_from_def)
  qed
  then show ?thesis using kept by simp
qed

theorem shared_shapes_are_fixed_witness:
  "\<exists>T r T'. shape_sample = Some (T, r) \<and> T' = fst (remove_prop T (tr_shape r) (from_name_id 1)) \<and> T' \<noteq> T \<and>
     transition_add T' 0 (from_name_id 1) 7 = Some (T', r)"
proof -
  obtain T r where T: "shape_sample = Some (T, r)" "length (st_shapes T) = 2" "\<not> is_dictionary T 1" "tr_shape r = 1" "known T 1"
    by (rule sample_table)
  have new: "room shape_table_new 0" "known shape_table_new 0" "\<not> is_dictionary shape_table_new 0"
    using empty_new by (simp_all add: SHAPE_ID_EMPTY_def known_def is_dictionary_def shape_default_def)
  have room: "room T 1" using T(2,3) by (auto simp: room_def is_dictionary_def)
  obtain T' q where T': "remove_prop T 1 (from_name_id 1) = (T', q)" by (metis surj_pair)
  have "table_step T T'" by (rule step_remove [OF T' room])
  then have "transition_add T' 0 (from_name_id 1) 7 = Some (T', r)"
    using shared_shapes_are_fixed [of shape_table_new T T' 0 "from_name_id 1" 7 r] new T by (auto simp: shape_sample_def)
  moreover have "T' \<noteq> T"
  proof -
    have "length (st_shapes T') \<noteq> length (st_shapes T)"
      using T' T(3,5) by (auto simp: remove_prop_def ensure_dictionary_def is_dictionary_def known_def Let_def split: option.splits if_splits)
    then show ?thesis by auto
  qed
  ultimately show ?thesis using T T' by (intro exI [of _ T] exI [of _ r] exI [of _ T']) simp
qed

text \<open>
  Removing a property. On every reachable table the shape becomes a dictionary (a new one, or
  itself when it is one already) with the same properties, slots and order except the removed one,
  whose slots are reported. A property that is not there is answered with \<open>None\<close>, but the dictionary
  has been added to the table by then: each such call on a shared shape leaves one more unused shape.
\<close>

theorem removing_a_property:
  assumes "table_step\<^sup>*\<^sup>* shape_table_new T" and "room T x" and "known T x" and "remove_prop T x k = (T', r)"
  shows "(\<forall>y. known T y \<longrightarrow> y = x \<and> is_dictionary T x \<or> shape_props T' y = shape_props T y \<and> slot_count T' y = slot_count T y) \<and>
    (case shape_lookup T x k of
       None \<Rightarrow> r = None \<and> length (st_shapes T') = length (st_shapes T) + (if is_dictionary T x then 0 else 1)
     | Some p \<Rightarrow> \<exists>d. r = Some (d, sp_index p, slot_span p) \<and> is_dictionary T' d \<and> shape_lookup T' d = (shape_lookup T x)(k := None) \<and>
         map sp_name (shape_props T' d) = filter (\<lambda>n. n \<noteq> k) (map sp_name (shape_props T x)) \<and>
         slot_count T' d = slot_count T x \<and> (if is_dictionary T x then d = x else \<not> known T d))"
proof -
  have T: "table_ok T" using table_steps_ok [OF assms(1) new_table_ok] by simp
  have len: "length (st_shapes T) < 2 ^ 32" using assms(2) by (simp add: room_def)
  note ok = remove_prop_ok [OF T len assms(3,4)]
  have "y = x \<and> is_dictionary T x \<or> shape_props T' y = shape_props T y \<and> slot_count T' y = slot_count T y" if "known T y" for y
    using keeps_changed [OF ok(2) that] by blast
  moreover have "case shape_lookup T x k of
       None \<Rightarrow> r = None \<and> length (st_shapes T') = length (st_shapes T) + (if is_dictionary T x then 0 else 1)
     | Some p \<Rightarrow> \<exists>d. r = Some (d, sp_index p, slot_span p) \<and> is_dictionary T' d \<and> shape_lookup T' d = (shape_lookup T x)(k := None) \<and>
         map sp_name (shape_props T' d) = filter (\<lambda>n. n \<noteq> k) (map sp_name (shape_props T x)) \<and>
         slot_count T' d = slot_count T x \<and> (if is_dictionary T x then d = x else \<not> known T d)"
    using ok(3) by (cases "shape_lookup T x k") auto
  ultimately show ?thesis by blast
qed

theorem removing_a_property_witness:
  "length (st_shapes (fst (remove_prop shape_table_new 0 (from_name_id 1)))) = 2 \<and> snd (remove_prop shape_table_new 0 (from_name_id 1)) = None"
proof -
  have "room shape_table_new 0" "known shape_table_new 0" "\<not> is_dictionary shape_table_new 0"
    "shape_lookup shape_table_new 0 (from_name_id 1) = None" "length (st_shapes shape_table_new) = 1"
    using empty_new by (simp_all add: SHAPE_ID_EMPTY_def known_def is_dictionary_def shape_lookup_def shape_default_def shape_find_def shape_table_new_def)
  then show ?thesis
    using removing_a_property [of shape_table_new 0 "from_name_id 1"] by (cases "remove_prop shape_table_new 0 (from_name_id 1)") auto
qed

section \<open>Snapshots\<close>

lemma map_of_functional:
  assumes "\<And>a b b'. (a, b) \<in> set xs \<Longrightarrow> (a, b') \<in> set xs \<Longrightarrow> b = b'"
  shows "map_of xs a = Some b \<longleftrightarrow> (a, b) \<in> set xs"
  using assms map_of_SomeD weak_map_of_SomeI by metis

definition edge_keys :: "(u32 \<times> PropertyKey \<times> u32 \<times> u32) list \<Rightarrow> ((nat \<times> PropertyKey \<times> u32) \<times> u32) list" where
  "edge_keys L = map (\<lambda>(p, k, f, c). ((unat p, k, f), c)) L"

lemma import_transition_layout: "length (import_transition ss e) = length ss" "i < length ss \<Longrightarrow> same_layout (ss ! i) (import_transition ss e ! i)"
    "i < length ss \<Longrightarrow> shp_index_of (import_transition ss e ! i) = shp_index_of (ss ! i)"
  by (auto simp: import_transition_def get_at_def same_layout_def nth_list_update split: prod.splits option.splits)

lemma import_transitions_layout:
  "length (foldl import_transition ss L) = length ss"
  "i < length ss \<Longrightarrow> same_layout (ss ! i) (foldl import_transition ss L ! i) \<and>
     shp_index_of (foldl import_transition ss L ! i) = shp_index_of (ss ! i)"
proof (induction L arbitrary: ss)
  case (Cons e L)
  { case 1 then show ?case using Cons(1) by (simp add: import_transition_layout) }
  { case 2
    have "same_layout (ss ! i) (import_transition ss e ! i)" "shp_index_of (import_transition ss e ! i) = shp_index_of (ss ! i)"
      by (rule import_transition_layout(2,3) [OF 2])+
    then show ?case using Cons(2) [of "import_transition ss e"] 2 same_layout_trans by (fastforce simp: import_transition_layout) }
qed simp_all

lemma import_transition_edge:
  assumes "i < length ss" "\<not> shp_dictionary (ss ! i)"
  shows "map_of (shp_transitions (import_transition ss (p, k, f, c) ! i)) (k', f') =
    (if unat p = i \<and> k = k' \<and> f = f' then Some c else map_of (shp_transitions (ss ! i)) (k', f'))"
  using assms by (auto simp: import_transition_def get_at_def nth_list_update update_conv')

lemma import_transitions_edge:
  assumes "i < length ss" "\<not> shp_dictionary (ss ! i)"
  shows "map_of (shp_transitions (foldl import_transition ss L ! i)) (k, f) =
    (case map_of (rev (edge_keys L)) (i, k, f) of Some c \<Rightarrow> Some c | None \<Rightarrow> map_of (shp_transitions (ss ! i)) (k, f))"
  using assms
proof (induction L arbitrary: ss)
  case (Cons e L)
  obtain p k' f' c where e: "e = (p, k', f', c)" by (cases e)
  have "\<not> shp_dictionary (import_transition ss e ! i)"
    using import_transition_layout(2) [OF Cons.prems(1), of e] Cons.prems(2) by (simp add: same_layout_def)
  then have "map_of (shp_transitions (foldl import_transition (import_transition ss e) L ! i)) (k, f) =
      (case map_of (rev (edge_keys L)) (i, k, f) of Some c \<Rightarrow> Some c | None \<Rightarrow> map_of (shp_transitions (import_transition ss e ! i)) (k, f))"
    using Cons by (simp add: import_transition_layout)
  then show ?case using Cons.prems
    by (auto simp: e import_transition_edge edge_keys_def map_add_def split: option.splits)
qed (simp add: edge_keys_def)

lemma exported_edges:
  assumes T: "table_ok T"
  shows "map_of (rev (edge_keys (sts_transitions (export_table T)))) (i, k, f) =
    (if i < length (st_shapes T) then map_of (shp_transitions (st_shapes T ! i)) (k, f) else None)"
proof -
  let ?ss = "st_shapes T"
  have ok: "shapes_ok ?ss" using T by (simp add: table_ok_def)
  have len: "i < length ?ss \<Longrightarrow> unat (of_nat i :: u32) = i" for i using ok by (simp add: shapes_ok_def unat_u32_of_nat)
  have mem: "((i, k, f), c) \<in> set (edge_keys (sts_transitions (export_table T))) \<longleftrightarrow>
      i < length ?ss \<and> ((k, f), c) \<in> set (shp_transitions (?ss ! i))" for i k f c
  proof -
    have keys: "((i, k, f), c) \<in> set (edge_keys L) \<longleftrightarrow> (\<exists>p. unat p = i \<and> (p, k, f, c) \<in> set L)" for L
      unfolding edge_keys_def set_map by (rule iffI) (auto intro!: image_eqI)
    have "map g (enumerate 0 ?ss) = map (\<lambda>n. g (n, ?ss ! n)) [0..<length ?ss]" for g :: "nat \<times> Shape \<Rightarrow> (u32 \<times> PropertyKey \<times> u32 \<times> u32) list"
      by (rule nth_equalityI) (simp_all add: nth_enumerate_eq)
    then have "set (sts_transitions (export_table T)) =
        (\<Union>n\<in>{0..<length ?ss}. (\<lambda>((k, f), c). (of_nat n, k, f, c)) ` set (shp_transitions (?ss ! n)))"
      by (simp add: export_table_def)
    moreover have "(p, k, f, c) \<in> (\<lambda>((k, f), c). (of_nat n, k, f, c)) ` set (shp_transitions (?ss ! n)) \<longleftrightarrow>
        p = of_nat n \<and> ((k, f), c) \<in> set (shp_transitions (?ss ! n))" for p :: u32 and n
      by (force simp: image_iff)
    ultimately have "(p, k, f, c) \<in> set (sts_transitions (export_table T)) \<longleftrightarrow>
        (\<exists>n. n < length ?ss \<and> p = of_nat n \<and> ((k, f), c) \<in> set (shp_transitions (?ss ! n)))" for p
      by (simp add: Bex_def)
    then show ?thesis using len unfolding keys by auto
  qed
  have d: "distinct (map fst (shp_transitions (?ss ! i)))" if "i < length ?ss" for i
    using shapes_okD [OF ok that] by (cases "shp_dictionary (?ss ! i)") (auto simp: shared_ok_def)
  have "map_of (rev (edge_keys (sts_transitions (export_table T)))) (i, k, f) = Some c \<longleftrightarrow>
      i < length ?ss \<and> map_of (shp_transitions (?ss ! i)) (k, f) = Some c" for c
  proof (subst map_of_functional)
    fix a b b' assume "(a, b) \<in> set (rev (edge_keys (sts_transitions (export_table T))))"
      "(a, b') \<in> set (rev (edge_keys (sts_transitions (export_table T))))"
    then obtain j kf where "j < length ?ss" "(kf, b) \<in> set (shp_transitions (?ss ! j))" "(kf, b') \<in> set (shp_transitions (?ss ! j))"
      using mem by (cases a) auto
    then show "b = b'" using eq_key_imp_eq_value [OF d] by blast
  qed (use mem d in \<open>auto simp: map_of_eq_Some_iff\<close>)
  then show ?thesis by (metis not_None_eq)
qed

lemma import_shape_layout: "shape_ok s \<Longrightarrow> same_layout s (import_shape s) \<and> index_ok (import_shape s) \<and> shp_transitions (import_shape s) = []"
  using rebuild_index_ok [of "s\<lparr>shp_transitions := []\<rparr>"]
  by (auto simp: import_shape_def Let_def same_layout_def shape_ok_def index_ok_def)

text \<open>
  C35: Snapshots of the table. Importing an exported table, written out and read back in between or
  not, restores every shape (its properties, slots, kind and cached transitions), the prototypes and
  the generation; so lookups and sharing are as before, whatever table the import replaces.
\<close>

theorem shape_snapshot_round_trip:
  assumes "table_step\<^sup>*\<^sup>* shape_table_new T" and "finite (st_prototypes T)"
    and "snapshot = export_table T \<or> snapshot = serialized (export_table T)" and "import_table snapshot T0 = T'"
  shows "length (st_shapes T') = length (st_shapes T) \<and> shape_lookup T' x = shape_lookup T x \<and> shape_props T' x = shape_props T x \<and>
    slot_count T' x = slot_count T x \<and> is_dictionary T' x = is_dictionary T x \<and>
    peek_transition T' x = peek_transition T x \<and> st_prototypes T' = st_prototypes T \<and> st_generation T' = st_generation T"
proof -
  let ?ss = "st_shapes T" and ?L = "sts_transitions (export_table T)"
  have T: "table_ok T" using table_steps_ok [OF assms(1) new_table_ok] by simp
  then have ok: "shapes_ok ?ss" by (simp add: table_ok_def)
  define ss where "ss = map import_shape (sts_shapes snapshot)"
  have snap: "sts_transitions snapshot = ?L" "sts_prototypes snapshot = sorted_list_of_set (st_prototypes T)"
    "sts_generation snapshot = st_generation T" "length (sts_shapes snapshot) = length ?ss"
    using assms(3) by (auto simp: export_table_def serialized_def)
  have ss: "length ss = length ?ss" "i < length ?ss \<Longrightarrow> same_layout (?ss ! i) (ss ! i) \<and> index_ok (ss ! i) \<and> shp_transitions (ss ! i) = []" for i
  proof -
    show "length ss = length ?ss" by (simp add: ss_def snap)
    assume i: "i < length ?ss"
    have s: "shape_ok (?ss ! i)" by (rule shapes_okD(1) [OF ok i])
    have "shape_ok ((?ss ! i)\<lparr>shp_index_of := None, shp_transitions := []\<rparr>)" using s by (auto simp: shape_ok_def index_ok_def)
    then show "same_layout (?ss ! i) (ss ! i) \<and> index_ok (ss ! i) \<and> shp_transitions (ss ! i) = []"
      using import_shape_layout [OF s] import_shape_layout [of "(?ss ! i)\<lparr>shp_index_of := None, shp_transitions := []\<rparr>"] assms(3) i
      by (auto simp: ss_def export_table_def serialized_def same_layout_def)
  qed
  have "sts_shapes snapshot \<noteq> []" using ok snap(4) by (auto simp: shapes_ok_def)
  then have T': "st_shapes T' = foldl import_transition ss ?L" "st_prototypes T' = st_prototypes T" "st_generation T' = st_generation T"
    using assms(2,4) snap by (auto simp: import_table_def ss_def)
  have lay: "same_layout (?ss ! i) (st_shapes T' ! i)" "index_ok (st_shapes T' ! i)"
    "\<not> shp_dictionary (?ss ! i) \<Longrightarrow> map_of (shp_transitions (st_shapes T' ! i)) (k, f) = map_of (shp_transitions (?ss ! i)) (k, f)"
    if i: "i < length ?ss" for i k f
  proof -
    have f: "same_layout (ss ! i) (st_shapes T' ! i)" "shp_index_of (st_shapes T' ! i) = shp_index_of (ss ! i)"
      using import_transitions_layout(2) [of i ss ?L] i ss(1) T'(1) by auto
    show "same_layout (?ss ! i) (st_shapes T' ! i)" using same_layout_trans f(1) ss(2) [OF i] by blast
    show "index_ok (st_shapes T' ! i)" using f ss(2) [OF i] by (auto simp: index_ok_def same_layout_def split: option.splits)
    show "map_of (shp_transitions (st_shapes T' ! i)) (k, f) = map_of (shp_transitions (?ss ! i)) (k, f)" if "\<not> shp_dictionary (?ss ! i)"
      using import_transitions_edge [of i ss ?L k f] exported_edges [OF T, of i k f] ss(1) ss(2) [OF i] i that T'(1)
      by (auto simp: same_layout_def split: option.splits)
  qed
  have len: "length (st_shapes T') = length ?ss" using T'(1) import_transitions_layout(1) ss(1) by simp
  show ?thesis
  proof (cases "unat x < length ?ss")
    case False
    then have "shape_at T x = None" "shape_at T' x = None" by (simp_all add: shape_at_def get_at_def len)
    then show ?thesis using T' len by (simp add: fun_eq_iff shape_lookup_def shape_props_def slot_count_def is_dictionary_def peek_transition_def)
  next
    case True
    define s s' where "s = ?ss ! unat x" and "s' = st_shapes T' ! unat x"
    have at: "shape_at T x = Some s" "shape_at T' x = Some s'" using True len by (simp_all add: shape_at_def get_at_def s_def s'_def)
    have s': "same_layout s s'" "index_ok s'" "\<not> shp_dictionary s \<Longrightarrow> map_of (shp_transitions s') (k, f) = map_of (shp_transitions s) (k, f)" for k f
      using lay [OF True] by (simp_all add: s_def s'_def)
    have sok: "shape_ok s" by (rule table_okD [OF T at(1)])
    then have "shape_ok s'" using s'(1,2) by (simp add: shape_ok_def same_layout_def)
    then have "shape_lookup T' x k = shape_lookup T x k" for k
      using find_named [OF sok, of k] find_named [of s' k] at s'(1) by (simp add: shape_lookup_def same_layout_def)
    then show ?thesis using T' len at s'
      by (auto simp: fun_eq_iff shape_props_def slot_count_def is_dictionary_def peek_transition_def same_layout_def)
  qed
qed

theorem shape_snapshot_round_trip_witness:
  "\<exists>T r. shape_sample = Some (T, r) \<and>
    peek_transition (import_table (serialized (export_table T)) shape_table_new) 0 = peek_transition T 0"
proof -
  obtain T r where T: "shape_sample = Some (T, r)" by (rule sample_table)
  have "room shape_table_new 0" using empty_new(2) by (simp add: SHAPE_ID_EMPTY_def)
  then have step: "table_step\<^sup>*\<^sup>* shape_table_new T" using T(1) step_add unfolding shape_sample_def by blast
  have "st_prototypes T = {}"
  proof -
    have "known shape_table_new 0" "room shape_table_new 0" using empty_new by (simp_all add: SHAPE_ID_EMPTY_def known_def)
    from transition_add_ok [OF new_table_ok this(2,1), of "from_name_id 1" 7] T show ?thesis
      by (metis Pair_inject ShapeTable.select_convs(2) option.inject shape_sample_def shape_table_new_def)
  qed
  then show ?thesis using shape_snapshot_round_trip [OF step, of "serialized (export_table T)" shape_table_new] T by auto
qed

end
