(* ===== verification/Object_Heap_Correct.thy ===== *)
theory Object_Heap_Correct
  imports Object_Heap Shape_Table_Correct
begin

text \<open>
  Objects are maps from keys to properties: defining, writing and deleting a property changes exactly
  this entry of exactly this object, because a dictionary belongs to one object; and the generation of
  the table tells when the shape of a prototype may have changed.
\<close>

section \<open>Well-formed heaps\<close>

lemma is_array_update [simp]:
  "ho_is_array (object\<lparr>ho_shape := t\<rparr>) = ho_is_array object" "ho_is_array (object\<lparr>ho_slots := S\<rparr>) = ho_is_array object"
  "ho_is_array (object\<lparr>ho_prototype := q\<rparr>) = ho_is_array object"
  by (simp_all add: ho_is_array_def)

definition plain :: "object_heap \<Rightarrow> u32 \<Rightarrow> heap_object \<Rightarrow> bool" where
  "plain H h object \<longleftrightarrow> oh_objects H h = Some object \<and> \<not> ho_is_array object"

definition heap_ok :: "object_heap \<Rightarrow> bool" where
  "heap_ok H \<longleftrightarrow> table_ok (oh_table H) \<and>
     (\<forall>h object. plain H h object \<longrightarrow> length (ho_slots object) < 2 ^ 32 \<and> known (oh_table H) (ho_shape object) \<and>
        unat (slot_count (oh_table H) (ho_shape object)) \<le> length (ho_slots object)) \<and>
     (\<forall>h h' object object'. plain H h object \<longrightarrow> plain H h' object' \<longrightarrow> h \<noteq> h' \<longrightarrow> ho_shape object = ho_shape object' \<longrightarrow>
        \<not> is_dictionary (oh_table H) (ho_shape object))"

lemma heap_okD:
  assumes "heap_ok H" "plain H h object"
  shows "table_ok (oh_table H)" "length (ho_slots object) < 2 ^ 32" "known (oh_table H) (ho_shape object)"
    "unat (slot_count (oh_table H) (ho_shape object)) \<le> length (ho_slots object)"
  using assms by (auto simp: heap_ok_def)

lemma heap_ok_owner:
  assumes "heap_ok H" "plain H h object" "plain H h' object'" "h \<noteq> h'" "is_dictionary (oh_table H) (ho_shape object)"
  shows "ho_shape object' \<noteq> ho_shape object"
  using assms unfolding heap_ok_def by metis

lemma same_shapes:
  assumes "st_shapes T' = st_shapes T"
  shows "shape_at T' = shape_at T" "shape_lookup T' = shape_lookup T" "shape_props T' = shape_props T" "slot_count T' = slot_count T"
    "is_dictionary T' = is_dictionary T" "known T' = known T" "table_ok T' = table_ok T"
  using assms by (auto simp: fun_eq_iff shape_at_def shape_lookup_def shape_props_def slot_count_def is_dictionary_def known_def table_ok_def)

lemma table_notes [simp]:
  "st_shapes (invalidate_if_prototype h T) = st_shapes T" "st_shapes (note_prototype h T) = st_shapes T"
  by (simp_all add: invalidate_if_prototype_def note_prototype_def)

definition reshape :: "ShapeTable \<Rightarrow> ShapeTable \<Rightarrow> u32 \<Rightarrow> u32 \<Rightarrow> bool" where
  \<comment> \<open>what an object with the shape relies on when an operation gives it another one\<close>
  "reshape T T' x t \<longleftrightarrow> table_ok T' \<and> keeps T T' (if is_dictionary T x then {x} else {}) \<and> known T' t \<and>
     (if is_dictionary T x then t = x else is_dictionary T' t \<longrightarrow> \<not> known T t)"

lemma reshape_other:
  assumes H: "heap_ok H" "plain H h object" and r: "reshape (oh_table H) T' (ho_shape object) t"
    and o: "plain H h' other" "h' \<noteq> h"
  shows "shape_lookup T' (ho_shape other) = shape_lookup (oh_table H) (ho_shape other)"
    and "shape_props T' (ho_shape other) = shape_props (oh_table H) (ho_shape other)"
    and "slot_count T' (ho_shape other) = slot_count (oh_table H) (ho_shape other)"
    and "is_dictionary T' (ho_shape other) = is_dictionary (oh_table H) (ho_shape other)"
    and "known T' (ho_shape other)" and "ho_shape other = t \<Longrightarrow> \<not> is_dictionary T' t"
proof -
  let ?T = "oh_table H" and ?x = "ho_shape object" and ?y = "ho_shape other"
  have kn: "known ?T ?y" using heap_okD(3) [OF H(1) o(1)] .
  have T: "table_ok ?T" "table_ok T'" using heap_okD(1) [OF H] r by (simp_all add: reshape_def)
  have y: "?y = ?x \<Longrightarrow> \<not> is_dictionary ?T ?x" using heap_ok_owner [OF H o(1)] o(2) by metis
  have keep: "keeps ?T T' (if is_dictionary ?T ?x then {?x} else {})" using r by (simp add: reshape_def)
  have out: "?y \<notin> (if is_dictionary ?T ?x then {?x} else {})" using y by auto
  note same = keeps_known [OF keep out kn [unfolded known_def]]
  show "shape_props T' ?y = shape_props ?T ?y" "slot_count T' ?y = slot_count ?T ?y" "is_dictionary T' ?y = is_dictionary ?T ?y"
    by (rule same)+
  show "shape_lookup T' ?y = shape_lookup ?T ?y"
    by (rule ext) (simp add: shape_lookup_named [OF T(1)] shape_lookup_named [OF T(2)] same(1))
  show "known T' ?y" using keepsD [OF keep out] kn by (auto simp: known_def)
  show "\<not> is_dictionary T' t" if "?y = t"
    using that r kn y by (auto simp: reshape_def split: if_splits)
qed

lemma heap_reshape:
  assumes H: "heap_ok H" "plain H h object" and r: "reshape (oh_table H) T' (ho_shape object) t"
    and H': "oh_objects H' = (oh_objects H)(h \<mapsto> object\<lparr>ho_shape := t, ho_slots := S\<rparr>)" "st_shapes (oh_table H') = st_shapes T'"
    and S: "length S < 2 ^ 32" "unat (slot_count T' t) \<le> length S"
  shows "heap_ok H'" and "plain H' h (object\<lparr>ho_shape := t, ho_slots := S\<rparr>)"
    and "h' \<noteq> h \<Longrightarrow> get_property_slot H' h' = get_property_slot H h'"
    and "h' \<noteq> h \<Longrightarrow> own_property_slots H' h' = own_property_slots H h'"
proof -
  note T' = same_shapes [OF H'(2)]
  have self: "plain H' h u \<longleftrightarrow> u = object\<lparr>ho_shape := t, ho_slots := S\<rparr>" for u
    using H(2) H'(1) by (auto simp: plain_def)
  then show "plain H' h (object\<lparr>ho_shape := t, ho_slots := S\<rparr>)" by simp
  have other: "plain H' h' u \<longleftrightarrow> plain H h' u" if "h' \<noteq> h" for h' u using that H'(1) by (simp add: plain_def)
  note keep = reshape_other [OF H r]
  have ok: "table_ok T'" "known T' t" using r by (simp_all add: reshape_def)
  show "heap_ok H'" unfolding heap_ok_def T'
  proof (intro conjI allI impI)
    show "table_ok T'" by (rule ok(1))
    fix j u assume p: "plain H' j u"
    show "length (ho_slots u) < 2 ^ 32"
      using p heap_okD(2) [OF H(1)] S by (cases "j = h") (auto simp: self other)
    show "known T' (ho_shape u)" using p keep(5) ok(2) by (cases "j = h") (auto simp: self other)
    show "unat (slot_count T' (ho_shape u)) \<le> length (ho_slots u)"
      using p keep(3) heap_okD(4) [OF H(1)] S by (cases "j = h") (auto simp: self other)
  next
    fix j l u w assume p: "plain H' j u" "plain H' l w" "j \<noteq> l" "ho_shape u = ho_shape w"
    consider "j = h" "l \<noteq> h" | "l = h" "j \<noteq> h" | "j \<noteq> h" "l \<noteq> h" using p(3) by blast
    then show "\<not> is_dictionary T' (ho_shape u)"
    proof cases
      case 1
      then show ?thesis using p keep(6) [of l w] by (simp add: self other)
    next
      case 2
      then show ?thesis using p keep(6) [of j u] by (simp add: self other)
    next
      case 3
      then show ?thesis using p keep(4) [of j u] heap_ok_owner [OF H(1), of j u l w] by (auto simp: other)
    qed
  qed
  show "get_property_slot H' h' = get_property_slot H h'" if "h' \<noteq> h"
  proof (cases "oh_objects H h'")
    case (Some u)
    then show ?thesis using that H'(1) T'(2) keep(1) [of h' u]
      by (cases "ho_is_array u") (auto simp: fun_eq_iff get_property_slot_def resolve_object_def plain_def)
  qed (use that H'(1) in \<open>simp add: fun_eq_iff get_property_slot_def resolve_object_def\<close>)
  show "own_property_slots H' h' = own_property_slots H h'" if "h' \<noteq> h"
  proof (cases "oh_objects H h'")
    case (Some u)
    then show ?thesis using that H'(1) T'(3) keep(2) [of h' u]
      by (cases "ho_is_array u") (auto simp: own_property_slots_def resolve_object_def plain_def)
  qed (use that H'(1) in \<open>simp add: own_property_slots_def resolve_object_def\<close>)
qed

section \<open>Slots\<close>

definition range_of :: "u32 \<times> u32 \<Rightarrow> nat set" where
  "range_of = (\<lambda>(index, span). {unat index ..< unat index + unat span})"

definition written :: "nat set \<Rightarrow> u64 list \<Rightarrow> u64 list \<Rightarrow> bool" where
  \<comment> \<open>the slots grew and changed in the set only\<close>
  "written A S S' \<longleftrightarrow> length S \<le> length S' \<and> (\<forall>j < length S. j \<notin> A \<longrightarrow> S' ! j = S ! j)"

lemma written_trans: "written A S S1 \<Longrightarrow> written B S1 S2 \<Longrightarrow> A \<union> B \<subseteq> C \<Longrightarrow> written C S S2"
  unfolding written_def by (metis UnI1 UnI2 le_trans less_le_trans subsetD)

lemma written_update: "i \<in> A \<Longrightarrow> written A S (S[i := v])"
  unfolding written_def by (metis length_list_update nth_list_update_neq order_refl)

lemma update_object_simps [simp]:
  "oh_table (update_object h g H) = oh_table H"
  "oh_objects (update_object h g H) = (oh_objects H)(h := map_option g (oh_objects H h))"
  by (simp_all add: update_object_def)

lemma clear_slots_result:
  assumes o: "oh_objects H h = Some object" and i: "unat (fst slots) + unat (snd slots) \<le> length (ho_slots object)" "length (ho_slots object) < 2 ^ 32"
  obtains S where "oh_objects (clear_slots h slots H) = (oh_objects H)(h \<mapsto> object\<lparr>ho_slots := S\<rparr>)"
    "oh_table (clear_slots h slots H) = oh_table H" "length S = length (ho_slots object)" "written (range_of slots) (ho_slots object) S"
proof -
  obtain i n where s: "slots = (i, n)" by (cases slots)
  have "m \<le> unat n \<Longrightarrow> \<exists>S. oh_objects (fold (\<lambda>offset. store_value_slot h (i + of_nat offset) 0) [0..<m] H) = (oh_objects H)(h \<mapsto> object\<lparr>ho_slots := S\<rparr>) \<and>
      oh_table (fold (\<lambda>offset. store_value_slot h (i + of_nat offset) 0) [0..<m] H) = oh_table H \<and>
      length S = length (ho_slots object) \<and> written {unat i ..< unat i + m} (ho_slots object) S" for m
  proof (induction m)
    case 0
    have "(oh_objects H)(h \<mapsto> object\<lparr>ho_slots := ho_slots object\<rparr>) = oh_objects H" using o by (auto simp: fun_eq_iff)
    then show ?case by (intro exI [of _ "ho_slots object"]) (simp add: written_def)
  next
    case (Suc m)
    then obtain S where S: "oh_objects (fold (\<lambda>offset. store_value_slot h (i + of_nat offset) 0) [0..<m] H) = (oh_objects H)(h \<mapsto> object\<lparr>ho_slots := S\<rparr>)"
      "oh_table (fold (\<lambda>offset. store_value_slot h (i + of_nat offset) 0) [0..<m] H) = oh_table H"
      "length S = length (ho_slots object)" "written {unat i ..< unat i + m} (ho_slots object) S" using Suc_leD by blast
    have "unat (i + of_nat m) = unat i + m"
      using i Suc.prems s unat_add_lem [of i "of_nat m"] by (simp add: unat_u32_of_nat)
    then have "written {unat i ..< unat i + Suc m} (ho_slots object) (S[unat (i + of_nat m) := 0])"
      by (intro written_trans [OF S(4) written_update [of _ "{unat i + m}"]]) auto
    then show ?case using S by (intro exI [of _ "S[unat (i + of_nat m) := 0]"]) (simp add: store_value_slot_def)
  qed
  from this [of "unat n"] show thesis using that unfolding s clear_slots_def range_of_def by auto
qed

lemma grow_result:
  assumes "oh_objects H h = Some object" "length (ho_slots object) < unat needed"
  obtains n where "grow_value_capacity H h needed = Inr (update_object h (\<lambda>object. object\<lparr>ho_slots := ho_slots object @ replicate n 0\<rparr>) H)"
    "unat needed \<le> length (ho_slots object) + n" "length (ho_slots object) + n < 2 ^ 32"
proof -
  define c where "c = length (ho_slots object)"
  define n where "n = max (max (min (2 * c) (2 ^ 32 - 1)) HEAP_OBJECT_INITIAL_VALUE_CAPACITY) (unat needed)"
  have n: "c < n" "unat needed \<le> n" "\<not> n \<le> c" using assms(2) by (auto simp: n_def c_def)
  have "min (2 * c) (2 ^ 32 - 1) < 2 ^ 32" "HEAP_OBJECT_INITIAL_VALUE_CAPACITY < 2 ^ 32"
    by (auto simp: min_less_iff_disj HEAP_OBJECT_INITIAL_VALUE_CAPACITY_def)
  then have "n < 2 ^ 32" using unat_u32_lt [of needed] unfolding n_def by (simp only: max_less_iff_conj)
  moreover have "grow_value_capacity H h needed = Inr (update_object h (\<lambda>object. object\<lparr>ho_slots := ho_slots object @ replicate (n - c) 0\<rparr>) H)"
    unfolding grow_value_capacity_def resolve_object_def assms(1) ok_or.simps bindr.simps Let_def c_def [symmetric] n_def [symmetric]
    using n(3) by (simp only: if_False)
  ultimately show thesis using that [of "n - c"] n(1,2) unfolding c_def [symmetric] by (simp del: update_object_simps)
qed

section \<open>Transitions of objects\<close>

lemma apply_transition_result:
  assumes o: "oh_objects H h = Some object" and len: "length (ho_slots object) < 2 ^ 32"
    and gone: "\<And>slots. tr_abandoned t = Some slots \<Longrightarrow> unat (fst slots) + unat (snd slots) \<le> length (ho_slots object)"
  obtains H' S where "apply_transition H h (ho_shape object) t = Inr H'"
    "oh_objects H' = (oh_objects H)(h \<mapsto> object\<lparr>ho_shape := tr_shape t, ho_slots := S\<rparr>)"
    "oh_table H' = (if tr_shape t \<noteq> ho_shape object then invalidate_if_prototype h (oh_table H) else oh_table H)"
    "unat (tr_slot_count t) \<le> length S" "length S < 2 ^ 32"
    "written (case tr_abandoned t of None \<Rightarrow> {} | Some slots \<Rightarrow> range_of slots) (ho_slots object) S"
proof -
  obtain H1 S1 where H1: "(if length (ho_slots object) < unat (tr_slot_count t) then grow_value_capacity H h (tr_slot_count t) else Inr H) = Inr H1"
    "oh_objects H1 = (oh_objects H)(h \<mapsto> object\<lparr>ho_slots := S1\<rparr>)" "oh_table H1 = oh_table H"
    "unat (tr_slot_count t) \<le> length S1" "length S1 < 2 ^ 32" "written {} (ho_slots object) S1"
  proof (cases "length (ho_slots object) < unat (tr_slot_count t)")
    case True
    obtain n where n: "grow_value_capacity H h (tr_slot_count t) = Inr (update_object h (\<lambda>object. object\<lparr>ho_slots := ho_slots object @ replicate n 0\<rparr>) H)"
      "unat (tr_slot_count t) \<le> length (ho_slots object) + n" "length (ho_slots object) + n < 2 ^ 32"
      by (rule grow_result [OF o True])
    have "written {} (ho_slots object) (ho_slots object @ replicate n 0)" by (simp add: written_def nth_append)
    then show thesis
      using that [of "update_object h (\<lambda>object. object\<lparr>ho_slots := ho_slots object @ replicate n 0\<rparr>) H" "ho_slots object @ replicate n 0"] n o True
      by simp
  next
    case False
    have "(oh_objects H)(h \<mapsto> object\<lparr>ho_slots := ho_slots object\<rparr>) = oh_objects H" using o by (auto simp: fun_eq_iff)
    then show thesis using that [of H "ho_slots object"] False len by (simp add: written_def)
  qed
  have o1: "oh_objects H1 h = Some (object\<lparr>ho_slots := S1\<rparr>)" using H1(2) by simp
  define H2 where "H2 = (case tr_abandoned t of None \<Rightarrow> H1 | Some slots \<Rightarrow> clear_slots h slots H1)"
  obtain S where S: "oh_objects H2 = (oh_objects H)(h \<mapsto> object\<lparr>ho_slots := S\<rparr>)" "oh_table H2 = oh_table H" "length S = length S1"
    "written (case tr_abandoned t of None \<Rightarrow> {} | Some slots \<Rightarrow> range_of slots) S1 S"
  proof (cases "tr_abandoned t")
    case None
    then show thesis using that [of S1] H1 by (simp add: H2_def written_def)
  next
    case (Some slots)
    have "unat (fst slots) + unat (snd slots) \<le> length (ho_slots (object\<lparr>ho_slots := S1\<rparr>))"
      using gone [OF Some] H1(6) by (simp add: written_def)
    then obtain S where "oh_objects (clear_slots h slots H1) = (oh_objects H1)(h \<mapsto> (object\<lparr>ho_slots := S1\<rparr>)\<lparr>ho_slots := S\<rparr>)"
      "oh_table (clear_slots h slots H1) = oh_table H1" "length S = length (ho_slots (object\<lparr>ho_slots := S1\<rparr>))"
      "written (range_of slots) (ho_slots (object\<lparr>ho_slots := S1\<rparr>)) S"
      by (rule clear_slots_result [OF o1]) (use H1(5) in simp)
    then show thesis using that [of S] H1(2,3) Some by (simp add: H2_def)
  qed
  let ?H = "if tr_shape t \<noteq> ho_shape object
    then (write_shape_id h (tr_shape t) H2)\<lparr>oh_table := invalidate_if_prototype h (oh_table H2)\<rparr> else H2"
  have "apply_transition H h (ho_shape object) t = Inr ?H"
    using H1(1) o by (simp add: apply_transition_def resolve_object_def H2_def Let_def split: if_splits)
  moreover have "oh_objects ?H = (oh_objects H)(h \<mapsto> object\<lparr>ho_shape := tr_shape t, ho_slots := S\<rparr>)"
    using S(1) by (auto simp: write_shape_id_def fun_eq_iff)
  moreover have "oh_table ?H = (if tr_shape t \<noteq> ho_shape object then invalidate_if_prototype h (oh_table H) else oh_table H)"
    using S(2) by (simp add: write_shape_id_def)
  moreover have "unat (tr_slot_count t) \<le> length S" "length S < 2 ^ 32" using H1(4,5) S(3) by simp_all
  moreover have "written (case tr_abandoned t of None \<Rightarrow> {} | Some slots \<Rightarrow> range_of slots) (ho_slots object) S"
    by (rule written_trans [OF H1(6) S(4)]) simp
  ultimately show thesis by (rule that)
qed

definition prop_range :: "ShapeProp \<Rightarrow> nat set" where
  "prop_range p = range_of (sp_index p, slot_span p)"

lemma prop_range_slots:
  assumes "unat (sp_index p) + unat (slot_span p) < 2 ^ 32"
  shows "prop_range p = (if is_accessor p then {unat (sp_index p), unat (sp_index p + 1)} else {unat (sp_index p)})"
    and "is_accessor p \<Longrightarrow> unat (sp_index p + 1) = Suc (unat (sp_index p))"
proof -
  have span: "unat (slot_span p) = (if is_accessor p then 2 else 1)"
    by (simp add: slot_span_def slot_span_for_def is_accessor_def)
  have one: "is_accessor p \<Longrightarrow> unat (sp_index p + 1) = Suc (unat (sp_index p))"
    using assms span unat_add_lem [of "sp_index p" 1] by simp
  then show "is_accessor p \<Longrightarrow> unat (sp_index p + 1) = Suc (unat (sp_index p))" .
  show "prop_range p = (if is_accessor p then {unat (sp_index p), unat (sp_index p + 1)} else {unat (sp_index p)})"
    using one span by (auto simp: prop_range_def range_of_def)
qed

lemma read_prop_written:
  \<comment> \<open>a property reads the same when its slots were not written\<close>
  assumes "written A (ho_slots object) S" "prop_range p \<inter> A = {}" "unat (sp_index p) + unat (slot_span p) \<le> length (ho_slots object)"
    "length (ho_slots object) < 2 ^ 32"
  shows "read_prop (object\<lparr>ho_shape := t, ho_slots := S\<rparr>) p = read_prop object p"
proof -
  have small: "unat (sp_index p) + unat (slot_span p) < 2 ^ 32" using assms(3,4) by simp
  have same: "S ! j = ho_slots object ! j" if "j \<in> prop_range p" for j
  proof -
    have "j < length (ho_slots object)" "j \<notin> A" using assms(2,3) that by (auto simp: prop_range_def range_of_def)
    then show ?thesis using assms(1) by (simp add: written_def)
  qed
  show ?thesis
    using same prop_range_slots(1) [OF small]
    by (auto simp: read_prop_def load_value_slot_def getter_index_def setter_index_def split: if_splits)
qed

lemma lookup_in_shape:
  assumes "table_ok T" "shape_lookup T x k = Some p"
  shows "p \<in> set (shape_props T x)" "sp_name p = k" "unat (sp_index p) + unat (slot_span p) \<le> unat (slot_count T x)"
proof -
  show "p \<in> set (shape_props T x)" "sp_name p = k"
    using assms shape_lookup_named [OF assms(1), of x k] named_Some [OF table_sound(2) [OF assms(1)]] by auto
  then show "unat (sp_index p) + unat (slot_span p) \<le> unat (slot_count T x)" using table_sound(3) [OF assms(1)] by blast
qed

lemma lookups_disjoint:
  assumes "table_ok T" "shape_lookup T x k = Some p" "shape_lookup T x l = Some q" "k \<noteq> l"
  shows "prop_range p \<inter> prop_range q = {}"
proof -
  have "p \<noteq> q" using lookup_in_shape(2) [OF assms(1,2)] lookup_in_shape(2) [OF assms(1,3)] assms(4) by auto
  then show ?thesis
    using table_sound(4) [OF assms(1) lookup_in_shape(1) [OF assms(1,2)] lookup_in_shape(1) [OF assms(1,3)]]
    by (simp add: prop_range_def range_of_def)
qed

definition transition_writes :: "ShapeTransition \<Rightarrow> u32 \<Rightarrow> nat set" where
  \<comment> \<open>the slots a transition gives up and those the new property gets\<close>
  "transition_writes t flags =
     (case tr_abandoned t of None \<Rightarrow> {} | Some slots \<Rightarrow> range_of slots) \<union> range_of (tr_index t, slot_span_for flags)"

lemma transition_spares_others:
  assumes T: "table_ok T" and q: "shape_lookup T x l = Some q" "k \<noteq> l"
    and gone: "tr_abandoned t = Option.bind (shape_lookup T x k) (kind_change flags)"
    and index: "tr_index t = (case shape_lookup T x k of None \<Rightarrow> slot_count T x
       | Some old \<Rightarrow> if kind_change flags old = None then sp_index old else slot_count T x)"
  shows "prop_range q \<inter> transition_writes t flags = {}"
proof -
  have fresh: "prop_range q \<inter> range_of (slot_count T x, n) = {}" for n
    using lookup_in_shape(3) [OF T q(1)] by (auto simp: prop_range_def range_of_def)
  show ?thesis
  proof (cases "shape_lookup T x k")
    case None
    then show ?thesis using gone index fresh by (simp add: transition_writes_def)
  next
    case (Some old)
    have "prop_range old \<inter> prop_range q = {}" by (rule lookups_disjoint [OF T Some q])
    then show ?thesis using Some gone index fresh
      by (auto simp: transition_writes_def kind_change_def prop_range_def split: if_splits)
  qed
qed

definition property_of :: "u32 \<Rightarrow> u64 \<Rightarrow> u64 \<Rightarrow> u64 \<Rightarrow> HeapAccessV2Property" where
  \<comment> \<open>what is read back: a data property has a value, an accessor property a getter and a setter\<close>
  "property_of flags v getter setter =
     (if flags AND FLAG_IS_ACCESSOR \<noteq> 0
      then \<lparr>hp_flags = flags, hp_value = encode_undefined, hp_getter = strip_gc_color getter, hp_setter = strip_gc_color setter\<rparr>
      else \<lparr>hp_flags = flags, hp_value = strip_gc_color v, hp_getter = encode_undefined, hp_setter = encode_undefined\<rparr>)"

lemma plain_reads:
  assumes "plain H h object"
  shows "get_property_slot H h k = Inr (map_option (read_prop object) (shape_lookup (oh_table H) (ho_shape object) k))"
    and "own_property_slots H h = Inr (map (\<lambda>p. (sp_name p, sp_flags p)) (shape_props (oh_table H) (ho_shape object)))"
  using assms by (simp_all add: plain_def get_property_slot_def own_property_slots_def resolve_object_def)

lemma define_slot_result:
  assumes H: "heap_ok H" "plain H h object" "room (oh_table H) (ho_shape object)"
  obtains H' where "define_property_slot H h k flags v getter setter = Some (Inr H')" "heap_ok H'"
    "get_property_slot H' h k = Inr (Some (property_of flags v getter setter))"
    "\<forall>l. l \<noteq> k \<longrightarrow> get_property_slot H' h l = get_property_slot H h l"
    "map_sum id (map fst) (own_property_slots H' h) =
       map_sum id (\<lambda>ns. map fst ns @ (if k \<in> fst ` set ns then [] else [k])) (own_property_slots H h)"
    "\<forall>h'. h' \<noteq> h \<longrightarrow> get_property_slot H' h' = get_property_slot H h' \<and> own_property_slots H' h' = own_property_slots H h'"
proof -
  let ?T = "oh_table H" and ?x = "ho_shape object"
  have T: "table_ok ?T" and len: "length (ho_slots object) < 2 ^ 32" and kn: "known ?T ?x"
    and count: "unat (slot_count ?T ?x) \<le> length (ho_slots object)" using heap_okD [OF H(1,2)] by auto
  obtain T' t where t: "transition_add ?T ?x k flags = Some (T', t)" "table_ok T'" "keeps ?T T' (if is_dictionary ?T ?x then {?x} else {})"
    "known T' (tr_shape t)" "shape_lookup T' (tr_shape t) = (shape_lookup ?T ?x)(k \<mapsto> \<lparr>sp_name = k, sp_flags = flags, sp_index = tr_index t\<rparr>)"
    "map sp_name (shape_props T' (tr_shape t)) = map sp_name (shape_props ?T ?x) @ (if shape_lookup ?T ?x k = None then [k] else [])"
    "tr_slot_count t = slot_count T' (tr_shape t)" "tr_abandoned t = Option.bind (shape_lookup ?T ?x k) (kind_change flags)"
    "tr_index t = (case shape_lookup ?T ?x k of None \<Rightarrow> slot_count ?T ?x
       | Some old \<Rightarrow> if kind_change flags old = None then sp_index old else slot_count ?T ?x)"
    "if is_dictionary ?T ?x then tr_shape t = ?x \<and> is_dictionary T' ?x else is_dictionary T' (tr_shape t) \<longrightarrow> \<not> known ?T (tr_shape t)"
    by (rule transition_add_ok [OF T H(3) kn, of k flags])
  let ?p = "\<lparr>sp_name = k, sp_flags = flags, sp_index = tr_index t\<rparr>"
  have o: "oh_objects (H\<lparr>oh_table := T'\<rparr>) h = Some object" using H(2) by (simp add: plain_def)
  have gone: "unat (fst slots) + unat (snd slots) \<le> length (ho_slots object)" if "tr_abandoned t = Some slots" for slots
    using that t(8) lookup_in_shape(3) [OF T, of ?x k] count by (cases "shape_lookup ?T ?x k") (auto simp: kind_change_def split: if_splits)
  obtain H1 S where H1: "apply_transition (H\<lparr>oh_table := T'\<rparr>) h ?x t = Inr H1"
    "oh_objects H1 = (oh_objects (H\<lparr>oh_table := T'\<rparr>))(h \<mapsto> object\<lparr>ho_shape := tr_shape t, ho_slots := S\<rparr>)"
    "oh_table H1 = (if tr_shape t \<noteq> ?x then invalidate_if_prototype h (oh_table (H\<lparr>oh_table := T'\<rparr>)) else oh_table (H\<lparr>oh_table := T'\<rparr>))"
    "unat (tr_slot_count t) \<le> length S" "length S < 2 ^ 32"
    "written (case tr_abandoned t of None \<Rightarrow> {} | Some slots \<Rightarrow> range_of slots) (ho_slots object) S"
    by (rule apply_transition_result [where t = t, OF o len gone])
  have H1_objects: "oh_objects H1 = (oh_objects H)(h \<mapsto> object\<lparr>ho_shape := tr_shape t, ho_slots := S\<rparr>)"
    and H1_table: "st_shapes (oh_table H1) = st_shapes T'" using H1(2,3) by simp_all
  have p: "shape_lookup T' (tr_shape t) k = Some ?p" using t(5) by simp
  have prange: "unat (tr_index t) + unat (slot_span ?p) \<le> length S" using lookup_in_shape(3) [OF t(2) p] H1(4) t(7) by simp
  then have small: "unat (sp_index ?p) + unat (slot_span ?p) < 2 ^ 32" using H1(5) by simp
  define acc where "acc \<longleftrightarrow> flags AND FLAG_IS_ACCESSOR \<noteq> 0"
  have span: "unat (slot_span ?p) = (if acc then 2 else 1)" "slot_span ?p = slot_span_for flags" "is_accessor ?p = acc"
    by (simp_all add: slot_span_def slot_span_for_def acc_def is_accessor_def)
  have next_slot: "acc \<Longrightarrow> unat (tr_index t + 1) = Suc (unat (tr_index t))" using prop_range_slots(2) [OF small] span(3) by simp
  define S' where "S' = (if acc then S[unat (tr_index t) := getter, unat (tr_index t + 1) := setter] else S[unat (tr_index t) := v])"
  have S': "length S' = length S" by (simp add: S'_def)
  have w: "written (range_of (tr_index t, slot_span_for flags)) S S'"
    using prop_range_slots(1) [OF small] span by (auto simp: S'_def written_def prop_range_def)
  then have written: "written (transition_writes t flags) (ho_slots object) S'"
    by (rule written_trans [OF H1(6)]) (simp add: transition_writes_def)
  define H' where "H' = (if acc then store_value_slot h (tr_index t + 1) setter (store_value_slot h (tr_index t) getter H1)
    else store_value_slot h (tr_index t) v H1)"
  have run: "define_property_slot H h k flags v getter setter = Some (Inr H')"
    using H(2) t(1) H1(1) by (simp add: define_property_slot_def resolve_object_def plain_def H'_def acc_def)
  have H': "oh_objects H' = (oh_objects H)(h \<mapsto> object\<lparr>ho_shape := tr_shape t, ho_slots := S'\<rparr>)" "st_shapes (oh_table H') = st_shapes T'"
    using H1_objects H1_table by (auto simp: H'_def S'_def store_value_slot_def)
  have r: "reshape ?T T' ?x (tr_shape t)" using t(2-4,10) by (auto simp: reshape_def split: if_splits)
  have slots: "length S' < 2 ^ 32" "unat (slot_count T' (tr_shape t)) \<le> length S'" using H1(4,5) S' t(7) by simp_all
  note new = heap_reshape [OF H(1,2) r H' slots]
  let ?o = "object\<lparr>ho_shape := tr_shape t, ho_slots := S'\<rparr>"
  note reads = plain_reads [OF new(2)] and table = same_shapes [OF H'(2)]
  have "read_prop ?o ?p = property_of flags v getter setter"
    using prange next_slot S' span
    by (cases acc) (simp_all add: read_prop_def property_of_def acc_def [symmetric] load_value_slot_def getter_index_def setter_index_def S'_def)
  then have here: "get_property_slot H' h k = Inr (Some (property_of flags v getter setter))"
    using reads(1) p table by simp
  have there: "get_property_slot H' h l = get_property_slot H h l" if "l \<noteq> k" for l
  proof (cases "shape_lookup ?T ?x l")
    case None
    then show ?thesis using reads(1) plain_reads(1) [OF H(2)] t(5) that table by simp
  next
    case (Some q)
    have "prop_range q \<inter> transition_writes t flags = {}"
      by (rule transition_spares_others [OF T Some _ t(8,9)]) (use that in simp)
    then have "read_prop ?o q = read_prop object q"
      by (rule read_prop_written [OF written _ _ len]) (use lookup_in_shape(3) [OF T Some] count in simp)
    then show ?thesis using reads(1) plain_reads(1) [OF H(2)] t(5) that table Some by simp
  qed
  have "k \<in> sp_name ` set (shape_props ?T ?x) \<longleftrightarrow> shape_lookup ?T ?x k \<noteq> None"
    using shape_lookup_named [OF T, of ?x k] named_None [of "shape_props ?T ?x" k] by simp
  then have "map_sum id (map fst) (own_property_slots H' h) =
       map_sum id (\<lambda>ns. map fst ns @ (if k \<in> fst ` set ns then [] else [k])) (own_property_slots H h)"
    using reads(2) plain_reads(2) [OF H(2)] t(6) table by (simp add: o_def image_image)
  then show thesis using that [OF run new(1) here] there new(3,4) by blast
qed

lemma delete_result:
  assumes H: "heap_ok H" "plain H h object" "length (st_shapes (oh_table H)) < 2 ^ 32"
  obtains H' where "delete_property H h k = Inr H'" "heap_ok H'" "get_property_slot H' h k = Inr None"
    "\<forall>l. l \<noteq> k \<longrightarrow> get_property_slot H' h l = get_property_slot H h l"
    "map_sum id (map fst) (own_property_slots H' h) = map_sum id (\<lambda>ns. filter (\<lambda>n. n \<noteq> k) (map fst ns)) (own_property_slots H h)"
    "\<forall>h'. h' \<noteq> h \<longrightarrow> get_property_slot H' h' = get_property_slot H h' \<and> own_property_slots H' h' = own_property_slots H h'"
proof -
  let ?T = "oh_table H" and ?x = "ho_shape object"
  have T: "table_ok ?T" and len: "length (ho_slots object) < 2 ^ 32" and kn: "known ?T ?x"
    and count: "unat (slot_count ?T ?x) \<le> length (ho_slots object)" using heap_okD [OF H(1,2)] by auto
  have o: "oh_objects H h = Some object" "\<not> ho_is_array object" using H(2) by (simp_all add: plain_def)
  obtain T' r where r: "remove_prop ?T ?x k = (T', r)" by (metis surj_pair)
  note ok = remove_prop_ok [OF T H(3) kn r]
  show thesis
  proof (cases "shape_lookup ?T ?x k")
    case None
    then have k: "r = None" "keeps ?T T' {}" using ok(3) by simp_all
    let ?H = "H\<lparr>oh_table := T'\<rparr>"
    have run: "delete_property H h k = Inr ?H" using o r k(1) by (simp add: delete_property_def resolve_object_def)
    note same = keeps_known [OF k(2) _ kn [unfolded known_def], simplified]
    have r': "reshape ?T T' ?x ?x"
      using ok(1,2) keepsD [OF k(2)] kn same(3) by (auto simp: reshape_def known_def)
    have H': "oh_objects ?H = (oh_objects H)(h \<mapsto> object\<lparr>ho_shape := ?x, ho_slots := ho_slots object\<rparr>)" "st_shapes (oh_table ?H) = st_shapes T'"
      using o(1) by (auto simp: fun_eq_iff)
    note new = heap_reshape [OF H(1,2) r' H' len] 
    have cnt: "unat (slot_count T' ?x) \<le> length (ho_slots object)" using count same(2) by simp
    have lookup: "shape_lookup T' ?x = shape_lookup ?T ?x"
      by (rule ext) (simp add: shape_lookup_named [OF T] shape_lookup_named [OF ok(1)] same(1))
    have p: "plain ?H h object" using H(2) by (simp add: plain_def)
    have names: "k \<notin> sp_name ` set (shape_props ?T ?x)"
      using None shape_lookup_named [OF T, of ?x k] named_None [of "shape_props ?T ?x" k] by simp
    have "filter (\<lambda>n. n \<noteq> k) (map sp_name (shape_props ?T ?x)) = map sp_name (shape_props ?T ?x)"
      using names by (intro filter_True) auto
    then show thesis
      using that [OF run new(1) [OF cnt]] new(3,4) [OF cnt] plain_reads [OF p] plain_reads [OF H(2)] lookup same(1) None
      by (simp add: o_def)
  next
    case (Some p)
    then obtain d where d: "r = Some (d, sp_index p, slot_span p)" "shape_lookup T' d = (shape_lookup ?T ?x)(k := None)"
      "is_dictionary T' d" "slot_count T' d = slot_count ?T ?x" "known T' d"
      "map sp_name (shape_props T' d) = filter (\<lambda>n. n \<noteq> k) (map sp_name (shape_props ?T ?x))"
      "if is_dictionary ?T ?x then d = ?x else \<not> known ?T d"
      using ok(3) by auto
    define H0 where "H0 = (write_shape_id h d H)\<lparr>oh_table := invalidate_if_prototype h T'\<rparr>"
    have o0: "oh_objects H0 h = Some (object\<lparr>ho_shape := d\<rparr>)" using o(1) by (simp add: H0_def write_shape_id_def)
    have pin: "unat (sp_index p) + unat (slot_span p) \<le> length (ho_slots object)"
      using lookup_in_shape(3) [OF T Some] count by simp
    obtain S where S: "oh_objects (clear_slots h (sp_index p, slot_span p) H0) = (oh_objects H0)(h \<mapsto> (object\<lparr>ho_shape := d\<rparr>)\<lparr>ho_slots := S\<rparr>)"
      "oh_table (clear_slots h (sp_index p, slot_span p) H0) = oh_table H0" "length S = length (ho_slots (object\<lparr>ho_shape := d\<rparr>))"
      "written (range_of (sp_index p, slot_span p)) (ho_slots (object\<lparr>ho_shape := d\<rparr>)) S"
      by (rule clear_slots_result [OF o0, where slots = "(sp_index p, slot_span p)"]) (use pin len in simp_all)
    let ?H = "clear_slots h (sp_index p, slot_span p) H0"
    have run: "delete_property H h k = Inr ?H" using o r d(1) by (simp add: delete_property_def resolve_object_def H0_def)
    have w: "written (prop_range p) (ho_slots object) S" and len': "length S < 2 ^ 32" "unat (slot_count T' d) \<le> length S"
      using S(3,4) len count d(4) by (simp_all add: prop_range_def)
    have H': "oh_objects ?H = (oh_objects H)(h \<mapsto> object\<lparr>ho_shape := d, ho_slots := S\<rparr>)" "st_shapes (oh_table ?H) = st_shapes T'"
      using S(1,2) by (auto simp: H0_def write_shape_id_def)
    have r': "reshape ?T T' ?x d" using ok(1,2) d(5,7) by (auto simp: reshape_def)
    note new = heap_reshape [OF H(1,2) r' H' len']
    note reads = plain_reads [OF new(2)] and table = same_shapes [OF H'(2)]
    have gone: "get_property_slot ?H h k = Inr None" using reads(1) table d(2) by simp
    have there: "get_property_slot ?H h l = get_property_slot H h l" if "l \<noteq> k" for l
    proof (cases "shape_lookup ?T ?x l")
      case None
      then show ?thesis using reads(1) plain_reads(1) [OF H(2)] d(2) that table by simp
    next
      case (Some q)
      have "prop_range q \<inter> prop_range p = {}" using lookups_disjoint [OF T Some \<open>shape_lookup ?T ?x k = Some p\<close>] that by simp
      then have "read_prop (object\<lparr>ho_shape := d, ho_slots := S\<rparr>) q = read_prop object q"
        by (rule read_prop_written [OF w _ _ len]) (use lookup_in_shape(3) [OF T Some] count in simp)
      then show ?thesis using reads(1) plain_reads(1) [OF H(2)] d(2) that table Some by simp
    qed
    show thesis
      using that [OF run new(1) gone] there new(3,4) reads(2) plain_reads(2) [OF H(2)] d(6) table by (simp add: o_def)
  qed
qed

end
