(* ===== verification/Heap_Steps.thy ===== *)
theory Heap_Steps
  imports Object_Heap_Correct
begin

text \<open>
  The steps of the object heap: allocation, the property operations, stores, changes of the prototype
  and of the type, and the retirement of objects nothing refers to. Every reachable heap is well formed
  (\<open>reachable_heap_ok\<close>), and as long as the generation of the table stays the same, so do the shapes and
  prototypes of all prototypes (\<open>steps_effect\<close>).
\<close>

section \<open>Steps\<close>

definition heap_new :: object_heap where
  "heap_new = \<lparr>oh_table = shape_table_new, oh_objects = Map.empty\<rparr>"

definition valid_prototype :: "object_heap \<Rightarrow> u32 \<Rightarrow> bool" where
  "valid_prototype H p \<longleftrightarrow> p = PROTO_NULL_SENTINEL \<or> proto_slot_is_exotic p \<or> oh_objects H p \<noteq> None"

definition has_room :: "object_heap \<Rightarrow> u32 \<Rightarrow> bool" where
  "has_room H h \<longleftrightarrow> (\<forall>object. oh_objects H h = Some object \<longrightarrow> room (oh_table H) (ho_shape object))"

definition baked_shape :: "object_heap \<Rightarrow> u32 \<Rightarrow> u64 list \<Rightarrow> bool" where
  "baked_shape H t slots \<longleftrightarrow> known (oh_table H) t \<and> \<not> is_dictionary (oh_table H) t \<and> unat (slot_count (oh_table H) t) \<le> length slots"

definition retire :: "u32 set \<Rightarrow> object_heap \<Rightarrow> object_heap" where
  "retire D H = H\<lparr>oh_objects := (oh_objects H) |` (- D)\<rparr>"

inductive heap_step :: "object_heap \<Rightarrow> object_heap \<Rightarrow> bool" where
  heap_allocate: "oh_objects H h = None \<Longrightarrow> valid_prototype H p \<Longrightarrow> length slots < 2 ^ 32 \<Longrightarrow>
    set_prototype (publish_object h PROTO_NULL_SENTINEL slots H) h p = Inr H' \<Longrightarrow> heap_step H H'"
| heap_array: "oh_objects H h = None \<Longrightarrow> valid_prototype H p \<Longrightarrow>
    set_prototype (publish_array h PROTO_NULL_SENTINEL slots H) h p = Inr H' \<Longrightarrow> heap_step H H'"
| heap_literal: "oh_objects H h = None \<Longrightarrow> valid_prototype H p \<Longrightarrow> length slots < 2 ^ 32 \<Longrightarrow> baked_shape H t slots \<Longrightarrow>
    set_prototype (publish_object h PROTO_NULL_SENTINEL slots H) h p = Inr H1 \<Longrightarrow>
    write_baked_object_literal_properties H1 h t props = Inr H' \<Longrightarrow> heap_step H H'"
| heap_prototype: "valid_prototype H p \<Longrightarrow> set_prototype H h p = Inr H' \<Longrightarrow> heap_step H H'"
| heap_type: "\<forall>object. oh_objects H h = Some object \<longrightarrow> \<not> ho_is_array object \<Longrightarrow> ty \<noteq> HEAP_TYPE_ARRAY \<Longrightarrow>
    set_object_type H h ty = Inr H' \<Longrightarrow> heap_step H H'"
| heap_store: "heap_step H (store_value_slot h index v H)"
| heap_define: "has_room H h \<Longrightarrow> define_property_slot H h k flags v getter setter = Some (Inr H') \<Longrightarrow> heap_step H H'"
| heap_set: "has_room H h \<Longrightarrow> set_property H h k v = Some (Inr H') \<Longrightarrow> heap_step H H'"
| heap_flags: "has_room H h \<Longrightarrow> update_property_flags H h k flags = Some (Inr H') \<Longrightarrow> heap_step H H'"
| heap_delete: "has_room H h \<Longrightarrow> delete_property H h k = Inr H' \<Longrightarrow> heap_step H H'"
| heap_retire: "(\<forall>h object. oh_objects H h = Some object \<longrightarrow> h \<notin> D \<longrightarrow> ho_prototype object \<notin> D) \<Longrightarrow> heap_step H (retire D H)"

section \<open>What an operation does to other objects\<close>

definition alike :: "heap_object \<Rightarrow> heap_object \<Rightarrow> bool" where
  "alike object object' \<longleftrightarrow> ho_is_array object' = ho_is_array object \<and> ho_prototype object' = ho_prototype object \<and> ho_shape object' = ho_shape object"

lemma alike_simps [simp]: "alike object object" "alike object (object\<lparr>ho_slots := S\<rparr>)"
  by (simp_all add: alike_def)

definition reslot :: "u32 \<Rightarrow> object_heap \<Rightarrow> object_heap \<Rightarrow> bool" where
  \<comment> \<open>slots of the object were written\<close>
  "reslot h H H' \<longleftrightarrow> oh_table H' = oh_table H \<and> (\<forall>g. g \<noteq> h \<longrightarrow> oh_objects H' g = oh_objects H g) \<and>
     rel_option alike (oh_objects H h) (oh_objects H' h)"

lemma reslot_refl [simp]: "reslot h H H"
  by (cases "oh_objects H h") (simp_all add: reslot_def)

lemma alike_trans: "alike a b \<Longrightarrow> alike b c \<Longrightarrow> alike a c"
  by (simp add: alike_def)

lemma reslot_trans: "reslot h H H1 \<Longrightarrow> reslot h H1 H2 \<Longrightarrow> reslot h H H2"
  unfolding reslot_def
  by (cases "oh_objects H h"; cases "oh_objects H1 h"; cases "oh_objects H2 h") (auto intro: alike_trans)

lemma reslot_store: "reslot h H (store_value_slot h index v H)"
  by (cases "oh_objects H h") (simp_all add: reslot_def store_value_slot_def)

lemma reslot_fold: "(\<And>x H. reslot h H (f x H)) \<Longrightarrow> reslot h H (fold f xs H)"
  by (induction xs arbitrary: H) (auto intro: reslot_trans)

lemma reslot_clear: "reslot h H (clear_slots h slots H)"
  by (cases slots) (auto simp: clear_slots_def intro: reslot_fold reslot_store)

lemma reslot_grow: "grow_value_capacity H h needed = Inr H' \<Longrightarrow> reslot h H H'"
  by (cases "oh_objects H h") (auto simp: grow_value_capacity_def resolve_object_def reslot_def Let_def split: if_splits)

definition moved :: "u32 \<Rightarrow> object_heap \<Rightarrow> object_heap \<Rightarrow> bool" where
  \<comment> \<open>the object may have another shape, and if it is a prototype, the generation tells\<close>
  "moved h H H' \<longleftrightarrow> table_step\<^sup>*\<^sup>* (oh_table H) (oh_table H') \<and> st_prototypes (oh_table H') = st_prototypes (oh_table H) \<and>
     (\<forall>g. g \<noteq> h \<longrightarrow> oh_objects H' g = oh_objects H g) \<and>
     rel_option (\<lambda>object object'. ho_is_array object' = ho_is_array object \<and> ho_prototype object' = ho_prototype object \<and>
       (ho_shape object' = ho_shape object \<and> st_generation (oh_table H') = st_generation (oh_table H) \<or>
        st_generation (oh_table H') = st_generation (oh_table H) + (if h \<in> st_prototypes (oh_table H) then 1 else 0)))
       (oh_objects H h) (oh_objects H' h) \<and>
     (oh_objects H h = None \<longrightarrow> st_generation (oh_table H') = st_generation (oh_table H))"

lemma moved_reslot: "moved h H H1 \<Longrightarrow> reslot h H1 H2 \<Longrightarrow> moved h H H2"
  unfolding moved_def reslot_def
  by (cases "oh_objects H h"; cases "oh_objects H1 h"; cases "oh_objects H2 h") (auto simp: alike_def)

lemma reslot_moved: "reslot h H H' \<Longrightarrow> moved h H H'"
  unfolding moved_def reslot_def by (cases "oh_objects H h"; cases "oh_objects H' h") (auto simp: alike_def)

lemma transition_in_dictionary_rest:
  "transition_in_dictionary T x k f = (T', t) \<Longrightarrow> st_prototypes T' = st_prototypes T \<and> st_generation T' = st_generation T"
  by (auto simp: transition_in_dictionary_def split: prod.splits)

lemma ensure_dictionary_rest:
  "ensure_dictionary T x = (T', d) \<Longrightarrow> st_prototypes T' = st_prototypes T \<and> st_generation T' = st_generation T"
  by (auto simp: ensure_dictionary_def Let_def split: option.splits if_splits)

lemma transition_from_rest:
  assumes "transition_from T x s k f = Some (T', t)"
  shows "st_prototypes T' = st_prototypes T \<and> st_generation T' = st_generation T"
proof -
  have new: "new_transition T x s k f = (T1, t1) \<Longrightarrow> st_prototypes T1 = st_prototypes T \<and> st_generation T1 = st_generation T" for T1 t1
    by (auto simp: new_transition_def Let_def split: prod.splits)
  show ?thesis
    using assms new transition_in_dictionary_rest ensure_dictionary_rest
    by (auto simp: transition_from_def split: if_splits option.splits prod.splits)
qed

lemma transition_add_rest:
  "transition_add T x k f = Some (T', t) \<Longrightarrow> st_prototypes T' = st_prototypes T \<and> st_generation T' = st_generation T"
  by (auto simp: transition_add_def dest: transition_from_rest split: option.splits)

lemma apply_transition_moved:
  assumes o: "oh_objects H h = Some object"
    and T: "table_step\<^sup>*\<^sup>* (oh_table H) T'" "st_prototypes T' = st_prototypes (oh_table H)" "st_generation T' = st_generation (oh_table H)"
    and a: "apply_transition (H\<lparr>oh_table := T'\<rparr>) h (ho_shape object) t = Inr H'"
  shows "moved h H H'"
proof -
  let ?H = "H\<lparr>oh_table := T'\<rparr>"
  obtain object' where o': "oh_objects ?H h = Some object'" "object' = object" using o by simp
  obtain H1 where H1: "reslot h ?H H1" "apply_transition ?H h (ho_shape object) t =
      (let H2 = (case tr_abandoned t of None \<Rightarrow> H1 | Some slots \<Rightarrow> clear_slots h slots H1)
       in Inr (if tr_shape t \<noteq> ho_shape object
               then (write_shape_id h (tr_shape t) H2)\<lparr>oh_table := invalidate_if_prototype h (oh_table H2)\<rparr> else H2))"
  proof (cases "length (ho_slots object) < unat (tr_slot_count t)")
    case True
    then obtain H1 where "grow_value_capacity ?H h (tr_slot_count t) = Inr H1"
      using a o by (cases "grow_value_capacity ?H h (tr_slot_count t)") (auto simp: apply_transition_def resolve_object_def)
    then show thesis using that [of H1] reslot_grow True o by (simp add: apply_transition_def resolve_object_def)
  next
    case False
    then show thesis using that [of ?H] o by (simp add: apply_transition_def resolve_object_def)
  qed
  define H2 where "H2 = (case tr_abandoned t of None \<Rightarrow> H1 | Some slots \<Rightarrow> clear_slots h slots H1)"
  have "reslot h H1 H2" unfolding H2_def by (cases "tr_abandoned t") (simp_all add: reslot_clear)
  then have H2: "reslot h ?H H2" using H1(1) reslot_trans by blast
  then obtain object2 where o2: "oh_objects H2 h = Some object2" "alike object object2"
    using o by (cases "oh_objects H2 h") (auto simp: reslot_def)
  have H': "H' = (if tr_shape t \<noteq> ho_shape object
      then (write_shape_id h (tr_shape t) H2)\<lparr>oh_table := invalidate_if_prototype h (oh_table H2)\<rparr> else H2)"
    using a H1(2) by (auto simp: H2_def Let_def split: if_splits)
  have inv: "table_step\<^sup>*\<^sup>* (oh_table H) (invalidate_if_prototype h T')"
    using T(1) step_invalidate by (rule rtranclp.rtrancl_into_rtrancl)
  show ?thesis
    using H2 o o2 T inv H' unfolding moved_def reslot_def alike_def
    by (auto simp: write_shape_id_def invalidate_if_prototype_def)
qed

lemma define_moved:
  assumes r: "has_room H h" and d: "define_property_slot H h k flags v getter setter = Some (Inr H')"
  shows "moved h H H'"
proof -
  obtain object where o: "oh_objects H h = Some object" "\<not> ho_is_array object"
    using d by (cases "oh_objects H h") (auto simp: define_property_slot_def resolve_object_def split: if_splits)
  obtain T' t where t: "transition_add (oh_table H) (ho_shape object) k flags = Some (T', t)"
    using d o by (cases "transition_add (oh_table H) (ho_shape object) k flags") (auto simp: define_property_slot_def resolve_object_def)
  obtain H1 where H1: "apply_transition (H\<lparr>oh_table := T'\<rparr>) h (ho_shape object) t = Inr H1"
    using d o t by (cases "apply_transition (H\<lparr>oh_table := T'\<rparr>) h (ho_shape object) t") (auto simp: define_property_slot_def resolve_object_def)
  have "table_step (oh_table H) T'" using step_add [OF t] r o by (simp add: has_room_def)
  then have m: "moved h H H1" using apply_transition_moved [OF o(1) _ _ _ H1] transition_add_rest [OF t] by blast
  have "H' = (if flags AND FLAG_IS_ACCESSOR \<noteq> 0
      then store_value_slot h (tr_index t + 1) setter (store_value_slot h (tr_index t) getter H1)
      else store_value_slot h (tr_index t) v H1)"
    using d o t H1 by (simp add: define_property_slot_def resolve_object_def split: if_splits)
  then have "reslot h H1 H'" using reslot_store reslot_trans by (cases "flags AND FLAG_IS_ACCESSOR \<noteq> 0") (simp_all, blast)
  then show ?thesis using m moved_reslot by blast
qed

lemma set_moved:
  assumes "has_room H h" "set_property H h k v = Some (Inr H')"
  shows "moved h H H'"
  using assms define_moved reslot_moved [OF reslot_store]
  by (auto simp: set_property_def split: sum.splits if_splits option.splits)

lemma flags_moved:
  assumes r: "has_room H h" and f: "update_property_flags H h k flags = Some (Inr H')"
  shows "moved h H H'"
proof -
  obtain object where o: "oh_objects H h = Some object"
    using f by (cases "oh_objects H h") (auto simp: update_property_flags_def resolve_object_def)
  show ?thesis
  proof (cases "ho_is_array object")
    case True
    then show ?thesis using f o reslot_moved [of h H H] by (simp add: update_property_flags_def resolve_object_def)
  next
    case False
    then obtain T' r where t: "update_flags (oh_table H) (ho_shape object) k flags = Some (T', r)"
      using f o by (auto simp: update_property_flags_def resolve_object_def)
    have st: "table_step (oh_table H) T'" using step_flags [OF t] \<open>has_room H h\<close> o by (simp add: has_room_def)
    have rest: "st_prototypes T' = st_prototypes (oh_table H)" "st_generation T' = st_generation (oh_table H)"
      using t transition_add_rest by (auto simp: update_flags_def split: option.splits)
    show ?thesis
    proof (cases r)
      case None
      then have "H' = H\<lparr>oh_table := T'\<rparr>" using f o False t by (simp add: update_property_flags_def resolve_object_def)
      then show ?thesis using st rest o by (simp add: moved_def)
    next
      case (Some u)
      then have "apply_transition (H\<lparr>oh_table := T'\<rparr>) h (ho_shape object) u = Inr H'"
        using f o False t by (simp add: update_property_flags_def resolve_object_def)
      then show ?thesis using apply_transition_moved [OF o _ rest] st by blast
    qed
  qed
qed

lemma remove_prop_rest:
  "remove_prop T x k = (T', r) \<Longrightarrow> st_prototypes T' = st_prototypes T \<and> st_generation T' = st_generation T"
  by (auto simp: remove_prop_def Let_def split: prod.splits option.splits dest: ensure_dictionary_rest)

lemma delete_moved:
  assumes r: "has_room H h" and d: "delete_property H h k = Inr H'"
  shows "moved h H H'"
proof -
  obtain object where o: "oh_objects H h = Some object" "\<not> ho_is_array object"
    using d by (cases "oh_objects H h") (auto simp: delete_property_def resolve_object_def split: if_splits)
  obtain T' q where t: "remove_prop (oh_table H) (ho_shape object) k = (T', q)" by (metis surj_pair)
  have st: "table_step (oh_table H) T'" using step_remove [OF t] r o by (simp add: has_room_def)
  note rest = remove_prop_rest [OF t]
  show ?thesis
  proof (cases q)
    case None
    then have "H' = H\<lparr>oh_table := T'\<rparr>" using d o t by (simp add: delete_property_def resolve_object_def)
    then show ?thesis using st rest o by (simp add: moved_def)
  next
    case (Some u)
    obtain dictionary_id slots where u: "u = (dictionary_id, slots)" by (cases u)
    let ?H = "(write_shape_id h dictionary_id H)\<lparr>oh_table := invalidate_if_prototype h T'\<rparr>"
    have H': "H' = clear_slots h slots ?H" using d o t Some u by (simp add: delete_property_def resolve_object_def)
    have "table_step\<^sup>*\<^sup>* (oh_table H) (invalidate_if_prototype h T')" using st step_invalidate by (meson converse_rtranclp_into_rtranclp r_into_rtranclp)
    then have "moved h H ?H" using o rest by (simp add: moved_def write_shape_id_def ho_is_array_def invalidate_if_prototype_def)
    then show ?thesis unfolding H' using moved_reslot reslot_clear by blast
  qed
qed

section \<open>Effects of steps\<close>

definition stable_prototypes :: "object_heap \<Rightarrow> object_heap \<Rightarrow> bool" where
  \<comment> \<open>a prototype that is there was there before, with the same shape and prototype\<close>
  "stable_prototypes H H' \<longleftrightarrow> (\<forall>c\<in>st_prototypes (oh_table H). \<forall>object'. oh_objects H' c = Some object' \<longrightarrow>
     (\<exists>object. oh_objects H c = Some object \<and> alike object object'))"

definition effect :: "nat \<Rightarrow> object_heap \<Rightarrow> object_heap \<Rightarrow> bool" where
  "effect n H H' \<longleftrightarrow> table_step\<^sup>*\<^sup>* (oh_table H) (oh_table H') \<and> st_prototypes (oh_table H) \<subseteq> st_prototypes (oh_table H') \<and>
     (\<exists>m\<le>n. st_generation (oh_table H') = st_generation (oh_table H) + of_nat m \<and> (m = 0 \<longrightarrow> stable_prototypes H H'))"

definition closed :: "object_heap \<Rightarrow> bool" where
  "closed H \<longleftrightarrow> (\<forall>h object. oh_objects H h = Some object \<longrightarrow> valid_prototype H (ho_prototype object) \<and>
     (ho_prototype object \<noteq> PROTO_NULL_SENTINEL \<longrightarrow> ho_prototype object \<in> st_prototypes (oh_table H)))"

lemma closedD:
  assumes "closed H" "oh_objects H h = Some object"
  shows "valid_prototype H (ho_prototype object)" "ho_prototype object \<noteq> PROTO_NULL_SENTINEL \<Longrightarrow> ho_prototype object \<in> st_prototypes (oh_table H)"
  using assms by (auto simp: closed_def)

lemma stable_trans: "stable_prototypes H H1 \<Longrightarrow> stable_prototypes H1 H2 \<Longrightarrow> st_prototypes (oh_table H) \<subseteq> st_prototypes (oh_table H1) \<Longrightarrow> stable_prototypes H H2"
  unfolding stable_prototypes_def by (meson alike_trans subsetD)

lemma effect_trans:
  assumes "effect n H H1" "effect m H1 H2"
  shows "effect (n + m) H H2"
proof -
  obtain i j where ij: "i \<le> n" "st_generation (oh_table H1) = st_generation (oh_table H) + of_nat i" "i = 0 \<longrightarrow> stable_prototypes H H1"
    "j \<le> m" "st_generation (oh_table H2) = st_generation (oh_table H1) + of_nat j" "j = 0 \<longrightarrow> stable_prototypes H1 H2"
    using assms by (auto simp: effect_def)
  have sub: "st_prototypes (oh_table H) \<subseteq> st_prototypes (oh_table H1)" "st_prototypes (oh_table H1) \<subseteq> st_prototypes (oh_table H2)"
    and T: "table_step\<^sup>*\<^sup>* (oh_table H) (oh_table H2)" using assms by (auto simp: effect_def)
  have "\<exists>m'\<le>n + m. st_generation (oh_table H2) = st_generation (oh_table H) + of_nat m' \<and> (m' = 0 \<longrightarrow> stable_prototypes H H2)"
    using ij stable_trans [OF _ _ sub(1)] by (intro exI [of _ "i + j"]) (simp add: add.assoc)
  then show ?thesis using sub T by (auto simp: effect_def)
qed

lemma moved_effect:
  assumes "moved h H H'"
  shows "effect 1 H H'"
proof -
  let ?p = "h \<in> st_prototypes (oh_table H)"
  have base: "table_step\<^sup>*\<^sup>* (oh_table H) (oh_table H')" "st_prototypes (oh_table H') = st_prototypes (oh_table H)"
    and same: "\<And>g. g \<noteq> h \<Longrightarrow> oh_objects H' g = oh_objects H g"
    using assms by (auto simp: moved_def)
  have "\<exists>m\<le>1. st_generation (oh_table H') = st_generation (oh_table H) + of_nat m \<and> (m = 0 \<longrightarrow> stable_prototypes H H')"
  proof (cases "st_generation (oh_table H') = st_generation (oh_table H)")
    case True
    have "stable_prototypes H H'" unfolding stable_prototypes_def
    proof (intro ballI allI impI)
      fix c object' assume c: "c \<in> st_prototypes (oh_table H)" "oh_objects H' c = Some object'"
      show "\<exists>object. oh_objects H c = Some object \<and> alike object object'"
      proof (cases "c = h")
        case True
        then show ?thesis using assms c \<open>st_generation (oh_table H') = st_generation (oh_table H)\<close>
          by (auto simp: moved_def alike_def option_rel_Some2)
      next
        case False
        then show ?thesis using same c by simp
      qed
    qed
    then show ?thesis using True by (intro exI [of _ 0]) simp
  next
    case False
    then have "st_generation (oh_table H') = st_generation (oh_table H) + 1"
      using assms by (auto simp: moved_def rel_option_iff split: option.splits if_splits)
    then show ?thesis by (intro exI [of _ 1]) simp
  qed
  then show ?thesis using base by (simp add: effect_def)
qed

lemma bound_effect:
  \<comment> \<open>an object gets its prototype\<close>
  assumes "oh_table H' = invalidate_if_prototype h (note_prototype p (oh_table H))" "\<And>g. g \<noteq> h \<Longrightarrow> oh_objects H' g = oh_objects H g"
  shows "effect 1 H H'"
proof -
  have T: "table_step\<^sup>*\<^sup>* (oh_table H) (oh_table H')"
    unfolding assms(1) using step_prototype step_invalidate by (meson converse_rtranclp_into_rtranclp r_into_rtranclp)
  have "\<exists>m\<le>1. st_generation (oh_table H') = st_generation (oh_table H) + of_nat m \<and> (m = 0 \<longrightarrow> stable_prototypes H H')"
  proof (cases "h \<in> st_prototypes (note_prototype p (oh_table H))")
    case True
    then show ?thesis unfolding assms(1)
      by (intro exI [of _ 1]) (simp add: invalidate_if_prototype_def note_prototype_def)
  next
    case False
    then have "h \<notin> st_prototypes (oh_table H)" by (auto simp: note_prototype_def split: if_splits)
    then have "stable_prototypes H H'" unfolding stable_prototypes_def by (metis alike_simps(1) assms(2))
    then show ?thesis using False unfolding assms(1)
      by (intro exI [of _ 0]) (simp add: invalidate_if_prototype_def note_prototype_def)
  qed
  then show ?thesis using T unfolding assms(1) effect_def by (auto simp: invalidate_if_prototype_def note_prototype_def)
qed

lemma set_prototype_result:
  assumes "set_prototype H h p = Inr H'"
  obtains object where "oh_objects H h = Some object"
    "H' = \<lparr>oh_table = invalidate_if_prototype h (note_prototype p (oh_table H)), oh_objects = (oh_objects H)(h \<mapsto> object\<lparr>ho_prototype := p\<rparr>)\<rparr>"
  using assms by (cases "oh_objects H h") (auto simp: set_prototype_def resolve_object_def update_object_def)

lemma publish_simps [simp]:
  "publish_object h PROTO_NULL_SENTINEL slots H = H\<lparr>oh_objects := (oh_objects H)(h \<mapsto>
     \<lparr>ho_type = HEAP_TYPE_OBJECT, ho_prototype = PROTO_NULL_SENTINEL, ho_shape = SHAPE_ID_EMPTY, ho_slots = slots\<rparr>)\<rparr>"
  "publish_array h PROTO_NULL_SENTINEL slots H = H\<lparr>oh_objects := (oh_objects H)(h \<mapsto>
     \<lparr>ho_type = HEAP_TYPE_ARRAY, ho_prototype = PROTO_NULL_SENTINEL, ho_shape = SHAPE_ID_EMPTY, ho_slots = slots\<rparr>)\<rparr>"
  by (simp_all add: publish_object_def publish_array_def note_prototype_def update_object_def)

lemma baked_result:
  assumes "write_baked_object_literal_properties H h t props = Inr H'" "oh_objects H h = Some object"
  obtains S where "H' = H\<lparr>oh_objects := (oh_objects H)(h \<mapsto> object\<lparr>ho_shape := t, ho_slots := S\<rparr>)\<rparr>" "length S = length (ho_slots object)"
proof -
  have "\<exists>S'. fold (\<lambda>(index, stored). store_value_slot h index stored) ps (H\<lparr>oh_objects := (oh_objects H)(h \<mapsto> object\<lparr>ho_shape := t, ho_slots := S\<rparr>)\<rparr>) =
      H\<lparr>oh_objects := (oh_objects H)(h \<mapsto> object\<lparr>ho_shape := t, ho_slots := S'\<rparr>)\<rparr> \<and> length S' = length S" for ps S
  proof (induction ps arbitrary: S)
    case (Cons q ps)
    obtain i v where q: "q = (i, v)" by (cases q)
    have "store_value_slot h i v (H\<lparr>oh_objects := (oh_objects H)(h \<mapsto> object\<lparr>ho_shape := t, ho_slots := S\<rparr>)\<rparr>) =
        H\<lparr>oh_objects := (oh_objects H)(h \<mapsto> object\<lparr>ho_shape := t, ho_slots := S[unat i := v]\<rparr>)\<rparr>"
      by (simp add: store_value_slot_def update_object_def)
    then show ?case using Cons.IH [of "S[unat i := v]"] by (simp only: q fold_simps prod.case length_list_update)
  qed auto
  from this [of props "ho_slots object"] obtain S' where
    "fold (\<lambda>(index, stored). store_value_slot h index stored) props (write_shape_id h t H) =
      H\<lparr>oh_objects := (oh_objects H)(h \<mapsto> object\<lparr>ho_shape := t, ho_slots := S'\<rparr>)\<rparr>" "length S' = length (ho_slots object)"
    using assms(2) by (auto simp: write_shape_id_def update_object_def)
  then show thesis using that [of S'] assms by (simp add: write_baked_object_literal_properties_def resolve_object_def)
qed

lemma valid_prototype_mono: "valid_prototype H p \<Longrightarrow> dom (oh_objects H) \<subseteq> dom (oh_objects H') \<Longrightarrow> valid_prototype H' p"
  by (auto simp: valid_prototype_def)

lemma moved_closed:
  assumes "moved h H H'" "closed H"
  shows "closed H'"
proof -
  have "\<exists>object. oh_objects H g = Some object \<and> ho_prototype object' = ho_prototype object" if "oh_objects H' g = Some object'" for g object'
    using assms(1) that by (cases "g = h") (auto simp: moved_def option_rel_Some2)
  moreover have "dom (oh_objects H) \<subseteq> dom (oh_objects H')"
  proof
    fix g assume "g \<in> dom (oh_objects H)"
    then show "g \<in> dom (oh_objects H')" using assms(1) by (cases "g = h") (auto simp: moved_def option_rel_Some1)
  qed
  moreover have "st_prototypes (oh_table H') = st_prototypes (oh_table H)" using assms(1) by (simp add: moved_def)
  ultimately show ?thesis using assms(2) unfolding closed_def by (metis valid_prototype_mono)
qed

lemma bound_closed:
  assumes H': "oh_table H' = invalidate_if_prototype h (note_prototype p (oh_table H))" "\<And>g. g \<noteq> h \<Longrightarrow> oh_objects H' g = oh_objects H g"
    "oh_objects H' h = Some object" "ho_prototype object = p" and p: "valid_prototype H p" and c: "closed H"
  shows "closed H'"
proof -
  have "dom (oh_objects H) \<subseteq> dom (oh_objects H')"
  proof
    fix g assume "g \<in> dom (oh_objects H)"
    then show "g \<in> dom (oh_objects H')" using H'(2,3) by (cases "g = h") auto
  qed
  then have v: "valid_prototype H q \<Longrightarrow> valid_prototype H' q" for q by (rule valid_prototype_mono [rotated])
  have protos: "st_prototypes (oh_table H') = (if p = PROTO_NULL_SENTINEL then {} else {p}) \<union> st_prototypes (oh_table H)"
    unfolding H'(1) by (auto simp: invalidate_if_prototype_def note_prototype_def)
  show ?thesis unfolding closed_def
  proof (intro allI impI)
    fix g u assume "oh_objects H' g = Some u"
    then show "valid_prototype H' (ho_prototype u) \<and> (ho_prototype u \<noteq> PROTO_NULL_SENTINEL \<longrightarrow> ho_prototype u \<in> st_prototypes (oh_table H'))"
      using c p v H' protos by (cases "g = h") (auto simp: closed_def)
  qed
qed

lemma step_effect:
  assumes "heap_step H H'"
  shows "effect 1 H H' \<and> (closed H \<longrightarrow> closed H')"
  using assms
proof cases
  case (heap_allocate h p slots)
  from heap_allocate(4) show ?thesis
    by (rule set_prototype_result) (use bound_effect [of H' h p H] bound_closed [of H' h p H] heap_allocate(2) in simp)
next
  case (heap_array h p slots)
  from heap_array(3) show ?thesis
    by (rule set_prototype_result) (use bound_effect [of H' h p H] bound_closed [of H' h p H] heap_array(2) in simp)
next
  case (heap_literal h p slots t H1 props)
  obtain object where o: "oh_objects H1 h = Some (object\<lparr>ho_prototype := p\<rparr>)"
    "oh_table H1 = invalidate_if_prototype h (note_prototype p (oh_table H))" "\<And>g. g \<noteq> h \<Longrightarrow> oh_objects H1 g = oh_objects H g"
    by (rule set_prototype_result [OF heap_literal(5)]) simp
  obtain S where "H' = H1\<lparr>oh_objects := (oh_objects H1)(h \<mapsto> object\<lparr>ho_prototype := p\<rparr>\<lparr>ho_shape := t, ho_slots := S\<rparr>)\<rparr>"
    by (rule baked_result [OF heap_literal(6) o(1)])
  then show ?thesis using o bound_effect [of H' h p H] bound_closed [of H' h p H] heap_literal(2) by simp
next
  case (heap_prototype p h)
  from heap_prototype(2) show ?thesis
    by (rule set_prototype_result) (use bound_effect [of H' h p H] bound_closed [of H' h p H] heap_prototype(1) in simp)
next
  case (heap_type h ty)
  then have "reslot h H H'"
    by (cases "oh_objects H h") (auto simp: set_object_type_def resolve_object_def reslot_def alike_def ho_is_array_def)
  then show ?thesis using moved_effect moved_closed reslot_moved by blast
next
  case (heap_store h index v)
  then show ?thesis using moved_effect moved_closed reslot_moved [OF reslot_store] by blast
next
  case (heap_define h k flags v getter setter)
  then show ?thesis using moved_effect moved_closed define_moved by blast
next
  case (heap_set h k v)
  then show ?thesis using moved_effect moved_closed set_moved by blast
next
  case (heap_flags h k flags)
  then show ?thesis using moved_effect moved_closed flags_moved by blast
next
  case (heap_delete h k)
  then show ?thesis using moved_effect moved_closed delete_moved by blast
next
  case (heap_retire D)
  have keep: "oh_objects H' g = Some u \<longleftrightarrow> oh_objects H g = Some u \<and> g \<notin> D" for g u
    unfolding heap_retire(1) by (auto simp: retire_def restrict_map_def)
  have "stable_prototypes H H'" using keep by (auto simp: stable_prototypes_def)
  then have "effect 1 H H'" unfolding effect_def heap_retire(1) by (auto simp: retire_def intro!: exI [of _ 0])
  moreover have "closed H'" if "closed H"
    using that heap_retire(2) keep unfolding closed_def valid_prototype_def
    by (auto simp: heap_retire(1) retire_def restrict_map_def)
  ultimately show ?thesis by blast
qed

lemma steps_effect:
  assumes "(heap_step ^^ n) H H'" "closed H"
  shows "effect n H H' \<and> closed H'"
  using assms
proof (induction n arbitrary: H')
  case 0
  then show ?case by (auto simp: effect_def stable_prototypes_def)
next
  case (Suc n)
  then obtain H1 where H1: "(heap_step ^^ n) H H1" "heap_step H1 H'" by auto
  then show ?case using Suc.IH [OF H1(1) Suc.prems(2)] step_effect [OF H1(2)] effect_trans [of n H H1 1 H'] by simp
qed

section \<open>Reachable heaps\<close>

lemma heap_ok_cong:
  assumes H: "heap_ok H" and T: "st_shapes (oh_table H') = st_shapes (oh_table H)"
    and o: "\<And>h object'. plain H' h object' \<Longrightarrow>
      \<exists>object. plain H h object \<and> ho_shape object' = ho_shape object \<and> length (ho_slots object') = length (ho_slots object)"
  shows "heap_ok H'"
  unfolding heap_ok_def same_shapes [OF T]
proof (intro conjI allI impI)
  show "table_ok (oh_table H)" using H by (simp add: heap_ok_def)
  fix h u assume u: "plain H' h u"
  show "length (ho_slots u) < 2 ^ 32" "known (oh_table H) (ho_shape u)"
    "unat (slot_count (oh_table H) (ho_shape u)) \<le> length (ho_slots u)"
    using o [OF u] heap_okD [OF H] by auto
next
  fix h h' u u' assume u: "plain H' h u" "plain H' h' u'" "h \<noteq> h'" "ho_shape u = ho_shape u'"
  obtain w w' where w: "plain H h w" "ho_shape u = ho_shape w" "plain H h' w'" "ho_shape u' = ho_shape w'"
    using o [OF u(1)] o [OF u(2)] by blast
  then show "\<not> is_dictionary (oh_table H) (ho_shape u)" using heap_ok_owner [OF H w(1,3) u(3)] u(4) by auto
qed

lemma heap_ok_new_object:
  \<comment> \<open>a new object whose shape is shared\<close>
  assumes H: "heap_ok H" and T: "st_shapes (oh_table H') = st_shapes (oh_table H)"
    and o: "\<And>g. g \<noteq> h \<Longrightarrow> oh_objects H' g = oh_objects H g" "oh_objects H' h = Some object"
    and u: "\<not> ho_is_array object \<Longrightarrow> length (ho_slots object) < 2 ^ 32" "\<not> ho_is_array object \<Longrightarrow> baked_shape H (ho_shape object) (ho_slots object)"
  shows "heap_ok H'"
proof -
  have old: "g \<noteq> h \<Longrightarrow> plain H' g w \<longleftrightarrow> plain H g w" for g w using o(1) by (simp add: plain_def)
  have self: "plain H' h w \<longleftrightarrow> w = object \<and> \<not> ho_is_array object" for w using o(2) by (auto simp: plain_def)
  show ?thesis unfolding heap_ok_def same_shapes [OF T]
  proof (intro conjI allI impI)
    show "table_ok (oh_table H)" using H by (simp add: heap_ok_def)
    fix g w assume w: "plain H' g w"
    show "length (ho_slots w) < 2 ^ 32" using w u old self heap_okD(2) [OF H] by (cases "g = h") auto
    show "known (oh_table H) (ho_shape w)" using w u old self heap_okD(3) [OF H] by (cases "g = h") (auto simp: baked_shape_def)
    show "unat (slot_count (oh_table H) (ho_shape w)) \<le> length (ho_slots w)"
      using w u old self heap_okD(4) [OF H] by (cases "g = h") (auto simp: baked_shape_def)
  next
    fix g g' w w' assume w: "plain H' g w" "plain H' g' w'" "g \<noteq> g'" "ho_shape w = ho_shape w'"
    show "\<not> is_dictionary (oh_table H) (ho_shape w)"
    proof (cases "g = h \<or> g' = h")
      case True
      then show ?thesis using w u self by (auto simp: baked_shape_def)
    next
      case False
      then show ?thesis using w old heap_ok_owner [OF H, of g w g' w'] by auto
    qed
  qed
qed

lemma apply_heap_ok:
  assumes H: "heap_ok H" "plain H h object" "room (oh_table H) (ho_shape object)"
    and t: "transition_add (oh_table H) (ho_shape object) k flags = Some (T', t)"
    and a: "apply_transition (H\<lparr>oh_table := T'\<rparr>) h (ho_shape object) t = Inr H1"
  shows "heap_ok H1"
proof -
  let ?T = "oh_table H" and ?x = "ho_shape object"
  have T: "table_ok ?T" and len: "length (ho_slots object) < 2 ^ 32" and kn: "known ?T ?x"
    and count: "unat (slot_count ?T ?x) \<le> length (ho_slots object)" using heap_okD [OF H(1,2)] by auto
  obtain T1 t1 where t1: "transition_add ?T ?x k flags = Some (T1, t1)" "table_ok T1" "keeps ?T T1 (if is_dictionary ?T ?x then {?x} else {})"
    "known T1 (tr_shape t1)" "tr_slot_count t1 = slot_count T1 (tr_shape t1)" "tr_abandoned t1 = Option.bind (shape_lookup ?T ?x k) (kind_change flags)"
    "if is_dictionary ?T ?x then tr_shape t1 = ?x \<and> is_dictionary T1 ?x else is_dictionary T1 (tr_shape t1) \<longrightarrow> \<not> known ?T (tr_shape t1)"
    by (rule transition_add_ok [OF T H(3) kn, of k flags])
  then have t': "table_ok T'" "keeps ?T T' (if is_dictionary ?T ?x then {?x} else {})"
    "known T' (tr_shape t)" "tr_slot_count t = slot_count T' (tr_shape t)" "tr_abandoned t = Option.bind (shape_lookup ?T ?x k) (kind_change flags)"
    "if is_dictionary ?T ?x then tr_shape t = ?x \<and> is_dictionary T' ?x else is_dictionary T' (tr_shape t) \<longrightarrow> \<not> known ?T (tr_shape t)"
    using t by simp_all
  have o: "oh_objects (H\<lparr>oh_table := T'\<rparr>) h = Some object" using H(2) by (simp add: plain_def)
  have gone: "unat (fst slots) + unat (snd slots) \<le> length (ho_slots object)" if "tr_abandoned t = Some slots" for slots
    using that t'(5) lookup_in_shape(3) [OF T, of ?x k] count by (cases "shape_lookup ?T ?x k") (auto simp: kind_change_def split: if_splits)
  obtain H2 S where H2: "apply_transition (H\<lparr>oh_table := T'\<rparr>) h ?x t = Inr H2"
    "oh_objects H2 = (oh_objects (H\<lparr>oh_table := T'\<rparr>))(h \<mapsto> object\<lparr>ho_shape := tr_shape t, ho_slots := S\<rparr>)"
    "oh_table H2 = (if tr_shape t \<noteq> ?x then invalidate_if_prototype h (oh_table (H\<lparr>oh_table := T'\<rparr>)) else oh_table (H\<lparr>oh_table := T'\<rparr>))"
    "unat (tr_slot_count t) \<le> length S" "length S < 2 ^ 32"
    by (rule apply_transition_result [where t = t, OF o len gone])
  have "H1 = H2" using a H2(1) by simp
  then have H1: "oh_objects H1 = (oh_objects H)(h \<mapsto> object\<lparr>ho_shape := tr_shape t, ho_slots := S\<rparr>)" "st_shapes (oh_table H1) = st_shapes T'"
    using H2(2,3) by simp_all
  have r: "reshape ?T T' ?x (tr_shape t)" using t'(1-3,6) by (auto simp: reshape_def split: if_splits)
  show ?thesis by (rule heap_reshape(1) [OF H(1,2) r H1 H2(5)]) (use H2(4) t'(4) in simp)
qed

lemma store_heap_ok: "heap_ok H \<Longrightarrow> heap_ok (store_value_slot h index v H)"
  by (erule heap_ok_cong) (auto simp: store_value_slot_def plain_def split: if_splits)

lemma define_heap_ok:
  assumes "heap_ok H" "has_room H h" "define_property_slot H h k flags v getter setter = Some (Inr H')"
  shows "heap_ok H'"
proof -
  obtain object where o: "plain H h object"
    using assms(3) by (cases "oh_objects H h") (auto simp: define_property_slot_def resolve_object_def plain_def split: if_splits)
  then have "room (oh_table H) (ho_shape object)" using assms(2) by (simp add: has_room_def plain_def)
  then obtain H1 where "define_property_slot H h k flags v getter setter = Some (Inr H1)" "heap_ok H1"
    using define_slot_result [OF assms(1) o] by metis
  then show ?thesis using assms(3) by simp
qed

lemma step_heap_ok:
  assumes "heap_step H H'" "heap_ok H" "baked_shape H SHAPE_ID_EMPTY []"
  shows "heap_ok H'"
  using assms(1)
proof cases
  case (heap_allocate h p slots)
  from heap_allocate(4) show ?thesis
    by (rule set_prototype_result)
      (use heap_allocate(3) assms(3) in \<open>auto intro!: heap_ok_new_object [OF assms(2), where h = h] simp: baked_shape_def\<close>)
next
  case (heap_array h p slots)
  from heap_array(3) show ?thesis
    by (rule set_prototype_result) (auto intro!: heap_ok_new_object [OF assms(2), where h = h] simp: ho_is_array_def)
next
  case (heap_literal h p slots t H1 props)
  obtain object where o: "oh_objects H1 h = Some object" "ho_slots object = slots"
    "oh_table H1 = invalidate_if_prototype h (note_prototype p (oh_table H))" "\<And>g. g \<noteq> h \<Longrightarrow> oh_objects H1 g = oh_objects H g"
    by (rule set_prototype_result [OF heap_literal(5)]) auto
  obtain S where S: "H' = H1\<lparr>oh_objects := (oh_objects H1)(h \<mapsto> object\<lparr>ho_shape := t, ho_slots := S\<rparr>)\<rparr>"
    "length S = length (ho_slots object)"
    by (rule baked_result [OF heap_literal(6) o(1)])
  show ?thesis
    by (rule heap_ok_new_object [OF assms(2), where h = h and object = "object\<lparr>ho_shape := t, ho_slots := S\<rparr>"])
      (use S o heap_literal(3,4) in \<open>auto simp: baked_shape_def\<close>)
next
  case (heap_prototype p h)
  from heap_prototype(2) show ?thesis
    by (rule set_prototype_result) (auto intro!: heap_ok_cong [OF assms(2)] simp: plain_def split: if_splits)
next
  case (heap_type h ty)
  then obtain object where o: "oh_objects H h = Some object" "\<not> ho_is_array object" "H' = update_object h (\<lambda>object. object\<lparr>ho_type := ty\<rparr>) H"
    by (cases "oh_objects H h") (auto simp: set_object_type_def resolve_object_def)
  then show ?thesis by (auto intro!: heap_ok_cong [OF assms(2)] simp: plain_def split: if_splits)
next
  case (heap_store h index v)
  then show ?thesis using store_heap_ok [OF assms(2)] by simp
next
  case (heap_define h k flags v getter setter)
  then show ?thesis using define_heap_ok [OF assms(2)] by blast
next
  case (heap_set h k v)
  then show ?thesis using define_heap_ok [OF assms(2)] store_heap_ok [OF assms(2)]
    by (auto simp: set_property_def split: sum.splits if_splits option.splits)
next
  case (heap_flags h k flags)
  then obtain object where o: "oh_objects H h = Some object"
    by (cases "oh_objects H h") (auto simp: update_property_flags_def resolve_object_def)
  show ?thesis
  proof (cases "ho_is_array object")
    case True
    then show ?thesis using heap_flags(2) o assms(2) by (simp add: update_property_flags_def resolve_object_def)
  next
    case False
    then have p: "plain H h object" using o by (simp add: plain_def)
    have room: "room (oh_table H) (ho_shape object)" using heap_flags(1) o by (simp add: has_room_def)
    obtain T' r where t: "update_flags (oh_table H) (ho_shape object) k flags = Some (T', r)"
      using heap_flags(2) o False by (auto simp: update_property_flags_def resolve_object_def)
    show ?thesis
    proof (cases r)
      case None
      then have "T' = oh_table H" using t by (auto simp: update_flags_def split: option.splits)
      then have "H' = H" using heap_flags(2) o False t None by (simp add: update_property_flags_def resolve_object_def)
      then show ?thesis using assms(2) by simp
    next
      case (Some u)
      then have "transition_add (oh_table H) (ho_shape object) k flags = Some (T', u)"
        using t by (auto simp: update_flags_def split: option.splits)
      moreover have "apply_transition (H\<lparr>oh_table := T'\<rparr>) h (ho_shape object) u = Inr H'"
        using heap_flags(2) o False t Some by (simp add: update_property_flags_def resolve_object_def)
      ultimately show ?thesis by (rule apply_heap_ok [OF assms(2) p room])
    qed
  qed
next
  case (heap_delete h k)
  then obtain object where o: "plain H h object"
    by (cases "oh_objects H h") (auto simp: delete_property_def resolve_object_def plain_def split: if_splits)
  have "length (st_shapes (oh_table H)) < 2 ^ 32" using heap_delete(1) o by (simp add: has_room_def plain_def room_def)
  then obtain H1 where "delete_property H h k = Inr H1" "heap_ok H1" using delete_result [OF assms(2) o] by metis
  then show ?thesis using heap_delete(2) by simp
next
  case (heap_retire D)
  then show ?thesis by (auto intro!: heap_ok_cong [OF assms(2)] simp: plain_def retire_def restrict_map_def split: if_splits)
qed

lemma reachable_heap_ok:
  assumes "heap_step\<^sup>*\<^sup>* heap_new H"
  shows "heap_ok H \<and> closed H"
proof -
  have "heap_ok H \<and> closed H \<and> shared_kept shape_table_new (oh_table H)"
    using assms
  proof (induction rule: rtranclp_induct)
    case base
    show ?case using new_table_ok by (simp add: heap_new_def heap_ok_def closed_def plain_def)
  next
    case (step H1 H2)
    have "shared_kept (oh_table H1) (oh_table H2)"
      using step_effect [OF step(2)] table_steps_ok step.IH by (auto simp: effect_def heap_ok_def)
    moreover have "baked_shape H1 SHAPE_ID_EMPTY []"
    proof -
      obtain s where s: "shape_at (oh_table H1) SHAPE_ID_EMPTY = Some s" "same_layout shape_default s"
        using kept_shape [OF _ empty_new(1), of "oh_table H1"] step.IH by (auto simp: shape_default_def)
      then show ?thesis by (simp add: baked_shape_def known_def is_dictionary_def slot_count_def same_layout_def shape_default_def)
    qed
    ultimately show ?case
      using step.IH step_heap_ok [OF step(2)] step_effect [OF step(2)] shared_kept_trans by blast
  qed
  then show ?thesis by simp
qed

section \<open>Objects as maps\<close>

text \<open>
  C22: Defining a property on an object. On every reachable heap it succeeds, the property reads back
  as it was defined, every other property of the object reads as before, its name goes last in the own
  names if it is new, and no other object changes, whether or not its shape is shared.
\<close>

theorem defining_on_an_object:
  assumes "heap_step\<^sup>*\<^sup>* heap_new H" and "oh_objects H h = Some object" and "\<not> ho_is_array object" and "has_room H h"
  shows "\<exists>H'. define_property_slot H h k flags v getter setter = Some (Inr H') \<and>
    get_property_slot H' h = (get_property_slot H h)(k := Inr (Some (property_of flags v getter setter))) \<and>
    map_sum id (map fst) (own_property_slots H' h) =
      map_sum id (\<lambda>ns. map fst ns @ (if k \<in> fst ` set ns then [] else [k])) (own_property_slots H h) \<and>
    (\<forall>h'. h' \<noteq> h \<longrightarrow> get_property_slot H' h' = get_property_slot H h' \<and> own_property_slots H' h' = own_property_slots H h')"
proof -
  have ok: "heap_ok H" using reachable_heap_ok [OF assms(1)] by simp
  have p: "plain H h object" "room (oh_table H) (ho_shape object)" using assms(2-4) by (simp_all add: plain_def has_room_def)
  obtain H' where H': "define_property_slot H h k flags v getter setter = Some (Inr H')" "heap_ok H'"
    "get_property_slot H' h k = Inr (Some (property_of flags v getter setter))"
    "\<forall>l. l \<noteq> k \<longrightarrow> get_property_slot H' h l = get_property_slot H h l"
    "map_sum id (map fst) (own_property_slots H' h) =
       map_sum id (\<lambda>ns. map fst ns @ (if k \<in> fst ` set ns then [] else [k])) (own_property_slots H h)"
    "\<forall>h'. h' \<noteq> h \<longrightarrow> get_property_slot H' h' = get_property_slot H h' \<and> own_property_slots H' h' = own_property_slots H h'"
    by (rule define_slot_result [where k = k and flags = flags and v = v and getter = getter and setter = setter, OF ok p])
  then have "get_property_slot H' h = (get_property_slot H h)(k := Inr (Some (property_of flags v getter setter)))"
    by (simp add: fun_eq_iff)
  with H'(1,5,6) show ?thesis by (intro exI [of _ H']) simp
qed

definition sample_heap :: object_heap where
  \<comment> \<open>one object, with the prototype \<open>null\<close>\<close>
  "sample_heap = heap_new\<lparr>oh_objects := [1 \<mapsto>
     \<lparr>ho_type = HEAP_TYPE_OBJECT, ho_prototype = PROTO_NULL_SENTINEL, ho_shape = SHAPE_ID_EMPTY, ho_slots = [0, 0, 0, 0]\<rparr>]\<rparr>"

lemma sample_heap_reachable: "heap_step\<^sup>*\<^sup>* heap_new sample_heap"
proof -
  have "set_prototype (publish_object 1 PROTO_NULL_SENTINEL [0, 0, 0, 0] heap_new) 1 PROTO_NULL_SENTINEL = Inr sample_heap"
    by (simp add: set_prototype_def resolve_object_def sample_heap_def heap_new_def update_object_def note_prototype_def
        invalidate_if_prototype_def shape_table_new_def fun_eq_iff)
  then show ?thesis by (intro r_into_rtranclp heap_allocate) (auto simp: heap_new_def valid_prototype_def)
qed

lemma sample_heap_object:
  "\<exists>object. oh_objects sample_heap 1 = Some object \<and> \<not> ho_is_array object \<and> ho_shape object = SHAPE_ID_EMPTY" "has_room sample_heap 1"
  using empty_new(2) by (simp_all add: sample_heap_def has_room_def heap_new_def ho_is_array_def HEAP_TYPE_OBJECT_def HEAP_TYPE_ARRAY_def)

theorem defining_on_an_object_witness:
  "\<exists>H'. define_property_slot sample_heap 1 (from_name_id 7) 7 42 0 0 = Some (Inr H') \<and>
     get_property_slot H' 1 (from_name_id 7) = Inr (Some (property_of 7 42 0 0)) \<and>
     get_property_slot H' 1 (from_name_id 8) = get_property_slot sample_heap 1 (from_name_id 8)"
proof -
  obtain object where o: "oh_objects sample_heap 1 = Some object" "\<not> ho_is_array object" using sample_heap_object(1) by blast
  have "from_name_id 8 \<noteq> from_name_id 7" by (simp add: from_name_id_def)
  then show ?thesis
    using defining_on_an_object [OF sample_heap_reachable o sample_heap_object(2), of "from_name_id 7" 7 42 0 0] by auto
qed

definition sample_with :: "u64 \<Rightarrow> object_heap" where
  \<comment> \<open>the sample heap after its object got the property\<close>
  "sample_with v = \<lparr>oh_table = \<lparr>st_shapes = [shape_default\<lparr>shp_transitions := [((from_name_id 7, 7), 1)]\<rparr>,
       shape_default\<lparr>shp_props := [\<lparr>sp_name = from_name_id 7, sp_flags = 7, sp_index = 0\<rparr>], shp_slot_count := 1\<rparr>],
       st_prototypes = {}, st_generation = 0\<rparr>,
     oh_objects = [1 \<mapsto> \<lparr>ho_type = HEAP_TYPE_OBJECT, ho_prototype = PROTO_NULL_SENTINEL, ho_shape = 1, ho_slots = [v, 0, 0, 0]\<rparr>]\<rparr>"

lemma sample_with_reachable: "heap_step\<^sup>*\<^sup>* heap_new (sample_with v)"
proof -
  have "define_property_slot sample_heap 1 (from_name_id 7) 7 v 0 0 = Some (Inr (sample_with v))"
    by (simp add: sample_heap_def sample_with_def define_property_slot_def apply_transition_def resolve_object_def
        transition_add_def transition_from_def unchanged_prop_def shape_find_def new_transition_def follow_transition_def assign_prop_def push_prop_def
        shape_at_def get_at_def DICTIONARY_THRESHOLD_def SHAPE_TABLE_BUDGET_def SHAPE_MAP_THRESHOLD_def slot_span_def slot_span_for_def
        FLAG_IS_ACCESSOR_def ho_is_array_def HEAP_TYPE_OBJECT_def HEAP_TYPE_ARRAY_def
        store_value_slot_def write_shape_id_def invalidate_if_prototype_def SHAPE_ID_EMPTY_def
        shape_table_new_def shape_default_def heap_new_def update_object_def)
  then have "heap_step sample_heap (sample_with v)" by (rule heap_define [OF sample_heap_object(2)])
  then show ?thesis using sample_heap_reachable by simp
qed

text \<open>
  C23: Deleting a property. On every reachable heap it succeeds, the property is gone, every other
  property of the object reads as before and keeps its place in the order, and no other object changes,
  although objects with the same shape keep using it.
\<close>

theorem deleting_from_an_object:
  assumes "heap_step\<^sup>*\<^sup>* heap_new H" and "oh_objects H h = Some object" and "\<not> ho_is_array object" and "has_room H h"
  shows "\<exists>H'. delete_property H h k = Inr H' \<and> get_property_slot H' h = (get_property_slot H h)(k := Inr None) \<and>
    map_sum id (map fst) (own_property_slots H' h) = map_sum id (\<lambda>ns. filter (\<lambda>n. n \<noteq> k) (map fst ns)) (own_property_slots H h) \<and>
    (\<forall>h'. h' \<noteq> h \<longrightarrow> get_property_slot H' h' = get_property_slot H h' \<and> own_property_slots H' h' = own_property_slots H h')"
proof -
  have ok: "heap_ok H" using reachable_heap_ok [OF assms(1)] by simp
  have p: "plain H h object" "length (st_shapes (oh_table H)) < 2 ^ 32"
    using assms(2-4) by (simp_all add: plain_def has_room_def room_def)
  obtain H' where H': "delete_property H h k = Inr H'" "heap_ok H'" "get_property_slot H' h k = Inr None"
    "\<forall>l. l \<noteq> k \<longrightarrow> get_property_slot H' h l = get_property_slot H h l"
    "map_sum id (map fst) (own_property_slots H' h) = map_sum id (\<lambda>ns. filter (\<lambda>n. n \<noteq> k) (map fst ns)) (own_property_slots H h)"
    "\<forall>h'. h' \<noteq> h \<longrightarrow> get_property_slot H' h' = get_property_slot H h' \<and> own_property_slots H' h' = own_property_slots H h'"
    by (rule delete_result [where k = k, OF ok p])
  then have "get_property_slot H' h = (get_property_slot H h)(k := Inr None)" by (simp add: fun_eq_iff)
  with H'(1,5,6) show ?thesis by (intro exI [of _ H']) simp
qed

theorem deleting_from_an_object_witness:
  "\<exists>p H'. get_property_slot (sample_with 42) 1 (from_name_id 7) = Inr (Some p) \<and>
     delete_property (sample_with 42) 1 (from_name_id 7) = Inr H' \<and> get_property_slot H' 1 (from_name_id 7) = Inr None"
proof -
  define object where "object = \<lparr>ho_type = HEAP_TYPE_OBJECT, ho_prototype = PROTO_NULL_SENTINEL, ho_shape = 1, ho_slots = [42 :: u64, 0, 0, 0]\<rparr>"
  have o: "oh_objects (sample_with 42) 1 = Some object" "\<not> ho_is_array object"
    by (simp_all add: sample_with_def object_def ho_is_array_def HEAP_TYPE_OBJECT_def HEAP_TYPE_ARRAY_def)
  have room: "has_room (sample_with 42) 1"
    by (simp add: has_room_def room_def sample_with_def shape_at_def get_at_def shape_default_def)
  have "\<exists>p. get_property_slot (sample_with 42) 1 (from_name_id 7) = Inr (Some p)"
    using o by (simp add: get_property_slot_def resolve_object_def)
       (simp add: object_def sample_with_def shape_lookup_def shape_at_def get_at_def shape_find_def shape_default_def)
  then show ?thesis using deleting_from_an_object [OF sample_with_reachable o room, of "from_name_id 7"] by auto
qed

end
