(* ===== verification/Inline_Cache_Correct.thy ===== *)
theory Inline_Cache_Correct
  imports Inline_Cache Heap_Steps
begin

text \<open>
  What a hit of an inline cache answers is what the lookup on the current heap answers, however the
  heap has changed since the slot was filled; with the two exceptions the last section shows.
\<close>

section \<open>Shared shapes and chains\<close>

lemma shared_lookup:
  assumes "table_ok T" "table_ok T'" "shared_kept T T'" "known T x" "\<not> is_dictionary T x"
  shows "shape_lookup T' x = shape_lookup T x" "\<not> is_dictionary T' x"
proof -
  obtain s where s: "shape_at T x = Some s" "\<not> shp_dictionary s" using assms(4,5) by (auto simp: known_def is_dictionary_def)
  obtain s' where s': "shape_at T' x = Some s'" "same_layout s s'" by (rule kept_shape [OF assms(3) s])
  show "\<not> is_dictionary T' x" using s s' by (simp add: is_dictionary_def same_layout_def)
  show "shape_lookup T' x = shape_lookup T x"
    by (rule ext) (use s s' in \<open>simp add: shape_lookup_named [OF assms(1)] shape_lookup_named [OF assms(2)] shape_props_def same_layout_def\<close>)
qed

definition cacheable :: "object_heap \<Rightarrow> u32 \<Rightarrow> heap_object \<Rightarrow> bool" where
  "cacheable H c object \<longleftrightarrow> oh_objects H c = Some object \<and> ho_type object = HEAP_TYPE_OBJECT \<and> \<not> is_dictionary (oh_table H) (ho_shape object)"

lemma cacheable_plain: "cacheable H c object \<Longrightarrow> plain H c object"
  by (simp add: cacheable_def plain_def ho_is_array_def HEAP_TYPE_OBJECT_def HEAP_TYPE_ARRAY_def)

definition later :: "object_heap \<Rightarrow> object_heap \<Rightarrow> bool" where
  \<comment> \<open>a later heap of the same generation\<close>
  "later H H' \<longleftrightarrow> heap_ok H \<and> closed H \<and> heap_ok H' \<and> closed H' \<and> shared_kept (oh_table H) (oh_table H') \<and> stable_prototypes H H'"

lemma later_lookup:
  assumes "later H H'" "cacheable H c object"
  shows "shape_lookup (oh_table H') (ho_shape object) = shape_lookup (oh_table H) (ho_shape object)"
  by (rule shared_lookup(1))
    (use assms heap_okD(3) [OF _ cacheable_plain] in \<open>auto simp: later_def cacheable_def heap_ok_def\<close>)

definition found_on_chain :: "object_heap \<Rightarrow> object_heap \<Rightarrow> PropertyKey \<Rightarrow> u32 \<Rightarrow> u32 \<Rightarrow> u32 \<Rightarrow> HeapAccessV2Property \<Rightarrow> bool" where
  "found_on_chain H H' k c holder index p \<longleftrightarrow>
     (\<exists>object hobject q. cacheable H c object \<and> (shape_lookup (oh_table H) (ho_shape object) k = None \<longrightarrow> ho_prototype object \<noteq> c) \<and>
        cacheable H holder hobject \<and> shape_lookup (oh_table H) (ho_shape hobject) k = Some q \<and> sp_index q = index \<and> p = read_prop hobject q \<and>
        (shape_lookup (oh_table H) (ho_shape object) k \<noteq> None \<longrightarrow> holder = c) \<and>
        (\<forall>c' object' handle. oh_objects H' c' = Some object' \<longrightarrow> alike object object' \<longrightarrow> \<not> proto_slot_is_exotic c' \<longrightarrow> c' = c \<or> holder \<noteq> c \<longrightarrow>
           (\<exists>hobject'. oh_objects H' holder = Some hobject' \<and>
              get_property_slot_on_proto_chain H' handle k c' = Some (Inr (Some (holder, read_prop hobject' q))))))"

lemma chain_here:
  assumes "oh_objects H' c' = Some object'" "\<not> proto_slot_is_exotic c'" "\<not> ho_is_array object'"
    "shape_lookup (oh_table H') (ho_shape object') k = Some q"
  shows "get_property_slot_on_proto_chain H' handle k c' = Some (Inr (Some (c', read_prop object' q)))"
  using assms by (subst get_property_slot_on_proto_chain.simps) (simp add: resolve_object_def get_property_slot_def)

lemma chain_up:
  assumes "oh_objects H' c' = Some object'" "\<not> proto_slot_is_exotic c'" "\<not> ho_is_array object'"
    "shape_lookup (oh_table H') (ho_shape object') k = None" "ho_prototype object' \<noteq> PROTO_NULL_SENTINEL" "ho_prototype object' \<noteq> c'"
    "\<not> proto_slot_is_exotic (ho_prototype object')"
  shows "get_property_slot_on_proto_chain H' handle k c' = get_property_slot_on_proto_chain H' handle k (ho_prototype object')"
  using assms by (subst get_property_slot_on_proto_chain.simps) (simp add: resolve_object_def get_property_slot_def)

lemma found_step:
  assumes l: "later H H'" and c: "cacheable H c object" "shape_lookup (oh_table H) (ho_shape object) k = None"
    and q: "ho_prototype object \<noteq> PROTO_NULL_SENTINEL" "ho_prototype object \<noteq> c" "\<not> proto_slot_is_exotic (ho_prototype object)"
    and ih: "found_on_chain H H' k (ho_prototype object) holder index p"
  shows "found_on_chain H H' k c holder index p"
proof -
  let ?q = "ho_prototype object"
  obtain qo ho sp where f: "cacheable H ?q qo" "shape_lookup (oh_table H) (ho_shape qo) k = None \<longrightarrow> ho_prototype qo \<noteq> ?q"
    "cacheable H holder ho" "shape_lookup (oh_table H) (ho_shape ho) k = Some sp" "sp_index sp = index" "p = read_prop ho sp"
    and later: "\<forall>c' object' handle. oh_objects H' c' = Some object' \<longrightarrow> alike qo object' \<longrightarrow> \<not> proto_slot_is_exotic c' \<longrightarrow> c' = ?q \<or> holder \<noteq> ?q \<longrightarrow>
       (\<exists>hobject'. oh_objects H' holder = Some hobject' \<and>
         get_property_slot_on_proto_chain H' handle k c' = Some (Inr (Some (holder, read_prop hobject' sp))))"
    using ih unfolding found_on_chain_def by (elim exE conjE) (rule that; assumption)
  have up: "\<exists>hobject'. oh_objects H' holder = Some hobject' \<and>
      get_property_slot_on_proto_chain H' handle k c' = Some (Inr (Some (holder, read_prop hobject' sp)))"
    if o: "oh_objects H' c' = Some object'" "alike object object'" "\<not> proto_slot_is_exotic c'" for c' object' handle
  proof -
    have noted: "?q \<in> st_prototypes (oh_table H)" using l c closedD(2) [OF _ _ q(1)] by (auto simp: later_def cacheable_def)
    have "valid_prototype H' ?q" using l o(2) closedD(1) [OF _ o(1)] by (simp add: later_def alike_def)
    then obtain qo' where qo': "oh_objects H' ?q = Some qo'" using q by (auto simp: valid_prototype_def)
    then have al: "alike qo qo'" using l noted f(1) by (auto simp: later_def stable_prototypes_def cacheable_def)
    have na: "\<not> ho_is_array object'" using o(2) cacheable_plain [OF c(1)] by (simp add: alike_def plain_def)
    have none: "shape_lookup (oh_table H') (ho_shape object') k = None"
      using later_lookup [OF l c(1)] c(2) o(2) by (simp add: alike_def)
    have "?q \<noteq> c'"
    proof
      assume "?q = c'"
      then have "qo' = object'" using qo' o(1) by simp
      then have "ho_shape qo = ho_shape object" "ho_prototype qo = ?q" using al o(2) by (simp_all add: alike_def)
      then show False using f(2) c(2) by simp
    qed
    then have "get_property_slot_on_proto_chain H' handle k c' = get_property_slot_on_proto_chain H' handle k ?q"
      using chain_up [OF o(1,3) na none] o(2) q by (simp add: alike_def)
    then show ?thesis using later qo' al q(3) by simp
  qed
  show ?thesis unfolding found_on_chain_def
    by (intro exI [of _ object] exI [of _ ho] exI [of _ sp]) (use c q(2) f(3-6) up in auto)
qed

lemma found_here:
  assumes l: "later H H'" and c: "cacheable H c object" "shape_lookup (oh_table H) (ho_shape object) k = Some q"
  shows "found_on_chain H H' k c c (sp_index q) (read_prop object q)"
proof -
  have "get_property_slot_on_proto_chain H' handle k c' = Some (Inr (Some (c', read_prop object' q)))"
    if "oh_objects H' c' = Some object'" "alike object object'" "\<not> proto_slot_is_exotic c'" for c' object' handle
    by (rule chain_here) (use that later_lookup [OF l c(1)] c(2) cacheable_plain [OF c(1)] in \<open>simp_all add: alike_def plain_def\<close>)
  then show ?thesis unfolding found_on_chain_def using c
    by (intro exI [of _ object] exI [of _ object] exI [of _ q]) auto
qed

lemma found_chain:
  assumes l: "later H H'" and f: "get_property_slot_on_proto_chain_for_ic H k c = Some (Inr (Some (holder, index, p)))"
  shows "found_on_chain H H' k c holder index p"
proof -
  define P where "P = (\<lambda>H0 k0 c (y :: HeapAccessV2Error + (u32 \<times> u32 \<times> HeapAccessV2Property) option). H0 = H \<longrightarrow> k0 = k \<longrightarrow>
    (\<forall>holder index p. y = Inr (Some (holder, index, p)) \<longrightarrow> found_on_chain H H' k c holder index p))"
  have "P H k c (Inr (Some (holder, index, p)))"
  proof (rule get_property_slot_on_proto_chain_for_ic.raw_induct [where P = P, OF _ f], goal_cases)
    case (1 f H0 k0 c y)
    show ?case unfolding P_def
    proof (intro impI allI)
      fix holder index p assume H0: "H0 = H" "k0 = k" and y: "y = Inr (Some (holder, index, p))"
      obtain object where o: "oh_objects H c = Some object"
        using 1(2) H0 y by (cases "oh_objects H c") (auto simp: resolve_object_def split: if_splits)
      then have ca: "cacheable H c object"
        using 1(2) H0 y by (auto simp: resolve_object_def cacheable_def split: if_splits)
      show "found_on_chain H H' k c holder index p"
      proof (cases "shape_lookup (oh_table H) (ho_shape object) k")
        case None
        then have "f H k (ho_prototype object) = Some y" and q: "ho_prototype object \<noteq> PROTO_NULL_SENTINEL" "ho_prototype object \<noteq> c"
          "\<not> proto_slot_is_exotic (ho_prototype object)"
          using 1(2) H0 y o ca by (auto simp: resolve_object_def cacheable_def split: if_splits)
        then have "found_on_chain H H' k (ho_prototype object) holder index p" using 1(1) y by (auto simp: P_def)
        then show ?thesis by (rule found_step [OF l ca None q])
      next
        case (Some q)
        then have "holder = c \<and> index = sp_index q \<and> p = read_prop object q"
          using 1(2) H0 y o ca by (auto simp: resolve_object_def cacheable_def split: if_splits)
        then show ?thesis using found_here [OF l ca Some] by simp
      qed
    qed
  qed
  then show ?thesis by (simp add: P_def)
qed

lemma later_steps:
  assumes "heap_step\<^sup>*\<^sup>* heap_new H" "(heap_step ^^ n) H H'" "n < 2 ^ 32"
  shows "heap_ok H" "heap_ok H'" "shared_kept (oh_table H) (oh_table H')"
    and "st_generation (oh_table H') = st_generation (oh_table H) \<Longrightarrow> later H H'"
proof -
  have H: "heap_ok H" "closed H" using reachable_heap_ok [OF assms(1)] by auto
  have "heap_step\<^sup>*\<^sup>* H H'" using assms(2) by (rule relpowp_imp_rtranclp)
  then have H': "heap_ok H'" "closed H'" using reachable_heap_ok [of H'] assms(1) by (meson rtranclp_trans)+
  have e: "effect n H H'" using steps_effect [OF assms(2) H(2)] by simp
  then have k: "shared_kept (oh_table H) (oh_table H')" using table_steps_ok H(1) by (auto simp: effect_def heap_ok_def)
  show "heap_ok H" "heap_ok H'" "shared_kept (oh_table H) (oh_table H')" by (rule H H' k)+
  assume gen: "st_generation (oh_table H') = st_generation (oh_table H)"
  obtain m where m: "m \<le> n" "st_generation (oh_table H') = st_generation (oh_table H) + of_nat m" "m = 0 \<longrightarrow> stable_prototypes H H'"
    using e by (auto simp: effect_def)
  have "(of_nat m :: u32) = 0" using m(2) gen by simp
  then have "m = 0" using m(1) assms(3) unat_u32_of_nat [of m] by simp
  then show "later H H'" using H H' k m(3) by (simp add: later_def)
qed

section \<open>Hits\<close>

lemma own_cached:
  assumes "heap_ok H" "heap_ok H'" "shared_kept (oh_table H) (oh_table H')" "own_data_property_index H h k = Inr (Some (x, i))"
  obtains object p where "plain H h object" "ho_shape object = x" "shape_lookup (oh_table H) x k = Some p"
    "shape_lookup (oh_table H') x k = Some p" "sp_index p = i" "\<not> is_accessor p"
proof -
  obtain object p where o: "plain H h object" "ho_shape object = x" "\<not> is_dictionary (oh_table H) x"
    "shape_lookup (oh_table H) x k = Some p" "sp_index p = i" "\<not> is_accessor p"
    using assms(4) by (cases "oh_objects H h")
      (auto simp: own_data_property_index_def resolve_object_def plain_def split: if_splits option.splits)
  have "shape_lookup (oh_table H') x = shape_lookup (oh_table H) x"
    by (rule shared_lookup(1)) (use assms(1-3) o heap_okD(3) [OF assms(1) o(1)] in \<open>auto simp: heap_ok_def\<close>)
  then show thesis using that o by simp
qed

lemma backfill_result:
  assumes "backfill_get_prop_ic H trio_key claimed object_value (Some k) slot = Some filled" "is_object object_value" "\<not> ic_slot_is_trio_site slot"
  obtains (own) x i where "own_data_property_index H (decode_object_handle object_value) k = Inr (Some (x, i))" "filled = fill_own x i"
    | (chain) object holder index p where "own_data_property_index H (decode_object_handle object_value) k = Inr None"
        "oh_objects H (decode_object_handle object_value) = Some object"
        "get_property_slot_on_proto_chain_for_ic H k (decode_object_handle object_value) = Some (Inr (Some (holder, index, p)))"
        "filled = fill_from_chain H claimed (decode_object_handle object_value) object holder index p slot"
    | (none) "filled = write_ic_slot_megamorphic slot"
proof -
  let ?h = "decode_object_handle object_value"
  consider e where "own_data_property_index H ?h k = Inl e" | q where "own_data_property_index H ?h k = Inr (Some q)"
    | "own_data_property_index H ?h k = Inr None" by (metis not_Some_eq sum.exhaust)
  then show thesis
  proof cases
    case 1
    then show thesis using none assms by (simp add: backfill_get_prop_ic_def)
  next
    case 2
    then show thesis using own assms by (cases q) (simp add: backfill_get_prop_ic_def)
  next
    case 3
    show thesis
    proof (cases "oh_objects H ?h")
      case None
      then show thesis using none 3 assms by (simp add: backfill_get_prop_ic_def resolve_object_def)
    next
      case (Some object)
      then obtain r where r: "get_property_slot_on_proto_chain_for_ic H k ?h = Some r"
        "filled = (case r of Inr (Some (holder, index, p)) \<Rightarrow> fill_from_chain H claimed ?h object holder index p slot
           | _ \<Rightarrow> write_ic_slot_megamorphic slot)"
        using 3 assms by (auto simp: backfill_get_prop_ic_def resolve_object_def Let_def)
      then show thesis using none chain [OF 3 Some] by (auto split: sum.splits option.splits prod.splits)
    qed
  qed
qed

lemma megamorphic_misses: "ic_get H (write_ic_slot_megamorphic slot) None v = IcMiss"
  by (simp add: ic_get_def write_ic_slot_megamorphic_def write_ic_slot_def ic_kind_is_own_hit_def ic_kind_defs Let_def split: option.splits)

definition answers :: "IcOutcome \<Rightarrow> HeapAccessV2Property \<Rightarrow> bool" where
  \<comment> \<open>a hit gives the value of a data property, or calls the getter of an accessor property\<close>
  "answers outcome p \<longleftrightarrow> (case outcome of
     IcHit v \<Rightarrow> hp_flags p AND FLAG_IS_ACCESSOR = 0 \<and> hp_value p = strip_gc_color v
   | IcInvoke g \<Rightarrow> hp_flags p AND FLAG_IS_ACCESSOR \<noteq> 0 \<and> hp_getter p = strip_gc_color g
   | IcMiss \<Rightarrow> False)"

lemma own_hit:
  assumes "ic_get H' (fill_own x i) None receiver \<noteq> IcMiss" "oh_objects H' (decode_object_handle receiver) = Some object"
  shows "ho_shape object = x" "ic_get H' (fill_own x i) None receiver = IcHit (ho_slots object ! unat i)"
  using assms by (auto simp: ic_get_def fill_own_def write_ic_slot_def ic_kind_is_own_hit_def ic_kind_defs Let_def split: if_splits)

lemma holder_hit:
  assumes "kind = IC_KIND_PROTO_DATA \<or> kind = IC_KIND_ACCESSOR" "filled = write_ic_slot x i kind generation holder e"
    "ic_get H' filled None receiver \<noteq> IcMiss" "oh_objects H' (decode_object_handle receiver) = Some object"
  shows "ho_shape object = x" "ho_prototype object = e" "st_generation (oh_table H') = generation"
    "oh_objects H' holder = Some hobject \<Longrightarrow> ic_get H' filled None receiver =
      (if kind = IC_KIND_ACCESSOR then IcInvoke (ho_slots hobject ! unat i) else IcHit (ho_slots hobject ! unat i))"
  using assms by (auto simp: ic_get_def write_ic_slot_def ic_kind_is_own_hit_def ic_kind_defs Let_def split: if_splits option.splits)

text \<open>
  C24: A read through an inline cache. However the heap has changed since the host filled the slot
  (fewer than \<open>2 ^ 32\<close> operations, so that the generation cannot come round), a hit for any ordinary
  object with the cached shape and prototype answers what the full walk along the prototype chain
  answers now: the value of the data property, or the getter of the accessor property that it finds. An
  accessor property of the object itself is excepted.
\<close>

theorem cached_reads_are_right:
  assumes "heap_step\<^sup>*\<^sup>* heap_new H" and "(heap_step ^^ n) H H'" and "n < 2 ^ 32"
    and "backfill_get_prop_ic H trio_key claimed object_value (Some k) slot = Some filled"
    and "is_object object_value" and "\<not> ic_slot_is_trio_site slot"
    and "ic_kind filled = IC_KIND_ACCESSOR \<longrightarrow> ic_holder_handle filled \<noteq> decode_object_handle object_value"
    and "oh_objects H' (decode_object_handle receiver) = Some object" and "\<not> ho_is_array object"
    and "\<not> proto_slot_is_exotic (decode_object_handle receiver)" and "ic_get H' filled None receiver \<noteq> IcMiss"
  shows "\<exists>holder p. get_property_slot_on_proto_chain H' (decode_object_handle receiver) k (decode_object_handle receiver)
      = Some (Inr (Some (holder, p))) \<and> answers (ic_get H' filled None receiver) p"
  using assms(4-6)
proof (cases rule: backfill_result)
  case (own x i)
  obtain trained p where p: "plain H (decode_object_handle object_value) trained" "ho_shape trained = x"
    "shape_lookup (oh_table H) x k = Some p" "shape_lookup (oh_table H') x k = Some p" "sp_index p = i" "\<not> is_accessor p"
    by (rule own_cached [OF later_steps(1-3) [OF assms(1-3)] own(1)])
  note hit = own_hit [OF assms(11) [unfolded own(2)] assms(8)]
  have "answers (ic_get H' filled None receiver) (read_prop object p)"
    using hit(2) p(5,6) by (simp add: own(2) answers_def read_prop_def load_value_slot_def is_accessor_def)
  moreover have "get_property_slot_on_proto_chain H' (decode_object_handle receiver) k (decode_object_handle receiver)
      = Some (Inr (Some (decode_object_handle receiver, read_prop object p)))"
    by (rule chain_here) (use assms(8-10) hit(1) p(4) in simp_all)
  ultimately show ?thesis by blast
next
  case (chain trained holder index p)
  let ?h = "decode_object_handle object_value" and ?r = "decode_object_handle receiver"
  let ?kind = "if hp_flags p AND FLAG_IS_ACCESSOR \<noteq> 0 then IC_KIND_ACCESSOR else IC_KIND_PROTO_DATA"
  have H: "heap_ok H" "closed H" using reachable_heap_ok [OF assms(1)] by auto
  have "stable_prototypes H H" by (auto simp: stable_prototypes_def)
  then have "later H H" using H by (simp add: later_def)
  then have "found_on_chain H H k ?h holder index p" using found_chain chain(3) by blast
  then obtain ho q where q: "cacheable H ?h trained" "cacheable H holder ho" "shape_lookup (oh_table H) (ho_shape ho) k = Some q"
      "p = read_prop ho q"
    using chain(2) by (auto simp: found_on_chain_def cacheable_def)
  have flags: "hp_flags p = sp_flags q" by (simp add: q(4) read_prop_def)
  have other: "hp_flags p AND FLAG_IS_ACCESSOR = 0 \<Longrightarrow> holder \<noteq> ?h"
  proof
    assume "hp_flags p AND FLAG_IS_ACCESSOR = 0" "holder = ?h"
    then have "own_data_property_index H ?h k = Inr (Some (ho_shape trained, sp_index q))"
      using q flags cacheable_plain [OF q(1)]
      by (auto simp: own_data_property_index_def resolve_object_def cacheable_def plain_def is_accessor_def)
    then show False using chain(1) by simp
  qed
  have "filled \<noteq> write_ic_slot_megamorphic slot" using assms(11) megamorphic_misses by metis
  then have filled: "filled = write_ic_slot (ho_shape trained) index ?kind (st_generation (oh_table H)) holder (ho_prototype trained)"
    using chain(4) other by (auto simp: fill_from_chain_def Let_def split: if_splits)
  then have away: "holder \<noteq> ?h" using other assms(7) by (cases "hp_flags p AND FLAG_IS_ACCESSOR = 0") (simp_all add: write_ic_slot_def)
  have kind: "?kind = IC_KIND_PROTO_DATA \<or> ?kind = IC_KIND_ACCESSOR" by simp
  note hit = holder_hit [OF kind filled assms(11,8)]
  have l: "later H H'" by (rule later_steps(4) [OF assms(1-3)]) (rule hit(3))
  have al: "alike trained object"
    using hit(1,2) assms(9) cacheable_plain [OF q(1)] by (simp add: alike_def plain_def)
  obtain object0 ho' q' where c: "cacheable H ?h object0" "sp_index q' = index" "p = read_prop ho' q'"
    "\<forall>c' object' handle. oh_objects H' c' = Some object' \<longrightarrow> alike object0 object' \<longrightarrow> \<not> proto_slot_is_exotic c' \<longrightarrow> c' = ?h \<or> holder \<noteq> ?h \<longrightarrow>
       (\<exists>hobject'. oh_objects H' holder = Some hobject' \<and>
         get_property_slot_on_proto_chain H' handle k c' = Some (Inr (Some (holder, read_prop hobject' q'))))"
    using found_chain [OF l chain(3)] unfolding found_on_chain_def by (elim exE conjE) (rule that; assumption)
  have "object0 = trained" using c(1) chain(2) by (simp add: cacheable_def)
  then obtain hobject where hob: "oh_objects H' holder = Some hobject"
    "get_property_slot_on_proto_chain H' ?r k ?r = Some (Inr (Some (holder, read_prop hobject q')))"
    using c(4) al assms(8,10) away by blast
  have "hp_flags p = sp_flags q'" using c(3) by (simp add: read_prop_def)
  note h = hob(1) c(2) this [symmetric] hob(2)
  have "answers (ic_get H' filled None receiver) (read_prop hobject q')"
    using hit(4) [OF h(1)] h(2,3)
    by (auto simp: answers_def read_prop_def load_value_slot_def is_accessor_def getter_index_def ic_kind_defs)
  then show ?thesis using h(4) by blast
next
  case none
  then show ?thesis using assms(11) megamorphic_misses by simp
qed

text \<open>
  A write through a cache that was filled when a write had been reported successful does what
  \<open>set_property\<close> does now, and the property it overwrites has the flags the own property had when the
  slot was filled. (\<open>Property_Write_Correct\<close> shows when that property is writable.)
\<close>

lemma filled_write_hits:
  assumes "heap_step\<^sup>*\<^sup>* heap_new H" and "heap_step\<^sup>*\<^sup>* H H'" and "\<not> ic_slot_is_trio_site slot"
    and "filled = backfill_set_prop_ic H trio_key object_value (Some k) success slot"
    and "oh_objects H' (decode_object_handle receiver) = Some object" and "\<not> ho_is_array object"
    and "ic_set H' filled None receiver stored = Some H''"
  shows "success \<and> set_property H' (decode_object_handle receiver) k stored = Some (Inr H'') \<and>
    (\<exists>p q. get_property_slot H (decode_object_handle object_value) k = Inr (Some p) \<and>
       get_property_slot H' (decode_object_handle receiver) k = Inr (Some q) \<and> hp_flags q = hp_flags p)"
proof -
  have "filled \<noteq> write_ic_slot_megamorphic slot"
    using assms(7) by (auto simp: ic_set_def write_ic_slot_megamorphic_def write_ic_slot_def ic_kind_is_own_hit_def ic_kind_defs Let_def
        split: option.splits if_splits)
  then obtain x i where f: "success" "own_data_property_index H (decode_object_handle object_value) k = Inr (Some (x, i))" "filled = fill_own x i"
    using assms(3,4) by (auto simp: backfill_set_prop_ic_def Let_def split: if_splits sum.splits option.splits)
  have H: "heap_ok H" "heap_ok H'" using reachable_heap_ok assms(1,2) by (meson rtranclp_trans)+
  obtain n where "(heap_step ^^ n) H H'" using assms(2) rtranclp_imp_relpowp by metis
  then have "effect n H H'" using steps_effect reachable_heap_ok [OF assms(1)] by blast
  then have "shared_kept (oh_table H) (oh_table H')" using table_steps_ok H(1) by (auto simp: effect_def heap_ok_def)
  then obtain trained p where p: "plain H (decode_object_handle object_value) trained" "ho_shape trained = x"
    "shape_lookup (oh_table H) x k = Some p" "shape_lookup (oh_table H') x k = Some p" "sp_index p = i" "\<not> is_accessor p"
    using own_cached [OF H _ f(2)] by metis
  have s: "ho_shape object = x" "H'' = store_value_slot (decode_object_handle receiver) i stored H'"
    using assms(5,7) f(3) by (auto simp: ic_set_def fill_own_def write_ic_slot_def ic_kind_is_own_hit_def split: if_splits)
  have "set_property H' (decode_object_handle receiver) k stored = Some (Inr H'')"
    using assms(5,6) s p(4-6) by (simp add: set_property_def resolve_object_def)
  moreover have "get_property_slot H (decode_object_handle object_value) k = Inr (Some (read_prop trained p))"
    using plain_reads(1) [OF p(1)] p(2,3) by simp
  moreover have "get_property_slot H' (decode_object_handle receiver) k = Inr (Some (read_prop object p))"
    using assms(5,6) s(1) p(4) by (simp add: get_property_slot_def resolve_object_def)
  ultimately show ?thesis using f(1) by (auto simp: read_prop_def)
qed

section \<open>Samples, and where a cache is wrong\<close>

definition two_objects :: object_heap where
  \<comment> \<open>two objects with the prototype \<open>null\<close>\<close>
  "two_objects = heap_new\<lparr>oh_objects := (\<lambda>h. if h = 1 \<or> h = 2 then Some
     \<lparr>ho_type = HEAP_TYPE_OBJECT, ho_prototype = PROTO_NULL_SENTINEL, ho_shape = SHAPE_ID_EMPTY, ho_slots = [0, 0, 0, 0]\<rparr> else None)\<rparr>"

lemma two_objects_reachable: "heap_step\<^sup>*\<^sup>* heap_new two_objects"
proof -
  have "set_prototype (publish_object 2 PROTO_NULL_SENTINEL [0, 0, 0, 0] sample_heap) 2 PROTO_NULL_SENTINEL = Inr two_objects"
    by (simp add: set_prototype_def resolve_object_def sample_heap_def two_objects_def heap_new_def update_object_def note_prototype_def
        invalidate_if_prototype_def shape_table_new_def fun_eq_iff)
  then have "heap_step sample_heap two_objects"
    by (rule heap_allocate [rotated 3]) (auto simp: sample_heap_def heap_new_def valid_prototype_def)
  then show ?thesis using sample_heap_reachable by simp
qed

lemmas cache_evaluation = define_data_property_def define_accessor_property_def define_accessor_property_with_flags_def
  define_property_slot_def apply_transition_def resolve_object_def
  transition_add_def transition_from_def unchanged_prop_def shape_find_def new_transition_def follow_transition_def assign_prop_def push_prop_def
  shape_at_def get_at_def DICTIONARY_THRESHOLD_def SHAPE_TABLE_BUDGET_def SHAPE_MAP_THRESHOLD_def slot_span_def slot_span_for_def
  FLAG_IS_ACCESSOR_def FLAG_CONFIGURABLE_def FLAG_ENUMERABLE_def FLAG_WRITABLE_def ho_is_array_def HEAP_TYPE_OBJECT_def HEAP_TYPE_ARRAY_def
  store_value_slot_def write_shape_id_def invalidate_if_prototype_def SHAPE_ID_EMPTY_def
  shape_table_new_def shape_default_def heap_new_def

definition twice_defined :: "u32 \<Rightarrow> u64 \<Rightarrow> u64 \<Rightarrow> object_heap option" where
  \<comment> \<open>both objects get the property, as two evaluations of the same object literal give it to them\<close>
  "twice_defined flags v1 v2 =
     (case define_property_slot two_objects 1 (from_name_id 7) flags v1 v1 encode_undefined of
        Some (Inr H) \<Rightarrow>
          (case define_property_slot H 2 (from_name_id 7) flags v2 v2 encode_undefined of Some (Inr H') \<Rightarrow> Some H' | _ \<Rightarrow> None)
      | _ \<Rightarrow> None)"

definition shared_heap :: "u32 \<Rightarrow> u32 \<Rightarrow> u64 list \<Rightarrow> u64 list \<Rightarrow> object_heap" where
  "shared_heap flags count slots1 slots2 =
     \<lparr>oh_table = \<lparr>st_shapes = [shape_default\<lparr>shp_transitions := [((from_name_id 7, flags), 1)]\<rparr>,
          \<lparr>shp_props = [\<lparr>sp_name = from_name_id 7, sp_flags = flags, sp_index = 0\<rparr>], shp_index_of = None, shp_transitions = [],
           shp_slot_count = count, shp_dictionary = False\<rparr>], st_prototypes = {}, st_generation = 0\<rparr>,
      oh_objects = (\<lambda>h. if h = 1 \<or> h = 2 then Some
        \<lparr>ho_type = HEAP_TYPE_OBJECT, ho_prototype = PROTO_NULL_SENTINEL, ho_shape = 1,
         ho_slots = (if h = 1 then slots1 else slots2)\<rparr> else None)\<rparr>"

lemma twice_defined_getters: "twice_defined 11 g1 g2 = Some (shared_heap 11 2 [g1, encode_undefined, 0, 0] [g2, encode_undefined, 0, 0])"
  by (simp add: twice_defined_def two_objects_def shared_heap_def cache_evaluation update_object_def fun_eq_iff)

lemma twice_defined_values: "twice_defined 7 v1 v2 = Some (shared_heap 7 1 [v1, 0, 0, 0] [v2, 0, 0, 0])"
  by (simp add: twice_defined_def two_objects_def shared_heap_def cache_evaluation update_object_def fun_eq_iff)

lemma two_objects_room: "has_room two_objects 1" "has_room two_objects 2"
  using empty_new(2) by (simp_all add: has_room_def two_objects_def heap_new_def)

lemma first_room:
  assumes "define_property_slot two_objects 1 (from_name_id 7) flags v1 v1 encode_undefined = Some (Inr H)"
  shows "has_room H 2"
proof -
  obtain object where o: "plain two_objects 1 object" "ho_shape object = SHAPE_ID_EMPTY"
    by (auto simp: plain_def two_objects_def ho_is_array_def HEAP_TYPE_OBJECT_def HEAP_TYPE_ARRAY_def)
  have "moved 1 two_objects H" by (rule define_moved [OF two_objects_room(1) assms])
  then have m: "oh_objects H 2 = oh_objects two_objects 2" "table_step\<^sup>*\<^sup>* shape_table_new (oh_table H)"
    by (simp_all add: moved_def two_objects_def heap_new_def)
  have "shared_kept shape_table_new (oh_table H)" using table_steps_ok [OF m(2) new_table_ok] by simp
  then obtain s where s: "shape_at (oh_table H) SHAPE_ID_EMPTY = Some s" "same_layout shape_default s"
    using kept_shape [OF _ empty_new(1)] by (auto simp: shape_default_def)
  have "length (st_shapes (oh_table H)) \<le> 3"
    using assms by (auto simp: define_property_slot_def two_objects_def cache_evaluation split: if_splits)
  then show ?thesis using m(1) s by (auto simp: has_room_def room_def two_objects_def same_layout_def shape_default_def)
qed

lemma small_objects:
  "is_object (encode_object_handle 1)" "is_object (encode_object_handle 2)"
  "decode_object_handle (encode_object_handle 1) = 1" "decode_object_handle (encode_object_handle 2) = 2"
  "\<not> proto_slot_is_exotic 1" "\<not> proto_slot_is_exotic 2"
  by (code_simp)+

definition empty_ic_slot :: IcSlot where
  "empty_ic_slot = write_ic_slot 0 0 IC_KIND_EMPTY 0 0 0"

lemma empty_ic_slot_site: "\<not> ic_slot_is_trio_site empty_ic_slot"
  by (simp add: empty_ic_slot_def ic_slot_is_trio_site_def write_ic_slot_def ic_kind_defs IC_SLOT_TRIO_SITE_MARKER_def)

lemma shared_lookup_sample:
  "shape_lookup (oh_table (shared_heap flags count slots1 slots2)) 1 (from_name_id 7) = Some \<lparr>sp_name = from_name_id 7, sp_flags = flags, sp_index = 0\<rparr>"
  "\<not> is_dictionary (oh_table (shared_heap flags count slots1 slots2)) 1"
  by (simp_all add: shape_lookup_def is_dictionary_def shape_at_def get_at_def shared_heap_def shape_find_def)

lemma getter_backfill:
  assumes "is_callable (strip_gc_color g1)"
  shows "backfill_get_prop_ic (shared_heap 11 2 (g1 # slots1) slots2) trio_key (\<lambda>_. False) (encode_object_handle 1) (Some (from_name_id 7)) empty_ic_slot
    = Some (write_ic_slot 1 0 IC_KIND_ACCESSOR 0 1 PROTO_NULL_SENTINEL)"
proof -
  let ?H = "shared_heap 11 2 (g1 # slots1) slots2"
  note l = shared_lookup_sample [of 11 2 "g1 # slots1" slots2]
  define object where "object = the (oh_objects ?H 1)"
  have o: "oh_objects ?H 1 = Some object" "ho_type object = HEAP_TYPE_OBJECT" "ho_shape object = 1"
    "ho_prototype object = PROTO_NULL_SENTINEL" "ho_slots object = g1 # slots1" by (simp_all add: shared_heap_def object_def)
  have own: "own_data_property_index ?H 1 (from_name_id 7) = Inr None"
    using o l by (simp add: own_data_property_index_def resolve_object_def ho_is_array_def is_accessor_def FLAG_IS_ACCESSOR_def)
  have "get_property_slot_on_proto_chain_for_ic ?H (from_name_id 7) 1 =
      Some (Inr (Some (1, 0, read_prop object \<lparr>sp_name = from_name_id 7, sp_flags = 11, sp_index = 0\<rparr>)))"
    using o l small_objects(5) by (subst get_property_slot_on_proto_chain_for_ic.simps) (simp add: resolve_object_def)
  then show ?thesis
    using own o small_objects assms empty_ic_slot_site
    by (simp add: backfill_get_prop_ic_def resolve_object_def fill_from_chain_def read_prop_def is_accessor_def FLAG_IS_ACCESSOR_def
        load_value_slot_def getter_index_def shared_heap_def)
qed

lemma twice_defined_reachable:
  assumes "twice_defined flags v1 v2 = Some H"
  shows "heap_step\<^sup>*\<^sup>* heap_new H"
proof -
  obtain H1 where H1: "define_property_slot two_objects 1 (from_name_id 7) flags v1 v1 encode_undefined = Some (Inr H1)"
    "define_property_slot H1 2 (from_name_id 7) flags v2 v2 encode_undefined = Some (Inr H)"
    using assms by (auto simp: twice_defined_def split: option.splits sum.splits)
  have "heap_step two_objects H1" by (rule heap_define [OF two_objects_room(1) H1(1)])
  moreover have "heap_step H1 H" by (rule heap_define [OF first_room [OF H1(1)] H1(2)])
  ultimately show ?thesis using two_objects_reachable by (meson rtranclp.rtrancl_into_rtrancl)
qed

lemma values_backfill:
  "own_data_property_index (shared_heap 7 1 slots1 slots2) 1 (from_name_id 7) = Inr (Some (1, 0))"
  using shared_lookup_sample [of 7 1 slots1 slots2]
  by (simp add: own_data_property_index_def resolve_object_def shared_heap_def ho_is_array_def HEAP_TYPE_OBJECT_def HEAP_TYPE_ARRAY_def
      is_accessor_def FLAG_IS_ACCESSOR_def)

definition trio_names :: "TrioField \<Rightarrow> PropertyKey" where
  "trio_names f = from_name_id (case f of TrioName \<Rightarrow> 1 | TrioValue \<Rightarrow> 2 | TrioLength \<Rightarrow> 3)"

theorem cached_reads_are_right_witness:
  "\<exists>H filled p holder. twice_defined 7 5 6 = Some H \<and>
     backfill_get_prop_ic H trio_names (\<lambda>_. False) (encode_object_handle 1) (Some (from_name_id 7)) empty_ic_slot = Some filled \<and>
     get_property_slot_on_proto_chain (store_value_slot 2 0 9 H) 2 (from_name_id 7) 2 = Some (Inr (Some (holder, p))) \<and>
     answers (IcHit 9) p"
proof -
  let ?H = "shared_heap 7 1 [5, 0, 0, 0] [6, 0, 0, 0]"
  let ?H' = "store_value_slot 2 0 9 ?H"
  have fill: "backfill_get_prop_ic ?H trio_names (\<lambda>_. False) (encode_object_handle 1) (Some (from_name_id 7)) empty_ic_slot = Some (fill_own 1 0)"
    using values_backfill [of "[5, 0, 0, 0]" "[6, 0, 0, 0]"] small_objects empty_ic_slot_site by (simp add: backfill_get_prop_ic_def)
  have steps: "(heap_step ^^ 1) ?H ?H'" by (simp add: eq_OO heap_store)
  define object where "object = the (oh_objects ?H' 2)"
  have o: "oh_objects ?H' 2 = Some object" "ho_type object = HEAP_TYPE_OBJECT" "ho_shape object = 1" "ho_slots object = [9, 0, 0, 0]"
    by (simp_all add: object_def shared_heap_def store_value_slot_def)
  have hit: "ic_get ?H' (fill_own 1 0) None (encode_object_handle 2) = IcHit 9"
    using o small_objects by (simp add: ic_get_def fill_own_def write_ic_slot_def ic_kind_is_own_hit_def ic_kind_defs)
  have "\<exists>holder p. get_property_slot_on_proto_chain ?H' 2 (from_name_id 7) 2 = Some (Inr (Some (holder, p))) \<and> answers (IcHit 9) p"
    using cached_reads_are_right [OF twice_defined_reachable [OF twice_defined_values] steps _ fill small_objects(1) empty_ic_slot_site,
        of "encode_object_handle 2" object] hit o small_objects
    by (simp add: fill_own_def write_ic_slot_def ic_kind_defs ho_is_array_def HEAP_TYPE_OBJECT_def HEAP_TYPE_ARRAY_def)
  then show ?thesis using twice_defined_values fill by blast
qed

text \<open>
  C37: The cache of an own getter answers for the wrong object. Two objects of the same literal share
  their shape and prototype but have their own getters. A slot filled by reading the property of the
  first object records that object as the holder; reading the property of the second one hits, and calls
  the getter of the first instead of the getter the lookup finds.
\<close>

theorem own_getters_are_confused:
  assumes "is_callable (strip_gc_color g1)" and "twice_defined 11 g1 g2 = Some H"
  shows "\<exists>filled p. heap_step\<^sup>*\<^sup>* heap_new H \<and>
    backfill_get_prop_ic H trio_key (\<lambda>_. False) (encode_object_handle 1) (Some (from_name_id 7)) empty_ic_slot = Some filled \<and>
    ic_get H filled None (encode_object_handle 2) = IcInvoke g1 \<and>
    get_property_slot_on_proto_chain H 2 (from_name_id 7) 2 = Some (Inr (Some (2, p))) \<and> hp_getter p = strip_gc_color g2"
proof -
  let ?H = "shared_heap 11 2 [g1, encode_undefined, 0, 0] [g2, encode_undefined, 0, 0]"
  let ?filled = "write_ic_slot 1 0 IC_KIND_ACCESSOR 0 1 PROTO_NULL_SENTINEL"
  let ?q = "\<lparr>sp_name = from_name_id 7, sp_flags = 11, sp_index = 0\<rparr>"
  have H: "H = ?H" using assms(2) twice_defined_getters by simp
  define object where "object = the (oh_objects ?H 2)"
  have o: "oh_objects ?H 2 = Some object" "ho_type object = HEAP_TYPE_OBJECT" "ho_shape object = 1"
    "ho_prototype object = PROTO_NULL_SENTINEL" "ho_slots object = [g2, encode_undefined, 0, 0]"
    by (simp_all add: object_def shared_heap_def)
  have hit: "ic_get ?H ?filled None (encode_object_handle 2) = IcInvoke g1"
    using small_objects by (simp add: ic_get_def write_ic_slot_def ic_kind_is_own_hit_def ic_kind_defs shared_heap_def)
  have chain: "get_property_slot_on_proto_chain ?H 2 (from_name_id 7) 2 = Some (Inr (Some (2, read_prop object ?q)))"
    by (rule chain_here) (use o shared_lookup_sample small_objects in \<open>simp_all add: ho_is_array_def HEAP_TYPE_OBJECT_def HEAP_TYPE_ARRAY_def\<close>)
  have "hp_getter (read_prop object ?q) = strip_gc_color g2"
    using o by (simp add: read_prop_def is_accessor_def FLAG_IS_ACCESSOR_def load_value_slot_def getter_index_def)
  then show ?thesis using hit chain getter_backfill [OF assms(1)] twice_defined_reachable [OF assms(2)] unfolding H by blast
qed

theorem own_getters_are_confused_witness:
  "\<exists>H filled. twice_defined 11 (encode_closure_idx 3) (encode_closure_idx 4) = Some H \<and>
     ic_get H filled None (encode_object_handle 2) = IcInvoke (encode_closure_idx 3)"
proof -
  have "is_callable (strip_gc_color (encode_closure_idx 3))" by code_simp
  then show ?thesis using own_getters_are_confused twice_defined_getters by meson
qed

definition record_heap :: "object_heap option" where
  \<comment> \<open>the properties \<open>name\<close>, \<open>value\<close> and \<open>length\<close>; \<open>value\<close> is not writable\<close>
  "record_heap =
     (case define_data_property sample_heap 1 (trio_names TrioName) 5 7 of
        Some (Inr H) \<Rightarrow>
          (case define_data_property H 1 (trio_names TrioValue) 6 3 of
             Some (Inr H) \<Rightarrow> (case define_data_property H 1 (trio_names TrioLength) 7 7 of Some (Inr H) \<Rightarrow> Some H | _ \<Rightarrow> None)
           | _ \<Rightarrow> None)
      | _ \<Rightarrow> None)"

definition record_shape :: "nat \<Rightarrow> Shape" where
  "record_shape n =
     \<lparr>shp_props = take n [\<lparr>sp_name = from_name_id 1, sp_flags = 7, sp_index = 0\<rparr>, \<lparr>sp_name = from_name_id 2, sp_flags = 3, sp_index = 1\<rparr>,
         \<lparr>sp_name = from_name_id 3, sp_flags = 7, sp_index = 2\<rparr>],
      shp_index_of = None,
      shp_transitions = drop n (take (Suc n) [((from_name_id 1, 7), 1), ((from_name_id 2, 3), 2), ((from_name_id 3, 7), 3)]),
      shp_slot_count = of_nat n, shp_dictionary = False\<rparr>"

definition recorded :: "u64 \<Rightarrow> object_heap" where
  "recorded v =
     \<lparr>oh_table = \<lparr>st_shapes = [record_shape 0, record_shape 1, record_shape 2, record_shape 3], st_prototypes = {}, st_generation = 0\<rparr>,
      oh_objects = [1 \<mapsto>
        \<lparr>ho_type = HEAP_TYPE_OBJECT, ho_prototype = PROTO_NULL_SENTINEL, ho_shape = 3, ho_slots = [5, v, 7, 0]\<rparr>]\<rparr>"

lemma names_differ: "from_name_id a = from_name_id b \<longleftrightarrow> (ucast a :: u64) = ucast b"
  by (simp add: from_name_id_def)

lemma record_heap_result: "record_heap = Some (recorded 6)"
  by (simp add: record_heap_def recorded_def record_shape_def sample_heap_def trio_names_def names_differ cache_evaluation update_object_def)

theorem trio_slot_writes_read_only:
  \<comment> \<open>one slot serves reads and writes of all three names; reading \<open>name\<close> fills it, writing \<open>value\<close> hits\<close>
  "\<exists>H filled H' p p'. record_heap = Some H \<and>
     backfill_get_prop_ic H trio_names (\<lambda>_. False) (encode_object_handle 1) (Some (trio_names TrioName))
       (empty_ic_slot\<lparr>ic_reserved1 := IC_SLOT_TRIO_SITE_MARKER\<rparr>) = Some filled \<and>
     ic_set H filled (Some TrioValue) (encode_object_handle 1) 9 = Some H' \<and>
     get_property_slot H 1 (trio_names TrioValue) = Inr (Some p) \<and> get_property_slot H' 1 (trio_names TrioValue) = Inr (Some p') \<and>
     hp_flags p AND FLAG_WRITABLE = 0 \<and> hp_flags p' = hp_flags p \<and> hp_value p = strip_gc_color 6 \<and> hp_value p' = strip_gc_color 9"
proof -
  let ?H = "recorded 6"
  have l: "shape_lookup (oh_table (recorded v)) 3 (from_name_id 1) = Some \<lparr>sp_name = from_name_id 1, sp_flags = 7, sp_index = 0\<rparr>"
    "shape_lookup (oh_table (recorded v)) 3 (from_name_id 2) = Some \<lparr>sp_name = from_name_id 2, sp_flags = 3, sp_index = 1\<rparr>"
    "shape_lookup (oh_table (recorded v)) 3 (from_name_id 3) = Some \<lparr>sp_name = from_name_id 3, sp_flags = 7, sp_index = 2\<rparr>"
    "\<not> is_dictionary (oh_table (recorded v)) 3" for v
    by (simp_all add: shape_lookup_def is_dictionary_def shape_at_def get_at_def recorded_def record_shape_def shape_find_def names_differ)
  have o: "oh_objects (recorded v) 1 = Some \<lparr>ho_type = HEAP_TYPE_OBJECT, ho_prototype = PROTO_NULL_SENTINEL, ho_shape = 3, ho_slots = [5, v, 7, 0]\<rparr>" for v
    by (simp add: recorded_def)
  have na: "HEAP_TYPE_OBJECT \<noteq> HEAP_TYPE_ARRAY" by (simp add: HEAP_TYPE_OBJECT_def HEAP_TYPE_ARRAY_def)
  let ?filled = "write_ic_slot 3 0 IC_KIND_OWN_DATA_TRIO 0 1 2"
  have own: "own_data_property_index ?H 1 (trio_names f) = Inr (Some (3, case f of TrioName \<Rightarrow> 0 | TrioValue \<Rightarrow> 1 | TrioLength \<Rightarrow> 2))" for f
    using o l na by (cases f) (simp_all add: own_data_property_index_def resolve_object_def ho_is_array_def trio_names_def is_accessor_def FLAG_IS_ACCESSOR_def)
  have fill: "backfill_get_prop_ic ?H trio_names (\<lambda>_. False) (encode_object_handle 1) (Some (trio_names TrioName))
       (empty_ic_slot\<lparr>ic_reserved1 := IC_SLOT_TRIO_SITE_MARKER\<rparr>) = Some ?filled"
    using own small_objects by (simp add: backfill_get_prop_ic_def backfill_trio_ic_slot_def ic_slot_is_trio_site_def)
  have set: "ic_set ?H ?filled (Some TrioValue) (encode_object_handle 1) 9 = Some (recorded 9)"
    using o small_objects by (simp add: ic_set_def write_ic_slot_def ic_kind_is_own_hit_def store_value_slot_def update_object_def recorded_def)
  have read: "get_property_slot (recorded v) 1 (trio_names TrioValue) =
      Inr (Some \<lparr>hp_flags = 3, hp_value = strip_gc_color v, hp_getter = encode_undefined, hp_setter = encode_undefined\<rparr>)" for v
    using o l na by (simp add: get_property_slot_def resolve_object_def ho_is_array_def trio_names_def read_prop_def is_accessor_def
        FLAG_IS_ACCESSOR_def load_value_slot_def)
  show ?thesis
    using record_heap_result fill set read [of 6] read [of 9] by (auto simp: FLAG_WRITABLE_def)
qed

end
