(* ===== verification/Property_Write_Correct.thy ===== *)
theory Property_Write_Correct
  imports Property_Write Inline_Cache_Correct
begin

text \<open>
  A write that reports success without calling a setter has written a writable property, so a cache
  that it fills writes only what is writable; after a setter that need not be so.
\<close>

section \<open>Values of objects\<close>

lemma object_value_kinds:
  assumes "is_object v"
  shows "\<not> is_proxy v" "\<not> is_array v" "\<not> is_regexp v" "\<not> is_callable v" "\<not> is_primitive_value v"
    "object_handle v = Some (decode_object_handle v)"
proof -
  have v: "is_tagged v TAG_OBJECT" using assms by (simp add: is_object_def)
  have "\<not> is_tagged v t" if "t \<noteq> TAG_OBJECT" for t using is_tagged_unique [OF v, of t] that by blast
  then have other: "\<not> is_proxy v" "\<not> is_array v" "\<not> is_regexp v" "\<not> is_callable v" "\<not> is_null v" "\<not> is_undefined v" "\<not> is_bool v"
    "\<not> is_symbol v" "\<not> is_bigint v" "\<not> is_tagged v TAG_STRING"
    by (simp_all add: is_kind_defs is_callable_def TAG_OBJECT_def TAG_ARRAY_def TAG_FUNCTION_def TAG_CLOSURE_def TAG_BOUND_def TAG_PROXY_def
        TAG_NATIVE_CALLABLE_def TAG_STRING_def TAG_REGEXP_def TAG_NULL_def TAG_UNDEFINED_def TAG_BOOL_def TAG_SYMBOL_def TAG_BIGINT_def)
  then show "\<not> is_proxy v" "\<not> is_array v" "\<not> is_regexp v" "\<not> is_callable v" by auto
  show "\<not> is_primitive_value v" using other not_inline_tagged [OF v] by (simp add: is_primitive_value_def is_string_def)
  show "object_handle v = Some (decode_object_handle v)"
    using assms by (simp add: object_handle_def decode_handle_def decode_object_handle_def)
qed

lemma handle_round_trip: "decode_handle (encode_handle t h) = h"
  by (simp add: decode_handle_def encode_handle_def low32_boxed)

lemma plain_prototype:
  assumes "\<not> proto_slot_is_exotic q" "q \<noteq> PROTO_NULL_SENTINEL"
  obtains v where "decode_proto_slot H q = Some v" "\<not> is_callable v" "\<not> is_proxy v" "\<not> is_regexp v" "object_handle v = Some q"
proof -
  have "q AND (PROTO_PROXY_FLAG OR PROTO_REGEXP_FLAG) = 0" using assms by (simp add: proto_slot_is_exotic_def)
  then have q: "q AND PROTO_PROXY_FLAG = 0" "q AND PROTO_REGEXP_FLAG = 0" by (simp_all add: bit.conj_disj_distrib or_eq_0_iff)
  have tags: "take_bit 5 TAG_OBJECT = TAG_OBJECT" "take_bit 5 TAG_ARRAY = TAG_ARRAY" by code_simp+
  have e: "encode_object_handle q = encode_handle TAG_OBJECT q" by (simp add: encode_object_handle_def encode_handle_def)
  note kinds = is_kind_defs is_callable_def is_tagged_handle tags TAG_OBJECT_def TAG_ARRAY_def TAG_FUNCTION_def TAG_CLOSURE_def TAG_BOUND_def
    TAG_PROXY_def TAG_NATIVE_CALLABLE_def TAG_REGEXP_def
  have "\<exists>v\<in>{encode_handle TAG_ARRAY q, encode_handle TAG_OBJECT q}. decode_proto_slot H q = Some v"
    using assms(2) q by (simp add: decode_proto_slot_def e)
  moreover have "\<not> is_callable v \<and> \<not> is_proxy v \<and> \<not> is_regexp v \<and> object_handle v = Some q"
    if "v \<in> {encode_handle TAG_ARRAY q, encode_handle TAG_OBJECT q}" for v
    using that by (auto simp: object_handle_def handle_round_trip kinds)
  ultimately show thesis using that by blast
qed

section \<open>Writes that call no setter\<close>

definition no_accessor_found :: "object_heap \<Rightarrow> u32 \<Rightarrow> PropertyKey \<Rightarrow> bool" where
  \<comment> \<open>the walk along the prototype chain ends with a data property or none, and meets no exotic object\<close>
  "no_accessor_found H handle k \<longleftrightarrow>
     (case get_property_slot_on_proto_chain H handle k handle of
        Some (Inr None) \<Rightarrow> True
      | Some (Inr (Some (holder, p))) \<Rightarrow> hp_flags p AND FLAG_IS_ACCESSOR = 0
      | _ \<Rightarrow> False)"

lemma ordinary_set_result:
  assumes "ordinary_set_key host H target k stored receiver = Some r" and "object_handle target = Some c"
    and "\<not> is_callable target" and "\<not> proto_slot_is_exotic c"
    and "get_property_slot_on_proto_chain H handle k c = Some (Inr found)"
    and "\<forall>holder p. found = Some (holder, p) \<longrightarrow> hp_flags p AND FLAG_IS_ACCESSOR = 0"
  shows "fst r \<noteq> Inr Written \<or> assign_data_property_to_receiver host H receiver k stored = Some r"
proof -
  define ok where "ok = (\<lambda>target :: u64. \<exists>c. object_handle target = Some c \<and> \<not> is_callable target \<and> \<not> proto_slot_is_exotic c \<and>
    get_property_slot_on_proto_chain H handle k c = Some (Inr found))"
  define P where "P = (\<lambda>host0 H0 target k0 stored0 receiver0 (y :: set_result).
    host0 = host \<longrightarrow> H0 = H \<longrightarrow> k0 = k \<longrightarrow> stored0 = stored \<longrightarrow> receiver0 = receiver \<longrightarrow> ok target \<longrightarrow>
    fst y \<noteq> Inr Written \<or> assign_data_property_to_receiver host H receiver k stored = Some y)"
  have "P host H target k stored receiver r"
  proof (rule ordinary_set_key.raw_induct [where P = P, OF _ assms(1)], goal_cases)
    case (1 f host0 H0 target k0 stored0 receiver0 y)
    show ?case unfolding P_def
    proof (intro impI)
      assume eqs: "host0 = host" "H0 = H" "k0 = k" "stored0 = stored" "receiver0 = receiver" and ok: "ok target"
      obtain c where c: "object_handle target = Some c" "\<not> is_callable target" "\<not> proto_slot_is_exotic c"
        "get_property_slot_on_proto_chain H handle k c = Some (Inr found)" using ok by (auto simp: ok_def)
      have rec: "fst y \<noteq> Inr Written \<or> assign_data_property_to_receiver host H receiver k stored = Some y"
        if "f host H v k stored receiver = Some y" "ok v" for v
        using 1(1) [OF that(1)] that(2) by (simp add: P_def)
      note step = 1(2) [unfolded eqs]
      have walk: "get_property_slot_on_proto_chain H handle k c = Some (Inr found)" by (rule c(4))
      obtain object where o: "oh_objects H c = Some object"
        using walk c(3) by (subst (asm) get_property_slot_on_proto_chain.simps) (cases "oh_objects H c", auto simp: resolve_object_def)
      obtain own where own: "get_property_slot H c k = Inr own"
        using o by (cases "ho_is_array object") (auto simp: get_property_slot_def resolve_object_def)
      show "fst y \<noteq> Inr Written \<or> assign_data_property_to_receiver host H receiver k stored = Some y"
      proof (cases own)
        case (Some p)
        then have "hp_flags p AND FLAG_IS_ACCESSOR = 0"
          using walk c(3) o own assms(6)
          by (subst (asm) get_property_slot_on_proto_chain.simps) (auto simp: resolve_object_def split: if_splits)
        then show ?thesis using step c(1,2) own Some by (auto split: if_splits)
      next
        case None
        let ?q = "ho_prototype object"
        have "?q = PROTO_NULL_SENTINEL \<or>
            ?q \<noteq> PROTO_NULL_SENTINEL \<and> \<not> proto_slot_is_exotic ?q \<and> get_property_slot_on_proto_chain H handle k ?q = Some (Inr found)"
        proof (cases "?q = c")
          case True
          then show ?thesis using walk c(3) by simp
        next
          case False
          then show ?thesis
            using walk c(3) o own None
            by (subst (asm) get_property_slot_on_proto_chain.simps) (auto simp: resolve_object_def split: if_splits)
        qed
        then consider "?q = PROTO_NULL_SENTINEL" | "?q \<noteq> PROTO_NULL_SENTINEL" "\<not> proto_slot_is_exotic ?q"
            "get_property_slot_on_proto_chain H handle k ?q = Some (Inr found)" by blast
        then show ?thesis
        proof cases
          case 1
          then show ?thesis using step c(1,2) own None o by (auto simp: decode_proto_slot_def resolve_object_def split: if_splits)
        next
          case 2
          obtain v where v: "decode_proto_slot H ?q = Some v" "\<not> is_callable v" "\<not> is_proxy v" "\<not> is_regexp v" "object_handle v = Some ?q"
            by (rule plain_prototype [OF 2(2,1)])
          show ?thesis
          proof (cases "c \<in> module_namespace_objects host")
            case True
            then show ?thesis using step c(1,2) own None by auto
          next
            case False
            then have "f host H v k stored receiver = Some y" using step c(1,2) own None o v by (simp add: resolve_object_def)
            then show ?thesis by (rule rec) (use v 2 in \<open>auto simp: ok_def\<close>)
          qed
        qed
      qed
    qed
  qed
  then show ?thesis using assms(2-5) by (auto simp: P_def ok_def)
qed

lemma written_is_writable:
  assumes H: "heap_ok H" "has_room H h" and set: "set_property H h k v = Some (Inr H')"
    and own: "\<forall>p. get_property_slot H h k = Inr (Some p) \<longrightarrow> hp_flags p AND FLAG_IS_ACCESSOR = 0 \<and> hp_flags p AND FLAG_WRITABLE \<noteq> 0"
  shows "\<exists>p. get_property_slot H' h k = Inr (Some p) \<and> hp_flags p AND FLAG_IS_ACCESSOR = 0 \<and> hp_flags p AND FLAG_WRITABLE \<noteq> 0"
proof -
  obtain object where o: "plain H h object"
    using set by (cases "oh_objects H h") (auto simp: set_property_def resolve_object_def plain_def split: if_splits)
  have read: "get_property_slot H h k = Inr (map_option (read_prop object) (shape_lookup (oh_table H) (ho_shape object) k))"
    by (rule plain_reads(1) [OF o])
  show ?thesis
  proof (cases "shape_lookup (oh_table H) (ho_shape object) k")
    case None
    then have d: "define_property_slot H h k (FLAG_CONFIGURABLE OR FLAG_ENUMERABLE OR FLAG_WRITABLE) v encode_undefined encode_undefined = Some (Inr H')"
      using set o by (simp add: set_property_def resolve_object_def plain_def)
    have "room (oh_table H) (ho_shape object)" using H(2) o by (simp add: has_room_def plain_def)
    then have "get_property_slot H' h k = Inr (Some (property_of (FLAG_CONFIGURABLE OR FLAG_ENUMERABLE OR FLAG_WRITABLE) v encode_undefined encode_undefined))"
      using define_slot_result [OF H(1) o] d by (metis option.inject sum.inject(2))
    then show ?thesis by (simp add: property_of_def FLAG_CONFIGURABLE_def FLAG_ENUMERABLE_def FLAG_WRITABLE_def FLAG_IS_ACCESSOR_def)
  next
    case (Some q)
    have flags: "hp_flags (read_prop object q) = sp_flags q" "hp_flags (read_prop (object\<lparr>ho_slots := S\<rparr>) q) = sp_flags q" for S
      by (simp_all add: read_prop_def)
    then have q: "sp_flags q AND FLAG_IS_ACCESSOR = 0" "sp_flags q AND FLAG_WRITABLE \<noteq> 0" using own read Some by auto
    then have "H' = store_value_slot h (sp_index q) v H" using set o Some by (simp add: set_property_def resolve_object_def plain_def is_accessor_def)
    then have "get_property_slot H' h k = Inr (Some (read_prop (object\<lparr>ho_slots := (ho_slots object)[unat (sp_index q) := v]\<rparr>) q))"
      using o Some by (simp add: get_property_slot_def resolve_object_def store_value_slot_def update_object_def plain_def ho_is_array_def)
    then show ?thesis using flags q by simp
  qed
qed

lemma written_completion:
  assumes "is_object v" "\<not> proto_slot_is_exotic (decode_object_handle v)" "no_accessor_found H (decode_object_handle v) k"
    and "set_property_completion host H v k stored = Some (Inr Written, H')"
  shows "set_property H (decode_object_handle v) k stored = Some (Inr H')"
    and "\<forall>p. get_property_slot H (decode_object_handle v) k = Inr (Some p) \<longrightarrow>
      hp_flags p AND FLAG_IS_ACCESSOR = 0 \<and> hp_flags p AND FLAG_WRITABLE \<noteq> 0"
proof -
  note kinds = object_value_kinds [OF assms(1)]
  let ?h = "decode_object_handle v"
  obtain found where found: "get_property_slot_on_proto_chain H ?h k ?h = Some (Inr found)"
    "\<forall>holder p. found = Some (holder, p) \<longrightarrow> hp_flags p AND FLAG_IS_ACCESSOR = 0"
    using assms(3) by (auto simp: no_accessor_found_def split: option.splits sum.splits)
  have "ordinary_set_key host H v k stored v = Some (Inr Written, H')"
    using assms(4) kinds by (simp add: set_property_completion_def)
  then have "assign_data_property_to_receiver host H v k stored = Some (Inr Written, H')"
    using ordinary_set_result [OF _ kinds(6,4) assms(2) found] by fastforce
  then have "set_property_or_out_of_memory H ?h k stored = Some (Inr Written, H') \<and>
      (\<forall>p. get_property_slot H ?h k = Inr (Some p) \<longrightarrow> hp_flags p AND FLAG_IS_ACCESSOR = 0 \<and> hp_flags p AND FLAG_WRITABLE \<noteq> 0)"
    using kinds by (auto simp: assign_data_property_to_receiver_def split: sum.splits if_splits option.splits)
  then show "set_property H ?h k stored = Some (Inr H')"
    "\<forall>p. get_property_slot H ?h k = Inr (Some p) \<longrightarrow> hp_flags p AND FLAG_IS_ACCESSOR = 0 \<and> hp_flags p AND FLAG_WRITABLE \<noteq> 0"
    by (cases "set_property H ?h k stored"; auto simp: set_property_or_out_of_memory_def split: sum.splits)+
qed

section \<open>Setters\<close>

theorem setter_trains_the_slot:
  \<comment> \<open>whatever the setter did: the slot is trained for the data property it has left behind\<close>
  assumes "is_object v" and "decode_object_handle v \<notin> module_namespace_objects host"
    and "get_property_slot H (decode_object_handle v) k = Inr (Some p)" and "hp_flags p AND FLAG_IS_ACCESSOR \<noteq> 0"
    and "is_callable (hp_setter p)" and "invoke_callable host (hp_setter p) v first H = (Some result, H')" and "\<not> is_exception result"
    and "\<not> ic_slot_is_trio_site slot" and "own_data_property_index H' (decode_object_handle v) k = Inr (Some (shape_id, i))"
  shows "set_prop_ic host H trio_key v k first slot = Some (Inr Written, H', fill_own shape_id i)"
proof -
  have "ordinary_set_key host H v k first v = Some (Inr Written, H')"
    using assms(2-7) object_value_kinds [OF assms(1)] by (subst ordinary_set_key.simps) (simp add: call_setter_def)
  then show ?thesis
    using assms(1,8,9) object_value_kinds [OF assms(1)] by (simp add: set_prop_ic_def set_property_completion_def backfill_set_prop_ic_def)
qed

definition lazy_host :: set_host where
  \<comment> \<open>every setter is \<open>set(v) { Object.defineProperty(this, key, {value: v, writable: false}) }\<close>\<close>
  "lazy_host = \<lparr>module_namespace_objects = {}, non_extensible_objects = {}, regexp_prototype = None, is_last_index = (\<lambda>_. False),
     invoke_callable = (\<lambda>_ this v H. case define_data_property H (decode_object_handle this) (from_name_id 7) v 3 of
        Some (Inr H') \<Rightarrow> (Some encode_undefined, H') | _ \<Rightarrow> (None, H)),
     exotic_set = (\<lambda>_ _ _ _ H. (Inl fail_dispatch, H)), exotic_assign = (\<lambda>_ _ _ H. (Inl fail_dispatch, H))\<rparr>"

definition lazy_before :: object_heap where
  "lazy_before = \<lparr>oh_table = \<lparr>st_shapes = [shape_default\<lparr>shp_transitions := [((from_name_id 7, 11), 1)]\<rparr>,
         shape_default\<lparr>shp_props := [\<lparr>sp_name = from_name_id 7, sp_flags = 11, sp_index = 0\<rparr>], shp_slot_count := 2\<rparr>],
       st_prototypes = {}, st_generation = 0\<rparr>,
     oh_objects = [1 \<mapsto> \<lparr>ho_type = HEAP_TYPE_OBJECT, ho_prototype = PROTO_NULL_SENTINEL, ho_shape = 1,
       ho_slots = [encode_undefined, encode_closure_idx 3, 0, 0]\<rparr>]\<rparr>"

definition lazy_after :: "u64 \<Rightarrow> object_heap" where
  "lazy_after v = \<lparr>oh_table = \<lparr>st_shapes = [shape_default\<lparr>shp_transitions := [((from_name_id 7, 11), 1)]\<rparr>,
         shape_default\<lparr>shp_props := [\<lparr>sp_name = from_name_id 7, sp_flags = 11, sp_index = 0\<rparr>],
           shp_transitions := [((from_name_id 7, 3), 2)], shp_slot_count := 2\<rparr>,
         shape_default\<lparr>shp_props := [\<lparr>sp_name = from_name_id 7, sp_flags = 3, sp_index = 2\<rparr>], shp_slot_count := 3\<rparr>],
       st_prototypes = {}, st_generation = 0\<rparr>,
     oh_objects = [1 \<mapsto> \<lparr>ho_type = HEAP_TYPE_OBJECT, ho_prototype = PROTO_NULL_SENTINEL, ho_shape = 2,
       ho_slots = [0, 0, v, 0]\<rparr>]\<rparr>"

lemma lazy_evaluation:
  "define_accessor_property sample_heap 1 (from_name_id 7) encode_undefined (encode_closure_idx 3) = Some (Inr lazy_before)"
  "define_data_property lazy_before 1 (from_name_id 7) v 3 = Some (Inr (lazy_after v))"
proof -
  have "[0..<2] = [0, 1 :: nat]" by (simp add: upt_rec)
  then show "define_data_property lazy_before 1 (from_name_id 7) v 3 = Some (Inr (lazy_after v))"
    by (simp add: lazy_before_def lazy_after_def cache_evaluation update_object_def clear_slots_def Let_def)
qed (simp add: lazy_before_def sample_heap_def cache_evaluation update_object_def)

theorem setter_trains_read_only_slot:
  \<comment> \<open>the second write changes the read-only property that the setter of the first one has defined\<close>
  "\<exists>H H' H'' filled p p'.
     define_accessor_property sample_heap 1 (from_name_id 7) encode_undefined (encode_closure_idx 3) = Some (Inr H) \<and>
     set_prop_ic lazy_host H trio_names (encode_object_handle 1) (from_name_id 7) 6 empty_ic_slot = Some (Inr Written, H', filled) \<and>
     ic_set H' filled None (encode_object_handle 1) 9 = Some H'' \<and>
     get_property_slot H' 1 (from_name_id 7) = Inr (Some p) \<and> get_property_slot H'' 1 (from_name_id 7) = Inr (Some p') \<and>
     hp_flags p AND FLAG_WRITABLE = 0 \<and> hp_flags p' = hp_flags p \<and> hp_value p = strip_gc_color 6 \<and> hp_value p' = strip_gc_color 9"
proof -
  have na: "HEAP_TYPE_OBJECT \<noteq> HEAP_TYPE_ARRAY" by (simp add: HEAP_TYPE_OBJECT_def HEAP_TYPE_ARRAY_def)
  have l: "shape_lookup (oh_table (lazy_after v)) 2 (from_name_id 7) = Some \<lparr>sp_name = from_name_id 7, sp_flags = 3, sp_index = 2\<rparr>"
    "\<not> is_dictionary (oh_table (lazy_after v)) 2" for v
    by (simp_all add: shape_lookup_def is_dictionary_def shape_at_def get_at_def lazy_after_def shape_find_def shape_default_def)
  have o: "oh_objects (lazy_after v) 1 = Some \<lparr>ho_type = HEAP_TYPE_OBJECT, ho_prototype = PROTO_NULL_SENTINEL, ho_shape = 2,
       ho_slots = [0, 0, v, 0]\<rparr>" for v
    by (simp add: lazy_after_def)
  have read: "get_property_slot (lazy_after v) 1 (from_name_id 7) =
      Inr (Some \<lparr>hp_flags = 3, hp_value = strip_gc_color v, hp_getter = encode_undefined, hp_setter = encode_undefined\<rparr>)" for v
    using o l na by (simp add: get_property_slot_def resolve_object_def ho_is_array_def read_prop_def is_accessor_def
        FLAG_IS_ACCESSOR_def load_value_slot_def)
  have own: "own_data_property_index (lazy_after 6) 1 (from_name_id 7) = Inr (Some (2, 2))"
    using o l na by (simp add: own_data_property_index_def resolve_object_def ho_is_array_def is_accessor_def FLAG_IS_ACCESSOR_def)
  have kinds: "is_callable (strip_gc_color (encode_closure_idx 3))" "\<not> is_exception encode_undefined" by code_simp+
  have setter: "get_property_slot lazy_before 1 (from_name_id 7) =
      Inr (Some \<lparr>hp_flags = 11, hp_value = encode_undefined, hp_getter = strip_gc_color encode_undefined,
        hp_setter = strip_gc_color (encode_closure_idx 3)\<rparr>)"
    using na by (simp add: lazy_before_def get_property_slot_def resolve_object_def ho_is_array_def read_prop_def is_accessor_def
        FLAG_IS_ACCESSOR_def load_value_slot_def getter_index_def setter_index_def shape_lookup_def shape_at_def get_at_def shape_find_def
        shape_default_def)
  have first: "set_prop_ic lazy_host lazy_before trio_names (encode_object_handle 1) (from_name_id 7) 6 empty_ic_slot =
      Some (Inr Written, lazy_after 6, fill_own 2 2)"
    by (rule setter_trains_the_slot [OF _ _ _ _ _ _ kinds(2) empty_ic_slot_site])
       (use small_objects own setter kinds(1) lazy_evaluation(2) in \<open>auto simp: lazy_host_def FLAG_IS_ACCESSOR_def\<close>)
  have "ic_set (lazy_after 6) (fill_own 2 2) None (encode_object_handle 1) 9 = Some (lazy_after 9)"
    using o small_objects by (simp add: ic_set_def fill_own_def write_ic_slot_def ic_kind_is_own_hit_def store_value_slot_def
        update_object_def lazy_after_def)
  then show ?thesis using lazy_evaluation(1) first read [of 6] read [of 9] by (auto simp: FLAG_WRITABLE_def)
qed

section \<open>Writes that hit\<close>

text \<open>
  C25: A write through an inline cache. Let a write to an object miss, go through the full operation
  (which must not end at an accessor property or an exotic object on the prototype chain, so that it
  runs no setter) and train the slot. However the heap has changed since then, if a write hits for any
  ordinary object with the cached shape, the first write was reported as done, the hit does what
  \<open>set_property\<close> does now, and what it overwrites is a writable data property: a property that was
  read-only at the first write, or is read-only now, is never written.
\<close>

theorem cached_writes_are_right:
  assumes "heap_step\<^sup>*\<^sup>* heap_new H0" and "has_room H0 (decode_object_handle object_value)"
    and "is_object object_value" and "\<not> proto_slot_is_exotic (decode_object_handle object_value)"
    and "no_accessor_found H0 (decode_object_handle object_value) k"
    and "set_prop_ic host H0 trio_key object_value k first slot = Some (completion, H, filled)" and "\<not> ic_slot_is_trio_site slot"
    and "heap_step\<^sup>*\<^sup>* H H'"
    and "oh_objects H' (decode_object_handle receiver) = Some object" and "\<not> ho_is_array object"
    and "ic_set H' filled None receiver stored = Some H''"
  shows "completion = Inr Written \<and> set_property H' (decode_object_handle receiver) k stored = Some (Inr H'') \<and>
    (\<exists>p. get_property_slot H' (decode_object_handle receiver) k = Inr (Some p) \<and>
       hp_flags p AND FLAG_IS_ACCESSOR = 0 \<and> hp_flags p AND FLAG_WRITABLE \<noteq> 0)"
proof -
  let ?h = "decode_object_handle object_value"
  have set: "set_property_completion host H0 object_value k first = Some (completion, H)"
    and filled: "filled = backfill_set_prop_ic H trio_key object_value (Some k) (completion = Inr Written) slot"
    using assms(6) by (auto simp: set_prop_ic_def)
  have "completion = Inr Written"
  proof (rule ccontr)
    assume "completion \<noteq> Inr Written"
    then have "filled = write_ic_slot_megamorphic slot" using filled by (simp add: backfill_set_prop_ic_def)
    then show False using assms(11)
      by (auto simp: ic_set_def write_ic_slot_megamorphic_def write_ic_slot_def ic_kind_is_own_hit_def ic_kind_defs Let_def
          split: option.splits if_splits)
  qed
  note w = written_completion [OF assms(3-5), of host first H]
  have set: "set_property H0 ?h k first = Some (Inr H)" and own: "\<forall>p. get_property_slot H0 ?h k = Inr (Some p) \<longrightarrow>
      hp_flags p AND FLAG_IS_ACCESSOR = 0 \<and> hp_flags p AND FLAG_WRITABLE \<noteq> 0"
    using w set \<open>completion = Inr Written\<close> by simp_all
  have "heap_step H0 H" by (rule heap_set [OF assms(2) set])
  then have H: "heap_step\<^sup>*\<^sup>* heap_new H" using assms(1) by simp
  have "heap_ok H0" using reachable_heap_ok [OF assms(1)] by simp
  then obtain p where p: "get_property_slot H ?h k = Inr (Some p)" "hp_flags p AND FLAG_IS_ACCESSOR = 0" "hp_flags p AND FLAG_WRITABLE \<noteq> 0"
    using written_is_writable [OF _ assms(2) set own] by blast
  have "set_property H' (decode_object_handle receiver) k stored = Some (Inr H'') \<and>
      (\<exists>p q. get_property_slot H ?h k = Inr (Some p) \<and> get_property_slot H' (decode_object_handle receiver) k = Inr (Some q) \<and>
         hp_flags q = hp_flags p)"
    using filled_write_hits [OF H assms(8,7) filled assms(9-11)] by blast
  then show ?thesis using p \<open>completion = Inr Written\<close> by auto
qed

theorem cached_writes_are_right_witness:
  \<comment> \<open>the write to the first object misses and fills the slot, the write to the second one hits\<close>
  "\<exists>H0 H H'' filled. twice_defined 7 5 6 = Some H0 \<and>
     set_prop_ic lazy_host H0 trio_names (encode_object_handle 1) (from_name_id 7) 8 empty_ic_slot = Some (Inr Written, H, filled) \<and>
     ic_set H filled None (encode_object_handle 2) 9 = Some H'' \<and> set_property H 2 (from_name_id 7) 9 = Some (Inr H'')"
proof -
  let ?B = "shared_heap 7 1 [5, 0, 0, 0] [6, 0, 0, 0]" and ?H = "shared_heap 7 1 [8, 0, 0, 0] [6, 0, 0, 0]"
  define object where "object = (\<lambda>v :: u64. \<lparr>ho_type = HEAP_TYPE_OBJECT, ho_prototype = PROTO_NULL_SENTINEL, ho_shape = 1, ho_slots = [v, 0, 0, 0]\<rparr>)"
  have o: "oh_objects ?B 1 = Some (object 5)" "oh_objects ?H 2 = Some (object 6)" by (simp_all add: object_def shared_heap_def)
  have plain: "\<not> ho_is_array (object v)" "ho_shape (object v) = 1" for v
    by (simp_all add: object_def ho_is_array_def HEAP_TYPE_OBJECT_def HEAP_TYPE_ARRAY_def)
  have l: "shape_lookup (oh_table ?B) 1 (from_name_id 7) = Some \<lparr>sp_name = from_name_id 7, sp_flags = 7, sp_index = 0\<rparr>"
    by (rule shared_lookup_sample)
  have room: "has_room ?B 1" by (simp add: has_room_def room_def shared_heap_def shape_at_def get_at_def)
  have flags: "hp_flags (read_prop (object 5) \<lparr>sp_name = from_name_id 7, sp_flags = 7, sp_index = 0\<rparr>) = 7"
    by (simp add: read_prop_def)
  have chain: "no_accessor_found ?B 1 (from_name_id 7)"
    using chain_here [OF o(1) small_objects(5) plain(1)] l plain(2) flags by (simp add: no_accessor_found_def FLAG_IS_ACCESSOR_def)
  have own: "get_property_slot ?B 1 (from_name_id 7) = Inr (Some (read_prop (object 5) \<lparr>sp_name = from_name_id 7, sp_flags = 7, sp_index = 0\<rparr>))"
    using o(1) plain l by (simp add: get_property_slot_def resolve_object_def)
  have stored: "set_property ?B 1 (from_name_id 7) 8 = Some (Inr ?H)"
    using o(1) plain l by (simp add: set_property_def resolve_object_def is_accessor_def FLAG_IS_ACCESSOR_def store_value_slot_def update_object_def
        shared_heap_def object_def fun_eq_iff)
  have "ordinary_set_key lazy_host ?B (encode_object_handle 1) (from_name_id 7) 8 (encode_object_handle 1) = Some (Inr Written, ?H)"
    using object_value_kinds [OF small_objects(1)] own flags stored small_objects
    by (subst ordinary_set_key.simps)
       (simp add: lazy_host_def assign_data_property_to_receiver_def set_property_or_out_of_memory_def FLAG_IS_ACCESSOR_def FLAG_WRITABLE_def)
  then have miss: "set_prop_ic lazy_host ?B trio_names (encode_object_handle 1) (from_name_id 7) 8 empty_ic_slot = Some (Inr Written, ?H, fill_own 1 0)"
    using object_value_kinds [OF small_objects(1)] values_backfill [of "[8, 0, 0, 0]" "[6, 0, 0, 0]"] small_objects empty_ic_slot_site
    by (simp add: set_prop_ic_def set_property_completion_def backfill_set_prop_ic_def)
  have hit: "ic_set ?H (fill_own 1 0) None (encode_object_handle 2) 9 = Some (store_value_slot 2 0 9 ?H)"
    using o(2) plain small_objects by (simp add: ic_set_def fill_own_def write_ic_slot_def ic_kind_is_own_hit_def)
  have "set_property ?H 2 (from_name_id 7) 9 = Some (Inr (store_value_slot 2 0 9 ?H))"
    using cached_writes_are_right [OF twice_defined_reachable [OF twice_defined_values [of 5 6]], of "encode_object_handle 1" "from_name_id 7" lazy_host
        trio_names 8 empty_ic_slot "Inr Written" ?H "fill_own 1 0" ?H "encode_object_handle 2" "object 6" 9 "store_value_slot 2 0 9 ?H"]
      small_objects room chain miss empty_ic_slot_site o(2) plain(1) hit by simp
  then show ?thesis using twice_defined_values miss hit by blast
qed

end
