(* ===== verification/Spec2Isabelle.thy ===== *)
theory Spec2Isabelle
  imports Values Artifact IR_Module Opt_Liveness_Correct Opt_Gvn_Correct Exec_Format_Correct Snapshot_Format_Correct Cfg_Fold_Correct Loop_Headers Property_Keys Property_Write_Correct
begin

text \<open>
  wjsm compiles JavaScript and TypeScript to a semantic IR, stores the IR in a portable artifact,
  optimises it, and runs it through a native backend and a garbage-collected host. This development
  covers the parts of that pipeline that are pure computations over explicit data: the IR and its
  analyses, its verifier, the passes of the optimiser that later passes and the backend rely on, and
  the three binary formats. The source paths below are relative to \<open>src/crates/\<close>.

  \<^bold>\<open>How the parts interact.\<close> The front end (not modelled) builds a \<open>Module\<close> (\<open>IR\<close>, \<open>IR_Module\<close>). The
  artifact crate encodes it with a manifest and a source map into a container (\<open>Artifact\<close> over
  \<open>Wire_*\<close> and \<open>Container\<close>); decoding runs the manifest checks (\<open>Manifest_Verify\<close>) and the IR
  verifier (\<open>Verify\<close>), which asks \<open>Dominators\<close> whether definitions dominate uses. The optimiser and
  the backend query the control flow graph and the dominance of \<open>Cfg\<close>, the SSA view of variables
  (\<open>Variable_Ssa\<close>) and the classes of values built on it (\<open>Value_Class\<close>), and rewrite functions in
  place (\<open>Typed_Cfg\<close>, \<open>Cfg_Fold\<close>, \<open>Opt_*\<close>). A native executable carries the artifact and precompiled objects
  (\<open>Exec_Format\<close>); a startup snapshot carries the initial heap (\<open>Snapshot_Format\<close>), whose objects
  (\<open>Object_Heap\<close>) have the hidden classes of \<open>Shape_Table\<close>; the emitted code reads and writes their
  properties through inline caches that the host fills (\<open>Inline_Cache\<close>).

  \<^bold>\<open>Shared layer.\<close> \<open>Prelude\<close>: \<open>u8\<close> to \<open>u64\<close> are words, \<open>usize\<close> is a natural number below \<open>2 ^ 64\<close>,
  \<open>Result\<close> is a sum with the early return \<open>bindr\<close>, loops with early return are \<open>fold_res\<close> and
  \<open>for_each_res\<close>; little-endian bytes and their round trips. \<open>Rust_Str\<close>: strings as scalar values
  with UTF-8 and UTF-16 in both directions. \<open>Errors\<close>: the error values of the verifier.
  \<open>Byte_Reader\<close>: the cursor the two newer formats share, with one calculus for what a reader consumes
  (\<open>eats\<close>) and one for what an accepting reader guarantees (\<open>read_from\<close>).

  \<^bold>\<open>wjsm-ir.\<close>
  \<^item> \<open>IR\<close> (\<open>types.rs\<close>, \<open>lib.rs\<close>, \<open>builtin.rs\<close>): identifiers, the instruction set, terminators, blocks,
    functions, constants, modules. \<open>IR_Module\<close>: splitting off the builtin segment, and which variables
    belong to one frame.
  \<^item> \<open>String_Hash\<close> (\<open>string_hash.rs\<close>) and \<open>Values\<close> (\<open>value.rs\<close>): NaN boxing. The lemmas reduce every
    predicate to bit fields of a word; the kinds of values exclude each other and every encoder
    round-trips.
  \<^item> \<open>Cfg\<close> (\<open>cfg.rs\<close>) and \<open>Dominators\<close> (\<open>dominators.rs\<close>): two independent computations of dominance.
    \<open>Dfs\<close> is depth-first search as a step relation that both searches refine. \<open>Dominance\<close> states once,
    in the locale \<open>ranked_flow\<close>, why the iteration over immediate dominators is right;
    \<open>Cfg_Dominance\<close> and \<open>Dominators_Order\<close> interpret it on the two programs, \<open>Dominators_Fixpoint\<close> and
    \<open>Dominators_Tree\<close> carry it to the interval queries, \<open>Frontiers\<close> to the frontiers. Both agree with
    dominance defined by paths.
  \<^item> \<open>Verify\<close> (\<open>verify.rs\<close>) and \<open>Verify_Sound\<close>: the verifier accepts exactly the well-formed functions
    (a predicate without any of its tables), and executions of accepted code read only assigned values.
  \<^item> \<open>Variable_Ssa\<close> (\<open>variable_ssa.rs\<close>): \<open>Ssa_Placement\<close> (where phi nodes go), \<open>Ssa_Renaming\<close> (the walk
    over the dominator tree), \<open>Ssa_Views\<close> (the equations of the result) and \<open>Ssa_Correct\<close> (agreement
    with executions).
  \<^item> \<open>Js_Exec\<close>: executions with Numbers, booleans and exceptions. The record \<open>js\<close> leaves the values
    open; \<open>js_result\<close> says of an instruction only what the passes take for granted about it, and
    executions of verified code do not get stuck.
  \<^item> \<open>Value_Class\<close> (\<open>value_class.rs\<close>): the values that are always Numbers, and the small integers.
    \<open>Value_Class_Correct\<close>: the loops end, and the greatest fixed point over values, phi nodes and
    variables is sound for executions (the proof carries the SSA view of the variables along); the
    set of small integers is not.
  \<^item> \<open>Typed_Cfg\<close> (\<open>typed_cfg.rs\<close>): rewriting by these classes. \<open>Typed_Cfg_Correct\<close>: the rewritten
    function has exactly the executions of the original. \<open>Loop_Headers\<close>: the loop headers are the
    targets of edges from blocks they dominate.

  \<^bold>\<open>wjsm-artifact-format.\<close> \<open>Wire_Codec\<close> holds the byte layer and the locale \<open>wire_codec\<close>, the contract of
  an encoder and its decoder (a round trip up to a canonical form, and no result beyond the limits);
  \<open>Wire_Program\<close>, \<open>Wire_Module\<close> and \<open>Wire_Manifest\<close> (\<open>wire_v1.rs\<close>, \<open>manifest.rs\<close>) interpret it from
  instructions up to programs and manifests. \<open>Container\<close> (\<open>lib.rs\<close>): header, directory and sections,
  their layout and hashes. \<open>Manifest_Verify\<close> (\<open>verify.rs\<close>): the cross-references and the safety of
  logical URLs. \<open>Artifact\<close>: building and decoding as a whole.

  \<^bold>\<open>wjsm-optimize.\<close> \<open>Opt_Dce\<close>, \<open>Opt_Dce_Correct\<close>, \<open>Opt_Prune\<close> (\<open>dce.rs\<close>, \<open>ir_walk.rs\<close>), \<open>Opt_Gvn\<close>,
  \<open>Opt_Gvn_Correct\<close> (\<open>gvn.rs\<close>), \<open>Opt_Liveness\<close>, \<open>Opt_Liveness_Correct\<close> (\<open>liveness.rs\<close>). A pass is shown to
  keep verified functions verified, and where it is right to keep their executions. For the deletion of
  unused instructions these are the executions under every meaning of instructions in which those listed as
  \<open>pure_instruction\<close> leave the state alone, in functions that use the result of whatever may run code
  unseen (\<open>hidden_code_is_used\<close>); the list is independent of the one in the pass. Where a pass is not right, a theorem runs the code on a
  verified function and shows the difference. \<open>Cfg_Fold\<close> (\<open>cfg_fold.rs\<close>): tests with a known answer,
  branches on constants, unreachable blocks, phi nodes and unused instructions, in rounds over the
  module. \<open>Js_Run\<close>: executions in which constants have their boxed values, strings are told apart, and a
  switch compares immediates as the emitted code does. \<open>Cfg_Fold_Correct\<close>: the first three keep these
  executions, under conditions that name what the rules get wrong (string tests of exceptions,
  loads and calls of \<open>replace\<close> taken for strings, comparisons that may throw, equal switch keys with
  different numbers); cleaning phi nodes can leave a use of a deleted one, and a module is evaluated
  on which it does.

  \<^bold>\<open>wjsm-gc.\<close> \<open>Shape_Table\<close> (\<open>property_key.rs\<close>, \<open>shape.rs\<close>): property keys and the table of hidden classes.
  \<open>Property_Keys\<close>: the three namespaces of keys. \<open>Shape_Table_Correct\<close>: a shape stands for a map from keys
  to properties with disjoint value slots; each operation is one update of that map, well-formedness is
  an invariant of the step relation \<open>table_step\<close>, shapes that are not dictionaries never change (what inline
  caches rely on), and snapshots restore the table. \<open>Object_Heap\<close> (\<open>heap_access.rs\<close>): objects with a
  prototype, a shape and value slots, the property operations, the walks along the prototype chain.
  \<open>Object_Heap_Correct\<close>: each operation updates one object as a map; its invariant \<open>heap_ok\<close> says that a
  dictionary has one owner. \<open>Heap_Steps\<close>: the steps of the heap, allocation and collection included,
  keep it, and the generation of the table tells when a prototype may have changed.

  \<^bold>\<open>Inline caches.\<close> \<open>Inline_Cache\<close>: the slot, how a miss fills it (\<open>wjsm-host-native/src/dispatch/runtime.rs\<close>)
  and what the emitted code decides (\<open>wjsm-backend-native/src/lower/ic_get.rs\<close>, \<open>ic_set.rs\<close>).
  \<open>Inline_Cache_Correct\<close>: a hit answers what the lookup answers on any later heap, fewer than \<open>2 ^ 32\<close>
  steps on; two cases where a hit is wrong are evaluated (own getters, and writes through the slot that
  three names share). \<open>Property_Write\<close> (\<open>runtime.rs\<close>, \<open>property_write.rs\<close>): the full write of a property along the
  prototype chain, which a write that misses runs before it fills the slot. \<open>Property_Write_Correct\<close>: unless a
  setter runs, what it reports as written is a writable data property, and so is what the hits overwrite
  later; a setter that makes the property read-only breaks this, on an evaluated heap.

  \<^bold>\<open>Formats.\<close> \<open>Exec_Format\<close>, \<open>Exec_Format_Correct\<close> (\<open>wjsm-exec-format/src/lib.rs\<close>) and
  \<open>Snapshot_Format\<close>, \<open>Snapshot_Format_Correct\<close> (\<open>wjsm-snapshot-format/src/lib.rs\<close>): round trips, the
  bounds of everything that is accepted, and the absence of panics.

  \<^bold>\<open>Loops and bounds.\<close> No definition uses fuel. A loop whose end is not structural is a
  \<open>partial_function (option)\<close> whose value \<open>None\<close> is a panic or not ending, and that it returns is
  proved (\<open>dominators_compute_total\<close> and the existential conclusions of the properties on \<open>cfg_build\<close>,
  \<open>variable_ssa_build\<close> and the liveness of verified functions). A walk along a cyclic prototype chain does not
  end; that the walk behind a hit ends is part of \<open>cached_reads_are_right\<close>. The eight rounds of \<open>fold_rounds\<close> are a
  limit in the code. Hash maps that are only looked up are
  partial functions, those that are iterated are association lists or lists in the order the code
  uses; hash sets are sets. Counts that the code narrows to \<open>u32\<close> appear as hypotheses of the form
  \<open>\<le> 2 ^ 32\<close>.

  \<^bold>\<open>Parameters.\<close> SHA-256 (\<open>sha2\<close>), the zstd compressor and the generated hash of the semantic ABI are
  arguments. The theorems that need more than a function say what: 32 bytes of digest, decompression
  that inverts compression.

  \<^bold>\<open>Not modelled.\<close> The lowering of syntax trees (\<open>wjsm-semantic\<close>, \<open>wjsm-parser\<close>, \<open>wjsm-module\<close>) works on the
  tree of the third-party SWC parser. The backend drives the third-party Cranelift code generator.
  The host, the builtins and the rest of the heap and collector work on raw memory, atomics and operating-system services
  whose behaviour is not in the sources. Of the optimiser, inlining, escape analysis, loop-invariant
  code motion and the speculative rewrites are left out, of the IR crate the
  backend's constant tables and the numbering of intrinsic sites; of the executable format, the search for
  the stub binary in the file system. \<open>debug_assert!\<close> is not part of the release behaviour.
\<close>

end
